(* ===== verification/Prelude.thy ===== *)
theory Prelude
  imports Main "HOL-Library.Word"
begin

text \<open>
  Shared vocabulary of the development: the widths of the C integer types of
  \<^verbatim>\<open>kernel/include/types.h\<close>, the page macros of \<^verbatim>\<open>kernel/include/riscv.h\<close>,
  the outcome of code that may call \<^verbatim>\<open>panic\<close>, and the generic lemmas on lists and
  words that the component theories use.
\<close>

unbundle bit_operations_syntax

named_theorems page_simps \<open>arithmetic of page-aligned addresses\<close>
named_theorems res_simps \<open>sequencing of operations that may panic\<close>

section \<open>Machine integers and page macros\<close>

type_synonym u8 = "8 word"
type_synonym u16 = "16 word"
type_synonym u32 = "32 word"
type_synonym u64 = "64 word"
type_synonym i32 = "32 word"

abbreviation (input) PGSIZE :: u64 where
  "PGSIZE \<equiv> 4096"

definition PGROUNDDOWN :: "u64 \<Rightarrow> u64" where
  "PGROUNDDOWN a = a AND NOT (PGSIZE - 1)"

definition PGROUNDUP :: "u64 \<Rightarrow> u64" where
  "PGROUNDUP sz = (sz + PGSIZE - 1) AND NOT (PGSIZE - 1)"

lemma and_not_low_mask:
  fixes w :: "'a::len word"
  shows "w AND NOT (mask n) = w - take_bit n w"
proof -
  have "NOT w AND (w AND mask n) = 0"
    by (rule bit_eqI) (auto simp: bit_simps)
  then have "w - take_bit n w = w AND NOT (w AND mask n)"
    by (simp add: disjunctive_diff_eq_and_not take_bit_eq_mask)
  also have "\<dots> = w AND NOT (mask n)"
    by (rule bit_eqI) (auto simp: bit_simps)
  finally show ?thesis by simp
qed

lemma page_mask: "(4095 :: u64) = mask 12"
  by (simp add: mask_eq_exp_minus_1)

lemma PGROUNDDOWN_eq: "PGROUNDDOWN a = a - take_bit 12 a"
  using and_not_low_mask [of a 12] by (simp add: PGROUNDDOWN_def page_mask)

lemma unat_take_bit12: "unat (take_bit 12 (a :: u64)) = unat a mod 4096"
  by (simp add: take_bit_eq_mod unat_mod)

lemma unat_PGROUNDDOWN [page_simps]: "unat (PGROUNDDOWN a) = unat a div 4096 * 4096"
proof -
  have "take_bit 12 a \<le> a"
    by (simp add: word_le_nat_alt unat_take_bit12)
  then have "unat (PGROUNDDOWN a) = unat a - unat a mod 4096"
    by (simp add: PGROUNDDOWN_eq unat_sub unat_take_bit12)
  then show ?thesis
    by (simp add: minus_mod_eq_div_mult)
qed

lemma PGROUNDUP_alt: "PGROUNDUP sz = PGROUNDDOWN (sz + 4095)"
  by (simp add: PGROUNDUP_def PGROUNDDOWN_def add.commute)

lemma unat_PGROUNDUP [page_simps]:
  "unat sz + 4095 < 2 ^ 64 \<Longrightarrow> unat (PGROUNDUP sz) = (unat sz + 4095) div 4096 * 4096"
  by (simp add: PGROUNDUP_alt unat_PGROUNDDOWN unat_word_ariths)

text \<open>The one case the macro gets wrong: within a page of \<open>2\<^sup>6\<^sup>4\<close> it wraps to zero.\<close>

lemma PGROUNDUP_wraps:
  assumes "2 ^ 64 \<le> unat sz + 4095"
  shows "PGROUNDUP sz = 0"
proof -
  have "unat sz < 2 ^ 64"
    using unsigned_less [of sz] by simp
  with assms have "(unat sz + 4095) mod 2 ^ 64 = unat sz + 4095 - 2 ^ 64"
    by (simp add: mod_if)
  moreover have "unat sz + 4095 - 2 ^ 64 < 4096"
    using \<open>unat sz < 2 ^ 64\<close> by simp
  ultimately have "unat (PGROUNDUP sz) = 0"
    by (simp add: PGROUNDUP_alt unat_PGROUNDDOWN unat_word_ariths)
  then show ?thesis
    by (simp add: unat_0_iff)
qed

definition page_aligned :: "u64 \<Rightarrow> bool" where
  "page_aligned a \<longleftrightarrow> a mod PGSIZE = 0"

lemma page_aligned_unat [page_simps]: "page_aligned a \<longleftrightarrow> unat a mod 4096 = 0"
  by (simp add: page_aligned_def unat_mod flip: unat_0_iff)

lemma page_aligned_PGROUNDDOWN [simp]: "page_aligned (PGROUNDDOWN a)"
  by (simp add: page_simps)

lemma page_aligned_PGROUNDUP [simp]: "page_aligned (PGROUNDUP a)"
  by (simp add: PGROUNDUP_alt)

lemma PGROUNDDOWN_le: "PGROUNDDOWN a \<le> a"
  by (simp add: word_le_nat_alt page_simps)

lemma PGROUNDUP_ge:
  "unat sz + 4095 < 2 ^ 64 \<Longrightarrow> sz \<le> PGROUNDUP sz"
  by (simp add: word_le_nat_alt page_simps)

lemma PGROUNDDOWN_aligned [simp]: "page_aligned a \<Longrightarrow> PGROUNDDOWN a = a"
  by (simp add: word_unat_eq_iff page_simps) (metis add.right_neutral div_mult_mod_eq)

lemma unat_max64: "unat (- 1 :: u64) = 2 ^ 64 - 1"
  by (simp add: unsigned_minus_1_eq_mask mask_eq_exp_minus_1)

lemma unat_lt32: "unat (n :: u32) < 2 ^ 32"
proof -
  have "unat n < 2 ^ LENGTH(32)" by (rule unsigned_less)
  then show ?thesis by simp
qed

lemma unat_lt64: "unat (n :: u64) < 2 ^ 64"
proof -
  have "unat n < 2 ^ LENGTH(64)" by (rule unsigned_less)
  then show ?thesis by simp
qed

lemma unat_ucast32_64 [simp]: "unat (ucast (n :: u32) :: u64) = unat n"
  using unat_lt32 [of n] by (simp add: unsigned_ucast_eq take_bit_nat_eq_self)

section \<open>Operations that may panic\<close>

text \<open>
  \<^verbatim>\<open>panic(s)\<close> never returns: it prints \<open>s\<close> and spins. An operation that may call
  it has a value of this type, and whatever follows a panic is not executed.
\<close>

datatype 'a res = Ok 'a | Panic string

fun rbind :: "'a res \<Rightarrow> ('a \<Rightarrow> 'b res) \<Rightarrow> 'b res" where
  "rbind (Ok x) f = f x"
| "rbind (Panic s) f = Panic s"

fun rmap :: "('a \<Rightarrow> 'b) \<Rightarrow> 'a res \<Rightarrow> 'b res" where
  "rmap f (Ok x) = Ok (f x)"
| "rmap f (Panic s) = Panic s"

lemma rbind_Ok_iff [res_simps]: "rbind m f = Ok y \<longleftrightarrow> (\<exists>x. m = Ok x \<and> f x = Ok y)"
  by (cases m) auto

lemma rbind_Panic_iff [res_simps]:
  "rbind m f = Panic s \<longleftrightarrow> m = Panic s \<or> (\<exists>x. m = Ok x \<and> f x = Panic s)"
  by (cases m) auto

lemma rmap_Ok_iff [res_simps]: "rmap f m = Ok y \<longleftrightarrow> (\<exists>x. m = Ok x \<and> y = f x)"
  by (cases m) auto

lemma rbind_cong [fundef_cong]:
  "m = m' \<Longrightarrow> (\<And>x. m' = Ok x \<Longrightarrow> f x = f' x) \<Longrightarrow> rbind m f = rbind m' f'"
  by (cases m) auto

text \<open>A counted loop whose body may panic.\<close>

fun rfold :: "('a \<Rightarrow> 's \<Rightarrow> 's res) \<Rightarrow> 'a list \<Rightarrow> 's \<Rightarrow> 's res" where
  "rfold f [] s = Ok s"
| "rfold f (x # xs) s = rbind (f x s) (rfold f xs)"

lemma rfold_invariant:
  assumes "I s" and "\<And>x s. x \<in> set xs \<Longrightarrow> I s \<Longrightarrow> \<exists>s'. f x s = Ok s' \<and> I s'"
  shows "\<exists>s'. rfold f xs s = Ok s' \<and> I s'"
  using assms
proof (induction xs arbitrary: s)
  case (Cons x xs)
  then obtain s1 where s1: "f x s = Ok s1" "I s1" by (meson list.set_intros(1))
  with Cons show ?case by simp
qed simp

section \<open>Lists over an index range\<close>

lemma map_upt_split_first:
  "0 < n \<Longrightarrow> map f [0..<n] = f 0 # map (\<lambda>k. f (Suc k)) [0..<n - 1]"
proof (cases n)
  case (Suc m)
  have "map f [Suc 0..<Suc m] = map f (map Suc [0..<m])"
    by (simp only: map_Suc_upt)
  with Suc show ?thesis
    by (simp add: upt_conv_Cons comp_def del: upt_Suc)
qed simp

lemma nth_upd: "xs[i := x] ! j = (if i = j \<and> i < length xs then x else xs ! j)"
  by (cases "i < length xs") (auto simp: nth_list_update list_update_beyond)

lemma mod_offset_neq:
  fixes k n m r :: nat
  assumes "k < n" and "n < m"
  shows "(r + k) mod m \<noteq> (r + n) mod m"
proof
  assume "(r + k) mod m = (r + n) mod m"
  then have "m dvd (r + n) - (r + k)"
    using assms(1) mod_eq_dvd_iff_nat [of "r + k" "r + n" m] by simp
  with assms show False
    by (auto dest: dvd_imp_le)
qed

text \<open>Writing the slot behind the last element of a circular array appends to its contents.\<close>

lemma ring_append:
  assumes "length xs = m" and "n < m"
  shows "map (\<lambda>k. xs[(r + n) mod m := c] ! ((r + k) mod m)) [0..<Suc n] =
         map (\<lambda>k. xs ! ((r + k) mod m)) [0..<n] @ [c]"
proof -
  have "xs[(r + n) mod m := c] ! ((r + k) mod m) = xs ! ((r + k) mod m)" if "k < n" for k
    using mod_offset_neq [OF that assms(2), of r] by (metis nth_list_update_neq)
  moreover have "xs[(r + n) mod m := c] ! ((r + n) mod m) = c"
    using assms by simp
  ultimately show ?thesis by simp
qed

section \<open>First match in an index range\<close>

text \<open>
  The kernel scans its tables with \<^verbatim>\<open>for(i = 0; i < N; i++) if(P(i)) ...\<close> and stops at
  the first index that satisfies the test; \<open>first_idx\<close> is that scan.
\<close>

fun first_idx :: "(nat \<Rightarrow> bool) \<Rightarrow> nat list \<Rightarrow> nat option" where
  "first_idx P [] = None"
| "first_idx P (i # is) = (if P i then Some i else first_idx P is)"

lemma first_idx_None [simp]: "first_idx P is = None \<longleftrightarrow> (\<forall>i \<in> set is. \<not> P i)"
  by (induction "is") auto

lemma first_idx_SomeD:
  "first_idx P is = Some i \<Longrightarrow> i \<in> set is \<and> P i"
  by (induction "is") (auto split: if_splits)

lemma first_idx_cong: "(\<And>i. i \<in> set is \<Longrightarrow> P i = Q i) \<Longrightarrow> first_idx P is = first_idx Q is"
  by (induction "is") auto

lemma first_idx_upt_step:
  assumes "a < b"
  shows "(if P a then i = a
          else Suc a \<le> i \<and> i < b \<and> P i \<and> (\<forall>j. Suc a \<le> j \<and> j < i \<longrightarrow> \<not> P j)) \<longleftrightarrow>
         a \<le> i \<and> i < b \<and> P i \<and> (\<forall>j. a \<le> j \<and> j < i \<longrightarrow> \<not> P j)"
proof (cases "P a")
  case True
  with assms show ?thesis by (auto dest: le_neq_implies_less)
next
  case False
  then show ?thesis
    by (metis Suc_leD Suc_leI le_neq_implies_less)
qed

lemma first_idx_upt_iff:
  "first_idx P [a..<b] = Some i \<longleftrightarrow> a \<le> i \<and> i < b \<and> P i \<and> (\<forall>j. a \<le> j \<and> j < i \<longrightarrow> \<not> P j)"
proof (induction "b - a" arbitrary: a)
  case 0
  then show ?case by auto
next
  case (Suc n)
  then have ab: "a < b" and n: "n = b - Suc a" by auto
  have "[a..<b] = a # [Suc a..<b]"
    using ab by (rule upt_conv_Cons)
  then show ?case
    using ab Suc(1) [OF n] first_idx_upt_step [OF ab, of P i] by auto
qed

lemma first_idx_upt_ex:
  "(\<exists>i. first_idx P [a..<b] = Some i) \<longleftrightarrow> (\<exists>i. a \<le> i \<and> i < b \<and> P i)"
proof -
  have "(\<exists>i. first_idx P [a..<b] = Some i) \<longleftrightarrow> first_idx P [a..<b] \<noteq> None"
    by (simp only: not_None_eq)
  also have "\<dots> \<longleftrightarrow> (\<exists>i. a \<le> i \<and> i < b \<and> P i)"
    by auto
  finally show ?thesis .
qed

end
