(* ===== verification/Fifo.thy ===== *)
theory Fifo
  imports Prelude
begin

text \<open>
  The contract of the kernel's bounded byte queues. The console and UART drivers push
  received bytes into a \<^verbatim>\<open>struct ringbuffer\<close> and pop them when a process reads; a pipe
  keeps its bytes in the same way. Both providers promise the laws of the locale
  \<open>bounded_fifo\<close>, and what the drivers' loops do with a queue is proved here once.
\<close>

section \<open>Loops over a queue\<close>

text \<open>
  \<open>feed\<close> pushes a sequence of bytes and counts the ones accepted and the ones refused;
  \<open>take_upto\<close> pops at most \<open>n\<close> bytes and stops at the first pop that fails.
\<close>

fun feed :: "('s \<Rightarrow> 'a \<Rightarrow> bool \<times> 's) \<Rightarrow> 's \<Rightarrow> 'a list \<Rightarrow> nat \<times> nat \<times> 's" where
  "feed push s [] = (0, 0, s)"
| "feed push s (x # xs) =
     (let (ok, s1) = push s x; (a, d, s2) = feed push s1 xs
      in if ok then (Suc a, d, s2) else (a, Suc d, s2))"

fun take_upto :: "('s \<Rightarrow> 'a option \<times> 's) \<Rightarrow> nat \<Rightarrow> 's \<Rightarrow> 'a list \<times> 's" where
  "take_upto pop 0 s = ([], s)"
| "take_upto pop (Suc n) s =
     (case pop s of
        (None, s1) \<Rightarrow> ([], s1)
      | (Some x, s1) \<Rightarrow> (let (xs, s2) = take_upto pop n s1 in (x # xs, s2)))"

section \<open>The contract\<close>

locale bounded_fifo =
  fixes invar :: "'s \<Rightarrow> bool"
    and contents :: "'s \<Rightarrow> 'a list"
    and cap :: "'s \<Rightarrow> nat"
    and push :: "'s \<Rightarrow> 'a \<Rightarrow> bool \<times> 's"
    and pop :: "'s \<Rightarrow> 'a option \<times> 's"
  assumes push_full: "invar s \<Longrightarrow> cap s \<le> length (contents s) \<Longrightarrow> push s x = (False, s)"
    and push_room: "invar s \<Longrightarrow> length (contents s) < cap s \<Longrightarrow>
      fst (push s x) \<and> invar (snd (push s x)) \<and>
      contents (snd (push s x)) = contents s @ [x] \<and> cap (snd (push s x)) = cap s"
    and pop_empty: "invar s \<Longrightarrow> contents s = [] \<Longrightarrow> pop s = (None, s)"
    and pop_some: "invar s \<Longrightarrow> contents s = x # xs \<Longrightarrow>
      fst (pop s) = Some x \<and> invar (snd (pop s)) \<and>
      contents (snd (pop s)) = xs \<and> cap (snd (pop s)) = cap s"
begin

lemma feed_correct:
  assumes "invar s" and "length (contents s) \<le> cap s"
  shows "\<exists>s'. feed push s xs =
      (min (cap s - length (contents s)) (length xs),
       length xs - (cap s - length (contents s)), s') \<and>
    invar s' \<and> cap s' = cap s \<and>
    contents s' = contents s @ take (cap s - length (contents s)) xs"
  using assms
proof (induction xs arbitrary: s)
  case Nil
  then show ?case by simp
next
  case (Cons x xs)
  show ?case
  proof (cases "length (contents s) < cap s")
    case True
    obtain s1 where s1: "push s x = (True, s1)" "invar s1"
      "contents s1 = contents s @ [x]" "cap s1 = cap s"
      using push_room [OF Cons.prems(1) True, of x] by (cases "push s x") auto
    with True have "length (contents s1) \<le> cap s1" by simp
    from Cons.IH [OF s1(2) this] show ?thesis
      using s1 True by (auto simp: Let_def take_Cons' Suc_diff_Suc)
  next
    case False
    with Cons.prems have "push s x = (False, s)" by (simp add: push_full)
    with Cons.IH [OF Cons.prems] False show ?thesis
      by (auto simp: Let_def)
  qed
qed

lemma take_upto_correct:
  assumes "invar s"
  shows "fst (take_upto pop n s) = take n (contents s)"
    and "invar (snd (take_upto pop n s))"
    and "contents (snd (take_upto pop n s)) = drop n (contents s)"
    and "cap (snd (take_upto pop n s)) = cap s"
proof -
  have "fst (take_upto pop n s) = take n (contents s) \<and> invar (snd (take_upto pop n s)) \<and>
    contents (snd (take_upto pop n s)) = drop n (contents s) \<and>
    cap (snd (take_upto pop n s)) = cap s"
    using assms
  proof (induction n arbitrary: s)
    case 0
    then show ?case by simp
  next
    case (Suc n)
    show ?case
    proof (cases "contents s")
      case Nil
      with Suc.prems show ?thesis by (simp add: pop_empty)
    next
      case (Cons x xs)
      obtain s1 where s1: "pop s = (Some x, s1)" "invar s1" "contents s1 = xs" "cap s1 = cap s"
        using pop_some [OF Suc.prems Cons] by (cases "pop s") auto
      from Suc.IH [OF s1(2)] s1 Cons show ?thesis
        by (auto simp: Let_def split: prod.splits)
    qed
  qed
  then show "fst (take_upto pop n s) = take n (contents s)"
    and "invar (snd (take_upto pop n s))"
    and "contents (snd (take_upto pop n s)) = drop n (contents s)"
    and "cap (snd (take_upto pop n s)) = cap s"
    by auto
qed

text \<open>What is fed into an empty queue within its capacity comes out in the same order.\<close>

lemma feed_take_roundtrip:
  assumes "invar s" and "contents s = []" and "length xs \<le> cap s"
  shows "fst (take_upto pop (length xs) (snd (snd (feed push s xs)))) = xs"
proof -
  from feed_correct [OF assms(1), of xs] assms(2,3)
  obtain s' where s': "snd (snd (feed push s xs)) = s'" "invar s'" "contents s' = xs"
    by auto
  from take_upto_correct(1) [OF s'(2), of "length xs"] s' show ?thesis by simp
qed

end

end
