(* ===== verification/RingBuffer.thy ===== *)
theory RingBuffer
  imports Fifo
begin

text \<open>
  \<^verbatim>\<open>kernel/driver/ringbuffer.c\<close>: a byte ring over an array of \<open>capacity + 1\<close> slots, one
  of which stays unused so that full and empty differ. All indices are C \<^verbatim>\<open>uint\<close>s, so the
  arithmetic is that of 32-bit words; the array is a list that the operations update by index.
\<close>

section \<open>State and operations\<close>

record ringbuffer =
  rb_buf :: "u8 list"
  rb_capacity :: u32
  rb_head :: u32
  rb_tail :: u32

definition ringbuffer_init :: "u8 list \<Rightarrow> u32 \<Rightarrow> ringbuffer" where
  "ringbuffer_init buf capacity =
     \<lparr>rb_buf = buf, rb_capacity = capacity, rb_head = 0, rb_tail = 0\<rparr>"

definition ringbuffer_capacity :: "ringbuffer \<Rightarrow> u32" where
  "ringbuffer_capacity r = rb_capacity r"

definition ringbuffer_used :: "ringbuffer \<Rightarrow> u32" where
  "ringbuffer_used r =
     (if rb_head r \<le> rb_tail r then rb_tail r - rb_head r
      else rb_capacity r + 1 - rb_head r + rb_tail r)"

definition ringbuffer_free :: "ringbuffer \<Rightarrow> u32" where
  "ringbuffer_free r = rb_capacity r - ringbuffer_used r"

definition ringbuffer_empty :: "ringbuffer \<Rightarrow> bool" where
  "ringbuffer_empty r \<longleftrightarrow> rb_head r = rb_tail r"

definition ringbuffer_full :: "ringbuffer \<Rightarrow> bool" where
  "ringbuffer_full r \<longleftrightarrow> (rb_tail r + 1) mod (rb_capacity r + 1) = rb_head r"

definition ringbuffer_push :: "ringbuffer \<Rightarrow> u8 \<Rightarrow> bool \<times> ringbuffer" where
  "ringbuffer_push r c =
     (if ringbuffer_full r then (False, r)
      else (True, r\<lparr>rb_buf := (rb_buf r)[unat (rb_tail r) := c],
                    rb_tail := (rb_tail r + 1) mod (rb_capacity r + 1)\<rparr>))"

definition ringbuffer_pop :: "ringbuffer \<Rightarrow> u8 option \<times> ringbuffer" where
  "ringbuffer_pop r =
     (if ringbuffer_empty r then (None, r)
      else (Some (rb_buf r ! unat (rb_head r)),
            r\<lparr>rb_head := (rb_head r + 1) mod (rb_capacity r + 1)\<rparr>))"

definition ringbuffer_reset :: "ringbuffer \<Rightarrow> ringbuffer" where
  "ringbuffer_reset r = r\<lparr>rb_head := 0, rb_tail := 0\<rparr>"

section \<open>Well-formedness and abstraction\<close>

text \<open>
  The backing array has \<open>capacity + 1\<close> slots, as the header file asks, and the indices stay
  inside it; \<open>capacity + 1\<close> itself must not wrap.
\<close>

definition rb_slots :: "ringbuffer \<Rightarrow> nat" where
  "rb_slots r = Suc (unat (rb_capacity r))"

definition rb_wf :: "ringbuffer \<Rightarrow> bool" where
  "rb_wf r \<longleftrightarrow> rb_slots r < 2 ^ 32 \<and> length (rb_buf r) = rb_slots r \<and>
     unat (rb_head r) < rb_slots r \<and> unat (rb_tail r) < rb_slots r"

definition rb_len :: "ringbuffer \<Rightarrow> nat" where
  "rb_len r = (unat (rb_tail r) + rb_slots r - unat (rb_head r)) mod rb_slots r"

definition rb_contents :: "ringbuffer \<Rightarrow> u8 list" where
  "rb_contents r = map (\<lambda>k. rb_buf r ! ((unat (rb_head r) + k) mod rb_slots r)) [0..<rb_len r]"

lemma rb_wfD:
  assumes "rb_wf r"
  shows "rb_slots r < 2 ^ 32" "length (rb_buf r) = rb_slots r"
    "unat (rb_head r) < rb_slots r" "unat (rb_tail r) < rb_slots r" "0 < rb_slots r"
  using assms by (auto simp: rb_wf_def rb_slots_def)

lemma unat_next_slot:
  assumes "rb_wf r" and "unat w < rb_slots r"
  shows "unat ((w + 1) mod (rb_capacity r + 1)) = Suc (unat w) mod rb_slots r"
proof -
  have "unat (rb_capacity r + 1) = rb_slots r"
    using rb_wfD(1) [OF assms(1)] by (simp add: rb_slots_def unat_word_ariths)
  moreover have "unat (w + 1) = Suc (unat w)"
    using assms rb_wfD(1) [OF assms(1)] by (simp add: unat_word_ariths)
  ultimately show ?thesis
    by (simp add: unat_mod)
qed

lemma rb_len_cases:
  assumes "rb_wf r"
  shows "rb_len r = (if unat (rb_head r) \<le> unat (rb_tail r)
      then unat (rb_tail r) - unat (rb_head r)
      else rb_slots r - unat (rb_head r) + unat (rb_tail r))"
  using rb_wfD [OF assms] by (auto simp: rb_len_def mod_if)

lemma rb_tail_eq:
  assumes "rb_wf r"
  shows "unat (rb_tail r) = (unat (rb_head r) + rb_len r) mod rb_slots r"
  using rb_wfD [OF assms] by (auto simp: rb_len_cases [OF assms] mod_if)

lemma rb_len_bound: "rb_wf r \<Longrightarrow> rb_len r \<le> unat (rb_capacity r)"
  using rb_wfD(5) [of r] by (simp add: rb_len_def rb_slots_def less_Suc_eq_le)

lemma rb_empty_iff: "rb_wf r \<Longrightarrow> ringbuffer_empty r \<longleftrightarrow> rb_len r = 0"
  using rb_wfD [of r] by (auto simp: ringbuffer_empty_def rb_len_cases word_unat_eq_iff)

lemma rb_full_iff:
  assumes "rb_wf r"
  shows "ringbuffer_full r \<longleftrightarrow> rb_len r = unat (rb_capacity r)"
proof -
  have "ringbuffer_full r \<longleftrightarrow> Suc (unat (rb_tail r)) mod rb_slots r = unat (rb_head r)"
    using unat_next_slot [OF assms, of "rb_tail r"] rb_wfD(4) [OF assms]
    by (simp add: ringbuffer_full_def word_unat_eq_iff)
  then show ?thesis
    using rb_wfD [OF assms] by (auto simp: rb_len_cases [OF assms] rb_slots_def mod_if split: if_splits)
qed

lemma rb_used_len:
  assumes "rb_wf r"
  shows "unat (ringbuffer_used r) = rb_len r"
proof (cases "rb_head r \<le> rb_tail r")
  case True
  then show ?thesis
    using rb_len_cases [OF assms] by (simp add: ringbuffer_used_def unat_sub word_le_nat_alt)
next
  case False
  have s: "unat (rb_capacity r + 1) = rb_slots r"
    using rb_wfD(1) [OF assms] by (simp add: rb_slots_def unat_word_ariths)
  have "unat (rb_capacity r + 1 - rb_head r) = rb_slots r - unat (rb_head r)"
    using rb_wfD(3) [OF assms] s by (simp add: unat_sub word_le_nat_alt)
  moreover have "rb_slots r - unat (rb_head r) + unat (rb_tail r) < 2 ^ 32"
    using False rb_wfD [OF assms] by (simp add: word_le_nat_alt)
  ultimately show ?thesis
    using False rb_len_cases [OF assms]
    by (simp add: ringbuffer_used_def word_le_nat_alt unat_word_ariths(1))
qed

section \<open>The operations implement a bounded queue\<close>

lemma rb_push_room:
  assumes "rb_wf r" and "rb_len r < unat (rb_capacity r)"
  shows "fst (ringbuffer_push r c)" and "rb_wf (snd (ringbuffer_push r c))"
    and "rb_len (snd (ringbuffer_push r c)) = Suc (rb_len r)"
    and "rb_slots (snd (ringbuffer_push r c)) = rb_slots r"
proof -
  note wf = rb_wfD [OF assms(1)]
  have nf: "\<not> ringbuffer_full r"
    using assms rb_full_iff by simp
  then show "fst (ringbuffer_push r c)"
    by (simp add: ringbuffer_push_def)
  show slots: "rb_slots (snd (ringbuffer_push r c)) = rb_slots r"
    using nf by (simp add: ringbuffer_push_def rb_slots_def)
  have tail: "unat (rb_tail (snd (ringbuffer_push r c))) = Suc (unat (rb_tail r)) mod rb_slots r"
    using nf unat_next_slot [OF assms(1) wf(4)] by (simp add: ringbuffer_push_def)
  then show wf': "rb_wf (snd (ringbuffer_push r c))"
    using nf wf slots by (simp add: rb_wf_def ringbuffer_push_def)
  show "rb_len (snd (ringbuffer_push r c)) = Suc (rb_len r)"
    unfolding rb_len_cases [OF wf'] slots tail
    using nf wf assms(2) rb_len_cases [OF assms(1)]
    by (auto simp: ringbuffer_push_def mod_if rb_slots_def split: if_splits)
qed

lemma rb_push_contents:
  assumes "rb_wf r" and "rb_len r < unat (rb_capacity r)"
  shows "rb_contents (snd (ringbuffer_push r c)) = rb_contents r @ [c]"
proof -
  note wf = rb_wfD [OF assms(1)] and push = rb_push_room [OF assms, of c]
  have nf: "\<not> ringbuffer_full r"
    using assms rb_full_iff by simp
  let ?h = "unat (rb_head r)" and ?t = "unat (rb_tail r)" and ?n = "rb_slots r"
  have "rb_contents (snd (ringbuffer_push r c)) =
      map (\<lambda>k. (rb_buf r)[?t := c] ! ((?h + k) mod ?n)) [0..<Suc (rb_len r)]"
    unfolding rb_contents_def push(3,4) using nf by (simp add: ringbuffer_push_def)
  also have "\<dots> = map (\<lambda>k. rb_buf r ! ((?h + k) mod ?n)) [0..<rb_len r] @ [c]"
    using wf assms(2) rb_tail_eq [OF assms(1)] ring_append [of "rb_buf r" ?n "rb_len r" ?h c]
    by (simp add: rb_slots_def del: upt_Suc)
  finally show ?thesis
    by (simp add: rb_contents_def)
qed

lemma rb_pop_nonempty:
  assumes "rb_wf r" and "rb_contents r = x # xs"
  shows "fst (ringbuffer_pop r) = Some x" and "rb_wf (snd (ringbuffer_pop r))"
    and "rb_contents (snd (ringbuffer_pop r)) = xs"
    and "rb_slots (snd (ringbuffer_pop r)) = rb_slots r"
proof -
  note wf = rb_wfD [OF assms(1)]
  have pos: "0 < rb_len r"
    using assms(2) by (cases "rb_len r") (auto simp: rb_contents_def)
  then have ne: "\<not> ringbuffer_empty r"
    using rb_empty_iff [OF assms(1)] by simp
  let ?h = "unat (rb_head r)" and ?n = "rb_slots r"
  show slots: "rb_slots (snd (ringbuffer_pop r)) = ?n"
    using ne by (simp add: ringbuffer_pop_def rb_slots_def)
  have head: "unat (rb_head (snd (ringbuffer_pop r))) = Suc ?h mod ?n"
    using ne unat_next_slot [OF assms(1) wf(3)] by (simp add: ringbuffer_pop_def)
  then show wf': "rb_wf (snd (ringbuffer_pop r))"
    using ne wf slots by (simp add: rb_wf_def ringbuffer_pop_def)
  have len: "rb_len (snd (ringbuffer_pop r)) = rb_len r - 1"
    unfolding rb_len_cases [OF wf'] slots head
    using ne wf pos rb_len_cases [OF assms(1)]
    by (auto simp: ringbuffer_pop_def mod_if rb_slots_def split: if_splits)
  have split: "rb_contents r = rb_buf r ! ?h # map (\<lambda>k. rb_buf r ! ((?h + Suc k) mod ?n)) [0..<rb_len r - 1]"
    unfolding rb_contents_def using wf(3) by (subst map_upt_split_first [OF pos]) simp
  then show "fst (ringbuffer_pop r) = Some x"
    using ne assms(2) by (simp add: ringbuffer_pop_def)
  have "(Suc ?h mod ?n + k) mod ?n = (?h + Suc k) mod ?n" for k
    by (simp add: mod_simps)
  then have "rb_contents (snd (ringbuffer_pop r)) =
      map (\<lambda>k. rb_buf r ! ((?h + Suc k) mod ?n)) [0..<rb_len r - 1]"
    unfolding rb_contents_def len slots head using ne by (simp add: ringbuffer_pop_def)
  then show "rb_contents (snd (ringbuffer_pop r)) = xs"
    using split assms(2) by simp
qed

lemma length_rb_contents [simp]: "length (rb_contents r) = rb_len r"
  by (simp add: rb_contents_def)

interpretation rbq: bounded_fifo rb_wf rb_contents "\<lambda>r. unat (rb_capacity r)"
  ringbuffer_push ringbuffer_pop
proof (unfold_locales, goal_cases)
  case (1 s x)
  then have "ringbuffer_full s"
    using rb_len_bound [of s] by (simp add: rb_full_iff)
  then show ?case by (simp add: ringbuffer_push_def)
next
  case (2 s x)
  then show ?case
    using rb_push_room [of s x] rb_push_contents [of s x] by (simp add: rb_slots_def)
next
  case (3 s)
  then have "ringbuffer_empty s"
    by (metis length_rb_contents list.size(3) rb_empty_iff)
  then show ?case by (simp add: ringbuffer_pop_def)
next
  case (4 s x xs)
  then show ?case
    using rb_pop_nonempty [of s x xs] by (simp add: rb_slots_def)
qed

lemma rb_init_wf:
  "length buf = Suc (unat c) \<Longrightarrow> Suc (unat c) < 2 ^ 32 \<Longrightarrow>
   rb_wf (ringbuffer_init buf c) \<and> rb_contents (ringbuffer_init buf c) = []"
  by (simp add: rb_wf_def rb_slots_def ringbuffer_init_def rb_contents_def rb_len_def)

lemma rb_reset_wf:
  "rb_wf r \<Longrightarrow> rb_wf (ringbuffer_reset r) \<and> rb_contents (ringbuffer_reset r) = []"
  by (simp add: rb_wf_def rb_slots_def ringbuffer_reset_def rb_contents_def rb_len_def)

lemma rb_free_room:
  assumes "rb_wf r"
  shows "unat (ringbuffer_free r) = unat (rb_capacity r) - rb_len r"
  using rb_used_len [OF assms] rb_len_bound [OF assms]
  by (simp add: ringbuffer_free_def unat_sub word_le_nat_alt)

text \<open>
  Pushing a burst of bytes keeps, in order, exactly as many as \<^verbatim>\<open>ringbuffer_free\<close>
  promised and refuses the rest; popping then returns the queued bytes oldest first, and the
  ring stays well-formed throughout.
\<close>

theorem ringbuffer_burst:
  assumes "rb_wf r"
  shows "\<exists>r'. feed ringbuffer_push r xs =
      (min (unat (ringbuffer_free r)) (length xs), length xs - unat (ringbuffer_free r), r') \<and>
    rb_wf r' \<and> rb_contents r' = rb_contents r @ take (unat (ringbuffer_free r)) xs \<and>
    fst (take_upto ringbuffer_pop n r') =
      take n (rb_contents r @ take (unat (ringbuffer_free r)) xs)"
proof -
  from rbq.feed_correct [OF assms, of xs] rb_len_bound [OF assms] rb_free_room [OF assms]
  obtain r' where r': "feed ringbuffer_push r xs =
      (min (unat (ringbuffer_free r)) (length xs), length xs - unat (ringbuffer_free r), r')"
    "rb_wf r'" "rb_contents r' = rb_contents r @ take (unat (ringbuffer_free r)) xs"
    by auto
  with rbq.take_upto_correct(1) [OF r'(2), of n] show ?thesis
    by auto
qed

theorem ringbuffer_burst_witness:
  "\<exists>r'. feed ringbuffer_push (ringbuffer_init [0, 0, 0] 2) [7, 8, 9] = (2, 1, r') \<and>
    fst (take_upto ringbuffer_pop 5 r') = [7, 8]"
proof -
  let ?r = "ringbuffer_init [0, 0, 0] 2"
  have wf: "rb_wf ?r" and c: "rb_contents ?r = []"
    using rb_init_wf [of "[0, 0, 0]" 2] by simp_all
  have "unat (ringbuffer_free ?r) = 2"
    by (simp add: ringbuffer_free_def ringbuffer_used_def ringbuffer_init_def)
  with ringbuffer_burst [OF wf, of "[7, 8, 9]" 5] c show ?thesis
    by auto
qed

end
