(* ===== verification/Pipe.thy ===== *)
theory Pipe
  imports Fifo
begin

text \<open>
  \<^verbatim>\<open>kernel/ipc/pipe.c\<close>: a 512-byte queue between file descriptors. The byte counters
  \<open>nread\<close> and \<open>nwrite\<close> are C \<^verbatim>\<open>uint\<close>s that only ever grow, so they wrap at \<open>2\<^sup>3\<^sup>2\<close>.

  \<^verbatim>\<open>pipewrite\<close> and \<^verbatim>\<open>piperead\<close> run under the pipe's lock, except that they give it up in
  \<^verbatim>\<open>sleep_interruptible\<close>. Each is therefore split at its scheduling points: a
  \<^emph>\<open>segment\<close> runs atomically from a point where the lock is taken to the next point
  where the call sleeps or returns. The user memory of the caller enters as the one-byte
  accesses \<^verbatim>\<open>copyin(..., 1)\<close> (\<open>load\<close>) and \<^verbatim>\<open>copyout(..., 1)\<close> (\<open>store\<close>), which may fail.
\<close>

section \<open>State and queue operations\<close>

abbreviation PIPESIZE :: u32 where
  "PIPESIZE \<equiv> 512"

record pipe =
  pdata :: "u8 list"
  nread :: u32
  nwrite :: u32
  readopen :: bool
  writeopen :: bool

text \<open>The initialisation of a fresh pipe page in \<^verbatim>\<open>pipealloc\<close>.\<close>

definition pipe_init :: "u8 list \<Rightarrow> pipe" where
  "pipe_init page =
     \<lparr>pdata = page, nread = 0, nwrite = 0, readopen = True, writeopen = True\<rparr>"

definition pipe_full :: "pipe \<Rightarrow> bool" where
  "pipe_full pi \<longleftrightarrow> nwrite pi = nread pi + PIPESIZE"

definition pipe_empty :: "pipe \<Rightarrow> bool" where
  "pipe_empty pi \<longleftrightarrow> nread pi = nwrite pi"

definition pipe_put :: "pipe \<Rightarrow> u8 \<Rightarrow> pipe" where
  "pipe_put pi ch =
     pi\<lparr>pdata := (pdata pi)[unat (nwrite pi mod PIPESIZE) := ch], nwrite := nwrite pi + 1\<rparr>"

definition pipe_get :: "pipe \<Rightarrow> u8 \<times> pipe" where
  "pipe_get pi = (pdata pi ! unat (nread pi mod PIPESIZE), pi\<lparr>nread := nread pi + 1\<rparr>)"

text \<open>Whom a segment wakes: the sleepers on \<^verbatim>\<open>&pi->nread\<close> or on \<^verbatim>\<open>&pi->nwrite\<close>.\<close>

datatype pipe_chan = ChanRead | ChanWrite

datatype pw_result =
    PW_Sleep nat "pipe_chan list" pipe            \<comment> \<open>asleep on \<open>nwrite\<close>, \<open>i\<close> bytes written\<close>
  | PW_Return int nat "pipe_chan list" bool pipe  \<comment> \<open>value, bytes written, wakeups, SIGPIPE\<close>

function pipewrite :: "pipe \<Rightarrow> (u64 \<Rightarrow> u8 option) \<Rightarrow> u64 \<Rightarrow> nat \<Rightarrow> int \<Rightarrow> pw_result" where
  "pipewrite pi load addr i n =
     (if int i < n then
        if pipe_full pi \<and> readopen pi then PW_Sleep i [ChanRead] pi
        else if \<not> readopen pi then PW_Return (if 0 < i then int i else -1) i [] True pi
        else case load (addr + of_nat i) of
               None \<Rightarrow> PW_Return (int i) i [ChanRead] False pi
             | Some ch \<Rightarrow> pipewrite (pipe_put pi ch) load addr (Suc i) n
      else PW_Return (int i) i [ChanRead] False pi)"
  by pat_completeness auto
termination
  by (relation "measure (\<lambda>(pi, load, addr, i, n). nat (n - int i))") auto

text \<open>The value of a write whose sleep a signal interrupts.\<close>

definition pipewrite_interrupted :: "nat \<Rightarrow> int" where
  "pipewrite_interrupted i = (if 0 < i then int i else -1)"

datatype pr_result =
    PR_Sleep                                      \<comment> \<open>asleep on \<open>nread\<close>\<close>
  | PR_Return int "u8 list" "pipe_chan list" pipe  \<comment> \<open>value, bytes taken, wakeups\<close>

text \<open>
  The copy loop of \<^verbatim>\<open>piperead\<close>. A byte is taken from the queue before it is copied out, so
  a failing \<^verbatim>\<open>copyout\<close> loses that byte: it is taken but not counted.
\<close>

function piperead_copy :: "pipe \<Rightarrow> (u64 \<Rightarrow> bool) \<Rightarrow> u64 \<Rightarrow> nat \<Rightarrow> int \<Rightarrow> int \<times> u8 list \<times> pipe" where
  "piperead_copy pi store addr i n =
     (if int i < n then
        if pipe_empty pi then (int i, [], pi)
        else let (ch, pi1) = pipe_get pi
             in if store (addr + of_nat i)
                then let (r, bs, pi2) = piperead_copy pi1 store addr (Suc i) n
                     in (r, ch # bs, pi2)
                else (int i, [ch], pi1)
      else (int i, [], pi))"
  by pat_completeness auto
termination
  by (relation "measure (\<lambda>(pi, store, addr, i, n). nat (n - int i))") auto

definition piperead :: "pipe \<Rightarrow> (u64 \<Rightarrow> bool) \<Rightarrow> u64 \<Rightarrow> int \<Rightarrow> pr_result" where
  "piperead pi store addr n =
     (if pipe_empty pi \<and> writeopen pi then PR_Sleep
      else let (r, bs, pi1) = piperead_copy pi store addr 0 n
           in PR_Return r bs [ChanWrite] pi1)"

text \<open>\<^verbatim>\<open>pipeclose\<close>; the flag says that the page of the pipe is freed.\<close>

definition pipeclose :: "pipe \<Rightarrow> bool \<Rightarrow> pipe \<times> pipe_chan list \<times> bool" where
  "pipeclose pi writable =
     (let (pi1, w) = (if writable then (pi\<lparr>writeopen := False\<rparr>, [ChanRead])
                      else (pi\<lparr>readopen := False\<rparr>, [ChanWrite]))
      in (pi1, w, \<not> readopen pi1 \<and> \<not> writeopen pi1))"

declare pipewrite.simps [simp del] piperead_copy.simps [simp del]

section \<open>A pipe is a bounded queue\<close>

definition pipe_wf :: "pipe \<Rightarrow> bool" where
  "pipe_wf pi \<longleftrightarrow> length (pdata pi) = 512 \<and> unat (nwrite pi - nread pi) \<le> 512"

definition pipe_contents :: "pipe \<Rightarrow> u8 list" where
  "pipe_contents pi =
     map (\<lambda>k. pdata pi ! ((unat (nread pi) + k) mod 512)) [0..<unat (nwrite pi - nread pi)]"

lemma unat_mod_pipesize: "unat ((w :: u32) mod PIPESIZE) = unat w mod 512"
  by (simp add: unat_mod)

lemma nwrite_mod:
  "unat (nwrite pi) mod 512 = (unat (nread pi) + unat (nwrite pi - nread pi)) mod 512"
proof -
  have "unat (nwrite pi) = (unat (nread pi) + unat (nwrite pi - nread pi)) mod 2 ^ 32"
    using unat_word_ariths(1) [of "nread pi" "nwrite pi - nread pi"] by simp
  then show ?thesis
    by (simp add: mod_mod_cancel)
qed

lemma length_pipe_contents [simp]: "length (pipe_contents pi) = unat (nwrite pi - nread pi)"
  by (simp add: pipe_contents_def)

lemma pipe_wf_length: "pipe_wf pi \<Longrightarrow> length (pipe_contents pi) \<le> 512"
  by (simp add: pipe_wf_def)

lemma pipe_full_iff: "pipe_full pi \<longleftrightarrow> length (pipe_contents pi) = 512"
proof -
  have "pipe_full pi \<longleftrightarrow> nwrite pi - nread pi = 512"
    by (auto simp: pipe_full_def algebra_simps)
  then show ?thesis
    by (simp add: word_unat_eq_iff)
qed

lemma pipe_empty_iff: "pipe_empty pi \<longleftrightarrow> pipe_contents pi = []"
proof -
  have "pipe_contents pi = [] \<longleftrightarrow> nwrite pi - nread pi = 0"
    by (simp add: pipe_contents_def unat_0_iff)
  then show ?thesis
    by (auto simp: pipe_empty_def)
qed

lemma pipe_put_correct:
  assumes "pipe_wf pi" and "\<not> pipe_full pi"
  shows "pipe_wf (pipe_put pi ch)" and "pipe_contents (pipe_put pi ch) = pipe_contents pi @ [ch]"
proof -
  let ?n = "unat (nwrite pi - nread pi)" and ?r = "unat (nread pi)"
  have n: "?n < 512"
    using assms by (simp add: pipe_full_iff pipe_wf_def)
  have "unat (nwrite pi + 1 - nread pi) = unat ((nwrite pi - nread pi) + 1)"
    by (simp add: algebra_simps)
  then have suc: "unat (nwrite pi + 1 - nread pi) = Suc ?n"
    using n by (simp add: unat_word_ariths(1))
  then show "pipe_wf (pipe_put pi ch)"
    using assms(1) n by (simp add: pipe_wf_def pipe_put_def)
  have ix: "unat (nwrite pi mod 512) = (?r + ?n) mod 512"
    unfolding unat_mod_pipesize by (rule nwrite_mod)
  show "pipe_contents (pipe_put pi ch) = pipe_contents pi @ [ch]"
    using assms(1) n ring_append [of "pdata pi" 512 ?n ?r ch]
    by (simp add: pipe_contents_def pipe_put_def suc ix pipe_wf_def del: upt_Suc)
qed

lemma pipe_get_correct:
  assumes "pipe_wf pi" and "pipe_contents pi = x # xs"
  shows "fst (pipe_get pi) = x" and "pipe_wf (snd (pipe_get pi))"
    and "pipe_contents (snd (pipe_get pi)) = xs"
proof -
  let ?n = "unat (nwrite pi - nread pi)" and ?r = "unat (nread pi)"
  have pos: "0 < ?n"
    using assms(2) length_pipe_contents [of pi] by simp
  have split: "pipe_contents pi = pdata pi ! (?r mod 512) #
      map (\<lambda>k. pdata pi ! ((?r + Suc k) mod 512)) [0..<?n - 1]"
    unfolding pipe_contents_def by (subst map_upt_split_first [OF pos]) simp
  then show "fst (pipe_get pi) = x"
    using assms(2) by (simp add: pipe_get_def unat_mod_pipesize)
  have "unat (nwrite pi - (nread pi + 1)) = unat (nwrite pi - nread pi - 1)"
    by (simp add: algebra_simps)
  then have pre: "unat (nwrite pi - (nread pi + 1)) = ?n - 1"
    using pos by (simp add: unat_minus_one unat_gt_0)
  then show "pipe_wf (snd (pipe_get pi))"
    using assms(1) by (auto simp: pipe_wf_def pipe_get_def)
  have "unat (nread pi + 1) mod 512 = Suc ?r mod 512"
    by (simp add: unat_word_ariths(1) mod_mod_cancel)
  then have "(unat (nread pi + 1) + k) mod 512 = (?r + Suc k) mod 512" for k
    by (metis add_Suc_right add_Suc_shift mod_add_left_eq)
  then have "pipe_contents (snd (pipe_get pi)) =
      map (\<lambda>k. pdata pi ! ((?r + Suc k) mod 512)) [0..<?n - 1]"
    by (simp add: pipe_contents_def pipe_get_def pre)
  then show "pipe_contents (snd (pipe_get pi)) = xs"
    using split assms(2) by simp
qed

definition pipe_push :: "pipe \<Rightarrow> u8 \<Rightarrow> bool \<times> pipe" where
  "pipe_push pi ch = (if pipe_full pi then (False, pi) else (True, pipe_put pi ch))"

definition pipe_pop :: "pipe \<Rightarrow> u8 option \<times> pipe" where
  "pipe_pop pi = (if pipe_empty pi then (None, pi)
                  else (Some (fst (pipe_get pi)), snd (pipe_get pi)))"

interpretation pq: bounded_fifo pipe_wf pipe_contents "\<lambda>_. 512" pipe_push pipe_pop
proof (unfold_locales, goal_cases)
  case (1 s x)
  then have "pipe_full s"
    by (simp add: pipe_full_iff pipe_wf_def)
  then show ?case by (simp add: pipe_push_def)
next
  case (2 s x)
  then show ?case
    using pipe_put_correct [of s x] by (simp add: pipe_push_def pipe_full_iff)
next
  case (3 s)
  then show ?case by (simp add: pipe_pop_def pipe_empty_iff)
next
  case (4 s x xs)
  then show ?case
    using pipe_get_correct [of s x xs] by (simp add: pipe_pop_def pipe_empty_iff)
qed

section \<open>What one segment does\<close>

definition ubytes :: "(u64 \<Rightarrow> u8 option) \<Rightarrow> u64 \<Rightarrow> nat \<Rightarrow> nat \<Rightarrow> u8 list" where
  "ubytes load addr i j = map (\<lambda>k. the (load (addr + of_nat k))) [i..<j]"

lemma ubytes_same [simp]: "ubytes load addr i i = []"
  by (simp add: ubytes_def)

lemma ubytes_Cons:
  "i < j \<Longrightarrow> ubytes load addr i j = the (load (addr + of_nat i)) # ubytes load addr (Suc i) j"
  by (simp add: ubytes_def upt_conv_Cons)

lemma pipe_put_flags [simp]:
  "readopen (pipe_put pi ch) = readopen pi" "writeopen (pipe_put pi ch) = writeopen pi"
  by (simp_all add: pipe_put_def)

lemma pipe_get_flags [simp]:
  "readopen (snd (pipe_get pi)) = readopen pi" "writeopen (snd (pipe_get pi)) = writeopen pi"
  by (simp_all add: pipe_get_def)

definition wrote :: "pipe \<Rightarrow> (u64 \<Rightarrow> u8 option) \<Rightarrow> u64 \<Rightarrow> nat \<Rightarrow> nat \<Rightarrow> pipe \<Rightarrow> bool" where
  "wrote pi load addr i j pi1 \<longleftrightarrow> i \<le> j \<and> pipe_wf pi1 \<and>
     pipe_contents pi1 = pipe_contents pi @ ubytes load addr i j \<and>
     readopen pi1 = readopen pi \<and> writeopen pi1 = writeopen pi"

lemma wrote_refl: "pipe_wf pi \<Longrightarrow> wrote pi load addr i i pi"
  by (simp add: wrote_def)

lemma wrote_step:
  assumes "pipe_wf pi" and "\<not> pipe_full pi" and "load (addr + of_nat i) = Some ch"
    and "wrote (pipe_put pi ch) load addr (Suc i) j pi1"
  shows "wrote pi load addr i j pi1"
  using assms pipe_put_correct [OF assms(1,2), of ch] ubytes_Cons [of i j load addr]
  by (auto simp: wrote_def Suc_le_eq)

lemma pipewrite_spec:
  assumes "pipe_wf pi"
  shows "case pipewrite pi load addr i n of
      PW_Sleep j w pi1 \<Rightarrow> wrote pi load addr i j pi1 \<and> int j < n \<and> pipe_full pi1 \<and>
        readopen pi1 \<and> w = [ChanRead]
    | PW_Return r j w sig pi1 \<Rightarrow> wrote pi load addr i j pi1 \<and>
        (if sig then \<not> readopen pi \<and> j = i \<and> r = pipewrite_interrupted i \<and> w = []
         else r = int j \<and> w = [ChanRead] \<and> (int j \<ge> n \<or> load (addr + of_nat j) = None))"
  using assms
proof (induction pi load addr i n rule: pipewrite.induct)
  case (1 pi load addr i n)
  consider (stop) "n \<le> int i" | (sleep) "int i < n" "pipe_full pi" "readopen pi"
    | (sig) "int i < n" "\<not> readopen pi"
    | (fault) "int i < n" "\<not> pipe_full pi" "readopen pi" "load (addr + of_nat i) = None"
    | (put) ch where "int i < n" "\<not> pipe_full pi" "readopen pi" "load (addr + of_nat i) = Some ch"
    by fastforce
  then show ?case
  proof cases
    case (put ch)
    have eq: "pipewrite pi load addr i n = pipewrite (pipe_put pi ch) load addr (Suc i) n"
      using put by (subst pipewrite.simps) simp
    have "pipe_wf (pipe_put pi ch)"
      using pipe_put_correct(1) [OF "1.prems" put(2)] .
    note IH = "1.IH" [OF put(1) _ _ put(4) this]
    show ?thesis
      unfolding eq using IH put wrote_step [where load = load and addr = addr, OF "1.prems" put(2,4)]
      by (auto split: pw_result.splits if_splits)
  qed (use "1.prems" in \<open>auto simp: pipewrite.simps [of pi load addr i n] wrote_refl
        pipewrite_interrupted_def\<close>)
qed

lemma piperead_copy_spec:
  assumes "pipe_wf pi" and "piperead_copy pi store addr i n = (r, bs, pi1)"
  shows "pipe_wf pi1 \<and> pipe_contents pi = bs @ pipe_contents pi1 \<and>
    readopen pi1 = readopen pi \<and> writeopen pi1 = writeopen pi \<and>
    (r = int (i + length bs) \<and> (n \<le> r \<or> pipe_contents pi1 = []) \<or>
     bs \<noteq> [] \<and> r = int (i + length bs - 1) \<and> \<not> store (addr + of_nat (i + length bs - 1)))"
  using assms
proof (induction pi store addr i n arbitrary: r bs pi1 rule: piperead_copy.induct)
  case (1 pi store addr i n)
  show ?case
  proof (cases "int i < n \<and> \<not> pipe_empty pi")
    case False
    with "1.prems" have "r = int i" "bs = []" "pi1 = pi"
      by (auto simp: piperead_copy.simps [of pi store addr i n] split: if_splits)
    with False "1.prems"(1) show ?thesis
      by (auto simp: pipe_empty_iff)
  next
    case True
    then obtain x xs where c: "pipe_contents pi = x # xs"
      by (cases "pipe_contents pi") (auto simp: pipe_empty_iff)
    obtain pi0 where g: "pipe_get pi = (x, pi0)" "pipe_wf pi0" "pipe_contents pi0 = xs"
      "readopen pi0 = readopen pi" "writeopen pi0 = writeopen pi"
      using pipe_get_correct [OF "1.prems"(1) c] pipe_get_flags [of pi] by (cases "pipe_get pi") auto
    show ?thesis
    proof (cases "store (addr + of_nat i)")
      case False
      with "1.prems"(2) True g have "r = int i" "bs = [x]" "pi1 = pi0"
        by (auto simp: piperead_copy.simps [of pi store addr i n])
      with False c g show ?thesis by simp
    next
      case st: True
      obtain r2 bs2 pi2 where rec: "piperead_copy pi0 store addr (Suc i) n = (r2, bs2, pi2)"
        by (metis prod_cases3)
      with "1.prems"(2) True g st have res: "r = r2" "bs = x # bs2" "pi1 = pi2"
        by (auto simp: piperead_copy.simps [of pi store addr i n])
      have "int i < n" "\<not> pipe_empty pi" using True by auto
      from "1.IH" [OF this refl, of x pi0] g(1) st g(2) rec
      have "pipe_wf pi2 \<and> pipe_contents pi0 = bs2 @ pipe_contents pi2 \<and>
        readopen pi2 = readopen pi0 \<and> writeopen pi2 = writeopen pi0 \<and>
        (r2 = int (Suc i + length bs2) \<and> (n \<le> r2 \<or> pipe_contents pi2 = []) \<or>
         bs2 \<noteq> [] \<and> r2 = int (Suc i + length bs2 - 1) \<and>
         \<not> store (addr + of_nat (Suc i + length bs2 - 1)))"
        by auto
      with res c g show ?thesis by auto
    qed
  qed
qed

section \<open>Concurrent readers and writers\<close>

text \<open>
  Any number of processes call \<^verbatim>\<open>pipewrite\<close> and \<^verbatim>\<open>piperead\<close> on one pipe. Between two
  segments a process is idle, about to run its next segment, or asleep on one of the two
  channels; a wakeup makes every sleeper of its channel runnable. \<open>ps_in\<close> and \<open>ps_out\<close>
  record the bytes taken from the writers' buffers and the bytes taken out of the queue.
\<close>

datatype pcall =
    PIdle
  | PWriting "u64 \<Rightarrow> u8 option" u64 nat int
  | PWriteSleep "u64 \<Rightarrow> u8 option" u64 nat int
  | PReading "u64 \<Rightarrow> bool" u64 int
  | PReadSleep "u64 \<Rightarrow> bool" u64 int

record psys =
  ps_pipe :: pipe
  ps_call :: "nat \<Rightarrow> pcall"
  ps_in :: "u8 list"
  ps_out :: "u8 list"

fun wake_call :: "pipe_chan list \<Rightarrow> pcall \<Rightarrow> pcall" where
  "wake_call w (PWriteSleep ld a i n) = (if ChanWrite \<in> set w then PWriting ld a i n else PWriteSleep ld a i n)"
| "wake_call w (PReadSleep st a n) = (if ChanRead \<in> set w then PReading st a n else PReadSleep st a n)"
| "wake_call w c = c"

inductive pipe_step :: "psys \<Rightarrow> psys \<Rightarrow> bool" where
  call_write: "ps_call s p = PIdle \<Longrightarrow>
     pipe_step s (s\<lparr>ps_call := (ps_call s)(p := PWriting ld a 0 n)\<rparr>)"
| call_read: "ps_call s p = PIdle \<Longrightarrow>
     pipe_step s (s\<lparr>ps_call := (ps_call s)(p := PReading st a n)\<rparr>)"
| write_sleep: "ps_call s p = PWriting ld a i n \<Longrightarrow>
     pipewrite (ps_pipe s) ld a i n = PW_Sleep j w pi \<Longrightarrow>
     pipe_step s (s\<lparr>ps_pipe := pi, ps_in := ps_in s @ ubytes ld a i j,
       ps_call := (\<lambda>q. wake_call w (ps_call s q))(p := PWriteSleep ld a j n)\<rparr>)"
| write_return: "ps_call s p = PWriting ld a i n \<Longrightarrow>
     pipewrite (ps_pipe s) ld a i n = PW_Return r j w sig pi \<Longrightarrow>
     pipe_step s (s\<lparr>ps_pipe := pi, ps_in := ps_in s @ ubytes ld a i j,
       ps_call := (\<lambda>q. wake_call w (ps_call s q))(p := PIdle)\<rparr>)"
| read_sleep: "ps_call s p = PReading st a n \<Longrightarrow>
     piperead (ps_pipe s) st a n = PR_Sleep \<Longrightarrow>
     pipe_step s (s\<lparr>ps_call := (ps_call s)(p := PReadSleep st a n)\<rparr>)"
| read_return: "ps_call s p = PReading st a n \<Longrightarrow>
     piperead (ps_pipe s) st a n = PR_Return r bs w pi \<Longrightarrow>
     pipe_step s (s\<lparr>ps_pipe := pi, ps_out := ps_out s @ bs,
       ps_call := (\<lambda>q. wake_call w (ps_call s q))(p := PIdle)\<rparr>)"
| interrupted: "ps_call s p = PWriteSleep ld a i n \<or> ps_call s p = PReadSleep st b m \<Longrightarrow>
     pipe_step s (s\<lparr>ps_call := (ps_call s)(p := PIdle)\<rparr>)"
| close_end: "pipeclose (ps_pipe s) wr = (pi, w, fr) \<Longrightarrow>
     pipe_step s (s\<lparr>ps_pipe := pi, ps_call := (\<lambda>q. wake_call w (ps_call s q))\<rparr>)"

inductive pipe_reachable :: "u8 list \<Rightarrow> psys \<Rightarrow> bool" for page where
  start: "pipe_reachable page \<lparr>ps_pipe = pipe_init page, ps_call = (\<lambda>_. PIdle), ps_in = [], ps_out = []\<rparr>"
| step: "pipe_reachable page s \<Longrightarrow> pipe_step s t \<Longrightarrow> pipe_reachable page t"

text \<open>
  The invariant: the bytes that went in are those that came out followed by those in the
  queue, and a process sleeps only while the condition it waits for really holds.
\<close>

definition call_ok :: "pipe \<Rightarrow> pcall \<Rightarrow> bool" where
  "call_ok pi c = (case c of
       PWriteSleep _ _ _ _ \<Rightarrow> pipe_full pi \<and> readopen pi
     | PReadSleep _ _ _ \<Rightarrow> pipe_empty pi \<and> writeopen pi
     | _ \<Rightarrow> True)"

definition psys_inv :: "psys \<Rightarrow> bool" where
  "psys_inv s \<longleftrightarrow> pipe_wf (ps_pipe s) \<and> ps_in s = ps_out s @ pipe_contents (ps_pipe s) \<and>
     (\<forall>p. call_ok (ps_pipe s) (ps_call s p))"

lemma call_ok_simps [simp]:
  "call_ok pi PIdle" "call_ok pi (PWriting ld a i n)" "call_ok pi (PReading st a n)"
  "call_ok pi (PWriteSleep ld a i n) \<longleftrightarrow> pipe_full pi \<and> readopen pi"
  "call_ok pi (PReadSleep st a n) \<longleftrightarrow> pipe_empty pi \<and> writeopen pi"
  by (simp_all add: call_ok_def)

lemma call_ok_wake:
  assumes "call_ok pi c"
    and "ChanRead \<notin> set w \<Longrightarrow> pipe_empty pi \<Longrightarrow> writeopen pi \<Longrightarrow> pipe_empty pi1 \<and> writeopen pi1"
    and "ChanWrite \<notin> set w \<Longrightarrow> pipe_full pi \<Longrightarrow> readopen pi \<Longrightarrow> pipe_full pi1 \<and> readopen pi1"
  shows "call_ok pi1 (wake_call w c)"
  using assms by (cases c) auto

text \<open>A writer that appends bytes leaves a full pipe as it is: nothing was appended.\<close>

lemma wrote_full:
  assumes "wrote pi ld a i j pi1" and "pipe_full pi"
  shows "pipe_full pi1 \<and> ubytes ld a i j = []"
proof -
  have "pipe_contents pi1 = pipe_contents pi @ ubytes ld a i j"
    using assms(1) by (simp add: wrote_def)
  then have "length (pipe_contents pi1) = length (pipe_contents pi) + length (ubytes ld a i j)"
    by (simp only: length_append)
  moreover have "length (pipe_contents pi1) \<le> 512"
    using assms(1) unfolding wrote_def by (intro pipe_wf_length) blast
  moreover have "length (pipe_contents pi) = 512"
    using assms(2) by (simp only: pipe_full_iff)
  ultimately show ?thesis
    by (simp only: pipe_full_iff) simp
qed

lemma psys_inv_write:
  assumes inv: "psys_inv s" and wr: "wrote (ps_pipe s) ld a i j pi"
    and w: "w = [ChanRead] \<or> w = [] \<and> j = i" and c: "call_ok pi c"
  shows "psys_inv (s\<lparr>ps_pipe := pi, ps_in := ps_in s @ ubytes ld a i j,
       ps_call := (\<lambda>q. wake_call w (ps_call s q))(p := c)\<rparr>)"
proof -
  have "call_ok pi (wake_call w (ps_call s q))" for q
  proof (rule call_ok_wake [where pi = "ps_pipe s"])
    show "call_ok (ps_pipe s) (ps_call s q)"
      using inv by (simp add: psys_inv_def)
    show "pipe_full pi \<and> readopen pi" if "pipe_full (ps_pipe s)" "readopen (ps_pipe s)"
      using wrote_full [OF wr that(1)] wr that(2) by (simp add: wrote_def)
    show "pipe_empty pi \<and> writeopen pi"
      if "ChanRead \<notin> set w" "pipe_empty (ps_pipe s)" "writeopen (ps_pipe s)"
      using wr w that by (auto simp: wrote_def pipe_empty_iff)
  qed
  with inv wr c show ?thesis
    by (auto simp: psys_inv_def wrote_def)
qed

lemma psys_inv_read:
  assumes inv: "psys_inv s" and rd: "piperead (ps_pipe s) st a n = PR_Return r bs w pi"
  shows "psys_inv (s\<lparr>ps_pipe := pi, ps_out := ps_out s @ bs,
       ps_call := (\<lambda>q. wake_call w (ps_call s q))(p := PIdle)\<rparr>)"
proof -
  have cp: "piperead_copy (ps_pipe s) st a 0 n = (r, bs, pi)" and w: "w = [ChanWrite]"
    using rd by (auto simp: piperead_def Let_def split: if_splits prod.splits)
  have wf: "pipe_wf (ps_pipe s)"
    using inv by (simp add: psys_inv_def)
  note sp = piperead_copy_spec [OF wf cp]
  have "call_ok pi (wake_call w (ps_call s q))" for q
  proof (rule call_ok_wake [where pi = "ps_pipe s"])
    show "call_ok (ps_pipe s) (ps_call s q)"
      using inv by (simp add: psys_inv_def)
    show "pipe_empty pi \<and> writeopen pi" if "pipe_empty (ps_pipe s)" "writeopen (ps_pipe s)"
      using sp that by (auto simp: pipe_empty_iff)
  qed (use w in simp)
  with inv sp show ?thesis
    by (auto simp: psys_inv_def)
qed

lemma psys_inv_close:
  assumes inv: "psys_inv s" and cl: "pipeclose (ps_pipe s) wr = (pi, w, fr)"
  shows "psys_inv (s\<lparr>ps_pipe := pi, ps_call := (\<lambda>q. wake_call w (ps_call s q))\<rparr>)"
proof -
  have pi: "pi = (if wr then ps_pipe s\<lparr>writeopen := False\<rparr> else ps_pipe s\<lparr>readopen := False\<rparr>)"
    and w: "w = (if wr then [ChanRead] else [ChanWrite])"
    using cl by (auto simp: pipeclose_def Let_def split: if_splits)
  have "call_ok pi (wake_call w (ps_call s q))" for q
  proof (rule call_ok_wake [where pi = "ps_pipe s"])
    show "call_ok (ps_pipe s) (ps_call s q)"
      using inv by (simp add: psys_inv_def)
  qed (use pi w in \<open>auto simp: pipe_empty_def pipe_full_def split: if_splits\<close>)
  moreover have "pipe_wf pi = pipe_wf (ps_pipe s)" "pipe_contents pi = pipe_contents (ps_pipe s)"
    using pi by (auto simp: pipe_wf_def pipe_contents_def)
  ultimately show ?thesis
    using inv by (simp add: psys_inv_def)
qed

lemma pipe_step_inv: "pipe_step s t \<Longrightarrow> psys_inv s \<Longrightarrow> psys_inv t"
proof (induction rule: pipe_step.induct)
  case (write_sleep s p ld a i n j w pi)
  have "wrote (ps_pipe s) ld a i j pi \<and> pipe_full pi \<and> readopen pi \<and> w = [ChanRead]"
    using pipewrite_spec [of "ps_pipe s" ld a i n] write_sleep by (simp add: psys_inv_def)
  then show ?case
    using psys_inv_write [OF write_sleep(3)] by auto
next
  case (write_return s p ld a i n r j w sig pi)
  have "wrote (ps_pipe s) ld a i j pi \<and> (w = [ChanRead] \<or> w = [] \<and> j = i)"
    using pipewrite_spec [of "ps_pipe s" ld a i n] write_return
    by (auto simp: psys_inv_def split: if_splits)
  then show ?case
    using psys_inv_write [OF write_return(3)] by auto
next
  case (read_return s p st a n r bs w pi)
  then show ?case
    using psys_inv_read by blast
next
  case (close_end s wr pi w fr)
  then show ?case
    using psys_inv_close by blast
qed (auto simp: psys_inv_def piperead_def Let_def split: if_splits prod.splits)

lemma pipe_reachable_inv:
  assumes "length page = 512" and "pipe_reachable page s"
  shows "psys_inv s"
  using assms(2)
proof (induction rule: pipe_reachable.induct)
  case start
  show ?case
    using assms(1) by (simp add: psys_inv_def pipe_init_def pipe_wf_def pipe_contents_def)
next
  case (step s t)
  then show ?case by (blast intro: pipe_step_inv)
qed

text \<open>
  C6: However reads, writes, signals and closes interleave, the bytes taken out of a pipe
  followed by the bytes still queued are exactly the bytes taken from the writers' buffers,
  in order, and at most 512 are queued.
\<close>

theorem pipe_fifo:
  assumes "length page = 512" and "pipe_reachable page s"
  shows "ps_in s = ps_out s @ pipe_contents (ps_pipe s) \<and>
    length (pipe_contents (ps_pipe s)) \<le> 512"
  using pipe_reachable_inv [OF assms] by (simp add: psys_inv_def pipe_wf_def)

text \<open>A run for the witnesses: one write of three bytes into an empty pipe.\<close>

definition three_bytes :: "u64 \<Rightarrow> u8 option" where
  "three_bytes a = Some (ucast a)"

lemma pipe_run_example:
  "pipe_reachable (replicate 512 0)
     \<lparr>ps_pipe = \<lparr>pdata = (replicate 512 0)[0 := 7, 1 := 8, 2 := 9], nread = 0, nwrite = 3,
                  readopen = True, writeopen = True\<rparr>,
      ps_call = (\<lambda>_. PIdle), ps_in = [7, 8, 9], ps_out = []\<rparr>"
proof -
  let ?s0 = "\<lparr>ps_pipe = pipe_init (replicate 512 0), ps_call = (\<lambda>_. PIdle), ps_in = [], ps_out = []\<rparr>"
  let ?s1 = "?s0\<lparr>ps_call := (ps_call ?s0)(0 := PWriting three_bytes 7 0 3)\<rparr>"
  let ?pi = "\<lparr>pdata = (replicate 512 0)[0 := 7, 1 := 8, 2 := 9], nread = 0, nwrite = 3,
                  readopen = True, writeopen = True\<rparr>"
  have r1: "pipe_reachable (replicate 512 0) ?s1"
    by (rule pipe_reachable.step [OF pipe_reachable.start]) (rule pipe_step.call_write, simp)
  have w: "pipewrite (ps_pipe ?s1) three_bytes 7 0 3 = PW_Return 3 3 [ChanRead] False ?pi"
    by (simp add: pipewrite.simps pipe_init_def pipe_full_def three_bytes_def pipe_put_def
        list_update_swap)
  have b: "ubytes three_bytes 7 0 3 = [7, 8, 9]"
    by (simp add: ubytes_def three_bytes_def upt_conv_Cons)
  have "pipe_reachable (replicate 512 0)
      (?s1\<lparr>ps_pipe := ?pi, ps_in := ps_in ?s1 @ ubytes three_bytes 7 0 3,
           ps_call := (\<lambda>q. wake_call [ChanRead] (ps_call ?s1 q))(0 := PIdle)\<rparr>)"
    by (rule pipe_reachable.step [OF r1], rule pipe_step.write_return [OF _ w]) simp
  then show ?thesis
    by (simp add: b fun_upd_def cong: if_cong)
qed

theorem pipe_fifo_witness:
  "([7, 8, 9] :: u8 list) = [] @ pipe_contents
     \<lparr>pdata = (replicate 512 0)[0 := 7, 1 := 8, 2 := 9], nread = 0, nwrite = 3,
      readopen = True, writeopen = True\<rparr>"
  using pipe_fifo [OF _ pipe_run_example] by simp

text \<open>
  C7: No wakeup is lost: in every reachable state a process asleep in \<^verbatim>\<open>pipewrite\<close> faces a
  full pipe whose reading end is open, and one asleep in \<^verbatim>\<open>piperead\<close> an empty pipe whose
  writing end is open. In particular readers and writers never sleep at the same time.
\<close>

theorem pipe_no_lost_wakeup:
  assumes "length page = 512" and "pipe_reachable page s"
  shows "(ps_call s p = PWriteSleep ld a i n \<longrightarrow> pipe_full (ps_pipe s) \<and> readopen (ps_pipe s)) \<and>
    (ps_call s q = PReadSleep st b m \<longrightarrow> pipe_empty (ps_pipe s) \<and> writeopen (ps_pipe s)) \<and>
    \<not> (ps_call s p = PWriteSleep ld a i n \<and> ps_call s q = PReadSleep st b m)"
proof -
  have inv: "call_ok (ps_pipe s) (ps_call s x)" for x
    using pipe_reachable_inv [OF assms] by (simp add: psys_inv_def)
  have "\<not> (pipe_full (ps_pipe s) \<and> pipe_empty (ps_pipe s))"
    by (simp add: pipe_full_iff pipe_empty_iff) (metis list.size(3) length_pipe_contents zero_neq_numeral)
  with inv [of p] inv [of q] show ?thesis
    by auto
qed

lemma pipe_sleep_example:
  "pipe_reachable (replicate 512 0)
     \<lparr>ps_pipe = pipe_init (replicate 512 0),
      ps_call = (\<lambda>_. PIdle)(0 := PReadSleep (\<lambda>_. True) 0 1), ps_in = [], ps_out = []\<rparr>"
proof -
  let ?s0 = "\<lparr>ps_pipe = pipe_init (replicate 512 0), ps_call = (\<lambda>_. PIdle), ps_in = [], ps_out = []\<rparr>"
  let ?s1 = "?s0\<lparr>ps_call := (ps_call ?s0)(0 := PReading (\<lambda>_. True) 0 1)\<rparr>"
  have r1: "pipe_reachable (replicate 512 0) ?s1"
    by (rule pipe_reachable.step [OF pipe_reachable.start]) (rule pipe_step.call_read, simp)
  have "pipe_reachable (replicate 512 0)
      (?s1\<lparr>ps_call := (ps_call ?s1)(0 := PReadSleep (\<lambda>_. True) 0 1)\<rparr>)"
    by (rule pipe_reachable.step [OF r1], rule pipe_step.read_sleep)
      (simp_all add: piperead_def pipe_init_def pipe_empty_def)
  then show ?thesis by simp
qed

theorem pipe_no_lost_wakeup_witness:
  "pipe_empty (pipe_init (replicate 512 0)) \<and> writeopen (pipe_init (replicate 512 0))"
  using pipe_no_lost_wakeup [OF _ pipe_sleep_example,
      where q = 0 and st = "\<lambda>_. True" and b = 0 and m = 1] by simp

end
