(* ===== verification/PageAlloc.thy ===== *)
theory PageAlloc
  imports Prelude
begin

text \<open>
  The contract of a reference-counted page allocator, the interface through which the
  virtual-memory code uses \<^verbatim>\<open>kalloc.c\<close>: \<open>refs\<close> is the number of owners of a frame, a frame
  without owners is free. \<open>limit\<close> is the largest count the implementation can represent.
\<close>

text \<open>\<open>n\<close> allocations in a row, and the release of a list of frames.\<close>

primrec alloc_many :: "('s \<Rightarrow> u64 \<times> 's) \<Rightarrow> nat \<Rightarrow> 's \<Rightarrow> u64 list \<times> 's" where
  "alloc_many alloc 0 s = ([], s)"
| "alloc_many alloc (Suc n) s =
     (let (p, s1) = alloc s
      in if p = 0 then ([], s1)
         else let (ps, s2) = alloc_many alloc n s1 in (p # ps, s2))"

primrec free_many :: "('s \<Rightarrow> u64 \<Rightarrow> 's res) \<Rightarrow> 's \<Rightarrow> u64 list \<Rightarrow> 's res" where
  "free_many free s [] = Ok s"
| "free_many free s (p # ps) = rbind (free s p) (\<lambda>s1. free_many free s1 ps)"

locale page_allocator =
  fixes invar :: "'s \<Rightarrow> bool"
    and harts :: "nat set"
    and frames :: "u64 set"
    and limit :: nat
    and refs :: "'s \<Rightarrow> u64 \<Rightarrow> nat"
    and alloc :: "nat \<Rightarrow> 's \<Rightarrow> u64 \<times> 's"
    and free :: "nat \<Rightarrow> 's \<Rightarrow> u64 \<Rightarrow> 's res"
    and share :: "'s \<Rightarrow> u64 \<Rightarrow> 's res"
  assumes null_no_frame: "0 \<notin> frames"
    and alloc_invar: "invar s \<Longrightarrow> h \<in> harts \<Longrightarrow> alloc h s = (p, s') \<Longrightarrow> invar s'"
    and alloc_none: "invar s \<Longrightarrow> h \<in> harts \<Longrightarrow> alloc h s = (0, s') \<Longrightarrow>
      s' = s \<and> (\<forall>q \<in> frames. 0 < refs s q)"
    and alloc_some: "invar s \<Longrightarrow> h \<in> harts \<Longrightarrow> alloc h s = (p, s') \<Longrightarrow> p \<noteq> 0 \<Longrightarrow>
      p \<in> frames \<and> refs s p = 0 \<and> (\<forall>q \<in> frames. refs s' q = (if q = p then 1 else refs s q))"
    and free_some: "invar s \<Longrightarrow> h \<in> harts \<Longrightarrow> p \<in> frames \<Longrightarrow> 0 < refs s p \<Longrightarrow>
      \<exists>s'. free h s p = Ok s' \<and> invar s' \<and>
        (\<forall>q \<in> frames. refs s' q = (if q = p then refs s p - 1 else refs s q))"
    and share_some: "invar s \<Longrightarrow> p \<in> frames \<Longrightarrow> 0 < refs s p \<Longrightarrow> refs s p < limit \<Longrightarrow>
      \<exists>s'. share s p = Ok s' \<and> invar s' \<and>
        (\<forall>q \<in> frames. refs s' q = (if q = p then refs s p + 1 else refs s q))"
begin

lemma alloc_many_fresh:
  assumes "invar s" and "h \<in> harts" and "alloc_many (alloc h) n s = (ps, s')"
  shows "invar s' \<and> distinct ps \<and> set ps \<subseteq> frames \<and> (\<forall>p \<in> set ps. refs s p = 0) \<and>
    (\<forall>q \<in> frames. refs s' q = (if q \<in> set ps then 1 else refs s q)) \<and>
    (length ps < n \<longrightarrow> (\<forall>q \<in> frames. 0 < refs s' q))"
  using assms
proof (induction n arbitrary: s ps s')
  case (Suc n)
  obtain p s1 where a: "alloc h s = (p, s1)" by (cases "alloc h s")
  show ?case
  proof (cases "p = 0")
    case True
    with a Suc.prems alloc_none [OF Suc.prems(1,2)] alloc_invar [OF Suc.prems(1,2) a] show ?thesis by auto
  next
    case False
    obtain qs s2 where b: "alloc_many (alloc h) n s1 = (qs, s2)"
      by (cases "alloc_many (alloc h) n s1")
    have eq: "ps = p # qs" "s' = s2"
      using Suc.prems(3) False by (auto simp: a b)
    note A = alloc_some [OF Suc.prems(1,2) a False]
    note B = Suc.IH [OF alloc_invar [OF Suc.prems(1,2) a] Suc.prems(2) b]
    have "p \<notin> set qs"
      using A B by force
    with A B show ?thesis
      unfolding eq by (auto split: if_splits) metis
  qed
qed auto

lemma free_many_drops:
  assumes "invar s" and "h \<in> harts" and "set ps \<subseteq> frames" and "distinct ps"
    and "\<forall>p \<in> set ps. 0 < refs s p"
  shows "\<exists>s'. free_many (free h) s ps = Ok s' \<and> invar s' \<and>
    (\<forall>q \<in> frames. refs s' q = (if q \<in> set ps then refs s q - 1 else refs s q))"
  using assms
proof (induction ps arbitrary: s)
  case (Cons p ps)
  obtain s1 where s1: "free h s p = Ok s1" "invar s1"
    "\<forall>q \<in> frames. refs s1 q = (if q = p then refs s p - 1 else refs s q)"
    using free_some [of s h p] Cons.prems by auto
  have "\<forall>q \<in> set ps. 0 < refs s1 q"
    using Cons.prems s1(3) by (auto simp: subset_iff)
  then obtain s2 where "free_many (free h) s1 ps = Ok s2" "invar s2"
    "\<forall>q \<in> frames. refs s2 q = (if q \<in> set ps then refs s1 q - 1 else refs s1 q)"
    using Cons.IH [of s1] s1(2) Cons.prems by auto
  with s1 Cons.prems show ?case by auto
qed simp

text \<open>Taking frames and giving them back leaves every count as it was.\<close>

lemma alloc_free_many:
  assumes "invar s" and "h \<in> harts" and "g \<in> harts" and "alloc_many (alloc h) n s = (ps, s')"
  shows "\<exists>s''. free_many (free g) s' ps = Ok s'' \<and> invar s'' \<and> (\<forall>q \<in> frames. refs s'' q = refs s q)"
proof -
  note A = alloc_many_fresh [OF assms(1,2,4)]
  then obtain s'' where "free_many (free g) s' ps = Ok s''" "invar s''"
    "\<forall>q \<in> frames. refs s'' q = (if q \<in> set ps then refs s' q - 1 else refs s' q)"
    using free_many_drops [of s' g ps] assms(3) by (auto simp: subset_iff)
  with A show ?thesis by auto
qed

end

end
