(* ===== verification/Kalloc.thy ===== *)
theory Kalloc
  imports PageAlloc
begin

text \<open>
  \<^verbatim>\<open>kernel/vm/kalloc.c\<close>: the physical page allocator. Free pages form one singly linked list
  per CPU, threaded through the first word of the pages themselves, and every page has a
  reference count \<^verbatim>\<open>cow_quota\<close>, a C \<^verbatim>\<open>char\<close>, which is unsigned on RISC-V.

  Physical memory is a map from the addresses of aligned 64-bit words to their contents.
  Each critical section of the source (under one lock) is one atomic step of the model; the
  operations compose them in the order of the source. The linker symbol \<^verbatim>\<open>end\<close> and the CPU
  on which an operation runs are parameters.
\<close>

section \<open>Physical memory\<close>

type_synonym pmem = "u64 \<Rightarrow> u64"

definition in_page :: "u64 \<Rightarrow> u64 \<Rightarrow> bool" where
  "in_page pa a \<longleftrightarrow> a - pa < PGSIZE"

text \<open>\<^verbatim>\<open>memset(pa, c, PGSIZE)\<close>, with \<open>w\<close> the byte \<open>c\<close> repeated eight times.\<close>

definition page_fill :: "pmem \<Rightarrow> u64 \<Rightarrow> u64 \<Rightarrow> pmem" where
  "page_fill m pa w = (\<lambda>a. if in_page pa a then w else m a)"

abbreviation junk_freed :: u64 where
  "junk_freed \<equiv> 0x0101010101010101"

abbreviation junk_alloc :: u64 where
  "junk_alloc \<equiv> 0x0505050505050505"

lemma in_page_self [simp]: "in_page pa pa"
  by (simp add: in_page_def)

lemma in_page_aligned:
  assumes "page_aligned pa" and "page_aligned pb"
  shows "in_page pa pb \<longleftrightarrow> pa = pb"
proof
  assume "in_page pa pb"
  then have lt: "unat (pb - pa) < 4096"
    by (simp add: in_page_def word_less_nat_alt)
  have "unat (pb - pa) mod 4096 = 0"
  proof -
    have "unat pb mod 4096 = (unat pa + unat (pb - pa)) mod 4096"
      using unat_word_ariths(1) [of pa "pb - pa"] by (simp add: mod_mod_cancel)
    also have "\<dots> = unat (pb - pa) mod 4096"
      using assms(1) by (simp add: page_aligned_unat mod_add_eq flip: mod_add_left_eq)
    finally show ?thesis
      using assms(2) by (simp add: page_aligned_unat)
  qed
  with lt have "unat (pb - pa) = 0" by simp
  then show "pa = pb" by (simp add: unat_0_iff)
qed simp

lemma in_page_PGROUNDDOWN:
  assumes "page_aligned pa" and "in_page pa a"
  shows "PGROUNDDOWN a = pa"
proof -
  have lt: "unat (a - pa) < 4096"
    using assms(2) by (simp add: in_page_def word_less_nat_alt)
  have al: "unat pa mod 4096 = 0" and b: "unat pa < 2 ^ 64"
    using assms(1) unsigned_less [of pa] by (simp_all add: page_aligned_unat)
  then have "unat pa + unat (a - pa) < 2 ^ 64"
    using lt by (auto simp: mod_eq_0_iff_dvd dvd_def)
  then have "unat a = unat pa + unat (a - pa)"
    using unat_word_ariths(1) [of pa "a - pa"] by simp
  then have "unat a div 4096 * 4096 = unat pa"
    using lt al by (auto simp: mod_eq_0_iff_dvd dvd_def)
  then show ?thesis by (simp add: word_unat_eq_iff page_simps)
qed

lemma page_unique:
  "page_aligned p \<Longrightarrow> page_aligned q \<Longrightarrow> in_page p a \<Longrightarrow> in_page q a \<Longrightarrow> p = q"
  by (metis in_page_PGROUNDDOWN)

section \<open>State and operations\<close>

abbreviation (input) PHYSTOP :: u64 where
  "PHYSTOP \<equiv> 0x80600000"

abbreviation (input) NCPU :: nat where
  "NCPU \<equiv> 2"

record kmem =
  km_mem :: pmem
  km_freelist :: "nat \<Rightarrow> u64"
  km_quota :: "u64 \<Rightarrow> u8"

definition bad_page :: "u64 \<Rightarrow> u64 \<Rightarrow> bool" where
  "bad_page kend pa \<longleftrightarrow> pa mod PGSIZE \<noteq> 0 \<or> pa < kend \<or> PHYSTOP \<le> pa"

definition kaddquota :: "u64 \<Rightarrow> kmem \<Rightarrow> u64 \<Rightarrow> kmem res" where
  "kaddquota kend s pa =
     (if bad_page kend pa then Panic ''kfree''
      else Ok (s\<lparr>km_quota := (km_quota s)(pa div PGSIZE := km_quota s (pa div PGSIZE) + 1)\<rparr>))"

definition kgetquota :: "u64 \<Rightarrow> kmem \<Rightarrow> u64 \<Rightarrow> int res" where
  "kgetquota kend s pa =
     (if bad_page kend pa then Panic ''kfree'' else Ok (uint (km_quota s (pa div PGSIZE))))"

text \<open>
  \<^verbatim>\<open>cnt = --cow_quota[...]\<close> converts the decremented unsigned \<^verbatim>\<open>char\<close> to \<^verbatim>\<open>int\<close>.
\<close>

definition kfree_page_to :: "u64 \<Rightarrow> kmem \<Rightarrow> nat \<Rightarrow> u64 \<Rightarrow> kmem res" where
  "kfree_page_to kend s cid pa =
     (if bad_page kend pa then Panic ''kfree_page''
      else
        let q = km_quota s (pa div PGSIZE) - 1;
            cnt = uint q;
            s1 = s\<lparr>km_quota := (km_quota s)(pa div PGSIZE := q)\<rparr>
        in if cnt < 0 then Panic ''kfree_page: negative quota''
           else if 0 < cnt then Ok s1
           else
             let m = page_fill (km_mem s1) pa junk_freed
             in Ok (s1\<lparr>km_mem := m(pa := km_freelist s1 cid),
                       km_freelist := (km_freelist s1)(cid := pa)\<rparr>))"

definition kfree_page :: "u64 \<Rightarrow> nat \<Rightarrow> kmem \<Rightarrow> u64 \<Rightarrow> kmem res" where
  "kfree_page kend cpuid s pa = kfree_page_to kend s cpuid pa"

text \<open>One locked section of \<^verbatim>\<open>kalloc_page\<close>: take the head of one freelist.\<close>

definition freelist_take :: "kmem \<Rightarrow> nat \<Rightarrow> u64 \<times> kmem" where
  "freelist_take s cid =
     (let r = km_freelist s cid
      in (r, if r \<noteq> 0 then s\<lparr>km_freelist := (km_freelist s)(cid := km_mem s r)\<rparr> else s))"

fun kalloc_steal :: "kmem \<Rightarrow> nat \<Rightarrow> nat list \<Rightarrow> u64 \<times> kmem" where
  "kalloc_steal s cid [] = (0, s)"
| "kalloc_steal s cid (n_id # ns) =
     (if n_id = cid then kalloc_steal s cid ns
      else let (r, s1) = freelist_take s n_id
           in if r \<noteq> 0 then (r, s1) else kalloc_steal s1 cid ns)"

definition kalloc_page :: "nat \<Rightarrow> kmem \<Rightarrow> u64 \<times> kmem" where
  "kalloc_page cpuid s =
     (let (r0, s0) = freelist_take s cpuid;
          (r, s1) = (if r0 = 0 then kalloc_steal s0 cpuid [0..<NCPU] else (r0, s0))
      in if r \<noteq> 0
         then (r, s1\<lparr>km_quota := (km_quota s1)(r div PGSIZE := 1),
                     km_mem := page_fill (km_mem s1) r junk_alloc\<rparr>)
         else (0, s1))"

text \<open>
  The loop of \<^verbatim>\<open>freerange\<close>; its cursor is a natural number because pointer arithmetic that
  overflows is undefined in C.
\<close>

function freerange_loop :: "u64 \<Rightarrow> kmem \<Rightarrow> nat \<Rightarrow> nat \<Rightarrow> nat \<Rightarrow> kmem res" where
  "freerange_loop kend s cid p pa_end =
     (if p + 4096 \<le> pa_end then
        rbind (kfree_page_to kend
                 (s\<lparr>km_quota := (km_quota s)(of_nat p div PGSIZE := 1)\<rparr>) cid (of_nat p))
          (\<lambda>s1. freerange_loop kend s1 ((cid + 1) mod NCPU) (p + 4096) pa_end)
      else Ok s)"
  by pat_completeness auto
termination
  by (relation "measure (\<lambda>(kend, s, cid, p, pa_end). pa_end - p)") auto

declare freerange_loop.simps [simp del]

definition freerange :: "u64 \<Rightarrow> kmem \<Rightarrow> u64 \<Rightarrow> u64 \<Rightarrow> kmem res" where
  "freerange kend s pa_start pa_end =
     freerange_loop kend s 0 (unat (PGROUNDUP pa_start)) (unat pa_end)"

text \<open>The page-allocator part of \<^verbatim>\<open>kinit\<close>, from the zeroed \<^verbatim>\<open>.bss\<close>.\<close>

definition kinit :: "u64 \<Rightarrow> pmem \<Rightarrow> kmem res" where
  "kinit kend m =
     freerange kend \<lparr>km_mem = m, km_freelist = (\<lambda>_. 0), km_quota = (\<lambda>_. 0)\<rparr> kend PHYSTOP"

text \<open>
  \<^verbatim>\<open>freemem\<close> follows the lists; the fuel is the number of page frames below \<^verbatim>\<open>PHYSTOP\<close>.
\<close>

fun run_length :: "nat \<Rightarrow> pmem \<Rightarrow> u64 \<Rightarrow> nat option" where
  "run_length fuel m r =
     (if r = 0 then Some 0
      else case fuel of 0 \<Rightarrow> None | Suc f \<Rightarrow> map_option Suc (run_length f m (m r)))"

declare run_length.simps [simp del]

fun freemem_loop :: "nat \<Rightarrow> kmem \<Rightarrow> nat list \<Rightarrow> nat option" where
  "freemem_loop fuel s [] = Some 0"
| "freemem_loop fuel s (cid # cids) =
     Option.bind (run_length fuel (km_mem s) (km_freelist s cid))
       (\<lambda>n. map_option (\<lambda>k. n + k) (freemem_loop fuel s cids))"

text \<open>\<^verbatim>\<open>num * PGSIZE\<close> is an \<^verbatim>\<open>int\<close> product, converted to \<^verbatim>\<open>uint64\<close>.\<close>

definition freemem :: "kmem \<Rightarrow> u64 option" where
  "freemem s =
     map_option (\<lambda>num. scast ((of_nat num :: i32) * 4096)) (freemem_loop 525824 s [0..<NCPU])"

section \<open>Freelists\<close>

primrec chain :: "pmem \<Rightarrow> u64 \<Rightarrow> u64 list \<Rightarrow> bool" where
  "chain m x [] \<longleftrightarrow> x = 0"
| "chain m x (p # ps) \<longleftrightarrow> x = p \<and> p \<noteq> 0 \<and> chain m (m p) ps"

lemma chain_cong:
  "(\<And>p. p \<in> set ps \<Longrightarrow> m p = m' p) \<Longrightarrow> chain m x ps = chain m' x ps"
  by (induction ps arbitrary: x) auto

lemma chain_null [simp]: "chain m 0 ps \<longleftrightarrow> ps = []"
  by (cases ps) auto

lemma chain_nonnull: "x \<noteq> 0 \<Longrightarrow> chain m x ps \<longleftrightarrow> (\<exists>qs. ps = x # qs \<and> chain m (m x) qs)"
  by (cases ps) auto

lemma chain_unique: "chain m x ps \<Longrightarrow> chain m x qs \<Longrightarrow> ps = qs"
proof (induction ps arbitrary: x qs)
  case (Cons p ps)
  then show ?case by (cases qs) auto
qed simp

lemma run_length_chain:
  "chain m x ps \<Longrightarrow> length ps \<le> fuel \<Longrightarrow> run_length fuel m x = Some (length ps)"
proof (induction ps arbitrary: x fuel)
  case Nil
  then show ?case by (simp add: run_length.simps)
next
  case (Cons p ps)
  then obtain f where "fuel = Suc f" by (cases fuel) auto
  with Cons show ?case by (subst run_length.simps) auto
qed

definition good_pages :: "u64 \<Rightarrow> u64 set" where
  "good_pages kend = {pa. \<not> bad_page kend pa \<and> pa \<noteq> 0}"

definition free_lists :: "kmem \<Rightarrow> (nat \<Rightarrow> u64 list) \<Rightarrow> bool" where
  "free_lists s L \<longleftrightarrow>
     (\<forall>cid < NCPU. chain (km_mem s) (km_freelist s cid) (L cid) \<and> distinct (L cid)) \<and>
     (\<forall>i < NCPU. \<forall>j < NCPU. i \<noteq> j \<longrightarrow> set (L i) \<inter> set (L j) = {})"

definition free_of :: "(nat \<Rightarrow> u64 list) \<Rightarrow> u64 set" where
  "free_of L = (\<Union>cid < NCPU. set (L cid))"

text \<open>
  The allocator's invariant: the lists are well-formed, disjoint and hold exactly the pages
  whose reference count is zero.
\<close>

definition kalloc_ok :: "u64 \<Rightarrow> kmem \<Rightarrow> (nat \<Rightarrow> u64 list) \<Rightarrow> bool" where
  "kalloc_ok kend s L \<longleftrightarrow> 0 < kend \<and> free_lists s L \<and> free_of L \<subseteq> good_pages kend \<and>
     (\<forall>pa \<in> good_pages kend. pa \<in> free_of L \<longleftrightarrow> km_quota s (pa div PGSIZE) = 0)"

lemma good_pages_aligned: "pa \<in> good_pages kend \<Longrightarrow> page_aligned pa"
  by (simp add: good_pages_def bad_page_def page_aligned_def)

lemma good_page_div_inj:
  assumes "page_aligned pa" and "page_aligned pb" and "pa div PGSIZE = pb div PGSIZE"
  shows "pa = pb"
proof -
  have "unat pa div 4096 = unat pb div 4096"
    using arg_cong [OF assms(3), of unat] by (simp add: unat_div)
  with assms(1,2) show ?thesis
    by (simp add: page_aligned_unat word_unat_eq_iff) (metis div_mult_mod_eq)
qed


section \<open>Every operation keeps the freelists\<close>

lemma free_lists_pop:
  assumes "free_lists s L" and "cid < NCPU" and "km_freelist s cid = r" and "r \<noteq> 0"
  obtains qs where "L cid = r # qs"
    and "free_lists (s\<lparr>km_freelist := (km_freelist s)(cid := km_mem s r)\<rparr>) (L(cid := qs))"
    and "r \<notin> free_of (L(cid := qs))"
    and "free_of L = insert r (free_of (L(cid := qs)))"
proof -
  have "chain (km_mem s) r (L cid)"
    using assms by (auto simp: free_lists_def)
  then obtain qs where qs: "L cid = r # qs" "chain (km_mem s) (km_mem s r) qs"
    using assms(4) chain_nonnull by blast
  have *: "j < NCPU \<Longrightarrow> j \<noteq> cid \<Longrightarrow> set (L j) \<inter> set (r # qs) = {}" for j
    using assms(1,2) qs(1) unfolding free_lists_def by metis
  have d: "distinct (r # qs)"
    using assms(1,2) qs(1) unfolding free_lists_def by metis
  show thesis
  proof (rule that [OF qs(1)])
    show "free_lists (s\<lparr>km_freelist := (km_freelist s)(cid := km_mem s r)\<rparr>) (L(cid := qs))"
      using assms(1) qs(2) d * by (auto simp: free_lists_def)
    show "r \<notin> free_of (L(cid := qs))"
      using d * by (auto simp: free_of_def)
    show "free_of L = insert r (free_of (L(cid := qs)))"
      using qs(1) assms(2) by (force simp: free_of_def split: if_splits)
  qed
qed

lemma free_lists_push:
  assumes "free_lists s L" and "cid < NCPU" and "pa \<noteq> 0" and "pa \<notin> free_of L"
    and "\<And>p. p \<in> free_of L \<Longrightarrow> m p = km_mem s p" and "m pa = km_freelist s cid"
  shows "free_lists (s\<lparr>km_mem := m, km_freelist := (km_freelist s)(cid := pa)\<rparr>)
           (L(cid := pa # L cid))"
proof -
  have *: "j < NCPU \<Longrightarrow> p \<in> set (L j) \<Longrightarrow> m p = km_mem s p \<and> p \<noteq> pa" for j p
    using assms(4,5) by (auto simp: free_of_def)
  have c: "j < NCPU \<Longrightarrow> chain m x (L j) = chain (km_mem s) x (L j)" for j x
    using * by (intro chain_cong) auto
  have "pa \<notin> set (L j)" if "j < NCPU" for j
    using * [OF that] by blast
  with assms(1,2,3,6) c show ?thesis
    by (auto simp: free_lists_def)
qed

lemma free_of_push:
  "cid < NCPU \<Longrightarrow> free_of (L(cid := pa # L cid)) = insert pa (free_of L)"
  by (auto simp: free_of_def split: if_splits)

lemma free_lists_mem_cong:
  assumes "free_lists s L" and "\<And>p. p \<in> free_of L \<Longrightarrow> m p = km_mem s p"
    and "km_freelist s' = km_freelist s" and "km_mem s' = m"
  shows "free_lists s' L"
proof -
  have "j < NCPU \<Longrightarrow> chain m x (L j) = chain (km_mem s) x (L j)" for j x
    using assms(2) by (intro chain_cong) (auto simp: free_of_def)
  with assms show ?thesis by (auto simp: free_lists_def)
qed

definition kalloc_inv :: "u64 \<Rightarrow> kmem \<Rightarrow> bool" where
  "kalloc_inv kend s \<longleftrightarrow> (\<exists>L. kalloc_ok kend s L)"

definition krefs :: "kmem \<Rightarrow> u64 \<Rightarrow> nat" where
  "krefs s pa = unat (km_quota s (pa div PGSIZE))"

text \<open>
  What taking a page out of the lists leaves: the page is in no list any more, its count is
  still the zero of a free page, memory and counts are untouched.
\<close>

definition taken :: "u64 \<Rightarrow> kmem \<Rightarrow> u64 \<Rightarrow> kmem \<Rightarrow> bool" where
  "taken kend s r s1 \<longleftrightarrow> km_mem s1 = km_mem s \<and> km_quota s1 = km_quota s \<and>
     (\<exists>L L1. kalloc_ok kend s L \<and> free_lists s1 L1 \<and> r \<notin> free_of L1 \<and> free_of L = insert r (free_of L1))"

lemma freelist_take_ok:
  assumes "kalloc_ok kend s L" and "cid < NCPU" and "freelist_take s cid = (r, s1)"
  shows "if r = 0 then s1 = s \<and> L cid = [] else taken kend s r s1"
proof (cases "r = 0")
  case True
  with assms show ?thesis
    by (auto simp: freelist_take_def Let_def kalloc_ok_def free_lists_def)
next
  case False
  have r: "km_freelist s cid = r"
    and s1: "s1 = s\<lparr>km_freelist := (km_freelist s)(cid := km_mem s r)\<rparr>"
    using assms(3) False by (auto simp: freelist_take_def Let_def)
  have fl: "free_lists s L" using assms(1) by (simp add: kalloc_ok_def)
  obtain qs where "free_lists s1 (L(cid := qs))" "r \<notin> free_of (L(cid := qs))"
    "free_of L = insert r (free_of (L(cid := qs)))"
    using free_lists_pop [OF fl assms(2) r False] unfolding s1 by metis
  moreover have "km_mem s1 = km_mem s" "km_quota s1 = km_quota s"
    by (simp_all add: s1)
  ultimately show ?thesis
    using False assms(1) unfolding taken_def by auto
qed

lemma kalloc_steal_ok:
  assumes "kalloc_ok kend s L" and "\<forall>n \<in> set ns. n < NCPU" and "kalloc_steal s cid ns = (r, s1)"
  shows "if r = 0 then s1 = s \<and> (\<forall>n \<in> set ns. n \<noteq> cid \<longrightarrow> L n = []) else taken kend s r s1"
  using assms
proof (induction ns)
  case (Cons n ns)
  obtain r' s' where t: "freelist_take s n = (r', s')"
    by (cases "freelist_take s n")
  show ?case
  proof (cases "n = cid")
    case True
    with Cons show ?thesis by auto
  next
    case False
    note tk = freelist_take_ok [OF Cons.prems(1) _ t]
    show ?thesis
    proof (cases "r' = 0")
      case True
      with tk Cons.prems(2) have "s' = s" "L n = []" by auto
      with True False Cons t show ?thesis by auto
    next
      case r': False
      with tk Cons.prems(2) have "taken kend s r' s'" by auto
      with r' False Cons t show ?thesis by auto
    qed
  qed
qed auto

lemma kalloc_page_ok:
  assumes "kalloc_ok kend s L" and "cid < NCPU" and "kalloc_page cid s = (r, s')"
  shows "if r = 0 then s' = s \<and> free_of L = {}
         else \<exists>s1. taken kend s r s1 \<and>
           s' = s1\<lparr>km_quota := (km_quota s1)(r div PGSIZE := 1),
                   km_mem := page_fill (km_mem s1) r junk_alloc\<rparr>"
proof -
  obtain r0 s0 where t0: "freelist_take s cid = (r0, s0)"
    by (cases "freelist_take s cid")
  note f0 = freelist_take_ok [OF assms(1,2) t0]
  show ?thesis
  proof (cases "r0 = 0")
    case True
    with f0 have s0: "s0 = s" and Lc: "L cid = []" by auto
    obtain r1 s1 where t1: "kalloc_steal s cid [0..<NCPU] = (r1, s1)"
      by (cases "kalloc_steal s cid [0..<NCPU]")
    note f1 = kalloc_steal_ok [OF assms(1) _ t1]
    have "r1 = 0 \<Longrightarrow> s1 = s \<and> free_of L = {}"
      using f1 Lc by (force simp: free_of_def)
    moreover have "r1 \<noteq> 0 \<Longrightarrow> taken kend s r1 s1"
      using f1 by auto
    ultimately show ?thesis
      using assms(3) True by (auto simp: kalloc_page_def t0 s0 t1 split: if_splits)
  next
    case False
    with f0 assms(3) show ?thesis
      by (auto simp: kalloc_page_def t0)
  qed
qed

lemma good_refs_upd:
  assumes "pa \<in> good_pages kend" and "pb \<in> good_pages kend"
  shows "(pa div PGSIZE = pb div PGSIZE) = (pa = pb)"
  using assms good_page_div_inj good_pages_aligned by blast

lemma page_fill_other:
  "page_aligned pa \<Longrightarrow> page_aligned p \<Longrightarrow> p \<noteq> pa \<Longrightarrow> page_fill m pa w p = m p"
  by (simp add: page_fill_def in_page_aligned)

lemma kalloc_page_keeps:
  assumes "kalloc_inv kend s" and "cid < NCPU" and "kalloc_page cid s = (r, s')"
  shows "kalloc_inv kend s'"
proof -
  obtain L where L: "kalloc_ok kend s L" using assms(1) by (auto simp: kalloc_inv_def)
  note ok = kalloc_page_ok [OF L assms(2,3)]
  show ?thesis
  proof (cases "r = 0")
    case True
    with ok assms(1) show ?thesis by simp
  next
    case False
    with ok obtain s1 where tk: "taken kend s r s1"
      and s': "s' = s1\<lparr>km_quota := (km_quota s1)(r div PGSIZE := 1),
                   km_mem := page_fill (km_mem s1) r junk_alloc\<rparr>" by auto
    from tk obtain L0 L1 where k: "km_mem s1 = km_mem s" "km_quota s1 = km_quota s"
      "kalloc_ok kend s L0" "free_lists s1 L1" "r \<notin> free_of L1" "free_of L0 = insert r (free_of L1)"
      by (auto simp: taken_def)
    have good: "free_of L1 \<subseteq> good_pages kend" "r \<in> good_pages kend" "0 < kend"
      using k by (auto simp: kalloc_ok_def)
    have "free_lists s' L1"
      using good k(5) by (intro free_lists_mem_cong [OF k(4)])
        (auto simp: s' intro!: page_fill_other good_pages_aligned)
    moreover have "pa \<in> free_of L1 \<longleftrightarrow> km_quota s' (pa div PGSIZE) = 0"
      if pa: "pa \<in> good_pages kend" for pa
      using k(3,5,6) good pa good_refs_upd [OF pa good(2)] by (auto simp: s' k(2) kalloc_ok_def)
    ultimately show ?thesis
      using good by (auto simp: kalloc_inv_def kalloc_ok_def)
  qed
qed

lemma kalloc_page_refs:
  assumes "kalloc_inv kend s" and "cid < NCPU" and "kalloc_page cid s = (r, s')" and "r \<noteq> 0"
  shows "r \<in> good_pages kend" and "krefs s r = 0"
    and "\<forall>q \<in> good_pages kend. krefs s' q = (if q = r then 1 else krefs s q)"
    and "\<forall>a. \<not> in_page r a \<longrightarrow> km_mem s' a = km_mem s a"
proof -
  obtain L where L: "kalloc_ok kend s L" using assms(1) by (auto simp: kalloc_inv_def)
  obtain s1 where tk: "taken kend s r s1"
    and s': "s' = s1\<lparr>km_quota := (km_quota s1)(r div PGSIZE := 1),
                 km_mem := page_fill (km_mem s1) r junk_alloc\<rparr>"
    using kalloc_page_ok [OF L assms(2,3)] assms(4) by auto
  then show *: "r \<in> good_pages kend" and "krefs s r = 0"
    by (auto simp: taken_def kalloc_ok_def krefs_def unat_0_iff)
  show "\<forall>q \<in> good_pages kend. krefs s' q = (if q = r then 1 else krefs s q)"
    using tk good_refs_upd [OF _ *] by (auto simp: taken_def krefs_def s')
  show "\<forall>a. \<not> in_page r a \<longrightarrow> km_mem s' a = km_mem s a"
    using tk by (simp add: s' taken_def page_fill_def)
qed

lemma kalloc_page_null:
  assumes "kalloc_inv kend s" and "cid < NCPU" and "kalloc_page cid s = (0, s')"
  shows "s' = s \<and> (\<forall>q \<in> good_pages kend. 0 < krefs s q)"
proof -
  obtain L where L: "kalloc_ok kend s L" using assms(1) by (auto simp: kalloc_inv_def)
  from kalloc_page_ok [OF L assms(2,3)] L show ?thesis
    by (auto simp: kalloc_ok_def krefs_def unat_gt_0)
qed

lemma kaddquota_ok:
  assumes "kalloc_inv kend s" and "pa \<in> good_pages kend" and "0 < krefs s pa" and "krefs s pa < 255"
  shows "\<exists>s'. kaddquota kend s pa = Ok s' \<and> kalloc_inv kend s' \<and> km_mem s' = km_mem s \<and>
    (\<forall>q \<in> good_pages kend. krefs s' q = (if q = pa then krefs s pa + 1 else krefs s q))"
proof -
  let ?q = "km_quota s (pa div PGSIZE)"
  define s' where "s' = s\<lparr>km_quota := (km_quota s)(pa div PGSIZE := ?q + 1)\<rparr>"
  have inc: "unat (?q + 1) = unat ?q + 1"
    using assms(4) by (simp add: krefs_def unat_word_ariths)
  then have nz: "?q + 1 \<noteq> 0"
    by (metis Suc_eq_plus1 nat.distinct(1) unat_0)
  have qnz: "?q \<noteq> 0"
    using assms(3) by (auto simp: krefs_def)
  obtain L where L: "kalloc_ok kend s L" using assms(1) by (auto simp: kalloc_inv_def)
  have "kalloc_ok kend s' L"
    using L nz qnz assms(2) good_refs_upd [OF _ assms(2)]
    by (auto simp: kalloc_ok_def s'_def free_lists_def)
  moreover have "\<forall>q \<in> good_pages kend. krefs s' q = (if q = pa then krefs s pa + 1 else krefs s q)"
    using good_refs_upd [OF _ assms(2)] inc by (auto simp: krefs_def s'_def)
  moreover have "kaddquota kend s pa = Ok s'"
    using assms(2) by (simp add: kaddquota_def good_pages_def s'_def)
  ultimately show ?thesis
    by (auto simp: kalloc_inv_def s'_def)
qed

text \<open>The invariant reads no memory but the first word of each free page.\<close>

lemma kalloc_inv_mem:
  assumes "kalloc_inv kend s" and "\<And>p. p \<in> good_pages kend \<Longrightarrow> krefs s p = 0 \<Longrightarrow> m p = km_mem s p"
  shows "kalloc_inv kend (s\<lparr>km_mem := m\<rparr>)"
proof -
  obtain L where L: "kalloc_ok kend s L" using assms(1) by (auto simp: kalloc_inv_def)
  have same: "m p = km_mem s p" if "p \<in> free_of L" for p
  proof -
    have "p \<in> good_pages kend" "krefs s p = 0"
      using L that by (auto simp: kalloc_ok_def krefs_def)
    then show ?thesis by (rule assms(2))
  qed
  have "free_lists s L" using L by (simp add: kalloc_ok_def)
  from free_lists_mem_cong [OF this same, of "s\<lparr>km_mem := m\<rparr>"]
  have "free_lists (s\<lparr>km_mem := m\<rparr>) L" by simp
  with L have "kalloc_ok kend (s\<lparr>km_mem := m\<rparr>) L" by (simp add: kalloc_ok_def)
  then show ?thesis by (auto simp: kalloc_inv_def)
qed

lemma krefs_mem [simp]: "krefs (s\<lparr>km_mem := m\<rparr>) = krefs s"
  by (rule ext) (simp add: krefs_def)

lemma good_pages_bound: "p \<in> good_pages kend \<Longrightarrow> unat p < 2 ^ 56 \<and> p \<noteq> 0"
  by (simp add: good_pages_def bad_page_def word_le_nat_alt)

lemma kfree_last:
  assumes "free_lists s L" and "free_of L \<subseteq> good_pages kend" and "cid < NCPU"
    and "pa \<in> good_pages kend" and "pa \<notin> free_of L" and "km_quota s (pa div PGSIZE) = 1"
  obtains s' where "kfree_page_to kend s cid pa = Ok s'"
    and "free_lists s' (L(cid := pa # L cid))"
    and "km_quota s' = (km_quota s)(pa div PGSIZE := 0)"
    and "\<And>a. \<not> in_page pa a \<Longrightarrow> km_mem s' a = km_mem s a"
proof -
  have bad: "\<not> bad_page kend pa" "pa \<noteq> 0"
    using assms(4) by (auto simp: good_pages_def)
  define s1 where "s1 = s\<lparr>km_quota := (km_quota s)(pa div PGSIZE := 0)\<rparr>"
  define m where "m = (page_fill (km_mem s) pa junk_freed)(pa := km_freelist s cid)"
  define s2 where "s2 = s1\<lparr>km_mem := m, km_freelist := (km_freelist s)(cid := pa)\<rparr>"
  have "kfree_page_to kend s cid pa = Ok s2"
    using bad assms(6) by (simp add: kfree_page_to_def Let_def s1_def s2_def m_def)
  moreover have "m p = km_mem s p" if "p \<in> free_of L" for p
    using that assms(2,5) page_fill_other [OF good_pages_aligned [OF assms(4)], of p]
      good_pages_aligned [of p kend] by (auto simp: m_def)
  then have "free_lists s2 (L(cid := pa # L cid))"
    using free_lists_push [of s1 L cid pa m] assms(1,3,5) bad(2)
    by (auto simp: s2_def s1_def m_def free_lists_def)
  moreover have "km_quota s2 = (km_quota s)(pa div PGSIZE := 0)"
    by (simp add: s2_def s1_def)
  moreover have "km_mem s2 a = km_mem s a" if "\<not> in_page pa a" for a
    using that by (auto simp: s2_def m_def page_fill_def)
  ultimately show thesis by (rule that)
qed

lemma kfree_page_to_ok:
  assumes "kalloc_inv kend s" and "cid < NCPU" and "pa \<in> good_pages kend" and "0 < krefs s pa"
  shows "\<exists>s'. kfree_page_to kend s cid pa = Ok s' \<and> kalloc_inv kend s' \<and>
    (\<forall>q \<in> good_pages kend. krefs s' q = (if q = pa then krefs s pa - 1 else krefs s q)) \<and>
    (\<forall>a. \<not> in_page pa a \<or> 1 < krefs s pa \<longrightarrow> km_mem s' a = km_mem s a)"
proof -
  let ?q = "km_quota s (pa div PGSIZE)"
  obtain L where L: "kalloc_ok kend s L" using assms(1) by (auto simp: kalloc_inv_def)
  have qnz: "?q \<noteq> 0"
    using assms(4) by (auto simp: krefs_def)
  have dec: "unat (?q - 1) = unat ?q - 1"
    using qnz by (simp add: unat_minus_one)
  have notfree: "pa \<notin> free_of L"
    using L assms(3) qnz by (auto simp: kalloc_ok_def)
  show ?thesis
  proof (cases "?q = 1")
    case False
    define s1 where "s1 = s\<lparr>km_quota := (km_quota s)(pa div PGSIZE := ?q - 1)\<rparr>"
    have refs: "\<forall>q \<in> good_pages kend. krefs s1 q = (if q = pa then krefs s pa - 1 else krefs s q)"
      using good_refs_upd [OF _ assms(3)] dec by (auto simp: krefs_def s1_def)
    have nz: "?q - 1 \<noteq> 0"
      using False by simp
    then have "0 < uint (?q - 1)"
      using uint_ge_0 [of "?q - 1"] by (metis linorder_not_less order_antisym_conv uint_0_iff)
    then have run: "kfree_page_to kend s cid pa = Ok s1"
      using assms(3) by (simp add: good_pages_def kfree_page_to_def Let_def s1_def)
    have "kalloc_ok kend s1 L"
      using L nz qnz assms(3) notfree good_refs_upd [OF _ assms(3)]
      by (auto simp: kalloc_ok_def s1_def free_lists_def)
    with run refs show ?thesis
      by (auto simp: kalloc_inv_def s1_def)
  next
    case True
    have one: "krefs s pa = 1"
      using True by (simp add: krefs_def)
    obtain s2 where s2: "kfree_page_to kend s cid pa = Ok s2"
      "free_lists s2 (L(cid := pa # L cid))"
      "km_quota s2 = (km_quota s)(pa div PGSIZE := 0)"
      "\<And>a. \<not> in_page pa a \<Longrightarrow> km_mem s2 a = km_mem s a"
      using kfree_last [OF _ _ assms(2,3) notfree True, of thesis] L by (auto simp: kalloc_ok_def)
    then have "kalloc_ok kend s2 (L(cid := pa # L cid))"
      using L assms(2,3) good_refs_upd [OF _ assms(3)]
      by (auto simp: kalloc_ok_def free_of_push)
    moreover have "\<forall>q \<in> good_pages kend. krefs s2 q = (if q = pa then krefs s pa - 1 else krefs s q)"
      using good_refs_upd [OF _ assms(3)] one by (auto simp: krefs_def s2(3))
    ultimately show ?thesis
      using s2 one by (auto simp: kalloc_inv_def)
  qed
qed

interpretation ka: page_allocator "kalloc_inv kend" "{..<NCPU}" "good_pages kend" 255 krefs
  kalloc_page "kfree_page kend" "kaddquota kend" for kend
proof unfold_locales
  show "0 \<notin> good_pages kend"
    by (simp add: good_pages_def)
next
  fix s h p s'
  assume "kalloc_inv kend s" and "h \<in> {..<NCPU}" and "kalloc_page h s = (p, s')"
  then show "kalloc_inv kend s'"
    using kalloc_page_keeps by auto
next
  fix s h s'
  assume "kalloc_inv kend s" and "h \<in> {..<NCPU}" and "kalloc_page h s = (0, s')"
  then show "s' = s \<and> (\<forall>q \<in> good_pages kend. 0 < krefs s q)"
    using kalloc_page_null by auto
next
  fix s h p s'
  assume "kalloc_inv kend s" and "h \<in> {..<NCPU}" and "kalloc_page h s = (p, s')" and "p \<noteq> 0"
  then show "p \<in> good_pages kend \<and> krefs s p = 0 \<and>
      (\<forall>q \<in> good_pages kend. krefs s' q = (if q = p then 1 else krefs s q))"
    using kalloc_page_refs [of kend s h p s'] by auto
next
  fix s h p
  assume "kalloc_inv kend s" and "h \<in> {..<NCPU}" and "p \<in> good_pages kend" and "0 < krefs s p"
  then show "\<exists>s'. kfree_page kend h s p = Ok s' \<and> kalloc_inv kend s' \<and>
      (\<forall>q \<in> good_pages kend. krefs s' q = (if q = p then krefs s p - 1 else krefs s q))"
    using kfree_page_to_ok [of kend s h p] by (auto simp: kfree_page_def)
next
  fix s p
  assume "kalloc_inv kend s" and "p \<in> good_pages kend" and "0 < krefs s p" and "krefs s p < 255"
  then show "\<exists>s'. kaddquota kend s p = Ok s' \<and> kalloc_inv kend s' \<and>
      (\<forall>q \<in> good_pages kend. krefs s' q = (if q = p then krefs s p + 1 else krefs s q))"
    using kaddquota_ok [of kend s p] by auto
qed

section \<open>Initialisation\<close>

text \<open>The pages below the cursor of \<^verbatim>\<open>freerange\<close> are listed, the others are in no list yet.\<close>

definition freed_upto :: "u64 \<Rightarrow> nat \<Rightarrow> kmem \<Rightarrow> bool" where
  "freed_upto kend p s \<longleftrightarrow> (\<exists>L. free_lists s L \<and>
     free_of L = {pa \<in> good_pages kend. unat pa < p} \<and> (\<forall>f. km_quota s f = 0))"

lemma unat_of_frame: "p < 2 ^ 64 \<Longrightarrow> unat (of_nat p :: u64) = p"
  by (simp add: unsigned_of_nat take_bit_nat_eq_self)

lemma freed_upto_step:
  assumes "freed_upto kend p s" and "p mod 4096 = 0" and "unat kend \<le> p" and "0 < p"
    and "p + 4096 \<le> 0x80600000" and "cid < NCPU"
  shows "\<exists>s'. kfree_page_to kend (s\<lparr>km_quota := (km_quota s)(of_nat p div PGSIZE := 1)\<rparr>) cid (of_nat p)
      = Ok s' \<and> freed_upto kend (p + 4096) s'"
proof -
  define pa :: u64 where "pa = of_nat p"
  have up: "unat pa = p"
    using assms(5) by (simp add: pa_def unat_of_frame)
  have good: "pa \<in> good_pages kend"
    using assms up by (auto simp: good_pages_def bad_page_def word_less_nat_alt word_le_nat_alt unat_mod
        simp flip: unat_0_iff)
  obtain L where L: "free_lists s L" "free_of L = {q \<in> good_pages kend. unat q < p}" "\<forall>f. km_quota s f = 0"
    using assms(1) by (auto simp: freed_upto_def)
  let ?s = "s\<lparr>km_quota := (km_quota s)(pa div PGSIZE := 1)\<rparr>"
  have "free_lists ?s L" using L(1) by (simp add: free_lists_def)
  moreover have "free_of L \<subseteq> good_pages kend" "pa \<notin> free_of L"
    using L(2) up by auto
  ultimately obtain s' where s': "kfree_page_to kend ?s cid pa = Ok s'"
    "free_lists s' (L(cid := pa # L cid))" "km_quota s' = (km_quota ?s)(pa div PGSIZE := 0)"
    by (rule kfree_last [OF _ _ assms(6) good]) auto
  have "unat q = p" if "q \<in> good_pages kend" "p \<le> unat q" "unat q < p + 4096" for q
  proof -
    have "4096 dvd unat q - p"
      using that(1) assms(2) good_pages_aligned [of q]
      by (intro dvd_diff_nat) (auto simp: page_aligned_unat mod_eq_0_iff_dvd)
    moreover have "unat q - p < 4096" using that by linarith
    ultimately have "unat q - p = 0" by (meson dvd_imp_le linorder_not_less neq0_conv)
    with that show ?thesis by simp
  qed
  then have "q \<in> good_pages kend \<and> unat q < p + 4096 \<longleftrightarrow> q = pa \<or> q \<in> good_pages kend \<and> unat q < p" for q
    using good up by (metis linorder_not_less trans_less_add1 word_unat_eq_iff less_add_same_cancel1 zero_less_numeral)
  then have "free_of (L(cid := pa # L cid)) = {q \<in> good_pages kend. unat q < p + 4096}"
    using L(2) assms(6) by (auto simp: free_of_push)
  with s' L(3) show ?thesis
    unfolding pa_def freed_upto_def by auto
qed

lemma freerange_loop_ok:
  assumes "freed_upto kend p s" and "p mod 4096 = 0" and "unat kend \<le> p" and "0 < p"
    and "p \<le> 0x80600000" and "cid < NCPU"
  shows "\<exists>s'. freerange_loop kend s cid p 0x80600000 = Ok s' \<and> freed_upto kend 0x80600000 s'"
  using assms
proof (induction "0x80600000 - p" arbitrary: p s cid rule: less_induct)
  case less
  show ?case
  proof (cases "p + 4096 \<le> 0x80600000")
    case False
    moreover have "4096 dvd 0x80600000 - p"
      using less.prems(2) by (intro dvd_diff_nat) (auto simp: mod_eq_0_iff_dvd)
    ultimately have "p = 0x80600000"
      using less.prems(5) by (auto dest!: dvd_imp_le)
    with less.prems(1) show ?thesis
      by (subst freerange_loop.simps) auto
  next
    case True
    obtain s1 where s1: "kfree_page_to kend (s\<lparr>km_quota := (km_quota s)(of_nat p div PGSIZE := 1)\<rparr>) cid (of_nat p)
        = Ok s1" "freed_upto kend (p + 4096) s1"
      using freed_upto_step [OF less.prems(1-4) True less.prems(6)] by blast
    have "\<exists>s'. freerange_loop kend s1 ((cid + 1) mod NCPU) (p + 4096) 0x80600000 = Ok s' \<and>
        freed_upto kend 0x80600000 s'"
      using less.prems True by (intro less.hyps [OF _ s1(2)]) auto
    with True s1(1) show ?thesis
      by (subst freerange_loop.simps) simp
  qed
qed

lemma kinit_ok:
  assumes "0 < kend" and "kend \<le> PHYSTOP"
  shows "\<exists>s. kinit kend m = Ok s \<and> kalloc_inv kend s \<and> (\<forall>pa \<in> good_pages kend. krefs s pa = 0)"
proof -
  let ?s0 = "\<lparr>km_mem = m, km_freelist = (\<lambda>_. 0), km_quota = (\<lambda>_. 0)\<rparr>"
  let ?p = "unat (PGROUNDUP kend)"
  have k: "unat kend \<le> 0x80600000" "0 < unat kend"
    using assms by (simp_all add: word_le_nat_alt unat_gt_0)
  then have p: "?p = (unat kend + 4095) div 4096 * 4096"
    by (simp add: page_simps)
  have ge: "unat kend \<le> ?p" unfolding p by linarith
  have gap: "?p < unat kend + 4096" unfolding p by linarith
  have "\<not> (pa \<in> good_pages kend \<and> unat pa < ?p)" for pa
  proof
    assume pa: "pa \<in> good_pages kend \<and> unat pa < ?p"
    then have le: "unat kend \<le> unat pa"
      by (simp add: good_pages_def bad_page_def word_less_nat_alt word_le_nat_alt)
    have "4096 dvd ?p - unat pa"
      using pa good_pages_aligned [of pa] unfolding p
      by (intro dvd_diff_nat) (auto simp: page_aligned_unat mod_eq_0_iff_dvd)
    moreover have "0 < ?p - unat pa" "?p - unat pa < 4096"
      using pa le gap by linarith+
    ultimately show False
      by (meson dvd_imp_le linorder_not_less)
  qed
  then have "freed_upto kend ?p ?s0"
    unfolding freed_upto_def by (intro exI [of _ "\<lambda>_. []"]) (auto simp: free_lists_def free_of_def)
  moreover have "?p mod 4096 = 0" "?p \<le> 0x80600000"
    using k by (auto simp: p)
  ultimately obtain s where s: "freerange_loop kend ?s0 0 ?p 0x80600000 = Ok s" "freed_upto kend 0x80600000 s"
    using freerange_loop_ok [of kend ?p ?s0 0] ge k(2) by auto
  have "kinit kend m = Ok s"
    using s(1) by (simp add: kinit_def freerange_def)
  moreover have "kalloc_inv kend s"
  proof -
    have lt: "pa \<in> good_pages kend \<Longrightarrow> unat pa < 0x80600000" for pa
      by (simp add: good_pages_def bad_page_def word_le_nat_alt)
    obtain L where "free_lists s L" "\<forall>f. km_quota s f = 0"
      "free_of L = {pa \<in> good_pages kend. unat pa < 0x80600000}"
      using s(2) by (auto simp: freed_upto_def)
    then have "kalloc_ok kend s L"
      using assms(1) lt by (auto simp: kalloc_ok_def)
    then show ?thesis by (auto simp: kalloc_inv_def)
  qed
  moreover have "\<forall>pa \<in> good_pages kend. krefs s pa = 0"
    using s(2) by (auto simp: freed_upto_def krefs_def)
  ultimately show ?thesis by blast
qed

section \<open>Free memory\<close>

lemma good_pages_card:
  assumes "0x80000000 \<le> kend"
  shows "finite (good_pages kend)" and "card (good_pages kend) \<le> 1536"
proof -
  have sub: "(\<lambda>pa. unat pa div 4096) ` good_pages kend \<subseteq> {524288..<525824}"
  proof
    fix f assume "f \<in> (\<lambda>pa. unat pa div 4096) ` good_pages kend"
    then obtain pa where pa: "pa \<in> good_pages kend" "f = unat pa div 4096" by blast
    then have "0x80000000 \<le> unat pa" "unat pa < 0x80600000"
      using assms by (auto simp: good_pages_def bad_page_def word_less_nat_alt word_le_nat_alt)
    with pa(2) show "f \<in> {524288..<525824}" by auto
  qed
  have inj: "inj_on (\<lambda>pa. unat pa div 4096) (good_pages kend)"
  proof (rule inj_onI)
    fix pa pb assume *: "pa \<in> good_pages kend" "pb \<in> good_pages kend" "unat pa div 4096 = unat pb div 4096"
    then have "pa div PGSIZE = pb div PGSIZE"
      by (simp add: word_unat_eq_iff unat_div)
    with * show "pa = pb"
      using good_page_div_inj good_pages_aligned by blast
  qed
  show "finite (good_pages kend)"
    using sub inj finite_imageD finite_subset by blast
  show "card (good_pages kend) \<le> 1536"
    using card_mono [OF _ sub] card_image [OF inj] by simp
qed

lemma free_lists_card:
  assumes "free_lists s L"
  shows "card (free_of L) = length (L 0) + length (L 1)"
proof -
  have L: "distinct (L 0)" "distinct (L 1)" "set (L 0) \<inter> set (L 1) = {}"
    using assms by (auto simp: free_lists_def)
  have "{..<NCPU} = {0, 1}" by auto
  then have "free_of L = set (L 0) \<union> set (L 1)"
    by (simp add: free_of_def)
  with L show ?thesis
    by (simp add: card_Un_disjoint distinct_card)
qed

lemma freemem_eq:
  assumes "kalloc_inv kend s" and "0x80000000 \<le> kend"
  shows "freemem s = Some (of_nat (4096 * card {pa \<in> good_pages kend. krefs s pa = 0}))"
proof -
  obtain L where L: "kalloc_ok kend s L" using assms(1) by (auto simp: kalloc_inv_def)
  have F: "free_of L = {pa \<in> good_pages kend. krefs s pa = 0}"
    using L by (auto simp: kalloc_ok_def krefs_def unat_0_iff)
  define n where "n = length (L 0) + length (L 1)"
  have card: "card (free_of L) = n"
    using L free_lists_card [of s L] by (simp add: kalloc_ok_def n_def)
  have n: "n \<le> 1536"
    using card_mono [OF good_pages_card(1) [OF assms(2)], of "free_of L"] good_pages_card(2) [OF assms(2)] L
    by (simp add: kalloc_ok_def card)
  have "run_length 525824 (km_mem s) (km_freelist s i) = Some (length (L i))" if "i < NCPU" for i
    using L that n less_2_cases [of i] by (intro run_length_chain) (auto simp: kalloc_ok_def free_lists_def n_def)
  then have "freemem_loop 525824 s [0..<NCPU] = Some n"
    by (simp add: upt_rec n_def)
  moreover have "scast (of_nat n * 4096 :: i32) = (of_nat (4096 * n) :: u64)"
  proof -
    have "(of_nat n * 4096 :: i32) = of_nat (4096 * n)" by simp
    then show ?thesis
      using n by (simp only: signed_of_nat) (simp add: signed_take_bit_int_eq_self)
  qed
  ultimately show ?thesis
    by (simp add: freemem_def F [symmetric] card)
qed

section \<open>Properties\<close>

text \<open>
  \<^verbatim>\<open>kinit\<close> never panics, for any end of the kernel image up to \<^verbatim>\<open>PHYSTOP\<close> and any
  contents of memory, and leaves a well-formed allocator in which every page frame from the
  end of the kernel to \<^verbatim>\<open>PHYSTOP\<close> is free.
\<close>

theorem kinit_establishes:
  assumes "0 < kend" and "kend \<le> PHYSTOP"
  shows "\<exists>s. kinit kend m = Ok s \<and> kalloc_inv kend s \<and> (\<forall>pa \<in> good_pages kend. krefs s pa = 0)"
  using kinit_ok [OF assms] .

theorem kinit_establishes_witness:
  "\<exists>s. kinit 0x80123456 (\<lambda>_. 7) = Ok s \<and> kalloc_inv 0x80123456 s \<and>
     (\<forall>pa \<in> good_pages 0x80123456. krefs s pa = 0)"
  by (rule kinit_establishes) simp_all

text \<open>
  C3: a run of \<open>n\<close> calls of \<^verbatim>\<open>kalloc_page\<close> returns pairwise distinct page frames, each of
  them free before and with exactly one owner afterwards, changes no other reference count,
  and stops early only when no frame is left on any CPU; freeing the frames on any CPU
  succeeds and restores every reference count.
\<close>

theorem kalloc_exclusive:
  assumes "kalloc_inv kend s" and "h < NCPU" and "g < NCPU"
    and "alloc_many (kalloc_page h) n s = (ps, s')"
  shows "kalloc_inv kend s' \<and> distinct ps \<and> set ps \<subseteq> good_pages kend \<and>
      (\<forall>p \<in> set ps. krefs s p = 0) \<and>
      (\<forall>q \<in> good_pages kend. krefs s' q = (if q \<in> set ps then 1 else krefs s q)) \<and>
      (length ps < n \<longrightarrow> (\<forall>q \<in> good_pages kend. 0 < krefs s' q)) \<and>
      (\<exists>s''. free_many (kfree_page kend g) s' ps = Ok s'' \<and> kalloc_inv kend s'' \<and>
         (\<forall>q \<in> good_pages kend. krefs s'' q = krefs s q))"
proof -
  from assms(2,3) have hg: "h \<in> {..<NCPU}" "g \<in> {..<NCPU}" by simp_all
  show ?thesis
    using ka.alloc_many_fresh [OF assms(1) hg(1) assms(4)]
      ka.alloc_free_many [OF assms(1) hg assms(4)] by blast
qed

text \<open>A machine with two free frames, one on the list of CPU 0 and one on that of CPU 1.\<close>

definition kmem_two :: kmem where
  "kmem_two = \<lparr>km_mem = (\<lambda>_. 0), km_freelist = (\<lambda>c. if c = 0 then 0x805FE000 else 0x805FF000),
     km_quota = (\<lambda>_. 0)\<rparr>"

lemma good_pages_two: "good_pages 0x805FE000 = {0x805FE000, 0x805FF000}"
proof
  show "good_pages 0x805FE000 \<subseteq> {0x805FE000, 0x805FF000}"
  proof
    fix pa :: u64
    assume pa: "pa \<in> good_pages 0x805FE000"
    then have r: "0x805FE000 \<le> unat pa" "unat pa < 0x80600000"
      by (auto simp: good_pages_def bad_page_def word_less_nat_alt word_le_nat_alt)
    have "unat pa mod 4096 = 0"
      using good_pages_aligned [OF pa] by (simp add: page_aligned_unat)
    then obtain k where k: "unat pa = 4096 * k" by (auto simp: mod_eq_0_iff_dvd)
    with r have "k = 525822 \<or> k = 525823" by linarith
    with k show "pa \<in> {0x805FE000, 0x805FF000}"
      by (auto simp: word_unat_eq_iff)
  qed
qed (auto simp: good_pages_def bad_page_def)

lemma kmem_two_inv: "kalloc_inv 0x805FE000 kmem_two"
proof -
  have N: "{..<NCPU} = {0, 1}" by auto
  have "kalloc_ok 0x805FE000 kmem_two (\<lambda>c. if c = 0 then [0x805FE000] else [0x805FF000])"
    by (auto simp: kalloc_ok_def kmem_two_def free_lists_def free_of_def N good_pages_two)
  then show ?thesis by (auto simp: kalloc_inv_def)
qed

theorem kalloc_exclusive_witness:
  "\<exists>ps s'. alloc_many (kalloc_page 1) 3 kmem_two = (ps, s') \<and> distinct ps \<and>
     ps = [0x805FF000, 0x805FE000] \<and> (\<forall>q \<in> good_pages 0x805FE000. 0 < krefs s' q)"
proof -
  obtain ps s' where e: "alloc_many (kalloc_page 1) 3 kmem_two = (ps, s')"
    by (cases "alloc_many (kalloc_page 1) 3 kmem_two")
  then have ps: "ps = [0x805FF000, 0x805FE000]"
    by (simp add: numeral_3_eq_3 kalloc_page_def freelist_take_def kmem_two_def upt_rec
        page_fill_def in_page_def Let_def split: if_splits prod.splits)
  have "length ps < 3" by (simp add: ps)
  moreover have "(1 :: nat) < NCPU" "(0 :: nat) < NCPU" by simp_all
  ultimately have "\<forall>q \<in> good_pages 0x805FE000. 0 < krefs s' q" "distinct ps"
    using kalloc_exclusive [OF kmem_two_inv _ _ e, of 0] by blast+
  with e ps show ?thesis by blast
qed

text \<open>
  the allocator never writes to memory that is in use: \<^verbatim>\<open>kalloc_page\<close> and
  \<^verbatim>\<open>kfree_page\<close> change no word of a frame that keeps an owner, whichever CPU runs them.
\<close>

theorem kalloc_frame:
  assumes "kalloc_inv kend s" and "h < NCPU" and "q \<in> good_pages kend" and "0 < krefs s q"
    and "in_page q a"
  shows "km_mem (snd (kalloc_page h s)) a = km_mem s a \<and>
    (\<forall>pa \<in> good_pages kend. 0 < krefs s pa \<and> (pa = q \<longrightarrow> 1 < krefs s q) \<longrightarrow>
      rmap (\<lambda>s'. km_mem s' a) (kfree_page kend h s pa) = Ok (km_mem s a))"
proof -
  have other: "\<not> in_page p a" if "p \<in> good_pages kend" "p \<noteq> q" for p
  proof
    assume "in_page p a"
    with assms(5) show False
      using page_unique [of p q a] good_pages_aligned that assms(3) by blast
  qed
  have "km_mem (snd (kalloc_page h s)) a = km_mem s a"
  proof -
    obtain r s' where e: "kalloc_page h s = (r, s')" by (cases "kalloc_page h s")
    show ?thesis
    proof (cases "r = 0")
      case True
      with e kalloc_page_null [OF assms(1,2)] show ?thesis by auto
    next
      case False
      note R = kalloc_page_refs [OF assms(1,2) e False]
      have "r \<noteq> q" using R(2) assms(4) by auto
      with R other e show ?thesis by auto
    qed
  qed
  moreover have "rmap (\<lambda>s'. km_mem s' a) (kfree_page kend h s pa) = Ok (km_mem s a)"
    if "pa \<in> good_pages kend" "0 < krefs s pa" "pa = q \<longrightarrow> 1 < krefs s q" for pa
  proof -
    have "\<not> in_page pa a \<or> 1 < krefs s pa" using other [of pa] that by blast
    with kfree_page_to_ok [OF assms(1,2) that(1,2)] show ?thesis
      by (auto simp: kfree_page_def)
  qed
  ultimately show ?thesis by blast
qed

text \<open>The second frame is in use, the first is free.\<close>

definition kmem_one :: kmem where
  "kmem_one = \<lparr>km_mem = (\<lambda>_. 0), km_freelist = (\<lambda>c. if c = 0 then 0x805FE000 else 0),
     km_quota = (\<lambda>f. if f = 0x805FF then 1 else 0)\<rparr>"

lemma kmem_one_inv: "kalloc_inv 0x805FE000 kmem_one"
proof -
  have N: "{..<NCPU} = {0, 1}" by auto
  have "kalloc_ok 0x805FE000 kmem_one (\<lambda>c. if c = 0 then [0x805FE000] else [])"
    by (auto simp: kalloc_ok_def kmem_one_def free_lists_def free_of_def N good_pages_two)
  then show ?thesis by (auto simp: kalloc_inv_def)
qed

theorem kalloc_frame_witness:
  "km_mem (snd (kalloc_page 1 kmem_one)) 0x805FF008 = 0 \<and> fst (kalloc_page 1 kmem_one) = 0x805FE000"
proof -
  have "km_mem (snd (kalloc_page 1 kmem_one)) 0x805FF008 = km_mem kmem_one 0x805FF008"
    by (rule kalloc_frame [where q = "0x805FF000", THEN conjunct1, OF kmem_one_inv])
      (simp_all add: good_pages_two krefs_def kmem_one_def in_page_def)
  then show ?thesis
    by (simp add: kmem_one_def kalloc_page_def freelist_take_def upt_rec)
qed

text \<open>
  \<^verbatim>\<open>freemem\<close> ends on every well-formed allocator and returns the page size times the
  number of frames without an owner; the \<^verbatim>\<open>int\<close> product cannot overflow, since the kernel is
  linked above \<^verbatim>\<open>0x80000000\<close>.
\<close>

theorem freemem_counts_free_frames:
  assumes "kalloc_inv kend s" and "0x80000000 \<le> kend"
  shows "freemem s = Some (of_nat (4096 * card {pa \<in> good_pages kend. krefs s pa = 0}))"
  using freemem_eq [OF assms] .

theorem freemem_counts_free_frames_witness: "freemem kmem_one = Some 4096"
proof -
  have "{pa \<in> good_pages 0x805FE000. krefs kmem_one pa = 0} = {0x805FE000}"
    by (auto simp: good_pages_two krefs_def kmem_one_def)
  with freemem_counts_free_frames [OF kmem_one_inv] show ?thesis by simp
qed

text \<open>
  the reference count of a frame is an unsigned \<^verbatim>\<open>char\<close> on RISC-V, so the test for a
  negative quota in \<^verbatim>\<open>kfree_page_to\<close> is never true: freeing a frame that is already free
  does not panic, and gives the frame, which stays on its freelist, 255 owners.
\<close>

theorem kfree_double_free_undetected:
  assumes "kalloc_inv kend s" and "pa \<in> good_pages kend" and "krefs s pa = 0"
  shows "\<exists>s'. kfree_page kend h s pa = Ok s' \<and> krefs s' pa = 255 \<and> \<not> kalloc_inv kend s'"
proof -
  obtain L where L: "kalloc_ok kend s L" using assms(1) by (auto simp: kalloc_inv_def)
  let ?s = "s\<lparr>km_quota := (km_quota s)(pa div PGSIZE := - 1)\<rparr>"
  have q: "km_quota s (pa div PGSIZE) = 0"
    using assms(3) by (simp add: krefs_def unat_0_iff)
  moreover have "uint (- 1 :: u8) = 255" by code_simp
  ultimately have "kfree_page kend h s pa = Ok ?s"
    using assms(2) by (simp add: kfree_page_def kfree_page_to_def good_pages_def Let_def)
  moreover have "unat (- 1 :: u8) = 255" by code_simp
  then have "krefs ?s pa = 255"
    by (simp add: krefs_def)
  moreover have "\<not> kalloc_ok kend ?s M" for M
  proof
    assume M: "kalloc_ok kend ?s M"
    have "M i = L i" if "i < NCPU" for i
      using L M that by (auto simp: kalloc_ok_def free_lists_def intro: chain_unique)
    then have "free_of M = free_of L" by (simp add: free_of_def)
    with L M assms(2) q show False by (auto simp: kalloc_ok_def)
  qed
  ultimately show ?thesis by (auto simp: kalloc_inv_def)
qed

theorem kfree_double_free_undetected_witness:
  "\<exists>s'. kfree_page 0x805FE000 0 kmem_one 0x805FE000 = Ok s' \<and> krefs s' 0x805FE000 = 255 \<and>
     \<not> kalloc_inv 0x805FE000 s'"
  by (rule kfree_double_free_undetected [OF kmem_one_inv])
    (simp_all add: good_pages_two krefs_def kmem_one_def)

end
