(* ===== verification/Sv39.thy ===== *)
theory Sv39
  imports Kalloc
begin

text \<open>
  The Sv39 page-table format: the macros of \<^verbatim>\<open>kernel/include/riscv.h\<close> and
  \<^verbatim>\<open>kernel/include/memlayout.h\<close>, and the tree that a page table is in physical memory. \<open>pte_of\<close>
  reads a page table as a function from virtual addresses to entries; \<open>pt_wf\<close> says that its
  table pages form a tree (no page is used twice), which is what makes that reading stable
  under the writes of \<^verbatim>\<open>vm.c\<close>.
\<close>

section \<open>Macros\<close>

abbreviation (input) PTE_V :: u64 where "PTE_V \<equiv> 1"
abbreviation (input) PTE_R :: u64 where "PTE_R \<equiv> 2"
abbreviation (input) PTE_W :: u64 where "PTE_W \<equiv> 4"
abbreviation (input) PTE_X :: u64 where "PTE_X \<equiv> 8"
abbreviation (input) PTE_U :: u64 where "PTE_U \<equiv> 16"
abbreviation (input) PTE_COW :: u64 where "PTE_COW \<equiv> 256"

abbreviation (input) MAXVA :: u64 where "MAXVA \<equiv> 0x4000000000"
abbreviation (input) MAXUVA :: u64 where "MAXUVA \<equiv> 0x80000000"
abbreviation (input) USER_STACK_TOP :: u64 where "USER_STACK_TOP \<equiv> MAXUVA"
abbreviation (input) USER_STACK_BOTTOM :: u64 where "USER_STACK_BOTTOM \<equiv> 0x7FF00000"
abbreviation (input) USER_STACK_START :: u64 where "USER_STACK_START \<equiv> 0x7FF01000"
abbreviation (input) TRAMPOLINE :: u64 where "TRAMPOLINE \<equiv> 0x3FFFFFF000"
abbreviation (input) TRAPFRAME :: u64 where "TRAPFRAME \<equiv> 0x3FFFFFE000"
abbreviation (input) SIGTRAMP :: u64 where "SIGTRAMP \<equiv> 0x3FFFFFD000"
abbreviation (input) KERNBASE :: u64 where "KERNBASE \<equiv> 0x80020000"

definition PA2PTE :: "u64 \<Rightarrow> u64" where
  "PA2PTE pa = push_bit 10 (drop_bit 12 pa)"

definition PTE2PA :: "u64 \<Rightarrow> u64" where
  "PTE2PA pte = push_bit 12 (drop_bit 10 pte)"

definition PTE_FLAGS :: "u64 \<Rightarrow> u64" where
  "PTE_FLAGS pte = pte AND 0x3FF"

definition PX :: "nat \<Rightarrow> u64 \<Rightarrow> u64" where
  "PX level va = drop_bit (12 + 9 * level) va AND 0x1FF"

section \<open>Arithmetic of entries\<close>

lemma mask9: "(0x1FF :: u64) = mask 9" and mask10: "(0x3FF :: u64) = mask 10"
  by (simp_all add: mask_eq_exp_minus_1)

lemma PX_alt: "PX level va = take_bit 9 (drop_bit (12 + 9 * level) va)"
  by (simp add: PX_def mask9 take_bit_eq_mask)

lemma PX_lt: "unat (PX level va) < 512"
  by (simp add: PX_alt take_bit_eq_mod unat_mod)

lemma bit_aligned:
  assumes "page_aligned p" and "n < 12"
  shows "\<not> bit p n"
proof -
  have "take_bit 12 p = 0"
    using assms(1) unat_take_bit12 [of p] by (simp add: page_aligned_unat unat_0_iff)
  then show ?thesis
    using assms(2) by (metis bit_take_bit_iff bit_0_eq bot_apply bot_bool_def)
qed

lemma bit_small:
  assumes "unat f < 2 ^ k" and "k \<le> n"
  shows "\<not> bit (f :: u64) n"
proof -
  have "take_bit k f = f"
    using assms(1) by (simp add: word_unat_eq_iff unsigned_take_bit_eq take_bit_nat_eq_self)
  then show ?thesis
    using assms(2) by (metis bit_take_bit_iff linorder_not_less)
qed

lemma PTE2PA_PA2PTE:
  assumes "page_aligned p" and "unat p < 2 ^ 56" and "unat f < 1024"
  shows "PTE2PA (PA2PTE p OR f) = p"
proof (rule bit_eqI)
  fix n
  have f: "\<not> bit f m" if "10 \<le> m" for m
    using bit_small [of f 10 m] assms(3) that by simp
  have p: "\<not> bit p m" if "56 \<le> m" for m
    using bit_small [of p 56 m] assms(2) that by simp
  show "bit (PTE2PA (PA2PTE p OR f)) n = bit p n"
  proof (cases "n < 12 \<or> 56 \<le> n")
    case True
    with bit_aligned [OF assms(1), of n] p [of n] p [of "12 + (n - 12)"] f [of "10 + (n - 12)"] show ?thesis
      by (auto simp: PTE2PA_def PA2PTE_def bit_simps)
  next
    case False
    then obtain d where "n = 12 + d" "d < 44"
      by (intro that [of "n - 12"]) auto
    with f [of "10 + d"] show ?thesis
      by (auto simp: PTE2PA_def PA2PTE_def bit_simps)
  qed
qed

lemma PTE_FLAGS_PA2PTE: "unat f < 1024 \<Longrightarrow> PTE_FLAGS (PA2PTE p OR f) = f"
proof (rule bit_eqI)
  fix n assume "unat f < 1024"
  then have "bit f n \<Longrightarrow> n < 10"
    using bit_small [of f 10 n] by (cases "n < 10") auto
  then show "bit (PTE_FLAGS (PA2PTE p OR f)) n = bit f n"
    by (auto simp: PTE_FLAGS_def PA2PTE_def mask10 bit_simps)
qed

lemma PTE_V_iff: "pte AND PTE_V \<noteq> 0 \<longleftrightarrow> bit pte 0"
  by (simp add: and_one_eq odd_iff_mod_2_eq_one bit_0)

lemma PTE2PA_aligned [simp]: "page_aligned (PTE2PA pte)"
proof -
  have "take_bit 12 (PTE2PA pte) = 0"
    by (simp add: PTE2PA_def take_bit_push_bit)
  then show ?thesis
    using unat_take_bit12 [of "PTE2PA pte"] by (simp add: page_aligned_unat)
qed

lemma in_page_unat:
  assumes "page_aligned p" and "n < 4096"
  shows "unat (p + of_nat n) = unat p + n" and "in_page p (p + of_nat n)"
proof -
  have "unat p + n < 2 ^ 64"
  proof -
    have "unat p < 2 ^ 64" using unsigned_less [of p] by simp
    with assms show ?thesis by (auto simp: page_aligned_unat mod_eq_0_iff_dvd dvd_def)
  qed
  then show "unat (p + of_nat n) = unat p + n"
    using assms(2) by (simp add: unat_word_ariths unat_of_frame)
  show "in_page p (p + of_nat n)"
    using assms(2) by (simp add: in_page_def word_less_nat_alt unat_of_frame)
qed

definition slot :: "u64 \<Rightarrow> nat \<Rightarrow> u64 \<Rightarrow> u64" where
  "slot p level va = p + 8 * PX level va"

lemma slot_nat: "slot p level va = p + of_nat (8 * unat (PX level va))"
  by (simp add: slot_def)

lemma slot_in_page: "page_aligned p \<Longrightarrow> in_page p (slot p level va)"
  using in_page_unat(2) [of p "8 * unat (PX level va)"] PX_lt [of level va] by (simp add: slot_nat)

lemma slot_inj:
  assumes "page_aligned p" and "page_aligned q" and "slot p l va = slot q l' va'"
  shows "p = q \<and> PX l va = PX l' va'"
proof -
  have "p = q"
    using page_unique [OF assms(1,2)] slot_in_page assms by metis
  moreover have "unat p + 8 * unat (PX l va) = unat q + 8 * unat (PX l' va')"
    using in_page_unat(1) [of p "8 * unat (PX l va)"] in_page_unat(1) [of q "8 * unat (PX l' va')"]
      assms PX_lt [of l va] PX_lt [of l' va'] by (simp add: slot_nat)
  ultimately show ?thesis
    by (simp add: word_unat_eq_iff)
qed

lemma slot_nonnull: "page_aligned p \<Longrightarrow> p \<noteq> 0 \<Longrightarrow> slot p level va \<noteq> 0"
proof
  assume a: "page_aligned p" "p \<noteq> 0" "slot p level va = 0"
  then have "in_page p 0" using slot_in_page by metis
  with a(1,2) show False
    using in_page_aligned [of p 0] by (simp add: page_aligned_unat)
qed

lemma index_digits:
  assumes "(a :: nat) < 0x4000000"
  shows "a = (a div 262144 mod 512) * 262144 + (a div 512 mod 512) * 512 + a mod 512"
proof -
  have "a div 262144 < 512" using assms by auto
  then have "a div 262144 mod 512 = a div 512 div 512"
    by (simp flip: div_mult2_eq)
  then have "(a div 262144 mod 512) * 262144 + (a div 512 mod 512) * 512 = a div 512 * 512"
    using div_mult_mod_eq [of "a div 512" 512] by linarith
  then show ?thesis using div_mult_mod_eq [of a 512] by linarith
qed

text \<open>Addresses with the same three indices are in the same page.\<close>

lemma same_page_iff:
  assumes "va < MAXVA" and "va' < MAXVA"
  shows "PX 2 va = PX 2 va' \<and> PX 1 va = PX 1 va' \<and> PX 0 va = PX 0 va' \<longleftrightarrow>
    PGROUNDDOWN va = PGROUNDDOWN va'"
proof -
  have px: "unat (PX l v) = unat v div 2 ^ (12 + 9 * l) mod 512" for l v
  proof -
    have "unat v < 2 ^ 64" using unsigned_less [of v] by simp
    then have "unat (PX l v) = take_bit 9 (drop_bit (12 + 9 * l) (unat v))"
      unfolding PX_alt unsigned_take_bit_eq unsigned_drop_bit_eq by (simp add: take_bit_nat_eq_self)
    then show ?thesis by (simp add: take_bit_eq_mod drop_bit_eq_div)
  qed
  have lt: "unat va < 0x4000000000" "unat va' < 0x4000000000"
    using assms by (simp_all add: word_less_nat_alt)
  define a b where "a = unat va div 4096" and "b = unat va' div 4096"
  have ab: "a < 0x4000000" "b < 0x4000000"
    using lt by (simp_all add: a_def b_def less_mult_imp_div_less)
  have u: "unat va div 2 ^ 12 = a" "unat va div 2 ^ 21 = a div 512" "unat va div 2 ^ 30 = a div 262144"
    "unat va' div 2 ^ 12 = b" "unat va' div 2 ^ 21 = b div 512" "unat va' div 2 ^ 30 = b div 262144"
    by (simp_all add: a_def b_def flip: div_mult2_eq)
  have "a div 262144 mod 512 = b div 262144 mod 512 \<and> a div 512 mod 512 = b div 512 mod 512 \<and>
      a mod 512 = b mod 512 \<longleftrightarrow> a = b"
    using index_digits [OF ab(1)] index_digits [OF ab(2)] by metis
  moreover have "PX 2 va = PX 2 va' \<longleftrightarrow> a div 262144 mod 512 = b div 262144 mod 512"
    and "PX 1 va = PX 1 va' \<longleftrightarrow> a div 512 mod 512 = b div 512 mod 512"
    and "PX 0 va = PX 0 va' \<longleftrightarrow> a mod 512 = b mod 512"
    using u px [of 2] px [of 1] px [of 0] by (simp_all add: word_unat_eq_iff)
  moreover have "PGROUNDDOWN va = PGROUNDDOWN va' \<longleftrightarrow> a = b"
    by (simp add: word_unat_eq_iff unat_PGROUNDDOWN a_def b_def)
  ultimately show ?thesis by simp
qed

section \<open>The tree of table pages\<close>

definition pt_child :: "pmem \<Rightarrow> u64 \<Rightarrow> nat \<Rightarrow> u64 \<Rightarrow> u64 option" where
  "pt_child m p level va =
     (if m (slot p level va) AND PTE_V \<noteq> 0 then Some (PTE2PA (m (slot p level va))) else None)"

definition node1 :: "pmem \<Rightarrow> u64 \<Rightarrow> u64 \<Rightarrow> u64 option" where
  "node1 m root va = pt_child m root 2 va"

definition node0 :: "pmem \<Rightarrow> u64 \<Rightarrow> u64 \<Rightarrow> u64 option" where
  "node0 m root va = Option.bind (node1 m root va) (\<lambda>p. pt_child m p 1 va)"

definition pte_of :: "pmem \<Rightarrow> u64 \<Rightarrow> u64 \<Rightarrow> u64" where
  "pte_of m root va = (case node0 m root va of None \<Rightarrow> 0 | Some p \<Rightarrow> m (slot p 0 va))"

definition pt_tables :: "pmem \<Rightarrow> u64 \<Rightarrow> u64 set" where
  "pt_tables m root = {root} \<union> {p. \<exists>va. node1 m root va = Some p} \<union> {p. \<exists>va. node0 m root va = Some p}"

definition pt_wf :: "pmem \<Rightarrow> u64 \<Rightarrow> bool" where
  "pt_wf m root \<longleftrightarrow> page_aligned root \<and>
     (\<forall>va. node1 m root va \<noteq> Some root \<and> node0 m root va \<noteq> Some root) \<and>
     (\<forall>va va' p. node1 m root va = Some p \<longrightarrow> node0 m root va' \<noteq> Some p) \<and>
     (\<forall>va va' p. node1 m root va = Some p \<longrightarrow> node1 m root va' = Some p \<longrightarrow> PX 2 va = PX 2 va') \<and>
     (\<forall>va va' p. node0 m root va = Some p \<longrightarrow> node0 m root va' = Some p \<longrightarrow>
        PX 2 va = PX 2 va' \<and> PX 1 va = PX 1 va')"

lemma pt_wfD:
  assumes "pt_wf m root"
  shows "page_aligned root" and "node1 m root va \<noteq> Some root" and "node0 m root va \<noteq> Some root"
    and "node1 m root va = Some p \<Longrightarrow> node0 m root va' \<noteq> Some p"
    and "node1 m root va = Some p \<Longrightarrow> node1 m root va' = Some p \<Longrightarrow> PX 2 va = PX 2 va'"
    and "node0 m root va = Some p \<Longrightarrow> node0 m root va' = Some p \<Longrightarrow> PX 2 va = PX 2 va'"
    and "node0 m root va = Some p \<Longrightarrow> node0 m root va' = Some p \<Longrightarrow> PX 1 va = PX 1 va'"
  using assms unfolding pt_wf_def by blast+

lemma pt_wfI:
  assumes "page_aligned root" and "\<And>va. node1 m root va \<noteq> Some root" and "\<And>va. node0 m root va \<noteq> Some root"
    and "\<And>va va' p. node1 m root va = Some p \<Longrightarrow> node0 m root va' \<noteq> Some p"
    and "\<And>va va' p. node1 m root va = Some p \<Longrightarrow> node1 m root va' = Some p \<Longrightarrow> PX 2 va = PX 2 va'"
    and "\<And>va va' p. node0 m root va = Some p \<Longrightarrow> node0 m root va' = Some p \<Longrightarrow>
      PX 2 va = PX 2 va' \<and> PX 1 va = PX 1 va'"
  shows "pt_wf m root"
  using assms unfolding pt_wf_def by blast

lemma slot_px: "PX l va = PX l va' \<Longrightarrow> slot p l va = slot p l va'"
  by (simp add: slot_def)

lemma pt_child_px: "PX l va = PX l va' \<Longrightarrow> pt_child m p l va = pt_child m p l va'"
  using slot_px [of l va va' p] by (simp add: pt_child_def)

lemma node1_px: "PX 2 va = PX 2 va' \<Longrightarrow> node1 m root va = node1 m root va'"
  unfolding node1_def by (rule pt_child_px)

lemma node0_px:
  "PX 2 va = PX 2 va' \<Longrightarrow> PX 1 va = PX 1 va' \<Longrightarrow> node0 m root va = node0 m root va'"
  unfolding node0_def by (simp only: node1_px [of va va'] pt_child_px [of 1 va va'])

lemma pt_child_aligned: "pt_child m p l va = Some q \<Longrightarrow> page_aligned q"
  by (auto simp: pt_child_def split: if_splits)

lemma node1_aligned: "node1 m root va = Some q \<Longrightarrow> page_aligned q"
  unfolding node1_def by (rule pt_child_aligned)

lemma node0_aligned: "node0 m root va = Some q \<Longrightarrow> page_aligned q"
  by (auto simp: node0_def bind_eq_Some_conv dest: pt_child_aligned)

lemma pt_tables_aligned: "page_aligned root \<Longrightarrow> q \<in> pt_tables m root \<Longrightarrow> page_aligned q"
  by (auto simp: pt_tables_def dest: node1_aligned node0_aligned)

lemma pt_tables_node [intro]:
  "root \<in> pt_tables m root"
  "node1 m root va = Some q \<Longrightarrow> q \<in> pt_tables m root"
  "node0 m root va = Some q \<Longrightarrow> q \<in> pt_tables m root"
  by (auto simp: pt_tables_def)

lemma pt_child_cong:
  assumes "page_aligned p" and "\<And>a. in_page p a \<Longrightarrow> m' a = m a"
  shows "pt_child m' p l va = pt_child m p l va"
  using assms slot_in_page [OF assms(1), of l va] by (simp add: pt_child_def)

text \<open>A page table depends on the contents of its table pages only.\<close>

lemma pt_frame:
  assumes "page_aligned root" and "\<And>p a. p \<in> pt_tables m root \<Longrightarrow> in_page p a \<Longrightarrow> m' a = m a"
  shows "node1 m' root = node1 m root" and "node0 m' root = node0 m root"
    and "pte_of m' root = pte_of m root" and "pt_tables m' root = pt_tables m root"
    and "pt_wf m' root = pt_wf m root"
proof -
  have c: "pt_child m' p l va = pt_child m p l va" if "p \<in> pt_tables m root" for p l va
    using that assms pt_tables_aligned by (intro pt_child_cong) auto
  show n1: "node1 m' root = node1 m root"
    by (rule ext) (auto simp: node1_def intro: c)
  show n0: "node0 m' root = node0 m root"
  proof
    fix va
    show "node0 m' root va = node0 m root va"
      by (cases "node1 m root va") (auto simp: node0_def n1 intro: c)
  qed
  show "pte_of m' root = pte_of m root"
  proof
    fix va
    show "pte_of m' root va = pte_of m root va"
    proof (cases "node0 m root va")
      case (Some p)
      then have "m' (slot p 0 va) = m (slot p 0 va)"
        using assms(2) [of p] slot_in_page node0_aligned by blast
      with Some show ?thesis by (simp add: pte_of_def n0)
    qed (simp add: pte_of_def n0)
  qed
  show "pt_tables m' root = pt_tables m root" and "pt_wf m' root = pt_wf m root"
    by (simp_all add: pt_tables_def pt_wf_def n1 n0)
qed

section \<open>Writing an entry\<close>

definition same_idx :: "u64 \<Rightarrow> u64 \<Rightarrow> bool" where
  "same_idx va va' \<longleftrightarrow> PX 2 va = PX 2 va' \<and> PX 1 va = PX 1 va' \<and> PX 0 va = PX 0 va'"

text \<open>Writing a slot of one table page changes the lookups through that slot only.\<close>

lemma pt_child_write:
  assumes "page_aligned p" and "page_aligned q"
  shows "pt_child (m(slot p l va := v)) q l' va' =
    (if p = q \<and> PX l va = PX l' va'
     then (if v AND PTE_V \<noteq> 0 then Some (PTE2PA v) else None) else pt_child m q l' va')"
proof (cases "slot q l' va' = slot p l va")
  case True
  then have "q = p \<and> PX l' va' = PX l va" using slot_inj assms by metis
  with True show ?thesis by (simp add: pt_child_def)
next
  case False
  then have "\<not> (p = q \<and> PX l va = PX l' va')" by (auto simp: slot_def)
  with False show ?thesis by (simp only: if_False) (simp add: pt_child_def)
qed

lemma pt_set_leaf:
  fixes v :: u64
  assumes wf: "pt_wf m root" and n: "node0 m root va = Some p"
  defines "m' \<equiv> m(slot p 0 va := v)"
  shows "node1 m' root = node1 m root" and "node0 m' root = node0 m root"
    and "pte_of m' root va' = (if same_idx va va' then v else pte_of m root va')"
    and "pt_tables m' root = pt_tables m root" and "pt_wf m' root"
proof -
  have ar: "page_aligned root" and ap: "page_aligned p"
    using wf n node0_aligned unfolding pt_wf_def by blast+
  have ne: "p \<noteq> root" "node1 m root va' \<noteq> Some p" for va'
    using wf n unfolding pt_wf_def by blast+
  show n1: "node1 m' root = node1 m root"
    using ne ap ar by (intro ext) (simp add: node1_def m'_def pt_child_write)
  show n0: "node0 m' root = node0 m root"
  proof
    fix va'
    show "node0 m' root va' = node0 m root va'"
    proof (cases "node1 m root va'")
      case (Some q)
      with ne have "p \<noteq> q" by auto
      with Some ap node1_aligned [OF Some] show ?thesis
        by (simp add: node0_def n1) (simp add: m'_def pt_child_write)
    qed (simp add: node0_def n1)
  qed
  show "pt_tables m' root = pt_tables m root"
    by (simp add: pt_tables_def n1 n0)
  show "pt_wf m' root"
    using wf unfolding pt_wf_def n1 n0 .
  show "pte_of m' root va' = (if same_idx va va' then v else pte_of m root va')"
  proof (cases "same_idx va va'")
    case True
    then have "node0 m root va' = Some p" "slot p 0 va' = slot p 0 va"
      using n node0_px [of va va' m root] slot_px [of 0 va va' p] by (simp_all add: same_idx_def)
    with True show ?thesis by (simp add: pte_of_def n0) (simp add: m'_def)
  next
    case False
    have "m' (slot q 0 va') = m (slot q 0 va')" if q: "node0 m root va' = Some q" for q
    proof -
      have "slot q 0 va' \<noteq> slot p 0 va"
      proof
        assume "slot q 0 va' = slot p 0 va"
        then have "q = p" "PX 0 va' = PX 0 va"
          using slot_inj node0_aligned [OF q] ap by blast+
        moreover have "PX 2 va = PX 2 va' \<and> PX 1 va = PX 1 va'"
          using wf n q \<open>q = p\<close> unfolding pt_wf_def by blast
        ultimately have "same_idx va va'" by (simp add: same_idx_def)
        with False show False ..
      qed
      then show ?thesis by (simp add: m'_def)
    qed
    with False show ?thesis by (simp add: pte_of_def n0 split: option.split)
  qed
qed

section \<open>Adding a table page\<close>

text \<open>
  A fresh zeroed page \<open>pg\<close>, linked into an empty slot of the table page \<open>q\<close>: what
  \<^verbatim>\<open>walk(..., alloc=1)\<close> does to memory.
\<close>

definition link_table :: "pmem \<Rightarrow> u64 \<Rightarrow> u64 \<Rightarrow> pmem" where
  "link_table m pte pg = (page_fill m pg 0)(pte := PA2PTE pg OR PTE_V)"

lemma pt_child_fresh:
  assumes "page_aligned pg" and "page_aligned q" and "q \<noteq> pg"
  shows "pt_child (link_table m (slot q l va) pg) pg l' va' = None"
    and "link_table m (slot q l va) pg (slot pg l' va') = 0"
proof -
  have "slot pg l' va' \<noteq> slot q l va"
    using slot_inj [OF assms(1,2)] assms(3) by metis
  then show "link_table m (slot q l va) pg (slot pg l' va') = 0"
    using slot_in_page [OF assms(1)] by (simp add: link_table_def page_fill_def)
  then show "pt_child (link_table m (slot q l va) pg) pg l' va' = None"
    by (simp add: pt_child_def)
qed

lemma pt_child_link:
  assumes "page_aligned pg" and "unat pg < 2 ^ 56" and "page_aligned p" and "page_aligned q" and "p \<noteq> pg"
  shows "pt_child (link_table m (slot q l va) pg) p l' va' =
    (if q = p \<and> PX l va = PX l' va' then Some pg else pt_child m p l' va')"
proof -
  have "pt_child (page_fill m pg 0) p l' va' = pt_child m p l' va'"
    using assms page_unique [of p pg] by (intro pt_child_cong) (auto simp: page_fill_def)
  moreover have "PTE2PA (PA2PTE pg OR PTE_V) = pg"
    using assms(1,2) by (intro PTE2PA_PA2PTE) auto
  moreover have "(PA2PTE pg OR PTE_V) AND PTE_V \<noteq> 0"
    unfolding PTE_V_iff by (simp add: bit_simps)
  ultimately show ?thesis
    using assms(3,4) by (simp add: link_table_def pt_child_write)
qed

lemma link_slot_other:
  assumes "page_aligned q" and "page_aligned p" and "page_aligned pg" and "p \<noteq> q" and "p \<noteq> pg"
  shows "link_table m (slot q l va) pg (slot p l' va') = m (slot p l' va')"
proof -
  have "slot p l' va' \<noteq> slot q l va" and "\<not> in_page pg (slot p l' va')"
    using slot_inj [OF assms(2,1)] page_unique [OF assms(2,3)] slot_in_page [OF assms(2)] assms(4,5)
    by metis+
  then show ?thesis by (simp add: link_table_def page_fill_def)
qed

lemma pt_add_node1:
  assumes wf: "pt_wf m root" and n: "node1 m root va = None"
    and pg: "page_aligned pg" "unat pg < 2 ^ 56" "pg \<notin> pt_tables m root"
  defines "m' \<equiv> link_table m (slot root 2 va) pg"
  shows "node1 m' root va' = (if PX 2 va = PX 2 va' then Some pg else node1 m root va')"
    and "node0 m' root = node0 m root" and "pte_of m' root = pte_of m root" and "pt_wf m' root"
    and "pt_tables m' root = insert pg (pt_tables m root)"
proof -
  have ar: "page_aligned root" and nr: "root \<noteq> pg"
    using wf pg by (auto simp: pt_wf_def)
  show n1: "node1 m' root va' = (if PX 2 va = PX 2 va' then Some pg else node1 m root va')" for va'
    using pg ar nr by (simp add: node1_def m'_def pt_child_link)
  have none: "node0 m root va' = None" if "PX 2 va = PX 2 va'" for va'
    using n node1_px [OF that, of m root] by (simp add: node0_def)
  show n0: "node0 m' root = node0 m root"
  proof
    fix va'
    show "node0 m' root va' = node0 m root va'"
    proof (cases "PX 2 va = PX 2 va'")
      case True
      then show ?thesis
        using pt_child_fresh(1) [OF pg(1) ar nr, of m 2 va 1 va'] none [OF True] n1 [of va']
        unfolding node0_def [of m'] by (simp add: m'_def)
    next
      case False
      have "pt_child m' q 1 va' = pt_child m q 1 va'" if q: "node1 m root va' = Some q" for q
      proof -
        have "q \<noteq> root" "q \<noteq> pg" "page_aligned q"
          using q pg(3) pt_wfD(2) [OF wf] node1_aligned [OF q] by auto
        then show ?thesis
          using pt_child_link [OF pg(1,2) _ ar, of q m 2 va 1 va'] by (simp add: m'_def)
      qed
      with False show ?thesis by (cases "node1 m root va'") (simp_all add: node0_def n1)
    qed
  qed
  show "pt_tables m' root = insert pg (pt_tables m root)"
  proof -
    have "PX 2 va \<noteq> PX 2 va'" if "node1 m root va' = Some p" for va' p
      using n that node1_px [of va va' m root] by auto
    then have "(\<exists>va'. node1 m' root va' = Some p) \<longleftrightarrow> p = pg \<or> (\<exists>va'. node1 m root va' = Some p)" for p
      by (metis n1 option.inject)
    then show ?thesis by (auto simp: pt_tables_def n0)
  qed
  have fresh: "node1 m root va' \<noteq> Some pg" "node0 m root va' \<noteq> Some pg" for va'
    using pg(3) by auto
  show "pt_wf m' root"
  proof (rule pt_wfI)
    fix v v' p
    show "page_aligned root" by (fact ar)
    show "node1 m' root v \<noteq> Some root" "node0 m' root v \<noteq> Some root"
      using n1 [of v] n0 nr pt_wfD(2,3) [OF wf, of v] by auto
    show "node0 m' root v' \<noteq> Some p" if "node1 m' root v = Some p"
      using that n1 [of v] n0 fresh pt_wfD(4) [OF wf, of v p v'] by (auto split: if_splits)
    show "PX 2 v = PX 2 v'" if "node1 m' root v = Some p" "node1 m' root v' = Some p"
      using that n1 [of v] n1 [of v'] fresh pt_wfD(5) [OF wf, of v p v'] by (auto split: if_splits)
    show "PX 2 v = PX 2 v' \<and> PX 1 v = PX 1 v'" if "node0 m' root v = Some p" "node0 m' root v' = Some p"
      using that n0 pt_wfD(6,7) [OF wf, of v p v'] by auto
  qed
  show "pte_of m' root = pte_of m root"
  proof
    fix va'
    show "pte_of m' root va' = pte_of m root va'"
    proof (cases "node0 m root va'")
      case (Some p)
      have "p \<noteq> root" "p \<noteq> pg" using wf Some fresh unfolding pt_wf_def by blast+
      then have "m' (slot p 0 va') = m (slot p 0 va')"
        unfolding m'_def using node0_aligned [OF Some] ar pg(1) by (intro link_slot_other)
      with Some show ?thesis by (simp add: pte_of_def n0)
    qed (simp add: pte_of_def n0)
  qed
qed

lemma pt_add_node0:
  assumes wf: "pt_wf m root" and q: "node1 m root va = Some q" and n: "node0 m root va = None"
    and pg: "page_aligned pg" "unat pg < 2 ^ 56" "pg \<notin> pt_tables m root"
  defines "m' \<equiv> link_table m (slot q 1 va) pg"
  shows "node1 m' root = node1 m root"
    and "node0 m' root va' = (if PX 2 va = PX 2 va' \<and> PX 1 va = PX 1 va' then Some pg else node0 m root va')"
    and "pte_of m' root = pte_of m root" and "pt_wf m' root"
    and "pt_tables m' root = insert pg (pt_tables m root)"
proof -
  have al: "page_aligned root" "page_aligned q" and ne: "root \<noteq> pg" "q \<noteq> pg" "q \<noteq> root"
    using wf pg q node1_aligned unfolding pt_wf_def by blast+
  have fresh: "node1 m root va' \<noteq> Some pg" "node0 m root va' \<noteq> Some pg" for va'
    using pg(3) by auto
  show n1: "node1 m' root = node1 m root"
    using pg al ne by (intro ext) (auto simp: node1_def m'_def pt_child_link)
  have n1_px: "PX 2 va = PX 2 va'" if "node1 m root va' = Some q" for va'
    using wf q that unfolding pt_wf_def by blast
  have px_n1: "node1 m root va' = Some q" if "PX 2 va = PX 2 va'" for va'
    using q node1_px [OF that, of m root] by simp
  show n0: "node0 m' root va' = (if PX 2 va = PX 2 va' \<and> PX 1 va = PX 1 va' then Some pg else node0 m root va')"
    for va'
  proof (cases "node1 m root va'")
    case None
    with px_n1 [of va'] show ?thesis by (auto simp: node0_def n1)
  next
    case (Some r)
    then have "r \<noteq> pg" "page_aligned r" using fresh node1_aligned by auto
    with Some pg al n1_px [of va'] px_n1 [of va'] show ?thesis
      by (auto simp: node0_def n1) (auto simp: m'_def pt_child_link)
  qed
  have none: "node0 m root va' = None" if "PX 2 va = PX 2 va'" "PX 1 va = PX 1 va'" for va'
    using n node0_px [OF that, of m root] by simp
  show "pt_tables m' root = insert pg (pt_tables m root)"
  proof -
    have "(\<exists>va'. node0 m' root va' = Some p) \<longleftrightarrow> p = pg \<or> (\<exists>va'. node0 m root va' = Some p)" for p
      by (metis n0 none option.inject option.distinct(1))
    then show ?thesis by (auto simp: pt_tables_def n1)
  qed
  show "pt_wf m' root"
  proof (rule pt_wfI)
    fix v v' p
    show "page_aligned root" by (fact al)
    show "node1 m' root v \<noteq> Some root" "node0 m' root v \<noteq> Some root"
      using n1 n0 [of v] ne pt_wfD(2,3) [OF wf, of v] by auto
    show "node0 m' root v' \<noteq> Some p" if "node1 m' root v = Some p"
      using that n1 n0 [of v'] fresh pt_wfD(4) [OF wf, of v p v'] by (auto split: if_splits)
    show "PX 2 v = PX 2 v'" if "node1 m' root v = Some p" "node1 m' root v' = Some p"
      using that n1 pt_wfD(5) [OF wf, of v p v'] by auto
    show "PX 2 v = PX 2 v' \<and> PX 1 v = PX 1 v'" if "node0 m' root v = Some p" "node0 m' root v' = Some p"
      using that n0 [of v] n0 [of v'] fresh pt_wfD(6,7) [OF wf, of v p v'] by (auto split: if_splits)
  qed
  show "pte_of m' root = pte_of m root"
  proof
    fix va'
    show "pte_of m' root va' = pte_of m root va'"
    proof (cases "PX 2 va = PX 2 va' \<and> PX 1 va = PX 1 va'")
      case True
      then show ?thesis
        using pt_child_fresh(2) [OF pg(1) al(2) ne(2)] none by (simp add: pte_of_def n0) (simp add: m'_def)
    next
      case other: False
      have "m' (slot p 0 va') = m (slot p 0 va')" if p: "node0 m root va' = Some p" for p
      proof -
        have "p \<noteq> q" "p \<noteq> pg" using wf p q fresh unfolding pt_wf_def by blast+
        then show ?thesis
          unfolding m'_def using node0_aligned [OF p] al pg(1) by (intro link_slot_other)
      qed
      with other show ?thesis by (auto simp: pte_of_def n0 split: option.split)
    qed
  qed
qed

end
