(* ===== verification/Vm.thy ===== *)
theory Vm
  imports Sv39
begin

text \<open>
  \<^verbatim>\<open>kernel/vm/vm.c\<close> and the page-table functions of \<^verbatim>\<open>kernel/proc/proc.c\<close>: page tables are built,
  copied and torn down in the physical memory of the page allocator. Every function takes the
  machine state \<open>kmem\<close> and returns it updated, \<open>Panic\<close> where the source panics. The addresses
  that the linker script provides and the CPU that runs the function are the environment \<open>kenv\<close>.
  \<^verbatim>\<open>sfence_vma\<close> has no effect here: the model reads translations from memory, not from a TLB.

  The loops over pages end because \<^verbatim>\<open>walk\<close> panics at \<^verbatim>\<open>MAXVA\<close>; their termination proofs rest on it.
\<close>

section \<open>Environment and memory access\<close>

record kenv =
  ke_end :: u64
  ke_hart :: nat
  ke_etext :: u64
  ke_trampoline :: u64
  ke_sigtramp :: u64

abbreviation kalloc :: "kenv \<Rightarrow> kmem \<Rightarrow> u64 \<times> kmem" where
  "kalloc k s \<equiv> kalloc_page (ke_hart k) s"

abbreviation kfree :: "kenv \<Rightarrow> kmem \<Rightarrow> u64 \<Rightarrow> kmem res" where
  "kfree k s pa \<equiv> kfree_page (ke_end k) (ke_hart k) s pa"

definition kset :: "kmem \<Rightarrow> u64 \<Rightarrow> u64 \<Rightarrow> kmem" where
  "kset s a v = s\<lparr>km_mem := (km_mem s)(a := v)\<rparr>"

definition kzero :: "kmem \<Rightarrow> u64 \<Rightarrow> kmem" where
  "kzero s pg = s\<lparr>km_mem := page_fill (km_mem s) pg 0\<rparr>"

text \<open>\<^verbatim>\<open>memmove(dst, src, PGSIZE)\<close> between two pages.\<close>

definition kcopy_page :: "kmem \<Rightarrow> u64 \<Rightarrow> u64 \<Rightarrow> kmem" where
  "kcopy_page s dst src =
     s\<lparr>km_mem := (\<lambda>a. if in_page dst a then km_mem s (src + (a - dst)) else km_mem s a)\<rparr>"

text \<open>Bytes of little-endian memory.\<close>

definition mem_byte :: "pmem \<Rightarrow> u64 \<Rightarrow> u8" where
  "mem_byte m a = ucast (drop_bit (8 * unat (a AND 7)) (m (a AND NOT 7)))"

definition mem_set_byte :: "pmem \<Rightarrow> u64 \<Rightarrow> u8 \<Rightarrow> pmem" where
  "mem_set_byte m a b =
     (let w = a AND NOT 7; sh = 8 * unat (a AND 7)
      in m(w := (m w AND NOT (push_bit sh 0xFF)) OR push_bit sh (ucast b)))"

fun mem_set_bytes :: "pmem \<Rightarrow> u64 \<Rightarrow> u8 list \<Rightarrow> pmem" where
  "mem_set_bytes m a [] = m"
| "mem_set_bytes m a (b # bs) = mem_set_bytes (mem_set_byte m a b) (a + 1) bs"

section \<open>Walking\<close>

fun walk_loop :: "kenv \<Rightarrow> u64 \<Rightarrow> bool \<Rightarrow> nat \<Rightarrow> u64 \<Rightarrow> kmem \<Rightarrow> u64 \<times> kmem" where
  "walk_loop k va alloc 0 pagetable s = (slot pagetable 0 va, s)"
| "walk_loop k va alloc (Suc l) pagetable s =
     (let pte = slot pagetable (Suc l) va
      in if km_mem s pte AND PTE_V \<noteq> 0 then walk_loop k va alloc l (PTE2PA (km_mem s pte)) s
         else if \<not> alloc then (0, s)
         else let (pg, s1) = kalloc k s
              in if pg = 0 then (0, s1)
                 else walk_loop k va alloc l pg (kset (kzero s1 pg) pte (PA2PTE pg OR PTE_V)))"

definition walk :: "kenv \<Rightarrow> u64 \<Rightarrow> u64 \<Rightarrow> bool \<Rightarrow> kmem \<Rightarrow> (u64 \<times> kmem) res" where
  "walk k pagetable va alloc s =
     (if MAXVA \<le> va then Panic ''walk'' else Ok (walk_loop k va alloc 2 pagetable s))"

definition walkaddr :: "kenv \<Rightarrow> u64 \<Rightarrow> u64 \<Rightarrow> kmem \<Rightarrow> u64 res" where
  "walkaddr k pagetable va s =
     (if MAXUVA \<le> va then Ok 0
      else rbind (walk k pagetable va False s) (\<lambda>(pte, s1).
        if pte = 0 then Ok 0
        else if km_mem s1 pte AND PTE_V = 0 then Ok 0
        else if km_mem s1 pte AND PTE_U = 0 then Ok 0
        else Ok (PTE2PA (km_mem s1 pte))))"

definition kvmpa :: "kenv \<Rightarrow> u64 \<Rightarrow> u64 \<Rightarrow> kmem \<Rightarrow> u64 res" where
  "kvmpa k kpagetable va s =
     (let off = va mod PGSIZE
      in rbind (walk k kpagetable va False s) (\<lambda>(pte, s1).
        if pte = 0 then Panic ''kvmpa''
        else if km_mem s1 pte AND PTE_V = 0 then Panic ''kvmpa''
        else Ok (PTE2PA (km_mem s1 pte) + off)))"

lemma walk_below: "walk k pt va alloc s = Ok x \<Longrightarrow> va < MAXVA"
  by (auto simp: walk_def split: if_splits)

text \<open>The termination measure of every loop over pages.\<close>

definition va_left :: "u64 \<Rightarrow> nat" where
  "va_left a = 0x4000000000 + 4096 - unat a"

lemma va_left_step: "a < MAXVA \<Longrightarrow> va_left (a + PGSIZE) < va_left a"
  by (simp add: va_left_def word_less_nat_alt unat_word_ariths)

section \<open>Mapping and unmapping\<close>

function mappages_loop :: "kenv \<Rightarrow> u64 \<Rightarrow> u64 \<Rightarrow> u64 \<Rightarrow> u64 \<Rightarrow> u64 \<Rightarrow> kmem \<Rightarrow> (int \<times> kmem) res" where
  "mappages_loop k pagetable a lastpg pa perm s =
     rbind (walk k pagetable a True s) (\<lambda>(pte, s1).
       if pte = 0 then Ok (-1, s1)
       else if km_mem s1 pte AND PTE_V \<noteq> 0 then Panic ''remap''
       else let s2 = kset s1 pte (PA2PTE pa OR perm OR PTE_V)
            in if a = lastpg then Ok (0, s2)
               else mappages_loop k pagetable (a + PGSIZE) lastpg (pa + PGSIZE) perm s2)"
  by pat_completeness auto
termination
  by (relation "measure (\<lambda>(k, pt, a, lastpg, pa, perm, s). va_left a)")
    (auto dest!: walk_below va_left_step)

declare mappages_loop.simps [simp del]

definition mappages :: "kenv \<Rightarrow> u64 \<Rightarrow> u64 \<Rightarrow> u64 \<Rightarrow> u64 \<Rightarrow> u64 \<Rightarrow> kmem \<Rightarrow> (int \<times> kmem) res" where
  "mappages k pagetable va sz pa perm s =
     mappages_loop k pagetable (PGROUNDDOWN va) (PGROUNDDOWN (va + sz - 1)) pa perm s"

lemma mappages_below:
  assumes "mappages k pt va sz pa perm s = Ok x"
  shows "va < MAXVA"
proof -
  have "PGROUNDDOWN va < MAXVA"
    using assms unfolding mappages_def
    by (subst (asm) mappages_loop.simps) (auto simp: rbind_Ok_iff dest: walk_below)
  then show ?thesis
    by (simp add: word_less_nat_alt page_simps)
qed

function uvmunmap_loop :: "kenv \<Rightarrow> u64 \<Rightarrow> u64 \<Rightarrow> u64 \<Rightarrow> bool \<Rightarrow> kmem \<Rightarrow> kmem res" where
  "uvmunmap_loop k pagetable a bound do_free s =
     (if a < bound then
        rbind (walk k pagetable a False s) (\<lambda>(pte, s1).
          if pte = 0 then uvmunmap_loop k pagetable (a + PGSIZE) bound do_free s1
          else if km_mem s1 pte AND PTE_V = 0
          then uvmunmap_loop k pagetable (a + PGSIZE) bound do_free s1
          else if PTE_FLAGS (km_mem s1 pte) = PTE_V then Panic ''uvmunmap: not a leaf''
          else rbind (if do_free then kfree k s1 (PTE2PA (km_mem s1 pte)) else Ok s1)
                 (\<lambda>s2. uvmunmap_loop k pagetable (a + PGSIZE) bound do_free (kset s2 pte 0)))
      else Ok s)"
  by pat_completeness auto
termination
  by (relation "measure (\<lambda>(k, pt, a, bound, do_free, s). va_left a)")
    (auto dest!: walk_below va_left_step)

declare uvmunmap_loop.simps [simp del]

definition uvmunmap :: "kenv \<Rightarrow> u64 \<Rightarrow> u64 \<Rightarrow> u64 \<Rightarrow> bool \<Rightarrow> kmem \<Rightarrow> kmem res" where
  "uvmunmap k pagetable va npages do_free s =
     (if va mod PGSIZE \<noteq> 0 then Panic ''uvmunmap: not aligned''
      else uvmunmap_loop k pagetable va (va + npages * PGSIZE) do_free s)"

definition uvmdealloc :: "kenv \<Rightarrow> u64 \<Rightarrow> u64 \<Rightarrow> u64 \<Rightarrow> kmem \<Rightarrow> (u64 \<times> kmem) res" where
  "uvmdealloc k pagetable oldsz newsz s =
     (if oldsz \<le> newsz then Ok (oldsz, s)
      else if PGROUNDUP newsz < PGROUNDUP oldsz then
        let npages = (PGROUNDUP oldsz - PGROUNDUP newsz) div PGSIZE
        in rmap (\<lambda>s1. (newsz, s1))
             (uvmunmap k pagetable (PGROUNDUP newsz) (scast (ucast npages :: i32)) True s)
      else Ok (newsz, s))"

definition ukvmdealloc :: "kenv \<Rightarrow> u64 \<Rightarrow> u64 \<Rightarrow> u64 \<Rightarrow> bool \<Rightarrow> kmem \<Rightarrow> (u64 \<times> kmem) res" where
  "ukvmdealloc k pagetable oldsz newsz alloc s =
     (if oldsz \<le> newsz then Ok (oldsz, s)
      else if PGROUNDUP newsz < PGROUNDUP oldsz then
        let npages = (PGROUNDUP oldsz - PGROUNDUP newsz) div PGSIZE
        in rmap (\<lambda>s1. (newsz, s1))
             (uvmunmap k pagetable (PGROUNDUP newsz) (scast (ucast npages :: i32)) alloc s)
      else Ok (newsz, s))"

section \<open>Creating and growing user memory\<close>

definition uvmcreate :: "kenv \<Rightarrow> kmem \<Rightarrow> u64 \<times> kmem" where
  "uvmcreate k s =
     (let (pagetable, s1) = kalloc k s
      in if pagetable = 0 then (0, s1) else (pagetable, kzero s1 pagetable))"

definition uvminit :: "kenv \<Rightarrow> u64 \<Rightarrow> u8 list \<Rightarrow> kmem \<Rightarrow> kmem res" where
  "uvminit k pagetable src s =
     (if 4096 \<le> length src then Panic ''inituvm: more than a page''
      else let (mem, s1) = kalloc k s
           in rbind (mappages k pagetable 0 PGSIZE mem (PTE_W OR PTE_R OR PTE_X OR PTE_U) (kzero s1 mem))
                (\<lambda>(_, s2). Ok (s2\<lparr>km_mem := mem_set_bytes (km_mem s2) mem src\<rparr>)))"

function uvmalloc_loop :: "kenv \<Rightarrow> u64 \<Rightarrow> u64 \<Rightarrow> u64 \<Rightarrow> u64 \<Rightarrow> kmem \<Rightarrow> (u64 \<times> kmem) res" where
  "uvmalloc_loop k pagetable a oldsz newsz s =
     (if a < newsz then
        let (mem, s1) = kalloc k s
        in if mem = 0 then rmap (\<lambda>(_, s2). (0, s2)) (uvmdealloc k pagetable a oldsz s1)
           else rbind (mappages k pagetable a PGSIZE mem (PTE_W OR PTE_X OR PTE_R OR PTE_U) (kzero s1 mem))
             (\<lambda>(r, s2). if r \<noteq> 0
                then rbind (kfree k s2 mem) (\<lambda>s3.
                       rmap (\<lambda>(_, s4). (0, s4)) (uvmdealloc k pagetable a oldsz s3))
                else uvmalloc_loop k pagetable (a + PGSIZE) oldsz newsz s2)
      else Ok (newsz, s))"
  by pat_completeness auto
termination
  by (relation "measure (\<lambda>(k, pt, a, oldsz, newsz, s). va_left a)")
    (auto dest!: mappages_below va_left_step)

declare uvmalloc_loop.simps [simp del]

definition uvmalloc :: "kenv \<Rightarrow> u64 \<Rightarrow> u64 \<Rightarrow> u64 \<Rightarrow> kmem \<Rightarrow> (u64 \<times> kmem) res" where
  "uvmalloc k pagetable oldsz newsz s =
     (if newsz < oldsz then Ok (oldsz, s)
      else if MAXUVA < newsz then Ok (0, s)
      else uvmalloc_loop k pagetable (PGROUNDUP oldsz) (PGROUNDUP oldsz) newsz s)"

definition uvm_stack_init :: "kenv \<Rightarrow> u64 \<Rightarrow> kmem \<Rightarrow> (int \<times> kmem) res" where
  "uvm_stack_init k pagetable s =
     (let (mem, s1) = kalloc k s; va = USER_STACK_TOP - PGSIZE
      in if mem = 0 then Ok (-1, s1)
         else rbind (mappages k pagetable va PGSIZE mem (PTE_R OR PTE_W OR PTE_U) (kzero s1 mem))
           (\<lambda>(r, s2). if r < 0 then rmap (\<lambda>s3. (-1, s3)) (kfree k s2 mem) else Ok (0, s2)))"

section \<open>The process's kernel page table\<close>

function upg2ukpg_loop :: "kenv \<Rightarrow> u64 \<Rightarrow> u64 \<Rightarrow> u64 \<Rightarrow> u64 \<Rightarrow> kmem \<Rightarrow> (int \<times> kmem) res" where
  "upg2ukpg_loop k u_pagetable k_pagetable addr end_addr s =
     (if addr < end_addr then
        rbind (walk k u_pagetable addr False s) (\<lambda>(u_pte, s1).
          if u_pte = 0 \<or> km_mem s1 u_pte AND PTE_V = 0
          then upg2ukpg_loop k u_pagetable k_pagetable (addr + PGSIZE) end_addr s1
          else rbind (walk k k_pagetable addr True s1) (\<lambda>(k_pte, s2).
            if k_pte = 0 then Ok (-1, s2)
            else upg2ukpg_loop k u_pagetable k_pagetable (addr + PGSIZE) end_addr
                   (kset s2 k_pte (km_mem s2 u_pte AND NOT PTE_U))))
      else Ok (0, s))"
  by pat_completeness auto
termination
  by (relation "measure (\<lambda>(k, u_pt, k_pt, a, end_addr, s). va_left a)")
    (auto dest!: walk_below va_left_step)

declare upg2ukpg_loop.simps [simp del]

definition upg2ukpg :: "kenv \<Rightarrow> u64 \<Rightarrow> u64 \<Rightarrow> u64 \<Rightarrow> u64 \<Rightarrow> kmem \<Rightarrow> (int \<times> kmem) res" where
  "upg2ukpg k u_pagetable k_pagetable begin_addr end_addr s =
     (if end_addr < begin_addr \<or> MAXUVA < end_addr then Panic ''upg2ukpg: range''
      else upg2ukpg_loop k u_pagetable k_pagetable begin_addr end_addr s)"

definition vm_sync_user_page :: "kenv \<Rightarrow> u64 \<Rightarrow> u64 \<Rightarrow> u64 \<Rightarrow> kmem \<Rightarrow> (int \<times> kmem) res" where
  "vm_sync_user_page k p_pagetable p_kpagetable va s =
     (let page = PGROUNDDOWN va
      in if MAXUVA \<le> page then Ok (-1, s)
         else rbind (upg2ukpg k p_pagetable p_kpagetable page (page + PGSIZE) s)
           (\<lambda>(r, s1). if r < 0 then Ok (-1, s1) else Ok (0, s1)))"

definition uvm_stack_sync :: "kenv \<Rightarrow> u64 \<Rightarrow> u64 \<Rightarrow> kmem \<Rightarrow> kmem res" where
  "uvm_stack_sync k u_pt k_pt s =
     rbind (upg2ukpg k u_pt k_pt USER_STACK_START USER_STACK_TOP s)
       (\<lambda>(r, s1). if r < 0 then Panic ''uvm_stack_sync: upg2ukpg'' else Ok s1)"

definition uvm_stack_unmap :: "kenv \<Rightarrow> u64 \<Rightarrow> bool \<Rightarrow> kmem \<Rightarrow> kmem res" where
  "uvm_stack_unmap k pagetable do_free s =
     uvmunmap k pagetable USER_STACK_START ((USER_STACK_TOP - USER_STACK_START) div PGSIZE) do_free s"

definition uvmclear :: "kenv \<Rightarrow> u64 \<Rightarrow> u64 \<Rightarrow> kmem \<Rightarrow> kmem res" where
  "uvmclear k pagetable va s =
     rbind (walk k pagetable va False s) (\<lambda>(pte, s1).
       if pte = 0 then Panic ''uvmclear''
       else Ok (kset s1 pte (km_mem s1 pte AND NOT PTE_U)))"

section \<open>Copy on write\<close>

definition uvm_fault_alloc ::
  "kenv \<Rightarrow> u64 \<Rightarrow> u64 \<Rightarrow> u64 \<Rightarrow> u64 \<Rightarrow> u64 \<Rightarrow> kmem \<Rightarrow> (int \<times> kmem) res" where
  "uvm_fault_alloc k p_pagetable p_kpagetable pagetable va perm s =
     (if pagetable \<noteq> p_pagetable \<or> va mod PGSIZE \<noteq> 0 \<or> MAXUVA \<le> va then Ok (-1, s)
      else rbind (walk k pagetable va False s) (\<lambda>(pte, s1).
        if pte \<noteq> 0 \<and> km_mem s1 pte AND PTE_V \<noteq> 0 then Ok (-1, s1)
        else let (mem, s2) = kalloc k s1
             in if mem = 0 then Ok (-1, s2)
                else rbind (mappages k pagetable va PGSIZE mem (perm OR PTE_U) (kzero s2 mem)) (\<lambda>(r, s3).
                  if r \<noteq> 0 then rmap (\<lambda>s4. (-1, s4)) (kfree k s3 mem)
                  else rbind (vm_sync_user_page k p_pagetable p_kpagetable va s3) (\<lambda>(r, s4).
                    if r < 0 then rmap (\<lambda>s5. (-1, s5)) (uvmunmap k pagetable va 1 True s4)
                    else Ok (0, s4)))))"

definition uvmcowmalloc ::
  "kenv \<Rightarrow> u64 \<Rightarrow> u64 \<Rightarrow> u64 \<Rightarrow> u64 \<Rightarrow> kmem \<Rightarrow> (u64 \<times> kmem) res" where
  "uvmcowmalloc k p_pagetable p_kpagetable pagetable va s =
     (if va mod PGSIZE \<noteq> 0 then Ok (0, s)
      else rbind (walkaddr k pagetable va s) (\<lambda>pa.
        if pa = 0 then Ok (0, s)
        else rbind (walk k pagetable va False s) (\<lambda>(pte, s1).
          if pte = 0 then Ok (0, s1)
          else rbind (kgetquota (ke_end k) s1 pa) (\<lambda>quota.
            if quota = 1 then
              let s2 = kset s1 pte (km_mem s1 pte OR PTE_W);
                  s3 = kset s2 pte (km_mem s2 pte AND NOT PTE_COW)
              in rbind (vm_sync_user_page k p_pagetable p_kpagetable va s3) (\<lambda>(r, s4).
                   if r < 0 then Panic ''uvmcowmalloc: sync user page'' else Ok (pa, s4))
            else
              let (mem, s2) = kalloc k s1
              in if mem = 0 then Ok (0, s2)
                 else
                   let s3 = kcopy_page s2 mem pa;
                       s4 = kset s3 pte (km_mem s3 pte AND NOT PTE_V)
                   in rbind (mappages k pagetable va PGSIZE mem
                          ((PTE_FLAGS (km_mem s4 pte) OR PTE_W) AND NOT PTE_COW) s4) (\<lambda>(r, s5).
                        if r \<noteq> 0 then
                          rbind (kfree k s5 mem) (\<lambda>s6. Ok (0, kset s6 pte (km_mem s6 pte OR PTE_V)))
                        else rbind (vm_sync_user_page k p_pagetable p_kpagetable va s5) (\<lambda>(r, s6).
                          if r < 0 then Panic ''uvmcowmalloc: sync user page''
                          else rmap (\<lambda>s7. (mem, s7)) (kfree k s6 pa)))))))"

function uvmcopy_loop :: "kenv \<Rightarrow> u64 \<Rightarrow> u64 \<Rightarrow> u64 \<Rightarrow> u64 \<Rightarrow> u64 \<Rightarrow> kmem \<Rightarrow> (int \<times> kmem) res" where
  "uvmcopy_loop k old new start i bound s =
     (if i < bound then
        rbind (walk k old i False s) (\<lambda>(pte, s1).
          if pte = 0 then uvmcopy_loop k old new start (i + PGSIZE) bound s1
          else if km_mem s1 pte AND PTE_V = 0 then uvmcopy_loop k old new start (i + PGSIZE) bound s1
          else
            let pa = PTE2PA (km_mem s1 pte);
                flags0 = PTE_FLAGS (km_mem s1 pte);
                cow = (flags0 AND PTE_W \<noteq> 0);
                flags = (if cow then (flags0 OR PTE_COW) AND NOT PTE_W else flags0);
                s2 = (if cow then kset s1 pte (PA2PTE pa OR flags) else s1)
            in rbind (mappages k new i PGSIZE pa flags s2) (\<lambda>(r, s3).
                 if r \<noteq> 0
                 then rmap (\<lambda>s4. (-1, s4)) (uvmunmap k new start ((i - start) div PGSIZE) True s3)
                 else rbind (kaddquota (ke_end k) s3 pa)
                        (\<lambda>s4. uvmcopy_loop k old new start (i + PGSIZE) bound s4)))
      else Ok (0, s))"
  by pat_completeness auto
termination
  by (relation "measure (\<lambda>(k, old, new, start, a, bound, s). va_left a)")
    (auto dest!: walk_below va_left_step)

declare uvmcopy_loop.simps [simp del]

definition uvmcopy_range :: "kenv \<Rightarrow> u64 \<Rightarrow> u64 \<Rightarrow> u64 \<Rightarrow> u64 \<Rightarrow> kmem \<Rightarrow> (int \<times> kmem) res" where
  "uvmcopy_range k old new start bound s = uvmcopy_loop k old new start start bound s"

definition uvmcopy :: "kenv \<Rightarrow> u64 \<Rightarrow> u64 \<Rightarrow> u64 \<Rightarrow> kmem \<Rightarrow> (int \<times> kmem) res" where
  "uvmcopy k old new sz s = uvmcopy_range k old new 0 sz s"

definition uvm_stack_copy :: "kenv \<Rightarrow> u64 \<Rightarrow> u64 \<Rightarrow> kmem \<Rightarrow> (int \<times> kmem) res" where
  "uvm_stack_copy k old new s = uvmcopy_range k old new USER_STACK_START USER_STACK_TOP s"

section \<open>Freeing page tables\<close>

text \<open>
  The recursion follows the table pages in memory. Its depth is an argument; the callers pass
  the three levels of Sv39, and running out of it is an outcome of its own.
\<close>

primrec freewalk_depth :: "nat \<Rightarrow> kenv \<Rightarrow> u64 \<Rightarrow> kmem \<Rightarrow> kmem res" where
  "freewalk_depth 0 k pagetable s = Panic ''freewalk: too deep''"
| "freewalk_depth (Suc n) k pagetable s =
     rbind (rfold (\<lambda>i s1.
         let slot_i = pagetable + 8 * of_nat i; pte = km_mem s1 slot_i
         in if pte AND PTE_V \<noteq> 0 \<and> pte AND (PTE_R OR PTE_W OR PTE_X) = 0
            then rmap (\<lambda>s2. kset s2 slot_i 0) (freewalk_depth n k (PTE2PA pte) s1)
            else if pte AND PTE_V \<noteq> 0 then Panic ''freewalk: leaf''
            else Ok s1) [0..<512] s)
       (\<lambda>s1. kfree k s1 pagetable)"

definition freewalk :: "kenv \<Rightarrow> u64 \<Rightarrow> kmem \<Rightarrow> kmem res" where
  "freewalk k pagetable s = freewalk_depth 3 k pagetable s"

definition uvmfree :: "kenv \<Rightarrow> u64 \<Rightarrow> u64 \<Rightarrow> kmem \<Rightarrow> kmem res" where
  "uvmfree k pagetable sz s =
     rbind (if 0 < sz then uvmunmap k pagetable 0 (PGROUNDUP sz div PGSIZE) True s else Ok s)
       (\<lambda>s1. freewalk k pagetable s1)"

primrec ukvmfree_depth :: "nat \<Rightarrow> kenv \<Rightarrow> u64 \<Rightarrow> kmem \<Rightarrow> kmem res" where
  "ukvmfree_depth 0 k pagetable s = Panic ''ukvmfree: too deep''"
| "ukvmfree_depth (Suc n) k pagetable s =
     rbind (rfold (\<lambda>i s1.
         let slot_i = pagetable + 8 * of_nat i; pte = km_mem s1 slot_i
         in rmap (\<lambda>s2. kset s2 slot_i 0)
              (if pte AND PTE_V \<noteq> 0 \<and> pte AND (PTE_R OR PTE_W OR PTE_X) = 0
               then ukvmfree_depth n k (PTE2PA pte) s1 else Ok s1)) [0..<512] s)
       (\<lambda>s1. kfree k s1 pagetable)"

definition ukvmfree :: "kenv \<Rightarrow> u64 \<Rightarrow> kmem \<Rightarrow> kmem res" where
  "ukvmfree k pagetable s = ukvmfree_depth 3 k pagetable s"

section \<open>Well-formed page tables under allocation\<close>

definition used_frame :: "kenv \<Rightarrow> kmem \<Rightarrow> u64 \<Rightarrow> bool" where
  "used_frame k s p \<longleftrightarrow> p \<in> good_pages (ke_end k) \<and> 0 < krefs s p"

definition vm_ok :: "kenv \<Rightarrow> kmem \<Rightarrow> u64 \<Rightarrow> bool" where
  "vm_ok k s root \<longleftrightarrow> ke_hart k < NCPU \<and> kalloc_inv (ke_end k) s \<and> pt_wf (km_mem s) root \<and>
     (\<forall>p \<in> pt_tables (km_mem s) root. used_frame k s p)"

text \<open>
  \<open>grows k root s s'\<close>: the step from \<open>s\<close> to \<open>s'\<close> only added table pages to the page table \<open>root\<close>,
  taken from the free frames, and wrote to no other frame in use.
\<close>

definition grows :: "kenv \<Rightarrow> u64 \<Rightarrow> kmem \<Rightarrow> kmem \<Rightarrow> bool" where
  "grows k root s s' \<longleftrightarrow>
     (\<forall>q. used_frame k s q \<longrightarrow> krefs s' q = krefs s q \<and>
        (q \<notin> pt_tables (km_mem s) root \<longrightarrow> (\<forall>a. in_page q a \<longrightarrow> km_mem s' a = km_mem s a))) \<and>
     pt_tables (km_mem s) root \<subseteq> pt_tables (km_mem s') root \<and>
     (\<forall>q \<in> pt_tables (km_mem s') root - pt_tables (km_mem s) root. \<not> used_frame k s q)"

lemma used_frame_aligned: "used_frame k s p \<Longrightarrow> page_aligned p"
  using good_pages_aligned by (auto simp: used_frame_def)

lemma grows_refl [simp]: "grows k root s s"
  by (simp add: grows_def)

lemma grows_used: "grows k root s s' \<Longrightarrow> used_frame k s q \<Longrightarrow> used_frame k s' q"
  unfolding grows_def used_frame_def by metis

lemma grows_tables:
  "grows k root s s' \<Longrightarrow> used_frame k s q \<Longrightarrow> q \<in> pt_tables (km_mem s') root \<Longrightarrow> q \<in> pt_tables (km_mem s) root"
  unfolding grows_def by blast

lemma grows_trans:
  assumes "grows k root s s1" and "grows k root s1 s2"
  shows "grows k root s s2"
  unfolding grows_def
proof (intro conjI allI impI ballI)
  fix q assume u: "used_frame k s q"
  note u1 = grows_used [OF assms(1) u]
  show "krefs s2 q = krefs s q"
    using assms u u1 unfolding grows_def by metis
  fix a assume n: "q \<notin> pt_tables (km_mem s) root" and a: "in_page q a"
  then have "q \<notin> pt_tables (km_mem s1) root"
    using grows_tables [OF assms(1) u] by blast
  with n a u u1 assms show "km_mem s2 a = km_mem s a"
    unfolding grows_def by metis
next
  show "pt_tables (km_mem s) root \<subseteq> pt_tables (km_mem s2) root"
    using assms unfolding grows_def by blast
  fix q assume "q \<in> pt_tables (km_mem s2) root - pt_tables (km_mem s) root"
  then show "\<not> used_frame k s q"
    using grows_tables assms grows_used [OF assms(1), of q] by blast
qed

text \<open>The step that \<^verbatim>\<open>walk\<close> takes at a missing table page.\<close>

lemma alloc_link:
  assumes ok: "ke_hart k < NCPU" "kalloc_inv (ke_end k) s" and q: "used_frame k s q"
    and al: "kalloc k s = (pg, s1)" "pg \<noteq> 0"
    and s2_def: "s2 = kset (kzero s1 pg) (slot q l va) (PA2PTE pg OR PTE_V)"
  shows "km_mem s2 = link_table (km_mem s) (slot q l va) pg"
    and "kalloc_inv (ke_end k) s2" and "\<not> used_frame k s pg" and "used_frame k s2 pg"
    and "page_aligned pg" and "unat pg < 2 ^ 56"
    and "used_frame k s p \<Longrightarrow> krefs s2 p = krefs s p"
proof -
  note R = kalloc_page_refs [OF ok(2,1) al]
  show nu: "\<not> used_frame k s pg" and ap: "page_aligned pg" and "unat pg < 2 ^ 56"
    using R(1,2) good_pages_aligned [OF R(1)] good_pages_bound [OF R(1)] by (simp_all add: used_frame_def)
  have aq: "page_aligned q" and qpg: "q \<noteq> pg"
    using q nu used_frame_aligned by auto
  show m: "km_mem s2 = link_table (km_mem s) (slot q l va) pg"
    using R(4) by (auto simp: s2_def kset_def kzero_def link_table_def page_fill_def)
  have refs: "krefs s2 = krefs s1"
    by (simp add: s2_def kset_def kzero_def)
  then show "used_frame k s p \<Longrightarrow> krefs s2 p = krefs s p" and "used_frame k s2 pg"
    using R(1,3) nu by (auto simp: used_frame_def)
  have "kalloc_inv (ke_end k) (s1\<lparr>km_mem := km_mem s2\<rparr>)"
  proof (rule kalloc_inv_mem)
    show "kalloc_inv (ke_end k) s1"
      using kalloc_page_keeps [OF ok(2,1) al(1)] .
    fix p assume p: "p \<in> good_pages (ke_end k)" "krefs s1 p = 0"
    then have "p \<noteq> pg" "p \<noteq> q"
      using R(1,3) q by (auto simp: used_frame_def split: if_splits)
    moreover have "page_aligned p" using p(1) by (rule good_pages_aligned)
    ultimately have "\<not> in_page pg p" "\<not> in_page q p"
      using in_page_aligned ap aq by auto
    then show "km_mem s2 p = km_mem s1 p"
      using R(4) slot_in_page [OF aq, of l va] by (auto simp: m link_table_def page_fill_def)
  qed
  then show "kalloc_inv (ke_end k) s2"
    by (simp add: s2_def kset_def kzero_def)
qed

lemma link_frame:
  assumes "page_aligned q" and "page_aligned pg" and "page_aligned p" and "p \<noteq> q" and "p \<noteq> pg" and "in_page p a"
  shows "link_table m (slot q l va) pg a = m a"
proof -
  have "a \<noteq> slot q l va" "\<not> in_page pg a"
    using assms slot_in_page [of q l va] page_unique [of p q a] page_unique [of p pg a] by auto
  then show ?thesis by (simp add: link_table_def page_fill_def)
qed

text \<open>
  What \<^verbatim>\<open>walk(..., alloc=1)\<close> guarantees: the page table stays well formed, no translation changes,
  and the result, when it is not null, is the address of the entry of \<open>va\<close>.
\<close>

definition walk_post :: "kenv \<Rightarrow> u64 \<Rightarrow> u64 \<Rightarrow> kmem \<Rightarrow> u64 \<Rightarrow> kmem \<Rightarrow> bool" where
  "walk_post k root va s pte s' \<longleftrightarrow> vm_ok k s' root \<and> grows k root s s' \<and>
     pte_of (km_mem s') root = pte_of (km_mem s) root \<and>
     (if pte = 0 then \<forall>q \<in> good_pages (ke_end k). 0 < krefs s' q
      else \<exists>p. node0 (km_mem s') root va = Some p \<and> pte = slot p 0 va)"

lemma walk_post_trans:
  assumes "vm_ok k s1 root" and "grows k root s s1" and "pte_of (km_mem s1) root = pte_of (km_mem s) root"
    and "walk_post k root va s1 pte s'"
  shows "walk_post k root va s pte s'"
  using assms grows_trans [of k root s s1 s'] by (simp add: walk_post_def)

lemma alloc_link_grows:
  assumes ok: "vm_ok k s root" and q: "q \<in> pt_tables (km_mem s) root"
    and al: "kalloc k s = (pg, s1)" "pg \<noteq> 0"
    and s2: "s2 = kset (kzero s1 pg) (slot q l va) (PA2PTE pg OR PTE_V)"
    and wf: "pt_wf (km_mem s2) root"
    and tab: "pt_tables (km_mem s2) root = insert pg (pt_tables (km_mem s) root)"
  shows "vm_ok k s2 root" and "grows k root s s2"
proof -
  have uq: "used_frame k s q" and h: "ke_hart k < NCPU" and ki: "kalloc_inv (ke_end k) s"
    using ok q by (auto simp: vm_ok_def)
  note A = alloc_link [OF h ki uq al s2]
  have used: "used_frame k s2 p" if "used_frame k s p" for p
    using that A(7) [of p] by (simp add: used_frame_def)
  show "vm_ok k s2 root"
    using ok wf tab A(2,4) used h by (auto simp: vm_ok_def)
  have "km_mem s2 a = km_mem s a" if "used_frame k s p" "p \<notin> pt_tables (km_mem s) root" "in_page p a" for p a
    unfolding A(1) using that A(3,5) q used_frame_aligned uq by (intro link_frame) auto
  then show "grows k root s s2"
    using tab A(3,7) by (auto simp: grows_def)
qed

lemma walk_loop_step:
  "walk_loop k va alloc (Suc l) p s = (case pt_child (km_mem s) p (Suc l) va of
     Some q \<Rightarrow> walk_loop k va alloc l q s
   | None \<Rightarrow> if \<not> alloc then (0, s)
       else let (pg, s1) = kalloc k s
            in if pg = 0 then (0, s1)
               else walk_loop k va alloc l pg (kset (kzero s1 pg) (slot p (Suc l) va) (PA2PTE pg OR PTE_V)))"
  by (simp add: pt_child_def Let_def)

lemma walk_loop_2: "walk_loop k va alloc 2 = walk_loop k va alloc (Suc 1)"
  and walk_loop_1: "walk_loop k va alloc 1 = walk_loop k va alloc (Suc 0)"
  by (simp_all add: numeral_2_eq_2)

lemma walk_leaf_level:
  assumes ok: "vm_ok k s root" and q: "node1 (km_mem s) root va = Some q"
    and w: "walk_loop k va True 1 q s = (pte, s')"
  shows "walk_post k root va s pte s'"
proof (cases "pt_child (km_mem s) q 1 va")
  case (Some p)
  then have n0: "node0 (km_mem s) root va = Some p" by (simp add: node0_def q)
  then have "used_frame k s p" using ok by (auto simp: vm_ok_def)
  then have "slot p 0 va \<noteq> 0"
    using slot_nonnull used_frame_aligned good_pages_bound by (auto simp: used_frame_def)
  moreover have "pte = slot p 0 va" "s' = s"
    using w Some by (auto simp: walk_loop_1 walk_loop_step simp del: walk_loop.simps(2) split: if_splits)
  ultimately show ?thesis
    using ok n0 by (simp add: walk_post_def)
next
  case None
  then have n0: "node0 (km_mem s) root va = None" by (simp add: node0_def q)
  have h: "ke_hart k < NCPU" "kalloc_inv (ke_end k) s" and wf: "pt_wf (km_mem s) root"
    using ok by (auto simp: vm_ok_def)
  obtain pg s1 where al: "kalloc k s = (pg, s1)" by (cases "kalloc k s")
  define s2 where "s2 = kset (kzero s1 pg) (slot q 1 va) (PA2PTE pg OR PTE_V)"
  have w': "(pte, s') = (if pg = 0 then (0, s1) else (slot pg 0 va, s2))"
    using w None al by (simp add: walk_loop_1 walk_loop_step s2_def del: walk_loop.simps(2) split: if_splits)
  show ?thesis
  proof (cases "pg = 0")
    case True
    with w' al kalloc_page_null [OF h(2,1)] ok show ?thesis
      by (auto simp: walk_post_def)
  next
    case False
    have qt: "q \<in> pt_tables (km_mem s) root" using q by blast
    then have uq: "used_frame k s q" using ok by (simp add: vm_ok_def)
    note A = alloc_link [OF h uq al False s2_def]
    have "pg \<notin> pt_tables (km_mem s) root" using A(3) ok by (auto simp: vm_ok_def)
    note B = pt_add_node0 [OF wf q n0 A(5,6) this, folded A(1)]
    have "slot pg 0 va \<noteq> 0"
      using slot_nonnull A(5) False by blast
    with w' False alloc_link_grows [OF ok qt al False s2_def B(4,5)] B(2,3) show ?thesis
      by (simp add: walk_post_def)
  qed
qed

lemma walk_alloc_post:
  assumes ok: "vm_ok k s root" and w: "walk_loop k va True 2 root s = (pte, s')"
  shows "walk_post k root va s pte s'"
proof (cases "node1 (km_mem s) root va")
  case (Some q)
  then have "walk_loop k va True 1 q s = (pte, s')"
    using w unfolding walk_loop_2 walk_loop_step by (simp add: node1_def numeral_2_eq_2)
  with ok Some show ?thesis by (intro walk_leaf_level)
next
  case None
  have h: "ke_hart k < NCPU" "kalloc_inv (ke_end k) s" and wf: "pt_wf (km_mem s) root"
    using ok by (auto simp: vm_ok_def)
  obtain pg s1 where al: "kalloc k s = (pg, s1)" by (cases "kalloc k s")
  define s2 where "s2 = kset (kzero s1 pg) (slot root 2 va) (PA2PTE pg OR PTE_V)"
  have w': "(pte, s') = (if pg = 0 then (0, s1) else walk_loop k va True 1 pg s2)"
    using w None al unfolding walk_loop_2 walk_loop_step
    by (simp add: node1_def numeral_2_eq_2 s2_def split: if_splits)
  show ?thesis
  proof (cases "pg = 0")
    case True
    with w' al kalloc_page_null [OF h(2,1)] ok show ?thesis
      by (auto simp: walk_post_def)
  next
    case False
    have rt: "root \<in> pt_tables (km_mem s) root" by blast
    then have ur: "used_frame k s root" using ok by (simp add: vm_ok_def)
    note A = alloc_link [OF h ur al False s2_def]
    have "pg \<notin> pt_tables (km_mem s) root" using A(3) ok by (auto simp: vm_ok_def)
    note B = pt_add_node1 [OF wf None A(5,6) this, folded A(1)]
    note G = alloc_link_grows [OF ok rt al False s2_def B(4,5)]
    have w1: "walk_loop k va True 1 pg s2 = (pte, s')"
      using w' unfolding if_not_P [OF False] by (rule sym)
    have n1: "node1 (km_mem s2) root va = Some pg"
      using B(1) [of va] by (simp only: if_True refl)
    have "walk_post k root va s2 pte s'"
      using G(1) n1 w1 by (rule walk_leaf_level)
    then show ?thesis by (rule walk_post_trans [OF G(1,2) B(3)])
  qed
qed

lemma kset_leaf:
  assumes ok: "vm_ok k s root" and p: "node0 (km_mem s) root va = Some p"
  shows "vm_ok k (kset s (slot p 0 va) v) root" and "grows k root s (kset s (slot p 0 va) v)"
    and "pte_of (km_mem (kset s (slot p 0 va) v)) root va' =
      (if same_idx va va' then v else pte_of (km_mem s) root va')"
    and "krefs (kset s (slot p 0 va) v) = krefs s"
proof -
  let ?s = "kset s (slot p 0 va) v"
  have wf: "pt_wf (km_mem s) root" and pt: "p \<in> pt_tables (km_mem s) root"
    using ok p by (auto simp: vm_ok_def)
  then have up: "used_frame k s p" using ok by (simp add: vm_ok_def)
  have m: "km_mem ?s = (km_mem s)(slot p 0 va := v)" by (simp add: kset_def)
  note L = pt_set_leaf [OF wf p, of v, folded m]
  show refs: "krefs ?s = krefs s" by (simp add: kset_def)
  have other: "km_mem ?s a = km_mem s a" if "page_aligned q" "q \<noteq> p" "in_page q a" for q a
    using page_unique [OF that(1) used_frame_aligned [OF up] that(3)] that(2)
      slot_in_page [OF used_frame_aligned [OF up], of 0 va] by (auto simp: m)
  have "kalloc_inv (ke_end k) ?s"
    unfolding kset_def
  proof (rule kalloc_inv_mem)
    show "kalloc_inv (ke_end k) s" using ok by (simp add: vm_ok_def)
    fix q assume q: "q \<in> good_pages (ke_end k)" "krefs s q = 0"
    then have "km_mem ?s q = km_mem s q"
      using up by (intro other [of q]) (auto simp: used_frame_def good_pages_aligned)
    then show "((km_mem s)(slot p 0 va := v)) q = km_mem s q" by (simp add: m)
  qed
  then show "vm_ok k ?s root"
    using ok L(4,5) refs by (simp add: vm_ok_def used_frame_def)
  show "grows k root s ?s"
    using other pt used_frame_aligned unfolding grows_def refs L(4) by (metis Diff_cancel empty_iff subset_refl)
  show "pte_of (km_mem ?s) root va' = (if same_idx va va' then v else pte_of (km_mem s) root va')"
    by (rule L(3))
qed

section \<open>mappages\<close>

text \<open>The page table as a function, with the pages of \<open>n\<close> addresses from \<open>a\<close> mapped to \<open>pa\<close> upwards.\<close>

definition pt_map :: "(u64 \<Rightarrow> u64) \<Rightarrow> u64 \<Rightarrow> nat \<Rightarrow> u64 \<Rightarrow> u64 \<Rightarrow> u64 \<Rightarrow> u64" where
  "pt_map f a n pa perm =
     (\<lambda>va. if unat a \<le> unat va \<and> unat va < unat a + n
           then PA2PTE (pa + (PGROUNDDOWN va - a)) OR perm OR PTE_V else f va)"

lemma page_range_first:
  assumes "page_aligned a" and "a < MAXVA" and "va < MAXVA"
  shows "same_idx a va \<longleftrightarrow> unat a \<le> unat va \<and> unat va < unat a + 4096"
proof -
  have "same_idx a va \<longleftrightarrow> a = PGROUNDDOWN va"
    unfolding same_idx_def same_page_iff [OF assms(2,3)] using assms(1) by simp
  also have "\<dots> \<longleftrightarrow> unat a = unat va div 4096 * 4096"
    by (simp add: word_unat_eq_iff unat_PGROUNDDOWN)
  also have "\<dots> \<longleftrightarrow> unat a \<le> unat va \<and> unat va < unat a + 4096"
    using assms(1) by (auto simp: page_aligned_unat mod_eq_0_iff_dvd dvd_def)
  finally show ?thesis .
qed

lemma pt_map_cong: "f va = g va \<Longrightarrow> pt_map f a n pa perm va = pt_map g a n pa perm va"
  by (simp add: pt_map_def)

lemma pt_map_step:
  assumes "page_aligned a" and "unat a + 4096 < 2 ^ 64" and "va < MAXVA" and "a < MAXVA"
  shows "pt_map (pt_map f a 4096 pa perm) (a + PGSIZE) n (pa + PGSIZE) perm va = pt_map f a (4096 + n) pa perm va"
proof -
  have u: "unat (a + PGSIZE) = unat a + 4096"
    using assms(2) by (simp add: unat_word_ariths)
  have "pa + PGSIZE + (PGROUNDDOWN va - (a + PGSIZE)) = pa + (PGROUNDDOWN va - a)"
    by simp
  then show ?thesis
    by (auto simp: pt_map_def u)
qed

definition no_free_frame :: "kenv \<Rightarrow> kmem \<Rightarrow> bool" where
  "no_free_frame k s \<longleftrightarrow> (\<forall>q \<in> good_pages (ke_end k). 0 < krefs s q)"

lemma walk_alloc_ok:
  assumes ok: "vm_ok k s root" and a: "a < MAXVA"
  obtains (none) s1 where "walk k root a True s = Ok (0, s1)" "vm_ok k s1 root" "grows k root s s1"
      "pte_of (km_mem s1) root = pte_of (km_mem s) root" "no_free_frame k s1"
  | (some) s1 p where "walk k root a True s = Ok (slot p 0 a, s1)" "slot p 0 a \<noteq> 0" "vm_ok k s1 root"
      "grows k root s s1" "pte_of (km_mem s1) root = pte_of (km_mem s) root"
      "node0 (km_mem s1) root a = Some p" "km_mem s1 (slot p 0 a) = pte_of (km_mem s) root a"
proof -
  obtain pte s1 where w: "walk_loop k a True 2 root s = (pte, s1)"
    by (cases "walk_loop k a True 2 root s")
  note P = walk_alloc_post [OF ok w, unfolded walk_post_def]
  have W: "walk k root a True s = Ok (pte, s1)"
    using a w by (simp add: walk_def linorder_not_le)
  show thesis
  proof (cases "pte = 0")
    case True
    with P W show thesis by (intro none [of s1]) (simp_all add: no_free_frame_def)
  next
    case False
    with P obtain p where p: "node0 (km_mem s1) root a = Some p" "pte = slot p 0 a" by auto
    then have "km_mem s1 (slot p 0 a) = pte_of (km_mem s1) root a" by (simp add: pte_of_def)
    with P W p False show thesis by (intro some [of p s1]) simp_all
  qed
qed

lemma map_page_ok:
  assumes "vm_ok k s root" and "page_aligned a" and "a < MAXVA" and "pte_of (km_mem s) root a AND PTE_V = 0"
  obtains (none) s1 where "walk k root a True s = Ok (0, s1)" "vm_ok k s1 root" "grows k root s s1"
      "pte_of (km_mem s1) root = pte_of (km_mem s) root" "no_free_frame k s1"
  | (some) s1 pte where "walk k root a True s = Ok (pte, s1)" "pte \<noteq> 0" "km_mem s1 pte AND PTE_V = 0"
      "\<And>v. vm_ok k (kset s1 pte v) root" "\<And>v. grows k root s (kset s1 pte v)"
      "\<And>v va. va < MAXVA \<Longrightarrow> pte_of (km_mem (kset s1 pte v)) root va =
        (if unat a \<le> unat va \<and> unat va < unat a + 4096 then v else pte_of (km_mem s) root va)"
proof (rule walk_alloc_ok [OF assms(1,3)])
  fix s1 p
  assume W: "walk k root a True s = Ok (slot p 0 a, s1)" "slot p 0 a \<noteq> 0" "vm_ok k s1 root"
    "grows k root s s1" "pte_of (km_mem s1) root = pte_of (km_mem s) root"
    "node0 (km_mem s1) root a = Some p" "km_mem s1 (slot p 0 a) = pte_of (km_mem s) root a"
  note L = kset_leaf [OF W(3,6)]
  show thesis
  proof (rule some [OF W(1,2)])
    show "km_mem s1 (slot p 0 a) AND PTE_V = 0" using W(7) assms(4) by simp
    show "vm_ok k (kset s1 (slot p 0 a) v) root" for v by (rule L(1))
    show "grows k root s (kset s1 (slot p 0 a) v)" for v using grows_trans [OF W(4) L(2)] .
    show "pte_of (km_mem (kset s1 (slot p 0 a) v)) root va =
        (if unat a \<le> unat va \<and> unat va < unat a + 4096 then v else pte_of (km_mem s) root va)"
      if "va < MAXVA" for v va
      using L(3) [of v va] page_range_first [OF assms(2,3) that] W(5) by simp
  qed
qed (rule none)

lemma unat_page_step:
  assumes "a < MAXVA"
  shows "unat (a + PGSIZE) = unat a + 4096"
  using assms by (simp add: word_less_nat_alt unat_word_ariths)

lemma page_aligned_step: "page_aligned a \<Longrightarrow> a < MAXVA \<Longrightarrow> page_aligned (a + PGSIZE)"
  by (simp add: page_aligned_unat unat_page_step)

definition map_post :: "kenv \<Rightarrow> u64 \<Rightarrow> kmem \<Rightarrow> u64 \<Rightarrow> nat \<Rightarrow> u64 \<Rightarrow> u64 \<Rightarrow> int \<Rightarrow> kmem \<Rightarrow> bool" where
  "map_post k root s a n pa perm r s' \<longleftrightarrow> vm_ok k s' root \<and> grows k root s s' \<and>
     (\<exists>j. (r = 0 \<and> j = n \<or> r = -1 \<and> j < n \<and> no_free_frame k s') \<and>
       (\<forall>va < MAXVA. pte_of (km_mem s') root va = pt_map (pte_of (km_mem s) root) a (4096 * j) pa perm va))"

lemma mappages_loop_ok:
  assumes "vm_ok k s root" and "page_aligned a" and "lastpg < MAXVA" and "unat lastpg = unat a + 4096 * n"
    and "\<And>va. unat a \<le> unat va \<Longrightarrow> unat va < unat lastpg + 4096 \<Longrightarrow> va < MAXVA \<Longrightarrow>
      pte_of (km_mem s) root va AND PTE_V = 0"
  shows "\<exists>r s'. mappages_loop k root a lastpg pa perm s = Ok (r, s') \<and> map_post k root s a (Suc n) pa perm r s'"
  using assms
proof (induction n arbitrary: a pa s)
  case 0
  have a: "lastpg = a" using 0(4) by (simp add: word_unat_eq_iff)
  with 0(3) have a: "lastpg = a" "a < MAXVA" by simp_all
  have "pte_of (km_mem s) root a AND PTE_V = 0" using 0 a by simp
  from 0(1,2) a(2) this show ?case
  proof (cases rule: map_page_ok)
    case (none s1)
    then show ?thesis
      by (intro exI [of _ "-1"] exI [of _ s1], subst mappages_loop.simps)
        (auto simp: map_post_def pt_map_def intro: exI [of _ 0])
  next
    case (some s1 pte)
    have "pt_map (pte_of (km_mem s) root) a 4096 pa perm va =
        (if unat a \<le> unat va \<and> unat va < unat a + 4096 then PA2PTE pa OR perm OR PTE_V else pte_of (km_mem s) root va)"
      if "va < MAXVA" for va
      using page_range_first [OF 0(2) a(2) that] same_page_iff [OF a(2) that] 0(2)
      by (auto simp: pt_map_def same_idx_def)
    with some a show ?thesis
      by (intro exI [of _ 0] exI [of _ "kset s1 pte (PA2PTE pa OR perm OR PTE_V)"], subst mappages_loop.simps)
        (auto simp: map_post_def Let_def)
  qed
next
  case (Suc n)
  have a: "a < MAXVA" "a \<noteq> lastpg"
    using Suc.prems(3,4) by (auto simp: word_less_nat_alt)
  have "pte_of (km_mem s) root a AND PTE_V = 0" using Suc.prems(4,5) a by simp
  from Suc.prems(1,2) a(1) this show ?case
  proof (cases rule: map_page_ok)
    case (none s1)
    then show ?thesis
      by (intro exI [of _ "-1"] exI [of _ s1], subst mappages_loop.simps)
        (auto simp: map_post_def pt_map_def intro: exI [of _ 0])
  next
    case (some s1 pte)
    let ?s = "kset s1 pte (PA2PTE pa OR perm OR PTE_V)"
    have first: "pte_of (km_mem ?s) root va = pt_map (pte_of (km_mem s) root) a 4096 pa perm va"
      if "va < MAXVA" for va
      using page_range_first [OF Suc.prems(2) a(1) that] same_page_iff [OF a(1) that] Suc.prems(2) some(6) [OF that]
      by (auto simp: pt_map_def same_idx_def)
    have "\<exists>r s'. mappages_loop k root (a + PGSIZE) lastpg (pa + PGSIZE) perm ?s = Ok (r, s') \<and>
        map_post k root ?s (a + PGSIZE) (Suc n) (pa + PGSIZE) perm r s'"
    proof (rule Suc.IH)
      show "pte_of (km_mem ?s) root va AND PTE_V = 0"
        if "unat (a + PGSIZE) \<le> unat va" "unat va < unat lastpg + 4096" "va < MAXVA" for va
        using that Suc.prems(5) [of va] first [OF that(3)] unat_page_step [OF a(1)] by (simp add: pt_map_def)
    qed (use Suc.prems a some(4) unat_page_step [OF a(1)] page_aligned_step in auto)
    then obtain r s' where L: "mappages_loop k root (a + PGSIZE) lastpg (pa + PGSIZE) perm ?s = Ok (r, s')"
      and P: "map_post k root ?s (a + PGSIZE) (Suc n) (pa + PGSIZE) perm r s'" by blast
    have "mappages_loop k root a lastpg pa perm s = Ok (r, s')"
      using some(1-3) a(2) L by (subst mappages_loop.simps) (simp add: Let_def)
    moreover obtain j where j: "r = 0 \<and> j = Suc n \<or> r = -1 \<and> j < Suc n \<and> no_free_frame k s'"
      "\<forall>va < MAXVA. pte_of (km_mem s') root va = pt_map (pte_of (km_mem ?s) root) (a + PGSIZE) (4096 * j) (pa + PGSIZE) perm va"
      using P by (auto simp: map_post_def)
    have "pte_of (km_mem s') root va = pt_map (pte_of (km_mem s) root) a (4096 * Suc j) pa perm va" if va: "va < MAXVA" for va
    proof -
      have lt: "unat a + 4096 < 2 ^ 64" using a(1) by (simp add: word_less_nat_alt)
      have "pte_of (km_mem s') root va = pt_map (pt_map (pte_of (km_mem s) root) a 4096 pa perm)
          (a + PGSIZE) (4096 * j) (pa + PGSIZE) perm va"
        unfolding j(2) [rule_format, OF va] by (rule pt_map_cong) (rule first [OF va])
      also have "\<dots> = pt_map (pte_of (km_mem s) root) a (4096 * Suc j) pa perm va"
        using pt_map_step [OF Suc.prems(2) lt va a(1)] by simp
      finally show ?thesis .
    qed
    then have "map_post k root s a (Suc (Suc n)) pa perm r s'"
      using P j(1) grows_trans [OF some(5)] unfolding map_post_def by (auto intro!: exI [of _ "Suc j"])
    ultimately show ?thesis by blast
  qed
qed

lemma mappages_ok:
  assumes ok: "vm_ok k s root" and sz: "0 < sz" "unat va + unat sz \<le> 0x4000000000"
    and free: "\<And>v. unat (PGROUNDDOWN va) \<le> unat v \<Longrightarrow> unat v < unat (PGROUNDDOWN (va + sz - 1)) + 4096 \<Longrightarrow>
      pte_of (km_mem s) root v AND PTE_V = 0"
  obtains n r s' where "mappages k root va sz pa perm s = Ok (r, s')"
    and "map_post k root s (PGROUNDDOWN va) (Suc n) pa perm r s'"
    and "unat (PGROUNDDOWN (va + sz - 1)) = unat (PGROUNDDOWN va) + 4096 * n"
proof -
  have "1 \<le> unat sz" using sz(1) by (simp add: word_less_nat_alt)
  have "unat (va + (sz - 1)) = unat va + (unat sz - 1)"
  proof -
    have "unat (sz - 1) = unat sz - 1" using sz(1) by (simp add: unat_minus_one)
    moreover have "unat va + (unat sz - 1) < 2 ^ 64" using sz(2) by simp
    ultimately show ?thesis by (simp add: unat_word_ariths)
  qed
  then have u: "unat (va + sz - 1) = unat va + unat sz - 1"
    using \<open>1 \<le> unat sz\<close> by (simp add: diff_add_eq add_diff_eq)
  define n where "n = (unat va + unat sz - 1) div 4096 - unat va div 4096"
  have "unat va div 4096 \<le> (unat va + unat sz - 1) div 4096"
    using \<open>1 \<le> unat sz\<close> by (intro div_le_mono) simp
  then have n: "unat (PGROUNDDOWN (va + sz - 1)) = unat (PGROUNDDOWN va) + 4096 * n"
    unfolding unat_PGROUNDDOWN u n_def by (simp add: diff_mult_distrib2)
  have lt: "PGROUNDDOWN (va + sz - 1) < MAXVA"
  proof -
    have "unat (PGROUNDDOWN (va + sz - 1)) \<le> unat va + unat sz - 1"
      by (simp add: unat_PGROUNDDOWN u)
    with sz(2) \<open>1 \<le> unat sz\<close> show ?thesis by (simp add: word_less_nat_alt)
  qed
  from mappages_loop_ok [OF ok page_aligned_PGROUNDDOWN lt n free] n that show thesis
    unfolding mappages_def by blast
qed

section \<open>uvmunmap\<close>

lemma walk_no_alloc:
  assumes "va < MAXVA"
  shows "walk k root va False s =
    Ok (case node0 (km_mem s) root va of None \<Rightarrow> 0 | Some p \<Rightarrow> slot p 0 va, s)"
proof -
  have "walk_loop k va False 2 root s = (case node0 (km_mem s) root va of None \<Rightarrow> 0 | Some p \<Rightarrow> slot p 0 va, s)"
    unfolding walk_loop_2 walk_loop_step
    by (simp add: node0_def node1_def numeral_2_eq_2 walk_loop_step [of _ _ _ 0] del: walk_loop.simps(2)
        split: option.split)
  with assms show ?thesis by (simp add: walk_def linorder_not_le)
qed

lemma walk_valid:
  assumes "vm_ok k s root" and "va < MAXVA"
  shows "\<exists>pte. walk k root va False s = Ok (pte, s) \<and>
    (pte \<noteq> 0 \<and> km_mem s pte AND PTE_V \<noteq> 0 \<longleftrightarrow> pte_of (km_mem s) root va AND PTE_V \<noteq> 0) \<and>
    (pte \<noteq> 0 \<longrightarrow> (\<exists>p. node0 (km_mem s) root va = Some p \<and> pte = slot p 0 va \<and> km_mem s pte = pte_of (km_mem s) root va))"
proof (cases "node0 (km_mem s) root va")
  case None
  then show ?thesis
    using walk_no_alloc [OF assms(2), of k root s] by (auto simp: pte_of_def)
next
  case (Some p)
  then have "used_frame k s p" using assms(1) by (auto simp: vm_ok_def)
  then have "slot p 0 va \<noteq> 0"
    using slot_nonnull used_frame_aligned good_pages_bound by (auto simp: used_frame_def)
  with Some show ?thesis
    using walk_no_alloc [OF assms(2), of k root s] by (auto simp: pte_of_def)
qed

text \<open>
  \<open>walkaddr\<close> is the lookup of a user page: it never panics, changes nothing and returns the frame of
  a valid user entry below \<^verbatim>\<open>MAXUVA\<close>, and zero otherwise.
\<close>

lemma walkaddr_ok:
  assumes "vm_ok k s root"
  shows "walkaddr k root va s =
    Ok (if va < MAXUVA \<and> pte_of (km_mem s) root va AND PTE_V \<noteq> 0 \<and> pte_of (km_mem s) root va AND PTE_U \<noteq> 0
        then PTE2PA (pte_of (km_mem s) root va) else 0)"
proof (cases "va < MAXUVA")
  case True
  then have "va < MAXVA" by (simp add: word_less_nat_alt)
  with walk_valid [OF assms this] True show ?thesis
    by (auto simp: walkaddr_def linorder_not_le pte_of_def)
qed (simp add: walkaddr_def linorder_not_le)

lemma kfree_frame:
  assumes ok: "vm_ok k s root" and f: "used_frame k s f" "f \<notin> pt_tables (km_mem s) root"
  obtains s' where "kfree k s f = Ok s'" and "vm_ok k s' root" and "node0 (km_mem s') root = node0 (km_mem s) root"
    and "pte_of (km_mem s') root = pte_of (km_mem s) root"
    and "pt_tables (km_mem s') root = pt_tables (km_mem s) root"
    and "\<And>q. q \<in> good_pages (ke_end k) \<Longrightarrow> krefs s' q = (if q = f then krefs s f - 1 else krefs s q)"
    and "\<And>a. \<not> in_page f a \<Longrightarrow> km_mem s' a = km_mem s a"
proof -
  have h: "ke_hart k < NCPU" "kalloc_inv (ke_end k) s" and wf: "pt_wf (km_mem s) root"
    and used: "\<And>p. p \<in> pt_tables (km_mem s) root \<Longrightarrow> used_frame k s p"
    using ok by (auto simp: vm_ok_def)
  have g: "f \<in> good_pages (ke_end k)" "0 < krefs s f" using f(1) by (auto simp: used_frame_def)
  obtain s' where s': "kfree k s f = Ok s'" "kalloc_inv (ke_end k) s'"
    and refs: "\<And>q. q \<in> good_pages (ke_end k) \<Longrightarrow> krefs s' q = (if q = f then krefs s f - 1 else krefs s q)"
    and mem: "\<And>a. \<not> in_page f a \<Longrightarrow> km_mem s' a = km_mem s a"
    using kfree_page_to_ok [OF h(2,1) g] by (auto simp: kfree_page_def)
  have "km_mem s' a = km_mem s a" if "p \<in> pt_tables (km_mem s) root" "in_page p a" for p a
    using mem [of a] page_unique [of p f a] that used [OF that(1)] f used_frame_aligned by blast
  note F = pt_frame [OF pt_wfD(1) [OF wf] this]
  have "used_frame k s' p" if "p \<in> pt_tables (km_mem s) root" for p
    using used [OF that] refs [of p] f(2) that by (auto simp: used_frame_def)
  then have "vm_ok k s' root"
    using h s'(2) wf F(4,5) by (simp add: vm_ok_def)
  with s'(1) F(2-4) refs mem show thesis by (intro that)
qed

text \<open>What an unmapped range must look like: leaf entries, and with \<open>do_free\<close> one owner for each frame.\<close>

definition unmap_pre :: "kenv \<Rightarrow> kmem \<Rightarrow> u64 \<Rightarrow> nat \<Rightarrow> nat \<Rightarrow> bool \<Rightarrow> bool" where
  "unmap_pre k s root lo hi do_free \<longleftrightarrow>
     (\<forall>va < MAXVA. lo \<le> unat va \<and> unat va < hi \<and> pte_of (km_mem s) root va AND PTE_V \<noteq> 0 \<longrightarrow>
        PTE_FLAGS (pte_of (km_mem s) root va) \<noteq> PTE_V \<and>
        (do_free \<longrightarrow> used_frame k s (PTE2PA (pte_of (km_mem s) root va)) \<and>
           PTE2PA (pte_of (km_mem s) root va) \<notin> pt_tables (km_mem s) root)) \<and>
     (do_free \<longrightarrow> (\<forall>va < MAXVA. \<forall>vb < MAXVA. lo \<le> unat va \<and> unat va < hi \<and> lo \<le> unat vb \<and> unat vb < hi \<and>
        pte_of (km_mem s) root va AND PTE_V \<noteq> 0 \<and> pte_of (km_mem s) root vb AND PTE_V \<noteq> 0 \<and>
        PTE2PA (pte_of (km_mem s) root va) = PTE2PA (pte_of (km_mem s) root vb) \<longrightarrow>
        PGROUNDDOWN va = PGROUNDDOWN vb))"

definition unmap_frames :: "kmem \<Rightarrow> u64 \<Rightarrow> nat \<Rightarrow> nat \<Rightarrow> u64 set" where
  "unmap_frames s root lo hi = {PTE2PA (pte_of (km_mem s) root va) | va. va < MAXVA \<and> lo \<le> unat va \<and>
     unat va < hi \<and> pte_of (km_mem s) root va AND PTE_V \<noteq> 0}"

definition unmap_post :: "kenv \<Rightarrow> kmem \<Rightarrow> u64 \<Rightarrow> nat \<Rightarrow> nat \<Rightarrow> bool \<Rightarrow> kmem \<Rightarrow> bool" where
  "unmap_post k s root lo hi do_free s' \<longleftrightarrow> vm_ok k s' root \<and>
     (\<forall>va < MAXVA. pte_of (km_mem s') root va =
        (if lo \<le> unat va \<and> unat va < hi \<and> pte_of (km_mem s) root va AND PTE_V \<noteq> 0 then 0
         else pte_of (km_mem s) root va)) \<and>
     (\<forall>q \<in> good_pages (ke_end k). krefs s' q =
        (if do_free \<and> q \<in> unmap_frames s root lo hi then krefs s q - 1 else krefs s q)) \<and>
     pt_tables (km_mem s') root = pt_tables (km_mem s) root"

lemma unmap_page:
  assumes ok: "vm_ok k s root" and a: "page_aligned a" "a < MAXVA" "a < bound"
    and pre: "unmap_pre k s root (unat a) hi do_free" "unat a + 4096 \<le> hi"
  shows "\<exists>s1. uvmunmap_loop k root a bound do_free s = uvmunmap_loop k root (a + PGSIZE) bound do_free s1 \<and>
    unmap_post k s root (unat a) (unat a + 4096) do_free s1"
proof -
  obtain pte where w: "walk k root a False s = Ok (pte, s)"
    and v: "pte \<noteq> 0 \<and> km_mem s pte AND PTE_V \<noteq> 0 \<longleftrightarrow> pte_of (km_mem s) root a AND PTE_V \<noteq> 0"
    and n: "pte \<noteq> 0 \<longrightarrow> (\<exists>p. node0 (km_mem s) root a = Some p \<and> pte = slot p 0 a \<and> km_mem s pte = pte_of (km_mem s) root a)"
    using walk_valid [OF ok a(2)] by blast
  have page: "pte_of (km_mem s) root va = pte_of (km_mem s) root a"
    if "va < MAXVA" "unat a \<le> unat va" "unat va < unat a + 4096" for va
  proof -
    have "same_idx a va" using page_range_first [OF a(1,2) that(1)] that by simp
    then show ?thesis
      using node0_px [of a va "km_mem s" root] slot_px [of 0 a va]
      by (simp add: same_idx_def pte_of_def split: option.split)
  qed
  show ?thesis
  proof (cases "pte_of (km_mem s) root a AND PTE_V = 0")
    case True
    then have "uvmunmap_loop k root a bound do_free s = uvmunmap_loop k root (a + PGSIZE) bound do_free s"
      using w v a(3) by (subst uvmunmap_loop.simps) auto
    moreover have "pte_of (km_mem s) root va AND PTE_V = 0"
      if "va < MAXVA" "unat a \<le> unat va" "unat va < unat a + 4096" for va
      using page [OF that] True by argo
    then have inv: "\<not> (va < MAXVA \<and> unat a \<le> unat va \<and> unat va < unat a + 4096 \<and>
        pte_of (km_mem s) root va AND PTE_V \<noteq> 0)" for va
      by blast
    then have "unmap_frames s root (unat a) (unat a + 4096) = {}"
      unfolding unmap_frames_def by blast
    then have "unmap_post k s root (unat a) (unat a + 4096) do_free s"
      using ok inv unfolding unmap_post_def by (simp only: simp_thms empty_iff if_False) (metis (full_types))
    ultimately show ?thesis by blast
  next
    case False
    then obtain p where p: "node0 (km_mem s) root a = Some p" "pte = slot p 0 a" "km_mem s pte = pte_of (km_mem s) root a"
      and nz: "pte \<noteq> 0" "km_mem s pte AND PTE_V \<noteq> 0" using v n by blast
    let ?f = "PTE2PA (pte_of (km_mem s) root a)"
    have fl: "PTE_FLAGS (km_mem s pte) \<noteq> PTE_V" and fr: "do_free \<Longrightarrow> used_frame k s ?f \<and> ?f \<notin> pt_tables (km_mem s) root"
      using pre False a(2) p(3) by (auto simp: unmap_pre_def)
    have frames: "unmap_frames s root (unat a) (unat a + 4096) = {?f}"
    proof (intro equalityI subsetI)
      fix f assume "f \<in> unmap_frames s root (unat a) (unat a + 4096)"
      then show "f \<in> {?f}"
        unfolding unmap_frames_def using page by fastforce
    next
      fix f assume "f \<in> {?f}"
      then show "f \<in> unmap_frames s root (unat a) (unat a + 4096)"
        unfolding unmap_frames_def using False a(2) by auto
    qed
    obtain s1 where s1: "(if do_free then kfree k s ?f else Ok s) = Ok s1" "vm_ok k s1 root"
      "node0 (km_mem s1) root = node0 (km_mem s) root" "pte_of (km_mem s1) root = pte_of (km_mem s) root"
      "pt_tables (km_mem s1) root = pt_tables (km_mem s) root"
      "\<And>q. q \<in> good_pages (ke_end k) \<Longrightarrow> krefs s1 q = (if do_free \<and> q = ?f then krefs s ?f - 1 else krefs s q)"
    proof (cases do_free)
      case True
      with fr obtain s1 where "kfree k s ?f = Ok s1" "vm_ok k s1 root" "node0 (km_mem s1) root = node0 (km_mem s) root"
        "pte_of (km_mem s1) root = pte_of (km_mem s) root" "pt_tables (km_mem s1) root = pt_tables (km_mem s) root"
        "\<And>q. q \<in> good_pages (ke_end k) \<Longrightarrow> krefs s1 q = (if q = ?f then krefs s ?f - 1 else krefs s q)"
        using kfree_frame [OF ok] by metis
      with True show thesis by (intro that [of s1]) simp_all
    next
      case False
      with ok show thesis by (intro that [of s]) simp_all
    qed
    have p1: "node0 (km_mem s1) root a = Some p" using s1(3) p(1) by simp
    note L = kset_leaf [OF s1(2) p1, of 0, folded p(2)]
    have "uvmunmap_loop k root a bound do_free s = uvmunmap_loop k root (a + PGSIZE) bound do_free (kset s1 pte 0)"
      using w a(3) nz fl s1(1) p(3) by (subst uvmunmap_loop.simps) (cases do_free; simp)
    moreover have "unmap_post k s root (unat a) (unat a + 4096) do_free (kset s1 pte 0)"
      unfolding unmap_post_def frames
    proof (intro conjI allI impI ballI)
      show "vm_ok k (kset s1 pte 0) root" by (rule L(1))
      show "krefs (kset s1 pte 0) q = (if do_free \<and> q \<in> {?f} then krefs s q - 1 else krefs s q)"
        if "q \<in> good_pages (ke_end k)" for q
        using L(4) s1(6) [OF that] by auto
      show "pt_tables (km_mem (kset s1 pte 0)) root = pt_tables (km_mem s) root"
        using pt_set_leaf(4) [of "km_mem s1" root a p 0] s1(2,5) p1 p(2) by (simp add: vm_ok_def kset_def)
      show "pte_of (km_mem (kset s1 pte 0)) root va =
          (if unat a \<le> unat va \<and> unat va < unat a + 4096 \<and> pte_of (km_mem s) root va AND PTE_V \<noteq> 0 then 0
           else pte_of (km_mem s) root va)" if "va < MAXVA" for va
      proof (cases "unat a \<le> unat va \<and> unat va < unat a + 4096")
        case True
        with L(3) [of va] page_range_first [OF a(1,2) that] page [OF that] False show ?thesis by argo
      next
        case out: False
        with L(3) [of va] page_range_first [OF a(1,2) that] s1(4) show ?thesis by auto
      qed
    qed
    ultimately show ?thesis by blast
  qed
qed

lemma unmap_pre_next:
  assumes "unmap_pre k s root lo hi do_free" and "unmap_post k s root lo mid do_free s1" and "lo \<le> mid" and "mid \<le> hi"
    and "lo mod 4096 = 0" and "mid = lo + 4096"
  shows "unmap_pre k s1 root mid hi do_free" and "unmap_frames s1 root mid hi = unmap_frames s root mid hi"
    and "do_free \<Longrightarrow> unmap_frames s root lo mid \<inter> unmap_frames s root mid hi = {}"
proof -
  have same: "pte_of (km_mem s1) root va = pte_of (km_mem s) root va" if "va < MAXVA" "mid \<le> unat va" for va
    using assms(2) that unfolding unmap_post_def by auto
  then show "unmap_frames s1 root mid hi = unmap_frames s root mid hi"
    unfolding unmap_frames_def by (metis (mono_tags, opaque_lifting))
  have ne: "PGROUNDDOWN va \<noteq> PGROUNDDOWN vb"
    if "lo \<le> unat va" "unat va < mid" "mid \<le> unat vb" for va vb
  proof
    assume "PGROUNDDOWN va = PGROUNDDOWN vb"
    then have "unat va div 4096 = unat vb div 4096"
      by (metis unat_PGROUNDDOWN mult_cancel2 zero_neq_numeral)
    moreover have "unat va div 4096 < mid div 4096" "mid div 4096 \<le> unat vb div 4096"
      using that assms(5,6) by (auto intro: div_le_mono)
    ultimately show False by simp
  qed
  have disj: "PTE2PA (pte_of (km_mem s) root va) \<noteq> PTE2PA (pte_of (km_mem s) root vb)"
    if "do_free" "va < MAXVA" "vb < MAXVA" "lo \<le> unat va" "unat va < mid" "mid \<le> unat vb" "unat vb < hi"
      "pte_of (km_mem s) root va AND PTE_V \<noteq> 0" "pte_of (km_mem s) root vb AND PTE_V \<noteq> 0" for va vb
  proof
    assume eq: "PTE2PA (pte_of (km_mem s) root va) = PTE2PA (pte_of (km_mem s) root vb)"
    have "unat va < hi" "lo \<le> unat vb" using that assms(3,4) by linarith+
    with assms(1) that eq have "PGROUNDDOWN va = PGROUNDDOWN vb" unfolding unmap_pre_def by blast
    with ne that show False by blast
  qed
  then show "do_free \<Longrightarrow> unmap_frames s root lo mid \<inter> unmap_frames s root mid hi = {}"
    unfolding unmap_frames_def by blast
  have used: "used_frame k s1 (PTE2PA (pte_of (km_mem s) root vb))"
    if "do_free" "vb < MAXVA" "mid \<le> unat vb" "unat vb < hi" "pte_of (km_mem s) root vb AND PTE_V \<noteq> 0" for vb
  proof -
    let ?f = "PTE2PA (pte_of (km_mem s) root vb)"
    have "lo \<le> unat vb" using that(3) assms(3) by linarith
    then have u: "used_frame k s ?f" using assms(1) that unfolding unmap_pre_def by blast
    have "?f \<notin> unmap_frames s root lo mid"
    proof
      assume "?f \<in> unmap_frames s root lo mid"
      then obtain va where "va < MAXVA" "lo \<le> unat va" "unat va < mid" "pte_of (km_mem s) root va AND PTE_V \<noteq> 0"
        "PTE2PA (pte_of (km_mem s) root va) = ?f"
        by (auto simp: unmap_frames_def)
      with that disj [of va vb] show False by blast
    qed
    then have "krefs s1 ?f = krefs s ?f"
      using u assms(2) unfolding used_frame_def unmap_post_def by metis
    with u show ?thesis by (simp add: used_frame_def)
  qed
  show "unmap_pre k s1 root mid hi do_free"
    unfolding unmap_pre_def
  proof (intro conjI allI impI)
    have T: "pt_tables (km_mem s1) root = pt_tables (km_mem s) root"
      using assms(2) by (simp add: unmap_post_def)
    fix va assume va: "va < MAXVA" "mid \<le> unat va \<and> unat va < hi \<and> pte_of (km_mem s1) root va AND PTE_V \<noteq> 0"
    then have e: "pte_of (km_mem s1) root va = pte_of (km_mem s) root va" using same by blast
    have va': "lo \<le> unat va" "unat va < hi" "pte_of (km_mem s) root va AND PTE_V \<noteq> 0"
      using va e assms(3) by (linarith, simp_all)
    show "PTE_FLAGS (pte_of (km_mem s1) root va) \<noteq> PTE_V"
      unfolding e using assms(1) va(1) va' unfolding unmap_pre_def by blast
    assume df: do_free
    show "used_frame k s1 (PTE2PA (pte_of (km_mem s1) root va))"
      unfolding e using used [OF df va(1) _ va'(2,3)] va(2) by blast
    show "PTE2PA (pte_of (km_mem s1) root va) \<notin> pt_tables (km_mem s1) root"
      unfolding e T using assms(1) va(1) va' df unfolding unmap_pre_def by blast
  next
    fix va vb assume df: do_free and va: "va < MAXVA" "vb < MAXVA"
      and r: "mid \<le> unat va \<and> unat va < hi \<and> mid \<le> unat vb \<and> unat vb < hi \<and>
        pte_of (km_mem s1) root va AND PTE_V \<noteq> 0 \<and> pte_of (km_mem s1) root vb AND PTE_V \<noteq> 0 \<and>
        PTE2PA (pte_of (km_mem s1) root va) = PTE2PA (pte_of (km_mem s1) root vb)"
    then have e: "pte_of (km_mem s1) root va = pte_of (km_mem s) root va" "pte_of (km_mem s1) root vb = pte_of (km_mem s) root vb"
      using same by blast+
    have "lo \<le> unat va" "lo \<le> unat vb" using r assms(3) by linarith+
    with assms(1) df va r e show "PGROUNDDOWN va = PGROUNDDOWN vb"
      unfolding unmap_pre_def by metis
  qed
qed

lemma unmap_post_append:
  assumes "unmap_post k s root lo mid do_free s1" and "unmap_post k s1 root mid hi do_free s2"
    and "lo \<le> mid" and "mid \<le> hi" and "unmap_frames s1 root mid hi = unmap_frames s root mid hi"
    and "do_free \<Longrightarrow> unmap_frames s root lo mid \<inter> unmap_frames s root mid hi = {}"
  shows "unmap_post k s root lo hi do_free s2"
proof -
  have un: "unmap_frames s root lo hi = unmap_frames s root lo mid \<union> unmap_frames s root mid hi"
    using assms(3,4) unfolding unmap_frames_def by (auto; force)
  have "krefs s2 q = (if do_free \<and> q \<in> unmap_frames s root lo hi then krefs s q - 1 else krefs s q)"
    if "q \<in> good_pages (ke_end k)" for q
    using assms(1,2,5,6) that unfolding unmap_post_def un by auto
  moreover have "pte_of (km_mem s2) root va =
      (if lo \<le> unat va \<and> unat va < hi \<and> pte_of (km_mem s) root va AND PTE_V \<noteq> 0 then 0
       else pte_of (km_mem s) root va)" if "va < MAXVA" for va
    using assms(1-4) that unfolding unmap_post_def by auto
  ultimately show ?thesis
    using assms(1,2) unfolding unmap_post_def by simp
qed

lemma uvmunmap_loop_ok:
  assumes "vm_ok k s root" and "page_aligned a" and "unat bound = unat a + 4096 * n" and "bound \<le> MAXVA"
    and "unmap_pre k s root (unat a) (unat bound) do_free"
  shows "\<exists>s'. uvmunmap_loop k root a bound do_free s = Ok s' \<and> unmap_post k s root (unat a) (unat bound) do_free s'"
  using assms
proof (induction n arbitrary: a s)
  case 0
  then have "uvmunmap_loop k root a bound do_free s = Ok s"
    by (subst uvmunmap_loop.simps) (simp add: word_less_nat_alt)
  moreover have "unmap_post k s root (unat a) (unat bound) do_free s"
    using 0 by (auto simp: unmap_post_def unmap_frames_def)
  ultimately show ?case by blast
next
  case (Suc n)
  have a: "a < MAXVA" "a < bound" using Suc.prems(3,4) by (simp_all add: word_less_nat_alt word_le_nat_alt)
  have hi: "unat a + 4096 \<le> unat bound" using Suc.prems(3) by simp
  obtain s1 where s1: "uvmunmap_loop k root a bound do_free s = uvmunmap_loop k root (a + PGSIZE) bound do_free s1"
    and P: "unmap_post k s root (unat a) (unat a + 4096) do_free s1"
    using unmap_page [OF Suc.prems(1,2) a Suc.prems(5) hi] by blast
  have "unat a mod 4096 = 0" using Suc.prems(2) by (simp add: page_aligned_unat)
  note N = unmap_pre_next [OF Suc.prems(5) P _ hi this refl]
  have u: "unat (a + PGSIZE) = unat a + 4096" using unat_page_step [OF a(1)] .
  have "\<exists>s'. uvmunmap_loop k root (a + PGSIZE) bound do_free s1 = Ok s' \<and>
      unmap_post k s1 root (unat (a + PGSIZE)) (unat bound) do_free s'"
    using Suc.prems P N(1) u page_aligned_step [OF _ a(1)] by (intro Suc.IH) (auto simp: unmap_post_def)
  then obtain s' where "uvmunmap_loop k root (a + PGSIZE) bound do_free s1 = Ok s'"
    "unmap_post k s1 root (unat a + 4096) (unat bound) do_free s'" unfolding u by blast
  with s1 unmap_post_append [OF P _ _ hi N(2,3)] show ?case by auto
qed

section \<open>Properties\<close>

text \<open>
  \<^verbatim>\<open>walk\<close> with \<open>alloc\<close> set never panics below \<^verbatim>\<open>MAXVA\<close>; it keeps the page table a tree of page
  frames in use and changes no translation and no frame in use outside the table. It returns zero
  only when no page frame is free, and otherwise the address of the entry of \<open>va\<close>.
\<close>

theorem walk_alloc_correct:
  assumes "vm_ok k s root" and "va < MAXVA"
  shows "\<exists>pte s'. walk k root va True s = Ok (pte, s') \<and> vm_ok k s' root \<and> grows k root s s' \<and>
    pte_of (km_mem s') root = pte_of (km_mem s) root \<and>
    (if pte = 0 then no_free_frame k s' else km_mem s' pte = pte_of (km_mem s') root va)"
proof (rule walk_alloc_ok [OF assms])
  fix s1 p
  assume "walk k root va True s = Ok (slot p 0 va, s1)" "slot p 0 va \<noteq> 0" "vm_ok k s1 root"
    "grows k root s s1" "pte_of (km_mem s1) root = pte_of (km_mem s) root"
    "node0 (km_mem s1) root va = Some p" "km_mem s1 (slot p 0 va) = pte_of (km_mem s) root va"
  then show ?thesis by (intro exI [of _ "slot p 0 va"] exI [of _ s1]) simp
qed auto

text \<open>An empty page table in the last frame, and the two frames below it free.\<close>

definition vm_env :: kenv where
  "vm_env = \<lparr>ke_end = 0x805FD000, ke_hart = 0, ke_etext = 0x80030000, ke_trampoline = 0x8002F000,
     ke_sigtramp = 0x8002E000\<rparr>"

definition vm_boot :: kmem where
  "vm_boot = \<lparr>km_mem = (\<lambda>a. if a = 0x805FD000 then 0x805FE000 else 0),
     km_freelist = (\<lambda>c. if c = 0 then 0x805FD000 else 0),
     km_quota = (\<lambda>f. if f = 0x805FF then 1 else 0)\<rparr>"

lemma vm_env_frames: "good_pages (ke_end vm_env) = {0x805FD000, 0x805FE000, 0x805FF000}"
proof
  show "good_pages (ke_end vm_env) \<subseteq> {0x805FD000, 0x805FE000, 0x805FF000}"
  proof
    fix pa :: u64
    assume pa: "pa \<in> good_pages (ke_end vm_env)"
    then have r: "0x805FD000 \<le> unat pa" "unat pa < 0x80600000"
      by (auto simp: good_pages_def bad_page_def vm_env_def word_less_nat_alt word_le_nat_alt)
    have "unat pa mod 4096 = 0"
      using good_pages_aligned [OF pa] by (simp add: page_aligned_unat)
    then obtain c where c: "unat pa = 4096 * c" by (auto simp: mod_eq_0_iff_dvd)
    with r have "c = 525821 \<or> c = 525822 \<or> c = 525823" by linarith
    with c show "pa \<in> {0x805FD000, 0x805FE000, 0x805FF000}"
      by (auto simp: word_unat_eq_iff)
  qed
qed (auto simp: good_pages_def bad_page_def vm_env_def)

lemma vm_boot_ok: "vm_ok vm_env vm_boot 0x805FF000"
proof -
  let ?m = "km_mem vm_boot" and ?r = "0x805FF000 :: u64"
  have z: "?m (slot ?r l va) = 0" for l va
  proof -
    have "in_page ?r (slot ?r l va)" by (rule slot_in_page) (simp add: page_aligned_def)
    then have "slot ?r l va \<noteq> 0x805FD000" by (auto simp: in_page_def)
    then show ?thesis by (simp add: vm_boot_def)
  qed
  then have n: "node1 ?m ?r va = None" "node0 ?m ?r va = None" for va
    by (simp_all add: node0_def node1_def pt_child_def)
  have N: "{..<NCPU} = {0, 1}" by auto
  have "kalloc_ok 0x805FD000 vm_boot (\<lambda>c. if c = 0 then [0x805FD000, 0x805FE000] else [])"
    using vm_env_frames
    by (auto simp: kalloc_ok_def vm_boot_def free_lists_def free_of_def N vm_env_def)
  then have "kalloc_inv (ke_end vm_env) vm_boot"
    by (auto simp: kalloc_inv_def vm_env_def)
  moreover have "used_frame vm_env vm_boot ?r"
    unfolding used_frame_def vm_env_frames by (simp add: krefs_def vm_boot_def)
  ultimately show ?thesis
    by (simp add: vm_ok_def pt_wf_def pt_tables_def n page_aligned_def) (simp add: vm_env_def)
qed

theorem walk_alloc_correct_witness:
  "\<exists>pte s'. walk vm_env 0x805FF000 0x1234567 True vm_boot = Ok (pte, s') \<and> vm_ok vm_env s' 0x805FF000 \<and>
     (if pte = 0 then no_free_frame vm_env s' else km_mem s' pte = pte_of (km_mem s') 0x805FF000 0x1234567)"
proof -
  have "(0x1234567 :: u64) < MAXVA" by simp
  from walk_alloc_correct [OF vm_boot_ok this] show ?thesis by blast
qed

text \<open>
  C1: \<^verbatim>\<open>mappages\<close> on a range without valid entries never panics. When it returns 0, each page of the
  range translates to the corresponding page from \<open>pa\<close> on, with the permissions asked for, and every
  other address translates as before; when it returns -1, no page frame is free and addresses
  outside the range translate as before. The table stays well formed and no frame in use outside
  the table is written.
\<close>

theorem mappages_correct:
  assumes "vm_ok k s root" and "0 < sz" and "unat va + unat sz \<le> 0x4000000000"
    and "\<And>v. PGROUNDDOWN va \<le> v \<Longrightarrow> PGROUNDDOWN v \<le> PGROUNDDOWN (va + sz - 1) \<Longrightarrow>
      pte_of (km_mem s) root v AND PTE_V = 0"
  shows "\<exists>r s'. mappages k root va sz pa perm s = Ok (r, s') \<and> vm_ok k s' root \<and> grows k root s s' \<and>
    (r = 0 \<or> r = -1 \<and> no_free_frame k s') \<and>
    (\<forall>v < MAXVA. pte_of (km_mem s') root v =
       (if PGROUNDDOWN va \<le> v \<and> PGROUNDDOWN v \<le> PGROUNDDOWN (va + sz - 1)
        then if r = 0 then PA2PTE (pa + (PGROUNDDOWN v - PGROUNDDOWN va)) OR perm OR PTE_V
             else pte_of (km_mem s') root v
        else pte_of (km_mem s) root v))"
proof -
  let ?a = "PGROUNDDOWN va" and ?l = "PGROUNDDOWN (va + sz - 1)"
  have range: "?a \<le> v \<and> PGROUNDDOWN v \<le> ?l \<longleftrightarrow> unat ?a \<le> unat v \<and> unat v < unat ?l + 4096" for v
  proof -
    have "unat (PGROUNDDOWN v) \<le> unat ?l \<longleftrightarrow> unat v < unat ?l + 4096"
      unfolding unat_PGROUNDDOWN by auto
    then show ?thesis by (simp add: word_le_nat_alt)
  qed
  have free: "pte_of (km_mem s) root v AND PTE_V = 0" if "unat ?a \<le> unat v" "unat v < unat ?l + 4096" for v
    using assms(4) [of v] range [of v] that by blast
  obtain n r s' where M: "mappages k root va sz pa perm s = Ok (r, s')"
    and P: "map_post k root s ?a (Suc n) pa perm r s'" and n: "unat ?l = unat ?a + 4096 * n"
    using mappages_ok [OF assms(1-3) free] by blast
  obtain j where j: "r = 0 \<and> j = Suc n \<or> r = -1 \<and> j < Suc n \<and> no_free_frame k s'"
    and m: "\<forall>v < MAXVA. pte_of (km_mem s') root v = pt_map (pte_of (km_mem s) root) ?a (4096 * j) pa perm v"
    using P by (auto simp: map_post_def)
  have "pte_of (km_mem s') root v = (if ?a \<le> v \<and> PGROUNDDOWN v \<le> ?l
        then if r = 0 then PA2PTE (pa + (PGROUNDDOWN v - ?a)) OR perm OR PTE_V
             else pte_of (km_mem s') root v
        else pte_of (km_mem s) root v)" if "v < MAXVA" for v
    using m [rule_format, OF that] j n unfolding range pt_map_def by (auto split: if_splits)
  with M P j show ?thesis by (auto simp: map_post_def)
qed

lemma vm_boot_empty: "pte_of (km_mem vm_boot) 0x805FF000 va = 0"
proof -
  let ?m = "km_mem vm_boot" and ?r = "0x805FF000 :: u64"
  have "in_page ?r (slot ?r 2 va)" by (rule slot_in_page) (simp add: page_aligned_def)
  then have "slot ?r 2 va \<noteq> 0x805FD000" by (auto simp: in_page_def)
  then show ?thesis by (simp add: pte_of_def node0_def node1_def pt_child_def vm_boot_def)
qed

theorem mappages_correct_witness:
  "\<exists>r s'. mappages vm_env 0x805FF000 0x1000 0x1000 0x80000000 PTE_R vm_boot = Ok (r, s') \<and>
     vm_ok vm_env s' 0x805FF000 \<and> (r = 0 \<or> r = -1 \<and> no_free_frame vm_env s') \<and>
     pte_of (km_mem s') 0x805FF000 0x5000 = 0"
proof -
  let ?P = "PGROUNDDOWN"
  have p: "?P 0x1000 = 0x1000" "?P 0x1FFF = 0x1000" "?P 0x5000 = 0x5000"
    by (simp_all add: PGROUNDDOWN_def)
  obtain r s' where A: "mappages vm_env 0x805FF000 0x1000 0x1000 0x80000000 PTE_R vm_boot = Ok (r, s')"
    "vm_ok vm_env s' 0x805FF000" "r = 0 \<or> r = -1 \<and> no_free_frame vm_env s'"
    and B: "\<And>v. v < MAXVA \<Longrightarrow> pte_of (km_mem s') 0x805FF000 v =
       (if ?P 0x1000 \<le> v \<and> ?P v \<le> ?P (0x1000 + 0x1000 - 1)
        then if r = 0 then PA2PTE (0x80000000 + (?P v - ?P 0x1000)) OR PTE_R OR PTE_V
             else pte_of (km_mem s') 0x805FF000 v
        else pte_of (km_mem vm_boot) 0x805FF000 v)"
    using mappages_correct [OF vm_boot_ok, of "0x1000" "0x1000" "0x80000000" PTE_R] vm_boot_empty by auto
  have "pte_of (km_mem s') 0x805FF000 0x5000 = 0"
    using B [of "0x5000"] by (simp add: p vm_boot_empty)
  with A show ?thesis by blast
qed



end
