(* ===== verification/Proc.thy ===== *)
theory Proc
  imports Vm
begin

text \<open>
  The process table of \<^verbatim>\<open>kernel/include/proc.h\<close>: \<^verbatim>\<open>struct trapframe\<close>, \<^verbatim>\<open>struct vma_area\<close>,
  \<^verbatim>\<open>struct proc\<close> and \<^verbatim>\<open>struct cpu\<close>, and the boot-time state of the table.

  A pointer to a process is its index in \<^verbatim>\<open>proc[]\<close> (\<open>None\<close> for null), a pointer to an open file, a
  directory entry or an mmap object is an index into the table that holds it. \<^verbatim>\<open>int\<close> fields that the
  code only tests against zero are \<open>bool\<close>; counters of type \<^verbatim>\<open>uint\<close> are words and wrap. The trapframe
  page of a process is its own field, beside the address \<open>p_trapframe_pa\<close> of the page. Kernel
  contexts (\<^verbatim>\<open>swtch\<close>) and the lock words are not part of the state: a critical section is one step.
\<close>

abbreviation (input) NPROC :: nat where "NPROC \<equiv> 64"
abbreviation (input) NOFILE :: nat where "NOFILE \<equiv> 16"
abbreviation (input) NVMA :: nat where "NVMA \<equiv> 16"
abbreviation (input) NSIG :: nat where "NSIG \<equiv> 32"

record trapframe =
  kernel_satp :: u64
  kernel_sp :: u64
  kernel_trap :: u64
  tf_epc :: u64
  kernel_hartid :: u64
  tf_ra :: u64
  tf_sp :: u64
  tf_gp :: u64
  tf_tp :: u64
  tf_t0 :: u64
  tf_t1 :: u64
  tf_t2 :: u64
  tf_s0 :: u64
  tf_s1 :: u64
  tf_a0 :: u64
  tf_a1 :: u64
  tf_a2 :: u64
  tf_a3 :: u64
  tf_a4 :: u64
  tf_a5 :: u64
  tf_a6 :: u64
  tf_a7 :: u64
  tf_s2 :: u64
  tf_s3 :: u64
  tf_s4 :: u64
  tf_s5 :: u64
  tf_s6 :: u64
  tf_s7 :: u64
  tf_s8 :: u64
  tf_s9 :: u64
  tf_s10 :: u64
  tf_s11 :: u64
  tf_t3 :: u64
  tf_t4 :: u64
  tf_t5 :: u64
  tf_t6 :: u64

definition tf_zero :: trapframe where
  "tf_zero = \<lparr>kernel_satp = 0, kernel_sp = 0, kernel_trap = 0, tf_epc = 0, kernel_hartid = 0, tf_ra = 0,
     tf_sp = 0, tf_gp = 0, tf_tp = 0, tf_t0 = 0, tf_t1 = 0, tf_t2 = 0, tf_s0 = 0, tf_s1 = 0, tf_a0 = 0,
     tf_a1 = 0, tf_a2 = 0, tf_a3 = 0, tf_a4 = 0, tf_a5 = 0, tf_a6 = 0, tf_a7 = 0, tf_s2 = 0, tf_s3 = 0,
     tf_s4 = 0, tf_s5 = 0, tf_s6 = 0, tf_s7 = 0, tf_s8 = 0, tf_s9 = 0, tf_s10 = 0, tf_s11 = 0, tf_t3 = 0,
     tf_t4 = 0, tf_t5 = 0, tf_t6 = 0\<rparr>"

datatype procstate = UNUSED | SLEEPING | RUNNABLE | RUNNING | ZOMBIE

datatype vma_type = VMA_FILE | VMA_ANON | VMA_KBUF

text \<open>The fault handlers that the mmap back ends install; \<open>OPS_NONE\<close> is the null pointer.\<close>

datatype vma_ops = OPS_NONE | OPS_FILE | OPS_ANON | OPS_KBUF

record vma_area =
  v_used :: bool
  v_type :: vma_type
  v_start :: u64
  v_end :: u64
  v_valid_end :: u64
  v_offset :: u64
  v_prot :: u32
  v_flags :: u32
  v_populate :: bool
  v_object :: "nat option"
  v_ops :: vma_ops

text \<open>\<^verbatim>\<open>memset(vma, 0, sizeof(*vma))\<close>; the enumerator 0 of \<^verbatim>\<open>enum vma_type\<close> is \<^verbatim>\<open>VMA_FILE\<close>.\<close>

definition vma_zero :: vma_area where
  "vma_zero = \<lparr>v_used = False, v_type = VMA_FILE, v_start = 0, v_end = 0, v_valid_end = 0, v_offset = 0,
     v_prot = 0, v_flags = 0, v_populate = False, v_object = None, v_ops = OPS_NONE\<rparr>"

datatype wakeup_kind = WAKEUP_NORMAL | WAKEUP_TIMER | WAKEUP_IO | WAKEUP_DEVICE

record proc =
  p_state :: procstate
  p_parent :: "nat option"
  p_chan :: u64
  p_killed :: bool
  p_xstate :: int
  p_pid :: int
  p_pgid :: int
  p_kstack :: u64
  p_sz :: u64
  p_pagetable :: u64
  p_kpagetable :: u64
  p_trapframe_pa :: u64
  p_trapframe :: trapframe
  p_ofile :: "nat option list"
  p_cwd :: "nat option"
  p_name :: string
  p_trace_mask :: u32
  p_vmas :: "vma_area list"
  p_queue_level :: int
  p_sched_ticks :: int
  p_total_run_ticks :: u32
  p_wait_ticks :: u32
  p_preempt_count :: u32
  p_boost_count :: u32
  p_io_wakeup_count :: u32
  p_device_wakeup_count :: u32
  p_last_wakeup_reason :: wakeup_kind
  p_sig_pending :: u32
  p_sig_mask :: u32
  p_sig_handlers :: "u64 list"
  p_sig_handling :: bool
  p_sig_current :: int
  p_sig_term :: int
  p_interruptible_sleep :: bool
  p_sig_saved_trapframe :: trapframe
  p_copy_fault_active :: bool
  p_copy_fault_recovery :: u64

definition proc_zero :: proc where
  "proc_zero = \<lparr>p_state = UNUSED, p_parent = None, p_chan = 0, p_killed = False, p_xstate = 0, p_pid = 0,
     p_pgid = 0, p_kstack = 0, p_sz = 0, p_pagetable = 0, p_kpagetable = 0, p_trapframe_pa = 0,
     p_trapframe = tf_zero, p_ofile = replicate NOFILE None, p_cwd = None, p_name = [], p_trace_mask = 0,
     p_vmas = replicate NVMA vma_zero, p_queue_level = 0, p_sched_ticks = 0, p_total_run_ticks = 0,
     p_wait_ticks = 0, p_preempt_count = 0, p_boost_count = 0, p_io_wakeup_count = 0,
     p_device_wakeup_count = 0, p_last_wakeup_reason = WAKEUP_NORMAL, p_sig_pending = 0, p_sig_mask = 0,
     p_sig_handlers = replicate NSIG 0, p_sig_handling = False, p_sig_current = 0, p_sig_term = 0,
     p_interruptible_sleep = False, p_sig_saved_trapframe = tf_zero, p_copy_fault_active = False,
     p_copy_fault_recovery = 0\<rparr>"

text \<open>The fields of \<^verbatim>\<open>struct cpu\<close> that scheduling uses.\<close>

record cpu =
  c_proc :: "nat option"
  c_noff :: int
  c_intena :: bool
  c_need_resched :: bool

definition cpu_zero :: cpu where
  "cpu_zero = \<lparr>c_proc = None, c_noff = 0, c_intena = False, c_need_resched = False\<rparr>"

section \<open>Tables scanned slot by slot\<close>

text \<open>
  \<open>map_idx f xs\<close> applies \<open>f i\<close> to the entry in slot \<open>i\<close>: the loops that update every entry of a
  table under its own lock.
\<close>

definition map_idx :: "(nat \<Rightarrow> 'a \<Rightarrow> 'a) \<Rightarrow> 'a list \<Rightarrow> 'a list" where
  "map_idx f xs = map (\<lambda>(i, x). f i x) (enumerate 0 xs)"

lemma length_map_idx [simp]: "length (map_idx f xs) = length xs"
  by (simp add: map_idx_def)

lemma nth_map_idx [simp]: "i < length xs \<Longrightarrow> map_idx f xs ! i = f i (xs ! i)"
  by (simp add: map_idx_def nth_enumerate_eq)

lemma in_set_map_idx: "y \<in> set (map_idx f xs) \<longleftrightarrow> (\<exists>i < length xs. y = f i (xs ! i))"
  by (metis in_set_conv_nth length_map_idx nth_map_idx)

text \<open>The first slot whose entry satisfies a test.\<close>

definition find_slot :: "('a \<Rightarrow> bool) \<Rightarrow> 'a list \<Rightarrow> nat option" where
  "find_slot P xs = first_idx (\<lambda>i. P (xs ! i)) [0..<length xs]"

lemma find_slot_None: "find_slot P xs = None \<longleftrightarrow> (\<forall>x \<in> set xs. \<not> P x)"
  by (auto simp: find_slot_def all_set_conv_all_nth)

lemma find_slot_Some:
  "find_slot P xs = Some i \<longleftrightarrow> i < length xs \<and> P (xs ! i) \<and> (\<forall>j < i. \<not> P (xs ! j))"
  by (simp add: find_slot_def first_idx_upt_iff)

end
