(* ===== verification/Signal.thy ===== *)
theory Signal
  imports Proc
begin

text \<open>
  \<^verbatim>\<open>kernel/proc/signal.c\<close>: pending sets, masks, handlers, delivery and return of signals. Operations on
  one process take and return its \<open>proc\<close> record; operations on the table take and return the list
  of processes. The validity of a handler address is read from the page table, through \<open>walk\<close>.
\<close>

abbreviation (input) SIGINT :: int where "SIGINT \<equiv> 2"
abbreviation (input) SIGKILL :: int where "SIGKILL \<equiv> 9"
abbreviation (input) SIGPIPE :: int where "SIGPIPE \<equiv> 13"
abbreviation (input) SIGCHLD :: int where "SIGCHLD \<equiv> 17"
abbreviation (input) SIG_DFL :: u64 where "SIG_DFL \<equiv> 0"
abbreviation (input) SIG_IGN :: u64 where "SIG_IGN \<equiv> 1"
abbreviation (input) SIG_ERR :: u64 where "SIG_ERR \<equiv> - 1"

section \<open>Operations\<close>

definition signal_valid :: "int \<Rightarrow> bool" where
  "signal_valid signum \<longleftrightarrow> 0 < signum \<and> signum < 32"

definition signal_bit :: "int \<Rightarrow> u32" where
  "signal_bit signum = push_bit (nat signum) 1"

text \<open>Below \<^verbatim>\<open>MAXUVA\<close> the walk cannot panic; the machine state is only read.\<close>

definition signal_handler_valid :: "kenv \<Rightarrow> kmem \<Rightarrow> proc \<Rightarrow> u64 \<Rightarrow> bool" where
  "signal_handler_valid k s p handler =
     (if MAXUVA \<le> handler then False
      else case walk k (p_pagetable p) handler False s of
             Panic _ \<Rightarrow> False
           | Ok (pte, s1) \<Rightarrow>
               pte \<noteq> 0 \<and> km_mem s1 pte AND (PTE_V OR PTE_U OR PTE_X) = (PTE_V OR PTE_U OR PTE_X))"

definition signal_default_ignored :: "int \<Rightarrow> bool" where
  "signal_default_ignored signum \<longleftrightarrow> signum = SIGCHLD"

definition signal_proc_init :: "proc \<Rightarrow> proc" where
  "signal_proc_init p = p\<lparr>p_sig_pending := 0, p_sig_mask := 0, p_sig_handlers := replicate NSIG 0,
     p_sig_handling := False, p_sig_current := 0, p_sig_term := 0, p_interruptible_sleep := False,
     p_sig_saved_trapframe := tf_zero\<rparr>"

definition signal_proc_fork :: "proc \<Rightarrow> proc \<Rightarrow> proc" where
  "signal_proc_fork parent child = child\<lparr>p_sig_pending := 0, p_sig_mask := p_sig_mask parent,
     p_sig_handlers := p_sig_handlers parent, p_sig_handling := False, p_sig_current := 0,
     p_sig_term := 0, p_interruptible_sleep := False, p_sig_saved_trapframe := tf_zero\<rparr>"

definition signal_reset_on_exec :: "proc \<Rightarrow> proc" where
  "signal_reset_on_exec p =
     (let handlers = map_idx (\<lambda>signum h. if 1 \<le> signum \<and> h \<noteq> SIG_IGN then SIG_DFL else h) (p_sig_handlers p)
      in p\<lparr>p_sig_handlers := handlers, p_sig_pending := 0, p_sig_mask := 0, p_sig_handling := False,
           p_sig_current := 0, p_sig_term := 0, p_sig_saved_trapframe := tf_zero\<rparr>)"

definition sig_ignored :: "u64 \<Rightarrow> int \<Rightarrow> bool" where
  "sig_ignored handler signum \<longleftrightarrow> handler = SIG_IGN \<or> handler = SIG_DFL \<and> signal_default_ignored signum"

definition signal_set_handler :: "kenv \<Rightarrow> kmem \<Rightarrow> proc \<Rightarrow> int \<Rightarrow> u64 \<Rightarrow> u64 \<times> proc" where
  "signal_set_handler k s p signum handler =
     (if \<not> signal_valid signum then (SIG_ERR, p)
      else if signum = SIGKILL then (SIG_ERR, p)
      else if handler \<noteq> SIG_DFL \<and> handler \<noteq> SIG_IGN \<and> \<not> signal_handler_valid k s p handler then (SIG_ERR, p)
      else
        let old = p_sig_handlers p ! nat signum;
            p1 = p\<lparr>p_sig_handlers := (p_sig_handlers p)[nat signum := handler]\<rparr>;
            p2 = (if sig_ignored handler signum
                  then p1\<lparr>p_sig_pending := p_sig_pending p1 AND NOT (signal_bit signum)\<rparr> else p1)
        in (old, p2))"

definition signal_mark_locked :: "proc \<Rightarrow> int \<Rightarrow> proc" where
  "signal_mark_locked p signum =
     (let handler = p_sig_handlers p ! nat signum
      in if sig_ignored handler signum then p
         else
           let p1 = p\<lparr>p_sig_pending := p_sig_pending p OR signal_bit signum\<rparr>;
               p2 = (if signum = SIGKILL then p1\<lparr>p_sig_term := signum, p_killed := True\<rparr> else p1)
           in if p_state p2 = SLEEPING \<and> p_interruptible_sleep p2 then p2\<lparr>p_state := RUNNABLE\<rparr> else p2)"

definition signal_send_locked :: "proc \<Rightarrow> int \<Rightarrow> int \<times> proc" where
  "signal_send_locked p signum =
     (if p_state p = UNUSED \<or> \<not> signal_valid signum then (-1, p) else (0, signal_mark_locked p signum))"

definition signal_send_pid :: "proc list \<Rightarrow> int \<Rightarrow> int \<Rightarrow> int \<times> proc list" where
  "signal_send_pid ps pid signum =
     (if pid \<le> 0 \<or> \<not> signal_valid signum then (-1, ps)
      else case find_slot (\<lambda>p. p_state p \<noteq> UNUSED \<and> p_pid p = pid) ps of
             None \<Rightarrow> (-1, ps)
           | Some i \<Rightarrow> (0, ps[i := signal_mark_locked (ps ! i) signum]))"

definition signal_send_pgrp :: "proc list \<Rightarrow> int \<Rightarrow> int \<Rightarrow> int \<times> proc list" where
  "signal_send_pgrp ps pgid signum =
     (if pgid \<le> 0 \<or> \<not> signal_valid signum then (-1, ps)
      else
        let hit = (\<lambda>p. p_state p \<noteq> UNUSED \<and> p_pgid p = pgid);
            found = list_ex hit ps
        in (if found then 0 else -1, map (\<lambda>p. if hit p then signal_mark_locked p signum else p) ps))"

definition signal_pgrp_exists :: "proc list \<Rightarrow> int \<Rightarrow> bool" where
  "signal_pgrp_exists ps pgid \<longleftrightarrow>
     \<not> pgid \<le> 0 \<and> list_ex (\<lambda>p. p_state p \<noteq> UNUSED \<and> p_pgid p = pgid) ps"

definition sig_deliverable :: "proc \<Rightarrow> u32" where
  "sig_deliverable p =
     (let pending = p_sig_pending p AND NOT (p_sig_mask p)
      in if p_sig_pending p AND signal_bit SIGKILL \<noteq> 0 then pending OR signal_bit SIGKILL else pending)"

definition signal_pending_locked :: "proc \<Rightarrow> bool" where
  "signal_pending_locked p \<longleftrightarrow> p_killed p \<or> sig_deliverable p \<noteq> 0"

definition signal_pending :: "proc \<Rightarrow> bool" where
  "signal_pending p = signal_pending_locked p"

definition signal_choose :: "u32 \<Rightarrow> int" where
  "signal_choose pending =
     (if pending AND signal_bit SIGKILL \<noteq> 0 then SIGKILL
      else case first_idx (\<lambda>signum. pending AND signal_bit (int signum) \<noteq> 0) [1..<32] of
             Some signum \<Rightarrow> int signum
           | None \<Rightarrow> 0)"

definition signal_deliver :: "kenv \<Rightarrow> kmem \<Rightarrow> proc \<Rightarrow> proc" where
  "signal_deliver k s p =
     (let pending = sig_deliverable p
      in if p_sig_handling p \<and> pending AND signal_bit SIGKILL = 0 then p
         else
           let signum = signal_choose pending
           in if signum = 0 then p
              else
                let p1 = p\<lparr>p_sig_pending := p_sig_pending p AND NOT (signal_bit signum)\<rparr>;
                    handler = p_sig_handlers p1 ! nat signum
                in if signum = SIGKILL \<or> handler = SIG_DFL \<and> \<not> signal_default_ignored signum
                   then p1\<lparr>p_sig_term := signum, p_killed := True\<rparr>
                   else if sig_ignored handler signum then p1
                   else if \<not> signal_handler_valid k s p1 handler
                   then p1\<lparr>p_sig_term := signum, p_killed := True\<rparr>
                   else p1\<lparr>p_sig_saved_trapframe := p_trapframe p1, p_sig_handling := True,
                           p_sig_current := signum, p_sig_mask := p_sig_mask p1 OR signal_bit signum,
                           p_trapframe := (p_trapframe p1)\<lparr>tf_a0 := of_int signum, tf_ra := SIGTRAMP,
                             tf_epc := handler\<rparr>\<rparr>)"

definition signal_sigreturn :: "proc \<Rightarrow> u64 \<times> proc" where
  "signal_sigreturn p =
     (if \<not> p_sig_handling p then (- 1, p)
      else
        let signum = p_sig_current p;
            a0 = tf_a0 (p_sig_saved_trapframe p);
            p1 = p\<lparr>p_trapframe := p_sig_saved_trapframe p\<rparr>;
            p2 = (if signal_valid signum
                  then p1\<lparr>p_sig_mask := p_sig_mask p1 AND NOT (signal_bit signum)\<rparr> else p1)
        in (a0, p2\<lparr>p_sig_handling := False, p_sig_current := 0, p_sig_saved_trapframe := tf_zero\<rparr>))"

definition signal_exit_status :: "proc \<Rightarrow> int" where
  "signal_exit_status p = (let signum = p_sig_term p in if signum \<noteq> 0 then - signum else -1)"

section \<open>Signal sets as bits\<close>

lemma signal_bit_iff: "0 \<le> n \<Longrightarrow> n < 32 \<Longrightarrow> bit (signal_bit n) m \<longleftrightarrow> m = nat n"
  by (auto simp: signal_bit_def bit_simps)

lemma and_signal_bit: "0 \<le> n \<Longrightarrow> n < 32 \<Longrightarrow> (w AND signal_bit n \<noteq> 0) \<longleftrightarrow> bit w (nat n)"
proof -
  assume n: "0 \<le> n" "n < 32"
  show ?thesis
  proof (cases "bit w (nat n)")
    case True
    then have "bit (w AND signal_bit n) (nat n)"
      using signal_bit_iff [OF n, of "nat n"] by (simp add: bit_and_iff)
    then show ?thesis using True by auto
  next
    case False
    have "w AND signal_bit n = 0"
      by (rule bit_eqI) (use False signal_bit_iff [OF n] in \<open>auto simp: bit_and_iff\<close>)
    then show ?thesis using False by simp
  qed
qed

lemma sigkill_bit [simp]:
  "bit (signal_bit 9) m \<longleftrightarrow> m = 9"
  "(w AND signal_bit 9 = 0) \<longleftrightarrow> \<not> bit w 9"
  using signal_bit_iff [of 9 m] and_signal_bit [of 9 w] by auto

lemma sig_deliverable_iff:
  "bit (sig_deliverable p) m \<longleftrightarrow> bit (p_sig_pending p) m \<and> (m = 9 \<or> \<not> bit (p_sig_mask p) m)"
proof (cases "m < 32")
  case True
  then show ?thesis
    by (auto simp: sig_deliverable_def Let_def bit_simps)
next
  case False
  then have "\<not> bit (w :: u32) m" for w by (simp add: bit_word_def)
  then show ?thesis by simp
qed

section \<open>Invariant\<close>

text \<open>
  The signal part of a process is consistent: every signal has a handler slot, \<^verbatim>\<open>SIGKILL\<close> has the
  default action, no pending signal is one that its handler ignores, and while a handler runs its
  signal is blocked.
\<close>

definition sig_inv :: "proc \<Rightarrow> bool" where
  "sig_inv p \<longleftrightarrow> length (p_sig_handlers p) = NSIG \<and> p_sig_handlers p ! 9 = SIG_DFL \<and>
     (\<forall>n. bit (p_sig_pending p) n \<longrightarrow> 0 < n \<and> \<not> sig_ignored (p_sig_handlers p ! n) (int n)) \<and>
     (p_sig_handling p \<longrightarrow> signal_valid (p_sig_current p) \<and> bit (p_sig_mask p) (nat (p_sig_current p)))"

lemma sig_inv_init: "sig_inv (signal_proc_init p)"
  by (simp add: sig_inv_def signal_proc_init_def)

lemma sig_inv_fork: "sig_inv parent \<Longrightarrow> sig_inv (signal_proc_fork parent child)"
  by (simp add: sig_inv_def signal_proc_fork_def)

lemma sig_inv_exec: "sig_inv p \<Longrightarrow> sig_inv (signal_reset_on_exec p)"
  by (simp add: sig_inv_def signal_reset_on_exec_def Let_def)

lemma sig_inv_set_handler:
  assumes "sig_inv p"
  shows "sig_inv (snd (signal_set_handler k s p signum handler))"
proof (cases "signal_valid signum \<and> signum \<noteq> SIGKILL")
  case True
  have v: "0 < signum" "signum < 32" "nat signum \<noteq> 9" "bit (signal_bit signum) m \<longleftrightarrow> m = nat signum" for m
    using True signal_bit_iff [of signum m] by (auto simp: signal_valid_def)
  then show ?thesis
    using assms
    by (auto simp: sig_inv_def signal_set_handler_def Let_def bit_simps nth_list_update)
next
  case False
  with assms show ?thesis by (auto simp: signal_set_handler_def)
qed

lemma sig_inv_mark:
  assumes "sig_inv p" and "signal_valid signum"
  shows "sig_inv (signal_mark_locked p signum)"
proof -
  have v: "0 < signum" "signum < 32" "bit (signal_bit signum) m \<longleftrightarrow> m = nat signum" for m
    using assms(2) signal_bit_iff [of signum m] by (auto simp: signal_valid_def)
  then show ?thesis
    using assms(1) by (auto simp: sig_inv_def signal_mark_locked_def Let_def bit_simps)
qed

section \<open>Choosing a signal\<close>

lemma signal_choose_zero: "signal_choose w = 0 \<longleftrightarrow> (\<forall>n. 1 \<le> n \<and> n < 32 \<longrightarrow> \<not> bit w n)"
proof -
  have b: "(w AND signal_bit (int n) \<noteq> 0) \<longleftrightarrow> bit w n" if "n < 32" for n
    using and_signal_bit [of "int n" w] that by simp
  show ?thesis
  proof (cases "bit w 9")
    case True
    then show ?thesis by (auto simp: signal_choose_def intro!: exI [of _ 9])
  next
    case False
    have "signal_choose w = 0 \<longleftrightarrow> first_idx (\<lambda>n. w AND signal_bit (int n) \<noteq> 0) [1..<32] = None"
      using False by (auto simp: signal_choose_def first_idx_upt_iff split: option.splits)
    also have "\<dots> \<longleftrightarrow> (\<forall>n. 1 \<le> n \<and> n < 32 \<longrightarrow> \<not> bit w n)"
      using b by (auto simp: set_upt)
    finally show ?thesis .
  qed
qed

lemma signal_choose_nonzero:
  assumes "signal_choose w = n" and "n \<noteq> 0"
  shows "signal_valid n" and "bit w (nat n)" and "n = 9 \<or> \<not> bit w 9 \<and> (\<forall>m. 1 \<le> m \<and> m < nat n \<longrightarrow> \<not> bit w m)"
proof -
  have b: "(w AND signal_bit (int n) \<noteq> 0) \<longleftrightarrow> bit w n" if "n < 32" for n
    using and_signal_bit [of "int n" w] that by simp
  have "signal_valid n \<and> bit w (nat n) \<and> (n = 9 \<or> \<not> bit w 9 \<and> (\<forall>m. 1 \<le> m \<and> m < nat n \<longrightarrow> \<not> bit w m))"
  proof (cases "bit w 9")
    case True
    with assms show ?thesis by (auto simp: signal_choose_def signal_valid_def)
  next
    case False
    with assms obtain i where i: "first_idx (\<lambda>n. w AND signal_bit (int n) \<noteq> 0) [1..<32] = Some i" "n = int i"
      by (auto simp: signal_choose_def split: option.splits)
    then have r: "1 \<le> i" "i < 32" "bit w i" and "\<forall>j. 1 \<le> j \<and> j < i \<longrightarrow> w AND signal_bit (int j) = 0"
      using b [of i] unfolding first_idx_upt_iff by auto
    then have "\<forall>j. 1 \<le> j \<and> j < i \<longrightarrow> \<not> bit w j"
      using b by (meson order.strict_trans)
    with r have "1 \<le> i" "i < 32" "bit w i" "\<forall>j. 1 \<le> j \<and> j < i \<longrightarrow> \<not> bit w j" by blast+
    with False i(2) show ?thesis by (auto simp: signal_valid_def)
  qed
  then show "signal_valid n" and "bit w (nat n)"
    and "n = 9 \<or> \<not> bit w 9 \<and> (\<forall>m. 1 \<le> m \<and> m < nat n \<longrightarrow> \<not> bit w m)" by blast+
qed

section \<open>Delivery and return\<close>

text \<open>The four outcomes of \<^verbatim>\<open>signal_deliver\<close>.\<close>

datatype delivery = Nothing | Terminate int | Discard int | Handler int

definition deliver_case :: "kenv \<Rightarrow> kmem \<Rightarrow> proc \<Rightarrow> delivery" where
  "deliver_case k s p =
     (let n = signal_choose (sig_deliverable p); h = p_sig_handlers p ! nat n
      in if n = 0 \<or> p_sig_handling p \<and> n \<noteq> SIGKILL then Nothing
         else if n = SIGKILL \<or> h = SIG_DFL \<and> \<not> signal_default_ignored n then Terminate n
         else if sig_ignored h n then Discard n
         else if signal_handler_valid k s p h then Handler n
         else Terminate n)"

definition apply_delivery :: "delivery \<Rightarrow> proc \<Rightarrow> proc" where
  "apply_delivery d p = (case d of
     Nothing \<Rightarrow> p
   | Terminate n \<Rightarrow> p\<lparr>p_sig_pending := p_sig_pending p AND NOT (signal_bit n), p_sig_term := n, p_killed := True\<rparr>
   | Discard n \<Rightarrow> p\<lparr>p_sig_pending := p_sig_pending p AND NOT (signal_bit n)\<rparr>
   | Handler n \<Rightarrow> p\<lparr>p_sig_pending := p_sig_pending p AND NOT (signal_bit n),
       p_sig_saved_trapframe := p_trapframe p, p_sig_handling := True, p_sig_current := n,
       p_sig_mask := p_sig_mask p OR signal_bit n,
       p_trapframe := (p_trapframe p)\<lparr>tf_a0 := of_int n, tf_ra := SIGTRAMP, tf_epc := p_sig_handlers p ! nat n\<rparr>\<rparr>)"

lemma choose_kill_iff: "signal_choose w = SIGKILL \<longleftrightarrow> bit w 9"
  using signal_choose_nonzero(2) [of w 9] by (auto simp: signal_choose_def)

lemma handler_valid_pending [simp]:
  "signal_handler_valid k s (p\<lparr>p_sig_pending := w\<rparr>) h = signal_handler_valid k s p h"
  by (simp add: signal_handler_valid_def)

lemma signal_deliver_cases: "signal_deliver k s p = apply_delivery (deliver_case k s p) p"
proof -
  let ?n = "signal_choose (sig_deliverable p)"
  have kill: "sig_deliverable p AND signal_bit 9 = 0 \<longleftrightarrow> ?n \<noteq> 9"
    using choose_kill_iff [of "sig_deliverable p"] by simp
  show ?thesis
    unfolding signal_deliver_def deliver_case_def apply_delivery_def Let_def kill
    by simp
qed

lemma deliver_case_chosen:
  assumes "deliver_case k s p = d" and "d = Terminate n \<or> d = Discard n \<or> d = Handler n"
  shows "signal_valid n" and "bit (p_sig_pending p) (nat n)" and "n = SIGKILL \<or> \<not> bit (p_sig_mask p) (nat n)"
    and "n = SIGKILL \<or> \<not> p_sig_handling p"
proof -
  have n: "n = signal_choose (sig_deliverable p)" "n \<noteq> 0" "n = SIGKILL \<or> \<not> p_sig_handling p"
    using assms by (auto simp: deliver_case_def Let_def split: if_splits)
  note C = signal_choose_nonzero [OF n(1) [symmetric] n(2)]
  show "signal_valid n" and "n = SIGKILL \<or> \<not> p_sig_handling p" by (fact C(1), fact n(3))
  show "bit (p_sig_pending p) (nat n)" and "n = SIGKILL \<or> \<not> bit (p_sig_mask p) (nat n)"
    using C(1,2) unfolding sig_deliverable_iff signal_valid_def by auto
qed

lemma sig_inv_deliver:
  assumes "sig_inv p"
  shows "sig_inv (signal_deliver k s p)"
proof (cases "deliver_case k s p")
  case Nothing
  with assms show ?thesis by (simp add: signal_deliver_cases apply_delivery_def)
next
  case (Terminate n)
  then show ?thesis
    using assms by (auto simp: signal_deliver_cases apply_delivery_def sig_inv_def bit_simps)
next
  case (Discard n)
  then show ?thesis
    using assms by (auto simp: signal_deliver_cases apply_delivery_def sig_inv_def bit_simps)
next
  case (Handler n)
  then have "signal_valid n" using deliver_case_chosen(1) by blast
  then show ?thesis
    using assms signal_bit_iff [of n "nat n"] Handler
    by (auto simp: signal_deliver_cases apply_delivery_def sig_inv_def bit_simps signal_valid_def)
qed

lemma sig_inv_sigreturn: "sig_inv p \<Longrightarrow> sig_inv (snd (signal_sigreturn p))"
  by (auto simp: signal_sigreturn_def sig_inv_def Let_def)

lemma clear_set_bit:
  assumes "\<not> bit w (nat n)" and "0 \<le> n" "n < 32"
  shows "(w OR signal_bit n) AND NOT (signal_bit n) = w"
  by (rule bit_eqI) (use assms signal_bit_iff [of n] in \<open>auto simp: bit_simps\<close>)

section \<open>The life of a process's signal state\<close>

text \<open>
  The steps that touch the signal fields of one process, in any order and with any machine state:
  system calls, signals sent by others, delivery on the way back to user mode, \<^verbatim>\<open>exec\<close>, and
  \<open>run\<close>, in which user code changes its registers and the kernel changes the scheduling state.
\<close>

inductive sig_step :: "proc \<Rightarrow> proc \<Rightarrow> bool" where
  set_handler: "sig_step p (snd (signal_set_handler k s p signum handler))"
| send: "signal_send_locked p signum = (0, p') \<Longrightarrow> sig_step p p'"
| deliver: "sig_step p (signal_deliver k s p)"
| sigreturn: "sig_step p (snd (signal_sigreturn p))"
| exec: "sig_step p (signal_reset_on_exec p)"
| run: "sig_step p (p\<lparr>p_trapframe := tf, p_state := st, p_interruptible_sleep := intr\<rparr>)"

inductive sig_reachable :: "proc \<Rightarrow> bool" where
  created: "sig_reachable (signal_proc_init p)"
| forked: "sig_reachable parent \<Longrightarrow> sig_reachable (signal_proc_fork parent child)"
| step: "sig_reachable p \<Longrightarrow> sig_step p p' \<Longrightarrow> sig_reachable p'"

inductive_cases sig_stepE: "sig_step p p'"

lemma sig_inv_step: "sig_step p p' \<Longrightarrow> sig_inv p \<Longrightarrow> sig_inv p'"
proof (induction rule: sig_step.induct)
  case (send p signum p')
  then show ?case
    by (auto simp: signal_send_locked_def sig_inv_mark split: if_splits)
next
  case (run p tf st intr)
  then show ?case by (simp add: sig_inv_def)
qed (simp_all add: sig_inv_set_handler sig_inv_deliver sig_inv_sigreturn sig_inv_exec)

lemma sig_reachable_inv: "sig_reachable p \<Longrightarrow> sig_inv p"
proof (induction rule: sig_reachable.induct)
  case (step p p')
  then show ?case using sig_inv_step by blast
qed (simp_all add: sig_inv_init sig_inv_fork)

lemma killed_step: "sig_step p p' \<Longrightarrow> p_killed p \<Longrightarrow> p_killed p'"
proof (induction rule: sig_step.induct)
  case (deliver p k s)
  then show ?case
    by (simp add: signal_deliver_cases apply_delivery_def split: delivery.split)
qed (auto simp: signal_set_handler_def signal_send_locked_def signal_mark_locked_def signal_sigreturn_def
    signal_reset_on_exec_def Let_def split: if_splits)

section \<open>Properties\<close>

text \<open>
  in every process that system calls, other processes' signals, delivery, return, \<^verbatim>\<open>fork\<close> and
  \<^verbatim>\<open>exec\<close> can produce, the signal state is consistent: \<^verbatim>\<open>SIGKILL\<close> has the default action, no pending
  signal is one its handler ignores, and while a handler runs its signal is valid and blocked.
\<close>

theorem signal_state_consistent:
  assumes "sig_reachable p"
  shows "sig_inv p"
  using sig_reachable_inv [OF assms] .

theorem signal_state_consistent_witness:
  "sig_inv (signal_deliver vm_env vm_boot (signal_mark_locked (signal_proc_init (proc_zero\<lparr>p_state := RUNNING\<rparr>)) SIGINT))"
proof (rule signal_state_consistent)
  let ?p = "signal_proc_init (proc_zero\<lparr>p_state := RUNNING\<rparr>)"
  have "sig_step ?p (signal_mark_locked ?p SIGINT)"
    by (rule sig_step.send [of _ 2])
      (simp add: signal_send_locked_def signal_valid_def signal_proc_init_def)
  then have "sig_reachable (signal_mark_locked ?p SIGINT)"
    by (rule sig_reachable.step [OF sig_reachable.created])
  then show "sig_reachable (signal_deliver vm_env vm_boot (signal_mark_locked ?p SIGINT))"
    by (rule sig_reachable.step) (rule sig_step.deliver)
qed

text \<open>
  \<^verbatim>\<open>SIGKILL\<close> cannot be blocked, caught or ignored. Sending it to a live process succeeds, wakes
  an interruptible sleep, marks the process killed for the rest of its life, and whatever the mask
  and the handlers are, the next delivery runs no handler and makes the exit status -9.
\<close>

theorem signal_kill_unstoppable:
  assumes "sig_reachable p" and "p_state p \<noteq> UNUSED"
  shows "\<exists>q. signal_send_locked p SIGKILL = (0, q) \<and> p_killed q \<and> signal_pending q \<and>
    \<not> (p_state q = SLEEPING \<and> p_interruptible_sleep q) \<and>
    (\<forall>q'. sig_step\<^sup>*\<^sup>* q q' \<longrightarrow> p_killed q') \<and>
    signal_exit_status (signal_deliver k s q) = -9 \<and>
    p_trapframe (signal_deliver k s q) = p_trapframe q"
proof -
  have inv: "p_sig_handlers p ! 9 = SIG_DFL"
    using sig_reachable_inv [OF assms(1)] by (simp add: sig_inv_def)
  define q where "q = signal_mark_locked p SIGKILL"
  have q: "p_killed q" "bit (p_sig_pending q) 9" "\<not> (p_state q = SLEEPING \<and> p_interruptible_sleep q)"
    using inv by (auto simp: q_def signal_mark_locked_def sig_ignored_def signal_default_ignored_def Let_def bit_simps)
  have d: "bit (sig_deliverable q) 9" using q(2) by (simp add: sig_deliverable_iff)
  then have c: "signal_choose (sig_deliverable q) = 9" by (simp add: choose_kill_iff)
  then have "deliver_case k s q = Terminate 9" by (simp add: deliver_case_def)
  then have "signal_exit_status (signal_deliver k s q) = -9" "p_trapframe (signal_deliver k s q) = p_trapframe q"
    by (simp_all add: signal_deliver_cases apply_delivery_def signal_exit_status_def)
  moreover have "signal_send_locked p SIGKILL = (0, q)"
    using assms(2) by (simp add: signal_send_locked_def signal_valid_def q_def)
  moreover have "p_killed q'" if "sig_step\<^sup>*\<^sup>* q q'" for q'
    using that q(1) by (induction rule: rtranclp_induct) (auto intro: killed_step)
  ultimately show ?thesis
    using q(1,3) by (auto simp: signal_pending_def signal_pending_locked_def)
qed

theorem signal_kill_unstoppable_witness:
  "\<exists>q. signal_send_locked (signal_proc_init (proc_zero\<lparr>p_state := RUNNING\<rparr>)) SIGKILL = (0, q) \<and> p_killed q \<and>
     signal_exit_status (signal_deliver vm_env vm_boot q) = -9"
  using signal_kill_unstoppable [OF sig_reachable.created, of "proc_zero\<lparr>p_state := RUNNING\<rparr>" vm_env vm_boot]
  by (auto simp: signal_proc_init_def)

text \<open>
  delivery and \<^verbatim>\<open>sigreturn\<close> are inverse. When delivery enters a user handler for the signal \<open>n\<close>, the
  handler is entered with \<open>n\<close> in \<^verbatim>\<open>a0\<close> and the return address on the signal trampoline, and the
  \<^verbatim>\<open>sigreturn\<close> that follows, whatever the handler did to its registers, gives back the interrupted
  registers, the mask and all handlers, with only \<open>n\<close> removed from the pending set; its return
  value is the interrupted \<^verbatim>\<open>a0\<close>.
\<close>

theorem signal_deliver_sigreturn:
  assumes "\<not> p_sig_handling p" and "deliver_case k s p = Handler n"
    and "p_sig_current p = 0" and "p_sig_saved_trapframe p = tf_zero"
  shows "let q = signal_deliver k s p in
    p_sig_handling q \<and> tf_a0 (p_trapframe q) = of_int n \<and> tf_ra (p_trapframe q) = SIGTRAMP \<and>
    tf_epc (p_trapframe q) = p_sig_handlers p ! nat n \<and>
    (\<forall>tf. signal_sigreturn (q\<lparr>p_trapframe := tf\<rparr>) =
       (tf_a0 (p_trapframe p), p\<lparr>p_sig_pending := p_sig_pending p AND NOT (signal_bit n)\<rparr>))"
proof -
  have v: "signal_valid n" and m: "\<not> bit (p_sig_mask p) (nat n)"
    using deliver_case_chosen [OF assms(2), of n] assms(2)
    by (auto simp: deliver_case_def Let_def split: if_splits)
  have "(p_sig_mask p OR signal_bit n) AND NOT (signal_bit n) = p_sig_mask p"
    using clear_set_bit [OF m] v by (simp add: signal_valid_def)
  then show ?thesis
    using assms v
    by (simp add: signal_deliver_cases apply_delivery_def signal_sigreturn_def Let_def proc.equality)
qed

text \<open>A machine whose page table at \<^verbatim>\<open>0x805FF000\<close> maps the page \<^verbatim>\<open>0x1000\<close> executable for the user.\<close>

definition sig_mem :: kmem where
  "sig_mem = \<lparr>km_mem = (\<lambda>_. 0)(0x805FF000 := 0x2017F801, 0x805FE000 := 0x2017F401, 0x805FD008 := 0x20140019),
     km_freelist = (\<lambda>_. 0), km_quota = (\<lambda>_. 1)\<rparr>"

definition sig_proc :: proc where
  "sig_proc = proc_zero\<lparr>p_state := RUNNING, p_pagetable := 0x805FF000, p_sig_pending := 4,
     p_sig_handlers := (replicate NSIG 0)[2 := 0x1000], p_trapframe := tf_zero\<lparr>tf_a0 := 77, tf_epc := 0x4242\<rparr>\<rparr>"

lemma bit_four: "bit (4 :: u32) n \<longleftrightarrow> n = 2"
  using bit_push_bit_iff [of 2 "1 :: u32" n] by (auto simp: bit_simps)

lemma sig_proc_handler: "deliver_case vm_env sig_mem sig_proc = Handler 2"
proof -
  have d: "sig_deliverable sig_proc = 4"
    by (simp add: sig_deliverable_def sig_proc_def proc_zero_def signal_bit_def)
  have "first_idx (\<lambda>signum. (4 :: u32) AND signal_bit (int signum) \<noteq> 0) [1..<32] = Some 2"
  proof -
    have b: "((4 :: u32) AND signal_bit (int n) \<noteq> 0) \<longleftrightarrow> n = 2" if "n < 32" for n
      using that and_signal_bit [of "int n" 4] bit_four [of n] by simp
    show ?thesis unfolding first_idx_upt_iff using b [of 2] b by auto
  qed
  then have c: "signal_choose 4 = 2"
    by (simp add: signal_choose_def signal_bit_def)
  have "signal_handler_valid vm_env sig_mem sig_proc 0x1000"
    by (simp add: signal_handler_valid_def walk_def walk_loop_2 slot_def PX_def PTE2PA_def sig_mem_def sig_proc_def)
  then show ?thesis
    by (simp add: deliver_case_def d c)
      (simp add: sig_proc_def sig_ignored_def signal_default_ignored_def proc_zero_def)
qed

theorem signal_deliver_sigreturn_witness:
  "signal_sigreturn (signal_deliver vm_env sig_mem sig_proc) =
     (77, sig_proc\<lparr>p_sig_pending := p_sig_pending sig_proc AND NOT (signal_bit 2)\<rparr>)"
proof -
  let ?q = "signal_deliver vm_env sig_mem sig_proc"
  have "\<forall>tf. signal_sigreturn (?q\<lparr>p_trapframe := tf\<rparr>) =
      (tf_a0 (p_trapframe sig_proc), sig_proc\<lparr>p_sig_pending := p_sig_pending sig_proc AND NOT (signal_bit 2)\<rparr>)"
    using signal_deliver_sigreturn [OF _ sig_proc_handler]
    by (simp add: Let_def sig_proc_def proc_zero_def)
  from this [rule_format, of "p_trapframe ?q"] show ?thesis
    by (simp add: sig_proc_def)
qed

text \<open>
  a handler is entered only for a signal that is pending and not blocked, only when no other
  handler runs, and for the lowest-numbered such signal; while a handler runs and \<^verbatim>\<open>SIGKILL\<close> is not
  pending, delivery changes nothing.
\<close>

theorem signal_deliver_discipline:
  "(\<forall>n. deliver_case k s p = Handler n \<longrightarrow>
      signal_valid n \<and> bit (p_sig_pending p) (nat n) \<and> \<not> bit (p_sig_mask p) (nat n) \<and> \<not> p_sig_handling p \<and>
      (\<forall>m. 1 \<le> m \<and> m < nat n \<longrightarrow> \<not> (bit (p_sig_pending p) m \<and> \<not> bit (p_sig_mask p) m))) \<and>
   (p_sig_handling p \<and> \<not> bit (p_sig_pending p) 9 \<longrightarrow> signal_deliver k s p = p) \<and>
   signal_deliver k s p = apply_delivery (deliver_case k s p) p"
proof (intro conjI allI impI)
  fix n assume d: "deliver_case k s p = Handler n"
  then have n: "n \<noteq> SIGKILL" "signal_choose (sig_deliverable p) = n" "n \<noteq> 0"
    by (auto simp: deliver_case_def Let_def split: if_splits)
  note D = deliver_case_chosen [OF d, of n] and C = signal_choose_nonzero [OF n(2,3)]
  show "signal_valid n" "bit (p_sig_pending p) (nat n)" using D by blast+
  show "\<not> bit (p_sig_mask p) (nat n)" "\<not> p_sig_handling p" using D(3,4) n(1) by blast+
  fix m assume "1 \<le> m \<and> m < nat n"
  then show "\<not> (bit (p_sig_pending p) m \<and> \<not> bit (p_sig_mask p) m)"
    using C(3) n(1) sig_deliverable_iff by blast
next
  assume h: "p_sig_handling p \<and> \<not> bit (p_sig_pending p) 9"
  then have "signal_choose (sig_deliverable p) \<noteq> SIGKILL"
    unfolding choose_kill_iff sig_deliverable_iff by simp
  with h show "signal_deliver k s p = p"
    by (simp add: signal_deliver_cases deliver_case_def apply_delivery_def)
qed (rule signal_deliver_cases)

theorem signal_deliver_discipline_witness:
  "\<not> bit (p_sig_mask sig_proc) (nat 2) \<and> \<not> p_sig_handling sig_proc"
  using signal_deliver_discipline [of vm_env sig_mem sig_proc] sig_proc_handler by blast

text \<open>
  a signal sent to a process group reaches every live member and no other process: the call
  succeeds exactly when the group has a live member, and each member's state is the one that a
  signal sent to it alone would give.
\<close>

theorem signal_pgrp_broadcast:
  assumes "0 < pgid" and "signal_valid signum"
  shows "fst (signal_send_pgrp ps pgid signum) = (if signal_pgrp_exists ps pgid then 0 else -1) \<and>
    length (snd (signal_send_pgrp ps pgid signum)) = length ps \<and>
    (\<forall>i < length ps. snd (signal_send_pgrp ps pgid signum) ! i =
       (if p_state (ps ! i) \<noteq> UNUSED \<and> p_pgid (ps ! i) = pgid then snd (signal_send_locked (ps ! i) signum) else ps ! i))"
  using assms
  by (auto simp: signal_send_pgrp_def signal_pgrp_exists_def signal_send_locked_def Let_def)

theorem signal_pgrp_broadcast_witness:
  "fst (signal_send_pgrp [proc_zero, sig_proc\<lparr>p_pgid := 4\<rparr>] 4 SIGINT) = 0"
  using signal_pgrp_broadcast [of 4 SIGINT "[proc_zero, sig_proc\<lparr>p_pgid := 4\<rparr>]"]
  by (simp add: signal_valid_def signal_pgrp_exists_def sig_proc_def)

text \<open>
  a process that forks inside a signal handler gives its child the handler's registers but not
  the frame to return to: in the child, which starts inside the handler, \<^verbatim>\<open>sigreturn\<close> fails and
  restores nothing, and the signal stays blocked.
\<close>

theorem signal_fork_in_handler:
  assumes "sig_inv parent" and "p_sig_handling parent"
  shows "let child = signal_proc_fork parent np in
    signal_sigreturn child = (- 1, child) \<and> bit (p_sig_mask child) (nat (p_sig_current parent)) \<and>
    p_sig_saved_trapframe child = tf_zero"
  using assms by (simp add: signal_proc_fork_def signal_sigreturn_def sig_inv_def Let_def)

theorem signal_fork_in_handler_witness:
  "signal_sigreturn (signal_proc_fork (signal_deliver vm_env sig_mem sig_proc) proc_zero) =
     (- 1, signal_proc_fork (signal_deliver vm_env sig_mem sig_proc) proc_zero)"
proof -
  have "sig_inv sig_proc"
    using bit_four by (auto simp: sig_inv_def sig_proc_def proc_zero_def sig_ignored_def signal_default_ignored_def)
  moreover have "p_sig_handling (signal_deliver vm_env sig_mem sig_proc)"
    by (simp add: signal_deliver_cases sig_proc_handler apply_delivery_def)
  ultimately show ?thesis
    using signal_fork_in_handler [OF sig_inv_deliver, of sig_proc vm_env sig_mem proc_zero] by (simp add: Let_def)
qed

end
