(* ===== verification/Sched.thy ===== *)
theory Sched
  imports Signal
begin

text \<open>
  The scheduler of \<^verbatim>\<open>kernel/proc/proc.c\<close>: the multi-level feedback queue, the round-robin alternative,
  sleep and wakeup, process groups and reparenting. The state holds the process table, the CPUs and
  the scheduler's static variables. A function that runs under one process lock is one step; \<^verbatim>\<open>swtch\<close>
  splits \<^verbatim>\<open>run_proc\<close>, \<^verbatim>\<open>yield\<close> and \<^verbatim>\<open>sleep_on\<close> into the part before and the part after it.
\<close>

abbreviation (input) MLFQ_LEVELS :: nat where "MLFQ_LEVELS \<equiv> 4"
abbreviation (input) MLFQ_TOP_LEVEL :: int where "MLFQ_TOP_LEVEL \<equiv> 0"
abbreviation (input) MLFQ_BOTTOM_LEVEL :: int where "MLFQ_BOTTOM_LEVEL \<equiv> 3"
abbreviation (input) MLFQ_BOOST_INTERVAL :: u32 where "MLFQ_BOOST_INTERVAL \<equiv> 200"

record sched =
  sd_procs :: "proc list"
  sd_cpus :: "cpu list"
  sd_rr_next :: "nat list"
  sd_last_boost :: u32
  sd_preempt_count :: u32
  sd_global_rr_next :: nat
  sd_ticks :: u32
  sd_nextpid :: int
  sd_initproc :: "nat option"

section \<open>Operations\<close>

definition mlfq_time_slices :: "int list" where
  "mlfq_time_slices = [1, 2, 4, 8]"

definition procinit :: "sched \<Rightarrow> sched" where
  "procinit s = s\<lparr>sd_cpus := replicate NCPU cpu_zero, sd_procs := replicate NPROC proc_zero,
     sd_rr_next := replicate MLFQ_LEVELS 0, sd_last_boost := 0\<rparr>"

definition allocpid :: "sched \<Rightarrow> int \<times> sched" where
  "allocpid s = (sd_nextpid s, s\<lparr>sd_nextpid := sd_nextpid s + 1\<rparr>)"

definition proc_num :: "sched \<Rightarrow> nat" where
  "proc_num s = length (filter (\<lambda>p. p_state p \<noteq> UNUSED) (sd_procs s))"

definition account_runnable_wait :: "sched \<Rightarrow> sched" where
  "account_runnable_wait s = s\<lparr>sd_procs :=
     map (\<lambda>p. if p_state p = RUNNABLE then p\<lparr>p_wait_ticks := p_wait_ticks p + 1\<rparr> else p) (sd_procs s)\<rparr>"

definition boost_proc :: "proc \<Rightarrow> proc" where
  "boost_proc p = (if p_state p \<noteq> UNUSED
     then p\<lparr>p_queue_level := MLFQ_TOP_LEVEL, p_sched_ticks := 0, p_wait_ticks := 0,
            p_boost_count := p_boost_count p + 1\<rparr> else p)"

definition mlfq_boost_if_needed :: "sched \<Rightarrow> sched" where
  "mlfq_boost_if_needed s =
     (if sd_ticks s - sd_last_boost s < MLFQ_BOOST_INTERVAL then s
      else s\<lparr>sd_last_boost := sd_ticks s, sd_procs := map boost_proc (sd_procs s)\<rparr>)"

text \<open>The loop over the CPUs of \<^verbatim>\<open>mlfq_promote_on_wakeup\<close>, for a process now at level \<open>lvl\<close>.\<close>

fun promote_cpus :: "proc list \<Rightarrow> int \<Rightarrow> cpu list \<Rightarrow> u32 \<Rightarrow> cpu list \<times> u32" where
  "promote_cpus ps lvl [] n = ([], n)"
| "promote_cpus ps lvl (c # cs) n =
     (let hit = (case c_proc c of None \<Rightarrow> False
                 | Some cur \<Rightarrow> p_state (ps ! cur) = RUNNING \<and> lvl < p_queue_level (ps ! cur));
          (cs1, n1) = promote_cpus ps lvl cs (if hit then n + 1 else n)
      in ((if hit then c\<lparr>c_need_resched := True\<rparr> else c) # cs1, n1))"

definition promote_proc :: "proc \<Rightarrow> wakeup_kind \<Rightarrow> proc" where
  "promote_proc p reason =
     (let p1 = (if MLFQ_TOP_LEVEL < p_queue_level p then p\<lparr>p_queue_level := p_queue_level p - 1\<rparr> else p);
          p2 = p1\<lparr>p_sched_ticks := 0\<rparr>
      in if reason = WAKEUP_IO then p2\<lparr>p_io_wakeup_count := p_io_wakeup_count p2 + 1\<rparr>
         else p2\<lparr>p_device_wakeup_count := p_device_wakeup_count p2 + 1\<rparr>)"

definition mlfq_promote_on_wakeup :: "sched \<Rightarrow> nat \<Rightarrow> wakeup_kind \<Rightarrow> sched" where
  "mlfq_promote_on_wakeup s i reason =
     (if reason = WAKEUP_IO \<or> reason = WAKEUP_DEVICE then
        let p = promote_proc (sd_procs s ! i) reason;
            ps = (sd_procs s)[i := p];
            (cs, n) = promote_cpus ps (p_queue_level p) (sd_cpus s) (sd_preempt_count s)
        in s\<lparr>sd_procs := ps, sd_cpus := cs, sd_preempt_count := n\<rparr>
      else s)"

definition sched_on_yield :: "proc \<Rightarrow> proc" where
  "sched_on_yield p =
     (let p1 = p\<lparr>p_total_run_ticks := p_total_run_ticks p + 1, p_preempt_count := p_preempt_count p + 1,
                 p_sched_ticks := p_sched_ticks p + 1\<rparr>
      in if mlfq_time_slices ! nat (p_queue_level p1) \<le> p_sched_ticks p1
         then (if p_queue_level p1 < MLFQ_BOTTOM_LEVEL then p1\<lparr>p_queue_level := p_queue_level p1 + 1\<rparr> else p1)
                \<lparr>p_sched_ticks := 0\<rparr>
         else p1)"

definition scan_order :: "nat \<Rightarrow> nat list" where
  "scan_order start = map (\<lambda>i. (start + i) mod NPROC) [0..<NPROC]"

fun pick_level :: "sched \<Rightarrow> nat list \<Rightarrow> nat option \<times> sched" where
  "pick_level s [] = (None, s)"
| "pick_level s (level # levels) =
     (case first_idx (\<lambda>i. p_state (sd_procs s ! i) = RUNNABLE \<and> p_queue_level (sd_procs s ! i) = int level)
             (scan_order (sd_rr_next s ! level)) of
        Some i \<Rightarrow>
          (Some i, s\<lparr>sd_rr_next := (sd_rr_next s)[level := (i + 1) mod NPROC],
                     sd_procs := (sd_procs s)[i := (sd_procs s ! i)\<lparr>p_wait_ticks := 0\<rparr>]\<rparr>)
      | None \<Rightarrow> pick_level s levels)"

definition pick_next_proc_mlfq :: "sched \<Rightarrow> nat option \<times> sched" where
  "pick_next_proc_mlfq s = pick_level (mlfq_boost_if_needed s) [0..<MLFQ_LEVELS]"

definition pick_next_proc_rr :: "sched \<Rightarrow> nat option \<times> sched" where
  "pick_next_proc_rr s =
     (case first_idx (\<lambda>i. p_state (sd_procs s ! i) = RUNNABLE) (scan_order (sd_global_rr_next s)) of
        Some i \<Rightarrow>
          (Some i, s\<lparr>sd_global_rr_next := (i + 1) mod NPROC,
                     sd_procs := (sd_procs s)[i := (sd_procs s ! i)\<lparr>p_wait_ticks := 0\<rparr>]\<rparr>)
      | None \<Rightarrow> (None, s))"

text \<open>The default build defines \<^verbatim>\<open>SCHED_MLFQ\<close>.\<close>

definition pick_next_proc :: "sched \<Rightarrow> nat option \<times> sched" where
  "pick_next_proc s = pick_next_proc_mlfq s"

definition set_proc :: "sched \<Rightarrow> nat \<Rightarrow> (proc \<Rightarrow> proc) \<Rightarrow> sched" where
  "set_proc s i f = s\<lparr>sd_procs := (sd_procs s)[i := f (sd_procs s ! i)]\<rparr>"

definition set_cpu :: "sched \<Rightarrow> nat \<Rightarrow> (cpu \<Rightarrow> cpu) \<Rightarrow> sched" where
  "set_cpu s c f = s\<lparr>sd_cpus := (sd_cpus s)[c := f (sd_cpus s ! c)]\<rparr>"

text \<open>\<^verbatim>\<open>run_proc\<close> up to the switch to the process, and from the switch back to the scheduler.\<close>

definition run_proc :: "sched \<Rightarrow> nat \<Rightarrow> nat \<Rightarrow> sched" where
  "run_proc s c i = set_cpu (set_proc s i (\<lambda>p. p\<lparr>p_state := RUNNING\<rparr>)) c (\<lambda>cp. cp\<lparr>c_proc := Some i\<rparr>)"

definition run_proc_back :: "sched \<Rightarrow> nat \<Rightarrow> sched" where
  "run_proc_back s c = set_cpu s c (\<lambda>cp. cp\<lparr>c_proc := None\<rparr>)"

text \<open>One iteration of the loop of \<^verbatim>\<open>scheduler\<close>, up to the switch or the \<^verbatim>\<open>wfi\<close>.\<close>

definition scheduler :: "sched \<Rightarrow> nat \<Rightarrow> sched" where
  "scheduler s c =
     (case pick_next_proc (account_runnable_wait s) of
        (Some i, s1) \<Rightarrow> run_proc (set_cpu s1 c (\<lambda>cp. cp\<lparr>c_need_resched := False\<rparr>)) c i
      | (None, s1) \<Rightarrow> s1)"

text \<open>\<^verbatim>\<open>yield\<close> and \<^verbatim>\<open>sleep_on\<close> up to the switch, followed by the return of the scheduler's \<^verbatim>\<open>run_proc\<close>.\<close>

definition yield :: "sched \<Rightarrow> nat \<Rightarrow> nat \<Rightarrow> sched" where
  "yield s c i = run_proc_back (set_proc s i (\<lambda>p. (sched_on_yield p)\<lparr>p_state := RUNNABLE\<rparr>)) c"

definition sleep_on :: "sched \<Rightarrow> nat \<Rightarrow> nat \<Rightarrow> u64 \<Rightarrow> bool \<Rightarrow> int option \<times> sched" where
  "sleep_on s c i chan interruptible =
     (if interruptible \<and> signal_pending_locked (sd_procs s ! i) then (Some (-1), s)
      else (None, run_proc_back (set_proc s i (\<lambda>p. p\<lparr>p_chan := chan, p_interruptible_sleep := interruptible,
                    p_state := SLEEPING, p_sched_ticks := 0\<rparr>)) c))"

text \<open>The rest of \<^verbatim>\<open>sleep_on\<close>, when the process runs again.\<close>

definition sleep_on_back :: "sched \<Rightarrow> nat \<Rightarrow> bool \<Rightarrow> int \<times> sched" where
  "sleep_on_back s i interruptible =
     (let s1 = set_proc s i (\<lambda>p. p\<lparr>p_chan := 0, p_interruptible_sleep := False\<rparr>)
      in (if interruptible \<and> signal_pending_locked (sd_procs s1 ! i) then -1 else 0, s1))"

fun wakeup_loop :: "sched \<Rightarrow> u64 \<Rightarrow> wakeup_kind \<Rightarrow> nat list \<Rightarrow> sched" where
  "wakeup_loop s chan reason [] = s"
| "wakeup_loop s chan reason (i # is) =
     wakeup_loop
       (if p_state (sd_procs s ! i) = SLEEPING \<and> p_chan (sd_procs s ! i) = chan
        then mlfq_promote_on_wakeup
               (set_proc s i (\<lambda>p. p\<lparr>p_state := RUNNABLE, p_last_wakeup_reason := reason\<rparr>)) i reason
        else s) chan reason is"

definition wakeup_reason :: "sched \<Rightarrow> u64 \<Rightarrow> wakeup_kind \<Rightarrow> sched" where
  "wakeup_reason s chan reason = wakeup_loop s chan reason [0..<NPROC]"

definition wakeup :: "sched \<Rightarrow> u64 \<Rightarrow> sched" where
  "wakeup s chan = wakeup_reason s chan WAKEUP_NORMAL"

text \<open>A process that waits for its children sleeps on the address of its own slot, \<open>self\<close>.\<close>

definition wakeup1 :: "u64 \<Rightarrow> proc \<Rightarrow> proc" where
  "wakeup1 self p = (if p_chan p = self \<and> p_state p = SLEEPING then p\<lparr>p_state := RUNNABLE\<rparr> else p)"

definition proc_setpgid :: "sched \<Rightarrow> nat \<Rightarrow> int \<Rightarrow> int \<Rightarrow> int \<times> sched" where
  "proc_setpgid s caller pid pgid =
     (let target_pid = (if pid = 0 then p_pid (sd_procs s ! caller) else pid)
      in if target_pid \<le> 0 \<or> pgid < 0 then (-1, s)
         else case find_slot (\<lambda>p. p_state p \<noteq> UNUSED \<and> p_pid p = target_pid) (sd_procs s) of
                None \<Rightarrow> (-1, s)
              | Some i \<Rightarrow>
                  if i \<noteq> caller \<and> p_parent (sd_procs s ! i) \<noteq> Some caller then (-1, s)
                  else (0, set_proc s i (\<lambda>p. p\<lparr>p_pgid := if pgid = 0 then p_pid p else pgid\<rparr>)))"

definition proc_getpgrp :: "proc \<Rightarrow> int" where
  "proc_getpgrp p = p_pgid p"

definition reparent :: "sched \<Rightarrow> nat \<Rightarrow> sched" where
  "reparent s i = s\<lparr>sd_procs :=
     map (\<lambda>pp. if p_parent pp = Some i then pp\<lparr>p_parent := sd_initproc s\<rparr> else pp) (sd_procs s)\<rparr>"

section \<open>Round-robin scans\<close>

lemma first_idx_map: "first_idx P (map f is) = map_option f (first_idx (\<lambda>i. P (f i)) is)"
  by (induction "is") auto

lemma scan_order_first:
  "first_idx P (scan_order start) = Some i \<longleftrightarrow>
     (\<exists>d < NPROC. i = (start + d) mod NPROC \<and> P i \<and> (\<forall>e < d. \<not> P ((start + e) mod NPROC)))"
  unfolding scan_order_def first_idx_map by (auto simp: first_idx_upt_iff)

lemma set_scan_order: "set (scan_order start) = {..<NPROC}"
proof
  show "{..<NPROC} \<subseteq> set (scan_order start)"
  proof
    fix i :: nat assume i: "i \<in> {..<NPROC}"
    let ?d = "i + (NPROC - start mod NPROC)"
    have "start mod NPROC < NPROC" by simp
    then have "start mod NPROC + ?d = i + NPROC" by linarith
    then have "(start mod NPROC + ?d) mod NPROC = i" using i by simp
    then have "i = (start + ?d mod NPROC) mod NPROC" by (simp only: mod_add_left_eq mod_add_right_eq)
    then show "i \<in> set (scan_order start)"
      unfolding scan_order_def by (auto intro!: image_eqI [of _ _ "(i + (64 - start mod 64)) mod 64"])
  qed
qed (auto simp: scan_order_def)

lemma scan_order_none: "first_idx P (scan_order start) = None \<longleftrightarrow> (\<forall>i < NPROC. \<not> P i)"
  by (auto simp: set_scan_order)

text \<open>How far slot \<open>i\<close> is ahead of the cursor.\<close>

definition rr_dist :: "nat \<Rightarrow> nat \<Rightarrow> nat" where
  "rr_dist start i = (i + NPROC - start) mod NPROC"

lemma rr_dist_lt: "rr_dist start i < NPROC"
  by (simp add: rr_dist_def)

lemma rr_dist_reach: "start < NPROC \<Longrightarrow> i < NPROC \<Longrightarrow> (start + rr_dist start i) mod NPROC = i"
  by (simp add: rr_dist_def mod_add_right_eq)

lemma rr_dist_offset: "start < NPROC \<Longrightarrow> d < NPROC \<Longrightarrow> rr_dist start ((start + d) mod NPROC) = d"
  by (auto simp: rr_dist_def mod_if)

lemma rr_dist_decreases:
  assumes "start < NPROC" and "i < NPROC" and "P i" and "first_idx P (scan_order start) = Some j" and "j \<noteq> i"
  shows "rr_dist ((j + 1) mod NPROC) i < rr_dist start i"
proof -
  let ?D = "rr_dist start i"
  obtain d where d: "d < NPROC" "j = (start + d) mod NPROC" "\<forall>e < d. \<not> P ((start + e) mod NPROC)"
    using assms(4) unfolding scan_order_first by blast
  have "\<not> ?D < d"
    using d(3) rr_dist_reach [OF assms(1,2)] assms(3) by auto
  moreover have "?D \<noteq> d"
    using d(2) rr_dist_reach [OF assms(1,2)] assms(5) by auto
  ultimately have lt: "d < ?D" by simp
  have "(j + 1) mod NPROC = (start + d + 1) mod NPROC"
    unfolding d(2) by (simp add: mod_Suc_eq)
  moreover have "rr_dist ((start + d + 1) mod NPROC) i = ?D - d - 1"
  proof -
    have "start + d + 1 + (?D - d - 1) = start + ?D" using lt by simp
    then have "i = ((start + d + 1) mod NPROC + (?D - d - 1)) mod NPROC"
      using rr_dist_reach [OF assms(1,2)] by (simp only: mod_add_left_eq)
    then show ?thesis
      using rr_dist_offset [of "(start + d + 1) mod NPROC" "?D - d - 1"] rr_dist_lt [of start i] by simp
  qed
  ultimately show ?thesis using lt by simp
qed

section \<open>The pick\<close>

definition sched_wf :: "sched \<Rightarrow> bool" where
  "sched_wf s \<longleftrightarrow> length (sd_procs s) = NPROC \<and> length (sd_cpus s) = NCPU \<and>
     length (sd_rr_next s) = MLFQ_LEVELS \<and> (\<forall>l < MLFQ_LEVELS. sd_rr_next s ! l < NPROC) \<and>
     (\<forall>i < NPROC. 0 \<le> p_queue_level (sd_procs s ! i) \<and> p_queue_level (sd_procs s ! i) \<le> MLFQ_BOTTOM_LEVEL \<and>
        0 \<le> p_sched_ticks (sd_procs s ! i) \<and>
        p_sched_ticks (sd_procs s ! i) < mlfq_time_slices ! nat (p_queue_level (sd_procs s ! i)))"

definition runnable_at :: "sched \<Rightarrow> nat \<Rightarrow> nat \<Rightarrow> bool" where
  "runnable_at s l i \<longleftrightarrow> i < NPROC \<and> p_state (sd_procs s ! i) = RUNNABLE \<and> p_queue_level (sd_procs s ! i) = int l"

lemma pick_level_first:
  "first_idx (\<lambda>i. p_state (sd_procs s ! i) = RUNNABLE \<and> p_queue_level (sd_procs s ! i) = int l) (scan_order start) =
   first_idx (runnable_at s l) (scan_order start)"
proof -
  have "first_idx P is = first_idx Q is" if "\<forall>i \<in> set is. P i = Q i" for P Q "is"
    using that by (induction "is") auto
  then show ?thesis by (simp add: set_scan_order runnable_at_def)
qed

definition pick_result :: "sched \<Rightarrow> nat \<Rightarrow> nat \<Rightarrow> sched" where
  "pick_result s l i = s\<lparr>sd_rr_next := (sd_rr_next s)[l := (i + 1) mod NPROC],
     sd_procs := (sd_procs s)[i := (sd_procs s ! i)\<lparr>p_wait_ticks := 0\<rparr>]\<rparr>"

lemma pick_level_cases:
  "pick_level s ls = (r, s') \<Longrightarrow>
     (r = None \<and> s' = s \<and> (\<forall>l \<in> set ls. \<forall>i. \<not> runnable_at s l i)) \<or>
     (\<exists>pre l post i. ls = pre @ l # post \<and> (\<forall>l' \<in> set pre. \<forall>i. \<not> runnable_at s l' i) \<and>
        first_idx (runnable_at s l) (scan_order (sd_rr_next s ! l)) = Some i \<and> r = Some i \<and> s' = pick_result s l i)"
proof (induction ls)
  case (Cons l ls)
  show ?case
  proof (cases "first_idx (runnable_at s l) (scan_order (sd_rr_next s ! l))")
    case (Some i)
    with Cons.prems have "r = Some i" "s' = pick_result s l i"
      by (auto simp: pick_level_first pick_result_def)
    with Some show ?thesis
      by (intro disjI2 exI [of _ "[]"] exI [of _ l] exI [of _ ls] exI [of _ i]) auto
  next
    case None
    then have no: "\<forall>i. \<not> runnable_at s l i"
      unfolding scan_order_none by (auto simp: runnable_at_def)
    from Cons None have *: "(r = None \<and> s' = s \<and> (\<forall>l \<in> set ls. \<forall>i. \<not> runnable_at s l i)) \<or>
     (\<exists>pre l post i. ls = pre @ l # post \<and> (\<forall>l' \<in> set pre. \<forall>i. \<not> runnable_at s l' i) \<and>
        first_idx (runnable_at s l) (scan_order (sd_rr_next s ! l)) = Some i \<and> r = Some i \<and> s' = pick_result s l i)"
      by (simp add: pick_level_first)
    then show ?thesis
    proof
      assume "\<exists>pre l post i. ls = pre @ l # post \<and> (\<forall>l' \<in> set pre. \<forall>i. \<not> runnable_at s l' i) \<and>
        first_idx (runnable_at s l) (scan_order (sd_rr_next s ! l)) = Some i \<and> r = Some i \<and> s' = pick_result s l i"
      then obtain pre k post i where "ls = pre @ k # post" "\<forall>l' \<in> set pre. \<forall>i. \<not> runnable_at s l' i"
        "first_idx (runnable_at s k) (scan_order (sd_rr_next s ! k)) = Some i" "r = Some i" "s' = pick_result s k i"
        by blast
      with no show ?thesis
        by (intro disjI2 exI [of _ "l # pre"] exI [of _ k] exI [of _ post] exI [of _ i]) auto
    qed (use no in auto)
  qed
qed simp

lemma upt_split_level: "[0..<MLFQ_LEVELS] = pre @ l # post \<Longrightarrow> l < MLFQ_LEVELS \<and> set pre = {..<l}"
proof -
  assume a: "[0..<MLFQ_LEVELS] = pre @ l # post"
  have len: "length pre < MLFQ_LEVELS" using arg_cong [OF a, of length] by simp
  then have "l = length pre"
    using arg_cong [OF a, of "\<lambda>xs. xs ! length pre"] by simp
  moreover have "pre = [0..<length pre]"
    using arg_cong [OF a, of "take (length pre)"] len by (simp add: take_upt)
  ultimately show ?thesis using len by (metis atLeast_upt)
qed

lemma pick_cases:
  assumes "pick_next_proc s = (r, s')"
  defines "b \<equiv> mlfq_boost_if_needed s"
  obtains (none) "r = None" "s' = b" "\<forall>l < MLFQ_LEVELS. \<forall>i. \<not> runnable_at b l i"
  | (some) l i where "r = Some i" "l < MLFQ_LEVELS" "s' = pick_result b l i" "\<forall>l' < l. \<forall>j. \<not> runnable_at b l' j"
      "first_idx (runnable_at b l) (scan_order (sd_rr_next b ! l)) = Some i" "runnable_at b l i"
proof -
  have "pick_level b [0..<MLFQ_LEVELS] = (r, s')"
    using assms by (simp add: pick_next_proc_def pick_next_proc_mlfq_def)
  from pick_level_cases [OF this] show thesis
  proof
    assume "r = None \<and> s' = b \<and> (\<forall>l \<in> set [0..<MLFQ_LEVELS]. \<forall>i. \<not> runnable_at b l i)"
    then show thesis by (intro none) auto
  next
    assume "\<exists>pre l post i. [0..<MLFQ_LEVELS] = pre @ l # post \<and> (\<forall>l' \<in> set pre. \<forall>i. \<not> runnable_at b l' i) \<and>
        first_idx (runnable_at b l) (scan_order (sd_rr_next b ! l)) = Some i \<and> r = Some i \<and> s' = pick_result b l i"
    then obtain pre l post i where *: "[0..<MLFQ_LEVELS] = pre @ l # post" "\<forall>l' \<in> set pre. \<forall>i. \<not> runnable_at b l' i"
        "first_idx (runnable_at b l) (scan_order (sd_rr_next b ! l)) = Some i" "r = Some i" "s' = pick_result b l i"
      by blast
    have "runnable_at b l i" using first_idx_SomeD [OF *(3)] by blast
    with upt_split_level [OF *(1)] * show thesis by (intro some [of i l]) auto
  qed
qed

section \<open>Bounded waiting\<close>

lemma boost_fields [simp]:
  "sd_rr_next (mlfq_boost_if_needed s) = sd_rr_next s" "sd_cpus (mlfq_boost_if_needed s) = sd_cpus s"
  "length (sd_procs (mlfq_boost_if_needed s)) = length (sd_procs s)"
  by (simp_all add: mlfq_boost_if_needed_def)

lemma pick_progress:
  assumes wf: "sched_wf s" and r: "runnable_at (mlfq_boost_if_needed s) l i" "l < MLFQ_LEVELS"
    and hi: "\<forall>l' < l. \<forall>j. \<not> runnable_at (mlfq_boost_if_needed s) l' j"
    and p: "pick_next_proc s = (q, s')"
  shows "q = Some i \<or> rr_dist (sd_rr_next s' ! l) i < rr_dist (sd_rr_next s ! l) i"
  using p
proof (cases rule: pick_cases)
  case none
  with r show ?thesis by blast
next
  case (some k j)
  let ?b = "mlfq_boost_if_needed s"
  have "k = l" using some(2,4,6) r hi by (metis linorder_neqE_nat)
  have len: "length (sd_rr_next s) = MLFQ_LEVELS" "sd_rr_next s ! l < NPROC"
    using wf r(2) by (auto simp: sched_wf_def)
  show ?thesis
  proof (cases "j = i")
    case False
    have "first_idx (runnable_at ?b l) (scan_order (sd_rr_next s ! l)) = Some j"
      using some(5) \<open>k = l\<close> by simp
    from rr_dist_decreases [OF len(2) _ r(1) this False] r(1)
    have "rr_dist ((j + 1) mod NPROC) i < rr_dist (sd_rr_next s ! l) i"
      by (simp add: runnable_at_def)
    moreover have "sd_rr_next s' ! l = (j + 1) mod NPROC"
      using some(3) \<open>k = l\<close> len r(2) by (simp add: pick_result_def)
    ultimately show ?thesis by simp
  qed (use some in simp)
qed

lemma bounded_wait:
  fixes S :: "nat \<Rightarrow> sched"
  assumes wf: "\<And>t. t < NPROC \<Longrightarrow> sched_wf (S t)" and l: "l < MLFQ_LEVELS"
    and r: "\<And>t. t < NPROC \<Longrightarrow> runnable_at (mlfq_boost_if_needed (S t)) l i"
    and hi: "\<And>t l' j. t < NPROC \<Longrightarrow> l' < l \<Longrightarrow> \<not> runnable_at (mlfq_boost_if_needed (S t)) l' j"
    and cursor: "\<And>t. sd_rr_next (S (Suc t)) ! l = sd_rr_next (snd (pick_next_proc (S t))) ! l"
  shows "\<exists>t < NPROC. fst (pick_next_proc (S t)) = Some i"
proof (rule ccontr)
  assume never: "\<not> (\<exists>t < NPROC. fst (pick_next_proc (S t)) = Some i)"
  have "rr_dist (sd_rr_next (S t) ! l) i + t \<le> rr_dist (sd_rr_next (S 0) ! l) i" if "t \<le> NPROC" for t
    using that
  proof (induction t)
    case (Suc t)
    obtain q s' where p: "pick_next_proc (S t) = (q, s')" by (cases "pick_next_proc (S t)")
    have t: "t < NPROC" using Suc.prems by simp
    have "q \<noteq> Some i" using never t p by (metis fst_conv)
    then have "rr_dist (sd_rr_next s' ! l) i < rr_dist (sd_rr_next (S t) ! l) i"
      using pick_progress [OF wf [OF t] r [OF t] l _ p] hi [OF t] by blast
    moreover have "sd_rr_next (S (Suc t)) ! l = sd_rr_next s' ! l" using cursor [of t] p by simp
    ultimately show ?case using Suc by simp
  qed simp
  from this [of 64] rr_dist_lt [of "sd_rr_next (S 0) ! l" i] show False by simp
qed

section \<open>Processes and CPUs\<close>

text \<open>A process is in the state \<^verbatim>\<open>RUNNING\<close> exactly when one CPU, and only one, runs it.\<close>

definition runs_ok :: "sched \<Rightarrow> bool" where
  "runs_ok s \<longleftrightarrow>
     (\<forall>c < NCPU. \<forall>i. c_proc (sd_cpus s ! c) = Some i \<longrightarrow> i < NPROC \<and> p_state (sd_procs s ! i) = RUNNING) \<and>
     (\<forall>i < NPROC. p_state (sd_procs s ! i) = RUNNING \<longrightarrow> (\<exists>c < NCPU. c_proc (sd_cpus s ! c) = Some i)) \<and>
     (\<forall>c < NCPU. \<forall>d < NCPU. \<forall>i. c_proc (sd_cpus s ! c) = Some i \<longrightarrow> c_proc (sd_cpus s ! d) = Some i \<longrightarrow> c = d)"

definition level_ok :: "proc \<Rightarrow> bool" where
  "level_ok p \<longleftrightarrow> 0 \<le> p_queue_level p \<and> p_queue_level p \<le> MLFQ_BOTTOM_LEVEL \<and> 0 \<le> p_sched_ticks p \<and>
     p_sched_ticks p < mlfq_time_slices ! nat (p_queue_level p)"

lemma level_cases:
  "level_ok p \<Longrightarrow> p_queue_level p = 0 \<or> p_queue_level p = 1 \<or> p_queue_level p = 2 \<or> p_queue_level p = 3"
  by (auto simp: level_ok_def)

lemma slice_pos: "0 \<le> l \<Longrightarrow> l \<le> 3 \<Longrightarrow> 0 < mlfq_time_slices ! nat l"
proof -
  assume "0 \<le> l" "l \<le> 3"
  then have "l = 0 \<or> l = 1 \<or> l = 2 \<or> l = 3" by auto
  then show ?thesis by (auto simp: mlfq_time_slices_def)
qed

lemma level_ok_yield: "level_ok p \<Longrightarrow> level_ok (sched_on_yield p)"
  using level_cases [of p] by (auto simp: level_ok_def sched_on_yield_def mlfq_time_slices_def Let_def)

lemma level_ok_zero_ticks: "level_ok p \<Longrightarrow> level_ok (p\<lparr>p_sched_ticks := 0\<rparr>)"
  by (auto simp: level_ok_def slice_pos)

lemma sched_wf_levels:
  "sched_wf s \<longleftrightarrow> length (sd_procs s) = NPROC \<and> length (sd_cpus s) = NCPU \<and>
     length (sd_rr_next s) = MLFQ_LEVELS \<and> (\<forall>l < MLFQ_LEVELS. sd_rr_next s ! l < NPROC) \<and>
     (\<forall>i < NPROC. level_ok (sd_procs s ! i))"
  by (simp add: sched_wf_def level_ok_def)

text \<open>
  What every scheduling operation leaves alone: \<open>quiet s s'\<close> holds when no process changed between
  running and not running and no CPU changed its process.
\<close>

definition quiet :: "sched \<Rightarrow> sched \<Rightarrow> bool" where
  "quiet s s' \<longleftrightarrow> length (sd_procs s') = length (sd_procs s) \<and> length (sd_cpus s') = length (sd_cpus s) \<and>
     (\<forall>i < length (sd_procs s). (p_state (sd_procs s' ! i) = RUNNING) = (p_state (sd_procs s ! i) = RUNNING)) \<and>
     (\<forall>c < length (sd_cpus s). c_proc (sd_cpus s' ! c) = c_proc (sd_cpus s ! c))"

lemma quiet_refl [simp]: "quiet s s"
  by (simp add: quiet_def)

lemma quiet_trans: "quiet s s1 \<Longrightarrow> quiet s1 s2 \<Longrightarrow> quiet s s2"
  by (auto simp: quiet_def)

lemma quiet_runs_ok: "sched_wf s \<Longrightarrow> quiet s s' \<Longrightarrow> runs_ok s \<Longrightarrow> runs_ok s'"
  unfolding quiet_def runs_ok_def sched_wf_def by (intro conjI) (metis+)

text \<open>Replacing one process by one with a valid level, in the same half of the state space.\<close>

lemma set_proc_quiet:
  assumes "sched_wf s" and "level_ok (f (sd_procs s ! i))"
    and "p_state (f (sd_procs s ! i)) = RUNNING \<longleftrightarrow> p_state (sd_procs s ! i) = RUNNING"
  shows "sched_wf (set_proc s i f)" and "quiet s (set_proc s i f)"
  using assms by (auto simp: sched_wf_levels set_proc_def quiet_def nth_upd)

lemma map_procs_quiet:
  assumes "sched_wf s" and "\<And>p. level_ok p \<Longrightarrow> level_ok (f p)"
    and "\<And>p. p_state (f p) = RUNNING \<longleftrightarrow> p_state p = RUNNING"
  shows "sched_wf (s\<lparr>sd_procs := map f (sd_procs s)\<rparr>)" and "quiet s (s\<lparr>sd_procs := map f (sd_procs s)\<rparr>)"
  using assms by (auto simp: sched_wf_levels quiet_def)

lemma account_quiet: "sched_wf s \<Longrightarrow> sched_wf (account_runnable_wait s) \<and> quiet s (account_runnable_wait s)"
  unfolding account_runnable_wait_def
  by (intro conjI map_procs_quiet) (auto simp: level_ok_def)

lemma boost_quiet: "sched_wf s \<Longrightarrow> sched_wf (mlfq_boost_if_needed s) \<and> quiet s (mlfq_boost_if_needed s)"
  using map_procs_quiet [of s boost_proc]
  by (auto simp: mlfq_boost_if_needed_def sched_wf_def quiet_def boost_proc_def level_ok_def mlfq_time_slices_def)

lemma pick_result_quiet:
  assumes "sched_wf s" and "l < MLFQ_LEVELS"
  shows "sched_wf (pick_result s l i)" and "quiet s (pick_result s l i)"
  using assms by (auto simp: sched_wf_levels pick_result_def quiet_def nth_upd level_ok_def)

lemma pick_quiet:
  assumes "sched_wf s" and "pick_next_proc s = (r, s')"
  shows "sched_wf s' \<and> quiet s s' \<and> (\<forall>i. r = Some i \<longrightarrow> i < NPROC \<and> p_state (sd_procs s' ! i) = RUNNABLE)"
  using assms(2)
proof (cases rule: pick_cases)
  case none
  then show ?thesis using boost_quiet [OF assms(1)] by simp
next
  case (some l j)
  note B = boost_quiet [OF assms(1)]
  have "sched_wf s' \<and> quiet s s'"
    using some(2,3) B pick_result_quiet quiet_trans by metis
  then show ?thesis
    using some B by (auto simp: pick_result_def runnable_at_def sched_wf_def)
qed

lemma promote_cpus_quiet:
  "promote_cpus ps lvl cs n = (cs', n') \<Longrightarrow>
    length cs' = length cs \<and> (\<forall>c < length cs. c_proc (cs' ! c) = c_proc (cs ! c))"
proof (induction cs arbitrary: n cs' n')
  case (Cons c cs)
  obtain cs1 n1 where r: "promote_cpus ps lvl cs (if (case c_proc c of None \<Rightarrow> False
      | Some cur \<Rightarrow> p_state (ps ! cur) = RUNNING \<and> lvl < p_queue_level (ps ! cur)) then n + 1 else n) = (cs1, n1)"
    by fastforce
  from Cons.IH [OF r] Cons.prems r show ?case
    by (auto simp: Let_def nth_Cons split: nat.split)
qed simp

lemma promote_proc_ok: "level_ok p \<Longrightarrow> level_ok (promote_proc p reason) \<and> p_state (promote_proc p reason) = p_state p"
  by (auto simp: promote_proc_def Let_def level_ok_def slice_pos)

lemma promote_quiet:
  assumes "sched_wf s" and "i < NPROC"
  shows "sched_wf (mlfq_promote_on_wakeup s i reason) \<and> quiet s (mlfq_promote_on_wakeup s i reason)"
proof (cases "reason = WAKEUP_IO \<or> reason = WAKEUP_DEVICE")
  case True
  let ?q = "promote_proc (sd_procs s ! i) reason"
  obtain cs n where cs: "promote_cpus ((sd_procs s)[i := ?q]) (p_queue_level ?q) (sd_cpus s) (sd_preempt_count s) = (cs, n)"
    by fastforce
  have q: "level_ok ?q" "p_state ?q = p_state (sd_procs s ! i)"
    using assms promote_proc_ok by (auto simp: sched_wf_levels)
  have "mlfq_promote_on_wakeup s i reason = s\<lparr>sd_procs := (sd_procs s)[i := ?q], sd_cpus := cs, sd_preempt_count := n\<rparr>"
    using True cs by (simp add: mlfq_promote_on_wakeup_def Let_def)
  then show ?thesis
    using assms(1) q promote_cpus_quiet [OF cs] by (simp add: sched_wf_levels quiet_def nth_upd)
qed (simp add: mlfq_promote_on_wakeup_def assms)

lemma wakeup_loop_quiet:
  "sched_wf s \<Longrightarrow> \<forall>i \<in> set is. i < NPROC \<Longrightarrow>
    sched_wf (wakeup_loop s chan reason is) \<and> quiet s (wakeup_loop s chan reason is)"
proof (induction "is" arbitrary: s)
  case (Cons i "is")
  let ?f = "\<lambda>p. p\<lparr>p_state := RUNNABLE, p_last_wakeup_reason := reason\<rparr>"
  define s1 where "s1 = (if p_state (sd_procs s ! i) = SLEEPING \<and> p_chan (sd_procs s ! i) = chan
        then mlfq_promote_on_wakeup (set_proc s i ?f) i reason else s)"
  have "sched_wf s1 \<and> quiet s s1"
  proof (cases "p_state (sd_procs s ! i) = SLEEPING \<and> p_chan (sd_procs s ! i) = chan")
    case True
    have "level_ok (?f (sd_procs s ! i))"
      using Cons.prems by (simp add: sched_wf_levels level_ok_def)
    then have "sched_wf (set_proc s i ?f)" "quiet s (set_proc s i ?f)"
      using set_proc_quiet [of s ?f i] Cons.prems(1) True by simp_all
    with promote_quiet [OF this(1), of i reason] Cons.prems(2) True show ?thesis
      unfolding s1_def using quiet_trans by auto
  next
    case False
    then show ?thesis unfolding s1_def if_not_P [OF False] using Cons.prems(1) by simp
  qed
  moreover have "sched_wf (wakeup_loop s1 chan reason is) \<and> quiet s1 (wakeup_loop s1 chan reason is)"
    using Cons.IH [of s1] calculation Cons.prems(2) by simp
  ultimately show ?case
    using quiet_trans by (auto simp: s1_def)
qed simp

text \<open>A CPU starts to run a process, and stops running it.\<close>

lemma run_proc_ok:
  assumes "sched_wf s" and "runs_ok s" and "c < NCPU" and "c_proc (sd_cpus s ! c) = None"
    and "i < NPROC" and "p_state (sd_procs s ! i) \<noteq> RUNNING"
  shows "sched_wf (run_proc s c i)" and "runs_ok (run_proc s c i)"
proof -
  show "sched_wf (run_proc s c i)"
    using assms by (simp add: sched_wf_levels run_proc_def set_proc_def set_cpu_def nth_upd level_ok_def)
  have p: "p_state (sd_procs (run_proc s c i) ! j) = (if j = i then RUNNING else p_state (sd_procs s ! j))"
    if "j < NPROC" for j
    using assms(1,5) that by (auto simp: sched_wf_def run_proc_def set_proc_def set_cpu_def nth_upd)
  have q: "c_proc (sd_cpus (run_proc s c i) ! d) = (if d = c then Some i else c_proc (sd_cpus s ! d))"
    if "d < NCPU" for d
    using assms(1,3) that by (auto simp: sched_wf_def run_proc_def set_proc_def set_cpu_def nth_upd)
  show "runs_ok (run_proc s c i)"
    unfolding runs_ok_def
  proof (intro conjI allI impI)
    fix d j assume d: "d < NCPU" "c_proc (sd_cpus (run_proc s c i) ! d) = Some j"
    show "j < NPROC" and "p_state (sd_procs (run_proc s c i) ! j) = RUNNING"
      using d q [OF d(1)] p [of j] assms(2,5) unfolding runs_ok_def by (auto split: if_splits)
  next
    fix j assume j: "j < NPROC" "p_state (sd_procs (run_proc s c i) ! j) = RUNNING"
    show "\<exists>d < NCPU. c_proc (sd_cpus (run_proc s c i) ! d) = Some j"
    proof (cases "j = i")
      case True
      with q [OF assms(3)] assms(3) show ?thesis by auto
    next
      case False
      with j p [OF j(1)] assms(2) obtain d where "d < NCPU" "c_proc (sd_cpus s ! d) = Some j"
        unfolding runs_ok_def by auto
      with q [of d] assms(4) show ?thesis by (intro exI [of _ d]) auto
    qed
  next
    fix d e j assume "d < NCPU" "e < NCPU" "c_proc (sd_cpus (run_proc s c i) ! d) = Some j"
      "c_proc (sd_cpus (run_proc s c i) ! e) = Some j"
    with q [of d] q [of e] assms(2,6) show "d = e"
      unfolding runs_ok_def by (metis option.inject)
  qed
qed

lemma stop_proc_ok:
  assumes "sched_wf s" and "runs_ok s" and "c < NCPU" and "c_proc (sd_cpus s ! c) = Some i"
    and "level_ok (f (sd_procs s ! i))" and "p_state (f (sd_procs s ! i)) \<noteq> RUNNING"
  defines "s' \<equiv> run_proc_back (set_proc s i f) c"
  shows "sched_wf s'" and "runs_ok s'"
proof -
  have i: "i < NPROC" using assms(2,3,4) by (auto simp: runs_ok_def)
  show "sched_wf s'"
    using assms i by (simp add: sched_wf_levels s'_def run_proc_back_def set_proc_def set_cpu_def nth_upd)
  have p: "p_state (sd_procs s' ! j) = (if j = i then p_state (f (sd_procs s ! i)) else p_state (sd_procs s ! j))"
    if "j < NPROC" for j
    using assms(1) i that by (auto simp: sched_wf_def s'_def run_proc_back_def set_proc_def set_cpu_def nth_upd)
  have q: "c_proc (sd_cpus s' ! d) = (if d = c then None else c_proc (sd_cpus s ! d))" if "d < NCPU" for d
    using assms(1,3) that by (auto simp: sched_wf_def s'_def run_proc_back_def set_proc_def set_cpu_def nth_upd)
  show "runs_ok s'"
    unfolding runs_ok_def
  proof (intro conjI allI impI)
    fix d j assume d: "d < NCPU" "c_proc (sd_cpus s' ! d) = Some j"
    then have old: "d \<noteq> c" "c_proc (sd_cpus s ! d) = Some j" using q by (auto split: if_splits)
    then have "j \<noteq> i" using assms(2,3,4) d(1) unfolding runs_ok_def by blast
    with old d(1) p [of j] assms(2) show "j < NPROC" and "p_state (sd_procs s' ! j) = RUNNING"
      unfolding runs_ok_def by auto
  next
    fix j assume j: "j < NPROC" "p_state (sd_procs s' ! j) = RUNNING"
    then have "j \<noteq> i" using p assms(6) by auto
    with j p assms(2) obtain d where "d < NCPU" "c_proc (sd_cpus s ! d) = Some j"
      unfolding runs_ok_def by auto
    with q [of d] assms(4) \<open>j \<noteq> i\<close> show "\<exists>d < NCPU. c_proc (sd_cpus s' ! d) = Some j"
      by (intro exI [of _ d]) auto
  next
    fix d e j assume "d < NCPU" "e < NCPU" "c_proc (sd_cpus s' ! d) = Some j" "c_proc (sd_cpus s' ! e) = Some j"
    with q [of d] q [of e] assms(2) show "d = e" unfolding runs_ok_def by (metis option.distinct(1))
  qed
qed

section \<open>The machine\<close>

text \<open>
  The interleavings of two CPUs: idle CPUs schedule, busy ones yield, sleep or exit, timer
  interrupts count ticks, wakeups and signals arrive, \<^verbatim>\<open>fork\<close> turns a free slot into a runnable
  process and \<^verbatim>\<open>wait\<close> frees a zombie.
\<close>

inductive sched_step :: "sched \<Rightarrow> sched \<Rightarrow> bool" where
  schedule: "c < NCPU \<Longrightarrow> c_proc (sd_cpus s ! c) = None \<Longrightarrow> sched_step s (scheduler s c)"
| tick: "sched_step s (s\<lparr>sd_ticks := sd_ticks s + 1\<rparr>)"
| yields: "c < NCPU \<Longrightarrow> c_proc (sd_cpus s ! c) = Some i \<Longrightarrow> sched_step s (yield s c i)"
| sleeps: "c < NCPU \<Longrightarrow> c_proc (sd_cpus s ! c) = Some i \<Longrightarrow> sched_step s (snd (sleep_on s c i chan intr))"
| resumes: "c < NCPU \<Longrightarrow> c_proc (sd_cpus s ! c) = Some i \<Longrightarrow> sched_step s (snd (sleep_on_back s i intr))"
| wakes: "sched_step s (wakeup_reason s chan reason)"
| signals: "sched_step s (s\<lparr>sd_procs := snd (signal_send_pgrp (sd_procs s) pgid signum)\<rparr>)"
| reparents: "sched_step s (reparent s i)"
| exits: "c < NCPU \<Longrightarrow> c_proc (sd_cpus s ! c) = Some i \<Longrightarrow>
    sched_step s (run_proc_back (set_proc s i (\<lambda>p. p\<lparr>p_xstate := status, p_state := ZOMBIE\<rparr>)) c)"
| forks: "i < NPROC \<Longrightarrow> p_state (sd_procs s ! i) = UNUSED \<Longrightarrow> p_state p = RUNNABLE \<Longrightarrow>
    p_queue_level p = MLFQ_TOP_LEVEL \<Longrightarrow> p_sched_ticks p = 0 \<Longrightarrow> sched_step s (set_proc s i (\<lambda>_. p))"
| reaps: "i < NPROC \<Longrightarrow> p_state (sd_procs s ! i) = ZOMBIE \<Longrightarrow>
    sched_step s (set_proc s i (\<lambda>p. p\<lparr>p_state := UNUSED, p_queue_level := MLFQ_TOP_LEVEL, p_sched_ticks := 0\<rparr>))"

inductive sched_reachable :: "sched \<Rightarrow> bool" where
  boot: "sched_reachable (procinit s)"
| step: "sched_reachable s \<Longrightarrow> sched_step s s' \<Longrightarrow> sched_reachable s'"

lemma mark_level_ok: "level_ok (signal_mark_locked p n) = level_ok p"
  and mark_running: "p_state (signal_mark_locked p n) = RUNNING \<longleftrightarrow> p_state p = RUNNING"
  by (auto simp: signal_mark_locked_def Let_def level_ok_def)

lemma scheduler_ok:
  assumes "sched_wf s" and "runs_ok s" and "c < NCPU" and "c_proc (sd_cpus s ! c) = None"
  shows "sched_wf (scheduler s c) \<and> runs_ok (scheduler s c)"
proof -
  let ?a = "account_runnable_wait s"
  obtain r s1 where p: "pick_next_proc ?a = (r, s1)" by (cases "pick_next_proc ?a")
  have A: "sched_wf ?a" "quiet s ?a" using account_quiet [OF assms(1)] by auto
  note P = pick_quiet [OF A(1) p]
  have ok1: "sched_wf s1" "runs_ok s1" and q: "quiet s s1"
    using P quiet_runs_ok quiet_trans A(2) assms by blast+
  show ?thesis
  proof (cases r)
    case None
    with ok1 p show ?thesis by (simp add: scheduler_def)
  next
    case (Some i)
    let ?s2 = "set_cpu s1 c (\<lambda>cp. cp\<lparr>c_need_resched := False\<rparr>)"
    have len: "length (sd_cpus s1) = NCPU" "length (sd_procs s1) = NPROC" using ok1 by (auto simp: sched_wf_def)
    have "sched_wf ?s2" using ok1(1) by (simp add: sched_wf_def set_cpu_def)
    moreover have "quiet s1 ?s2" using len by (simp add: quiet_def set_cpu_def nth_upd)
    then have "runs_ok ?s2" using quiet_runs_ok [OF ok1(1)] ok1(2) by blast
    moreover have "c_proc (sd_cpus ?s2 ! c) = None" "p_state (sd_procs ?s2 ! i) \<noteq> RUNNING" "i < NPROC"
      using q assms len P Some by (auto simp: quiet_def set_cpu_def nth_upd sched_wf_def)
    ultimately show ?thesis
      using run_proc_ok [of ?s2 c i] assms(3) p Some by (simp add: scheduler_def)
  qed
qed

lemma sched_step_ok: "sched_step s s' \<Longrightarrow> sched_wf s \<Longrightarrow> runs_ok s \<Longrightarrow> sched_wf s' \<and> runs_ok s'"
proof (induction rule: sched_step.induct)
  case (schedule c s)
  then show ?case using scheduler_ok by blast
next
  case (tick s)
  then show ?case by (simp add: sched_wf_def runs_ok_def)
next
  case (yields c s i)
  then have "level_ok (sd_procs s ! i)" by (auto simp: sched_wf_levels runs_ok_def)
  then have "level_ok ((sched_on_yield (sd_procs s ! i))\<lparr>p_state := RUNNABLE\<rparr>)"
    using level_ok_yield by (simp add: level_ok_def)
  then show ?case
    unfolding yield_def using yields by (intro conjI stop_proc_ok) simp_all
next
  case (sleeps c s i chan intr)
  then have "level_ok (sd_procs s ! i)" by (auto simp: sched_wf_levels runs_ok_def)
  then have "level_ok ((sd_procs s ! i)\<lparr>p_chan := chan, p_interruptible_sleep := intr, p_state := SLEEPING, p_sched_ticks := 0\<rparr>)"
    using slice_pos by (simp add: level_ok_def)
  then show ?case
    unfolding sleep_on_def using sleeps by (auto intro!: stop_proc_ok)
next
  case (resumes c s i intr)
  let ?f = "\<lambda>p. p\<lparr>p_chan := 0, p_interruptible_sleep := False\<rparr>"
  have "level_ok (?f (sd_procs s ! i))" using resumes by (auto simp: sched_wf_levels runs_ok_def level_ok_def)
  then have "sched_wf (set_proc s i ?f)" "quiet s (set_proc s i ?f)"
    using set_proc_quiet [of s ?f i] resumes by simp_all
  then show ?case using resumes quiet_runs_ok by (simp add: sleep_on_back_def Let_def)
next
  case (wakes s chan reason)
  then show ?case
    using wakeup_loop_quiet [of s "[0..<NPROC]" chan reason] quiet_runs_ok by (simp add: wakeup_reason_def)
next
  case (signals s pgid signum)
  let ?f = "\<lambda>p. if p_state p \<noteq> UNUSED \<and> p_pgid p = pgid then signal_mark_locked p signum else p"
  have "sched_wf (s\<lparr>sd_procs := map ?f (sd_procs s)\<rparr>)" "quiet s (s\<lparr>sd_procs := map ?f (sd_procs s)\<rparr>)"
    using map_procs_quiet [of s ?f] signals by (auto simp: mark_level_ok mark_running)
  then show ?case
    using signals quiet_runs_ok by (auto simp: signal_send_pgrp_def Let_def)
next
  case (reparents s i)
  let ?f = "\<lambda>pp. if p_parent pp = Some i then pp\<lparr>p_parent := sd_initproc s\<rparr> else pp"
  have "sched_wf (s\<lparr>sd_procs := map ?f (sd_procs s)\<rparr>)" "quiet s (s\<lparr>sd_procs := map ?f (sd_procs s)\<rparr>)"
    using map_procs_quiet [of s ?f] reparents by (auto simp: level_ok_def)
  then show ?case using reparents quiet_runs_ok by (simp add: reparent_def)
next
  case (exits c s i status)
  then have "level_ok (sd_procs s ! i)" by (auto simp: sched_wf_levels runs_ok_def)
  then have "level_ok ((sd_procs s ! i)\<lparr>p_xstate := status, p_state := ZOMBIE\<rparr>)" by (simp add: level_ok_def)
  then show ?case using exits by (intro conjI stop_proc_ok) simp_all
next
  case (forks i s p)
  then have "sched_wf (set_proc s i (\<lambda>_. p))" "quiet s (set_proc s i (\<lambda>_. p))"
    using set_proc_quiet [of s "\<lambda>_. p" i] by (simp_all add: level_ok_def mlfq_time_slices_def)
  then show ?case using forks quiet_runs_ok by blast
next
  case (reaps i s)
  let ?f = "\<lambda>p. p\<lparr>p_state := UNUSED, p_queue_level := MLFQ_TOP_LEVEL, p_sched_ticks := 0\<rparr>"
  have "sched_wf (set_proc s i ?f)" "quiet s (set_proc s i ?f)"
    using set_proc_quiet [of s ?f i] reaps by (simp_all add: level_ok_def mlfq_time_slices_def)
  then show ?case using reaps quiet_runs_ok by blast
qed

lemma procinit_ok: "sched_wf (procinit s) \<and> runs_ok (procinit s)"
  by (simp add: procinit_def sched_wf_levels runs_ok_def level_ok_def proc_zero_def cpu_zero_def mlfq_time_slices_def)

lemma sched_reachable_ok: "sched_reachable s \<Longrightarrow> sched_wf s \<and> runs_ok s"
proof (induction rule: sched_reachable.induct)
  case (boot s)
  then show ?case by (rule procinit_ok)
next
  case (step s s')
  then show ?case using sched_step_ok by blast
qed

section \<open>Properties\<close>

text \<open>
  C4: in every state that the two CPUs can reach from boot, through any interleaving of scheduling,
  yields, sleeps, wakeups, signals, forks, exits and timer ticks, a process is \<^verbatim>\<open>RUNNING\<close> exactly when
  one CPU runs it, no two CPUs run the same process, and every queue level and slice counter is
  within the bounds of its tables.
\<close>

theorem sched_exclusive_cpus:
  assumes "sched_reachable s"
  shows "(\<forall>i < NPROC. p_state (sd_procs s ! i) = RUNNING \<longleftrightarrow> (\<exists>c < NCPU. c_proc (sd_cpus s ! c) = Some i)) \<and>
    (\<forall>c < NCPU. \<forall>d < NCPU. c \<noteq> d \<longrightarrow> c_proc (sd_cpus s ! c) \<noteq> None \<longrightarrow> c_proc (sd_cpus s ! c) \<noteq> c_proc (sd_cpus s ! d)) \<and>
    sched_wf s"
  using sched_reachable_ok [OF assms] unfolding runs_ok_def by (metis not_None_eq)

definition sched_boot :: sched where
  "sched_boot = procinit \<lparr>sd_procs = [], sd_cpus = [], sd_rr_next = [], sd_last_boost = 0, sd_preempt_count = 0,
     sd_global_rr_next = 0, sd_ticks = 0, sd_nextpid = 1, sd_initproc = None\<rparr>"

theorem sched_exclusive_cpus_witness:
  "sched_wf (scheduler (set_proc sched_boot 5 (\<lambda>_. proc_zero\<lparr>p_state := RUNNABLE\<rparr>)) 1)"
proof -
  let ?s = "set_proc sched_boot 5 (\<lambda>_. proc_zero\<lparr>p_state := RUNNABLE\<rparr>)"
  have "sched_reachable sched_boot" unfolding sched_boot_def by (rule sched_reachable.boot)
  moreover have "sched_step sched_boot ?s"
    by (rule sched_step.forks) (simp_all add: sched_boot_def procinit_def proc_zero_def)
  ultimately have "sched_reachable ?s" by (rule sched_reachable.step)
  moreover have "sched_step ?s (scheduler ?s 1)"
    by (rule sched_step.schedule) (simp_all add: sched_boot_def procinit_def set_proc_def cpu_zero_def)
  ultimately have "sched_reachable (scheduler ?s 1)" by (rule sched_reachable.step)
  from sched_exclusive_cpus [OF this] show ?thesis by blast
qed

text \<open>
  the scheduler picks by priority. \<^verbatim>\<open>pick_next_proc\<close> returns nothing exactly when no process is
  runnable; a process it returns is runnable and no runnable process has a higher priority, that
  is a lower queue level, after the boost that the pick may begin with.
\<close>

theorem pick_highest_priority:
  assumes "sched_wf s" and "pick_next_proc s = (r, s')"
  shows "case r of
      None \<Rightarrow> \<forall>j < NPROC. p_state (sd_procs s ! j) \<noteq> RUNNABLE
    | Some i \<Rightarrow> i < NPROC \<and> p_state (sd_procs s ! i) = RUNNABLE \<and>
        (\<forall>j < NPROC. p_state (sd_procs s ! j) = RUNNABLE \<longrightarrow>
           p_queue_level (sd_procs s' ! i) \<le> p_queue_level (sd_procs s' ! j))"
proof -
  let ?b = "mlfq_boost_if_needed s"
  have bw: "sched_wf ?b" using boost_quiet [OF assms(1)] by blast
  have st: "p_state (sd_procs ?b ! j) = p_state (sd_procs s ! j)" if "j < NPROC" for j
    using assms(1) that by (auto simp: mlfq_boost_if_needed_def boost_proc_def sched_wf_def)
  have lvl: "runnable_at ?b (nat (p_queue_level (sd_procs ?b ! j))) j \<and> nat (p_queue_level (sd_procs ?b ! j)) < MLFQ_LEVELS"
    if "j < NPROC" "p_state (sd_procs s ! j) = RUNNABLE" for j
    using that st [OF that(1)] bw by (auto simp: runnable_at_def sched_wf_def)
  from assms(2) show ?thesis
  proof (cases rule: pick_cases)
    case none
    with lvl show ?thesis by auto
  next
    case (some l i)
    have s': "p_queue_level (sd_procs s' ! j) = p_queue_level (sd_procs ?b ! j)" for j
      using some(3) by (simp add: pick_result_def nth_upd)
    have i: "i < NPROC" "p_state (sd_procs s ! i) = RUNNABLE" "p_queue_level (sd_procs ?b ! i) = int l"
      using some(6) st by (auto simp: runnable_at_def)
    have "int l \<le> p_queue_level (sd_procs ?b ! j)" if "j < NPROC" "p_state (sd_procs s ! j) = RUNNABLE" for j
      using lvl [OF that] some(4) by (metis linorder_not_less nat_int nat_less_iff of_nat_less_iff runnable_at_def)
    with some(1) i s' show ?thesis by simp
  qed
qed

definition two_levels :: sched where
  "two_levels = set_proc (set_proc sched_boot 3 (\<lambda>_. proc_zero\<lparr>p_state := RUNNABLE, p_queue_level := 2\<rparr>))
     9 (\<lambda>_. proc_zero\<lparr>p_state := RUNNABLE, p_queue_level := 1\<rparr>)"

theorem pick_highest_priority_witness: "fst (pick_next_proc two_levels) \<noteq> None"
proof
  assume "fst (pick_next_proc two_levels) = None"
  then obtain s' where p: "pick_next_proc two_levels = (None, s')" by (metis prod.collapse)
  have "sched_wf two_levels"
    by (simp add: two_levels_def sched_wf_levels sched_boot_def procinit_def set_proc_def nth_upd level_ok_def
        proc_zero_def mlfq_time_slices_def)
  from pick_highest_priority [OF this p] have "p_state (sd_procs two_levels ! 9) \<noteq> RUNNABLE" by simp
  then show False by (simp add: two_levels_def sched_boot_def procinit_def set_proc_def nth_upd)
qed

text \<open>
  C5: waiting is bounded within a priority level. A process that stays runnable at a level while no
  process at a higher priority is runnable is picked within the next 64 picks, whatever else
  happens to the other processes between the picks.
\<close>

theorem mlfq_bounded_wait:
  fixes S :: "nat \<Rightarrow> sched"
  assumes "\<And>t. t < NPROC \<Longrightarrow> sched_wf (S t)" and "l < MLFQ_LEVELS"
    and "\<And>t. t < NPROC \<Longrightarrow> runnable_at (mlfq_boost_if_needed (S t)) l i"
    and "\<And>t l' j. t < NPROC \<Longrightarrow> l' < l \<Longrightarrow> \<not> runnable_at (mlfq_boost_if_needed (S t)) l' j"
    and "\<And>t. sd_rr_next (S (Suc t)) ! l = sd_rr_next (snd (pick_next_proc (S t))) ! l"
  shows "\<exists>t < NPROC. fst (pick_next_proc (S t)) = Some i"
  using bounded_wait [of S, OF assms] .

text \<open>Two processes at the top level that are always runnable, picked again and again.\<close>

definition two_ready :: "nat \<Rightarrow> sched" where
  "two_ready t = ((\<lambda>s. snd (pick_next_proc s)) ^^ t)
     (set_proc (set_proc sched_boot 3 (\<lambda>_. proc_zero\<lparr>p_state := RUNNABLE\<rparr>)) 9 (\<lambda>_. proc_zero\<lparr>p_state := RUNNABLE\<rparr>))"

lemma pick_keeps_ready:
  assumes "sched_wf s" and "sd_ticks s = 0" and "sd_last_boost s = 0" and "runnable_at s 0 i"
  shows "sched_wf (snd (pick_next_proc s)) \<and> sd_ticks (snd (pick_next_proc s)) = 0 \<and>
    sd_last_boost (snd (pick_next_proc s)) = 0 \<and> runnable_at (snd (pick_next_proc s)) 0 i"
proof -
  obtain r s' where p: "pick_next_proc s = (r, s')" by (cases "pick_next_proc s")
  have b: "mlfq_boost_if_needed s = s" using assms(2,3) by (simp add: mlfq_boost_if_needed_def)
  have "sched_wf s'" using pick_quiet [OF assms(1) p] by blast
  with p show ?thesis
  proof (cases rule: pick_cases)
    case (some l j)
    with assms b p \<open>sched_wf s'\<close> show ?thesis by (simp add: pick_result_def runnable_at_def nth_upd)
  qed (use assms b p \<open>sched_wf s'\<close> in simp)
qed

lemma two_ready_ok:
  "sched_wf (two_ready t) \<and> sd_ticks (two_ready t) = 0 \<and> sd_last_boost (two_ready t) = 0 \<and> runnable_at (two_ready t) 0 9"
proof (induction t)
  case 0
  show ?case
    by (simp add: two_ready_def sched_wf_levels sched_boot_def procinit_def set_proc_def nth_upd level_ok_def proc_zero_def
        mlfq_time_slices_def runnable_at_def)
next
  case (Suc t)
  then show ?case
    using pick_keeps_ready [of "two_ready t" 9] by (simp add: two_ready_def)
qed

theorem mlfq_bounded_wait_witness: "\<exists>t < NPROC. fst (pick_next_proc (two_ready t)) = Some 9"
proof (rule mlfq_bounded_wait [where l = 0])
  show "sd_rr_next (two_ready (Suc t)) ! 0 = sd_rr_next (snd (pick_next_proc (two_ready t))) ! 0" for t
    by (simp add: two_ready_def)
qed (use two_ready_ok in \<open>auto simp: mlfq_boost_if_needed_def\<close>)

lemma sched_on_yield_fields:
  defines "over \<equiv> \<lambda>p. mlfq_time_slices ! nat (p_queue_level p) \<le> p_sched_ticks p + 1"
  shows "p_queue_level (sched_on_yield p) =
      (if over p \<and> p_queue_level p < MLFQ_BOTTOM_LEVEL then p_queue_level p + 1 else p_queue_level p)"
    and "p_sched_ticks (sched_on_yield p) = (if over p then 0 else p_sched_ticks p + 1)"
    and "p_total_run_ticks (sched_on_yield p) = p_total_run_ticks p + 1"
  by (simp_all add: sched_on_yield_def Let_def over_def)

lemma yield_level:
  assumes "p_queue_level p = 0" and "p_sched_ticks p = 0"
  shows "p_queue_level ((sched_on_yield ^^ n) p) = (if n < 1 then 0 else if n < 3 then 1 else if n < 7 then 2 else 3) \<and>
    p_sched_ticks ((sched_on_yield ^^ n) p) =
      (if n < 1 then 0 else if n < 3 then int n - 1 else if n < 7 then int n - 3 else (int n - 7) mod 8) \<and>
    p_total_run_ticks ((sched_on_yield ^^ n) p) = p_total_run_ticks p + of_nat n"
proof (induction n)
  case 0
  then show ?case using assms by simp
next
  case (Suc n)
  define q where "q = (sched_on_yield ^^ n) p"
  have e: "(sched_on_yield ^^ Suc n) p = sched_on_yield q" by (simp add: q_def)
  note IH = Suc [folded q_def]
  have m: "(int n - 7) mod 8 + 1 = 8 \<and> (int (Suc n) - 7) mod 8 = 0 \<or>
      (int n - 7) mod 8 + 1 < 8 \<and> (int (Suc n) - 7) mod 8 = (int n - 7) mod 8 + 1"
    by presburger
  show ?case
  proof (cases "n < 7")
    case True
    then have "n = 0 \<or> n = 1 \<or> n = 2 \<or> n = 3 \<or> n = 4 \<or> n = 5 \<or> n = 6" by presburger
    then show ?thesis
      unfolding e using IH by (elim disjE) (simp_all add: sched_on_yield_fields mlfq_time_slices_def)
  next
    case False
    then show ?thesis
      unfolding e using IH m by (auto simp: sched_on_yield_fields mlfq_time_slices_def)
  qed
qed

text \<open>
  demotion follows the slice table. A process that starts at the top level and uses every timer
  slice it gets sits at level 0 for 1 tick, level 1 for 2, level 2 for 4 and at level 3 for ever
  after, and each tick is counted in its run time.
\<close>

theorem mlfq_demotion_schedule:
  assumes "p_queue_level p = 0" and "p_sched_ticks p = 0"
  shows "p_queue_level ((sched_on_yield ^^ n) p) = (if n < 1 then 0 else if n < 3 then 1 else if n < 7 then 2 else 3) \<and>
    p_total_run_ticks ((sched_on_yield ^^ n) p) = p_total_run_ticks p + of_nat n"
  using yield_level [OF assms] by simp

theorem mlfq_demotion_schedule_witness: "p_queue_level ((sched_on_yield ^^ 5) proc_zero) = 2"
  using mlfq_demotion_schedule [of proc_zero 5] by (simp add: proc_zero_def)

lemma promote_state:
  assumes "i < length (sd_procs s)"
  shows "length (sd_procs (mlfq_promote_on_wakeup s i r)) = length (sd_procs s)"
    and "p_state (sd_procs (mlfq_promote_on_wakeup s i r) ! j) = p_state (sd_procs s ! j)"
    and "p_chan (sd_procs (mlfq_promote_on_wakeup s i r) ! j) = p_chan (sd_procs s ! j)"
  by (auto simp: mlfq_promote_on_wakeup_def Let_def nth_upd promote_proc_def split: prod.split)

lemma wakeup_loop_state:
  assumes "\<forall>i \<in> set is. i < length (sd_procs s)" and "j < length (sd_procs s)"
  shows "p_state (sd_procs (wakeup_loop s chan r is) ! j) =
    (if j \<in> set is \<and> p_state (sd_procs s ! j) = SLEEPING \<and> p_chan (sd_procs s ! j) = chan then RUNNABLE
     else p_state (sd_procs s ! j))"
  using assms
proof (induction "is" arbitrary: s)
  case (Cons i "is")
  define s1 where "s1 = (if p_state (sd_procs s ! i) = SLEEPING \<and> p_chan (sd_procs s ! i) = chan
    then mlfq_promote_on_wakeup (set_proc s i (\<lambda>p. p\<lparr>p_state := RUNNABLE, p_last_wakeup_reason := r\<rparr>)) i r else s)"
  have s1: "length (sd_procs s1) = length (sd_procs s)"
    "p_state (sd_procs s1 ! j) = (if i = j \<and> p_state (sd_procs s ! j) = SLEEPING \<and> p_chan (sd_procs s ! j) = chan
       then RUNNABLE else p_state (sd_procs s ! j))"
    "p_chan (sd_procs s1 ! j) = p_chan (sd_procs s ! j)"
    using Cons.prems by (auto simp: s1_def promote_state set_proc_def nth_upd)
  have "wakeup_loop s chan r (i # is) = wakeup_loop s1 chan r is" by (simp add: s1_def)
  then show ?case
    using Cons.IH [of s1] Cons.prems s1 by (auto split: if_splits)
qed simp

text \<open>
  a wakeup wakes exactly the processes that sleep on its channel: each of them becomes runnable
  and no other process changes its state, whatever the reason of the wakeup does to priorities.
\<close>

theorem wakeup_exactly_sleepers:
  assumes "sched_wf s" and "i < NPROC"
  shows "p_state (sd_procs (wakeup_reason s chan reason) ! i) =
    (if p_state (sd_procs s ! i) = SLEEPING \<and> p_chan (sd_procs s ! i) = chan then RUNNABLE
     else p_state (sd_procs s ! i))"
  using assms wakeup_loop_state [of "[0..<NPROC]" s i chan reason]
  by (simp add: wakeup_reason_def sched_wf_def)

theorem wakeup_exactly_sleepers_witness:
  "p_state (sd_procs (wakeup_reason (set_proc sched_boot 7 (\<lambda>_. proc_zero\<lparr>p_state := SLEEPING, p_chan := 42\<rparr>))
     42 WAKEUP_IO) ! 7) = RUNNABLE"
proof -
  let ?s = "set_proc sched_boot 7 (\<lambda>_. proc_zero\<lparr>p_state := SLEEPING, p_chan := 42\<rparr>)"
  have "sched_wf ?s"
    by (simp add: sched_wf_levels sched_boot_def procinit_def set_proc_def nth_upd level_ok_def
        proc_zero_def mlfq_time_slices_def)
  from wakeup_exactly_sleepers [OF this, of 7 42 WAKEUP_IO] show ?thesis
    by (simp add: sched_boot_def procinit_def set_proc_def nth_upd)
qed

end
