(* ===== verification/Bio.thy ===== *)
theory Bio
  imports Prelude "HOL-Library.Multiset"
begin

text \<open>
  \<^verbatim>\<open>kernel/fs/bio.c\<close>: the buffer cache, thirteen hash buckets that share thirty buffers and recycle
  them with the CLOCK algorithm. A bucket's circular list is the list of its buffer numbers in the
  order of the \<^verbatim>\<open>next\<close> pointers, the list head itself is \<open>None\<close>. Each section under one bucket lock is
  one definition (\<open>bget_lookup\<close>, \<open>bget_steal\<close>, \<open>bget_insert\<close>); \<open>bget\<close> composes them as one CPU runs them.
  \<open>b_locked\<close> is the buffer's sleep lock. The disk is a function from block numbers to blocks, which
  \<^verbatim>\<open>disk_read\<close> and \<^verbatim>\<open>disk_write\<close> read and update.
\<close>

abbreviation (input) NBUF :: nat where "NBUF \<equiv> 30"
abbreviation (input) NBUCKET :: nat where "NBUCKET \<equiv> 13"

type_synonym disk = "u32 \<Rightarrow> u8 list"

record buf =
  b_valid :: bool
  b_dev :: u32
  b_blockno :: u32
  b_locked :: bool
  b_refcnt :: u32
  b_referenced :: bool
  b_data :: "u8 list"

record hashbuf =
  hb_list :: "nat list"
  hb_hand :: "nat option"

record bcache =
  bc_buf :: "buf list"
  bc_buckets :: "hashbuf list"

definition HASH :: "u32 \<Rightarrow> nat" where
  "HASH blockno = unat (blockno mod 13)"

section \<open>CLOCK\<close>

definition list_first :: "nat list \<Rightarrow> nat option" where
  "list_first xs = (case xs of [] \<Rightarrow> None | x # _ \<Rightarrow> Some x)"

lemma list_first_Nil [simp]: "list_first [] = None"
  by (simp add: list_first_def)

fun list_next :: "nat list \<Rightarrow> nat \<Rightarrow> nat option" where
  "list_next [] b = None"
| "list_next (x # xs) b = (if x = b then list_first xs else list_next xs b)"

function clock_loop :: "nat list \<Rightarrow> buf list \<Rightarrow> nat option \<Rightarrow> nat \<Rightarrow> nat option \<times> buf list \<times> nat option" where
  "clock_loop xs bs hand scanned =
     (if scanned < 2 * NBUF then
        case hand of
          None \<Rightarrow>
            (case list_first xs of
               None \<Rightarrow> (None, bs, None)
             | Some b \<Rightarrow> clock_loop xs bs (Some b) scanned)
        | Some b \<Rightarrow>
            let hand1 = list_next xs b
            in if b_refcnt (bs ! b) \<noteq> 0 then clock_loop xs bs hand1 (scanned + 1)
               else if b_referenced (bs ! b)
               then clock_loop xs (bs[b := (bs ! b)\<lparr>b_referenced := False\<rparr>]) hand1 (scanned + 1)
               else (Some b, bs, hand1)
      else (None, bs, hand))"
  by pat_completeness auto
termination
  by (relation "measure (\<lambda>(xs, bs, hand, scanned). 2 * (2 * NBUF - scanned) + (if hand = None then 1 else 0))") auto

declare clock_loop.simps [simp del]

definition clock_victim :: "bcache \<Rightarrow> nat \<Rightarrow> nat option \<times> bcache" where
  "clock_victim s k =
     (let bk = bc_buckets s ! k;
          (r, bs, hand) = clock_loop (hb_list bk) (bc_buf s) (hb_hand bk) 0
      in (r, s\<lparr>bc_buf := bs, bc_buckets := (bc_buckets s)[k := bk\<lparr>hb_hand := hand\<rparr>]\<rparr>))"

section \<open>Operations\<close>

definition buf_zero :: buf where
  "buf_zero = \<lparr>b_valid = False, b_dev = 0, b_blockno = 0, b_locked = False, b_refcnt = 0,
     b_referenced = False, b_data = replicate 512 0\<rparr>"

definition bucket_push :: "bcache \<Rightarrow> nat \<Rightarrow> nat \<Rightarrow> bcache" where
  "bucket_push s k b =
     s\<lparr>bc_buckets := (bc_buckets s)[k := (bc_buckets s ! k)\<lparr>hb_list := b # hb_list (bc_buckets s ! k)\<rparr>]\<rparr>"

definition binit :: bcache where
  "binit = fold (\<lambda>b s. bucket_push s (b mod NBUCKET) b) [0..<NBUF]
     \<lparr>bc_buf = replicate NBUF buf_zero, bc_buckets = replicate NBUCKET \<lparr>hb_list = [], hb_hand = None\<rparr>\<rparr>"

definition set_buf :: "bcache \<Rightarrow> nat \<Rightarrow> (buf \<Rightarrow> buf) \<Rightarrow> bcache" where
  "set_buf s b f = s\<lparr>bc_buf := (bc_buf s)[b := f (bc_buf s ! b)]\<rparr>"

fun find_buf :: "buf list \<Rightarrow> u32 \<Rightarrow> u32 \<Rightarrow> nat list \<Rightarrow> nat option" where
  "find_buf bs dev blockno [] = None"
| "find_buf bs dev blockno (b # xs) =
     (if b_dev (bs ! b) = dev \<and> b_blockno (bs ! b) = blockno then Some b else find_buf bs dev blockno xs)"

definition bget_lookup :: "bcache \<Rightarrow> u32 \<Rightarrow> u32 \<Rightarrow> nat option \<times> bcache" where
  "bget_lookup s dev blockno =
     (case find_buf (bc_buf s) dev blockno (hb_list (bc_buckets s ! HASH blockno)) of
        None \<Rightarrow> (None, s)
      | Some b \<Rightarrow> (Some b, set_buf s b (\<lambda>x. x\<lparr>b_refcnt := b_refcnt x + 1, b_referenced := True\<rparr>)))"

definition bget_steal :: "bcache \<Rightarrow> nat \<Rightarrow> nat option \<times> bcache" where
  "bget_steal s k =
     (case clock_victim s k of
        (None, s1) \<Rightarrow> (None, s1)
      | (Some b, s1) \<Rightarrow>
          (Some b, s1\<lparr>bc_buckets := (bc_buckets s1)[k :=
             (bc_buckets s1 ! k)\<lparr>hb_list := remove1 b (hb_list (bc_buckets s1 ! k))\<rparr>]\<rparr>))"

fun bget_scan :: "bcache \<Rightarrow> nat \<Rightarrow> nat list \<Rightarrow> nat option \<times> bcache" where
  "bget_scan s bid [] = (None, s)"
| "bget_scan s bid (i # is) =
     (case bget_steal s ((bid + i) mod NBUCKET) of
        (Some b, s1) \<Rightarrow> (Some b, s1)
      | (None, s1) \<Rightarrow> bget_scan s1 bid is)"

definition bget_insert :: "bcache \<Rightarrow> nat \<Rightarrow> u32 \<Rightarrow> u32 \<Rightarrow> bcache" where
  "bget_insert s b dev blockno =
     set_buf (bucket_push s (HASH blockno) b) b
       (\<lambda>x. x\<lparr>b_dev := dev, b_blockno := blockno, b_valid := False, b_refcnt := 1, b_referenced := True\<rparr>)"

definition acquiresleep_buf :: "bcache \<Rightarrow> nat \<Rightarrow> bcache" where
  "acquiresleep_buf s b = set_buf s b (\<lambda>x. x\<lparr>b_locked := True\<rparr>)"

definition bget :: "bcache \<Rightarrow> u32 \<Rightarrow> u32 \<Rightarrow> (nat \<times> bcache) res" where
  "bget s dev blockno =
     (case bget_lookup s dev blockno of
        (Some b, s1) \<Rightarrow> Ok (b, acquiresleep_buf s1 b)
      | (None, s1) \<Rightarrow>
          (case bget_scan s1 (HASH blockno) [0..<NBUCKET] of
             (None, s2) \<Rightarrow> Panic ''bget: no buffers''
           | (Some b, s2) \<Rightarrow> Ok (b, acquiresleep_buf (bget_insert s2 b dev blockno) b)))"

definition bread :: "disk \<Rightarrow> bcache \<Rightarrow> u32 \<Rightarrow> u32 \<Rightarrow> (nat \<times> bcache) res" where
  "bread d s dev blockno =
     rmap (\<lambda>(b, s1). (b, if \<not> b_valid (bc_buf s1 ! b)
             then set_buf s1 b (\<lambda>x. x\<lparr>b_data := d (b_blockno x), b_valid := True\<rparr>) else s1))
       (bget s dev blockno)"

definition bwrite :: "disk \<Rightarrow> bcache \<Rightarrow> nat \<Rightarrow> disk res" where
  "bwrite d s b =
     (if \<not> b_locked (bc_buf s ! b) then Panic ''bwrite''
      else Ok (d(b_blockno (bc_buf s ! b) := b_data (bc_buf s ! b))))"

definition binvalidate :: "bcache \<Rightarrow> u32 \<Rightarrow> bcache" where
  "binvalidate s dev =
     (let listed = concat (map hb_list (bc_buckets s))
      in s\<lparr>bc_buf := map (\<lambda>b. if b \<in> set listed \<and> b_dev (bc_buf s ! b) = dev \<and> b_refcnt (bc_buf s ! b) = 0
             then (bc_buf s ! b)\<lparr>b_valid := False\<rparr> else bc_buf s ! b) [0..<length (bc_buf s)]\<rparr>)"

definition brelse :: "bcache \<Rightarrow> nat \<Rightarrow> bcache res" where
  "brelse s b =
     (if \<not> b_locked (bc_buf s ! b) then Panic ''brelse''
      else Ok (set_buf s b (\<lambda>x. x\<lparr>b_locked := False, b_refcnt := b_refcnt x - 1, b_referenced := True\<rparr>)))"

definition bpin :: "bcache \<Rightarrow> nat \<Rightarrow> bcache" where
  "bpin s b = set_buf s b (\<lambda>x. x\<lparr>b_refcnt := b_refcnt x + 1\<rparr>)"

definition bunpin :: "bcache \<Rightarrow> nat \<Rightarrow> bcache" where
  "bunpin s b = set_buf s b (\<lambda>x. x\<lparr>b_refcnt := b_refcnt x - 1\<rparr>)"

section \<open>One pass of the clock\<close>

text \<open>What the clock does to a stretch of the list: stop at a victim or clear reference bits.\<close>

fun clock_pass :: "buf list \<Rightarrow> nat list \<Rightarrow> nat option \<times> buf list" where
  "clock_pass bs [] = (None, bs)"
| "clock_pass bs (b # xs) =
     (if b_refcnt (bs ! b) \<noteq> 0 then clock_pass bs xs
      else if b_referenced (bs ! b) then clock_pass (bs[b := (bs ! b)\<lparr>b_referenced := False\<rparr>]) xs
      else (Some b, bs))"

lemma list_next_append:
  "distinct (pre @ b # suf) \<Longrightarrow> list_next (pre @ b # suf) b = list_first suf"
  by (induction pre) auto

lemma clock_loop_pass:
  assumes "distinct xs" and "xs = pre @ zs @ post" and "k + length zs \<le> 2 * NBUF" and "clock_pass bs zs = (r, bs1)"
    and "zs \<noteq> []"
  shows "if r = None then clock_loop xs bs (list_first zs) k = clock_loop xs bs1 (list_first post) (k + length zs)
         else \<exists>hand. clock_loop xs bs (list_first zs) k = (r, bs1, hand)"
  using assms
proof (induction zs arbitrary: pre bs k)
  case (Cons b zs)
  have d: "distinct (pre @ b # (zs @ post))" using Cons.prems by simp
  have nxt: "list_next xs b = list_first (zs @ post)"
    using Cons.prems(2) list_next_append [OF d] by simp
  have k: "k < 2 * NBUF" using Cons.prems(3) by simp
  show ?case
  proof (cases "b_refcnt (bs ! b) = 0 \<and> \<not> b_referenced (bs ! b)")
    case True
    then have r: "r = Some b" "bs1 = bs" using Cons.prems(4) by auto
    have "clock_loop xs bs (list_first (b # zs)) k = (Some b, bs, list_first (zs @ post))"
      using True k nxt by (subst clock_loop.simps) (simp add: list_first_def)
    with r show ?thesis by auto
  next
    case False
    define bs2 where "bs2 = (if b_refcnt (bs ! b) \<noteq> 0 then bs else bs[b := (bs ! b)\<lparr>b_referenced := False\<rparr>])"
    have p: "clock_pass bs2 zs = (r, bs1)"
      using Cons.prems(4) False by (auto simp: bs2_def split: if_splits)
    have l: "clock_loop xs bs (list_first (b # zs)) k = clock_loop xs bs2 (list_first (zs @ post)) (k + 1)"
      using False k nxt by (subst clock_loop.simps) (auto simp: list_first_def bs2_def)
    show ?thesis
    proof (cases "zs = []")
      case True
      with p l show ?thesis by simp
    next
      case zs: False
      then have f: "list_first (zs @ post) = list_first zs" by (cases zs) (simp_all add: list_first_def)
      have "xs = (pre @ [b]) @ zs @ post" using Cons.prems(2) by simp
      from Cons.IH [OF Cons.prems(1) this _ p zs, of "k + 1"] Cons.prems(3) l show ?thesis
        unfolding f by (cases r) simp_all
    qed
  qed
qed simp

text \<open>The clock changes reference bits only.\<close>

definition same_bufs :: "buf list \<Rightarrow> buf list \<Rightarrow> bool" where
  "same_bufs bs bs' \<longleftrightarrow> length bs' = length bs \<and>
     (\<forall>b < length bs. \<exists>f. bs' ! b = (bs ! b)\<lparr>b_referenced := f\<rparr>)"

lemma same_bufs_refl [simp]: "same_bufs bs bs"
  unfolding same_bufs_def by (metis buf.surjective buf.update_convs(6))

lemma same_bufs_trans: "same_bufs a b \<Longrightarrow> same_bufs b c \<Longrightarrow> same_bufs a c"
  unfolding same_bufs_def by (metis buf.fold_congs(6) buf.update_convs(6) buf.surjective)

lemma same_bufs_fields:
  assumes "same_bufs bs bs'" and "b < length bs"
  shows "b_refcnt (bs' ! b) = b_refcnt (bs ! b)" "b_valid (bs' ! b) = b_valid (bs ! b)"
    "b_dev (bs' ! b) = b_dev (bs ! b)" "b_blockno (bs' ! b) = b_blockno (bs ! b)"
    "b_locked (bs' ! b) = b_locked (bs ! b)" "b_data (bs' ! b) = b_data (bs ! b)"
  using assms unfolding same_bufs_def by auto

lemma same_bufs_clear: "same_bufs bs (bs[b := (bs ! b)\<lparr>b_referenced := False\<rparr>])"
  unfolding same_bufs_def
proof (intro conjI allI impI)
  fix c assume "c < length bs"
  show "\<exists>f. bs[b := (bs ! b)\<lparr>b_referenced := False\<rparr>] ! c = (bs ! c)\<lparr>b_referenced := f\<rparr>"
  proof (cases "c = b")
    case True
    with \<open>c < length bs\<close> show ?thesis by (auto intro: exI [of _ False])
  next
    case False
    then show ?thesis by (auto intro: exI [of _ "b_referenced (bs ! c)"])
  qed
qed simp

lemma clock_pass_none:
  assumes "clock_pass bs zs = (None, bs1)" and "distinct zs" and "\<forall>b \<in> set zs. b < length bs"
  shows "same_bufs bs bs1"
    and "b \<in> set zs \<Longrightarrow> b_refcnt (bs ! b) = 0 \<Longrightarrow> b_referenced (bs ! b) \<and> \<not> b_referenced (bs1 ! b)"
    and "b \<notin> set zs \<Longrightarrow> bs1 ! b = bs ! b"
proof -
  have "same_bufs bs bs1 \<and>
    (\<forall>b \<in> set zs. b_refcnt (bs ! b) = 0 \<longrightarrow> b_referenced (bs ! b) \<and> \<not> b_referenced (bs1 ! b)) \<and>
    (\<forall>b. b \<notin> set zs \<longrightarrow> bs1 ! b = bs ! b)"
    using assms
  proof (induction zs arbitrary: bs)
    case (Cons c zs)
    show ?case
    proof (cases "b_refcnt (bs ! c) = 0")
      case False
      with Cons show ?thesis by auto
    next
      case True
      let ?bs = "bs[c := (bs ! c)\<lparr>b_referenced := False\<rparr>]"
      have p: "clock_pass ?bs zs = (None, bs1)" and ref: "b_referenced (bs ! c)"
        using Cons.prems(1) True by (auto split: if_splits)
      have c: "c < length bs" "c \<notin> set zs" using Cons.prems by auto
      have IH: "same_bufs ?bs bs1" "\<forall>b \<in> set zs. b_refcnt (?bs ! b) = 0 \<longrightarrow> b_referenced (?bs ! b) \<and> \<not> b_referenced (bs1 ! b)"
        "\<forall>b. b \<notin> set zs \<longrightarrow> bs1 ! b = ?bs ! b"
        using Cons.IH [OF p] Cons.prems by auto
      have "same_bufs bs bs1" using same_bufs_trans [OF same_bufs_clear IH(1)] .
      moreover have "\<not> b_referenced (bs1 ! c)" using IH(3) c by simp
      moreover have "b_referenced (bs ! b) \<and> \<not> b_referenced (bs1 ! b)" if "b \<in> set zs" "b_refcnt (bs ! b) = 0" for b
      proof -
        have "c \<noteq> b" using that(1) c(2) by blast
        then have e: "?bs ! b = bs ! b" by simp
        show ?thesis using bspec [OF IH(2) that(1)] that(2) unfolding e by blast
      qed
      moreover have "bs1 ! b = bs ! b" if "b \<notin> set (c # zs)" for b
      proof -
        have "c \<noteq> b" "b \<notin> set zs" using that by auto
        with IH(3) show ?thesis by (metis nth_list_update_neq)
      qed
      ultimately show ?thesis using ref by simp
    qed
  qed auto
  then show "same_bufs bs bs1"
    and "b \<in> set zs \<Longrightarrow> b_refcnt (bs ! b) = 0 \<Longrightarrow> b_referenced (bs ! b) \<and> \<not> b_referenced (bs1 ! b)"
    and "b \<notin> set zs \<Longrightarrow> bs1 ! b = bs ! b" by blast+
qed

lemma list_next_mem: "list_next xs b = Some c \<Longrightarrow> c \<in> set xs"
  by (induction xs) (auto simp: list_first_def split: if_splits list.splits)

lemma list_next_neq: "distinct xs \<Longrightarrow> list_next xs b = Some c \<Longrightarrow> c \<noteq> b"
  by (induction xs) (auto simp: list_first_def split: if_splits list.splits)

definition hand_ok :: "nat list \<Rightarrow> nat option \<Rightarrow> bool" where
  "hand_ok xs hand \<longleftrightarrow> (case hand of None \<Rightarrow> True | Some b \<Rightarrow> b \<in> set xs)"

lemma clock_loop_sound:
  assumes "clock_loop xs bs hand k = (r, bs', hand')" and "distinct xs" and "\<forall>b \<in> set xs. b < length bs" and "hand_ok xs hand"
  shows "same_bufs bs bs' \<and> hand_ok xs hand' \<and> (\<forall>v. r = Some v \<longrightarrow> v \<in> set xs \<and> b_refcnt (bs ! v) = 0 \<and> hand' \<noteq> Some v)"
  using assms
proof (induction xs bs hand k arbitrary: r bs' hand' rule: clock_loop.induct)
  case (1 xs bs hand k)
  show ?case
  proof (cases "k < 2 * NBUF")
    case False
    with "1.prems" show ?thesis by (subst (asm) clock_loop.simps) auto
  next
    case k: True
    show ?thesis
    proof (cases hand)
      case None
      show ?thesis
      proof (cases "list_first xs")
        case None
        with \<open>hand = None\<close> k "1.prems" show ?thesis
          by (subst (asm) clock_loop.simps) (auto simp: hand_ok_def)
      next
        case (Some b)
        with \<open>hand = None\<close> k "1.prems"(1) have l: "clock_loop xs bs (Some b) k = (r, bs', hand')"
          by (subst (asm) clock_loop.simps) simp
        have "hand_ok xs (Some b)" using Some by (auto simp: hand_ok_def list_first_def split: list.splits)
        from "1.IH"(1) [OF k None Some l "1.prems"(2,3) this] show ?thesis .
      qed
    next
      case (Some b)
      let ?n = "list_next xs b"
      have bx: "b \<in> set xs" using "1.prems"(4) Some by (simp add: hand_ok_def)
      have hn: "hand_ok xs ?n" using list_next_mem by (auto simp: hand_ok_def split: option.splits)
      have hb: "?n \<noteq> Some b" using list_next_neq "1.prems"(2) by blast
      show ?thesis
      proof (cases "b_refcnt (bs ! b) = 0")
        case False
        with Some k "1.prems"(1) have "clock_loop xs bs ?n (k + 1) = (r, bs', hand')"
          by (subst (asm) clock_loop.simps) simp
        from "1.IH"(2) [OF k Some refl False this "1.prems"(2,3) hn] show ?thesis .
      next
        case z: True
        show ?thesis
        proof (cases "b_referenced (bs ! b)")
          case True
          let ?bs = "bs[b := (bs ! b)\<lparr>b_referenced := False\<rparr>]"
          from True z Some k "1.prems"(1) have l: "clock_loop xs ?bs ?n (k + 1) = (r, bs', hand')"
            by (subst (asm) clock_loop.simps) simp
          have nz: "\<not> b_refcnt (bs ! b) \<noteq> 0" using z by simp
          have lt: "\<forall>b \<in> set xs. b < length ?bs" using "1.prems"(3) by simp
          have I: "same_bufs ?bs bs' \<and> hand_ok xs hand' \<and> (\<forall>v. r = Some v \<longrightarrow> v \<in> set xs \<and> b_refcnt (?bs ! v) = 0 \<and> hand' \<noteq> Some v)"
            by (rule "1.IH"(3) [OF k Some refl nz True l "1.prems"(2) lt hn])
          have "b_refcnt (?bs ! v) = b_refcnt (bs ! v)" for v
            by (cases "v = b") (use bx "1.prems"(3) in auto)
          with I same_bufs_trans [OF same_bufs_clear] show ?thesis by metis
        next
          case False
          with z Some k "1.prems"(1) have "r = Some b \<and> bs' = bs \<and> hand' = ?n"
            by (subst (asm) clock_loop.simps) simp
          with bx z hn hb show ?thesis by simp
        qed
      qed
    qed
  qed
qed

text \<open>A pass that meets no victim leaves every buffer it saw busy or with its reference bit cleared, so
  the next pass over an idle buffer stops there: two passes are enough.\<close>

lemma clock_pass_finds:
  "b \<in> set zs \<Longrightarrow> b_refcnt (bs ! b) = 0 \<Longrightarrow> \<not> b_referenced (bs ! b) \<Longrightarrow> distinct zs \<Longrightarrow>
   fst (clock_pass bs zs) \<noteq> None"
proof (induction zs arbitrary: bs)
  case (Cons c zs)
  show ?case
  proof (cases "c = b")
    case False
    with Cons show ?thesis by auto
  qed (use Cons in auto)
qed simp

lemma clock_two_passes:
  assumes "clock_pass bs zs = (None, bs1)" and "clock_pass bs1 zs = (None, bs2)" and "distinct zs"
    and "\<forall>b \<in> set zs. b < length bs" and "b \<in> set zs"
  shows "b_refcnt (bs ! b) \<noteq> 0"
proof
  assume z: "b_refcnt (bs ! b) = 0"
  have "\<not> b_referenced (bs1 ! b)" "b_refcnt (bs1 ! b) = 0"
    using clock_pass_none [OF assms(1,3,4)] z assms(4,5) same_bufs_fields(1) by metis+
  from clock_pass_finds [OF assms(5) this(2,1) assms(3)] assms(2) show False by simp
qed

lemma clock_loop_restart:
  "k < 2 * NBUF \<Longrightarrow> xs \<noteq> [] \<Longrightarrow> clock_loop xs bs None k = clock_loop xs bs (list_first xs) k"
  by (subst clock_loop.simps) (auto simp: list_first_def split: list.splits)

lemma clock_pass_append:
  "clock_pass bs (xs @ ys) = (case clock_pass bs xs of (None, bs1) \<Rightarrow> clock_pass bs1 ys | (Some b, bs1) \<Rightarrow> (Some b, bs1))"
  by (induction xs arbitrary: bs) auto

text \<open>One turn of the clock from the hand: the rest of the list, then its beginning.\<close>

lemma clock_rotation:
  assumes d: "distinct xs" and xs: "xs = pre @ zs" and zs: "zs \<noteq> []" and k: "k + length xs \<le> 2 * NBUF"
    and p: "clock_pass bs (zs @ pre) = (r, bs1)"
  shows "if r = None then k + length xs < 2 * NBUF \<longrightarrow>
             clock_loop xs bs (list_first zs) k = clock_loop xs bs1 (list_first zs) (k + length xs)
         else \<exists>hand. clock_loop xs bs (list_first zs) k = (r, bs1, hand)"
proof -
  obtain r0 bs0 where p0: "clock_pass bs zs = (r0, bs0)" by (cases "clock_pass bs zs")
  have xs0: "xs = pre @ zs @ []" using xs by simp
  have kz: "k + length zs \<le> 2 * NBUF" using k xs by simp
  have l0: "if r0 = None then clock_loop xs bs (list_first zs) k = clock_loop xs bs0 None (k + length zs)
         else \<exists>hand. clock_loop xs bs (list_first zs) k = (r0, bs0, hand)"
    using clock_loop_pass [OF d xs0 kz p0 zs] unfolding list_first_Nil .
  show ?thesis
  proof (cases r0)
    case (Some v)
    then have "r = Some v" "bs1 = bs0" using p p0 by (auto simp: clock_pass_append)
    with l0 Some show ?thesis by simp
  next
    case None
    then have p1: "clock_pass bs0 pre = (r, bs1)" using p p0 by (simp add: clock_pass_append)
    have l1: "clock_loop xs bs (list_first zs) k = clock_loop xs bs0 None (k + length zs)" using l0 None by simp
    show ?thesis
    proof (cases "pre = []")
      case True
      then have "r = None" "bs1 = bs0" "zs = xs" using p1 xs by auto
      then show ?thesis using l1 clock_loop_restart [of "k + length xs" xs bs0] zs by simp
    next
      case pre: False
      then have kp: "k + length zs < 2 * NBUF" using k xs by (cases pre) simp_all
      have "list_first xs = list_first pre" using xs pre by (cases pre) (simp_all add: list_first_def)
      then have l2: "clock_loop xs bs (list_first zs) k = clock_loop xs bs0 (list_first pre) (k + length zs)"
        using l1 clock_loop_restart [OF kp, of xs bs0] pre xs by simp
      have e: "k + length zs + length pre = k + length xs" using xs by simp
      have "xs = [] @ pre @ zs" "k + length zs + length pre \<le> 2 * NBUF" using xs k by simp_all
      from clock_loop_pass [OF d this p1 pre] show ?thesis unfolding e l2 by presburger
    qed
  qed
qed

lemma hand_split:
  assumes "b \<in> set xs"
  obtains pre suf where "xs = pre @ b # suf"
  using assms by (meson split_list)

lemma clock_loop_complete:
  assumes d: "distinct xs" and lt: "\<forall>b \<in> set xs. b < length bs" and n: "length xs \<le> NBUF" and h: "hand_ok xs hand"
    and r: "clock_loop xs bs hand 0 = (None, bs', hand')" and b: "b \<in> set xs"
  shows "b_refcnt (bs ! b) \<noteq> 0"
proof -
  obtain pre zs where xs: "xs = pre @ zs" "zs \<noteq> []" and l: "clock_loop xs bs hand 0 = clock_loop xs bs (list_first zs) 0"
  proof (cases hand)
    case None
    have "xs \<noteq> []" using b by auto
    with None clock_loop_restart [of 0 xs bs] that [of "[]" xs] show ?thesis by simp
  next
    case (Some c)
    then have "c \<in> set xs" using h by (simp add: hand_ok_def)
    then obtain pre suf where "xs = pre @ c # suf" by (rule hand_split)
    with Some that [of pre "c # suf"] show ?thesis by (simp add: list_first_def)
  qed
  let ?ys = "zs @ pre"
  have ys: "distinct ?ys" "set ?ys = set xs" using d xs by auto
  obtain r1 bs1 where p1: "clock_pass bs ?ys = (r1, bs1)" by (cases "clock_pass bs ?ys")
  have r1: "r1 = None"
    using clock_rotation [OF d xs, of 0 bs r1 bs1] p1 l r n by (auto split: if_splits)
  have l1: "clock_loop xs bs (list_first zs) 0 = clock_loop xs bs1 (list_first zs) (length xs)"
    using clock_rotation [OF d xs, of 0 bs r1 bs1] p1 r1 n by simp
  obtain r2 bs2 where p2: "clock_pass bs1 ?ys = (r2, bs2)" by (cases "clock_pass bs1 ?ys")
  have r2: "r2 = None"
    using clock_rotation [OF d xs, of "length xs" bs1 r2 bs2] p2 l l1 r n by (auto split: if_splits)
  have lt': "\<forall>b \<in> set ?ys. b < length bs" and b': "b \<in> set ?ys" using ys lt b by auto
  show ?thesis by (rule clock_two_passes [OF p1 [unfolded r1] p2 [unfolded r2] ys(1) lt' b'])
qed

section \<open>Invariant\<close>

text \<open>A buffer matters to a lookup when its contents are valid or somebody refers to it. Such a buffer sits
  in the bucket its block number hashes to, and no buffer before it in that list has the same key.\<close>

definition buf_live :: "buf \<Rightarrow> bool" where
  "buf_live x \<longleftrightarrow> b_valid x \<or> b_refcnt x \<noteq> 0"

definition buf_key :: "buf \<Rightarrow> u32 \<times> u32" where
  "buf_key x = (b_dev x, b_blockno x)"

fun keys_ok :: "buf list \<Rightarrow> nat \<Rightarrow> nat list \<Rightarrow> bool" where
  "keys_ok bs k [] = True"
| "keys_ok bs k (b # xs) =
     ((buf_live (bs ! b) \<longrightarrow> HASH (b_blockno (bs ! b)) = k) \<and>
      (\<forall>c \<in> set xs. buf_live (bs ! c) \<longrightarrow> buf_key (bs ! c) \<noteq> buf_key (bs ! b)) \<and> keys_ok bs k xs)"

definition bio_inv :: "nat list \<Rightarrow> bcache \<Rightarrow> bool" where
  "bio_inv detached s \<longleftrightarrow>
     length (bc_buf s) = NBUF \<and> length (bc_buckets s) = NBUCKET \<and>
     mset (detached @ concat (map hb_list (bc_buckets s))) = mset [0..<NBUF] \<and>
     (\<forall>k < NBUCKET. hand_ok (hb_list (bc_buckets s ! k)) (hb_hand (bc_buckets s ! k)) \<and>
        keys_ok (bc_buf s) k (hb_list (bc_buckets s ! k)))"

definition bio_coherent :: "disk \<Rightarrow> bcache \<Rightarrow> bool" where
  "bio_coherent d s \<longleftrightarrow> (\<forall>b < NBUF. b_valid (bc_buf s ! b) \<longrightarrow> b_data (bc_buf s ! b) = d (b_blockno (bc_buf s ! b)))"

lemma HASH_less [simp]: "HASH n < NBUCKET"
  unfolding HASH_def by (simp add: unat_mod)

lemma mset_concat_upd:
  "k < length xs \<Longrightarrow>
   mset (concat (map f (xs[k := x]))) + mset (f (xs ! k)) = mset (concat (map f xs)) + mset (f x)"
proof (induction xs arbitrary: k)
  case (Cons y ys)
  then show ?case by (cases k) (auto simp: add.assoc add.left_commute)
qed simp

lemma bio_inv_lists:
  assumes "bio_inv D s" and "k < NBUCKET"
  shows "distinct (hb_list (bc_buckets s ! k))"
    and "b \<in> set (hb_list (bc_buckets s ! k)) \<Longrightarrow> b < NBUF"
    and "length (hb_list (bc_buckets s ! k)) \<le> NBUF"
    and "b \<in> set (hb_list (bc_buckets s ! k)) \<Longrightarrow> b \<notin> set D"
proof -
  let ?all = "D @ concat (map hb_list (bc_buckets s))"
  have m: "mset ?all = mset [0..<NBUF]" and l: "length (bc_buckets s) = NBUCKET"
    using assms(1) by (simp_all add: bio_inv_def)
  have dis: "distinct ?all" using mset_eq_imp_distinct_iff [OF m] by simp
  have st: "set ?all = {0..<NBUF}" using mset_eq_setD [OF m] by simp
  have len: "length ?all = NBUF" using mset_eq_length [OF m] by simp
  have k: "bc_buckets s ! k \<in> set (bc_buckets s)" using assms(2) l by simp
  obtain ys zs where yz: "bc_buckets s = ys @ bc_buckets s ! k # zs" using split_list [OF k] by blast
  obtain p q where pq: "concat (map hb_list (bc_buckets s)) = p @ hb_list (bc_buckets s ! k) @ q"
    using arg_cong [OF yz, of "\<lambda>xs. concat (map hb_list xs)"] that by simp
  show "distinct (hb_list (bc_buckets s ! k))" using dis pq by simp
  show "b < NBUF" if "b \<in> set (hb_list (bc_buckets s ! k))"
    using that st pq by auto
  show "length (hb_list (bc_buckets s ! k)) \<le> NBUF" using len pq by simp
  show "b \<notin> set D" if "b \<in> set (hb_list (bc_buckets s ! k))" using dis pq that by auto
qed

lemma bio_inv_detached: "bio_inv D s \<Longrightarrow> b \<in> set D \<Longrightarrow> b < NBUF"
  unfolding bio_inv_def using mset_eq_setD [of "D @ concat (map hb_list (bc_buckets s))" "[0..<NBUF]"] by auto

lemma bio_inv_covers:
  assumes "bio_inv [] s" and "b < NBUF"
  obtains k where "k < NBUCKET" "b \<in> set (hb_list (bc_buckets s ! k))"
proof -
  have "set (concat (map hb_list (bc_buckets s))) = {0..<NBUF}" and l: "length (bc_buckets s) = NBUCKET"
    using assms(1) mset_eq_setD [of "concat (map hb_list (bc_buckets s))" "[0..<NBUF]"] by (auto simp: bio_inv_def)
  with assms(2) have "b \<in> set (concat (map hb_list (bc_buckets s)))" by simp
  then obtain x where "x \<in> set (bc_buckets s)" "b \<in> set (hb_list x)" by auto
  with l that show thesis by (metis in_set_conv_nth)
qed

lemma keys_ok_cong:
  assumes "keys_ok bs k xs"
    and "\<And>b. b \<in> set xs \<Longrightarrow> buf_key (bs' ! b) = buf_key (bs ! b) \<and> (buf_live (bs' ! b) \<longrightarrow> buf_live (bs ! b))"
  shows "keys_ok bs' k xs"
  using assms
proof (induction xs)
  case (Cons b xs)
  have "b_blockno (bs' ! b) = b_blockno (bs ! b)" using Cons.prems(2) [of b] by (simp add: buf_key_def)
  with Cons show ?case by auto
qed simp

lemma keys_ok_remove: "keys_ok bs k xs \<Longrightarrow> keys_ok bs k (remove1 b xs)"
  by (induction xs) (auto dest: in_set_remove1 [THEN iffD1] set_remove1_subset [THEN subsetD])

lemma keys_ok_push:
  assumes "keys_ok bs k xs" and "\<And>c. c \<in> set xs \<Longrightarrow> buf_key (bs ! c) \<noteq> (dev, bno)" and "b \<notin> set xs"
    and "b < length bs" and "buf_key x = (dev, bno)" and "HASH bno = k"
  shows "keys_ok (bs[b := x]) k (b # xs)"
proof -
  have same: "bs[b := x] ! c = bs ! c" if "c \<in> set xs" for c using that assms(3) by (metis nth_list_update_neq)
  have "keys_ok (bs[b := x]) k xs" by (rule keys_ok_cong [OF assms(1)]) (simp add: same)
  then show ?thesis using assms(2,4,5,6) same by (auto simp: buf_key_def)
qed

lemma find_buf_None: "find_buf bs dev bno xs = None \<longleftrightarrow> (\<forall>b \<in> set xs. buf_key (bs ! b) \<noteq> (dev, bno))"
  by (induction xs) (auto simp: buf_key_def)

lemma find_buf_Some:
  "find_buf bs dev bno xs = Some b \<Longrightarrow> b \<in> set xs \<and> buf_key (bs ! b) = (dev, bno)"
  by (induction xs) (auto simp: buf_key_def split: if_splits)

lemma keys_ok_found:
  assumes "keys_ok bs k xs" and "find_buf bs dev bno xs = Some b" and "distinct xs" and "b < length bs"
    and "buf_key x = (dev, bno)" and "HASH bno = k"
  shows "keys_ok (bs[b := x]) k xs"
  using assms(1,2,3)
proof (induction xs)
  case (Cons c xs)
  show ?case
  proof (cases "buf_key (bs ! c) = (dev, bno)")
    case True
    then have c: "c = b" using Cons.prems(2) by (simp add: buf_key_def)
    then have nb: "b \<notin> set xs" using Cons.prems(3) by simp
    have same: "bs[b := x] ! e = bs ! e" if "e \<in> set xs" for e using that nb by (metis nth_list_update_neq)
    have "keys_ok (bs[b := x]) k xs" by (rule keys_ok_cong [of bs]) (use Cons.prems(1) same in auto)
    then show ?thesis using Cons.prems(1) same True c assms(4,5,6) by (auto simp: buf_key_def)
  next
    case False
    then have f: "find_buf bs dev bno xs = Some b" using Cons.prems(2) by (auto simp: buf_key_def split: if_splits)
    have cb: "c \<noteq> b" using find_buf_Some [OF f] False by auto
    have IH: "keys_ok (bs[b := x]) k xs" using Cons f by simp
    have "buf_key (bs[b := x] ! e) \<noteq> buf_key (bs ! c)" if "e \<in> set xs" "buf_live (bs[b := x] ! e)" for e
      using that Cons.prems(1) False assms(4,5) by (cases "e = b") auto
    with IH cb Cons.prems(1) show ?thesis by (auto simp: nth_list_update_neq [OF cb [symmetric]])
  qed
qed simp

text \<open>The invariant for a changed bucket and changed buffers.\<close>

lemma mset_exchange:
  fixes N :: "'a multiset"
  assumes "N + x = M + y" and "D' + y = D + x"
  shows "D' + N = D + M"
proof -
  have "(D' + N) + (y + x) = (D' + y) + (N + x)" by (simp add: ac_simps)
  also have "\<dots> = (D + M) + (y + x)" unfolding assms by (simp add: ac_simps)
  finally show ?thesis by simp
qed

lemma bio_inv_bucket_upd:
  assumes inv: "bio_inv D s" and k: "k < NBUCKET" and len: "length bs = NBUF"
    and m: "mset D' + mset (hb_list bk) = mset D + mset (hb_list (bc_buckets s ! k))"
    and h: "hand_ok (hb_list bk) (hb_hand bk)" and ok: "keys_ok bs k (hb_list bk)"
    and oth: "\<And>j. j < NBUCKET \<Longrightarrow> j \<noteq> k \<Longrightarrow> keys_ok bs j (hb_list (bc_buckets s ! j))"
  shows "bio_inv D' (s\<lparr>bc_buf := bs, bc_buckets := (bc_buckets s)[k := bk]\<rparr>)"
proof -
  let ?old = "mset (concat (map hb_list (bc_buckets s)))" and ?new = "mset (concat (map hb_list ((bc_buckets s)[k := bk])))"
  have l: "length (bc_buckets s) = NBUCKET" using inv by (simp add: bio_inv_def)
  have e: "?new + mset (hb_list (bc_buckets s ! k)) = ?old + mset (hb_list bk)"
    by (rule mset_concat_upd) (use k l in simp)
  have "mset D + ?old = mset [0..<NBUF]" using inv by (simp add: bio_inv_def)
  moreover have "mset D' + ?new = mset D + ?old" by (rule mset_exchange [OF e m])
  ultimately have "mset D' + ?new = mset [0..<NBUF]" by simp
  moreover have "hand_ok (hb_list ((bc_buckets s)[k := bk] ! j)) (hb_hand ((bc_buckets s)[k := bk] ! j)) \<and>
      keys_ok bs j (hb_list ((bc_buckets s)[k := bk] ! j))" if "j < NBUCKET" for j
    using that h ok oth inv l by (cases "j = k") (auto simp: bio_inv_def)
  ultimately show ?thesis using l len by (simp add: bio_inv_def)
qed

lemma same_bufs_key: "same_bufs bs bs' \<Longrightarrow> b < length bs \<Longrightarrow> buf_key (bs' ! b) = buf_key (bs ! b) \<and> buf_live (bs' ! b) = buf_live (bs ! b)"
  by (simp add: buf_key_def buf_live_def same_bufs_fields)

lemma keys_ok_same:
  assumes "keys_ok bs k xs" and "same_bufs bs bs'" and "\<And>b. b \<in> set xs \<Longrightarrow> b < length bs"
  shows "keys_ok bs' k xs"
  by (rule keys_ok_cong [OF assms(1)]) (use same_bufs_key [OF assms(2)] assms(3) in blast)

lemma hand_ok_remove: "hand_ok xs h \<Longrightarrow> h \<noteq> Some v \<Longrightarrow> hand_ok (remove1 v xs) h"
  by (auto simp: hand_ok_def in_set_remove1 split: option.splits)

lemma clock_victim_ok:
  assumes inv: "bio_inv D s" and k: "k < NBUCKET" and r: "clock_victim s k = (r, s1)"
  shows "bio_inv D s1" and "same_bufs (bc_buf s) (bc_buf s1)"
    and "map hb_list (bc_buckets s1) = map hb_list (bc_buckets s)"
    and "r = None \<Longrightarrow> b \<in> set (hb_list (bc_buckets s ! k)) \<Longrightarrow> b_refcnt (bc_buf s ! b) \<noteq> 0"
    and "r = Some v \<Longrightarrow> v \<in> set (hb_list (bc_buckets s ! k)) \<and> b_refcnt (bc_buf s ! v) = 0 \<and> hb_hand (bc_buckets s1 ! k) \<noteq> Some v"
proof -
  let ?bk = "bc_buckets s ! k" and ?xs = "hb_list (bc_buckets s ! k)"
  obtain r' bs hand where l: "clock_loop ?xs (bc_buf s) (hb_hand ?bk) 0 = (r', bs, hand)"
    using prod_cases3 by blast
  then have s1: "r' = r" "s1 = s\<lparr>bc_buf := bs, bc_buckets := (bc_buckets s)[k := ?bk\<lparr>hb_hand := hand\<rparr>]\<rparr>"
    using r by (auto simp: clock_victim_def Let_def)
  have len: "length (bc_buf s) = NBUF" "length (bc_buckets s) = NBUCKET" and h: "hand_ok ?xs (hb_hand ?bk)"
    using inv k by (simp_all add: bio_inv_def)
  have lt: "\<forall>b \<in> set ?xs. b < length (bc_buf s)" using bio_inv_lists(2) [OF inv k] len by simp
  have snd: "same_bufs (bc_buf s) bs" "hand_ok ?xs hand"
      "\<forall>v. r = Some v \<longrightarrow> v \<in> set ?xs \<and> b_refcnt (bc_buf s ! v) = 0 \<and> hand \<noteq> Some v"
    using clock_loop_sound [OF l bio_inv_lists(1) [OF inv k] lt h] s1(1) by auto
  have ks: "keys_ok bs j (hb_list (bc_buckets s ! j))" if "j < NBUCKET" for j
    by (rule keys_ok_same [OF _ snd(1)]) (use inv that len bio_inv_lists(2) [OF inv that] in \<open>auto simp: bio_inv_def\<close>)
  have bl: "length bs = NBUF" using snd(1) len by (simp add: same_bufs_def)
  show "bio_inv D s1" unfolding s1(2)
    by (rule bio_inv_bucket_upd [OF inv k bl]) (use snd(2) ks k in auto)
  show "same_bufs (bc_buf s) (bc_buf s1)" using s1 snd by simp
  show "map hb_list (bc_buckets s1) = map hb_list (bc_buckets s)"
    using s1 len k by (simp add: map_update list_update_same_conv)
  show "b_refcnt (bc_buf s ! b) \<noteq> 0" if "r = None" "b \<in> set ?xs"
    by (rule clock_loop_complete [OF bio_inv_lists(1) [OF inv k] lt bio_inv_lists(3) [OF inv k] h l [unfolded s1(1) that(1)] that(2)])
  show "v \<in> set ?xs \<and> b_refcnt (bc_buf s ! v) = 0 \<and> hb_hand (bc_buckets s1 ! k) \<noteq> Some v" if "r = Some v"
    using snd(3) that s1(2) len k by simp
qed

lemma bget_steal_None:
  assumes "bget_steal s k = (None, s1)"
  shows "clock_victim s k = (None, s1)"
  using assms by (auto simp: bget_steal_def split: prod.splits option.splits)

lemma bget_steal_Some:
  assumes inv: "bio_inv D s" and k: "k < NBUCKET" and r: "bget_steal s k = (Some b, s1)"
  shows "bio_inv (b # D) s1" and "same_bufs (bc_buf s) (bc_buf s1)" and "b_refcnt (bc_buf s ! b) = 0" and "b < NBUF"
    and "j < NBUCKET \<Longrightarrow> set (hb_list (bc_buckets s1 ! j)) \<subseteq> set (hb_list (bc_buckets s ! j))"
proof -
  obtain s0 where v: "clock_victim s k = (Some b, s0)"
    and s1: "s1 = s0\<lparr>bc_buckets := (bc_buckets s0)[k := (bc_buckets s0 ! k)\<lparr>hb_list := remove1 b (hb_list (bc_buckets s0 ! k))\<rparr>]\<rparr>"
    using r by (auto simp: bget_steal_def split: prod.splits option.splits)
  note c = clock_victim_ok [OF inv k v]
  have len: "length (bc_buckets s0) = NBUCKET" "length (bc_buckets s) = NBUCKET" "length (bc_buf s0) = NBUF"
    using c(1) inv by (simp_all add: bio_inv_def)
  have lists: "hb_list (bc_buckets s0 ! j) = hb_list (bc_buckets s ! j)" if "j < NBUCKET" for j
    using c(3) that len by (metis nth_map)
  have b: "b \<in> set (hb_list (bc_buckets s ! k))" "b_refcnt (bc_buf s ! b) = 0" "hb_hand (bc_buckets s0 ! k) \<noteq> Some b"
    using c(5) by blast+
  have e: "s1 = s0\<lparr>bc_buf := bc_buf s0, bc_buckets := (bc_buckets s0)[k := (bc_buckets s0 ! k)\<lparr>hb_list := remove1 b (hb_list (bc_buckets s0 ! k))\<rparr>]\<rparr>"
    using s1 by simp
  show "bio_inv (b # D) s1" unfolding e
  proof (rule bio_inv_bucket_upd [OF c(1) k len(3)])
    show "hand_ok (hb_list ((bc_buckets s0 ! k)\<lparr>hb_list := remove1 b (hb_list (bc_buckets s0 ! k))\<rparr>))
        (hb_hand ((bc_buckets s0 ! k)\<lparr>hb_list := remove1 b (hb_list (bc_buckets s0 ! k))\<rparr>))"
      using c(1) k b(3) by (auto simp: bio_inv_def intro: hand_ok_remove)
  qed (use c(1) k b(1) lists in \<open>auto simp: bio_inv_def keys_ok_remove\<close>)
  show "same_bufs (bc_buf s) (bc_buf s1)" using c(2) s1 by simp
  show "b_refcnt (bc_buf s ! b) = 0" by (rule b(2))
  show "b < NBUF" using bio_inv_lists(2) [OF inv k b(1)] .
  show "set (hb_list (bc_buckets s1 ! j)) \<subseteq> set (hb_list (bc_buckets s ! j))" if "j < NBUCKET"
    using that s1 lists len k set_remove1_subset by (cases "j = k") fastforce+
qed

lemma bget_scan_ok:
  assumes "bio_inv D s" and "bget_scan s bid js = (r, s1)"
  shows "same_bufs (bc_buf s) (bc_buf s1)"
    and "j < NBUCKET \<Longrightarrow> set (hb_list (bc_buckets s1 ! j)) \<subseteq> set (hb_list (bc_buckets s ! j))"
    and "r = None \<Longrightarrow> i \<in> set js \<Longrightarrow> b \<in> set (hb_list (bc_buckets s ! ((bid + i) mod NBUCKET))) \<Longrightarrow> b_refcnt (bc_buf s ! b) \<noteq> 0"
    and "r = Some b \<Longrightarrow> bio_inv (b # D) s1 \<and> b_refcnt (bc_buf s ! b) = 0 \<and> b < NBUF"
proof -
  have "same_bufs (bc_buf s) (bc_buf s1) \<and>
     (\<forall>j < NBUCKET. set (hb_list (bc_buckets s1 ! j)) \<subseteq> set (hb_list (bc_buckets s ! j))) \<and>
     (r = None \<longrightarrow> (\<forall>i \<in> set js. \<forall>b \<in> set (hb_list (bc_buckets s ! ((bid + i) mod NBUCKET))). b_refcnt (bc_buf s ! b) \<noteq> 0)) \<and>
     (\<forall>b. r = Some b \<longrightarrow> bio_inv (b # D) s1 \<and> b_refcnt (bc_buf s ! b) = 0 \<and> b < NBUF)"
    using assms
  proof (induction js arbitrary: s)
    case (Cons i js)
    let ?k = "(bid + i) mod NBUCKET"
    have k: "?k < NBUCKET" by simp
    obtain r0 s0 where st: "bget_steal s ?k = (r0, s0)" by (cases "bget_steal s ?k")
    show ?case
    proof (cases r0)
      case (Some v)
      then have "r = Some v" "s1 = s0" using Cons.prems(2) st by auto
      with bget_steal_Some [OF Cons.prems(1) k st [unfolded Some]] show ?thesis by auto
    next
      case None
      then have r: "bget_scan s0 bid js = (r, s1)" using Cons.prems(2) st by simp
      note c = clock_victim_ok [OF Cons.prems(1) k bget_steal_None [OF st [unfolded None]]]
      have len: "length (bc_buckets s0) = NBUCKET" "length (bc_buckets s) = NBUCKET" "length (bc_buf s) = NBUF"
        using c(1) Cons.prems(1) by (simp_all add: bio_inv_def)
      have lists: "hb_list (bc_buckets s0 ! j) = hb_list (bc_buckets s ! j)" if "j < NBUCKET" for j
        using c(3) that len by (metis nth_map)
      have ref: "b_refcnt (bc_buf s0 ! b) = b_refcnt (bc_buf s ! b)" if "b < NBUF" for b
        using same_bufs_fields(1) [OF c(2)] that len by simp
      have lt: "b < NBUF" if "b \<in> set (hb_list (bc_buckets s ! j))" "j < NBUCKET" for b j
        using bio_inv_lists(2) [OF Cons.prems(1)] that by blast
      note IH = Cons.IH [OF c(1) r]
      have "same_bufs (bc_buf s) (bc_buf s1)" using same_bufs_trans [OF c(2)] IH by blast
      moreover have "\<forall>j < NBUCKET. set (hb_list (bc_buckets s1 ! j)) \<subseteq> set (hb_list (bc_buckets s ! j))"
        using IH lists by auto
      moreover have "\<forall>e \<in> set (i # js). \<forall>b \<in> set (hb_list (bc_buckets s ! ((bid + e) mod NBUCKET))). b_refcnt (bc_buf s ! b) \<noteq> 0"
        if "r = None"
      proof (intro ballI)
        fix e b assume e: "e \<in> set (i # js)" and b: "b \<in> set (hb_list (bc_buckets s ! ((bid + e) mod NBUCKET)))"
        show "b_refcnt (bc_buf s ! b) \<noteq> 0"
        proof (cases "e = i")
          case True
          with c(4) [OF refl] b show ?thesis by simp
        next
          case False
          with e have "e \<in> set js" by simp
          with IH that b lists have "b_refcnt (bc_buf s0 ! b) \<noteq> 0" by fastforce
          with ref [OF lt [OF b]] show ?thesis by simp
        qed
      qed
      moreover have "\<forall>b. r = Some b \<longrightarrow> bio_inv (b # D) s1 \<and> b_refcnt (bc_buf s ! b) = 0 \<and> b < NBUF"
        using IH ref by auto
      ultimately show ?thesis by blast
    qed
  qed auto
  then show "same_bufs (bc_buf s) (bc_buf s1)"
    and "j < NBUCKET \<Longrightarrow> set (hb_list (bc_buckets s1 ! j)) \<subseteq> set (hb_list (bc_buckets s ! j))"
    and "r = None \<Longrightarrow> i \<in> set js \<Longrightarrow> b \<in> set (hb_list (bc_buckets s ! ((bid + i) mod NBUCKET))) \<Longrightarrow> b_refcnt (bc_buf s ! b) \<noteq> 0"
    and "r = Some b \<Longrightarrow> bio_inv (b # D) s1 \<and> b_refcnt (bc_buf s ! b) = 0 \<and> b < NBUF" by blast+
qed

section \<open>Getting a block\<close>

definition others_same :: "nat \<Rightarrow> bcache \<Rightarrow> bcache \<Rightarrow> bool" where
  "others_same b s s' \<longleftrightarrow> (\<forall>c < NBUF. c \<noteq> b \<longrightarrow> (\<exists>f. bc_buf s' ! c = (bc_buf s ! c)\<lparr>b_referenced := f\<rparr>))"

text \<open>Changing a buffer without changing its key keeps the invariant when the buffer is not made live.\<close>

lemma bio_inv_set_buf:
  assumes inv: "bio_inv D s" and key: "\<And>x. buf_key (f x) = buf_key x" and live: "buf_live (f (bc_buf s ! b)) \<longrightarrow> buf_live (bc_buf s ! b)"
  shows "bio_inv D (set_buf s b f)"
proof -
  have "keys_ok ((bc_buf s)[b := f (bc_buf s ! b)]) k (hb_list (bc_buckets s ! k))" if k: "k < NBUCKET" for k
  proof (rule keys_ok_cong)
    show "keys_ok (bc_buf s) k (hb_list (bc_buckets s ! k))" using inv k by (simp add: bio_inv_def)
    fix c assume "c \<in> set (hb_list (bc_buckets s ! k))"
    show "buf_key ((bc_buf s)[b := f (bc_buf s ! b)] ! c) = buf_key (bc_buf s ! c) \<and>
      (buf_live ((bc_buf s)[b := f (bc_buf s ! b)] ! c) \<longrightarrow> buf_live (bc_buf s ! c))"
    proof (cases "c = b \<and> b < length (bc_buf s)")
      case False
      then have "(bc_buf s)[b := f (bc_buf s ! b)] ! c = bc_buf s ! c"
        by (cases "c = b") (simp_all add: list_update_beyond)
      then show ?thesis by simp
    qed (use key live in auto)
  qed
  with inv show ?thesis by (simp add: bio_inv_def set_buf_def)
qed

lemma set_buf_nth: "b < length (bc_buf s) \<Longrightarrow> bc_buf (set_buf s b f) ! c = (if c = b then f (bc_buf s ! b) else bc_buf s ! c)"
  by (simp add: set_buf_def nth_list_update)

lemma set_buf_others: "others_same b s s' \<Longrightarrow> length (bc_buf s') = NBUF \<Longrightarrow> others_same b s (set_buf s' b f)"
  by (auto simp: others_same_def set_buf_def)

lemma others_same_refl [simp]: "others_same b s s"
  unfolding others_same_def by (metis buf.surjective buf.update_convs(6))

lemma distinct_concat_disjoint:
  "distinct (concat xss) \<Longrightarrow> i < length xss \<Longrightarrow> j < length xss \<Longrightarrow> i \<noteq> j \<Longrightarrow> set (xss ! i) \<inter> set (xss ! j) = {}"
proof (induction xss arbitrary: i j)
  case (Cons xs xss)
  have "set xs \<inter> set (xss ! k) = {}" if "k < length xss" for k
    using Cons.prems(1) nth_mem [OF that] by auto
  with Cons show ?case by (cases i; cases j) auto
qed simp

lemma bget_hit:
  assumes inv: "bio_inv [] s" and f: "find_buf (bc_buf s) dev bno (hb_list (bc_buckets s ! HASH bno)) = Some b"
  shows "\<exists>s'. bget s dev bno = Ok (b, s') \<and> bio_inv [] s' \<and> b < NBUF \<and> others_same b s s' \<and>
      bc_buf s' ! b = (bc_buf s ! b)\<lparr>b_refcnt := b_refcnt (bc_buf s ! b) + 1, b_referenced := True, b_locked := True\<rparr> \<and>
      buf_key (bc_buf s ! b) = (dev, bno)"
proof -
  let ?k = "HASH bno"
  let ?x = "(bc_buf s ! b)\<lparr>b_refcnt := b_refcnt (bc_buf s ! b) + 1, b_referenced := True\<rparr>"
  let ?s1 = "set_buf s b (\<lambda>x. x\<lparr>b_refcnt := b_refcnt x + 1, b_referenced := True\<rparr>)"
  have len: "length (bc_buf s) = NBUF" "length (bc_buckets s) = NBUCKET" using inv by (simp_all add: bio_inv_def)
  have b: "b \<in> set (hb_list (bc_buckets s ! ?k))" "buf_key (bc_buf s ! b) = (dev, bno)" using find_buf_Some [OF f] by auto
  have lt: "b < NBUF" using bio_inv_lists(2) [OF inv HASH_less b(1)] .
  have ks: "keys_ok ((bc_buf s)[b := ?x]) j (hb_list (bc_buckets s ! j))" if "j < NBUCKET" for j
  proof (cases "j = ?k")
    case True
    have "keys_ok (bc_buf s) ?k (hb_list (bc_buckets s ! ?k))" using inv HASH_less by (simp add: bio_inv_def)
    from keys_ok_found [OF this f bio_inv_lists(1) [OF inv HASH_less]] True lt len b(2) show ?thesis
      by (simp add: buf_key_def)
  next
    case False
    have "b \<notin> set (hb_list (bc_buckets s ! j))"
    proof
      assume bj: "b \<in> set (hb_list (bc_buckets s ! j))"
      have m: "distinct (concat (map hb_list (bc_buckets s)))"
        using inv mset_eq_imp_distinct_iff [of "concat (map hb_list (bc_buckets s))" "[0..<NBUF]"]
        by (simp add: bio_inv_def)
      have "set (map hb_list (bc_buckets s) ! j) \<inter> set (map hb_list (bc_buckets s) ! ?k) = {}"
        by (rule distinct_concat_disjoint [OF m]) (use that False len HASH_less [of bno] in simp_all)
      with bj b(1) that len HASH_less [of bno] show False by auto
    qed
    then have same: "(bc_buf s)[b := ?x] ! c = bc_buf s ! c" if "c \<in> set (hb_list (bc_buckets s ! j))" for c
      using that by (metis nth_list_update_neq)
    have "keys_ok (bc_buf s) j (hb_list (bc_buckets s ! j))" using inv that by (simp add: bio_inv_def)
    then show ?thesis by (rule keys_ok_cong) (simp only: same simp_thms)
  qed
  have "bio_inv [] ?s1" using inv ks by (simp add: bio_inv_def set_buf_def)
  then have "bio_inv [] (acquiresleep_buf ?s1 b)" unfolding acquiresleep_buf_def
    by (rule bio_inv_set_buf) (simp_all add: buf_key_def buf_live_def)
  moreover have "bget s dev bno = Ok (b, acquiresleep_buf ?s1 b)" using f by (simp add: bget_def bget_lookup_def)
  moreover have "others_same b s (acquiresleep_buf ?s1 b)" unfolding acquiresleep_buf_def
    by (intro set_buf_others) (simp_all add: len set_buf_def)
  ultimately show ?thesis using lt len b(2)
    by (intro exI [of _ "acquiresleep_buf ?s1 b"]) (simp add: acquiresleep_buf_def set_buf_def)
qed

lemma bget_insert_ok:
  assumes inv: "bio_inv (b # D) s" and nf: "\<And>c. c \<in> set (hb_list (bc_buckets s ! HASH bno)) \<Longrightarrow> buf_key (bc_buf s ! c) \<noteq> (dev, bno)"
  shows "bio_inv D (bget_insert s b dev bno)"
    and "bc_buf (bget_insert s b dev bno) ! c = (if c = b then
      (bc_buf s ! b)\<lparr>b_dev := dev, b_blockno := bno, b_valid := False, b_refcnt := 1, b_referenced := True\<rparr> else bc_buf s ! c)"
    and "length (bc_buf (bget_insert s b dev bno)) = NBUF"
proof -
  let ?k = "HASH bno" and ?bk = "bc_buckets s ! HASH bno"
  let ?x = "(bc_buf s ! b)\<lparr>b_dev := dev, b_blockno := bno, b_valid := False, b_refcnt := 1, b_referenced := True\<rparr>"
  have len: "length (bc_buf s) = NBUF" "length (bc_buckets s) = NBUCKET" using inv by (simp_all add: bio_inv_def)
  have b: "b < NBUF" using bio_inv_detached [OF inv] by simp
  have nb: "b \<notin> set (hb_list (bc_buckets s ! j))" if "j < NBUCKET" for j
    using bio_inv_lists(4) [OF inv that, of b] by auto
  have e: "bget_insert s b dev bno = s\<lparr>bc_buf := (bc_buf s)[b := ?x], bc_buckets := (bc_buckets s)[?k := ?bk\<lparr>hb_list := b # hb_list ?bk\<rparr>]\<rparr>"
    by (simp add: bget_insert_def set_buf_def bucket_push_def)
  have ok: "keys_ok (bc_buf s) j (hb_list (bc_buckets s ! j))" if "j < NBUCKET" for j
    using inv that by (simp add: bio_inv_def)
  show "bio_inv D (bget_insert s b dev bno)" unfolding e
  proof (rule bio_inv_bucket_upd [OF inv HASH_less])
    have "keys_ok ((bc_buf s)[b := ?x]) ?k (b # hb_list ?bk)"
      by (rule keys_ok_push [OF ok [OF HASH_less] nf nb [OF HASH_less]]) (use b len in \<open>simp_all add: buf_key_def\<close>)
    then show "keys_ok ((bc_buf s)[b := ?x]) ?k (hb_list (?bk\<lparr>hb_list := b # hb_list ?bk\<rparr>))" by simp
    fix j assume j: "j < NBUCKET" "j \<noteq> ?k"
    have "(bc_buf s)[b := ?x] ! c = bc_buf s ! c" if "c \<in> set (hb_list (bc_buckets s ! j))" for c
      using nb [OF j(1)] that by (metis nth_list_update_neq)
    then show "keys_ok ((bc_buf s)[b := ?x]) j (hb_list (bc_buckets s ! j))"
      by (intro keys_ok_cong [OF ok [OF j(1)]]) (simp only: simp_thms)
  next
    have "hand_ok (hb_list ?bk) (hb_hand ?bk)" using inv HASH_less [of bno] unfolding bio_inv_def by blast
    then show "hand_ok (hb_list (?bk\<lparr>hb_list := b # hb_list ?bk\<rparr>)) (hb_hand (?bk\<lparr>hb_list := b # hb_list ?bk\<rparr>))"
      by (auto simp: hand_ok_def split: option.splits)
  qed (use len in simp_all)
  show "bc_buf (bget_insert s b dev bno) ! c = (if c = b then ?x else bc_buf s ! c)"
    using b len by (simp add: e)
  show "length (bc_buf (bget_insert s b dev bno)) = NBUF" using len by (simp add: e)
qed

lemma bget_miss_panic:
  assumes inv: "bio_inv [] s" and sc: "bget_scan s (HASH bno) [0..<NBUCKET] = (None, s1)" and b: "b < NBUF"
  shows "b_refcnt (bc_buf s ! b) \<noteq> 0"
proof -
  obtain k where k: "k < NBUCKET" "b \<in> set (hb_list (bc_buckets s ! k))" by (rule bio_inv_covers [OF inv b])
  let ?i = "(k + NBUCKET - HASH bno) mod NBUCKET"
  have "HASH bno + (k + NBUCKET - HASH bno) = k + NBUCKET" using HASH_less [of bno] by linarith
  then have "(HASH bno + ?i) mod NBUCKET = k"
    using k(1) by (metis mod_add_right_eq mod_add_self2 mod_less)
  with bget_scan_ok(3) [OF inv sc refl, of ?i b] k(2) show ?thesis by simp
qed

lemma bget_miss:
  assumes inv: "bio_inv [] s" and f: "find_buf (bc_buf s) dev bno (hb_list (bc_buckets s ! HASH bno)) = None"
    and idle: "c < NBUF" "b_refcnt (bc_buf s ! c) = 0"
  shows "\<exists>b s'. bget s dev bno = Ok (b, s') \<and> bio_inv [] s' \<and> b < NBUF \<and> others_same b s s' \<and>
      b_refcnt (bc_buf s ! b) = 0 \<and> buf_key (bc_buf s' ! b) = (dev, bno) \<and> b_refcnt (bc_buf s' ! b) = 1 \<and>
      \<not> b_valid (bc_buf s' ! b) \<and> b_locked (bc_buf s' ! b)"
proof -
  obtain r s2 where sc: "bget_scan s (HASH bno) [0..<NBUCKET] = (r, s2)" by (cases "bget_scan s (HASH bno) [0..<NBUCKET]")
  have "r \<noteq> None" using bget_miss_panic [OF inv _ idle(1), of bno s2] idle(2) sc by auto
  then obtain b where r: "r = Some b" by auto
  have sb: "same_bufs (bc_buf s) (bc_buf s2)" and inv2: "bio_inv [b] s2" and b: "b_refcnt (bc_buf s ! b) = 0" "b < NBUF"
    using bget_scan_ok(1,4) [OF inv sc] r by auto
  have len: "length (bc_buf s) = NBUF" using inv by (simp add: bio_inv_def)
  have nf: "buf_key (bc_buf s2 ! e) \<noteq> (dev, bno)" if "e \<in> set (hb_list (bc_buckets s2 ! HASH bno))" for e
  proof -
    have e: "e \<in> set (hb_list (bc_buckets s ! HASH bno))" using bget_scan_ok(2) [OF inv sc HASH_less] that by blast
    have "buf_key (bc_buf s2 ! e) = buf_key (bc_buf s ! e)"
      using same_bufs_key [OF sb] bio_inv_lists(2) [OF inv HASH_less e] len by simp
    with e f show ?thesis by (simp add: find_buf_None)
  qed
  note ins = bget_insert_ok [OF inv2 nf]
  let ?s3 = "bget_insert s2 b dev bno" and ?s4 = "acquiresleep_buf (bget_insert s2 b dev bno) b"
  have "bget s dev bno = Ok (b, ?s4)" using f sc r by (simp add: bget_def bget_lookup_def)
  moreover have "bio_inv [] ?s4" unfolding acquiresleep_buf_def
    by (rule bio_inv_set_buf [OF ins(1)]) (simp_all add: buf_key_def buf_live_def)
  moreover have "others_same b s ?s4" unfolding acquiresleep_buf_def
    by (rule set_buf_others) (use sb ins(2,3) len in \<open>simp_all add: others_same_def same_bufs_def\<close>)
  moreover have "bc_buf ?s4 ! b = (bc_buf ?s3 ! b)\<lparr>b_locked := True\<rparr>"
    unfolding acquiresleep_buf_def using set_buf_nth ins(3) b(2) by simp
  ultimately show ?thesis using b ins(2) [of b] by (simp add: buf_key_def)
qed

definition bio_cached :: "bcache \<Rightarrow> u32 \<Rightarrow> u32 \<Rightarrow> bool" where
  "bio_cached s dev bno \<longleftrightarrow> find_buf (bc_buf s) dev bno (hb_list (bc_buckets s ! HASH bno)) \<noteq> None"

definition bio_idle :: "bcache \<Rightarrow> bool" where
  "bio_idle s \<longleftrightarrow> (\<exists>b < NBUF. b_refcnt (bc_buf s ! b) = 0)"

definition bread_post :: "disk \<Rightarrow> bcache \<Rightarrow> u32 \<Rightarrow> u32 \<Rightarrow> nat \<Rightarrow> bcache \<Rightarrow> bool" where
  "bread_post d s dev bno b s' \<longleftrightarrow>
     bio_inv [] s' \<and> bio_coherent d s' \<and> b < NBUF \<and> others_same b s s' \<and>
     b_valid (bc_buf s' ! b) \<and> b_locked (bc_buf s' ! b) \<and> buf_key (bc_buf s' ! b) = (dev, bno) \<and>
     b_data (bc_buf s' ! b) = d bno \<and>
     (if bio_cached s dev bno
      then buf_key (bc_buf s ! b) = (dev, bno) \<and> b_refcnt (bc_buf s' ! b) = b_refcnt (bc_buf s ! b) + 1
      else b_refcnt (bc_buf s ! b) = 0 \<and> b_refcnt (bc_buf s' ! b) = 1)"

lemma coherent_others:
  assumes "bio_coherent d s" and "others_same b s s'" and "b_valid (bc_buf s' ! b) \<Longrightarrow> b_data (bc_buf s' ! b) = d (b_blockno (bc_buf s' ! b))"
  shows "bio_coherent d s'"
  unfolding bio_coherent_def
proof (intro allI impI)
  fix c assume c: "c < NBUF" "b_valid (bc_buf s' ! c)"
  show "b_data (bc_buf s' ! c) = d (b_blockno (bc_buf s' ! c))"
  proof (cases "c = b")
    case False
    then obtain f where "bc_buf s' ! c = (bc_buf s ! c)\<lparr>b_referenced := f\<rparr>" using assms(2) c by (auto simp: others_same_def)
    with assms(1) c show ?thesis by (auto simp: bio_coherent_def)
  qed (use assms(3) c in simp)
qed

lemma others_same_refcnt: "others_same b s s' \<Longrightarrow> c < NBUF \<Longrightarrow> c \<noteq> b \<Longrightarrow> b_refcnt (bc_buf s' ! c) = b_refcnt (bc_buf s ! c)"
  by (auto simp: others_same_def)

lemma bread_fill:
  assumes g: "bget s dev bno = Ok (b, s1)" and inv: "bio_inv [] s1" and b: "b < NBUF" and o: "others_same b s s1"
    and co: "bio_coherent d s" and key: "buf_key (bc_buf s1 ! b) = (dev, bno)" and lk: "b_locked (bc_buf s1 ! b)"
    and val: "b_valid (bc_buf s1 ! b) \<Longrightarrow> b_data (bc_buf s1 ! b) = d bno" and ref: "b_valid (bc_buf s1 ! b) \<or> b_refcnt (bc_buf s1 ! b) \<noteq> 0"
  shows "\<exists>s'. bread d s dev bno = Ok (b, s') \<and> bio_inv [] s' \<and> bio_coherent d s' \<and> others_same b s s' \<and>
     bc_buf s' ! b = (bc_buf s1 ! b)\<lparr>b_data := d bno, b_valid := True\<rparr>"
proof (cases "b_valid (bc_buf s1 ! b)")
  case True
  then have "bc_buf s1 ! b = (bc_buf s1 ! b)\<lparr>b_data := d bno, b_valid := True\<rparr>" using val by simp
  moreover have "bio_coherent d s1" using coherent_others [OF co o] val key by (simp add: buf_key_def)
  ultimately show ?thesis using g inv o True by (auto simp: bread_def)
next
  case False
  let ?f = "\<lambda>x. x\<lparr>b_data := d (b_blockno x), b_valid := True\<rparr>"
  have len: "length (bc_buf s1) = NBUF" using inv by (simp add: bio_inv_def)
  have x: "bc_buf (set_buf s1 b ?f) ! b = (bc_buf s1 ! b)\<lparr>b_data := d bno, b_valid := True\<rparr>"
    using b len key by (simp add: set_buf_def buf_key_def)
  have o': "others_same b s (set_buf s1 b ?f)" by (rule set_buf_others [OF o len])
  have "bio_inv [] (set_buf s1 b ?f)"
    by (rule bio_inv_set_buf [OF inv]) (use False ref in \<open>auto simp: buf_key_def buf_live_def\<close>)
  moreover have "bio_coherent d (set_buf s1 b ?f)"
    using coherent_others [OF co o'] x key by (simp add: buf_key_def)
  ultimately show ?thesis using g False o' x by (auto simp: bread_def)
qed

section \<open>Correctness of the cache\<close>

lemma bread_ok:
  assumes "bio_inv [] s" and "bio_coherent d s" and "\<And>b. b < NBUF \<Longrightarrow> b_refcnt (bc_buf s ! b) < 0xFFFFFFFF"
  shows "(bio_cached s dev bno \<or> bio_idle s \<longrightarrow> (\<exists>b s'. bread d s dev bno = Ok (b, s') \<and> bread_post d s dev bno b s')) \<and>
    (\<not> bio_cached s dev bno \<and> \<not> bio_idle s \<longrightarrow> bread d s dev bno = Panic ''bget: no buffers'')"
proof (cases "find_buf (bc_buf s) dev bno (hb_list (bc_buckets s ! HASH bno))")
  case (Some b)
  obtain s1 where g: "bget s dev bno = Ok (b, s1)" "bio_inv [] s1" "b < NBUF" "others_same b s s1"
      "bc_buf s1 ! b = (bc_buf s ! b)\<lparr>b_refcnt := b_refcnt (bc_buf s ! b) + 1, b_referenced := True, b_locked := True\<rparr>"
      "buf_key (bc_buf s ! b) = (dev, bno)"
    using bget_hit [OF assms(1) Some] by blast
  have nz: "b_refcnt (bc_buf s ! b) + 1 \<noteq> 0"
  proof
    assume "b_refcnt (bc_buf s ! b) + 1 = 0"
    then have "b_refcnt (bc_buf s ! b) = - 1" by (simp add: eq_neg_iff_add_eq_0)
    with assms(3) [OF g(3)] show False by simp
  qed
  have "\<exists>s'. bread d s dev bno = Ok (b, s') \<and> bio_inv [] s' \<and> bio_coherent d s' \<and> others_same b s s' \<and>
     bc_buf s' ! b = (bc_buf s1 ! b)\<lparr>b_data := d bno, b_valid := True\<rparr>"
    by (rule bread_fill [OF g(1-4) assms(2)])
      (use g nz assms(2) in \<open>auto simp: buf_key_def bio_coherent_def\<close>)
  then show ?thesis using g Some by (auto simp: bread_post_def bio_cached_def buf_key_def)
next
  case None
  show ?thesis
  proof (cases "bio_idle s")
    case True
    then obtain c where c: "c < NBUF" "b_refcnt (bc_buf s ! c) = 0" by (auto simp: bio_idle_def)
    obtain b s1 where g: "bget s dev bno = Ok (b, s1)" "bio_inv [] s1" "b < NBUF" "others_same b s s1"
      "b_refcnt (bc_buf s ! b) = 0" "buf_key (bc_buf s1 ! b) = (dev, bno)" "b_refcnt (bc_buf s1 ! b) = 1"
      "\<not> b_valid (bc_buf s1 ! b)" "b_locked (bc_buf s1 ! b)"
      using bget_miss [OF assms(1) None c] by blast
    have "\<exists>s'. bread d s dev bno = Ok (b, s') \<and> bio_inv [] s' \<and> bio_coherent d s' \<and> others_same b s s' \<and>
      bc_buf s' ! b = (bc_buf s1 ! b)\<lparr>b_data := d bno, b_valid := True\<rparr>"
      by (rule bread_fill [OF g(1-4) assms(2)]) (use g in auto)
    then show ?thesis using g None True by (auto simp: bread_post_def bio_cached_def buf_key_def)
  next
    case False
    obtain r s2 where sc: "bget_scan s (HASH bno) [0..<NBUCKET] = (r, s2)" by (cases "bget_scan s (HASH bno) [0..<NBUCKET]")
    have "r = None" using bget_scan_ok(4) [OF assms(1) sc] False by (cases r) (auto simp: bio_idle_def)
    with sc None have "bget s dev bno = Panic ''bget: no buffers''" by (simp add: bget_def bget_lookup_def)
    with None False show ?thesis by (simp add: bread_def bio_cached_def)
  qed
qed


text \<open>The state after \<^verbatim>\<open>binit\<close>.\<close>

definition bio_start :: "buf list \<Rightarrow> bcache" where
  "bio_start bs = \<lparr>bc_buf = bs, bc_buckets = map (\<lambda>xs. \<lparr>hb_list = xs, hb_hand = None\<rparr>)
     [[26, 13, 0], [27, 14, 1], [28, 15, 2], [29, 16, 3], [17, 4], [18, 5], [19, 6], [20, 7], [21, 8], [22, 9], [23, 10], [24, 11], [25, 12]]\<rparr>"

lemma binit_start: "binit = bio_start (replicate NBUF buf_zero)"
proof -
  let ?f = "\<lambda>b s. bucket_push s (b mod NBUCKET) b"
  have buf: "bc_buf (fold ?f xs s) = bc_buf s" for xs s
    by (induction xs arbitrary: s) (simp_all add: bucket_push_def)
  have cong: "bc_buckets (fold ?f xs s) = bc_buckets (fold ?f xs s')" if "bc_buckets s = bc_buckets s'" for xs s s'
    using that by (induction xs arbitrary: s s') (simp_all add: bucket_push_def)
  let ?b = "replicate NBUCKET \<lparr>hb_list = [], hb_hand = None\<rparr>"
  have "bc_buckets binit = bc_buckets (fold ?f [0..<NBUF] \<lparr>bc_buf = [], bc_buckets = ?b\<rparr>)"
    unfolding binit_def by (rule cong) simp
  also have "\<dots> = bc_buckets (bio_start [])" by code_simp
  finally show ?thesis using buf by (simp add: binit_def bio_start_def)
qed

lemma keys_ok_dead: "(\<And>b. b \<in> set xs \<Longrightarrow> \<not> buf_live (bs ! b)) \<Longrightarrow> keys_ok bs k xs"
  by (induction xs) auto

lemma bio_start_ok:
  assumes "length bs = NBUF" and "\<And>b. b < NBUF \<Longrightarrow> \<not> buf_live (bs ! b)"
  shows "bio_inv [] (bio_start bs)"
proof -
  let ?l = "map hb_list (bc_buckets (bio_start bs))"
  have l: "?l = [[26, 13, 0], [27, 14, 1], [28, 15, 2], [29, 16, 3], [17, 4], [18, 5], [19, 6], [20, 7], [21, 8], [22, 9], [23, 10], [24, 11], [25, 12]]"
    by (simp add: bio_start_def)
  have m: "mset (concat ?l) = mset [0..<NBUF]" unfolding l by code_simp
  have st: "set (concat ?l) = {0..<NBUF}" using mset_eq_setD [OF m] by simp
  have "hand_ok (hb_list x) (hb_hand x)" if "x \<in> set (bc_buckets (bio_start bs))" for x
    using that by (auto simp: bio_start_def hand_ok_def)
  moreover have "keys_ok bs k (hb_list x)" if "x \<in> set (bc_buckets (bio_start bs))" for x k
  proof (rule keys_ok_dead)
    fix b assume "b \<in> set (hb_list x)"
    with that st have "b \<in> {0..<NBUF}" by auto
    with assms(2) show "\<not> buf_live (bs ! b)" by simp
  qed
  moreover have "length (bc_buckets (bio_start bs)) = NBUCKET" "bc_buf (bio_start bs) = bs" by (simp_all add: bio_start_def)
  ultimately show ?thesis using assms(1) m by (simp add: bio_inv_def)
qed

lemma binit_ok: "bio_inv [] binit"
  unfolding binit_start by (rule bio_start_ok) (simp_all add: buf_live_def buf_zero_def)

lemma binit_idle: "bio_idle binit"
  unfolding bio_idle_def binit_start by (rule exI [of _ 0]) (simp add: bio_start_def buf_zero_def)

lemma binit_coherent: "bio_coherent d binit"
  and binit_refcnt: "\<forall>b < NBUF. b_refcnt (bc_buf binit ! b) < 0xFFFFFFFF"
  unfolding binit_start by (simp_all add: bio_coherent_def bio_start_def buf_zero_def)


text \<open>The live buffers of one key.\<close>

lemma keys_ok_unique:
  "keys_ok bs k xs \<Longrightarrow> distinct xs \<Longrightarrow> b \<in> set xs \<Longrightarrow> c \<in> set xs \<Longrightarrow> buf_live (bs ! b) \<Longrightarrow> buf_live (bs ! c) \<Longrightarrow>
   buf_key (bs ! b) = buf_key (bs ! c) \<Longrightarrow> b = c"
  by (induction xs) (auto dest: sym)

lemma keys_ok_bucket: "keys_ok bs k xs \<Longrightarrow> b \<in> set xs \<Longrightarrow> buf_live (bs ! b) \<Longrightarrow> HASH (b_blockno (bs ! b)) = k"
  by (induction xs) auto

lemma bio_inv_unique:
  assumes inv: "bio_inv [] s" and b: "b < NBUF" "buf_live (bc_buf s ! b)" and c: "c < NBUF" "buf_live (bc_buf s ! c)"
    and key: "buf_key (bc_buf s ! b) = buf_key (bc_buf s ! c)"
  shows "b = c"
proof -
  obtain k where k: "k < NBUCKET" "b \<in> set (hb_list (bc_buckets s ! k))" by (rule bio_inv_covers [OF inv b(1)])
  obtain j where j: "j < NBUCKET" "c \<in> set (hb_list (bc_buckets s ! j))" by (rule bio_inv_covers [OF inv c(1)])
  have ks: "keys_ok (bc_buf s) i (hb_list (bc_buckets s ! i))" if "i < NBUCKET" for i using inv that by (simp add: bio_inv_def)
  have "k = j" using keys_ok_bucket [OF ks [OF k(1)] k(2) b(2)] keys_ok_bucket [OF ks [OF j(1)] j(2) c(2)] key
    by (simp add: buf_key_def)
  with keys_ok_unique [OF ks [OF k(1)] bio_inv_lists(1) [OF inv k(1)] k(2) _ b(2) c(2) key] j show ?thesis by simp
qed

text \<open>The way the file system changes a block: read it, change the bytes, write it through, release it.\<close>

definition bio_update :: "disk \<Rightarrow> bcache \<Rightarrow> u32 \<Rightarrow> u32 \<Rightarrow> (u8 list \<Rightarrow> u8 list) \<Rightarrow> (disk \<times> bcache) res" where
  "bio_update d s dev bno f =
     rbind (bread d s dev bno) (\<lambda>(b, s1).
       let s2 = set_buf s1 b (\<lambda>x. x\<lparr>b_data := f (b_data x)\<rparr>)
       in rbind (bwrite d s2 b) (\<lambda>d'. rmap (\<lambda>s3. (d', s3)) (brelse s2 b)))"

lemma bio_update_step:
  assumes inv: "bio_inv [] s1" and co: "bio_coherent d s1" and b: "b < NBUF" and v: "b_valid (bc_buf s1 ! b)"
    and l: "b_locked (bc_buf s1 ! b)" and key: "buf_key (bc_buf s1 ! b) = (dev, bno)" and dt: "b_data (bc_buf s1 ! b) = d bno"
    and one: "\<And>c. c < NBUF \<Longrightarrow> b_valid (bc_buf s1 ! c) \<Longrightarrow> b_dev (bc_buf s1 ! c) = dev"
    and r: "bread d s dev bno = Ok (b, s1)"
  shows "\<exists>s'. bio_update d s dev bno f = Ok (d(bno := f (d bno)), s') \<and> bio_inv [] s' \<and> bio_coherent (d(bno := f (d bno))) s' \<and>
    b_refcnt (bc_buf s' ! b) = b_refcnt (bc_buf s1 ! b) - 1 \<and> others_same b s1 s'"
proof -
  let ?s2 = "set_buf s1 b (\<lambda>x. x\<lparr>b_data := f (b_data x)\<rparr>)"
  let ?s3 = "set_buf ?s2 b (\<lambda>x. x\<lparr>b_locked := False, b_refcnt := b_refcnt x - 1, b_referenced := True\<rparr>)"
  have len: "length (bc_buf s1) = NBUF" using inv by (simp add: bio_inv_def)
  have x2: "bc_buf ?s2 ! c = (if c = b then (bc_buf s1 ! b)\<lparr>b_data := f (d bno)\<rparr> else bc_buf s1 ! c)" for c
    using set_buf_nth b len dt by simp
  have l2: "length (bc_buf ?s2) = NBUF" using len by (simp add: set_buf_def)
  have x3: "bc_buf ?s3 ! c = (if c = b then (bc_buf s1 ! b)\<lparr>b_data := f (d bno), b_locked := False, b_refcnt := b_refcnt (bc_buf s1 ! b) - 1, b_referenced := True\<rparr> else bc_buf s1 ! c)" for c
    using set_buf_nth [of b ?s2] b l2 x2 by simp
  have "bio_update d s dev bno f = Ok (d(bno := f (d bno)), ?s3)"
    using r l key by (simp add: bio_update_def bwrite_def brelse_def x2 buf_key_def)
  moreover have "bio_inv [] ?s2" by (rule bio_inv_set_buf [OF inv]) (simp_all add: buf_key_def buf_live_def)
  then have "bio_inv [] ?s3"
    by (rule bio_inv_set_buf) (use v in \<open>simp_all add: buf_key_def buf_live_def x2\<close>)
  moreover have "bio_coherent (d(bno := f (d bno))) ?s3"
    unfolding bio_coherent_def
  proof (intro allI impI)
    fix c assume c: "c < NBUF" "b_valid (bc_buf ?s3 ! c)"
    show "b_data (bc_buf ?s3 ! c) = (d(bno := f (d bno))) (b_blockno (bc_buf ?s3 ! c))"
    proof (cases "c = b")
      case True
      with key show ?thesis by (simp add: x3 buf_key_def)
    next
      case False
      have vc: "b_valid (bc_buf s1 ! c)" using c False by (simp add: x3)
      have "b_blockno (bc_buf s1 ! c) \<noteq> bno"
      proof
        assume "b_blockno (bc_buf s1 ! c) = bno"
        with one [OF c(1) vc] key have "buf_key (bc_buf s1 ! c) = buf_key (bc_buf s1 ! b)" by (simp add: buf_key_def)
        with bio_inv_unique [OF inv c(1) _ b] vc v False show False by (simp add: buf_live_def)
      qed
      with co c(1) vc False show ?thesis by (simp add: x3 bio_coherent_def)
    qed
  qed
  moreover have "others_same b s1 ?s3" by (intro set_buf_others others_same_refl len l2)
  ultimately show ?thesis using x3 by (intro exI [of _ ?s3]) simp
qed


lemma binit_dev: "\<forall>b < NBUF. b_valid (bc_buf binit ! b) \<longrightarrow> b_dev (bc_buf binit ! b) = 0"
  unfolding binit_start by (simp add: bio_start_def buf_zero_def)


text \<open>
  two processes that miss the same block at the same time both insert a buffer for it. \<^verbatim>\<open>bget\<close> drops the
  bucket lock between its failed lookup and the insertion and does not look again, so when both lookups
  come first the cache ends up with two buffers of one key, both in use: the block has two copies and two
  sleep locks, although the cache is meant to be the synchronisation point of a disk block.
\<close>
theorem bget_duplicate_race:
  assumes inv: "bio_inv [] s" and miss: "bget_lookup s dev bno = (None, s)"
    and a: "bget_scan s (HASH bno) [0..<NBUCKET] = (Some a, s1)" and b: "bget_scan s1 (HASH bno) [0..<NBUCKET] = (Some b, s2)"
  shows "let s3 = bget_insert (bget_insert s2 a dev bno) b dev bno in
    a \<noteq> b \<and> a \<in> set (hb_list (bc_buckets s3 ! HASH bno)) \<and> b \<in> set (hb_list (bc_buckets s3 ! HASH bno)) \<and>
    buf_key (bc_buf s3 ! a) = (dev, bno) \<and> buf_key (bc_buf s3 ! b) = (dev, bno) \<and>
    b_refcnt (bc_buf s3 ! a) = 1 \<and> b_refcnt (bc_buf s3 ! b) = 1"
proof -
  have inv1: "bio_inv [a] s1" and a': "a < NBUF" using bget_scan_ok(4) [OF inv a] by auto
  have inv2: "bio_inv [b, a] s2" and b': "b < NBUF" using bget_scan_ok(4) [OF inv1 b] by auto
  have "mset ([b, a] @ concat (map hb_list (bc_buckets s2))) = mset [0..<NBUF]" using inv2 unfolding bio_inv_def by blast
  from mset_eq_imp_distinct_iff [OF this] have ab: "a \<noteq> b" by auto
  have len: "length (bc_buf s2) = NBUF" "length (bc_buckets s2) = NBUCKET" using inv2 by (simp_all add: bio_inv_def)
  then show ?thesis using ab a' b'
    by (simp add: Let_def bget_insert_def set_buf_def bucket_push_def buf_key_def)
qed

definition bio_small :: bcache where
  "bio_small = bio_start (replicate NBUF \<lparr>b_valid = False, b_dev = 0, b_blockno = 0, b_locked = False, b_refcnt = 0,
     b_referenced = False, b_data = []\<rparr>)"

lemma bio_small_ok: "bio_inv [] bio_small"
  unfolding bio_small_def by (rule bio_start_ok) (simp_all add: buf_live_def)

theorem bget_duplicate_race_witness:
  "let s1 = snd (bget_scan bio_small (HASH 7) [0..<NBUCKET]); s2 = snd (bget_scan s1 (HASH 7) [0..<NBUCKET]);
       s3 = bget_insert (bget_insert s2 20 1 7) 7 1 7
   in buf_key (bc_buf s3 ! 20) = (1, 7) \<and> buf_key (bc_buf s3 ! 7) = (1, 7) \<and>
      b_refcnt (bc_buf s3 ! 20) = 1 \<and> b_refcnt (bc_buf s3 ! 7) = 1"
proof -
  let ?s1 = "snd (bget_scan bio_small (HASH 7) [0..<NBUCKET])" and ?s2 = "snd (bget_scan (snd (bget_scan bio_small (HASH 7) [0..<NBUCKET])) (HASH 7) [0..<NBUCKET])"
  have "find_buf (bc_buf bio_small) 1 7 (hb_list (bc_buckets bio_small ! HASH 7)) = None" by code_simp
  then have l: "bget_lookup bio_small 1 7 = (None, bio_small)" by (simp add: bget_lookup_def)
  have "fst (bget_scan bio_small (HASH 7) [0..<NBUCKET]) = Some 20" "fst (bget_scan ?s1 (HASH 7) [0..<NBUCKET]) = Some 7"
    by code_simp+
  then have "bget_scan bio_small (HASH 7) [0..<NBUCKET] = (Some 20, ?s1)" "bget_scan ?s1 (HASH 7) [0..<NBUCKET] = (Some 7, ?s2)"
    by (metis prod.collapse)+
  from bget_duplicate_race [OF bio_small_ok l this] show ?thesis by (simp only: Let_def simp_thms)
qed

end
