(* ===== verification/CString.thy ===== *)
theory CString
  imports Prelude
begin

text \<open>
  \<^verbatim>\<open>kernel/libc/string.c\<close>. A \<^verbatim>\<open>char *\<close> that is only read or filled forwards is the list of the bytes from
  it to the end of its array; \<open>deref\<close> reads the first of them and stands for a zero byte behind the end, which
  no caller reaches. \<^verbatim>\<open>memmove\<close> and \<^verbatim>\<open>memset\<close> work on one memory, a function from addresses to bytes, because
  their regions may overlap. \<^verbatim>\<open>char\<close> is unsigned on RISC-V.
\<close>

type_synonym bytes = "u8 list"
type_synonym bytemem = "u64 \<Rightarrow> u8"

definition deref :: "bytes \<Rightarrow> u8" where
  "deref s = (case s of [] \<Rightarrow> 0 | c # _ \<Rightarrow> c)"

lemma deref_simps [simp]: "deref [] = 0" "deref (c # s) = c"
  by (simp_all add: deref_def)

section \<open>Operations\<close>

fun memset_loop :: "bytemem \<Rightarrow> u64 \<Rightarrow> u8 \<Rightarrow> nat \<Rightarrow> bytemem" where
  "memset_loop m dst c 0 = m"
| "memset_loop m dst c (Suc n) = memset_loop (m(dst := c)) (dst + 1) c n"

definition memset :: "bytemem \<Rightarrow> u64 \<Rightarrow> u8 \<Rightarrow> u32 \<Rightarrow> bytemem" where
  "memset m dst c n = memset_loop m dst c (unat n)"

fun memcmp_loop :: "bytes \<Rightarrow> bytes \<Rightarrow> nat \<Rightarrow> int" where
  "memcmp_loop s1 s2 0 = 0"
| "memcmp_loop s1 s2 (Suc n) =
     (if deref s1 \<noteq> deref s2 then uint (deref s1) - uint (deref s2) else memcmp_loop (tl s1) (tl s2) n)"

definition memcmp :: "bytes \<Rightarrow> bytes \<Rightarrow> u32 \<Rightarrow> int" where
  "memcmp v1 v2 n = memcmp_loop v1 v2 (unat n)"

fun memmove_up :: "bytemem \<Rightarrow> u64 \<Rightarrow> u64 \<Rightarrow> nat \<Rightarrow> bytemem" where
  "memmove_up m d s 0 = m"
| "memmove_up m d s (Suc n) = memmove_up (m(d := m s)) (d + 1) (s + 1) n"

fun memmove_down :: "bytemem \<Rightarrow> u64 \<Rightarrow> u64 \<Rightarrow> nat \<Rightarrow> bytemem" where
  "memmove_down m d s 0 = m"
| "memmove_down m d s (Suc n) = memmove_down (m(d - 1 := m (s - 1))) (d - 1) (s - 1) n"

definition memmove :: "bytemem \<Rightarrow> u64 \<Rightarrow> u64 \<Rightarrow> u32 \<Rightarrow> bytemem" where
  "memmove m dst src n =
     (if src < dst \<and> dst < src + ucast n
      then memmove_down m (dst + ucast n) (src + ucast n) (unat n)
      else memmove_up m dst src (unat n))"

fun strncmp_loop :: "bytes \<Rightarrow> bytes \<Rightarrow> nat \<Rightarrow> int" where
  "strncmp_loop p q 0 = 0"
| "strncmp_loop p q (Suc n) =
     (if deref p \<noteq> 0 \<and> deref p = deref q then strncmp_loop (tl p) (tl q) n else uint (deref p) - uint (deref q))"

definition strncmp :: "bytes \<Rightarrow> bytes \<Rightarrow> u32 \<Rightarrow> int" where
  "strncmp p q n = strncmp_loop p q (unat n)"

fun zero_fill :: "bytes \<Rightarrow> nat \<Rightarrow> bytes" where
  "zero_fill (_ # s) (Suc n) = 0 # zero_fill s n"
| "zero_fill s n = s"

fun strncpy_loop :: "bytes \<Rightarrow> bytes \<Rightarrow> nat \<Rightarrow> bytes" where
  "strncpy_loop (_ # s) t (Suc n) =
     deref t # (if deref t \<noteq> 0 then strncpy_loop s (tl t) n else zero_fill s n)"
| "strncpy_loop s t n = s"

definition strncpy :: "bytes \<Rightarrow> bytes \<Rightarrow> int \<Rightarrow> bytes" where
  "strncpy s t n = strncpy_loop s t (nat n)"

fun safestrcpy_loop :: "bytes \<Rightarrow> bytes \<Rightarrow> nat \<Rightarrow> bytes" where
  "safestrcpy_loop [] t n = []"
| "safestrcpy_loop (_ # s) t 0 = 0 # s"
| "safestrcpy_loop (x # s) t (Suc n) =
     (if deref t \<noteq> 0 then deref t # safestrcpy_loop s (tl t) n
      else 0 # (case s of [] \<Rightarrow> [] | _ # s' \<Rightarrow> 0 # s'))"

definition safestrcpy :: "bytes \<Rightarrow> bytes \<Rightarrow> int \<Rightarrow> bytes" where
  "safestrcpy s t n = (if n \<le> 0 then s else safestrcpy_loop s t (nat (n - 1)))"

fun strlen :: "bytes \<Rightarrow> nat" where
  "strlen [] = 0"
| "strlen (c # s) = (if c \<noteq> 0 then Suc (strlen s) else 0)"

fun strchr :: "bytes \<Rightarrow> u8 \<Rightarrow> nat option" where
  "strchr [] c = None"
| "strchr (x # s) c = (if x = 0 then None else if x = c then Some 0 else map_option Suc (strchr s c))"

fun snstr :: "bytes \<Rightarrow> u16 list \<Rightarrow> nat \<Rightarrow> bytes" where
  "snstr (x # dst) (w # src) (Suc len) =
     (if w \<noteq> 0 then ucast (w AND 0xff) # snstr dst src len else zero_fill (x # dst) len)"
| "snstr dst src len = dst"

section \<open>Moving memory\<close>

lemma unat_pred_offset:
  fixes a d :: u64
  assumes "a \<noteq> d"
  shows "unat (a - d) = Suc (unat (a - (d + 1)))"
proof -
  have "a - d = (a - (d + 1)) + 1" by simp
  moreover have "a - d \<noteq> 0" using assms by simp
  ultimately show ?thesis by (metis unatSuc add.commute)
qed

lemma memmove_up_spec:
  assumes "\<And>i j. i < j \<Longrightarrow> j < n \<Longrightarrow> d + of_nat i \<noteq> s + of_nat j" and "n < 2 ^ 64"
  shows "memmove_up m d s n a = (if unat (a - d) < n then m (s + (a - d)) else m a)"
  using assms
proof (induction n arbitrary: m d s)
  case (Suc n)
  let ?m = "m(d := m s)"
  have disj: "d + 1 + of_nat i \<noteq> s + 1 + of_nat j" if "i < j" "j < n" for i j
    using Suc.prems(1) [of "Suc i" "Suc j"] that by (simp add: algebra_simps)
  have IH: "memmove_up ?m (d + 1) (s + 1) n a = (if unat (a - (d + 1)) < n then ?m (s + 1 + (a - (d + 1))) else ?m a)"
    by (rule Suc.IH) (use disj Suc.prems(2) in auto)
  show ?case
  proof (cases "a = d")
    case True
    then show ?thesis using IH Suc.prems(2) by (simp add: unat_max64)
  next
    case False
    note u = unat_pred_offset [OF False]
    have "s + (a - d) \<noteq> d" if "unat (a - d) < Suc n"
      using Suc.prems(1) [of 0 "unat (a - d)"] that u by (auto dest: sym)
    then show ?thesis using IH u False by auto
  qed
qed simp

lemma memmove_down_spec:
  assumes "\<And>i j. 0 < i \<Longrightarrow> i < j \<Longrightarrow> j \<le> n \<Longrightarrow> d - of_nat i \<noteq> s - of_nat j" and "n < 2 ^ 64"
  shows "memmove_down m d s n a = (if a \<noteq> d \<and> unat (d - a) \<le> n then m (s - (d - a)) else m a)"
  using assms
proof (induction n arbitrary: m d s)
  case 0
  have "a \<noteq> d \<Longrightarrow> unat (d - a) \<noteq> 0" by (simp add: unat_eq_0)
  then show ?case by auto
next
  case (Suc n)
  let ?m = "m(d - 1 := m (s - 1))"
  have disj: "d - 1 - of_nat i \<noteq> s - 1 - of_nat j" if "0 < i" "i < j" "j \<le> n" for i j
    using Suc.prems(1) [of "Suc i" "Suc j"] that by (simp add: algebra_simps)
  have IH: "memmove_down ?m (d - 1) (s - 1) n a =
      (if a \<noteq> d - 1 \<and> unat (d - 1 - a) \<le> n then ?m (s - 1 - (d - 1 - a)) else ?m a)"
    by (rule Suc.IH) (use disj Suc.prems(2) in auto)
  show ?case
  proof (cases "a = d")
    case True
    then show ?thesis using IH Suc.prems(2) by (simp add: unat_max64)
  next
    case ad: False
    have u: "unat (d - a) = Suc (unat (d - 1 - a))"
      using unat_pred_offset [of d a] ad by (simp add: algebra_simps)
    show ?thesis
    proof (cases "a = d - 1")
      case True
      then have "d - a = 1" by simp
      then show ?thesis using IH ad u True by simp
    next
      case False
      have "unat (d - 1 - a) \<noteq> 0" using False by (simp add: unat_eq_0 algebra_simps)
      then have "s - (d - a) \<noteq> d - 1" if "unat (d - a) \<le> Suc n"
        using Suc.prems(1) [of 1 "unat (d - a)"] that u by (auto dest: sym)
      then show ?thesis using IH u False ad by (auto simp: algebra_simps)
    qed
  qed
qed

text \<open>The direction \<^verbatim>\<open>memmove\<close> chooses never overwrites a byte that is still to be read.\<close>

lemma memmove_ok:
  assumes "unat src + unat n < 2 ^ 64" and "unat dst + unat n < 2 ^ 64"
  shows "memmove m dst src n a = (if unat (a - dst) < unat n then m (src + (a - dst)) else m a)"
proof -
  have un: "unat (ucast n :: u64) = unat n" by simp
  have n64: "unat n < 2 ^ 64" using assms by simp
  have se: "unat (src + ucast n) = unat src + unat n" using assms(1) un by (simp add: unat_word_ariths)
  have off: "unat (x + of_nat i) = unat x + i" if "unat x + i < 2 ^ 64" for x :: u64 and i
    using that by (simp add: unat_word_ariths unat_of_nat)
  show ?thesis
  proof (cases "src < dst \<and> dst < src + ucast n")
    case True
    then have lt: "unat src < unat dst" "unat dst < unat src + unat n" using se by (simp_all add: word_less_nat_alt)
    have "dst + ucast n - of_nat i \<noteq> src + ucast n - of_nat j" if "0 < i" "i < j" "j \<le> unat n" for i j
    proof
      assume "dst + ucast n - of_nat i = src + ucast n - of_nat j"
      then have "dst + of_nat (j - i) = src" using that by (simp add: of_nat_diff algebra_simps)
      then have "unat dst + (j - i) = unat src" using off [of dst "j - i"] that assms(2) by auto
      with lt show False by simp
    qed
    from memmove_down_spec [OF this n64] have
      d: "memmove m dst src n a = (if a \<noteq> dst + ucast n \<and> unat (dst + ucast n - a) \<le> unat n then m (src + ucast n - (dst + ucast n - a)) else m a)"
      using True by (simp add: memmove_def)
    have "a \<noteq> dst + ucast n \<and> unat (dst + ucast n - a) \<le> unat n \<longleftrightarrow> unat (a - dst) < unat n"
    proof -
      let ?k = "a - dst"
      have e: "dst + ucast n - a = ucast n - ?k" by simp
      have iff: "a = dst + ucast n \<longleftrightarrow> ?k = ucast n" by (auto simp: algebra_simps)
      show ?thesis
      proof (cases "?k \<le> ucast n")
        case True
        then have "unat (ucast n - ?k) = unat n - unat ?k" "unat ?k \<le> unat n" using un by (simp_all add: unat_sub word_le_nat_alt)
        then show ?thesis using iff e un by (metis diff_le_self le_neq_implies_less less_irrefl word_unat_eq_iff)
      next
        case False
        then have g: "unat n < unat ?k" using un by (simp add: word_le_nat_alt)
        have "unat (ucast n - ?k) = unat n + 2 ^ 64 - unat ?k"
          using g unat_lt64 [of ?k] un by (simp add: unat_sub_if')
        then have "\<not> unat (dst + ucast n - a) \<le> unat n" using unat_lt64 [of ?k] unfolding e by linarith
        then show ?thesis using g by simp
      qed
    qed
    with d show ?thesis by (simp add: algebra_simps)
  next
    case False
    have "dst + of_nat i \<noteq> src + of_nat j" if "i < j" "j < unat n" for i j
    proof
      assume "dst + of_nat i = src + of_nat j"
      then have "unat dst + i = unat src + j" using off [of dst i] off [of src j] that assms by simp
      with that False se show False by (auto simp: word_less_nat_alt)
    qed
    from memmove_up_spec [OF this n64] False show ?thesis by (auto simp: memmove_def)
  qed
qed

text \<open>
  \<^verbatim>\<open>memmove\<close> copies correctly whether or not the two regions overlap: when neither region wraps around the
  address space, byte \<open>i\<close> of the destination is the old byte \<open>i\<close> of the source and every byte outside the
  destination is unchanged.
\<close>
theorem memmove_overlapping:
  assumes "unat src + unat n < 2 ^ 64" and "unat dst + unat n < 2 ^ 64"
  shows "memmove m dst src n a = (if unat (a - dst) < unat n then m (src + (a - dst)) else m a)"
  using assms by (rule memmove_ok)

theorem memmove_overlapping_witness:
  "memmove (\<lambda>a. ucast a) 0x1002 0x1000 4 0x1003 = 1 \<and> memmove (\<lambda>a. ucast a) 0x1000 0x1002 4 0x1003 = 5"
  using memmove_overlapping [of "0x1000" "4" "0x1002" "\<lambda>a. ucast a" "0x1003"]
    memmove_overlapping [of "0x1002" "4" "0x1000" "\<lambda>a. ucast a" "0x1003"] by simp

section \<open>Strings\<close>

text \<open>The string at a pointer: the bytes before the first zero byte.\<close>

definition cstr :: "bytes \<Rightarrow> bytes" where
  "cstr s = takeWhile (\<lambda>c. c \<noteq> 0) s"

lemma cstr_simps [simp]: "cstr [] = []" "cstr (c # s) = (if c = 0 then [] else c # cstr s)"
  by (simp_all add: cstr_def)

lemma strlen_cstr: "strlen s = length (cstr s)"
  by (induction s) auto

lemma strncmp_loop_eq: "strncmp_loop p q n = 0 \<longleftrightarrow> take n (cstr p) = take n (cstr q)"
proof (induction n arbitrary: p q)
  case (Suc n)
  have "uint a = uint b \<longleftrightarrow> a = b" "uint a = 0 \<longleftrightarrow> a = 0" for a b :: u8
    by (simp_all add: word_uint_eq_iff)
  with Suc show ?case by (cases p; cases q) auto
qed simp

lemma strncmp_eq: "strncmp p q n = 0 \<longleftrightarrow> take (unat n) (cstr p) = take (unat n) (cstr q)"
  by (simp add: strncmp_def strncmp_loop_eq)

lemma strchr_None: "strchr s c = None \<longleftrightarrow> c \<notin> set (cstr s)"
  by (induction s) auto

lemma length_zero_fill [simp]: "length (zero_fill s n) = length s"
  by (induction s n rule: zero_fill.induct) auto

lemma zero_fill_eq: "n \<le> length s \<Longrightarrow> zero_fill s n = replicate n 0 @ drop n s"
  by (induction s n rule: zero_fill.induct) auto

lemma length_strncpy_loop [simp]: "length (strncpy_loop s t n) = length s"
  by (induction s t n rule: strncpy_loop.induct) auto

lemma strncpy_loop_eq:
  "n \<le> length s \<Longrightarrow> strncpy_loop s t n = take n (cstr t @ replicate n 0) @ drop n s"
proof (induction s t n rule: strncpy_loop.induct)
  case (1 x s t n)
  have "take (n - k) (0 # replicate n 0) = replicate (n - k) (0::u8)" for k
    by (metis diff_le_self min.absorb1 replicate_Suc take_replicate le_Suc_eq)
  with 1 show ?case by (cases t) (auto simp: zero_fill_eq)
qed auto

lemma length_safestrcpy_loop [simp]: "length (safestrcpy_loop s t n) = length s"
  by (induction s t n rule: safestrcpy_loop.induct) (auto split: list.splits)

lemma safestrcpy_loop_cstr:
  "n < length s \<Longrightarrow> cstr (safestrcpy_loop s t n) = take n (cstr t)"
proof (induction s t n rule: safestrcpy_loop.induct)
  case (3 x s t n)
  then show ?case by (cases t) auto
qed auto

text \<open>
  \<^verbatim>\<open>safestrcpy\<close> never writes outside its buffer and always terminates the copy: the buffer keeps its
  length and afterwards holds the longest prefix of the source string that leaves room for the zero byte.
  \<^verbatim>\<open>strncpy\<close> fills exactly the first \<open>n\<close> bytes, padding with zeros, and leaves the copy without a terminator
  exactly when the source has \<open>n\<close> or more characters.
\<close>
theorem string_copy_bounds:
  assumes "0 < n" and "nat n \<le> length s"
  shows "length (safestrcpy s t n) = length s \<and> cstr (safestrcpy s t n) = take (nat n - 1) (cstr t) \<and>
    strncpy s t n = take (nat n) (cstr t @ replicate (nat n) 0) @ drop (nat n) s \<and>
    (0 \<in> set (take (nat n) (strncpy s t n)) \<longleftrightarrow> strlen t < nat n)"
proof -
  have nz: "0 \<notin> set (take k (cstr t))" for k using set_takeWhileD [of 0 "\<lambda>c. c \<noteq> 0" t]
    by (auto simp: cstr_def dest: in_set_takeD)
  have eq: "strncpy s t n = take (nat n) (cstr t @ replicate (nat n) 0) @ drop (nat n) s"
    using assms by (simp add: strncpy_def strncpy_loop_eq)
  have "take (nat n) (strncpy s t n) = take (nat n) (cstr t) @ replicate (min (nat n) (nat n - length (cstr t))) 0"
    using assms unfolding eq by (simp add: min.absorb1 take_replicate)
  then have "0 \<in> set (take (nat n) (strncpy s t n)) \<longleftrightarrow> strlen t < nat n"
    using nz [of "nat n"] assms by (auto simp: strlen_cstr)
  then show ?thesis using assms eq safestrcpy_loop_cstr [of "nat (n - 1)" s t]
    by (simp add: safestrcpy_def nat_diff_distrib)
qed

theorem string_copy_bounds_witness:
  "cstr (safestrcpy [9, 9, 9] [65, 66, 67, 68, 0] 3) = [65, 66] \<and> strncpy [9, 9, 9] [65, 66, 67, 68, 0] 3 = [65, 66, 67]"
  using string_copy_bounds [of 3 "[9, 9, 9]" "[65, 66, 67, 68, 0]"] by simp

end
