(* ===== verification/FatName.thy ===== *)
theory FatName
  imports CString
begin

text \<open>
  The names of \<^verbatim>\<open>kernel/fs/fat32.c\<close>: legality (\<^verbatim>\<open>formatname\<close>), the 8.3 short name and its checksum, the
  encoding of a long name in directory entries by \<^verbatim>\<open>emake\<close> and its decoding by \<^verbatim>\<open>read_entry_name\<close>, and the
  splitting of paths (\<^verbatim>\<open>skipelem\<close>). A \<^verbatim>\<open>union dentry\<close> is the list of its 32 bytes; a pointer into an array that
  a loop moves back and forth is an index.
\<close>

abbreviation (input) CHAR_LONG_NAME :: nat where "CHAR_LONG_NAME \<equiv> 13"
abbreviation (input) CHAR_SHORT_NAME :: nat where "CHAR_SHORT_NAME \<equiv> 11"
abbreviation (input) FAT32_MAX_FILENAME :: nat where "FAT32_MAX_FILENAME \<equiv> 255"
abbreviation (input) ATTR_LONG_NAME :: u8 where "ATTR_LONG_NAME \<equiv> 0x0F"
abbreviation (input) LAST_LONG_ENTRY :: u8 where "LAST_LONG_ENTRY \<equiv> 0x40"
abbreviation (input) SPACE :: u8 where "SPACE \<equiv> 0x20"
abbreviation (input) DOT :: u8 where "DOT \<equiv> 0x2E"
abbreviation (input) SLASH :: u8 where "SLASH \<equiv> 0x2F"

section \<open>Legal names\<close>

definition illegal_long :: bytes where
  "illegal_long = [0x22, 0x2A, 0x2F, 0x3A, 0x3C, 0x3E, 0x3F, 0x5C, 0x7C, 0]"

fun trim_tail :: "bytes \<Rightarrow> nat \<Rightarrow> bytes" where
  "trim_tail s 0 = s"
| "trim_tail s (Suc p) = (if s ! p \<noteq> SPACE then s[Suc p := 0] else trim_tail s p)"

fun name_legal :: "bytes \<Rightarrow> bool" where
  "name_legal [] = True"
| "name_legal (c # s) = (c = 0 \<or> (\<not> (c < 0x20 \<or> strchr illegal_long c \<noteq> None) \<and> name_legal s))"

definition formatname :: "bytes \<Rightarrow> bytes option" where
  "formatname name =
     (let s = dropWhile (\<lambda>c. c = SPACE \<or> c = DOT) name
      in if name_legal s then Some (trim_tail s (strlen s)) else None)"

section \<open>Short names\<close>

definition illegal_short :: bytes where
  "illegal_short = [0x2B, 0x2C, 0x3B, 0x3D, 0x5B, 0x5D, 0]"

fun last_dot :: "bytes \<Rightarrow> nat \<Rightarrow> nat" where
  "last_dot name 0 = 0"
| "last_dot name (Suc j) = (if name ! j = DOT then j else last_dot name j)"

definition short_char :: "u8 \<Rightarrow> u8" where
  "short_char c =
     (if 0x61 \<le> c \<and> c \<le> 0x7A then c - 0x20
      else if strchr illegal_short c \<noteq> None then 0x5F else c)"

definition short_step :: "bytes \<Rightarrow> nat \<Rightarrow> nat option \<Rightarrow> bytes \<Rightarrow> (nat \<times> nat option \<times> bytes) option" where
  "short_step name k p out =
     (let c = name ! k; k1 = k + 1
      in if length out = 8 \<and> p \<noteq> None then
           (if the p + 1 < k1 then None else Some (the p + 1, None, out))
         else if c = SPACE then Some (k1, p, out)
         else if c = DOT then
           (if case p of None \<Rightarrow> True | Some d \<Rightarrow> d < k1
            then Some (k1, None, out @ replicate (unat (8 - of_nat (length out) :: u32)) SPACE)
            else Some (k1, p, out))
         else Some (k1, p, out @ [short_char c]))"

lemma short_step_forward: "short_step name k p out = Some (k', p', out') \<Longrightarrow> k < k'"
  by (auto simp: short_step_def Let_def split: if_splits)

function shortname_loop :: "bytes \<Rightarrow> nat \<Rightarrow> nat option \<Rightarrow> bytes \<Rightarrow> bytes" where
  "shortname_loop name k p out =
     (if length out < CHAR_SHORT_NAME \<and> k < length name \<and> name ! k \<noteq> 0 then
        case short_step name k p out of
          None \<Rightarrow> out
        | Some (k', p', out') \<Rightarrow> shortname_loop name k' p' out'
      else out)"
  by pat_completeness auto
termination
  by (relation "measure (\<lambda>(name, k, p, out). length name - k)") (auto dest: short_step_forward)

declare shortname_loop.simps [simp del]

definition generate_shortname :: "bytes \<Rightarrow> bytes" where
  "generate_shortname name =
     (let out = shortname_loop name 0 (Some (last_dot name (strlen name))) []
      in out @ replicate (CHAR_SHORT_NAME - length out) SPACE)"

fun cal_checksum_loop :: "u8 \<Rightarrow> bytes \<Rightarrow> u8" where
  "cal_checksum_loop acc [] = acc"
| "cal_checksum_loop acc (c # s) =
     cal_checksum_loop ((if acc AND 1 \<noteq> 0 then 0x80 else 0) + drop_bit 1 acc + c) s"

definition cal_checksum :: "bytes \<Rightarrow> u8" where
  "cal_checksum shortname = cal_checksum_loop 0 (take CHAR_SHORT_NAME shortname)"

section \<open>Directory entries\<close>

fun lne_units :: "bool \<Rightarrow> bytes \<Rightarrow> nat \<Rightarrow> bytes" where
  "lne_units ended p 0 = []"
| "lne_units ended p (Suc j) =
     (if ended then 0xff # 0xff # lne_units True p j
      else deref p # 0 # lne_units (deref p = 0) (tl p) j)"

definition lne_entry :: "u8 \<Rightarrow> u8 \<Rightarrow> bytes \<Rightarrow> bytes" where
  "lne_entry order checksum p =
     (let u = lne_units False p CHAR_LONG_NAME
      in [order] @ take 10 u @ [ATTR_LONG_NAME, 0, checksum] @ take 12 (drop 10 u) @ [0, 0] @ drop 22 u)"

definition lne_count :: "bytes \<Rightarrow> nat" where
  "lne_count name = (strlen name + CHAR_LONG_NAME - 1) div CHAR_LONG_NAME"

definition lne_order :: "nat \<Rightarrow> nat \<Rightarrow> u8" where
  "lne_order i entcnt = (if i = entcnt then of_nat i OR LAST_LONG_ENTRY else of_nat i)"

definition lne_list :: "bytes \<Rightarrow> bytes list" where
  "lne_list name =
     (let entcnt = lne_count name; checksum = cal_checksum (generate_shortname name)
      in map (\<lambda>i. lne_entry (lne_order i entcnt) checksum (drop ((i - 1) * CHAR_LONG_NAME) name)) (rev [1..<Suc entcnt]))"

definition sne_entry :: "bytes \<Rightarrow> u8 \<Rightarrow> u32 \<Rightarrow> u32 \<Rightarrow> bytes" where
  "sne_entry name attr first_clus file_size =
     strncpy (replicate CHAR_SHORT_NAME 0) name 11 @ [attr] @ replicate 8 0 @
     [ucast (drop_bit 16 first_clus), ucast (drop_bit 24 first_clus)] @ replicate 4 0 @
     [ucast first_clus, ucast (drop_bit 8 first_clus)] @
     [ucast file_size, ucast (drop_bit 8 file_size), ucast (drop_bit 16 file_size), ucast (drop_bit 24 file_size)]"

definition le16 :: "bytes \<Rightarrow> nat \<Rightarrow> u16" where
  "le16 d i = ucast (d ! i) OR push_bit 8 (ucast (d ! (i + 1)))"

definition le32 :: "bytes \<Rightarrow> nat \<Rightarrow> u32" where
  "le32 d i = ucast (d ! i) OR push_bit 8 (ucast (d ! (i + 1))) OR push_bit 16 (ucast (d ! (i + 2))) OR push_bit 24 (ucast (d ! (i + 3)))"

definition wchars :: "bytes \<Rightarrow> nat \<Rightarrow> nat \<Rightarrow> u16 list" where
  "wchars d i n = map (\<lambda>k. le16 d (i + 2 * k)) [0..<n]"

definition put_at :: "nat \<Rightarrow> (bytes \<Rightarrow> bytes) \<Rightarrow> bytes \<Rightarrow> bytes" where
  "put_at off f xs = take off xs @ f (drop off xs)"

definition overwrite :: "bytes \<Rightarrow> bytes \<Rightarrow> bytes" where
  "overwrite new xs = take (length xs) new @ drop (length new) xs"

definition dentry_attr :: "bytes \<Rightarrow> u8" where
  "dentry_attr d = d ! 11"

definition read_entry_name :: "bytes \<Rightarrow> bytes \<Rightarrow> bytes" where
  "read_entry_name buffer d =
     (if dentry_attr d = ATTR_LONG_NAME then
        put_at 11 (\<lambda>b. snstr b (wchars d 28 2) 2)
          (put_at 5 (\<lambda>b. snstr b (wchars d 14 6) 6)
            (snstr buffer (wchars d 1 5) 5))
      else
        overwrite (takeWhile (\<lambda>c. c \<noteq> SPACE) (take 8 d) @ (if d ! 8 \<noteq> SPACE then [DOT] else []) @
            takeWhile (\<lambda>c. c \<noteq> SPACE) (take 3 (drop 8 d)))
          (zero_fill buffer (CHAR_SHORT_NAME + 2)))"

section \<open>Paths\<close>

definition skipelem :: "bytes \<Rightarrow> (bytes \<times> bytes) option" where
  "skipelem path =
     (let s = dropWhile (\<lambda>c. c = SLASH) path
      in if deref s = 0 then None
         else Some (take FAT32_MAX_FILENAME (takeWhile (\<lambda>c. c \<noteq> SLASH \<and> c \<noteq> 0) s),
                dropWhile (\<lambda>c. c = SLASH) (dropWhile (\<lambda>c. c \<noteq> SLASH \<and> c \<noteq> 0) s)))"

section \<open>Legality\<close>

lemma nth_cstr: "j < strlen s \<Longrightarrow> cstr s ! j = s ! j \<and> s ! j \<noteq> 0 \<and> j < length s"
proof (induction s arbitrary: j)
  case (Cons c s)
  then show ?case by (cases j) (auto split: if_splits)
qed simp

lemma strlen_nul: "0 \<in> set s \<Longrightarrow> strlen s < length s \<and> s ! strlen s = 0"
  by (induction s) auto

lemma cstr_cut: "m \<le> strlen s \<Longrightarrow> strlen s < length s \<Longrightarrow> cstr (s[m := 0]) = take m (cstr s)"
proof (induction s arbitrary: m)
  case (Cons c s)
  then show ?case by (cases m) (auto split: if_splits)
qed simp

definition char_legal :: "u8 \<Rightarrow> bool" where
  "char_legal c \<longleftrightarrow> 0x20 \<le> c \<and> c \<notin> set (cstr illegal_long)"

lemma name_legal_iff: "name_legal s \<longleftrightarrow> (\<forall>c \<in> set (cstr s). char_legal c)"
proof (induction s)
  case (Cons c s)
  have "strchr illegal_long c \<noteq> None \<longleftrightarrow> c \<in> set (cstr illegal_long)"
    using strchr_None [of illegal_long c] by metis
  with Cons show ?case by (auto simp: char_legal_def not_less)
qed simp

text \<open>Trailing blanks: the tail is cut behind the last character that is not a blank.\<close>

lemma trim_tail_spec:
  assumes "n \<le> strlen s" and "strlen s \<noteq> 0 \<Longrightarrow> s ! 0 \<noteq> SPACE" and "strlen s \<noteq> 0 \<Longrightarrow> 0 < n"
  shows "\<exists>m \<le> strlen s. trim_tail s n = (if strlen s = 0 then s else s[m := 0]) \<and>
    (strlen s \<noteq> 0 \<longrightarrow> 0 < m \<and> s ! (m - 1) \<noteq> SPACE)"
  using assms
proof (induction n)
  case (Suc n)
  show ?case
  proof (cases "s ! n = SPACE")
    case True
    then have "n \<noteq> 0" using Suc.prems(1,2) by (metis Suc_n_not_le_n le_0_eq)
    then show ?thesis using Suc.IH Suc.prems True by auto
  next
    case False
    with Suc.prems show ?thesis by (auto intro!: exI [of _ "Suc n"])
  qed
next
  case 0
  then have "strlen s = 0" by blast
  then show ?case by simp
qed

lemma dropWhile_hd: "dropWhile P s \<noteq> [] \<Longrightarrow> \<not> P (dropWhile P s ! 0)"
  using hd_dropWhile [of P s] by (simp add: hd_conv_nth)

text \<open>
  \<^verbatim>\<open>formatname\<close> accepts a name exactly when it has no control character and none of the characters
  FAT forbids once the leading blanks and dots are gone; what it returns is legal, starts with neither a blank nor a dot
  and does not end with a blank, and formatting it again changes nothing.
\<close>
theorem formatname_normalises:
  assumes "0 \<in> set name"
  shows "case formatname name of
      None \<Rightarrow> \<exists>c \<in> set (cstr (dropWhile (\<lambda>c. c = SPACE \<or> c = DOT) name)). \<not> char_legal c
    | Some r \<Rightarrow> (\<forall>c \<in> set (cstr r). char_legal c) \<and>
        (cstr r \<noteq> [] \<longrightarrow> hd (cstr r) \<noteq> SPACE \<and> hd (cstr r) \<noteq> DOT \<and> List.last (cstr r) \<noteq> SPACE) \<and> formatname r = Some r"
proof -
  let ?P = "\<lambda>c. c = SPACE \<or> c = DOT"
  define s where "s = dropWhile ?P name"
  have "0 \<in> set s" using assms unfolding s_def
    by (induction name) auto
  note nul = strlen_nul [OF this]
  have "s \<noteq> []" using nul by auto
  then have hd: "s ! 0 \<noteq> SPACE" "s ! 0 \<noteq> DOT" using dropWhile_hd [of ?P name] unfolding s_def by blast+
  obtain m where m: "m \<le> strlen s" "trim_tail s (strlen s) = (if strlen s = 0 then s else s[m := 0])"
      "strlen s \<noteq> 0 \<longrightarrow> 0 < m \<and> s ! (m - 1) \<noteq> SPACE"
    using trim_tail_spec [of "strlen s" s] hd by auto
  let ?r = "trim_tail s (strlen s)"
  show ?thesis
  proof (cases "name_legal s")
    case False
    then show ?thesis by (auto simp: formatname_def s_def [symmetric] name_legal_iff)
  next
    case True
    have r: "cstr ?r = take m (cstr s)" using m nul cstr_cut [OF m(1)] by (auto simp: strlen_cstr)
    have legal: "\<forall>c \<in> set (cstr ?r). char_legal c" using True unfolding name_legal_iff r by (auto dest: in_set_takeD)
    have ends: "hd (cstr ?r) \<noteq> SPACE \<and> hd (cstr ?r) \<noteq> DOT \<and> List.last (cstr ?r) \<noteq> SPACE" if ne: "cstr ?r \<noteq> []"
    proof -
      have L: "strlen s \<noteq> 0" "0 < m" using ne m r by (auto simp: strlen_cstr)
      have "hd (cstr ?r) = s ! 0" using L nth_cstr [of 0 s] unfolding r by (simp add: hd_conv_nth strlen_cstr)
      moreover have "List.last (cstr ?r) = s ! (m - 1)"
        using L m(1) nth_cstr [of "m - 1" s] ne unfolding r by (simp add: last_conv_nth strlen_cstr)
      ultimately show ?thesis using hd m(3) L by simp
    qed
    have fix1: "dropWhile ?P ?r = ?r"
    proof -
      have "?r ! 0 = s ! 0" using m by simp
      moreover have "?r \<noteq> []" using m(2) \<open>s \<noteq> []\<close> by simp
      ultimately show ?thesis using hd by (cases ?r) simp_all
    qed
    have len: "strlen ?r = m \<or> strlen s = 0" using r m(1) by (auto simp: strlen_cstr)
    have "trim_tail ?r (strlen ?r) = ?r"
    proof (cases "strlen s = 0")
      case True
      then show ?thesis by simp
    next
      case False
      then have lm: "strlen ?r = m" "0 < m" "?r = s[m := 0]" using len m by auto
      then obtain p where p: "m = Suc p" by (cases m) auto
      have "?r ! p = s ! p" using lm p by simp
      then have "?r ! p \<noteq> SPACE" using m(3) p False by simp
      then show ?thesis using lm p by simp
    qed
    then have "formatname ?r = Some ?r" using legal fix1 by (simp add: formatname_def name_legal_iff)
    with legal ends show ?thesis using True by (simp add: formatname_def s_def [symmetric])
  qed
qed

theorem formatname_normalises_witness:
  "formatname [0x20, 0x2E, 0x61, 0x20, 0x62, 0x20, 0x20, 0] = Some [0x61, 0x20, 0x62, 0, 0x20, 0] \<and>
   formatname [0x61, 0x20, 0x62, 0, 0x20, 0] = Some [0x61, 0x20, 0x62, 0, 0x20, 0]"
proof -
  have e: "formatname [0x20, 0x2E, 0x61, 0x20, 0x62, 0x20, 0x20, 0] = Some [0x61, 0x20, 0x62, 0, 0x20, 0]" by code_simp
  with formatname_normalises [of "[0x20, 0x2E, 0x61, 0x20, 0x62, 0x20, 0x20, 0]"] show ?thesis by simp
qed

section \<open>Short names are 8.3 names\<close>

definition short_legal :: "u8 \<Rightarrow> bool" where
  "short_legal c \<longleftrightarrow> c \<noteq> 0 \<and> c \<noteq> DOT \<and> \<not> (0x61 \<le> c \<and> c \<le> 0x7A) \<and> c \<notin> set (cstr illegal_short)"

lemma short_char_legal:
  assumes "c \<noteq> 0" "c \<noteq> DOT"
  shows "short_legal (short_char c)"
proof -
  have ill: "strchr illegal_short c \<noteq> None \<longleftrightarrow> c \<in> set (cstr illegal_short)"
    using strchr_None [of illegal_short c] by metis
  show ?thesis
  proof (cases "0x61 \<le> c \<and> c \<le> 0x7A")
    case True
    then have u: "0x61 \<le> unat c" "unat c \<le> 0x7A" by (simp_all add: word_le_nat_alt)
    then have v: "unat (c - 0x20) = unat c - 0x20" by (simp add: unat_sub word_le_nat_alt)
    have "short_char c = c - 0x20" using True by (simp add: short_char_def)
    moreover have "short_legal (c - 0x20)"
    proof -
      have "unat (c - 0x20) \<notin> {0, 0x2E, 0x2B, 0x2C, 0x3B, 0x3D, 0x5B, 0x5D}" "\<not> 0x61 \<le> unat (c - 0x20)" using u v by auto
      then show ?thesis by (auto simp: short_legal_def illegal_short_def word_le_nat_alt)
    qed
    ultimately show ?thesis by simp
  next
    case False
    show ?thesis
    proof (cases "strchr illegal_short c \<noteq> None")
      case True
      with False have e: "short_char c = 0x5F" unfolding short_char_def by meson
      have "short_legal 0x5F" by code_simp
      with e show ?thesis by simp
    next
      case nt: False
      then have "short_char c = c" using False by (simp add: short_char_def)
      with assms False nt ill show ?thesis by (simp add: short_legal_def)
    qed
  qed
qed

lemma last_dot_spec: "last_dot name n < j \<Longrightarrow> j < n \<Longrightarrow> name ! j \<noteq> DOT"
  by (induction n) (auto simp: less_Suc_eq split: if_splits)

lemma last_dot_lt: "0 < n \<Longrightarrow> last_dot name n < n"
proof (induction n)
  case (Suc n)
  then show ?case by (cases n) auto
qed simp

definition short_inv :: "bytes \<Rightarrow> nat \<Rightarrow> nat option \<Rightarrow> bytes \<Rightarrow> bool" where
  "short_inv name k p out \<longleftrightarrow> k \<le> strlen name \<and> length out \<le> CHAR_SHORT_NAME \<and>
     (\<forall>c \<in> set out. short_legal c) \<and>
     (case p of None \<Rightarrow> \<forall>j. k \<le> j \<and> j < strlen name \<longrightarrow> name ! j \<noteq> DOT
      | Some d \<Rightarrow> d < strlen name \<and> length out \<le> 8 \<and> (\<forall>j. d < j \<and> j < strlen name \<longrightarrow> name ! j \<noteq> DOT))"

lemma nul_bound: "k \<le> strlen s \<Longrightarrow> k < length s \<Longrightarrow> s ! k \<noteq> 0 \<Longrightarrow> k < strlen s"
proof (induction s arbitrary: k)
  case (Cons c s)
  then show ?case by (cases k) (auto split: if_splits)
qed simp

lemma short_step_inv:
  assumes inv: "short_inv name k p out" and go: "length out < CHAR_SHORT_NAME" "k < length name" "name ! k \<noteq> 0"
    and st: "short_step name k p out = Some (k', p', out')"
  shows "short_inv name k' p' out'"
proof -
  have sp: "short_legal SPACE" by code_simp
  have kl: "k < strlen name" using nul_bound inv go by (simp add: short_inv_def)
  have ch: "short_legal (short_char (name ! k))" if "name ! k \<noteq> DOT" using short_char_legal that go by simp
  show ?thesis
  proof (cases p)
    case None
    then have nd: "name ! k \<noteq> DOT" using inv kl by (simp add: short_inv_def)
    with None inv kl go st ch [OF nd] show ?thesis
      by (cases "name ! k = SPACE") (auto simp: short_step_def short_inv_def)
  next
    case (Some d)
    then have o8: "length out \<le> 8" and dd: "\<forall>j. d < j \<and> j < strlen name \<longrightarrow> name ! j \<noteq> DOT" and dl: "d < strlen name"
      and ok: "\<forall>c \<in> set out. short_legal c" using inv by (simp_all add: short_inv_def)
    have fill: "unat (8 - of_nat (length out) :: u32) = 8 - length out"
      using o8 by (simp add: unat_sub word_le_nat_alt unat_of_nat)
    consider "length out = 8" | "length out \<noteq> 8" "name ! k = SPACE" | "length out \<noteq> 8" "name ! k = DOT" "d < k + 1"
      | "length out \<noteq> 8" "name ! k = DOT" "\<not> d < k + 1" | "length out \<noteq> 8" "name ! k \<noteq> DOT" "name ! k \<noteq> SPACE" by blast
    then show ?thesis
    proof cases
      case 1
      then have "k' = d + 1" "p' = None" "out' = out" using st Some by (auto simp: short_step_def split: if_splits)
      with 1 dl dd ok show ?thesis by (simp add: short_inv_def)
    next
      case 2
      then show ?thesis using st Some dl dd ok kl o8 by (auto simp: short_step_def short_inv_def)
    next
      case 3
      then have "k' = k + 1" "p' = None" "out' = out @ replicate (8 - length out) SPACE"
        using st Some fill by (auto simp: short_step_def)
      with 3 kl dd ok o8 sp show ?thesis by (auto simp: short_inv_def)
    next
      case 4
      then show ?thesis using st Some dl dd ok kl o8 by (auto simp: short_step_def short_inv_def)
    next
      case 5
      then show ?thesis using st Some dl dd ok kl o8 ch by (auto simp: short_step_def short_inv_def)
    qed
  qed
qed

lemma shortname_loop_inv:
  "short_inv name k p out \<Longrightarrow>
   length (shortname_loop name k p out) \<le> CHAR_SHORT_NAME \<and> (\<forall>c \<in> set (shortname_loop name k p out). short_legal c)"
proof (induction name k p out rule: shortname_loop.induct)
  case (1 name k p out)
  show ?case
  proof (cases "length out < CHAR_SHORT_NAME \<and> k < length name \<and> name ! k \<noteq> 0")
    case False
    then have "shortname_loop name k p out = out" by (subst shortname_loop.simps) auto
    with "1.prems" show ?thesis by (simp add: short_inv_def)
  next
    case go: True
    show ?thesis
    proof (cases "short_step name k p out")
      case None
      then have "shortname_loop name k p out = out" using go by (subst shortname_loop.simps) auto
      with "1.prems" show ?thesis by (simp add: short_inv_def)
    next
      case (Some x)
      then obtain k' p' out' where x: "short_step name k p out = Some (k', p', out')" by (cases x) auto
      then have e: "shortname_loop name k p out = shortname_loop name k' p' out'"
        using go by (subst shortname_loop.simps) auto
      have "short_inv name k' p' out'" using short_step_inv [OF "1.prems" _ _ _ x] go by blast
      from "1.IH" [OF go x refl refl this] show ?thesis unfolding e .
    qed
  qed
qed



section \<open>Long names survive the directory\<close>

text \<open>What \<^verbatim>\<open>enext\<close> does with the long entries of one file, in the order they lie in the directory.\<close>

definition lne_index :: "bytes \<Rightarrow> nat" where
  "lne_index d = unat (d ! 0 AND NOT LAST_LONG_ENTRY)"

definition lne_decode :: "bytes list \<Rightarrow> bytes \<Rightarrow> bytes" where
  "lne_decode ds buffer = fold (\<lambda>d. put_at ((lne_index d - 1) * CHAR_LONG_NAME) (\<lambda>b. read_entry_name b d)) ds buffer"

text \<open>The sixteen-bit units of an entry: the characters, the terminator, then padding.\<close>

definition lne_unit :: "bytes \<Rightarrow> nat \<Rightarrow> u16" where
  "lne_unit p j = (if j < strlen p then ucast (p ! j) else if j = strlen p then 0 else 0xffff)"

lemma ucast_8_16_8 [simp]: "ucast (ucast (c :: u8) :: u16) = c"
  by (rule bit_word_eqI) (simp add: bit_simps)

lemma ucast_8_16_0 [simp]: "ucast (c :: u8) = (0 :: u16) \<longleftrightarrow> c = 0"
  by (metis ucast_8_16_8 unsigned_0)

lemma length_lne_units [simp]: "length (lne_units e p n) = 2 * n"
  by (induction e p n rule: lne_units.induct) auto

lemma lne_units_ended: "lne_units True p n = replicate (2 * n) 0xff"
  by (induction n) auto

lemma le16_pair: "le16 [a, 0] 0 = ucast a" and le16_ff: "le16 [0xff, 0xff] 0 = 0xffff"
  by (simp_all add: le16_def)

lemma lne_units_nth:
  "j < n \<Longrightarrow> lne_units False p n ! (2 * j) = ucast (lne_unit p j) \<and>
     lne_units False p n ! (2 * j + 1) = (if j \<le> strlen p then 0 else 0xff)"
proof (induction n arbitrary: p j)
  case (Suc n)
  show ?case
  proof (cases p)
    case Nil
    then show ?thesis using Suc.prems
      by (cases j) (auto simp: lne_unit_def lne_units_ended nth_Cons')
  next
    case (Cons c q)
    show ?thesis
    proof (cases "c = 0")
      case True
      with Cons Suc.prems show ?thesis
        by (cases j) (auto simp: lne_unit_def lne_units_ended nth_Cons')
    next
      case False
      then have e: "lne_units False p (Suc n) = c # 0 # lne_units False q n" using Cons by simp
      show ?thesis
      proof (cases j)
        case 0
        then show ?thesis using e Cons False by (simp add: lne_unit_def)
      next
        case (Suc i)
        then have "lne_unit p j = lne_unit q i" "strlen p = Suc (strlen q)" using Cons False by (simp_all add: lne_unit_def)
        then show ?thesis using Suc Suc.IH [of i q] Suc.prems unfolding e by simp
      qed
    qed
  qed
qed simp

lemma le16_unit:
  "le16 [ucast (lne_unit p j), if j \<le> strlen p then 0 else 0xff] 0 = lne_unit p j"
  by (auto simp: le16_def lne_unit_def)

lemma lne_unit_zero: "lne_unit p j = 0 \<longleftrightarrow> j = strlen p"
  using nth_cstr [of j p] by (auto simp: lne_unit_def)

lemma le16_nth: "le16 d i = le16 [d ! i, d ! (i + 1)] 0"
  by (simp add: le16_def)

lemma lne_entry_wchars:
  "wchars (lne_entry ord chk p) 1 5 = map (lne_unit p) [0..<5] \<and>
   wchars (lne_entry ord chk p) 14 6 = map (\<lambda>j. lne_unit p (j + 5)) [0..<6] \<and>
   wchars (lne_entry ord chk p) 28 2 = map (\<lambda>j. lne_unit p (j + 11)) [0..<2]"
proof -
  let ?u = "lne_units False p CHAR_LONG_NAME" and ?d = "lne_entry ord chk p"
  have d1: "?d ! (1 + i) = ?u ! i" if "i < 10" for i
    using that by (simp add: lne_entry_def Let_def nth_append)
  have d2: "?d ! (14 + i) = ?u ! (10 + i)" if "i < 12" for i
    using that by (simp add: lne_entry_def Let_def nth_append)
  have d3: "?d ! (28 + i) = ?u ! (22 + i)" if "i < 4" for i
    using that by (simp add: lne_entry_def Let_def nth_append)
  have u: "le16 [?u ! (2 * j), ?u ! (2 * j + 1)] 0 = lne_unit p j" if "j < 13" for j
    using lne_units_nth [OF that, of p] le16_unit [of p j] by simp
  show ?thesis
  proof (intro conjI)
    show "wchars ?d 1 5 = map (lne_unit p) [0..<5]"
      unfolding wchars_def using d1 u by (intro map_cong refl, subst le16_nth) simp
    show "wchars ?d 14 6 = map (\<lambda>j. lne_unit p (j + 5)) [0..<6]"
      unfolding wchars_def
    proof (intro map_cong refl, subst le16_nth)
      fix j assume "j \<in> set [0..<6]"
      then show "le16 [?d ! (14 + 2 * j), ?d ! (14 + 2 * j + 1)] 0 = lne_unit p (j + 5)"
        using d2 [of "2 * j"] d2 [of "2 * j + 1"] u [of "j + 5"] by (simp add: add.commute)
    qed
    show "wchars ?d 28 2 = map (\<lambda>j. lne_unit p (j + 11)) [0..<2]"
      unfolding wchars_def
    proof (intro map_cong refl, subst le16_nth)
      fix j assume "j \<in> set [0..<2]"
      then show "le16 [?d ! (28 + 2 * j), ?d ! (28 + 2 * j + 1)] 0 = lne_unit p (j + 11)"
        using d3 [of "2 * j"] d3 [of "2 * j + 1"] u [of "j + 11"] by (simp add: add.commute)
    qed
  qed
qed

lemma length_snstr [simp]: "length (snstr dst src n) = length dst"
  by (induction dst src n rule: snstr.induct) auto

lemma zero_fill_nth: "j < length s \<Longrightarrow> zero_fill s n ! j = (if j < n then 0 else s ! j)"
proof (induction s n arbitrary: j rule: zero_fill.induct)
  case (1 x s n)
  then show ?case by (cases j) auto
qed auto

lemma snstr_nth:
  "n \<le> length src \<Longrightarrow> j < length dst \<Longrightarrow> snstr dst src n ! j =
     (if n \<le> j then dst ! j
      else if \<forall>i \<le> j. src ! i \<noteq> 0 then ucast (src ! j AND 0xff)
      else if j < n - 1 then 0 else dst ! j)"
proof (induction dst src n arbitrary: j rule: snstr.induct)
  case (1 x dst w src len)
  show ?case
  proof (cases "w = 0")
    case True
    then have "\<not> (\<forall>i \<le> j. (w # src) ! i \<noteq> 0)" by auto
    with True 1 show ?thesis by (auto simp: zero_fill_nth)
  next
    case w: False
    show ?thesis
    proof (cases j)
      case 0
      with w show ?thesis by simp
    next
      case (Suc i)
      have "(\<forall>k \<le> Suc i. (w # src) ! k \<noteq> 0) \<longleftrightarrow> (\<forall>k \<le> i. src ! k \<noteq> 0)"
        using w by (auto simp: less_Suc_eq_0_disj nth_Cons split: nat.splits)
      then show ?thesis using 1 w Suc by auto
    qed
  qed
qed auto

lemma ucast_mask8 [simp]: "ucast (ucast (c :: u8) AND 0xff :: u16) = c"
  by (rule bit_word_eqI) (auto simp: bit_simps less_Suc_eq numeral_eq_Suc)

lemma put_at_nth:
  assumes "\<And>b. length (f b) = length b" and "j < length xs"
  shows "put_at off f xs ! j = (if j < off then xs ! j else f (drop off xs) ! (j - off))"
  using assms by (cases "off \<le> length xs") (auto simp: put_at_def nth_append)

lemma length_put_at [simp]: "(\<And>b. length (f b) = length b) \<Longrightarrow> length (put_at off f xs) = length xs"
  by (simp add: put_at_def)

lemma lne_unit_pre: "(\<forall>i \<le> j. lne_unit p (i + k) \<noteq> 0) \<longleftrightarrow> \<not> (k \<le> strlen p \<and> strlen p \<le> j + k)"
  by (auto simp: lne_unit_zero) (metis le_add_diff_inverse2 add_le_cancel_right)

lemma snstr_unit:
  assumes "j < length b" and "n \<le> j \<or> k + j < strlen p \<or> k + j = strlen p \<and> b ! j = 0"
  shows "snstr b (map (\<lambda>i. lne_unit p (i + k)) [0..<n]) n ! j =
    (if n \<le> j then b ! j else if k + j < strlen p then p ! (k + j) else 0)"
proof (cases "n \<le> j")
  case True
  with assms(1) show ?thesis by (simp add: snstr_nth)
next
  case j: False
  let ?src = "map (\<lambda>i. lne_unit p (i + k)) [0..<n]"
  have nz: "(\<forall>i \<le> j. ?src ! i \<noteq> 0) \<longleftrightarrow> \<not> (k \<le> strlen p \<and> strlen p \<le> j + k)"
    using j lne_unit_pre [of j p k] by simp
  have e: "snstr b ?src n ! j = (if \<not> (k \<le> strlen p \<and> strlen p \<le> j + k) then ucast (?src ! j AND 0xff)
      else if j < n - 1 then 0 else b ! j)"
    using snstr_nth [of n ?src j b] assms(1) j nz by simp
  show ?thesis
  proof (cases "k + j < strlen p")
    case True
    then have "?src ! j = ucast (p ! (k + j))" using j by (simp add: lne_unit_def add.commute)
    then show ?thesis using e True j by simp
  next
    case False
    then have "k + j = strlen p \<and> b ! j = 0" using assms(2) j by auto
    then show ?thesis using e False j by simp
  qed
qed

text \<open>Decoding one long entry restores its thirteen characters, or the rest of the name and its terminator.\<close>

lemma read_lne:
  assumes j: "j < length b" and ok: "13 \<le> j \<or> j < strlen p \<or> j = strlen p \<and> b ! j = 0"
  shows "read_entry_name b (lne_entry ord chk p) ! j = (if 13 \<le> j then b ! j else if j < strlen p then p ! j else 0)"
proof -
  let ?d = "lne_entry ord chk p"
  let ?f1 = "\<lambda>b. snstr b (wchars ?d 1 5) 5" and ?f2 = "\<lambda>b. snstr b (wchars ?d 14 6) 6" and ?f3 = "\<lambda>b. snstr b (wchars ?d 28 2) 2"
  have at: "dentry_attr ?d = ATTR_LONG_NAME"
    by (simp add: dentry_attr_def lne_entry_def Let_def nth_append)
  have r: "read_entry_name b ?d = put_at 11 ?f3 (put_at 5 ?f2 (?f1 b))" by (simp add: read_entry_name_def at)
  have w: "wchars ?d 1 5 = map (\<lambda>i. lne_unit p (i + 0)) [0..<5]" "wchars ?d 14 6 = map (\<lambda>i. lne_unit p (i + 5)) [0..<6]"
      "wchars ?d 28 2 = map (\<lambda>i. lne_unit p (i + 11)) [0..<2]"
    using lne_entry_wchars [of ord chk p] by simp_all
  have n1: "?f1 b ! j = (if 5 \<le> j then b ! j else if j < strlen p then p ! j else 0)"
    unfolding w using snstr_unit [of j b 5 0 p] j ok by auto
  have n2: "put_at 5 ?f2 (?f1 b) ! j = (if j < 5 then ?f1 b ! j else ?f2 (drop 5 (?f1 b)) ! (j - 5))"
    using put_at_nth [of ?f2 j "?f1 b" 5] j by simp
  have n2': "put_at 5 ?f2 (?f1 b) ! j = (if 11 \<le> j then b ! j else if j < strlen p then p ! j else 0)"
  proof (cases "j < 5")
    case False
    have bj: "drop 5 (?f1 b) ! (j - 5) = b ! j" using n1 False j by simp
    have lj: "j - 5 < length (drop 5 (?f1 b))" using j False by simp
    show ?thesis
      using n2 False bj snstr_unit [OF lj, of 6 5 p] ok unfolding w by auto
  qed (use n1 n2 in simp)
  have n3: "read_entry_name b ?d ! j = (if j < 11 then put_at 5 ?f2 (?f1 b) ! j else ?f3 (drop 11 (put_at 5 ?f2 (?f1 b))) ! (j - 11))"
    unfolding r using put_at_nth [of ?f3 j "put_at 5 ?f2 (?f1 b)" 11] j by simp
  show ?thesis
  proof (cases "j < 11")
    case False
    have bj: "drop 11 (put_at 5 ?f2 (?f1 b)) ! (j - 11) = b ! j" using n2' False j by simp
    have lj: "j - 11 < length (drop 11 (put_at 5 ?f2 (?f1 b)))" using j False by simp
    show ?thesis
      using n3 False bj snstr_unit [OF lj, of 2 11 p] ok unfolding w by auto
  qed (use n3 n2' in simp)
qed

lemma strlen_drop: "m \<le> strlen s \<Longrightarrow> strlen (drop m s) = strlen s - m"
proof (induction s arbitrary: m)
  case (Cons c s)
  then show ?case by (cases m) (auto split: if_splits)
qed simp

lemma cstr_eqI:
  assumes "\<And>j. j < strlen t \<Longrightarrow> b ! j = t ! j" and "b ! strlen t = 0" and "strlen t < length b"
  shows "cstr b = cstr t"
  using assms
proof (induction t arbitrary: b)
  case Nil
  then show ?case by (cases b) auto
next
  case (Cons c t)
  obtain x b' where b: "b = x # b'" using Cons.prems(3) by (cases b) auto
  show ?case
  proof (cases "c = 0")
    case True
    with Cons.prems(2) b show ?thesis by simp
  next
    case False
    have "x = c" using Cons.prems(1) [of 0] False b by simp
    moreover have "cstr b' = cstr t"
    proof (rule Cons.IH)
      show "b' ! j = t ! j" if "j < strlen t" for j using Cons.prems(1) [of "Suc j"] False b that by simp
    qed (use Cons.prems(2,3) False b in simp_all)
    ultimately show ?thesis using b by simp
  qed
qed

lemma lne_count_bounds:
  "strlen name \<le> CHAR_LONG_NAME * lne_count name" "0 < i \<Longrightarrow> i \<le> lne_count name \<Longrightarrow> (i - 1) * CHAR_LONG_NAME < strlen name"
proof -
  show "strlen name \<le> CHAR_LONG_NAME * lne_count name" by (simp add: lne_count_def)
  show "(i - 1) * CHAR_LONG_NAME < strlen name" if "0 < i" "i \<le> lne_count name"
  proof -
    have "i * 13 \<le> strlen name + 12" using that(2) by (simp add: lne_count_def less_eq_div_iff_mult_less_eq)
    with that(1) show ?thesis by (simp add: diff_mult_distrib)
  qed
qed

lemma lne_index_order:
  assumes "i \<le> n" and "n < 64"
  shows "lne_index (lne_entry (lne_order i n) chk p) = i"
proof -
  have lt: "i < 64" using assms by simp
  have "\<forall>k < 64. unat ((of_nat k :: u8) AND NOT LAST_LONG_ENTRY) = k \<and>
      unat (((of_nat k :: u8) OR LAST_LONG_ENTRY) AND NOT LAST_LONG_ENTRY) = k" by code_simp
  with lt show ?thesis by (simp add: lne_index_def lne_entry_def Let_def lne_order_def)
qed

definition lne_decoded :: "bytes \<Rightarrow> nat \<Rightarrow> bytes \<Rightarrow> bool" where
  "lne_decoded name k b \<longleftrightarrow> length b = 256 \<and> b ! strlen name = 0 \<and>
     (\<forall>j < 256. (j < CHAR_LONG_NAME * k \<longrightarrow> b ! j = 0) \<and> (CHAR_LONG_NAME * k \<le> j \<and> j < strlen name \<longrightarrow> b ! j = name ! j))"

lemma length_read_lne [simp]: "length (read_entry_name b (lne_entry ord chk p)) = length b"
proof -
  have at: "dentry_attr (lne_entry ord chk p) = ATTR_LONG_NAME"
    by (simp add: dentry_attr_def lne_entry_def Let_def nth_append)
  show ?thesis by (simp add: read_entry_name_def at)
qed

lemma lne_decode_step:
  assumes q: "lne_decoded name (Suc k) b" and k: "Suc k \<le> lne_count name" and L: "strlen name \<le> FAT32_MAX_FILENAME"
  shows "lne_decoded name k (put_at (k * CHAR_LONG_NAME) (\<lambda>x. read_entry_name x (lne_entry ord chk (drop (k * CHAR_LONG_NAME) name))) b)"
proof -
  let ?o = "k * CHAR_LONG_NAME" and ?p = "drop (k * CHAR_LONG_NAME) name"
  let ?f = "\<lambda>x. read_entry_name x (lne_entry ord chk ?p)"
  have o: "?o < strlen name" using lne_count_bounds(2) [of "Suc k" name] k by simp
  have sp: "strlen ?p = strlen name - ?o" using strlen_drop [of ?o name] o by simp
  have b: "length b = 256" using q by (simp add: lne_decoded_def)
  have nth: "put_at ?o ?f b ! j = (if j < ?o then b ! j else if ?o + 13 \<le> j then b ! j else if j < strlen name then name ! j else 0)"
    if j: "j < 256" "j < strlen name \<or> j = strlen name \<and> b ! j = 0 \<or> j < ?o \<or> ?o + 13 \<le> j" for j
  proof (cases "j < ?o")
    case True
    then show ?thesis using put_at_nth [of ?f j b ?o] j b by simp
  next
    case False
    have dj: "drop ?o b ! (j - ?o) = b ! j" using j False b by simp
    have "j - ?o < length (drop ?o b)" using j False b by simp
    from read_lne [OF this, of ?p ord chk] have
      "?f (drop ?o b) ! (j - ?o) = (if 13 \<le> j - ?o then drop ?o b ! (j - ?o) else if j - ?o < strlen ?p then ?p ! (j - ?o) else 0)"
      using j(2) False sp o dj by force
    then show ?thesis using put_at_nth [of ?f j b ?o] j b False sp o nth_cstr [of j name] by auto
  qed
  have z: "b ! strlen name = 0" "\<And>j. j < 256 \<Longrightarrow> j < 13 * Suc k \<Longrightarrow> b ! j = 0"
      "\<And>j. j < 256 \<Longrightarrow> 13 * Suc k \<le> j \<Longrightarrow> j < strlen name \<Longrightarrow> b ! j = name ! j"
    using q by (auto simp: lne_decoded_def)
  have "put_at ?o ?f b ! strlen name = 0" using nth [of "strlen name"] z L o by simp
  moreover have "put_at ?o ?f b ! j = 0" if "j < 256" "j < 13 * k" for j using nth [of j] z(2) [of j] that by simp
  moreover have "put_at ?o ?f b ! j = name ! j" if "j < 256" "13 * k \<le> j" "j < strlen name" for j
    using nth [of j] z(3) [of j] that by (auto simp: not_le)
  ultimately show ?thesis using b by (simp add: lne_decoded_def)
qed

lemma lne_decode_ok:
  assumes "strlen name \<le> FAT32_MAX_FILENAME"
  shows "lne_decoded name 0 (lne_decode (lne_list name) (replicate 256 0))"
proof -
  let ?N = "lne_count name" and ?chk = "cal_checksum (generate_shortname name)"
  let ?e = "\<lambda>i. lne_entry (lne_order i (lne_count name)) (cal_checksum (generate_shortname name)) (drop ((i - 1) * CHAR_LONG_NAME) name)"
  have N: "?N < 64" using assms by (simp add: lne_count_def)
  have "lne_decoded name k (lne_decode (map ?e (rev [Suc k..<Suc ?N])) (replicate 256 0))" if "k \<le> ?N" for k
    using that
  proof (induction rule: inc_induct)
    case base
    then show ?case using lne_count_bounds(1) [of name] assms by (auto simp: lne_decode_def lne_decoded_def)
  next
    case (step k)
    have l: "rev [Suc k..<Suc ?N] = rev [Suc (Suc k)..<Suc ?N] @ [Suc k]" using step.hyps by (simp add: upt_conv_Cons del: upt_Suc)
    have i: "lne_index (?e (Suc k)) = Suc k" by (rule lne_index_order) (use step.hyps N in simp_all)
    show ?case
      using lne_decode_step [OF step.IH _ assms, of "lne_order (Suc k) ?N" ?chk] step.hyps i
      unfolding l by (simp add: lne_decode_def)
  qed
  from this [of 0] show ?thesis by (simp add: lne_list_def Let_def)
qed

lemma lne_decode_cstr:
  assumes "strlen name \<le> FAT32_MAX_FILENAME"
  shows "cstr (lne_decode (lne_list name) (replicate 256 0)) = cstr name"
  using lne_decode_ok [OF assms] assms by (intro cstr_eqI) (auto simp: lne_decoded_def)

text \<open>
  C11: a long file name survives the directory. The long entries that \<^verbatim>\<open>emake\<close> writes for a name of at
  most 255 characters, read back in directory order into a cleared name buffer as \<^verbatim>\<open>enext\<close> does, give the name again,
  for every length: names that end inside an entry, at the end of one and at the end of each of its
  three character fields.
\<close>
theorem long_name_roundtrip:
  assumes "strlen name \<le> FAT32_MAX_FILENAME"
  shows "cstr (lne_decode (lne_list name) (replicate 256 0)) = cstr name"
  using assms by (rule lne_decode_cstr)

theorem long_name_roundtrip_witness:
  "cstr (lne_decode (lne_list (replicate 200 0x61 @ [0])) (replicate 256 0)) = replicate 200 0x61"
proof -
  have c: "cstr (replicate n 0x61 @ [0]) = replicate n 0x61" for n by (induction n) simp_all
  then have "strlen (replicate 200 0x61 @ [0]) = 200" by (simp add: strlen_cstr)
  with long_name_roundtrip [of "replicate 200 0x61 @ [0]"] c show ?thesis by simp
qed

section \<open>Path names\<close>

lemma dropWhile_ConsD: "dropWhile P s = c # t \<Longrightarrow> \<not> P c"
  by (induction s) (auto split: if_splits)

lemma skipelem_shorter: "skipelem path = Some (e, rest) \<Longrightarrow> length rest < length path"
proof -
  assume a: "skipelem path = Some (e, rest)"
  define s where "s = dropWhile (\<lambda>c. c = SLASH) path"
  have s: "deref s \<noteq> 0" and r: "rest = dropWhile (\<lambda>c. c = SLASH) (dropWhile (\<lambda>c. c \<noteq> SLASH \<and> c \<noteq> 0) s)"
    using a by (auto simp: skipelem_def Let_def s_def split: if_splits)
  obtain c t where ct: "s = c # t" using s by (cases s) auto
  have "c \<noteq> SLASH" using dropWhile_ConsD ct unfolding s_def by fast
  then have "rest = dropWhile (\<lambda>c. c = SLASH) (dropWhile (\<lambda>c. c \<noteq> SLASH \<and> c \<noteq> 0) t)" using r ct s by simp
  then have "length rest \<le> length t" by (meson length_dropWhile_le order_trans)
  also have "length t < length path" using ct length_dropWhile_le [of "\<lambda>c. c = SLASH" path] by (simp add: s_def)
  finally show ?thesis .
qed

text \<open>The names \<^verbatim>\<open>lookup_path\<close> visits, and the components of a path as its syntax defines them.\<close>

function path_names :: "bytes \<Rightarrow> bytes list" where
  "path_names path = (case skipelem path of None \<Rightarrow> [] | Some (e, rest) \<Rightarrow> e # path_names rest)"
  by pat_completeness auto
termination
  by (relation "measure length") (auto dest: skipelem_shorter)

declare path_names.simps [simp del]

fun split_slash :: "bytes \<Rightarrow> bytes list" where
  "split_slash [] = [[]]"
| "split_slash (c # s) =
     (if c = SLASH then [] # split_slash s
      else case split_slash s of x # xs \<Rightarrow> (c # x) # xs | [] \<Rightarrow> [[c]])"

definition components :: "bytes \<Rightarrow> bytes list" where
  "components s = filter (\<lambda>x. x \<noteq> []) (split_slash s)"

lemma split_slash_ne: "split_slash s \<noteq> []"
  by (cases s) (auto split: list.splits)

lemma components_slash [simp]: "components (SLASH # s) = components s" and components_Nil [simp]: "components [] = []"
  by (simp_all add: components_def)

lemma components_elem:
  assumes "SLASH \<notin> set e" and "e \<noteq> []" and "t = [] \<or> (\<exists>u. t = SLASH # u)"
  shows "components (e @ t) = e # components t"
proof -
  have "split_slash (e @ t) = (e @ hd (split_slash t)) # tl (split_slash t)"
    using assms(1)
  proof (induction e)
    case Nil
    then show ?case using split_slash_ne [of t] by simp
  qed auto
  moreover have "hd (split_slash t) = []" using assms(3) by auto
  ultimately show ?thesis using assms(2,3) by (auto simp: components_def)
qed

lemma components_skip: "components (cstr (dropWhile (\<lambda>c. c = SLASH) s)) = components (cstr s)"
  by (induction s) auto

text \<open>
  C12: walking a path with \<^verbatim>\<open>skipelem\<close> visits exactly the non-empty components between slashes, in order,
  each cut to 255 characters, for absolute and relative paths and any number of repeated or trailing slashes.
\<close>
theorem skipelem_components:
  "path_names path = map (take FAT32_MAX_FILENAME) (components (cstr path))"
proof (induction path rule: path_names.induct)
  case (1 path)
  define s where "s = dropWhile (\<lambda>c. c = SLASH) path"
  have c: "components (cstr s) = components (cstr path)" by (simp add: s_def components_skip)
  show ?case
  proof (cases "deref s = 0")
    case True
    then have "skipelem path = None" "cstr s = []" by (auto simp: skipelem_def s_def [symmetric] deref_def split: list.splits)
    with c show ?thesis by (subst path_names.simps) simp
  next
    case False
    let ?Q = "\<lambda>c. c \<noteq> SLASH \<and> c \<noteq> 0"
    let ?e = "takeWhile ?Q s" and ?r = "dropWhile ?Q s"
    have sk: "skipelem path = Some (take FAT32_MAX_FILENAME ?e, dropWhile (\<lambda>c. c = SLASH) ?r)"
      using False by (simp add: skipelem_def s_def [symmetric] Let_def)
    have cs: "cstr (x @ y) = x @ cstr y" if "0 \<notin> set x" for x y using that by (induction x) auto
    have "0 \<notin> set ?e" "SLASH \<notin> set ?e" using set_takeWhileD by fastforce+
    have split: "cstr s = ?e @ cstr ?r" using cs [of ?e ?r] \<open>0 \<notin> set ?e\<close> by simp
    have ne: "?e \<noteq> []"
    proof -
      obtain a t where "s = a # t" using False by (cases s) auto
      moreover have "a \<noteq> SLASH" using dropWhile_ConsD \<open>s = a # t\<close> unfolding s_def by fast
      ultimately show ?thesis using False by simp
    qed
    have tail: "cstr ?r = [] \<or> (\<exists>u. cstr ?r = SLASH # u)"
    proof (cases ?r)
      case (Cons a t)
      then have "\<not> ?Q a" by (rule dropWhile_ConsD)
      with Cons show ?thesis by auto
    next
      case Nil
      show ?thesis unfolding Nil by simp
    qed
    have "components (cstr s) = ?e # components (cstr ?r)"
      unfolding split by (rule components_elem [OF \<open>SLASH \<notin> set ?e\<close> ne tail])
    moreover have "path_names (dropWhile (\<lambda>c. c = SLASH) ?r) = map (take FAT32_MAX_FILENAME) (components (cstr ?r))"
      using "1.IH" [OF sk refl] by (simp add: components_skip)
    ultimately show ?thesis using sk c by (subst path_names.simps) simp
  qed
qed

end
