(* ===== verification/Fat.thy ===== *)
theory Fat
  imports FatName Bio
begin

text \<open>
  The data path of \<^verbatim>\<open>kernel/fs/fat32.c\<close>: the volume geometry, the file allocation table, clusters and the
  contents of files. A block is seen through the buffer cache: \<open>bl_cache\<close> is what \<^verbatim>\<open>bread\<close> returns and
  \<open>bl_disk\<close> what is on the medium; \<^verbatim>\<open>bwrite\<close> copies the former to the latter (theory \<open>Bio\<close> shows that the
  cache behaves like this), so a block that is changed without \<^verbatim>\<open>bwrite\<close> makes them differ. The
  copies to and from the caller (\<^verbatim>\<open>either_copyout\<close>, \<^verbatim>\<open>either_copyin\<close>) are the two fields of a \<open>uio\<close>: each may fail, and a
  failing copy-in has stored a prefix of the bytes. A loop that the code runs until it has moved \<open>n\<close> bytes
  has fuel \<open>n + 1\<close>; running out of it is \<open>Panic ''fuel''\<close>, which is not a panic of the code, and the
  theorems show that it does not happen on a volume with clusters of positive size.
\<close>

abbreviation (input) BSIZE :: u32 where "BSIZE \<equiv> 512"
abbreviation (input) FAT32_EOC :: u32 where "FAT32_EOC \<equiv> 0x0ffffff8"
abbreviation (input) ATTR_READ_ONLY :: u8 where "ATTR_READ_ONLY \<equiv> 0x01"
abbreviation (input) ATTR_SYSTEM :: u8 where "ATTR_SYSTEM \<equiv> 0x04"
abbreviation (input) ATTR_DIRECTORY :: u8 where "ATTR_DIRECTORY \<equiv> 0x10"
abbreviation (input) ATTR_ARCHIVE :: u8 where "ATTR_ARCHIVE \<equiv> 0x20"
abbreviation (input) ATTR_DEVICE :: u8 where "ATTR_DEVICE \<equiv> 0x40"

record bpb =
  byts_per_sec :: u16
  sec_per_clus :: u8
  rsvd_sec_cnt :: u16
  fat_cnt :: u8
  hidd_sec :: u32
  tot_sec :: u32
  fat_sz :: u32
  root_clus :: u32

record fat =
  first_data_sec :: u32
  data_sec_cnt :: u32
  data_clus_cnt :: u32
  byts_per_clus :: u32
  f_bpb :: bpb

datatype eptr = Root | Ent nat

record dirent =
  e_filename :: bytes
  e_attribute :: u8
  e_first_clus :: u32
  e_file_size :: u32
  e_cur_clus :: u32
  e_clus_cnt :: u32
  e_dev :: u8
  e_dirty :: bool
  e_valid :: int
  e_ref :: int
  e_off :: u32
  e_parent :: "eptr option"
  e_locked :: bool

record blk =
  bl_cache :: disk
  bl_disk :: disk

record 'm uio =
  uio_in :: "'m \<Rightarrow> u64 \<Rightarrow> nat \<Rightarrow> bytes \<times> bool"
  uio_out :: "'m \<Rightarrow> u64 \<Rightarrow> bytes \<Rightarrow> 'm \<times> bool"

section \<open>Volume\<close>

definition parse_bpb :: "bytes \<Rightarrow> bpb" where
  "parse_bpb d = \<lparr>byts_per_sec = le16 d 11, sec_per_clus = d ! 13, rsvd_sec_cnt = le16 d 14, fat_cnt = d ! 16,
     hidd_sec = le32 d 28, tot_sec = le32 d 32, fat_sz = le32 d 36, root_clus = le32 d 44\<rparr>"

definition fat_geometry :: "bpb \<Rightarrow> fat" where
  "fat_geometry b =
     (let first = ucast (rsvd_sec_cnt b) + ucast (fat_cnt b) * fat_sz b;
          data = tot_sec b - first
      in \<lparr>first_data_sec = first, data_sec_cnt = data, data_clus_cnt = data div ucast (sec_per_clus b),
          byts_per_clus = ucast (sec_per_clus b) * ucast (byts_per_sec b), f_bpb = b\<rparr>)"

definition first_sec_of_clus :: "fat \<Rightarrow> u32 \<Rightarrow> u32" where
  "first_sec_of_clus f cluster = (cluster - 2) * ucast (sec_per_clus (f_bpb f)) + first_data_sec f"

definition fat_sec_of_clus :: "fat \<Rightarrow> u32 \<Rightarrow> u8 \<Rightarrow> u32" where
  "fat_sec_of_clus f cluster fat_num =
     ucast (rsvd_sec_cnt (f_bpb f)) + push_bit 2 cluster div ucast (byts_per_sec (f_bpb f)) +
     fat_sz (f_bpb f) * (ucast fat_num - 1)"

definition fat_offset_of_clus :: "fat \<Rightarrow> u32 \<Rightarrow> u32" where
  "fat_offset_of_clus f cluster = push_bit 2 cluster mod ucast (byts_per_sec (f_bpb f))"

section \<open>The allocation table\<close>

definition put_bytes :: "bytes \<Rightarrow> nat \<Rightarrow> bytes \<Rightarrow> bytes" where
  "put_bytes d off bs = take off d @ bs @ drop (off + length bs) d"

definition le32_bytes :: "u32 \<Rightarrow> bytes" where
  "le32_bytes v = [ucast v, ucast (drop_bit 8 v), ucast (drop_bit 16 v), ucast (drop_bit 24 v)]"

definition blk_write :: "blk \<Rightarrow> u32 \<Rightarrow> bytes \<Rightarrow> blk" where
  "blk_write s sec d = s\<lparr>bl_cache := (bl_cache s)(sec := d), bl_disk := (bl_disk s)(sec := d)\<rparr>"

definition read_fat :: "fat \<Rightarrow> blk \<Rightarrow> u32 \<Rightarrow> u32" where
  "read_fat f s cluster =
     (if FAT32_EOC \<le> cluster then cluster
      else if data_clus_cnt f + 1 < cluster then 0
      else le32 (bl_cache s (fat_sec_of_clus f cluster 1)) (unat (fat_offset_of_clus f cluster)))"

definition write_fat :: "fat \<Rightarrow> blk \<Rightarrow> u32 \<Rightarrow> u32 \<Rightarrow> int \<times> blk" where
  "write_fat f s cluster content =
     (if data_clus_cnt f + 1 < cluster then (-1, s)
      else let sec = fat_sec_of_clus f cluster 1
           in (0, blk_write s sec (put_bytes (bl_cache s sec) (unat (fat_offset_of_clus f cluster)) (le32_bytes content))))"

fun zero_secs :: "blk \<Rightarrow> u32 \<Rightarrow> nat \<Rightarrow> blk" where
  "zero_secs s sec 0 = s"
| "zero_secs s sec (Suc n) = zero_secs (blk_write s sec (replicate 512 0)) (sec + 1) n"

definition zero_clus :: "fat \<Rightarrow> blk \<Rightarrow> u32 \<Rightarrow> blk" where
  "zero_clus f s cluster = zero_secs s (first_sec_of_clus f cluster) (unat (sec_per_clus (f_bpb f)))"

fun alloc_scan :: "fat \<Rightarrow> blk \<Rightarrow> nat list \<Rightarrow> (nat \<times> nat) option" where
  "alloc_scan f s [] = None"
| "alloc_scan f s (i # is) =
     (case first_idx (\<lambda>j. le32 (bl_cache s (ucast (rsvd_sec_cnt (f_bpb f)) + of_nat i)) (4 * j) = 0)
             [0..<unat (byts_per_sec (f_bpb f)) div 4] of
        Some j \<Rightarrow> Some (i, j)
      | None \<Rightarrow> alloc_scan f s is)"

definition alloc_clus :: "fat \<Rightarrow> blk \<Rightarrow> (u32 \<times> blk) res" where
  "alloc_clus f s =
     (case alloc_scan f s [0..<unat (fat_sz (f_bpb f))] of
        None \<Rightarrow> Panic ''no clusters''
      | Some (i, j) \<Rightarrow>
          let sec = ucast (rsvd_sec_cnt (f_bpb f)) + of_nat i;
              s1 = blk_write s sec (put_bytes (bl_cache s sec) (4 * j) (le32_bytes (FAT32_EOC + 7)));
              clus = of_nat i * (ucast (byts_per_sec (f_bpb f)) div 4) + of_nat j
          in Ok (clus, zero_clus f s1 clus))"

definition free_clus :: "fat \<Rightarrow> blk \<Rightarrow> u32 \<Rightarrow> blk" where
  "free_clus f s cluster = snd (write_fat f s cluster 0)"

section \<open>Reading and writing clusters\<close>

text \<open>The size of the next piece: what is left of the sector or cluster, or of the request.\<close>

definition chunk :: "u32 \<Rightarrow> u32 \<Rightarrow> u32 \<Rightarrow> u32" where
  "chunk n tot room = (if n - tot < room then n - tot else room)"

function rw_loop :: "'m uio \<Rightarrow> bool \<Rightarrow> blk \<Rightarrow> 'm \<Rightarrow> u64 \<Rightarrow> u32 \<Rightarrow> u32 \<Rightarrow> u32 \<Rightarrow> u32 \<Rightarrow> u32 \<times> blk \<times> 'm" where
  "rw_loop io write s m data off n tot sec =
     (if tot < n then
        let d = bl_cache s sec;
            o1 = unat (off mod BSIZE);
            k = chunk n tot (BSIZE - off mod BSIZE)
        in if write then
             let (bs, ok) = uio_in io m data (unat k);
                 d1 = put_bytes d o1 bs;
                 s1 = (if ok then blk_write s sec d1 else s\<lparr>bl_cache := (bl_cache s)(sec := d1)\<rparr>)
             in if ok then rw_loop io write s1 m (data + ucast k) (off + k) n (tot + k) (sec + 1)
                else (tot, s1, m)
           else
             let (m1, ok) = uio_out io m data (take (unat k) (drop o1 d))
             in if ok then rw_loop io write s m1 (data + ucast k) (off + k) n (tot + k) (sec + 1)
                else (tot, s, m1)
      else (tot, s, m))"
  by pat_completeness auto

lemma chunk_less:
  assumes "tot < n" and "0 < c"
  shows "unat (n - (tot + chunk n tot c)) < unat (n - tot)" and "unat (tot + chunk n tot c) = unat tot + unat (chunk n tot c)"
    and "0 < chunk n tot c" and "tot + chunk n tot c \<le> n" and "unat (chunk n tot c) = min (unat n - unat tot) (unat c)"
proof -
  let ?k = "chunk n tot c"
  have u: "unat (n - tot) = unat n - unat tot" "unat tot < unat n"
    using assms(1) unat_sub [OF order_less_imp_le [OF assms(1)]] by (simp_all add: word_less_nat_alt)
  have c: "0 < unat c" using assms(2) by (simp add: word_less_nat_alt)
  show m: "unat ?k = min (unat n - unat tot) (unat c)" by (simp add: chunk_def word_less_nat_alt u min_def)
  then have k: "0 < unat ?k" "unat ?k \<le> unat n - unat tot" using u c by auto
  then have "unat tot + unat ?k < 2 ^ 32" using u unat_lt32 [of n] by simp
  then show t: "unat (tot + ?k) = unat tot + unat ?k" by (simp add: unat_word_ariths)
  then show le: "tot + ?k \<le> n" using k u by (simp add: word_le_nat_alt)
  show "unat (n - (tot + ?k)) < unat (n - tot)" using t k u unat_sub [OF le] by simp
  show "0 < ?k" using k by (simp add: word_less_nat_alt)
qed

lemma room_pos: "0 < BSIZE - off mod BSIZE" and unat_room: "unat (BSIZE - off mod BSIZE) = 512 - unat off mod 512"
proof -
  have "unat (off mod BSIZE) < 512" by (simp add: unat_mod)
  then show "unat (BSIZE - off mod BSIZE) = 512 - unat off mod 512" by (simp add: unat_sub word_le_nat_alt unat_mod)
  then show "0 < BSIZE - off mod BSIZE" by (simp add: word_less_nat_alt)
qed

termination rw_loop
  by (relation "measure (\<lambda>(io, write, s, m, data, off, n, tot, sec). unat (n - tot))")
    (use chunk_less(1) [OF _ room_pos] in auto)

declare rw_loop.simps [simp del]

definition rw_clus :: "'m uio \<Rightarrow> fat \<Rightarrow> blk \<Rightarrow> 'm \<Rightarrow> u32 \<Rightarrow> bool \<Rightarrow> u64 \<Rightarrow> u32 \<Rightarrow> u32 \<Rightarrow> (u32 \<times> blk \<times> 'm) res" where
  "rw_clus io f s m cluster write data off n =
     (if byts_per_clus f < off + n then Panic ''offset out of range''
      else let bps = ucast (byts_per_sec (f_bpb f))
           in Ok (rw_loop io write s m data (off mod bps) n 0 (first_sec_of_clus f cluster + off div bps)))"

section \<open>Following a chain\<close>

function reloc_fwd :: "fat \<Rightarrow> blk \<Rightarrow> dirent \<Rightarrow> u32 \<Rightarrow> bool \<Rightarrow> (bool \<times> dirent \<times> blk) res" where
  "reloc_fwd f s e clus_num alloc =
     (if e_clus_cnt e < clus_num then
        let clus = read_fat f s (e_cur_clus e)
        in if sint FAT32_EOC \<le> sint clus then
             if alloc then
               rbind (alloc_clus f s) (\<lambda>(c, s1).
                 reloc_fwd f (snd (write_fat f s1 (e_cur_clus e) c))
                   (e\<lparr>e_cur_clus := c, e_clus_cnt := e_clus_cnt e + 1\<rparr>) clus_num alloc)
             else Ok (False, e\<lparr>e_cur_clus := e_first_clus e, e_clus_cnt := 0\<rparr>, s)
           else reloc_fwd f s (e\<lparr>e_cur_clus := clus, e_clus_cnt := e_clus_cnt e + 1\<rparr>) clus_num alloc
      else Ok (True, e, s))"
  by pat_completeness auto

lemma count_up: "c < n \<Longrightarrow> unat (n - (c + 1)) < unat (n - c)" for c n :: u32
  using chunk_less(1) [of c n 1] by (cases "n = c") (simp_all add: chunk_def)

termination reloc_fwd
  by (relation "measure (\<lambda>(f, s, e, clus_num, alloc). unat (clus_num - e_clus_cnt e))") (use count_up in auto)

declare reloc_fwd.simps [simp del]

function reloc_back :: "fat \<Rightarrow> blk \<Rightarrow> dirent \<Rightarrow> u32 \<Rightarrow> dirent res" where
  "reloc_back f s e clus_num =
     (if e_clus_cnt e < clus_num then
        let cur = read_fat f s (e_cur_clus e)
        in if FAT32_EOC \<le> cur then Panic ''reloc_clus''
           else reloc_back f s (e\<lparr>e_cur_clus := cur, e_clus_cnt := e_clus_cnt e + 1\<rparr>) clus_num
      else Ok e)"
  by pat_completeness auto
termination
  by (relation "measure (\<lambda>(f, s, e, clus_num). unat (clus_num - e_clus_cnt e))") (use count_up in auto)

declare reloc_back.simps [simp del]

definition reloc_clus :: "fat \<Rightarrow> blk \<Rightarrow> dirent \<Rightarrow> u32 \<Rightarrow> bool \<Rightarrow> (u32 option \<times> dirent \<times> blk) res" where
  "reloc_clus f s e off alloc =
     (let clus_num = off div byts_per_clus f; r = Some (off mod byts_per_clus f)
      in rbind (reloc_fwd f s e clus_num alloc) (\<lambda>(found, e1, s1).
           if \<not> found then Ok (None, e1, s1)
           else if clus_num < e_clus_cnt e1 then
             rmap (\<lambda>e2. (r, e2, s1)) (reloc_back f s1 (e1\<lparr>e_cur_clus := e_first_clus e1, e_clus_cnt := 0\<rparr>) clus_num)
           else Ok (r, e1, s1)))"

section \<open>Files\<close>

fun eread_loop :: "nat \<Rightarrow> 'm uio \<Rightarrow> fat \<Rightarrow> blk \<Rightarrow> 'm \<Rightarrow> dirent \<Rightarrow> u64 \<Rightarrow> u32 \<Rightarrow> u32 \<Rightarrow> u32 \<Rightarrow> (u32 \<times> dirent \<times> blk \<times> 'm) res" where
  "eread_loop 0 io f s m e dst off n tot = Panic ''fuel''"
| "eread_loop (Suc k) io f s m e dst off n tot =
     (if e_cur_clus e < FAT32_EOC \<and> tot < n then
        rbind (reloc_clus f s e off False) (\<lambda>(_, e1, s1).
          let c = chunk n tot (byts_per_clus f - off mod byts_per_clus f)
          in rbind (rw_clus io f s1 m (e_cur_clus e1) False dst (off mod byts_per_clus f) c) (\<lambda>(r, s2, m2).
               if r \<noteq> c then Ok (tot, e1, s2, m2)
               else eread_loop k io f s2 m2 e1 (dst + ucast c) (off + c) n (tot + c)))
      else Ok (tot, e, s, m))"

definition eread :: "'m uio \<Rightarrow> fat \<Rightarrow> blk \<Rightarrow> 'm \<Rightarrow> dirent \<Rightarrow> u64 \<Rightarrow> u32 \<Rightarrow> u32 \<Rightarrow> (u32 \<times> dirent \<times> blk \<times> 'm) res" where
  "eread io f s m e dst off n =
     (if e_file_size e < off \<or> off + n < off \<or> e_attribute e AND ATTR_DIRECTORY \<noteq> 0 then Ok (0, e, s, m)
      else let n1 = (if e_file_size e < off + n then e_file_size e - off else n)
           in eread_loop (Suc (unat n1)) io f s m e dst off n1 0)"

fun ewrite_loop :: "nat \<Rightarrow> 'm uio \<Rightarrow> fat \<Rightarrow> blk \<Rightarrow> 'm \<Rightarrow> dirent \<Rightarrow> u64 \<Rightarrow> u32 \<Rightarrow> u32 \<Rightarrow> u32 \<Rightarrow> (u32 \<times> u32 \<times> dirent \<times> blk \<times> 'm) res" where
  "ewrite_loop 0 io f s m e src off n tot = Panic ''fuel''"
| "ewrite_loop (Suc k) io f s m e src off n tot =
     (if tot < n then
        rbind (reloc_clus f s e off True) (\<lambda>(_, e1, s1).
          let c = chunk n tot (byts_per_clus f - off mod byts_per_clus f)
          in rbind (rw_clus io f s1 m (e_cur_clus e1) True src (off mod byts_per_clus f) c) (\<lambda>(r, s2, m2).
               if r \<noteq> c then Ok (tot, off, e1, s2, m2)
               else ewrite_loop k io f s2 m2 e1 (src + ucast c) (off + c) n (tot + c)))
      else Ok (tot, off, e, s, m))"

definition ewrite :: "'m uio \<Rightarrow> fat \<Rightarrow> blk \<Rightarrow> 'm \<Rightarrow> dirent \<Rightarrow> u64 \<Rightarrow> u32 \<Rightarrow> u32 \<Rightarrow> (int \<times> dirent \<times> blk \<times> 'm) res" where
  "ewrite io f s m e src off n =
     (if e_file_size e < off \<or> off + n < off \<or> 0xffffffff < (ucast off :: u64) + ucast n \<or> e_attribute e AND ATTR_READ_ONLY \<noteq> 0
      then Ok (-1, e, s, m)
      else rbind (if e_first_clus e = 0
                  then rmap (\<lambda>(c, s1). (e\<lparr>e_cur_clus := c, e_first_clus := c, e_clus_cnt := 0, e_dirty := True\<rparr>, s1)) (alloc_clus f s)
                  else Ok (e, s)) (\<lambda>(e1, s1).
             rmap (\<lambda>(tot, off1, e2, s2, m2).
                 (sint tot, if 0 < n \<and> e_file_size e2 < off1 then e2\<lparr>e_file_size := off1, e_dirty := True\<rparr> else e2, s2, m2))
               (ewrite_loop (Suc (unat n)) io f s1 m e1 src off n 0)))"

fun etrunc_loop :: "nat \<Rightarrow> fat \<Rightarrow> blk \<Rightarrow> u32 \<Rightarrow> blk res" where
  "etrunc_loop 0 f s clus = Panic ''fuel''"
| "etrunc_loop (Suc k) f s clus =
     (if 2 \<le> clus \<and> clus < FAT32_EOC then etrunc_loop k f (free_clus f s clus) (read_fat f s clus) else Ok s)"

definition etrunc :: "fat \<Rightarrow> blk \<Rightarrow> dirent \<Rightarrow> (dirent \<times> blk) res" where
  "etrunc f s e =
     rmap (\<lambda>s1. (e\<lparr>e_file_size := 0, e_first_clus := 0, e_dirty := True\<rparr>, s1))
       (etrunc_loop (unat (data_clus_cnt f) + 4) f s (e_first_clus e))"

section \<open>Well-formed volumes\<close>

definition fat_wf :: "fat \<Rightarrow> bool" where
  "fat_wf f \<longleftrightarrow>
     byts_per_sec (f_bpb f) = 512 \<and> 0 < sec_per_clus (f_bpb f) \<and> byts_per_clus f = ucast (sec_per_clus (f_bpb f)) * 512 \<and>
     unat (rsvd_sec_cnt (f_bpb f)) + unat (fat_sz (f_bpb f)) \<le> unat (first_data_sec f) \<and>
     unat (data_clus_cnt f) + 2 \<le> 128 * unat (fat_sz (f_bpb f)) \<and>
     unat (first_data_sec f) + unat (data_clus_cnt f) * unat (sec_per_clus (f_bpb f)) < 2 ^ 32 \<and>
     unat (data_clus_cnt f) + 2 \<le> 0x0ffffff8"

definition blk_wf :: "blk \<Rightarrow> bool" where
  "blk_wf s \<longleftrightarrow> (\<forall>sec. length (bl_cache s sec) = 512)"

definition blk_synced :: "blk \<Rightarrow> bool" where
  "blk_synced s \<longleftrightarrow> bl_disk s = bl_cache s"

definition clus_ok :: "fat \<Rightarrow> u32 \<Rightarrow> bool" where
  "clus_ok f c \<longleftrightarrow> 2 \<le> unat c \<and> unat c \<le> unat (data_clus_cnt f) + 1"

lemma blk_wfD: "blk_wf s \<Longrightarrow> length (bl_cache s sec) = 512"
  by (simp add: blk_wf_def)

lemma length_put_bytes: "off + length bs \<le> length d \<Longrightarrow> length (put_bytes d off bs) = length d"
  by (simp add: put_bytes_def)

lemma blk_write_cache [simp]: "bl_cache (blk_write s sec d) = (bl_cache s)(sec := d)"
  by (simp add: blk_write_def)

lemma blk_write_wf: "blk_wf s \<Longrightarrow> length d = 512 \<Longrightarrow> blk_wf (blk_write s sec d)"
  by (simp add: blk_wf_def)

lemma blk_write_synced: "blk_synced s \<Longrightarrow> blk_synced (blk_write s sec d)"
  by (simp add: blk_synced_def blk_write_def)

lemma put_bytes_nth:
  "off + length bs \<le> length d \<Longrightarrow> i < length d \<Longrightarrow>
   put_bytes d off bs ! i = (if off \<le> i \<and> i < off + length bs then bs ! (i - off) else d ! i)"
  by (auto simp: put_bytes_def nth_append)

lemma le32_bytes_roundtrip: "le32 (le32_bytes v) 0 = v"
proof (rule bit_word_eqI)
  fix n assume n: "n < LENGTH(32)"
  have "n < 8 \<or> 8 \<le> n \<and> n < 16 \<or> 16 \<le> n \<and> n < 24 \<or> 24 \<le> n \<and> n < 32" using n by auto
  then show "bit (le32 (le32_bytes v) 0) n = bit v n"
    by (auto simp: le32_def le32_bytes_def bit_simps)
qed

lemma le32_put:
  assumes "i + 4 \<le> length d" and "j + 4 \<le> length d" and "i = j \<or> i + 4 \<le> j \<or> j + 4 \<le> i"
  shows "le32 (put_bytes d i (le32_bytes v)) j = (if i = j then v else le32 d j)"
proof -
  have l: "length (le32_bytes v) = 4" by (simp add: le32_bytes_def)
  have p: "put_bytes d i (le32_bytes v) ! k = (if i \<le> k \<and> k < i + 4 then le32_bytes v ! (k - i) else d ! k)" if "k < length d" for k
    using put_bytes_nth [of i "le32_bytes v" d k] assms(1) that l by simp
  show ?thesis
  proof (cases "i = j")
    case True
    have "le32 (put_bytes d i (le32_bytes v)) i = le32 (le32_bytes v) 0"
      unfolding le32_def using p [of i] p [of "i + 1"] p [of "i + 2"] p [of "i + 3"] assms(1) by (simp add: numeral_2_eq_2)
    with True show ?thesis by (simp add: le32_bytes_roundtrip)
  next
    case False
    then have "put_bytes d i (le32_bytes v) ! (j + k) = d ! (j + k)" if "k < 4" for k
      using p [of "j + k"] assms that by auto
    from this [of 0] this [of 1] this [of 2] this [of 3] show ?thesis using False by (simp add: le32_def)
  qed
qed

section \<open>Where things are\<close>

lemma unat_ucast8_32 [simp]: "unat (ucast (n :: u8) :: u32) = unat n"
proof -
  have "unat n < 2 ^ LENGTH(8)" by (rule unsigned_less)
  then show ?thesis by (simp add: unsigned_ucast_eq take_bit_nat_eq_self)
qed

lemma unat_ucast16_32 [simp]: "unat (ucast (n :: u16) :: u32) = unat n"
proof -
  have "unat n < 2 ^ LENGTH(16)" by (rule unsigned_less)
  then show ?thesis by (simp add: unsigned_ucast_eq take_bit_nat_eq_self)
qed

lemma unat_push2: "unat c < 2 ^ 30 \<Longrightarrow> unat (push_bit 2 c :: u32) = 4 * unat c"
  by (simp add: push_bit_eq_mult unat_word_ariths)

lemma fat_sec_unat:
  assumes "fat_wf f" and "unat c \<le> unat (data_clus_cnt f) + 1"
  shows "unat (fat_sec_of_clus f c 1) = unat (rsvd_sec_cnt (f_bpb f)) + unat c div 128"
    and "unat (fat_offset_of_clus f c) = 4 * (unat c mod 128)"
    and "unat c div 128 < unat (fat_sz (f_bpb f))"
proof -
  have w: "byts_per_sec (f_bpb f) = 512" "unat (rsvd_sec_cnt (f_bpb f)) + unat (fat_sz (f_bpb f)) \<le> unat (first_data_sec f)"
    "unat (data_clus_cnt f) + 2 \<le> 128 * unat (fat_sz (f_bpb f))" "unat (data_clus_cnt f) + 2 \<le> 0x0ffffff8"
    using assms(1) by (simp_all add: fat_wf_def)
  have p: "unat (push_bit 2 c) = 4 * unat c" using unat_push2 [of c] w(4) assms(2) by simp
  show lt: "unat c div 128 < unat (fat_sz (f_bpb f))" using assms(2) w(3) by (simp add: div_less_iff_less_mult)
  have d: "unat (push_bit 2 c div (512 :: u32)) = unat c div 128" using p by (simp add: unat_div)
  have e: "fat_sec_of_clus f c 1 = ucast (rsvd_sec_cnt (f_bpb f)) + push_bit 2 c div 512"
    by (simp add: fat_sec_of_clus_def w(1))
  have "unat (rsvd_sec_cnt (f_bpb f)) + unat c div 128 < 2 ^ 32" using lt w(2) unat_lt32 [of "first_data_sec f"] by simp
  then show "unat (fat_sec_of_clus f c 1) = unat (rsvd_sec_cnt (f_bpb f)) + unat c div 128"
    unfolding e using d by (simp add: unat_word_ariths)
  show "unat (fat_offset_of_clus f c) = 4 * (unat c mod 128)"
    using p by (simp add: fat_offset_of_clus_def w(1) unat_mod mult_mod_right)
qed

lemma first_sec_unat:
  assumes "fat_wf f" and "clus_ok f c"
  shows "unat (first_sec_of_clus f c) = unat (first_data_sec f) + (unat c - 2) * unat (sec_per_clus (f_bpb f))"
    and "unat (first_sec_of_clus f c) + unat (sec_per_clus (f_bpb f)) \<le> unat (first_data_sec f) + unat (data_clus_cnt f) * unat (sec_per_clus (f_bpb f))"
proof -
  let ?k = "unat (sec_per_clus (f_bpb f))"
  have w: "unat (first_data_sec f) + unat (data_clus_cnt f) * ?k < 2 ^ 32" using assms(1) by (simp add: fat_wf_def)
  have c: "2 \<le> unat c" "unat c - 2 + 1 \<le> unat (data_clus_cnt f)" using assms(2) unfolding clus_ok_def by linarith+
  have m: "(unat c - 2) * ?k + ?k \<le> unat (data_clus_cnt f) * ?k"
    using mult_le_mono1 [OF c(2), of ?k] by (simp add: algebra_simps)
  have s: "unat (c - 2) = unat c - 2" using c(1) unat_sub [of 2 c] by (simp add: word_le_nat_alt)
  have "unat ((c - 2) * ucast (sec_per_clus (f_bpb f))) = (unat c - 2) * ?k"
    using s m w by (simp add: unat_word_ariths)
  then show e: "unat (first_sec_of_clus f c) = unat (first_data_sec f) + (unat c - 2) * ?k"
    using m w by (simp add: first_sec_of_clus_def unat_word_ariths)
  show "unat (first_sec_of_clus f c) + ?k \<le> unat (first_data_sec f) + unat (data_clus_cnt f) * ?k" using e m by simp
qed

lemma range_word: "data_clus_cnt f + 1 < c \<longleftrightarrow> unat (data_clus_cnt f) + 1 < unat c" if "fat_wf f"
proof -
  have "unat (data_clus_cnt f) + 2 \<le> 0x0ffffff8" using that by (simp add: fat_wf_def)
  then have "unat (data_clus_cnt f + 1) = unat (data_clus_cnt f) + 1" by (simp add: unat_word_ariths)
  then show ?thesis by (simp add: word_less_nat_alt)
qed

lemma read_fat_in:
  assumes "fat_wf f" and "unat c \<le> unat (data_clus_cnt f) + 1"
  shows "read_fat f s c = le32 (bl_cache s (fat_sec_of_clus f c 1)) (4 * (unat c mod 128))"
proof -
  have "unat (data_clus_cnt f) + 2 \<le> 0x0ffffff8" using assms(1) by (simp add: fat_wf_def)
  then have "\<not> FAT32_EOC \<le> c" using assms(2) by (simp add: word_le_nat_alt)
  then show ?thesis using range_word [OF assms(1), of c] assms fat_sec_unat(2) [OF assms] by (simp add: read_fat_def)
qed

text \<open>The table is an array: writing an entry changes that entry only, and no data cluster.\<close>

lemma write_fat_ok:
  assumes wf: "fat_wf f" "blk_wf s" and c: "unat c \<le> unat (data_clus_cnt f) + 1"
  obtains s' where "write_fat f s c v = (0, s')" "blk_wf s'" "blk_synced s \<Longrightarrow> blk_synced s'"
    "\<And>x. read_fat f s' x = (if x = c then v else read_fat f s x)"
    "\<And>sec. unat (first_data_sec f) \<le> unat sec \<Longrightarrow> bl_cache s' sec = bl_cache s sec"
proof -
  let ?sec = "fat_sec_of_clus f c 1" and ?o = "unat (fat_offset_of_clus f c)"
  let ?d = "put_bytes (bl_cache s ?sec) ?o (le32_bytes v)"
  let ?s = "blk_write s ?sec ?d"
  note u = fat_sec_unat [OF wf(1) c]
  have l: "length (bl_cache s x) = 512" for x using wf(2) by (rule blk_wfD)
  have o: "?o + 4 \<le> 512" using u(2) by simp
  have w: "write_fat f s c v = (0, ?s)" using range_word [OF wf(1), of c] c by (simp add: write_fat_def Let_def)
  have ld: "length ?d = 512" using length_put_bytes [of ?o "le32_bytes v" "bl_cache s ?sec"] o l by (simp add: le32_bytes_def)
  have rd: "read_fat f ?s x = (if x = c then v else read_fat f s x)" for x
  proof (cases "unat x \<le> unat (data_clus_cnt f) + 1")
    case False
    then have "x \<noteq> c" "data_clus_cnt f + 1 < x" using c range_word [OF wf(1), of x] by auto
    then show ?thesis by (simp add: read_fat_def)
  next
    case True
    note ux = fat_sec_unat [OF wf(1) True]
    have e: "read_fat f t x = le32 (bl_cache t (fat_sec_of_clus f x 1)) (4 * (unat x mod 128))" for t
      by (rule read_fat_in [OF wf(1) True])
    show ?thesis
    proof (cases "fat_sec_of_clus f x 1 = ?sec")
      case same: True
      then have dv: "unat x div 128 = unat c div 128" using u(1) ux(1) by simp
      have eq: "?o = 4 * (unat x mod 128) \<longleftrightarrow> x = c"
        using u(2) dv by (metis div_mult_mod_eq mult_cancel1 word_unat_eq_iff zero_neq_numeral)
      have "le32 ?d (4 * (unat x mod 128)) = (if ?o = 4 * (unat x mod 128) then v else le32 (bl_cache s ?sec) (4 * (unat x mod 128)))"
        by (rule le32_put) (use o l u(2) in auto)
      then show ?thesis using e same eq by simp
    next
      case False
      then have "x \<noteq> c" by auto
      with False show ?thesis by (simp add: e)
    qed
  qed
  have dt: "bl_cache ?s sec = bl_cache s sec" if "unat (first_data_sec f) \<le> unat sec" for sec
  proof -
    have "unat ?sec < unat (first_data_sec f)" using u(1,3) wf(1) by (simp add: fat_wf_def)
    then have "sec \<noteq> ?sec" using that by auto
    then show ?thesis by simp
  qed
  show thesis by (rule that [OF w blk_write_wf [OF wf(2) ld] blk_write_synced rd dt])
qed

section \<open>Runs of sectors\<close>

definition sectors :: "blk \<Rightarrow> u32 \<Rightarrow> nat \<Rightarrow> bytes" where
  "sectors s sec n = concat (map (\<lambda>i. bl_cache s (sec + of_nat i)) [0..<n])"

definition clus_bytes :: "fat \<Rightarrow> blk \<Rightarrow> u32 \<Rightarrow> bytes" where
  "clus_bytes f s c = sectors s (first_sec_of_clus f c) (unat (sec_per_clus (f_bpb f)))"

lemma sectors_0 [simp]: "sectors s sec 0 = []"
  by (simp add: sectors_def)

lemma sectors_Suc: "sectors s sec (Suc n) = bl_cache s sec @ sectors s (sec + 1) n"
proof -
  have "map (\<lambda>i. bl_cache s (sec + of_nat i)) [0..<Suc n] = bl_cache s sec # map (\<lambda>k. bl_cache s (sec + of_nat (Suc k))) [0..<n]"
    using map_upt_split_first [of "Suc n" "\<lambda>i. bl_cache s (sec + of_nat i)"] by simp
  then show ?thesis by (simp add: sectors_def algebra_simps)
qed

lemma length_sectors: "blk_wf s \<Longrightarrow> length (sectors s sec n) = 512 * n"
  by (induction n arbitrary: sec) (simp_all add: sectors_Suc blk_wfD)

lemma sectors_cong: "(\<And>i. i < n \<Longrightarrow> bl_cache s (sec + of_nat i) = bl_cache s' (sec + of_nat i)) \<Longrightarrow> sectors s sec n = sectors s' sec n"
  unfolding sectors_def by (intro arg_cong [of _ _ concat] map_cong) auto

lemma sectors_add: "blk_wf s \<Longrightarrow> sectors s (sec + of_nat a) n = take (512 * n) (drop (512 * a) (sectors s sec (a + n)))"
proof (induction a arbitrary: sec)
  case 0
  then show ?case using length_sectors [of s sec n] by simp
next
  case (Suc a)
  have "sectors s (sec + of_nat (Suc a)) n = sectors s ((sec + 1) + of_nat a) n" by (simp add: algebra_simps)
  also have "\<dots> = take (512 * n) (drop (512 * a) (sectors s (sec + 1) (a + n)))" by (rule Suc.IH [OF Suc.prems])
  finally show ?case using blk_wfD [OF Suc.prems, of sec] by (simp add: sectors_Suc)
qed

lemma of_nat_neq_32: "i < j \<Longrightarrow> j < 2 ^ 32 \<Longrightarrow> (of_nat i :: u32) \<noteq> of_nat j"
proof
  assume "i < j" "j < 2 ^ 32" "(of_nat i :: u32) = of_nat j"
  then have "unat (of_nat i :: u32) = unat (of_nat j :: u32)" by simp
  with \<open>i < j\<close> \<open>j < 2 ^ 32\<close> show False by (simp add: unat_of_nat)
qed

lemma zero_secs_ok:
  assumes "blk_wf s" and "n < 2 ^ 32"
  shows "blk_wf (zero_secs s sec n)" and "blk_synced s \<Longrightarrow> blk_synced (zero_secs s sec n)"
    and "(\<And>i. i < n \<Longrightarrow> x \<noteq> sec + of_nat i) \<Longrightarrow> bl_cache (zero_secs s sec n) x = bl_cache s x"
    and "sectors (zero_secs s sec n) sec n = replicate (512 * n) 0"
proof -
  have "blk_wf (zero_secs s sec n) \<and> (blk_synced s \<longrightarrow> blk_synced (zero_secs s sec n)) \<and>
     (\<forall>x. (\<forall>i < n. x \<noteq> sec + of_nat i) \<longrightarrow> bl_cache (zero_secs s sec n) x = bl_cache s x) \<and>
     sectors (zero_secs s sec n) sec n = replicate (512 * n) 0"
    using assms
  proof (induction n arbitrary: s sec)
    case (Suc n)
    let ?s = "blk_write s sec (replicate 512 0)"
    have wf: "blk_wf ?s" using Suc.prems(1) by (simp add: blk_write_wf)
    note IH = Suc.IH [OF wf, of "sec + 1"]
    have IH1: "blk_wf (zero_secs ?s (sec + 1) n)" "blk_synced ?s \<longrightarrow> blk_synced (zero_secs ?s (sec + 1) n)"
        "\<And>x. (\<And>i. i < n \<Longrightarrow> x \<noteq> sec + 1 + of_nat i) \<Longrightarrow> bl_cache (zero_secs ?s (sec + 1) n) x = bl_cache ?s x"
        "sectors (zero_secs ?s (sec + 1) n) (sec + 1) n = replicate (512 * n) 0"
      using IH Suc.prems(2) by auto
    have fst: "bl_cache (zero_secs ?s (sec + 1) n) sec = replicate 512 0"
    proof -
      have "sec \<noteq> sec + 1 + of_nat i" if "i < n" for i
        using of_nat_neq_32 [of 0 "Suc i"] that Suc.prems(2) by (auto simp: algebra_simps)
      from IH1(3) [OF this] show ?thesis by simp
    qed
    have oth: "bl_cache (zero_secs ?s (sec + 1) n) x = bl_cache s x" if x: "\<forall>i < Suc n. x \<noteq> sec + of_nat i" for x
    proof -
      have "x \<noteq> sec + 1 + of_nat i" if "i < n" for i using x [rule_format, of "Suc i"] that by (simp add: algebra_simps)
      moreover have "x \<noteq> sec" using x [rule_format, of 0] by simp
      ultimately show ?thesis using IH1(3) [of x] by simp
    qed
    show ?case using IH1 fst oth by (simp add: sectors_Suc replicate_add [symmetric] blk_write_synced del: replicate.simps)
  qed simp
  then show "blk_wf (zero_secs s sec n)" and "blk_synced s \<Longrightarrow> blk_synced (zero_secs s sec n)"
    and "(\<And>i. i < n \<Longrightarrow> x \<noteq> sec + of_nat i) \<Longrightarrow> bl_cache (zero_secs s sec n) x = bl_cache s x"
    and "sectors (zero_secs s sec n) sec n = replicate (512 * n) 0" by blast+
qed

text \<open>Clusters do not overlap each other or the allocation table.\<close>

lemma clus_sector:
  assumes "fat_wf f" and "clus_ok f c" and "i < unat (sec_per_clus (f_bpb f))"
  shows "unat (first_sec_of_clus f c + of_nat i) = unat (first_data_sec f) + (unat c - 2) * unat (sec_per_clus (f_bpb f)) + i"
proof -
  note u = first_sec_unat [OF assms(1,2)]
  have "unat (first_sec_of_clus f c) + i < 2 ^ 32" using u(2) assms(1,3) by (simp add: fat_wf_def)
  then show ?thesis using u(1) by (simp add: unat_word_ariths unat_of_nat)
qed

lemma clus_disjoint:
  assumes "fat_wf f" and "clus_ok f c" "clus_ok f c'" and "c \<noteq> c'" and "i < unat (sec_per_clus (f_bpb f))" "j < unat (sec_per_clus (f_bpb f))"
  shows "first_sec_of_clus f c + of_nat i \<noteq> first_sec_of_clus f c' + of_nat j"
proof
  let ?k = "unat (sec_per_clus (f_bpb f))"
  assume "first_sec_of_clus f c + of_nat i = first_sec_of_clus f c' + of_nat j"
  then have e: "(unat c - 2) * ?k + i = (unat c' - 2) * ?k + j"
    using clus_sector [OF assms(1,2,5)] clus_sector [OF assms(1,3,6)] by simp
  then have "((unat c - 2) * ?k + i) div ?k = ((unat c' - 2) * ?k + j) div ?k" by simp
  then have "unat c - 2 = unat c' - 2" using assms(5,6) by simp
  then have "unat c = unat c'" using assms(2,3) unfolding clus_ok_def by linarith
  with assms(4) show False by (simp add: word_unat_eq_iff)
qed

section \<open>Copying through a working uio\<close>

text \<open>
  What the data path needs of the copies: they succeed, a copy in pieces is the copy of the whole, and they
  move the number of bytes they are asked for. A memory that faults nowhere gives this.
\<close>

locale byte_copy =
  fixes io :: "'m uio" and rd :: "'m \<Rightarrow> u64 \<Rightarrow> nat \<Rightarrow> bytes" and wr :: "'m \<Rightarrow> u64 \<Rightarrow> bytes \<Rightarrow> 'm"
  assumes in_ok: "uio_in io m a n = (rd m a n, True)"
    and out_ok: "uio_out io m a bs = (wr m a bs, True)"
    and rd_length [simp]: "length (rd m a n) = n"
    and rd_add: "rd m a (x + y) = rd m a x @ rd m (a + of_nat x) y"
    and wr_Nil [simp]: "wr m a [] = m"
    and wr_append: "wr (wr m a xs) (a + of_nat (length xs)) ys = wr m a (xs @ ys)"
begin

lemma rd_0 [simp]: "rd m a 0 = []"
  using rd_length [of m a 0] unfolding length_0_conv .

lemma rd_split: "x \<le> n \<Longrightarrow> rd m a n = rd m a x @ rd m (a + of_nat x) (n - x)"
  using rd_add [of m a x "n - x"] by simp

lemma rw_loop_done: "\<not> tot < n \<Longrightarrow> rw_loop io w s m data off n tot sec = (tot, s, m)"
  by (subst rw_loop.simps) simp

lemma rw_read_step:
  assumes "tot < n"
  shows "rw_loop io False s m data off n tot sec =
    (let k = chunk n tot (BSIZE - off mod BSIZE)
     in rw_loop io False s (wr m data (take (unat k) (drop (unat off mod 512) (bl_cache s sec)))) (data + ucast k) (off + k) n (tot + k) (sec + 1))"
  using assms by (subst rw_loop.simps) (simp add: Let_def out_ok unat_mod)

lemma rw_write_step:
  assumes "tot < n"
  shows "rw_loop io True s m data off n tot sec =
    (let k = chunk n tot (BSIZE - off mod BSIZE)
     in rw_loop io True (blk_write s sec (put_bytes (bl_cache s sec) (unat off mod 512) (rd m data (unat k)))) m
          (data + ucast k) (off + k) n (tot + k) (sec + 1))"
  using assms by (subst rw_loop.simps) (simp add: Let_def in_ok unat_mod)

end

text \<open>The arithmetic of one piece.\<close>

lemma piece:
  fixes off n tot :: u32
  assumes "tot < n"
  defines "k \<equiv> chunk n tot (BSIZE - off mod BSIZE)"
  shows "unat k = min (unat n - unat tot) (512 - unat off mod 512)" and "unat (tot + k) = unat tot + unat k" and "tot + k \<le> n"
    and "0 < unat k" and "unat n - unat (tot + k) = unat n - unat tot - unat k"
    and "unat n - unat tot > unat k \<Longrightarrow> unat (off + k) mod 512 = 0"
proof -
  note c = chunk_less [OF assms(1) room_pos [of off], folded k_def]
  show k: "unat k = min (unat n - unat tot) (512 - unat off mod 512)" using c(5) by (simp add: unat_room)
  show "unat (tot + k) = unat tot + unat k" "tot + k \<le> n" by (rule c)+
  show "0 < unat k" using c(3) by (simp add: word_less_nat_alt)
  show "unat n - unat (tot + k) = unat n - unat tot - unat k" using c(2) by simp
  assume "unat n - unat tot > unat k"
  then have e: "unat k = 512 - unat off mod 512" using k by simp
  have "unat (off + k) mod 512 = (unat off + unat k) mod 2 ^ 32 mod 512" by (simp add: unat_word_ariths)
  also have "\<dots> = (unat off + unat k) mod 512" by (simp add: mod_mod_cancel)
  also have "\<dots> = 0"
  proof -
    obtain q r where q: "unat off = 512 * q + r" "r < 512" by (metis mult_div_mod_eq mod_less_divisor zero_less_numeral)
    then have "unat off + unat k = 512 * (q + 1)" using e by simp
    then show ?thesis by (simp only: mod_mult_self1_is_0)
  qed
  finally show "unat (off + k) mod 512 = 0" .
qed

lemma piece_bound:
  fixes off n tot :: u32
  assumes "tot < n" and "unat off mod 512 + (unat n - unat tot) \<le> 512 * Suc K"
  defines "k \<equiv> chunk n tot (BSIZE - off mod BSIZE)"
  shows "tot + k = n \<or> unat (off + k) mod 512 + (unat n - unat (tot + k)) \<le> 512 * K"
proof (cases "unat n - unat tot > unat k")
  case True
  note p = piece [OF assms(1), of off, folded k_def]
  have "unat k = 512 - unat off mod 512" using True p(1) by simp
  then have "unat n - unat tot - unat k \<le> 512 * K" using assms(2) by simp
  then show ?thesis using p(5) p(6) [OF True] by simp
next
  case False
  note p = piece [OF assms(1), of off, folded k_def]
  have "unat (tot + k) = unat n" using False p(1,2) assms(1) by (simp add: word_less_nat_alt)
  then show ?thesis by (simp add: word_unat_eq_iff)
qed

context byte_copy
begin

lemma rw_loop_read:
  assumes wf: "blk_wf s" and "tot \<le> n" and "tot = n \<or> unat off mod 512 + (unat n - unat tot) \<le> 512 * K"
  shows "rw_loop io False s m data off n tot sec =
    (n, s, wr m data (take (unat n - unat tot) (drop (unat off mod 512) (sectors s sec K))))"
  using assms(2,3)
proof (induction K arbitrary: m data off tot sec)
  case 0
  then have "unat n \<le> unat tot" by auto
  with 0 have "tot = n" by (simp add: word_le_nat_alt word_unat_eq_iff)
  then show ?case by (simp add: rw_loop_done)
next
  case (Suc K)
  show ?case
  proof (cases "tot < n")
    case False
    then have "tot = n" using Suc.prems(1) by simp
    then show ?thesis by (simp add: rw_loop_done)
  next
    case True
    let ?k = "chunk n tot (BSIZE - off mod BSIZE)" and ?o = "unat off mod 512" and ?r = "unat n - unat tot"
    note p = piece [OF True, of off]
    have d: "length (bl_cache s sec) = 512" using wf by (rule blk_wfD)
    have bnd: "tot + ?k = n \<or> unat (off + ?k) mod 512 + (unat n - unat (tot + ?k)) \<le> 512 * K"
      by (rule piece_bound [OF True]) (use Suc.prems(2) True in auto)
    have "rw_loop io False s m data off n tot sec =
        rw_loop io False s (wr m data (take (unat ?k) (drop ?o (bl_cache s sec)))) (data + ucast ?k) (off + ?k) n (tot + ?k) (sec + 1)"
      using rw_read_step [OF True] by (simp add: Let_def)
    also have "\<dots> = (n, s, wr (wr m data (take (unat ?k) (drop ?o (bl_cache s sec)))) (data + ucast ?k)
        (take (unat n - unat (tot + ?k)) (drop (unat (off + ?k) mod 512) (sectors s (sec + 1) K))))"
      by (rule Suc.IH [OF p(3) bnd])
    also have "\<dots> = (n, s, wr m data (take (unat ?k) (drop ?o (bl_cache s sec)) @
        take (?r - unat ?k) (drop (unat (off + ?k) mod 512) (sectors s (sec + 1) K))))"
    proof -
      have l: "length (take (unat ?k) (drop ?o (bl_cache s sec))) = unat ?k" using p(1) d by simp
      have "(ucast ?k :: u64) = of_nat (unat ?k)" by simp
      then show ?thesis using wr_append [of m data "take (unat ?k) (drop ?o (bl_cache s sec))"] l p(5) by simp
    qed
    also have "take (unat ?k) (drop ?o (bl_cache s sec)) @ take (?r - unat ?k) (drop (unat (off + ?k) mod 512) (sectors s (sec + 1) K))
        = take ?r (drop ?o (sectors s sec (Suc K)))"
    proof (cases "?r > unat ?k")
      case True
      then have "unat ?k = 512 - ?o" using p(1) by simp
      then show ?thesis using p(6) [OF True] d True by (simp add: sectors_Suc)
    next
      case False
      then have "unat ?k = ?r" "?r \<le> 512 - ?o" using p(1) by simp_all
      then show ?thesis using d by (simp add: sectors_Suc)
    qed
    finally show ?thesis .
  qed
qed

end

lemma put_bytes_Nil [simp]: "put_bytes xs o1 [] = xs"
  by (simp add: put_bytes_def)

lemma put_bytes_split1:
  assumes "length d = 512" and "o1 + length xs = 512" and "length ys \<le> length S"
  shows "put_bytes d o1 xs @ put_bytes S 0 ys = put_bytes (d @ S) o1 (xs @ ys)"
proof -
  have "o1 + (length xs + length ys) - 512 = length ys" using assms(2) by linarith
  then show ?thesis using assms(1,2) by (simp add: put_bytes_def)
qed

lemma put_bytes_split2: "o1 + length xs \<le> length d \<Longrightarrow> put_bytes d o1 xs @ S = put_bytes (d @ S) o1 xs"
  by (simp add: put_bytes_def)

lemma put_bytes_shift: "put_bytes (p @ xs) (length p + o1) bs = p @ put_bytes xs o1 bs"
  by (simp add: put_bytes_def)

context byte_copy
begin

lemma rw_loop_write:
  assumes "blk_wf s" and "tot \<le> n" and "tot = n \<or> unat off mod 512 + (unat n - unat tot) \<le> 512 * K" and "K < 2 ^ 32"
  shows "\<exists>s'. rw_loop io True s m data off n tot sec = (n, s', m) \<and> blk_wf s' \<and> (blk_synced s \<longrightarrow> blk_synced s') \<and>
    (\<forall>x. (\<forall>i < K. x \<noteq> sec + of_nat i) \<longrightarrow> bl_cache s' x = bl_cache s x) \<and>
    sectors s' sec K = put_bytes (sectors s sec K) (unat off mod 512) (rd m data (unat n - unat tot))"
  using assms
proof (induction K arbitrary: s data off tot sec)
  case 0
  then have "unat n \<le> unat tot" by auto
  with 0 have "tot = n" by (simp add: word_le_nat_alt word_unat_eq_iff)
  then show ?case using 0 by (simp add: rw_loop_done)
next
  case (Suc K)
  show ?case
  proof (cases "tot < n")
    case False
    then have "tot = n" using Suc.prems(2) by simp
    then show ?thesis using Suc.prems(1) by (simp add: rw_loop_done)
  next
    case True
    let ?k = "chunk n tot (BSIZE - off mod BSIZE)" and ?o = "unat off mod 512" and ?r = "unat n - unat tot"
    let ?d = "put_bytes (bl_cache s sec) ?o (rd m data (unat ?k))"
    let ?s = "blk_write s sec ?d"
    note p = piece [OF True, of off]
    have d: "length (bl_cache s sec) = 512" using Suc.prems(1) by (rule blk_wfD)
    have ok: "?o + unat ?k \<le> 512" using p(1) by simp
    have wf: "blk_wf ?s" using blk_write_wf [OF Suc.prems(1)] length_put_bytes [of ?o "rd m data (unat ?k)" "bl_cache s sec"] ok d by simp
    have bnd: "tot + ?k = n \<or> unat (off + ?k) mod 512 + (unat n - unat (tot + ?k)) \<le> 512 * K"
      by (rule piece_bound [OF True]) (use Suc.prems(3) True in auto)
    have st: "rw_loop io True s m data off n tot sec = rw_loop io True ?s m (data + ucast ?k) (off + ?k) n (tot + ?k) (sec + 1)"
      using rw_write_step [OF True] by (simp add: Let_def)
    from Suc.IH [OF wf p(3) bnd, of "data + ucast ?k" "sec + 1"] Suc.prems(4) obtain s' where
      s': "rw_loop io True s m data off n tot sec = (n, s', m)" "blk_wf s'" "blk_synced ?s \<longrightarrow> blk_synced s'"
        "\<And>x. (\<forall>i < K. x \<noteq> sec + 1 + of_nat i) \<Longrightarrow> bl_cache s' x = bl_cache ?s x"
        "sectors s' (sec + 1) K = put_bytes (sectors ?s (sec + 1) K) (unat (off + ?k) mod 512) (rd m (data + ucast ?k) (unat n - unat (tot + ?k)))"
      unfolding st by auto
    have ne: "sec \<noteq> sec + 1 + of_nat i" if "i < K" for i
      using of_nat_neq_32 [of 0 "Suc i"] that Suc.prems(4) by (auto simp: algebra_simps)
    have c0: "bl_cache s' sec = ?d" using s'(4) [of sec] ne by simp
    have oth: "bl_cache s' x = bl_cache s x" if x: "\<forall>i < Suc K. x \<noteq> sec + of_nat i" for x
    proof -
      have "x \<noteq> sec + 1 + of_nat i" if "i < K" for i using x [rule_format, of "Suc i"] that by (simp add: algebra_simps)
      moreover have "x \<noteq> sec" using x [rule_format, of 0] by simp
      ultimately show ?thesis using s'(4) [of x] by simp
    qed
    have tl: "sectors ?s (sec + 1) K = sectors s (sec + 1) K"
      by (rule sectors_cong) (use ne in \<open>auto dest: sym\<close>)
    have S: "length (sectors s (sec + 1) K) = 512 * K" using length_sectors [OF Suc.prems(1)] .
    let ?rest = "rd m (data + ucast ?k) (?r - unat ?k)"
    have whole: "rd m data ?r = rd m data (unat ?k) @ ?rest"
    proof -
      have "unat ?k \<le> ?r" using p(1) by linarith
      from rd_split [OF this, of m data] show ?thesis by simp
    qed
    have "sectors s' sec (Suc K) = ?d @ put_bytes (sectors s (sec + 1) K) (unat (off + ?k) mod 512) ?rest"
      using s'(5) c0 tl p(5) by (simp add: sectors_Suc)
    also have "\<dots> = put_bytes (sectors s sec (Suc K)) ?o (rd m data ?r)"
    proof (cases "?r > unat ?k")
      case t: True
      then have k: "unat ?k = 512 - ?o" using p(1) by simp
      have "?r - unat ?k \<le> 512 * K" using k Suc.prems(3) True by auto
      then show ?thesis unfolding whole p(6) [OF t] sectors_Suc using put_bytes_split1 [OF d, of ?o "rd m data (unat ?k)" ?rest] k S by simp
    next
      case False
      then have "?rest = []" by simp
      then show ?thesis unfolding whole sectors_Suc using put_bytes_split2 [of ?o "rd m data (unat ?k)" "bl_cache s sec"] ok d by simp
    qed
    finally show ?thesis using s' oth blk_write_synced by blast
  qed
qed

end

lemma sectors_split: "sectors s sec (a + n) = sectors s sec a @ sectors s (sec + of_nat a) n"
  by (induction a arbitrary: sec) (simp_all add: sectors_Suc algebra_simps)

text \<open>What a change inside one cluster leaves alone.\<close>

definition clus_frame :: "fat \<Rightarrow> u32 \<Rightarrow> blk \<Rightarrow> blk \<Rightarrow> bool" where
  "clus_frame f c s s' \<longleftrightarrow> blk_wf s' \<and> (blk_synced s \<longrightarrow> blk_synced s') \<and> (\<forall>x. read_fat f s' x = read_fat f s x) \<and>
     (\<forall>c'. clus_ok f c' \<and> c' \<noteq> c \<longrightarrow> clus_bytes f s' c' = clus_bytes f s c')"

lemma clus_frameI:
  assumes wf: "fat_wf f" "blk_wf s'" "clus_ok f c" and sy: "blk_synced s \<Longrightarrow> blk_synced s'"
    and same: "\<And>x. (\<And>i. i < unat (sec_per_clus (f_bpb f)) \<Longrightarrow> x \<noteq> first_sec_of_clus f c + of_nat i) \<Longrightarrow> bl_cache s' x = bl_cache s x"
  shows "clus_frame f c s s'"
proof -
  have "read_fat f s' x = read_fat f s x" for x
  proof (cases "unat x \<le> unat (data_clus_cnt f) + 1")
    case True
    note u = fat_sec_unat [OF wf(1) True]
    have lt: "unat (fat_sec_of_clus f x 1) < unat (first_data_sec f)" using u(1,3) wf(1) by (simp add: fat_wf_def)
    have "bl_cache s' (fat_sec_of_clus f x 1) = bl_cache s (fat_sec_of_clus f x 1)"
    proof (rule same)
      fix i assume "i < unat (sec_per_clus (f_bpb f))"
      from clus_sector [OF wf(1,3) this] lt show "fat_sec_of_clus f x 1 \<noteq> first_sec_of_clus f c + of_nat i" by auto
    qed
    then show ?thesis using read_fat_in [OF wf(1) True] by simp
  next
    case False
    then have "data_clus_cnt f + 1 < x" using range_word [OF wf(1)] by auto
    then show ?thesis by (simp add: read_fat_def)
  qed
  moreover have "clus_bytes f s' c' = clus_bytes f s c'" if "clus_ok f c'" "c' \<noteq> c" for c'
    unfolding clus_bytes_def
    by (rule sectors_cong, rule same) (use clus_disjoint [OF wf(1) that(1) wf(3) that(2)] in blast)
  ultimately show ?thesis using wf(2) sy by (simp add: clus_frame_def)
qed

lemma length_clus_bytes: "blk_wf s \<Longrightarrow> length (clus_bytes f s c) = 512 * unat (sec_per_clus (f_bpb f))"
  by (simp add: clus_bytes_def length_sectors)

lemma unat_bpc: "fat_wf f \<Longrightarrow> unat (byts_per_clus f) = 512 * unat (sec_per_clus (f_bpb f))"
proof -
  assume wf: "fat_wf f"
  have "unat (sec_per_clus (f_bpb f)) < 2 ^ LENGTH(8)" by (rule unsigned_less)
  with wf show ?thesis by (simp add: fat_wf_def unat_word_ariths)
qed

lemma bpc_pos: "fat_wf f \<Longrightarrow> 0 < byts_per_clus f"
proof -
  assume wf: "fat_wf f"
  have "0 < unat (byts_per_clus f)" using unat_bpc [OF wf] wf by (simp add: fat_wf_def word_less_nat_alt)
  then show ?thesis by (simp add: word_less_nat_alt)
qed

text \<open>A request inside a cluster: the sectors it touches.\<close>

lemma clus_split:
  assumes "fat_wf f" "blk_wf s" and "q \<le> unat (sec_per_clus (f_bpb f))"
  shows "clus_bytes f s c = sectors s (first_sec_of_clus f c) q @ sectors s (first_sec_of_clus f c + of_nat q) (unat (sec_per_clus (f_bpb f)) - q)"
  using sectors_split [of s "first_sec_of_clus f c" q "unat (sec_per_clus (f_bpb f)) - q"] assms(3) by (simp add: clus_bytes_def)

lemma rw_clus_start:
  assumes "fat_wf f" and "unat off + unat n \<le> unat (byts_per_clus f)"
  shows "rw_clus io f s m c w data off n =
      Ok (rw_loop io w s m data (off mod 512) n 0 (first_sec_of_clus f c + of_nat (unat off div 512)))"
    and "0 = n \<or> unat (off mod 512) mod 512 + (unat n - unat (0 :: u32)) \<le> 512 * (unat (sec_per_clus (f_bpb f)) - unat off div 512)"
    and "unat off div 512 \<le> unat (sec_per_clus (f_bpb f))"
proof -
  have b: "byts_per_sec (f_bpb f) = 512" using assms(1) by (simp add: fat_wf_def)
  have "unat off + unat n < 2 ^ 32" using assms(2) unat_lt32 [of "byts_per_clus f"] by simp
  then have "\<not> byts_per_clus f < off + n" using assms(2) by (simp add: word_less_nat_alt unat_word_ariths)
  moreover have "off div 512 = of_nat (unat off div 512)"
  proof -
    have "unat off div 512 < 2 ^ 32" using unat_lt32 [of off] by (rule le_less_trans [OF div_le_dividend])
    then have "unat (off div 512) = unat (of_nat (unat off div 512) :: u32)" by (simp add: unat_div unat_of_nat)
    then show ?thesis by (simp add: word_unat_eq_iff)
  qed
  ultimately show "rw_clus io f s m c w data off n =
      Ok (rw_loop io w s m data (off mod 512) n 0 (first_sec_of_clus f c + of_nat (unat off div 512)))"
    using b by (simp add: rw_clus_def Let_def)
  have k: "unat off + unat n \<le> 512 * unat (sec_per_clus (f_bpb f))" using assms unat_bpc by simp
  obtain q r where q: "unat off = 512 * q + r" "r < 512" by (metis mult_div_mod_eq mod_less_divisor zero_less_numeral)
  then have dm: "unat off div 512 = q" "unat (off mod 512) mod 512 = r" by (simp_all add: unat_mod)
  show "unat off div 512 \<le> unat (sec_per_clus (f_bpb f))" using k q unfolding dm by simp
  then show "0 = n \<or> unat (off mod 512) mod 512 + (unat n - unat (0 :: u32)) \<le> 512 * (unat (sec_per_clus (f_bpb f)) - unat off div 512)"
    using k q unfolding dm diff_mult_distrib2 unsigned_0 by linarith
qed

context byte_copy
begin

lemma rw_clus_read:
  assumes wf: "fat_wf f" "blk_wf s" and le: "unat off + unat n \<le> unat (byts_per_clus f)"
  shows "rw_clus io f s m c False data off n = Ok (n, s, wr m data (take (unat n) (drop (unat off) (clus_bytes f s c))))"
proof -
  let ?q = "unat off div 512" and ?K = "unat (sec_per_clus (f_bpb f)) - unat off div 512"
  note st = rw_clus_start [OF wf(1) le]
  have l: "length (sectors s (first_sec_of_clus f c) ?q) = 512 * ?q" by (rule length_sectors [OF wf(2)])
  have "drop (unat off) (clus_bytes f s c) = drop (unat off mod 512) (sectors s (first_sec_of_clus f c + of_nat ?q) ?K)"
    unfolding clus_split [OF wf st(3)] using l by (simp add: minus_mult_div_eq_mod)
  then show ?thesis using st(1) [of io s m c False data] rw_loop_read [OF wf(2) _ st(2), of m data "first_sec_of_clus f c + of_nat ?q"]
    by (simp add: unat_mod)
qed

lemma rw_clus_write:
  assumes wf: "fat_wf f" "blk_wf s" and c: "clus_ok f c" and le: "unat off + unat n \<le> unat (byts_per_clus f)"
  shows "\<exists>s'. rw_clus io f s m c True data off n = Ok (n, s', m) \<and> clus_frame f c s s' \<and>
     clus_bytes f s' c = put_bytes (clus_bytes f s c) (unat off) (rd m data (unat n))"
proof -
  let ?q = "unat off div 512" and ?k = "unat (sec_per_clus (f_bpb f))" and ?K = "unat (sec_per_clus (f_bpb f)) - unat off div 512"
  let ?b = "first_sec_of_clus f c"
  note st = rw_clus_start [OF wf(1) le]
  have k: "?k < 2 ^ 8" using unsigned_less [where w = "sec_per_clus (f_bpb f)" and 'a = nat] by simp
  have K32: "?K < 2 ^ 32" using k by (rule le_less_trans [OF diff_le_self less_trans]) simp
  obtain s' where s': "rw_loop io True s m data (off mod 512) n 0 (?b + of_nat ?q) = (n, s', m)" "blk_wf s'"
      "blk_synced s \<longrightarrow> blk_synced s'" "\<forall>x. (\<forall>i < ?K. x \<noteq> ?b + of_nat ?q + of_nat i) \<longrightarrow> bl_cache s' x = bl_cache s x"
      "sectors s' (?b + of_nat ?q) ?K = put_bytes (sectors s (?b + of_nat ?q) ?K) (unat off mod 512) (rd m data (unat n))"
    using rw_loop_write [OF wf(2) _ st(2) K32, of m data "?b + of_nat ?q"] by (auto simp: unat_mod)
  have sec: "?b + of_nat ?q + of_nat i = ?b + of_nat (?q + i)" for i by simp
  have "clus_frame f c s s'"
  proof (rule clus_frameI [OF wf(1) s'(2) c])
    fix x assume x: "\<And>i. i < ?k \<Longrightarrow> x \<noteq> ?b + of_nat i"
    have "x \<noteq> ?b + of_nat ?q + of_nat i" if "i < ?K" for i
    proof -
      have "?q + i < ?k" using that by simp
      from x [OF this] show ?thesis unfolding sec .
    qed
    then show "bl_cache s' x = bl_cache s x" using s'(4) by blast
  qed (use s'(3) in blast)
  moreover have "clus_bytes f s' c = put_bytes (clus_bytes f s c) (unat off) (rd m data (unat n))"
  proof -
    have pre: "sectors s' ?b ?q = sectors s ?b ?q"
    proof (rule sectors_cong)
      fix j assume j: "j < ?q"
      have "?b + of_nat j \<noteq> ?b + of_nat ?q + of_nat i" if "i < ?K" for i
        using of_nat_neq_32 [of j "?q + i"] j that k by (simp add: sec algebra_simps)
      then show "bl_cache s' (?b + of_nat j) = bl_cache s (?b + of_nat j)" using s'(4) by blast
    qed
    have l: "length (sectors s ?b ?q) = 512 * ?q" by (rule length_sectors [OF wf(2)])
    have "unat off = length (sectors s ?b ?q) + unat off mod 512" unfolding l by simp
    then show ?thesis
      unfolding clus_split [OF wf(1) s'(2) st(3)] clus_split [OF wf st(3)] pre s'(5) using put_bytes_shift by metis
  qed
  ultimately show ?thesis using s'(1) st(1) [of io s m c True data] by simp
qed

end

end
