(* ===== verification/FatFile.thy ===== *)
theory FatFile
  imports Fat
begin

text \<open>
  Files as byte sequences: what the allocation table, \<^verbatim>\<open>reloc_clus\<close>, \<^verbatim>\<open>eread\<close>, \<^verbatim>\<open>ewrite\<close> and \<^verbatim>\<open>etrunc\<close> of
  \<^verbatim>\<open>kernel/fs/fat32.c\<close> do to the contents of a file, which is the concatenation of the clusters of its chain.
\<close>

section \<open>Allocation\<close>

definition tab :: "fat \<Rightarrow> blk \<Rightarrow> nat \<Rightarrow> u32" where
  "tab f s x = le32 (bl_cache s (ucast (rsvd_sec_cnt (f_bpb f)) + of_nat (x div 128))) (4 * (x mod 128))"

lemma alloc_scan_spec:
  assumes "byts_per_sec (f_bpb f) = 512"
  shows "case alloc_scan f s [a..<b] of
     None \<Rightarrow> \<forall>x. a * 128 \<le> x \<and> x < b * 128 \<longrightarrow> tab f s x \<noteq> 0
   | Some (i, j) \<Rightarrow> i < b \<and> j < 128 \<and> tab f s (i * 128 + j) = 0 \<and> (\<forall>x. a * 128 \<le> x \<and> x < i * 128 + j \<longrightarrow> tab f s x \<noteq> 0)"
proof (induction "b - a" arbitrary: a)
  case 0
  then have "b * 128 \<le> a * 128" by simp
  with 0 show ?case by auto
next
  case (Suc n)
  then have ab: "a < b" and n: "n = b - Suc a" by auto
  let ?P = "\<lambda>j. le32 (bl_cache s (ucast (rsvd_sec_cnt (f_bpb f)) + of_nat a)) (4 * j) = 0"
  have u: "[a..<b] = a # [Suc a..<b]" using ab by (rule upt_conv_Cons)
  have sz: "unat (byts_per_sec (f_bpb f)) div 4 = 128" by (simp add: assms)
  have t: "tab f s (a * 128 + j) = le32 (bl_cache s (ucast (rsvd_sec_cnt (f_bpb f)) + of_nat a)) (4 * j)" if "j < 128" for j
    using that by (simp add: tab_def)
  show ?case
  proof (cases "first_idx ?P [0..<128]")
    case (Some j)
    then have j: "j < 128" "?P j" "\<forall>i. i < j \<longrightarrow> \<not> ?P i" unfolding first_idx_upt_iff by auto
    have "tab f s x \<noteq> 0" if "a * 128 \<le> x" "x < a * 128 + j" for x
      using j(3) [rule_format, of "x - a * 128"] t [of "x - a * 128"] that j(1) by simp
    with Some u sz ab j(1,2) t [OF j(1)] show ?thesis by simp
  next
    case None
    then have nz: "tab f s x \<noteq> 0" if "a * 128 \<le> x" "x < Suc a * 128" for x
      using t [of "x - a * 128"] that by simp
    have "alloc_scan f s [a..<b] = alloc_scan f s [Suc a..<b]" unfolding u alloc_scan.simps sz None by simp
    with Suc(1) [OF n] nz show ?thesis
      by (auto split: option.splits) (metis not_le)+
  qed
qed

lemma tab_read:
  assumes "fat_wf f" and "unat c \<le> unat (data_clus_cnt f) + 1"
  shows "read_fat f s c = tab f s (unat c)"
proof -
  have "fat_sec_of_clus f c 1 = ucast (rsvd_sec_cnt (f_bpb f)) + of_nat (unat c div 128)"
  proof -
    note u = fat_sec_unat [OF assms]
    have "unat (rsvd_sec_cnt (f_bpb f)) + unat c div 128 < 2 ^ 32"
      using u(3) assms(1) unat_lt32 [of "first_data_sec f"] by (simp add: fat_wf_def)
    then have "unat (ucast (rsvd_sec_cnt (f_bpb f)) + of_nat (unat c div 128) :: u32) = unat (rsvd_sec_cnt (f_bpb f)) + unat c div 128"
      by (simp add: unat_word_ariths unat_of_nat)
    then show ?thesis using u(1) by (simp add: word_unat_eq_iff)
  qed
  then show ?thesis using read_fat_in [OF assms] by (simp add: tab_def)
qed

text \<open>The volume is usable: the two reserved entries are not free.\<close>

definition fat_reserved :: "fat \<Rightarrow> blk \<Rightarrow> bool" where
  "fat_reserved f s \<longleftrightarrow> tab f s 0 \<noteq> 0 \<and> tab f s 1 \<noteq> 0"

lemma fat_reserved_read: "fat_wf f \<Longrightarrow> fat_reserved f s \<longleftrightarrow> read_fat f s 0 \<noteq> 0 \<and> read_fat f s 1 \<noteq> 0"
  using tab_read [of f 0 s] tab_read [of f 1 s] by (simp add: fat_reserved_def)

lemma alloc_clus_scan:
  assumes wf: "fat_wf f" and a: "alloc_scan f s [0..<unat (fat_sz (f_bpb f))] = Some (i, j)"
    and j: "j < 128" and c: "i * 128 + j \<le> unat (data_clus_cnt f) + 1"
  defines "c \<equiv> of_nat (i * 128 + j)"
  shows "alloc_clus f s = Ok (c, zero_clus f (snd (write_fat f s c 0x0fffffff)) c)" and "unat c = i * 128 + j"
proof -
  have b: "byts_per_sec (f_bpb f) = 512" and lim: "unat (data_clus_cnt f) + 2 \<le> 0x0ffffff8" using wf by (simp_all add: fat_wf_def)
  show u: "unat c = i * 128 + j" using c lim by (simp add: c_def unat_of_nat del: of_nat_add of_nat_mult)
  have in_range: "unat c \<le> unat (data_clus_cnt f) + 1" using u c by simp
  note s = fat_sec_unat [OF wf in_range]
  have dm: "unat c div 128 = i" "unat c mod 128 = j" using u j by simp_all
  have "unat (rsvd_sec_cnt (f_bpb f)) + i < 2 ^ 32"
    using s(3) dm wf unat_lt32 [of "first_data_sec f"] by (simp add: fat_wf_def)
  then have "unat (ucast (rsvd_sec_cnt (f_bpb f)) + of_nat i :: u32) = unat (rsvd_sec_cnt (f_bpb f)) + i"
    by (simp add: unat_word_ariths unat_of_nat)
  then have sec: "fat_sec_of_clus f c 1 = ucast (rsvd_sec_cnt (f_bpb f)) + of_nat i" using s(1) dm by (simp add: word_unat_eq_iff)
  have w: "write_fat f s c 0x0fffffff = (0, blk_write s (fat_sec_of_clus f c 1)
      (put_bytes (bl_cache s (fat_sec_of_clus f c 1)) (4 * j) (le32_bytes 0x0fffffff)))"
    using range_word [OF wf, of c] in_range s(2) dm by (simp add: write_fat_def Let_def)
  have "(512 :: u32) div 4 = 128" by simp
  then have cl: "of_nat i * (ucast (byts_per_sec (f_bpb f)) div 4) + of_nat j = c" by (simp add: b c_def)
  show "alloc_clus f s = Ok (c, zero_clus f (snd (write_fat f s c 0x0fffffff)) c)"
    unfolding w alloc_clus_def using a cl sec by (simp add: Let_def)
qed

definition alloc_post :: "fat \<Rightarrow> blk \<Rightarrow> u32 \<Rightarrow> blk \<Rightarrow> bool" where
  "alloc_post f s c s' \<longleftrightarrow> clus_ok f c \<and> read_fat f s c = 0 \<and> blk_wf s' \<and> (blk_synced s \<longrightarrow> blk_synced s') \<and>
     (\<forall>x. read_fat f s' x = (if x = c then 0x0fffffff else read_fat f s x)) \<and>
     clus_bytes f s' c = replicate (unat (byts_per_clus f)) 0 \<and>
     (\<forall>c'. clus_ok f c' \<and> c' \<noteq> c \<longrightarrow> clus_bytes f s' c' = clus_bytes f s c')"

lemma zero_clus_ok:
  assumes "fat_wf f" "blk_wf s" "clus_ok f c"
  shows "clus_frame f c s (zero_clus f s c)" and "clus_bytes f (zero_clus f s c) c = replicate (unat (byts_per_clus f)) 0"
proof -
  let ?k = "unat (sec_per_clus (f_bpb f))"
  have k: "?k < 2 ^ 32" using unsigned_less [where w = "sec_per_clus (f_bpb f)" and 'a = nat] by simp
  show "clus_frame f c s (zero_clus f s c)"
    unfolding zero_clus_def
    by (rule clus_frameI [OF assms(1) zero_secs_ok(1) [OF assms(2) k] assms(3)])
      (use zero_secs_ok [OF assms(2) k] in blast)+
  show "clus_bytes f (zero_clus f s c) c = replicate (unat (byts_per_clus f)) 0"
    unfolding clus_bytes_def zero_clus_def using zero_secs_ok(4) [OF assms(2) k] unat_bpc [OF assms(1)] by simp
qed

lemma clus_bytes_data:
  assumes "fat_wf f" "clus_ok f c" and "\<And>sec. unat (first_data_sec f) \<le> unat sec \<Longrightarrow> bl_cache s' sec = bl_cache s sec"
  shows "clus_bytes f s' c = clus_bytes f s c"
  unfolding clus_bytes_def by (rule sectors_cong, rule assms(3)) (use clus_sector [OF assms(1,2)] in simp)

lemma alloc_clus_ok:
  assumes wf: "fat_wf f" "blk_wf s" and res: "fat_reserved f s" and free: "clus_ok f c0" "read_fat f s c0 = 0"
  shows "\<exists>c s'. alloc_clus f s = Ok (c, s') \<and> alloc_post f s c s'"
proof -
  let ?n = "unat (fat_sz (f_bpb f))"
  have b: "byts_per_sec (f_bpb f) = 512" and cov: "unat (data_clus_cnt f) + 2 \<le> 128 * ?n" using wf(1) by (simp_all add: fat_wf_def)
  have c0: "unat c0 \<le> unat (data_clus_cnt f) + 1" and t0: "tab f s (unat c0) = 0"
    using free tab_read [OF wf(1), of c0 s] by (simp_all add: clus_ok_def)
  note sp = alloc_scan_spec [OF b, where s = s and a = 0 and b = ?n]
  obtain i j where a: "alloc_scan f s [0..<?n] = Some (i, j)"
    using sp t0 c0 cov by (cases "alloc_scan f s [0..<?n]") auto
  have ij: "j < 128" "tab f s (i * 128 + j) = 0" "\<And>x. x < i * 128 + j \<Longrightarrow> tab f s x \<noteq> 0" using sp a by auto
  have le: "i * 128 + j \<le> unat c0" using ij(3) [of "unat c0"] t0 by (meson not_le)
  have ge: "2 \<le> i * 128 + j"
  proof -
    have "i * 128 + j \<noteq> 0" "i * 128 + j \<noteq> 1" using ij(2) res unfolding fat_reserved_def by metis+
    then show ?thesis by linarith
  qed
  let ?c = "of_nat (i * 128 + j) :: u32"
  note sc = alloc_clus_scan [OF wf(1) a ij(1) order_trans [OF le c0]]
  have ok: "clus_ok f ?c" using sc(2) le ge c0 by (simp add: clus_ok_def)
  have rg: "unat ?c \<le> unat (data_clus_cnt f) + 1" using ok by (simp add: clus_ok_def)
  have rd: "read_fat f s ?c = 0" using tab_read [OF wf(1) rg] sc(2) ij(2) by simp
  obtain s1 where s1: "write_fat f s ?c 0x0fffffff = (0, s1)" "blk_wf s1" "blk_synced s \<Longrightarrow> blk_synced s1"
      "\<And>x. read_fat f s1 x = (if x = ?c then 0x0fffffff else read_fat f s x)"
      "\<And>sec. unat (first_data_sec f) \<le> unat sec \<Longrightarrow> bl_cache s1 sec = bl_cache s sec"
    using write_fat_ok [OF wf rg, of "0x0fffffff"] by blast
  note z = zero_clus_ok [OF wf(1) s1(2) ok]
  have "alloc_post f s ?c (zero_clus f s1 ?c)"
    unfolding alloc_post_def
    using ok rd z s1(3,4) clus_bytes_data [OF wf(1) _ s1(5)] by (auto simp: clus_frame_def)
  then show ?thesis using sc(1) s1(1) by auto
qed

section \<open>Chains\<close>

definition chain_ok :: "fat \<Rightarrow> blk \<Rightarrow> u32 list \<Rightarrow> bool" where
  "chain_ok f s cs \<longleftrightarrow> cs \<noteq> [] \<and> distinct cs \<and> (\<forall>c \<in> set cs. clus_ok f c) \<and>
     (\<forall>i. Suc i < length cs \<longrightarrow> read_fat f s (cs ! i) = cs ! Suc i) \<and>
     FAT32_EOC \<le> read_fat f s (List.last cs) \<and> read_fat f s (List.last cs) < 0x80000000"

definition file_bytes :: "fat \<Rightarrow> blk \<Rightarrow> u32 list \<Rightarrow> bytes" where
  "file_bytes f s cs = concat (map (clus_bytes f s) cs)"

text \<open>A directory entry in memory describes the chain of its file and caches a position in it.\<close>

definition entry_ok :: "fat \<Rightarrow> blk \<Rightarrow> dirent \<Rightarrow> u32 list \<Rightarrow> bool" where
  "entry_ok f s e cs \<longleftrightarrow> chain_ok f s cs \<and> e_first_clus e = hd cs \<and> unat (e_clus_cnt e) < length cs \<and>
     e_cur_clus e = cs ! unat (e_clus_cnt e) \<and> unat (e_file_size e) \<le> length cs * unat (byts_per_clus f)"

lemma clus_ok_less_EOC: "fat_wf f \<Longrightarrow> clus_ok f c \<Longrightarrow> c < FAT32_EOC"
  by (simp add: fat_wf_def clus_ok_def word_less_nat_alt)

lemma sint_small: "unat c < 2 ^ 31 \<Longrightarrow> sint (c :: u32) = int (unat c)"
proof -
  assume a: "unat c < 2 ^ 31"
  have u: "uint c = int (unat c)" by (rule uint_nat)
  have "sint c = signed_take_bit 31 (uint c)" by (simp add: sint_uint)
  also have "\<dots> = int (unat c)" unfolding u
  proof (rule signed_take_bit_int_eq_self)
    have "(- (2 ^ 31) :: int) \<le> 0" by simp
    then show "- (2 ^ 31) \<le> int (unat c)" using of_nat_0_le_iff order_trans by blast
    show "int (unat c) < 2 ^ 31" using a by (metis of_nat_less_iff of_nat_numeral of_nat_power)
  qed
  finally show ?thesis .
qed

lemma sint_le_small: "unat a < 2 ^ 31 \<Longrightarrow> unat b < 2 ^ 31 \<Longrightarrow> sint (a :: u32) \<le> sint b \<longleftrightarrow> a \<le> b"
  unfolding word_le_nat_alt by (simp only: sint_small of_nat_le_iff)

lemma clus_not_eoc: "fat_wf f \<Longrightarrow> clus_ok f c \<Longrightarrow> \<not> sint FAT32_EOC \<le> sint c"
proof -
  assume "fat_wf f" "clus_ok f c"
  then have lt: "c < FAT32_EOC" by (rule clus_ok_less_EOC)
  then have "unat c < 2 ^ 31" by (simp add: word_less_nat_alt)
  from sint_le_small [OF _ this, of FAT32_EOC] lt show ?thesis by (simp add: not_le)
qed

lemma eoc_signed: "FAT32_EOC \<le> c \<Longrightarrow> c < 0x80000000 \<Longrightarrow> sint FAT32_EOC \<le> sint c"
proof -
  assume a: "FAT32_EOC \<le> c" "c < 0x80000000"
  then have "unat c < 2 ^ 31" by (simp add: word_less_nat_alt)
  from sint_le_small [OF _ this, of FAT32_EOC] a show ?thesis by simp
qed

lemma chain_clus: "chain_ok f s cs \<Longrightarrow> i < length cs \<Longrightarrow> clus_ok f (cs ! i)"
  by (simp add: chain_ok_def)

text \<open>Moving the cached position forwards and backwards along the chain.\<close>

lemma reloc_fwd_in:
  assumes wf: "fat_wf f" and ch: "chain_ok f s cs"
  shows "e_cur_clus e = cs ! unat (e_clus_cnt e) \<Longrightarrow> unat n < length cs \<Longrightarrow> e_clus_cnt e \<le> n \<Longrightarrow>
    reloc_fwd f s e n alloc = Ok (True, e\<lparr>e_cur_clus := cs ! unat n, e_clus_cnt := n\<rparr>, s)"
proof (induction "unat n - unat (e_clus_cnt e)" arbitrary: e)
  case 0
  then have "unat n \<le> unat (e_clus_cnt e)" by simp
  then have "n = e_clus_cnt e" using 0(4) by (simp add: word_le_nat_alt word_unat_eq_iff)
  then show ?case using 0 by (subst reloc_fwd.simps) simp
next
  case (Suc k)
  let ?i = "unat (e_clus_cnt e)"
  have lt: "e_clus_cnt e < n" "?i < unat n" using Suc(2) by (simp_all add: word_less_nat_alt)
  then have u: "unat (e_clus_cnt e + 1) = Suc ?i" using unat_lt32 [of n] by (simp add: unat_word_ariths)
  have nx: "read_fat f s (e_cur_clus e) = cs ! Suc ?i" using ch Suc.prems(1,2) lt by (simp add: chain_ok_def)
  have ok: "clus_ok f (cs ! Suc ?i)" using chain_clus [OF ch] Suc.prems(2) lt by simp
  let ?e = "e\<lparr>e_cur_clus := cs ! Suc ?i, e_clus_cnt := e_clus_cnt e + 1\<rparr>"
  have "reloc_fwd f s e n alloc = reloc_fwd f s ?e n alloc"
    using lt nx clus_not_eoc [OF wf ok] by (subst reloc_fwd.simps) (simp add: Let_def)
  also have "\<dots> = Ok (True, ?e\<lparr>e_cur_clus := cs ! unat n, e_clus_cnt := n\<rparr>, s)"
    by (rule Suc.hyps(1)) (use Suc lt u in \<open>auto simp: word_le_nat_alt\<close>)
  finally show ?case by simp
qed

lemma reloc_back_in:
  assumes wf: "fat_wf f" and ch: "chain_ok f s cs"
  shows "e_cur_clus e = cs ! unat (e_clus_cnt e) \<Longrightarrow> unat n < length cs \<Longrightarrow> e_clus_cnt e \<le> n \<Longrightarrow>
    reloc_back f s e n = Ok (e\<lparr>e_cur_clus := cs ! unat n, e_clus_cnt := n\<rparr>)"
proof (induction "unat n - unat (e_clus_cnt e)" arbitrary: e)
  case 0
  then have "unat n \<le> unat (e_clus_cnt e)" by simp
  then have "n = e_clus_cnt e" using 0(4) by (simp add: word_le_nat_alt word_unat_eq_iff)
  then show ?case using 0 by (subst reloc_back.simps) simp
next
  case (Suc k)
  let ?i = "unat (e_clus_cnt e)"
  have lt: "e_clus_cnt e < n" "?i < unat n" using Suc(2) by (simp_all add: word_less_nat_alt)
  then have u: "unat (e_clus_cnt e + 1) = Suc ?i" using unat_lt32 [of n] by (simp add: unat_word_ariths)
  have nx: "read_fat f s (e_cur_clus e) = cs ! Suc ?i" using ch Suc.prems(1,2) lt by (simp add: chain_ok_def)
  have ok: "clus_ok f (cs ! Suc ?i)" using chain_clus [OF ch] Suc.prems(2) lt by simp
  let ?e = "e\<lparr>e_cur_clus := cs ! Suc ?i, e_clus_cnt := e_clus_cnt e + 1\<rparr>"
  have "reloc_back f s e n = reloc_back f s ?e n"
    using lt nx clus_ok_less_EOC [OF wf ok] by (subst reloc_back.simps) (simp add: Let_def not_le [symmetric])
  also have "\<dots> = Ok (?e\<lparr>e_cur_clus := cs ! unat n, e_clus_cnt := n\<rparr>)"
    by (rule Suc.hyps(1)) (use Suc lt u in \<open>auto simp: word_le_nat_alt\<close>)
  finally show ?case by simp
qed

lemma reloc_clus_in:
  assumes wf: "fat_wf f" and e: "entry_ok f s e cs" and off: "unat off div unat (byts_per_clus f) < length cs"
  shows "reloc_clus f s e off alloc = Ok (Some (off mod byts_per_clus f),
    e\<lparr>e_cur_clus := cs ! (unat off div unat (byts_per_clus f)), e_clus_cnt := off div byts_per_clus f\<rparr>, s)"
proof -
  let ?n = "off div byts_per_clus f"
  have n: "unat ?n = unat off div unat (byts_per_clus f)" by (simp add: unat_div)
  have ch: "chain_ok f s cs" and cur: "e_cur_clus e = cs ! unat (e_clus_cnt e)" and hd: "e_first_clus e = hd cs"
    using e by (simp_all add: entry_ok_def)
  show ?thesis
  proof (cases "e_clus_cnt e \<le> ?n")
    case True
    then have "reloc_fwd f s e ?n alloc = Ok (True, e\<lparr>e_cur_clus := cs ! unat ?n, e_clus_cnt := ?n\<rparr>, s)"
      using reloc_fwd_in [OF wf ch cur] off n by simp
    then show ?thesis by (simp add: reloc_clus_def Let_def n)
  next
    case False
    let ?e0 = "e\<lparr>e_cur_clus := e_first_clus e, e_clus_cnt := 0\<rparr>"
    have "\<not> e_clus_cnt e < ?n" using False by (meson order_less_imp_le)
    then have f: "reloc_fwd f s e ?n alloc = Ok (True, e, s)" by (subst reloc_fwd.simps) simp
    have "e_cur_clus ?e0 = cs ! unat (e_clus_cnt ?e0)" using hd ch by (simp add: chain_ok_def hd_conv_nth)
    then have "reloc_back f s ?e0 ?n = Ok (?e0\<lparr>e_cur_clus := cs ! unat ?n, e_clus_cnt := ?n\<rparr>)"
      by (rule reloc_back_in [OF wf ch]) (use off n in simp_all)
    then show ?thesis using f False by (simp add: reloc_clus_def Let_def n not_le)
  qed
qed

section \<open>Reading\<close>

lemma take_take_drop: "c \<le> r \<Longrightarrow> take c xs @ take (r - c) (drop c xs) = take r xs"
  by (metis le_add_diff_inverse take_add)

lemma concat_chunk:
  assumes "\<And>x. x \<in> set xs \<Longrightarrow> length x = B" and "q < length xs" and "r + c \<le> B"
  shows "take c (drop (q * B + r) (concat xs)) = take c (drop r (xs ! q))"
  using assms
proof (induction xs arbitrary: q)
  case (Cons x xs)
  have x: "length x = B" using Cons.prems(1) by simp
  show ?case
  proof (cases q)
    case 0
    then show ?thesis using x Cons.prems(3) by simp
  next
    case (Suc p)
    have "q * B + r - length x = p * B + r" using Suc x by simp
    moreover have "length x \<le> q * B + r" using Suc x by simp
    ultimately have "drop (q * B + r) (concat (x # xs)) = drop (p * B + r) (concat xs)" by simp
    then show ?thesis using Cons.IH [of p] Cons.prems Suc by simp
  qed
qed simp

lemma concat_put:
  assumes "\<And>x. x \<in> set xs \<Longrightarrow> length x = B" and "q < length xs" and "r + length b \<le> B"
  shows "concat (xs[q := put_bytes (xs ! q) r b]) = put_bytes (concat xs) (q * B + r) b"
  using assms
proof (induction xs arbitrary: q)
  case (Cons x xs)
  have x: "length x = B" using Cons.prems(1) by simp
  show ?case
  proof (cases q)
    case 0
    then show ?thesis using x Cons.prems(3) put_bytes_split2 [of r b x] by simp
  next
    case (Suc p)
    have e: "q * B + r = length x + (p * B + r)" using Suc x by simp
    have "put_bytes (concat (x # xs)) (q * B + r) b = x @ put_bytes (concat xs) (p * B + r) b"
      unfolding e using put_bytes_shift [of x "concat xs" "p * B + r" b] by (simp only: concat.simps)
    then show ?thesis using Cons.IH [of p] Cons.prems Suc by simp
  qed
qed simp

lemma file_blocks: "fat_wf f \<Longrightarrow> blk_wf s \<Longrightarrow> x \<in> set (map (clus_bytes f s) cs) \<Longrightarrow> length x = unat (byts_per_clus f)"
  using length_clus_bytes unat_bpc by auto

lemma length_file_bytes: "fat_wf f \<Longrightarrow> blk_wf s \<Longrightarrow> length (file_bytes f s cs) = length cs * unat (byts_per_clus f)"
  by (induction cs) (simp_all add: file_bytes_def length_clus_bytes unat_bpc)

definition moved :: "dirent \<Rightarrow> dirent \<Rightarrow> bool" where
  "moved e e' \<longleftrightarrow> (\<exists>c k. e' = e\<lparr>e_cur_clus := c, e_clus_cnt := k\<rparr>)"

lemma moved_refl [simp]: "moved e e"
  unfolding moved_def by (metis dirent.surjective dirent.update_convs(5,6))

lemma moved_trans: "moved e1 e2 \<Longrightarrow> moved e2 e3 \<Longrightarrow> moved e1 e3"
  unfolding moved_def by clarsimp blast

lemma moved_fields: "moved e e' \<Longrightarrow> e_file_size e' = e_file_size e \<and> e_first_clus e' = e_first_clus e \<and> e_attribute e' = e_attribute e"
  by (auto simp: moved_def)

lemma entry_ok_moved:
  assumes "entry_ok f s e cs" and "unat k < length cs"
  shows "entry_ok f s (e\<lparr>e_cur_clus := cs ! unat k, e_clus_cnt := k\<rparr>) cs"
  using assms by (simp add: entry_ok_def)

text \<open>One piece of a transfer inside the chain.\<close>

lemma cluster_piece:
  fixes off n tot :: u32
  assumes wf: "fat_wf f" and t: "tot < n" and le: "unat off + (unat n - unat tot) \<le> L * unat (byts_per_clus f)"
    and no: "unat off + (unat n - unat tot) < 2 ^ 32"
  defines "c \<equiv> chunk n tot (byts_per_clus f - off mod byts_per_clus f)" and "B \<equiv> unat (byts_per_clus f)"
  shows "unat off div B < L" and "unat (off mod byts_per_clus f) + unat c \<le> B" and "0 < unat c" and "unat c \<le> unat n - unat tot"
    and "unat (tot + c) = unat tot + unat c" and "tot + c \<le> n" and "unat (off + c) = unat off + unat c"
    and "unat n - unat (tot + c) = unat n - unat tot - unat c"
    and "unat c < unat n - unat tot \<Longrightarrow> unat (off + c) = (unat off div B + 1) * B"
proof -
  have B: "0 < B" using bpc_pos [OF wf] by (simp add: B_def word_less_nat_alt)
  have tn: "unat tot < unat n" using t by (simp add: word_less_nat_alt)
  have "unat off < L * B" using le tn by (simp add: B_def)
  then show "unat off div B < L" using B by (simp add: div_less_iff_less_mult)
  have ml: "off mod byts_per_clus f < byts_per_clus f" using bpc_pos [OF wf] by (simp add: word_less_nat_alt unat_mod)
  have room: "unat (byts_per_clus f - off mod byts_per_clus f) = B - unat off mod B"
    using unat_sub [OF order_less_imp_le [OF ml]] by (simp add: B_def unat_mod)
  have modl: "unat off mod B < B" using B by simp
  have rpos: "0 < byts_per_clus f - off mod byts_per_clus f" using room modl by (simp add: word_less_nat_alt)
  note ch = chunk_less [OF t rpos, folded c_def]
  have c: "unat c = min (unat n - unat tot) (B - unat off mod B)" using ch(5) room by simp
  show "unat (off mod byts_per_clus f) + unat c \<le> B" using c modl by (simp add: unat_mod B_def)
  show "0 < unat c" using ch(3) by (simp add: word_less_nat_alt)
  show cle: "unat c \<le> unat n - unat tot" using c by linarith
  show "unat (tot + c) = unat tot + unat c" "tot + c \<le> n" by (rule ch)+
  then show "unat n - unat (tot + c) = unat n - unat tot - unat c" by simp
  show off: "unat (off + c) = unat off + unat c" using no cle by (simp add: unat_word_ariths)
  assume "unat c < unat n - unat tot"
  then have "unat c = B - unat off mod B" using c by linarith
  moreover obtain q r where "unat off = B * q + r" "r < B" "unat off div B = q" "unat off mod B = r"
    using mult_div_mod_eq [of B "unat off"] modl by metis
  ultimately show "unat (off + c) = (unat off div B + 1) * B" using off by (simp add: algebra_simps)
qed

context byte_copy
begin

lemma eread_loop_ok:
  assumes wf: "fat_wf f" "blk_wf s"
  shows "entry_ok f s e cs \<Longrightarrow> unat off + (unat n - unat tot) \<le> length cs * unat (byts_per_clus f) \<Longrightarrow>
    unat off + (unat n - unat tot) < 2 ^ 32 \<Longrightarrow> tot \<le> n \<Longrightarrow> unat n - unat tot < k \<Longrightarrow>
    \<exists>e'. eread_loop k io f s m e dst off n tot = Ok (n, e', s, wr m dst (take (unat n - unat tot) (drop (unat off) (file_bytes f s cs)))) \<and>
      entry_ok f s e' cs \<and> moved e e'"
proof (induction k arbitrary: m e dst off tot)
  case (Suc k)
  have ch: "chain_ok f s cs" and cnt: "unat (e_clus_cnt e) < length cs" using Suc.prems(1) by (simp_all add: entry_ok_def)
  have "clus_ok f (e_cur_clus e)" using chain_clus [OF ch cnt] Suc.prems(1) by (simp add: entry_ok_def)
  then have cur: "e_cur_clus e < FAT32_EOC" by (rule clus_ok_less_EOC [OF wf(1)])
  show ?case
  proof (cases "tot < n")
    case False
    then have "tot = n" using Suc.prems(4) by simp
    then show ?thesis using Suc.prems(1) moved_refl [of e] by simp
  next
    case t: True
    let ?B = "unat (byts_per_clus f)" and ?b = "byts_per_clus f" and ?F = "file_bytes f s cs"
    let ?c = "chunk n tot (byts_per_clus f - off mod byts_per_clus f)" and ?q = "unat off div unat (byts_per_clus f)"
    note p = cluster_piece [OF wf(1) t Suc.prems(2,3)]
    let ?e = "e\<lparr>e_cur_clus := cs ! ?q, e_clus_cnt := off div ?b\<rparr>"
    have e1: "entry_ok f s ?e cs" using entry_ok_moved [OF Suc.prems(1), of "off div ?b"] p(1) by (simp add: unat_div)
    have r: "reloc_clus f s e off False = Ok (Some (off mod ?b), ?e, s)" by (rule reloc_clus_in [OF wf(1) Suc.prems(1) p(1)])
    have io: "rw_clus io f s m (cs ! ?q) False dst (off mod ?b) ?c = Ok (?c, s, wr m dst (take (unat ?c) (drop (unat (off mod ?b)) (clus_bytes f s (cs ! ?q)))))"
      by (rule rw_clus_read [OF wf p(2)])
    have dat: "take (unat ?c) (drop (unat (off mod ?b)) (clus_bytes f s (cs ! ?q))) = take (unat ?c) (drop (unat off) ?F)"
      using concat_chunk [of "map (clus_bytes f s) cs" ?B ?q "unat off mod ?B" "unat ?c"] file_blocks [OF wf] p(1,2)
      by (simp add: file_bytes_def unat_mod)
    let ?m = "wr m dst (take (unat ?c) (drop (unat off) ?F))"
    have le: "unat (off + ?c) + (unat n - unat (tot + ?c)) = unat off + (unat n - unat tot)" using p(4,7,8) by simp
    have i1: "unat (off + ?c) + (unat n - unat (tot + ?c)) \<le> length cs * ?B" unfolding le by (rule Suc.prems(2))
    have i2: "unat (off + ?c) + (unat n - unat (tot + ?c)) < 2 ^ 32" unfolding le by (rule Suc.prems(3))
    have i5: "unat n - unat (tot + ?c) < k" using Suc.prems(5) p(3,4,8) by linarith
    obtain e' where e': "eread_loop k io f s ?m ?e (dst + ucast ?c) (off + ?c) n (tot + ?c) =
        Ok (n, e', s, wr ?m (dst + ucast ?c) (take (unat n - unat (tot + ?c)) (drop (unat (off + ?c)) ?F)))"
        "entry_ok f s e' cs" "moved ?e e'"
      using Suc.IH [OF e1 i1 i2 p(6) i5] by blast
    have lc: "length (take (unat ?c) (drop (unat off) ?F)) = unat ?c"
      using length_file_bytes [OF wf, of cs] Suc.prems(2) p(4) by simp
    have "wr ?m (dst + ucast ?c) (take (unat n - unat (tot + ?c)) (drop (unat (off + ?c)) ?F)) =
        wr m dst (take (unat n - unat tot) (drop (unat off) ?F))"
    proof -
      have "(ucast ?c :: u64) = of_nat (unat ?c)" by simp
      then have "wr ?m (dst + ucast ?c) ys = wr m dst (take (unat ?c) (drop (unat off) ?F) @ ys)" for ys
        using wr_append [of m dst "take (unat ?c) (drop (unat off) ?F)" ys] lc by simp
      moreover have "take (unat ?c) (drop (unat off) ?F) @ take (unat n - unat tot - unat ?c) (drop (unat off + unat ?c) ?F) =
          take (unat n - unat tot) (drop (unat off) ?F)"
        using take_take_drop [OF p(4), of "drop (unat off) ?F"] by (simp add: add.commute)
      ultimately show ?thesis using p(7,8) by simp
    qed
    moreover have "moved e ?e" unfolding moved_def by blast
    ultimately show ?thesis using e' r io dat cur t moved_trans by (auto simp: Let_def)
  qed
qed simp

lemma eread_ok:
  assumes wf: "fat_wf f" "blk_wf s" and e: "entry_ok f s e cs" and fl: "e_attribute e AND ATTR_DIRECTORY = 0"
    and off: "unat off \<le> unat (e_file_size e)" "unat off + unat n < 2 ^ 32"
  defines "k \<equiv> min (unat n) (unat (e_file_size e) - unat off)"
  shows "\<exists>e'. eread io f s m e dst off n =
      Ok (of_nat k, e', s, wr m dst (take (unat n) (drop (unat off) (take (unat (e_file_size e)) (file_bytes f s cs))))) \<and>
    entry_ok f s e' cs \<and> moved e e'"
proof -
  let ?n1 = "if e_file_size e < off + n then e_file_size e - off else n"
  have sum: "unat (off + n) = unat off + unat n" using off(2) by (simp add: unat_word_ariths)
  have n1: "unat ?n1 = k"
    using unat_sub [of off "e_file_size e"] off(1) sum by (auto simp: k_def word_less_nat_alt word_le_nat_alt)
  have lim: "unat (e_file_size e) \<le> length cs * unat (byts_per_clus f)" using e by (simp add: entry_ok_def)
  have kle: "k \<le> unat (e_file_size e) - unat off" "k \<le> unat n" by (simp_all add: k_def)
  have b1: "unat off + (unat ?n1 - unat (0::u32)) \<le> length cs * unat (byts_per_clus f)" unfolding n1 using lim off(1) kle by simp
  have b2: "unat off + (unat ?n1 - unat (0::u32)) < 2 ^ 32" unfolding n1 using off(2) kle by simp
  have "\<not> e_file_size e < off" "\<not> off + n < off" using off sum by (simp_all add: word_less_nat_alt)
  then have "eread io f s m e dst off n = eread_loop (Suc (unat ?n1)) io f s m e dst off ?n1 0"
    using fl by (simp add: eread_def Let_def)
  moreover have "take (unat n) (drop (unat off) (take (unat (e_file_size e)) F)) = take k (drop (unat off) F)" for F :: bytes
    by (simp add: drop_take k_def min.commute)
  moreover have "?n1 = of_nat k"
  proof -
    have "?n1 = of_nat (unat ?n1)" by simp
    then show ?thesis unfolding n1 .
  qed
  ultimately show ?thesis using eread_loop_ok [OF wf e b1 b2, of "Suc (unat ?n1)" m dst] n1 by auto
qed

end

section \<open>Growing a chain\<close>

definition nfree :: "fat \<Rightarrow> blk \<Rightarrow> nat" where
  "nfree f s = card {c. clus_ok f c \<and> read_fat f s c = 0}"

text \<open>What an operation on the file with chain \<open>cs\<close> leaves alone: the entries and clusters in use elsewhere.\<close>

definition keeps :: "fat \<Rightarrow> u32 list \<Rightarrow> blk \<Rightarrow> u32 list \<Rightarrow> blk \<Rightarrow> bool" where
  "keeps f cs s cs' s' \<longleftrightarrow> blk_wf s' \<and> (blk_synced s \<longrightarrow> blk_synced s') \<and>
     (\<forall>x. x \<notin> set cs \<and> read_fat f s x \<noteq> 0 \<longrightarrow>
        x \<notin> set cs' \<and> read_fat f s' x = read_fat f s x \<and> (clus_ok f x \<longrightarrow> clus_bytes f s' x = clus_bytes f s x))"

lemma keeps_refl: "blk_wf s \<Longrightarrow> keeps f cs s cs s"
  by (simp add: keeps_def)

lemma keeps_trans: "keeps f cs s cs1 s1 \<Longrightarrow> keeps f cs1 s1 cs2 s2 \<Longrightarrow> keeps f cs s cs2 s2"
  unfolding keeps_def by metis

lemma keeps_frame: "clus_frame f c s s' \<Longrightarrow> c \<in> set cs \<Longrightarrow> keeps f cs s cs s'"
  unfolding keeps_def clus_frame_def by blast

lemma keeps_reserved:
  assumes "fat_wf f" "keeps f cs s cs' s'" "fat_reserved f s" "\<forall>c \<in> set cs. clus_ok f c"
  shows "fat_reserved f s'"
proof -
  have "0 \<notin> set cs" "1 \<notin> set cs" using assms(4) by (auto simp: clus_ok_def)
  with assms(2,3) show ?thesis unfolding fat_reserved_read [OF assms(1)] keeps_def by metis
qed

lemma chain_nonzero:
  assumes "fat_wf f" "chain_ok f s cs" "c \<in> set cs"
  shows "read_fat f s c \<noteq> 0"
proof -
  obtain i where i: "i < length cs" "c = cs ! i" using assms(3) by (auto simp: in_set_conv_nth)
  show ?thesis
  proof (cases "Suc i < length cs")
    case True
    then have "read_fat f s c = cs ! Suc i" "clus_ok f (cs ! Suc i)" using assms(2) i by (auto simp: chain_ok_def)
    then show ?thesis by (auto simp: clus_ok_def)
  next
    case False
    then have "i = length cs - 1" using i by simp
    then have "c = List.last cs" using i(2) assms(2) by (simp add: last_conv_nth chain_ok_def)
    then show ?thesis using assms(2) by (auto simp: chain_ok_def)
  qed
qed

lemma finite_clus: "finite {c. P c}" for P :: "u32 \<Rightarrow> bool"
  by (rule finite_subset [OF subset_UNIV finite_class.finite_UNIV])

lemma nfree_alloc:
  assumes "clus_ok f c" "read_fat f s c = 0" and "\<And>x. read_fat f s' x = 0 \<longleftrightarrow> x \<noteq> c \<and> read_fat f s x = 0"
  shows "nfree f s' = nfree f s - 1" and "0 < nfree f s"
proof -
  have e: "{x. clus_ok f x \<and> read_fat f s' x = 0} = {x. clus_ok f x \<and> read_fat f s x = 0} - {c}" using assms(3) by auto
  have c: "c \<in> {x. clus_ok f x \<and> read_fat f s x = 0}" using assms(1,2) by simp
  show "nfree f s' = nfree f s - 1" unfolding nfree_def e using c finite_clus by (simp add: card_Diff_singleton)
  show "0 < nfree f s" unfolding nfree_def using c finite_clus by (metis card_gt_0_iff empty_iff)
qed

lemma nfree_pos: "0 < nfree f s \<Longrightarrow> \<exists>c. clus_ok f c \<and> read_fat f s c = 0"
  unfolding nfree_def using card_gt_0_iff [of "{c. clus_ok f c \<and> read_fat f s c = 0}"] by auto

text \<open>Appending a fresh cluster behind the last one.\<close>

lemma extend_chain:
  assumes wf: "fat_wf f" "blk_wf s" and ch: "chain_ok f s cs" and a: "alloc_post f s c s1"
  shows "\<exists>s'. write_fat f s1 (List.last cs) c = (0, s') \<and> chain_ok f s' (cs @ [c]) \<and> keeps f cs s (cs @ [c]) s' \<and>
    file_bytes f s' (cs @ [c]) = file_bytes f s cs @ replicate (unat (byts_per_clus f)) 0 \<and> nfree f s' = nfree f s - 1"
proof -
  let ?l = "List.last cs"
  have ok: "clus_ok f c" and z: "read_fat f s c = 0" and wf1: "blk_wf s1" and sy1: "blk_synced s \<longrightarrow> blk_synced s1"
    and r1: "\<And>x. read_fat f s1 x = (if x = c then 0x0fffffff else read_fat f s x)"
    and z1: "clus_bytes f s1 c = replicate (unat (byts_per_clus f)) 0"
    and o1: "\<And>x. clus_ok f x \<Longrightarrow> x \<noteq> c \<Longrightarrow> clus_bytes f s1 x = clus_bytes f s x"
    using a by (auto simp: alloc_post_def)
  have cne: "cs \<noteq> []" and dis: "distinct cs" and oks: "\<And>x. x \<in> set cs \<Longrightarrow> clus_ok f x" using ch by (auto simp: chain_ok_def)
  have l: "?l \<in> set cs" using cne by simp
  have nz: "read_fat f s x \<noteq> 0" if "x \<in> set cs" for x by (rule chain_nonzero [OF wf(1) ch that])
  have cn: "c \<notin> set cs" using nz z by blast
  have rg: "unat ?l \<le> unat (data_clus_cnt f) + 1" using oks [OF l] by (simp add: clus_ok_def)
  obtain s' where s': "write_fat f s1 ?l c = (0, s')" "blk_wf s'" "blk_synced s1 \<Longrightarrow> blk_synced s'"
      "\<And>x. read_fat f s' x = (if x = ?l then c else read_fat f s1 x)"
      "\<And>sec. unat (first_data_sec f) \<le> unat sec \<Longrightarrow> bl_cache s' sec = bl_cache s1 sec"
    using write_fat_ok [OF wf(1) wf1 rg, of c] by blast
  have cb: "clus_bytes f s' x = clus_bytes f s1 x" if "clus_ok f x" for x by (rule clus_bytes_data [OF wf(1) that s'(5)])
  have rd: "read_fat f s' x = (if x = ?l then c else if x = c then 0x0fffffff else read_fat f s x)" for x using s'(4) r1 by simp
  have chn: "chain_ok f s' (cs @ [c])"
    unfolding chain_ok_def
  proof (intro conjI allI impI)
    fix i assume i: "Suc i < length (cs @ [c])"
    show "read_fat f s' ((cs @ [c]) ! i) = (cs @ [c]) ! Suc i"
    proof (cases "Suc i < length cs")
      case True
      have "cs ! i \<noteq> ?l" using True dis cne by (simp add: last_conv_nth nth_eq_iff_index_eq)
      moreover have "cs ! i \<noteq> c" using True cn by (metis Suc_lessD nth_mem)
      ultimately show ?thesis using rd True ch by (simp add: nth_append chain_ok_def)
    next
      case False
      then have "i = length cs - 1" using i by simp
      then show ?thesis using rd cne i by (simp add: nth_append last_conv_nth)
    qed
  next
    have "c \<noteq> ?l" using cn l by auto
    then show "FAT32_EOC \<le> read_fat f s' (List.last (cs @ [c]))" "read_fat f s' (List.last (cs @ [c])) < 0x80000000" using rd by simp_all
  qed (use dis cn ok oks in auto)
  have "file_bytes f s' cs = file_bytes f s cs"
    unfolding file_bytes_def using cb o1 oks cn by (intro arg_cong [of _ _ concat] map_cong refl) metis
  moreover have "clus_bytes f s' c = replicate (unat (byts_per_clus f)) 0" using cb [OF ok] z1 by simp
  ultimately have fb: "file_bytes f s' (cs @ [c]) = file_bytes f s cs @ replicate (unat (byts_per_clus f)) 0"
    by (simp add: file_bytes_def)
  have kp: "keeps f cs s (cs @ [c]) s'"
    unfolding keeps_def
  proof (intro conjI allI impI)
    fix x assume x: "x \<notin> set cs \<and> read_fat f s x \<noteq> 0"
    then have xc: "x \<noteq> c" "x \<noteq> ?l" using z l by auto
    show "x \<notin> set (cs @ [c])" using x xc by simp
    show "read_fat f s' x = read_fat f s x" using rd xc by simp
    show "clus_bytes f s' x = clus_bytes f s x" if "clus_ok f x" using cb [OF that] o1 [OF that xc(1)] by simp
  qed (use s'(2,3) sy1 in auto)
  have "read_fat f s' x = 0 \<longleftrightarrow> x \<noteq> c \<and> read_fat f s x = 0" for x
    using rd nz [OF l] ok cn l by (auto simp: clus_ok_def)
  from nfree_alloc(1) [OF ok z this] s'(1) chn kp fb show ?thesis by blast
qed

lemma reloc_fwd_extend:
  assumes wf: "fat_wf f" "blk_wf s" and ch: "chain_ok f s cs" and a: "alloc_clus f s = Ok (c, s1)" "alloc_post f s c s1"
    and w: "write_fat f s1 (List.last cs) c = (0, s')" and n: "unat n = length cs"
  shows "e_cur_clus e = cs ! unat (e_clus_cnt e) \<Longrightarrow> unat (e_clus_cnt e) < length cs \<Longrightarrow>
    reloc_fwd f s e n True = Ok (True, e\<lparr>e_cur_clus := c, e_clus_cnt := n\<rparr>, s')"
proof (induction "length cs - unat (e_clus_cnt e)" arbitrary: e)
  case 0
  then show ?case by simp
next
  case (Suc k)
  let ?i = "unat (e_clus_cnt e)"
  have lt: "e_clus_cnt e < n" using Suc.prems(2) n by (simp add: word_less_nat_alt)
  have u: "unat (e_clus_cnt e + 1) = Suc ?i" using Suc.prems(2) n unat_lt32 [of n] by (simp add: unat_word_ariths)
  show ?case
  proof (cases "Suc ?i < length cs")
    case True
    have nx: "read_fat f s (e_cur_clus e) = cs ! Suc ?i" using ch Suc.prems(1) True by (simp add: chain_ok_def)
    have ok: "clus_ok f (cs ! Suc ?i)" using chain_clus [OF ch True] .
    let ?e = "e\<lparr>e_cur_clus := cs ! Suc ?i, e_clus_cnt := e_clus_cnt e + 1\<rparr>"
    have "reloc_fwd f s e n True = reloc_fwd f s ?e n True"
      using lt nx clus_not_eoc [OF wf(1) ok] by (subst reloc_fwd.simps) (simp add: Let_def)
    also have "\<dots> = Ok (True, ?e\<lparr>e_cur_clus := c, e_clus_cnt := n\<rparr>, s')"
      by (rule Suc.hyps(1)) (use Suc(2) u True in auto)
    finally show ?thesis by simp
  next
    case False
    then have "e_cur_clus e = List.last cs" using Suc.prems ch by (metis Suc_lessI diff_Suc_1 last_conv_nth chain_ok_def)
    then have "sint FAT32_EOC \<le> sint (read_fat f s (e_cur_clus e))" using eoc_signed ch by (simp add: chain_ok_def)
    then have "reloc_fwd f s e n True = reloc_fwd f s' (e\<lparr>e_cur_clus := c, e_clus_cnt := e_clus_cnt e + 1\<rparr>) n True"
      using lt a(1) w \<open>e_cur_clus e = List.last cs\<close> by (subst reloc_fwd.simps) (simp add: Let_def)
    moreover have "e_clus_cnt e + 1 = n" using u n False Suc.prems(2) by (simp add: word_unat_eq_iff)
    moreover have "reloc_fwd f s' (e\<lparr>e_cur_clus := c, e_clus_cnt := n\<rparr>) n True = Ok (True, e\<lparr>e_cur_clus := c, e_clus_cnt := n\<rparr>, s')"
      by (subst reloc_fwd.simps) simp
    ultimately show ?thesis by simp
  qed
qed

lemma reloc_clus_extend:
  assumes wf: "fat_wf f" "blk_wf s" and e: "entry_ok f s e cs" and off: "unat off div unat (byts_per_clus f) = length cs"
    and res: "fat_reserved f s" and fr: "0 < nfree f s"
  shows "\<exists>c s'. reloc_clus f s e off True = Ok (Some (off mod byts_per_clus f), e\<lparr>e_cur_clus := c, e_clus_cnt := off div byts_per_clus f\<rparr>, s') \<and>
    entry_ok f s' (e\<lparr>e_cur_clus := c, e_clus_cnt := off div byts_per_clus f\<rparr>) (cs @ [c]) \<and> keeps f cs s (cs @ [c]) s' \<and>
    file_bytes f s' (cs @ [c]) = file_bytes f s cs @ replicate (unat (byts_per_clus f)) 0 \<and> nfree f s' = nfree f s - 1"
proof -
  let ?n = "off div byts_per_clus f"
  have n: "unat ?n = length cs" using off by (simp add: unat_div)
  have ch: "chain_ok f s cs" and cur: "e_cur_clus e = cs ! unat (e_clus_cnt e)" "unat (e_clus_cnt e) < length cs"
    and sz: "unat (e_file_size e) \<le> length cs * unat (byts_per_clus f)" and hd: "e_first_clus e = hd cs"
    using e by (auto simp: entry_ok_def)
  obtain c0 where "clus_ok f c0" "read_fat f s c0 = 0" using nfree_pos [OF fr] by blast
  then obtain c s1 where a: "alloc_clus f s = Ok (c, s1)" "alloc_post f s c s1" using alloc_clus_ok [OF wf res] by blast
  obtain s' where s': "write_fat f s1 (List.last cs) c = (0, s')" "chain_ok f s' (cs @ [c])" "keeps f cs s (cs @ [c]) s'"
      "file_bytes f s' (cs @ [c]) = file_bytes f s cs @ replicate (unat (byts_per_clus f)) 0" "nfree f s' = nfree f s - 1"
    using extend_chain [OF wf ch a(2)] by blast
  let ?e = "e\<lparr>e_cur_clus := c, e_clus_cnt := ?n\<rparr>"
  have "reloc_fwd f s e ?n True = Ok (True, ?e, s')" by (rule reloc_fwd_extend [OF wf ch a s'(1) n cur])
  then have "reloc_clus f s e off True = Ok (Some (off mod byts_per_clus f), ?e, s')" by (simp add: reloc_clus_def Let_def)
  moreover have "entry_ok f s' ?e (cs @ [c])"
    using s'(2) hd n sz ch by (auto simp: entry_ok_def chain_ok_def nth_append)
  ultimately show ?thesis using s' by blast
qed

section \<open>Writing\<close>

lemma put_put:
  assumes "o1 + length b1 \<le> length X"
  shows "put_bytes (put_bytes X o1 b1 @ Z) (o1 + length b1) b2 = put_bytes (X @ Z) o1 (b1 @ b2)"
proof -
  have "length (take o1 X) = o1" using assms by simp
  then have "put_bytes X o1 b1 @ Z = (take o1 X @ b1) @ (drop (o1 + length b1) X @ Z)" "length (take o1 X @ b1) = o1 + length b1"
    by (simp_all add: put_bytes_def)
  then have "put_bytes (put_bytes X o1 b1 @ Z) (o1 + length b1) b2 = (take o1 X @ b1) @ put_bytes (drop (o1 + length b1) X @ Z) 0 b2"
    using put_bytes_shift [of "take o1 X @ b1" "drop (o1 + length b1) X @ Z" 0 b2] by simp
  also have "\<dots> = take o1 (X @ Z) @ (b1 @ b2) @ drop (o1 + length (b1 @ b2)) (X @ Z)"
    using assms by (simp add: put_bytes_def add.commute add.left_commute)
  finally show ?thesis by (simp add: put_bytes_def)
qed

lemma put_take:
  assumes "sz \<le> length F" and "o1 \<le> sz"
  shows "take (max sz (o1 + length b)) (put_bytes (F @ Z) o1 b) = take o1 (take sz F) @ b @ drop (o1 + length b) (take sz F)"
proof -
  have l: "length (take o1 (F @ Z)) = o1" "take o1 (F @ Z) = take o1 F" using assms by simp_all
  show ?thesis
  proof (cases "sz \<le> o1 + length b")
    case True
    then have m: "max sz (o1 + length b) = o1 + length b" by simp
    have "length (take o1 F @ b) = o1 + length b" using assms by simp
    then have "take (o1 + length b) (take o1 F @ b @ R) = take o1 F @ b" for R
      by (metis append.assoc append_eq_conv_conj)
    then show ?thesis unfolding m put_bytes_def l(2) using True assms by simp
  next
    case False
    then have m: "max sz (o1 + length b) = sz" by simp
    have "take sz (take o1 F @ b @ R) = take o1 F @ b @ take (sz - (o1 + length b)) R" for R
      using assms False by (simp add: min_def)
    moreover have "take (sz - (o1 + length b)) (drop (o1 + length b) (F @ Z)) = drop (o1 + length b) (take sz F)"
      using assms False by (simp add: drop_take)
    ultimately show ?thesis unfolding m put_bytes_def l(2) using assms by simp
  qed
qed

lemma write_in_chain:
  assumes wf: "fat_wf f" "blk_wf s" and ch: "chain_ok f s cs" and q: "q < length cs" and fr: "clus_frame f (cs ! q) s s'"
    and cb: "clus_bytes f s' (cs ! q) = put_bytes (clus_bytes f s (cs ! q)) r b" and r: "r + length b \<le> unat (byts_per_clus f)"
  shows "file_bytes f s' cs = put_bytes (file_bytes f s cs) (q * unat (byts_per_clus f) + r) b" and "chain_ok f s' cs" and "nfree f s' = nfree f s"
proof -
  have rd: "read_fat f s' x = read_fat f s x" for x using fr by (simp add: clus_frame_def)
  have "map (clus_bytes f s') cs = (map (clus_bytes f s) cs)[q := put_bytes (map (clus_bytes f s) cs ! q) r b]"
  proof (rule nth_equalityI)
    fix i assume "i < length (map (clus_bytes f s') cs)"
    then have i: "i < length cs" by simp
    show "map (clus_bytes f s') cs ! i = (map (clus_bytes f s) cs)[q := put_bytes (map (clus_bytes f s) cs ! q) r b] ! i"
    proof (cases "i = q")
      case False
      have "cs ! i \<noteq> cs ! q" using False i q ch by (simp add: chain_ok_def nth_eq_iff_index_eq)
      with fr chain_clus [OF ch i] i False show ?thesis by (simp add: clus_frame_def)
    qed (use i q cb in simp)
  qed simp
  then show "file_bytes f s' cs = put_bytes (file_bytes f s cs) (q * unat (byts_per_clus f) + r) b"
    unfolding file_bytes_def using concat_put [of "map (clus_bytes f s) cs" "unat (byts_per_clus f)" q r b] file_blocks [OF wf] q r by simp
  show "chain_ok f s' cs" using ch unfolding chain_ok_def rd .
  show "nfree f s' = nfree f s" unfolding nfree_def rd ..
qed

text \<open>Positioning for a write: inside the chain, or behind its end with one fresh cluster.\<close>

lemma reloc_for_write:
  assumes wf: "fat_wf f" "blk_wf s" and e: "entry_ok f s e cs" and res: "fat_reserved f s"
    and off: "unat off \<le> length cs * unat (byts_per_clus f)" and room: "unat off < (length cs + nfree f s) * unat (byts_per_clus f)"
  shows "\<exists>x e1 s1. reloc_clus f s e off True = Ok (Some (off mod byts_per_clus f), e1, s1) \<and> entry_ok f s1 e1 (cs @ x) \<and>
    keeps f cs s (cs @ x) s1 \<and> moved e e1 \<and> unat off div unat (byts_per_clus f) < length (cs @ x) \<and>
    e_cur_clus e1 = (cs @ x) ! (unat off div unat (byts_per_clus f)) \<and> length (cs @ x) + nfree f s1 = length cs + nfree f s \<and>
    file_bytes f s1 (cs @ x) = file_bytes f s cs @ replicate (length x * unat (byts_per_clus f)) 0"
proof (cases "unat off div unat (byts_per_clus f) < length cs")
  case True
  let ?q = "unat off div unat (byts_per_clus f)"
  let ?e = "e\<lparr>e_cur_clus := cs ! ?q, e_clus_cnt := off div byts_per_clus f\<rparr>"
  have "reloc_clus f s e off True = Ok (Some (off mod byts_per_clus f), ?e, s)" by (rule reloc_clus_in [OF wf(1) e True])
  moreover have "entry_ok f s ?e cs" using entry_ok_moved [OF e, of "off div byts_per_clus f"] True by (simp add: unat_div)
  moreover have "moved e ?e" unfolding moved_def by blast
  ultimately show ?thesis using True keeps_refl [OF wf(2)] by (intro exI [of _ "[]"] exI [of _ ?e] exI [of _ s]) simp
next
  case False
  have B: "0 < unat (byts_per_clus f)" using bpc_pos [OF wf(1)] by (simp add: word_less_nat_alt)
  then have q: "unat off div unat (byts_per_clus f) = length cs"
    using False off by (metis div_le_mono le_antisym nonzero_mult_div_cancel_right not_le less_irrefl)
  then have "length cs * unat (byts_per_clus f) \<le> unat off" using div_times_less_eq_dividend [of "unat off" "unat (byts_per_clus f)"] by simp
  then have "0 < nfree f s" using room by (cases "nfree f s") simp_all
  from reloc_clus_extend [OF wf e q res this] obtain c s1 where
    s1: "reloc_clus f s e off True = Ok (Some (off mod byts_per_clus f), e\<lparr>e_cur_clus := c, e_clus_cnt := off div byts_per_clus f\<rparr>, s1)"
      "entry_ok f s1 (e\<lparr>e_cur_clus := c, e_clus_cnt := off div byts_per_clus f\<rparr>) (cs @ [c])" "keeps f cs s (cs @ [c]) s1"
      "file_bytes f s1 (cs @ [c]) = file_bytes f s cs @ replicate (unat (byts_per_clus f)) 0" "nfree f s1 = nfree f s - 1" by blast
  have "moved e (e\<lparr>e_cur_clus := c, e_clus_cnt := off div byts_per_clus f\<rparr>)" unfolding moved_def by blast
  then show ?thesis using s1 q \<open>0 < nfree f s\<close>
    by (intro exI [of _ "[c]"] exI [of _ "e\<lparr>e_cur_clus := c, e_clus_cnt := off div byts_per_clus f\<rparr>"] exI [of _ s1]) simp
qed

context byte_copy
begin

lemma ewrite_loop_ok:
  assumes wf: "fat_wf f"
  shows "blk_wf s \<Longrightarrow> entry_ok f s e cs \<Longrightarrow> fat_reserved f s \<Longrightarrow> unat off \<le> length cs * unat (byts_per_clus f) \<Longrightarrow>
    unat off + (unat n - unat tot) \<le> (length cs + nfree f s) * unat (byts_per_clus f) \<Longrightarrow>
    unat off + (unat n - unat tot) < 2 ^ 32 \<Longrightarrow> tot \<le> n \<Longrightarrow> unat n - unat tot < k \<Longrightarrow>
    \<exists>e' s' ext. ewrite_loop k io f s m e src off n tot = Ok (n, off + (n - tot), e', s', m) \<and> entry_ok f s' e' (cs @ ext) \<and>
      keeps f cs s (cs @ ext) s' \<and> moved e e' \<and>
      file_bytes f s' (cs @ ext) = put_bytes (file_bytes f s cs @ replicate (length ext * unat (byts_per_clus f)) 0) (unat off) (rd m src (unat n - unat tot))"
proof (induction k arbitrary: s e cs src off tot)
  case (Suc k)
  show ?case
  proof (cases "tot < n")
    case False
    then have "tot = n" using Suc.prems(7) by simp
    then show ?thesis using Suc.prems(1,2) keeps_refl moved_refl
      by (intro exI [of _ e] exI [of _ s] exI [of _ "[]"]) simp
  next
    case t: True
    let ?B = "unat (byts_per_clus f)" and ?b = "byts_per_clus f" and ?r = "unat n - unat tot"
    let ?c = "chunk n tot (byts_per_clus f - off mod byts_per_clus f)" and ?q = "unat off div unat (byts_per_clus f)"
    note p = cluster_piece [OF wf t Suc.prems(5,6)]
    have "unat off < (length cs + nfree f s) * ?B" using Suc.prems(5) p(3,4) by linarith
    from reloc_for_write [OF wf Suc.prems(1-4) this] obtain x e1 s1 where
      r1: "reloc_clus f s e off True = Ok (Some (off mod ?b), e1, s1)" and e1: "entry_ok f s1 e1 (cs @ x)" and k1: "keeps f cs s (cs @ x) s1"
        and m1: "moved e e1" and q: "?q < length (cs @ x)" and cur: "e_cur_clus e1 = (cs @ x) ! ?q"
        and nf: "length (cs @ x) + nfree f s1 = length cs + nfree f s"
        and fb1: "file_bytes f s1 (cs @ x) = file_bytes f s cs @ replicate (length x * ?B) 0" by blast
    have wf1: "blk_wf s1" using k1 by (simp add: keeps_def)
    have ch1: "chain_ok f s1 (cs @ x)" using e1 by (simp add: entry_ok_def)
    obtain s2 where w: "rw_clus io f s1 m ((cs @ x) ! ?q) True src (off mod ?b) ?c = Ok (?c, s2, m)"
        "clus_frame f ((cs @ x) ! ?q) s1 s2"
        "clus_bytes f s2 ((cs @ x) ! ?q) = put_bytes (clus_bytes f s1 ((cs @ x) ! ?q)) (unat (off mod ?b)) (rd m src (unat ?c))"
      using rw_clus_write [OF wf wf1 chain_clus [OF ch1 q] p(2)] by blast
    have wf2: "blk_wf s2" using w(2) by (simp add: clus_frame_def)
    note ic = write_in_chain [OF wf wf1 ch1 q w(2,3)]
    have fb2: "file_bytes f s2 (cs @ x) = put_bytes (file_bytes f s1 (cs @ x)) (unat off) (rd m src (unat ?c))"
      using ic(1) p(2) by (simp add: unat_mod div_mult_mod_eq)
    have ch2: "chain_ok f s2 (cs @ x)" "nfree f s2 = nfree f s1" using ic(2,3) p(2) by simp_all
    have e2: "entry_ok f s2 e1 (cs @ x)" using e1 ch2 by (simp add: entry_ok_def)
    have k2: "keeps f cs s (cs @ x) s2" using keeps_trans [OF k1 keeps_frame [OF w(2)]] nth_mem [OF q] by simp
    have res2: "fat_reserved f s2" by (rule keeps_reserved [OF wf k2 Suc.prems(3)]) (use Suc.prems(2) in \<open>auto simp: entry_ok_def chain_ok_def\<close>)
    have le: "unat (off + ?c) + (unat n - unat (tot + ?c)) = unat off + ?r" using p(4,7,8) by simp
    have i4: "unat (off + ?c) \<le> length (cs @ x) * ?B"
    proof -
      have "unat off + unat ?c = ?q * ?B + (unat (off mod ?b) + unat ?c)" by (simp add: unat_mod)
      also have "\<dots> \<le> Suc ?q * ?B" using p(2) by simp
      also have "\<dots> \<le> length (cs @ x) * ?B" using q by (intro mult_le_mono1) simp
      finally show ?thesis using p(7) by simp
    qed
    have i5: "unat (off + ?c) + (unat n - unat (tot + ?c)) \<le> (length (cs @ x) + nfree f s2) * ?B"
      unfolding le ch2(2) nf by (rule Suc.prems(5))
    have i6: "unat (off + ?c) + (unat n - unat (tot + ?c)) < 2 ^ 32" unfolding le by (rule Suc.prems(6))
    have i8: "unat n - unat (tot + ?c) < k" using Suc.prems(8) p(3,4,8) by linarith
    obtain e' s' ext where f: "ewrite_loop k io f s2 m e1 (src + ucast ?c) (off + ?c) n (tot + ?c) = Ok (n, off + ?c + (n - (tot + ?c)), e', s', m)"
        "entry_ok f s' e' ((cs @ x) @ ext)" "keeps f (cs @ x) s2 ((cs @ x) @ ext) s'" "moved e1 e'"
        "file_bytes f s' ((cs @ x) @ ext) = put_bytes (file_bytes f s2 (cs @ x) @ replicate (length ext * ?B) 0) (unat (off + ?c)) (rd m (src + ucast ?c) (unat n - unat (tot + ?c)))"
      using Suc.IH [OF wf2 e2 res2 i4 i5 i6 p(6) i8] by blast
    have out: "ewrite_loop (Suc k) io f s m e src off n tot = Ok (n, off + (n - tot), e', s', m)"
      using t r1 w(1) cur f(1) by (simp add: Let_def algebra_simps)
    have rds: "rd m src ?r = rd m src (unat ?c) @ rd m (src + ucast ?c) (?r - unat ?c)"
      using rd_split [OF p(4), of m src] by simp
    have lb: "unat off + unat ?c \<le> length (file_bytes f s1 (cs @ x))"
      using length_file_bytes [OF wf wf1, of "cs @ x"] i4 p(7) by simp
    have "file_bytes f s' (cs @ (x @ ext)) =
        put_bytes (put_bytes (file_bytes f s1 (cs @ x)) (unat off) (rd m src (unat ?c)) @ replicate (length ext * ?B) 0)
          (unat off + unat ?c) (rd m (src + ucast ?c) (?r - unat ?c))"
      using f(5) fb2 p(7,8) by simp
    also have "\<dots> = put_bytes (file_bytes f s1 (cs @ x) @ replicate (length ext * ?B) 0) (unat off) (rd m src ?r)"
      unfolding rds using put_put [of "unat off" "rd m src (unat ?c)"] lb by simp
    also have "file_bytes f s1 (cs @ x) @ replicate (length ext * ?B) 0 = file_bytes f s cs @ replicate (length (x @ ext) * ?B) 0"
      using fb1 by (simp add: replicate_add [symmetric] algebra_simps)
    finally have fin: "file_bytes f s' (cs @ (x @ ext)) = put_bytes (file_bytes f s cs @ replicate (length (x @ ext) * ?B) 0) (unat off) (rd m src ?r)" .
    have kk: "keeps f cs s (cs @ (x @ ext)) s'" using keeps_trans [OF k2 f(3)] by simp
    have mm: "moved e e'" by (rule moved_trans [OF m1 f(4)])
    have ee: "entry_ok f s' e' (cs @ (x @ ext))" using f(2) by simp
    show ?thesis using out ee kk mm fin by blast
  qed
qed simp
lemma unat_sum_words: "unat a + unat b < 2 ^ 32 \<Longrightarrow> (ucast (a :: u32) :: u64) + ucast (b :: u32) \<le> 0xffffffff"
proof -
  assume a: "unat a + unat b < 2 ^ 32"
  then have "unat ((ucast a :: u64) + ucast b) = unat a + unat b" by (simp add: unat_word_ariths)
  with a show ?thesis by (simp add: word_le_nat_alt)
qed

lemma ewrite_ok:
  assumes wf: "fat_wf f" "blk_wf s" and e: "entry_ok f s e cs \<or> cs = [] \<and> e_first_clus e = 0 \<and> e_file_size e = 0"
    and res: "fat_reserved f s" and rw: "e_attribute e AND ATTR_READ_ONLY = 0" and n: "0 < unat n" "unat n < 2 ^ 31"
    and off: "unat off \<le> unat (e_file_size e)" "unat off + unat n < 2 ^ 32"
    and room: "unat off + unat n \<le> (length cs + nfree f s) * unat (byts_per_clus f)"
  defines "C \<equiv> take (unat (e_file_size e)) (file_bytes f s cs)"
  shows "\<exists>e' s' ext. ewrite io f s m e src off n = Ok (int (unat n), e', s', m) \<and> entry_ok f s' e' (cs @ ext) \<and> keeps f cs s (cs @ ext) s' \<and>
    unat (e_file_size e') = max (unat (e_file_size e)) (unat off + unat n) \<and>
    take (unat (e_file_size e')) (file_bytes f s' (cs @ ext)) = take (unat off) C @ rd m src (unat n) @ drop (unat off + unat n) C"
proof -
  let ?B = "unat (byts_per_clus f)"
  let ?first = "if e_first_clus e = 0
      then rmap (\<lambda>(c, s1). (e\<lparr>e_cur_clus := c, e_first_clus := c, e_clus_cnt := 0, e_dirty := True\<rparr>, s1)) (alloc_clus f s) else Ok (e, s)"
  have sum: "unat (off + n) = unat off + unat n" using off(2) by (simp add: unat_word_ariths)
  obtain x e1 s1 where f1: "?first = Ok (e1, s1)" and e1: "entry_ok f s1 e1 (cs @ x)" and k1: "keeps f cs s (cs @ x) s1"
    and nf: "length (cs @ x) + nfree f s1 = length cs + nfree f s" and sz: "e_file_size e1 = e_file_size e"
    and fb: "file_bytes f s1 (cs @ x) = file_bytes f s cs @ replicate (length x * ?B) 0"
  proof (cases "entry_ok f s e cs")
    case True
    then have "clus_ok f (e_first_clus e)" by (auto simp: entry_ok_def chain_ok_def)
    then have "e_first_clus e \<noteq> 0" by (auto simp: clus_ok_def)
    then show ?thesis using that [of e s "[]"] True keeps_refl [OF wf(2)] by simp
  next
    case False
    then have cs: "cs = []" "e_first_clus e = 0" "e_file_size e = 0" using e by auto
    have "0 < nfree f s" using room n(1) cs by (cases "nfree f s") simp_all
    then obtain c s1 where a: "alloc_clus f s = Ok (c, s1)" "alloc_post f s c s1" using alloc_clus_ok [OF wf res] nfree_pos by blast
    let ?e = "e\<lparr>e_cur_clus := c, e_first_clus := c, e_clus_cnt := 0, e_dirty := True\<rparr>"
    have "chain_ok f s1 [c]" using a(2) by (auto simp: chain_ok_def alloc_post_def)
    then have "entry_ok f s1 ?e [c]" using cs by (simp add: entry_ok_def)
    moreover have "keeps f [] s [c] s1" using a(2) by (auto simp: keeps_def alloc_post_def)
    moreover have "nfree f s1 = nfree f s - 1"
      by (rule nfree_alloc(1)) (use a(2) in \<open>auto simp: alloc_post_def\<close>)
    moreover have "file_bytes f s1 [c] = replicate ?B 0" using a(2) by (simp add: file_bytes_def alloc_post_def)
    ultimately show ?thesis using that [of ?e s1 "[c]"] a(1) cs \<open>0 < nfree f s\<close> by (simp add: file_bytes_def)
  qed
  have wf1: "blk_wf s1" using k1 by (simp add: keeps_def)
  have res1: "fat_reserved f s1"
    by (rule keeps_reserved [OF wf(1) k1 res]) (use e in \<open>auto simp: entry_ok_def chain_ok_def\<close>)
  have b4: "unat off \<le> length (cs @ x) * ?B" using e1 off(1) sz by (simp add: entry_ok_def)
  have b5: "unat off + (unat n - unat (0 :: u32)) \<le> (length (cs @ x) + nfree f s1) * ?B" unfolding nf using room by simp
  obtain e2 s2 ext where l: "ewrite_loop (Suc (unat n)) io f s1 m e1 src off n 0 = Ok (n, off + n, e2, s2, m)"
      "entry_ok f s2 e2 ((cs @ x) @ ext)" "keeps f (cs @ x) s1 ((cs @ x) @ ext) s2" "moved e1 e2"
      "file_bytes f s2 ((cs @ x) @ ext) = put_bytes (file_bytes f s1 (cs @ x) @ replicate (length ext * ?B) 0) (unat off) (rd m src (unat n))"
    using ewrite_loop_ok [OF wf(1) wf1 e1 res1 b4 b5, of "Suc (unat n)" m src] off(2) by auto
  let ?e = "if e_file_size e2 < off + n then e2\<lparr>e_file_size := off + n, e_dirty := True\<rparr> else e2" and ?Z = "replicate (length (x @ ext) * ?B) (0 :: u8)"
  have sz2: "e_file_size e2 = e_file_size e" using moved_fields [OF l(4)] sz by simp
  have pos: "0 < n" using n(1) by (simp add: word_less_nat_alt)
  have "\<not> e_file_size e < off" "\<not> off + n < off" using off sum by (simp_all add: word_less_nat_alt)
  moreover have "\<not> 0xffffffff < (ucast off :: u64) + ucast n" using unat_sum_words [OF off(2)] by simp
  ultimately have w: "ewrite io f s m e src off n = Ok (int (unat n), ?e, s2, m)"
    using rw f1 l(1) pos sint_small [OF n(2)] by (simp add: ewrite_def)
  have fs: "unat (e_file_size ?e) = max (unat (e_file_size e)) (unat off + unat n)"
    using sz2 sum by (auto simp: word_less_nat_alt)
  have fb2: "file_bytes f s2 (cs @ (x @ ext)) = put_bytes (file_bytes f s cs @ ?Z) (unat off) (rd m src (unat n))"
    using l(5) fb by (simp add: replicate_add [symmetric] algebra_simps)
  have wf2: "blk_wf s2" using l(3) by (simp add: keeps_def)
  have len2: "unat off + unat n \<le> length (file_bytes f s2 (cs @ (x @ ext)))"
  proof -
    have F: "unat (e_file_size e) \<le> length (file_bytes f s cs)"
      using e length_file_bytes [OF wf] by (auto simp: entry_ok_def)
    have "length (put_bytes Y (unat off) (rd m src (unat n))) \<ge> unat off + unat n" if "unat off \<le> length Y" for Y
      using that by (simp add: put_bytes_def)
    then show ?thesis unfolding fb2 using F off(1) by simp
  qed
  have eo: "entry_ok f s2 ?e (cs @ (x @ ext))"
    using l(2) len2 sum length_file_bytes [OF wf(1) wf2, of "cs @ (x @ ext)"] by (auto simp: entry_ok_def)
  have F: "unat (e_file_size e) \<le> length (file_bytes f s cs)" using e length_file_bytes [OF wf] by (auto simp: entry_ok_def)
  have "take (unat (e_file_size ?e)) (file_bytes f s2 (cs @ (x @ ext))) = take (unat off) C @ rd m src (unat n) @ drop (unat off + unat n) C"
    unfolding fb2 fs C_def using put_take [OF F off(1), of "rd m src (unat n)"] by simp
  moreover have "keeps f cs s (cs @ (x @ ext)) s2" using keeps_trans [OF k1 l(3)] by simp
  ultimately show ?thesis using w eo fs by blast
qed

end

section \<open>Truncation\<close>

lemma chain_tail:
  assumes "chain_ok f s (c # d # cs)" and "\<And>x. x \<noteq> c \<Longrightarrow> read_fat f s' x = read_fat f s x"
  shows "chain_ok f s' (d # cs)"
proof -
  have dis: "distinct (c # d # cs)" using assms(1) by (simp add: chain_ok_def)
  have same: "read_fat f s' x = read_fat f s x" if "x \<in> set (d # cs)" for x
  proof (rule assms(2))
    show "x \<noteq> c" using dis that by auto
  qed
  have "List.last (d # cs) \<in> set (d # cs)" by (rule last_in_set) simp
  moreover have "read_fat f s' ((d # cs) ! i) = (d # cs) ! Suc i" if "Suc i < length (d # cs)" for i
  proof -
    have "read_fat f s ((c # d # cs) ! Suc i) = (c # d # cs) ! Suc (Suc i)" using assms(1) that by (auto simp: chain_ok_def)
    moreover have "(d # cs) ! i \<in> set (d # cs)" using that by (intro nth_mem) simp
    ultimately show ?thesis using same by simp
  qed
  ultimately show ?thesis using assms(1) same unfolding chain_ok_def by auto
qed

lemma etrunc_loop_ok:
  assumes wf: "fat_wf f"
  shows "blk_wf s \<Longrightarrow> chain_ok f s cs \<Longrightarrow> length cs < k \<Longrightarrow>
    \<exists>s'. etrunc_loop k f s (hd cs) = Ok s' \<and> blk_wf s' \<and> (blk_synced s \<longrightarrow> blk_synced s') \<and>
      (\<forall>x. read_fat f s' x = (if x \<in> set cs then 0 else read_fat f s x)) \<and>
      (\<forall>c. clus_ok f c \<longrightarrow> clus_bytes f s' c = clus_bytes f s c)"
proof (induction k arbitrary: s cs)
  case (Suc k)
  obtain c cs' where cs: "cs = c # cs'" using Suc.prems(2) by (cases cs) (auto simp: chain_ok_def)
  have ok: "clus_ok f c" using Suc.prems(2) cs by (simp add: chain_ok_def)
  have rg: "unat c \<le> unat (data_clus_cnt f) + 1" "2 \<le> c" using ok by (simp_all add: clus_ok_def word_le_nat_alt)
  obtain s1 where s1: "write_fat f s c 0 = (0, s1)" "blk_wf s1" "blk_synced s \<Longrightarrow> blk_synced s1"
      "\<And>x. read_fat f s1 x = (if x = c then 0 else read_fat f s x)"
      "\<And>sec. unat (first_data_sec f) \<le> unat sec \<Longrightarrow> bl_cache s1 sec = bl_cache s sec"
    using write_fat_ok [OF wf Suc.prems(1) rg(1), of 0] by blast
  have cb: "clus_bytes f s1 x = clus_bytes f s x" if "clus_ok f x" for x by (rule clus_bytes_data [OF wf that s1(5)])
  have st: "etrunc_loop (Suc k) f s (hd cs) = etrunc_loop k f s1 (read_fat f s c)"
    using cs rg clus_ok_less_EOC [OF wf ok] s1(1) by (simp add: free_clus_def)
  show ?case
  proof (cases cs')
    case Nil
    then have "FAT32_EOC \<le> read_fat f s c" using Suc.prems(2) cs by (simp add: chain_ok_def)
    moreover obtain j where "k = Suc j" using Suc.prems(3) cs by (cases k) auto
    moreover have "\<not> (2 \<le> read_fat f s c \<and> read_fat f s c < FAT32_EOC)" using calculation(1) by (meson not_less)
    ultimately have "etrunc_loop k f s1 (read_fat f s c) = Ok s1" by auto
    then show ?thesis unfolding st using s1 cb cs Nil by auto
  next
    case (Cons d ds)
    have nx: "read_fat f s c = d" using Suc.prems(2) cs Cons by (auto simp: chain_ok_def dest: spec [of _ 0])
    have ch: "chain_ok f s1 cs'" unfolding Cons by (rule chain_tail [of f s c]) (use Suc.prems(2) cs Cons s1(4) in simp_all)
    have dis: "c \<notin> set cs'" using Suc.prems(2) cs by (simp add: chain_ok_def)
    obtain s' where s': "etrunc_loop k f s1 d = Ok s'" "blk_wf s'" "blk_synced s1 \<longrightarrow> blk_synced s'"
        "\<forall>x. read_fat f s' x = (if x \<in> set cs' then 0 else read_fat f s1 x)" "\<forall>c. clus_ok f c \<longrightarrow> clus_bytes f s' c = clus_bytes f s1 c"
      using Suc.IH [OF s1(2) ch] Suc.prems(3) cs Cons by auto
    have "read_fat f s' x = (if x \<in> set cs then 0 else read_fat f s x)" for x using s'(4) s1(4) cs by auto
    then show ?thesis unfolding st nx using s' s1(3) cb by auto
  qed
qed simp

lemma chain_length: "fat_wf f \<Longrightarrow> chain_ok f s cs \<Longrightarrow> length cs \<le> unat (data_clus_cnt f)"
proof -
  assume "fat_wf f" and ch: "chain_ok f s cs"
  have "unat ` set cs \<subseteq> {2..unat (data_clus_cnt f) + 1}" using ch by (auto simp: chain_ok_def clus_ok_def)
  then have "card (unat ` set cs) \<le> card {2..unat (data_clus_cnt f) + 1}" by (intro card_mono) simp_all
  moreover have "card (unat ` set cs) = length cs"
    using ch by (subst card_image) (auto simp: inj_on_def chain_ok_def distinct_card word_unat_eq_iff)
  ultimately show ?thesis by simp
qed

section \<open>Kernel memory\<close>

text \<open>With \<^verbatim>\<open>user = 0\<close> the two copies are \<^verbatim>\<open>memmove\<close> between a block and kernel memory.\<close>

fun mem_put :: "bytemem \<Rightarrow> u64 \<Rightarrow> bytes \<Rightarrow> bytemem" where
  "mem_put m a [] = m"
| "mem_put m a (b # bs) = mem_put (m(a := b)) (a + 1) bs"

definition kuio :: "bytemem uio" where
  "kuio = \<lparr>uio_in = (\<lambda>m a n. (map (\<lambda>i. m (a + of_nat i)) [0..<n], True)), uio_out = (\<lambda>m a bs. (mem_put m a bs, True))\<rparr>"

definition mem_get :: "bytemem \<Rightarrow> u64 \<Rightarrow> nat \<Rightarrow> bytes" where
  "mem_get m a n = map (\<lambda>i. m (a + of_nat i)) [0..<n]"

lemma mem_get_add: "mem_get m a (x + y) = mem_get m a x @ mem_get m (a + of_nat x) y"
proof -
  have "[0..<x + y] = [0..<x] @ map (\<lambda>i. x + i) [0..<y]"
    using map_add_upt [of x y] upt_add_eq_append [of 0 x y] by (simp add: add.commute)
  then show ?thesis by (simp add: mem_get_def algebra_simps)
qed

lemma mem_put_append: "mem_put (mem_put m a xs) (a + of_nat (length xs)) ys = mem_put m a (xs @ ys)"
proof (induction xs arbitrary: m a)
  case (Cons x xs)
  have "a + of_nat (length (x # xs)) = a + 1 + of_nat (length xs)" by (simp add: algebra_simps)
  then show ?case using Cons.IH [of "m(a := x)" "a + 1"] by (simp only: mem_put.simps append_Cons)
qed simp

interpretation kmem: byte_copy kuio mem_get mem_put
  by unfold_locales (simp_all add: kuio_def mem_get_def [symmetric] mem_get_add mem_put_append, simp add: mem_get_def)

section \<open>Contents of files\<close>

text \<open>A small volume for the witnesses: four data clusters of one sector, one file of five bytes in cluster 3.\<close>

definition demo_fat :: fat where
  "demo_fat = \<lparr>first_data_sec = 2, data_sec_cnt = 4, data_clus_cnt = 4, byts_per_clus = 512,
     f_bpb = \<lparr>byts_per_sec = 512, sec_per_clus = 1, rsvd_sec_cnt = 1, fat_cnt = 1, hidd_sec = 0, tot_sec = 6, fat_sz = 1, root_clus = 2\<rparr>\<rparr>"

definition demo_table :: bytes where
  "demo_table = concat (map le32_bytes [0x0ffffff8, 0x0fffffff, 0x0fffffff, 0x0fffffff]) @ replicate 496 0"

definition demo_blk :: blk where
  "demo_blk = \<lparr>bl_cache = (\<lambda>sec. if sec = 1 then demo_table else replicate 512 0), bl_disk = (\<lambda>sec. if sec = 1 then demo_table else replicate 512 0)\<rparr>"

definition demo_entry :: dirent where
  "demo_entry = \<lparr>e_filename = [0x61, 0], e_attribute = ATTR_ARCHIVE, e_first_clus = 3, e_file_size = 5, e_cur_clus = 3, e_clus_cnt = 0,
     e_dev = 0, e_dirty = False, e_valid = 1, e_ref = 1, e_off = 64, e_parent = Some Root, e_locked = True\<rparr>"

lemma demo_wf: "fat_wf demo_fat" "blk_wf demo_blk" "blk_synced demo_blk"
proof -
  show "fat_wf demo_fat" by (simp add: fat_wf_def demo_fat_def)
  show "blk_wf demo_blk" by (simp add: blk_wf_def demo_blk_def demo_table_def le32_bytes_def)
  show "blk_synced demo_blk" by (simp add: blk_synced_def demo_blk_def)
qed

lemma demo_tab: "x < 128 \<Longrightarrow> tab demo_fat demo_blk x = le32 demo_table (4 * x)"
  by (simp add: tab_def demo_fat_def demo_blk_def)

lemma demo_tabs: "le32 demo_table 0 = 0x0ffffff8" "le32 demo_table 4 = 0x0fffffff" "le32 demo_table 12 = 0x0fffffff"
  "le32 demo_table 16 = 0" "le32 demo_table 20 = 0"
  by (simp_all add: le32_def demo_table_def le32_bytes_def nth_append)

lemma demo_dcc: "data_clus_cnt demo_fat = 4"
  by (simp add: demo_fat_def)

lemma demo_reads: "read_fat demo_fat demo_blk 0 = 0x0ffffff8" "read_fat demo_fat demo_blk 1 = 0x0fffffff"
  "read_fat demo_fat demo_blk 3 = 0x0fffffff" "read_fat demo_fat demo_blk 4 = 0" "read_fat demo_fat demo_blk 5 = 0"
  using demo_tabs by (simp_all add: tab_read [OF demo_wf(1)] demo_dcc demo_tab)

lemma demo_reserved: "fat_reserved demo_fat demo_blk"
  unfolding fat_reserved_read [OF demo_wf(1)] demo_reads by simp

lemma demo_clus: "clus_ok demo_fat 3" "clus_ok demo_fat 4" "clus_ok demo_fat 5"
  by (simp_all add: clus_ok_def demo_dcc)

lemma demo_ok: "entry_ok demo_fat demo_blk demo_entry [3]"
  using demo_reads(3) demo_clus(1) by (simp add: entry_ok_def chain_ok_def demo_entry_def) (simp add: demo_fat_def)

lemma demo_free: "2 \<le> nfree demo_fat demo_blk"
proof -
  have "card {4 :: u32, 5} \<le> nfree demo_fat demo_blk"
    unfolding nfree_def by (rule card_mono) (use finite_clus demo_reads demo_clus in auto)
  then show ?thesis by simp
qed

text \<open>
  \<^verbatim>\<open>eread\<close> returns the bytes of the file. For an entry whose chain covers its size, a read at \<open>off\<close> of
  \<open>n\<close> bytes into kernel memory stops at the end of the file, stores exactly the requested part of the contents at the destination, changes
  nothing on the volume and only moves the entry's cached position; it does so from any cached
  position, before or behind the requested one.
\<close>
theorem eread_delivers:
  assumes "fat_wf f" "blk_wf s" and "entry_ok f s e cs" and "e_attribute e AND ATTR_DIRECTORY = 0"
    and "unat off \<le> unat (e_file_size e)" "unat off + unat n < 2 ^ 32"
  shows "\<exists>e'. eread kuio f s m e dst off n =
      Ok (of_nat (min (unat n) (unat (e_file_size e) - unat off)), e', s,
          mem_put m dst (take (unat n) (drop (unat off) (take (unat (e_file_size e)) (file_bytes f s cs))))) \<and>
    entry_ok f s e' cs \<and> moved e e'"
  using kmem.eread_ok [OF assms] .

theorem eread_delivers_witness:
  "\<exists>e'. eread kuio demo_fat demo_blk (\<lambda>a. 7) demo_entry 0x1000 2 100 =
     Ok (of_nat 3, e', demo_blk, mem_put (\<lambda>a. 7) 0x1000 (take 100 (drop 2 (take 5 (file_bytes demo_fat demo_blk [3]))))) \<and>
     entry_ok demo_fat demo_blk e' [3]"
  using eread_delivers [OF demo_wf(1,2) demo_ok, of "2" "100" "\<lambda>a. 7" "0x1000"] by (simp add: demo_entry_def) blast

text \<open>
  \<^verbatim>\<open>ewrite\<close> updates the file like an array of bytes that grows at its end. Writing \<open>n\<close> bytes at an offset
  inside the file or at its end returns \<open>n\<close>, replaces exactly that range, extends the size when needed and the chain by free clusters as
  far as the write reaches, starting a chain for an empty file; every other chain on the volume keeps its entries and contents, and
  cache and disk still agree.
\<close>
theorem ewrite_updates:
  assumes "fat_wf f" "blk_wf s" and "entry_ok f s e cs \<or> cs = [] \<and> e_first_clus e = 0 \<and> e_file_size e = 0"
    and "fat_reserved f s" and "e_attribute e AND ATTR_READ_ONLY = 0" and "0 < unat n" "unat n < 2 ^ 31"
    and "unat off \<le> unat (e_file_size e)" "unat off + unat n < 2 ^ 32"
    and "unat off + unat n \<le> (length cs + nfree f s) * unat (byts_per_clus f)"
  shows "\<exists>e' s' ext. ewrite kuio f s m e src off n = Ok (int (unat n), e', s', m) \<and> entry_ok f s' e' (cs @ ext) \<and> keeps f cs s (cs @ ext) s' \<and>
    unat (e_file_size e') = max (unat (e_file_size e)) (unat off + unat n) \<and>
    take (unat (e_file_size e')) (file_bytes f s' (cs @ ext)) =
      (let C = take (unat (e_file_size e)) (file_bytes f s cs) in take (unat off) C @ mem_get m src (unat n) @ drop (unat off + unat n) C)"
  using kmem.ewrite_ok [OF assms] by (simp add: Let_def)

theorem ewrite_updates_witness:
  "\<exists>e' s' ext. ewrite kuio demo_fat demo_blk (\<lambda>a. ucast a) demo_entry 0x1000 3 600 = Ok (600, e', s', \<lambda>a. ucast a) \<and>
     unat (e_file_size e') = 603 \<and> entry_ok demo_fat s' e' ([3] @ ext)"
proof -
  have "unat (3::u32) + unat (600::u32) \<le> (length [3::u32] + nfree demo_fat demo_blk) * unat (byts_per_clus demo_fat)"
    using demo_free by (simp add: demo_fat_def)
  from ewrite_updates [OF demo_wf(1,2) disjI1 [OF demo_ok] demo_reserved _ _ _ _ _ this, of "\<lambda>a. ucast a" "0x1000"]
  show ?thesis by (simp add: demo_entry_def) blast
qed

text \<open>
  C10: \<^verbatim>\<open>etrunc\<close> terminates and gives the whole chain back: every cluster of the file becomes free, every other table
  entry and all cluster contents are unchanged, and the entry is empty. The loop needs at most one step per data
  cluster, so its bound is never reached.
\<close>
theorem etrunc_frees_chain:
  assumes "fat_wf f" "blk_wf s" and "entry_ok f s e cs"
  shows "\<exists>s'. etrunc f s e = Ok (e\<lparr>e_file_size := 0, e_first_clus := 0, e_dirty := True\<rparr>, s') \<and> blk_wf s' \<and> (blk_synced s \<longrightarrow> blk_synced s') \<and>
    (\<forall>x. read_fat f s' x = (if x \<in> set cs then 0 else read_fat f s x)) \<and> (\<forall>c. clus_ok f c \<longrightarrow> clus_bytes f s' c = clus_bytes f s c)"
proof -
  have ch: "chain_ok f s cs" "e_first_clus e = hd cs" using assms(3) by (simp_all add: entry_ok_def)
  have "length cs < unat (data_clus_cnt f) + 4" using chain_length [OF assms(1) ch(1)] by simp
  from etrunc_loop_ok [OF assms(1,2) ch(1) this] ch(2) show ?thesis by (auto simp: etrunc_def)
qed

theorem etrunc_frees_chain_witness:
  "\<exists>s'. etrunc demo_fat demo_blk demo_entry = Ok (demo_entry\<lparr>e_file_size := 0, e_first_clus := 0, e_dirty := True\<rparr>, s') \<and>
     read_fat demo_fat s' 3 = 0 \<and> blk_synced s'"
  using etrunc_frees_chain [OF demo_wf(1,2) demo_ok] demo_wf(3) by fastforce

text \<open>
  \<^verbatim>\<open>alloc_clus\<close> hands out clusters that do not exist. It searches all the entries of the table's sectors, not
  only those of the volume's clusters; once every data cluster is in use it does not panic but takes
  the first free slot of the table behind them, a cluster whose sectors lie outside the data area.
\<close>
theorem alloc_clus_past_end:
  assumes "fat_wf f" and "fat_reserved f s" and "\<And>c. clus_ok f c \<Longrightarrow> read_fat f s c \<noteq> 0"
    and "tab f s x = 0" "x < 128 * unat (fat_sz (f_bpb f))" "x < 2 ^ 32"
  shows "\<exists>c s'. alloc_clus f s = Ok (c, s') \<and> unat (data_clus_cnt f) + 1 < unat c"
proof -
  let ?n = "unat (fat_sz (f_bpb f))"
  have b: "byts_per_sec (f_bpb f) = 512" using assms(1) by (simp add: fat_wf_def)
  note sp = alloc_scan_spec [OF b, where s = s and a = 0 and b = ?n]
  obtain i j where a: "alloc_scan f s [0..<?n] = Some (i, j)"
    using sp assms(4,5) by (cases "alloc_scan f s [0..<?n]") auto
  have ij: "tab f s (i * 128 + j) = 0" "\<And>y. y < i * 128 + j \<Longrightarrow> tab f s y \<noteq> 0" using sp a by auto
  have le: "i * 128 + j \<le> x" using ij(2) [of x] assms(4) by (meson not_le)
  let ?c = "of_nat (i * 128 + j) :: u32"
  have u: "unat ?c = i * 128 + j" using le assms(6) by (simp add: unat_of_nat del: of_nat_add of_nat_mult)
  have gt: "unat (data_clus_cnt f) + 1 < i * 128 + j"
  proof (rule ccontr)
    assume "\<not> ?thesis"
    then have rg: "unat ?c \<le> unat (data_clus_cnt f) + 1" using u by simp
    then have z: "read_fat f s ?c = 0" using tab_read [OF assms(1), of ?c s] u ij(1) by simp
    have "i * 128 + j \<noteq> 0" "i * 128 + j \<noteq> 1" using ij(1) assms(2) unfolding fat_reserved_def by metis+
    then have "2 \<le> i * 128 + j" by linarith
    then have "clus_ok f ?c" using rg u by (simp add: clus_ok_def)
    with assms(3) z show False by blast
  qed
  have "(512 :: u32) div 4 = 128" by simp
  then have "of_nat i * (ucast (byts_per_sec (f_bpb f)) div 4) + of_nat j = ?c" by (simp add: b)
  then have "\<exists>s'. alloc_clus f s = Ok (?c, s')" using a by (simp add: alloc_clus_def Let_def)
  then show ?thesis using gt u by auto
qed

definition full_table :: "u8 list" where
  "full_table = (let e = le32_bytes 0x0fffffff in e @ e @ e @ e @ e @ e @ replicate 488 0)"

lemma full_tabs: "le32 full_table 0 = 0x0fffffff" "le32 full_table 4 = 0x0fffffff" "le32 full_table 8 = 0x0fffffff"
  "le32 full_table 12 = 0x0fffffff" "le32 full_table 16 = 0x0fffffff" "le32 full_table 20 = 0x0fffffff"
  by (simp_all add: le32_def full_table_def le32_bytes_def nth_append Let_def)

definition full_blk :: blk where
  "full_blk = (let t = full_table in \<lparr>bl_cache = (\<lambda>sec. if sec = 1 then t else replicate 512 0), bl_disk = (\<lambda>sec. if sec = 1 then t else replicate 512 0)\<rparr>)"

lemma full_tab: "x < 128 \<Longrightarrow> tab demo_fat full_blk x = (if x < 6 then 0x0fffffff else 0)"
proof -
  assume x: "x < 128"
  have t: "tab demo_fat full_blk x = le32 full_table (4 * x)" using x by (simp add: tab_def demo_fat_def full_blk_def Let_def)
  have pre: "le32 full_table (4 * k) = 0x0fffffff" if "k \<in> {0, 1, 2, 3, 4, 5}" for k
    using that full_tabs by auto
  have post: "le32 full_table (4 * x) = 0" if "6 \<le> x"
  proof -
    have "full_table ! (4 * x + i) = 0" if "i < 4" for i
      using that \<open>6 \<le> x\<close> x by (simp add: full_table_def Let_def nth_append le32_bytes_def)
    from this [of 0] this [of 1] this [of 2] this [of 3] show ?thesis by (simp add: le32_def)
  qed
  show ?thesis
  proof (cases "x < 6")
    case True
    then have "x \<in> {0, 1, 2, 3, 4, 5}" by auto
    with t pre True show ?thesis by simp
  qed (use t post in simp)
qed

theorem alloc_clus_past_end_witness:
  "\<exists>c s'. alloc_clus demo_fat full_blk = Ok (c, s') \<and> unat (data_clus_cnt demo_fat) + 1 < unat c"
proof (rule alloc_clus_past_end [where x = 6])
  show "fat_wf demo_fat" by (rule demo_wf(1))
  show "fat_reserved demo_fat full_blk" by (simp add: fat_reserved_def full_tab)
  show "tab demo_fat full_blk 6 = 0" by (simp add: full_tab)
  show "(6 :: nat) < 128 * unat (fat_sz (f_bpb demo_fat))" by (simp add: demo_fat_def)
  fix c assume c: "clus_ok demo_fat c"
  then have "unat c < 6" by (simp add: clus_ok_def demo_dcc)
  moreover have "read_fat demo_fat full_blk c = tab demo_fat full_blk (unat c)"
    by (rule tab_read [OF demo_wf(1)]) (use c in \<open>simp add: clus_ok_def\<close>)
  ultimately show "read_fat demo_fat full_blk c \<noteq> 0" by (simp add: full_tab)
qed simp

text \<open>
  a write whose user buffer faults part-way corrupts the cached block. The bytes that were copied before
  the fault stay in the buffer, which is released without \<^verbatim>\<open>bwrite\<close> and without being invalidated: the call
  reports that nothing was written, but as long as the buffer is cached every reader sees bytes the disk
  does not have.
\<close>
theorem rw_clus_fault_desync:
  assumes "fat_wf f" "blk_wf s" "blk_synced s" and "0 < unat n" and "unat off + unat n \<le> unat (byts_per_clus f)"
    and "uio_in io m data (unat (chunk n 0 (512 - off mod 512 mod 512))) = (bs, False)"
    and "sec = first_sec_of_clus f c + of_nat (unat off div 512)"
    and "put_bytes (bl_cache s sec) (unat (off mod 512 mod 512)) bs \<noteq> bl_cache s sec"
  shows "\<exists>s'. rw_clus io f s m c True data off n = Ok (0, s', m) \<and> bl_disk s' = bl_disk s \<and>
    bl_cache s' sec = put_bytes (bl_cache s sec) (unat (off mod 512 mod 512)) bs \<and> \<not> blk_synced s'"
proof -
  let ?d = "put_bytes (bl_cache s sec) (unat (off mod 512 mod 512)) bs"
  let ?s = "s\<lparr>bl_cache := (bl_cache s)(sec := ?d)\<rparr>"
  have pos: "(0 :: u32) < n" using assms(4) by (simp add: word_less_nat_alt)
  have "rw_loop io True s m data (off mod 512) n 0 sec = (0, ?s, m)"
    using pos assms(6) by (subst rw_loop.simps) (simp add: Let_def)
  then have "rw_clus io f s m c True data off n = Ok (0, ?s, m)"
    using rw_clus_start(1) [OF assms(1,5), of io s m c True data] assms(7) by simp
  moreover have "\<not> blk_synced ?s"
  proof
    assume "blk_synced ?s"
    then have "bl_disk s sec = ?d" by (simp add: blk_synced_def fun_upd_idem_iff)
    moreover have "bl_disk s sec = bl_cache s sec" using assms(3) by (simp add: blk_synced_def)
    ultimately show False using assms(8) by simp
  qed
  ultimately show ?thesis by (intro exI [of _ ?s]) simp
qed

theorem rw_clus_fault_desync_witness:
  "\<exists>s'. rw_clus \<lparr>uio_in = (\<lambda>m a n. ([9], False)), uio_out = (\<lambda>m a bs. (m, True))\<rparr> demo_fat demo_blk () 3 True 0 0 10 = Ok (0, s', ()) \<and> \<not> blk_synced s'"
proof -
  have "bl_cache demo_blk (first_sec_of_clus demo_fat 3 + of_nat (unat (0 :: u32) div 512)) = replicate 512 0"
    by (simp add: demo_blk_def first_sec_of_clus_def demo_fat_def)
  moreover have "put_bytes (replicate 512 0) 0 [9] \<noteq> replicate 512 (0 :: u8)"
  proof
    assume "put_bytes (replicate 512 0) 0 [9] = replicate 512 (0 :: u8)"
    then have "hd (put_bytes (replicate 512 0) 0 [9]) = hd (replicate 512 (0 :: u8))" by (rule arg_cong)
    then show False by (simp add: put_bytes_def)
  qed
  ultimately show ?thesis
    using rw_clus_fault_desync [OF demo_wf, of "10" "0" "\<lparr>uio_in = (\<lambda>m a n. ([9], False)), uio_out = (\<lambda>m a bs. (m, True))\<rparr>" "()" "0" "[9]" _ "3"]
    by (simp add: demo_fat_def) blast
qed

end
