(* ===== verification/FatDir.thy ===== *)
theory FatDir
  imports FatFile
begin

text \<open>
  Directories, the entry cache and path lookup of \<^verbatim>\<open>kernel/fs/fat32.c\<close>. A pointer to a \<^verbatim>\<open>struct dirent\<close> is an \<open>eptr\<close>: the
  static root entry or an index into the cache. The doubly linked list through \<^verbatim>\<open>next\<close> and \<^verbatim>\<open>prev\<close> is the list \<open>fs_lru\<close> of its
  elements, from \<^verbatim>\<open>root.next\<close> to \<^verbatim>\<open>root.prev\<close>. The definitions follow one process: an entry whose sleep lock is
  taken is locked by it or by a process that keeps the lock, so acquiring it again never returns, which is \<open>Panic ''sleep''\<close>; a
  dereference of a null pointer is \<open>Panic ''null''\<close>. The local objects that the code passes to \<^verbatim>\<open>rw_clus\<close> by
  address lie at address 0 of a memory of their own.
\<close>

abbreviation (input) EMPTY_ENTRY :: u8 where "EMPTY_ENTRY \<equiv> 0xe5"
abbreviation (input) END_OF_ENTRY :: u8 where "END_OF_ENTRY \<equiv> 0"
abbreviation (input) ENTRY_CACHE_NUM :: nat where "ENTRY_CACHE_NUM \<equiv> 50"
abbreviation (input) MAX_FILENAME :: u32 where "MAX_FILENAME \<equiv> 255"

record fs =
  fs_fat :: fat
  fs_blk :: blk
  fs_root :: dirent
  fs_entries :: "dirent list"
  fs_lru :: "nat list"

record stat =
  st_name :: bytes
  st_dev :: int
  st_type :: int
  st_size :: u64

fun ent :: "fs \<Rightarrow> eptr \<Rightarrow> dirent" where
  "ent fs Root = fs_root fs"
| "ent fs (Ent i) = fs_entries fs ! i"

fun upd_ent :: "fs \<Rightarrow> eptr \<Rightarrow> (dirent \<Rightarrow> dirent) \<Rightarrow> fs" where
  "upd_ent fs Root g = fs\<lparr>fs_root := g (fs_root fs)\<rparr>"
| "upd_ent fs (Ent i) g = fs\<lparr>fs_entries := (fs_entries fs)[i := g (fs_entries fs ! i)]\<rparr>"

section \<open>Initialisation\<close>

definition zero_dirent :: dirent where
  "zero_dirent = \<lparr>e_filename = replicate 256 0, e_attribute = 0, e_first_clus = 0, e_file_size = 0, e_cur_clus = 0, e_clus_cnt = 0,
     e_dev = 0, e_dirty = False, e_valid = 0, e_ref = 0, e_off = 0, e_parent = None, e_locked = False\<rparr>"

definition fat32_init :: "blk \<Rightarrow> dirent list \<Rightarrow> fs res" where
  "fat32_init s entries =
     (let d = bl_cache s 0; b = parse_bpb d
      in if strncmp (drop 82 d) [0x46, 0x41, 0x54, 0x33, 0x32, 0] 5 \<noteq> 0 then Panic ''not FAT32 volume''
         else if (512 :: u16) \<noteq> byts_per_sec b then Panic ''byts_per_sec != BSIZE''
         else Ok \<lparr>fs_fat = fat_geometry b, fs_blk = s,
           fs_root = zero_dirent\<lparr>e_attribute := ATTR_DIRECTORY OR ATTR_SYSTEM, e_first_clus := root_clus b,
             e_cur_clus := root_clus b, e_valid := 1\<rparr>,
           fs_entries = map (\<lambda>e. e\<lparr>e_dev := 0, e_valid := 0, e_ref := 0, e_dirty := False, e_parent := None, e_locked := False\<rparr>) entries,
           fs_lru = fold (\<lambda>i l. i # l) [0..<ENTRY_CACHE_NUM] []\<rparr>)"

definition fat32_invalidate :: "fs \<Rightarrow> fs" where
  "fat32_invalidate fs =
     fs\<lparr>fs_entries := map (\<lambda>e. if e_ref e = 0 then e\<lparr>e_valid := 0, e_dirty := False, e_parent := None\<rparr> else e) (fs_entries fs)\<rparr>"

section \<open>The entry cache\<close>

definition edup :: "fs \<Rightarrow> eptr \<Rightarrow> fs" where
  "edup fs p = upd_ent fs p (\<lambda>e. e\<lparr>e_ref := e_ref e + 1\<rparr>)"

definition ecache_hit :: "eptr \<Rightarrow> bytes \<Rightarrow> dirent \<Rightarrow> bool" where
  "ecache_hit parent name e \<longleftrightarrow> e_valid e = 1 \<and> e_parent e = Some parent \<and> strncmp (e_filename e) name MAX_FILENAME = 0"

definition eget :: "fs \<Rightarrow> eptr \<Rightarrow> bytes option \<Rightarrow> (eptr \<times> fs) res" where
  "eget fs parent name =
     (case case name of None \<Rightarrow> None | Some nm \<Rightarrow> find (\<lambda>i. ecache_hit parent nm (fs_entries fs ! i)) (fs_lru fs) of
        Some i \<Rightarrow>
          let fs1 = upd_ent fs (Ent i) (\<lambda>e. e\<lparr>e_ref := e_ref e + 1\<rparr>)
          in Ok (Ent i, if e_ref (fs_entries fs ! i) = 0 then upd_ent fs1 parent (\<lambda>e. e\<lparr>e_ref := e_ref e + 1\<rparr>) else fs1)
      | None \<Rightarrow>
          (case find (\<lambda>i. e_ref (fs_entries fs ! i) = 0) (rev (fs_lru fs)) of
             Some i \<Rightarrow> Ok (Ent i, upd_ent fs (Ent i) (\<lambda>e. e\<lparr>e_ref := 1, e_dev := e_dev (ent fs parent), e_off := 0, e_valid := 0, e_dirty := False\<rparr>))
           | None \<Rightarrow> Panic ''eget: insufficient ecache''))"

definition acquiresleep_ent :: "fs \<Rightarrow> eptr \<Rightarrow> fs res" where
  "acquiresleep_ent fs p = (if e_locked (ent fs p) then Panic ''sleep'' else Ok (upd_ent fs p (\<lambda>e. e\<lparr>e_locked := True\<rparr>)))"

definition releasesleep_ent :: "fs \<Rightarrow> eptr \<Rightarrow> fs" where
  "releasesleep_ent fs p = upd_ent fs p (\<lambda>e. e\<lparr>e_locked := False\<rparr>)"

definition elock :: "fs \<Rightarrow> eptr \<Rightarrow> fs res" where
  "elock fs p = (if e_ref (ent fs p) < 1 then Panic ''elock'' else acquiresleep_ent fs p)"

definition eunlock :: "fs \<Rightarrow> eptr \<Rightarrow> fs res" where
  "eunlock fs p = (if \<not> e_locked (ent fs p) \<or> e_ref (ent fs p) < 1 then Panic ''eunlock'' else Ok (releasesleep_ent fs p))"

definition estat :: "dirent \<Rightarrow> stat \<Rightarrow> stat" where
  "estat de st = st\<lparr>st_name := strncpy (st_name st) (e_filename de) 32,
     st_type := (if e_attribute de AND ATTR_DIRECTORY \<noteq> 0 then 1 else 2), st_dev := uint (e_dev de), st_size := ucast (e_file_size de)\<rparr>"

section \<open>Access to a directory\<close>

definition reloc_ent :: "fs \<Rightarrow> eptr \<Rightarrow> u32 \<Rightarrow> bool \<Rightarrow> (u32 option \<times> fs) res" where
  "reloc_ent fs p off alloc =
     rmap (\<lambda>(r, e, s). (r, (upd_ent fs p (\<lambda>_. e))\<lparr>fs_blk := s\<rparr>)) (reloc_clus (fs_fat fs) (fs_blk fs) (ent fs p) off alloc)"

text \<open>The result of \<^verbatim>\<open>reloc_clus\<close> stored in an unsigned variable.\<close>

definition as_uint :: "u32 option \<Rightarrow> u32" where
  "as_uint r = (case r of None \<Rightarrow> - 1 | Some v \<Rightarrow> v)"

definition rd_ent :: "fs \<Rightarrow> eptr \<Rightarrow> u32 \<Rightarrow> u32 \<Rightarrow> (u32 \<times> bytes) res" where
  "rd_ent fs p off n =
     rmap (\<lambda>(r, s, m). (r, mem_get m 0 (unat n))) (rw_clus kuio (fs_fat fs) (fs_blk fs) (\<lambda>_. 0) (e_cur_clus (ent fs p)) False 0 off n)"

definition wr_ent :: "fs \<Rightarrow> eptr \<Rightarrow> u32 \<Rightarrow> bytes \<Rightarrow> fs res" where
  "wr_ent fs p off bs =
     rmap (\<lambda>(r, s, m). fs\<lparr>fs_blk := s\<rparr>)
       (rw_clus kuio (fs_fat fs) (fs_blk fs) (mem_put (\<lambda>_. 0) 0 bs) (e_cur_clus (ent fs p)) True 0 off (of_nat (length bs)))"

definition put_dentry :: "fs \<Rightarrow> eptr \<Rightarrow> u32 \<Rightarrow> bytes \<Rightarrow> fs res" where
  "put_dentry fs dp off de = rbind (reloc_ent fs dp off True) (\<lambda>(r, fs1). wr_ent fs1 dp (as_uint r) de)"

fun put_dentries :: "fs \<Rightarrow> eptr \<Rightarrow> u32 \<Rightarrow> bytes list \<Rightarrow> (u32 \<times> fs) res" where
  "put_dentries fs dp off [] = Ok (off, fs)"
| "put_dentries fs dp off (de # des) = rbind (put_dentry fs dp off de) (\<lambda>fs1. put_dentries fs1 dp (off + 32) des)"

definition emake :: "fs \<Rightarrow> eptr \<Rightarrow> eptr \<Rightarrow> u32 \<Rightarrow> fs res" where
  "emake fs dp ep off =
     (let e = ent fs ep
      in if e_attribute (ent fs dp) AND ATTR_DIRECTORY = 0 then Panic ''emake: not dir''
         else if off mod 32 \<noteq> 0 then Panic ''emake: not aligned''
         else if off \<le> 32 then
           put_dentry fs dp off
             (sne_entry (if off = 0 then DOT # replicate 10 SPACE else DOT # DOT # replicate 9 SPACE) ATTR_DIRECTORY (e_first_clus e) 0)
         else
           rbind (put_dentries fs dp off (lne_list (e_filename e))) (\<lambda>(off1, fs1).
             put_dentry fs1 dp off1 (sne_entry (generate_shortname (e_filename e)) (e_attribute e) (e_first_clus e) (e_file_size e))))"

section \<open>Updating and removing an entry\<close>

definition with_parent :: "dirent \<Rightarrow> (eptr \<Rightarrow> 'a res) \<Rightarrow> 'a res" where
  "with_parent e g = (case e_parent e of None \<Rightarrow> Panic ''null'' | Some p \<Rightarrow> g p)"

text \<open>The number of long entries, from the order byte of the first one.\<close>

definition read_entcnt :: "fs \<Rightarrow> eptr \<Rightarrow> u32 \<Rightarrow> u32 res" where
  "read_entcnt fs p off = rmap (\<lambda>(r, bs). ucast (bs ! 0) AND NOT 0x40) (rd_ent fs p off 1)"

definition set_sne :: "bytes \<Rightarrow> u32 \<Rightarrow> u32 \<Rightarrow> bytes" where
  "set_sne de first_clus file_size =
     put_bytes (put_bytes (put_bytes de 20 [ucast (drop_bit 16 first_clus), ucast (drop_bit 24 first_clus)])
       26 [ucast first_clus, ucast (drop_bit 8 first_clus)]) 28 (le32_bytes file_size)"

definition eupdate :: "fs \<Rightarrow> eptr \<Rightarrow> fs res" where
  "eupdate fs p =
     (let e = ent fs p
      in if \<not> e_dirty e \<or> e_valid e \<noteq> 1 then Ok fs
         else with_parent e (\<lambda>dp.
           rbind (reloc_ent fs dp (e_off e) False) (\<lambda>(r, fs1).
           rbind (read_entcnt fs1 dp (as_uint r)) (\<lambda>entcnt.
           rbind (reloc_ent fs1 dp (e_off e + push_bit 5 entcnt) False) (\<lambda>(r2, fs2).
           rbind (rd_ent fs2 dp (as_uint r2) 32) (\<lambda>(n, de).
           rbind (wr_ent fs2 dp (as_uint r2) (set_sne de (e_first_clus e) (e_file_size e))) (\<lambda>fs3.
             Ok (upd_ent fs3 p (\<lambda>e. e\<lparr>e_dirty := False\<rparr>)))))))))"

fun eremove_loop :: "fs \<Rightarrow> eptr \<Rightarrow> u32 \<Rightarrow> u32 \<Rightarrow> nat \<Rightarrow> fs res" where
  "eremove_loop fs dp off off2 0 = Ok fs"
| "eremove_loop fs dp off off2 (Suc k) =
     rbind (wr_ent fs dp off2 [EMPTY_ENTRY]) (\<lambda>fs1.
     rbind (reloc_ent fs1 dp (off + 32) False) (\<lambda>(r, fs2). eremove_loop fs2 dp (off + 32) (as_uint r) k))"

definition eremove :: "fs \<Rightarrow> eptr \<Rightarrow> fs res" where
  "eremove fs p =
     (let e = ent fs p
      in if e_valid e \<noteq> 1 then Ok fs
         else with_parent e (\<lambda>dp.
           rbind (reloc_ent fs dp (e_off e) False) (\<lambda>(r, fs1).
           rbind (read_entcnt fs1 dp (as_uint r)) (\<lambda>entcnt.
           rmap (\<lambda>fs2. upd_ent fs2 p (\<lambda>e. e\<lparr>e_valid := -1\<rparr>)) (eremove_loop fs1 dp (e_off e) (as_uint r) (Suc (unat entcnt)))))))"

section \<open>Releasing an entry\<close>

definition lru_front :: "fs \<Rightarrow> eptr \<Rightarrow> fs" where
  "lru_front fs p = (case p of Root \<Rightarrow> fs | Ent i \<Rightarrow> fs\<lparr>fs_lru := i # remove1 i (fs_lru fs)\<rparr>)"

definition etrunc_ent :: "fs \<Rightarrow> eptr \<Rightarrow> fs res" where
  "etrunc_ent fs p = rmap (\<lambda>(e, s). (upd_ent fs p (\<lambda>_. e))\<lparr>fs_blk := s\<rparr>) (etrunc (fs_fat fs) (fs_blk fs) (ent fs p))"

definition eput_last :: "fs \<Rightarrow> eptr \<Rightarrow> fs res" where
  "eput_last fs p =
     rbind (acquiresleep_ent fs p) (\<lambda>fs1.
       let fs2 = lru_front fs1 p
       in rmap (\<lambda>fs3. releasesleep_ent fs3 p)
            (if e_valid (ent fs2 p) = -1 then etrunc_ent fs2 p
             else with_parent (ent fs2 p) (\<lambda>dp. rbind (elock fs2 dp) (\<lambda>fs3. rbind (eupdate fs3 p) (\<lambda>fs4. eunlock fs4 dp)))))"

fun eput_loop :: "nat \<Rightarrow> fs \<Rightarrow> eptr \<Rightarrow> fs res" where
  "eput_loop 0 fs p = Panic ''fuel''"
| "eput_loop (Suc k) fs p =
     (if p \<noteq> Root \<and> e_valid (ent fs p) \<noteq> 0 \<and> e_ref (ent fs p) = 1 then
        rbind (eput_last fs p) (\<lambda>fs1.
          let fs2 = upd_ent fs1 p (\<lambda>e. e\<lparr>e_ref := e_ref e - 1\<rparr>)
          in if e_ref (ent fs2 p) = 0 then with_parent (ent fs1 p) (eput_loop k fs2) else Ok fs2)
      else Ok (upd_ent fs p (\<lambda>e. e\<lparr>e_ref := e_ref e - 1\<rparr>)))"

definition eput :: "fs \<Rightarrow> eptr \<Rightarrow> fs res" where
  "eput fs p = eput_loop (ENTRY_CACHE_NUM + 1) fs p"

section \<open>Scanning a directory\<close>

definition read_entry_info :: "dirent \<Rightarrow> bytes \<Rightarrow> dirent" where
  "read_entry_info e d =
     (let clus = push_bit 16 (ucast (le16 d 20)) OR ucast (le16 d 26)
      in e\<lparr>e_attribute := d ! 11, e_first_clus := clus, e_file_size := le32 d 28, e_cur_clus := clus, e_clus_cnt := 0\<rparr>)"

text \<open>
  The loop of \<^verbatim>\<open>enext\<close>. \<open>cnt\<close> counts deleted slots; \<open>pcount\<close> is the caller's variable as long as the
  local pointer to it is not cleared, which \<open>live\<close> records. An order byte outside 1 to 20 makes the
  code store the characters outside the name buffer of the entry, which is \<open>Panic ''overflow''\<close>; the padding behind
  the last characters of entry 20 falls on the fields that follow the buffer and that \<^verbatim>\<open>read_entry_info\<close> sets later.
\<close>

fun enext_loop :: "nat \<Rightarrow> fs \<Rightarrow> eptr \<Rightarrow> dirent \<Rightarrow> u32 \<Rightarrow> u32 \<Rightarrow> bool \<Rightarrow> u32 \<Rightarrow> (int \<times> u32 \<times> dirent \<times> fs) res" where
  "enext_loop 0 fs dp ep off cnt live pcount = Panic ''fuel''"
| "enext_loop (Suc k) fs dp ep off cnt live pcount =
     rbind (reloc_ent fs dp off False) (\<lambda>(r, fs1).
       case r of
         None \<Rightarrow> Ok (-1, pcount, ep, fs1)
       | Some off2 \<Rightarrow>
           rbind (rd_ent fs1 dp off2 32) (\<lambda>(n, de).
             if n \<noteq> 32 \<or> de ! 0 = END_OF_ENTRY then Ok (-1, pcount, ep, fs1)
             else if de ! 0 = EMPTY_ENTRY then enext_loop k fs1 dp ep (off + 32) (cnt + 1) live pcount
             else if cnt \<noteq> 0 then if live then Ok (0, cnt, ep, fs1) else Panic ''null''
             else if dentry_attr de = ATTR_LONG_NAME then
               let lcnt = lne_index de;
                   ep1 = ep\<lparr>e_filename := put_at ((lcnt - 1) * CHAR_LONG_NAME) (\<lambda>b. read_entry_name b de) (e_filename ep)\<rparr>
               in if lcnt = 0 \<or> 20 < lcnt then Panic ''overflow''
                  else if de ! 0 AND LAST_LONG_ENTRY \<noteq> 0
                  then if live then enext_loop k fs1 dp ep1 (off + 32) cnt False (of_nat lcnt + 1) else Panic ''null''
                  else enext_loop k fs1 dp ep1 (off + 32) cnt live pcount
             else if live then Ok (1, 1, read_entry_info (ep\<lparr>e_filename := read_entry_name (e_filename ep) de\<rparr>) de, fs1)
             else Ok (1, pcount, read_entry_info ep de, fs1)))"

text \<open>A directory has at most one slot for every 32 bytes of the volume.\<close>

definition dir_fuel :: "fs \<Rightarrow> nat" where
  "dir_fuel fs = Suc (unat (data_clus_cnt (fs_fat fs)) * unat (byts_per_clus (fs_fat fs)))"

definition enext :: "fs \<Rightarrow> eptr \<Rightarrow> dirent \<Rightarrow> u32 \<Rightarrow> u32 \<Rightarrow> (int \<times> u32 \<times> dirent \<times> fs) res" where
  "enext fs dp ep off pcount =
     (if e_attribute (ent fs dp) AND ATTR_DIRECTORY = 0 then Panic ''enext not dir''
      else if e_valid ep \<noteq> 0 then Panic ''enext ep valid''
      else if off mod 32 \<noteq> 0 then Panic ''enext not align''
      else if e_valid (ent fs dp) \<noteq> 1 then Ok (-1, pcount, ep, fs)
      else enext_loop (dir_fuel fs) fs dp (ep\<lparr>e_filename := zero_fill (e_filename ep) 256\<rparr>) off 0 True pcount)"

text \<open>
  The condition of the loop of \<^verbatim>\<open>dirlookup\<close> is \<^verbatim>\<open>(type = enext(...) != -1)\<close>: \<^verbatim>\<open>type\<close> is the truth value of
  the comparison.
\<close>

definition note_room :: "int \<Rightarrow> bool \<Rightarrow> u32 \<Rightarrow> u32 \<Rightarrow> u32 \<Rightarrow> u32 option \<Rightarrow> bool \<times> u32 option" where
  "note_room typ want entcnt pcount off poff = (if typ = 0 \<and> want \<and> entcnt \<le> pcount then (False, Some off) else (want, poff))"

fun dirlookup_loop :: "nat \<Rightarrow> fs \<Rightarrow> eptr \<Rightarrow> eptr \<Rightarrow> bytes \<Rightarrow> u32 \<Rightarrow> u32 \<Rightarrow> u32 \<Rightarrow> bool \<Rightarrow> u32 option \<Rightarrow> (eptr option \<times> u32 option \<times> fs) res" where
  "dirlookup_loop 0 fs dp ep filename entcnt off pcount want poff = Panic ''fuel''"
| "dirlookup_loop (Suc k) fs dp ep filename entcnt off pcount want poff =
     rbind (enext fs dp (ent fs ep) off pcount) (\<lambda>(r, pcount1, e1, fs0).
       let fs1 = upd_ent fs0 ep (\<lambda>_. e1);
           typ = (if r \<noteq> -1 then 1 else 0 :: int)
       in if typ = 0 then
            rmap (\<lambda>fs2. (None, if want then Some off else poff, fs2)) (eput fs1 ep)
          else if typ \<noteq> 0 \<and> strncmp filename (e_filename e1) MAX_FILENAME = 0 then
            Ok (Some ep, poff, upd_ent (edup fs1 dp) ep (\<lambda>e. e\<lparr>e_parent := Some dp, e_off := off, e_valid := 1\<rparr>))
          else let (want1, poff1) = note_room typ want entcnt pcount1 off poff
               in dirlookup_loop k fs1 dp ep filename entcnt (off + push_bit 5 pcount1) pcount1 want1 poff1)"

definition dirlookup :: "fs \<Rightarrow> eptr \<Rightarrow> bytes \<Rightarrow> bool \<Rightarrow> (eptr option \<times> u32 option \<times> fs) res" where
  "dirlookup fs dp filename want =
     (if e_attribute (ent fs dp) AND ATTR_DIRECTORY = 0 then Panic ''dirlookup not DIR''
      else if strncmp filename [DOT, 0] MAX_FILENAME = 0 then Ok (Some dp, None, edup fs dp)
      else if strncmp filename [DOT, DOT, 0] MAX_FILENAME = 0 then
        if dp = Root then Ok (Some Root, None, edup fs Root)
        else case e_parent (ent fs dp) of
               None \<Rightarrow> Ok (None, None, fs)
             | Some p \<Rightarrow> Ok (Some p, None, edup fs p)
      else if e_valid (ent fs dp) \<noteq> 1 then Ok (None, None, fs)
      else rbind (eget fs dp (Some filename)) (\<lambda>(ep, fs1).
        if e_valid (ent fs1 ep) = 1 then Ok (Some ep, None, fs1)
        else rbind (reloc_ent fs1 dp 0 False) (\<lambda>(_, fs2).
          dirlookup_loop (dir_fuel fs2) fs2 dp ep filename (of_nat (lne_count filename + 1)) 0 0 want None)))"

section \<open>Creating an entry\<close>

definition ealloc_attr :: "u32 \<Rightarrow> u8" where
  "ealloc_attr attr =
     ucast attr OR (if attr = ucast ATTR_DIRECTORY then ATTR_DIRECTORY else if attr = ucast ATTR_DEVICE then ATTR_DEVICE else ATTR_ARCHIVE)"

definition ealloc_dots :: "fs \<Rightarrow> eptr \<Rightarrow> eptr \<Rightarrow> fs res" where
  "ealloc_dots fs dp ep =
     rbind (alloc_clus (fs_fat fs) (fs_blk fs)) (\<lambda>(c, s).
       let fs1 = upd_ent (fs\<lparr>fs_blk := s\<rparr>) ep (\<lambda>e. e\<lparr>e_cur_clus := c, e_first_clus := c\<rparr>)
       in rbind (emake fs1 ep ep 0) (\<lambda>fs2. emake fs2 ep dp 32))"

definition ealloc :: "fs \<Rightarrow> eptr \<Rightarrow> bytes \<Rightarrow> u32 \<Rightarrow> (eptr option \<times> fs) res" where
  "ealloc fs dp name0 attr =
     (if e_attribute (ent fs dp) AND ATTR_DIRECTORY = 0 then Panic ''ealloc not dir''
      else if e_valid (ent fs dp) \<noteq> 1 then Ok (None, fs)
      else case formatname name0 of
        None \<Rightarrow> Ok (None, fs)
      | Some name \<Rightarrow>
          rbind (dirlookup fs dp name True) (\<lambda>(r, poff, fs1).
            if r \<noteq> None then Ok (r, fs1)
            else let off = (case poff of None \<Rightarrow> 0 | Some v \<Rightarrow> v)
              in rbind (eget fs1 dp (Some name)) (\<lambda>(ep, fs2).
                 rbind (elock fs2 ep) (\<lambda>fs3.
                 let fs4 = upd_ent (edup fs3 dp) ep (\<lambda>e. e\<lparr>e_attribute := ealloc_attr attr, e_file_size := 0, e_first_clus := 0,
                       e_parent := Some dp, e_off := off, e_clus_cnt := 0, e_cur_clus := 0, e_dirty := False,
                       e_filename := (strncpy (e_filename e) name 255)[255 := 0]\<rparr>)
                 in rbind (if attr = ucast ATTR_DIRECTORY then ealloc_dots fs4 dp ep else Ok fs4) (\<lambda>fs5.
                    rbind (emake fs5 dp ep off) (\<lambda>fs6.
                    rmap (\<lambda>fs7. (Some ep, fs7)) (eunlock (upd_ent fs6 ep (\<lambda>e. e\<lparr>e_valid := 1\<rparr>)) ep)))))))"

section \<open>Paths\<close>

function lookup_loop :: "fs \<Rightarrow> eptr \<Rightarrow> bytes \<Rightarrow> bool \<Rightarrow> bytes \<Rightarrow> (eptr option \<times> bytes \<times> fs) res" where
  "lookup_loop fs p path parent name =
     (case skipelem path of
        None \<Rightarrow> if parent then rmap (\<lambda>fs1. (None, name, fs1)) (eput fs p) else Ok (Some p, name, fs)
      | Some (elem, rest) \<Rightarrow>
          rbind (elock fs p) (\<lambda>fs1.
            if e_attribute (ent fs1 p) AND ATTR_DIRECTORY = 0 then
              rbind (eunlock fs1 p) (\<lambda>fs2. rmap (\<lambda>fs3. (None, elem, fs3)) (eput fs2 p))
            else if parent \<and> deref rest = 0 then rmap (\<lambda>fs2. (Some p, elem, fs2)) (eunlock fs1 p)
            else rbind (dirlookup fs1 p elem False) (\<lambda>(r, _, fs2).
              rbind (eunlock fs2 p) (\<lambda>fs3.
              rbind (eput fs3 p) (\<lambda>fs4.
                case r of None \<Rightarrow> Ok (None, elem, fs4) | Some q \<Rightarrow> lookup_loop fs4 q rest parent elem)))))"
  by pat_completeness auto
termination
  by (relation "measure (\<lambda>(fs, p, path, parent, name). length path)") (auto dest: skipelem_shorter)

declare lookup_loop.simps [simp del]

definition lookup_path :: "fs \<Rightarrow> eptr \<Rightarrow> bytes \<Rightarrow> bool \<Rightarrow> bytes \<Rightarrow> (eptr option \<times> bytes \<times> fs) res" where
  "lookup_path fs cwd path parent name =
     (if deref path = SLASH then lookup_loop (edup fs Root) Root path parent name
      else if deref path \<noteq> 0 then lookup_loop (edup fs cwd) cwd path parent name
      else Ok (None, name, fs))"

definition ename :: "fs \<Rightarrow> eptr \<Rightarrow> bytes \<Rightarrow> (eptr option \<times> fs) res" where
  "ename fs cwd path = rmap (\<lambda>(r, name, fs1). (r, fs1)) (lookup_path fs cwd path False [])"

definition enameparent :: "fs \<Rightarrow> eptr \<Rightarrow> bytes \<Rightarrow> bytes \<Rightarrow> (eptr option \<times> bytes \<times> fs) res" where
  "enameparent fs cwd path name = lookup_path fs cwd path True name"

section \<open>Pointers\<close>

definition ptr_ok :: "fs \<Rightarrow> eptr \<Rightarrow> bool" where
  "ptr_ok fs p \<longleftrightarrow> (case p of Root \<Rightarrow> True | Ent i \<Rightarrow> i < length (fs_entries fs))"

lemma ptr_ok_simps [simp]: "ptr_ok fs Root" "ptr_ok fs (Ent i) \<longleftrightarrow> i < length (fs_entries fs)"
  by (simp_all add: ptr_ok_def)

lemma upd_ent_fields [simp]:
  "fs_fat (upd_ent fs p g) = fs_fat fs" "fs_blk (upd_ent fs p g) = fs_blk fs" "fs_lru (upd_ent fs p g) = fs_lru fs"
  "length (fs_entries (upd_ent fs p g)) = length (fs_entries fs)"
  by (cases p; simp)+

lemma upd_ent_blk [simp]: "upd_ent (fs\<lparr>fs_blk := s\<rparr>) p g = (upd_ent fs p g)\<lparr>fs_blk := s\<rparr>"
  by (cases p) simp_all

lemma ent_blk [simp]: "ent (fs\<lparr>fs_blk := s\<rparr>) p = ent fs p"
  by (cases p) simp_all

lemma ptr_ok_upd [simp]: "ptr_ok (upd_ent fs p g) q = ptr_ok fs q" "ptr_ok (fs\<lparr>fs_blk := s\<rparr>) q = ptr_ok fs q"
  by (cases q; simp)+

lemma ent_upd: "ptr_ok fs p \<Longrightarrow> ent (upd_ent fs p g) q = (if q = p then g (ent fs p) else ent fs q)"
  by (cases p; cases q) simp_all

lemma ent_upd_same [simp]: "ptr_ok fs p \<Longrightarrow> ent (upd_ent fs p g) p = g (ent fs p)"
  by (simp add: ent_upd)

lemma ent_upd_other [simp]: "q \<noteq> p \<Longrightarrow> ent (upd_ent fs p g) q = ent fs q"
  by (cases p; cases q) simp_all

lemma upd_ent_twice [simp]: "upd_ent (upd_ent fs p (\<lambda>_. a)) p (\<lambda>_. b) = upd_ent fs p (\<lambda>_. b)"
  by (cases p) simp_all

lemma upd_ent_id [simp]: "upd_ent fs p (\<lambda>_. ent fs p) = fs"
  by (cases p) simp_all

lemma upd_ent_const: "upd_ent fs p g = upd_ent fs p (\<lambda>_. g (ent fs p))"
  by (cases p) simp_all

lemma upd_ent_swap: "p \<noteq> q \<Longrightarrow> upd_ent (upd_ent fs p (\<lambda>_. a)) q (\<lambda>_. b) = upd_ent (upd_ent fs q (\<lambda>_. b)) p (\<lambda>_. a)"
  by (cases p; cases q) (simp_all add: list_update_swap)

section \<open>Slots of a directory\<close>

text \<open>Behind the end of the chain a position can not be reached without allocating.\<close>

lemma reloc_fwd_past:
  assumes wf: "fat_wf f" and ch: "chain_ok f s cs" and n: "length cs \<le> unat n"
  shows "e_cur_clus e = cs ! unat (e_clus_cnt e) \<Longrightarrow> unat (e_clus_cnt e) < length cs \<Longrightarrow>
    reloc_fwd f s e n False = Ok (False, e\<lparr>e_cur_clus := e_first_clus e, e_clus_cnt := 0\<rparr>, s)"
proof (induction "length cs - unat (e_clus_cnt e)" arbitrary: e)
  case (Suc k)
  let ?i = "unat (e_clus_cnt e)"
  have lt: "e_clus_cnt e < n" using Suc.prems(2) n by (simp add: word_less_nat_alt)
  have u: "unat (e_clus_cnt e + 1) = Suc ?i" using Suc.prems(2) n unat_lt32 [of n] by (simp add: unat_word_ariths)
  show ?case
  proof (cases "Suc ?i < length cs")
    case True
    have nx: "read_fat f s (e_cur_clus e) = cs ! Suc ?i" using ch Suc.prems(1) True by (simp add: chain_ok_def)
    have ok: "clus_ok f (cs ! Suc ?i)" using chain_clus [OF ch True] .
    let ?e = "e\<lparr>e_cur_clus := cs ! Suc ?i, e_clus_cnt := e_clus_cnt e + 1\<rparr>"
    have "reloc_fwd f s e n False = reloc_fwd f s ?e n False"
      using lt nx clus_not_eoc [OF wf ok] by (subst reloc_fwd.simps) (simp add: Let_def)
    also have "\<dots> = Ok (False, ?e\<lparr>e_cur_clus := e_first_clus ?e, e_clus_cnt := 0\<rparr>, s)"
      by (rule Suc.hyps(1)) (use Suc True u in auto)
    finally show ?thesis by simp
  next
    case False
    then have "cs ! ?i = List.last cs" using Suc.prems(2) by (metis Suc_lessI diff_Suc_1 last_conv_nth list.size(3) not_less_zero)
    then have "sint FAT32_EOC \<le> sint (read_fat f s (e_cur_clus e))" using ch Suc.prems(1) eoc_signed by (simp add: chain_ok_def)
    then show ?thesis using lt by (subst reloc_fwd.simps) (simp add: Let_def)
  qed
qed simp

lemma reloc_clus_past:
  assumes "fat_wf f" and "entry_ok f s e cs" and "length cs * unat (byts_per_clus f) \<le> unat off"
  shows "\<exists>e1. reloc_clus f s e off False = Ok (None, e1, s) \<and> entry_ok f s e1 cs \<and> moved e e1"
proof -
  let ?e = "e\<lparr>e_cur_clus := e_first_clus e, e_clus_cnt := 0\<rparr>"
  have B: "0 < unat (byts_per_clus f)" using bpc_pos [OF assms(1)] by (simp add: word_less_nat_alt)
  have "length cs \<le> unat (off div byts_per_clus f)" using assms(3) B by (simp add: unat_div less_eq_div_iff_mult_less_eq)
  then have "reloc_fwd f s e (off div byts_per_clus f) False = Ok (False, ?e, s)"
    using reloc_fwd_past [OF assms(1), of s cs] assms(2) by (simp add: entry_ok_def)
  then have "reloc_clus f s e off False = Ok (None, ?e, s)" by (simp add: reloc_clus_def Let_def)
  moreover have "entry_ok f s ?e cs" using assms(2) by (auto simp: entry_ok_def chain_ok_def hd_conv_nth)
  ultimately show ?thesis unfolding moved_def by blast
qed

lemma mem_put_other: "(\<And>i. i < length bs \<Longrightarrow> x \<noteq> a + of_nat i) \<Longrightarrow> mem_put m a bs x = m x"
proof (induction bs arbitrary: m a)
  case (Cons b bs)
  have "x \<noteq> a + 1 + of_nat i" if "i < length bs" for i using Cons.prems [of "Suc i"] that by (simp add: algebra_simps)
  moreover have "x \<noteq> a" using Cons.prems [of 0] by simp
  moreover have "(m(a := b)) x = m x" using \<open>x \<noteq> a\<close> by simp
  ultimately show ?case using Cons.IH [of "a + 1" "m(a := b)"] by (simp del: fun_upd_apply)
qed simp

lemma mem_get_put: "length bs < 2 ^ 64 \<Longrightarrow> mem_get (mem_put m a bs) a (length bs) = bs"
proof (induction bs arbitrary: m a)
  case (Cons b bs)
  have l: "length bs < 2 ^ 64" using Cons.prems by simp
  have "a \<noteq> a + 1 + of_nat i" if "i < length bs" for i
  proof
    assume "a = a + 1 + of_nat i"
    then have "(0 :: u64) = of_nat (Suc i)" by (simp add: algebra_simps)
    then have "unat (of_nat (Suc i) :: u64) = 0" by simp
    then show False using that Cons.prems by (simp add: unat_of_nat del: of_nat_Suc)
  qed
  then have "mem_put (m(a := b)) (a + 1) bs a = b" using mem_put_other [of bs a "a + 1" "m(a := b)"] by (simp del: fun_upd_apply) simp
  then have "mem_get (mem_put (m(a := b)) (a + 1) bs) a (1 + length bs) = b # mem_get (mem_put (m(a := b)) (a + 1) bs) (a + 1) (length bs)"
    unfolding mem_get_add by (simp add: mem_get_def)
  then show ?case using Cons.IH [OF l] by simp
qed (simp add: mem_get_def)

text \<open>The directory behind the entry \<open>dp\<close>: its chain and its bytes.\<close>

definition dir_at :: "fs \<Rightarrow> eptr \<Rightarrow> u32 list \<Rightarrow> bool" where
  "dir_at fs dp cs \<longleftrightarrow> fat_wf (fs_fat fs) \<and> blk_wf (fs_blk fs) \<and> ptr_ok fs dp \<and> entry_ok (fs_fat fs) (fs_blk fs) (ent fs dp) cs"

definition dir_bytes :: "fs \<Rightarrow> u32 list \<Rightarrow> bytes" where
  "dir_bytes fs cs = file_bytes (fs_fat fs) (fs_blk fs) cs"

lemma dir_bytes_upd [simp]: "dir_bytes (upd_ent fs p g) cs = dir_bytes fs cs"
  by (simp add: dir_bytes_def)

definition dir_moved :: "eptr \<Rightarrow> fs \<Rightarrow> fs \<Rightarrow> bool" where
  "dir_moved dp fs fs' \<longleftrightarrow> (\<exists>e1. moved (ent fs dp) e1 \<and> fs' = upd_ent fs dp (\<lambda>_. e1))"

lemma dir_moved_refl [simp]: "dir_moved dp fs fs"
  unfolding dir_moved_def by (rule exI [of _ "ent fs dp"]) simp

lemma dir_moved_trans: "ptr_ok fs dp \<Longrightarrow> dir_moved dp fs fs1 \<Longrightarrow> dir_moved dp fs1 fs2 \<Longrightarrow> dir_moved dp fs fs2"
  unfolding dir_moved_def using moved_trans by clarsimp blast

lemma dir_moved_simps:
  assumes "dir_moved dp fs fs'"
  shows "fs_fat fs' = fs_fat fs" "fs_blk fs' = fs_blk fs" "fs_lru fs' = fs_lru fs" "length (fs_entries fs') = length (fs_entries fs)"
    "dir_bytes fs' cs = dir_bytes fs cs" "q \<noteq> dp \<Longrightarrow> ent fs' q = ent fs q" "ptr_ok fs' q = ptr_ok fs q"
  using assms by (auto simp: dir_moved_def)

lemma slot_in_cluster:
  assumes wf: "fat_wf f" and al: "unat off mod 32 = 0" and le: "unat off + n \<le> L * unat (byts_per_clus f)" and n: "0 < n" "n \<le> 32"
  shows "unat off div unat (byts_per_clus f) < L" and "unat (off mod byts_per_clus f) + n \<le> unat (byts_per_clus f)"
proof -
  let ?B = "unat (byts_per_clus f)"
  have B: "0 < ?B" using bpc_pos [OF wf] by (simp add: word_less_nat_alt)
  have "unat off < L * ?B" using le n by linarith
  then show "unat off div ?B < L" using B by (simp add: div_less_iff_less_mult)
  have d: "32 dvd ?B" using unat_bpc [OF wf] by simp
  have "32 dvd unat off" using al by presburger
  then have "32 dvd unat off mod ?B" using d by (rule dvd_mod)
  then obtain q where q: "unat off mod ?B = 32 * q" by (auto elim: dvdE)
  obtain b where b: "?B = 32 * b" using d by (auto elim: dvdE)
  have "unat off mod ?B < ?B" using B by simp
  then have "q < b" using q b by simp
  then have "32 * q + 32 \<le> 32 * b" by simp
  then show "unat (off mod byts_per_clus f) + n \<le> ?B" using q b n by (simp add: unat_mod)
qed

lemma rd_slot:
  assumes d: "dir_at fs dp cs" and al: "unat off mod 32 = 0" and le: "unat off + unat n \<le> length (dir_bytes fs cs)"
    and n: "0 < unat n" "unat n \<le> 32"
  shows "\<exists>r fs1. reloc_ent fs dp off False = Ok (Some r, fs1) \<and> dir_moved dp fs fs1 \<and> dir_at fs1 dp cs \<and>
    rd_ent fs1 dp r n = Ok (n, take (unat n) (drop (unat off) (dir_bytes fs cs)))"
proof -
  let ?f = "fs_fat fs" and ?s = "fs_blk fs" and ?e = "ent fs dp"
  let ?B = "unat (byts_per_clus ?f)" and ?q = "unat off div unat (byts_per_clus (fs_fat fs))"
  have wf: "fat_wf ?f" "blk_wf ?s" and p: "ptr_ok fs dp" and e: "entry_ok ?f ?s ?e cs" using d by (auto simp: dir_at_def)
  have le': "unat off + unat n \<le> length cs * ?B" using le length_file_bytes [OF wf] by (simp add: dir_bytes_def)
  note sl = slot_in_cluster [OF wf(1) al le' n]
  let ?e1 = "?e\<lparr>e_cur_clus := cs ! ?q, e_clus_cnt := off div byts_per_clus ?f\<rparr>"
  let ?fs = "upd_ent fs dp (\<lambda>_. ?e1)"
  have r: "reloc_ent fs dp off False = Ok (Some (off mod byts_per_clus ?f), ?fs)"
    unfolding reloc_ent_def using reloc_clus_in [OF wf(1) e sl(1)] by (cases dp) simp_all
  have e1: "entry_ok ?f ?s ?e1 cs" using entry_ok_moved [OF e, of "off div byts_per_clus ?f"] sl(1) by (simp add: unat_div)
  have mv: "dir_moved dp fs ?fs" unfolding dir_moved_def moved_def by blast
  have da: "dir_at ?fs dp cs" using wf p e1 by (simp add: dir_at_def)
  let ?d = "take (unat n) (drop (unat (off mod byts_per_clus ?f)) (clus_bytes ?f ?s (cs ! ?q)))"
  have dat: "?d = take (unat n) (drop (unat off) (dir_bytes fs cs))"
    using concat_chunk [of "map (clus_bytes ?f ?s) cs" ?B ?q "unat off mod ?B" "unat n"] file_blocks [OF wf] sl
    by (simp add: file_bytes_def unat_mod dir_bytes_def)
  have "rw_clus kuio ?f ?s (\<lambda>_. 0) (cs ! ?q) False 0 (off mod byts_per_clus ?f) n = Ok (n, ?s, mem_put (\<lambda>_. 0) 0 ?d)"
    by (rule kmem.rw_clus_read [OF wf sl(2)])
  moreover have "length ?d = unat n" using dat le by simp
  then have "mem_get (mem_put (\<lambda>_. 0) 0 ?d) 0 (unat n) = ?d" using mem_get_put [of ?d "\<lambda>_. 0" 0] n by simp
  ultimately have "rd_ent ?fs dp (off mod byts_per_clus ?f) n = Ok (n, ?d)" using p by (simp add: rd_ent_def)
  with r mv da dat show ?thesis by auto
qed

text \<open>What writing to a directory changes: the entry's position, its chain and its bytes.\<close>

definition dir_step :: "eptr \<Rightarrow> u32 list \<Rightarrow> fs \<Rightarrow> u32 list \<Rightarrow> fs \<Rightarrow> bool" where
  "dir_step dp cs fs cs' fs' \<longleftrightarrow> (\<exists>e1 s1. moved (ent fs dp) e1 \<and> fs' = (upd_ent fs dp (\<lambda>_. e1))\<lparr>fs_blk := s1\<rparr> \<and>
     keeps (fs_fat fs) cs (fs_blk fs) cs' s1)"

lemma dir_step_trans: "ptr_ok fs dp \<Longrightarrow> dir_step dp cs fs cs1 fs1 \<Longrightarrow> dir_step dp cs1 fs1 cs2 fs2 \<Longrightarrow> dir_step dp cs fs cs2 fs2"
  unfolding dir_step_def by clarsimp (blast intro: moved_trans keeps_trans)

lemma dir_step_refl: "blk_wf (fs_blk fs) \<Longrightarrow> dir_step dp cs fs cs fs"
  unfolding dir_step_def by (rule exI [of _ "ent fs dp"], rule exI [of _ "fs_blk fs"]) (simp add: keeps_refl)

lemma dir_step_simps:
  assumes "dir_step dp cs fs cs' fs'"
  shows "fs_fat fs' = fs_fat fs" "fs_lru fs' = fs_lru fs" "length (fs_entries fs') = length (fs_entries fs)"
    "q \<noteq> dp \<Longrightarrow> ent fs' q = ent fs q" "ptr_ok fs' q = ptr_ok fs q" "keeps (fs_fat fs) cs (fs_blk fs) cs' (fs_blk fs')"
    "ptr_ok fs dp \<Longrightarrow> moved (ent fs dp) (ent fs' dp)"
  using assms by (auto simp: dir_step_def)

definition dir_room :: "fs \<Rightarrow> u32 list \<Rightarrow> nat" where
  "dir_room fs cs = (length cs + nfree (fs_fat fs) (fs_blk fs)) * unat (byts_per_clus (fs_fat fs))"

lemma put_dentry_ok:
  assumes d: "dir_at fs dp cs" and res: "fat_reserved (fs_fat fs) (fs_blk fs)" and al: "unat off mod 32 = 0"
    and le: "unat off \<le> length (dir_bytes fs cs)" and room: "unat off + 32 \<le> dir_room fs cs" and de: "length de = 32"
  shows "\<exists>x fs1. put_dentry fs dp off de = Ok fs1 \<and> dir_at fs1 dp (cs @ x) \<and> dir_step dp cs fs (cs @ x) fs1 \<and>
    fat_reserved (fs_fat fs1) (fs_blk fs1) \<and> dir_room fs1 (cs @ x) = dir_room fs cs \<and> (\<exists>z.
    dir_bytes fs1 (cs @ x) = put_bytes (dir_bytes fs cs @ replicate z 0) (unat off) de \<and> unat off + 32 \<le> length (dir_bytes fs cs) + z)"
proof -
  let ?f = "fs_fat fs" and ?s = "fs_blk fs" and ?e = "ent fs dp"
  let ?B = "unat (byts_per_clus ?f)" and ?q = "unat off div unat (byts_per_clus (fs_fat fs))"
  have wf: "fat_wf ?f" "blk_wf ?s" and p: "ptr_ok fs dp" and e: "entry_ok ?f ?s ?e cs" using d by (auto simp: dir_at_def)
  have len: "length (dir_bytes fs cs) = length cs * ?B" using length_file_bytes [OF wf] by (simp add: dir_bytes_def)
  have o1: "unat off \<le> length cs * ?B" using le len by simp
  have o2: "unat off < (length cs + nfree ?f ?s) * ?B" using room by (simp add: dir_room_def)
  obtain x e1 s1 where r: "reloc_clus ?f ?s ?e off True = Ok (Some (off mod byts_per_clus ?f), e1, s1)" "entry_ok ?f s1 e1 (cs @ x)"
      "keeps ?f cs ?s (cs @ x) s1" "moved ?e e1" "?q < length (cs @ x)" "e_cur_clus e1 = (cs @ x) ! ?q"
      "length (cs @ x) + nfree ?f s1 = length cs + nfree ?f ?s" "file_bytes ?f s1 (cs @ x) = file_bytes ?f ?s cs @ replicate (length x * ?B) 0"
    using reloc_for_write [OF wf e res o1 o2] by blast
  have wf1: "blk_wf s1" using r(3) by (simp add: keeps_def)
  have ch: "chain_ok ?f s1 (cs @ x)" using r(2) by (simp add: entry_ok_def)
  have B: "0 < ?B" using bpc_pos [OF wf(1)] by (simp add: word_less_nat_alt)
  have sl: "unat (off mod byts_per_clus ?f) + 32 \<le> ?B" "unat off + 32 \<le> length (cs @ x) * ?B"
  proof -
    have d: "32 dvd ?B" using unat_bpc [OF wf(1)] by simp
    have "32 dvd unat off" using al by presburger
    then have "32 dvd unat off mod ?B" using d by (rule dvd_mod)
    then obtain t where t: "unat off mod ?B = 32 * t" by (auto elim: dvdE)
    obtain b where b: "?B = 32 * b" using d by (auto elim: dvdE)
    have "t < b" using t b mod_less_divisor [OF B, of "unat off"] by simp
    then have a: "unat off mod ?B + 32 \<le> ?B" using t b by simp
    then show "unat (off mod byts_per_clus ?f) + 32 \<le> ?B" by (simp add: unat_mod)
    have "unat off = ?q * ?B + unat off mod ?B" by simp
    moreover have "?q * ?B + ?B \<le> length (cs @ x) * ?B" using r(5) by (metis Suc_leI add.commute mult_Suc mult_le_mono1)
    ultimately show "unat off + 32 \<le> length (cs @ x) * ?B" using a by linarith
  qed
  have n32: "unat (of_nat (length de) :: u32) = 32" using de by simp
  have sl': "unat (off mod byts_per_clus ?f) + unat (of_nat (length de) :: u32) \<le> ?B" using sl(1) n32 by simp
  obtain s2 where w: "rw_clus kuio ?f s1 (mem_put (\<lambda>_. 0) 0 de) ((cs @ x) ! ?q) True 0 (off mod byts_per_clus ?f) (of_nat (length de)) =
        Ok (of_nat (length de), s2, mem_put (\<lambda>_. 0) 0 de)" "clus_frame ?f ((cs @ x) ! ?q) s1 s2"
      "clus_bytes ?f s2 ((cs @ x) ! ?q) = put_bytes (clus_bytes ?f s1 ((cs @ x) ! ?q)) (unat (off mod byts_per_clus ?f)) de"
    using kmem.rw_clus_write [OF wf(1) wf1 chain_clus [OF ch r(5)] sl', of "mem_put (\<lambda>_. 0) 0 de" 0] mem_get_put [of de "\<lambda>_. 0" 0] de n32
    by auto
  have rl: "unat (off mod byts_per_clus ?f) + length de \<le> ?B" using sl(1) de by simp
  note wc = write_in_chain [OF wf(1) wf1 ch r(5) w(2,3) rl]
  have wf2: "blk_wf s2" and rd: "\<And>c. read_fat ?f s2 c = read_fat ?f s1 c" using w(2) by (simp_all add: clus_frame_def)
  let ?fs = "(upd_ent fs dp (\<lambda>_. e1))\<lparr>fs_blk := s2\<rparr>"
  have k2: "keeps ?f cs ?s (cs @ x) s2" using r(3) keeps_frame [OF w(2)] r(5) keeps_trans nth_mem by metis
  have "put_dentry fs dp off de = Ok ?fs"
    using r(1,6) w(1) p by (simp add: put_dentry_def reloc_ent_def as_uint_def wr_ent_def)
  moreover have "entry_ok ?f s2 e1 (cs @ x)" using r(2) wc(2) by (simp add: entry_ok_def)
  then have "dir_at ?fs dp (cs @ x)" using wf wf2 p by (simp add: dir_at_def)
  moreover have "dir_step dp cs fs (cs @ x) ?fs" unfolding dir_step_def using r(4) k2 by blast
  moreover have "fat_reserved ?f s2" by (rule keeps_reserved [OF wf(1) k2 res]) (use e in \<open>simp add: entry_ok_def chain_ok_def\<close>)
  moreover have "dir_room ?fs (cs @ x) = dir_room fs cs" using r(7) wc(3) by (simp add: dir_room_def)
  moreover have "?q * ?B + unat (off mod byts_per_clus ?f) = unat off" by (simp add: unat_mod)
  then have "dir_bytes ?fs (cs @ x) = put_bytes (dir_bytes fs cs @ replicate (length x * ?B) 0) (unat off) de"
    using wc(1) r(8) by (simp add: dir_bytes_def)
  ultimately show ?thesis using sl(2) len by (intro exI [of _ x] exI [of _ ?fs]) (auto simp: add_mult_distrib)
qed

lemma put_dentries_ok:
  assumes "dir_at fs dp cs" and "fat_reserved (fs_fat fs) (fs_blk fs)" and "unat off mod 32 = 0"
    and "unat off \<le> length (dir_bytes fs cs)" and "unat off + 32 * length des \<le> dir_room fs cs" and "unat off + 32 * length des < 2 ^ 32"
    and "\<And>de. de \<in> set des \<Longrightarrow> length de = 32"
  shows "\<exists>x fs1. put_dentries fs dp off des = Ok (off + of_nat (32 * length des), fs1) \<and> dir_at fs1 dp (cs @ x) \<and> dir_step dp cs fs (cs @ x) fs1 \<and>
    fat_reserved (fs_fat fs1) (fs_blk fs1) \<and> dir_room fs1 (cs @ x) = dir_room fs cs \<and> (\<exists>z.
    dir_bytes fs1 (cs @ x) = put_bytes (dir_bytes fs cs @ replicate z 0) (unat off) (concat des) \<and>
    unat off + 32 * length des \<le> length (dir_bytes fs cs) + z)"
  using assms
proof (induction des arbitrary: fs off cs)
  case Nil
  have "dir_step dp cs fs cs fs" using Nil(1) by (intro dir_step_refl) (simp add: dir_at_def)
  then show ?case using Nil by (intro exI [of _ "[]"] exI [of _ fs]) (auto simp: put_bytes_def intro!: exI [of _ 0])
next
  case (Cons de des)
  have l: "length de = 32" using Cons.prems(7) by simp
  have rm: "unat off + 32 \<le> dir_room fs cs" using Cons.prems(5) by simp
  obtain x fs1 z where s1: "put_dentry fs dp off de = Ok fs1" "dir_at fs1 dp (cs @ x)" "dir_step dp cs fs (cs @ x) fs1"
      "fat_reserved (fs_fat fs1) (fs_blk fs1)" "dir_room fs1 (cs @ x) = dir_room fs cs"
      "dir_bytes fs1 (cs @ x) = put_bytes (dir_bytes fs cs @ replicate z 0) (unat off) de" "unat off + 32 \<le> length (dir_bytes fs cs) + z"
    using put_dentry_ok [OF Cons.prems(1-4) rm l] by blast
  have u: "unat (off + 32) = unat off + 32" using Cons.prems(6) by (simp add: unat_word_ariths)
  have al: "unat (off + 32) mod 32 = 0" using Cons.prems(3) u by presburger
  have lb: "length (dir_bytes fs1 (cs @ x)) = length (dir_bytes fs cs) + z" using s1(6,7) l by (simp add: put_bytes_def)
  have le: "unat (off + 32) \<le> length (dir_bytes fs1 (cs @ x))" using lb s1(7) u by simp
  have r2: "unat (off + 32) + 32 * length des \<le> dir_room fs1 (cs @ x)" "unat (off + 32) + 32 * length des < 2 ^ 32"
    using Cons.prems(5,6) s1(5) u by simp_all
  obtain y fs2 z2 where s2: "put_dentries fs1 dp (off + 32) des = Ok (off + 32 + of_nat (32 * length des), fs2)" "dir_at fs2 dp ((cs @ x) @ y)"
      "dir_step dp (cs @ x) fs1 ((cs @ x) @ y) fs2" "fat_reserved (fs_fat fs2) (fs_blk fs2)" "dir_room fs2 ((cs @ x) @ y) = dir_room fs1 (cs @ x)"
      "dir_bytes fs2 ((cs @ x) @ y) = put_bytes (dir_bytes fs1 (cs @ x) @ replicate z2 0) (unat (off + 32)) (concat des)"
      "unat (off + 32) + 32 * length des \<le> length (dir_bytes fs1 (cs @ x)) + z2"
    using Cons.IH [OF s1(2,4) al le r2] Cons.prems(7) by auto
  have p: "ptr_ok fs dp" using Cons.prems(1) by (simp add: dir_at_def)
  have st: "dir_step dp cs fs ((cs @ x) @ y) fs2" by (rule dir_step_trans [OF p s1(3) s2(3)])
  have "dir_bytes fs2 ((cs @ x) @ y) = put_bytes (put_bytes (dir_bytes fs cs @ replicate z 0) (unat off) de @ replicate z2 0) (unat off + length de) (concat des)"
    using s2(6) s1(6) u l by simp
  also have "\<dots> = put_bytes ((dir_bytes fs cs @ replicate z 0) @ replicate z2 0) (unat off) (de @ concat des)"
    by (rule put_put) (use s1(7) l in simp)
  finally have b: "dir_bytes fs2 ((cs @ x) @ y) = put_bytes (dir_bytes fs cs @ replicate (z + z2) 0) (unat off) (concat (de # des))"
    by (simp add: replicate_add)
  have ln: "unat off + 32 * length (de # des) \<le> length (dir_bytes fs cs) + (z + z2)" using s2(7) lb u by simp
  have "put_dentries fs dp off (de # des) = Ok (off + of_nat (32 * length (de # des)), fs2)" using s1(1) s2(1) by (simp add: algebra_simps)
  with s2(2,4,5) s1(5) st b ln show ?case by (intro exI [of _ "x @ y"] exI [of _ fs2]) auto
qed

end
