(* ===== verification/FatTree.thy ===== *)
theory FatTree
  imports FatDir
begin

text \<open>
  A directory as a list of items: deleted slots, entries with a short name only (\<^verbatim>\<open>.\<close> and \<^verbatim>\<open>..\<close>) and files
  with their long and short entries. The lemmas show that \<^verbatim>\<open>enext\<close>, \<^verbatim>\<open>dirlookup\<close>, \<^verbatim>\<open>emake\<close> and \<^verbatim>\<open>ealloc\<close> of theory
  \<open>FatDir\<close> implement a search in this list and an insertion at its end.
\<close>

lemma upd_ent_same_blk [simp]: "(upd_ent fs p g)\<lparr>fs_blk := fs_blk fs\<rparr> = upd_ent fs p g"
  by (cases p) simp_all

declare upd_ent.simps [simp del] ent.simps [simp del]

section \<open>Items and their slots\<close>

datatype ditem = Deleted bytes | Short bytes | File bytes u8 u32 u32

fun slots :: "ditem \<Rightarrow> bytes list" where
  "slots (Deleted d) = [d]"
| "slots (Short d) = [d]"
| "slots (File name attr clus sz) = lne_list name @ [sne_entry (generate_shortname name) attr clus sz]"

definition slot_used :: "bytes \<Rightarrow> bool" where
  "slot_used d \<longleftrightarrow> length d = 32 \<and> d ! 0 \<noteq> END_OF_ENTRY \<and> d ! 0 \<noteq> EMPTY_ENTRY"

fun item_ok :: "ditem \<Rightarrow> bool" where
  "item_ok (Deleted d) \<longleftrightarrow> length d = 32 \<and> d ! 0 = EMPTY_ENTRY"
| "item_ok (Short d) \<longleftrightarrow> slot_used d \<and> dentry_attr d \<noteq> ATTR_LONG_NAME"
| "item_ok (File name attr clus sz) \<longleftrightarrow> 0 < strlen name \<and> strlen name \<le> FAT32_MAX_FILENAME \<and>
     slot_used (sne_entry (generate_shortname name) attr clus sz) \<and> attr \<noteq> ATTR_LONG_NAME"

fun item_name :: "ditem \<Rightarrow> bytes" where
  "item_name (Deleted d) = []"
| "item_name (Short d) = cstr (read_entry_name (replicate 256 0) d)"
| "item_name (File name attr clus sz) = cstr name"

fun is_deleted :: "ditem \<Rightarrow> bool" where
  "is_deleted (Deleted d) = True"
| "is_deleted (Short d) = False"
| "is_deleted (File name attr clus sz) = False"

abbreviation nslots :: "ditem list \<Rightarrow> nat" where
  "nslots items \<equiv> length (concat (map slots items))"

lemma length_lne_entry [simp]: "length (lne_entry ord chk p) = 32"
  by (simp add: lne_entry_def Let_def)

lemma lne_entry_attr [simp]: "dentry_attr (lne_entry ord chk p) = ATTR_LONG_NAME"
  by (simp add: dentry_attr_def lne_entry_def Let_def nth_append)

lemma lne_entry_order [simp]: "lne_entry ord chk p ! 0 = ord"
  by (simp add: lne_entry_def Let_def)

lemma length_strncpy [simp]: "length (strncpy s t n) = length s"
  by (simp add: strncpy_def)

lemma length_sne_entry [simp]: "length (sne_entry name attr clus sz) = 32"
  by (simp add: sne_entry_def)

lemma sne_entry_attr [simp]: "dentry_attr (sne_entry name attr clus sz) = attr"
  by (simp add: dentry_attr_def sne_entry_def nth_append)

lemma sne_entry_clus:
  "push_bit 16 (ucast (le16 (sne_entry name attr clus sz) 20)) OR ucast (le16 (sne_entry name attr clus sz) 26) = clus"
proof (rule bit_word_eqI)
  fix n assume n: "n < LENGTH(32)"
  consider "n < 8" | "8 \<le> n" "n < 16" | "16 \<le> n" "n < 24" | "24 \<le> n" by linarith
  then show "bit (push_bit 16 (ucast (le16 (sne_entry name attr clus sz) 20)) OR ucast (le16 (sne_entry name attr clus sz) 26) :: u32) n = bit clus n"
    by cases (use n in \<open>auto simp: le16_def sne_entry_def nth_append bit_simps\<close>)
qed

lemma sne_entry_size: "le32 (sne_entry name attr clus sz) 28 = sz"
proof (rule bit_word_eqI)
  fix n assume n: "n < LENGTH(32)"
  consider "n < 8" | "8 \<le> n" "n < 16" | "16 \<le> n" "n < 24" | "24 \<le> n" by linarith
  then show "bit (le32 (sne_entry name attr clus sz) 28) n = bit sz n"
    by cases (use n in \<open>auto simp: le32_def sne_entry_def nth_append bit_simps\<close>)
qed

lemma read_sne_info:
  "read_entry_info e (sne_entry name attr clus sz) =
     e\<lparr>e_attribute := attr, e_first_clus := clus, e_file_size := sz, e_cur_clus := clus, e_clus_cnt := 0\<rparr>"
  using sne_entry_attr [of name attr clus sz]
  by (simp add: read_entry_info_def Let_def sne_entry_clus sne_entry_size dentry_attr_def)

lemma lne_order_bits:
  assumes "0 < i" "i \<le> n" "n \<le> 20"
  shows "lne_order i n \<noteq> 0" "lne_order i n \<noteq> 0xe5" "lne_order i n AND LAST_LONG_ENTRY = 0 \<longleftrightarrow> i \<noteq> n"
proof -
  have lt: "i < 21" using assms by simp
  have "\<forall>k < 21. 0 < k \<longrightarrow> (of_nat k :: u8) \<noteq> 0 \<and> (of_nat k :: u8) \<noteq> 0xe5 \<and> (of_nat k :: u8) AND LAST_LONG_ENTRY = 0 \<and>
      (of_nat k :: u8) OR LAST_LONG_ENTRY \<noteq> 0 \<and> (of_nat k :: u8) OR LAST_LONG_ENTRY \<noteq> 0xe5 \<and>
      ((of_nat k :: u8) OR LAST_LONG_ENTRY) AND LAST_LONG_ENTRY \<noteq> 0" by code_simp
  with lt assms(1) show "lne_order i n \<noteq> 0" "lne_order i n \<noteq> 0xe5" "lne_order i n AND LAST_LONG_ENTRY = 0 \<longleftrightarrow> i \<noteq> n"
    unfolding lne_order_def by auto
qed

lemma length_lne_list [simp]: "length (lne_list name) = lne_count name"
  by (simp add: lne_list_def Let_def)

lemma slots_length: "item_ok it \<Longrightarrow> d \<in> set (slots it) \<Longrightarrow> length d = 32"
  by (cases it) (auto simp: slot_used_def lne_list_def Let_def)

lemma slots_nonempty: "slots it \<noteq> []"
  by (cases it) simp_all

section \<open>Reading the slots in order\<close>

text \<open>A directory whose slots are \<open>sl\<close>, with nothing but zeros behind them.\<close>

definition dir_holds :: "fs \<Rightarrow> eptr \<Rightarrow> u32 list \<Rightarrow> bytes list \<Rightarrow> bool" where
  "dir_holds fs dp cs sl \<longleftrightarrow> dir_at fs dp cs \<and> (\<exists>z. dir_bytes fs cs = concat sl @ replicate z 0) \<and> (\<forall>d \<in> set sl. length d = 32) \<and>
     length (dir_bytes fs cs) < 2 ^ 32"

lemma dir_holds_other: "q \<noteq> dp \<Longrightarrow> dir_holds (upd_ent fs q g) dp cs sl = dir_holds fs dp cs sl"
  by (simp add: dir_holds_def dir_at_def)

lemma length_slots: "\<forall>d \<in> set sl. length d = 32 \<Longrightarrow> length (concat sl) = 32 * length sl"
  by (induction sl) auto

lemma dir_holds_bound: "dir_holds fs dp cs sl \<Longrightarrow> 32 * length sl \<le> length (dir_bytes fs cs) \<and> 32 * length sl < 2 ^ 32"
  using length_slots [of sl] by (auto simp: dir_holds_def)

lemma dir_holds_moved: "dir_holds fs dp cs sl \<Longrightarrow> dir_moved dp fs fs1 \<Longrightarrow> dir_at fs1 dp cs \<Longrightarrow> dir_holds fs1 dp cs sl"
  by (simp add: dir_holds_def dir_moved_simps)

definition slot_off :: "nat \<Rightarrow> u32" where
  "slot_off i = of_nat (32 * i)"

lemma unat_slot: "32 * i < 2 ^ 32 \<Longrightarrow> unat (slot_off i) = 32 * i"
  by (simp add: slot_off_def unat_of_nat del: of_nat_mult)

lemma next_slot: "slot_off i + 32 = slot_off (Suc i)"
  by (simp add: slot_off_def)

lemma slot_off_add: "slot_off i + push_bit 5 (of_nat n) = slot_off (i + n)"
  by (simp add: slot_off_def push_bit_eq_mult algebra_simps)

text \<open>One iteration of the loop of \<^verbatim>\<open>enext\<close> on a slot of the directory.\<close>

lemma enext_step:
  assumes h: "dir_holds fs dp cs sl" and i: "i < length sl"
  shows "\<exists>fs1. dir_moved dp fs fs1 \<and> dir_holds fs1 dp cs sl \<and>
    enext_loop (Suc k) fs dp ep (slot_off i) cnt live c =
      (let de = sl ! i in
       if de ! 0 = END_OF_ENTRY then Ok (-1, c, ep, fs1)
       else if de ! 0 = EMPTY_ENTRY then enext_loop k fs1 dp ep (slot_off (Suc i)) (cnt + 1) live c
       else if cnt \<noteq> 0 then if live then Ok (0, cnt, ep, fs1) else Panic ''null''
       else if dentry_attr de = ATTR_LONG_NAME then
         let lcnt = lne_index de;
             ep1 = ep\<lparr>e_filename := put_at ((lcnt - 1) * CHAR_LONG_NAME) (\<lambda>b. read_entry_name b de) (e_filename ep)\<rparr>
         in if lcnt = 0 \<or> 20 < lcnt then Panic ''overflow''
            else if de ! 0 AND LAST_LONG_ENTRY \<noteq> 0
            then if live then enext_loop k fs1 dp ep1 (slot_off (Suc i)) cnt False (of_nat lcnt + 1) else Panic ''null''
            else enext_loop k fs1 dp ep1 (slot_off (Suc i)) cnt live c
       else if live then Ok (1, 1, read_entry_info (ep\<lparr>e_filename := read_entry_name (e_filename ep) de\<rparr>) de, fs1)
       else Ok (1, c, read_entry_info ep de, fs1))"
proof -
  have d: "dir_at fs dp cs" and sl: "\<forall>d \<in> set sl. length d = 32" using h by (auto simp: dir_holds_def)
  obtain z where z: "dir_bytes fs cs = concat sl @ replicate z 0" using h by (auto simp: dir_holds_def)
  have u: "unat (slot_off i) = 32 * i" by (rule unat_slot) (use dir_holds_bound [OF h] i in simp)
  have al: "unat (slot_off i) mod 32 = 0" unfolding u by simp
  have le: "unat (slot_off i) + unat (32 :: u32) \<le> length (dir_bytes fs cs)" unfolding u using dir_holds_bound [OF h] i by simp
  obtain r fs1 where r: "reloc_ent fs dp (slot_off i) False = Ok (Some r, fs1)" "dir_moved dp fs fs1" "dir_at fs1 dp cs"
      "rd_ent fs1 dp r 32 = Ok (32, take (unat (32 :: u32)) (drop (unat (slot_off i)) (dir_bytes fs cs)))"
    using rd_slot [OF d al le] by auto
  have "take 32 (drop (32 * i) (concat sl @ replicate z 0)) = take 32 (drop (32 * i) (concat sl))"
    using length_slots [OF sl] i by simp
  also have "\<dots> = sl ! i" using concat_chunk [of sl 32 i 0 32] sl i by (simp add: mult.commute)
  finally have de: "rd_ent fs1 dp r 32 = Ok (32, sl ! i)" using r(4) unfolding z u by simp
  have h1: "dir_holds fs1 dp cs sl" by (rule dir_holds_moved [OF h r(2,3)])
  show ?thesis
    by (intro exI [of _ fs1] conjI r(2) h1) (simp add: r(1) de next_slot Let_def)
qed

text \<open>Behind the last slot: zeros, or the end of the chain.\<close>

lemma enext_end:
  assumes h: "dir_holds fs dp cs sl"
  shows "\<exists>fs1. dir_moved dp fs fs1 \<and> dir_holds fs1 dp cs sl \<and>
    enext_loop (Suc k) fs dp ep (slot_off (length sl)) cnt live c = Ok (-1, c, ep, fs1)"
proof -
  let ?L = "length (dir_bytes fs cs)"
  have d: "dir_at fs dp cs" and sl: "\<forall>d \<in> set sl. length d = 32" using h by (auto simp: dir_holds_def)
  then have wf: "fat_wf (fs_fat fs)" "blk_wf (fs_blk fs)" and e: "entry_ok (fs_fat fs) (fs_blk fs) (ent fs dp) cs" and p: "ptr_ok fs dp"
    by (auto simp: dir_at_def)
  obtain z where z: "dir_bytes fs cs = concat sl @ replicate z 0" using h by (auto simp: dir_holds_def)
  have u: "unat (slot_off (length sl)) = 32 * length sl" by (rule unat_slot) (use dir_holds_bound [OF h] in simp)
  have L: "?L = length cs * unat (byts_per_clus (fs_fat fs))" using length_file_bytes [OF wf] by (simp add: dir_bytes_def)
  have "32 dvd ?L" unfolding L unat_bpc [OF wf(1)] by simp
  moreover have Lz: "?L = 32 * length sl + z" using z length_slots [OF sl] by simp
  ultimately have "32 dvd z" by (simp add: dvd_add_right_iff)
  show ?thesis
  proof (cases "z = 0")
    case True
    obtain e1 where e1: "reloc_clus (fs_fat fs) (fs_blk fs) (ent fs dp) (slot_off (length sl)) False = Ok (None, e1, fs_blk fs)"
        "entry_ok (fs_fat fs) (fs_blk fs) e1 cs" "moved (ent fs dp) e1"
      using reloc_clus_past [OF wf(1) e, of "slot_off (length sl)"] L Lz u True by auto
    let ?fs = "upd_ent fs dp (\<lambda>_. e1)"
    have mv: "dir_moved dp fs ?fs" unfolding dir_moved_def using e1(3) by blast
    have "dir_at ?fs dp cs" using wf p e1(2) by (simp add: dir_at_def)
    from dir_holds_moved [OF h mv this] have h1: "dir_holds ?fs dp cs sl" .
    have "reloc_ent fs dp (slot_off (length sl)) False = Ok (None, ?fs)" using e1(1) by (cases dp) (simp_all add: reloc_ent_def)
    then show ?thesis by (intro exI [of _ ?fs] conjI mv h1) simp
  next
    case False
    then have z32: "32 \<le> z" using \<open>32 dvd z\<close> by (auto elim: dvdE)
    have al: "unat (slot_off (length sl)) mod 32 = 0" unfolding u by simp
    have le: "unat (slot_off (length sl)) + unat (32 :: u32) \<le> ?L" unfolding u using Lz z32 by simp
    obtain r fs1 where r: "reloc_ent fs dp (slot_off (length sl)) False = Ok (Some r, fs1)" "dir_moved dp fs fs1" "dir_at fs1 dp cs"
        "rd_ent fs1 dp r 32 = Ok (32, take (unat (32 :: u32)) (drop (unat (slot_off (length sl))) (dir_bytes fs cs)))"
      using rd_slot [OF d al le] by auto
    have "drop (32 * length sl) (dir_bytes fs cs) = replicate z 0" using z length_slots [OF sl] by simp
    then have de: "rd_ent fs1 dp r 32 = Ok (32, replicate 32 0)" using r(4) z32 unfolding u by simp
    have h1: "dir_holds fs1 dp cs sl" by (rule dir_holds_moved [OF h r(2,3)])
    have "replicate 32 (0 :: u8) ! 0 = 0" by simp
    with r(1) de show ?thesis by (intro exI [of _ fs1] conjI r(2) h1) simp
  qed
qed

declare enext_loop.simps(2) [simp del]

definition lne_rest :: "bytes \<Rightarrow> bool" where
  "lne_rest d \<longleftrightarrow> slot_used d \<and> dentry_attr d = ATTR_LONG_NAME \<and> d ! 0 AND LAST_LONG_ENTRY = 0 \<and> 0 < lne_index d \<and> lne_index d \<le> 20"

lemma dir_holds_ptr: "dir_holds fs dp cs sl \<Longrightarrow> ptr_ok fs dp"
  by (simp add: dir_holds_def dir_at_def)

text \<open>The long entries that follow the first one, and the short entry.\<close>

lemma enext_rest:
  assumes "dir_holds fs dp cs (A @ ds @ d # C)" and "\<And>x. x \<in> set ds \<Longrightarrow> lne_rest x" and d: "slot_used d" "dentry_attr d \<noteq> ATTR_LONG_NAME"
  shows "\<exists>fs1. dir_moved dp fs fs1 \<and> dir_holds fs1 dp cs (A @ ds @ d # C) \<and>
    enext_loop (Suc (length ds + m)) fs dp ep (slot_off (length A)) 0 False c =
      Ok (1, c, read_entry_info (ep\<lparr>e_filename := lne_decode ds (e_filename ep)\<rparr>) d, fs1)"
  using assms(1,2)
proof (induction ds arbitrary: A fs ep)
  case Nil
  obtain fs1 where fs1: "dir_moved dp fs fs1" "dir_holds fs1 dp cs (A @ [] @ d # C)"
      "enext_loop (Suc (length [] + m)) fs dp ep (slot_off (length A)) 0 False c = Ok (1, c, read_entry_info ep d, fs1)"
    using enext_step [OF Nil(1), of "length A" m ep 0 False c] d by (auto simp: slot_used_def Let_def)
  have "ep\<lparr>e_filename := lne_decode [] (e_filename ep)\<rparr> = ep" by (simp add: lne_decode_def)
  with fs1 show ?case by auto
next
  case (Cons x ds)
  have x: "lne_rest x" using Cons.prems(2) by simp
  let ?ep = "ep\<lparr>e_filename := put_at ((lne_index x - 1) * CHAR_LONG_NAME) (\<lambda>b. read_entry_name b x) (e_filename ep)\<rparr>"
  obtain fs1 where fs1: "dir_moved dp fs fs1" "dir_holds fs1 dp cs (A @ (x # ds) @ d # C)"
      "enext_loop (Suc (length (x # ds) + m)) fs dp ep (slot_off (length A)) 0 False c =
        enext_loop (length (x # ds) + m) fs1 dp ?ep (slot_off (Suc (length A))) 0 False c"
    using enext_step [OF Cons.prems(1), of "length A" "length (x # ds) + m" ep 0 False c] x by (auto simp: slot_used_def lne_rest_def Let_def)
  have h: "dir_holds fs1 dp cs ((A @ [x]) @ ds @ d # C)" using fs1(2) by simp
  have r: "\<And>y. y \<in> set ds \<Longrightarrow> lne_rest y" using Cons.prems(2) by simp
  obtain fs2 where fs2: "dir_moved dp fs1 fs2" "dir_holds fs2 dp cs ((A @ [x]) @ ds @ d # C)"
      "enext_loop (Suc (length ds + m)) fs1 dp ?ep (slot_off (length (A @ [x]))) 0 False c =
        Ok (1, c, read_entry_info (?ep\<lparr>e_filename := lne_decode ds (e_filename ?ep)\<rparr>) d, fs2)"
    using Cons.IH [OF h r] by blast
  have "dir_moved dp fs fs2" by (rule dir_moved_trans [OF dir_holds_ptr [OF Cons.prems(1)] fs1(1) fs2(1)])
  then show ?case using fs1(3) fs2 by (intro exI [of _ fs2]) (simp add: lne_decode_def)
qed

lemma lne_list_split:
  assumes "0 < strlen name" "strlen name \<le> FAT32_MAX_FILENAME"
  shows "\<exists>d ds. lne_list name = d # ds \<and> length ds = lne_count name - 1 \<and> 0 < lne_count name \<and> lne_count name \<le> 20 \<and>
    slot_used d \<and> dentry_attr d = ATTR_LONG_NAME \<and> d ! 0 AND LAST_LONG_ENTRY \<noteq> 0 \<and> lne_index d = lne_count name \<and> (\<forall>x \<in> set ds. lne_rest x)"
proof -
  let ?N = "lne_count name" and ?chk = "cal_checksum (generate_shortname name)"
  let ?e = "\<lambda>i. lne_entry (lne_order i (lne_count name)) (cal_checksum (generate_shortname name)) (drop ((i - 1) * CHAR_LONG_NAME) name)"
  have N: "0 < ?N" "?N \<le> 20" using assms by (simp_all add: lne_count_def)
  have u: "slot_used (?e i)" "lne_index (?e i) = i" "?e i ! 0 AND LAST_LONG_ENTRY = 0 \<longleftrightarrow> i \<noteq> ?N" if "0 < i" "i \<le> ?N" for i
    using lne_order_bits [OF that N(2)] lne_index_order [OF that(2)] N by (simp_all add: slot_used_def)
  have "lne_list name = ?e ?N # map ?e (rev [1..<?N])" using N(1) by (simp add: lne_list_def Let_def)
  moreover have "\<forall>x \<in> set (map ?e (rev [1..<?N])). lne_rest x" using u N(2) by (auto simp: lne_rest_def)
  ultimately show ?thesis using u [OF N(1) order_refl] N by (intro exI [of _ "?e ?N"] exI [of _ "map ?e (rev [1..<?N])"]) simp
qed

text \<open>A file: its entries are decoded into the name, the attributes and the first cluster.\<close>

lemma enext_file:
  assumes h: "dir_holds fs dp cs (A @ slots (File name attr clus sz) @ C)" and ok: "item_ok (File name attr clus sz)"
    and f: "e_filename ep = replicate 256 0" and k: "lne_count name < k"
  shows "\<exists>fs1 b. dir_moved dp fs fs1 \<and> dir_holds fs1 dp cs (A @ slots (File name attr clus sz) @ C) \<and> length b = 256 \<and> cstr b = cstr name \<and>
    enext_loop k fs dp ep (slot_off (length A)) 0 True c = Ok (1, of_nat (length (slots (File name attr clus sz))),
      ep\<lparr>e_filename := b, e_attribute := attr, e_first_clus := clus, e_file_size := sz, e_cur_clus := clus, e_clus_cnt := 0\<rparr>, fs1)"
proof -
  let ?s = "sne_entry (generate_shortname name) attr clus sz"
  have n: "0 < strlen name" "strlen name \<le> FAT32_MAX_FILENAME" and s: "slot_used ?s" "dentry_attr ?s \<noteq> ATTR_LONG_NAME" using ok by auto
  obtain d ds where l: "lne_list name = d # ds" "length ds = lne_count name - 1" "0 < lne_count name" "lne_count name \<le> 20" "slot_used d"
      "dentry_attr d = ATTR_LONG_NAME" "d ! 0 AND LAST_LONG_ENTRY \<noteq> 0" "lne_index d = lne_count name" "\<And>x. x \<in> set ds \<Longrightarrow> lne_rest x"
    using lne_list_split [OF n] by blast
  obtain m where m: "k = Suc (Suc (length ds + m))" using k l(2,3) by (metis Suc_diff_1 add_Suc less_iff_Suc_add)
  have sl: "A @ slots (File name attr clus sz) @ C = A @ (d # ds) @ ?s # C" using l(1) by simp
  let ?ep = "ep\<lparr>e_filename := put_at ((lne_index d - 1) * CHAR_LONG_NAME) (\<lambda>b. read_entry_name b d) (e_filename ep)\<rparr>"
  have h0: "dir_holds fs dp cs (A @ (d # ds) @ ?s # C)" using h unfolding sl .
  obtain fs1 where fs1: "dir_moved dp fs fs1" "dir_holds fs1 dp cs (A @ (d # ds) @ ?s # C)"
      "enext_loop k fs dp ep (slot_off (length A)) 0 True c =
        enext_loop (Suc (length ds + m)) fs1 dp ?ep (slot_off (Suc (length A))) 0 False (of_nat (lne_count name) + 1)"
    using enext_step [OF h0, of "length A" "Suc (length ds + m)" ep 0 True c] l m by (auto simp: slot_used_def Let_def)
  have h1: "dir_holds fs1 dp cs ((A @ [d]) @ ds @ ?s # C)" using fs1(2) by simp
  obtain fs2 where fs2: "dir_moved dp fs1 fs2" "dir_holds fs2 dp cs ((A @ [d]) @ ds @ ?s # C)"
      "enext_loop (Suc (length ds + m)) fs1 dp ?ep (slot_off (length (A @ [d]))) 0 False (of_nat (lne_count name) + 1) =
        Ok (1, of_nat (lne_count name) + 1, read_entry_info (?ep\<lparr>e_filename := lne_decode ds (e_filename ?ep)\<rparr>) ?s, fs2)"
    using enext_rest [OF h1 l(9) s] by blast
  have mv: "dir_moved dp fs fs2" by (rule dir_moved_trans [OF dir_holds_ptr [OF h] fs1(1) fs2(1)])
  let ?b = "lne_decode (lne_list name) (replicate 256 0)"
  have b: "?ep\<lparr>e_filename := lne_decode ds (e_filename ?ep)\<rparr> = ep\<lparr>e_filename := ?b\<rparr>" using f l(1) by (simp add: lne_decode_def)
  have lb: "length ?b = 256" "cstr ?b = cstr name" using lne_decode_ok [OF n(2)] lne_decode_cstr [OF n(2)] by (simp_all add: lne_decoded_def)
  have cnt: "(of_nat (length (slots (File name attr clus sz))) :: u32) = of_nat (lne_count name) + 1" using l(1,2,3) by simp
  have "slot_off (length (A @ [d])) = slot_off (Suc (length A))" by simp
  then have "enext_loop k fs dp ep (slot_off (length A)) 0 True c =
      Ok (1, of_nat (length (slots (File name attr clus sz))), read_entry_info (ep\<lparr>e_filename := ?b\<rparr>) ?s, fs2)"
    using fs1(3) fs2(3) unfolding b cnt by simp
  moreover have "dir_holds fs2 dp cs (A @ slots (File name attr clus sz) @ C)" using fs2(2) unfolding sl by simp
  ultimately show ?thesis using mv lb unfolding read_sne_info by blast
qed

lemma enext_short:
  assumes h: "dir_holds fs dp cs (A @ slots (Short d) @ C)" and ok: "item_ok (Short d)" and f: "e_filename ep = replicate 256 0"
  shows "\<exists>fs1. dir_moved dp fs fs1 \<and> dir_holds fs1 dp cs (A @ slots (Short d) @ C) \<and>
    enext_loop (Suc k) fs dp ep (slot_off (length A)) 0 True c =
      Ok (1, of_nat (length (slots (Short d))), read_entry_info (ep\<lparr>e_filename := read_entry_name (replicate 256 0) d\<rparr>) d, fs1)"
proof -
  have h0: "dir_holds fs dp cs (A @ [d] @ C)" using h by simp
  from enext_step [OF h0, of "length A" k ep 0 True c] ok f show ?thesis by (auto simp: slot_used_def Let_def)
qed

text \<open>A run of deleted slots is skipped and counted.\<close>

lemma enext_gap:
  assumes "dir_holds fs dp cs (A @ dels @ C)" and "\<And>d. d \<in> set dels \<Longrightarrow> d ! 0 = EMPTY_ENTRY"
  shows "\<exists>fs1. dir_moved dp fs fs1 \<and> dir_holds fs1 dp cs (A @ dels @ C) \<and>
    enext_loop (length dels + k) fs dp ep (slot_off (length A)) cnt True c =
      enext_loop k fs1 dp ep (slot_off (length A + length dels)) (cnt + of_nat (length dels)) True c"
  using assms
proof (induction dels arbitrary: A fs cnt)
  case Nil
  then show ?case by (intro exI [of _ fs]) simp
next
  case (Cons d dels)
  obtain fs1 where fs1: "dir_moved dp fs fs1" "dir_holds fs1 dp cs (A @ (d # dels) @ C)"
      "enext_loop (length (d # dels) + k) fs dp ep (slot_off (length A)) cnt True c =
        enext_loop (length dels + k) fs1 dp ep (slot_off (Suc (length A))) (cnt + 1) True c"
    using enext_step [OF Cons.prems(1), of "length A" "length dels + k" ep cnt True c] Cons.prems(2) by (auto simp: Let_def)
  have h1: "dir_holds fs1 dp cs ((A @ [d]) @ dels @ C)" using fs1(2) by simp
  obtain fs2 where fs2: "dir_moved dp fs1 fs2" "dir_holds fs2 dp cs ((A @ [d]) @ dels @ C)"
      "enext_loop (length dels + k) fs1 dp ep (slot_off (length (A @ [d]))) (cnt + 1) True c =
        enext_loop k fs2 dp ep (slot_off (length (A @ [d]) + length dels)) (cnt + 1 + of_nat (length dels)) True c"
    using Cons.IH [OF h1] Cons.prems(2) by auto
  have "dir_moved dp fs fs2" by (rule dir_moved_trans [OF dir_holds_ptr [OF Cons.prems(1)] fs1(1) fs2(1)])
  then show ?case using fs1(3) fs2 by (intro exI [of _ fs2]) (simp add: algebra_simps)
qed

section \<open>Searching a directory\<close>

fun item_attr :: "ditem \<Rightarrow> u8" where
  "item_attr (Deleted d) = 0"
| "item_attr (Short d) = dentry_attr d"
| "item_attr (File name attr clus sz) = attr"

fun item_clus :: "ditem \<Rightarrow> u32" where
  "item_clus (Deleted d) = 0"
| "item_clus (Short d) = push_bit 16 (ucast (le16 d 20)) OR ucast (le16 d 26)"
| "item_clus (File name attr clus sz) = clus"

fun item_size :: "ditem \<Rightarrow> u32" where
  "item_size (Deleted d) = 0"
| "item_size (Short d) = le32 d 28"
| "item_size (File name attr clus sz) = sz"

definition same_name :: "bytes \<Rightarrow> ditem \<Rightarrow> bool" where
  "same_name name it \<longleftrightarrow> \<not> is_deleted it \<and> take FAT32_MAX_FILENAME (cstr name) = take FAT32_MAX_FILENAME (item_name it)"

text \<open>The search as it is meant: the first item with the name, and the number of its first slot.\<close>

fun dir_find :: "bytes \<Rightarrow> nat \<Rightarrow> ditem list \<Rightarrow> (nat \<times> ditem) option" where
  "dir_find name i [] = None"
| "dir_find name i (it # its) = (if same_name name it then Some (i, it) else dir_find name (i + length (slots it)) its)"

text \<open>The scratch entry that the search fills.\<close>

definition scratch_ok :: "fs \<Rightarrow> eptr \<Rightarrow> eptr \<Rightarrow> bool" where
  "scratch_ok fs dp ep \<longleftrightarrow> ptr_ok fs ep \<and> ep \<noteq> dp \<and> ep \<noteq> Root \<and> e_valid (ent fs ep) = 0 \<and> length (e_filename (ent fs ep)) = 256"

definition refilled :: "dirent \<Rightarrow> dirent \<Rightarrow> bool" where
  "refilled e g \<longleftrightarrow> (\<exists>fn at fc sz cc ct. length fn = 256 \<and>
     g = e\<lparr>e_filename := fn, e_attribute := at, e_first_clus := fc, e_file_size := sz, e_cur_clus := cc, e_clus_cnt := ct\<rparr>)"

lemma refilled_trans: "refilled e g \<Longrightarrow> refilled g h \<Longrightarrow> refilled e h"
  unfolding refilled_def by clarsimp blast

lemma refilledI: "length fn = 256 \<Longrightarrow> refilled e (e\<lparr>e_filename := fn\<rparr>)"
  unfolding refilled_def
  by (intro exI [of _ fn] exI [of _ "e_attribute e"] exI [of _ "e_first_clus e"] exI [of _ "e_file_size e"] exI [of _ "e_cur_clus e"]
      exI [of _ "e_clus_cnt e"]) simp

lemma refilled_info: "refilled e g \<Longrightarrow> refilled e (read_entry_info g d)"
  unfolding refilled_def read_entry_info_def Let_def by clarsimp blast

text \<open>The state of a search: the directory's position and the scratch entry have changed.\<close>

definition scan_state :: "eptr \<Rightarrow> eptr \<Rightarrow> fs \<Rightarrow> dirent \<Rightarrow> dirent \<Rightarrow> fs" where
  "scan_state dp ep fs d g = upd_ent (upd_ent fs dp (\<lambda>_. d)) ep (\<lambda>_. g)"

lemma scan_state_twice: "dp \<noteq> ep \<Longrightarrow> scan_state dp ep (scan_state dp ep fs d g) d' g' = scan_state dp ep fs d' g'"
  unfolding scan_state_def by (simp add: upd_ent_swap [of ep dp])

lemma scan_state_absorb: "dp \<noteq> ep \<Longrightarrow> scan_state dp ep (upd_ent fs ep (\<lambda>_. r)) d g = scan_state dp ep fs d g"
  unfolding scan_state_def by (simp add: upd_ent_swap [of ep dp])

lemma scan_state_upd:
  "ptr_ok fs ep \<Longrightarrow> upd_ent (scan_state dp ep fs d g) ep h = scan_state dp ep fs d (h g)"
  "ptr_ok fs dp \<Longrightarrow> dp \<noteq> ep \<Longrightarrow> upd_ent (scan_state dp ep fs d g) dp h = scan_state dp ep fs (h d) g"
  by (simp_all add: scan_state_def upd_ent_const [of _ ep h] upd_ent_const [of _ dp h] upd_ent_swap [of ep dp])

lemma scan_state_simps [simp]:
  "fs_fat (scan_state dp ep fs d g) = fs_fat fs" "fs_blk (scan_state dp ep fs d g) = fs_blk fs" "fs_lru (scan_state dp ep fs d g) = fs_lru fs"
  "dir_bytes (scan_state dp ep fs d g) cs = dir_bytes fs cs" "ptr_ok (scan_state dp ep fs d g) q = ptr_ok fs q"
  "length (fs_entries (scan_state dp ep fs d g)) = length (fs_entries fs)"
  "q \<noteq> dp \<Longrightarrow> q \<noteq> ep \<Longrightarrow> ent (scan_state dp ep fs d g) q = ent fs q"
  "ptr_ok fs ep \<Longrightarrow> ent (scan_state dp ep fs d g) ep = g"
  "ptr_ok fs dp \<Longrightarrow> ep \<noteq> dp \<Longrightarrow> ent (scan_state dp ep fs d g) dp = d"
  by (simp_all add: scan_state_def)

definition item_info :: "ditem \<Rightarrow> dirent \<Rightarrow> bool" where
  "item_info it e \<longleftrightarrow> cstr (e_filename e) = item_name it \<and> e_attribute e = item_attr it \<and> e_first_clus e = item_clus it \<and>
     e_file_size e = item_size it \<and> e_cur_clus e = item_clus it \<and> e_clus_cnt e = 0"

text \<open>One call of \<^verbatim>\<open>enext\<close> on an item, on a run of deleted slots before an item, and at the end.\<close>

lemma zero_fill_256: "length b = 256 \<Longrightarrow> zero_fill b 256 = replicate 256 0"
  by (simp add: zero_fill_eq)

lemma slot_aligned: "32 * i < 2 ^ 32 \<Longrightarrow> slot_off i mod 32 = 0"
proof -
  assume "32 * i < 2 ^ 32"
  then have "unat (slot_off i mod 32) = 0" by (simp add: unat_mod unat_slot)
  then show ?thesis by (simp add: unat_eq_0)
qed

definition dir_ready :: "fs \<Rightarrow> eptr \<Rightarrow> bool" where
  "dir_ready fs dp \<longleftrightarrow> e_attribute (ent fs dp) AND ATTR_DIRECTORY \<noteq> 0 \<and> e_valid (ent fs dp) = 1"

lemma enext_unfold:
  assumes "dir_ready fs dp" and "e_valid ep = 0" and "length (e_filename ep) = 256" and "32 * i < 2 ^ 32"
  shows "enext fs dp ep (slot_off i) c = enext_loop (dir_fuel fs) fs dp (ep\<lparr>e_filename := replicate 256 0\<rparr>) (slot_off i) 0 True c"
  using assms slot_aligned [OF assms(4)] by (simp add: enext_def dir_ready_def zero_fill_256)

lemma dir_fuel_enough:
  assumes h: "dir_holds fs dp cs sl"
  shows "length sl < dir_fuel fs"
proof -
  have wf: "fat_wf (fs_fat fs)" "blk_wf (fs_blk fs)" and ch: "chain_ok (fs_fat fs) (fs_blk fs) cs"
    using h by (auto simp: dir_holds_def dir_at_def entry_ok_def)
  have "32 * length sl \<le> length cs * unat (byts_per_clus (fs_fat fs))"
    using dir_holds_bound [OF h] length_file_bytes [OF wf, of cs] by (simp add: dir_bytes_def)
  also have "\<dots> \<le> unat (data_clus_cnt (fs_fat fs)) * unat (byts_per_clus (fs_fat fs))"
    using chain_length [OF wf(1) ch] by (rule mult_le_mono1)
  finally show ?thesis unfolding dir_fuel_def by linarith
qed

lemma enext_item:
  assumes h: "dir_holds fs dp cs (A @ slots it @ C)" and ok: "item_ok it" and nd: "\<not> is_deleted it" and r: "dir_ready fs dp"
    and e: "e_valid ep = 0" "length (e_filename ep) = 256"
  shows "\<exists>fs1 g. enext fs dp ep (slot_off (length A)) c = Ok (1, of_nat (length (slots it)), g, fs1) \<and> dir_moved dp fs fs1 \<and>
    dir_holds fs1 dp cs (A @ slots it @ C) \<and> refilled ep g \<and> item_info it g"
proof -
  let ?z = "ep\<lparr>e_filename := replicate 256 0\<rparr>"
  have i: "32 * length A < 2 ^ 32" using dir_holds_bound [OF h] by simp
  note un = enext_unfold [OF r e i, of c]
  have k: "length (A @ slots it @ C) < dir_fuel fs" by (rule dir_fuel_enough [OF h])
  show ?thesis
  proof (cases it)
    case (Deleted d)
    with nd show ?thesis by simp
  next
    case (Short d)
    obtain k where k: "dir_fuel fs = Suc k" by (simp add: dir_fuel_def)
    have rz: "refilled ep (read_entry_info (ep\<lparr>e_filename := read_entry_name (replicate 256 0) d\<rparr>) d)"
      using ok by (intro refilled_info refilledI) (simp add: Short read_entry_name_def overwrite_def)
    have z: "?z\<lparr>e_filename := x\<rparr> = ep\<lparr>e_filename := x\<rparr>" for x by simp
    show ?thesis
      using enext_short [OF h [unfolded Short] ok [unfolded Short], of ?z k c] un rz unfolding k z Short
      by (auto simp: item_info_def read_entry_info_def Let_def dentry_attr_def)
  next
    case (File name attr clus sz)
    have "lne_count name < dir_fuel fs" using k File by simp
    from enext_file [OF h [unfolded File] ok [unfolded File] _ this, of ?z c]
    obtain fs1 b where b: "dir_moved dp fs fs1" "dir_holds fs1 dp cs (A @ slots (ditem.File name attr clus sz) @ C)" "length b = 256" "cstr b = cstr name"
       "enext_loop (dir_fuel fs) fs dp ?z (slot_off (length A)) 0 True c = Ok (1, of_nat (length (slots (ditem.File name attr clus sz))),
        ?z\<lparr>e_filename := b, e_attribute := attr, e_first_clus := clus, e_file_size := sz, e_cur_clus := clus, e_clus_cnt := 0\<rparr>, fs1)" by auto
    let ?g = "ep\<lparr>e_filename := b, e_attribute := attr, e_first_clus := clus, e_file_size := sz, e_cur_clus := clus, e_clus_cnt := 0\<rparr>"
    have "refilled ep ?g" using b(3) unfolding refilled_def by blast
    moreover have "item_info it ?g" using b(4) by (simp add: item_info_def File)
    moreover have "enext fs dp ep (slot_off (length A)) c = Ok (1, of_nat (length (slots it)), ?g, fs1)" using un b(5) unfolding File by simp
    ultimately show ?thesis using b(1,2) unfolding File by blast
  qed
qed

lemma is_deleted_slots: "is_deleted it \<Longrightarrow> item_ok it \<Longrightarrow> \<exists>d. slots it = [d] \<and> d ! 0 = EMPTY_ENTRY"
  by (cases it) auto

lemma deleted_slots:
  assumes "\<And>it. it \<in> set dels \<Longrightarrow> is_deleted it \<and> item_ok it"
  shows "length (concat (map slots dels)) = length dels" "d \<in> set (concat (map slots dels)) \<Longrightarrow> d ! 0 = EMPTY_ENTRY"
proof -
  show "length (concat (map slots dels)) = length dels" using assms
  proof (induction dels)
    case (Cons it dels)
    obtain d where "slots it = [d]" using is_deleted_slots Cons.prems by fastforce
    with Cons show ?case by simp
  qed simp
  show "d \<in> set (concat (map slots dels)) \<Longrightarrow> d ! 0 = EMPTY_ENTRY" using assms is_deleted_slots by fastforce
qed

lemma enext_after_gap:
  assumes h: "dir_holds fs dp cs (A @ concat (map slots dels) @ slots it @ C)" and del: "\<And>it. it \<in> set dels \<Longrightarrow> is_deleted it \<and> item_ok it"
    and ne: "dels \<noteq> []" and it: "item_ok it" "\<not> is_deleted it" and r: "dir_ready fs dp" and e: "e_valid ep = 0" "length (e_filename ep) = 256"
  shows "\<exists>fs1. enext fs dp ep (slot_off (length A)) c = Ok (0, of_nat (length dels), ep\<lparr>e_filename := replicate 256 0\<rparr>, fs1) \<and>
    dir_moved dp fs fs1 \<and> dir_holds fs1 dp cs (A @ concat (map slots dels) @ slots it @ C)"
proof -
  let ?z = "ep\<lparr>e_filename := replicate 256 0\<rparr>" and ?D = "concat (map slots dels)"
  have i: "32 * length A < 2 ^ 32" using dir_holds_bound [OF h] by simp
  note un = enext_unfold [OF r e i, of c]
  have ds: "length ?D = length dels" "\<And>d. d \<in> set ?D \<Longrightarrow> d ! 0 = EMPTY_ENTRY" using deleted_slots [of dels] del by blast+
  have "length ?D < dir_fuel fs" using dir_fuel_enough [OF h] unfolding length_append by linarith
  from less_imp_Suc_add [OF this] obtain k where k: "dir_fuel fs = length ?D + Suc k" by auto
  obtain fs1 where fs1: "dir_moved dp fs fs1" "dir_holds fs1 dp cs (A @ ?D @ slots it @ C)"
      "enext_loop (length ?D + Suc k) fs dp ?z (slot_off (length A)) 0 True c =
       enext_loop (Suc k) fs1 dp ?z (slot_off (length A + length ?D)) (0 + of_nat (length ?D)) True c"
    using enext_gap [OF h ds(2), of "Suc k" ?z 0 c] by blast
  obtain d t where d: "slots it = d # t" "d ! 0 \<noteq> END_OF_ENTRY" "d ! 0 \<noteq> EMPTY_ENTRY"
  proof (cases it)
    case (File name attr clus sz)
    then obtain d ds where "lne_list name = d # ds" "slot_used d" using lne_list_split [of name] it by auto
    then show ?thesis using that [of d] File by (auto simp: slot_used_def)
  qed (use it that in \<open>auto simp: slot_used_def\<close>)
  have ix: "(A @ ?D @ slots it @ C) ! (length A + length ?D) = d" using d by (simp add: nth_append)
  have lt: "length A + length ?D < length (A @ ?D @ slots it @ C)" using d by simp
  have "length dels < 2 ^ 32" using dir_holds_bound [OF h] ds(1) by simp
  then have "unat (of_nat (length dels) :: u32) = length dels" by (simp add: unat_of_nat)
  then have cnt: "(of_nat (length dels) :: u32) \<noteq> 0" using ne by force
  obtain fs2 where fs2: "dir_moved dp fs1 fs2" "dir_holds fs2 dp cs (A @ ?D @ slots it @ C)"
      "enext_loop (Suc k) fs1 dp ?z (slot_off (length A + length ?D)) (of_nat (length dels)) True c = Ok (0, of_nat (length dels), ?z, fs2)"
    using enext_step [OF fs1(2) lt, of k ?z "of_nat (length dels)" True c] unfolding ix using d cnt by (auto simp: Let_def)
  have "dir_moved dp fs fs2" by (rule dir_moved_trans [OF dir_holds_ptr [OF h] fs1(1) fs2(1)])
  then show ?thesis using un fs1(3) fs2(2,3) unfolding k ds(1) by auto
qed

lemma enext_at_end:
  assumes h: "dir_holds fs dp cs (A @ concat (map slots dels))" and del: "\<And>it. it \<in> set dels \<Longrightarrow> is_deleted it \<and> item_ok it"
    and r: "dir_ready fs dp" and e: "e_valid ep = 0" "length (e_filename ep) = 256"
  shows "\<exists>fs1. enext fs dp ep (slot_off (length A)) c = Ok (-1, c, ep\<lparr>e_filename := replicate 256 0\<rparr>, fs1) \<and>
    dir_moved dp fs fs1 \<and> dir_holds fs1 dp cs (A @ concat (map slots dels))"
proof -
  let ?z = "ep\<lparr>e_filename := replicate 256 0\<rparr>" and ?D = "concat (map slots dels)"
  have i: "32 * length A < 2 ^ 32" using dir_holds_bound [OF h] by simp
  note un = enext_unfold [OF r e i, of c]
  have h0: "dir_holds fs dp cs (A @ ?D @ [])" using h by simp
  have ds: "\<And>d. d \<in> set ?D \<Longrightarrow> d ! 0 = EMPTY_ENTRY" using deleted_slots(2) [of dels] del by blast
  have "length ?D < dir_fuel fs" using dir_fuel_enough [OF h] unfolding length_append by linarith
  from less_imp_Suc_add [OF this] obtain k where k: "dir_fuel fs = length ?D + Suc k" by auto
  obtain fs1 where fs1: "dir_moved dp fs fs1" "dir_holds fs1 dp cs (A @ ?D)"
      "enext_loop (length ?D + Suc k) fs dp ?z (slot_off (length A)) 0 True c =
       enext_loop (Suc k) fs1 dp ?z (slot_off (length A + length ?D)) (0 + of_nat (length ?D)) True c"
    using enext_gap [OF h0 ds, of "Suc k" ?z 0 c] by auto
  obtain fs2 where fs2: "dir_moved dp fs1 fs2" "dir_holds fs2 dp cs (A @ ?D)"
      "enext_loop (Suc k) fs1 dp ?z (slot_off (length (A @ ?D))) (0 + of_nat (length ?D)) True c = Ok (-1, c, ?z, fs2)"
    using enext_end [OF fs1(2)] by blast
  have "dir_moved dp fs fs2" by (rule dir_moved_trans [OF dir_holds_ptr [OF h] fs1(1) fs2(1)])
  then show ?thesis using un fs1(3) fs2(2,3) unfolding k by auto
qed

lemma eput_plain:
  assumes "p = Root \<or> e_valid (ent fs p) = 0 \<or> e_ref (ent fs p) \<noteq> 1"
  shows "eput fs p = Ok (upd_ent fs p (\<lambda>e. e\<lparr>e_ref := e_ref e - 1\<rparr>))"
proof -
  have "ENTRY_CACHE_NUM + 1 = Suc 50" by simp
  with assms show ?thesis unfolding eput_def by (simp only: eput_loop.simps) auto
qed

lemma dir_holds_scan:
  assumes "dir_holds fs dp cs sl" "ep \<noteq> dp" "dir_moved dp fs fs1" "dir_holds fs1 dp cs sl"
  shows "\<exists>d. moved (ent fs dp) d \<and> fs1 = upd_ent fs dp (\<lambda>_. d) \<and> (\<forall>g. dir_holds (scan_state dp ep fs d g) dp cs sl)"
proof -
  obtain d where d: "moved (ent fs dp) d" "fs1 = upd_ent fs dp (\<lambda>_. d)" using assms(3) by (auto simp: dir_moved_def)
  have "dir_holds (scan_state dp ep fs d g) dp cs sl" for g
    using assms(4) dir_holds_ptr [OF assms(1)] assms(2) unfolding d(2) dir_holds_def dir_at_def by (simp add: scan_state_def)
  with d show ?thesis by blast
qed

lemma refilled_fields: "refilled e g \<Longrightarrow> e_valid g = e_valid e \<and> e_ref g = e_ref e \<and> e_locked g = e_locked e \<and> e_dev g = e_dev e \<and>
    e_dirty g = e_dirty e \<and> e_parent g = e_parent e \<and> e_off g = e_off e \<and> length (e_filename g) = 256"
  by (auto simp: refilled_def)

lemma moved_ready: "moved (ent fs dp) d \<Longrightarrow> ptr_ok fs dp \<Longrightarrow> ep \<noteq> dp \<Longrightarrow> dir_ready fs dp \<Longrightarrow> dir_ready (scan_state dp ep fs d g) dp"
  by (auto simp: dir_ready_def moved_def)

lemma strncmp_item: "item_info it g \<Longrightarrow> \<not> is_deleted it \<Longrightarrow> strncmp name (e_filename g) MAX_FILENAME = 0 \<longleftrightarrow> same_name name it"
  by (simp add: strncmp_eq item_info_def same_name_def)

lemma cstr_zeros [simp]: "cstr (replicate n 0) = []"
  by (cases n) simp_all

lemma strncmp_zeros: "cstr name \<noteq> [] \<Longrightarrow> strncmp name (replicate 256 0) MAX_FILENAME \<noteq> 0"
  by (simp add: strncmp_eq)

declare dirlookup_loop.simps(2) [simp del]

text \<open>One iteration of the loop of \<^verbatim>\<open>dirlookup\<close>, by the result of \<^verbatim>\<open>enext\<close>.\<close>

lemma dirlookup_iter:
  assumes "enext fs dp (ent fs ep) off c = Ok (r, c1, g, fs1)"
  shows "r = -1 \<Longrightarrow> dirlookup_loop (Suc k) fs dp ep name entcnt off c want poff =
      rmap (\<lambda>fs2. (None, if want then Some off else poff, fs2)) (eput (upd_ent fs1 ep (\<lambda>_. g)) ep)"
    and "r \<noteq> -1 \<Longrightarrow> strncmp name (e_filename g) MAX_FILENAME = 0 \<Longrightarrow> dirlookup_loop (Suc k) fs dp ep name entcnt off c want poff =
      Ok (Some ep, poff, upd_ent (edup (upd_ent fs1 ep (\<lambda>_. g)) dp) ep (\<lambda>e. e\<lparr>e_parent := Some dp, e_off := off, e_valid := 1\<rparr>))"
    and "r \<noteq> -1 \<Longrightarrow> strncmp name (e_filename g) MAX_FILENAME \<noteq> 0 \<Longrightarrow> dirlookup_loop (Suc k) fs dp ep name entcnt off c want poff =
      dirlookup_loop k (upd_ent fs1 ep (\<lambda>_. g)) dp ep name entcnt (off + push_bit 5 c1) c1 want poff"
  using assms by (simp_all add: dirlookup_loop.simps(2) Let_def note_room_def)

definition find_result :: "eptr \<Rightarrow> eptr \<Rightarrow> fs \<Rightarrow> u32 list \<Rightarrow> (nat \<times> ditem) option \<Rightarrow> nat \<Rightarrow> bool \<Rightarrow> u32 option \<Rightarrow> (eptr option \<times> u32 option \<times> fs) res \<Rightarrow> bool" where
  "find_result dp ep fs cs found en want poff res \<longleftrightarrow>
     (\<exists>d g. moved (ent fs dp) d \<and> entry_ok (fs_fat fs) (fs_blk fs) d cs \<and> refilled (ent fs ep) g \<and>
        (case found of
           Some (i, it) \<Rightarrow> item_info it g \<and> res = Ok (Some ep, poff, scan_state dp ep fs (d\<lparr>e_ref := e_ref d + 1\<rparr>)
             (g\<lparr>e_parent := Some dp, e_off := slot_off i, e_valid := 1\<rparr>))
         | None \<Rightarrow> e_filename g = replicate 256 0 \<and>
             res = Ok (None, if want then Some (slot_off en) else poff, scan_state dp ep fs d (g\<lparr>e_ref := e_ref g - 1\<rparr>))))"

lemma find_result_step:
  assumes "find_result dp ep (scan_state dp ep fs d g) cs found en want poff res" "moved (ent fs dp) d" "refilled (ent fs ep) g"
    and "ptr_ok fs dp" "ptr_ok fs ep" "ep \<noteq> dp"
  shows "find_result dp ep fs cs found en want poff res"
proof -
  have tw: "\<And>d' g'. scan_state dp ep (scan_state dp ep fs d g) d' g' = scan_state dp ep fs d' g'" by (rule scan_state_twice) (use assms(6) in simp)
  obtain d' g' where r: "moved d d'" "entry_ok (fs_fat fs) (fs_blk fs) d' cs" "refilled g g'" "case found of
           Some (i, it) \<Rightarrow> item_info it g' \<and> res = Ok (Some ep, poff, scan_state dp ep fs (d'\<lparr>e_ref := e_ref d' + 1\<rparr>)
             (g'\<lparr>e_parent := Some dp, e_off := slot_off i, e_valid := 1\<rparr>))
         | None \<Rightarrow> e_filename g' = replicate 256 0 \<and>
             res = Ok (None, if want then Some (slot_off en) else poff, scan_state dp ep fs d' (g'\<lparr>e_ref := e_ref g' - 1\<rparr>))"
    using assms(1) unfolding find_result_def tw by (auto simp: assms(4-6))
  with moved_trans [OF assms(2)] refilled_trans [OF assms(3)] show ?thesis unfolding find_result_def by blast
qed

definition dir_items :: "fs \<Rightarrow> eptr \<Rightarrow> u32 list \<Rightarrow> ditem list \<Rightarrow> bool" where
  "dir_items fs dp cs items \<longleftrightarrow> dir_holds fs dp cs (concat (map slots items)) \<and> (\<forall>it \<in> set items. item_ok it)"

definition search_inv :: "fs \<Rightarrow> eptr \<Rightarrow> eptr \<Rightarrow> u32 list \<Rightarrow> ditem list \<Rightarrow> bool" where
  "search_inv fs dp ep cs items \<longleftrightarrow> dir_items fs dp cs items \<and> dir_ready fs dp \<and> scratch_ok fs dp ep"

lemma search_invD:
  assumes "search_inv fs dp ep cs items"
  shows "dir_holds fs dp cs (concat (map slots items))" "dir_ready fs dp" "ptr_ok fs dp" "ptr_ok fs ep" "ep \<noteq> dp" "ep \<noteq> Root"
    "e_valid (ent fs ep) = 0" "length (e_filename (ent fs ep)) = 256" "\<And>it. it \<in> set items \<Longrightarrow> item_ok it"
  using assms dir_holds_ptr by (auto simp: search_inv_def dir_items_def scratch_ok_def)

lemma search_inv_scan:
  assumes "search_inv fs dp ep cs items" "moved (ent fs dp) d" "dir_holds (scan_state dp ep fs d g) dp cs (concat (map slots items))" "refilled (ent fs ep) g"
  shows "search_inv (scan_state dp ep fs d g) dp ep cs items"
  using assms refilled_fields [OF assms(4)] moved_ready [OF assms(2), of ep] search_invD [OF assms(1)]
  by (auto simp: search_inv_def dir_items_def scratch_ok_def)

lemma search_end:
  assumes inv: "search_inv fs dp ep cs (pre @ dels)" and del: "\<forall>it \<in> set dels. is_deleted it"
  shows "find_result dp ep fs cs None (nslots pre) want poff (dirlookup_loop (Suc k) fs dp ep name entcnt (slot_off (nslots pre)) c want poff)"
proof -
  let ?A = "concat (map slots pre)" and ?z = "(ent fs ep)\<lparr>e_filename := replicate 256 0\<rparr>"
  note i = search_invD [OF inv]
  have dl: "\<And>it. it \<in> set dels \<Longrightarrow> is_deleted it \<and> item_ok it" using del i(9) by auto
  have h0: "dir_holds fs dp cs (?A @ concat (map slots dels))" using i(1) by simp
  obtain fs1 where e: "enext fs dp (ent fs ep) (slot_off (length ?A)) c = Ok (-1, c, ?z, fs1)" "dir_moved dp fs fs1"
      "dir_holds fs1 dp cs (?A @ concat (map slots dels))"
    using enext_at_end [OF h0 dl i(2,7,8)] by blast
  obtain d where d: "moved (ent fs dp) d" "fs1 = upd_ent fs dp (\<lambda>_. d)" "\<And>g. dir_holds (scan_state dp ep fs d g) dp cs (?A @ concat (map slots dels))"
    using dir_holds_scan [OF h0 i(5) e(2,3)] by blast
  have s1: "upd_ent fs1 ep (\<lambda>_. ?z) = scan_state dp ep fs d ?z" by (simp add: scan_state_def d(2))
  have "eput (scan_state dp ep fs d ?z) ep = Ok (scan_state dp ep fs d (?z\<lparr>e_ref := e_ref ?z - 1\<rparr>))"
    using eput_plain [of ep "scan_state dp ep fs d ?z"] i by (simp add: scan_state_def upd_ent_const [of _ ep "\<lambda>e. e\<lparr>e_ref := e_ref e - 1\<rparr>"])
  then have "dirlookup_loop (Suc k) fs dp ep name entcnt (slot_off (nslots pre)) c want poff =
      Ok (None, if want then Some (slot_off (nslots pre)) else poff, scan_state dp ep fs d (?z\<lparr>e_ref := e_ref ?z - 1\<rparr>))"
    using dirlookup_iter(1) [OF e(1) refl] s1 by simp
  moreover have "entry_ok (fs_fat fs) (fs_blk fs) d cs" using d(3) [of ?z] i(3,5) by (simp add: dir_holds_def dir_at_def)
  moreover have "refilled (ent fs ep) ?z" by (rule refilledI) simp
  ultimately show ?thesis using d(1) unfolding find_result_def by (intro exI [of _ d] exI [of _ ?z]) simp
qed

lemma search_item:
  assumes inv: "search_inv fs dp ep cs (pre @ it # rest)" and nd: "\<not> is_deleted it"
  shows "\<exists>d g. moved (ent fs dp) d \<and> refilled (ent fs ep) g \<and> search_inv (scan_state dp ep fs d g) dp ep cs ((pre @ [it]) @ rest) \<and>
    (if same_name name it then
       find_result dp ep fs cs (Some (nslots pre, it)) en want poff (dirlookup_loop (Suc k) fs dp ep name entcnt (slot_off (nslots pre)) c want poff)
     else dirlookup_loop (Suc k) fs dp ep name entcnt (slot_off (nslots pre)) c want poff =
       dirlookup_loop k (scan_state dp ep fs d g) dp ep name entcnt (slot_off (nslots (pre @ [it]))) (of_nat (length (slots it))) want poff)"
proof -
  let ?A = "concat (map slots pre)"
  note i = search_invD [OF inv]
  have h0: "dir_holds fs dp cs (?A @ slots it @ concat (map slots rest))" using i(1) by simp
  have oi: "item_ok it" by (rule i(9)) simp
  obtain fs1 g where e: "enext fs dp (ent fs ep) (slot_off (length ?A)) c = Ok (1, of_nat (length (slots it)), g, fs1)" "dir_moved dp fs fs1"
      "dir_holds fs1 dp cs (?A @ slots it @ concat (map slots rest))" "refilled (ent fs ep) g" "item_info it g"
    using enext_item [OF h0 oi nd i(2,7,8)] by blast
  obtain d where d: "moved (ent fs dp) d" "fs1 = upd_ent fs dp (\<lambda>_. d)"
      "\<And>g. dir_holds (scan_state dp ep fs d g) dp cs (?A @ slots it @ concat (map slots rest))"
    using dir_holds_scan [OF h0 i(5) e(2,3)] by blast
  have s1: "upd_ent fs1 ep (\<lambda>_. g) = scan_state dp ep fs d g" by (simp add: scan_state_def d(2))
  have eo: "entry_ok (fs_fat fs) (fs_blk fs) d cs" using d(3) [of g] i(3,5) by (simp add: dir_holds_def dir_at_def)
  have ns: "search_inv (scan_state dp ep fs d g) dp ep cs ((pre @ [it]) @ rest)"
    using search_inv_scan [OF inv d(1) _ e(4)] d(3) [of g] by simp
  note cmp = strncmp_item [OF e(5) nd, of name]
  have "if same_name name it then dirlookup_loop (Suc k) fs dp ep name entcnt (slot_off (nslots pre)) c want poff =
          Ok (Some ep, poff, scan_state dp ep fs (d\<lparr>e_ref := e_ref d + 1\<rparr>) (g\<lparr>e_parent := Some dp, e_off := slot_off (nslots pre), e_valid := 1\<rparr>))
        else dirlookup_loop (Suc k) fs dp ep name entcnt (slot_off (nslots pre)) c want poff =
          dirlookup_loop k (scan_state dp ep fs d g) dp ep name entcnt (slot_off (nslots (pre @ [it]))) (of_nat (length (slots it))) want poff"
    using dirlookup_iter(2,3) [OF e(1)] cmp s1 i slot_off_add [of "nslots pre" "length (slots it)"]
    by (simp add: edup_def scan_state_def upd_ent_const [of _ dp "\<lambda>e. e\<lparr>e_ref := e_ref e + 1\<rparr>"]
          upd_ent_const [of _ ep "\<lambda>e. e\<lparr>e_parent := Some dp, e_off := slot_off (nslots pre), e_valid := 1\<rparr>"] upd_ent_swap [of ep dp])
  then show ?thesis using d(1) e(4,5) eo ns unfolding find_result_def by (intro exI [of _ d] exI [of _ g]) auto
qed

lemma search_gap:
  assumes inv: "search_inv fs dp ep cs (pre @ gap @ x # rest)" and gap: "gap \<noteq> []" "\<forall>it \<in> set gap. is_deleted it" and x: "\<not> is_deleted x"
    and name: "cstr name \<noteq> []"
  shows "\<exists>d g. moved (ent fs dp) d \<and> refilled (ent fs ep) g \<and> search_inv (scan_state dp ep fs d g) dp ep cs ((pre @ gap) @ x # rest) \<and>
    dirlookup_loop (Suc k) fs dp ep name entcnt (slot_off (nslots pre)) c want poff =
      dirlookup_loop k (scan_state dp ep fs d g) dp ep name entcnt (slot_off (nslots (pre @ gap))) (of_nat (length gap)) want poff"
proof -
  let ?A = "concat (map slots pre)" and ?z = "(ent fs ep)\<lparr>e_filename := replicate 256 0\<rparr>"
  note i = search_invD [OF inv]
  have gd: "\<And>y. y \<in> set gap \<Longrightarrow> is_deleted y \<and> item_ok y" using gap(2) i(9) by auto
  have h0: "dir_holds fs dp cs (?A @ concat (map slots gap) @ slots x @ concat (map slots rest))" using i(1) by simp
  have ox: "item_ok x" by (rule i(9)) simp
  obtain fs1 where e: "enext fs dp (ent fs ep) (slot_off (length ?A)) c = Ok (0, of_nat (length gap), ?z, fs1)" "dir_moved dp fs fs1"
      "dir_holds fs1 dp cs (?A @ concat (map slots gap) @ slots x @ concat (map slots rest))"
    using enext_after_gap [OF h0 gd gap(1) ox x i(2,7,8)] by blast
  obtain d where d: "moved (ent fs dp) d" "fs1 = upd_ent fs dp (\<lambda>_. d)"
      "\<And>g. dir_holds (scan_state dp ep fs d g) dp cs (?A @ concat (map slots gap) @ slots x @ concat (map slots rest))"
    using dir_holds_scan [OF h0 i(5) e(2,3)] by blast
  have s1: "upd_ent fs1 ep (\<lambda>_. ?z) = scan_state dp ep fs d ?z" by (simp add: scan_state_def d(2))
  have rz: "refilled (ent fs ep) ?z" by (rule refilledI) simp
  have lg: "nslots (pre @ gap) = nslots pre + length gap" using deleted_slots(1) [of gap] gd by simp
  have "dirlookup_loop (Suc k) fs dp ep name entcnt (slot_off (nslots pre)) c want poff =
      dirlookup_loop k (scan_state dp ep fs d ?z) dp ep name entcnt (slot_off (nslots (pre @ gap))) (of_nat (length gap)) want poff"
    using dirlookup_iter(3) [OF e(1)] s1 slot_off_add [of "nslots pre" "length gap"] strncmp_zeros [OF name] unfolding lg by simp
  moreover have "search_inv (scan_state dp ep fs d ?z) dp ep cs ((pre @ gap) @ x # rest)"
    using search_inv_scan [OF inv d(1) _ rz] d(3) [of ?z] by simp
  ultimately show ?thesis using d(1) rz by blast
qed

lemma dir_find_gap: "\<forall>it \<in> set gap. is_deleted it \<Longrightarrow> dir_find name i (gap @ its) = dir_find name (i + nslots gap) its"
  by (induction gap arbitrary: i) (auto simp: same_name_def algebra_simps)

text \<open>The items up to the last one in use, split at the first item that is not deleted.\<close>

lemma first_used:
  assumes "its \<noteq> []" "\<not> is_deleted (List.last its)"
  obtains gap x rest where "its = gap @ x # rest" "\<forall>it \<in> set gap. is_deleted it" "\<not> is_deleted x"
proof -
  have "List.last its \<in> set its" using assms(1) by simp
  then have "\<exists>x \<in> set its. \<not> is_deleted x" using assms(2) by blast
  from split_list_first_prop [OF this] show ?thesis using that by blast
qed

lemma dirlookup_loop_ok:
  assumes "search_inv fs dp ep cs (pre @ its @ dels)" and "\<forall>it \<in> set dels. is_deleted it" and "its \<noteq> [] \<Longrightarrow> \<not> is_deleted (List.last its)"
    and "cstr name \<noteq> []" and "length its < k"
  shows "find_result dp ep fs cs (dir_find name (nslots pre) its) (nslots (pre @ its)) want poff
    (dirlookup_loop k fs dp ep name entcnt (slot_off (nslots pre)) c want poff)"
  using assms
proof (induction k arbitrary: fs pre its c)
  case (Suc k)
  note i = search_invD [OF Suc.prems(1)]
  show ?case
  proof (cases "its = []")
    case True
    then show ?thesis using search_end [of fs dp ep cs pre dels] Suc.prems(1,2) by simp
  next
    case False
    obtain gap x rest where x: "its = gap @ x # rest" "\<forall>it \<in> set gap. is_deleted it" "\<not> is_deleted x"
      using first_used [OF False Suc.prems(3) [OF False]] .
    have l: "\<And>r. r \<noteq> [] \<Longrightarrow> r = x # rest \<or> r = rest \<Longrightarrow> \<not> is_deleted (List.last r)" using Suc.prems(3) x(1) by (auto split: if_splits)
    show ?thesis
    proof (cases "gap = []")
      case g: True
      have inv: "search_inv fs dp ep cs (pre @ x # (rest @ dels))" using Suc.prems(1) x(1) g by simp
      obtain d g where s: "moved (ent fs dp) d" "refilled (ent fs ep) g" "search_inv (scan_state dp ep fs d g) dp ep cs ((pre @ [x]) @ rest @ dels)"
          "if same_name name x then find_result dp ep fs cs (Some (nslots pre, x)) (nslots (pre @ its)) want poff
             (dirlookup_loop (Suc k) fs dp ep name entcnt (slot_off (nslots pre)) c want poff)
           else dirlookup_loop (Suc k) fs dp ep name entcnt (slot_off (nslots pre)) c want poff =
             dirlookup_loop k (scan_state dp ep fs d g) dp ep name entcnt (slot_off (nslots (pre @ [x]))) (of_nat (length (slots x))) want poff"
        using search_item [OF inv x(3), of name "nslots (pre @ its)" want poff k entcnt c] by blast
      have "length rest < k" using Suc.prems(5) x(1) by simp
      from find_result_step [OF Suc.IH [OF s(3) Suc.prems(2) l Suc.prems(4) this] s(1,2) i(3,4,5)] s(4) x(1) g
      show ?thesis by (auto split: if_splits)
    next
      case g: False
      have inv: "search_inv fs dp ep cs (pre @ gap @ x # (rest @ dels))" using Suc.prems(1) x(1) by simp
      obtain d g where s: "moved (ent fs dp) d" "refilled (ent fs ep) g" "search_inv (scan_state dp ep fs d g) dp ep cs ((pre @ gap) @ (x # rest) @ dels)"
          "dirlookup_loop (Suc k) fs dp ep name entcnt (slot_off (nslots pre)) c want poff =
             dirlookup_loop k (scan_state dp ep fs d g) dp ep name entcnt (slot_off (nslots (pre @ gap))) (of_nat (length gap)) want poff"
        using search_gap [OF inv g x(2,3) Suc.prems(4), of k entcnt c want poff] by auto
      have lk: "length (x # rest) < k" using Suc.prems(5) x(1) g by (cases gap) auto
      from find_result_step [OF Suc.IH [OF s(3) Suc.prems(2) l Suc.prems(4) lk] s(1,2) i(3,4,5)] s(4) x(1) dir_find_gap [OF x(2), of name "nslots pre" "x # rest"]
      show ?thesis by simp
    qed
  qed
qed simp

text \<open>The entry cache: a list through all its entries, each with a name buffer of 256 bytes.\<close>

definition ecache_ok :: "fs \<Rightarrow> bool" where
  "ecache_ok fs \<longleftrightarrow> set (fs_lru fs) = {..<length (fs_entries fs)} \<and> distinct (fs_lru fs) \<and> (\<forall>e \<in> set (fs_entries fs). length (e_filename e) = 256)"

definition ecache_miss :: "fs \<Rightarrow> eptr \<Rightarrow> bytes \<Rightarrow> bool" where
  "ecache_miss fs dp name \<longleftrightarrow> (\<forall>e \<in> set (fs_entries fs). \<not> ecache_hit dp name e)"

text \<open>The entry that \<^verbatim>\<open>eget\<close> recycles: the unused one that was used least recently.\<close>

definition lru_victim :: "fs \<Rightarrow> nat option" where
  "lru_victim fs = find (\<lambda>i. e_ref (fs_entries fs ! i) = 0) (rev (fs_lru fs))"

definition recycled :: "dirent \<Rightarrow> u8 \<Rightarrow> dirent" where
  "recycled e dev = e\<lparr>e_ref := 1, e_dev := dev, e_off := 0, e_valid := 0, e_dirty := False\<rparr>"

lemma lru_victim_some: "lru_victim fs = Some j \<Longrightarrow> ecache_ok fs \<Longrightarrow> j < length (fs_entries fs) \<and> e_ref (ent fs (Ent j)) = 0"
  by (auto simp: lru_victim_def ecache_ok_def find_Some_iff rev_nth ent.simps)

lemma eget_miss:
  assumes "ecache_ok fs" "ecache_miss fs dp name" "lru_victim fs = Some j"
  shows "eget fs dp (Some name) = Ok (Ent j, upd_ent fs (Ent j) (\<lambda>_. recycled (ent fs (Ent j)) (e_dev (ent fs dp))))"
proof -
  have "find (\<lambda>i. ecache_hit dp name (fs_entries fs ! i)) (fs_lru fs) = None"
    using assms(1,2) by (auto simp: find_None_iff ecache_ok_def ecache_miss_def)
  then show ?thesis using assms(3) by (simp add: eget_def lru_victim_def recycled_def upd_ent.simps ent.simps)
qed

lemma reloc_start:
  assumes h: "dir_holds fs dp cs sl"
  shows "\<exists>r fs1. reloc_ent fs dp 0 False = Ok (r, fs1) \<and> dir_moved dp fs fs1 \<and> dir_holds fs1 dp cs sl"
proof -
  let ?f = "fs_fat fs" and ?s = "fs_blk fs"
  have wf: "fat_wf ?f" "blk_wf ?s" and p: "ptr_ok fs dp" and e: "entry_ok ?f ?s (ent fs dp) cs" using h by (auto simp: dir_holds_def dir_at_def)
  have "unat (0 :: u32) div unat (byts_per_clus ?f) < length cs" using e by (simp add: entry_ok_def chain_ok_def)
  note r = reloc_clus_in [OF wf(1) e this, of False]
  let ?e = "(ent fs dp)\<lparr>e_cur_clus := cs ! (unat (0 :: u32) div unat (byts_per_clus ?f)), e_clus_cnt := 0 div byts_per_clus ?f\<rparr>"
  let ?fs = "upd_ent fs dp (\<lambda>_. ?e)"
  have mv: "dir_moved dp fs ?fs" unfolding dir_moved_def moved_def by blast
  have "entry_ok ?f ?s ?e cs" using entry_ok_moved [OF e, of 0] e by (simp add: entry_ok_def chain_ok_def)
  then have "dir_at ?fs dp cs" using wf p by (simp add: dir_at_def)
  with dir_holds_moved [OF h mv] mv r show ?thesis by (auto simp: reloc_ent_def)
qed

definition dir_held :: "fs \<Rightarrow> eptr \<Rightarrow> bool" where
  "dir_held fs dp \<longleftrightarrow> dir_ready fs dp \<and> 0 < e_ref (ent fs dp)"

definition plain_name :: "bytes \<Rightarrow> bool" where
  "plain_name name \<longleftrightarrow> cstr name \<noteq> [] \<and> cstr name \<noteq> [DOT] \<and> cstr name \<noteq> [DOT, DOT]"

lemma plain_name_dots:
  assumes "plain_name name"
  shows "strncmp name [DOT, 0] MAX_FILENAME \<noteq> 0" "strncmp name [DOT, DOT, 0] MAX_FILENAME \<noteq> 0"
proof -
  have "take n (cstr name) \<noteq> [DOT]" "take n (cstr name) \<noteq> [DOT, DOT]" if "3 \<le> n" for n
  proof -
    have eq: "take n (cstr name) = cstr name" if "length (take n (cstr name)) < 3" using that \<open>3 \<le> n\<close> by (simp add: min_def split: if_splits)
    show "take n (cstr name) \<noteq> [DOT]"
    proof
      assume a: "take n (cstr name) = [DOT]"
      then show False using eq assms unfolding plain_name_def by (simp only: a) simp
    qed
    show "take n (cstr name) \<noteq> [DOT, DOT]"
    proof
      assume a: "take n (cstr name) = [DOT, DOT]"
      then show False using eq assms unfolding plain_name_def by (simp only: a) simp
    qed
  qed
  then show "strncmp name [DOT, 0] MAX_FILENAME \<noteq> 0" "strncmp name [DOT, DOT, 0] MAX_FILENAME \<noteq> 0" by (simp_all add: strncmp_eq)
qed

text \<open>The result of a lookup that goes to the disk, stated on the state before it.\<close>

lemma dirlookup_ok:
  assumes items: "dir_items fs dp cs (its @ dels)" and del: "\<forall>it \<in> set dels. is_deleted it" and l: "its \<noteq> [] \<Longrightarrow> \<not> is_deleted (List.last its)"
    and held: "dir_held fs dp" and name: "plain_name name" and ec: "ecache_ok fs" "ecache_miss fs dp name" "lru_victim fs = Some j"
  shows "find_result dp (Ent j) (upd_ent fs (Ent j) (\<lambda>_. recycled (ent fs (Ent j)) (e_dev (ent fs dp)))) cs
    (dir_find name 0 its) (nslots its) want None (dirlookup fs dp name want)"
proof -
  let ?e = "recycled (ent fs (Ent j)) (e_dev (ent fs dp))"
  let ?fs = "upd_ent fs (Ent j) (\<lambda>_. ?e)"
  note j = lru_victim_some [OF ec(3,1)]
  have ne: "Ent j \<noteq> dp" using j held by (auto simp: dir_held_def)
  have j256: "length (e_filename (ent fs (Ent j))) = 256" using j ec(1) by (simp add: ecache_ok_def ent.simps)
  have h: "dir_holds fs dp cs (concat (map slots (its @ dels)))" and ok: "\<forall>it \<in> set (its @ dels). item_ok it" using items by (auto simp: dir_items_def)
  have h1: "dir_holds ?fs dp cs (concat (map slots (its @ dels)))" using h ne by (simp add: dir_holds_other)
  obtain r fs2 where r: "reloc_ent ?fs dp 0 False = Ok (r, fs2)" "dir_moved dp ?fs fs2" "dir_holds fs2 dp cs (concat (map slots (its @ dels)))"
    using reloc_start [OF h1] by blast
  obtain d where d: "moved (ent ?fs dp) d" "fs2 = upd_ent ?fs dp (\<lambda>_. d)" using r(2) by (auto simp: dir_moved_def)
  have pd: "ptr_ok fs dp" by (rule dir_holds_ptr [OF h])
  have e2: "ent fs2 (Ent j) = ?e" using d(2) j ne by simp
  have s2: "fs2 = scan_state dp (Ent j) ?fs d ?e"
    unfolding scan_state_def d(2) [symmetric] using upd_ent_id [of fs2 "Ent j"] e2 by simp
  have dr: "dir_ready fs2 dp" using d held pd ne by (auto simp: dir_ready_def dir_held_def moved_def)
  have inv: "search_inv fs2 dp (Ent j) cs ([] @ its @ dels)"
    using r(3) ok dr e2 j j256 ne d(2) by (simp add: search_inv_def dir_items_def scratch_ok_def recycled_def)
  have "length its \<le> nslots its"
  proof (induction its)
    case (Cons it its)
    have "slots it \<noteq> []" by (rule slots_nonempty)
    then have "1 \<le> length (slots it)" by (cases "slots it") auto
    with Cons show ?case by simp
  qed simp
  then have k: "length its < dir_fuel fs2" using dir_fuel_enough [OF r(3)] by simp
  have rf: "refilled (ent ?fs (Ent j)) ?e" using j j256 refilledI [of "e_filename ?e" ?e] by (simp add: recycled_def)
  note res = dirlookup_loop_ok [OF inv del l _ k, of name want None "of_nat (lne_count name + 1)" 0]
  have "dirlookup fs dp name want = dirlookup_loop (dir_fuel fs2) fs2 dp (Ent j) name (of_nat (lne_count name + 1)) 0 0 want None"
    using held plain_name_dots [OF name] eget_miss [OF ec] r(1) j by (simp add: dirlookup_def dir_held_def dir_ready_def recycled_def)
  moreover have "find_result dp (Ent j) ?fs cs (dir_find name 0 its) (nslots its) want None
      (dirlookup_loop (dir_fuel fs2) fs2 dp (Ent j) name (of_nat (lne_count name + 1)) 0 0 want None)"
  proof (rule find_result_step [OF _ d(1) rf])
    show "find_result dp (Ent j) (scan_state dp (Ent j) ?fs d ?e) cs (dir_find name 0 its) (nslots its) want None
      (dirlookup_loop (dir_fuel fs2) fs2 dp (Ent j) name (of_nat (lne_count name + 1)) 0 0 want None)"
      using res name unfolding s2 [symmetric] by (simp add: plain_name_def slot_off_def)
  qed (use pd j ne in simp_all)
  ultimately show ?thesis by simp
qed

text \<open>The same on the state before the entry is recycled.\<close>

lemma lookup_state:
  assumes "find_result dp ep (upd_ent fs ep (\<lambda>_. r)) cs found en want poff res" "ptr_ok fs ep" "ep \<noteq> dp"
  shows "\<exists>d g. moved (ent fs dp) d \<and> entry_ok (fs_fat fs) (fs_blk fs) d cs \<and> refilled r g \<and>
    (case found of
       Some (i, it) \<Rightarrow> item_info it g \<and> res = Ok (Some ep, poff, scan_state dp ep fs (d\<lparr>e_ref := e_ref d + 1\<rparr>)
         (g\<lparr>e_parent := Some dp, e_off := slot_off i, e_valid := 1\<rparr>))
     | None \<Rightarrow> e_filename g = replicate 256 0 \<and>
         res = Ok (None, if want then Some (slot_off en) else poff, scan_state dp ep fs d (g\<lparr>e_ref := e_ref g - 1\<rparr>)))"
proof -
  have a: "\<And>d g. scan_state dp ep (upd_ent fs ep (\<lambda>_. r)) d g = scan_state dp ep fs d g" using scan_state_absorb assms(3) by metis
  show ?thesis using assms(1) unfolding find_result_def a using assms(2,3) by simp
qed

section \<open>Adding an item\<close>

lemma drop_slots:
  "\<forall>d \<in> set sl. length d = 32 \<Longrightarrow> drop (32 * n) (concat sl @ replicate z 0) = concat (drop n sl) @ replicate (z - 32 * (n - length sl)) (0 :: u8)"
proof (induction sl arbitrary: n)
  case (Cons d sl)
  then show ?case by (cases n) simp_all
qed simp

lemma concat_deleted_drop:
  assumes "\<forall>it \<in> set dels. is_deleted it \<and> item_ok it"
  shows "concat (map slots (drop n dels)) = drop n (concat (map slots dels))"
  using assms
proof (induction dels arbitrary: n)
  case (Cons it dels)
  obtain d where "slots it = [d]" using is_deleted_slots [of it] Cons.prems by auto
  with Cons show ?case by (cases n) simp_all
qed simp

lemma put_dentries_snoc:
  "put_dentries fs dp off (des @ [d]) =
     rbind (put_dentries fs dp off des) (\<lambda>(off1, fs1). rmap (\<lambda>fs2. (off1 + 32, fs2)) (put_dentry fs1 dp off1 d))"
proof (induction des arbitrary: fs off)
  case Nil
  show ?case by (cases "put_dentry fs dp off d") simp_all
next
  case (Cons x des)
  then show ?case by (cases "put_dentry fs dp off x") simp_all
qed

lemma emake_slots:
  assumes "e_attribute (ent fs dp) AND ATTR_DIRECTORY \<noteq> 0" "off mod 32 = 0" "32 < off"
  shows "emake fs dp ep off = rmap snd (put_dentries fs dp off
    (slots (File (e_filename (ent fs ep)) (e_attribute (ent fs ep)) (e_first_clus (ent fs ep)) (e_file_size (ent fs ep)))))"
proof -
  let ?l = "put_dentries fs dp off (lne_list (e_filename (ent fs ep)))"
  have "\<not> off \<le> 32" using assms(3) by simp
  moreover have "rmap snd (rmap (\<lambda>fs2. (o1, fs2)) r) = r" for o1 :: u32 and r :: "fs res" by (cases r) simp_all
  ultimately show ?thesis using assms(1,2) unfolding slots.simps put_dentries_snoc by (cases ?l) (auto simp: emake_def Let_def)
qed

lemma put_item_ok:
  assumes items: "dir_items fs dp cs (its @ dels)" and del: "\<forall>it \<in> set dels. is_deleted it" and res: "fat_reserved (fs_fat fs) (fs_blk fs)"
    and it: "item_ok it" and room: "32 * nslots (its @ [it]) \<le> dir_room fs cs" "dir_room fs cs < 2 ^ 32"
  shows "\<exists>x fs1. put_dentries fs dp (slot_off (nslots its)) (slots it) = Ok (slot_off (nslots its + length (slots it)), fs1) \<and>
    dir_step dp cs fs (cs @ x) fs1 \<and> dir_items fs1 dp (cs @ x) (its @ it # drop (length (slots it)) dels)"
proof -
  let ?off = "slot_off (nslots its)" and ?N = "concat (slots it)" and ?A = "concat (map slots its)" and ?D = "concat (map slots dels)"
  have h: "dir_holds fs dp cs (?A @ ?D)" and ok: "\<forall>it \<in> set (its @ dels). item_ok it" using items by (auto simp: dir_items_def)
  obtain z where z: "dir_bytes fs cs = concat (?A @ ?D) @ replicate z 0" using h by (auto simp: dir_holds_def)
  have sl: "\<forall>d \<in> set (?A @ ?D). length d = 32" and da: "dir_at fs dp cs" using h by (auto simp: dir_holds_def)
  have dd: "\<forall>it \<in> set dels. is_deleted it \<and> item_ok it" using del ok by auto
  have bound: "32 * nslots its + 32 * length (slots it) < 2 ^ 32" using room by simp
  have u: "unat ?off = 32 * nslots its" by (rule unat_slot) (use bound in simp)
  have al: "unat ?off mod 32 = 0" unfolding u by simp
  have lA: "length (concat ?A) = 32 * nslots its" "length ?N = 32 * length (slots it)"
    using length_slots [of ?A] sl length_slots [of "slots it"] slots_length [OF it] by auto
  have le: "unat ?off \<le> length (dir_bytes fs cs)" unfolding u z using lA by simp
  have rm: "unat ?off + 32 * length (slots it) \<le> dir_room fs cs" "unat ?off + 32 * length (slots it) < 2 ^ 32" unfolding u using room bound by simp_all
  obtain x fs1 y where p: "put_dentries fs dp ?off (slots it) = Ok (?off + of_nat (32 * length (slots it)), fs1)" "dir_at fs1 dp (cs @ x)"
      "dir_step dp cs fs (cs @ x) fs1" "dir_room fs1 (cs @ x) = dir_room fs cs"
      "dir_bytes fs1 (cs @ x) = put_bytes (dir_bytes fs cs @ replicate y 0) (unat ?off) ?N"
    using put_dentries_ok [OF da res al le rm slots_length [OF it]] by blast
  have "dir_bytes fs cs @ replicate y 0 = concat ?A @ (concat ?D @ replicate (z + y) 0)" unfolding z by (simp add: replicate_add)
  then have "dir_bytes fs1 (cs @ x) = concat ?A @ ?N @ drop (length ?N) (concat ?D @ replicate (z + y) 0)"
    using p(5) lA unfolding u by (simp add: put_bytes_def)
  also have "drop (length ?N) (concat ?D @ replicate (z + y) 0) = concat (drop (length (slots it)) ?D) @ replicate (z + y - 32 * (length (slots it) - length ?D)) 0"
    unfolding lA(2) by (rule drop_slots) (use sl in auto)
  finally have db: "dir_bytes fs1 (cs @ x) = concat (concat (map slots (its @ it # drop (length (slots it)) dels))) @
      replicate (z + y - 32 * (length (slots it) - length ?D)) 0"
    using concat_deleted_drop [OF dd] by simp
  have "length (dir_bytes fs1 (cs @ x)) \<le> dir_room fs1 (cs @ x)"
    using p(2) length_file_bytes [of "fs_fat fs1" "fs_blk fs1" "cs @ x"] by (simp add: dir_at_def dir_bytes_def dir_room_def add_mult_distrib)
  then have lb: "length (dir_bytes fs1 (cs @ x)) < 2 ^ 32" using room(2) p(4) by simp
  have "\<forall>d \<in> set (concat (map slots (its @ it # drop (length (slots it)) dels))). length d = 32"
    using ok it slots_length by (auto dest: in_set_dropD)
  then have "dir_holds fs1 dp (cs @ x) (concat (map slots (its @ it # drop (length (slots it)) dels)))"
    using p(2) db lb unfolding dir_holds_def by blast
  then have "dir_items fs1 dp (cs @ x) (its @ it # drop (length (slots it)) dels)"
    using ok it by (auto simp: dir_items_def dest: in_set_dropD)
  moreover have "?off + of_nat (32 * length (slots it)) = slot_off (nslots its + length (slots it))" by (simp add: slot_off_def algebra_simps)
  ultimately show ?thesis using p(1,3) by auto
qed

lemma emake_ok:
  assumes items: "dir_items fs dp cs (its @ dels)" and del: "\<forall>it \<in> set dels. is_deleted it" and res: "fat_reserved (fs_fat fs) (fs_blk fs)"
    and dir: "e_attribute (ent fs dp) AND ATTR_DIRECTORY \<noteq> 0" and pos: "1 < nslots its"
    and it: "it = File (e_filename (ent fs ep)) (e_attribute (ent fs ep)) (e_first_clus (ent fs ep)) (e_file_size (ent fs ep))" "item_ok it"
    and room: "32 * nslots (its @ [it]) \<le> dir_room fs cs" "dir_room fs cs < 2 ^ 32"
  shows "\<exists>x fs1. emake fs dp ep (slot_off (nslots its)) = Ok fs1 \<and> dir_step dp cs fs (cs @ x) fs1 \<and>
    dir_items fs1 dp (cs @ x) (its @ it # drop (length (slots it)) dels)"
proof -
  have bound: "32 * nslots its < 2 ^ 32" using room by simp
  have "unat (32 :: u32) < unat (slot_off (nslots its))" unfolding unat_slot [OF bound] using pos by simp
  then have "32 < slot_off (nslots its)" unfolding word_less_nat_alt .
  from emake_slots [OF dir slot_aligned [OF bound] this, of ep, folded it(1)] put_item_ok [OF items del res it(2) room]
  show ?thesis by auto
qed

text \<open>At the first slot \<^verbatim>\<open>emake\<close> stores the entry \<^verbatim>\<open>.\<close>, whatever entry it is given.\<close>

definition dot_slot :: "u32 \<Rightarrow> bytes" where
  "dot_slot clus = sne_entry (DOT # replicate 10 SPACE) ATTR_DIRECTORY clus 0"

lemma dot_item: "item_ok (Short (dot_slot clus))" "item_name (Short (dot_slot clus)) = [DOT]"
proof -
  have n: "strncpy (replicate CHAR_SHORT_NAME 0) (DOT # replicate 10 SPACE) 11 =
      [DOT, SPACE, SPACE, SPACE, SPACE, SPACE, SPACE, SPACE, SPACE, SPACE, SPACE]" by code_simp
  obtain r where d: "dot_slot clus = [DOT, SPACE, SPACE, SPACE, SPACE, SPACE, SPACE, SPACE, SPACE, SPACE, SPACE, ATTR_DIRECTORY] @ r"
    unfolding dot_slot_def sne_entry_def n by simp
  have "length (dot_slot clus) = 32" by (simp add: dot_slot_def)
  then show "item_ok (Short (dot_slot clus))" by (simp add: slot_used_def dentry_attr_def d)
  show "item_name (Short (dot_slot clus)) = [DOT]"
    by (simp add: read_entry_name_def dentry_attr_def d zero_fill_eq overwrite_def flip: replicate_add)
qed

lemma emake_first:
  assumes "dir_items fs dp cs dels" "\<forall>it \<in> set dels. is_deleted it" "fat_reserved (fs_fat fs) (fs_blk fs)"
    "e_attribute (ent fs dp) AND ATTR_DIRECTORY \<noteq> 0" "32 \<le> dir_room fs cs" "dir_room fs cs < 2 ^ 32"
  shows "\<exists>x fs1. emake fs dp ep 0 = Ok fs1 \<and> dir_items fs1 dp (cs @ x) (Short (dot_slot (e_first_clus (ent fs ep))) # drop 1 dels)"
proof -
  let ?d = "dot_slot (e_first_clus (ent fs ep))"
  have "emake fs dp ep 0 = put_dentry fs dp 0 ?d" using assms(4) by (simp add: emake_def Let_def dot_slot_def)
  moreover have "\<exists>x fs1. put_dentries fs dp (slot_off (nslots [])) (slots (Short ?d)) = Ok (slot_off (nslots [] + length (slots (Short ?d))), fs1) \<and>
      dir_step dp cs fs (cs @ x) fs1 \<and> dir_items fs1 dp (cs @ x) ([] @ Short ?d # drop (length (slots (Short ?d))) dels)"
    by (rule put_item_ok) (use assms dot_item(1) in simp_all)
  ultimately show ?thesis by (cases "put_dentry fs dp 0 ?d") (auto simp: slot_off_def)
qed

section \<open>Creating a file\<close>

definition stored_name :: "bytes \<Rightarrow> bytes \<Rightarrow> bytes" where
  "stored_name buf name = (strncpy buf name 255)[255 := 0]"

lemma cstr_stored:
  assumes "length buf = 256"
  shows "cstr (stored_name buf name) = take 255 (cstr name)" and "length (stored_name buf name) = 256"
proof -
  show "length (stored_name buf name) = 256" using assms by (simp add: stored_name_def)
  have *: "n < length s \<Longrightarrow> cstr ((strncpy_loop s t n)[n := 0]) = take n (cstr t)" for s t n
  proof (induction s t n rule: strncpy_loop.induct)
    case (1 x s t n)
    show ?case
    proof (cases t)
      case (Cons a t')
      show ?thesis
      proof (cases "a = 0")
        case False
        then show ?thesis using 1 Cons by simp
      qed (use Cons in simp)
    qed simp
  qed (auto simp: neq_Nil_conv)
  from * [of 255 buf name] assms show "cstr (stored_name buf name) = take 255 (cstr name)" by (simp add: stored_name_def strncpy_def)
qed

text \<open>The state after a lookup that found nothing: the cache still misses, and still offers the same entry.\<close>

lemma after_miss:
  assumes ec: "ecache_ok fs" "ecache_miss fs dp name" "lru_victim fs = Some j" and ne: "Ent j \<noteq> dp" and pd: "ptr_ok fs dp"
    and d: "moved (ent fs dp) d" and g: "refilled (recycled (ent fs (Ent j)) dv) g"
  defines "fs1 \<equiv> scan_state dp (Ent j) fs d (g\<lparr>e_ref := e_ref g - 1\<rparr>)"
  shows "ecache_ok fs1" "ecache_miss fs1 dp name" "lru_victim fs1 = Some j"
proof -
  note j = lru_victim_some [OF ec(3,1)]
  have g0: "e_ref g = 1" "e_valid g = 0" "length (e_filename g) = 256" using refilled_fields [OF g] by (simp_all add: recycled_def)
  have e: "fs_entries fs1 ! i = (if i = j then g\<lparr>e_ref := e_ref g - 1\<rparr> else if Ent i = dp then d else fs_entries fs ! i)" if "i < length (fs_entries fs)" for i
    using that ne pd j unfolding fs1_def by (cases dp) (auto simp: scan_state_def upd_ent.simps ent.simps)
  have len: "length (fs_entries fs1) = length (fs_entries fs)" "fs_lru fs1 = fs_lru fs" by (simp_all add: fs1_def)
  have md: "e_ref d = e_ref (ent fs dp)" "e_valid d = e_valid (ent fs dp)" "e_filename d = e_filename (ent fs dp)" "e_parent d = e_parent (ent fs dp)"
    using d by (auto simp: moved_def)
  have old: "length (e_filename (fs_entries fs ! i)) = 256" "\<not> ecache_hit dp name (fs_entries fs ! i)" if "i < length (fs_entries fs)" for i
    using ec(1,2) that by (auto simp: ecache_ok_def ecache_miss_def)
  have x: "length (e_filename (fs_entries fs1 ! i)) = 256" "\<not> ecache_hit dp name (fs_entries fs1 ! i)"
    "e_ref (fs_entries fs1 ! i) = 0 \<longleftrightarrow> e_ref (fs_entries fs ! i) = 0" if i: "i < length (fs_entries fs)" for i
    using e [OF i] old [OF i] g0 md j by (auto simp: ecache_hit_def ent.simps)
  show "ecache_ok fs1" using ec(1) x(1) unfolding ecache_ok_def len by (auto simp: in_set_conv_nth len)
  show "ecache_miss fs1 dp name" using x(2) unfolding ecache_miss_def by (auto simp: in_set_conv_nth len)
  have "find (\<lambda>i. e_ref (fs_entries fs1 ! i) = 0) (rev (fs_lru fs)) = find (\<lambda>i. e_ref (fs_entries fs ! i) = 0) (rev (fs_lru fs))"
    by (rule find_cong) (use x(3) ec(1) in \<open>auto simp: ecache_ok_def\<close>)
  then show "lru_victim fs1 = Some j" using ec(3) by (simp add: lru_victim_def len)
qed

lemma dir_items_scan:
  assumes "dir_items fs dp cs items" "ep \<noteq> dp" "entry_ok (fs_fat fs) (fs_blk fs) d cs"
  shows "dir_items (scan_state dp ep fs d g) dp cs items"
  using assms dir_holds_ptr [of fs dp cs] by (auto simp: dir_items_def dir_holds_def dir_at_def)

lemma dir_items_other: "q \<noteq> dp \<Longrightarrow> dir_items (upd_ent fs q g) dp cs items = dir_items fs dp cs items"
  by (simp add: dir_items_def dir_holds_other)

lemma ealloc_ok:
  assumes items: "dir_items fs dp cs (its @ dels)" and del: "\<forall>it \<in> set dels. is_deleted it" and l: "its \<noteq> [] \<Longrightarrow> \<not> is_deleted (List.last its)"
    and held: "dir_held fs dp" and fmt: "formatname name0 = Some name" and name: "plain_name name" "strlen name \<le> 255"
    and ec: "ecache_ok fs" "ecache_miss fs dp name" "lru_victim fs = Some j" and ul: "\<not> e_locked (ent fs (Ent j))"
    and absent: "dir_find name 0 its = None" and res: "fat_reserved (fs_fat fs) (fs_blk fs)" and attr: "attr \<noteq> ucast ATTR_DIRECTORY"
    and pos: "1 < nslots its" and new: "new = File (stored_name (replicate 256 0) name) (ealloc_attr attr) 0 0" "item_ok new"
    and room: "32 * nslots (its @ [new]) \<le> dir_room fs cs" "dir_room fs cs < 2 ^ 32"
  shows "\<exists>x fs'. ealloc fs dp name0 attr = Ok (Some (Ent j), fs') \<and> dir_items fs' dp (cs @ x) (its @ new # drop (length (slots new)) dels) \<and>
    keeps (fs_fat fs) cs (fs_blk fs) (cs @ x) (fs_blk fs') \<and> e_ref (ent fs' dp) = e_ref (ent fs dp) + 1 \<and>
    (let e = ent fs' (Ent j) in e_valid e = 1 \<and> e_ref e = 1 \<and> \<not> e_locked e \<and> e_parent e = Some dp \<and> e_off e = slot_off (nslots its) \<and>
       cstr (e_filename e) = cstr name \<and> e_attribute e = ealloc_attr attr \<and> e_first_clus e = 0 \<and> e_file_size e = 0)"
proof -
  let ?p = "Ent j" and ?off = "slot_off (nslots its)" and ?R = "recycled (ent fs (Ent j)) (e_dev (ent fs dp))"
  note j = lru_victim_some [OF ec(3,1)]
  have ne: "?p \<noteq> dp" "dp \<noteq> ?p" using j held by (auto simp: dir_held_def)
  have pd: "ptr_ok fs dp" using items dir_holds_ptr by (auto simp: dir_items_def)
  have pj: "ptr_ok fs ?p" using j by simp
  obtain d g where d: "moved (ent fs dp) d" "entry_ok (fs_fat fs) (fs_blk fs) d cs" and g: "refilled ?R g" "e_filename g = replicate 256 0"
    and lk: "dirlookup fs dp name True = Ok (None, Some ?off, scan_state dp ?p fs d (g\<lparr>e_ref := e_ref g - 1\<rparr>))"
    using dirlookup_ok [OF items del l held name(1) ec, of True, THEN lookup_state] absent ne pj by auto
  note am = after_miss [OF ec ne(1) pd d(1) g(1)]
  let ?R2 = "recycled (g\<lparr>e_ref := e_ref g - 1\<rparr>) (e_dev d)"
  have eg: "eget (scan_state dp ?p fs d (g\<lparr>e_ref := e_ref g - 1\<rparr>)) dp (Some name) = Ok (?p, scan_state dp ?p fs d ?R2)"
    using eget_miss [OF am] pd pj ne by (simp add: scan_state_upd)
  have ul2: "\<not> e_locked ?R2" using refilled_fields [OF g(1)] ul by (simp add: recycled_def)
  then have el: "elock (scan_state dp ?p fs d ?R2) ?p = Ok (scan_state dp ?p fs d (?R2\<lparr>e_locked := True\<rparr>))"
    using pj by (simp add: elock_def acquiresleep_ent_def scan_state_upd) (simp add: recycled_def)
  let ?D = "d\<lparr>e_ref := e_ref d + 1\<rparr>"
  let ?E = "?R2\<lparr>e_locked := True, e_attribute := ealloc_attr attr, e_file_size := 0, e_first_clus := 0, e_parent := Some dp, e_off := ?off,
    e_clus_cnt := 0, e_cur_clus := 0, e_dirty := False, e_filename := stored_name (replicate 256 0) name\<rparr>"
  let ?fs4 = "scan_state dp ?p fs ?D ?E"
  have D: "entry_ok (fs_fat fs) (fs_blk fs) ?D cs" using d(2) by (simp add: entry_ok_def)
  have it4: "dir_items ?fs4 dp cs (its @ dels)" by (rule dir_items_scan [OF items ne(1) D])
  have at4: "e_attribute (ent ?fs4 dp) AND ATTR_DIRECTORY \<noteq> 0" using held d(1) pd ne by (auto simp: dir_held_def dir_ready_def moved_def)
  have new4: "new = File (e_filename (ent ?fs4 ?p)) (e_attribute (ent ?fs4 ?p)) (e_first_clus (ent ?fs4 ?p)) (e_file_size (ent ?fs4 ?p))"
    using new(1) pj by simp
  have r4: "32 * nslots (its @ [new]) \<le> dir_room ?fs4 cs" "dir_room ?fs4 cs < 2 ^ 32" "fat_reserved (fs_fat ?fs4) (fs_blk ?fs4)"
    using room res by (simp_all add: dir_room_def)
  obtain x fs5 where em: "emake ?fs4 dp ?p ?off = Ok fs5" "dir_step dp cs ?fs4 (cs @ x) fs5"
      "dir_items fs5 dp (cs @ x) (its @ new # drop (length (slots new)) dels)"
    using emake_ok [OF it4 del r4(3) at4 pos new4 new(2) r4(1,2)] by blast
  note st = dir_step_simps [OF em(2)]
  have e5: "ent fs5 ?p = ?E" using st(4) [OF ne(1)] pj by simp
  have p5: "ptr_ok fs5 ?p" using st(3) pj by simp
  let ?fs7 = "upd_ent (upd_ent fs5 ?p (\<lambda>e. e\<lparr>e_valid := 1\<rparr>)) ?p (\<lambda>e. e\<lparr>e_locked := False\<rparr>)"
  have eu: "eunlock (upd_ent fs5 ?p (\<lambda>e. e\<lparr>e_valid := 1\<rparr>)) ?p = Ok ?fs7"
    using e5 p5 by (simp add: eunlock_def releasesleep_ent_def) (simp add: recycled_def)
  have v: "e_valid (ent fs dp) = 1" "e_attribute (ent fs dp) AND ATTR_DIRECTORY \<noteq> 0" using held by (auto simp: dir_held_def dir_ready_def)
  have fs4: "upd_ent (edup (scan_state dp ?p fs d (?R2\<lparr>e_locked := True\<rparr>)) dp) ?p (\<lambda>e. e\<lparr>e_attribute := ealloc_attr attr, e_file_size := 0, e_first_clus := 0,
      e_parent := Some dp, e_off := ?off, e_clus_cnt := 0, e_cur_clus := 0, e_dirty := False,
      e_filename := (strncpy (e_filename e) name 255)[255 := 0]\<rparr>) = ?fs4"
    using pd pj ne g(2) by (simp add: edup_def scan_state_upd stored_name_def recycled_def)
  have "ealloc fs dp name0 attr = Ok (Some ?p, ?fs7)"
    using v fmt lk eg el em(1) eu attr unfolding ealloc_def by (simp add: Let_def fs4)
  moreover have "dir_items ?fs7 dp (cs @ x) (its @ new # drop (length (slots new)) dels)" using em(3) ne by (simp add: dir_items_other)
  moreover have "keeps (fs_fat fs) cs (fs_blk fs) (cs @ x) (fs_blk ?fs7)" using st(6) by simp
  moreover have "e_ref (ent ?fs7 dp) = e_ref (ent fs dp) + 1" using st(7) d(1) pd ne by (auto simp: moved_def)
  moreover have "ent ?fs7 ?p = ?E\<lparr>e_valid := 1, e_locked := False\<rparr>" using e5 p5 by simp
  moreover have "cstr (stored_name (replicate 256 0) name) = cstr name" using cstr_stored(1) [of "replicate 256 0" name] name(2) by (simp add: strlen_cstr)
  ultimately show ?thesis by (intro exI [of _ x] exI [of _ ?fs7]) (simp add: recycled_def Let_def)
qed

section \<open>A small directory\<close>

definition demo_items :: "ditem list" where
  "demo_items = [Short (dot_slot 2), File [0x61, 0] ATTR_ARCHIVE 3 5]"

definition dir_blk :: "ditem list \<Rightarrow> blk" where
  "dir_blk items = (let d = concat (concat (map slots items)) @ replicate (512 - 32 * nslots items) 0
     in demo_blk\<lparr>bl_cache := (bl_cache demo_blk)(2 := d), bl_disk := (bl_disk demo_blk)(2 := d)\<rparr>)"

definition dir_fs :: "ditem list \<Rightarrow> fs" where
  "dir_fs items = \<lparr>fs_fat = demo_fat, fs_blk = dir_blk items,
     fs_root = zero_dirent\<lparr>e_attribute := ATTR_DIRECTORY, e_first_clus := 2, e_cur_clus := 2, e_valid := 1, e_ref := 1\<rparr>,
     fs_entries = replicate 50 zero_dirent, fs_lru = rev [0..<50]\<rparr>"

lemma dir_fs_simps [simp]: "fs_fat (dir_fs items) = demo_fat" "fs_blk (dir_fs items) = dir_blk items" "fs_lru (dir_fs items) = rev [0..<50]"
  "ent (dir_fs items) Root = zero_dirent\<lparr>e_attribute := ATTR_DIRECTORY, e_first_clus := 2, e_cur_clus := 2, e_valid := 1, e_ref := 1\<rparr>"
  "fs_entries (dir_fs items) = replicate 50 zero_dirent"
  by (simp_all add: dir_fs_def ent.simps)

lemma dir_blk_wf:
  assumes "\<forall>it \<in> set items. item_ok it" "nslots items \<le> 16"
  shows "blk_wf (dir_blk items)" "length (concat (concat (map slots items))) = 32 * nslots items"
proof -
  have "\<forall>d \<in> set (concat (map slots items)). length d = 32" using assms(1) slots_length by auto
  from length_slots [OF this] show l: "length (concat (concat (map slots items))) = 32 * nslots items" .
  show "blk_wf (dir_blk items)" using demo_wf(2) l assms(2) by (simp add: blk_wf_def dir_blk_def Let_def)
qed

lemma dir_blk_read: "unat c \<le> 5 \<Longrightarrow> read_fat demo_fat (dir_blk items) c = le32 demo_table (4 * unat c)"
proof -
  assume c: "unat c \<le> 5"
  have "tab demo_fat (dir_blk items) (unat c) = le32 demo_table (4 * unat c)"
    using c by (simp add: tab_def demo_fat_def dir_blk_def Let_def demo_blk_def)
  then show ?thesis using c tab_read [OF demo_wf(1), of c "dir_blk items"] by (simp add: demo_dcc)
qed

lemma demo_table_2: "le32 demo_table 8 = 0x0fffffff"
  by (simp add: le32_def demo_table_def le32_bytes_def nth_append)

lemma dir_fs_room: "512 \<le> dir_room (dir_fs items) [2]" "dir_room (dir_fs items) [2] < 2 ^ 32" "fat_reserved demo_fat (dir_blk items)"
proof -
  have "nfree demo_fat (dir_blk items) \<le> card {2 .. 5 :: nat}"
    unfolding nfree_def by (rule card_inj_on_le [of unat]) (auto simp: inj_on_def clus_ok_def demo_dcc word_unat_eq_iff)
  then show "512 \<le> dir_room (dir_fs items) [2]" "dir_room (dir_fs items) [2] < 2 ^ 32" by (simp_all add: dir_room_def) (simp_all add: demo_fat_def)
  show "fat_reserved demo_fat (dir_blk items)"
    unfolding fat_reserved_read [OF demo_wf(1)] using dir_blk_read [of 0 items] dir_blk_read [of 1 items] demo_tabs by simp
qed

lemma dir_fs_items:
  assumes ok: "\<forall>it \<in> set items. item_ok it" "nslots items \<le> 16"
  shows "dir_items (dir_fs items) Root [2] items"
proof -
  have r: "read_fat demo_fat (dir_blk items) 2 = 0x0fffffff" using dir_blk_read [of 2 items] demo_table_2 by simp
  have "chain_ok demo_fat (dir_blk items) [2]" using r by (simp add: chain_ok_def clus_ok_def demo_dcc)
  then have e: "entry_ok demo_fat (dir_blk items) (ent (dir_fs items) Root) [2]" by (simp add: entry_ok_def zero_dirent_def)
  have b: "dir_bytes (dir_fs items) [2] = concat (concat (map slots items)) @ replicate (512 - 32 * nslots items) 0"
    by (simp add: dir_bytes_def file_bytes_def clus_bytes_def sectors_def first_sec_of_clus_def demo_fat_def dir_blk_def Let_def)
  have "dir_holds (dir_fs items) Root [2] (concat (map slots items))"
    unfolding dir_holds_def dir_at_def using e b dir_blk_wf [OF ok] demo_wf(1) ok slots_length by auto
  then show ?thesis using ok(1) by (simp add: dir_items_def)
qed

lemma dir_fs_cache: "ecache_ok (dir_fs items)" "ecache_miss (dir_fs items) dp name" "lru_victim (dir_fs items) = Some 0" "dir_held (dir_fs items) Root"
proof -
  have u: "[0..<50] = 0 # [1..<50]" by (simp add: upt_conv_Cons)
  show "ecache_ok (dir_fs items)" by (auto simp: ecache_ok_def zero_dirent_def)
  show "ecache_miss (dir_fs items) dp name" by (simp add: ecache_miss_def ecache_hit_def zero_dirent_def)
  show "lru_victim (dir_fs items) = Some 0" unfolding lru_victim_def by (simp add: u zero_dirent_def)
  show "dir_held (dir_fs items) Root" by (simp add: dir_held_def dir_ready_def zero_dirent_def)
qed

lemma demo_items_ok: "\<forall>it \<in> set demo_items. item_ok it" "nslots demo_items = 3"
proof -
  have g: "generate_shortname [0x61, 0] = [0x41, 0x20, 0x20, 0x20, 0x20, 0x20, 0x20, 0x20, 0x20, 0x20, 0x20]" by code_simp
  have s: "strncpy (replicate CHAR_SHORT_NAME 0) [0x41, 0x20, 0x20, 0x20, 0x20, 0x20, 0x20, 0x20, 0x20, 0x20, 0x20] 11 =
    [0x41, 0x20, 0x20, 0x20, 0x20, 0x20, 0x20, 0x20, 0x20, 0x20, 0x20]" by code_simp
  have "slot_used (sne_entry (generate_shortname [0x61, 0]) ATTR_ARCHIVE 3 5)"
    unfolding slot_used_def g by (simp add: sne_entry_def s)
  then show "\<forall>it \<in> set demo_items. item_ok it" using dot_item(1) by (simp add: demo_items_def)
  show "nslots demo_items = 3" by (simp add: demo_items_def lne_count_def)
qed

section \<open>Lookup and creation\<close>



text \<open>
  C15: \<^verbatim>\<open>ealloc\<close> of a file that does not exist appends it to the directory: the items become the old ones followed by an item with
  the name, the attributes, cluster 0 and size 0, in the place of deleted slots at the end or behind them, extending the chain
  by fresh clusters where needed. The cluster chains and contents of all other files are kept, the cache entry is
  valid, unlocked and holds one reference, and the directory has one reference more. The name must not be one
  whose short form starts with the byte that marks a deleted slot, and the directory must have its two dot
  entries.
\<close>
theorem ealloc_creates:
  assumes "dir_items fs dp cs (its @ dels)" and "\<forall>it \<in> set dels. is_deleted it" and "its \<noteq> [] \<longrightarrow> \<not> is_deleted (List.last its)"
    and "dir_held fs dp" and "formatname name0 = Some name" and "plain_name name" "strlen name \<le> 255"
    and "ecache_ok fs" "ecache_miss fs dp name" "lru_victim fs = Some j" and "\<not> e_locked (ent fs (Ent j))"
    and "dir_find name 0 its = None" and "fat_reserved (fs_fat fs) (fs_blk fs)" and "attr \<noteq> ucast ATTR_DIRECTORY"
    and "1 < nslots its" and "new = File (stored_name (replicate 256 0) name) (ealloc_attr attr) 0 0" "item_ok new"
    and "32 * nslots (its @ [new]) \<le> dir_room fs cs" "dir_room fs cs < 2 ^ 32"
  shows "\<exists>x fs'. ealloc fs dp name0 attr = Ok (Some (Ent j), fs') \<and> dir_items fs' dp (cs @ x) (its @ new # drop (length (slots new)) dels) \<and>
    keeps (fs_fat fs) cs (fs_blk fs) (cs @ x) (fs_blk fs') \<and> e_ref (ent fs' dp) = e_ref (ent fs dp) + 1 \<and>
    (let e = ent fs' (Ent j) in e_valid e = 1 \<and> e_ref e = 1 \<and> \<not> e_locked e \<and> e_parent e = Some dp \<and> e_off e = slot_off (nslots its) \<and>
       cstr (e_filename e) = cstr name \<and> e_attribute e = ealloc_attr attr \<and> e_first_clus e = 0 \<and> e_file_size e = 0)"
  by (rule ealloc_ok [OF assms(1,2) _ assms(4-19)]) (use assms(3) in blast)

theorem ealloc_creates_witness:
  "\<exists>x fs' new. ealloc (dir_fs demo_items) Root [0x62, 0] 0 = Ok (Some (Ent 0), fs') \<and> dir_items fs' Root ([2] @ x) (demo_items @ [new]) \<and> item_name new = [0x62]"
proof -
  let ?s = "stored_name (replicate 256 0) [0x62, 0]"
  let ?new = "File (stored_name (replicate 256 0) [0x62, 0]) (ealloc_attr 0) 0 0"
  have f: "formatname [0x62, 0] = Some [0x62, 0]" by code_simp
  have n: "plain_name [0x62, 0]" by (simp add: plain_name_def)
  have c: "cstr ?s = [0x62]" using cstr_stored(1) [of "replicate 256 0" "[0x62, 0]"] by simp
  then have l: "strlen ?s = 1" by (simp add: strlen_cstr)
  have g: "generate_shortname ?s = [0x42, 0x20, 0x20, 0x20, 0x20, 0x20, 0x20, 0x20, 0x20, 0x20, 0x20]" by code_simp
  have p: "strncpy (replicate CHAR_SHORT_NAME 0) [0x42, 0x20, 0x20, 0x20, 0x20, 0x20, 0x20, 0x20, 0x20, 0x20, 0x20] 11 =
    [0x42, 0x20, 0x20, 0x20, 0x20, 0x20, 0x20, 0x20, 0x20, 0x20, 0x20]" by code_simp
  have ok: "item_ok ?new" using l by (simp add: slot_used_def g) (simp add: sne_entry_def p ealloc_attr_def)
  have fd: "dir_find [0x62, 0] 0 demo_items = None" using dot_item(2) by (simp add: demo_items_def same_name_def)
  have it: "dir_items (dir_fs demo_items) Root [2] (demo_items @ [])" using dir_fs_items demo_items_ok by simp
  have ns: "nslots (demo_items @ [?new]) = 5" using demo_items_ok(2) l by (simp add: lne_count_def)
  have h: "\<forall>it \<in> set []. is_deleted it" "demo_items \<noteq> [] \<longrightarrow> \<not> is_deleted (List.last demo_items)" "strlen [0x62, 0] \<le> 255"
    "\<not> e_locked (ent (dir_fs demo_items) (Ent 0))" "(0 :: u32) \<noteq> ucast ATTR_DIRECTORY" "1 < nslots demo_items"
    using demo_items_ok(2) by (simp_all add: ent.simps zero_dirent_def) (simp add: demo_items_def)
  have r: "fat_reserved (fs_fat (dir_fs demo_items)) (fs_blk (dir_fs demo_items))" "32 * nslots (demo_items @ [?new]) \<le> dir_room (dir_fs demo_items) [2]"
    using dir_fs_room(1,3) [of demo_items] unfolding ns by simp_all
  from ealloc_creates [OF it h(1,2) dir_fs_cache(4) f n h(3) dir_fs_cache(1,2,3) h(4) fd r(1) h(5,6) refl ok r(2) dir_fs_room(2)]
  obtain x fs' where "ealloc (dir_fs demo_items) Root [0x62, 0] 0 = Ok (Some (Ent 0), fs')"
      "dir_items fs' Root ([2] @ x) (demo_items @ ?new # drop (length (slots ?new)) [])" by blast
  with c show ?thesis by (intro exI [of _ x] exI [of _ fs'] exI [of _ ?new]) simp
qed



end
