(* ===== verification/Mmap.thy ===== *)
theory Mmap
  imports Proc
begin

text \<open>
  Memory areas of a process: \<^verbatim>\<open>kernel/vm/mmap/mmap.c\<close> and its three back ends for files, anonymous memory and
  device buffers. An \<^verbatim>\<open>mmap_object\<close> is an entry of the table \<open>mm_obj\<close>, under a number that is never reused; the anonymous
  page list and the device buffer that belong to exactly one object are part of it. Whether a \<^verbatim>\<open>kmalloc\<close> succeeds is decided by the
  list \<open>mm_kmalloc\<close>, so that the definitions cover every pattern of failures. The open files that the areas refer
  to are reached through the operations of an \<open>fenv\<close>, the functions of \<^verbatim>\<open>kernel/fs/file.c\<close> that this code
  calls. A loop over the pages of a range runs over the list of their addresses.
\<close>

abbreviation (input) MMAP_TOP :: u64 where "MMAP_TOP \<equiv> USER_STACK_BOTTOM"
abbreviation (input) MAP_FAILED :: u64 where "MAP_FAILED \<equiv> - 1"
abbreviation (input) PROT_READ :: u32 where "PROT_READ \<equiv> 1"
abbreviation (input) PROT_WRITE :: u32 where "PROT_WRITE \<equiv> 2"
abbreviation (input) PROT_EXEC :: u32 where "PROT_EXEC \<equiv> 4"
abbreviation (input) MAP_SHARED :: u32 where "MAP_SHARED \<equiv> 1"
abbreviation (input) MAP_PRIVATE :: u32 where "MAP_PRIVATE \<equiv> 2"
abbreviation (input) MAP_ANONYMOUS :: u32 where "MAP_ANONYMOUS \<equiv> 0x20"

datatype vm_fault_access = VM_FAULT_READ | VM_FAULT_WRITE | VM_FAULT_EXEC

datatype vm_fault_result = VM_FAULT_RESOLVED | VM_FAULT_INVALID | VM_FAULT_NOMEM | VM_FAULT_BACKING

record kbuf =
  kb_refcnt :: int
  kb_npages :: u64
  kb_pages :: "u64 list"

record mmap_object =
  o_refcnt :: int
  o_type :: vma_type
  o_file :: "nat option"
  o_anon :: "(u64 \<times> u64) list option"
  o_kbuf :: "kbuf option"

record 'x mm =
  mm_k :: kmem
  mm_obj :: "nat \<Rightarrow> mmap_object option"
  mm_next :: nat
  mm_kmalloc :: "bool list"
  mm_x :: 'x

record 'x fenv =
  fe_entry :: "'x \<Rightarrow> nat \<Rightarrow> bool"
  fe_mmap_device :: "'x \<Rightarrow> nat \<Rightarrow> bool"
  fe_readable :: "'x \<Rightarrow> nat \<Rightarrow> bool"
  fe_writable :: "'x \<Rightarrow> nat \<Rightarrow> bool"
  fe_dup :: "nat \<Rightarrow> 'x \<Rightarrow> 'x res"
  fe_close :: "nat \<Rightarrow> 'x \<Rightarrow> 'x res"
  fe_read_at :: "nat \<Rightarrow> u64 \<Rightarrow> u64 \<Rightarrow> u64 \<Rightarrow> kmem \<Rightarrow> 'x \<Rightarrow> (int \<times> kmem \<times> 'x) res"
  fe_write_at :: "nat \<Rightarrow> u64 \<Rightarrow> u64 \<Rightarrow> u64 \<Rightarrow> kmem \<Rightarrow> 'x \<Rightarrow> (int \<times> 'x) res"
  fe_mmap :: "nat \<Rightarrow> vma_area \<Rightarrow> u64 \<Rightarrow> 'x \<Rightarrow> int \<times> vma_area \<times> 'x"

definition kmalloc_try :: "'x mm \<Rightarrow> bool \<times> 'x mm" where
  "kmalloc_try s = (case mm_kmalloc s of [] \<Rightarrow> (True, s) | b # bs \<Rightarrow> (b, s\<lparr>mm_kmalloc := bs\<rparr>))"

definition page_count :: "u64 \<Rightarrow> u64 \<Rightarrow> nat" where
  "page_count start finish = (if start < finish then (unat (finish - start) + 4095) div 4096 else 0)"

definition page_list :: "u64 \<Rightarrow> u64 \<Rightarrow> u64 list" where
  "page_list start finish = map (\<lambda>i. start + of_nat i * PGSIZE) [0..<page_count start finish]"

section \<open>Areas\<close>

definition vma_find_free :: "vma_area list \<Rightarrow> nat option" where
  "vma_find_free vs = find_slot (\<lambda>v. \<not> v_used v) vs"

definition vma_contains :: "u64 \<Rightarrow> vma_area \<Rightarrow> bool" where
  "vma_contains va v \<longleftrightarrow> v_used v \<and> v_start v \<le> va \<and> va < v_end v"

definition mmap_vma_find :: "vma_area list \<Rightarrow> u64 \<Rightarrow> nat option" where
  "mmap_vma_find vs va = find_slot (vma_contains va) vs"

definition vma_overlaps :: "vma_area \<Rightarrow> u64 \<Rightarrow> u64 \<Rightarrow> bool" where
  "vma_overlaps v start finish \<longleftrightarrow> v_used v \<and> start < v_end v \<and> v_start v < finish"

fun highest_overlap :: "vma_area list \<Rightarrow> u64 \<Rightarrow> u64 \<Rightarrow> u64 option \<Rightarrow> u64 option" where
  "highest_overlap [] start hi best = best"
| "highest_overlap (v # vs) start hi best =
     highest_overlap vs start hi
       (if vma_overlaps v start hi \<and> (case best of None \<Rightarrow> True | Some b \<Rightarrow> b < v_start v) then Some (v_start v) else best)"

lemma highest_overlap_in:
  "highest_overlap vs start hi best = Some b \<Longrightarrow> best = Some b \<or> (\<exists>v \<in> set vs. vma_overlaps v start hi \<and> v_start v = b)"
proof (induction vs arbitrary: best)
  case (Cons v vs)
  from Cons.IH [OF Cons.prems [unfolded highest_overlap.simps]] show ?case by (auto split: if_splits)
qed simp

function find_address_loop :: "vma_area list \<Rightarrow> u64 \<Rightarrow> u64 \<Rightarrow> u64 \<Rightarrow> u64" where
  "find_address_loop vs len bottom hi =
     (if len \<le> hi - bottom then
        let start = hi - len
        in case highest_overlap vs start hi None of
             None \<Rightarrow> start
           | Some b \<Rightarrow> find_address_loop vs len bottom b
      else 0)"
  by pat_completeness auto
termination
proof (relation "measure (\<lambda>(vs, len, bottom, hi). unat hi)", goal_cases)
  case (2 vs len bottom hi start b)
  from highest_overlap_in [OF 2(3)] show ?case by (auto simp: vma_overlaps_def word_less_nat_alt)
qed simp

declare find_address_loop.simps [simp del]

definition vma_find_address :: "u64 \<Rightarrow> vma_area list \<Rightarrow> u64 \<Rightarrow> u64" where
  "vma_find_address sz vs len =
     (let bottom = PGROUNDUP sz
      in if bottom < sz \<or> MMAP_TOP < bottom then 0 else find_address_loop vs len bottom MMAP_TOP)"

definition vma_heap_limit :: "vma_area list \<Rightarrow> u64" where
  "vma_heap_limit vs = fold (\<lambda>v limit. if v_used v \<and> v_start v < limit then v_start v else limit) vs MMAP_TOP"

definition mmap_map_create ::
  "u64 \<Rightarrow> vma_area list \<Rightarrow> u64 \<Rightarrow> u64 \<Rightarrow> u32 \<Rightarrow> u32 \<Rightarrow> vma_type \<Rightarrow> nat option \<Rightarrow> vma_ops \<Rightarrow> u64 \<Rightarrow> u64 \<times> vma_area list" where
  "mmap_map_create sz vs addr len prot flags type object ops offset =
     (let sharing = flags AND (MAP_PRIVATE OR MAP_SHARED); map_length = PGROUNDUP len
      in if addr \<noteq> 0 \<or> len = 0 \<or> MMAP_TOP < len then (MAP_FAILED, vs)
         else if prot AND NOT (PROT_READ OR PROT_WRITE OR PROT_EXEC) \<noteq> 0 then (MAP_FAILED, vs)
         else if prot AND PROT_WRITE \<noteq> 0 \<and> prot AND PROT_READ = 0 then (MAP_FAILED, vs)
         else if sharing \<noteq> MAP_PRIVATE \<and> sharing \<noteq> MAP_SHARED then (MAP_FAILED, vs)
         else if map_length < len then (MAP_FAILED, vs)
         else case vma_find_free vs of
           None \<Rightarrow> (MAP_FAILED, vs)
         | Some i \<Rightarrow>
             let start = vma_find_address sz vs map_length
             in if start = 0 then (MAP_FAILED, vs)
                else if start + len < start then (MAP_FAILED, vs)
                else (start, vs[i := vma_zero\<lparr>v_used := True, v_type := type, v_start := start, v_end := start + map_length,
                        v_valid_end := start + len, v_offset := offset, v_prot := prot, v_flags := flags,
                        v_object := object, v_ops := ops\<rparr>]))"

definition mmap_access_allowed :: "vma_area \<Rightarrow> vm_fault_access \<Rightarrow> bool" where
  "mmap_access_allowed v access =
     (case access of
        VM_FAULT_READ \<Rightarrow> v_prot v AND PROT_READ \<noteq> 0
      | VM_FAULT_WRITE \<Rightarrow> v_prot v AND PROT_WRITE \<noteq> 0
      | VM_FAULT_EXEC \<Rightarrow> v_prot v AND PROT_EXEC \<noteq> 0)"

section \<open>Back ends\<close>

definition the_obj :: "'x mm \<Rightarrow> nat option \<Rightarrow> (nat \<Rightarrow> mmap_object \<Rightarrow> 'b res) \<Rightarrow> 'b res" where
  "the_obj s p g = (case p of None \<Rightarrow> Panic ''null'' | Some i \<Rightarrow> (case mm_obj s i of None \<Rightarrow> Panic ''null'' | Some ob \<Rightarrow> g i ob))"

definition set_obj :: "'x mm \<Rightarrow> nat \<Rightarrow> mmap_object option \<Rightarrow> 'x mm" where
  "set_obj s i ob = s\<lparr>mm_obj := (mm_obj s)(i := ob)\<rparr>"

text \<open>How much of a page lies before the end of the valid range.\<close>

definition valid_length :: "vma_area \<Rightarrow> u64 \<Rightarrow> u64" where
  "valid_length v page = (if v_valid_end v < page + PGSIZE then if page < v_valid_end v then v_valid_end v - page else 0 else PGSIZE)"

definition mmap_file_fault :: "kenv \<Rightarrow> 'x fenv \<Rightarrow> vma_area \<Rightarrow> u64 \<Rightarrow> 'x mm \<Rightarrow> (u64 \<times> 'x mm) res" where
  "mmap_file_fault k fe v page s =
     (let (mem, k1) = kalloc k (mm_k s); s1 = s\<lparr>mm_k := k1\<rparr>
      in if mem = 0 then Ok (0, s1)
         else let s2 = s1\<lparr>mm_k := kzero k1 mem\<rparr>; read_length = valid_length v page; file_offset = v_offset v + (page - v_start v)
              in if file_offset < v_offset v \<or> 0xffffffff < file_offset then rmap (\<lambda>k3. (0, s2\<lparr>mm_k := k3\<rparr>)) (kfree k (mm_k s2) mem)
                 else if read_length = 0 then Ok (mem, s2)
                 else the_obj s2 (v_object v) (\<lambda>i ob.
                   case o_file ob of
                     None \<Rightarrow> rmap (\<lambda>k3. (0, s2\<lparr>mm_k := k3\<rparr>)) (kfree k (mm_k s2) mem)
                   | Some f \<Rightarrow>
                       rbind (fe_read_at fe f mem file_offset read_length (mm_k s2) (mm_x s2)) (\<lambda>(r, k3, x3).
                         let s3 = s2\<lparr>mm_k := k3, mm_x := x3\<rparr>
                         in if r < 0 then rmap (\<lambda>k4. (0, s3\<lparr>mm_k := k4\<rparr>)) (kfree k k3 mem) else Ok (mem, s3))))"

definition anon_page_get :: "kenv \<Rightarrow> nat \<Rightarrow> mmap_object \<Rightarrow> u64 \<Rightarrow> 'x mm \<Rightarrow> (u64 \<times> 'x mm) res" where
  "anon_page_get k i ob index s =
     (case o_anon ob of
        None \<Rightarrow> Panic ''null''
      | Some pages \<Rightarrow>
          (case map_of pages index of
             Some pa \<Rightarrow> rmap (\<lambda>k1. (pa, s\<lparr>mm_k := k1\<rparr>)) (kaddquota (ke_end k) (mm_k s) pa)
           | None \<Rightarrow>
               let (mem, k1) = kalloc k (mm_k s)
               in if mem = 0 then Ok (0, s\<lparr>mm_k := k1\<rparr>)
                  else let (ok, s2) = kmalloc_try (s\<lparr>mm_k := kzero k1 mem\<rparr>)
                       in if \<not> ok then rmap (\<lambda>k3. (0, s2\<lparr>mm_k := k3\<rparr>)) (kfree k (mm_k s2) mem)
                          else rmap (\<lambda>k3. (mem, set_obj (s2\<lparr>mm_k := k3\<rparr>) i (Some (ob\<lparr>o_anon := Some ((index, mem) # pages)\<rparr>))))
                                 (kaddquota (ke_end k) (mm_k s2) mem)))"

definition mmap_anon_fault :: "kenv \<Rightarrow> vma_area \<Rightarrow> u64 \<Rightarrow> 'x mm \<Rightarrow> (u64 \<times> 'x mm) res" where
  "mmap_anon_fault k v page s =
     (if v_flags v AND MAP_SHARED \<noteq> 0 then
        the_obj s (v_object v) (\<lambda>i ob. anon_page_get k i ob ((v_offset v + page - v_start v) div PGSIZE) s)
      else let (mem, k1) = kalloc k (mm_k s)
           in Ok (mem, s\<lparr>mm_k := (if mem = 0 then k1 else kzero k1 mem)\<rparr>))"

definition kbuf_page_address :: "kbuf \<Rightarrow> u64 \<Rightarrow> u64" where
  "kbuf_page_address kb index = (if kb_npages kb \<le> index then 0 else kb_pages kb ! unat index)"

definition kbuf_page_get :: "kenv \<Rightarrow> kbuf \<Rightarrow> u64 \<Rightarrow> 'x mm \<Rightarrow> (u64 \<times> 'x mm) res" where
  "kbuf_page_get k kb index s =
     (let a = kbuf_page_address kb index
      in if a = 0 then Ok (0, s) else rmap (\<lambda>k1. (a, s\<lparr>mm_k := k1\<rparr>)) (kaddquota (ke_end k) (mm_k s) a))"

definition mmap_kbuf_fault :: "kenv \<Rightarrow> vma_area \<Rightarrow> u64 \<Rightarrow> 'x mm \<Rightarrow> (u64 \<times> 'x mm) res" where
  "mmap_kbuf_fault k v page s =
     (case v_object v of
        None \<Rightarrow> Ok (0, s)
      | Some i \<Rightarrow> the_obj s (Some i) (\<lambda>_ ob.
          if o_type ob \<noteq> VMA_KBUF then Ok (0, s)
          else case o_kbuf ob of
                 None \<Rightarrow> Ok (0, s)
               | Some kb \<Rightarrow> kbuf_page_get k kb ((v_offset v + page - v_start v) div PGSIZE) s))"

text \<open>\<^verbatim>\<open>vma->ops->fault\<close>; a null page stands for the result \<^verbatim>\<open>-1\<close> as well.\<close>

definition ops_fault :: "kenv \<Rightarrow> 'x fenv \<Rightarrow> vma_area \<Rightarrow> u64 \<Rightarrow> 'x mm \<Rightarrow> (u64 \<times> 'x mm) res" where
  "ops_fault k fe v page s =
     (case v_ops v of
        OPS_NONE \<Rightarrow> Ok (0, s)
      | OPS_FILE \<Rightarrow> mmap_file_fault k fe v page s
      | OPS_ANON \<Rightarrow> mmap_anon_fault k v page s
      | OPS_KBUF \<Rightarrow> mmap_kbuf_fault k v page s)"

section \<open>Objects\<close>

fun kfree_pages :: "kenv \<Rightarrow> u64 list \<Rightarrow> kmem \<Rightarrow> kmem res" where
  "kfree_pages k [] s = Ok s"
| "kfree_pages k (a # as) s = rbind (kfree k s a) (kfree_pages k as)"

fun kbuf_fill :: "kenv \<Rightarrow> nat \<Rightarrow> u64 list \<Rightarrow> 'x mm \<Rightarrow> (u64 list option \<times> 'x mm) res" where
  "kbuf_fill k 0 pages s = Ok (Some pages, s)"
| "kbuf_fill k (Suc n) pages s =
     (let (ok, s1) = kmalloc_try s
      in if \<not> ok then rmap (\<lambda>k2. (None, s1\<lparr>mm_k := k2\<rparr>)) (kfree_pages k pages (mm_k s1))
         else let (mem, k2) = kalloc k (mm_k s1)
              in if mem = 0 then rmap (\<lambda>k3. (None, s1\<lparr>mm_k := k3\<rparr>)) (kfree_pages k pages k2)
                 else kbuf_fill k n (pages @ [mem]) (s1\<lparr>mm_k := kzero k2 mem\<rparr>))"

definition kbuf_create :: "kenv \<Rightarrow> u64 \<Rightarrow> 'x mm \<Rightarrow> (kbuf option \<times> 'x mm) res" where
  "kbuf_create k sz s =
     (let rounded = PGROUNDUP sz
      in if sz = 0 \<or> rounded < sz then Ok (None, s)
         else let (ok, s1) = kmalloc_try s
              in if \<not> ok then Ok (None, s1)
                 else rmap (\<lambda>(r, s2). (map_option (\<lambda>pages. \<lparr>kb_refcnt = 1, kb_npages = rounded div PGSIZE, kb_pages = pages\<rparr>) r, s2))
                        (kbuf_fill k (unat (rounded div PGSIZE)) [] s1))"

definition kbuf_destroy :: "kenv \<Rightarrow> kbuf \<Rightarrow> kmem \<Rightarrow> kmem res" where
  "kbuf_destroy k kb s = kfree_pages k (kb_pages kb) s"

definition kbuf_put :: "kenv \<Rightarrow> kbuf \<Rightarrow> kmem \<Rightarrow> kmem res" where
  "kbuf_put k kb s =
     (if kb_refcnt kb < 1 then Panic ''kbuf_put''
      else if kb_refcnt kb - 1 = 0 then kbuf_destroy k kb s else Ok s)"

definition with_x :: "('x \<Rightarrow> 'x res) \<Rightarrow> 'x mm \<Rightarrow> 'x mm res" where
  "with_x g s = rmap (\<lambda>x. s\<lparr>mm_x := x\<rparr>) (g (mm_x s))"

definition with_k :: "(kmem \<Rightarrow> kmem res) \<Rightarrow> 'x mm \<Rightarrow> 'x mm res" where
  "with_k g s = rmap (\<lambda>k. s\<lparr>mm_k := k\<rparr>) (g (mm_k s))"

definition mmap_object_alloc :: "vma_type \<Rightarrow> 'x mm \<Rightarrow> mmap_object option \<times> 'x mm" where
  "mmap_object_alloc type s =
     (let (ok, s1) = kmalloc_try s
      in (if ok then Some \<lparr>o_refcnt = 1, o_type = type, o_file = None, o_anon = None, o_kbuf = None\<rparr> else None, s1))"

definition mmap_file_object_init :: "'x fenv \<Rightarrow> nat option \<Rightarrow> mmap_object \<Rightarrow> 'x mm \<Rightarrow> (int \<times> mmap_object \<times> 'x mm) res" where
  "mmap_file_object_init fe file ob s =
     (case file of
        None \<Rightarrow> Panic ''null''
      | Some f \<Rightarrow> rmap (\<lambda>s1. (0, ob\<lparr>o_file := Some f\<rparr>, s1)) (with_x (fe_dup fe f) s))"

definition anon_object_create :: "'x mm \<Rightarrow> (u64 \<times> u64) list option \<times> 'x mm" where
  "anon_object_create s = (let (ok, s1) = kmalloc_try s in (if ok then Some [] else None, s1))"

definition mmap_anon_object_init :: "u32 \<Rightarrow> mmap_object \<Rightarrow> 'x mm \<Rightarrow> int \<times> mmap_object \<times> 'x mm" where
  "mmap_anon_object_init flags ob s =
     (if flags AND MAP_SHARED \<noteq> 0 then
        let (anon, s1) = anon_object_create s in (if anon = None then -1 else 0, ob\<lparr>o_anon := anon\<rparr>, s1)
      else (0, ob, s))"

definition mmap_kbuf_object_init :: "kenv \<Rightarrow> 'x fenv \<Rightarrow> nat option \<Rightarrow> u64 \<Rightarrow> mmap_object \<Rightarrow> 'x mm \<Rightarrow> (int \<times> mmap_object \<times> 'x mm) res" where
  "mmap_kbuf_object_init k fe file sz ob s =
     rbind (kbuf_create k sz s) (\<lambda>(r, s1).
       case r of None \<Rightarrow> Ok (-1, ob, s1) | Some kb \<Rightarrow> mmap_file_object_init fe file (ob\<lparr>o_kbuf := Some kb\<rparr>) s1)"

definition mmap_object_create :: "kenv \<Rightarrow> 'x fenv \<Rightarrow> vma_type \<Rightarrow> nat option \<Rightarrow> u32 \<Rightarrow> u64 \<Rightarrow> 'x mm \<Rightarrow> (nat option \<times> 'x mm) res" where
  "mmap_object_create k fe type file flags sz s =
     (case mmap_object_alloc type s of
        (None, s1) \<Rightarrow> Ok (None, s1)
      | (Some ob, s1) \<Rightarrow>
          rmap (\<lambda>(r, ob2, s2). if r < 0 then (None, s2) else (Some (mm_next s2), (set_obj s2 (mm_next s2) (Some ob2))\<lparr>mm_next := Suc (mm_next s2)\<rparr>))
            (case type of
               VMA_FILE \<Rightarrow> mmap_file_object_init fe file ob s1
             | VMA_ANON \<Rightarrow> Ok (mmap_anon_object_init flags ob s1)
             | VMA_KBUF \<Rightarrow> mmap_kbuf_object_init k fe file sz ob s1))"

definition mmap_object_get :: "nat option \<Rightarrow> 'x mm \<Rightarrow> 'x mm res" where
  "mmap_object_get p s =
     the_obj s p (\<lambda>i ob. if o_refcnt ob < 1 then Panic ''mmap_object_get'' else Ok (set_obj s i (Some (ob\<lparr>o_refcnt := o_refcnt ob + 1\<rparr>))))"

definition mmap_file_object_destroy :: "'x fenv \<Rightarrow> mmap_object \<Rightarrow> 'x mm \<Rightarrow> 'x mm res" where
  "mmap_file_object_destroy fe ob s = (case o_file ob of None \<Rightarrow> Ok s | Some f \<Rightarrow> with_x (fe_close fe f) s)"

definition anon_object_destroy :: "kenv \<Rightarrow> (u64 \<times> u64) list \<Rightarrow> kmem \<Rightarrow> kmem res" where
  "anon_object_destroy k pages s = kfree_pages k (map snd pages) s"

definition mmap_anon_object_destroy :: "kenv \<Rightarrow> mmap_object \<Rightarrow> 'x mm \<Rightarrow> 'x mm res" where
  "mmap_anon_object_destroy k ob s = (case o_anon ob of None \<Rightarrow> Ok s | Some pages \<Rightarrow> with_k (anon_object_destroy k pages) s)"

definition mmap_kbuf_object_destroy :: "kenv \<Rightarrow> 'x fenv \<Rightarrow> mmap_object \<Rightarrow> 'x mm \<Rightarrow> 'x mm res" where
  "mmap_kbuf_object_destroy k fe ob s =
     rbind (mmap_file_object_destroy fe ob s) (\<lambda>s1. case o_kbuf ob of None \<Rightarrow> Ok s1 | Some kb \<Rightarrow> with_k (kbuf_put k kb) s1)"

definition mmap_object_destroy :: "kenv \<Rightarrow> 'x fenv \<Rightarrow> mmap_object \<Rightarrow> 'x mm \<Rightarrow> 'x mm res" where
  "mmap_object_destroy k fe ob s =
     (case o_type ob of
        VMA_FILE \<Rightarrow> mmap_file_object_destroy fe ob s
      | VMA_ANON \<Rightarrow> mmap_anon_object_destroy k ob s
      | VMA_KBUF \<Rightarrow> mmap_kbuf_object_destroy k fe ob s)"

definition mmap_object_put :: "kenv \<Rightarrow> 'x fenv \<Rightarrow> nat \<Rightarrow> 'x mm \<Rightarrow> 'x mm res" where
  "mmap_object_put k fe p s =
     the_obj s (Some p) (\<lambda>i ob.
       if o_refcnt ob < 1 then Panic ''mmap_object_put''
       else let ob1 = ob\<lparr>o_refcnt := o_refcnt ob - 1\<rparr>
            in if o_refcnt ob1 = 0 then rmap (\<lambda>s1. set_obj s1 i None) (mmap_object_destroy k fe ob1 s)
               else Ok (set_obj s i (Some ob1)))"

section \<open>Mapping pages\<close>

definition prot_flags :: "u32 \<Rightarrow> u64" where
  "prot_flags prot =
     PTE_U OR (if prot AND PROT_READ \<noteq> 0 then PTE_R else 0) OR (if prot AND PROT_WRITE \<noteq> 0 then PTE_W else 0) OR
     (if prot AND PROT_EXEC \<noteq> 0 then PTE_X else 0)"

definition pte_present :: "kmem \<Rightarrow> u64 \<Rightarrow> bool" where
  "pte_present s pte \<longleftrightarrow> pte \<noteq> 0 \<and> km_mem s pte AND PTE_V \<noteq> 0"

definition mmap_fault_page :: "kenv \<Rightarrow> 'x fenv \<Rightarrow> proc \<Rightarrow> vma_area \<Rightarrow> u64 \<Rightarrow> vm_fault_access \<Rightarrow> 'x mm \<Rightarrow> (vm_fault_result \<times> 'x mm) res" where
  "mmap_fault_page k fe p v page access s =
     (if page < v_start v \<or> v_end v \<le> page \<or> \<not> mmap_access_allowed v access then Ok (VM_FAULT_INVALID, s)
      else rbind (walk k (p_pagetable p) page False (mm_k s)) (\<lambda>(pte, k1).
        if pte_present k1 pte then Ok (VM_FAULT_INVALID, s\<lparr>mm_k := k1\<rparr>)
        else if v_ops v = OPS_NONE then Ok (VM_FAULT_BACKING, s\<lparr>mm_k := k1\<rparr>)
        else rbind (ops_fault k fe v page (s\<lparr>mm_k := k1\<rparr>)) (\<lambda>(mem, s2).
          if mem = 0 then Ok (VM_FAULT_BACKING, s2)
          else rbind (mappages k (p_pagetable p) page PGSIZE mem (prot_flags (v_prot v)) (mm_k s2)) (\<lambda>(r, k3).
            if r < 0 then rmap (\<lambda>k4. (VM_FAULT_NOMEM, s2\<lparr>mm_k := k4\<rparr>)) (kfree k k3 mem)
            else rbind (vm_sync_user_page k (p_pagetable p) (p_kpagetable p) page k3) (\<lambda>(r, k4).
              if r < 0 then rmap (\<lambda>k5. (VM_FAULT_NOMEM, s2\<lparr>mm_k := k5\<rparr>)) (uvmunmap k (p_pagetable p) page 1 True k4)
              else Ok (VM_FAULT_RESOLVED, s2\<lparr>mm_k := k4\<rparr>))))))"

definition vma_unmap_pages :: "kenv \<Rightarrow> proc \<Rightarrow> u64 \<Rightarrow> u64 \<Rightarrow> kmem \<Rightarrow> kmem res" where
  "vma_unmap_pages k p start finish s =
     rfold (\<lambda>page s1. rbind (uvmunmap k (p_kpagetable p) page 1 False s1) (uvmunmap k (p_pagetable p) page 1 True)) (page_list start finish) s"

fun populate_loop :: "kenv \<Rightarrow> 'x fenv \<Rightarrow> proc \<Rightarrow> vma_area \<Rightarrow> u64 list \<Rightarrow> 'x mm \<Rightarrow> (int \<times> 'x mm) res" where
  "populate_loop k fe p v [] s = Ok (0, s)"
| "populate_loop k fe p v (page # pages) s =
     rbind (walk k (p_pagetable p) page False (mm_k s)) (\<lambda>(pte, k1).
       let s1 = s\<lparr>mm_k := k1\<rparr>; rollback = (\<lambda>s2. rmap (\<lambda>s3. (-1, s3)) (with_k (vma_unmap_pages k p (v_start v) page) s2))
       in if pte_present k1 pte then populate_loop k fe p v pages s1
          else rbind (ops_fault k fe v page s1) (\<lambda>(mem, s2).
            if mem = 0 then rollback s2
            else rbind (mappages k (p_pagetable p) page PGSIZE mem (prot_flags (v_prot v)) (mm_k s2)) (\<lambda>(r, k3).
              if r < 0 then rbind (with_k (\<lambda>k4. kfree k k4 mem) (s2\<lparr>mm_k := k3\<rparr>)) rollback
              else rbind (vm_sync_user_page k (p_pagetable p) (p_kpagetable p) page k3) (\<lambda>(r, k4).
                if r < 0 then Panic ''mmap_populate: sync user page''
                else populate_loop k fe p v pages (s2\<lparr>mm_k := k4\<rparr>)))))"

definition mmap_populate :: "kenv \<Rightarrow> 'x fenv \<Rightarrow> proc \<Rightarrow> vma_area \<Rightarrow> 'x mm \<Rightarrow> (int \<times> vma_area \<times> 'x mm) res" where
  "mmap_populate k fe p v s =
     (if v_ops v = OPS_NONE then Ok (-1, v, s)
      else rmap (\<lambda>(r, s1). (r, if r = 0 then v\<lparr>v_ops := OPS_NONE\<rparr> else v, s1))
             (populate_loop k fe p v (page_list (v_start v) (v_end v)) s))"

section \<open>Writing back and unmapping\<close>

definition mmap_file_writeback_page :: "kenv \<Rightarrow> 'x fenv \<Rightarrow> vma_area \<Rightarrow> u64 \<Rightarrow> u64 \<Rightarrow> 'x mm \<Rightarrow> (int \<times> 'x mm) res" where
  "mmap_file_writeback_page k fe v pagetable page s =
     (if v_type v \<noteq> VMA_FILE \<or> v_flags v AND MAP_SHARED = 0 \<or> v_prot v AND PROT_WRITE = 0 then Ok (0, s)
      else rbind (walk k pagetable page False (mm_k s)) (\<lambda>(pte, k1).
        let s1 = s\<lparr>mm_k := k1\<rparr>; len = valid_length v page; file_offset = v_offset v + (page - v_start v)
        in if \<not> pte_present k1 pte then Ok (0, s1)
           else if len = 0 then Ok (0, s1)
           else if file_offset < v_offset v \<or> 0xffffffff < file_offset then Ok (-1, s1)
           else the_obj s1 (v_object v) (\<lambda>i ob.
             case o_file ob of
               None \<Rightarrow> Ok (-1, s1)
             | Some f \<Rightarrow> rmap (\<lambda>(r, x2). (if r < 0 then -1 else 0, s1\<lparr>mm_x := x2\<rparr>))
                           (fe_write_at fe f (PTE2PA (km_mem k1 pte)) file_offset len k1 (mm_x s1)))))"

fun writeback_loop :: "kenv \<Rightarrow> 'x fenv \<Rightarrow> vma_area \<Rightarrow> u64 \<Rightarrow> u64 list \<Rightarrow> 'x mm \<Rightarrow> (int \<times> 'x mm) res" where
  "writeback_loop k fe v pagetable [] s = Ok (0, s)"
| "writeback_loop k fe v pagetable (page # pages) s =
     rbind (mmap_file_writeback_page k fe v pagetable page s) (\<lambda>(r, s1).
       if r < 0 then Ok (-1, s1) else writeback_loop k fe v pagetable pages s1)"

definition mmap_file_writeback_range :: "kenv \<Rightarrow> 'x fenv \<Rightarrow> proc \<Rightarrow> vma_area \<Rightarrow> u64 \<Rightarrow> u64 \<Rightarrow> 'x mm \<Rightarrow> (int \<times> 'x mm) res" where
  "mmap_file_writeback_range k fe p v start finish s =
     (if v_type v \<noteq> VMA_FILE then Ok (0, s) else writeback_loop k fe v (p_pagetable p) (page_list start finish) s)"

text \<open>The second loop of \<^verbatim>\<open>vma_unmap\<close>: every affected area is written back before any is changed.\<close>

fun unmap_writeback :: "kenv \<Rightarrow> 'x fenv \<Rightarrow> proc \<Rightarrow> u64 \<Rightarrow> u64 \<Rightarrow> vma_area list \<Rightarrow> 'x mm \<Rightarrow> (int \<times> 'x mm) res" where
  "unmap_writeback k fe p addr finish [] s = Ok (0, s)"
| "unmap_writeback k fe p addr finish (v # vs) s =
     (if \<not> vma_overlaps v addr finish then unmap_writeback k fe p addr finish vs s
      else rbind (mmap_file_writeback_range k fe p v (max addr (v_start v)) (min finish (v_end v)) s) (\<lambda>(r, s1).
        if r < 0 then Ok (-1, s1) else unmap_writeback k fe p addr finish vs s1))"

text \<open>What is left of an area in front of and behind the range that is removed.\<close>

definition vma_front :: "vma_area \<Rightarrow> u64 \<Rightarrow> vma_area" where
  "vma_front v start = v\<lparr>v_end := start, v_valid_end := (if start < v_valid_end v then start else v_valid_end v)\<rparr>"

definition vma_back :: "vma_area \<Rightarrow> u64 \<Rightarrow> vma_area" where
  "vma_back v finish = v\<lparr>v_start := finish, v_offset := v_offset v + (finish - v_start v)\<rparr>"

text \<open>One round of the third loop of \<^verbatim>\<open>vma_unmap\<close>.\<close>

definition unmap_area ::
  "kenv \<Rightarrow> 'x fenv \<Rightarrow> proc \<Rightarrow> u64 \<Rightarrow> u64 \<Rightarrow> nat \<Rightarrow> vma_area list \<times> nat option \<times> 'x mm \<Rightarrow> (vma_area list \<times> nat option \<times> 'x mm) res" where
  "unmap_area k fe p addr finish i st =
     (case st of (vs, split, s) \<Rightarrow>
        let old = vs ! i; lo = max addr (v_start old); hi = min finish (v_end old)
        in if \<not> vma_overlaps old addr finish then Ok st
           else rbind (with_k (vma_unmap_pages k p lo hi) s) (\<lambda>s1.
             if lo = v_start old \<and> hi = v_end old then
               rmap (\<lambda>s2. (vs[i := vma_zero], split, s2)) (case v_object old of None \<Rightarrow> Ok s1 | Some q \<Rightarrow> mmap_object_put k fe q s1)
             else if lo = v_start old then Ok (vs[i := vma_back old hi], split, s1)
             else if hi = v_end old then Ok (vs[i := vma_front old lo], split, s1)
             else case split of
                    None \<Rightarrow> Panic ''null''
                  | Some j \<Rightarrow> rmap (\<lambda>s2. (vs[j := vma_back old hi, i := vma_front old lo], None, s2)) (mmap_object_get (v_object old) s1)))"

definition vma_unmap :: "kenv \<Rightarrow> 'x fenv \<Rightarrow> proc \<Rightarrow> u64 \<Rightarrow> u64 \<Rightarrow> 'x mm \<Rightarrow> (int \<times> proc \<times> 'x mm) res" where
  "vma_unmap k fe p addr len s =
     (let finish = PGROUNDUP (addr + len); vs = p_vmas p; cut = filter (\<lambda>v. vma_overlaps v addr finish) vs;
          needs_split = (\<exists>v \<in> set cut. v_start v < addr \<and> finish < v_end v); split = (if needs_split then vma_find_free vs else None)
      in if len = 0 \<or> addr mod PGSIZE \<noteq> 0 \<or> MMAP_TOP \<le> addr then Ok (-1, p, s)
         else if MMAP_TOP - addr < len then Ok (-1, p, s)
         else if MMAP_TOP < finish then Ok (-1, p, s)
         else if cut = [] then Ok (-1, p, s)
         else if needs_split \<and> split = None then Ok (-1, p, s)
         else rbind (unmap_writeback k fe p addr finish vs s) (\<lambda>(r, s1).
           if r < 0 then Ok (-1, p, s1)
           else rmap (\<lambda>(vs2, _, s2). (0, p\<lparr>p_vmas := vs2\<rparr>, s2))
                  (rfold (unmap_area k fe p addr finish) [0..<length vs] (vs, split, s1))))"

definition destroy_area :: "kenv \<Rightarrow> 'x fenv \<Rightarrow> proc \<Rightarrow> nat \<Rightarrow> vma_area list \<times> 'x mm \<Rightarrow> (vma_area list \<times> 'x mm) res" where
  "destroy_area k fe p i st =
     (case st of (vs, s) \<Rightarrow>
        let v = vs ! i
        in if \<not> v_used v then Ok st
           else rbind (if p_pagetable p \<noteq> 0 then rmap snd (mmap_file_writeback_range k fe p v (v_start v) (v_end v) s) else Ok s) (\<lambda>s1.
             rbind (if p_pagetable p \<noteq> 0 \<and> p_kpagetable p \<noteq> 0 then with_k (vma_unmap_pages k p (v_start v) (v_end v)) s1 else Ok s1) (\<lambda>s2.
               rmap (\<lambda>s3. (vs[i := vma_zero], s3)) (case v_object v of None \<Rightarrow> Ok s2 | Some q \<Rightarrow> mmap_object_put k fe q s2))))"

definition vma_destroy_all :: "kenv \<Rightarrow> 'x fenv \<Rightarrow> proc \<Rightarrow> 'x mm \<Rightarrow> (proc \<times> 'x mm) res" where
  "vma_destroy_all k fe p s =
     rmap (\<lambda>(vs, s1). (p\<lparr>p_vmas := vs\<rparr>, s1)) (rfold (destroy_area k fe p) [0..<length (p_vmas p)] (p_vmas p, s))"

section \<open>Fork\<close>

fun fork_areas :: "vma_area list \<Rightarrow> vma_area list \<Rightarrow> 'x mm \<Rightarrow> (vma_area list \<times> 'x mm) res" where
  "fork_areas (v # vs) (c # cs) s =
     (if \<not> v_used v then rmap (\<lambda>(r, s1). (c # r, s1)) (fork_areas vs cs s)
      else rbind (mmap_object_get (v_object v) s) (\<lambda>s1. rmap (\<lambda>(r, s2). (v # r, s2)) (fork_areas vs cs s1)))"
| "fork_areas vs cs s = Ok (cs, s)"

definition fork_page :: "kenv \<Rightarrow> proc \<Rightarrow> proc \<Rightarrow> vma_area \<Rightarrow> u64 \<Rightarrow> kmem \<Rightarrow> (int \<times> kmem) res" where
  "fork_page k parent child v page s =
     rbind (walk k (p_pagetable parent) page False s) (\<lambda>(pte, s1).
       if \<not> pte_present s1 pte then Ok (0, s1)
       else let pa = PTE2PA (km_mem s1 pte); flags0 = PTE_FLAGS (km_mem s1 pte);
                cow = (v_flags v AND MAP_PRIVATE \<noteq> 0 \<and> flags0 AND PTE_W \<noteq> 0);
                flags = (if cow then (flags0 OR PTE_COW) AND NOT PTE_W else flags0)
            in rbind (if cow then
                        rbind (upg2ukpg k (p_pagetable parent) (p_kpagetable parent) page (page + PGSIZE) (kset s1 pte (PA2PTE pa OR flags))) (\<lambda>(r, s2).
                          if r < 0 then Panic ''vma_fork: parent upg2ukpg'' else Ok s2)
                      else Ok s1) (\<lambda>s2.
                 rbind (mappages k (p_pagetable child) page PGSIZE pa flags s2) (\<lambda>(r, s3).
                   if r < 0 then Ok (-1, s3)
                   else rbind (kaddquota (ke_end k) s3 pa) (\<lambda>s4.
                     rbind (upg2ukpg k (p_pagetable child) (p_kpagetable child) page (page + PGSIZE) s4) (\<lambda>(r, s5).
                       if r < 0 then Panic ''vma_fork: child upg2ukpg'' else Ok (0, s5))))))"

fun fork_pages :: "kenv \<Rightarrow> proc \<Rightarrow> proc \<Rightarrow> (vma_area \<times> u64) list \<Rightarrow> kmem \<Rightarrow> (int \<times> kmem) res" where
  "fork_pages k parent child [] s = Ok (0, s)"
| "fork_pages k parent child ((v, page) # rest) s =
     rbind (fork_page k parent child v page s) (\<lambda>(r, s1). if r < 0 then Ok (-1, s1) else fork_pages k parent child rest s1)"

definition vma_fork :: "kenv \<Rightarrow> 'x fenv \<Rightarrow> proc \<Rightarrow> proc \<Rightarrow> 'x mm \<Rightarrow> (int \<times> proc \<times> 'x mm) res" where
  "vma_fork k fe parent child s =
     rbind (fork_areas (p_vmas parent) (p_vmas child) s) (\<lambda>(vs, s1).
       let child1 = child\<lparr>p_vmas := vs\<rparr>;
           pages = concat (map (\<lambda>v. map (Pair v) (page_list (v_start v) (v_end v))) (filter v_used (p_vmas parent)))
       in rbind (fork_pages k parent child1 pages (mm_k s1)) (\<lambda>(r, k2).
            let s2 = s1\<lparr>mm_k := k2\<rparr>
            in if r < 0 then rmap (\<lambda>(child2, s3). (-1, child2, s3)) (vma_destroy_all k fe child1 s2)
               else Ok (0, child1, s2)))"

section \<open>Creating mappings\<close>

definition with_vmas :: "proc \<Rightarrow> u64 \<times> vma_area list \<Rightarrow> u64 \<times> proc" where
  "with_vmas p r = (fst r, p\<lparr>p_vmas := snd r\<rparr>)"

text \<open>The common end of \<^verbatim>\<open>vma_map_file\<close> and \<^verbatim>\<open>vma_map_anon\<close>: a fresh object is released again when no area is found.\<close>

definition map_object ::
  "kenv \<Rightarrow> 'x fenv \<Rightarrow> proc \<Rightarrow> u64 \<Rightarrow> u64 \<Rightarrow> u32 \<Rightarrow> u32 \<Rightarrow> vma_type \<Rightarrow> vma_ops \<Rightarrow> u64 \<Rightarrow> nat option \<times> 'x mm \<Rightarrow> (u64 \<times> proc \<times> 'x mm) res" where
  "map_object k fe p addr len prot flags type ops offset r =
     (case r of
        (None, s) \<Rightarrow> Ok (MAP_FAILED, p, s)
      | (Some q, s) \<Rightarrow>
          let (start, p1) = with_vmas p (mmap_map_create (p_sz p) (p_vmas p) addr len prot flags type (Some q) ops offset)
          in if start = MAP_FAILED then rmap (\<lambda>s1. (MAP_FAILED, p1, s1)) (mmap_object_put k fe q s) else Ok (start, p1, s))"

definition vma_map_file :: "kenv \<Rightarrow> 'x fenv \<Rightarrow> proc \<Rightarrow> u64 \<Rightarrow> u64 \<Rightarrow> u32 \<Rightarrow> u32 \<Rightarrow> nat option \<Rightarrow> u64 \<Rightarrow> 'x mm \<Rightarrow> (u64 \<times> proc \<times> 'x mm) res" where
  "vma_map_file k fe p addr len prot flags file offset s =
     (if flags \<noteq> MAP_PRIVATE \<and> flags \<noteq> MAP_SHARED then Ok (MAP_FAILED, p, s)
      else if offset mod PGSIZE \<noteq> 0 \<or> 0xffffffff < offset then Ok (MAP_FAILED, p, s)
      else case file of
        None \<Rightarrow> Ok (MAP_FAILED, p, s)
      | Some f \<Rightarrow>
          if \<not> fe_entry fe (mm_x s) f \<or> \<not> fe_readable fe (mm_x s) f then Ok (MAP_FAILED, p, s)
          else if flags = MAP_SHARED \<and> prot AND PROT_WRITE \<noteq> 0 \<and> \<not> fe_writable fe (mm_x s) f then Ok (MAP_FAILED, p, s)
          else rbind (mmap_object_create k fe VMA_FILE file flags 0 s) (map_object k fe p addr len prot flags VMA_FILE OPS_FILE offset))"

definition vma_map_anon :: "kenv \<Rightarrow> 'x fenv \<Rightarrow> proc \<Rightarrow> u64 \<Rightarrow> u64 \<Rightarrow> u32 \<Rightarrow> u32 \<Rightarrow> 'x mm \<Rightarrow> (u64 \<times> proc \<times> 'x mm) res" where
  "vma_map_anon k fe p addr len prot flags s =
     (if flags \<noteq> (MAP_PRIVATE OR MAP_ANONYMOUS) \<and> flags \<noteq> (MAP_SHARED OR MAP_ANONYMOUS) then Ok (MAP_FAILED, p, s)
      else rbind (mmap_object_create k fe VMA_ANON None flags 0 s) (map_object k fe p addr len prot flags VMA_ANON OPS_ANON 0))"

text \<open>The rest of \<^verbatim>\<open>vma_map_device\<close> once the driver has accepted the area in slot \<open>i\<close>.\<close>

definition map_device_backing ::
  "kenv \<Rightarrow> 'x fenv \<Rightarrow> proc \<Rightarrow> u64 \<Rightarrow> u64 \<Rightarrow> u32 \<Rightarrow> nat \<Rightarrow> u64 \<Rightarrow> nat \<Rightarrow> 'x mm \<Rightarrow> (u64 \<times> proc \<times> 'x mm) res" where
  "map_device_backing k fe p start len flags f backing_size i s =
     (let fail = (\<lambda>p s. rmap (\<lambda>(_, p1, s1). (MAP_FAILED, p1, s1)) (vma_unmap k fe p start len s))
      in rbind (mmap_object_create k fe VMA_KBUF (Some f) flags backing_size s) (\<lambda>(q, s1).
           if q = None then fail p s1
           else let v = (p_vmas p ! i)\<lparr>v_object := q\<rparr>; p1 = p\<lparr>p_vmas := (p_vmas p)[i := v]\<rparr>
                in if \<not> v_populate v then Ok (start, p1, s1)
                   else rbind (mmap_populate k fe p1 v s1) (\<lambda>(r, v2, s2).
                     let p2 = p1\<lparr>p_vmas := (p_vmas p1)[i := v2]\<rparr>
                     in if r < 0 then fail p2 s2 else Ok (start, p2, s2))))"

definition vma_map_device :: "kenv \<Rightarrow> 'x fenv \<Rightarrow> proc \<Rightarrow> u64 \<Rightarrow> u64 \<Rightarrow> u32 \<Rightarrow> u32 \<Rightarrow> nat option \<Rightarrow> u64 \<Rightarrow> 'x mm \<Rightarrow> (u64 \<times> proc \<times> 'x mm) res" where
  "vma_map_device k fe p addr len prot flags file offset s =
     (case file of
        None \<Rightarrow> Ok (MAP_FAILED, p, s)
      | Some f \<Rightarrow>
          if flags \<noteq> MAP_SHARED \<or> \<not> fe_mmap_device fe (mm_x s) f \<or> prot AND PROT_EXEC \<noteq> 0 then Ok (MAP_FAILED, p, s)
          else if prot AND PROT_READ \<noteq> 0 \<and> \<not> fe_readable fe (mm_x s) f then Ok (MAP_FAILED, p, s)
          else if prot AND PROT_WRITE \<noteq> 0 \<and> \<not> fe_writable fe (mm_x s) f then Ok (MAP_FAILED, p, s)
          else let (start, p1) = with_vmas p (mmap_map_create (p_sz p) (p_vmas p) addr len prot flags VMA_KBUF None OPS_KBUF offset);
                   fail = (\<lambda>p s. rmap (\<lambda>(_, p1, s1). (MAP_FAILED, p1, s1)) (vma_unmap k fe p start len s))
               in if start = MAP_FAILED then Ok (MAP_FAILED, p1, s)
                  else case mmap_vma_find (p_vmas p1) start of
                    None \<Rightarrow> fail p1 s
                  | Some i \<Rightarrow>
                      let v = p_vmas p1 ! i; vl = v_valid_end v - v_start v
                      in if v_ops v = OPS_NONE \<or> offset mod PGSIZE \<noteq> 0 \<or> vl = 0 \<or> offset + vl < offset then fail p1 s
                         else let (r, v1, x1) = fe_mmap fe f v offset (mm_x s);
                                  p2 = p1\<lparr>p_vmas := (p_vmas p1)[i := v1]\<rparr>; s1 = s\<lparr>mm_x := x1\<rparr>
                              in if r < 0 then fail p2 s1
                                 else map_device_backing k fe p2 start len flags f (offset + vl) i s1)"

definition vma_device_page_address :: "proc \<Rightarrow> nat \<Rightarrow> u64 \<Rightarrow> u64 \<Rightarrow> 'x mm \<Rightarrow> u64" where
  "vma_device_page_address p f va index s =
     (case mmap_vma_find (p_vmas p) va of
        None \<Rightarrow> 0
      | Some i \<Rightarrow>
          let v = p_vmas p ! i
          in if v_start v \<noteq> va \<or> v_type v \<noteq> VMA_KBUF then 0
             else case Option.bind (v_object v) (mm_obj s) of
                    None \<Rightarrow> 0
                  | Some ob \<Rightarrow>
                      if o_file ob \<noteq> Some f then 0
                      else case o_kbuf ob of
                             None \<Rightarrow> 0
                           | Some kb \<Rightarrow> if (v_end v - v_start v) div PGSIZE \<le> index then 0
                                         else kbuf_page_address kb (v_offset v div PGSIZE + index))"

end
