(* ===== verification/MmapAreas.thy ===== *)
theory MmapAreas
  imports Mmap
begin

text \<open>
  What the area table of a process means, and that the operations of \<open>Mmap\<close> keep it. A table gives an
  address map: the object, offset, protection and back end behind each user address (\<open>vma_view\<close>). Under
  the invariant \<open>areas_ok\<close> the areas are page aligned, lie between the heap and the stack and do not overlap.
  Placement finds the highest gap, unmapping removes a range from the address map, and every
  operation keeps the reference counts of the objects in step with the areas that refer to them.
\<close>

section \<open>The invariant and the address map\<close>

definition area_ok :: "u64 \<Rightarrow> vma_area \<Rightarrow> bool" where
  "area_ok sz v \<longleftrightarrow> (v_used v \<longrightarrow> page_aligned (v_start v) \<and> page_aligned (v_end v) \<and> PGROUNDUP sz \<le> v_start v \<and>
     v_start v < v_end v \<and> v_end v \<le> MMAP_TOP)"

definition apart :: "vma_area \<Rightarrow> vma_area \<Rightarrow> bool" where
  "apart v w \<longleftrightarrow> (v_used v \<longrightarrow> v_used w \<longrightarrow> v_end v \<le> v_start w \<or> v_end w \<le> v_start v)"

definition areas_ok :: "u64 \<Rightarrow> vma_area list \<Rightarrow> bool" where
  "areas_ok sz vs \<longleftrightarrow> (\<forall>i < length vs. area_ok sz (vs ! i)) \<and>
     (\<forall>i < length vs. \<forall>j < length vs. i \<noteq> j \<longrightarrow> apart (vs ! i) (vs ! j))"

definition page_view :: "vma_area \<Rightarrow> u64 \<Rightarrow> vma_type \<times> nat option \<times> vma_ops \<times> u32 \<times> u32 \<times> u64 \<times> bool" where
  "page_view v va = (v_type v, v_object v, v_ops v, v_prot v, v_flags v, v_offset v + (va - v_start v), va < v_valid_end v)"

definition vma_view :: "vma_area list \<Rightarrow> u64 \<Rightarrow> (vma_type \<times> nat option \<times> vma_ops \<times> u32 \<times> u32 \<times> u64 \<times> bool) option" where
  "vma_view vs va = map_option (\<lambda>i. page_view (vs ! i) va) (mmap_vma_find vs va)"

lemma apart_sym: "apart v w \<Longrightarrow> apart w v"
  by (auto simp: apart_def)

lemma areas_ok_nth: "areas_ok sz vs \<Longrightarrow> i < length vs \<Longrightarrow> area_ok sz (vs ! i)"
  by (simp add: areas_ok_def)

lemma areas_ok_apart: "areas_ok sz vs \<Longrightarrow> i < length vs \<Longrightarrow> j < length vs \<Longrightarrow> i \<noteq> j \<Longrightarrow> apart (vs ! i) (vs ! j)"
  by (simp add: areas_ok_def)

lemma contains_unique:
  assumes "areas_ok sz vs" "i < length vs" "j < length vs" "vma_contains va (vs ! i)" "vma_contains va (vs ! j)"
  shows "i = j"
proof (rule ccontr)
  assume "i \<noteq> j"
  with areas_ok_apart [OF assms(1-3)] assms(4,5) show False
    by (auto simp: apart_def vma_contains_def dest: order.strict_trans2 order.trans)
qed

lemma vma_view_None: "vma_view vs va = None \<longleftrightarrow> (\<forall>i < length vs. \<not> vma_contains va (vs ! i))"
  by (auto simp: vma_view_def mmap_vma_find_def find_slot_None all_set_conv_all_nth)

lemma vma_view_Some:
  assumes "areas_ok sz vs"
  shows "vma_view vs va = Some x \<longleftrightarrow> (\<exists>i < length vs. vma_contains va (vs ! i) \<and> page_view (vs ! i) va = x)"
proof
  assume "vma_view vs va = Some x"
  then show "\<exists>i < length vs. vma_contains va (vs ! i) \<and> page_view (vs ! i) va = x"
    by (auto simp: vma_view_def mmap_vma_find_def find_slot_Some)
next
  assume "\<exists>i < length vs. vma_contains va (vs ! i) \<and> page_view (vs ! i) va = x"
  then obtain i where i: "i < length vs" "vma_contains va (vs ! i)" "page_view (vs ! i) va = x" by blast
  have "find_slot (vma_contains va) vs = Some i"
    unfolding find_slot_Some
  proof (intro conjI allI impI)
    fix j assume "j < i"
    then show "\<not> vma_contains va (vs ! j)" using contains_unique [OF assms _ i(1) _ i(2), of j] i(1) by auto
  qed (use i in auto)
  with i show "vma_view vs va = Some x" by (simp add: vma_view_def mmap_vma_find_def)
qed

lemma vma_view_eqI:
  assumes "areas_ok sz vs" "areas_ok sz ws"
    and "\<And>x. (\<exists>i < length vs. vma_contains va (vs ! i) \<and> page_view (vs ! i) va = x) \<longleftrightarrow>
             (\<exists>i < length ws. vma_contains va (ws ! i) \<and> page_view (ws ! i) va = x)"
  shows "vma_view vs va = vma_view ws va"
  using assms(3) vma_view_Some [OF assms(1)] vma_view_Some [OF assms(2)] by (metis option.exhaust)

lemma areas_ok_update:
  assumes "areas_ok sz vs" "i < length vs" "area_ok sz v"
    and "\<And>j. j < length vs \<Longrightarrow> j \<noteq> i \<Longrightarrow> apart v (vs ! j)"
  shows "areas_ok sz (vs[i := v])"
  using assms unfolding areas_ok_def by (auto simp: nth_list_update intro: apart_sym)

section \<open>Placement\<close>

lemma unat_add_no_wrap: "(a :: u64) \<le> a + b \<Longrightarrow> unat (a + b) = unat a + unat b"
  using unat_lt64 [of b] by (auto simp: word_le_nat_alt unat_plus_if' split: if_splits)

lemmas word_nat = word_le_nat_alt word_less_nat_alt

lemma highest_overlap_None:
  "highest_overlap vs start hi best = None \<longleftrightarrow> best = None \<and> (\<forall>v \<in> set vs. \<not> vma_overlaps v start hi)"
  by (induction vs arbitrary: best) (auto split: option.splits)

text \<open>\<open>taken vs len a\<close>: a mapping of \<open>len\<close> bytes at \<open>a\<close> would overlap an area.\<close>

definition taken_at :: "vma_area list \<Rightarrow> u64 \<Rightarrow> u64 \<Rightarrow> bool" where
  "taken_at vs len a \<longleftrightarrow> (\<exists>v \<in> set vs. vma_overlaps v a (a + len))"

lemma taken_below:
  assumes v: "v \<in> set vs" "vma_overlaps v (hi - len) hi" and len: "len \<le> hi" and hi: "hi \<le> MMAP_TOP"
    and a: "a + len \<le> MMAP_TOP" "a \<le> a + len" "v_start v < a + len" "a + len \<le> hi"
  shows "taken_at vs len a"
proof -
  have "a \<le> hi - len" using a len unat_add_no_wrap [OF a(2)] by (simp add: word_nat unat_sub)
  then have "a < v_end v" using v(2) by (auto simp: vma_overlaps_def)
  with v a show ?thesis by (auto simp: taken_at_def vma_overlaps_def)
qed

definition gap_found :: "vma_area list \<Rightarrow> u64 \<Rightarrow> u64 \<Rightarrow> u64 \<Rightarrow> bool" where
  "gap_found vs bottom len r \<longleftrightarrow>
     (r \<noteq> 0 \<longrightarrow> bottom \<le> r \<and> r \<le> r + len \<and> r + len \<le> MMAP_TOP \<and> \<not> taken_at vs len r) \<and>
     (\<forall>a. bottom \<le> a \<longrightarrow> r < a \<longrightarrow> a \<le> a + len \<longrightarrow> a + len \<le> MMAP_TOP \<longrightarrow> taken_at vs len a)"

lemma find_address_loop_gap:
  assumes "\<forall>v \<in> set vs. v_used v \<longrightarrow> bottom \<le> v_start v" "bottom \<le> hi" "hi \<le> MMAP_TOP"
    and "\<And>a. bottom \<le> a \<Longrightarrow> a \<le> a + len \<Longrightarrow> hi < a + len \<Longrightarrow> a + len \<le> MMAP_TOP \<Longrightarrow> taken_at vs len a"
  shows "gap_found vs bottom len (find_address_loop vs len bottom hi)"
  using assms
proof (induction vs len bottom hi rule: find_address_loop.induct)
  case (1 vs len bottom hi)
  show ?case
  proof (cases "len \<le> hi - bottom")
    case False
    have "taken_at vs len a" if "bottom \<le> a" "a \<le> a + len" "a + len \<le> MMAP_TOP" for a
    proof (rule "1.prems"(4) [OF that(1,2) _ that(3)], rule ccontr)
      assume "\<not> hi < a + len"
      with that False "1.prems"(2) unat_add_no_wrap [OF that(2)] show False
        by (simp add: word_nat unat_sub)
    qed
    with False show ?thesis by (subst find_address_loop.simps) (simp add: gap_found_def)
  next
    case True
    have len: "len \<le> hi" "bottom \<le> hi - len"
      using True "1.prems"(2) by (simp_all add: word_le_nat_alt unat_sub)
    show ?thesis
    proof (cases "highest_overlap vs (hi - len) hi None")
      case None
      have "taken_at vs len a" if "bottom \<le> a" "hi - len < a" "a \<le> a + len" "a + len \<le> MMAP_TOP" for a
      proof (rule "1.prems"(4) [OF that(1,3) _ that(4)])
        show "hi < a + len" using that len unat_add_no_wrap [OF that(3)]
          by (simp add: word_nat unat_sub)
      qed
      moreover have "\<not> taken_at vs len (hi - len)" using None by (simp add: taken_at_def highest_overlap_None)
      moreover have "hi - len \<le> hi" using len(1) by (simp add: word_le_nat_alt unat_sub)
      ultimately show ?thesis
        using True None len "1.prems"(3) by (subst find_address_loop.simps) (simp add: gap_found_def)
    next
      case (Some b)
      from highest_overlap_in [OF Some] obtain v where v: "v \<in> set vs" "vma_overlaps v (hi - len) hi" "v_start v = b" by auto
      then have used: "v_used v" "b < hi" by (auto simp: vma_overlaps_def)
      have "bottom \<le> b" using "1.prems"(1) v used by auto
      moreover have "taken_at vs len a" if "bottom \<le> a" "a \<le> a + len" "b < a + len" "a + len \<le> MMAP_TOP" for a
      proof (cases "hi < a + len")
        case True with "1.prems"(4) that show ?thesis by blast
      next
        case False
        then show ?thesis using taken_below [OF v(1,2) len(1) "1.prems"(3) that(4,2)] that(3) v(3) by auto
      qed
      ultimately have "gap_found vs bottom len (find_address_loop vs len bottom b)"
        using "1.IH" [OF True refl Some] "1.prems"(1,3) used(2) by (auto intro: order.trans order.strict_implies_order)
      with True Some show ?thesis by (subst find_address_loop.simps) simp
    qed
  qed
qed

lemma aligned_diff: "page_aligned a \<Longrightarrow> page_aligned b \<Longrightarrow> b \<le> a \<Longrightarrow> page_aligned (a - b)"
  by (simp add: page_aligned_unat unat_sub word_le_nat_alt mod_eq_0_iff_dvd)

lemma aligned_add: "page_aligned a \<Longrightarrow> page_aligned b \<Longrightarrow> a \<le> a + b \<Longrightarrow> page_aligned (a + b)"
  by (simp add: page_aligned_unat unat_add_no_wrap mod_eq_0_iff_dvd)

lemma find_address_loop_aligned:
  assumes "\<forall>v \<in> set vs. v_used v \<longrightarrow> page_aligned (v_start v) \<and> bottom \<le> v_start v" "page_aligned len" "page_aligned hi" "bottom \<le> hi"
  shows "page_aligned (find_address_loop vs len bottom hi)"
  using assms
proof (induction vs len bottom hi rule: find_address_loop.induct)
  case (1 vs len bottom hi)
  show ?case
  proof (cases "len \<le> hi - bottom")
    case True
    then have len: "len \<le> hi" using "1.prems"(4) by (simp add: word_le_nat_alt unat_sub)
    show ?thesis
    proof (cases "highest_overlap vs (hi - len) hi None")
      case None
      then show ?thesis using True "1.prems" len by (subst find_address_loop.simps) (simp add: aligned_diff)
    next
      case (Some b)
      from highest_overlap_in [OF Some] obtain v where "v \<in> set vs" "v_used v" "v_start v = b"
        by (auto simp: vma_overlaps_def)
      with "1.prems" have "page_aligned b" "bottom \<le> b" by auto
      then show ?thesis
        using "1.IH" [OF True refl Some "1.prems"(1,2)] True Some by (subst find_address_loop.simps) simp
    qed
  next
    case False
    then show ?thesis by (subst find_address_loop.simps) (simp add: page_aligned_def)
  qed
qed

lemma vma_find_address_gap:
  assumes "areas_ok sz vs" "sz \<le> PGROUNDUP sz" "PGROUNDUP sz \<le> MMAP_TOP" "page_aligned len"
  shows "gap_found vs (PGROUNDUP sz) len (vma_find_address sz vs len)" "page_aligned (vma_find_address sz vs len)"
proof -
  have ok: "\<forall>v \<in> set vs. v_used v \<longrightarrow> page_aligned (v_start v) \<and> PGROUNDUP sz \<le> v_start v"
    using assms(1) by (auto simp: areas_ok_def area_ok_def in_set_conv_nth)
  have eq: "vma_find_address sz vs len = find_address_loop vs len (PGROUNDUP sz) MMAP_TOP"
    using assms(2,3) by (auto simp: vma_find_address_def Let_def)
  have none: "taken_at vs len a" if "MMAP_TOP < a + len" "a + len \<le> MMAP_TOP" for a
    using that by simp
  show "gap_found vs (PGROUNDUP sz) len (vma_find_address sz vs len)"
    unfolding eq by (rule find_address_loop_gap) (use ok assms(3) none in auto)
  have "page_aligned MMAP_TOP" by (simp add: page_aligned_def)
  then show "page_aligned (vma_find_address sz vs len)"
    unfolding eq using find_address_loop_aligned [OF ok assms(4) _ assms(3)] by blast
qed

lemma taken_at_contains:
  assumes "\<not> taken_at vs len r" "i < length vs" "r \<le> va" "va < r + len"
  shows "\<not> vma_contains va (vs ! i)"
  using assms by (auto simp: taken_at_def vma_overlaps_def vma_contains_def all_set_conv_all_nth)

text \<open>Filling an unused slot with an area that overlaps no other adds exactly its addresses.\<close>

lemma view_add:
  assumes ok: "areas_ok sz vs" and i: "i < length vs" "\<not> v_used (vs ! i)" and v: "v_used v" "area_ok sz v"
    and free: "\<not> taken_at vs (v_end v - v_start v) (v_start v)"
  shows "areas_ok sz (vs[i := v])"
    and "vma_view (vs[i := v]) va = (if vma_contains va v then Some (page_view v va) else vma_view vs va)"
proof -
  have apart: "apart v (vs ! j)" if "j < length vs" for j
    using free that by (auto simp: taken_at_def vma_overlaps_def apart_def all_set_conv_all_nth not_less)
  show ok': "areas_ok sz (vs[i := v])"
    using ok i v apart by (intro areas_ok_update) auto
  show "vma_view (vs[i := v]) va = (if vma_contains va v then Some (page_view v va) else vma_view vs va)"
  proof (cases "vma_contains va v")
    case True
    with i show ?thesis using vma_view_Some [OF ok'] by fastforce
  next
    case False
    have "vma_view (vs[i := v]) va = vma_view vs va"
    proof (rule vma_view_eqI [OF ok' ok])
      fix x
      have "vma_contains va (vs[i := v] ! j) \<and> page_view (vs[i := v] ! j) va = x \<longleftrightarrow>
        vma_contains va (vs ! j) \<and> page_view (vs ! j) va = x" if "j < length vs" for j
        using False i that by (auto simp: nth_list_update vma_contains_def)
      then show "(\<exists>j < length (vs[i := v]). vma_contains va (vs[i := v] ! j) \<and> page_view (vs[i := v] ! j) va = x) \<longleftrightarrow>
        (\<exists>j < length vs. vma_contains va (vs ! j) \<and> page_view (vs ! j) va = x)" by (auto simp del: nth_list_update)
    qed
    with False show ?thesis by simp
  qed
qed

text \<open>The tests of the arguments in \<^verbatim>\<open>mmap_map_create\<close>.\<close>

definition map_args_ok :: "u64 \<Rightarrow> u64 \<Rightarrow> u32 \<Rightarrow> u32 \<Rightarrow> bool" where
  "map_args_ok addr len prot flags \<longleftrightarrow> addr = 0 \<and> len \<noteq> 0 \<and> len \<le> MMAP_TOP \<and>
     prot AND NOT (PROT_READ OR PROT_WRITE OR PROT_EXEC) = 0 \<and> (prot AND PROT_WRITE \<noteq> 0 \<longrightarrow> prot AND PROT_READ \<noteq> 0) \<and>
     flags AND (MAP_PRIVATE OR MAP_SHARED) \<in> {MAP_PRIVATE, MAP_SHARED}"

definition new_area :: "u64 \<Rightarrow> u64 \<Rightarrow> u32 \<Rightarrow> u32 \<Rightarrow> vma_type \<Rightarrow> nat option \<Rightarrow> vma_ops \<Rightarrow> u64 \<Rightarrow> vma_area" where
  "new_area start len prot flags type object ops offset =
     vma_zero\<lparr>v_used := True, v_type := type, v_start := start, v_end := start + PGROUNDUP len, v_valid_end := start + len,
       v_offset := offset, v_prot := prot, v_flags := flags, v_object := object, v_ops := ops\<rparr>"

lemma map_length_ok:
  assumes "len \<noteq> 0" "len \<le> MMAP_TOP"
  shows "len \<le> PGROUNDUP len" "PGROUNDUP len \<le> MMAP_TOP" "PGROUNDUP len \<noteq> 0"
proof -
  have n: "unat len \<le> 2146435072" using assms(2) by (simp add: word_le_nat_alt)
  then have r: "unat (PGROUNDUP len) = (unat len + 4095) div 4096 * 4096" by (simp add: unat_PGROUNDUP)
  show "len \<le> PGROUNDUP len" using n by (intro PGROUNDUP_ge) simp
  with assms(1) show "PGROUNDUP len \<noteq> 0" by auto
  have "(unat len + 4095) div 4096 \<le> (2146435072 + 4095) div 4096" using n by (intro div_le_mono) simp
  then show "PGROUNDUP len \<le> MMAP_TOP" using r by (simp add: word_le_nat_alt)
qed

lemma mmap_map_create_eq:
  "mmap_map_create sz vs addr len prot flags type object ops offset =
     (let start = vma_find_address sz vs (PGROUNDUP len)
      in case vma_find_free vs of
           Some i \<Rightarrow> if map_args_ok addr len prot flags \<and> len \<le> PGROUNDUP len \<and> start \<noteq> 0 \<and> start \<le> start + len
                     then (start, vs[i := new_area start len prot flags type object ops offset]) else (MAP_FAILED, vs)
         | None \<Rightarrow> (MAP_FAILED, vs))"
  by (auto simp: mmap_map_create_def map_args_ok_def new_area_def Let_def split: option.splits)

lemma area_ok_new:
  assumes gap: "gap_found vs (PGROUNDUP sz) (PGROUNDUP len) r" and r: "r \<noteq> 0" "page_aligned r" and len: "len \<noteq> 0" "len \<le> MMAP_TOP"
  shows "area_ok sz (new_area r len prot flags type ob ops offset)"
proof -
  note m = map_length_ok [OF len]
  have g: "PGROUNDUP sz \<le> r" "r \<le> r + PGROUNDUP len" "r + PGROUNDUP len \<le> MMAP_TOP"
    using gap r(1) by (auto simp: gap_found_def)
  have "r \<noteq> r + PGROUNDUP len" using m(3) by simp
  then have "r < r + PGROUNDUP len" using g(2) by (auto simp: order.order_iff_strict)
  then show ?thesis using g r(2) by (simp add: area_ok_def new_area_def vma_zero_def aligned_add)
qed

lemma mmap_map_create_view:
  assumes ok: "areas_ok sz vs" and sz: "sz \<le> PGROUNDUP sz" "PGROUNDUP sz \<le> MMAP_TOP"
    and run: "mmap_map_create sz vs addr len prot flags type ob ops offset = (r, vs')" and succ: "r \<noteq> MAP_FAILED"
  shows "areas_ok sz vs'" "page_aligned r" "PGROUNDUP sz \<le> r"
    "r \<le> r + PGROUNDUP len" "r + PGROUNDUP len \<le> MMAP_TOP" "length vs' = length vs"
    "vma_view vs' va = (if r \<le> va \<and> va < r + PGROUNDUP len then Some (type, ob, ops, prot, flags, offset + (va - r), va < r + len) else vma_view vs va)"
    "r \<le> va \<Longrightarrow> va < r + PGROUNDUP len \<Longrightarrow> vma_view vs va = None"
proof -
  obtain i where i: "vma_find_free vs = Some i" and r: "r = vma_find_address sz vs (PGROUNDUP len)"
    and args: "map_args_ok addr len prot flags" "r \<noteq> 0"
    and vs': "vs' = vs[i := new_area r len prot flags type ob ops offset]"
    using run succ unfolding mmap_map_create_eq Let_def by (auto split: option.splits if_splits)
  have slot: "i < length vs" "\<not> v_used (vs ! i)" using i by (auto simp: vma_find_free_def find_slot_Some)
  have len: "len \<noteq> 0" "len \<le> MMAP_TOP" using args(1) by (auto simp: map_args_ok_def)
  note gap = vma_find_address_gap [OF ok sz page_aligned_PGROUNDUP, of len, folded r]
  show "page_aligned r" by (rule gap(2))
  have g: "PGROUNDUP sz \<le> r" "r \<le> r + PGROUNDUP len" "r + PGROUNDUP len \<le> MMAP_TOP" "\<not> taken_at vs (PGROUNDUP len) r"
    using gap(1) args(2) by (auto simp: gap_found_def)
  then show "PGROUNDUP sz \<le> r" "r \<le> r + PGROUNDUP len" "r + PGROUNDUP len \<le> MMAP_TOP" by auto
  let ?v = "new_area r len prot flags type ob ops offset"
  have v: "v_used ?v" "v_start ?v = r" "v_end ?v = r + PGROUNDUP len"
    "page_view ?v va = (type, ob, ops, prot, flags, offset + (va - r), va < r + len)"
    "vma_contains va ?v \<longleftrightarrow> r \<le> va \<and> va < r + PGROUNDUP len"
    by (simp_all add: new_area_def vma_zero_def page_view_def vma_contains_def)
  have free: "\<not> taken_at vs (v_end ?v - v_start ?v) (v_start ?v)" using g(4) by (simp add: v)
  note add = view_add [OF ok slot v(1) area_ok_new [OF gap(1) args(2) gap(2) len] free]
  show "areas_ok sz vs'" "length vs' = length vs"
    and "vma_view vs' va = (if r \<le> va \<and> va < r + PGROUNDUP len then Some (type, ob, ops, prot, flags, offset + (va - r), va < r + len) else vma_view vs va)"
    unfolding vs' using add(1) add(2) [of va] by (simp_all only: v length_list_update)
  show "vma_view vs va = None" if "r \<le> va" "va < r + PGROUNDUP len"
    using taken_at_contains [OF g(4) _ that] by (simp add: vma_view_None)
qed

lemma gap_small:
  assumes "gap_found vs bottom l r" "len \<le> l"
  shows "r \<noteq> 0 \<Longrightarrow> r \<le> r + len" "r \<noteq> MAP_FAILED"
proof -
  have g: "r \<le> r + l" "r + l \<le> MMAP_TOP" if "r \<noteq> 0" using assms(1) that by (auto simp: gap_found_def)
  show "r \<le> r + len" if "r \<noteq> 0"
    using unat_add_no_wrap [OF g(1)] g(2) assms(2) that by (simp add: word_nat unat_plus_if')
  show "r \<noteq> MAP_FAILED"
  proof
    assume "r = MAP_FAILED"
    with order.trans [OF g(1) g(2)] show False by (simp add: word_le_nat_alt unat_max64)
  qed
qed

text \<open>
  C18: \<^verbatim>\<open>mmap_map_create\<close> either fails and leaves the areas alone, or adds exactly one area: page aligned, between the heap and the
  stack, on addresses that no area had, with the offset counted from its start, and at the highest such place. It fails only
  for arguments that are not valid, a heap that reaches into the stack, a full table, or when no gap above address 0 is long enough.
\<close>

theorem mmap_map_create_correct:
  assumes ok: "areas_ok sz vs"
    and run: "mmap_map_create sz vs addr len prot flags type ob ops offset = (r, vs')"
  shows "if r = MAP_FAILED
    then vs' = vs \<and> (\<not> map_args_ok addr len prot flags \<or> PGROUNDUP sz < sz \<or> MMAP_TOP < PGROUNDUP sz \<or> (\<forall>v \<in> set vs. v_used v) \<or>
      (\<forall>a. 0 < a \<longrightarrow> PGROUNDUP sz \<le> a \<longrightarrow> a \<le> a + PGROUNDUP len \<longrightarrow> a + PGROUNDUP len \<le> MMAP_TOP \<longrightarrow> taken_at vs (PGROUNDUP len) a))
    else areas_ok sz vs' \<and> gap_found vs (PGROUNDUP sz) (PGROUNDUP len) r \<and> page_aligned r \<and>
      (\<forall>va. vma_view vs' va = (if r \<le> va \<and> va < r + PGROUNDUP len
         then Some (type, ob, ops, prot, flags, offset + (va - r), va < r + len) else vma_view vs va))"
proof (cases "map_args_ok addr len prot flags \<and> sz \<le> PGROUNDUP sz \<and> PGROUNDUP sz \<le> MMAP_TOP")
  case False
  have "r = MAP_FAILED \<and> vs' = vs"
    using False run unfolding mmap_map_create_eq Let_def
    by (auto simp: vma_find_address_def Let_def not_le split: option.splits if_splits)
  with False show ?thesis by (auto simp: not_le)
next
  case True
  then have sz: "sz \<le> PGROUNDUP sz" "PGROUNDUP sz \<le> MMAP_TOP" and args: "map_args_ok addr len prot flags" by auto
  note gap = vma_find_address_gap [OF ok sz page_aligned_PGROUNDUP, of len]
  show ?thesis
  proof (cases "r = MAP_FAILED")
    case False
    have "r = vma_find_address sz vs (PGROUNDUP len)"
      using run False unfolding mmap_map_create_eq Let_def by (auto split: option.splits if_splits)
    with False gap mmap_map_create_view [OF ok sz run False] show ?thesis by auto
  next
    case fail: True
    let ?a = "vma_find_address sz vs (PGROUNDUP len)"
    have len: "len \<noteq> 0" "len \<le> MMAP_TOP" using args by (auto simp: map_args_ok_def)
    note m = map_length_ok [OF len]
    have nowrap: "?a \<noteq> 0 \<Longrightarrow> ?a \<le> ?a + len" and small: "?a \<noteq> MAP_FAILED"
      using gap_small [OF gap(1) m(1)] by auto
    have "vs' = vs \<and> ((\<forall>v \<in> set vs. v_used v) \<or> ?a = 0)"
      using run fail args m nowrap small unfolding mmap_map_create_eq Let_def
      by (auto simp: vma_find_free_def find_slot_None split: option.splits if_splits)
    then show ?thesis using fail gap(1) by (auto simp: gap_found_def)
  qed
qed

section \<open>Reference counts\<close>

definition obj_refs :: "'x mm \<Rightarrow> nat \<Rightarrow> int" where
  "obj_refs s q = (case mm_obj s q of None \<Rightarrow> 0 | Some ob \<Rightarrow> o_refcnt ob)"

definition refers :: "nat \<Rightarrow> vma_area \<Rightarrow> bool" where
  "refers q v \<longleftrightarrow> v_used v \<and> v_object v = Some q"

definition area_refs :: "vma_area list \<Rightarrow> nat \<Rightarrow> int" where
  "area_refs vs q = int (length (filter (refers q) vs))"

lemma area_refs_update:
  "i < length vs \<Longrightarrow> area_refs (vs[i := v]) q = area_refs vs q - of_bool (refers q (vs ! i)) + of_bool (refers q v)"
proof (induction vs arbitrary: i)
  case (Cons w vs)
  then show ?case by (cases i) (auto simp: area_refs_def)
qed simp

lemma with_k_obj [simp]: "with_k g s = Ok s' \<Longrightarrow> mm_obj s' = mm_obj s"
  by (auto simp: with_k_def rmap_Ok_iff)

lemma with_x_obj [simp]: "with_x g s = Ok s' \<Longrightarrow> mm_obj s' = mm_obj s"
  by (auto simp: with_x_def rmap_Ok_iff)

lemma destroy_obj: "mmap_object_destroy k fe ob s = Ok s' \<Longrightarrow> mm_obj s' = mm_obj s"
  by (auto simp: mmap_object_destroy_def mmap_file_object_destroy_def mmap_anon_object_destroy_def mmap_kbuf_object_destroy_def rbind_Ok_iff
    split: vma_type.splits option.splits)

lemma put_refs:
  assumes "mmap_object_put k fe q s = Ok s'"
  shows "obj_refs s' r = obj_refs s r - of_bool (r = q)" "1 \<le> obj_refs s q"
  using assms
  by (auto simp: mmap_object_put_def the_obj_def set_obj_def obj_refs_def Let_def rmap_Ok_iff destroy_obj split: option.splits if_splits)

lemma get_refs:
  assumes "mmap_object_get p s = Ok s'"
  shows "\<exists>q. p = Some q \<and> 1 \<le> obj_refs s q \<and> obj_refs s' r = obj_refs s r + of_bool (r = q)"
  using assms
  by (auto simp: mmap_object_get_def the_obj_def set_obj_def obj_refs_def split: option.splits if_splits)

lemma put_opt_refs:
  assumes "(case p of None \<Rightarrow> Ok s | Some q \<Rightarrow> mmap_object_put k fe q s) = Ok s'"
  shows "obj_refs s' r = obj_refs s r - of_bool (p = Some r)"
  using assms put_refs(1) [of k fe "the p" s s' r] by (auto split: option.splits)

text \<open>An outcome with the object table \<open>t\<close>, established along the structure of the code.\<close>

definition obj_kept :: "(nat \<Rightarrow> mmap_object option) \<Rightarrow> ('a \<times> 'x mm) res \<Rightarrow> bool" where
  "obj_kept t m \<longleftrightarrow> (\<forall>r s'. m = Ok (r, s') \<longrightarrow> mm_obj s' = t)"

named_theorems kept_intros \<open>rules for code that leaves the object table alone\<close>

lemma obj_kept_Ok [kept_intros]: "mm_obj s = t \<Longrightarrow> obj_kept t (Ok (r, s))"
  by (simp add: obj_kept_def)

lemma obj_kept_Panic [kept_intros]: "obj_kept t (Panic m)"
  by (simp add: obj_kept_def)

lemma obj_kept_if [kept_intros]: "obj_kept t m \<Longrightarrow> obj_kept t n \<Longrightarrow> obj_kept t (if c then m else n)"
  by simp

lemma obj_kept_option [kept_intros]: "obj_kept t m \<Longrightarrow> (\<And>x. obj_kept t (f x)) \<Longrightarrow> obj_kept t (case z of None \<Rightarrow> m | Some x \<Rightarrow> f x)"
  by (simp split: option.split)

lemma obj_kept_rbind [kept_intros]: "(\<And>x y. m = Ok (x, y) \<Longrightarrow> obj_kept t (f x y)) \<Longrightarrow> obj_kept t (rbind m (\<lambda>(x, y). f x y))"
  by (cases m) (auto simp: obj_kept_def)

lemma obj_kept_rmap [kept_intros]: "(\<And>x y. mm_obj (g x y) = t) \<Longrightarrow> obj_kept t (rmap (\<lambda>(x, y). (f x y, g x y)) m)"
  by (cases m) (auto simp: obj_kept_def)

lemma writeback_page_kept: "obj_kept (mm_obj s) (mmap_file_writeback_page k fe v pt page s)"
  unfolding mmap_file_writeback_page_def the_obj_def Let_def by (intro kept_intros) simp_all

lemma writeback_page_obj: "mmap_file_writeback_page k fe v pt page s = Ok (r, s') \<Longrightarrow> mm_obj s' = mm_obj s"
  using writeback_page_kept by (metis obj_kept_def)

lemma writeback_loop_obj: "writeback_loop k fe v pt pages s = Ok (r, s') \<Longrightarrow> mm_obj s' = mm_obj s"
  by (induction pages arbitrary: s) (auto simp: rbind_Ok_iff split: if_splits dest: writeback_page_obj)

lemma writeback_range_obj: "mmap_file_writeback_range k fe p v lo hi s = Ok (r, s') \<Longrightarrow> mm_obj s' = mm_obj s"
  by (auto simp: mmap_file_writeback_range_def split: if_splits dest: writeback_loop_obj)

lemma unmap_writeback_obj: "unmap_writeback k fe p addr finish vs s = Ok (r, s') \<Longrightarrow> mm_obj s' = mm_obj s"
proof (induction vs arbitrary: s)
  case (Cons v vs)
  then show ?case
    by (cases "mmap_file_writeback_range k fe p v (max addr (v_start v)) (min finish (v_end v)) s")
      (auto split: if_splits dest: writeback_range_obj)
qed simp

lemma obj_refs_cong: "mm_obj s = mm_obj s' \<Longrightarrow> obj_refs s = obj_refs s'"
  by (simp add: obj_refs_def fun_eq_iff)

section \<open>Unmapping\<close>

text \<open>Shrinking an area keeps the invariant and the view of the addresses that it keeps.\<close>

definition shrinks :: "vma_area \<Rightarrow> vma_area \<Rightarrow> bool" where
  "shrinks v w \<longleftrightarrow> (v_used w \<longrightarrow> v_used v \<and> v_start v \<le> v_start w \<and> v_end w \<le> v_end v)"

lemma apart_shrinks: "apart v u \<Longrightarrow> shrinks v w \<Longrightarrow> apart w u"
  by (auto simp: apart_def shrinks_def)

lemma areas_ok_shrink:
  assumes "areas_ok sz vs" "i < length vs" "area_ok sz w" "shrinks (vs ! i) w"
  shows "areas_ok sz (vs[i := w])"
  using assms(1-3) by (rule areas_ok_update) (use assms in \<open>auto intro: apart_shrinks areas_ok_apart\<close>)

lemma view_shrink:
  assumes "areas_ok sz vs" "i < length vs" "area_ok sz w" "shrinks (vs ! i) w"
    and same: "vma_contains va w = vma_contains va (vs ! i)" "vma_contains va w \<Longrightarrow> page_view w va = page_view (vs ! i) va"
  shows "vma_view (vs[i := w]) va = vma_view vs va"
proof (rule vma_view_eqI [OF areas_ok_shrink [OF assms(1-4)] assms(1)])
  fix x
  have "vma_contains va (vs[i := w] ! j) \<and> page_view (vs[i := w] ! j) va = x \<longleftrightarrow>
    vma_contains va (vs ! j) \<and> page_view (vs ! j) va = x" if "j < length vs" for j
    using same that assms(2) by (auto simp: nth_list_update)
  then show "(\<exists>j < length (vs[i := w]). vma_contains va (vs[i := w] ! j) \<and> page_view (vs[i := w] ! j) va = x) \<longleftrightarrow>
    (\<exists>j < length vs. vma_contains va (vs ! j) \<and> page_view (vs ! j) va = x)" by (auto simp del: nth_list_update)
qed

lemma not_overlaps_contains: "\<not> vma_overlaps v addr finish \<Longrightarrow> addr \<le> va \<Longrightarrow> va < finish \<Longrightarrow> \<not> vma_contains va v"
  by (auto simp: vma_overlaps_def vma_contains_def)

definition outside :: "u64 \<Rightarrow> u64 \<Rightarrow> u64 \<Rightarrow> bool" where
  "outside addr finish va \<longleftrightarrow> va < addr \<or> finish \<le> va"

text \<open>The part behind a removed range keeps its offsets: the offset moves with the start.\<close>

lemma vma_back_view: "page_view (vma_back v hi) va = page_view v va"
  by (simp add: vma_back_def page_view_def)

lemma vma_front_view: "va < lo \<Longrightarrow> page_view (vma_front v lo) va = page_view v va"
  by (auto simp: vma_front_def page_view_def)

definition unmap_post ::
  "u64 \<Rightarrow> u64 \<Rightarrow> u64 \<Rightarrow> nat \<Rightarrow> vma_area list \<times> nat option \<times> 'x mm \<Rightarrow> vma_area list \<times> nat option \<times> 'x mm \<Rightarrow> bool" where
  "unmap_post sz addr finish i st st' \<longleftrightarrow>
     (case (st, st') of ((vs, split, s), (vs', split', s')) \<Rightarrow>
        areas_ok sz vs' \<and> length vs' = length vs \<and>
        (\<forall>j. split' = Some j \<longrightarrow> split = Some j \<and> \<not> v_used (vs' ! j)) \<and>
        (\<forall>va. outside addr finish va \<longrightarrow> vma_view vs' va = vma_view vs va) \<and>
        \<not> vma_overlaps (vs' ! i) addr finish \<and>
        (\<forall>j < length vs. \<not> vma_overlaps (vs ! j) addr finish \<longrightarrow> \<not> vma_overlaps (vs' ! j) addr finish) \<and>
        (\<forall>q. obj_refs s' q - area_refs vs' q = obj_refs s q - area_refs vs q))"

lemma unmap_post_refl:
  "areas_ok sz vs \<Longrightarrow> (\<And>j. split = Some j \<Longrightarrow> \<not> v_used (vs ! j)) \<Longrightarrow> \<not> vma_overlaps (vs ! i) addr finish \<Longrightarrow>
     unmap_post sz addr finish i (vs, split, s) (vs, split, s)"
  by (simp add: unmap_post_def)

lemma unmap_post_shrink:
  assumes ok: "areas_ok sz vs" and i: "i < length vs" and split: "\<And>j. split = Some j \<Longrightarrow> \<not> v_used (vs ! j)" "v_used (vs ! i)"
    and w: "area_ok sz w" "shrinks (vs ! i) w" "\<not> vma_overlaps w addr finish"
    and view: "\<And>va. outside addr finish va \<Longrightarrow> vma_contains va w = vma_contains va (vs ! i)"
      "\<And>va. outside addr finish va \<Longrightarrow> vma_contains va w \<Longrightarrow> page_view w va = page_view (vs ! i) va"
    and refs: "\<And>q. obj_refs s' q = obj_refs s q - of_bool (refers q (vs ! i)) + of_bool (refers q w)"
  shows "unmap_post sz addr finish i (vs, split, s) (vs[i := w], split, s')"
  unfolding unmap_post_def prod.case
proof (intro conjI allI impI)
  show "areas_ok sz (vs[i := w])" by (rule areas_ok_shrink [OF ok i w(1,2)])
  fix va assume "outside addr finish va"
  then show "vma_view (vs[i := w]) va = vma_view vs va"
    using view by (intro view_shrink [OF ok i w(1,2)]) auto
next
  fix j assume "split = Some j"
  with split show "split = Some j" "\<not> v_used (vs[i := w] ! j)" by (auto simp: nth_upd)
next
  fix j assume "\<not> vma_overlaps (vs ! j) addr finish"
  with w(3) show "\<not> vma_overlaps (vs[i := w] ! j) addr finish" by (auto simp: nth_upd)
next
  fix q show "obj_refs s' q - area_refs (vs[i := w]) q = obj_refs s q - area_refs vs q"
    using refs [of q] area_refs_update [OF i, of w q] by simp
qed (use i w in auto)

lemma vma_front_ok:
  assumes "area_ok sz v" "v_used v" "page_aligned lo" "v_start v < lo" "lo \<le> v_end v"
  shows "area_ok sz (vma_front v lo)" "shrinks v (vma_front v lo)"
  using assms by (auto simp: area_ok_def shrinks_def vma_front_def)

lemma vma_back_ok:
  assumes "area_ok sz v" "v_used v" "page_aligned hi" "v_start v \<le> hi" "hi < v_end v"
  shows "area_ok sz (vma_back v hi)" "shrinks v (vma_back v hi)"
  using assms by (auto simp: area_ok_def shrinks_def vma_back_def)

lemma front_back_contains:
  "vma_contains va (vma_front v lo) \<longleftrightarrow> v_used v \<and> v_start v \<le> va \<and> va < lo"
  "vma_contains va (vma_back v hi) \<longleftrightarrow> v_used v \<and> hi \<le> va \<and> va < v_end v"
  by (auto simp: vma_front_def vma_back_def vma_contains_def)

lemma front_back_overlaps:
  "vma_overlaps (vma_front v lo) a b \<longleftrightarrow> v_used v \<and> a < lo \<and> v_start v < b"
  "vma_overlaps (vma_back v hi) a b \<longleftrightarrow> v_used v \<and> a < v_end v \<and> hi < b"
  by (auto simp: vma_front_def vma_back_def vma_overlaps_def)

lemma front_back_refers [simp]: "refers q (vma_front v lo) = refers q v" "refers q (vma_back v hi) = refers q v"
  by (auto simp: vma_front_def vma_back_def refers_def)

lemma unmap_post_split:
  assumes ok: "areas_ok sz vs" and i: "i < length vs" and j: "j < length vs" "\<not> v_used (vs ! j)"
    and v: "v = vs ! i" "v_used v" and cut: "v_start v < addr" "addr < finish" "finish < v_end v" "page_aligned addr" "page_aligned finish"
    and refs: "\<And>q. obj_refs s' q = obj_refs s q + of_bool (v_object v = Some q)"
  shows "unmap_post sz addr finish i (vs, Some j, s) (vs[j := vma_back v finish, i := vma_front v addr], None, s')"
proof -
  have ij: "i \<noteq> j" using j v by auto
  let ?f = "vma_front v addr" and ?b = "vma_back v finish"
  have aok: "area_ok sz v" using areas_ok_nth [OF ok i] v by simp
  have f: "area_ok sz ?f" "shrinks v ?f" using vma_front_ok [OF aok v(2) cut(4,1)] cut by auto
  have b: "area_ok sz ?b" "shrinks v ?b" using vma_back_ok [OF aok v(2) cut(5)] cut by auto
  let ?vs = "vs[i := ?f]"
  have ok1: "areas_ok sz ?vs" using f v by (intro areas_ok_shrink [OF ok i]) auto
  have "\<not> vma_overlaps (?vs ! l) finish (v_end v)" if "l < length vs" for l
  proof (cases "l = i")
    case True
    then show ?thesis using i cut by (auto simp: front_back_overlaps)
  next
    case False
    have "apart v (vs ! l)" using areas_ok_apart [OF ok i that] False v by auto
    then show ?thesis using False cut v(2) by (auto simp: apart_def vma_overlaps_def)
  qed
  then have free: "\<not> taken_at ?vs (v_end ?b - v_start ?b) (v_start ?b)"
    by (auto simp: taken_at_def in_set_conv_nth vma_back_def simp del: nth_list_update)
  have slot: "j < length ?vs" "\<not> v_used (?vs ! j)" "v_used ?b" using j ij v by (auto simp: vma_back_def)
  note add = view_add [OF ok1 slot b(1) free]
  have swap: "vs[j := ?b, i := ?f] = ?vs[j := ?b]" using ij by (simp add: list_update_swap)
  have view: "vma_view (?vs[j := ?b]) va = vma_view vs va" if out: "outside addr finish va" for va
  proof (cases "vma_contains va ?b")
    case True
    then have "vma_contains va v" using cut by (auto simp: vma_back_def vma_contains_def)
    then have "vma_view vs va = Some (page_view v va)" using vma_view_Some [OF ok] i v by auto
    with True show ?thesis by (simp add: add(2) vma_back_view)
  next
    case False
    then have "vma_contains va ?f = vma_contains va (vs ! i)"
      using out cut v by (auto simp: vma_front_def vma_back_def vma_contains_def outside_def)
    then have "vma_view ?vs va = vma_view vs va"
      using f v by (intro view_shrink [OF ok i]) (auto simp: front_back_contains vma_front_view)
    with False show ?thesis by (simp add: add(2))
  qed
  have none: "\<not> vma_overlaps ?f addr finish" "\<not> vma_overlaps ?b addr finish" by (auto simp: front_back_overlaps)
  have "area_refs (?vs[j := ?b]) q = area_refs vs q + of_bool (v_object v = Some q)" for q
    using slot i ij j v by (simp add: area_refs_update refers_def vma_front_def vma_back_def)
  then show ?thesis
    unfolding unmap_post_def prod.case swap
    using add(1) view none i ij j refs by (auto simp: nth_list_update)
qed

lemma unmap_area_step:
  assumes ok: "areas_ok sz vs" and i: "i < length vs" and split: "\<And>j. split = Some j \<Longrightarrow> j < length vs \<and> \<not> v_used (vs ! j)"
    and range: "addr < finish" "page_aligned addr" "page_aligned finish"
    and run: "unmap_area k fe p addr finish i (vs, split, s) = Ok st'"
  shows "unmap_post sz addr finish i (vs, split, s) st'"
proof (cases "vma_overlaps (vs ! i) addr finish")
  case False
  with run have "st' = (vs, split, s)" by (simp add: unmap_area_def Let_def)
  with False unmap_post_refl [OF ok, of split i addr finish s] split show ?thesis by blast
next
  case True
  define v where "v = vs ! i"
  define lo where "lo = max addr (v_start v)"
  define hi where "hi = min finish (v_end v)"
  have u: "v_used v" "addr < v_end v" "v_start v < finish" using True by (auto simp: vma_overlaps_def v_def)
  have aok: "area_ok sz v" using areas_ok_nth [OF ok i] by (simp add: v_def)
  obtain s1 where s1: "with_k (vma_unmap_pages k p lo hi) s = Ok s1"
    and run1: "(if lo = v_start v \<and> hi = v_end v then
         rmap (\<lambda>s2. (vs[i := vma_zero], split, s2)) (case v_object v of None \<Rightarrow> Ok s1 | Some q \<Rightarrow> mmap_object_put k fe q s1)
       else if lo = v_start v then Ok (vs[i := vma_back v hi], split, s1)
       else if hi = v_end v then Ok (vs[i := vma_front v lo], split, s1)
       else case split of None \<Rightarrow> Panic ''null''
         | Some j \<Rightarrow> rmap (\<lambda>s2. (vs[j := vma_back v hi, i := vma_front v lo], None, s2)) (mmap_object_get (v_object v) s1)) = Ok st'"
    using run True unfolding unmap_area_def Let_def prod.case v_def [symmetric] lo_def [symmetric] hi_def [symmetric]
    by (auto simp: rbind_Ok_iff)
  have r1: "obj_refs s1 = obj_refs s" using with_k_obj [OF s1] by (rule obj_refs_cong)
  note shrink = unmap_post_shrink [OF ok i, folded v_def, OF _ u(1)]
  consider (whole) "lo = v_start v" "hi = v_end v" | (tail) "lo = v_start v" "hi \<noteq> v_end v"
    | (head) "lo \<noteq> v_start v" "hi = v_end v" | (both) "lo \<noteq> v_start v" "hi \<noteq> v_end v" by blast
  then show ?thesis
  proof cases
    case whole
    obtain s2 where s2: "(case v_object v of None \<Rightarrow> Ok s1 | Some q \<Rightarrow> mmap_object_put k fe q s1) = Ok s2"
      and st: "st' = (vs[i := vma_zero], split, s2)" using run1 whole by (auto simp: rmap_Ok_iff)
    have c: "\<not> vma_contains va v" if "outside addr finish va" for va
      using that whole by (auto simp: outside_def vma_contains_def lo_def hi_def max_def min_def split: if_splits)
    show ?thesis unfolding st
      by (rule shrink) (use split u c put_opt_refs [OF s2] r1 in
        \<open>auto simp: area_ok_def shrinks_def vma_zero_def vma_overlaps_def vma_contains_def refers_def v_def\<close>)
  next
    case tail
    then have h: "hi = finish" "finish < v_end v" "addr \<le> v_start v" by (auto simp: hi_def lo_def min_def max_def split: if_splits)
    have st: "st' = (vs[i := vma_back v finish], split, s1)" using run1 tail h by simp
    note b = vma_back_ok [OF aok u(1) range(3) order.strict_implies_order [OF u(3)] h(2)]
    have c: "vma_contains va (vma_back v finish) = vma_contains va v" if "outside addr finish va" for va
      using that u h by (auto simp: vma_back_def vma_contains_def outside_def)
    show ?thesis unfolding st
      by (rule shrink [OF _ b]) (use split r1 c in \<open>auto simp: vma_back_view front_back_overlaps\<close>)
  next
    case head
    then have h: "lo = addr" "v_start v < addr" "v_end v \<le> finish" by (auto simp: hi_def lo_def min_def max_def split: if_splits)
    have st: "st' = (vs[i := vma_front v addr], split, s1)" using run1 head h by simp
    note f = vma_front_ok [OF aok u(1) range(2) h(2) order.strict_implies_order [OF u(2)]]
    have c: "vma_contains va (vma_front v addr) = vma_contains va v" if "outside addr finish va" for va
      using that u h by (auto simp: vma_front_def vma_contains_def outside_def)
    have pv: "page_view (vma_front v addr) va = page_view v va" if "vma_contains va (vma_front v addr)" for va
      using that by (simp add: front_back_contains vma_front_view)
    show ?thesis unfolding st
      by (rule shrink [OF _ f]) (use split r1 c pv in \<open>auto simp: front_back_overlaps\<close>)
  next
    case both
    then have h: "lo = addr" "v_start v < addr" "hi = finish" "finish < v_end v"
      by (auto simp: hi_def lo_def min_def max_def split: if_splits)
    obtain j s2 where j: "split = Some j" and s2: "mmap_object_get (v_object v) s1 = Ok s2"
      and st: "st' = (vs[j := vma_back v finish, i := vma_front v addr], None, s2)"
      using run1 both h by (auto simp: rmap_Ok_iff split: option.splits)
    have "obj_refs s2 q = obj_refs s q + of_bool (v_object v = Some q)" for q
      using get_refs [OF s2, of q] r1 by auto
    with split [OF j] show ?thesis unfolding st j
      by (intro unmap_post_split [OF ok i _ _ v_def u(1) h(2) range(1) h(4) range(2,3)]) auto
  qed
qed

lemma unmap_loop:
  assumes "areas_ok sz vs" "\<And>j. split = Some j \<Longrightarrow> j < length vs \<and> \<not> v_used (vs ! j)"
    "addr < finish" "page_aligned addr" "page_aligned finish" "m \<le> length vs"
    "\<And>j. j < m \<Longrightarrow> \<not> vma_overlaps (vs ! j) addr finish"
    "rfold (unmap_area k fe p addr finish) [m..<length vs] (vs, split, s) = Ok (vs', split', s')"
  shows "areas_ok sz vs' \<and> length vs' = length vs \<and> (\<forall>va. outside addr finish va \<longrightarrow> vma_view vs' va = vma_view vs va) \<and>
    (\<forall>j < length vs. \<not> vma_overlaps (vs' ! j) addr finish) \<and> (\<forall>q. obj_refs s' q - area_refs vs' q = obj_refs s q - area_refs vs q)"
  using assms
proof (induction "length vs - m" arbitrary: m vs split s)
  case (Suc n)
  then have m: "m < length vs" "[m..<length vs] = m # [Suc m..<length vs]" by (simp_all add: upt_conv_Cons)
  obtain vs1 split1 s1 where run: "unmap_area k fe p addr finish m (vs, split, s) = Ok (vs1, split1, s1)"
    and rest: "rfold (unmap_area k fe p addr finish) [Suc m..<length vs] (vs1, split1, s1) = Ok (vs', split', s')"
    using Suc.prems(8) m(2) by (auto simp: rbind_Ok_iff)
  have post: "unmap_post sz addr finish m (vs, split, s) (vs1, split1, s1)"
    using unmap_area_step [OF Suc.prems(1) m(1) Suc.prems(2-5) run] by blast
  then have len: "length vs1 = length vs" by (simp add: unmap_post_def)
  have past: "\<not> vma_overlaps (vs1 ! j) addr finish" if "j < Suc m" for j
    using post that Suc.prems(7) m(1) by (cases "j = m") (auto simp: unmap_post_def)
  have split1: "j < length vs1 \<and> \<not> v_used (vs1 ! j)" if "split1 = Some j" for j
    using post that Suc.prems(2) len by (auto simp: unmap_post_def)
  have ok1: "areas_ok sz vs1" using post by (simp add: unmap_post_def)
  have "n = length vs1 - Suc m" "Suc m \<le> length vs1" using Suc.hyps(2) m(1) len by auto
  from Suc.hyps(1) [OF this(1) ok1 split1 Suc.prems(3-5) this(2) past] rest post len
  show ?case by (simp add: unmap_post_def)
qed simp

lemma if_Ok_elim:
  assumes "(if c then m else n) = Ok x" "c \<Longrightarrow> m = Ok x \<Longrightarrow> P" "\<not> c \<Longrightarrow> n = Ok x \<Longrightarrow> P"
  shows P
  using assms by (simp split: if_splits)

definition split_slot :: "vma_area list \<Rightarrow> u64 \<Rightarrow> u64 \<Rightarrow> nat option" where
  "split_slot vs addr finish =
     (if \<exists>v \<in> set (filter (\<lambda>v. vma_overlaps v addr finish) vs). v_start v < addr \<and> finish < v_end v then vma_find_free vs else None)"

lemma vma_unmap_cases:
  assumes "vma_unmap k fe p addr len s = Ok (r, p', s')" and "\<not> (p' = p \<and> r = -1 \<and> mm_obj s' = mm_obj s)"
  shows "len \<noteq> 0 \<and> addr mod PGSIZE = 0 \<and> addr < MMAP_TOP \<and> len \<le> MMAP_TOP - addr \<and> (\<exists>r1 s1 vs2 sp2.
    unmap_writeback k fe p addr (PGROUNDUP (addr + len)) (p_vmas p) s = Ok (r1, s1) \<and> r = 0 \<and> p' = p\<lparr>p_vmas := vs2\<rparr> \<and>
    rfold (unmap_area k fe p addr (PGROUNDUP (addr + len))) [0..<length (p_vmas p)]
      (p_vmas p, split_slot (p_vmas p) addr (PGROUNDUP (addr + len)), s1) = Ok (vs2, sp2, s'))"
proof -
  note run = assms(1) [unfolded vma_unmap_def Let_def split_slot_def [symmetric]]
  show ?thesis
  proof (rule run [THEN if_Ok_elim])
    assume "Ok (-1, p, s) = Ok (r, p', s')"
    then show ?thesis using assms(2) by simp
  next
    assume a: "\<not> (len = 0 \<or> addr mod PGSIZE \<noteq> 0 \<or> MMAP_TOP \<le> addr)"
      and run: "(if MMAP_TOP - addr < len then Ok (-1, p, s)
        else if MMAP_TOP < PGROUNDUP (addr + len) then Ok (-1, p, s)
        else if filter (\<lambda>v. vma_overlaps v addr (PGROUNDUP (addr + len))) (p_vmas p) = [] then Ok (-1, p, s)
        else if (\<exists>v \<in> set (filter (\<lambda>v. vma_overlaps v addr (PGROUNDUP (addr + len))) (p_vmas p)). v_start v < addr \<and> PGROUNDUP (addr + len) < v_end v) \<and>
          split_slot (p_vmas p) addr (PGROUNDUP (addr + len)) = None then Ok (-1, p, s)
        else rbind (unmap_writeback k fe p addr (PGROUNDUP (addr + len)) (p_vmas p) s) (\<lambda>(r, s1).
           if r < 0 then Ok (-1, p, s1)
           else rmap (\<lambda>(vs2, _, s2). (0, p\<lparr>p_vmas := vs2\<rparr>, s2))
                  (rfold (unmap_area k fe p addr (PGROUNDUP (addr + len))) [0..<length (p_vmas p)]
                    (p_vmas p, split_slot (p_vmas p) addr (PGROUNDUP (addr + len)), s1)))) = Ok (r, p', s')"
    from run show ?thesis
      apply (elim if_Ok_elim)
          apply (use assms(2) in simp)
         apply (use assms(2) in simp)
        apply (use assms(2) in simp)
       apply (use assms(2) in simp)
      using a assms(2) by (auto simp: rbind_Ok_iff rmap_Ok_iff not_le not_less split: if_splits dest: unmap_writeback_obj)
  qed
qed

text \<open>
  C17: \<^verbatim>\<open>vma_unmap\<close> on a table that satisfies the invariant. When it returns 0, the address map has lost exactly the page range of the
  arguments, wherever that cuts areas, and all offsets, protections and valid lengths elsewhere are kept; the reference
  counts still agree with the areas. When it returns \<^verbatim>\<open>-1\<close> no area has changed.
\<close>

theorem vma_unmap_correct:
  assumes ok: "areas_ok sz (p_vmas p)" and run: "vma_unmap k fe p addr len s = Ok (r, p', s')"
  shows "areas_ok sz (p_vmas p') \<and>
    (\<forall>q. obj_refs s' q - area_refs (p_vmas p') q = obj_refs s q - area_refs (p_vmas p) q) \<and>
    (if r = 0 then page_aligned addr \<and> addr < PGROUNDUP (addr + len) \<and>
       (\<forall>va. vma_view (p_vmas p') va = (if addr \<le> va \<and> va < PGROUNDUP (addr + len) then None else vma_view (p_vmas p) va))
     else r = -1 \<and> p' = p)"
proof -
  let ?finish = "PGROUNDUP (addr + len)" and ?vs = "p_vmas p"
  show ?thesis
  proof (cases "p' = p \<and> r = -1 \<and> mm_obj s' = mm_obj s")
    case True
    then show ?thesis using ok obj_refs_cong [of s' s] by simp
  next
    case False
    let ?split = "split_slot ?vs addr ?finish"
    from vma_unmap_cases [OF run False] obtain r1 s1 vs2 sp2
      where arg: "len \<noteq> 0" "addr mod PGSIZE = 0" "addr < MMAP_TOP" "len \<le> MMAP_TOP - addr"
      and wb: "unmap_writeback k fe p addr ?finish ?vs s = Ok (r1, s1)"
      and fold: "rfold (unmap_area k fe p addr ?finish) [0..<length ?vs] (?vs, ?split, s1) = Ok (vs2, sp2, s')"
      and r: "r = 0" "p' = p\<lparr>p_vmas := vs2\<rparr>"
      by (elim conjE exE)
    have n: "unat len \<le> 2146435072 - unat addr" "unat addr < 2146435072" "0 < unat len"
      using arg by (simp_all add: word_nat unat_sub unat_gt_0)
    then have sum: "unat (addr + len) = unat addr + unat len" by (simp add: unat_plus_if')
    have lt: "addr < ?finish" using n sum by (simp add: word_less_nat_alt unat_PGROUNDUP)
    have al: "page_aligned addr" using arg(2) by (simp add: page_aligned_def)
    have sp: "j < length ?vs \<and> \<not> v_used (?vs ! j)" if "?split = Some j" for j
      using that by (auto simp: split_slot_def vma_find_free_def find_slot_Some split: if_splits)
    from unmap_loop [OF ok sp lt al page_aligned_PGROUNDUP _ _ fold]
    have post: "areas_ok sz vs2" "length vs2 = length ?vs" "\<And>va. outside addr ?finish va \<Longrightarrow> vma_view vs2 va = vma_view ?vs va"
      "\<And>j. j < length ?vs \<Longrightarrow> \<not> vma_overlaps (vs2 ! j) addr ?finish"
      "\<And>q. obj_refs s' q - area_refs vs2 q = obj_refs s1 q - area_refs ?vs q" by auto
    have "obj_refs s1 = obj_refs s" using unmap_writeback_obj [OF wb] by (rule obj_refs_cong)
    moreover have "vma_view vs2 va = (if addr \<le> va \<and> va < ?finish then None else vma_view ?vs va)" for va
    proof (cases "outside addr ?finish va")
      case True
      then show ?thesis using post(3) [OF True] by (auto simp: outside_def)
    next
      case False
      then have "addr \<le> va" "va < ?finish" by (auto simp: outside_def)
      with not_overlaps_contains [OF post(4)] post(2) show ?thesis by (simp add: vma_view_None)
    qed
    ultimately show ?thesis using post r al lt by simp
  qed
qed

section \<open>Fork and exit\<close>

lemma find_slot_cong: "length xs = length ys \<Longrightarrow> (\<And>i. i < length xs \<Longrightarrow> P (xs ! i) = P (ys ! i)) \<Longrightarrow> find_slot P xs = find_slot P ys"
  by (auto simp: find_slot_def intro: first_idx_cong)

lemma area_refs_used: "\<forall>v \<in> set vs. \<not> v_used v \<Longrightarrow> area_refs vs q = 0"
  by (simp add: area_refs_def refers_def)

lemma destroy_area_step:
  assumes i: "i < length vs" and run: "destroy_area k fe p i (vs, s) = Ok (vs', s')"
  shows "length vs' = length vs" "\<not> v_used (vs' ! i)" "\<And>j. j \<noteq> i \<Longrightarrow> vs' ! j = vs ! j"
    "obj_refs s' q - area_refs vs' q = obj_refs s q - area_refs vs q"
proof -
  have "length vs' = length vs \<and> \<not> v_used (vs' ! i) \<and> (\<forall>j. j \<noteq> i \<longrightarrow> vs' ! j = vs ! j) \<and>
    (\<forall>q. obj_refs s' q - area_refs vs' q = obj_refs s q - area_refs vs q)"
  proof (cases "v_used (vs ! i)")
    case False
    with run show ?thesis by (simp add: destroy_area_def)
  next
    case True
    let ?v = "vs ! i"
    obtain s1 s2 where s1: "(if p_pagetable p \<noteq> 0 then rmap snd (mmap_file_writeback_range k fe p ?v (v_start ?v) (v_end ?v) s) else Ok s) = Ok s1"
      and s2: "(if p_pagetable p \<noteq> 0 \<and> p_kpagetable p \<noteq> 0 then with_k (vma_unmap_pages k p (v_start ?v) (v_end ?v)) s1 else Ok s1) = Ok s2"
      and s3: "(case v_object ?v of None \<Rightarrow> Ok s2 | Some q \<Rightarrow> mmap_object_put k fe q s2) = Ok s'" and vs': "vs' = vs[i := vma_zero]"
      using run True unfolding destroy_area_def Let_def prod.case by (auto simp: rbind_Ok_iff rmap_Ok_iff)
    have "mm_obj s1 = mm_obj s" using s1 by (auto simp: rmap_Ok_iff split: if_splits dest: writeback_range_obj)
    moreover have "mm_obj s2 = mm_obj s1" using s2 by (auto split: if_splits)
    ultimately have "obj_refs s2 = obj_refs s" by (intro obj_refs_cong) simp
    with put_opt_refs [OF s3] True i show ?thesis
      by (auto simp: vs' area_refs_update refers_def vma_zero_def)
  qed
  then show "length vs' = length vs" "\<not> v_used (vs' ! i)" "\<And>j. j \<noteq> i \<Longrightarrow> vs' ! j = vs ! j"
    "obj_refs s' q - area_refs vs' q = obj_refs s q - area_refs vs q" by blast+
qed

lemma destroy_loop:
  assumes "rfold (destroy_area k fe p) [m..<length vs] (vs, s) = Ok (vs', s')" "m \<le> length vs" "\<And>j. j < m \<Longrightarrow> \<not> v_used (vs ! j)"
  shows "length vs' = length vs \<and> (\<forall>v \<in> set vs'. \<not> v_used v) \<and> (\<forall>q. obj_refs s' q - area_refs vs' q = obj_refs s q - area_refs vs q)"
  using assms
proof (induction "length vs - m" arbitrary: m vs s)
  case 0
  then show ?case by (auto simp: all_set_conv_all_nth)
next
  case (Suc n)
  then have m: "m < length vs" "[m..<length vs] = m # [Suc m..<length vs]" by (simp_all add: upt_conv_Cons)
  obtain vs1 s1 where run: "destroy_area k fe p m (vs, s) = Ok (vs1, s1)"
    and rest: "rfold (destroy_area k fe p) [Suc m..<length vs] (vs1, s1) = Ok (vs', s')"
    using Suc.prems(1) m(2) by (auto simp: rbind_Ok_iff)
  note step = destroy_area_step [OF m(1) run]
  have past: "\<not> v_used (vs1 ! j)" if "j < Suc m" for j
    using step that Suc.prems(3) [of j] by (cases "j = m") auto
  have "n = length vs1 - Suc m" "Suc m \<le> length vs1" using Suc.hyps(2) m(1) step(1) by auto
  from Suc.hyps(1) [OF this(1) _ this(2) past] rest step show ?case by simp
qed

lemma vma_destroy_all_ok:
  assumes "vma_destroy_all k fe p s = Ok (p', s')"
  shows "\<forall>v \<in> set (p_vmas p'). \<not> v_used v" "length (p_vmas p') = length (p_vmas p)"
    "obj_refs s' q = obj_refs s q - area_refs (p_vmas p) q"
proof -
  obtain vs where fold: "rfold (destroy_area k fe p) [0..<length (p_vmas p)] (p_vmas p, s) = Ok (vs, s')" and p': "p' = p\<lparr>p_vmas := vs\<rparr>"
    using assms by (auto simp: vma_destroy_all_def rmap_Ok_iff)
  from destroy_loop [OF fold] have "length vs = length (p_vmas p)" "\<forall>v \<in> set vs. \<not> v_used v"
    "\<And>q. obj_refs s' q - area_refs vs q = obj_refs s q - area_refs (p_vmas p) q" by auto
  with p' area_refs_used [of vs q] show "\<forall>v \<in> set (p_vmas p'). \<not> v_used v" "length (p_vmas p') = length (p_vmas p)"
    "obj_refs s' q = obj_refs s q - area_refs (p_vmas p) q" by (auto simp: algebra_simps)
qed

lemma fork_areas_ok:
  assumes "fork_areas vs cs s = Ok (rs, s')" "length vs = length cs"
  shows "length rs = length vs \<and> (\<forall>i < length vs. rs ! i = (if v_used (vs ! i) then vs ! i else cs ! i)) \<and>
    (\<forall>q. obj_refs s' q = obj_refs s q + area_refs vs q)"
  using assms
proof (induction vs cs s arbitrary: rs s' rule: fork_areas.induct)
  case (1 v vs c cs s)
  show ?case
  proof (cases "v_used v")
    case False
    with 1 show ?thesis by (auto simp: rmap_Ok_iff area_refs_def refers_def nth_Cons split: nat.splits)
  next
    case True
    obtain s1 rs1 where s1: "mmap_object_get (v_object v) s = Ok s1" and rest: "fork_areas vs cs s1 = Ok (rs1, s')" and rs: "rs = v # rs1"
      using "1.prems"(1) True by (auto simp: rbind_Ok_iff rmap_Ok_iff)
    note ih = "1.IH"(2) [OF _ s1 rest] and get = get_refs [OF s1]
    have "obj_refs s1 q = obj_refs s q + of_bool (v_object v = Some q)" for q using get [of q] by auto
    with ih True "1.prems"(2) rs show ?thesis
      by (auto simp: area_refs_def refers_def nth_Cons split: nat.splits)
  qed
qed (auto simp: area_refs_def)

lemma vma_fork_cases:
  assumes "vma_fork k fe parent child s = Ok (r, child', s')"
  shows "\<exists>vs s1 k2. fork_areas (p_vmas parent) (p_vmas child) s = Ok (vs, s1) \<and>
    (r = 0 \<and> child' = child\<lparr>p_vmas := vs\<rparr> \<and> s' = s1\<lparr>mm_k := k2\<rparr> \<or>
     r = -1 \<and> vma_destroy_all k fe (child\<lparr>p_vmas := vs\<rparr>) (s1\<lparr>mm_k := k2\<rparr>) = Ok (child', s'))"
proof -
  obtain vs s1 where fa: "fork_areas (p_vmas parent) (p_vmas child) s = Ok (vs, s1)"
    using assms by (cases "fork_areas (p_vmas parent) (p_vmas child) s") (auto simp: vma_fork_def)
  let ?pages = "concat (map (\<lambda>v. map (Pair v) (page_list (v_start v) (v_end v))) (filter v_used (p_vmas parent)))"
  obtain r1 k2 where fp: "fork_pages k parent (child\<lparr>p_vmas := vs\<rparr>) ?pages (mm_k s1) = Ok (r1, k2)"
    using assms fa by (cases "fork_pages k parent (child\<lparr>p_vmas := vs\<rparr>) ?pages (mm_k s1)") (auto simp: vma_fork_def Let_def)
  show ?thesis
  proof (cases "r1 < 0")
    case True
    with assms fa fp show ?thesis by (auto simp: vma_fork_def Let_def rmap_Ok_iff simp del: fork_pages.simps)
  next
    case False
    with assms fa fp show ?thesis by (auto simp: vma_fork_def Let_def simp del: fork_pages.simps)
  qed
qed

text \<open>
  \<^verbatim>\<open>vma_fork\<close> into a child without areas. When it returns 0, the child has the address map of the parent, and each object counts
  one more reference per area of the parent that shares it; when it returns \<^verbatim>\<open>-1\<close>, the child has no area left and all reference counts are
  as before.
\<close>

theorem vma_fork_shares_objects:
  assumes "length (p_vmas child) = length (p_vmas parent)" "\<forall>v \<in> set (p_vmas child). \<not> v_used v"
    and run: "vma_fork k fe parent child s = Ok (r, child', s')"
  shows "if r = 0 then vma_view (p_vmas child') = vma_view (p_vmas parent) \<and> (\<forall>q. obj_refs s' q = obj_refs s q + area_refs (p_vmas parent) q)
    else r = -1 \<and> (\<forall>v \<in> set (p_vmas child'). \<not> v_used v) \<and> (\<forall>q. obj_refs s' q = obj_refs s q)"
proof -
  obtain vs s1 k2 where fa: "fork_areas (p_vmas parent) (p_vmas child) s = Ok (vs, s1)"
    and fp: "r = 0 \<and> child' = child\<lparr>p_vmas := vs\<rparr> \<and> s' = s1\<lparr>mm_k := k2\<rparr> \<or>
      r = -1 \<and> vma_destroy_all k fe (child\<lparr>p_vmas := vs\<rparr>) (s1\<lparr>mm_k := k2\<rparr>) = Ok (child', s')"
    using vma_fork_cases [OF run] by blast
  note ok = fork_areas_ok [OF fa assms(1) [symmetric]]
  have refs: "obj_refs (s1\<lparr>mm_k := k2\<rparr>) = obj_refs s1" by (rule obj_refs_cong) simp
  have same: "area_refs vs q = area_refs (p_vmas parent) q" for q
  proof -
    have "map (refers q) vs = map (refers q) (p_vmas parent)"
      using ok assms(1,2) by (intro nth_equalityI) (auto simp: refers_def all_set_conv_all_nth)
    then have "length (filter (\<lambda>b. b) (map (refers q) vs)) = length (filter (\<lambda>b. b) (map (refers q) (p_vmas parent)))" by simp
    then show ?thesis by (simp add: area_refs_def filter_map comp_def)
  qed
  show ?thesis
  proof (cases "r = 0")
    case False
    then have d: "vma_destroy_all k fe (child\<lparr>p_vmas := vs\<rparr>) (s1\<lparr>mm_k := k2\<rparr>) = Ok (child', s')" and "r = -1" using fp by auto
    with vma_destroy_all_ok [OF d] refs same ok show ?thesis by simp
  next
    case True
    have "vma_contains va (vs ! i) = vma_contains va (p_vmas parent ! i)" if "i < length vs" for i va
      using ok that assms(1,2) by (auto simp: vma_contains_def all_set_conv_all_nth)
    then have "find_slot (vma_contains va) vs = find_slot (vma_contains va) (p_vmas parent)" for va
      using ok by (intro find_slot_cong) auto
    moreover have "vs ! i = p_vmas parent ! i" if "find_slot (vma_contains va) (p_vmas parent) = Some i" for i va
      using that ok by (auto simp: find_slot_Some vma_contains_def)
    ultimately have "vma_view vs va = vma_view (p_vmas parent) va" for va
      by (cases "find_slot (vma_contains va) (p_vmas parent)") (auto simp: vma_view_def mmap_vma_find_def)
    with True fp ok refs show ?thesis by auto
  qed
qed

section \<open>Witnesses\<close>

text \<open>A process with one area of three pages whose object it holds alone, and an empty page table.\<close>

definition demo_area :: vma_area where
  "demo_area = new_area 0x7FEFD000 0x2800 3 0x22 VMA_ANON (Some 0) OPS_ANON 0"

definition demo_proc :: proc where
  "demo_proc = proc_zero\<lparr>p_vmas := [demo_area, vma_zero]\<rparr>"

definition demo_mm :: "unit mm" where
  "demo_mm = \<lparr>mm_k = \<lparr>km_mem = (\<lambda>_. 0), km_freelist = (\<lambda>_. 0), km_quota = (\<lambda>_. 0)\<rparr>,
     mm_obj = (\<lambda>q. if q = 0 then Some \<lparr>o_refcnt = 1, o_type = VMA_ANON, o_file = None, o_anon = None, o_kbuf = None\<rparr> else None),
     mm_next = 1, mm_kmalloc = [], mm_x = ()\<rparr>"

definition no_files :: "unit fenv" where
  "no_files = \<lparr>fe_entry = (\<lambda>_ _. False), fe_mmap_device = (\<lambda>_ _. False), fe_readable = (\<lambda>_ _. False), fe_writable = (\<lambda>_ _. False),
     fe_dup = (\<lambda>_ x. Ok x), fe_close = (\<lambda>_ x. Ok x), fe_read_at = (\<lambda>_ _ _ _ m x. Ok (-1, m, x)), fe_write_at = (\<lambda>_ _ _ _ _ x. Ok (-1, x)),
     fe_mmap = (\<lambda>_ v _ x. (-1, v, x))\<rparr>"

lemma demo_area_simps:
  "v_used demo_area" "v_type demo_area = VMA_ANON" "v_start demo_area = 0x7FEFD000" "v_end demo_area = 0x7FF00000"
  "v_valid_end demo_area = 0x7FEFF800" "v_object demo_area = Some 0" "v_offset demo_area = 0"
  by (simp_all add: demo_area_def new_area_def vma_zero_def PGROUNDUP_def)

lemma demo_vmas [simp]: "p_vmas demo_proc = [demo_area, vma_zero]" "\<not> v_used vma_zero"
  by (simp_all add: demo_proc_def vma_zero_def)

lemma demo_areas_ok: "areas_ok 0x1000 (p_vmas demo_proc)"
  by (auto simp: areas_ok_def demo_proc_def area_ok_def apart_def demo_area_simps page_aligned_def PGROUNDUP_def less_Suc_eq)

lemma walk_empty: "km_mem s = (\<lambda>_. 0) \<Longrightarrow> va < MAXVA \<Longrightarrow> walk k pt va False s = Ok (0, s)"
  by (auto simp: walk_def numeral_2_eq_2 Let_def)

lemma uvmunmap_empty:
  assumes "km_mem s = (\<lambda>_. 0)" "va < MAXVA" "va mod PGSIZE = 0"
  shows "uvmunmap k pt va 1 f s = Ok s"
  using assms by (simp add: uvmunmap_def uvmunmap_loop.simps [of k pt va] uvmunmap_loop.simps [of k pt "va + PGSIZE"] walk_empty add.commute)

lemma page_list_one: "page_list a (a + 4096) = (if a < a + 4096 then [a] else [])"
  by (auto simp: page_list_def page_count_def)

theorem mmap_map_create_correct_witness:
  "\<exists>vs'. mmap_map_create 0x1000 [demo_area, vma_zero] 0 5000 1 2 VMA_FILE (Some 1) OPS_FILE 0x2000 = (0x7FEFB000, vs') \<and>
     areas_ok 0x1000 vs' \<and> vma_view vs' 0x7FEFC010 = Some (VMA_FILE, Some 1, OPS_FILE, 1, 2, 0x3010, True) \<and>
     vma_view vs' 0x7FEFD000 = vma_view [demo_area, vma_zero] 0x7FEFD000"
proof -
  let ?vs = "[demo_area, vma_zero]"
  have find: "vma_find_address 0x1000 ?vs 0x2000 = 0x7FEFB000"
    by (simp add: vma_find_address_def PGROUNDUP_def find_address_loop.simps [of _ _ _ "0x7FF00000"]
      find_address_loop.simps [of _ _ _ "0x7FEFD000"] vma_overlaps_def demo_area_simps)
  have run: "mmap_map_create 0x1000 ?vs 0 5000 1 2 VMA_FILE (Some 1) OPS_FILE 0x2000 =
      (0x7FEFB000, ?vs[1 := new_area 0x7FEFB000 5000 1 2 VMA_FILE (Some 1) OPS_FILE 0x2000])"
    unfolding mmap_map_create_eq
    by (simp add: Let_def find PGROUNDUP_def vma_find_free_def find_slot_def demo_area_simps map_args_ok_def)
  have "areas_ok 0x1000 ?vs" using demo_areas_ok by (simp add: demo_proc_def)
  from mmap_map_create_correct [OF this run] run show ?thesis by (simp add: PGROUNDUP_def)
qed

theorem vma_unmap_correct_witness:
  "\<exists>p' s'. vma_unmap vm_env no_files demo_proc 0x7FEFE000 0x1000 demo_mm = Ok (0, p', s') \<and> areas_ok 0x1000 (p_vmas p') \<and>
     vma_view (p_vmas p') 0x7FEFE123 = None \<and> vma_view (p_vmas p') 0x7FEFF000 = vma_view (p_vmas demo_proc) 0x7FEFF000 \<and>
     obj_refs s' 0 - area_refs (p_vmas p') 0 = 0"
proof -
  have k: "km_mem (mm_k demo_mm) = (\<lambda>_. 0)" by (simp add: demo_mm_def)
  have pages: "vma_unmap_pages vm_env demo_proc 0x7FEFE000 0x7FEFF000 (mm_k demo_mm) = Ok (mm_k demo_mm)"
    using page_list_one [of "0x7FEFE000"] uvmunmap_empty [OF k, of "0x7FEFE000"] by (simp add: vma_unmap_pages_def)
  obtain s1 where get: "mmap_object_get (Some 0) demo_mm = Ok s1"
    by (simp add: mmap_object_get_def the_obj_def demo_mm_def)
  have run: "vma_unmap vm_env no_files demo_proc 0x7FEFE000 0x1000 demo_mm =
    Ok (0, demo_proc\<lparr>p_vmas := [vma_front demo_area 0x7FEFE000, vma_back demo_area 0x7FEFF000]\<rparr>, s1)"
    using pages get
    by (simp add: vma_unmap_def Let_def PGROUNDUP_def demo_area_simps vma_overlaps_def mmap_file_writeback_range_def
      vma_find_free_def find_slot_def unmap_area_def with_k_def vma_back_def)
  have "area_refs (p_vmas demo_proc) 0 = 1" "obj_refs demo_mm 0 = 1"
    by (simp_all add: area_refs_def refers_def demo_area_simps obj_refs_def demo_mm_def)
  then have refs: "obj_refs s1 0 - area_refs [vma_front demo_area 0x7FEFE000, vma_back demo_area 0x7FEFF000] 0 = 0"
    using vma_unmap_correct [OF demo_areas_ok run] by simp
  have view: "areas_ok 0x1000 [vma_front demo_area 0x7FEFE000, vma_back demo_area 0x7FEFF000]"
    "vma_view [vma_front demo_area 0x7FEFE000, vma_back demo_area 0x7FEFF000] va =
      (if 0x7FEFE000 \<le> va \<and> va < 0x7FEFF000 then None else vma_view (p_vmas demo_proc) va)" for va
    using vma_unmap_correct [OF demo_areas_ok run] by (simp_all add: PGROUNDUP_def)
  show ?thesis by (intro exI conjI, rule run) (simp_all add: refs [simplified] view)
qed

theorem vma_fork_shares_objects_witness:
  "\<exists>child' s'. vma_fork vm_env no_files demo_proc (proc_zero\<lparr>p_vmas := [vma_zero, vma_zero]\<rparr>) demo_mm = Ok (0, child', s') \<and>
     vma_view (p_vmas child') = vma_view (p_vmas demo_proc) \<and> obj_refs s' 0 = 2"
proof -
  let ?child = "proc_zero\<lparr>p_vmas := [vma_zero, vma_zero]\<rparr>"
  have k: "km_mem (mm_k demo_mm) = (\<lambda>_. 0)" by (simp add: demo_mm_def)
  obtain s1 where get: "mmap_object_get (Some 0) demo_mm = Ok s1" and mk: "mm_k s1 = mm_k demo_mm"
    by (simp add: mmap_object_get_def the_obj_def demo_mm_def set_obj_def)
  have pages: "page_list 0x7FEFD000 0x7FF00000 = [0x7FEFD000, 0x7FEFE000, 0x7FEFF000]"
    by (simp add: page_list_def page_count_def upt_rec)
  have "fork_page vm_env demo_proc c v a (mm_k demo_mm) = Ok (0, mm_k demo_mm)" if "a < MAXVA" for c v a
    using walk_empty [OF k that] by (simp add: fork_page_def pte_present_def)
  then have run: "vma_fork vm_env no_files demo_proc ?child demo_mm =
      Ok (0, ?child\<lparr>p_vmas := [demo_area, vma_zero]\<rparr>, s1\<lparr>mm_k := mm_k demo_mm\<rparr>)"
    using get mk pages by (simp add: vma_fork_def Let_def demo_area_simps)
  have "area_refs (p_vmas demo_proc) 0 = 1" "obj_refs demo_mm 0 = 1"
    by (simp_all add: area_refs_def refers_def demo_area_simps obj_refs_def demo_mm_def)
  moreover have "length (p_vmas ?child) = length (p_vmas demo_proc)" "\<forall>v \<in> set (p_vmas ?child). \<not> v_used v"
    by simp_all
  note vma_fork_shares_objects [OF this run]
  ultimately have "vma_view [demo_area, vma_zero] = vma_view (p_vmas demo_proc)" "obj_refs (s1\<lparr>mm_k := mm_k demo_mm\<rparr>) 0 = 2" by auto
  note shared = this
  show ?thesis by (intro exI conjI, rule run) (use shared in simp_all)
qed

end
