(* ===== verification/FaultCow.thy ===== *)
theory FaultCow
  imports VmFault MmapAreas
begin

text \<open>
  What a write to a copy-on-write page does: the page table of the process and its kernel copy (\<open>two_ok\<close>) stay well formed,
  the page becomes writable and private with the same contents, and the frame that was shared is not
  written.
\<close>

section \<open>Bits of an entry\<close>

lemma and_exp_bit: "(w :: u64) AND 2 ^ n \<noteq> 0 \<longleftrightarrow> bit w n"
  by (simp add: bit_iff_and_push_bit_not_eq_0 push_bit_of_1)

lemma pte_bits:
  "(w :: u64) AND 1 \<noteq> 0 \<longleftrightarrow> bit w 0" "w AND 2 \<noteq> 0 \<longleftrightarrow> bit w 1" "w AND 4 \<noteq> 0 \<longleftrightarrow> bit w 2"
  "w AND 8 \<noteq> 0 \<longleftrightarrow> bit w 3" "w AND 16 \<noteq> 0 \<longleftrightarrow> bit w 4" "w AND 256 \<noteq> 0 \<longleftrightarrow> bit w 8"
  using and_exp_bit [of w 0] and_exp_bit [of w 1] and_exp_bit [of w 2] and_exp_bit [of w 3] and_exp_bit [of w 4] and_exp_bit [of w 8]
  by simp_all

lemma pte_clear: "(w :: u64) AND 1 = 0 \<longleftrightarrow> \<not> bit w 0" "w AND 256 = 0 \<longleftrightarrow> \<not> bit w 8" "w AND 16 = 0 \<longleftrightarrow> \<not> bit w 4"
  using pte_bits by blast+

lemma bit_lt64: "bit (w :: u64) n \<Longrightarrow> n < 64"
  using bit_imp_le_length by force

lemma bit_low10: "bit (0x3FF :: u64) n \<longleftrightarrow> n < 10"
  using bit_mask_iff [where 'a = "64 word", of 10 n] by (auto simp: mask_eq_exp_minus_1)

lemma bit_not64: "bit (NOT (w :: u64)) n \<longleftrightarrow> n < 64 \<and> \<not> bit w n"
  using bit_not_iff [of w n] by simp

lemmas bit_ops = bit_and_iff bit_or_iff bit_not64

lemma bit_exp: "bit (1 :: u64) n \<longleftrightarrow> n = 0" "bit (4 :: u64) n \<longleftrightarrow> n = 2" "bit (16 :: u64) n \<longleftrightarrow> n = 4" "bit (256 :: u64) n \<longleftrightarrow> n = 8"
  using bit_exp_iff [where 'a = "64 word", of 0 n] bit_exp_iff [where 'a = "64 word", of 2 n]
    bit_exp_iff [where 'a = "64 word", of 4 n] bit_exp_iff [where 'a = "64 word", of 8 n]
  by auto

lemma PTE2PA_low: "(\<And>n. 10 \<le> n \<Longrightarrow> bit w n = bit (e :: u64) n) \<Longrightarrow> PTE2PA w = PTE2PA e"
  by (rule bit_eqI) (auto simp: PTE2PA_def bit_simps)

section \<open>Two page tables in one memory\<close>

definition keeps :: "kenv \<Rightarrow> kmem \<Rightarrow> kmem \<Rightarrow> bool" where
  "keeps k s s' \<longleftrightarrow> kalloc_inv (ke_end k) s' \<and>
     (\<forall>q. used_frame k s q \<longrightarrow> krefs s' q = krefs s q \<and> (\<forall>a. in_page q a \<longrightarrow> km_mem s' a = km_mem s a))"

lemma table_frame:
  assumes ok: "vm_ok k s u" and inv: "kalloc_inv (ke_end k) s'"
    and same: "\<And>p. p \<in> pt_tables (km_mem s) u \<Longrightarrow> used_frame k s p \<Longrightarrow>
      used_frame k s' p \<and> (\<forall>a. in_page p a \<longrightarrow> km_mem s' a = km_mem s a)"
  shows "vm_ok k s' u" "pte_of (km_mem s') u = pte_of (km_mem s) u" "node0 (km_mem s') u = node0 (km_mem s) u"
    "pt_tables (km_mem s') u = pt_tables (km_mem s) u"
proof -
  have h: "ke_hart k < NCPU" and wf: "pt_wf (km_mem s) u" and used: "\<And>p. p \<in> pt_tables (km_mem s) u \<Longrightarrow> used_frame k s p"
    using ok by (auto simp: vm_ok_def)
  have "km_mem s' a = km_mem s a" if "p \<in> pt_tables (km_mem s) u" "in_page p a" for p a
    using same [OF that(1) used [OF that(1)]] that(2) by blast
  note F = pt_frame [OF pt_wfD(1) [OF wf] this]
  show "pte_of (km_mem s') u = pte_of (km_mem s) u" "node0 (km_mem s') u = node0 (km_mem s) u"
    "pt_tables (km_mem s') u = pt_tables (km_mem s) u" using F(2-4) by auto
  show "vm_ok k s' u" using h inv wf same used F(4,5) by (simp add: vm_ok_def)
qed

definition two_ok :: "kenv \<Rightarrow> kmem \<Rightarrow> u64 \<Rightarrow> u64 \<Rightarrow> bool" where
  "two_ok k s u r \<longleftrightarrow> vm_ok k s u \<and> vm_ok k s r \<and> pt_tables (km_mem s) u \<inter> pt_tables (km_mem s) r = {}"

lemma two_ok_sym: "two_ok k s u r \<Longrightarrow> two_ok k s r u"
  by (auto simp: two_ok_def)

lemma two_keeps:
  assumes "two_ok k s u r" "keeps k s s'"
  shows "two_ok k s' u r" "pte_of (km_mem s') u = pte_of (km_mem s) u" "node0 (km_mem s') u = node0 (km_mem s) u"
    "pte_of (km_mem s') r = pte_of (km_mem s) r" "node0 (km_mem s') r = node0 (km_mem s) r"
    "pt_tables (km_mem s') u = pt_tables (km_mem s) u" "pt_tables (km_mem s') r = pt_tables (km_mem s) r"
proof -
  have ok: "vm_ok k s u" "vm_ok k s r" and inv: "kalloc_inv (ke_end k) s'"
    and same: "\<And>p. used_frame k s p \<Longrightarrow> used_frame k s' p \<and> (\<forall>a. in_page p a \<longrightarrow> km_mem s' a = km_mem s a)"
    using assms by (auto simp: two_ok_def keeps_def used_frame_def)
  note U = table_frame [OF ok(1) inv same] and R = table_frame [OF ok(2) inv same]
  show "pte_of (km_mem s') u = pte_of (km_mem s) u" "node0 (km_mem s') u = node0 (km_mem s) u"
    "pte_of (km_mem s') r = pte_of (km_mem s) r" "node0 (km_mem s') r = node0 (km_mem s) r"
    "pt_tables (km_mem s') u = pt_tables (km_mem s) u" "pt_tables (km_mem s') r = pt_tables (km_mem s) r"
    using U R by auto
  then show "two_ok k s' u r" using U(1) R(1) assms(1) by (simp add: two_ok_def)
qed

text \<open>Writing a leaf entry of one table changes that table at one page and the other not at all.\<close>

lemma two_kset:
  assumes two: "two_ok k s u r" and p: "node0 (km_mem s) u va = Some p"
  shows "two_ok k (kset s (slot p 0 va) v) u r"
    "pte_of (km_mem (kset s (slot p 0 va) v)) u va' = (if same_idx va va' then v else pte_of (km_mem s) u va')"
    "node0 (km_mem (kset s (slot p 0 va) v)) u = node0 (km_mem s) u"
    "pte_of (km_mem (kset s (slot p 0 va) v)) r = pte_of (km_mem s) r"
    "node0 (km_mem (kset s (slot p 0 va) v)) r = node0 (km_mem s) r"
    "pt_tables (km_mem (kset s (slot p 0 va) v)) u = pt_tables (km_mem s) u"
    "pt_tables (km_mem (kset s (slot p 0 va) v)) r = pt_tables (km_mem s) r"
    "krefs (kset s (slot p 0 va) v) = krefs s"
    "used_frame k s q \<Longrightarrow> q \<notin> pt_tables (km_mem s) u \<Longrightarrow> in_page q a \<Longrightarrow> km_mem (kset s (slot p 0 va) v) a = km_mem s a"
proof -
  let ?s = "kset s (slot p 0 va) v"
  have ok: "vm_ok k s u" "vm_ok k s r" and dis: "pt_tables (km_mem s) u \<inter> pt_tables (km_mem s) r = {}"
    using two by (auto simp: two_ok_def)
  note L = kset_leaf [OF ok(1) p, of v]
  have wf: "pt_wf (km_mem s) u" using ok(1) by (simp add: vm_ok_def)
  note S = pt_set_leaf [OF wf p, of v]
  show "krefs ?s = krefs s" by (rule L(4))
  show pu: "pte_of (km_mem ?s) u va' = (if same_idx va va' then v else pte_of (km_mem s) u va')" by (rule L(3))
  show mem: "km_mem ?s a = km_mem s a" if "used_frame k s q" "q \<notin> pt_tables (km_mem s) u" "in_page q a" for q a
    using L(2) that by (auto simp: grows_def)
  have inv: "kalloc_inv (ke_end k) ?s" using L(1) by (simp add: vm_ok_def)
  have R: "vm_ok k ?s r" "pte_of (km_mem ?s) r = pte_of (km_mem s) r" "node0 (km_mem ?s) r = node0 (km_mem s) r"
    "pt_tables (km_mem ?s) r = pt_tables (km_mem s) r"
    using table_frame [OF ok(2) inv] mem dis L(4) by (auto simp: used_frame_def)
  then show "pte_of (km_mem ?s) r = pte_of (km_mem s) r" "node0 (km_mem ?s) r = node0 (km_mem s) r"
    "pt_tables (km_mem ?s) r = pt_tables (km_mem s) r" by auto
  show T: "pt_tables (km_mem ?s) u = pt_tables (km_mem s) u" "node0 (km_mem ?s) u = node0 (km_mem s) u"
    using S(2,4) by (simp_all add: kset_def)
  show "two_ok k ?s u r" using L(1) R(1,4) T(1) dis by (simp add: two_ok_def)
qed

section \<open>Entries whose table page exists\<close>

lemma walk_loop_node:
  assumes "node0 (km_mem s) root va = Some p"
  shows "walk_loop k va alloc 2 root s = (slot p 0 va, s)"
proof -
  obtain q where q: "pt_child (km_mem s) root 2 va = Some q" "pt_child (km_mem s) q 1 va = Some p"
    using assms by (auto simp: node0_def node1_def bind_eq_Some_conv)
  then show ?thesis by (auto simp: pt_child_def numeral_2_eq_2 Let_def split: if_splits)
qed

lemma walk_node: "node0 (km_mem s) root va = Some p \<Longrightarrow> va < MAXVA \<Longrightarrow> walk k root va alloc s = Ok (slot p 0 va, s)"
  by (simp add: walk_def walk_loop_node not_le)

lemma node_slot:
  assumes "vm_ok k s root" "node0 (km_mem s) root va = Some p"
  shows "slot p 0 va \<noteq> 0" "km_mem s (slot p 0 va) = pte_of (km_mem s) root va" "p \<in> pt_tables (km_mem s) root"
proof -
  have p: "p \<in> pt_tables (km_mem s) root" using assms(2) by (auto simp: pt_tables_def)
  then have "used_frame k s p" using assms(1) by (auto simp: vm_ok_def)
  then show "slot p 0 va \<noteq> 0" using slot_nonnull used_frame_aligned good_pages_bound by (auto simp: used_frame_def)
  show "km_mem s (slot p 0 va) = pte_of (km_mem s) root va" using assms(2) by (simp add: pte_of_def)
  show "p \<in> pt_tables (km_mem s) root" by (rule p)
qed

lemma page_below_maxva: "page < MAXUVA \<Longrightarrow> page < MAXVA"
  by (simp add: word_less_nat_alt)

lemma mappages_node:
  assumes ok: "vm_ok k s root" and page: "page_aligned page" "page < MAXUVA"
    and p: "node0 (km_mem s) root page = Some p" and v: "pte_of (km_mem s) root page AND PTE_V = 0"
  shows "mappages k root page PGSIZE pa perm s = Ok (0, kset s (slot p 0 page) (PA2PTE pa OR perm OR PTE_V))"
proof -
  have u: "unat (4095 + page) = unat page + 4095" using page(2) by (simp add: unat_word_ariths word_less_nat_alt)
  have "PGROUNDDOWN (page + PGSIZE - 1) = page"
    using page(1) u by (simp add: word_unat_eq_iff unat_PGROUNDDOWN page_aligned_unat mod_eq_0_iff_dvd dvd_def) auto
  then show ?thesis
    using page walk_node [OF p page_below_maxva [OF page(2)], of k True] node_slot [OF ok p] v
    by (simp add: mappages_def mappages_loop.simps [of k root page] Let_def)
qed

lemma sync_node:
  assumes two: "two_ok k s u r" and page: "page_aligned page" "page < MAXUVA"
    and p: "node0 (km_mem s) u page = Some p" and q: "node0 (km_mem s) r page = Some q" and v: "pte_of (km_mem s) u page AND PTE_V \<noteq> 0"
  shows "vm_sync_user_page k u r page s = Ok (0, kset s (slot q 0 page) (pte_of (km_mem s) u page AND NOT PTE_U))"
proof -
  have ok: "vm_ok k s u" "vm_ok k s r" using two by (auto simp: two_ok_def)
  have step: "unat (page + PGSIZE) = unat page + 4096" using page(2) by (simp add: unat_word_ariths word_less_nat_alt)
  have m: "unat page mod 4096 = 0" "unat page < 0x80000000" using page by (simp_all add: page_aligned_unat word_less_nat_alt)
  then obtain c where "unat page = 4096 * c" by (auto simp: mod_eq_0_iff_dvd)
  moreover from this m(2) have "c < 524288" by simp
  ultimately have lim: "unat page + 4096 \<le> 0x80000000" by simp
  then have r: "\<not> page + PGSIZE < page" "\<not> MAXUVA < page + PGSIZE" "page < page + PGSIZE"
    using step by (simp_all add: word_less_nat_alt)
  note w = walk_node [OF p page_below_maxva [OF page(2)], of k False] walk_node [OF q page_below_maxva [OF page(2)], of k True]
  show ?thesis
    using r page w node_slot [OF ok(1) p] node_slot [OF ok(2) q] v
    by (simp add: vm_sync_user_page_def upg2ukpg_def upg2ukpg_loop.simps [of k u r page] upg2ukpg_loop.simps [of k u r "page + PGSIZE"] not_le)
qed

section \<open>A fresh frame\<close>

text \<open>Filling a frame that was just allocated keeps every frame that was in use.\<close>

lemma alloc_fill_keeps:
  assumes ok: "ke_hart k < NCPU" "kalloc_inv (ke_end k) s" and al: "kalloc k s = (pg, s1)" "pg \<noteq> 0"
    and m: "\<And>a. \<not> in_page pg a \<Longrightarrow> m a = km_mem s1 a"
  shows "keeps k s (s1\<lparr>km_mem := m\<rparr>)" "\<not> used_frame k s pg" "used_frame k (s1\<lparr>km_mem := m\<rparr>) pg" "krefs (s1\<lparr>km_mem := m\<rparr>) pg = 1"
    "page_aligned pg" "unat pg < 2 ^ 56"
proof -
  note R = kalloc_page_refs [OF ok(2,1) al]
  show nu: "\<not> used_frame k s pg" and ap: "page_aligned pg" and "unat pg < 2 ^ 56"
    using R(1,2) good_pages_aligned [OF R(1)] good_pages_bound [OF R(1)] by (simp_all add: used_frame_def)
  have refs: "krefs (s1\<lparr>km_mem := m\<rparr>) = krefs s1" by (simp add: krefs_def fun_eq_iff)
  then show "krefs (s1\<lparr>km_mem := m\<rparr>) pg = 1" "used_frame k (s1\<lparr>km_mem := m\<rparr>) pg"
    using R(1,3) by (auto simp: used_frame_def)
  have "kalloc_inv (ke_end k) (s1\<lparr>km_mem := m\<rparr>)"
  proof (rule kalloc_inv_mem)
    show "kalloc_inv (ke_end k) s1" using kalloc_page_keeps [OF ok(2,1) al(1)] .
    fix p assume "p \<in> good_pages (ke_end k)" "krefs s1 p = 0"
    then show "m p = km_mem s1 p"
      using R(1,3) m [of p] in_page_aligned [OF ap good_pages_aligned, of p] by (auto split: if_splits)
  qed
  moreover have "krefs s1 q = krefs s q \<and> (\<forall>a. in_page q a \<longrightarrow> m a = km_mem s a)" if "used_frame k s q" for q
    using that nu R(3,4) m page_unique [OF ap used_frame_aligned [OF that]] by (auto simp: used_frame_def)
  ultimately show "keeps k s (s1\<lparr>km_mem := m\<rparr>)" by (simp add: keeps_def refs)
qed

section \<open>Copy on write\<close>

definition cow_entry :: "u64 \<Rightarrow> bool" where
  "cow_entry e \<longleftrightarrow> e AND PTE_V \<noteq> 0 \<and> e AND PTE_U \<noteq> 0 \<and> e AND PTE_W \<noteq> 0 \<and> e AND PTE_COW = 0"

text \<open>
  \<open>cow_post\<close>: from \<open>s\<close> to \<open>s'\<close> the page has become writable on the frame \<open>f'\<close>, which only this process holds and
  which has the contents of the frame \<open>f\<close> before; all other translations are the same, and no frame
  outside the two tables was written.
\<close>

definition cow_post :: "kenv \<Rightarrow> kmem \<Rightarrow> u64 \<Rightarrow> u64 \<Rightarrow> u64 \<Rightarrow> u64 \<Rightarrow> u64 \<Rightarrow> kmem \<Rightarrow> bool" where
  "cow_post k s u r page f f' s' \<longleftrightarrow> two_ok k s' u r \<and>
     (\<exists>e'. cow_entry e' \<and> PTE2PA e' = f' \<and>
        (\<forall>va. pte_of (km_mem s') u va = (if same_idx page va then e' else pte_of (km_mem s) u va)) \<and>
        (\<forall>va. pte_of (km_mem s') r va = (if same_idx page va then e' AND NOT PTE_U else pte_of (km_mem s) r va))) \<and>
     krefs s' f' = 1 \<and> (\<forall>a. in_page f' a \<longrightarrow> km_mem s' a = km_mem s (f + (a - f'))) \<and>
     (\<forall>g. used_frame k s g \<longrightarrow> g \<notin> pt_tables (km_mem s) u \<union> pt_tables (km_mem s) r \<longrightarrow>
        krefs s' g = (if g = f \<and> f' \<noteq> f then krefs s g - 1 else krefs s g) \<and> (\<forall>a. in_page g a \<longrightarrow> km_mem s' a = km_mem s a))"

text \<open>Writing the user entry and then its kernel copy.\<close>

definition remap_post :: "kenv \<Rightarrow> kmem \<Rightarrow> u64 \<Rightarrow> u64 \<Rightarrow> u64 \<Rightarrow> u64 \<Rightarrow> kmem \<Rightarrow> bool" where
  "remap_post k s u r page e' s' \<longleftrightarrow> two_ok k s' u r \<and>
     (\<forall>va. pte_of (km_mem s') u va = (if same_idx page va then e' else pte_of (km_mem s) u va)) \<and>
     (\<forall>va. pte_of (km_mem s') r va = (if same_idx page va then e' AND NOT PTE_U else pte_of (km_mem s) r va)) \<and>
     krefs s' = krefs s \<and>
     (\<forall>g a. used_frame k s g \<longrightarrow> g \<notin> pt_tables (km_mem s) u \<union> pt_tables (km_mem s) r \<longrightarrow> in_page g a \<longrightarrow> km_mem s' a = km_mem s a)"

lemma remap_page:
  assumes two: "two_ok k s u r" and page: "page_aligned page" "page < MAXUVA"
    and p: "node0 (km_mem s) u page = Some p" and q: "node0 (km_mem s) r page = Some q" and v: "e' AND PTE_V \<noteq> 0"
  shows "\<exists>s'. vm_sync_user_page k u r page (kset s (slot p 0 page) e') = Ok (0, s') \<and> remap_post k s u r page e' s'"
proof -
  let ?s1 = "kset s (slot p 0 page) e'"
  note A = two_kset [OF two p, where v = e']
  have self: "same_idx page page" by (simp add: same_idx_def)
  have e1: "pte_of (km_mem ?s1) u page = e'" using A(2) self by simp
  have q1: "node0 (km_mem ?s1) r page = Some q" and p1: "node0 (km_mem ?s1) u page = Some p" using A(3,5) p q by auto
  let ?s2 = "kset ?s1 (slot q 0 page) (e' AND NOT PTE_U)"
  have run: "vm_sync_user_page k u r page ?s1 = Ok (0, ?s2)"
    using sync_node [OF A(1) page p1 q1] e1 v by simp
  note B = two_kset [OF two_ok_sym [OF A(1)] q1, where v = "e' AND NOT PTE_U"]
  have "km_mem ?s2 a = km_mem s a"
    if g: "used_frame k s g" "g \<notin> pt_tables (km_mem s) u \<union> pt_tables (km_mem s) r" "in_page g a" for g a
  proof -
    have "used_frame k ?s1 g" using g(1) A(8) by (simp add: used_frame_def)
    then show ?thesis using A(9) [OF g(1) _ g(3)] B(9) [OF _ _ g(3)] A(6,7) g(2) by simp
  qed
  then have "remap_post k s u r page e' ?s2"
    unfolding remap_post_def using two_ok_sym [OF B(1)] A(2,4,8) B(2,4,8) by simp
  with run show ?thesis by blast
qed

lemma walkaddr_frame:
  assumes ok: "vm_ok k s u" and page: "page < MAXUVA" and e: "e = pte_of (km_mem s) u page" "e AND PTE_V \<noteq> 0" "e AND PTE_U \<noteq> 0"
  shows "walkaddr k u page s = Ok (PTE2PA e)"
  using walkaddr_ok [OF ok] assms by simp

lemma quota_refs: "used_frame k s f \<Longrightarrow> kgetquota (ke_end k) s f = Ok (int (krefs s f))"
  by (simp add: used_frame_def good_pages_def kgetquota_def krefs_def)

lemma cow_alone_entry:
  assumes "e AND PTE_V \<noteq> 0" "e AND PTE_U \<noteq> 0"
  shows "cow_entry ((e OR PTE_W) AND NOT PTE_COW)" "PTE2PA ((e OR PTE_W) AND NOT PTE_COW) = PTE2PA e"
proof -
  show "cow_entry ((e OR PTE_W) AND NOT PTE_COW)"
    using assms unfolding cow_entry_def pte_bits pte_clear bit_ops bit_exp by simp
  show "PTE2PA ((e OR PTE_W) AND NOT PTE_COW) = PTE2PA e"
    by (rule PTE2PA_low, unfold bit_ops bit_exp) (auto dest: bit_lt64)
qed

lemma cow_copy_entry:
  assumes e: "e AND PTE_U \<noteq> 0" and mem: "page_aligned mem" "unat mem < 2 ^ 56"
  defines "e' \<equiv> PA2PTE mem OR ((PTE_FLAGS (e AND NOT PTE_V) OR PTE_W) AND NOT PTE_COW) OR PTE_V"
  shows "cow_entry e'" "PTE2PA e' = mem"
proof -
  let ?f = "((PTE_FLAGS (e AND NOT PTE_V) OR PTE_W) AND NOT PTE_COW) OR PTE_V"
  have f: "?f = take_bit 10 ?f"
    by (rule bit_eqI, unfold bit_take_bit_iff PTE_FLAGS_def bit_ops bit_exp bit_low10) auto
  have lt: "unat ?f < 1024"
    by (subst f) (simp add: take_bit_eq_mod unat_mod)
  have e': "e' = PA2PTE mem OR ?f" by (simp add: e'_def or.assoc)
  show "PTE2PA e' = mem" unfolding e' by (rule PTE2PA_PA2PTE [OF mem lt])
  have fl: "bit e' n = bit ?f n" if "n < 10" for n
    using that unfolding e' PA2PTE_def by (auto simp: bit_ops bit_push_bit_iff)
  show "cow_entry e'"
    using e unfolding cow_entry_def pte_bits pte_clear
    by (simp add: fl) (unfold bit_ops bit_exp PTE_FLAGS_def bit_low10, simp)
qed

lemma kset_kset: "kset (kset s a v) a w = kset s a w"
  by (simp add: kset_def)

lemma km_mem_kset [simp]: "km_mem (kset s a v) a = v"
  by (simp add: kset_def)

lemma uvmcow_alone:
  assumes two: "two_ok k s u r" and page: "page_aligned page" "page < MAXUVA"
    and pq: "node0 (km_mem s) u page = Some p" "node0 (km_mem s) r page = Some q"
    and e: "e = pte_of (km_mem s) u page" "e AND PTE_V \<noteq> 0" "e AND PTE_U \<noteq> 0"
    and f: "f = PTE2PA e" "used_frame k s f" "f \<notin> pt_tables (km_mem s) u \<union> pt_tables (km_mem s) r" and one: "krefs s f = 1"
  shows "\<exists>s'. uvmcowmalloc k u r u page s = Ok (f, s') \<and> cow_post k s u r page f f s'"
proof -
  have ok: "vm_ok k s u" using two by (simp add: two_ok_def)
  let ?e = "(e OR PTE_W) AND NOT PTE_COW"
  note ce = cow_alone_entry [OF e(2,3)] and n = node_slot [OF ok pq(1)]
  have v: "?e AND PTE_V \<noteq> 0" using ce(1) by (simp add: cow_entry_def)
  obtain s' where s': "vm_sync_user_page k u r page (kset s (slot p 0 page) ?e) = Ok (0, s')" "remap_post k s u r page ?e s'"
    using remap_page [OF two page pq v] by blast
  have "f \<noteq> 0" using f(2) good_pages_bound by (auto simp: used_frame_def)
  moreover have "page mod PGSIZE = 0" using page(1) by (simp add: page_aligned_def)
  ultimately have "uvmcowmalloc k u r u page s = Ok (f, s')"
    using walkaddr_frame [OF ok page(2) e] walk_node [OF pq(1) page_below_maxva [OF page(2)], of k False]
      n(1,2) quota_refs [OF f(2)] one s'(1) f(1) e(1)
    unfolding uvmcowmalloc_def by (simp add: Let_def kset_kset)
  moreover have "cow_post k s u r page f f s'"
    unfolding cow_post_def using s'(2) ce f one unfolding remap_post_def by (auto intro!: exI [of _ ?e])
  ultimately show ?thesis by blast
qed

text \<open>Giving up one of several references to a frame.\<close>

lemma free_shared:
  assumes two: "two_ok k s u r" and f: "used_frame k s f" "1 < krefs s f"
  shows "\<exists>s'. kfree k s f = Ok s' \<and> two_ok k s' u r \<and> km_mem s' = km_mem s \<and>
    (\<forall>g \<in> good_pages (ke_end k). krefs s' g = (if g = f then krefs s f - 1 else krefs s g))"
proof -
  have ok: "vm_ok k s u" "vm_ok k s r" and h: "ke_hart k < NCPU" "kalloc_inv (ke_end k) s" using two by (auto simp: two_ok_def vm_ok_def)
  have g: "f \<in> good_pages (ke_end k)" "0 < krefs s f" using f by (auto simp: used_frame_def)
  obtain s' where s': "kfree k s f = Ok s'" "kalloc_inv (ke_end k) s'"
    "\<forall>g \<in> good_pages (ke_end k). krefs s' g = (if g = f then krefs s f - 1 else krefs s g)"
    "\<forall>a. \<not> in_page f a \<or> 1 < krefs s f \<longrightarrow> km_mem s' a = km_mem s a"
    using kfree_page_to_ok [OF h(2,1) g] unfolding kfree_page_def by blast
  have mem: "km_mem s' = km_mem s" using s'(4) f(2) by auto
  have used: "used_frame k s' p" if "used_frame k s p" for p using that s'(3) f(2) by (auto simp: used_frame_def)
  have "two_ok k s' u r" using two s'(2) used by (simp add: two_ok_def vm_ok_def mem)
  with s'(1,3) mem show ?thesis by blast
qed

lemma uvmcow_shared:
  assumes two: "two_ok k s u r" and page: "page_aligned page" "page < MAXUVA"
    and pq: "node0 (km_mem s) u page = Some p" "node0 (km_mem s) r page = Some q"
    and e: "e = pte_of (km_mem s) u page" "e AND PTE_V \<noteq> 0" "e AND PTE_U \<noteq> 0"
    and f: "f = PTE2PA e" "used_frame k s f" "f \<notin> pt_tables (km_mem s) u \<union> pt_tables (km_mem s) r" and shared: "krefs s f \<noteq> 1"
    and al: "kalloc k s = (mem, s1)" "mem \<noteq> 0"
  shows "\<exists>s'. uvmcowmalloc k u r u page s = Ok (mem, s') \<and> cow_post k s u r page f mem s'"
proof -
  have ok: "vm_ok k s u" and h: "ke_hart k < NCPU" "kalloc_inv (ke_end k) s" using two by (auto simp: two_ok_def vm_ok_def)
  let ?m = "\<lambda>a. if in_page mem a then km_mem s1 (f + (a - mem)) else km_mem s1 a"
  define s3 where "s3 = s1\<lparr>km_mem := ?m\<rparr>"
  have s3: "kcopy_page s1 mem f = s3" by (simp add: s3_def kcopy_page_def)
  note K = alloc_fill_keeps [OF h al, of ?m, folded s3_def, simplified]
  have keep: "keeps k s s3" and new: "\<not> used_frame k s mem" "used_frame k s3 mem" "krefs s3 mem = 1" "page_aligned mem" "unat mem < 2 ^ 56"
    using K by auto
  note T = two_keeps [OF two keep]
  have pq3: "node0 (km_mem s3) u page = Some p" "node0 (km_mem s3) r page = Some q" using T(3,5) pq by auto
  have ok3: "vm_ok k s3 u" using T(1) by (simp add: two_ok_def)
  let ?perm = "(PTE_FLAGS (e AND NOT PTE_V) OR PTE_W) AND NOT PTE_COW"
  let ?e = "PA2PTE mem OR ?perm OR PTE_V"
  note ce = cow_copy_entry [OF e(3) new(4,5)]
  have v: "?e AND PTE_V \<noteq> 0" using ce(1) by (simp add: cow_entry_def)
  let ?s4 = "kset s3 (slot p 0 page) (e AND NOT PTE_V)"
  note A = two_kset [OF T(1) pq3(1), where v = "e AND NOT PTE_V"]
  have "vm_ok k ?s4 u" "node0 (km_mem ?s4) u page = Some p" "pte_of (km_mem ?s4) u page AND PTE_V = 0"
    using A(1,2,3) pq3(1) by (auto simp: two_ok_def same_idx_def and.assoc)
  note map = mappages_node [OF this(1) page this(2,3), of mem ?perm, unfolded kset_kset]
  obtain s6 where s6: "vm_sync_user_page k u r page (kset s3 (slot p 0 page) ?e) = Ok (0, s6)" "remap_post k s3 u r page ?e s6"
    using remap_page [OF T(1) page pq3 v] by blast
  then have r6: "two_ok k s6 u r" "krefs s6 = krefs s3" by (auto simp: remap_post_def)
  have f3: "used_frame k s3 f" "krefs s3 f = krefs s f" using keep f(2) by (auto simp: keeps_def used_frame_def)
  then have f6: "used_frame k s6 f" using r6(2) by (auto simp: used_frame_def)
  have many: "1 < krefs s6 f" using f3(2) shared r6(2) f(2) by (auto simp: used_frame_def)
  obtain s' where s': "kfree k s6 f = Ok s'" "two_ok k s' u r" "km_mem s' = km_mem s6"
    "\<forall>g \<in> good_pages (ke_end k). krefs s' g = (if g = f then krefs s6 f - 1 else krefs s6 g)"
    using free_shared [OF r6(1) f6 many] by blast
  have fm: "f \<noteq> mem" using f(2) new(1) by auto
  have "f \<noteq> 0" "page mod PGSIZE = 0" using f(2) good_pages_bound page(1) by (auto simp: used_frame_def page_aligned_def)
  moreover have "krefs s f \<noteq> 1" by (rule shared)
  moreover have e4: "km_mem s3 (slot p 0 page) = e" using node_slot(2) [OF ok3 pq3(1)] T(2) e(1) by simp
  ultimately have "uvmcowmalloc k u r u page s = Ok (mem, s')"
    using walkaddr_frame [OF ok page(2) e] walk_node [OF pq(1) page_below_maxva [OF page(2)], of k False]
      node_slot(1) [OF ok pq(1)] quota_refs [OF f(2)] al map s6(1) s'(1) f(1)
    unfolding uvmcowmalloc_def by (simp add: Let_def s3 [unfolded f(1)])
  moreover have "cow_post k s u r page f mem s'"
    unfolding cow_post_def
  proof (intro conjI allI impI exI [of _ ?e])
    show "two_ok k s' u r" "cow_entry ?e" "PTE2PA ?e = mem" by (rule s'(2), rule ce(1), rule ce(2))
    show "pte_of (km_mem s') u va = (if same_idx page va then ?e else pte_of (km_mem s) u va)"
      "pte_of (km_mem s') r va = (if same_idx page va then ?e AND NOT PTE_U else pte_of (km_mem s) r va)" for va
      using s6(2) T(2,4) unfolding remap_post_def s'(3) by metis+
    show "krefs s' mem = 1" using s'(4) new(2,3) fm r6(2) by (simp add: used_frame_def)
    have tabs: "mem \<notin> pt_tables (km_mem s3) u \<union> pt_tables (km_mem s3) r"
      using new(1) T(6,7) two by (auto simp: two_ok_def vm_ok_def)
    fix a assume a: "in_page mem a"
    have "in_page f (f + (a - mem))" using a by (simp add: in_page_def)
    then have "\<not> in_page mem (f + (a - mem))"
      using page_unique [OF used_frame_aligned [OF f(2)] new(4)] fm by blast
    then have "km_mem s1 (f + (a - mem)) = km_mem s (f + (a - mem))" using kalloc_page_refs(4) [OF h(2,1) al] by blast
    then show "km_mem s' a = km_mem s (f + (a - mem))"
      using s6(2) new(2) tabs a unfolding remap_post_def s'(3) by (simp add: s3_def)
  next
    fix g assume g: "used_frame k s g" "g \<notin> pt_tables (km_mem s) u \<union> pt_tables (km_mem s) r"
    then have g3: "used_frame k s3 g" "krefs s3 g = krefs s g" "\<And>a. in_page g a \<Longrightarrow> km_mem s3 a = km_mem s a"
      using keep by (auto simp: keeps_def used_frame_def)
    show "krefs s' g = (if g = f \<and> mem \<noteq> f then krefs s g - 1 else krefs s g)"
      using s'(4) g3(1,2) fm r6(2) by (auto simp: used_frame_def)
    show "km_mem s' a = km_mem s a" if "in_page g a" for a
      using s6(2) g3(1,3) g(2) that T(6,7) unfolding remap_post_def s'(3) by simp
  qed
  ultimately show ?thesis by blast
qed

lemma rmap_rmap: "rmap f (rmap g m) = rmap (\<lambda>x. f (g x)) m"
  by (cases m) auto

lemma uvmcow_nomem:
  assumes two: "two_ok k s u r" and page: "page_aligned page" "page < MAXUVA" and p: "node0 (km_mem s) u page = Some p"
    and e: "e = pte_of (km_mem s) u page" "e AND PTE_V \<noteq> 0" "e AND PTE_U \<noteq> 0"
    and f: "used_frame k s (PTE2PA e)" "krefs s (PTE2PA e) \<noteq> 1" and al: "kalloc k s = (0, s1)"
  shows "uvmcowmalloc k u r u page s = Ok (0, s) \<and> no_free_frame k s"
proof -
  have ok: "vm_ok k s u" and h: "ke_hart k < NCPU" "kalloc_inv (ke_end k) s" using two by (auto simp: two_ok_def vm_ok_def)
  have "s1 = s" "no_free_frame k s" using kalloc_page_null [OF h(2,1) al] by (auto simp: no_free_frame_def)
  moreover have "PTE2PA e \<noteq> 0" "page mod PGSIZE = 0" using f(1) good_pages_bound page(1) by (auto simp: used_frame_def page_aligned_def)
  ultimately show ?thesis
    using walkaddr_frame [OF ok page(2) e] walk_node [OF p page_below_maxva [OF page(2)], of k False]
      node_slot(1) [OF ok p] quota_refs [OF f(1)] f(2) al
    unfolding uvmcowmalloc_def by simp
qed

lemma uvmcow_ok:
  assumes two: "two_ok k s u r" and page: "page_aligned page" "page < MAXUVA"
    and pq: "node0 (km_mem s) u page = Some p" "node0 (km_mem s) r page = Some q"
    and e: "e = pte_of (km_mem s) u page" "e AND PTE_V \<noteq> 0" "e AND PTE_U \<noteq> 0"
    and f: "used_frame k s (PTE2PA e)" "PTE2PA e \<notin> pt_tables (km_mem s) u \<union> pt_tables (km_mem s) r"
  shows "uvmcowmalloc k u r u page s = Ok (0, s) \<and> no_free_frame k s \<or>
    (\<exists>f' s'. f' \<noteq> 0 \<and> uvmcowmalloc k u r u page s = Ok (f', s') \<and> cow_post k s u r page (PTE2PA e) f' s')"
proof (cases "krefs s (PTE2PA e) = 1")
  case True
  have "PTE2PA e \<noteq> 0" using f(1) good_pages_bound by (auto simp: used_frame_def)
  with uvmcow_alone [OF two page pq e refl f True] show ?thesis by blast
next
  case False
  obtain mem s1 where al: "kalloc k s = (mem, s1)" by (cases "kalloc k s")
  show ?thesis
  proof (cases "mem = 0")
    case True
    with uvmcow_nomem [OF two page pq(1) e f(1) False] al show ?thesis by blast
  next
    case mem: False
    with uvmcow_shared [OF two page pq e refl f False al mem] show ?thesis by blast
  qed
qed

lemma cow_kernel_entry:
  assumes "cow_entry e"
  shows "(e AND NOT PTE_U) AND PTE_V \<noteq> 0" "(e AND NOT PTE_U) AND PTE_W \<noteq> 0" "(e AND NOT PTE_U) AND PTE_U = 0" "PTE2PA (e AND NOT PTE_U) = PTE2PA e"
proof -
  show "(e AND NOT PTE_U) AND PTE_V \<noteq> 0" "(e AND NOT PTE_U) AND PTE_W \<noteq> 0" "(e AND NOT PTE_U) AND PTE_U = 0"
    using assms unfolding cow_entry_def pte_bits pte_clear bit_ops bit_exp by auto
  show "PTE2PA (e AND NOT PTE_U) = PTE2PA e" by (rule PTE2PA_low, unfold bit_ops bit_exp) (auto dest: bit_lt64)
qed

text \<open>
  C19: A write fault on a copy-on-write page of a process whose two page tables are well formed and both have a table page for it. Either
  no frame is free, the result is \<^verbatim>\<open>VM_FAULT_NOMEM\<close> and nothing has changed; or the fault is resolved: the
  page is writable and no longer copy on write in the user table and, without \<^verbatim>\<open>PTE_U\<close>, in the kernel's copy, on a
  frame with one reference and the old contents, every other translation is the same, and no frame outside the two tables has been
  written, in particular not the one that was shared, which loses one reference.
\<close>

theorem cow_fault_resolved:
  assumes two: "two_ok k (mm_k s) (p_pagetable p) (p_kpagetable p)" and addr: "address < MAXUVA"
    and pq: "node0 (km_mem (mm_k s)) (p_pagetable p) (PGROUNDDOWN address) = Some n"
      "node0 (km_mem (mm_k s)) (p_kpagetable p) (PGROUNDDOWN address) = Some n'"
    and e: "e = pte_of (km_mem (mm_k s)) (p_pagetable p) (PGROUNDDOWN address)" "e AND PTE_V \<noteq> 0" "e AND PTE_U \<noteq> 0" "e AND PTE_COW \<noteq> 0"
    and f: "used_frame k (mm_k s) (PTE2PA e)"
      "PTE2PA e \<notin> pt_tables (km_mem (mm_k s)) (p_pagetable p) \<union> pt_tables (km_mem (mm_k s)) (p_kpagetable p)"
    and allowed: "case mmap_vma_find (p_vmas p) address of Some i \<Rightarrow> mmap_access_allowed (p_vmas p ! i) VM_FAULT_WRITE
      | None \<Rightarrow> address < p_sz p \<or> USER_STACK_START \<le> address"
  shows "vm_resolve_fault k fe (Some p) (p_pagetable p) address VM_FAULT_WRITE s = Ok (VM_FAULT_NOMEM, s) \<and> no_free_frame k (mm_k s) \<or>
    (\<exists>f' s'. vm_resolve_fault k fe (Some p) (p_pagetable p) address VM_FAULT_WRITE s = Ok (VM_FAULT_RESOLVED, s\<lparr>mm_k := s'\<rparr>) \<and>
       cow_post k (mm_k s) (p_pagetable p) (p_kpagetable p) (PGROUNDDOWN address) (PTE2PA e) f' s' \<and>
       kpt_lookup s' (p_kpagetable p) address VM_FAULT_WRITE = Some (f' + (address AND 0xFFF)))"
proof -
  let ?u = "p_pagetable p" and ?r = "p_kpagetable p" and ?page = "PGROUNDDOWN address" and ?m = "mm_k s"
  have ok: "vm_ok k ?m ?u" and h: "ke_hart k < NCPU" "kalloc_inv (ke_end k) ?m" using two by (auto simp: two_ok_def vm_ok_def)
  have page: "page_aligned ?page" "?page < MAXUVA" using addr PGROUNDDOWN_le [of address] by auto
  note ns = node_slot [OF ok pq(1)]
  have walk: "walk k ?u ?page False ?m = Ok (slot n 0 ?page, ?m)" by (rule walk_node [OF pq(1) page_below_maxva [OF page(2)]])
  have pres: "pte_present ?m (slot n 0 ?page)" using ns e by (simp add: pte_present_def)
  have "vm_resolve_fault k fe (Some p) ?u address VM_FAULT_WRITE s =
      rmap (\<lambda>x. (if fst x = 0 then VM_FAULT_NOMEM else VM_FAULT_RESOLVED, s\<lparr>mm_k := snd x\<rparr>)) (uvmcowmalloc k ?u ?r ?u ?page ?m)"
    using addr allowed walk pres ns(2) e
    by (auto simp: vm_resolve_fault_def vm_fault_classify_def vm_fault_area_allows_def vm_fault_present_def not_le Let_def rmap_rmap case_prod_beta
      split: option.splits)
  note run = this
  from uvmcow_ok [OF two page pq e(1-3) f] show ?thesis
  proof (elim disjE exE conjE)
    assume "uvmcowmalloc k ?u ?r ?u ?page ?m = Ok (0, ?m)" "no_free_frame k ?m"
    with run show ?thesis by simp
  next
    fix f' s'
    assume f': "f' \<noteq> 0" "uvmcowmalloc k ?u ?r ?u ?page ?m = Ok (f', s')" and post: "cow_post k ?m ?u ?r ?page (PTE2PA e) f' s'"
    obtain e' where e': "cow_entry e'" "PTE2PA e' = f'" "pte_of (km_mem s') ?r address = (if same_idx ?page address then e' AND NOT PTE_U else pte_of (km_mem ?m) ?r address)"
      using post by (auto simp: cow_post_def)
    have "same_idx ?page address"
      using same_page_iff [OF page_below_maxva [OF page(2)] page_below_maxva [OF addr]] by (simp add: same_idx_def)
    then have "kpt_lookup s' ?r address VM_FAULT_WRITE = Some (f' + (address AND 0xFFF))"
      using e'(2,3) cow_kernel_entry [OF e'(1)] by (simp add: kpt_lookup_def Let_def access_bit_def)
    with f' post run show ?thesis by auto
  qed
qed

section \<open>Witness\<close>

text \<open>Two page tables of three pages each, with page 0 on one shared frame, and one free frame.\<close>

definition cow_env :: kenv where
  "cow_env = \<lparr>ke_end = 0x805F8000, ke_hart = 0, ke_etext = 0x80030000, ke_trampoline = 0x8002F000, ke_sigtramp = 0x8002E000\<rparr>"

definition cow_mem :: pmem where
  "cow_mem = (\<lambda>_. 0)(0x805F8000 := PA2PTE 0x805F9000 OR 1, 0x805F9000 := PA2PTE 0x805FA000 OR 1, 0x805FA000 := PA2PTE 0x805FE000 OR 0x113,
     0x805FB000 := PA2PTE 0x805FC000 OR 1, 0x805FC000 := PA2PTE 0x805FD000 OR 1)"

definition cow_state :: kmem where
  "cow_state = \<lparr>km_mem = cow_mem, km_freelist = (\<lambda>c. if c = 0 then 0x805FF000 else 0),
     km_quota = (\<lambda>f. if f = 0x805FF then 0 else if f = 0x805FE then 2 else 1)\<rparr>"

lemma cow_slot:
  assumes "page_aligned p" "p \<in> {0x805F8000, 0x805F9000, 0x805FA000, 0x805FB000, 0x805FC000, 0x805FD000}"
  shows "cow_mem (slot p l va) = (if PX l va = 0 then cow_mem p else 0)"
proof (cases "PX l va = 0")
  case True
  then show ?thesis by (simp add: slot_def)
next
  case False
  have 0: "slot q l 0 = q" for q by (simp add: slot_def PX_def)
  have "slot p l va \<noteq> q" if "page_aligned q" for q
    using slot_inj [OF assms(1) that, of l va l 0] False 0 [of q] by (auto simp: PX_def)
  then have "slot p l va \<noteq> 0x805F8000" "slot p l va \<noteq> 0x805F9000" "slot p l va \<noteq> 0x805FA000" "slot p l va \<noteq> 0x805FB000" "slot p l va \<noteq> 0x805FC000"
    by (simp_all add: page_aligned_def)
  with False show ?thesis by (simp add: cow_mem_def)
qed

lemma cow_child:
  "pt_child cow_mem 0x805F8000 l va = (if PX l va = 0 then Some 0x805F9000 else None)"
  "pt_child cow_mem 0x805F9000 l va = (if PX l va = 0 then Some 0x805FA000 else None)"
  "pt_child cow_mem 0x805FB000 l va = (if PX l va = 0 then Some 0x805FC000 else None)"
  "pt_child cow_mem 0x805FC000 l va = (if PX l va = 0 then Some 0x805FD000 else None)"
  by (simp_all add: pt_child_def cow_slot page_aligned_def) (simp_all add: cow_mem_def PA2PTE_def PTE2PA_def)

lemma cow_nodes:
  "node1 cow_mem 0x805F8000 va = (if PX 2 va = 0 then Some 0x805F9000 else None)"
  "node0 cow_mem 0x805F8000 va = (if PX 2 va = 0 \<and> PX 1 va = 0 then Some 0x805FA000 else None)"
  "node1 cow_mem 0x805FB000 va = (if PX 2 va = 0 then Some 0x805FC000 else None)"
  "node0 cow_mem 0x805FB000 va = (if PX 2 va = 0 \<and> PX 1 va = 0 then Some 0x805FD000 else None)"
  by (simp_all add: node1_def node0_def cow_child)

lemma px_zero: "PX l 0 = 0"
  by (simp add: PX_def)

lemma cow_tables:
  "pt_tables cow_mem 0x805F8000 = {0x805F8000, 0x805F9000, 0x805FA000}" "pt_tables cow_mem 0x805FB000 = {0x805FB000, 0x805FC000, 0x805FD000}"
  using px_zero by (auto simp: pt_tables_def cow_nodes split: if_splits)

lemma cow_wf: "pt_wf cow_mem 0x805F8000" "pt_wf cow_mem 0x805FB000"
  by (rule pt_wfI; simp add: cow_nodes page_aligned_def split: if_splits)+

lemma cow_frames: "pa \<in> good_pages 0x805F8000 \<longleftrightarrow> pa \<in> {0x805F8000, 0x805F9000, 0x805FA000, 0x805FB000, 0x805FC000, 0x805FD000, 0x805FE000, 0x805FF000}"
proof
  assume pa: "pa \<in> good_pages 0x805F8000"
  then have r: "0x805F8000 \<le> unat pa" "unat pa < 0x80600000"
    by (auto simp: good_pages_def bad_page_def word_less_nat_alt word_le_nat_alt)
  obtain c where c: "unat pa = 4096 * c"
    using good_pages_aligned [OF pa] by (auto simp: page_aligned_unat mod_eq_0_iff_dvd)
  have "c = 525816 \<or> c = 525817 \<or> c = 525818 \<or> c = 525819 \<or> c = 525820 \<or> c = 525821 \<or> c = 525822 \<or> c = 525823"
    using r c by linarith
  with c show "pa \<in> {0x805F8000, 0x805F9000, 0x805FA000, 0x805FB000, 0x805FC000, 0x805FD000, 0x805FE000, 0x805FF000}"
    by (auto simp: word_unat_eq_iff)
qed (auto simp: good_pages_def bad_page_def)

lemma cow_inv: "kalloc_inv 0x805F8000 cow_state"
proof -
  have N: "{..<NCPU} = {0, 1}" by auto
  have "kalloc_ok 0x805F8000 cow_state (\<lambda>c. if c = 0 then [0x805FF000] else [])"
    by (auto simp: kalloc_ok_def cow_state_def free_lists_def free_of_def N cow_frames) (simp_all add: cow_mem_def)
  then show ?thesis by (auto simp: kalloc_inv_def)
qed

lemma cow_used: "p \<in> {0x805F8000, 0x805F9000, 0x805FA000, 0x805FB000, 0x805FC000, 0x805FD000, 0x805FE000} \<Longrightarrow> used_frame cow_env cow_state p"
  by (auto simp: used_frame_def cow_env_def cow_frames krefs_def cow_state_def)

lemma cow_two: "two_ok cow_env cow_state 0x805F8000 0x805FB000"
  using cow_inv cow_wf cow_used by (auto simp: two_ok_def vm_ok_def cow_tables cow_env_def cow_state_def)

definition cow_proc :: proc where
  "cow_proc = proc_zero\<lparr>p_pagetable := 0x805F8000, p_kpagetable := 0x805FB000, p_sz := 0x1000\<rparr>"

definition cow_mm :: "unit mm" where
  "cow_mm = demo_mm\<lparr>mm_k := cow_state\<rparr>"

theorem cow_fault_resolved_witness:
  "\<exists>f' s'. vm_resolve_fault cow_env no_files (Some cow_proc) 0x805F8000 0x123 VM_FAULT_WRITE cow_mm = Ok (VM_FAULT_RESOLVED, cow_mm\<lparr>mm_k := s'\<rparr>) \<and>
    cow_post cow_env cow_state 0x805F8000 0x805FB000 0 0x805FE000 f' s' \<and>
    kpt_lookup s' 0x805FB000 0x123 VM_FAULT_WRITE = Some (f' + 0x123)"
proof -
  have k: "mm_k cow_mm = cow_state" "km_mem cow_state = cow_mem" by (simp_all add: cow_mm_def cow_state_def)
  have p: "p_pagetable cow_proc = 0x805F8000" "p_kpagetable cow_proc = 0x805FB000" "p_sz cow_proc = 0x1000" "p_vmas cow_proc = replicate 16 vma_zero"
    by (simp_all add: cow_proc_def proc_zero_def)
  have page: "PGROUNDDOWN 0x123 = 0" by (simp add: PGROUNDDOWN_def)
  have e: "pte_of cow_mem 0x805F8000 0 = PA2PTE 0x805FE000 OR 0x113"
    by (simp add: pte_of_def cow_nodes px_zero cow_slot page_aligned_def) (simp add: cow_mem_def)
  have f: "PTE2PA (PA2PTE 0x805FE000 OR 0x113) = 0x805FE000" by (simp add: PTE2PA_def PA2PTE_def)
  have free: "\<not> no_free_frame cow_env cow_state"
    unfolding no_free_frame_def by (rule notI, drule bspec [of _ _ "0x805FF000"]) (simp_all add: cow_env_def cow_frames krefs_def cow_state_def)
  have none: "mmap_vma_find (replicate 16 vma_zero) 0x123 = None"
    by (simp add: mmap_vma_find_def find_slot_None vma_contains_def)
  from cow_fault_resolved [of cow_env cow_mm cow_proc "0x123" "0x805FA000" "0x805FD000" "PA2PTE 0x805FE000 OR 0x113" no_files, unfolded k p page e f]
  show ?thesis
    using cow_two cow_used [of "0x805FE000"] free none
    by (simp add: cow_nodes px_zero cow_tables) (simp add: PA2PTE_def)
qed

end
