(* ===== verification/FaultZero.thy ===== *)
theory FaultZero
  imports FaultCow
begin

text \<open>
  Demand-zero faults: the first access to a page of the heap or the stack gets a fresh, zeroed frame, in the user table and in the
  kernel's copy, or fails for lack of memory and leaves all translations as they were.
\<close>

section \<open>Growing one of two tables\<close>

lemma two_grows:
  assumes two: "two_ok k s u r" and g: "grows k u s s'" and ok: "vm_ok k s' u"
  shows "two_ok k s' u r" "pte_of (km_mem s') r = pte_of (km_mem s) r" "node0 (km_mem s') r = node0 (km_mem s) r"
    "pt_tables (km_mem s') r = pt_tables (km_mem s) r"
proof -
  have r: "vm_ok k s r" and dis: "pt_tables (km_mem s) u \<inter> pt_tables (km_mem s) r = {}" using two by (auto simp: two_ok_def)
  have inv: "kalloc_inv (ke_end k) s'" using ok by (simp add: vm_ok_def)
  have used: "used_frame k s p" if "p \<in> pt_tables (km_mem s) r" for p using r that by (auto simp: vm_ok_def)
  have same: "used_frame k s' p \<and> (\<forall>a. in_page p a \<longrightarrow> km_mem s' a = km_mem s a)" if "p \<in> pt_tables (km_mem s) r" for p
  proof -
    have "p \<notin> pt_tables (km_mem s) u" using that dis by blast
    with used [OF that] g show ?thesis unfolding grows_def used_frame_def by metis
  qed
  note R = table_frame [OF r inv same]
  show "pte_of (km_mem s') r = pte_of (km_mem s) r" "node0 (km_mem s') r = node0 (km_mem s) r"
    "pt_tables (km_mem s') r = pt_tables (km_mem s) r" using R by auto
  have "pt_tables (km_mem s') u \<inter> pt_tables (km_mem s) r = {}"
    using g dis used unfolding grows_def by blast
  then show "two_ok k s' u r" using ok R(1,4) by (simp add: two_ok_def)
qed

text \<open>No frame that was in use and belongs to neither table has been touched.\<close>

definition outer :: "kenv \<Rightarrow> u64 \<Rightarrow> u64 \<Rightarrow> kmem \<Rightarrow> kmem \<Rightarrow> bool" where
  "outer k u r s s' \<longleftrightarrow> (\<forall>g. used_frame k s g \<longrightarrow> g \<notin> pt_tables (km_mem s) u \<union> pt_tables (km_mem s) r \<longrightarrow>
     used_frame k s' g \<and> g \<notin> pt_tables (km_mem s') u \<union> pt_tables (km_mem s') r \<and> krefs s' g = krefs s g \<and>
     (\<forall>a. in_page g a \<longrightarrow> km_mem s' a = km_mem s a))"

lemma outer_refl: "outer k u r s s"
  by (simp add: outer_def)

lemma outer_trans: "outer k u r s s1 \<Longrightarrow> outer k u r s1 s2 \<Longrightarrow> outer k u r s s2"
  unfolding outer_def by metis

lemma outer_grows:
  assumes two: "two_ok k s u r" and g: "grows k u s s'" and ok: "vm_ok k s' u"
  shows "outer k u r s s'" "outer k r u s s'"
proof -
  show "outer k u r s s'"
    unfolding outer_def
  proof (intro allI impI)
    fix g' assume g': "used_frame k s g'" "g' \<notin> pt_tables (km_mem s) u \<union> pt_tables (km_mem s) r"
    then have "g' \<notin> pt_tables (km_mem s') u" using grows_tables [OF g g'(1)] by blast
    with g' g two_grows(4) [OF two g ok] grows_used [OF g g'(1)]
    show "used_frame k s' g' \<and> g' \<notin> pt_tables (km_mem s') u \<union> pt_tables (km_mem s') r \<and> krefs s' g' = krefs s g' \<and>
      (\<forall>a. in_page g' a \<longrightarrow> km_mem s' a = km_mem s a)" by (auto simp: grows_def)
  qed
  then show "outer k r u s s'" by (simp add: outer_def Un_commute)
qed

lemma outer_keeps: "two_ok k s u r \<Longrightarrow> keeps k s s' \<Longrightarrow> outer k u r s s'"
  using two_keeps(6,7) by (auto simp: outer_def keeps_def used_frame_def)

section \<open>Copying an entry into the kernel's table\<close>

lemma sync_ok:
  assumes two: "two_ok k s u r" and page: "page_aligned page" "page < MAXUVA"
    and e: "e = pte_of (km_mem s) u page" "e AND PTE_V \<noteq> 0"
  shows "\<exists>c s'. vm_sync_user_page k u r page s = Ok (c, s') \<and> two_ok k s' u r \<and> outer k u r s s' \<and>
    pte_of (km_mem s') u = pte_of (km_mem s) u \<and> node0 (km_mem s') u = node0 (km_mem s) u \<and>
    (c = 0 \<and> (\<forall>va. pte_of (km_mem s') r va = (if same_idx page va then e AND NOT PTE_U else pte_of (km_mem s) r va)) \<or>
     c = -1 \<and> pte_of (km_mem s') r = pte_of (km_mem s) r)"
proof -
  have ok: "vm_ok k s u" "vm_ok k s r" using two by (auto simp: two_ok_def)
  have lt: "page < MAXVA" by (rule page_below_maxva [OF page(2)])
  obtain p where p: "node0 (km_mem s) u page = Some p" using e by (auto simp: pte_of_def split: option.splits)
  have step: "unat (page + PGSIZE) = unat page + 4096" using page(2) by (simp add: unat_word_ariths word_less_nat_alt)
  have m: "unat page mod 4096 = 0" "unat page < 0x80000000" using page by (simp_all add: page_aligned_unat word_less_nat_alt)
  then obtain c where "unat page = 4096 * c" by (auto simp: mod_eq_0_iff_dvd)
  moreover from this m(2) have "c < 524288" by simp
  ultimately have lim: "unat page + 4096 \<le> 0x80000000" by simp
  then have r: "\<not> page + PGSIZE < page" "\<not> MAXUVA < page + PGSIZE" "page < page + PGSIZE"
    using step by (simp_all add: word_less_nat_alt)
  note n = node_slot [OF ok(1) p]
  have run: "vm_sync_user_page k u r page s = rbind (walk k r page True s) (\<lambda>(k_pte, s2).
      if k_pte = 0 then Ok (-1, s2) else Ok (0, kset s2 k_pte (km_mem s2 (slot p 0 page) AND NOT PTE_U)))"
    using r page walk_node [OF p lt, of k False] n e
    by (cases "walk k r page True s")
      (auto simp: vm_sync_user_page_def upg2ukpg_def upg2ukpg_loop.simps [of k u r page] upg2ukpg_loop.simps [of k u r "page + PGSIZE"] not_le)
  show ?thesis
  proof (rule walk_alloc_ok [OF ok(2) lt])
    fix s1 assume w: "walk k r page True s = Ok (0, s1)" "vm_ok k s1 r" "grows k r s s1" "pte_of (km_mem s1) r = pte_of (km_mem s) r"
    note G = two_grows [OF two_ok_sym [OF two] w(3,2)]
    show ?thesis
      using run w G(1-3) two_ok_sym outer_grows(2) [OF two_ok_sym [OF two] w(3,2)] by (intro exI [of _ "-1"] exI [of _ s1]) auto
  next
    fix s1 q assume w: "walk k r page True s = Ok (slot q 0 page, s1)" "slot q 0 page \<noteq> 0" "vm_ok k s1 r" "grows k r s s1"
      "pte_of (km_mem s1) r = pte_of (km_mem s) r" "node0 (km_mem s1) r page = Some q"
    note G = two_grows [OF two_ok_sym [OF two] w(4,3)]
    have e1: "km_mem s1 (slot p 0 page) = e" using G(2,3) p e(1) by (metis option.simps(5) pte_of_def)
    note B = two_kset [OF G(1) w(6), where v = "e AND NOT PTE_U"]
    let ?s2 = "kset s1 (slot q 0 page) (e AND NOT PTE_U)"
    have "grows k r s1 ?s2" "vm_ok k ?s2 r" using kset_leaf [OF w(3,6)] by auto
    then have "outer k u r s1 ?s2" using outer_grows(2) [OF G(1)] by blast
    then have "outer k u r s ?s2" using outer_trans outer_grows(2) [OF two_ok_sym [OF two] w(4,3)] by blast
    then show ?thesis
      using run w(1,2) e1 G(2,3) B(1,2,4,5) w(5) two_ok_sym by (intro exI [of _ 0] exI [of _ ?s2]) auto
  qed
qed

section \<open>Mapping one page\<close>

lemma page_end: "page_aligned page \<Longrightarrow> page < MAXUVA \<Longrightarrow> PGROUNDDOWN (page + PGSIZE - 1) = page"
proof -
  assume page: "page_aligned page" "page < MAXUVA"
  have u: "unat (4095 + page) = unat page + 4095" using page(2) by (simp add: unat_word_ariths word_less_nat_alt)
  show "PGROUNDDOWN (page + PGSIZE - 1) = page"
    using page(1) u by (simp add: word_unat_eq_iff unat_PGROUNDDOWN page_aligned_unat mod_eq_0_iff_dvd dvd_def) auto
qed

lemma map_one:
  assumes two: "two_ok k s u r" and page: "page_aligned page" "page < MAXUVA" and v: "pte_of (km_mem s) u page AND PTE_V = 0"
  shows "\<exists>c s'. mappages k u page PGSIZE pa perm s = Ok (c, s') \<and> two_ok k s' u r \<and> outer k u r s s' \<and>
    pte_of (km_mem s') r = pte_of (km_mem s) r \<and>
    (c = 0 \<and> (\<forall>va. pte_of (km_mem s') u va = (if same_idx page va then PA2PTE pa OR perm OR PTE_V else pte_of (km_mem s) u va)) \<or>
     c = -1 \<and> pte_of (km_mem s') u = pte_of (km_mem s) u)"
proof -
  have ok: "vm_ok k s u" using two by (simp add: two_ok_def)
  have lt: "page < MAXVA" by (rule page_below_maxva [OF page(2)])
  have run: "mappages k u page PGSIZE pa perm s = rbind (walk k u page True s) (\<lambda>(pte, s1). if pte = 0 then Ok (-1, s1)
      else if km_mem s1 pte AND PTE_V \<noteq> 0 then Panic ''remap'' else Ok (0, kset s1 pte (PA2PTE pa OR perm OR PTE_V)))"
    using page page_end [OF page]
    by (cases "walk k u page True s") (auto simp: mappages_def mappages_loop.simps [of k u page] Let_def)
  show ?thesis
  proof (rule walk_alloc_ok [OF ok lt])
    fix s1 assume w: "walk k u page True s = Ok (0, s1)" "vm_ok k s1 u" "grows k u s s1" "pte_of (km_mem s1) u = pte_of (km_mem s) u"
    note G = two_grows [OF two w(3,2)]
    show ?thesis using run w G(1,2) outer_grows(1) [OF two w(3,2)] by (intro exI [of _ "-1"] exI [of _ s1]) auto
  next
    fix s1 q assume w: "walk k u page True s = Ok (slot q 0 page, s1)" "slot q 0 page \<noteq> 0" "vm_ok k s1 u" "grows k u s s1"
      "pte_of (km_mem s1) u = pte_of (km_mem s) u" "node0 (km_mem s1) u page = Some q" "km_mem s1 (slot q 0 page) = pte_of (km_mem s) u page"
    note G = two_grows [OF two w(4,3)]
    let ?e = "PA2PTE pa OR perm OR PTE_V"
    note B = two_kset [OF G(1) w(6), where v = ?e]
    let ?s2 = "kset s1 (slot q 0 page) ?e"
    have "grows k u s1 ?s2" "vm_ok k ?s2 u" using kset_leaf [OF w(3,6)] by auto
    then have "outer k u r s1 ?s2" using outer_grows(1) [OF G(1)] by blast
    then have "outer k u r s ?s2" using outer_trans outer_grows(1) [OF two w(4,3)] by blast
    then show ?thesis
      using run w(1,2,7) v G(2) B(1,2,4) w(5) by (intro exI [of _ 0] exI [of _ ?s2]) auto
  qed
qed

lemma free_two:
  assumes two: "two_ok k s u r" and f: "used_frame k s f" "f \<notin> pt_tables (km_mem s) u \<union> pt_tables (km_mem s) r"
  shows "\<exists>s'. kfree k s f = Ok s' \<and> two_ok k s' u r \<and> pte_of (km_mem s') u = pte_of (km_mem s) u \<and> pte_of (km_mem s') r = pte_of (km_mem s) r \<and>
    node0 (km_mem s') u = node0 (km_mem s) u \<and>
    pt_tables (km_mem s') u = pt_tables (km_mem s) u \<and> pt_tables (km_mem s') r = pt_tables (km_mem s) r \<and>
    (\<forall>g. used_frame k s g \<longrightarrow> g \<noteq> f \<longrightarrow> used_frame k s' g \<and> krefs s' g = krefs s g \<and> (\<forall>a. in_page g a \<longrightarrow> km_mem s' a = km_mem s a))"
proof -
  have ok: "vm_ok k s u" "vm_ok k s r" and h: "ke_hart k < NCPU" "kalloc_inv (ke_end k) s" using two by (auto simp: two_ok_def vm_ok_def)
  have g: "f \<in> good_pages (ke_end k)" "0 < krefs s f" using f by (auto simp: used_frame_def)
  obtain s' where s': "kfree k s f = Ok s'" "kalloc_inv (ke_end k) s'"
    "\<forall>g \<in> good_pages (ke_end k). krefs s' g = (if g = f then krefs s f - 1 else krefs s g)"
    "\<forall>a. \<not> in_page f a \<or> 1 < krefs s f \<longrightarrow> km_mem s' a = km_mem s a"
    using kfree_page_to_ok [OF h(2,1) g] unfolding kfree_page_def by blast
  have same: "used_frame k s' g \<and> krefs s' g = krefs s g \<and> (\<forall>a. in_page g a \<longrightarrow> km_mem s' a = km_mem s a)" if "used_frame k s g" "g \<noteq> f" for g
    using that s'(3,4) page_unique [OF used_frame_aligned [OF that(1)] used_frame_aligned [OF f(1)]] by (auto simp: used_frame_def)
  have T: "vm_ok k s' t" "pte_of (km_mem s') t = pte_of (km_mem s) t" "node0 (km_mem s') t = node0 (km_mem s) t" "pt_tables (km_mem s') t = pt_tables (km_mem s) t"
    if "vm_ok k s t" "f \<notin> pt_tables (km_mem s) t" for t
  proof -
    have "used_frame k s' p \<and> (\<forall>a. in_page p a \<longrightarrow> km_mem s' a = km_mem s a)" if "p \<in> pt_tables (km_mem s) t" "used_frame k s p" for p
      using same [OF that(2)] that(1) \<open>f \<notin> pt_tables (km_mem s) t\<close> by blast
    note F = table_frame [OF that(1) s'(2) this]
    show "vm_ok k s' t" "pte_of (km_mem s') t = pte_of (km_mem s) t" "node0 (km_mem s') t = node0 (km_mem s) t" "pt_tables (km_mem s') t = pt_tables (km_mem s) t"
      using F by auto
  qed
  have n: "f \<notin> pt_tables (km_mem s) u" "f \<notin> pt_tables (km_mem s) r" using f(2) by auto
  have "two_ok k s' u r" using two T(1,4) [OF ok(1) n(1)] T(1,4) [OF ok(2) n(2)] by (simp add: two_ok_def)
  with s'(1) T(2-4) [OF ok(1) n(1)] T(2,4) [OF ok(2) n(2)] same show ?thesis by blast
qed

lemma unmap_node:
  assumes ok: "vm_ok k s u" and page: "page_aligned page" "page < MAXUVA" and p: "node0 (km_mem s) u page = Some p"
    and e: "e = pte_of (km_mem s) u page" "e AND PTE_V \<noteq> 0" "PTE_FLAGS e \<noteq> PTE_V"
  shows "uvmunmap k u page 1 True s = rmap (\<lambda>s1. kset s1 (slot p 0 page) 0) (kfree k s (PTE2PA e))"
proof -
  have lt: "page < page + PGSIZE" "page mod PGSIZE = 0" using page by (simp_all add: word_less_nat_alt unat_word_ariths page_aligned_def)
  show ?thesis
    using lt walk_node [OF p page_below_maxva [OF page(2)], of k False] node_slot [OF ok p] e
    by (cases "kfree k s (PTE2PA e)")
      (auto simp: uvmunmap_def uvmunmap_loop.simps [of k u page] uvmunmap_loop.simps [of k u "page + PGSIZE"] add.commute)
qed

section \<open>Demand-zero allocation\<close>

definition same_elsewhere :: "kmem \<Rightarrow> u64 \<Rightarrow> u64 \<Rightarrow> u64 \<Rightarrow> kmem \<Rightarrow> bool" where
  "same_elsewhere s u r page s' \<longleftrightarrow> (\<forall>va. \<not> same_idx page va \<longrightarrow>
     pte_of (km_mem s') u va = pte_of (km_mem s) u va \<and> pte_of (km_mem s') r va = pte_of (km_mem s) r va)"

definition zero_mapped :: "kenv \<Rightarrow> kmem \<Rightarrow> u64 \<Rightarrow> u64 \<Rightarrow> u64 \<Rightarrow> u64 \<Rightarrow> u64 \<Rightarrow> kmem \<Rightarrow> bool" where
  "zero_mapped k s u r page e f s' \<longleftrightarrow> \<not> used_frame k s f \<and> krefs s' f = 1 \<and> (\<forall>a. in_page f a \<longrightarrow> km_mem s' a = 0) \<and> PTE2PA e = f \<and>
     (\<forall>va. same_idx page va \<longrightarrow> pte_of (km_mem s') u va = e \<and> pte_of (km_mem s') r va = e AND NOT PTE_U)"

text \<open>Undoing an allocation: the frame goes back and everything else is as it was.\<close>

lemma undo_alloc:
  assumes two: "two_ok k s u r" and out: "outer k u r s0 s"
    and f: "used_frame k s f" "f \<notin> pt_tables (km_mem s) u \<union> pt_tables (km_mem s) r" "\<not> used_frame k s0 f"
  shows "\<exists>s'. kfree k s f = Ok s' \<and> two_ok k s' u r \<and> outer k u r s0 s' \<and> pte_of (km_mem s') u = pte_of (km_mem s) u \<and>
    pte_of (km_mem s') r = pte_of (km_mem s) r \<and> node0 (km_mem s') u = node0 (km_mem s) u"
proof -
  obtain s' where s': "kfree k s f = Ok s'" "two_ok k s' u r" "pte_of (km_mem s') u = pte_of (km_mem s) u" "pte_of (km_mem s') r = pte_of (km_mem s) r"
    "node0 (km_mem s') u = node0 (km_mem s) u" "pt_tables (km_mem s') u = pt_tables (km_mem s) u" "pt_tables (km_mem s') r = pt_tables (km_mem s) r"
    and same: "\<forall>g. used_frame k s g \<longrightarrow> g \<noteq> f \<longrightarrow> used_frame k s' g \<and> krefs s' g = krefs s g \<and> (\<forall>a. in_page g a \<longrightarrow> km_mem s' a = km_mem s a)"
    using free_two [OF two f(1,2)] by blast
  have "outer k u r s0 s'"
    unfolding outer_def
  proof (intro allI impI)
    fix g assume g: "used_frame k s0 g" "g \<notin> pt_tables (km_mem s0) u \<union> pt_tables (km_mem s0) r"
    then have o: "used_frame k s g" "g \<notin> pt_tables (km_mem s) u \<union> pt_tables (km_mem s) r" "krefs s g = krefs s0 g"
      "\<forall>a. in_page g a \<longrightarrow> km_mem s a = km_mem s0 a" using out by (auto simp: outer_def)
    have "g \<noteq> f" using g(1) f(3) by auto
    with same o s'(6,7) show "used_frame k s' g \<and> g \<notin> pt_tables (km_mem s') u \<union> pt_tables (km_mem s') r \<and> krefs s' g = krefs s0 g \<and>
      (\<forall>a. in_page g a \<longrightarrow> km_mem s' a = km_mem s0 a)" by auto
  qed
  with s'(1-5) show ?thesis by blast
qed

text \<open>The end of \<^verbatim>\<open>uvm_fault_alloc\<close>: copy the new entry into the kernel's table, or take the page out again.\<close>

definition sync_or_undo :: "kenv \<Rightarrow> u64 \<Rightarrow> u64 \<Rightarrow> u64 \<Rightarrow> kmem \<Rightarrow> (int \<times> kmem) res" where
  "sync_or_undo k u r page s = rbind (vm_sync_user_page k u r page s) (\<lambda>(c, s1).
     if c < 0 then rmap (\<lambda>s2. (-1, s2)) (uvmunmap k u page 1 True s1) else Ok (0, s1))"

definition synced :: "u64 \<Rightarrow> u64 \<Rightarrow> u64 \<Rightarrow> u64 \<Rightarrow> u64 \<Rightarrow> kmem \<Rightarrow> kmem \<Rightarrow> bool" where
  "synced u r page e f s s' \<longleftrightarrow> pte_of (km_mem s') u = pte_of (km_mem s) u \<and> krefs s' f = krefs s f \<and> (\<forall>a. in_page f a \<longrightarrow> km_mem s' a = km_mem s a) \<and>
     (\<forall>va. same_idx page va \<longrightarrow> pte_of (km_mem s') r va = e AND NOT PTE_U)"

lemma sync_or_undo_ok:
  assumes two: "two_ok k s u r" and page: "page_aligned page" "page < MAXUVA"
    and e: "e = pte_of (km_mem s) u page" "e AND PTE_V \<noteq> 0" "PTE_FLAGS e \<noteq> PTE_V" "PTE2PA e = f"
    and out: "outer k u r s0 s" and f: "used_frame k s f" "f \<notin> pt_tables (km_mem s) u \<union> pt_tables (km_mem s) r" "\<not> used_frame k s0 f"
  shows "\<exists>c s'. sync_or_undo k u r page s = Ok (c, s') \<and> two_ok k s' u r \<and> outer k u r s0 s' \<and> same_elsewhere s u r page s' \<and>
    (c = 0 \<and> synced u r page e f s s' \<or> c = -1 \<and> pte_of (km_mem s') u page AND PTE_V = 0)"
proof -
  obtain c s1 where s1: "vm_sync_user_page k u r page s = Ok (c, s1)" "two_ok k s1 u r" "outer k u r s s1" "pte_of (km_mem s1) u = pte_of (km_mem s) u"
    "c = 0 \<and> (\<forall>va. pte_of (km_mem s1) r va = (if same_idx page va then e AND NOT PTE_U else pte_of (km_mem s) r va)) \<or>
     c = -1 \<and> pte_of (km_mem s1) r = pte_of (km_mem s) r"
    using sync_ok [OF two page e(1,2)] by blast
  have f1: "used_frame k s1 f" "f \<notin> pt_tables (km_mem s1) u \<union> pt_tables (km_mem s1) r" "krefs s1 f = krefs s f"
    "\<forall>a. in_page f a \<longrightarrow> km_mem s1 a = km_mem s a" using s1(3) f(1,2) by (auto simp: outer_def)
  have o1: "outer k u r s0 s1" using outer_trans [OF out s1(3)] .
  show ?thesis
  proof (cases "c = 0")
    case True
    then have "synced u r page e f s s1" "same_elsewhere s u r page s1"
      using s1(4,5) f1(3,4) by (auto simp: synced_def same_elsewhere_def)
    moreover have "sync_or_undo k u r page s = Ok (0, s1)" using s1(1) True by (simp add: sync_or_undo_def)
    ultimately show ?thesis using s1(2) o1 by blast
  next
    case False
    then have c: "c = -1" "pte_of (km_mem s1) r = pte_of (km_mem s) r" using s1(5) by auto
    have e1: "e = pte_of (km_mem s1) u page" using s1(4) e(1) by simp
    obtain p where p: "node0 (km_mem s1) u page = Some p" using e(2) e1 by (auto simp: pte_of_def split: option.splits)
    obtain s2 where s2: "kfree k s1 f = Ok s2" "two_ok k s2 u r" "outer k u r s0 s2" "pte_of (km_mem s2) u = pte_of (km_mem s1) u"
      "pte_of (km_mem s2) r = pte_of (km_mem s1) r" "node0 (km_mem s2) u = node0 (km_mem s1) u" using undo_alloc [OF s1(2) o1 f1(1,2) f(3)] by blast
    have ok: "vm_ok k s1 u" "vm_ok k s2 u" using s1(2) s2(2) by (simp_all add: two_ok_def)
    have p2: "node0 (km_mem s2) u page = Some p" using s2(6) p by simp
    note B = two_kset [OF s2(2) p2, where v = 0] and L = kset_leaf [OF ok(2) p2, of 0]
    let ?s3 = "kset s2 (slot p 0 page) 0"
    have "sync_or_undo k u r page s = Ok (-1, ?s3)"
      using s1(1) c(1) unmap_node [OF ok(1) page p e1 e(2,3)] e(4) s2(1) by (simp add: sync_or_undo_def)
    moreover have "outer k u r s0 ?s3" using outer_trans [OF s2(3)] outer_grows(1) [OF s2(2) L(2,1)] by blast
    moreover have "pte_of (km_mem ?s3) u page AND PTE_V = 0" using B(2) by (simp add: same_idx_def)
    moreover have "same_elsewhere s u r page ?s3" using B(2,4) s2(4,5) s1(4) c(2) by (simp add: same_elsewhere_def)
    ultimately show ?thesis using B(1) by blast
  qed
qed

lemma uvm_fault_alloc_ok:
  assumes two: "two_ok k s u r" and page: "page_aligned page" "page < MAXUVA" and v: "pte_of (km_mem s) u page AND PTE_V = 0"
    and perm: "unat (perm OR PTE_U OR PTE_V) < 1024" "perm OR PTE_U OR PTE_V \<noteq> PTE_V"
  shows "\<exists>c s'. uvm_fault_alloc k u r u page perm s = Ok (c, s') \<and> two_ok k s' u r \<and> outer k u r s s' \<and> same_elsewhere s u r page s' \<and>
    (c = 0 \<and> (\<exists>f. zero_mapped k s u r page (PA2PTE f OR (perm OR PTE_U) OR PTE_V) f s') \<or> c = -1 \<and> pte_of (km_mem s') u page AND PTE_V = 0)"
proof -
  have ok: "vm_ok k s u" and h: "ke_hart k < NCPU" "kalloc_inv (ke_end k) s" using two by (auto simp: two_ok_def vm_ok_def)
  obtain pte where w: "walk k u page False s = Ok (pte, s)" "\<not> (pte \<noteq> 0 \<and> km_mem s pte AND PTE_V \<noteq> 0)"
    using walk_valid [OF ok page_below_maxva [OF page(2)]] v by blast
  obtain mem s2 where al: "kalloc k s = (mem, s2)" by (cases "kalloc k s")
  have self: "same_idx page page" by (simp add: same_idx_def)
  have arg: "\<not> (u \<noteq> u \<or> page mod PGSIZE \<noteq> 0 \<or> MAXUVA \<le> page)" using page by (simp add: page_aligned_def not_le)
  show ?thesis
  proof (cases "mem = 0")
    case True
    then have "s2 = s" using kalloc_page_null [OF h(2,1)] al by simp
    then have "uvm_fault_alloc k u r u page perm s = Ok (-1, s)"
      using arg w al True unfolding uvm_fault_alloc_def by auto
    then show ?thesis using two v by (auto simp: outer_refl same_elsewhere_def)
  next
    case False
    let ?m = "page_fill (km_mem s2) mem 0"
    define s3 where "s3 = kzero s2 mem"
    have s3: "s3 = s2\<lparr>km_mem := ?m\<rparr>" by (simp add: s3_def kzero_def)
    have "\<And>a. \<not> in_page mem a \<Longrightarrow> ?m a = km_mem s2 a" by (simp add: page_fill_def)
    note K = alloc_fill_keeps [OF h al False this, folded s3]
    note T = two_keeps [OF two K(1)]
    have tabs: "mem \<notin> pt_tables (km_mem s3) u \<union> pt_tables (km_mem s3) r" using K(2) T(6,7) two by (auto simp: two_ok_def vm_ok_def)
    have o3: "outer k u r s s3" by (rule outer_keeps [OF two K(1)])
    have v3: "pte_of (km_mem s3) u page AND PTE_V = 0" using v T(2) by simp
    let ?e = "PA2PTE mem OR (perm OR PTE_U) OR PTE_V"
    have pa: "PTE2PA ?e = mem" "PTE_FLAGS ?e = perm OR PTE_U OR PTE_V"
      using PTE2PA_PA2PTE [OF K(5,6) perm(1)] PTE_FLAGS_PA2PTE [OF perm(1), of mem] by (simp_all add: or.assoc)
    have ev: "?e AND PTE_V \<noteq> 0" unfolding pte_bits bit_ops bit_exp by simp
    obtain c4 s4 where s4: "mappages k u page PGSIZE mem (perm OR PTE_U) s3 = Ok (c4, s4)" "two_ok k s4 u r" "outer k u r s3 s4"
      "pte_of (km_mem s4) r = pte_of (km_mem s3) r"
      "c4 = 0 \<and> (\<forall>va. pte_of (km_mem s4) u va = (if same_idx page va then ?e else pte_of (km_mem s3) u va)) \<or>
       c4 = -1 \<and> pte_of (km_mem s4) u = pte_of (km_mem s3) u"
      using map_one [OF T(1) page v3] by blast
    have m4: "used_frame k s4 mem" "mem \<notin> pt_tables (km_mem s4) u \<union> pt_tables (km_mem s4) r" "krefs s4 mem = krefs s3 mem"
      "\<forall>a. in_page mem a \<longrightarrow> km_mem s4 a = km_mem s3 a" using s4(3) K(3) tabs by (auto simp: outer_def)
    have o4: "outer k u r s s4" using outer_trans [OF o3 s4(3)] .
    have run: "uvm_fault_alloc k u r u page perm s = (if c4 \<noteq> 0 then rmap (\<lambda>s4. (-1, s4)) (kfree k s4 mem)
        else rbind (vm_sync_user_page k u r page s4) (\<lambda>(c, s5). if c < 0 then rmap (\<lambda>s5. (-1, s5)) (uvmunmap k u page 1 True s5) else Ok (0, s5)))"
      using arg w al False s4(1) unfolding uvm_fault_alloc_def s3_def by auto
    show ?thesis
    proof (cases "c4 = 0")
      case False
      then have c: "c4 = -1" "pte_of (km_mem s4) u = pte_of (km_mem s3) u" using s4(5) by auto
      obtain s5 where s5: "kfree k s4 mem = Ok s5" "two_ok k s5 u r" "outer k u r s s5" "pte_of (km_mem s5) u = pte_of (km_mem s4) u"
        "pte_of (km_mem s5) r = pte_of (km_mem s4) r" using undo_alloc [OF s4(2) o4 m4(1,2) K(2)] by blast
      have "uvm_fault_alloc k u r u page perm s = Ok (-1, s5)" using run c(1) s5(1) by simp
      then show ?thesis using s5 c(2) s4(4) T(2,4) v by (auto simp: same_elsewhere_def)
    next
      case True
      then have u4: "\<And>va. pte_of (km_mem s4) u va = (if same_idx page va then ?e else pte_of (km_mem s3) u va)" using s4(5) by auto
      have e4: "?e = pte_of (km_mem s4) u page" using u4 self by simp
      obtain c s' where s': "sync_or_undo k u r page s4 = Ok (c, s')" "two_ok k s' u r" "outer k u r s s'" "same_elsewhere s4 u r page s'"
        "c = 0 \<and> synced u r page ?e mem s4 s' \<or> c = -1 \<and> pte_of (km_mem s') u page AND PTE_V = 0"
        using sync_or_undo_ok [OF s4(2) page e4 ev _ pa(1) o4 m4(1,2) K(2)] pa(2) perm(2) by auto
      have z: "km_mem s3 a = 0" if "in_page mem a" for a using that by (simp add: s3 page_fill_def)
      have "zero_mapped k s u r page ?e mem s'" if "synced u r page ?e mem s4 s'"
        unfolding zero_mapped_def using that K(2,4) m4(3,4) z pa(1) u4 by (simp add: synced_def)
      moreover have "same_elsewhere s u r page s'" using s'(4) u4 s4(4) T(2,4) by (simp add: same_elsewhere_def)
      moreover have "uvm_fault_alloc k u r u page perm s = Ok (c, s')" using run True s'(1) by (simp add: sync_or_undo_def)
      ultimately show ?thesis using s'(2,3,5) by blast
    qed
  qed
qed

section \<open>Resolution of the fault\<close>

lemma bit_PA2PTE: "n < 10 \<Longrightarrow> bit (PA2PTE f OR w) n = bit w n"
  unfolding PA2PTE_def by (auto simp: bit_or_iff bit_push_bit_iff)

definition area_perm :: "proc \<Rightarrow> u64 \<Rightarrow> u64" where
  "area_perm p address = (if address < p_sz p then PTE_R OR PTE_W OR PTE_X else PTE_R OR PTE_W)"

lemma area_entry:
  fixes f :: u64
  assumes "address < p_sz p \<or> access \<noteq> VM_FAULT_EXEC"
  defines "e \<equiv> PA2PTE f OR (area_perm p address OR PTE_U) OR PTE_V"
  shows "vm_fault_pte_allows e access" "(e AND NOT PTE_U) AND PTE_V \<noteq> 0" "(e AND NOT PTE_U) AND access_bit access \<noteq> 0" "(e AND NOT PTE_U) AND PTE_U = 0"
    "PTE2PA (e AND NOT PTE_U) = PTE2PA e" "unat (area_perm p address OR PTE_U OR PTE_V) < 1024" "area_perm p address OR PTE_U OR PTE_V \<noteq> PTE_V"
proof -
  let ?w = "(area_perm p address OR PTE_U) OR PTE_V"
  have w: "bit ?w 0" "bit ?w 4" "bit ?w 1" "bit ?w 2" "address < p_sz p \<Longrightarrow> bit ?w 3"
    by (simp_all add: area_perm_def bit_or_iff)
  then have b: "bit e 0" "bit e 4" "bit e 1" "bit e 2" "address < p_sz p \<Longrightarrow> bit e 3" by (simp_all add: e_def bit_PA2PTE)
  have a: "e AND access_bit access \<noteq> 0"
    using assms(1) b by (cases access) (auto simp: access_bit_def pte_bits)
  then show "vm_fault_pte_allows e access" using b by (simp add: vm_fault_pte_allows_def pte_bits)
  show "(e AND NOT PTE_U) AND PTE_V \<noteq> 0" "(e AND NOT PTE_U) AND PTE_U = 0" using b unfolding pte_bits pte_clear bit_ops bit_exp by auto
  show "(e AND NOT PTE_U) AND access_bit access \<noteq> 0"
    using a unfolding access_bit_def by (cases access) (simp_all only: vm_fault_access.case pte_bits bit_ops bit_exp, simp_all)
  show "PTE2PA (e AND NOT PTE_U) = PTE2PA e" by (rule PTE2PA_low, unfold bit_ops bit_exp) (auto dest: bit_lt64)
  show "unat (area_perm p address OR PTE_U OR PTE_V) < 1024" "area_perm p address OR PTE_U OR PTE_V \<noteq> PTE_V"
    by (simp_all add: area_perm_def)
qed



end
