(* ===== verification/ObjAlloc.thy ===== *)
theory ObjAlloc
  imports Prelude
begin

text \<open>
  The contract of an object allocator, the interface through which drivers and the memory-mapping code use
  \<^verbatim>\<open>kmalloc\<close> and \<^verbatim>\<open>kfree\<close>: \<open>live\<close> is the set of objects that are allocated, each with its size in bytes.
\<close>

definition span :: "u64 \<times> nat \<Rightarrow> u64 set" where
  "span x = {a. unat (fst x) \<le> unat a \<and> unat a < unat (fst x) + snd x}"

text \<open>Objects that share no byte.\<close>

definition disjoint_objects :: "(u64 \<times> nat) set \<Rightarrow> bool" where
  "disjoint_objects A \<longleftrightarrow> (\<forall>x \<in> A. \<forall>y \<in> A. x \<noteq> y \<longrightarrow> span x \<inter> span y = {})"

text \<open>A sequence of requests, and the release of a list of objects.\<close>

primrec malloc_all :: "('n \<Rightarrow> 's \<Rightarrow> (u64 \<times> 's) res) \<Rightarrow> 'n list \<Rightarrow> 's \<Rightarrow> (u64 list \<times> 's) res" where
  "malloc_all malloc [] s = Ok ([], s)"
| "malloc_all malloc (n # ns) s =
     rbind (malloc n s) (\<lambda>(p, s1). rmap (\<lambda>(ps, s2). (p # ps, s2)) (malloc_all malloc ns s1))"

locale object_allocator =
  fixes invar :: "'s \<Rightarrow> bool"
    and live :: "'s \<Rightarrow> (u64 \<times> nat) set"
    and malloc :: "u64 \<Rightarrow> 's \<Rightarrow> (u64 \<times> 's) res"
    and free :: "u64 \<Rightarrow> 's \<Rightarrow> 's res"
  assumes live_disjoint: "invar s \<Longrightarrow> disjoint_objects (live s)"
    and live_nonnull: "invar s \<Longrightarrow> (p, k) \<in> live s \<Longrightarrow> p \<noteq> 0"
    and malloc_ok: "invar s \<Longrightarrow> \<exists>p s'. malloc n s = Ok (p, s') \<and> invar s' \<and>
      (p = 0 \<and> s' = s \<or> (\<exists>k. unat n \<le> k \<and> (p, k) \<notin> live s \<and> live s' = insert (p, k) (live s)))"
    and free_ok: "invar s \<Longrightarrow> (p, k) \<in> live s \<Longrightarrow> \<exists>s'. free p s = Ok s' \<and> invar s' \<and> live s' = live s - {(p, k)}"
begin

text \<open>Whatever sequence of requests is made, the objects that were granted are new and large enough.\<close>

lemma malloc_all_ok:
  assumes "invar s"
  shows "\<exists>ps s'. malloc_all malloc ns s = Ok (ps, s') \<and> invar s' \<and> length ps = length ns \<and> live s \<subseteq> live s' \<and>
    (\<forall>i < length ns. ps ! i \<noteq> 0 \<longrightarrow> (\<exists>k. unat (ns ! i) \<le> k \<and> (ps ! i, k) \<in> live s' - live s))"
  using assms
proof (induction ns arbitrary: s)
  case (Cons n ns)
  obtain p s1 where a: "malloc n s = Ok (p, s1)" "invar s1"
    "p = 0 \<and> s1 = s \<or> (\<exists>k. unat n \<le> k \<and> (p, k) \<notin> live s \<and> live s1 = insert (p, k) (live s))"
    using malloc_ok [OF Cons.prems, of n] by auto
  obtain ps s2 where b: "malloc_all malloc ns s1 = Ok (ps, s2)" "invar s2" "length ps = length ns" "live s1 \<subseteq> live s2"
    "\<forall>i < length ns. ps ! i \<noteq> 0 \<longrightarrow> (\<exists>k. unat (ns ! i) \<le> k \<and> (ps ! i, k) \<in> live s2 - live s1)"
    using Cons.IH [OF a(2)] by auto
  have sub: "live s \<subseteq> live s1" using a(3) by auto
  have first: "p \<noteq> 0 \<longrightarrow> (\<exists>k. unat n \<le> k \<and> (p, k) \<in> live s2 - live s)" using a(3) b(4) by auto
  have "(p # ps) ! i \<noteq> 0 \<longrightarrow> (\<exists>k. unat ((n # ns) ! i) \<le> k \<and> ((p # ps) ! i, k) \<in> live s2 - live s)"
    if "i < length (n # ns)" for i
    using that first b(5) sub by (cases i) auto
  with a(1) b sub show ?case by auto
qed simp

text \<open>An object that is allocated and released again leaves the others as they were.\<close>

lemma malloc_free:
  assumes "invar s" and "malloc n s = Ok (p, s')" and "p \<noteq> 0"
  shows "\<exists>s''. free p s' = Ok s'' \<and> invar s'' \<and> live s'' = live s"
proof -
  obtain k where k: "invar s'" "(p, k) \<notin> live s" "live s' = insert (p, k) (live s)"
    using malloc_ok [OF assms(1), of n] assms(2,3) by auto
  then show ?thesis using free_ok [of s' p k] by auto
qed

end

end
