(* ===== verification/Kmalloc.thy ===== *)
theory Kmalloc
  imports Kalloc ObjAlloc
begin

text \<open>
  \<^verbatim>\<open>kernel/vm/kmalloc.c\<close>: objects of up to 2048 bytes, cut out of page frames. A frame in use by the allocator
  (a slab) starts with a header, \<^verbatim>\<open>struct slab_page\<close>; behind it lie the objects of one size, the free ones linked
  through their first word. The slabs of a size form a list that starts in the table \<^verbatim>\<open>slab_buckets\<close>.

  The header and the links are kept in the physical memory of \<open>Kalloc\<close>, where the code has them. A word of
  memory holds two fields of type \<^verbatim>\<open>uint\<close>, the first in its low half. The searches follow
  lists in memory and get the number of frames below \<^verbatim>\<open>PHYSTOP\<close> as fuel.
\<close>

section \<open>Slabs in memory\<close>

definition lo32 :: "u64 \<Rightarrow> u32" where "lo32 w = ucast w"

definition hi32 :: "u64 \<Rightarrow> u32" where "hi32 w = ucast (drop_bit 32 w)"

definition set_lo32 :: "u32 \<Rightarrow> u64 \<Rightarrow> u64" where "set_lo32 v w = push_bit 32 (drop_bit 32 w) OR ucast v"

definition set_hi32 :: "u32 \<Rightarrow> u64 \<Rightarrow> u64" where "set_hi32 v w = push_bit 32 (ucast v) OR take_bit 32 w"

definition slab_magic :: "pmem \<Rightarrow> u64 \<Rightarrow> u32" where "slab_magic m p = lo32 (m p)"
definition slab_obj_size :: "pmem \<Rightarrow> u64 \<Rightarrow> u32" where "slab_obj_size m p = hi32 (m p)"
definition slab_total :: "pmem \<Rightarrow> u64 \<Rightarrow> u32" where "slab_total m p = lo32 (m (p + 8))"
definition slab_free_count :: "pmem \<Rightarrow> u64 \<Rightarrow> u32" where "slab_free_count m p = hi32 (m (p + 8))"
definition slab_next :: "pmem \<Rightarrow> u64 \<Rightarrow> u64" where "slab_next m p = m (p + 16)"
definition slab_free_list :: "pmem \<Rightarrow> u64 \<Rightarrow> u64" where "slab_free_list m p = m (p + 24)"

definition upd_word :: "u64 \<Rightarrow> (u64 \<Rightarrow> u64) \<Rightarrow> pmem \<Rightarrow> pmem" where "upd_word a f m = m(a := f (m a))"

definition set_free_count :: "u64 \<Rightarrow> u32 \<Rightarrow> pmem \<Rightarrow> pmem" where "set_free_count p v = upd_word (p + 8) (set_hi32 v)"

abbreviation (input) SLAB_MAGIC :: u32 where "SLAB_MAGIC \<equiv> 0x51ab51ab"

text \<open>\<^verbatim>\<open>memset(a, c, n)\<close>, with \<open>w\<close> the byte \<open>c\<close> repeated eight times.\<close>

definition range_fill :: "pmem \<Rightarrow> u64 \<Rightarrow> u32 \<Rightarrow> u64 \<Rightarrow> pmem" where
  "range_fill m a n w = (\<lambda>x. if x - a < ucast n then w else m x)"

record slab_bucket =
  sb_obj_size :: u32
  sb_slabs :: u64

record kmst =
  ks_k :: kmem
  ks_buckets :: "slab_bucket list"

definition slab_sizes :: "u32 list" where "slab_sizes = [16, 32, 64, 128, 256, 512, 1024, 2048]"

definition kminit :: "kmem \<Rightarrow> kmst" where
  "kminit k = \<lparr>ks_k = k, ks_buckets = map (\<lambda>n. \<lparr>sb_obj_size = n, sb_slabs = 0\<rparr>) slab_sizes\<rparr>"

definition slab_bucket_index :: "kmst \<Rightarrow> u64 \<Rightarrow> nat option" where
  "slab_bucket_index s n = first_idx (\<lambda>i. n \<le> ucast (sb_obj_size (ks_buckets s ! i))) [0..<8]"

definition align_up :: "u64 \<Rightarrow> u64 \<Rightarrow> u64" where
  "align_up v a = (v + a - 1) AND NOT (a - 1)"

text \<open>The structure \<^verbatim>\<open>slab_page\<close> has four \<^verbatim>\<open>uint\<close> and two pointers, 32 bytes.\<close>

definition slab_data_offset :: u64 where "slab_data_offset = align_up 32 16"

section \<open>Operations\<close>

abbreviation (input) with_mem :: "(pmem \<Rightarrow> pmem) \<Rightarrow> kmst \<Rightarrow> kmst" where
  "with_mem f s \<equiv> s\<lparr>ks_k := (ks_k s)\<lparr>km_mem := f (km_mem (ks_k s))\<rparr>\<rparr>"

abbreviation (input) set_slabs :: "nat \<Rightarrow> u64 \<Rightarrow> kmst \<Rightarrow> kmst" where
  "set_slabs i p s \<equiv> s\<lparr>ks_buckets := (ks_buckets s)[i := (ks_buckets s ! i)\<lparr>sb_slabs := p\<rparr>]\<rparr>"

fun slab_find :: "nat \<Rightarrow> pmem \<Rightarrow> u64 \<Rightarrow> u64 res" where
  "slab_find n m slab =
     (if slab = 0 \<or> 0 < slab_free_count m slab then Ok slab
      else case n of 0 \<Rightarrow> Panic ''fuel'' | Suc n \<Rightarrow> slab_find n m (slab_next m slab))"

declare slab_find.simps [simp del]

definition slab_push :: "u64 \<Rightarrow> u64 \<Rightarrow> pmem \<Rightarrow> pmem" where
  "slab_push slab node m =
     (let m1 = m(node := slab_free_list m slab); m2 = m1(slab + 24 := node)
      in set_free_count slab (slab_free_count m2 slab + 1) m2)"

definition slab_cut :: "u64 \<Rightarrow> u32 \<Rightarrow> u32 \<Rightarrow> nat list \<Rightarrow> pmem \<Rightarrow> pmem" where
  "slab_cut page offset obj_size is m =
     fold (\<lambda>i. slab_push page (page + ucast offset + ucast (of_nat i * obj_size))) is m"

definition slab_init :: "u64 \<Rightarrow> u32 \<Rightarrow> pmem \<Rightarrow> pmem" where
  "slab_init page obj_size m =
     (let m1 = upd_word page (\<lambda>w. set_hi32 obj_size (set_lo32 SLAB_MAGIC w)) m;
          m2 = (set_free_count page 0 m1)(page + 24 := 0);
          offset = ucast slab_data_offset :: u32;
          total = (4096 - offset) div obj_size
      in slab_cut page offset obj_size [0..<unat total] (upd_word (page + 8) (set_lo32 total) m2))"

text \<open>The head of the free list of a slab, taken under the lock of the bucket, and then filled with junk.\<close>

definition slab_take :: "u64 \<Rightarrow> u32 \<Rightarrow> kmst \<Rightarrow> u64 \<times> kmst" where
  "slab_take slab obj_size s =
     (let m = km_mem (ks_k s); node = slab_free_list m slab;
          m1 = m(slab + 24 := m node)
      in (node, with_mem (\<lambda>_. range_fill (set_free_count slab (slab_free_count m1 slab - 1) m1) node obj_size junk_alloc) s))"

definition kmalloc :: "nat \<Rightarrow> u64 \<Rightarrow> kmst \<Rightarrow> (u64 \<times> kmst) res" where
  "kmalloc hart n s =
     (if n = 0 then Ok (0, s)
      else case slab_bucket_index s n of
        None \<Rightarrow> Ok (0, s)
      | Some i \<Rightarrow>
          let obj_size = sb_obj_size (ks_buckets s ! i)
          in rbind (slab_find 525824 (km_mem (ks_k s)) (sb_slabs (ks_buckets s ! i))) (\<lambda>slab.
               if slab \<noteq> 0 then Ok (slab_take slab obj_size s)
               else let (page, k1) = kalloc_page hart (ks_k s); s1 = s\<lparr>ks_k := k1\<rparr>
                    in if page = 0 then Ok (0, s1)
                       else let s2 = with_mem (slab_init page obj_size) s1;
                                s3 = with_mem (\<lambda>m. m(page + 16 := sb_slabs (ks_buckets s2 ! i))) s2
                            in Ok (slab_take page obj_size (set_slabs i page s3))))"

text \<open>The link that points to a slab: \<open>None\<close> is the field \<^verbatim>\<open>slabs\<close> of the bucket, \<open>Some q\<close> the field \<^verbatim>\<open>next\<close> of \<open>q\<close>.\<close>

fun slab_prev :: "nat \<Rightarrow> pmem \<Rightarrow> u64 option \<Rightarrow> u64 \<Rightarrow> u64 \<Rightarrow> u64 option res" where
  "slab_prev n m prev cur slab =
     (if cur = 0 then Panic ''kfree: missing slab''
      else if cur = slab then Ok prev
      else case n of 0 \<Rightarrow> Panic ''fuel'' | Suc n \<Rightarrow> slab_prev n m (Some cur) (slab_next m cur) slab)"

declare slab_prev.simps [simp del]

definition slab_unlink :: "nat \<Rightarrow> u64 \<Rightarrow> kmst \<Rightarrow> kmst res" where
  "slab_unlink i slab s =
     (let m = km_mem (ks_k s)
      in rmap (\<lambda>prev.
           let s1 = (case prev of None \<Rightarrow> set_slabs i (slab_next m slab) s
                     | Some q \<Rightarrow> with_mem (\<lambda>m. m(q + 16 := slab_next m slab)) s)
           in with_mem (upd_word slab (set_lo32 0)) s1)
         (slab_prev 525824 m None (sb_slabs (ks_buckets s ! i)) slab))"

definition kfree :: "u64 \<Rightarrow> nat \<Rightarrow> u64 \<Rightarrow> kmst \<Rightarrow> kmst res" where
  "kfree kend hart ptr s =
     (if ptr = 0 then Ok s
      else let page = PGROUNDDOWN ptr; m = km_mem (ks_k s)
      in if page < kend \<or> PHYSTOP \<le> page then Panic ''kfree''
         else if slab_magic m page \<noteq> SLAB_MAGIC then Panic ''kfree: not kmalloc object''
         else case slab_bucket_index s (ucast (slab_obj_size m page)) of
           None \<Rightarrow> Panic ''kfree: bad slab''
         | Some i \<Rightarrow>
             if sb_obj_size (ks_buckets s ! i) \<noteq> slab_obj_size m page then Panic ''kfree: bad slab''
             else if ptr < page + slab_data_offset \<or> page + PGSIZE \<le> ptr \<or>
                     (ptr - page - slab_data_offset) mod ucast (slab_obj_size m page) \<noteq> 0 then Panic ''kfree: bad object''
             else if slab_total m page \<le> slab_free_count m page then Panic ''kfree: full slab''
             else let s1 = with_mem (\<lambda>m. slab_push page ptr (range_fill m ptr (slab_obj_size m page) junk_freed)) s;
                      m1 = km_mem (ks_k s1)
                  in if slab_free_count m1 page = slab_total m1 page
                     then rbind (slab_unlink i page s1) (\<lambda>s2. rmap (\<lambda>k. s2\<lparr>ks_k := k\<rparr>) (kfree_page kend hart (ks_k s2) page))
                     else Ok s1)"

section \<open>Objects and slabs\<close>

lemma half_words [simp]:
  "lo32 (set_lo32 v w) = v" "hi32 (set_lo32 v w) = hi32 w" "lo32 (set_hi32 v w) = lo32 w" "hi32 (set_hi32 v w) = v"
  by (rule bit_eqI, simp add: lo32_def hi32_def set_lo32_def set_hi32_def bit_simps; auto dest: bit_imp_le_length)+

lemma slab_data_offset_eq [simp]: "slab_data_offset = 32"
  by (simp add: slab_data_offset_def align_up_def)

definition obj :: "nat \<Rightarrow> u64 \<Rightarrow> nat \<Rightarrow> u64" where
  "obj n p i = p + of_nat (32 + i * n)"

definition capacity :: "nat \<Rightarrow> nat" where
  "capacity n = 4064 div n"

definition slab_objs :: "nat \<Rightarrow> u64 \<Rightarrow> u64 set" where
  "slab_objs n p = obj n p ` {..<capacity n}"

text \<open>Offsets in a page. Two addresses are equal when their offsets are.\<close>

abbreviation (input) off :: "u64 \<Rightarrow> u64 \<Rightarrow> nat" where "off p a \<equiv> unat (a - p)"

lemma off_eq: "a = b \<longleftrightarrow> off p a = off p b"
  by (metis diff_add_cancel word_unat_eq_iff)

lemma in_page_off: "in_page p a \<longleftrightarrow> off p a < 4096"
  by (simp add: in_page_def word_less_nat_alt)

lemma obj_bound:
  assumes "i < capacity n" and "0 < n"
  shows "32 + i * n + n \<le> 4096"
proof -
  have "Suc i * n \<le> capacity n * n" using assms by (intro mult_le_mono1) simp
  also have "\<dots> \<le> 4064" by (simp add: capacity_def)
  finally show ?thesis by simp
qed

lemma off_obj [simp]:
  assumes "i < capacity n" and "0 < n"
  shows "off p (obj n p i) = 32 + i * n"
proof -
  have "32 + i * n < 2 ^ 64" using obj_bound [OF assms] by simp
  then show ?thesis by (simp only: obj_def add_diff_cancel_left' unat_of_frame)
qed

lemma word_range:
  fixes d k c :: u64
  assumes "unat k + unat c < 2 ^ 64"
  shows "d - k < c \<longleftrightarrow> unat k \<le> unat d \<and> unat d < unat k + unat c"
  using assms unat_lt64 [of d] by (simp add: word_less_nat_alt unat_sub_if') linarith

lemma obj_range:
  fixes n :: u32
  assumes "i < capacity (unat n)" and "0 < unat n"
  shows "x - obj (unat n) p i < ucast n \<longleftrightarrow> 32 + i * unat n \<le> off p x \<and> off p x < 32 + i * unat n + unat n"
proof -
  have e: "x - obj (unat n) p i = (x - p) - of_nat (32 + i * unat n)" by (simp add: obj_def)
  have k: "unat (of_nat (32 + i * unat n) :: u64) = 32 + i * unat n"
    using obj_bound [OF assms] by (intro unat_of_frame) simp
  have c: "unat (ucast n :: u64) = unat n" by simp
  show ?thesis unfolding e
    using word_range [of "of_nat (32 + i * unat n)" "ucast n" "x - p", unfolded k c] obj_bound [OF assms] by simp
qed

lemma obj_inj:
  assumes "obj n p i = obj n p j" and "i < capacity n" and "j < capacity n" and "0 < n"
  shows "i = j"
proof -
  have "off p (obj n p i) = off p (obj n p j)" using assms(1) by simp
  with assms(2-) show ?thesis by simp
qed

text \<open>An object touches no other object of its slab and not the header.\<close>

lemma other_obj:
  assumes "i < capacity n" and "j < capacity n" and "0 < n" and "i \<noteq> j"
  shows "\<not> (32 + i * n \<le> x \<and> x < 32 + i * n + n \<and> 32 + j * n \<le> x \<and> x < 32 + j * n + n)"
proof -
  have "Suc i * n \<le> j * n \<or> Suc j * n \<le> i * n" using assms(4) by (metis Suc_leI linorder_neqE_nat mult_le_mono1)
  then show ?thesis by auto
qed

lemma slab_objsE:
  assumes "x \<in> slab_objs n p" and "0 < n"
  obtains i where "i < capacity n" and "x = obj n p i" and "off p x = 32 + i * n" and "32 + i * n + n \<le> 4096"
  using assms obj_bound off_obj by (auto simp: slab_objs_def)

lemma slab_objs_header:
  assumes "x \<in> slab_objs n p" and "0 < n"
  shows "in_page p x" "x \<noteq> p" "x \<noteq> p + 8" "x \<noteq> p + 16" "x \<noteq> p + 24" "p \<noteq> x" "p + 8 \<noteq> x" "p + 16 \<noteq> x" "p + 24 \<noteq> x"
proof -
  have o: "32 \<le> off p x" "off p x < 4096" using assms by (auto elim!: slab_objsE)
  then show "in_page p x" by (simp add: in_page_off)
  show "x \<noteq> p" "x \<noteq> p + 8" "x \<noteq> p + 16" "x \<noteq> p + 24" using o by auto
  then show "p \<noteq> x" "p + 8 \<noteq> x" "p + 16 \<noteq> x" "p + 24 \<noteq> x" by auto
qed

lemma unat_in_page:
  assumes "p \<in> good_pages kend" and "in_page p a"
  shows "unat a = unat p + off p a"
proof -
  have "unat p < 2 ^ 56" "off p a < 4096" using assms good_pages_bound in_page_off by blast+
  then show ?thesis using unat_word_ariths(1) [of p "a - p"] by simp
qed

lemma obj_nonnull:
  assumes "p \<in> good_pages kend" and "x \<in> slab_objs n p"
  shows "x \<noteq> 0"
proof (cases "0 < n")
  case True
  then show ?thesis using unat_in_page [OF assms(1) slab_objs_header(1) [OF assms(2) True]] good_pages_bound [OF assms(1)]
    by (metis add_is_0 unat_0 unat_0_iff)
qed (use assms(2) in \<open>simp add: slab_objs_def capacity_def\<close>)

lemma header_in_page [simp]: "in_page p (p + 8)" "in_page p (p + 16)" "in_page p (p + 24)"
  by (simp_all add: in_page_def)

text \<open>A slab with objects of \<open>n\<close> bytes whose free objects are \<open>fl\<close>.\<close>

definition slab_ok :: "pmem \<Rightarrow> u32 \<Rightarrow> u64 \<Rightarrow> u64 list \<Rightarrow> bool" where
  "slab_ok m n p fl \<longleftrightarrow> slab_magic m p = SLAB_MAGIC \<and> slab_obj_size m p = n \<and> slab_total m p = of_nat (capacity (unat n)) \<and>
     slab_free_count m p = of_nat (length fl) \<and> chain m (slab_free_list m p) fl \<and> distinct fl \<and> set fl \<subseteq> slab_objs (unat n) p"

lemmas slab_fields = slab_magic_def slab_obj_size_def slab_total_def slab_free_count_def slab_next_def slab_free_list_def

lemma slab_ok_cong:
  assumes "0 < unat n" and "\<And>a. in_page p a \<Longrightarrow> a \<noteq> p + 16 \<Longrightarrow> m' a = m a"
  shows "slab_ok m' n p fl = slab_ok m n p fl"
proof -
  have "p + 8 \<noteq> p + 16" "p + 24 \<noteq> p + 16" "p \<noteq> p + 16" by simp_all
  then have h: "m' p = m p" "m' (p + 8) = m (p + 8)" "m' (p + 24) = m (p + 24)" using assms(2) by simp_all
  have "chain m' x fl = chain m x fl" if "set fl \<subseteq> slab_objs (unat n) p" for x
  proof (rule chain_cong)
    fix q assume "q \<in> set fl"
    then have "q \<in> slab_objs (unat n) p" using that by auto
    then show "m' q = m q" using assms slab_objs_header [of q "unat n" p] by auto
  qed
  with h show ?thesis by (auto simp: slab_ok_def slab_fields)
qed

text \<open>Filling an object that is in use.\<close>

lemma range_fill_off:
  assumes "i < capacity (unat n)" and "0 < unat n"
  shows "range_fill m (obj (unat n) p i) n w a = (if 32 + i * unat n \<le> off p a \<and> off p a < 32 + i * unat n + unat n then w else m a)"
  using obj_range [OF assms, of a p] by (simp add: range_fill_def)

lemma range_fill_ok:
  assumes "slab_ok m n p fl" and "x \<in> slab_objs (unat n) p" and "x \<notin> set fl" and "0 < unat n"
  shows "slab_ok (range_fill m x n w) n p fl"
proof -
  obtain i where i: "i < capacity (unat n)" "x = obj (unat n) p i" using assms(2,4) by (auto elim: slab_objsE)
  note r = range_fill_off [OF i(1) assms(4), of m p w, folded i(2)]
  have h: "range_fill m x n w p = m p" "range_fill m x n w (p + 8) = m (p + 8)" "range_fill m x n w (p + 24) = m (p + 24)"
    by (simp_all add: r)
  have "range_fill m x n w q = m q" if "q \<in> set fl" for q
  proof -
    have "q \<in> slab_objs (unat n) p" using assms(1) that by (auto simp: slab_ok_def)
    then obtain j where j: "j < capacity (unat n)" "q = obj (unat n) p j" "off p q = 32 + j * unat n"
      using assms(4) by (auto elim: slab_objsE)
    have "i \<noteq> j" using that assms(3) i(2) j(2) by auto
    then show ?thesis using other_obj [OF i(1) j(1) assms(4), of "off p q"] assms(4) j(3) by (auto simp: r)
  qed
  then have "chain (range_fill m x n w) y fl = chain m y fl" for y by (rule chain_cong)
  with h assms(1) show ?thesis by (simp add: slab_ok_def slab_fields)
qed

lemma slab_push_eq:
  assumes "x \<noteq> p + 8"  "x \<noteq> p + 24"
  shows "slab_push p x m = m(x := m (p + 24), p + 24 := x, p + 8 := set_hi32 (hi32 (m (p + 8)) + 1) (m (p + 8)))"
  using assms by (simp add: slab_push_def Let_def set_free_count_def upd_word_def slab_fields)

lemma slab_push_ok:
  assumes "slab_ok m n p fl" and "x \<in> slab_objs (unat n) p" and "x \<notin> set fl" and "0 < unat n" and "x \<noteq> 0"
  shows "slab_ok (slab_push p x m) n p (x # fl)"
proof -
  note h = slab_objs_header [OF assms(2,4)]
  have "q \<noteq> p + 8 \<and> q \<noteq> p + 24 \<and> q \<noteq> p" if "q \<in> set fl" for q
    using assms(1,4) that slab_objs_header [of q "unat n" p] by (auto simp: slab_ok_def)
  moreover have "chain (m(x := m (p + 24), p + 24 := x, p + 8 := v)) y fl = chain m y fl" for v y
    by (rule chain_cong) (use assms(3) calculation in auto)
  ultimately show ?thesis using assms h by (auto simp: slab_ok_def slab_fields slab_push_eq)
qed

lemma slab_pop_ok:
  assumes "slab_ok m n p (x # fl)" and "0 < unat n"
  defines "m1 \<equiv> m(p + 24 := m x)"
  shows "slab_ok (set_free_count p (slab_free_count m1 p - 1) m1) n p fl"
proof -
  have x: "x \<in> slab_objs (unat n) p" "set fl \<subseteq> slab_objs (unat n) p" using assms(1) by (auto simp: slab_ok_def)
  have "q \<noteq> p + 8 \<and> q \<noteq> p + 24" if "q \<in> set fl" for q
    using x(2) that assms(2) slab_objs_header [of q "unat n" p] by auto
  then have "chain (m(p + 24 := m x, p + 8 := v)) y fl = chain m y fl" for v y by (intro chain_cong) auto
  then show ?thesis using assms(1) by (auto simp: slab_ok_def slab_fields set_free_count_def upd_word_def m1_def)
qed

text \<open>Cutting a fresh page.\<close>

lemma size_cases: "n \<in> set slab_sizes \<Longrightarrow> n \<in> {16, 32, 64, 128, 256, 512, 1024, 2048}"
  by (simp add: slab_sizes_def)

lemma size_pos: "n \<in> set slab_sizes \<Longrightarrow> 0 < unat n"
  by (drule size_cases) auto

lemma capacity_bounds: "n \<in> set slab_sizes \<Longrightarrow> 0 < capacity (unat n) \<and> capacity (unat n) < 255"
  by (drule size_cases) (auto simp: capacity_def)

lemma total_eq: "n \<in> set slab_sizes \<Longrightarrow> (4064 :: u32) div n = of_nat (capacity (unat n))"
  by (simp add: capacity_def word_unat_eq_iff unat_div unsigned_of_nat take_bit_nat_eq_self order_le_less_trans [OF div_le_dividend])

lemma slab_cut_obj:
  assumes "n \<in> set slab_sizes" and "i < capacity (unat n)"
  shows "p + ucast (32 :: u32) + ucast (of_nat i * n) = obj (unat n) p i"
proof -
  have b: "i * unat n < 4096" using obj_bound [OF assms(2) size_pos [OF assms(1)]] by simp
  have "unat (of_nat i :: u32) = i"
    using assms(2) capacity_bounds [OF assms(1)] by (simp add: unsigned_of_nat take_bit_nat_eq_self)
  then have "unat (of_nat i * n) = i * unat n" using b by (simp add: unat_word_ariths)
  then have "(ucast (of_nat i * n) :: u64) = of_nat (i * unat n)"
    using b by (simp only: word_unat_eq_iff unat_ucast32_64) (simp add: unat_of_frame flip: of_nat_mult)
  then show ?thesis by (simp add: obj_def)
qed

lemma slab_cut_ok:
  assumes "n \<in> set slab_sizes" and "k \<le> capacity (unat n)" and "slab_ok m n p []" and "p \<in> good_pages kend"
  shows "slab_ok (slab_cut p 32 n [0..<k] m) n p (rev (map (obj (unat n) p) [0..<k])) \<and>
    (\<forall>a. \<not> in_page p a \<longrightarrow> slab_cut p 32 n [0..<k] m a = m a)"
  using assms(2)
proof (induction k)
  case 0
  then show ?case using assms(3) by (simp add: slab_cut_def)
next
  case (Suc k)
  let ?m = "slab_cut p 32 n [0..<k] m" and ?x = "obj (unat n) p k"
  have IH: "slab_ok ?m n p (rev (map (obj (unat n) p) [0..<k]))" "\<And>a. \<not> in_page p a \<Longrightarrow> ?m a = m a" using Suc by auto
  have x: "?x \<in> slab_objs (unat n) p" using Suc.prems by (simp add: slab_objs_def)
  have new: "?x \<notin> set (rev (map (obj (unat n) p) [0..<k]))"
    using obj_inj [of "unat n" p k] Suc.prems size_pos [OF assms(1)] by force
  have e: "slab_cut p 32 n [0..<Suc k] m = slab_push p ?x ?m"
    using slab_cut_obj [OF assms(1), of k p] Suc.prems by (simp add: slab_cut_def)
  have "slab_ok (slab_push p ?x ?m) n p (?x # rev (map (obj (unat n) p) [0..<k]))"
    using slab_push_ok [OF IH(1) x new size_pos [OF assms(1)]] obj_nonnull [OF assms(4) x] by simp
  moreover have "slab_push p ?x ?m a = m a" if "\<not> in_page p a" for a
    using that IH(2) slab_objs_header [OF x size_pos [OF assms(1)]] by (auto simp: slab_push_eq)
  ultimately show ?case unfolding e by simp
qed

lemma slab_init_ok:
  assumes "n \<in> set slab_sizes" and "p \<in> good_pages kend"
  shows "slab_ok (slab_init p n m) n p (rev (map (obj (unat n) p) [0..<capacity (unat n)])) \<and>
    (\<forall>a. \<not> in_page p a \<longrightarrow> slab_init p n m a = m a)"
proof -
  define m0 where "m0 = upd_word (p + 8) (set_lo32 (of_nat (capacity (unat n))))
    ((set_free_count p 0 (upd_word p (\<lambda>w. set_hi32 n (set_lo32 SLAB_MAGIC w)) m))(p + 24 := 0))"
  have "p + 24 \<noteq> p + 8" "p + 8 \<noteq> p + 24" by simp_all
  then have ok: "slab_ok m0 n p []" by (simp add: slab_ok_def slab_fields m0_def upd_word_def set_free_count_def)
  have out: "m0 a = m a" if "\<not> in_page p a" for a using that by (auto simp: m0_def upd_word_def set_free_count_def)
  have u: "unat (of_nat (capacity (unat n)) :: u32) = capacity (unat n)"
    using capacity_bounds [OF assms(1)] by (simp add: unsigned_of_nat take_bit_nat_eq_self)
  have "slab_init p n m = slab_cut p 32 n [0..<capacity (unat n)] m0"
    by (simp add: slab_init_def Let_def total_eq [OF assms(1)] u flip: m0_def)
  then show ?thesis using slab_cut_ok [OF assms(1) order_refl ok assms(2)] out by simp
qed

section \<open>The invariant and the live objects\<close>

text \<open>
  \<open>B i\<close> lists the slabs of bucket \<open>i\<close> and \<open>F p\<close> the free objects of the slab \<open>p\<close>. Between the operations no slab is entirely
  free: such a page is given back.
\<close>

abbreviation (input) kmm :: "kmst \<Rightarrow> pmem" where "kmm s \<equiv> km_mem (ks_k s)"

definition slab_in :: "u64 \<Rightarrow> kmst \<Rightarrow> (u64 \<Rightarrow> u64 list) \<Rightarrow> u32 \<Rightarrow> u64 \<Rightarrow> bool" where
  "slab_in kend s F n p \<longleftrightarrow> p \<in> good_pages kend \<and> krefs (ks_k s) p = 1 \<and> slab_ok (kmm s) n p (F p)"

definition slabs_ok :: "u64 \<Rightarrow> kmst \<Rightarrow> (nat \<Rightarrow> u64 list) \<Rightarrow> (u64 \<Rightarrow> u64 list) \<Rightarrow> bool" where
  "slabs_ok kend s B F \<longleftrightarrow> 0x80000000 \<le> kend \<and> kalloc_inv kend (ks_k s) \<and> map sb_obj_size (ks_buckets s) = slab_sizes \<and>
     (\<forall>i < 8. chain (slab_next (kmm s)) (sb_slabs (ks_buckets s ! i)) (B i) \<and> distinct (B i)) \<and>
     (\<forall>i < 8. \<forall>j < 8. i \<noteq> j \<longrightarrow> set (B i) \<inter> set (B j) = {}) \<and>
     (\<forall>i < 8. \<forall>p \<in> set (B i). slab_in kend s F (slab_sizes ! i) p)"

definition none_empty :: "(nat \<Rightarrow> u64 list) \<Rightarrow> (u64 \<Rightarrow> u64 list) \<Rightarrow> bool" where
  "none_empty B F \<longleftrightarrow> (\<forall>i < 8. \<forall>p \<in> set (B i). length (F p) < capacity (unat (slab_sizes ! i)))"

definition kmalloc_inv :: "u64 \<Rightarrow> kmst \<Rightarrow> bool" where
  "kmalloc_inv kend s \<longleftrightarrow> (\<exists>B F. slabs_ok kend s B F \<and> none_empty B F)"

text \<open>The objects that are allocated, each with its size.\<close>

definition live_of :: "(nat \<Rightarrow> u64 list) \<Rightarrow> (u64 \<Rightarrow> u64 list) \<Rightarrow> (u64 \<times> nat) set" where
  "live_of B F = {(a, k). \<exists>i < 8. k = unat (slab_sizes ! i) \<and> (\<exists>p \<in> set (B i). a \<in> slab_objs k p - set (F p))}"

definition kmalloc_live :: "kmst \<Rightarrow> (u64 \<times> nat) set" where
  "kmalloc_live s = {(a, k). \<exists>i < 8. k = unat (slab_sizes ! i) \<and> (\<exists>ps fl. chain (slab_next (kmm s)) (sb_slabs (ks_buckets s ! i)) ps \<and>
     (\<exists>p \<in> set ps. chain (kmm s) (slab_free_list (kmm s) p) fl \<and> a \<in> slab_objs k p - set fl))}"

lemma sizes_nth: "i < 8 \<Longrightarrow> slab_sizes ! i \<in> set slab_sizes"
  by (rule nth_mem) (simp add: slab_sizes_def)

lemma buckets_nth:
  assumes "slabs_ok kend s B F" and "i < 8"
  shows "sb_obj_size (ks_buckets s ! i) = slab_sizes ! i" "length (ks_buckets s) = 8"
proof -
  have e: "map sb_obj_size (ks_buckets s) = slab_sizes" using assms(1) by (simp add: slabs_ok_def)
  have l: "length (map sb_obj_size (ks_buckets s)) = 8" unfolding e by (simp add: slab_sizes_def)
  then show "length (ks_buckets s) = 8" by simp
  with arg_cong [OF e, of "\<lambda>xs. xs ! i"] assms(2) show "sb_obj_size (ks_buckets s ! i) = slab_sizes ! i" by simp
qed

lemma kmalloc_live_eq:
  assumes "slabs_ok kend s B F"
  shows "kmalloc_live s = live_of B F"
proof -
  have b: "chain (slab_next (kmm s)) (sb_slabs (ks_buckets s ! i)) ps \<longleftrightarrow> ps = B i" if "i < 8" for i ps
    using assms that chain_unique by (auto simp: slabs_ok_def)
  have f: "chain (kmm s) (slab_free_list (kmm s) p) fl \<longleftrightarrow> fl = F p" if "i < 8" "p \<in> set (B i)" for i p fl
    using assms that chain_unique by (auto simp: slabs_ok_def slab_in_def slab_ok_def)
  show ?thesis unfolding kmalloc_live_def live_of_def by (auto simp: b f) (metis b f)+
qed

lemma bucket_distinct: "slabs_ok kend s B F \<Longrightarrow> i < 8 \<Longrightarrow> distinct (B i)"
  by (simp add: slabs_ok_def)

text \<open>A bucket has at most as many slabs as there are frames.\<close>

lemma bucket_length:
  assumes "slabs_ok kend s B F" and "i < 8"
  shows "length (B i) \<le> 525824"
proof -
  have "set (B i) \<subseteq> good_pages kend" using assms by (auto simp: slabs_ok_def slab_in_def)
  then have "card (set (B i)) \<le> 1536"
    using card_mono [OF good_pages_card(1), of kend "set (B i)"] good_pages_card(2) [of kend] assms(1) by (simp add: slabs_ok_def)
  then show ?thesis using assms distinct_card [of "B i"] by (simp add: slabs_ok_def)
qed

lemma slab_find_ok:
  "chain (slab_next m) x ps \<Longrightarrow> length ps \<le> n \<Longrightarrow>
     slab_find n m x = Ok (case find (\<lambda>p. 0 < slab_free_count m p) ps of None \<Rightarrow> 0 | Some p \<Rightarrow> p)"
proof (induction ps arbitrary: x n)
  case Nil
  then show ?case by (simp add: slab_find.simps)
next
  case (Cons p ps)
  then obtain k where "n = Suc k" by (cases n) auto
  with Cons show ?case by (subst slab_find.simps) auto
qed

lemma slab_prev_ok:
  "chain (slab_next m) x (ps @ p # qs) \<Longrightarrow> length ps \<le> n \<Longrightarrow> p \<notin> set ps \<Longrightarrow>
     slab_prev n m prev x p = Ok (if ps = [] then prev else Some (List.last ps))"
proof (induction ps arbitrary: x n prev)
  case Nil
  then show ?case by (subst slab_prev.simps) simp
next
  case (Cons a ps)
  then obtain k where "n = Suc k" by (cases n) auto
  with Cons show ?case by (subst slab_prev.simps) auto
qed

text \<open>A step that rewrites one slab.\<close>

lemma slab_in_cong:
  assumes "slab_in kend s F n p" and "0 < unat n" and "F' p = F p" and "krefs (ks_k s') p = krefs (ks_k s) p"
    and "\<And>a. in_page p a \<Longrightarrow> a \<noteq> p + 16 \<Longrightarrow> kmm s' a = kmm s a"
  shows "slab_in kend s' F' n p"
  using assms slab_ok_cong [of n p "kmm s'" "kmm s"] by (simp add: slab_in_def)

lemma slabs_pages:
  assumes "slabs_ok kend s B F" and "i < 8" and "p \<in> set (B i)"
  shows "p \<in> good_pages kend" "krefs (ks_k s) p = 1" "slab_ok (kmm s) (slab_sizes ! i) p (F p)" "page_aligned p"
proof -
  show g: "p \<in> good_pages kend" "krefs (ks_k s) p = 1" "slab_ok (kmm s) (slab_sizes ! i) p (F p)"
    using assms by (auto simp: slabs_ok_def slab_in_def)
  show "page_aligned p" by (rule good_pages_aligned [OF g(1)])
qed

lemma other_page:
  assumes "slabs_ok kend s B F" and "i < 8" and "q \<in> set (B i)" and "p \<in> good_pages kend" and "p \<noteq> q" and "in_page q a"
  shows "\<not> in_page p a"
  using assms slabs_pages(4) [OF assms(1-3)] good_pages_aligned page_unique by blast

lemma slabs_update:
  assumes ok: "slabs_ok kend s B F" and i: "i < 8" "p \<in> set (B i)"
    and m: "slab_ok m (slab_sizes ! i) p fl" "m (p + 16) = kmm s (p + 16)"
      "\<And>a. \<not> in_page p a \<Longrightarrow> m a = kmm s a"
  shows "slabs_ok kend (with_mem (\<lambda>_. m) s) B (F(p := fl))"
proof -
  let ?s = "with_mem (\<lambda>_. m) s"
  note P = slabs_pages [OF ok]
  have k: "kalloc_inv kend ((ks_k s)\<lparr>km_mem := m\<rparr>)"
  proof (rule kalloc_inv_mem)
    fix q assume q: "q \<in> good_pages kend" "krefs (ks_k s) q = 0"
    then have "p \<noteq> q" using P(2) [OF i] by auto
    then show "m q = kmm s q" using m(3) in_page_aligned [OF P(4) [OF i] good_pages_aligned [OF q(1)]] by simp
  qed (use ok in \<open>simp add: slabs_ok_def\<close>)
  have "slab_next m q = slab_next (kmm s) q" if "j < 8" "q \<in> set (B j)" for j q
    using other_page [OF ok that P(1) [OF i], of "q + 16"] m(2,3) by (cases "q = p") (auto simp: slab_next_def)
  then have c: "chain (slab_next m) x (B j) = chain (slab_next (kmm s)) x (B j)" if "j < 8" for j x
    by (rule chain_cong) (use that in auto)
  have d: "slab_in kend ?s (F(p := fl)) (slab_sizes ! j) q" if "j < 8" "q \<in> set (B j)" for j q
  proof (cases "q = p")
    case True
    then have "j = i" using ok i that by (auto simp: slabs_ok_def)
    with True show ?thesis using m P(1,2) [OF i] by (simp add: slab_in_def)
  next
    case False
    have "slab_in kend s F (slab_sizes ! j) q" using ok that by (simp add: slabs_ok_def)
    then show ?thesis
    proof (rule slab_in_cong [OF _ size_pos [OF sizes_nth [OF that(1)]]])
      show "kmm ?s a = kmm s a" if "in_page q a" for a
        using m(3) other_page [OF ok \<open>j < 8\<close> \<open>q \<in> set (B j)\<close> P(1) [OF i] False [symmetric] that] by simp
    qed (use False in simp_all)
  qed
  show ?thesis using ok k unfolding slabs_ok_def by (simp add: c d)
qed

text \<open>A fresh slab at the head of its bucket.\<close>

lemma slabs_insert:
  assumes ok: "slabs_ok kend s B F" and i: "i < 8" and p: "p \<in> good_pages kend" "krefs (ks_k s) p = 0"
    and k: "kalloc_inv kend k1" "\<forall>q \<in> good_pages kend. krefs k1 q = (if q = p then 1 else krefs (ks_k s) q)"
    and m: "slab_ok (km_mem k1) (slab_sizes ! i) p fl" "km_mem k1 (p + 16) = sb_slabs (ks_buckets s ! i)"
      "\<And>a. \<not> in_page p a \<Longrightarrow> km_mem k1 a = kmm s a"
  shows "slabs_ok kend (set_slabs i p (s\<lparr>ks_k := k1\<rparr>)) (B(i := p # B i)) (F(p := fl))"
proof -
  let ?s = "set_slabs i p (s\<lparr>ks_k := k1\<rparr>)"
  have new: "p \<notin> set (B j)" if "j < 8" for j using slabs_pages(2) [OF ok that, of p] p(2) by auto
  have len: "i < length (ks_buckets s)" using buckets_nth(2) [OF ok i] i by simp
  have p0: "p \<noteq> 0" using good_pages_bound [OF p(1)] by simp
  have "slab_next (km_mem k1) q = slab_next (kmm s) q" if "j < 8" "q \<in> set (B j)" for j q
    using other_page [OF ok that p(1), of "q + 16"] new that m(3) by (auto simp: slab_next_def)
  then have c: "chain (slab_next (km_mem k1)) x (B j) = chain (slab_next (kmm s)) x (B j)" if "j < 8" for j x
    by (rule chain_cong) (use that in auto)
  have old: "slab_in kend ?s (F(p := fl)) (slab_sizes ! j) q" if "j < 8" "q \<in> set (B j)" for j q
  proof -
    have ne: "p \<noteq> q" using new that by auto
    have "slab_in kend s F (slab_sizes ! j) q" using ok that by (simp add: slabs_ok_def)
    then show ?thesis
    proof (rule slab_in_cong [OF _ size_pos [OF sizes_nth [OF that(1)]]])
      show "kmm ?s a = kmm s a" if "in_page q a" for a
        using m(3) other_page [OF ok \<open>j < 8\<close> \<open>q \<in> set (B j)\<close> p(1) ne that] by simp
    qed (use ne k(2) slabs_pages(1) [OF ok that] in simp_all)
  qed
  have self: "slab_in kend ?s (F(p := fl)) (slab_sizes ! i) p" using p(1) k(2) m(1) by (simp add: slab_in_def)
  have "map sb_obj_size (ks_buckets ?s) = slab_sizes"
    using ok len by (simp add: slabs_ok_def map_update list_update_same_conv buckets_nth [OF ok i])
  moreover have "chain (slab_next (kmm ?s)) (sb_slabs (ks_buckets ?s ! j)) ((B(i := p # B i)) j) \<and> distinct ((B(i := p # B i)) j)" if "j < 8" for j
    using ok that c [OF that] new [OF that] len m(2) p0 by (cases "j = i") (auto simp: slabs_ok_def slab_next_def [of _ p])
  moreover have "slab_in kend ?s (F(p := fl)) (slab_sizes ! j) q" if "j < 8" "q \<in> set ((B(i := p # B i)) j)" for j q
    using old self that by (auto split: if_splits)
  moreover have "set ((B(i := p # B i)) j) \<inter> set ((B(i := p # B i)) l) = {}" if "j < 8" "l < 8" "j \<noteq> l" for j l
    using ok that new by (auto simp: slabs_ok_def)
  ultimately show ?thesis using ok k(1) unfolding slabs_ok_def by simp
qed

text \<open>A slab leaves its bucket, and its page the allocator.\<close>

lemma chain_remove:
  assumes "chain f x (ps @ p # qs)" and "distinct (ps @ p # qs)"
    and "\<And>q. q \<in> set ps \<union> set qs \<Longrightarrow> f' q = (if ps \<noteq> [] \<and> q = List.last ps then f p else f q)"
  shows "chain f' (if ps = [] then f p else x) (ps @ qs)"
  using assms
proof (induction ps arbitrary: x)
  case Nil
  then show ?case using chain_cong [of qs f' f "f p"] by auto
next
  case (Cons a ps)
  show ?case
  proof (cases "ps = []")
    case True
    have "chain f' (f p) qs = chain f (f p) qs" using Cons.prems True by (intro chain_cong) auto
    with Cons.prems True show ?thesis by auto
  next
    case False
    then have "chain f' (f a) (ps @ qs)" using Cons.IH [of "f a"] Cons.prems by auto
    moreover have "a \<noteq> List.last ps" using False Cons.prems(2) by auto
    ultimately show ?thesis using Cons.prems False by auto
  qed
qed

lemma slabs_delete:
  assumes ok: "slabs_ok kend s B F" and i: "i < 8" "B i = ps @ p # qs"
    and k: "kalloc_inv kend k1" "\<forall>q \<in> good_pages kend. q \<noteq> p \<longrightarrow> krefs k1 q = krefs (ks_k s) q"
    and m: "\<And>a. \<not> in_page p a \<Longrightarrow> km_mem k1 a = (if ps \<noteq> [] \<and> a = List.last ps + 16 then kmm s (p + 16) else kmm s a)"
    and b: "b = (if ps = [] then kmm s (p + 16) else sb_slabs (ks_buckets s ! i))"
  shows "slabs_ok kend (set_slabs i b (s\<lparr>ks_k := k1\<rparr>)) (B(i := ps @ qs)) F"
proof -
  let ?s = "set_slabs i b (s\<lparr>ks_k := k1\<rparr>)" and ?B = "B(i := ps @ qs)"
  have pin: "p \<in> set (B i)" using i(2) by simp
  have di: "distinct (ps @ p # qs)" using bucket_distinct [OF ok i(1)] i(2) by simp
  have dj: "set (B i) \<inter> set (B j) = {}" if "j < 8" "j \<noteq> i" for j using ok i(1) that by (auto simp: slabs_ok_def)
  have gone: "q \<in> set (B j)" "q \<noteq> p" if "j < 8" "q \<in> set (?B j)" for j q
    using that di dj [OF that(1)] pin i(2) by (auto split: if_splits)
  note out = other_page [OF ok _ gone(1) slabs_pages(1) [OF ok i(1) pin]]
  have last_in: "List.last ps \<in> set (B i)" if "ps \<noteq> []" using that i(2) by simp
  have nxt: "slab_next (km_mem k1) q = (if ps \<noteq> [] \<and> q = List.last ps then slab_next (kmm s) p else slab_next (kmm s) q)"
    if "j < 8" "q \<in> set (?B j)" for j q
    using m [OF out [OF that(1) that gone(2) [OF that, symmetric], of "q + 16"]] by (simp add: slab_next_def)
  have len: "i < length (ks_buckets s)" using buckets_nth(2) [OF ok i(1)] i by simp
  have ch: "chain (slab_next (kmm ?s)) (sb_slabs (ks_buckets ?s ! j)) (?B j) \<and> distinct (?B j)" if "j < 8" for j
  proof (cases "j = i")
    case True
    have "chain (slab_next (kmm s)) (sb_slabs (ks_buckets s ! i)) (ps @ p # qs)" using ok i by (simp add: slabs_ok_def flip: i(2))
    from chain_remove [OF this di, of "slab_next (km_mem k1)"] nxt [OF i(1)] True di len b show ?thesis by (auto simp: slab_next_def)
  next
    case False
    have "slab_next (km_mem k1) q = slab_next (kmm s) q" if "q \<in> set (B j)" for q
      using nxt [OF \<open>j < 8\<close>, of q] dj [OF \<open>j < 8\<close> False] that False last_in by auto
    then have "chain (slab_next (km_mem k1)) x (B j) = chain (slab_next (kmm s)) x (B j)" for x by (rule chain_cong) simp
    with False ok that show ?thesis by (simp add: slabs_ok_def)
  qed
  have sl: "slab_in kend ?s F (slab_sizes ! j) q" if "j < 8" "q \<in> set (?B j)" for j q
  proof -
    have "slab_in kend s F (slab_sizes ! j) q" using ok that(1) gone(1) [OF that] by (simp add: slabs_ok_def)
    then show ?thesis
    proof (rule slab_in_cong [OF _ size_pos [OF sizes_nth [OF that(1)]]])
      show "kmm ?s a = kmm s a" if a: "in_page q a" "a \<noteq> q + 16" for a
      proof -
        have "a \<noteq> List.last ps + 16" if "ps \<noteq> []"
        proof
          assume "a = List.last ps + 16"
          then have "q = List.last ps"
            using a(1) page_unique [OF slabs_pages(4) [OF ok \<open>j < 8\<close> gone(1) [OF \<open>j < 8\<close> \<open>q \<in> set (?B j)\<close>]] slabs_pages(4) [OF ok i(1) last_in [OF that]]]
            by simp
          with \<open>a = _\<close> a(2) show False by simp
        qed
        then show ?thesis using m [OF out [OF \<open>j < 8\<close> \<open>j < 8\<close> \<open>q \<in> set (?B j)\<close> gone(2) [OF \<open>j < 8\<close> \<open>q \<in> set (?B j)\<close>, symmetric] a(1)]] by auto
      qed
    qed (use k(2) gone(2) [OF that] slabs_pages(1) [OF ok that(1) gone(1) [OF that]] in simp_all)
  qed
  have "map sb_obj_size (ks_buckets ?s) = slab_sizes"
    using ok len by (simp add: slabs_ok_def map_update list_update_same_conv buckets_nth [OF ok i(1)])
  moreover have "set (?B j) \<inter> set (?B l) = {}" if "j < 8" "l < 8" "j \<noteq> l" for j l
  proof -
    have "set (B j) \<inter> set (B l) = {}" using ok that unfolding slabs_ok_def by blast
    with gone(1) [OF that(1)] gone(1) [OF that(2)] show ?thesis by blast
  qed
  ultimately show ?thesis using ok k(1) ch sl unfolding slabs_ok_def by simp
qed

lemma slab_release_ok:
  assumes ok: "slabs_ok kend s B F" and i: "i < 8" "p \<in> set (B i)" and h: "hart < NCPU"
  shows "\<exists>s2 k b ps qs. slab_unlink i p s = Ok s2 \<and> kfree_page kend hart (ks_k s2) p = Ok k \<and> s2\<lparr>ks_k := k\<rparr> = set_slabs i b (s\<lparr>ks_k := k\<rparr>) \<and>
    B i = ps @ p # qs \<and> slabs_ok kend (s2\<lparr>ks_k := k\<rparr>) (B(i := ps @ qs)) F \<and>
    (\<forall>q \<in> good_pages kend. krefs k q = (if q = p then 0 else krefs (ks_k s) q)) \<and>
    (\<forall>a. \<not> in_page p a \<longrightarrow> (\<forall>q \<in> set (B i). a \<noteq> q + 16) \<longrightarrow> km_mem k a = kmm s a)"
proof -
  obtain ps qs where B: "B i = ps @ p # qs" using split_list [OF i(2)] by blast
  define b where "b = (if ps = [] then kmm s (p + 16) else sb_slabs (ks_buckets s ! i))"
  define m where "m = upd_word p (set_lo32 0) (if ps = [] then kmm s else (kmm s)(List.last ps + 16 := kmm s (p + 16)))"
  define s2 where "s2 = set_slabs i b (s\<lparr>ks_k := (ks_k s)\<lparr>km_mem := m\<rparr>\<rparr>)"
  have di: "distinct (ps @ p # qs)" and len: "i < length (ks_buckets s)" and lb: "length ps \<le> 525824"
    using bucket_distinct [OF ok i(1)] i(1) buckets_nth(2) [OF ok i(1)] bucket_length [OF ok i(1)] by (simp_all add: B)
  have ch: "chain (slab_next (kmm s)) (sb_slabs (ks_buckets s ! i)) (ps @ p # qs)" using ok i(1) by (simp add: slabs_ok_def flip: B)
  have "slab_unlink i p s = Ok s2"
    using slab_prev_ok [OF ch lb, of None] di len
    by (cases "ps = []") (auto simp: slab_unlink_def Let_def s2_def b_def m_def slab_next_def list_update_same_conv)
  moreover have pg: "p \<in> good_pages kend" "krefs (ks_k s) p = 1" "page_aligned p" using slabs_pages [OF ok i] by auto
  have k2: "kalloc_inv kend (ks_k s2)"
  proof -
    have "m q = kmm s q" if q: "q \<in> good_pages kend" "krefs (ks_k s) q = 0" for q
    proof -
      have "q \<noteq> p" using pg(2) q(2) by auto
      moreover have "q \<noteq> List.last ps + 16" if "ps \<noteq> []"
      proof
        assume e: "q = List.last ps + 16"
        have l: "List.last ps \<in> set (B i)" using that B by simp
        have "q = List.last ps"
          using page_unique [OF good_pages_aligned [OF q(1)] slabs_pages(4) [OF ok i(1) l], of q] e by simp
        with slabs_pages(2) [OF ok i(1) l] q(2) show False by simp
      qed
      ultimately show ?thesis by (auto simp: m_def upd_word_def)
    qed
    then show ?thesis using ok kalloc_inv_mem [of kend "ks_k s" m] by (simp add: s2_def slabs_ok_def)
  qed
  obtain k where K: "kfree_page kend hart (ks_k s2) p = Ok k" "kalloc_inv kend k"
    "\<forall>q \<in> good_pages kend. krefs k q = (if q = p then krefs (ks_k s2) p - 1 else krefs (ks_k s2) q)"
    "\<forall>a. \<not> in_page p a \<or> 1 < krefs (ks_k s2) p \<longrightarrow> km_mem k a = kmm s2 a"
    using kfree_page_to_ok [OF k2 h pg(1)] pg(2) by (auto simp: s2_def kfree_page_def)
  have eq: "s2\<lparr>ks_k := k\<rparr> = set_slabs i b (s\<lparr>ks_k := k\<rparr>)" by (simp add: s2_def)
  have "slabs_ok kend (s2\<lparr>ks_k := k\<rparr>) (B(i := ps @ qs)) F"
    unfolding eq by (rule slabs_delete [OF ok i(1) B K(2)]) (use K in \<open>auto simp: s2_def m_def upd_word_def b_def\<close>)
  moreover have "\<forall>q \<in> good_pages kend. krefs k q = (if q = p then 0 else krefs (ks_k s) q)" using K(3) pg(2) by (simp add: s2_def)
  moreover have "km_mem k a = kmm s a" if "\<not> in_page p a" "\<forall>q \<in> set (B i). a \<noteq> q + 16" for a
    using that K(4) B by (auto simp: s2_def m_def upd_word_def)
  ultimately show ?thesis using K(1) B eq by blast
qed

section \<open>What the operations leave alone\<close>

lemma span_obj:
  assumes "p \<in> good_pages kend" and "l < capacity n" and "0 < n"
  shows "a \<in> span (obj n p l, n) \<longleftrightarrow> 32 + l * n \<le> off p a \<and> off p a < 32 + l * n + n"
proof -
  note b = obj_bound [OF assms(2,3)] and o = off_obj [OF assms(2,3), of p]
  have "in_page p (obj n p l)" using o b assms(3) unfolding in_page_off by linarith
  from unat_in_page [OF assms(1) this] have u: "unat (obj n p l) = unat p + (32 + l * n)" using o by simp
  show ?thesis
  proof
    assume "a \<in> span (obj n p l, n)"
    then have "unat p + (32 + l * n) \<le> unat a" "unat a < unat p + (32 + l * n) + n" by (auto simp: span_def u)
    moreover from this have "off p a = unat a - unat p" by (intro unat_sub) (simp add: word_le_nat_alt)
    ultimately show "32 + l * n \<le> off p a \<and> off p a < 32 + l * n + n" by linarith
  next
    assume r: "32 + l * n \<le> off p a \<and> off p a < 32 + l * n + n"
    then have "in_page p a" using b unfolding in_page_off by linarith
    from unat_in_page [OF assms(1) this] r show "a \<in> span (obj n p l, n)" by (simp add: span_def u)
  qed
qed

lemma live_ofE:
  assumes "slabs_ok kend s B F" and "(b, k) \<in> live_of B F"
  obtains j q l where "j < 8" "q \<in> set (B j)" "k = unat (slab_sizes ! j)" "l < capacity k" "b = obj k q l" "b \<notin> set (F q)"
    "\<And>a. a \<in> span (b, k) \<longleftrightarrow> 32 + l * k \<le> off q a \<and> off q a < 32 + l * k + k" "\<And>a. a \<in> span (b, k) \<Longrightarrow> in_page q a"
proof -
  obtain j q where j: "j < 8" "k = unat (slab_sizes ! j)" "q \<in> set (B j)" "b \<in> slab_objs k q" "b \<notin> set (F q)"
    using assms(2) by (auto simp: live_of_def)
  have pos: "0 < k" using size_pos [OF sizes_nth [OF j(1)]] j(2) by simp
  obtain l where l: "l < capacity k" "b = obj k q l" using j(4) pos by (auto elim: slab_objsE)
  note sp = span_obj [OF slabs_pages(1) [OF assms(1) j(1,3)] l(1) pos, folded l(2)]
  have "in_page q a" if "a \<in> span (b, k)" for a
    using that obj_bound [OF l(1) pos] unfolding sp in_page_off by linarith
  with that [OF j(1,3,2) l j(5) sp] show thesis by blast
qed

lemma live_of_disjoint:
  assumes "slabs_ok kend s B F"
  shows "disjoint_objects (live_of B F)"
  unfolding disjoint_objects_def
proof (intro ballI impI)
  fix x y assume xy: "x \<in> live_of B F" "y \<in> live_of B F" "x \<noteq> y"
  obtain b k c l where e: "x = (b, k)" "y = (c, l)" by (cases x, cases y)
  show "span x \<inter> span y = {}"
  proof (rule ccontr)
    assume "span x \<inter> span y \<noteq> {}"
    then obtain a where a: "a \<in> span (b, k)" "a \<in> span (c, l)" using e by auto
    obtain j q u where X: "j < 8" "q \<in> set (B j)" "k = unat (slab_sizes ! j)" "u < capacity k" "b = obj k q u"
      "32 + u * k \<le> off q a \<and> off q a < 32 + u * k + k" "in_page q a"
      using live_ofE [OF assms xy(1) [unfolded e]] a(1) by metis
    obtain j' q' u' where Y: "j' < 8" "q' \<in> set (B j')" "l = unat (slab_sizes ! j')" "u' < capacity l" "c = obj l q' u'"
      "32 + u' * l \<le> off q' a \<and> off q' a < 32 + u' * l + l" "in_page q' a"
      using live_ofE [OF assms xy(2) [unfolded e]] a(2) by metis
    have q: "q = q'" using page_unique [OF slabs_pages(4) [OF assms X(1,2)] slabs_pages(4) [OF assms Y(1,2)] X(7) Y(7)] .
    then have j: "j = j'" using assms X(1,2) Y(1,2) unfolding slabs_ok_def by blast
    then have "k = l" using X(3) Y(3) by simp
    moreover have "u = u'" using other_obj [OF X(4), of u' "off q a"] X(6) Y(4,6) q \<open>k = l\<close> by (cases "k = 0") auto
    ultimately show False using xy(3) X(5) Y(5) q e by simp
  qed
qed

definition slab_pages :: "kmst \<Rightarrow> u64 set" where
  "slab_pages s = {p. \<exists>i < 8. \<exists>ps. chain (slab_next (kmm s)) (sb_slabs (ks_buckets s ! i)) ps \<and> p \<in> set ps}"

lemma slab_pages_eq:
  assumes "slabs_ok kend s B F"
  shows "slab_pages s = (\<Union>i < 8. set (B i))"
proof -
  have "chain (slab_next (kmm s)) (sb_slabs (ks_buckets s ! i)) ps \<longleftrightarrow> ps = B i" if "i < 8" for i ps
    using assms that chain_unique unfolding slabs_ok_def by blast
  then show ?thesis by (auto simp: slab_pages_def)
qed

text \<open>The objects that stay allocated keep their contents, and so do the page frames that others use.\<close>

definition untouched :: "u64 \<Rightarrow> (u64 \<times> nat) set \<Rightarrow> kmst \<Rightarrow> kmst \<Rightarrow> bool" where
  "untouched kend X s s' \<longleftrightarrow> (\<forall>x \<in> kmalloc_live s - X. \<forall>a \<in> span x. kmm s' a = kmm s a) \<and>
     (\<forall>q \<in> good_pages kend - slab_pages s. 0 < krefs (ks_k s) q \<longrightarrow>
        krefs (ks_k s') q = krefs (ks_k s) q \<and> (\<forall>a. in_page q a \<longrightarrow> kmm s' a = kmm s a))"

text \<open>
  It is enough that writes go to frames that are free, to headers, to objects that are free or in \<open>X\<close>, and to slabs all of
  whose live objects are in \<open>X\<close>.
\<close>

definition may_write :: "kmst \<Rightarrow> (u64 \<Rightarrow> u64 list) \<Rightarrow> (u64 \<times> nat) set \<Rightarrow> u32 \<Rightarrow> u64 \<Rightarrow> u64 \<Rightarrow> bool" where
  "may_write s F X n q a \<longleftrightarrow> off q a < 32 \<or>
     (\<exists>c \<in> slab_objs (unat n) q. a - c < ucast n \<and> (c \<in> set (F q) \<or> (c, unat n) \<in> X)) \<or>
     (\<forall>b \<in> slab_objs (unat n) q - set (F q). (b, unat n) \<in> X)"

lemma untouchedI:
  assumes ok: "slabs_ok kend s B F"
    and w: "\<And>a. kmm s' a \<noteq> kmm s a \<Longrightarrow>
      \<exists>q \<in> good_pages kend. in_page q a \<and> (krefs (ks_k s) q = 0 \<or> (\<exists>i < 8. q \<in> set (B i) \<and> may_write s F X (slab_sizes ! i) q a))"
    and r: "\<And>q. q \<in> good_pages kend \<Longrightarrow> q \<notin> slab_pages s \<Longrightarrow> 0 < krefs (ks_k s) q \<Longrightarrow> krefs (ks_k s') q = krefs (ks_k s) q"
  shows "untouched kend X s s'"
proof -
  have "kmm s' a = kmm s a" if y: "(b, k) \<in> live_of B F" "(b, k) \<notin> X" "a \<in> span (b, k)" for b k a
  proof (rule ccontr)
    assume "kmm s' a \<noteq> kmm s a"
    then obtain q where q: "q \<in> good_pages kend" "in_page q a"
      "krefs (ks_k s) q = 0 \<or> (\<exists>i < 8. q \<in> set (B i) \<and> may_write s F X (slab_sizes ! i) q a)" using w by blast
    obtain j p u where L: "j < 8" "p \<in> set (B j)" "k = unat (slab_sizes ! j)" "u < capacity k" "b = obj k p u" "b \<notin> set (F p)"
      "32 + u * k \<le> off p a \<and> off p a < 32 + u * k + k" "in_page p a"
      using live_ofE [OF ok y(1)] y(3) by metis
    have e: "p = q" using page_unique [OF slabs_pages(4) [OF ok L(1,2)] good_pages_aligned [OF q(1)] L(8) q(2)] .
    then have "krefs (ks_k s) q \<noteq> 0" using slabs_pages(2) [OF ok L(1,2)] by simp
    with q(3) obtain i where i: "i < 8" "q \<in> set (B i)" "may_write s F X (slab_sizes ! i) q a" by blast
    have "i = j" using ok i L(1,2) e unfolding slabs_ok_def by blast
    then have mw: "may_write s F X (slab_sizes ! j) p a" using i e by simp
    have pos: "0 < unat (slab_sizes ! j)" using size_pos [OF sizes_nth [OF L(1)]] .
    have "b \<in> slab_objs k p" using L(4,5) by (simp add: slab_objs_def)
    then obtain c where c: "c \<in> slab_objs k p" "a - c < ucast (slab_sizes ! j)" "c \<in> set (F p) \<or> (c, k) \<in> X"
      using mw L(3,6,7) y(2) unfolding may_write_def by auto
    obtain v where v: "v < capacity k" "c = obj k p v" using c(1) pos L(3) by (auto elim: slab_objsE)
    have "32 + v * k \<le> off p a \<and> off p a < 32 + v * k + k"
      using c(2) obj_range [OF v(1) [unfolded L(3)] pos, of a p] v(2) L(3) by simp
    with L(7) have "v = u" using other_obj [OF L(4) v(1), of "off p a"] pos L(3) by auto
    then show False using c(3) v(2) L(5,6) y(2) by auto
  qed
  moreover have "kmm s' a = kmm s a" if y: "p \<in> good_pages kend" "p \<notin> slab_pages s" "0 < krefs (ks_k s) p" "in_page p a" for p a
  proof (rule ccontr)
    assume "kmm s' a \<noteq> kmm s a"
    then obtain q where q: "q \<in> good_pages kend" "in_page q a" "krefs (ks_k s) q = 0 \<or> (\<exists>i < 8. q \<in> set (B i))" using w by blast
    then have "p = q" using page_unique [OF good_pages_aligned good_pages_aligned] y by blast
    with q(3) y(2,3) show False by (auto simp: slab_pages_eq [OF ok])
  qed
  ultimately show ?thesis using r by (auto simp: untouched_def kmalloc_live_eq [OF ok])
qed

section \<open>The operations on the live objects\<close>

text \<open>An address belongs to one slab at most.\<close>

lemma slab_unique:
  assumes "slabs_ok kend s B F" and "i < 8" "p \<in> set (B i)" and "j < 8" "q \<in> set (B j)"
    and "x \<in> slab_objs (unat (slab_sizes ! i)) p" "x \<in> slab_objs (unat (slab_sizes ! j)) q"
  shows "p = q \<and> i = j"
proof -
  have "in_page p x" "in_page q x" using assms slab_objs_header(1) size_pos sizes_nth by blast+
  then have "p = q" using page_unique [OF slabs_pages(4) [OF assms(1-3)] slabs_pages(4) [OF assms(1,4,5)]] by blast
  moreover from this have "i = j" using assms(1-5) unfolding slabs_ok_def by blast
  ultimately show ?thesis by blast
qed

lemma sizes_mono:
  assumes "j < i" and "i < 8"
  shows "unat (slab_sizes ! j) < unat (slab_sizes ! i)"
proof -
  have "sorted_wrt (<) (map unat slab_sizes)" "length slab_sizes = 8" by (simp_all add: slab_sizes_def)
  with assms show ?thesis using sorted_wrt_nth_less [of "(<)" "map unat slab_sizes" j i] by simp
qed

text \<open>The live objects of one slab, and those of all the others.\<close>

definition slab_live :: "nat \<Rightarrow> u64 \<Rightarrow> u64 list \<Rightarrow> (u64 \<times> nat) set" where
  "slab_live n p fl = (\<lambda>a. (a, n)) ` (slab_objs n p - set fl)"

definition live_others :: "(nat \<Rightarrow> u64 list) \<Rightarrow> (u64 \<Rightarrow> u64 list) \<Rightarrow> u64 \<Rightarrow> (u64 \<times> nat) set" where
  "live_others B F p = (\<Union>j < 8. \<Union>q \<in> set (B j) - {p}. slab_live (unat (slab_sizes ! j)) q (F q))"

lemma live_of_UN: "live_of B F = (\<Union>j < 8. \<Union>q \<in> set (B j). slab_live (unat (slab_sizes ! j)) q (F q))"
  unfolding live_of_def slab_live_def by blast

lemma live_split:
  assumes "slabs_ok kend s B F" and "i < 8" and "p \<in> set (B i)"
  shows "live_of B G = live_others B G p \<union> slab_live (unat (slab_sizes ! i)) p (G p)"
proof -
  have "j = i" if "j < 8" "p \<in> set (B j)" for j using assms that unfolding slabs_ok_def by blast
  with assms(2,3) show ?thesis unfolding live_of_UN live_others_def by blast
qed

text \<open>A slab without live objects does not count.\<close>

lemma live_insert:
  assumes "\<And>j. j < 8 \<Longrightarrow> p \<notin> set (B j)" and "slab_live (unat (slab_sizes ! i)) p fl = {}" and "set xs = insert p (set (B i))"
  shows "live_of (B(i := xs)) (F(p := fl)) = live_of B F"
proof -
  have "(\<Union>q \<in> set ((B(i := xs)) j). slab_live (unat (slab_sizes ! j)) q ((F(p := fl)) q)) =
      (\<Union>q \<in> set (B j). slab_live (unat (slab_sizes ! j)) q (F q))" if "j < 8" for j
  proof -
    have "(\<Union>q \<in> set (B j). slab_live (unat (slab_sizes ! j)) q ((F(p := fl)) q)) = (\<Union>q \<in> set (B j). slab_live (unat (slab_sizes ! j)) q (F q))"
      using assms(1) [OF that] by (intro SUP_cong refl) auto
    with assms(2,3) show ?thesis by (cases "j = i") auto
  qed
  then show ?thesis unfolding live_of_UN by simp
qed

lemma live_others_upd [simp]: "live_others B (F(p := fl)) p = live_others B F p"
  unfolding live_others_def by (intro SUP_cong refl) simp

lemma live_others_disjoint:
  assumes ok: "slabs_ok kend s B F" and i: "i < 8" "p \<in> set (B i)" and x: "x \<in> slab_objs (unat (slab_sizes ! i)) p"
  shows "(x, k) \<notin> live_others B F p"
proof
  assume "(x, k) \<in> live_others B F p"
  then obtain j q where "j < 8" "q \<in> set (B j)" "q \<noteq> p" "x \<in> slab_objs (unat (slab_sizes ! j)) q"
    by (auto simp: live_others_def slab_live_def)
  then show False using slab_unique [OF ok i _ _ x] by blast
qed

lemma slab_live_Cons:
  assumes "x \<in> slab_objs n p" and "x \<notin> set fl"
  shows "slab_live n p fl = insert (x, n) (slab_live n p (x # fl))" "(x, n) \<notin> slab_live n p (x # fl)"
  using assms by (auto simp: slab_live_def)

lemma slab_live_full:
  assumes "slab_ok m n p fl" and "n \<in> set slab_sizes"
  shows "length fl \<le> capacity (unat n)" "slab_live (unat n) p fl = {} \<longleftrightarrow> length fl = capacity (unat n)"
proof -
  have c: "card (slab_objs (unat n) p) = capacity (unat n)" "finite (slab_objs (unat n) p)"
    unfolding slab_objs_def using obj_inj [of "unat n" p] size_pos [OF assms(2)]
    by (auto intro!: card_image [THEN trans] inj_onI)
  have f: "set fl \<subseteq> slab_objs (unat n) p" "card (set fl) = length fl"
    using assms(1) by (auto simp: slab_ok_def distinct_card)
  show "length fl \<le> capacity (unat n)" using card_mono [OF c(2) f(1)] c(1) f(2) by simp
  have "slab_live (unat n) p fl = {} \<longleftrightarrow> set fl = slab_objs (unat n) p" using f(1) by (auto simp: slab_live_def)
  also have "\<dots> \<longleftrightarrow> length fl = capacity (unat n)" using card_subset_eq [OF c(2) f(1)] c(1) f(2) by auto
  finally show "slab_live (unat n) p fl = {} \<longleftrightarrow> length fl = capacity (unat n)" .
qed

text \<open>Taking the first free object of a slab.\<close>

lemma take_ok:
  assumes ok: "slabs_ok kend s B F" and i: "i < 8" "p \<in> set (B i)" and fl: "F p = x # fl"
  shows "\<exists>s'. slab_take p (slab_sizes ! i) s = (x, s') \<and> slabs_ok kend s' B (F(p := fl)) \<and> ks_buckets s' = ks_buckets s \<and>
    krefs (ks_k s') = krefs (ks_k s) \<and> x \<noteq> 0 \<and> (x, unat (slab_sizes ! i)) \<notin> live_of B F \<and>
    live_of B (F(p := fl)) = insert (x, unat (slab_sizes ! i)) (live_of B F) \<and>
    (\<forall>a. kmm s' a \<noteq> kmm s a \<longrightarrow> in_page p a \<and> may_write s F {} (slab_sizes ! i) p a)"
proof -
  let ?n = "slab_sizes ! i" and ?m1 = "(kmm s)(p + 24 := kmm s x)"
  define m where "m = set_free_count p (slab_free_count ?m1 p - 1) ?m1"
  note P = slabs_pages [OF ok i] and pos = size_pos [OF sizes_nth [OF i(1)]]
  have sl: "slab_ok (kmm s) ?n p (x # fl)" using P(3) fl by simp
  then have x: "x \<in> slab_objs (unat ?n) p" "x \<notin> set fl" and hd: "slab_free_list (kmm s) p = x" by (auto simp: slab_ok_def)
  have mok: "slab_ok m ?n p fl" unfolding m_def by (rule slab_pop_ok [OF sl pos])
  have run: "slab_take p ?n s = (x, with_mem (\<lambda>_. range_fill m x ?n junk_alloc) s)"
    by (simp add: slab_take_def Let_def hd m_def)
  obtain l where l: "l < capacity (unat ?n)" "x = obj (unat ?n) p l" using x(1) pos by (auto elim: slab_objsE)
  note rf = range_fill_off [OF l(1) pos, of m p junk_alloc, folded l(2)]
  have w: "in_page p a \<and> may_write s F {} ?n p a" if "range_fill m x ?n junk_alloc a \<noteq> kmm s a" for a
  proof -
    have "a = p + 8 \<or> a = p + 24 \<or> a - x < ucast ?n"
      using that by (auto simp: range_fill_def m_def set_free_count_def upd_word_def split: if_splits)
    then consider "a = p + 8 \<or> a = p + 24" | "a - x < ucast ?n" by blast
    then show ?thesis
    proof cases
      case 1
      then have "off p a < 32" by auto
      then show ?thesis by (simp add: in_page_off may_write_def)
    next
      case 2
      then have "off p a < 32 + l * unat ?n + unat ?n" using obj_range [OF l(1) pos, of a p] l(2) by simp
      then have "in_page p a" using obj_bound [OF l(1) pos] unfolding in_page_off by linarith
      with 2 x(1) fl show ?thesis by (auto simp: may_write_def)
    qed
  qed
  have "range_fill m x ?n junk_alloc (p + 16) = kmm s (p + 16)"
    unfolding rf by (simp add: m_def set_free_count_def upd_word_def)
  then have "slabs_ok kend (with_mem (\<lambda>_. range_fill m x ?n junk_alloc) s) B (F(p := fl))"
    using slabs_update [OF ok i range_fill_ok [OF mok x pos]] w by blast
  moreover have "live_of B (F(p := fl)) = live_others B F p \<union> slab_live (unat ?n) p fl" "live_of B F = live_others B F p \<union> slab_live (unat ?n) p (x # fl)"
    using live_split [OF ok i] fl by simp_all
  ultimately show ?thesis
    using run w slab_live_Cons [OF x] live_others_disjoint [OF ok i x(1)] obj_nonnull [OF P(1) x(1)] by auto
qed

lemma none_empty_upd:
  assumes "none_empty B F" and "length fl < length (F p)"
  shows "none_empty B (F(p := fl))"
  using assms by (auto simp: none_empty_def intro: less_trans)

text \<open>The size class of a request.\<close>

lemma slab_index_ok:
  assumes "slabs_ok kend s B F"
  shows "(case slab_bucket_index s n of None \<Rightarrow> 2048 < n
    | Some i \<Rightarrow> i < 8 \<and> unat n \<le> unat (slab_sizes ! i) \<and> (unat (slab_sizes ! i) = 16 \<or> unat (slab_sizes ! i) < 2 * unat n))"
proof -
  have e: "slab_bucket_index s n = first_idx (\<lambda>i. n \<le> ucast (slab_sizes ! i)) [0..<8]"
    unfolding slab_bucket_index_def by (rule first_idx_cong) (simp add: buckets_nth [OF assms])
  have u: "[0..<8] = [0, 1, 2, 3, 4, 5, 6, 7]" by (simp add: upt_rec)
  show ?thesis unfolding e u slab_sizes_def by (auto simp: word_le_nat_alt word_less_nat_alt split: if_splits)
qed

lemma index_of_size:
  assumes "slabs_ok kend s B F" and "i < 8"
  shows "slab_bucket_index s (ucast (slab_sizes ! i)) = Some i"
proof -
  have "slab_bucket_index s (ucast (slab_sizes ! i)) = first_idx (\<lambda>j. (ucast (slab_sizes ! i) :: u64) \<le> ucast (slab_sizes ! j)) [0..<8]"
    unfolding slab_bucket_index_def by (rule first_idx_cong) (simp add: buckets_nth [OF assms(1)])
  then show ?thesis using sizes_mono [OF _ assms(2)] assms(2) by (simp add: first_idx_upt_iff word_le_nat_alt not_le)
qed

definition kmalloc_post :: "u64 \<Rightarrow> u64 \<Rightarrow> kmst \<Rightarrow> u64 \<Rightarrow> kmst \<Rightarrow> bool" where
  "kmalloc_post kend n s p s' \<longleftrightarrow> kmalloc_inv kend s' \<and> p \<noteq> 0 \<and> untouched kend {} s s' \<and>
     (\<exists>k. unat n \<le> k \<and> (k = 16 \<or> k < 2 * unat n) \<and> (p, k) \<notin> kmalloc_live s \<and> kmalloc_live s' = insert (p, k) (kmalloc_live s))"

lemma kmalloc_postI:
  assumes ok: "slabs_ok kend s B F" and ok': "slabs_ok kend s' B' F'" "none_empty B' F'" and i: "i < 8"
    and n: "unat n \<le> unat (slab_sizes ! i)" "unat (slab_sizes ! i) = 16 \<or> unat (slab_sizes ! i) < 2 * unat n"
    and l: "p \<noteq> 0" "(p, unat (slab_sizes ! i)) \<notin> live_of B F" "live_of B' F' = insert (p, unat (slab_sizes ! i)) (live_of B F)"
    and u: "untouched kend {} s s'"
  shows "kmalloc_post kend n s p s'"
  unfolding kmalloc_post_def kmalloc_inv_def kmalloc_live_eq [OF ok] kmalloc_live_eq [OF ok'(1)]
  using ok' n l u by blast

lemma kmalloc_hit:
  assumes ok: "slabs_ok kend s B F" "none_empty B F" and i: "i < 8" "p \<in> set (B i)" "0 < slab_free_count (kmm s) p"
    and n: "unat n \<le> unat (slab_sizes ! i)" "unat (slab_sizes ! i) = 16 \<or> unat (slab_sizes ! i) < 2 * unat n"
  shows "\<exists>x s'. slab_take p (slab_sizes ! i) s = (x, s') \<and> kmalloc_post kend n s x s'"
proof -
  obtain x fl where fl: "F p = x # fl" using slabs_pages(3) [OF ok(1) i(1,2)] i(3) by (cases "F p") (auto simp: slab_ok_def)
  obtain s' where s': "slab_take p (slab_sizes ! i) s = (x, s')" "slabs_ok kend s' B (F(p := fl))" "krefs (ks_k s') = krefs (ks_k s)"
    "x \<noteq> 0" "(x, unat (slab_sizes ! i)) \<notin> live_of B F" "live_of B (F(p := fl)) = insert (x, unat (slab_sizes ! i)) (live_of B F)"
    "\<And>a. kmm s' a \<noteq> kmm s a \<Longrightarrow> in_page p a \<and> may_write s F {} (slab_sizes ! i) p a"
    using take_ok [OF ok(1) i(1,2) fl] by blast
  have "untouched kend {} s s'"
    by (rule untouchedI [OF ok(1)]) (use s'(3,7) i(1,2) slabs_pages(1) [OF ok(1) i(1,2)] in auto)
  from kmalloc_postI [OF ok(1) s'(2) none_empty_upd [OF ok(2)] i(1) n s'(4-6) this] s'(1) fl show ?thesis by simp
qed

lemma kmalloc_miss:
  assumes ok: "slabs_ok kend s B F" "none_empty B F" and i: "i < 8" and h: "hart < NCPU"
    and p: "kalloc_page hart (ks_k s) = (p, k1)" "p \<noteq> 0"
    and n: "unat n \<le> unat (slab_sizes ! i)" "unat (slab_sizes ! i) = 16 \<or> unat (slab_sizes ! i) < 2 * unat n"
  defines "k2 \<equiv> k1\<lparr>km_mem := (slab_init p (slab_sizes ! i) (km_mem k1))(p + 16 := sb_slabs (ks_buckets s ! i))\<rparr>"
  shows "\<exists>x s'. slab_take p (slab_sizes ! i) (set_slabs i p (s\<lparr>ks_k := k2\<rparr>)) = (x, s') \<and> kmalloc_post kend n s x s'"
proof -
  let ?n = "slab_sizes ! i"
  define s2 where "s2 = set_slabs i p (s\<lparr>ks_k := k2\<rparr>)"
  define fl where "fl = rev (map (obj (unat ?n) p) [0..<capacity (unat ?n)])"
  have inv: "kalloc_inv kend (ks_k s)" using ok(1) by (simp add: slabs_ok_def)
  note R = kalloc_page_refs [OF inv h p]
  have sl: "slab_ok (slab_init p ?n (km_mem k1)) ?n p fl" "\<And>a. \<not> in_page p a \<Longrightarrow> slab_init p ?n (km_mem k1) a = km_mem k1 a"
    using slab_init_ok [OF sizes_nth [OF i] R(1), of "km_mem k1"] by (auto simp: fl_def)
  have pos: "0 < unat ?n" "0 < capacity (unat ?n)" using size_pos capacity_bounds sizes_nth [OF i] by auto
  have sl2: "slab_ok (km_mem k2) ?n p fl"
    using sl(1) slab_ok_cong [OF pos(1), of p "km_mem k2" "slab_init p ?n (km_mem k1)"] by (simp add: k2_def)
  have out: "km_mem k2 a = kmm s a" if "\<not> in_page p a" for a using that sl(2) R(4) by (auto simp: k2_def)
  have k2: "kalloc_inv kend k2" "krefs k2 = krefs k1"
  proof -
    have "km_mem k2 q = km_mem k1 q" if "q \<in> good_pages kend" "krefs k1 q = 0" for q
    proof -
      have "q \<noteq> p" using that R(1,3) by auto
      then have "\<not> in_page p q" using in_page_aligned [OF good_pages_aligned [OF R(1)] good_pages_aligned [OF that(1)]] by simp
      then show ?thesis using out R(4) by simp
    qed
    then show "kalloc_inv kend k2" using kalloc_inv_mem [OF kalloc_page_keeps [OF inv h p(1)], of "km_mem k2"] by (simp add: k2_def)
  qed (simp add: k2_def)
  have ok2: "slabs_ok kend s2 (B(i := p # B i)) (F(p := fl))"
    unfolding s2_def by (rule slabs_insert [OF ok(1) i R(1,2) k2(1) _ sl2 _ out]) (use R(3) k2(2) in \<open>auto simp: k2_def\<close>)
  have new: "p \<notin> set (B j)" if "j < 8" for j using slabs_pages(2) [OF ok(1) that, of p] R(2) by auto
  have "set fl = slab_objs (unat ?n) p" by (auto simp: fl_def slab_objs_def)
  then have live2: "live_of (B(i := p # B i)) (F(p := fl)) = live_of B F"
    using live_insert [of p B i fl "p # B i" F] new by (simp add: slab_live_def)
  obtain x fs where fs: "fl = x # fs" using pos(2) by (cases fl) (auto simp: fl_def)
  have pin: "p \<in> set ((B(i := p # B i)) i)" "(F(p := fl)) p = x # fs" using fs by simp_all
  obtain s' where s': "slab_take p ?n s2 = (x, s')" "slabs_ok kend s' (B(i := p # B i)) ((F(p := fl))(p := fs))" "krefs (ks_k s') = krefs (ks_k s2)"
    "x \<noteq> 0" "(x, unat ?n) \<notin> live_of B F" "live_of (B(i := p # B i)) ((F(p := fl))(p := fs)) = insert (x, unat ?n) (live_of B F)"
    "\<And>a. kmm s' a \<noteq> kmm s2 a \<Longrightarrow> in_page p a"
    using take_ok [OF ok2 i pin, unfolded live2] by blast
  have "none_empty (B(i := p # B i)) ((F(p := fl))(p := fs))"
    using ok(2) new arg_cong [OF fs, of length] by (auto simp: none_empty_def fl_def)
  moreover have "untouched kend {} s s'"
  proof (rule untouchedI [OF ok(1)])
    fix a assume "kmm s' a \<noteq> kmm s a"
    then have "in_page p a" using s'(7) [of a] out [of a] by (cases "in_page p a") (auto simp: s2_def)
    then show "\<exists>q \<in> good_pages kend. in_page q a \<and> (krefs (ks_k s) q = 0 \<or> (\<exists>i < 8. q \<in> set (B i) \<and> may_write s F {} (slab_sizes ! i) q a))"
      using R(1,2) by blast
  qed (use R(2,3) k2(2) s'(3) in \<open>auto simp: s2_def\<close>)
  ultimately show ?thesis using kmalloc_postI [OF ok(1) s'(2) _ i n s'(4-6)] s'(1) unfolding s2_def by blast
qed

lemma kmalloc_ok:
  assumes inv: "kmalloc_inv kend s" and h: "hart < NCPU"
  shows "\<exists>p s'. kmalloc hart n s = Ok (p, s') \<and>
    (p = 0 \<and> s' = s \<and> (n = 0 \<or> 2048 < n \<or> (\<forall>q \<in> good_pages kend. 0 < krefs (ks_k s) q)) \<or> kmalloc_post kend n s p s')"
proof -
  obtain B F where ok: "slabs_ok kend s B F" "none_empty B F" using inv by (auto simp: kmalloc_inv_def)
  have kinv: "kalloc_inv kend (ks_k s)" using ok(1) by (simp add: slabs_ok_def)
  show ?thesis
  proof (cases "n = 0 \<or> slab_bucket_index s n = None")
    case True
    then show ?thesis using slab_index_ok [OF ok(1), of n] by (auto simp: kmalloc_def)
  next
    case False
    then obtain i where idx: "slab_bucket_index s n = Some i" "n \<noteq> 0" by auto
    have i: "i < 8" "unat n \<le> unat (slab_sizes ! i)" "unat (slab_sizes ! i) = 16 \<or> unat (slab_sizes ! i) < 2 * unat n"
      using slab_index_ok [OF ok(1), of n] idx by auto
    have ch: "chain (slab_next (kmm s)) (sb_slabs (ks_buckets s ! i)) (B i)" using ok(1) i(1) by (simp add: slabs_ok_def)
    note run = slab_find_ok [OF ch bucket_length [OF ok(1) i(1)]] buckets_nth(1) [OF ok(1) i(1)]
    show ?thesis
    proof (cases "find (\<lambda>p. 0 < slab_free_count (kmm s) p) (B i)")
      case (Some p)
      then have p: "p \<in> set (B i)" "0 < slab_free_count (kmm s) p" by (auto simp: find_Some_iff)
      have "p \<noteq> 0" using slabs_pages(1) [OF ok(1) i(1) p(1)] good_pages_bound by blast
      with kmalloc_hit [OF ok i(1) p i(2,3)] show ?thesis by (auto simp: kmalloc_def idx run Some)
    next
      case None
      obtain p k1 where k1: "kalloc_page hart (ks_k s) = (p, k1)" by (cases "kalloc_page hart (ks_k s)")
      show ?thesis
      proof (cases "p = 0")
        case True
        then show ?thesis using kalloc_page_null [OF kinv h] k1 by (auto simp: kmalloc_def idx run None)
      next
        case False
        show ?thesis using kmalloc_miss [OF ok i(1) h k1 False i(2,3)] False by (auto simp: kmalloc_def idx run None k1 Let_def)
      qed
    qed
  qed
qed

section \<open>Releasing an object\<close>

definition kfree_post :: "u64 \<Rightarrow> u64 \<Rightarrow> nat \<Rightarrow> kmst \<Rightarrow> kmst \<Rightarrow> bool" where
  "kfree_post kend p k s s' \<longleftrightarrow> kmalloc_inv kend s' \<and> untouched kend {(p, k)} s s' \<and> kmalloc_live s' = kmalloc_live s - {(p, k)} \<and>
     ((\<forall>x \<in> kmalloc_live s'. \<not> in_page (PGROUNDDOWN p) (fst x)) \<longrightarrow> krefs (ks_k s') (PGROUNDDOWN p) = 0)"

text \<open>Putting an object back on the list of its slab.\<close>

lemma put_back_ok:
  assumes ok: "slabs_ok kend s B F" and i: "i < 8" "p \<in> set (B i)" and x: "x \<in> slab_objs (unat (slab_sizes ! i)) p" "x \<notin> set (F p)"
  defines "s' \<equiv> with_mem (\<lambda>m. slab_push p x (range_fill m x (slab_sizes ! i) junk_freed)) s"
  shows "slabs_ok kend s' B (F(p := x # F p))" "\<And>a. kmm s' a \<noteq> kmm s a \<Longrightarrow> in_page p a \<and> may_write s F {(x, unat (slab_sizes ! i))} (slab_sizes ! i) p a"
    "live_of B (F(p := x # F p)) = live_of B F - {(x, unat (slab_sizes ! i))}"
proof -
  let ?n = "slab_sizes ! i"
  define m where "m = range_fill (kmm s) x ?n junk_freed"
  note P = slabs_pages [OF ok i] and pos = size_pos [OF sizes_nth [OF i(1)]]
  note h = slab_objs_header [OF x(1) pos]
  have e: "kmm s' = slab_push p x m" "s' = with_mem (\<lambda>_. slab_push p x m) s" by (simp_all add: s'_def m_def)
  have mok: "slab_ok (slab_push p x m) ?n p (x # F p)"
    unfolding m_def by (rule slab_push_ok [OF range_fill_ok [OF P(3) x pos] x pos obj_nonnull [OF P(1) x(1)]])
  obtain l where l: "l < capacity (unat ?n)" "x = obj (unat ?n) p l" using x(1) pos by (auto elim: slab_objsE)
  note rf = range_fill_off [OF l(1) pos, of "kmm s" p junk_freed, folded l(2), folded m_def]
  show w: "in_page p a \<and> may_write s F {(x, unat ?n)} ?n p a" if "kmm s' a \<noteq> kmm s a" for a
  proof -
    have "a = p + 8 \<or> a = p + 24 \<or> a = x \<or> a - x < ucast ?n"
      using that h unfolding e by (auto simp: slab_push_eq m_def range_fill_def split: if_splits)
    moreover have "x - x < ucast ?n" using pos by (simp add: word_less_nat_alt)
    ultimately consider "a = p + 8 \<or> a = p + 24" | "a - x < ucast ?n" by auto
    then show ?thesis
    proof cases
      case 1
      then have "off p a < 32" by auto
      then show ?thesis by (simp add: in_page_off may_write_def)
    next
      case 2
      then have "off p a < 32 + l * unat ?n + unat ?n" using obj_range [OF l(1) pos, of a p] l(2) by simp
      then have "in_page p a" using obj_bound [OF l(1) pos] unfolding in_page_off by linarith
      with 2 x(1) show ?thesis by (auto simp: may_write_def)
    qed
  qed
  have "slab_push p x m (p + 16) = kmm s (p + 16)" using h by (simp add: slab_push_eq rf)
  moreover have "slab_push p x m a = kmm s a" if "\<not> in_page p a" for a using that w [of a] e(1) by auto
  ultimately show "slabs_ok kend s' B (F(p := x # F p))" unfolding e(2) by (rule slabs_update [OF ok i mok])
  show "live_of B (F(p := x # F p)) = live_of B F - {(x, unat ?n)}"
    using live_split [OF ok i, of "F(p := x # F p)"] live_split [OF ok i, of F] slab_live_Cons [OF x] live_others_disjoint [OF ok i x(1)] by auto
qed

lemma kfree_run:
  assumes ok: "slabs_ok kend s B F" and i: "i < 8" "p \<in> set (B i)" and x: "x \<in> slab_objs (unat (slab_sizes ! i)) p" "x \<notin> set (F p)"
  defines "s1 \<equiv> with_mem (\<lambda>m. slab_push p x (range_fill m x (slab_sizes ! i) junk_freed)) s"
  shows "kfree kend hart x s =
    (if Suc (length (F p)) = capacity (unat (slab_sizes ! i))
     then rbind (slab_unlink i p s1) (\<lambda>s2. rmap (\<lambda>k. s2\<lparr>ks_k := k\<rparr>) (kfree_page kend hart (ks_k s2) p)) else Ok s1)"
proof -
  let ?n = "slab_sizes ! i"
  note P = slabs_pages [OF ok i] and pos = size_pos [OF sizes_nth [OF i(1)]]
  note h = slab_objs_header [OF x(1) pos]
  have page: "PGROUNDDOWN x = p" by (rule in_page_PGROUNDDOWN [OF P(4) h(1)])
  have x0: "x \<noteq> 0" by (rule obj_nonnull [OF P(1) x(1)])
  have bnd: "kend \<le> p" "p < PHYSTOP" using P(1) by (auto simp: good_pages_def bad_page_def not_less not_le)
  obtain l where l: "l < capacity (unat ?n)" "x = obj (unat ?n) p l" "off p x = 32 + l * unat ?n" "32 + l * unat ?n + unat ?n \<le> 4096"
    using x(1) pos by (auto elim: slab_objsE)
  have ux: "unat x = unat p + (32 + l * unat ?n)" using unat_in_page [OF P(1) h(1)] l(3) by simp
  have up: "unat p < 2 ^ 56" using good_pages_bound [OF P(1)] by simp
  have lo: "p + 32 \<le> x" using up by (simp add: word_le_nat_alt ux unat_word_ariths)
  have hi: "x < p + 4096" using up l(4) pos by (simp add: word_less_nat_alt ux unat_word_ariths)
  have md: "(x - p - 32) mod ucast ?n = 0"
  proof -
    have "x - p - 32 = of_nat (l * unat ?n)" by (simp add: l(2) obj_def)
    moreover have "l * unat ?n < 2 ^ 64" using l(4) by simp
    ultimately have "unat (x - p - 32) = l * unat ?n" by (simp only: unat_of_frame)
    then show ?thesis by (simp add: word_unat_eq_iff unat_mod)
  qed
  have ok1: "slab_ok (kmm s) ?n p (F p)" "slab_ok (kmm s1) ?n p (x # F p)"
    using P(3) slabs_pages(3) [OF put_back_ok(1) [OF ok i x] i] by (simp_all add: s1_def)
  have cap: "length (F p) < capacity (unat ?n)" "capacity (unat ?n) < 255"
    using slab_live_full(1) [OF ok1(2) sizes_nth [OF i(1)]] capacity_bounds [OF sizes_nth [OF i(1)]] by auto
  have cnt: "\<not> slab_total (kmm s) p \<le> slab_free_count (kmm s) p"
    using ok1(1) cap by (simp add: slab_ok_def word_le_nat_alt unsigned_of_nat take_bit_nat_eq_self)
  have eq: "slab_free_count (kmm s1) p = slab_total (kmm s1) p \<longleftrightarrow> Suc (length (F p)) = capacity (unat ?n)"
    using ok1(2) cap by (simp add: slab_ok_def word_unat_eq_iff unsigned_of_nat take_bit_nat_eq_self del: of_nat_Suc)
  have c1: "\<not> (p < kend \<or> PHYSTOP \<le> p)" using bnd by auto
  have c2: "\<not> (x < p + 32 \<or> p + PGSIZE \<le> x \<or> (x - p - 32) mod ucast ?n \<noteq> 0)" using lo hi md by auto
  have f: "slab_magic (kmm s) p = SLAB_MAGIC" "slab_obj_size (kmm s) p = ?n" using ok1(1) by (auto simp: slab_ok_def)
  have "kfree kend hart x s =
    (if slab_free_count (kmm s1) p = slab_total (kmm s1) p
     then rbind (slab_unlink i p s1) (\<lambda>s2. rmap (\<lambda>k. s2\<lparr>ks_k := k\<rparr>) (kfree_page kend hart (ks_k s2) p)) else Ok s1)"
    unfolding kfree_def Let_def page slab_data_offset_eq f index_of_size [OF ok i(1)]
    by (simp only: x0 c1 c2 cnt buckets_nth(1) [OF ok i(1)] f option.case if_False simp_thms s1_def)
  then show ?thesis unfolding eq .
qed

lemma kfree_postI:
  assumes ok: "slabs_ok kend s B F" and ok': "slabs_ok kend s' B' F'" "none_empty B' F'"
    and l: "live_of B' F' = live_of B F - {(x, k)}" and u: "untouched kend {(x, k)} s s'"
    and p: "PGROUNDDOWN x = p" "(\<exists>y \<in> live_of B' F'. in_page p (fst y)) \<or> krefs (ks_k s') p = 0"
  shows "kfree_post kend x k s s'"
  unfolding kfree_post_def kmalloc_inv_def kmalloc_live_eq [OF ok] kmalloc_live_eq [OF ok'(1)] p(1)
  using ok' l u p(2) by blast

lemma kfree_keep:
  assumes ok: "slabs_ok kend s B F" "none_empty B F" and i: "i < 8" "p \<in> set (B i)"
    and x: "x \<in> slab_objs (unat (slab_sizes ! i)) p" "x \<notin> set (F p)" and c: "Suc (length (F p)) \<noteq> capacity (unat (slab_sizes ! i))"
  shows "\<exists>s'. kfree kend hart x s = Ok s' \<and> kfree_post kend x (unat (slab_sizes ! i)) s s'"
proof -
  let ?n = "slab_sizes ! i" and ?F = "F(p := x # F p)"
  define s1 where "s1 = with_mem (\<lambda>m. slab_push p x (range_fill m x ?n junk_freed)) s"
  note S = put_back_ok [OF ok(1) i x, folded s1_def] and n = sizes_nth [OF i(1)] and P = slabs_pages [OF ok(1) i]
  have sl: "slab_ok (kmm s1) ?n p (x # F p)" using slabs_pages(3) [OF S(1) i] by simp
  have lt: "length (x # F p) < capacity (unat ?n)" using slab_live_full(1) [OF sl n] c by simp
  have page: "PGROUNDDOWN x = p" using in_page_PGROUNDDOWN [OF P(4)] slab_objs_header(1) [OF x(1) size_pos [OF n]] by blast
  have "slab_live (unat ?n) p (x # F p) \<noteq> {}" using slab_live_full(2) [OF sl n] lt by simp
  then obtain b where b: "b \<in> slab_objs (unat ?n) p" "(b, unat ?n) \<in> slab_live (unat ?n) p (x # F p)" by (auto simp: slab_live_def)
  have "(b, unat ?n) \<in> live_of B ?F" using live_split [OF S(1) i, of ?F] b(2) by simp
  moreover have "in_page p b" using slab_objs_header(1) [OF b(1) size_pos [OF n]] .
  ultimately have some: "\<exists>y \<in> live_of B ?F. in_page p (fst y)" by force
  have "none_empty B ?F"
    unfolding none_empty_def
  proof (intro allI impI ballI)
    fix j q assume jq: "j < 8" "q \<in> set (B j)"
    show "length (?F q) < capacity (unat (slab_sizes ! j))"
    proof (cases "q = p")
      case True
      then have "j = i" using ok(1) i jq unfolding slabs_ok_def by blast
      with True lt show ?thesis by simp
    qed (use ok(2) jq in \<open>simp add: none_empty_def\<close>)
  qed
  moreover have "untouched kend {(x, unat ?n)} s s1"
    by (rule untouchedI [OF ok(1)]) (use S(2) i P(1) in \<open>blast, simp add: s1_def\<close>)
  ultimately have "kfree_post kend x (unat ?n) s s1" using kfree_postI [OF ok(1) S(1) _ S(3) _ page] some by blast
  then show ?thesis using kfree_run [OF ok(1) i x, of hart, folded s1_def] c by simp
qed

lemma kfree_release:
  assumes ok: "slabs_ok kend s B F" "none_empty B F" and i: "i < 8" "p \<in> set (B i)" and h: "hart < NCPU"
    and x: "x \<in> slab_objs (unat (slab_sizes ! i)) p" "x \<notin> set (F p)" and c: "Suc (length (F p)) = capacity (unat (slab_sizes ! i))"
  shows "\<exists>s'. kfree kend hart x s = Ok s' \<and> kfree_post kend x (unat (slab_sizes ! i)) s s'"
proof -
  let ?n = "slab_sizes ! i" and ?F = "F(p := x # F p)"
  define s1 where "s1 = with_mem (\<lambda>m. slab_push p x (range_fill m x ?n junk_freed)) s"
  note S = put_back_ok [OF ok(1) i x, folded s1_def] and n = sizes_nth [OF i(1)] and P = slabs_pages [OF ok(1) i]
  have page: "PGROUNDDOWN x = p" using in_page_PGROUNDDOWN [OF P(4)] slab_objs_header(1) [OF x(1) size_pos [OF n]] by blast
  have "slab_ok (kmm s1) ?n p (x # F p)" using slabs_pages(3) [OF S(1) i] by simp
  then have none: "slab_live (unat ?n) p (x # F p) = {}" using slab_live_full(2) [OF _ n] c by simp
  obtain s2 k b ps qs where R: "slab_unlink i p s1 = Ok s2" "kfree_page kend hart (ks_k s2) p = Ok k" "B i = ps @ p # qs"
    "slabs_ok kend (s2\<lparr>ks_k := k\<rparr>) (B(i := ps @ qs)) ?F" "\<forall>q \<in> good_pages kend. krefs k q = (if q = p then 0 else krefs (ks_k s1) q)"
    "\<forall>a. \<not> in_page p a \<longrightarrow> (\<forall>q \<in> set (B i). a \<noteq> q + 16) \<longrightarrow> km_mem k a = kmm s1 a"
    using slab_release_ok [OF S(1) i h] by blast
  have gone: "p \<notin> set ((B(i := ps @ qs)) j)" if "j < 8" for j
    using bucket_distinct [OF ok(1) i(1)] R(3) ok(1) i that unfolding slabs_ok_def by (cases "j = i") auto
  have "live_of ((B(i := ps @ qs))(i := B i)) (?F(p := x # F p)) = live_of (B(i := ps @ qs)) ?F"
    by (rule live_insert [OF gone none]) (use R(3) in auto)
  then have live: "live_of (B(i := ps @ qs)) ?F = live_of B F - {(x, unat ?n)}" using S(3) by simp
  have ne: "none_empty (B(i := ps @ qs)) ?F"
    unfolding none_empty_def
  proof (intro allI impI ballI)
    fix j q assume jq: "j < 8" "q \<in> set ((B(i := ps @ qs)) j)"
    have "q \<noteq> p" "q \<in> set (B j)" using gone [OF jq(1)] jq(2) R(3) by (auto split: if_splits)
    then show "length (?F q) < capacity (unat (slab_sizes ! j))" using ok(2) jq(1) by (simp add: none_empty_def)
  qed
  have un: "untouched kend {(x, unat ?n)} s (s2\<lparr>ks_k := k\<rparr>)"
  proof (rule untouchedI [OF ok(1)])
    fix a assume ch: "kmm (s2\<lparr>ks_k := k\<rparr>) a \<noteq> kmm s a"
    have "in_page p a \<or> (\<exists>q \<in> set (B i). a = q + 16)" using ch R(6) S(2) [of a] by fastforce
    then show "\<exists>q \<in> good_pages kend. in_page q a \<and> (krefs (ks_k s) q = 0 \<or> (\<exists>j < 8. q \<in> set (B j) \<and> may_write s F {(x, unat ?n)} (slab_sizes ! j) q a))"
    proof
      assume "in_page p a"
      moreover have "may_write s F {(x, unat ?n)} ?n p a" using none by (auto simp: may_write_def slab_live_def)
      ultimately show ?thesis using P(1) i by blast
    next
      assume "\<exists>q \<in> set (B i). a = q + 16"
      then obtain q where q: "q \<in> set (B i)" "a = q + 16" by blast
      then have "may_write s F {(x, unat ?n)} ?n q a" "in_page q a" by (simp_all add: may_write_def)
      then show ?thesis using slabs_pages(1) [OF ok(1) i(1) q(1)] i(1) q(1) by blast
    qed
  next
    fix q assume "q \<in> good_pages kend" "q \<notin> slab_pages s"
    moreover from this have "q \<noteq> p" using i by (auto simp: slab_pages_eq [OF ok(1)])
    ultimately show "krefs (ks_k (s2\<lparr>ks_k := k\<rparr>)) q = krefs (ks_k s) q" using R(5) by (simp add: s1_def)
  qed
  have "krefs (ks_k (s2\<lparr>ks_k := k\<rparr>)) p = 0" using R(5) P(1) by simp
  then have "kfree_post kend x (unat ?n) s (s2\<lparr>ks_k := k\<rparr>)" using kfree_postI [OF ok(1) R(4) ne live un page] by blast
  then show ?thesis using kfree_run [OF ok(1) i x, of hart, folded s1_def] c R(1,2) by simp
qed

lemma kfree_ok:
  assumes "kmalloc_inv kend s" and h: "hart < NCPU" and x: "(x, k) \<in> kmalloc_live s"
  shows "\<exists>s'. kfree kend hart x s = Ok s' \<and> kfree_post kend x k s s'"
proof -
  obtain B F where ok: "slabs_ok kend s B F" "none_empty B F" using assms(1) by (auto simp: kmalloc_inv_def)
  obtain i p where i: "i < 8" "p \<in> set (B i)" "k = unat (slab_sizes ! i)" "x \<in> slab_objs k p" "x \<notin> set (F p)"
    using x unfolding kmalloc_live_eq [OF ok(1)] by (auto simp: live_of_def)
  note y = i(4,5) [unfolded i(3)]
  show ?thesis unfolding i(3)
    using kfree_keep [OF ok i(1,2) y] kfree_release [OF ok i(1,2) h y] by blast
qed

section \<open>The contract\<close>

lemma kminit_ok:
  assumes "kalloc_inv kend k" and "0x80000000 \<le> kend"
  shows "kmalloc_inv kend (kminit k)" "kmalloc_live (kminit k) = {}"
proof -
  have "sb_slabs (ks_buckets (kminit k) ! i) = 0" if "i < 8" for i
    using that by (simp add: kminit_def slab_sizes_def nth_Cons split: nat.splits)
  then have ok: "slabs_ok kend (kminit k) (\<lambda>_. []) (\<lambda>_. [])"
    using assms by (simp add: slabs_ok_def) (simp add: kminit_def comp_def)
  moreover have "none_empty (\<lambda>_. []) (\<lambda>_. [])" by (simp add: none_empty_def)
  ultimately show "kmalloc_inv kend (kminit k)" unfolding kmalloc_inv_def by blast
  show "kmalloc_live (kminit k) = {}" by (simp add: kmalloc_live_eq [OF ok] live_of_def)
qed

interpretation km: object_allocator "kmalloc_inv kend" kmalloc_live "kmalloc (h mod NCPU)" "kfree kend (h mod NCPU)" for kend h
proof unfold_locales
  fix s assume "kmalloc_inv kend s"
  then obtain B F where ok: "slabs_ok kend s B F" by (auto simp: kmalloc_inv_def)
  show "disjoint_objects (kmalloc_live s)" unfolding kmalloc_live_eq [OF ok] by (rule live_of_disjoint [OF ok])
  fix p k assume "(p, k) \<in> kmalloc_live s"
  then show "p \<noteq> 0" unfolding kmalloc_live_eq [OF ok] using slabs_pages(1) [OF ok] obj_nonnull by (fastforce simp: live_of_def)
next
  fix s n assume inv: "kmalloc_inv kend s"
  show "\<exists>p s'. kmalloc (h mod NCPU) n s = Ok (p, s') \<and> kmalloc_inv kend s' \<and>
    (p = 0 \<and> s' = s \<or> (\<exists>k. unat n \<le> k \<and> (p, k) \<notin> kmalloc_live s \<and> kmalloc_live s' = insert (p, k) (kmalloc_live s)))"
    using kmalloc_ok [OF inv, of "h mod NCPU" n] inv unfolding kmalloc_post_def by auto
next
  fix s p k assume "kmalloc_inv kend s" "(p, k) \<in> kmalloc_live s"
  then show "\<exists>s'. kfree kend (h mod NCPU) p s = Ok s' \<and> kmalloc_inv kend s' \<and> kmalloc_live s' = kmalloc_live s - {(p, k)}"
    using kfree_ok [of kend s "h mod NCPU" p k] unfolding kfree_post_def by auto
qed

lemma kminit_two_free: "\<exists>q \<in> good_pages 0x805FE000. krefs (ks_k (kminit kmem_two)) q = 0"
  by (rule bexI [of _ "0x805FE000 :: u64"]) (simp_all add: good_pages_two kminit_def krefs_def kmem_two_def)

section \<open>Properties\<close>

text \<open>
  C25: \<^verbatim>\<open>kmalloc\<close> always returns. It returns null, with the state unchanged, exactly for a reason: the size is zero, above 2048, or
  no page frame is free. Otherwise the result is a new object of at least the requested size (a size class less than twice the
  request, or 16 bytes) that shares no byte with any other live object; every other live object and every page frame that
  others use keep their contents, and the allocator stays well formed.
\<close>

theorem kmalloc_correct:
  assumes "kmalloc_inv kend s" and "hart < NCPU"
  shows "\<exists>p s'. kmalloc hart n s = Ok (p, s') \<and>
    (p = 0 \<and> s' = s \<and> (n = 0 \<or> 2048 < n \<or> (\<forall>q \<in> good_pages kend. 0 < krefs (ks_k s) q)) \<or>
     p \<noteq> 0 \<and> kmalloc_inv kend s' \<and> untouched kend {} s s' \<and> disjoint_objects (kmalloc_live s') \<and>
     (\<exists>k. unat n \<le> k \<and> (k = 16 \<or> k < 2 * unat n) \<and> (p, k) \<notin> kmalloc_live s \<and> kmalloc_live s' = insert (p, k) (kmalloc_live s)))"
  using kmalloc_ok [OF assms, of n] km.live_disjoint unfolding kmalloc_post_def by blast

theorem kmalloc_correct_witness:
  "\<exists>p s'. kmalloc 1 24 (kminit kmem_two) = Ok (p, s') \<and> p \<noteq> 0 \<and> kmalloc_inv 0x805FE000 s' \<and>
     (\<exists>k. 24 \<le> k \<and> k < 48 \<and> kmalloc_live s' = {(p, k)})"
proof -
  have one: "(1 :: nat) < NCPU" by simp
  have "unat (24 :: u64) = 24" by simp
  with kmalloc_correct [OF kminit_ok(1) [OF kmem_two_inv] one, of 24] kminit_two_free kminit_ok(2) [OF kmem_two_inv]
  show ?thesis by auto
qed

text \<open>
  C26: \<^verbatim>\<open>kfree\<close> of a live object never panics, on whichever CPU it runs. It removes that object and no other from the live
  ones, leaves the contents of all others and of the page frames that others use unchanged, and gives the page back to
  the page allocator when the object was the last one of its slab.
\<close>

theorem kfree_correct:
  assumes "kmalloc_inv kend s" and "hart < NCPU" and "(p, k) \<in> kmalloc_live s"
  shows "\<exists>s'. kfree kend hart p s = Ok s' \<and> kmalloc_inv kend s' \<and> untouched kend {(p, k)} s s' \<and>
    kmalloc_live s' = kmalloc_live s - {(p, k)} \<and>
    ((\<forall>x \<in> kmalloc_live s'. \<not> in_page (PGROUNDDOWN p) (fst x)) \<longrightarrow> krefs (ks_k s') (PGROUNDDOWN p) = 0)"
  using kfree_ok [OF assms] unfolding kfree_post_def by blast

theorem kfree_correct_witness:
  "\<exists>p s1 s2. kmalloc 1 24 (kminit kmem_two) = Ok (p, s1) \<and> kfree 0x805FE000 0 p s1 = Ok s2 \<and>
     kmalloc_live s2 = {} \<and> krefs (ks_k s2) (PGROUNDDOWN p) = 0"
proof -
  have harts: "(1 :: nat) < NCPU" "(0 :: nat) < NCPU" by simp_all
  obtain p s1 k where s1: "kmalloc 1 24 (kminit kmem_two) = Ok (p, s1)" "kmalloc_inv 0x805FE000 s1" "kmalloc_live s1 = {(p, k)}"
    using kmalloc_ok [OF kminit_ok(1) [OF kmem_two_inv] harts(1), of 24] kminit_two_free kminit_ok(2) [OF kmem_two_inv]
    unfolding kmalloc_post_def by auto
  with kfree_correct [OF s1(2) harts(2), of p k] show ?thesis by auto
qed

text \<open>
  from the state that \<^verbatim>\<open>kminit\<close> leaves, any sequence of requests returns, and the objects it hands out are pairwise
  disjoint and large enough, however many of the requests fail.
\<close>

theorem kmalloc_requests_disjoint:
  assumes "kalloc_inv kend k" and "0x80000000 \<le> kend"
  shows "\<exists>ps s'. malloc_all (kmalloc (hart mod NCPU)) ns (kminit k) = Ok (ps, s') \<and> length ps = length ns \<and>
    disjoint_objects (kmalloc_live s') \<and>
    (\<forall>i < length ns. ps ! i \<noteq> 0 \<longrightarrow> (\<exists>size. unat (ns ! i) \<le> size \<and> (ps ! i, size) \<in> kmalloc_live s'))"
  using km.malloc_all_ok [OF kminit_ok(1) [OF assms], of hart ns] km.live_disjoint by blast

theorem kmalloc_requests_disjoint_witness:
  "\<exists>ps s'. malloc_all (kmalloc (0 mod NCPU)) [24, 2048, 4096] (kminit kmem_two) = Ok (ps, s') \<and> length ps = 3 \<and>
     disjoint_objects (kmalloc_live s')"
  using kmalloc_requests_disjoint [OF kmem_two_inv, of 0 "[24, 2048, 4096]"] by auto

end
