(* ===== verification/FileTable.thy ===== *)
theory FileTable
  imports FatTree Pipe Vm
begin

text \<open>
  \<^verbatim>\<open>kernel/fs/file.c\<close>, \<^verbatim>\<open>kernel/devsw/device.c\<close> and \<^verbatim>\<open>pipealloc\<close> of \<^verbatim>\<open>kernel/ipc/pipe.c\<close>: open files. The table holds reference-counted
  files that are a pipe end, a FAT32 entry or a device.

  A file is named by its index in the table, a pipe by the address of its page, and the operations of a
  device by a number: the functions behind it are a parameter, as they are function pointers in the
  code. The state \<open>'w\<close> stands for user memory and devices; \<open>en_io\<close> and \<open>en_kio\<close> are the copies to and from
  user and kernel memory. An operation on a pipe may have to sleep; that is a result of its own, and the call is
  resumed where \<open>Pipe\<close> says. Wakeups and signals that a pipe operation sends are recorded in order in \<open>ft_log\<close>.
\<close>

abbreviation (input) NFILE :: nat where "NFILE \<equiv> 100"
abbreviation (input) NDEV :: int where "NDEV \<equiv> 10"

datatype fd_type = FD_NONE | FD_PIPE | FD_ENTRY | FD_DEVICE

record kfile =
  f_type :: fd_type
  f_ref :: int
  f_readable :: bool
  f_writable :: bool
  f_pipe :: u64
  f_ep :: eptr
  f_off :: u32
  f_major :: "16 word"
  f_minor :: "16 word"
  f_ops :: "nat option"
  f_private_data :: u64

record 'w file_operations =
  op_open :: "(kfile \<Rightarrow> 'w \<Rightarrow> int \<times> kfile \<times> 'w) option"
  op_close :: "(kfile \<Rightarrow> 'w \<Rightarrow> int \<times> kfile \<times> 'w) option"
  op_read :: "(kfile \<Rightarrow> u64 \<Rightarrow> int \<Rightarrow> 'w \<Rightarrow> int \<times> kfile \<times> 'w) option"
  op_write :: "(kfile \<Rightarrow> u64 \<Rightarrow> int \<Rightarrow> 'w \<Rightarrow> int \<times> kfile \<times> 'w) option"
  op_ioctl :: "(kfile \<Rightarrow> u64 \<Rightarrow> u64 \<Rightarrow> 'w \<Rightarrow> int \<times> kfile \<times> 'w) option"

record device =
  d_name :: "string option"
  d_ops :: "nat option"

record 'w env =
  en_k :: kenv
  en_io :: "'w uio"
  en_kio :: "'w uio"
  en_ops :: "nat \<Rightarrow> 'w file_operations"

datatype pipe_event = Wake u64 pipe_chan | SigPipe

record 'w ftable =
  ft_file :: "kfile list"
  ft_fs :: fs
  ft_pipe :: "u64 \<Rightarrow> pipe"
  ft_k :: kmem
  ft_dev :: "device list"
  ft_log :: "pipe_event list"
  ft_w :: 'w

datatype io_result = Io int | SleepRead | SleepWrite nat

abbreviation (input) fget :: "'w ftable \<Rightarrow> nat \<Rightarrow> kfile" where "fget s i \<equiv> ft_file s ! i"

definition fset :: "nat \<Rightarrow> (kfile \<Rightarrow> kfile) \<Rightarrow> 'w ftable \<Rightarrow> 'w ftable" where
  "fset i g s = s\<lparr>ft_file := (ft_file s)[i := g (ft_file s ! i)]\<rparr>"

section \<open>Devices\<close>

definition device_register :: "int \<Rightarrow> string option \<Rightarrow> nat option \<Rightarrow> 'w ftable \<Rightarrow> int \<times> 'w ftable" where
  "device_register major name ops s =
     (if major \<le> 0 \<or> NDEV \<le> major \<or> name = None \<or> ops = None then (-1, s)
      else if d_ops (ft_dev s ! nat major) \<noteq> None then (-1, s)
      else (0, s\<lparr>ft_dev := (ft_dev s)[nat major := \<lparr>d_name = name, d_ops = ops\<rparr>]\<rparr>))"

definition device_get :: "'w ftable \<Rightarrow> int \<Rightarrow> device option" where
  "device_get s major =
     (if major \<le> 0 \<or> NDEV \<le> major \<or> d_ops (ft_dev s ! nat major) = None then None else Some (ft_dev s ! nat major))"

section \<open>Allocation and reference counts\<close>

definition filealloc :: "'w ftable \<Rightarrow> nat option \<times> 'w ftable" where
  "filealloc s =
     (case first_idx (\<lambda>i. f_ref (fget s i) = 0) [0..<NFILE] of
        Some i \<Rightarrow> (Some i, fset i (\<lambda>f. f\<lparr>f_ref := 1\<rparr>) s)
      | None \<Rightarrow> (None, s))"

definition filedup :: "nat \<Rightarrow> 'w ftable \<Rightarrow> 'w ftable res" where
  "filedup i s = (if f_ref (fget s i) < 1 then Panic ''filedup'' else Ok (fset i (\<lambda>f. f\<lparr>f_ref := f_ref f + 1\<rparr>) s))"

text \<open>Calling an operation of a device on a file of the table.\<close>

definition dev_call :: "(kfile \<Rightarrow> 'w \<Rightarrow> int \<times> kfile \<times> 'w) \<Rightarrow> nat \<Rightarrow> 'w ftable \<Rightarrow> int \<times> 'w ftable" where
  "dev_call g i s = (let (r, f, w) = g (fget s i) (ft_w s) in (r, (fset i (\<lambda>_. f) s)\<lparr>ft_w := w\<rparr>))"

definition fileopen :: "'w env \<Rightarrow> nat \<Rightarrow> 'w ftable \<Rightarrow> int \<times> 'w ftable" where
  "fileopen en i s =
     (if f_type (fget s i) \<noteq> FD_DEVICE then (-1, s)
      else case device_get s (sint (f_major (fget s i))) of
        None \<Rightarrow> (-1, s)
      | Some dev \<Rightarrow>
          let s1 = fset i (\<lambda>f. f\<lparr>f_ops := d_ops dev\<rparr>) s
          in case d_ops dev of
               None \<Rightarrow> (-1, s1)
             | Some ops \<Rightarrow>
                 let s2 = fset i (\<lambda>f. f\<lparr>f_private_data := 0\<rparr>) s1
                 in case op_open (en_ops en ops) of None \<Rightarrow> (0, s2) | Some g \<Rightarrow> dev_call g i s2)"

definition with_fs :: "fs res \<Rightarrow> 'w ftable \<Rightarrow> 'w ftable res" where
  "with_fs r s = rmap (\<lambda>fs. s\<lparr>ft_fs := fs\<rparr>) r"

definition close_pipe :: "'w env \<Rightarrow> u64 \<Rightarrow> bool \<Rightarrow> 'w ftable \<Rightarrow> 'w ftable res" where
  "close_pipe en pi writable s =
     (let (p1, wakes, freed) = pipeclose (ft_pipe s pi) writable;
          s1 = s\<lparr>ft_pipe := (ft_pipe s)(pi := p1), ft_log := ft_log s @ map (Wake pi) wakes\<rparr>
      in if freed then rmap (\<lambda>k. s1\<lparr>ft_k := k\<rparr>) (kfree (en_k en) (ft_k s1) pi) else Ok s1)"

definition fileclose :: "'w env \<Rightarrow> nat \<Rightarrow> 'w ftable \<Rightarrow> (int \<times> 'w ftable) res" where
  "fileclose en i s =
     (let ff = fget s i
      in if f_ref ff < 1 then Panic ''fileclose''
         else if 0 < f_ref ff - 1 then Ok (0, fset i (\<lambda>f. f\<lparr>f_ref := f_ref f - 1\<rparr>) s)
         else let s1 = fset i (\<lambda>f. f\<lparr>f_ref := 0, f_type := FD_NONE\<rparr>) s
              in case f_type ff of
                   FD_PIPE \<Rightarrow> rmap (Pair 0) (close_pipe en (f_pipe ff) (f_writable ff) s1)
                 | FD_ENTRY \<Rightarrow> rmap (Pair 0) (with_fs (eput (ft_fs s1) (f_ep ff)) s1)
                 | FD_DEVICE \<Rightarrow>
                     (case f_ops ff of
                        None \<Rightarrow> Ok (-1, s1)
                      | Some ops \<Rightarrow>
                          (case op_close (en_ops en ops) of
                             None \<Rightarrow> Ok (0, s1)
                           | Some g \<Rightarrow> let (r, ff1, w) = g (ff\<lparr>f_ref := 0\<rparr>) (ft_w s1) in Ok (r, s1\<lparr>ft_w := w\<rparr>)))
                 | FD_NONE \<Rightarrow> Ok (0, s1))"

definition pipealloc_bad :: "'w env \<Rightarrow> nat option \<Rightarrow> nat option \<Rightarrow> 'w ftable \<Rightarrow> ((nat \<times> nat) option \<times> 'w ftable) res" where
  "pipealloc_bad en f0 f1 s =
     rbind (case f0 of None \<Rightarrow> Ok s | Some i \<Rightarrow> rmap snd (fileclose en i s)) (\<lambda>s1.
     rbind (case f1 of None \<Rightarrow> Ok s1 | Some i \<Rightarrow> rmap snd (fileclose en i s1)) (\<lambda>s2. Ok (None, s2)))"

definition pipealloc :: "'w env \<Rightarrow> 'w ftable \<Rightarrow> ((nat \<times> nat) option \<times> 'w ftable) res" where
  "pipealloc en s =
     (let (f0, s1) = filealloc s
      in case f0 of
           None \<Rightarrow> pipealloc_bad en None None s1
         | Some i \<Rightarrow>
             (let (f1, s2) = filealloc s1
              in case f1 of
                   None \<Rightarrow> pipealloc_bad en (Some i) None s2
                 | Some j \<Rightarrow>
                     (let (pi, k) = kalloc (en_k en) (ft_k s2); s3 = s2\<lparr>ft_k := k\<rparr>
                      in if pi = 0 then pipealloc_bad en (Some i) (Some j) s3
                         else let s4 = s3\<lparr>ft_pipe := (ft_pipe s3)(pi := pipe_init (pdata (ft_pipe s3 pi)))\<rparr>;
                                  s5 = fset i (\<lambda>f. f\<lparr>f_type := FD_PIPE, f_readable := True, f_writable := False, f_pipe := pi\<rparr>) s4
                              in Ok (Some (i, j), fset j (\<lambda>f. f\<lparr>f_type := FD_PIPE, f_readable := False, f_writable := True, f_pipe := pi\<rparr>) s5))))"

section \<open>Metadata\<close>

text \<open>The layout of \<^verbatim>\<open>struct stat\<close>; \<open>pad\<close> is what the padding happens to hold.\<close>

definition stat_bytes :: "bytes \<Rightarrow> stat \<Rightarrow> bytes" where
  "stat_bytes pad st =
     take 33 (st_name st) @ take 3 pad @ le32_bytes (word_of_int (st_dev st)) @ take 2 (le32_bytes (word_of_int (st_type st))) @
     take 6 (drop 3 pad) @ le32_bytes (ucast (st_size st)) @ le32_bytes (ucast (drop_bit 32 (st_size st)))"

definition copy_user :: "'w env \<Rightarrow> u64 \<Rightarrow> bytes \<Rightarrow> 'w ftable \<Rightarrow> int \<times> 'w ftable" where
  "copy_user en addr bs s = (let (w, ok) = uio_out (en_io en) (ft_w s) addr bs in (if ok then 0 else -1, s\<lparr>ft_w := w\<rparr>))"

text \<open>\<open>st0\<close> and \<open>pad\<close> are the initial contents of the local variable.\<close>

definition filestat :: "'w env \<Rightarrow> stat \<Rightarrow> bytes \<Rightarrow> nat \<Rightarrow> u64 \<Rightarrow> 'w ftable \<Rightarrow> (int \<times> 'w ftable) res" where
  "filestat en st0 pad i addr s =
     (if f_type (fget s i) = FD_ENTRY then
        let ep = f_ep (fget s i)
        in rbind (with_fs (elock (ft_fs s) ep) s) (\<lambda>s1.
             let st = estat (ent (ft_fs s1) ep) st0
             in rmap (copy_user en addr (stat_bytes pad st)) (with_fs (eunlock (ft_fs s1) ep) s1))
      else Ok (-1, s))"

section \<open>Reading and writing\<close>

definition eread_ent :: "'w uio \<Rightarrow> eptr \<Rightarrow> u64 \<Rightarrow> u32 \<Rightarrow> u32 \<Rightarrow> 'w ftable \<Rightarrow> (int \<times> 'w ftable) res" where
  "eread_ent io ep addr off n s =
     rmap (\<lambda>(r, e, b, w). (sint r, s\<lparr>ft_fs := (upd_ent (ft_fs s) ep (\<lambda>_. e))\<lparr>fs_blk := b\<rparr>, ft_w := w\<rparr>))
       (eread io (fs_fat (ft_fs s)) (fs_blk (ft_fs s)) (ft_w s) (ent (ft_fs s) ep) addr off n)"

definition ewrite_ent :: "'w uio \<Rightarrow> eptr \<Rightarrow> u64 \<Rightarrow> u32 \<Rightarrow> u32 \<Rightarrow> 'w ftable \<Rightarrow> (int \<times> 'w ftable) res" where
  "ewrite_ent io ep addr off n s =
     rmap (\<lambda>(r, e, b, w). (r, s\<lparr>ft_fs := (upd_ent (ft_fs s) ep (\<lambda>_. e))\<lparr>fs_blk := b\<rparr>, ft_w := w\<rparr>))
       (ewrite io (fs_fat (ft_fs s)) (fs_blk (ft_fs s)) (ft_w s) (ent (ft_fs s) ep) addr off n)"

text \<open>The bytes that \<^verbatim>\<open>piperead\<close> delivers are stored one by one.\<close>

fun pipe_deliver :: "'w uio \<Rightarrow> u64 \<Rightarrow> bytes \<Rightarrow> 'w \<Rightarrow> 'w" where
  "pipe_deliver io addr [] w = w"
| "pipe_deliver io addr (b # bs) w = pipe_deliver io (addr + 1) bs (fst (uio_out io w addr [b]))"

definition read_pipe :: "'w env \<Rightarrow> u64 \<Rightarrow> u64 \<Rightarrow> int \<Rightarrow> 'w ftable \<Rightarrow> io_result \<times> 'w ftable" where
  "read_pipe en pi addr n s =
     (case piperead (ft_pipe s pi) (\<lambda>a. snd (uio_out (en_io en) (ft_w s) a [0])) addr n of
        PR_Sleep \<Rightarrow> (SleepRead, s)
      | PR_Return r bs wakes p1 \<Rightarrow>
          (Io r, s\<lparr>ft_pipe := (ft_pipe s)(pi := p1), ft_log := ft_log s @ map (Wake pi) wakes,
             ft_w := pipe_deliver (en_io en) addr (take (nat r) bs) (ft_w s)\<rparr>))"

definition write_pipe :: "'w env \<Rightarrow> u64 \<Rightarrow> u64 \<Rightarrow> nat \<Rightarrow> int \<Rightarrow> 'w ftable \<Rightarrow> io_result \<times> 'w ftable" where
  "write_pipe en pi addr i n s =
     (let load = (\<lambda>a. case uio_in (en_io en) (ft_w s) a 1 of (bs, ok) \<Rightarrow> if ok then Some (bs ! 0) else None)
      in case pipewrite (ft_pipe s pi) load addr i n of
           PW_Sleep j wakes p1 \<Rightarrow> (SleepWrite j, s\<lparr>ft_pipe := (ft_pipe s)(pi := p1), ft_log := ft_log s @ map (Wake pi) wakes\<rparr>)
         | PW_Return r j wakes sig p1 \<Rightarrow>
             (Io r, s\<lparr>ft_pipe := (ft_pipe s)(pi := p1), ft_log := ft_log s @ map (Wake pi) wakes @ (if sig then [SigPipe] else [])\<rparr>))"

definition dev_io :: "(kfile \<Rightarrow> u64 \<Rightarrow> int \<Rightarrow> 'w \<Rightarrow> int \<times> kfile \<times> 'w) option \<Rightarrow> nat \<Rightarrow> u64 \<Rightarrow> int \<Rightarrow> 'w ftable \<Rightarrow> io_result \<times> 'w ftable" where
  "dev_io g i addr n s =
     (case g of None \<Rightarrow> (Io 0, s) | Some h \<Rightarrow> let (r, s1) = dev_call (\<lambda>f. h f addr n) i s in (Io r, s1))"

definition fileread :: "'w env \<Rightarrow> nat \<Rightarrow> u64 \<Rightarrow> int \<Rightarrow> 'w ftable \<Rightarrow> (io_result \<times> 'w ftable) res" where
  "fileread en i addr n s =
     (let f = fget s i
      in if \<not> f_readable f then Ok (Io (-1), s)
         else case f_type f of
           FD_PIPE \<Rightarrow> Ok (read_pipe en (f_pipe f) addr n s)
         | FD_DEVICE \<Rightarrow> (case f_ops f of None \<Rightarrow> Ok (Io (-1), s) | Some ops \<Rightarrow> Ok (dev_io (op_read (en_ops en ops)) i addr n s))
         | FD_ENTRY \<Rightarrow>
             rbind (with_fs (elock (ft_fs s) (f_ep f)) s) (\<lambda>s1.
             rbind (eread_ent (en_io en) (f_ep f) addr (f_off f) (word_of_int n) s1) (\<lambda>(ret, s2).
             let s3 = (if 0 < ret then fset i (\<lambda>f. f\<lparr>f_off := f_off f + word_of_int ret\<rparr>) s2 else s2)
             in rmap (Pair (Io ret)) (with_fs (eunlock (ft_fs s3) (f_ep f)) s3)))
         | FD_NONE \<Rightarrow> Panic ''fileread'')"

definition fileread_at :: "'w env \<Rightarrow> nat option \<Rightarrow> u64 \<Rightarrow> u64 \<Rightarrow> int \<Rightarrow> 'w ftable \<Rightarrow> (int \<times> 'w ftable) res" where
  "fileread_at en i addr offset n s =
     (case i of
        None \<Rightarrow> Ok (-1, s)
      | Some i \<Rightarrow>
          let f = fget s i
          in if f_type f \<noteq> FD_ENTRY \<or> n < 0 \<or> 0xffffffff < offset then Ok (-1, s)
             else rbind (with_fs (elock (ft_fs s) (f_ep f)) s) (\<lambda>s1.
                  rbind (eread_ent (en_kio en) (f_ep f) addr (ucast offset) (word_of_int n) s1) (\<lambda>(r, s2).
                  rmap (Pair r) (with_fs (eunlock (ft_fs s2) (f_ep f)) s2))))"

text \<open>The loop of \<^verbatim>\<open>filewrite\<close>. A round that does not end it writes everything that is left.\<close>

function filewrite_loop :: "'w env \<Rightarrow> nat \<Rightarrow> u64 \<Rightarrow> int \<Rightarrow> int \<Rightarrow> 'w ftable \<Rightarrow> (int \<times> 'w ftable) res" where
  "filewrite_loop en k addr i n s =
     (if i < n then
        let n1 = n - i; ep = f_ep (fget s k)
        in rbind (with_fs (elock (ft_fs s) ep) s) (\<lambda>s1.
           rbind (ewrite_ent (en_io en) ep (addr + word_of_int i) (f_off (fget s1 k)) (word_of_int n1) s1) (\<lambda>(r, s2).
           let s3 = (if 0 < r then fset k (\<lambda>f. f\<lparr>f_off := f_off f + word_of_int r\<rparr>) s2 else s2)
           in rbind (with_fs (eunlock (ft_fs s3) ep) s3) (\<lambda>s4.
              if r < 0 then Ok (i, s4)
              else if r \<noteq> n1 then Panic ''short filewrite''
              else filewrite_loop en k addr (i + r) n s4)))
      else Ok (i, s))"
  by pat_completeness auto
termination
  by (relation "measure (\<lambda>(en, k, addr, i, n, s). nat (n - i))") auto

declare filewrite_loop.simps [simp del]

definition filewrite :: "'w env \<Rightarrow> nat \<Rightarrow> u64 \<Rightarrow> int \<Rightarrow> 'w ftable \<Rightarrow> (io_result \<times> 'w ftable) res" where
  "filewrite en i addr n s =
     (let f = fget s i
      in if \<not> f_writable f then Ok (Io (-1), s)
         else case f_type f of
           FD_PIPE \<Rightarrow> Ok (write_pipe en (f_pipe f) addr 0 n s)
         | FD_DEVICE \<Rightarrow> (case f_ops f of None \<Rightarrow> Ok (Io (-1), s) | Some ops \<Rightarrow> Ok (dev_io (op_write (en_ops en ops)) i addr n s))
         | FD_ENTRY \<Rightarrow> rmap (\<lambda>(k, s1). (Io (if k = n then n else -1), s1)) (filewrite_loop en i addr 0 n s)
         | FD_NONE \<Rightarrow> Panic ''filewrite'')"

definition filewrite_at :: "'w env \<Rightarrow> nat option \<Rightarrow> u64 \<Rightarrow> u64 \<Rightarrow> int \<Rightarrow> 'w ftable \<Rightarrow> (int \<times> 'w ftable) res" where
  "filewrite_at en i addr offset n s =
     (case i of
        None \<Rightarrow> Ok (-1, s)
      | Some i \<Rightarrow>
          let f = fget s i
          in if f_type f \<noteq> FD_ENTRY \<or> \<not> f_writable f \<or> n < 0 \<or> 0xffffffff < offset then Ok (-1, s)
             else rbind (with_fs (elock (ft_fs s) (f_ep f)) s) (\<lambda>s1.
               let sz = ucast (e_file_size (ent (ft_fs s1) (f_ep f)))
               in if sz \<le> offset then rmap (Pair 0) (with_fs (eunlock (ft_fs s1) (f_ep f)) s1)
                  else let n1 = (if sz < offset + word_of_int n then sint (ucast (sz - offset) :: i32) else n)
                       in rbind (ewrite_ent (en_kio en) (f_ep f) addr (ucast offset) (word_of_int n1) s1) (\<lambda>(r, s2).
                          rmap (Pair (if r = n1 then r else -1)) (with_fs (eunlock (ft_fs s2) (f_ep f)) s2))))"

definition fileioctl :: "'w env \<Rightarrow> nat \<Rightarrow> u64 \<Rightarrow> u64 \<Rightarrow> 'w ftable \<Rightarrow> int \<times> 'w ftable" where
  "fileioctl en i cmd arg s =
     (if f_type (fget s i) \<noteq> FD_DEVICE then (-1, s)
      else case f_ops (fget s i) of
        None \<Rightarrow> (-1, s)
      | Some ops \<Rightarrow> (case op_ioctl (en_ops en ops) of None \<Rightarrow> (0, s) | Some g \<Rightarrow> dev_call (\<lambda>f. g f cmd arg) i s))"

section \<open>Listing a directory\<close>

text \<open>The loop over deleted slots; \<open>de\<close> is the local entry.\<close>

fun dirnext_loop :: "nat \<Rightarrow> nat \<Rightarrow> dirent \<Rightarrow> u32 \<Rightarrow> 'w ftable \<Rightarrow> (int \<times> u32 \<times> dirent \<times> 'w ftable) res" where
  "dirnext_loop 0 i de cnt s = Panic ''fuel''"
| "dirnext_loop (Suc k) i de cnt s =
     rbind (enext (ft_fs s) (f_ep (fget s i)) de (f_off (fget s i)) cnt) (\<lambda>(ret, cnt1, de1, fs1).
       let s1 = s\<lparr>ft_fs := fs1\<rparr>
       in if ret = 0 then dirnext_loop k i de1 cnt1 (fset i (\<lambda>f. f\<lparr>f_off := f_off f + cnt1 * 32\<rparr>) s1)
          else Ok (ret, cnt1, de1, s1))"

definition dirnext :: "'w env \<Rightarrow> dirent \<Rightarrow> stat \<Rightarrow> bytes \<Rightarrow> nat \<Rightarrow> u64 \<Rightarrow> 'w ftable \<Rightarrow> (int \<times> 'w ftable) res" where
  "dirnext en de st0 pad i addr s =
     (let ep = f_ep (fget s i)
      in if \<not> f_readable (fget s i) \<or> e_attribute (ent (ft_fs s) ep) AND ATTR_DIRECTORY = 0 then Ok (-1, s)
         else rbind (with_fs (elock (ft_fs s) ep) s) (\<lambda>s1.
              rbind (dirnext_loop (dir_fuel (ft_fs s1)) i de 0 s1) (\<lambda>(ret, cnt, de1, s2).
              rbind (with_fs (eunlock (ft_fs s2) ep) s2) (\<lambda>s3.
                if ret = -1 then Ok (0, s3)
                else let s4 = fset i (\<lambda>f. f\<lparr>f_off := f_off f + cnt * 32\<rparr>) s3;
                         (r, s5) = copy_user en addr (stat_bytes pad (estat de1 st0)) s4
                     in Ok (if r < 0 then -1 else 1, s5)))))"

end
