(* ===== verification/SysFile.thy ===== *)
theory SysFile
  imports FileTable
begin

text \<open>
  \<^verbatim>\<open>kernel/syscall/sysfile.c\<close>: the system calls on files. Each process has a table of 16 descriptors and a current
  directory; \<open>p\<close> is the calling process. The arguments are the values that \<^verbatim>\<open>argint\<close>, \<^verbatim>\<open>argaddr\<close> and \<^verbatim>\<open>argstr\<close> fetch; a
  path is \<open>None\<close> when \<^verbatim>\<open>argstr\<close> fails. Left out are \<^verbatim>\<open>exec\<close> and the calls that only forward to \<open>Mmap\<close>.
\<close>

abbreviation (input) NOFILE :: nat where "NOFILE \<equiv> 16"
abbreviation (input) FAT32_MAX_PATH :: nat where "FAT32_MAX_PATH \<equiv> 260"

abbreviation (input) O_WRONLY :: u32 where "O_WRONLY \<equiv> 1"
abbreviation (input) O_RDWR :: u32 where "O_RDWR \<equiv> 2"
abbreviation (input) O_ACCMODE :: u32 where "O_ACCMODE \<equiv> 3"
abbreviation (input) O_NOFOLLOW :: u32 where "O_NOFOLLOW \<equiv> 4"
abbreviation (input) O_APPEND :: u32 where "O_APPEND \<equiv> 8"
abbreviation (input) O_CREATE :: u32 where "O_CREATE \<equiv> 0x200"
abbreviation (input) O_TRUNC :: u32 where "O_TRUNC \<equiv> 0x400"

record 'w sys =
  sy_ft :: "'w ftable"
  sy_ofile :: "nat option list list"
  sy_cwd :: "eptr list"

definition on_ft :: "('w ftable \<Rightarrow> 'a \<times> 'w ftable) \<Rightarrow> 'w sys \<Rightarrow> 'a \<times> 'w sys" where
  "on_ft g s = (let (r, t) = g (sy_ft s) in (r, s\<lparr>sy_ft := t\<rparr>))"

definition on_ft_res :: "('w ftable \<Rightarrow> ('a \<times> 'w ftable) res) \<Rightarrow> 'w sys \<Rightarrow> ('a \<times> 'w sys) res" where
  "on_ft_res g s = rmap (\<lambda>(r, t). (r, s\<lparr>sy_ft := t\<rparr>)) (g (sy_ft s))"

abbreviation (input) sfs :: "'w sys \<Rightarrow> fs" where "sfs s \<equiv> ft_fs (sy_ft s)"

definition set_fs :: "fs \<Rightarrow> 'w sys \<Rightarrow> 'w sys" where
  "set_fs fs s = s\<lparr>sy_ft := (sy_ft s)\<lparr>ft_fs := fs\<rparr>\<rparr>"

definition fs_do :: "(fs \<Rightarrow> fs res) \<Rightarrow> 'w sys \<Rightarrow> 'w sys res" where
  "fs_do g s = rmap (\<lambda>fs. set_fs fs s) (g (sfs s))"

section \<open>Descriptors\<close>

definition argfd :: "nat \<Rightarrow> int \<Rightarrow> 'w sys \<Rightarrow> nat option" where
  "argfd p fd s = (if fd < 0 \<or> int NOFILE \<le> fd then None else sy_ofile s ! p ! nat fd)"

definition set_fd :: "nat \<Rightarrow> nat \<Rightarrow> nat option \<Rightarrow> 'w sys \<Rightarrow> 'w sys" where
  "set_fd p fd f s = s\<lparr>sy_ofile := (sy_ofile s)[p := (sy_ofile s ! p)[fd := f]]\<rparr>"

definition fdalloc :: "nat \<Rightarrow> nat \<Rightarrow> 'w sys \<Rightarrow> nat option \<times> 'w sys" where
  "fdalloc p f s =
     (case first_idx (\<lambda>fd. sy_ofile s ! p ! fd = None) [0..<NOFILE] of
        Some fd \<Rightarrow> (Some fd, set_fd p fd (Some f) s)
      | None \<Rightarrow> (None, s))"

definition sys_dup :: "nat \<Rightarrow> int \<Rightarrow> 'w sys \<Rightarrow> (int \<times> 'w sys) res" where
  "sys_dup p fd s =
     (case argfd p fd s of
        None \<Rightarrow> Ok (-1, s)
      | Some f \<Rightarrow>
          (case fdalloc p f s of
             (None, s1) \<Rightarrow> Ok (-1, s1)
           | (Some d, s1) \<Rightarrow> rmap (\<lambda>t. (int d, s1\<lparr>sy_ft := t\<rparr>)) (filedup f (sy_ft s1))))"

definition sys_read :: "'w env \<Rightarrow> nat \<Rightarrow> int \<Rightarrow> u64 \<Rightarrow> int \<Rightarrow> 'w sys \<Rightarrow> (io_result \<times> 'w sys) res" where
  "sys_read en p fd addr n s =
     (case argfd p fd s of
        None \<Rightarrow> Ok (Io (-1), s)
      | Some f \<Rightarrow> if MAXUVA \<le> addr then Ok (Io (-1), s) else on_ft_res (fileread en f addr n) s)"

definition sys_write :: "'w env \<Rightarrow> nat \<Rightarrow> int \<Rightarrow> u64 \<Rightarrow> int \<Rightarrow> 'w sys \<Rightarrow> (io_result \<times> 'w sys) res" where
  "sys_write en p fd addr n s =
     (case argfd p fd s of
        None \<Rightarrow> Ok (Io (-1), s)
      | Some f \<Rightarrow> if MAXUVA \<le> addr then Ok (Io (-1), s) else on_ft_res (filewrite en f addr n) s)"

definition sys_close :: "'w env \<Rightarrow> nat \<Rightarrow> int \<Rightarrow> 'w sys \<Rightarrow> (int \<times> 'w sys) res" where
  "sys_close en p fd s =
     (case argfd p fd s of
        None \<Rightarrow> Ok (-1, s)
      | Some f \<Rightarrow> rmap (\<lambda>(r, s1). (0, s1)) (on_ft_res (fileclose en f) (set_fd p (nat fd) None s)))"

definition sys_fstat :: "'w env \<Rightarrow> stat \<Rightarrow> bytes \<Rightarrow> nat \<Rightarrow> int \<Rightarrow> u64 \<Rightarrow> 'w sys \<Rightarrow> (int \<times> 'w sys) res" where
  "sys_fstat en st0 pad p fd st s =
     (case argfd p fd s of
        None \<Rightarrow> Ok (-1, s)
      | Some f \<Rightarrow> if MAXUVA \<le> st then Ok (-1, s) else on_ft_res (filestat en st0 pad f st) s)"

definition sys_ioctl :: "'w env \<Rightarrow> nat \<Rightarrow> int \<Rightarrow> int \<Rightarrow> u64 \<Rightarrow> 'w sys \<Rightarrow> int \<times> 'w sys" where
  "sys_ioctl en p fd cmd arg s =
     (case argfd p fd s of
        None \<Rightarrow> (-1, s)
      | Some f \<Rightarrow> if MAXUVA \<le> arg then (-1, s) else on_ft (fileioctl en f (word_of_int cmd) arg) s)"

definition sys_readdir :: "'w env \<Rightarrow> dirent \<Rightarrow> stat \<Rightarrow> bytes \<Rightarrow> nat \<Rightarrow> int \<Rightarrow> u64 \<Rightarrow> 'w sys \<Rightarrow> (int \<times> 'w sys) res" where
  "sys_readdir en de st0 pad p fd addr s =
     (case argfd p fd s of
        None \<Rightarrow> Ok (-1, s)
      | Some f \<Rightarrow>
          if MAXUVA \<le> addr then Ok (-1, s)
          else if f_type (fget (sy_ft s) f) = FD_ENTRY then on_ft_res (dirnext en de st0 pad f addr) s else Ok (-1, s))"

section \<open>Creating and opening\<close>

datatype ftype = T_DIR | T_FILE | T_DEVICE

definition create_mode :: "ftype \<Rightarrow> u32 \<Rightarrow> u32" where
  "create_mode type mode =
     (case type of
        T_DIR \<Rightarrow> ucast ATTR_DIRECTORY
      | T_DEVICE \<Rightarrow> ucast ATTR_DEVICE
      | T_FILE \<Rightarrow> if mode AND O_ACCMODE = 0 then ucast ATTR_READ_ONLY else 0)"

definition create_mismatch :: "ftype \<Rightarrow> u8 \<Rightarrow> bool" where
  "create_mismatch type attr =
     (case type of
        T_DIR \<Rightarrow> attr AND ATTR_DIRECTORY = 0
      | T_DEVICE \<Rightarrow> attr AND ATTR_DEVICE = 0
      | T_FILE \<Rightarrow> attr AND ATTR_DIRECTORY \<noteq> 0)"

definition create :: "nat \<Rightarrow> bytes \<Rightarrow> ftype \<Rightarrow> u32 \<Rightarrow> u32 \<Rightarrow> u32 \<Rightarrow> 'w sys \<Rightarrow> (eptr option \<times> 'w sys) res" where
  "create p path type mode major minor s =
     rbind (enameparent (sfs s) (sy_cwd s ! p) path []) (\<lambda>(r, name, fs1).
       case r of
         None \<Rightarrow> Ok (None, set_fs fs1 s)
       | Some dp \<Rightarrow>
           rbind (elock fs1 dp) (\<lambda>fs2.
           rbind (ealloc fs2 dp name (create_mode type mode)) (\<lambda>(e, fs3).
             case e of
               None \<Rightarrow> rbind (eunlock fs3 dp) (\<lambda>fs4. rmap (\<lambda>fs5. (None, set_fs fs5 s)) (eput fs4 dp))
             | Some ep \<Rightarrow>
                 if create_mismatch type (e_attribute (ent fs3 ep)) then
                   rbind (eunlock fs3 dp) (\<lambda>fs4. rbind (eput fs4 ep) (\<lambda>fs5. rmap (\<lambda>fs6. (None, set_fs fs6 s)) (eput fs5 dp)))
                 else
                   let fs4 = (if type = T_DEVICE
                              then upd_ent fs3 ep (\<lambda>e. e\<lparr>e_first_clus := major, e_file_size := minor, e_dirty := True\<rparr>) else fs3)
                   in rbind (eunlock fs4 dp) (\<lambda>fs5. rbind (eput fs5 dp) (\<lambda>fs6. rmap (\<lambda>fs7. (Some ep, set_fs fs7 s)) (elock fs6 ep))))))"

definition parse_access_mode :: "u32 \<Rightarrow> (bool \<times> bool) option" where
  "parse_access_mode flags =
     (let m = flags AND O_ACCMODE
      in if m = 0 then Some (True, False) else if m = O_WRONLY then Some (False, True) else if m = O_RDWR then Some (True, True) else None)"

text \<open>The entry to open, locked.\<close>

definition open_entry :: "nat \<Rightarrow> bytes \<Rightarrow> u32 \<Rightarrow> 'w sys \<Rightarrow> (eptr option \<times> 'w sys) res" where
  "open_entry p path omode s =
     (if omode AND O_CREATE \<noteq> 0 then create p path T_FILE omode 0 0 s
      else rbind (ename (sfs s) (sy_cwd s ! p) path) (\<lambda>(r, fs1).
        case r of
          None \<Rightarrow> Ok (None, set_fs fs1 s)
        | Some ep \<Rightarrow>
            rbind (elock fs1 ep) (\<lambda>fs2.
              if e_attribute (ent fs2 ep) AND ATTR_DIRECTORY \<noteq> 0 \<and> omode \<noteq> 0
              then rbind (eunlock fs2 ep) (\<lambda>fs3. rmap (\<lambda>fs4. (None, set_fs fs4 s)) (eput fs3 ep))
              else Ok (Some ep, set_fs fs2 s))))"

definition release_entry :: "eptr \<Rightarrow> 'w sys \<Rightarrow> 'w sys res" where
  "release_entry ep s = rbind (fs_do (\<lambda>fs. eunlock fs ep) s) (fs_do (\<lambda>fs. eput fs ep))"

definition open_file :: "'w env \<Rightarrow> nat \<Rightarrow> eptr \<Rightarrow> nat \<Rightarrow> nat \<Rightarrow> u32 \<Rightarrow> bool \<times> bool \<Rightarrow> 'w sys \<Rightarrow> (int \<times> 'w sys) res" where
  "open_file en p ep f fd omode acc s =
     rbind (if e_attribute (ent (sfs s) ep) AND ATTR_DIRECTORY = 0 \<and> omode AND O_TRUNC \<noteq> 0 then fs_do (\<lambda>fs. etrunc_ent fs ep) s else Ok s) (\<lambda>s1.
       let e = ent (sfs s1) ep;
           s2 = s1\<lparr>sy_ft := fset f (\<lambda>x. x\<lparr>f_ep := ep, f_readable := fst acc, f_writable := snd acc\<rparr>) (sy_ft s1)\<rparr>
       in if e_attribute e AND ATTR_DEVICE \<noteq> 0 then
            let s3 = s2\<lparr>sy_ft := fset f (\<lambda>x. x\<lparr>f_type := FD_DEVICE, f_major := ucast (e_first_clus e), f_minor := ucast (e_file_size e)\<rparr>) (sy_ft s2)\<rparr>;
                (r, s4) = on_ft (fileopen en f) s3
            in if r < 0 then
                 rbind (on_ft_res (fileclose en f) (set_fd p fd None s4)) (\<lambda>(_, s5). rmap (Pair (-1)) (release_entry ep s5))
               else rmap (Pair (int fd)) (fs_do (\<lambda>fs. eunlock fs ep) s4)
          else
            let s3 = s2\<lparr>sy_ft := fset f (\<lambda>x. x\<lparr>f_type := FD_ENTRY, f_off := (if omode AND O_APPEND \<noteq> 0 then e_file_size e else 0)\<rparr>) (sy_ft s2)\<rparr>
            in rmap (Pair (int fd)) (fs_do (\<lambda>fs. eunlock fs ep) s3))"

definition sys_open :: "'w env \<Rightarrow> nat \<Rightarrow> bytes option \<Rightarrow> u32 \<Rightarrow> 'w sys \<Rightarrow> (int \<times> 'w sys) res" where
  "sys_open en p path omode s =
     (case path of
        None \<Rightarrow> Ok (-1, s)
      | Some path \<Rightarrow>
          if omode AND NOT (O_ACCMODE OR O_CREATE OR O_TRUNC OR O_NOFOLLOW OR O_APPEND) \<noteq> 0 then Ok (-1, s)
          else case parse_access_mode omode of
            None \<Rightarrow> Ok (-1, s)
          | Some acc \<Rightarrow>
              rbind (open_entry p path omode s) (\<lambda>(r, s1).
                case r of
                  None \<Rightarrow> Ok (-1, s1)
                | Some ep \<Rightarrow>
                    (case on_ft filealloc s1 of
                       (None, s2) \<Rightarrow> rmap (Pair (-1)) (release_entry ep s2)
                     | (Some f, s2) \<Rightarrow>
                         (case fdalloc p f s2 of
                            (None, s3) \<Rightarrow> rbind (on_ft_res (fileclose en f) s3) (\<lambda>(_, s4). rmap (Pair (-1)) (release_entry ep s4))
                          | (Some fd, s3) \<Rightarrow> open_file en p ep f fd omode acc s3))))"

definition sys_mkdir :: "nat \<Rightarrow> bytes option \<Rightarrow> 'w sys \<Rightarrow> (int \<times> 'w sys) res" where
  "sys_mkdir p path s =
     (case path of
        None \<Rightarrow> Ok (-1, s)
      | Some path \<Rightarrow>
          rbind (create p path T_DIR 0 0 0 s) (\<lambda>(r, s1).
            case r of None \<Rightarrow> Ok (-1, s1) | Some ep \<Rightarrow> rmap (Pair 0) (release_entry ep s1)))"

definition sys_mknod :: "nat \<Rightarrow> bytes option \<Rightarrow> int \<Rightarrow> int \<Rightarrow> 'w sys \<Rightarrow> (int \<times> 'w sys) res" where
  "sys_mknod p path major minor s =
     (case path of
        None \<Rightarrow> Ok (-1, s)
      | Some path \<Rightarrow>
          if major \<le> 0 \<or> NDEV \<le> major then Ok (-1, s)
          else rbind (create p path T_DEVICE 0 (word_of_int major) (word_of_int minor) s) (\<lambda>(r, s1).
            case r of None \<Rightarrow> Ok (-1, s1) | Some ep \<Rightarrow> rmap (Pair 0) (release_entry ep s1)))"

definition sys_chdir :: "nat \<Rightarrow> bytes option \<Rightarrow> 'w sys \<Rightarrow> (int \<times> 'w sys) res" where
  "sys_chdir p path s =
     (case path of
        None \<Rightarrow> Ok (-1, s)
      | Some path \<Rightarrow>
          rbind (ename (sfs s) (sy_cwd s ! p) path) (\<lambda>(r, fs1).
            case r of
              None \<Rightarrow> Ok (-1, set_fs fs1 s)
            | Some ep \<Rightarrow>
                rbind (elock fs1 ep) (\<lambda>fs2.
                rbind (eunlock fs2 ep) (\<lambda>fs3.
                  if e_attribute (ent fs2 ep) AND ATTR_DIRECTORY = 0 then rmap (\<lambda>fs4. (-1, set_fs fs4 s)) (eput fs3 ep)
                  else rmap (\<lambda>fs4. (0, (set_fs fs4 s)\<lparr>sy_cwd := (sy_cwd s)[p := ep]\<rparr>)) (eput fs3 (sy_cwd s ! p))))))"

section \<open>Pipes\<close>

definition close_two :: "'w env \<Rightarrow> nat \<Rightarrow> nat \<Rightarrow> 'w sys \<Rightarrow> (int \<times> 'w sys) res" where
  "close_two en rfile wfile s =
     rbind (on_ft_res (fileclose en rfile) s) (\<lambda>(_, s1). rmap (\<lambda>(_, s2). (-1, s2)) (on_ft_res (fileclose en wfile) s1))"

definition sys_pipe :: "'w env \<Rightarrow> nat \<Rightarrow> u64 \<Rightarrow> 'w sys \<Rightarrow> (int \<times> 'w sys) res" where
  "sys_pipe en p fdarray s =
     (if MAXUVA \<le> fdarray then Ok (-1, s)
      else rbind (on_ft_res (pipealloc en) s) (\<lambda>(r, s1).
        case r of
          None \<Rightarrow> Ok (-1, s1)
        | Some (rfile, wfile) \<Rightarrow>
            (case fdalloc p rfile s1 of
               (None, s2) \<Rightarrow> close_two en rfile wfile s2
             | (Some fd0, s2) \<Rightarrow>
                 (case fdalloc p wfile s2 of
                    (None, s3) \<Rightarrow> close_two en rfile wfile (set_fd p fd0 None s3)
                  | (Some fd1, s3) \<Rightarrow>
                      let (r0, s4) = on_ft (copy_user en fdarray (le32_bytes (of_nat fd0))) s3
                      in if r0 < 0 then close_two en rfile wfile (set_fd p fd1 None (set_fd p fd0 None s4))
                         else let (r1, s5) = on_ft (copy_user en (fdarray + 4) (le32_bytes (of_nat fd1))) s4
                              in if r1 < 0 then close_two en rfile wfile (set_fd p fd1 None (set_fd p fd0 None s5)) else Ok (0, s5)))))"

section \<open>Removing\<close>

text \<open>\<open>ep0\<close> is the initial content of the local entry and \<open>cnt0\<close> that of the local counter.\<close>

definition isdirempty :: "dirent \<Rightarrow> u32 \<Rightarrow> eptr \<Rightarrow> fs \<Rightarrow> (bool \<times> fs) res" where
  "isdirempty ep0 cnt0 dp fs = rmap (\<lambda>(ret, cnt, ep, fs1). (ret = -1, fs1)) (enext fs dp (ep0\<lparr>e_valid := 0\<rparr>) 64 cnt0)"

text \<open>The test for a last component \<^verbatim>\<open>.\<close> after the trailing slashes are dropped.\<close>

definition ends_in_dot :: "bytes \<Rightarrow> bool" where
  "ends_in_dot path =
     (case dropWhile (\<lambda>c. c = SLASH) (rev (cstr path)) of
        [] \<Rightarrow> False
      | c # cs \<Rightarrow> c = DOT \<and> (cs = [] \<or> hd cs = SLASH))"

definition sys_remove :: "dirent \<Rightarrow> u32 \<Rightarrow> nat \<Rightarrow> bytes option \<Rightarrow> 'w sys \<Rightarrow> (int \<times> 'w sys) res" where
  "sys_remove ep0 cnt0 p path s =
     (case path of
        None \<Rightarrow> Ok (-1, s)
      | Some path \<Rightarrow>
          if cstr path = [] \<or> ends_in_dot path then Ok (-1, s)
          else rbind (ename (sfs s) (sy_cwd s ! p) path) (\<lambda>(r, fs1).
            case r of
              None \<Rightarrow> Ok (-1, set_fs fs1 s)
            | Some ep \<Rightarrow>
                rbind (elock fs1 ep) (\<lambda>fs2.
                rbind (if e_attribute (ent fs2 ep) AND ATTR_DIRECTORY \<noteq> 0 then rmap (\<lambda>(b, fs3). (\<not> b, fs3)) (isdirempty ep0 cnt0 ep fs2)
                       else Ok (False, fs2)) (\<lambda>(full, fs3).
                  if full then rbind (eunlock fs3 ep) (\<lambda>fs4. rmap (\<lambda>fs5. (-1, set_fs fs5 s)) (eput fs4 ep))
                  else with_parent (ent fs3 ep) (\<lambda>dp.
                    rbind (elock fs3 dp) (\<lambda>fs4.
                    rbind (eremove fs4 ep) (\<lambda>fs5.
                    with_parent (ent fs5 ep) (\<lambda>dp1.
                    rbind (eunlock fs5 dp1) (\<lambda>fs6.
                    rbind (eunlock fs6 ep) (\<lambda>fs7.
                    rmap (\<lambda>fs8. (0, set_fs fs8 s)) (eput fs7 ep)))))))))))"

section \<open>The current directory\<close>

text \<open>
  \<open>acc\<close> is the string built so far, from the end of the buffer of 260 bytes; the position of its first byte is 259 minus its
  length. The chain of parents has at most one step per cache entry.
\<close>

fun getcwd_loop :: "nat \<Rightarrow> fs \<Rightarrow> eptr \<Rightarrow> bytes \<Rightarrow> bytes option res" where
  "getcwd_loop 0 fs de acc = Panic ''fuel''"
| "getcwd_loop (Suc k) fs de acc =
     (case e_parent (ent fs de) of
        None \<Rightarrow> Ok (Some acc)
      | Some dp \<Rightarrow>
          let name = cstr (e_filename (ent fs de))
          in if FAT32_MAX_PATH - 1 \<le> length acc + length name then Ok None
             else getcwd_loop k fs dp (SLASH # name @ acc))"

definition sys_getcwd :: "'w env \<Rightarrow> nat \<Rightarrow> u64 \<Rightarrow> 'w sys \<Rightarrow> (int \<times> 'w sys) res" where
  "sys_getcwd en p addr s =
     (if MAXUVA \<le> addr then Ok (-1, s)
      else let de = sy_cwd s ! p
           in rbind (if e_parent (ent (sfs s) de) = None then Ok (Some [SLASH]) else getcwd_loop (ENTRY_CACHE_NUM + 2) (sfs s) de []) (\<lambda>r.
                case r of
                  None \<Rightarrow> Ok (-1, s)
                | Some path \<Rightarrow> Ok (on_ft (copy_user en addr (path @ [0])) s)))"

section \<open>References to files\<close>

text \<open>The descriptors of all processes that refer to file \<open>i\<close>.\<close>

definition fd_refs :: "'w sys \<Rightarrow> nat \<Rightarrow> nat" where
  "fd_refs s i = sum_list (map (\<lambda>row. count_list row (Some i)) (sy_ofile s))"

text \<open>
  The reference count of every file is the number of its descriptors plus the references \<open>ext\<close> that others hold, such as memory
  mappings; a file without references has no type.
\<close>

definition files_ok :: "(nat \<Rightarrow> nat) \<Rightarrow> 'w sys \<Rightarrow> bool" where
  "files_ok ext s \<longleftrightarrow> length (ft_file (sy_ft s)) = NFILE \<and> (\<forall>row \<in> set (sy_ofile s). length row = NOFILE) \<and>
     (\<forall>i < NFILE. f_ref (fget (sy_ft s) i) = int (fd_refs s i + ext i)) \<and>
     (\<forall>i < NFILE. f_ref (fget (sy_ft s) i) = 0 \<longrightarrow> f_type (fget (sy_ft s) i) = FD_NONE) \<and>
     (\<forall>row \<in> set (sy_ofile s). \<forall>i. Some i \<in> set row \<longrightarrow> i < NFILE)"

lemma count_list_upd:
  "k < length xs \<Longrightarrow> count_list (xs[k := x]) y + (if xs ! k = y then 1 else 0) = count_list xs y + (if x = y then 1 else 0)"
proof (induction xs arbitrary: k)
  case (Cons a xs)
  show ?case
  proof (cases k)
    case (Suc j)
    then have "count_list (xs[j := x]) y + (if xs ! j = y then 1 else 0) = count_list xs y + (if x = y then 1 else 0)"
      using Cons.IH [of j] Cons.prems by simp
    with Suc show ?thesis by (cases "a = y") simp_all
  qed auto
qed simp

lemma sum_list_upd:
  fixes g :: "'a \<Rightarrow> nat"
  shows "p < length xs \<Longrightarrow> sum_list (map g (xs[p := y])) + g (xs ! p) = sum_list (map g xs) + g y"
proof (induction xs arbitrary: p)
  case (Cons a xs)
  then show ?case by (cases p) auto
qed simp

lemma fd_refs_set_fd:
  assumes "p < length (sy_ofile s)" and "fd < length (sy_ofile s ! p)"
  shows "fd_refs (set_fd p fd x s) i + (if sy_ofile s ! p ! fd = Some i then 1 else 0) = fd_refs s i + (if x = Some i then 1 else 0)"
  using sum_list_upd [OF assms(1), of "\<lambda>row. count_list row (Some i)" "(sy_ofile s ! p)[fd := x]"] count_list_upd [OF assms(2), of x "Some i"]
  by (auto simp: fd_refs_def set_fd_def)

lemma fd_refs_pos:
  assumes "p < length (sy_ofile s)" and "fd < length (sy_ofile s ! p)" and "sy_ofile s ! p ! fd = Some i"
  shows "0 < fd_refs s i"
proof -
  have "0 < count_list (sy_ofile s ! p) (Some i)" using assms(2,3) count_list_upd [of fd "sy_ofile s ! p" None "Some i"] by simp
  moreover have "count_list (sy_ofile s ! p) (Some i) \<le> fd_refs s i"
    unfolding fd_refs_def using assms(1) by (intro member_le_sum_list) auto
  ultimately show ?thesis by simp
qed

lemma fd_refs_ft [simp]: "fd_refs (s\<lparr>sy_ft := t\<rparr>) = fd_refs s"
  by (rule ext) (simp add: fd_refs_def)

lemma fget_fset: "i < length (ft_file t) \<Longrightarrow> fget (fset i g t) j = (if j = i then g (fget t i) else fget t j)"
  by (auto simp: fset_def nth_list_update)

lemma fset_simps [simp]:
  "length (ft_file (fset i g t)) = length (ft_file t)" "ft_fs (fset i g t) = ft_fs t" "ft_k (fset i g t) = ft_k t"
  "ft_pipe (fset i g t) = ft_pipe t" "ft_w (fset i g t) = ft_w t" "ft_dev (fset i g t) = ft_dev t" "ft_log (fset i g t) = ft_log t"
  by (simp_all add: fset_def)

lemma fget_other [simp]:
  "fget (t\<lparr>ft_fs := x\<rparr>) i = fget t i" "fget (t\<lparr>ft_k := k\<rparr>) i = fget t i" "fget (t\<lparr>ft_w := w\<rparr>) i = fget t i"
  by simp_all

lemma files_okD:
  assumes "files_ok ext s"
  shows "length (ft_file (sy_ft s)) = NFILE" "\<And>p. p < length (sy_ofile s) \<Longrightarrow> length (sy_ofile s ! p) = NOFILE"
    "\<And>i. i < NFILE \<Longrightarrow> f_ref (fget (sy_ft s) i) = int (fd_refs s i + ext i)"
    "\<And>i. i < NFILE \<Longrightarrow> f_ref (fget (sy_ft s) i) = 0 \<Longrightarrow> f_type (fget (sy_ft s) i) = FD_NONE"
    "\<And>p fd i. p < length (sy_ofile s) \<Longrightarrow> fd < NOFILE \<Longrightarrow> sy_ofile s ! p ! fd = Some i \<Longrightarrow> i < NFILE"
proof -
  show "\<And>p. p < length (sy_ofile s) \<Longrightarrow> length (sy_ofile s ! p) = NOFILE" "length (ft_file (sy_ft s)) = NFILE"
    "\<And>i. i < NFILE \<Longrightarrow> f_ref (fget (sy_ft s) i) = int (fd_refs s i + ext i)"
    "\<And>i. i < NFILE \<Longrightarrow> f_ref (fget (sy_ft s) i) = 0 \<Longrightarrow> f_type (fget (sy_ft s) i) = FD_NONE"
    using assms by (auto simp: files_ok_def)
  fix p fd i assume "p < length (sy_ofile s)" "fd < NOFILE" "sy_ofile s ! p ! fd = Some i"
  then have "Some i \<in> set (sy_ofile s ! p)" "sy_ofile s ! p \<in> set (sy_ofile s)"
    using assms nth_mem [of fd "sy_ofile s ! p"] by (auto simp: files_ok_def)
  with assms show "i < NFILE" unfolding files_ok_def by blast
qed

text \<open>Changing one descriptor.\<close>

lemma set_fd_ok:
  assumes ok: "files_ok ext s" and p: "p < length (sy_ofile s)" "fd < NOFILE" and x: "\<And>i. x = Some i \<Longrightarrow> i < NFILE"
    and e: "\<And>i. i < NFILE \<Longrightarrow> ext' i + (if x = Some i then 1 else 0) = ext i + (if sy_ofile s ! p ! fd = Some i then 1 else 0)"
  shows "files_ok ext' (set_fd p fd x s)"
proof -
  note D = files_okD [OF ok]
  have len: "fd < length (sy_ofile s ! p)" using D(2) [OF p(1)] p(2) by simp
  have r: "int (fd_refs (set_fd p fd x s) i + ext' i) = int (fd_refs s i + ext i)" if "i < NFILE" for i
    using fd_refs_set_fd [OF p(1) len, of x i] e [OF that] by linarith
  have rows: "row = (sy_ofile s ! p)[fd := x] \<or> row \<in> set (sy_ofile s)" if "row \<in> set (sy_ofile (set_fd p fd x s))" for row
    using that set_update_subset_insert [of "sy_ofile s" p] by (auto simp: set_fd_def)
  have "length row = NOFILE" if "row \<in> set (sy_ofile (set_fd p fd x s))" for row
    using rows [OF that] ok D(2) [OF p(1)] by (auto simp: files_ok_def)
  moreover have "i < NFILE" if "row \<in> set (sy_ofile (set_fd p fd x s))" "Some i \<in> set row" for row i
  proof -
    have "Some i \<in> insert x (set (sy_ofile s ! p)) \<or> row \<in> set (sy_ofile s)"
      using rows [OF that(1)] that(2) set_update_subset_insert [of "sy_ofile s ! p" fd x] by blast
    moreover have "sy_ofile s ! p \<in> set (sy_ofile s)" using p(1) by simp
    ultimately show ?thesis using x that(2) ok unfolding files_ok_def by blast
  qed
  ultimately show ?thesis using D(1,3,4) r unfolding files_ok_def by (simp add: set_fd_def)
qed

text \<open>Changing the file table alone.\<close>

lemma files_ok_ft:
  assumes ok: "files_ok ext s" and len: "length (ft_file t) = NFILE"
    and r: "\<And>i. i < NFILE \<Longrightarrow> f_ref (fget t i) + int (ext i) = f_ref (fget (sy_ft s) i) + int (ext' i)"
    and z: "\<And>i. i < NFILE \<Longrightarrow> f_ref (fget t i) = 0 \<Longrightarrow> f_type (fget t i) = FD_NONE"
  shows "files_ok ext' (s\<lparr>sy_ft := t\<rparr>)"
proof -
  have "f_ref (fget t i) = int (fd_refs s i + ext' i)" if "i < NFILE" for i
    using r [OF that] files_okD(3) [OF ok that] by simp
  then show ?thesis using ok len z unfolding files_ok_def by simp
qed

section \<open>Allocation and release\<close>

lemma filealloc_ok:
  assumes ok: "files_ok ext s" and r: "filealloc (sy_ft s) = (r, t)"
  shows "case r of
      None \<Rightarrow> t = sy_ft s \<and> (\<forall>i < NFILE. 0 < f_ref (fget t i))
    | Some i \<Rightarrow> i < NFILE \<and> ext i = 0 \<and> fd_refs s i = 0 \<and> f_type (fget (sy_ft s) i) = FD_NONE \<and>
        t = fset i (\<lambda>f. f\<lparr>f_ref := 1\<rparr>) (sy_ft s) \<and> files_ok (ext(i := 1)) (s\<lparr>sy_ft := t\<rparr>)"
proof (cases r)
  case None
  have "f_ref (fget (sy_ft s) i) \<noteq> 0" if "i < NFILE" for i
    using r None that by (auto simp: filealloc_def split: option.splits)
  moreover have "0 \<le> f_ref (fget (sy_ft s) i)" if "i < NFILE" for i using files_okD(3) [OF ok that] by simp
  ultimately show ?thesis using r None by (fastforce simp: filealloc_def split: option.splits)
next
  case (Some i)
  then have i: "i < NFILE" "f_ref (fget (sy_ft s) i) = 0" and t: "t = fset i (\<lambda>f. f\<lparr>f_ref := 1\<rparr>) (sy_ft s)"
    using r by (auto simp: filealloc_def first_idx_upt_iff split: option.splits)
  have z: "fd_refs s i = 0" "ext i = 0" using files_okD(3) [OF ok i(1)] i(2) by auto
  have len: "length (ft_file (sy_ft s)) = NFILE" by (rule files_okD(1) [OF ok])
  have "files_ok (ext(i := 1)) (s\<lparr>sy_ft := t\<rparr>)"
    by (rule files_ok_ft [OF ok]) (use i z len files_okD(4) [OF ok] in \<open>auto simp: t fget_fset\<close>)
  with i z t Some files_okD(4) [OF ok i] show ?thesis by simp
qed

lemma fdalloc_ok:
  assumes ok: "files_ok ext s" and p: "p < length (sy_ofile s)" and f: "f < NFILE" "0 < ext f" and r: "fdalloc p f s = (r, s')"
  shows "case r of
      None \<Rightarrow> s' = s \<and> (\<forall>fd < NOFILE. sy_ofile s ! p ! fd \<noteq> None)
    | Some fd \<Rightarrow> fd < NOFILE \<and> sy_ofile s ! p ! fd = None \<and> (\<forall>d < fd. sy_ofile s ! p ! d \<noteq> None) \<and> s' = set_fd p fd (Some f) s \<and>
        files_ok (ext(f := ext f - 1)) s'"
proof (cases r)
  case None
  then show ?thesis using r by (auto simp: fdalloc_def split: option.splits)
next
  case (Some fd)
  then have fd: "fd < NOFILE" "sy_ofile s ! p ! fd = None" "\<forall>d < fd. sy_ofile s ! p ! d \<noteq> None" and s': "s' = set_fd p fd (Some f) s"
    using r by (auto simp: fdalloc_def first_idx_upt_iff split: option.splits)
  have "files_ok (ext(f := ext f - 1)) s'"
    unfolding s' by (rule set_fd_ok [OF ok p fd(1)]) (use f fd(2) in auto)
  with fd s' Some show ?thesis by simp
qed

lemma close_pipe_files: "close_pipe en pi w t = Ok t' \<Longrightarrow> ft_file t' = ft_file t"
  by (auto simp: close_pipe_def Let_def res_simps split: prod.splits if_splits)

lemma with_fs_files: "with_fs r t = Ok t' \<Longrightarrow> ft_file t' = ft_file t"
  by (auto simp: with_fs_def res_simps)

definition dropped :: "kfile \<Rightarrow> kfile" where
  "dropped f = (if f_ref f = 1 then f\<lparr>f_ref := 0, f_type := FD_NONE\<rparr> else f\<lparr>f_ref := f_ref f - 1\<rparr>)"

lemma fileclose_files:
  assumes "fileclose en i t = Ok (r, t')"
  shows "0 < f_ref (fget t i) \<and> ft_file t' = ft_file (fset i dropped t)"
proof -
  have pos: "1 \<le> f_ref (fget t i)" using assms by (auto simp: fileclose_def Let_def split: if_splits)
  show ?thesis
  proof (cases "f_ref (fget t i) = 1")
    case True
    then have "ft_file t' = ft_file (fset i (\<lambda>f. f\<lparr>f_ref := 0, f_type := FD_NONE\<rparr>) t)"
      using assms pos unfolding fileclose_def Let_def
      by (auto simp: res_simps dest!: close_pipe_files with_fs_files split: fd_type.splits option.splits prod.splits)
    with True show ?thesis by (simp add: fset_def dropped_def)
  next
    case False
    with assms pos show ?thesis by (auto simp: fileclose_def Let_def fset_def dropped_def)
  qed
qed

lemma fileclose_ok:
  assumes ok: "files_ok ext s" and i: "i < NFILE" "0 < ext i" and c: "fileclose en i (sy_ft s) = Ok (r, t)"
  shows "files_ok (ext(i := ext i - 1)) (s\<lparr>sy_ft := t\<rparr>)"
proof -
  have len: "length (ft_file (sy_ft s)) = NFILE" by (rule files_okD(1) [OF ok])
  have f: "0 < f_ref (fget (sy_ft s) i)" "ft_file t = ft_file (fset i dropped (sy_ft s))" using fileclose_files [OF c] by auto
  then have g: "fget t j = (if j = i then dropped (fget (sy_ft s) i) else fget (sy_ft s) j)" for j
    using fget_fset [of i "sy_ft s" dropped j] i(1) len by simp
  show ?thesis
    by (rule files_ok_ft [OF ok]) (use f g i len files_okD(4) [OF ok] in \<open>auto simp: dropped_def split: if_splits\<close>)
qed

text \<open>File-system operations change neither the table of files nor the descriptors.\<close>

definition same_files :: "'w sys \<Rightarrow> 'w sys \<Rightarrow> bool" where
  "same_files s s' \<longleftrightarrow> ft_file (sy_ft s') = ft_file (sy_ft s) \<and> sy_ofile s' = sy_ofile s"

lemma same_files_refl [simp]: "same_files s s"
  by (simp add: same_files_def)

lemma same_files_trans: "same_files s s' \<Longrightarrow> same_files s' s'' \<Longrightarrow> same_files s s''"
  by (simp add: same_files_def)

lemma same_files_set_fs [simp]: "same_files s (set_fs fs s')  = same_files s s'"
  by (simp add: same_files_def set_fs_def)

lemma files_ok_same:
  assumes "same_files s s'"
  shows "files_ok ext s' = files_ok ext s"
proof -
  have "fd_refs s' = fd_refs s" using assms by (auto simp: same_files_def fd_refs_def)
  with assms show ?thesis by (simp add: files_ok_def same_files_def)
qed

lemma fs_do_files: "fs_do g s = Ok s' \<Longrightarrow> same_files s s'"
  by (auto simp: fs_do_def res_simps)

lemma release_entry_files: "release_entry ep s = Ok s' \<Longrightarrow> same_files s s'"
  by (auto simp: release_entry_def res_simps dest!: fs_do_files intro: same_files_trans)

text \<open>What holds of every result of an operation that returns.\<close>

definition res_all :: "('a \<Rightarrow> bool) \<Rightarrow> 'a res \<Rightarrow> bool" where
  "res_all P r = (case r of Ok x \<Rightarrow> P x | Panic m \<Rightarrow> True)"

lemma res_all_simps [simp]:
  "res_all P (Ok x) = P x" "res_all P (Panic m)" "res_all (\<lambda>x. True) r"
  "res_all P (if b then r else r') = (if b then res_all P r else res_all P r')"
  by (simp_all add: res_all_def split: res.split)

lemma res_all_bind [simp]: "res_all P (rbind r f) = res_all (\<lambda>x. res_all P (f x)) r"
  by (cases r) (simp_all add: res_all_def)

lemma res_all_map [simp]: "res_all P (rmap g r) = res_all (\<lambda>x. P (g x)) r"
  by (cases r) (simp_all add: res_all_def)

lemma res_all_option [simp]:
  "res_all P (case z of None \<Rightarrow> r | Some y \<Rightarrow> f y) = (case z of None \<Rightarrow> res_all P r | Some y \<Rightarrow> res_all P (f y))"
  by (simp split: option.split)

lemma case_option_True [simp]: "case z of None \<Rightarrow> True | Some y \<Rightarrow> True"
  by (simp split: option.split)

lemma res_all_mono: "res_all P r \<Longrightarrow> (\<And>x. P x \<Longrightarrow> Q x) \<Longrightarrow> res_all Q r"
  by (cases r) auto

lemma res_allD: "res_all P r \<Longrightarrow> r = Ok x \<Longrightarrow> P x"
  by simp

lemma create_all: "res_all (\<lambda>(r, s'). same_files s s') (create p path type mode major minor s)"
  by (simp add: create_def split_def Let_def cong: option.case_cong if_cong)

lemma open_entry_files:
  assumes "open_entry p path omode s = Ok (r, s')"
  shows "same_files s s'"
proof -
  have "res_all (\<lambda>(r, s'). same_files s s') (open_entry p path omode s)"
    using create_all [of s p path T_FILE omode 0 0] by (simp add: open_entry_def split_def Let_def cong: option.case_cong if_cong)
  from res_allD [OF this assms] show ?thesis by simp
qed

text \<open>A driver may fill the private data of a file but does not touch its reference count or type.\<close>

definition driver_keeps :: "kfile \<Rightarrow> int \<times> kfile \<times> 'w \<Rightarrow> bool" where
  "driver_keeps f z \<longleftrightarrow> f_ref (fst (snd z)) = f_ref f \<and> f_type (fst (snd z)) = f_type f"

definition drivers_ok :: "'w env \<Rightarrow> bool" where
  "drivers_ok en \<longleftrightarrow> (\<forall>ops f w.
     (\<forall>g. op_open (en_ops en ops) = Some g \<longrightarrow> driver_keeps f (g f w)) \<and>
     (\<forall>g a n. op_read (en_ops en ops) = Some g \<longrightarrow> driver_keeps f (g f a n w)) \<and>
     (\<forall>g a n. op_write (en_ops en ops) = Some g \<longrightarrow> driver_keeps f (g f a n w)) \<and>
     (\<forall>g c a. op_ioctl (en_ops en ops) = Some g \<longrightarrow> driver_keeps f (g f c a w)))"

lemma fileopen_files:
  assumes "drivers_ok en" and "i < length (ft_file t)" and "fileopen en i t = (r, t')"
  shows "length (ft_file t') = length (ft_file t) \<and> (\<forall>j. f_ref (fget t' j) = f_ref (fget t j) \<and> f_type (fget t' j) = f_type (fget t j))"
proof -
  define same where "same u \<longleftrightarrow> length (ft_file u) = length (ft_file t) \<and> (\<forall>j. f_ref (fget u j) = f_ref (fget t j) \<and> f_type (fget u j) = f_type (fget t j))" for u :: "'a ftable"
  have step: "same (fset i g u)" if "same u" "\<And>f. f_ref (g f) = f_ref f" "\<And>f. f_type (g f) = f_type f" for g u
    using that assms(2) by (auto simp: same_def fget_fset)
  have call: "same (snd (dev_call g i u))" if u: "same u" and g: "op_open (en_ops en ops) = Some g" for g u ops
  proof -
    obtain r f w where e: "g (fget u i) (ft_w u) = (r, f, w)" by (cases "g (fget u i) (ft_w u)")
    have "f_ref (fst (snd (g (fget u i) (ft_w u)))) = f_ref (fget u i) \<and> f_type (fst (snd (g (fget u i) (ft_w u)))) = f_type (fget u i)"
      using assms(1) g unfolding drivers_ok_def driver_keeps_def by blast
    then have "f_ref f = f_ref (fget u i)" "f_type f = f_type (fget u i)" by (simp_all add: e)
    then show ?thesis using u assms(2) by (auto simp: dev_call_def e same_def fget_fset)
  qed
  have t: "same t" by (simp add: same_def)
  have "same (snd (fileopen en i t))"
  proof (cases "f_type (fget t i) \<noteq> FD_DEVICE \<or> device_get t (sint (f_major (fget t i))) = None")
    case True
    then show ?thesis using t by (auto simp: fileopen_def)
  next
    case False
    then obtain dev where d: "f_type (fget t i) = FD_DEVICE" "device_get t (sint (f_major (fget t i))) = Some dev" by auto
    define u where "u = fset i (\<lambda>f. f\<lparr>f_ops := d_ops dev\<rparr>) t"
    have u: "same u" "same (fset i (\<lambda>f. f\<lparr>f_private_data := 0\<rparr>) u)" unfolding u_def by (intro step t; simp)+
    show ?thesis
    proof (cases "d_ops dev")
      case None
      then show ?thesis using d u(1) by (simp add: fileopen_def u_def Let_def)
    next
      case (Some ops)
      show ?thesis using d Some u(2) [unfolded u_def] call [OF u(2), of ops, unfolded u_def]
        by (cases "op_open (en_ops en ops)") (simp_all add: fileopen_def Let_def)
    qed
  qed
  then show ?thesis by (simp add: assms(3) same_def)
qed

section \<open>The calls keep the references\<close>

lemma argfd_ok:
  assumes "files_ok ext s" and "p < length (sy_ofile s)" and "argfd p fd s = Some f"
  shows "nat fd < NOFILE" "sy_ofile s ! p ! nat fd = Some f" "f < NFILE" "0 < f_ref (fget (sy_ft s) f)"
proof -
  show a: "nat fd < NOFILE" "sy_ofile s ! p ! nat fd = Some f" using assms(3) by (auto simp: argfd_def split: if_splits)
  show f: "f < NFILE" using files_okD(5) [OF assms(1,2) a] .
  have "nat fd < length (sy_ofile s ! p)" using a(1) files_okD(2) [OF assms(1,2)] by simp
  from fd_refs_pos [OF assms(2) this a(2)] show "0 < f_ref (fget (sy_ft s) f)" using files_okD(3) [OF assms(1) f] by simp
qed

lemma fdalloc_ft: "fdalloc p f (s\<lparr>sy_ft := t\<rparr>) = (case fdalloc p f s of (r, s1) \<Rightarrow> (r, s1\<lparr>sy_ft := t\<rparr>))"
  by (cases "first_idx (\<lambda>fd. sy_ofile s ! p ! fd = None) [0..<NOFILE]") (simp_all add: fdalloc_def set_fd_def del: first_idx_None)

text \<open>A duplicate takes the lowest free descriptor.\<close>

definition dup_post :: "nat \<Rightarrow> int \<Rightarrow> 'w sys \<Rightarrow> int \<Rightarrow> 'w sys \<Rightarrow> bool" where
  "dup_post p fd s r s' \<longleftrightarrow> (case argfd p fd s of
       None \<Rightarrow> r = -1 \<and> s' = s
     | Some f \<Rightarrow> r = -1 \<and> s' = s \<and> (\<forall>d < NOFILE. sy_ofile s ! p ! d \<noteq> None) \<or>
         0 \<le> r \<and> nat r < NOFILE \<and> sy_ofile s ! p ! nat r = None \<and> (\<forall>d < nat r. sy_ofile s ! p ! d \<noteq> None) \<and>
         s' = set_fd p (nat r) (Some f) (s\<lparr>sy_ft := fset f (\<lambda>x. x\<lparr>f_ref := f_ref x + 1\<rparr>) (sy_ft s)\<rparr>))"

lemma sys_dup_ok:
  assumes ok: "files_ok ext s" and p: "p < length (sy_ofile s)"
  shows "\<exists>r s'. sys_dup p fd s = Ok (r, s') \<and> files_ok ext s' \<and> dup_post p fd s r s'"
proof (cases "argfd p fd s")
  case None
  then show ?thesis using ok by (simp add: sys_dup_def dup_post_def)
next
  case (Some f)
  note F = argfd_ok [OF ok p Some]
  define t where "t = fset f (\<lambda>x. x\<lparr>f_ref := f_ref x + 1\<rparr>) (sy_ft s)"
  have len: "length (ft_file (sy_ft s)) = NFILE" by (rule files_okD(1) [OF ok])
  have ok1: "files_ok (ext(f := ext f + 1)) (s\<lparr>sy_ft := t\<rparr>)"
    by (rule files_ok_ft [OF ok]) (use F(3,4) len files_okD(4) [OF ok] in \<open>auto simp: t_def fget_fset\<close>)
  obtain r s1 where a: "fdalloc p f s = (r, s1)" by (cases "fdalloc p f s")
  have b: "fdalloc p f (s\<lparr>sy_ft := t\<rparr>) = (r, s1\<lparr>sy_ft := t\<rparr>)"
    using a by (simp add: fdalloc_ft)
  have "sy_ft s1 = sy_ft s" using a by (auto simp: fdalloc_def set_fd_def split: option.splits)
  then have c: "filedup f (sy_ft s1) = Ok t" using F(4) by (simp add: filedup_def t_def)
  have p1: "p < length (sy_ofile (s\<lparr>sy_ft := t\<rparr>))" using p by simp
  note R = fdalloc_ok [OF ok1 p1 F(3) _ b]
  show ?thesis
  proof (cases r)
    case None
    then have "s1 = s" "\<forall>d < NOFILE. sy_ofile s ! p ! d \<noteq> None" using R a by (auto simp: fdalloc_def split: option.splits)
    with None show ?thesis using ok by (simp add: sys_dup_def dup_post_def Some a)
  next
    case (Some d)
    then have "d < NOFILE" "sy_ofile s ! p ! d = None" "\<forall>e < d. sy_ofile s ! p ! e \<noteq> None" "s1\<lparr>sy_ft := t\<rparr> = set_fd p d (Some f) (s\<lparr>sy_ft := t\<rparr>)"
      "files_ok ext (s1\<lparr>sy_ft := t\<rparr>)"
      using R by (auto simp: fun_upd_idem)
    then show ?thesis using Some a c \<open>argfd p fd s = _\<close> by (simp add: sys_dup_def dup_post_def t_def)
  qed
qed

lemma sys_close_ok:
  assumes ok: "files_ok ext s" and p: "p < length (sy_ofile s)" and c: "sys_close en p fd s = Ok (r, s')"
  shows "files_ok ext s' \<and> (case argfd p fd s of None \<Rightarrow> r = -1 \<and> s' = s
    | Some f \<Rightarrow> r = 0 \<and> sy_ofile s' = (sy_ofile s)[p := (sy_ofile s ! p)[nat fd := None]] \<and>
        f_ref (fget (sy_ft s') f) = f_ref (fget (sy_ft s) f) - 1)"
proof (cases "argfd p fd s")
  case None
  then show ?thesis using ok c by (auto simp: sys_close_def)
next
  case (Some f)
  note F = argfd_ok [OF ok p Some]
  let ?s = "set_fd p (nat fd) None s"
  obtain r1 t where t: "fileclose en f (sy_ft s) = Ok (r1, t)" and s': "s' = ?s\<lparr>sy_ft := t\<rparr>" "r = 0"
    using c Some by (auto simp: sys_close_def on_ft_res_def res_simps set_fd_def)
  have ok1: "files_ok (ext(f := ext f + 1)) ?s"
    by (rule set_fd_ok [OF ok p F(1)]) (use F(2) in auto)
  have "fileclose en f (sy_ft ?s) = Ok (r1, t)" using t by (simp add: set_fd_def)
  from fileclose_ok [OF ok1 F(3) _ this] have "files_ok ext (?s\<lparr>sy_ft := t\<rparr>)" by (simp add: fun_upd_idem)
  moreover have "f_ref (fget t f) = f_ref (fget (sy_ft s) f) - 1"
    using fileclose_files [OF t] fget_fset [of f "sy_ft s" dropped f] F(3) files_okD(1) [OF ok] by (auto simp: dropped_def)
  ultimately show ?thesis using s' Some by (simp add: set_fd_def)
qed

text \<open>Filling a file that \<^verbatim>\<open>filealloc\<close> returned.\<close>

lemma fset_ok:
  assumes ok: "files_ok ext s" and f: "f < NFILE" "\<And>x. f_ref (g x) = f_ref x" and r: "f_ref (fget (sy_ft s) f) \<noteq> 0"
  shows "files_ok ext (s\<lparr>sy_ft := fset f g (sy_ft s)\<rparr>)"
  by (rule files_ok_ft [OF ok]) (use f r files_okD(1,4) [OF ok] in \<open>auto simp: fget_fset\<close>)

definition opened :: "nat \<Rightarrow> 'w sys \<Rightarrow> nat \<Rightarrow> nat \<Rightarrow> 'w sys \<Rightarrow> bool" where
  "opened p s fd f s' \<longleftrightarrow> fd < NOFILE \<and> f < NFILE \<and> sy_ofile s ! p ! fd = None \<and> f_ref (fget (sy_ft s) f) = 0 \<and>
     f_ref (fget (sy_ft s') f) = 1 \<and> sy_ofile s' = (sy_ofile s)[p := (sy_ofile s ! p)[fd := Some f]]"

lemma open_file_ok:
  assumes ok: "files_ok ext s" and p: "p < length (sy_ofile s)" and dr: "drivers_ok en"
    and fd: "fd < NOFILE" "sy_ofile s ! p ! fd = Some f" and f: "f < NFILE" "f_ref (fget (sy_ft s) f) = 1" "ext f = 0"
    and c: "open_file en p ep f fd omode acc s = Ok (r, s')"
  shows "files_ok ext s' \<and> (r = -1 \<and> sy_ofile s' = (sy_ofile s)[p := (sy_ofile s ! p)[fd := None]] \<or>
    r = int fd \<and> sy_ofile s' = sy_ofile s \<and> f_ref (fget (sy_ft s') f) = 1)"
proof -
  define s1 where "s1 = (if e_attribute (ent (sfs s) ep) AND ATTR_DIRECTORY = 0 \<and> omode AND O_TRUNC \<noteq> 0 then fs_do (\<lambda>fs. etrunc_ent fs ep) s else Ok s)"
  obtain u where u: "s1 = Ok u" using c by (cases s1) (auto simp: open_file_def s1_def [symmetric])
  have su: "same_files s u" using u by (auto simp: s1_def split: if_splits dest: fs_do_files)
  define e where "e = ent (sfs u) ep"
  define s2 where "s2 = u\<lparr>sy_ft := fset f (\<lambda>x. x\<lparr>f_ep := ep, f_readable := fst acc, f_writable := snd acc\<rparr>) (sy_ft u)\<rparr>"
  have ref: "f_ref (fget (sy_ft u) f) = 1" "length (ft_file (sy_ft u)) = NFILE" "sy_ofile u = sy_ofile s"
    using su f files_okD(1) [OF ok] by (auto simp: same_files_def)
  have ok2: "files_ok ext s2" unfolding s2_def by (rule fset_ok) (use files_ok_same [OF su] ok f ref in auto)
  have r2: "f_ref (fget (sy_ft s2) f) = 1" "length (ft_file (sy_ft s2)) = NFILE" "sy_ofile s2 = sy_ofile s"
    using ref f(1) by (simp_all add: s2_def fget_fset)
  show ?thesis
  proof (cases "e_attribute e AND ATTR_DEVICE \<noteq> 0")
    case False
    define s3 where "s3 = s2\<lparr>sy_ft := fset f (\<lambda>x. x\<lparr>f_type := FD_ENTRY, f_off := (if omode AND O_APPEND \<noteq> 0 then e_file_size e else 0)\<rparr>) (sy_ft s2)\<rparr>"
    have ok3: "files_ok ext s3" unfolding s3_def by (rule fset_ok [OF ok2 f(1)]) (use r2 in auto)
    obtain s4 where s4: "fs_do (\<lambda>fs. eunlock fs ep) s3 = Ok s4" "r = int fd" "s' = s4"
      using c False u unfolding open_file_def s1_def [symmetric]
      by (auto simp: res_simps Let_def e_def s2_def s3_def cong: if_cong)
    note sf = fs_do_files [OF s4(1)]
    show ?thesis using files_ok_same [OF sf] ok3 sf s4(2,3) r2 f(1) by (simp add: same_files_def s3_def fget_fset)
  next
    case True
    define s3 where "s3 = s2\<lparr>sy_ft := fset f (\<lambda>x. x\<lparr>f_type := FD_DEVICE, f_major := ucast (e_first_clus e), f_minor := ucast (e_file_size e)\<rparr>) (sy_ft s2)\<rparr>"
    have ok3: "files_ok ext s3" unfolding s3_def by (rule fset_ok [OF ok2 f(1)]) (use r2 in auto)
    have r3: "f_ref (fget (sy_ft s3) f) = 1" "length (ft_file (sy_ft s3)) = NFILE" "sy_ofile s3 = sy_ofile s"
      using r2 f(1) by (simp_all add: s3_def fget_fset)
    obtain r4 t where t: "fileopen en f (sy_ft s3) = (r4, t)" by (cases "fileopen en f (sy_ft s3)")
    define s4 where "s4 = s3\<lparr>sy_ft := t\<rparr>"
    have T: "length (ft_file t) = NFILE" "\<And>j. f_ref (fget t j) = f_ref (fget (sy_ft s3) j)" "\<And>j. f_type (fget t j) = f_type (fget (sy_ft s3) j)"
      using fileopen_files [OF dr _ t] f(1) r3(2) by auto
    have ok4: "files_ok ext s4" unfolding s4_def by (rule files_ok_ft [OF ok3]) (use T files_okD(4) [OF ok3] in auto)
    have of4: "sy_ofile s4 = sy_ofile s" "f_ref (fget (sy_ft s4) f) = 1" using r3 T(2) by (simp_all add: s4_def)
    have run: "open_file en p ep f fd omode acc s =
        (if r4 < 0 then rbind (on_ft_res (fileclose en f) (set_fd p fd None s4)) (\<lambda>(_, s5). rmap (Pair (-1)) (release_entry ep s5))
         else rmap (Pair (int fd)) (fs_do (\<lambda>fs. eunlock fs ep) s4))"
      using True u t unfolding open_file_def s1_def [symmetric]
      by (simp add: Let_def e_def s2_def s3_def on_ft_def s4_def)
    show ?thesis
    proof (cases "r4 < 0")
      case False
      then obtain s5 where s5: "fs_do (\<lambda>fs. eunlock fs ep) s4 = Ok s5" "r = int fd" "s' = s5" using c run by (auto simp: res_simps)
      note sf = fs_do_files [OF s5(1)]
      show ?thesis using files_ok_same [OF sf] ok4 sf s5(2,3) of4 by (simp add: same_files_def)
    next
      case True
      have ok5: "files_ok (ext(f := 1)) (set_fd p fd None s4)"
        by (rule set_fd_ok [OF ok4 _ fd(1)]) (use of4 p fd(2) f(3) in auto)
      obtain r5 t5 where c5: "fileclose en f (sy_ft (set_fd p fd None s4)) = Ok (r5, t5)"
        and s': "release_entry ep ((set_fd p fd None s4)\<lparr>sy_ft := t5\<rparr>) = Ok s'" "r = -1"
        using c run True by (auto simp: res_simps on_ft_res_def)
      have "files_ok ext ((set_fd p fd None s4)\<lparr>sy_ft := t5\<rparr>)" using fileclose_ok [OF ok5 f(1) _ c5] f(3) by (simp add: fun_upd_idem)
      note sf = release_entry_files [OF s'(1)]
      then show ?thesis using files_ok_same [OF sf] \<open>files_ok ext (_\<lparr>sy_ft := t5\<rparr>)\<close> s'(2) of4(1) by (simp add: same_files_def set_fd_def)
    qed
  qed
qed

lemma sys_open_ok:
  assumes ok: "files_ok ext s" and p: "p < length (sy_ofile s)" and dr: "drivers_ok en" and c: "sys_open en p path omode s = Ok (r, s')"
  shows "files_ok ext s' \<and> (r = -1 \<and> sy_ofile s' = sy_ofile s \<or> 0 \<le> r \<and> (\<exists>f. opened p s (nat r) f s'))"
proof (cases "\<exists>pa acc. path = Some pa \<and> omode AND NOT (O_ACCMODE OR O_CREATE OR O_TRUNC OR O_NOFOLLOW OR O_APPEND) = 0 \<and> parse_access_mode omode = Some acc")
  case False
  then have "r = -1 \<and> s' = s" using c by (auto simp: sys_open_def split: option.splits if_splits)
  with ok show ?thesis by simp
next
  case True
  then obtain pa acc where g: "path = Some pa" "omode AND NOT (O_ACCMODE OR O_CREATE OR O_TRUNC OR O_NOFOLLOW OR O_APPEND) = 0"
    "parse_access_mode omode = Some acc" by blast
  obtain r1 s1 where e: "open_entry p pa omode s = Ok (r1, s1)" using c g by (cases "open_entry p pa omode s") (auto simp: sys_open_def)
  note sf = open_entry_files [OF e]
  have ok1: "files_ok ext s1" using files_ok_same [OF sf] ok by simp
  have of1: "sy_ofile s1 = sy_ofile s" "ft_file (sy_ft s1) = ft_file (sy_ft s)" using sf by (auto simp: same_files_def)
  show ?thesis
  proof (cases r1)
    case None
    then show ?thesis using c g e ok1 of1 by (simp add: sys_open_def)
  next
    case (Some ep)
    obtain r2 t2 where a: "filealloc (sy_ft s1) = (r2, t2)" by (cases "filealloc (sy_ft s1)")
    note A = filealloc_ok [OF ok1 a]
    show ?thesis
    proof (cases r2)
      case None
      then have "release_entry ep (s1\<lparr>sy_ft := t2\<rparr>) = Ok s'" "r = -1" using c g e Some a by (auto simp: sys_open_def on_ft_def res_simps)
      moreover have "s1\<lparr>sy_ft := t2\<rparr> = s1" using A None by simp
      ultimately show ?thesis using release_entry_files [of ep s1 s'] files_ok_same [of s1 s' ext] ok1 of1 by (auto simp: same_files_def)
    next
      case (Some f)
      then have f: "f < NFILE" "ext f = 0" "files_ok (ext(f := 1)) (s1\<lparr>sy_ft := t2\<rparr>)" "t2 = fset f (\<lambda>f. f\<lparr>f_ref := 1\<rparr>) (sy_ft s1)"
        and z: "f_ref (fget (sy_ft s) f) = 0" using A of1 files_okD(3) [OF ok1, of f] by auto
      have r1: "f_ref (fget t2 f) = 1" using f(1,4) files_okD(1) [OF ok1] by (simp add: fget_fset)
      have p1: "p < length (sy_ofile (s1\<lparr>sy_ft := t2\<rparr>))" using p of1 by simp
      obtain r3 s3 where d: "fdalloc p f (s1\<lparr>sy_ft := t2\<rparr>) = (r3, s3)" by (cases "fdalloc p f (s1\<lparr>sy_ft := t2\<rparr>)")
      have D: "case r3 of None \<Rightarrow> s3 = s1\<lparr>sy_ft := t2\<rparr>
        | Some fd \<Rightarrow> fd < NOFILE \<and> sy_ofile s ! p ! fd = None \<and> s3 = set_fd p fd (Some f) (s1\<lparr>sy_ft := t2\<rparr>) \<and> files_ok ext s3"
        using fdalloc_ok [OF f(3) p1 f(1) _ d] f(2) of1 by (auto simp: fun_upd_idem split: option.splits)
      show ?thesis
      proof (cases r3)
        case None
        with D c g e \<open>r1 = _\<close> Some a d obtain t4 where t4: "rmap snd (fileclose en f t2) = Ok t4" "release_entry ep (s1\<lparr>sy_ft := t4\<rparr>) = Ok s'" "r = -1"
          by (auto simp: sys_open_def on_ft_def on_ft_res_def res_simps)
        obtain r4 where c4: "fileclose en f (sy_ft (s1\<lparr>sy_ft := t2\<rparr>)) = Ok (r4, t4)" using t4(1) by (auto simp: res_simps)
        have "files_ok ext (s1\<lparr>sy_ft := t4\<rparr>)" using fileclose_ok [OF f(3,1) _ c4] f(2) by (simp add: fun_upd_idem)
        then show ?thesis using release_entry_files [OF t4(2)] files_ok_same [OF release_entry_files [OF t4(2)]] t4(3) of1 by (auto simp: same_files_def)
      next
        case (Some fd)
        then have s3: "fd < NOFILE" "sy_ofile s ! p ! fd = None" "s3 = set_fd p fd (Some f) (s1\<lparr>sy_ft := t2\<rparr>)" "files_ok ext s3" using D by auto
        have run: "open_file en p ep f fd omode acc s3 = Ok (r, s')"
          using c g e \<open>r1 = _\<close> \<open>r2 = _\<close> a d Some by (simp add: sys_open_def on_ft_def)
        have old: "(sy_ofile s ! p)[fd := None] = sy_ofile s ! p" using list_update_id [of "sy_ofile s ! p" fd] s3(2) by simp
        have q: "p < length (sy_ofile s3)" "sy_ofile s3 ! p ! fd = Some f" "f_ref (fget (sy_ft s3) f) = 1"
          "(sy_ofile s3)[p := (sy_ofile s3 ! p)[fd := None]] = sy_ofile s" "sy_ofile s3 = (sy_ofile s)[p := (sy_ofile s ! p)[fd := Some f]]"
          using s3(1-3) p of1 r1 files_okD(2) [OF ok p] by (simp_all add: set_fd_def old)
        from open_file_ok [OF s3(4) q(1) dr s3(1) q(2) f(1) q(3) f(2) run] q(4,5) s3(1,2) f(1) z show ?thesis by (auto simp: opened_def)
      qed
    qed
  qed
qed

section \<open>Pipes are created completely or not at all\<close>

abbreviation (input) sys_kinv :: "'w env \<Rightarrow> 'w ftable \<Rightarrow> bool" where
  "sys_kinv en t \<equiv> kalloc_inv (ke_end (en_k en)) (ft_k t) \<and> ke_hart (en_k en) < NCPU"

text \<open>Closing a file that was just allocated undoes the allocation.\<close>

lemma fileclose_fresh:
  assumes "i < length (ft_file t)" and "f_ref (fget t i) = 0" "f_type (fget t i) = FD_NONE"
  shows "fileclose en i (fset i (\<lambda>f. f\<lparr>f_ref := 1\<rparr>) t) = Ok (0, t)"
proof -
  have "(fget t i)\<lparr>f_ref := 1, f_ref := 0, f_type := FD_NONE\<rparr> = fget t i" using assms(2,3) by simp
  then have "fset i (\<lambda>f. f\<lparr>f_ref := 0, f_type := FD_NONE\<rparr>) (fset i (\<lambda>f. f\<lparr>f_ref := 1\<rparr>) t) = t"
    using assms(1) by (simp add: fset_def)
  then show ?thesis using assms by (simp add: fileclose_def Let_def fget_fset)
qed

definition pipe_ends :: "nat \<Rightarrow> nat \<Rightarrow> u64 \<Rightarrow> 'w ftable \<Rightarrow> bool" where
  "pipe_ends i j pi t \<longleftrightarrow> i \<noteq> j \<and>
     f_type (fget t i) = FD_PIPE \<and> f_readable (fget t i) \<and> \<not> f_writable (fget t i) \<and> f_pipe (fget t i) = pi \<and> f_ref (fget t i) = 1 \<and>
     f_type (fget t j) = FD_PIPE \<and> \<not> f_readable (fget t j) \<and> f_writable (fget t j) \<and> f_pipe (fget t j) = pi \<and> f_ref (fget t j) = 1 \<and>
     readopen (ft_pipe t pi) \<and> writeopen (ft_pipe t pi) \<and> pipe_empty (ft_pipe t pi)"

lemma pipealloc_ok:
  assumes ok: "files_ok ext s" and k: "sys_kinv en (sy_ft s)"
  shows "\<exists>r t. pipealloc en (sy_ft s) = Ok (r, t) \<and> (case r of
      None \<Rightarrow> t = sy_ft s
    | Some (i, j) \<Rightarrow> i < NFILE \<and> j < NFILE \<and> ext i = 0 \<and> ext j = 0 \<and> f_ref (fget (sy_ft s) i) = 0 \<and> f_ref (fget (sy_ft s) j) = 0 \<and>
        files_ok (ext(i := 1, j := 1)) (s\<lparr>sy_ft := t\<rparr>) \<and> ft_fs t = ft_fs (sy_ft s) \<and> sys_kinv en t \<and>
        (\<forall>l < NFILE. l \<noteq> i \<and> l \<noteq> j \<longrightarrow> fget t l = fget (sy_ft s) l) \<and>
        (\<exists>pi. pipe_ends i j pi t \<and> pi \<in> good_pages (ke_end (en_k en)) \<and> krefs (ft_k (sy_ft s)) pi = 0 \<and>
           (\<forall>q \<in> good_pages (ke_end (en_k en)). krefs (ft_k t) q = (if q = pi then 1 else krefs (ft_k (sy_ft s)) q))))"
proof -
  obtain r0 t1 where a: "filealloc (sy_ft s) = (r0, t1)" by (cases "filealloc (sy_ft s)")
  note A = filealloc_ok [OF ok a]
  have len: "length (ft_file (sy_ft s)) = NFILE" by (rule files_okD(1) [OF ok])
  show ?thesis
  proof (cases r0)
    case None
    then show ?thesis using A a by (simp add: pipealloc_def pipealloc_bad_def)
  next
    case (Some i)
    then have i: "i < NFILE" "ext i = 0" "f_ref (fget (sy_ft s) i) = 0" "f_type (fget (sy_ft s) i) = FD_NONE"
      "t1 = fset i (\<lambda>f. f\<lparr>f_ref := 1\<rparr>) (sy_ft s)" "files_ok (ext(i := 1)) (s\<lparr>sy_ft := t1\<rparr>)"
      using A files_okD(3) [OF ok, of i] by auto
    have undo1: "fileclose en i t1 = Ok (0, sy_ft s)" unfolding i(5) by (rule fileclose_fresh) (use i len in auto)
    obtain r1 t2 where b: "filealloc t1 = (r1, t2)" by (cases "filealloc t1")
    have b': "filealloc (sy_ft (s\<lparr>sy_ft := t1\<rparr>)) = (r1, t2)" using b by simp
    note B = filealloc_ok [OF i(6) b']
    show ?thesis
    proof (cases r1)
      case None
      then show ?thesis using B b a Some undo1 by (simp add: pipealloc_def pipealloc_bad_def)
    next
      case (Some j)
      then have j: "j < NFILE" "(ext(i := 1)) j = 0" "f_type (fget t1 j) = FD_NONE" "f_ref (fget t1 j) = 0" "t2 = fset j (\<lambda>f. f\<lparr>f_ref := 1\<rparr>) t1"
        "files_ok (ext(i := 1, j := 1)) (s\<lparr>sy_ft := t2\<rparr>)"
        using B files_okD(3) [OF i(6), of j] by auto
      have ij: "i \<noteq> j" using j(2) by auto
      have undo2: "fileclose en j t2 = Ok (0, t1)" unfolding j(5) by (rule fileclose_fresh) (use j i(5) len in auto)
      have swap: "fileclose en i t2 = Ok (0, fset j (\<lambda>f. f\<lparr>f_ref := 1\<rparr>) (sy_ft s))"
      proof -
        have "t2 = fset i (\<lambda>f. f\<lparr>f_ref := 1\<rparr>) (fset j (\<lambda>f. f\<lparr>f_ref := 1\<rparr>) (sy_ft s))"
          unfolding j(5) i(5) using ij by (simp add: fset_def list_update_swap)
        moreover have "fileclose en i (fset i (\<lambda>f. f\<lparr>f_ref := 1\<rparr>) (fset j (\<lambda>f. f\<lparr>f_ref := 1\<rparr>) (sy_ft s))) = Ok (0, fset j (\<lambda>f. f\<lparr>f_ref := 1\<rparr>) (sy_ft s))"
          by (rule fileclose_fresh) (use i j(1) ij len in \<open>auto simp: fget_fset\<close>)
        ultimately show ?thesis by simp
      qed
      have undo3: "fileclose en j (fset j (\<lambda>f. f\<lparr>f_ref := 1\<rparr>) (sy_ft s)) = Ok (0, sy_ft s)"
        by (rule fileclose_fresh) (use j i(1,5) ij len in \<open>auto simp: fget_fset\<close>)
      have same_k: "ft_k t2 = ft_k (sy_ft s)" "ft_fs t2 = ft_fs (sy_ft s)" by (simp_all add: j(5) i(5))
      obtain pi k1 where c: "kalloc (en_k en) (ft_k t2) = (pi, k1)" by (cases "kalloc (en_k en) (ft_k t2)")
      show ?thesis
      proof (cases "pi = 0")
        case True
        then have "k1 = ft_k t2" using kalloc_page_null [of "ke_end (en_k en)" "ft_k t2"] k c same_k by auto
        then show ?thesis using True a b \<open>r0 = _\<close> Some c swap undo3 by (simp add: pipealloc_def pipealloc_bad_def)
      next
        case False
        define t3 where "t3 = t2\<lparr>ft_k := k1, ft_pipe := (ft_pipe t2)(pi := pipe_init (pdata (ft_pipe t2 pi)))\<rparr>"
        define t4 where "t4 = fset i (\<lambda>f. f\<lparr>f_type := FD_PIPE, f_readable := True, f_writable := False, f_pipe := pi\<rparr>) t3"
        define t5 where "t5 = fset j (\<lambda>f. f\<lparr>f_type := FD_PIPE, f_readable := False, f_writable := True, f_pipe := pi\<rparr>) t4"
        have run: "pipealloc en (sy_ft s) = Ok (Some (i, j), t5)"
          using False a b \<open>r0 = _\<close> Some c by (simp add: pipealloc_def t3_def t4_def t5_def Let_def)
        have g: "fget t2 l = (if l = j \<or> l = i then (fget (sy_ft s) l)\<lparr>f_ref := 1\<rparr> else fget (sy_ft s) l)" for l
          using i(1) j(1) ij len by (auto simp: j(5) i(5) fget_fset)
        have l2: "length (ft_file t2) = NFILE" using len by (simp add: j(5) i(5))
        have ok5: "files_ok (ext(i := 1, j := 1)) (s\<lparr>sy_ft := t5\<rparr>)"
        proof -
          have "files_ok (ext(i := 1, j := 1)) ((s\<lparr>sy_ft := t2\<rparr>)\<lparr>sy_ft := t5\<rparr>)"
            by (rule files_ok_ft [OF j(6)]) (use l2 i(1) j(1) ij g files_okD(4) [OF ok] in \<open>auto simp: t5_def t4_def t3_def fget_fset\<close>)
          then show ?thesis by simp
        qed
        have k1: "kalloc_inv (ke_end (en_k en)) k1"
          using kalloc_page_keeps [of "ke_end (en_k en)" "ft_k t2" "ke_hart (en_k en)" pi k1] k c same_k by auto
        have refs: "pi \<in> good_pages (ke_end (en_k en))" "krefs (ft_k (sy_ft s)) pi = 0"
          "\<forall>q \<in> good_pages (ke_end (en_k en)). krefs k1 q = (if q = pi then 1 else krefs (ft_k (sy_ft s)) q)"
          using kalloc_page_refs [of "ke_end (en_k en)" "ft_k t2" "ke_hart (en_k en)" pi k1] k c same_k False by auto
        have ends: "pipe_ends i j pi t5"
          using l2 i(1) j(1) ij g by (simp add: pipe_ends_def t5_def t4_def t3_def fget_fset pipe_init_def pipe_empty_def)
        have oth: "\<forall>l < NFILE. l \<noteq> i \<and> l \<noteq> j \<longrightarrow> fget t5 l = fget (sy_ft s) l"
          using l2 i(1) j(1) g by (simp add: t5_def t4_def t3_def fget_fset)
        have jz: "ext j = 0" "f_ref (fget (sy_ft s) j) = 0" using j(2,4) ij i(1,5) len by (auto simp: fget_fset)
        have tk: "ft_k t5 = k1" "ft_fs t5 = ft_fs (sy_ft s)" by (simp_all add: t5_def t4_def t3_def same_k)
        show ?thesis unfolding run using i(1,2,3) j(1) jz ok5 tk k k1 refs ends oth by (auto intro!: exI [of _ pi])
      qed
    qed
  qed
qed


lemma close_read_end:
  assumes "pipe_ends i j pi t" and "i < length (ft_file t)"
  shows "\<exists>t'. fileclose en i t = Ok (0, t') \<and> ft_k t' = ft_k t \<and> ft_fs t' = ft_fs t \<and> \<not> readopen (ft_pipe t' pi) \<and> fget t' j = fget t j"
  using assms by (simp add: fileclose_def pipe_ends_def close_pipe_def pipeclose_def Let_def fset_def)

lemma close_write_end:
  assumes "f_ref (fget t j) = 1" "f_type (fget t j) = FD_PIPE" "f_writable (fget t j)" "\<not> readopen (ft_pipe t (f_pipe (fget t j)))"
    and "j < length (ft_file t)" and k: "sys_kinv en t" and pi: "f_pipe (fget t j) \<in> good_pages (ke_end (en_k en))" "krefs (ft_k t) (f_pipe (fget t j)) = 1"
  shows "\<exists>t'. fileclose en j t = Ok (0, t') \<and> ft_fs t' = ft_fs t \<and> sys_kinv en t' \<and>
    (\<forall>q \<in> good_pages (ke_end (en_k en)). krefs (ft_k t') q = (if q = f_pipe (fget t j) then 0 else krefs (ft_k t) q))"
proof -
  have "0 < krefs (ft_k t) (f_pipe (fget t j))" using pi(2) by simp
  from kfree_page_to_ok [OF conjunct1 [OF k] conjunct2 [OF k] pi(1) this] obtain k1 where
    k1: "kfree (en_k en) (ft_k t) (f_pipe (fget t j)) = Ok k1" "kalloc_inv (ke_end (en_k en)) k1"
      "\<forall>q \<in> good_pages (ke_end (en_k en)). krefs k1 q = (if q = f_pipe (fget t j) then krefs (ft_k t) (f_pipe (fget t j)) - 1 else krefs (ft_k t) q)"
    unfolding kfree_page_def by blast
  show ?thesis using assms(1-5) k k1 pi(2)
    by (simp add: fileclose_def close_pipe_def pipeclose_def Let_def)
qed

lemma close_two_ok:
  assumes ends: "pipe_ends i j pi (sy_ft s)" and ok: "files_ok (ext(i := 1, j := 1)) s" and ij: "i < NFILE" "j < NFILE" "ext i = 0" "ext j = 0"
    and k: "sys_kinv en (sy_ft s)" and pi: "pi \<in> good_pages (ke_end (en_k en))" "krefs (ft_k (sy_ft s)) pi = 1"
  shows "\<exists>s'. close_two en i j s = Ok (-1, s') \<and> files_ok ext s' \<and> sy_ofile s' = sy_ofile s \<and> sfs s' = sfs s \<and> sys_kinv en (sy_ft s') \<and>
    (\<forall>q \<in> good_pages (ke_end (en_k en)). krefs (ft_k (sy_ft s')) q = (if q = pi then 0 else krefs (ft_k (sy_ft s)) q))"
proof -
  have ne: "i \<noteq> j" using ends by (simp add: pipe_ends_def)
  have len: "length (ft_file (sy_ft s)) = NFILE" by (rule files_okD(1) [OF ok])
  obtain t1 where t1: "fileclose en i (sy_ft s) = Ok (0, t1)" "ft_k t1 = ft_k (sy_ft s)" "ft_fs t1 = ft_fs (sy_ft s)"
    "\<not> readopen (ft_pipe t1 pi)" "fget t1 j = fget (sy_ft s) j"
    using close_read_end [OF ends] ij(1) len by auto
  have "(ext(i := 1, j := 1))(i := (ext(i := 1, j := 1)) i - 1) = ext(j := 1)" using ij(3) ne by auto
  then have ok1: "files_ok (ext(j := 1)) (s\<lparr>sy_ft := t1\<rparr>)" using fileclose_ok [OF ok ij(1) _ t1(1)] by simp
  have len1: "length (ft_file t1) = NFILE" using files_okD(1) [OF ok1] by simp
  have e: "f_ref (fget t1 j) = 1" "f_type (fget t1 j) = FD_PIPE" "f_writable (fget t1 j)" "f_pipe (fget t1 j) = pi"
    using ends t1(5) by (simp_all add: pipe_ends_def)
  have k1: "sys_kinv en t1" using k t1(2) by simp
  obtain t2 where t2: "fileclose en j t1 = Ok (0, t2)" "ft_fs t2 = ft_fs t1" "sys_kinv en t2"
    "\<forall>q \<in> good_pages (ke_end (en_k en)). krefs (ft_k t2) q = (if q = pi then 0 else krefs (ft_k t1) q)"
    using close_write_end [OF e(1,2,3) _ _ k1] e(4) t1(2,4) ij(2) len1 pi by auto
  have "files_ok ext (s\<lparr>sy_ft := t2\<rparr>)" using fileclose_ok [OF ok1 ij(2) _, of en 0 t2] t2(1) ij(4) by (simp add: fun_upd_idem)
  then show ?thesis using t1(1,2,3) t2 by (simp add: close_two_def on_ft_res_def)
qed

lemma set_fd_undo:
  assumes "p < length (sy_ofile s)" and "sy_ofile s ! p ! fd = None"
  shows "set_fd p fd None (set_fd p fd x s) = s"
proof -
  have "(sy_ofile s ! p)[fd := None] = sy_ofile s ! p" using list_update_id [of "sy_ofile s ! p" fd] assms(2) by simp
  then show ?thesis using assms(1) by (simp add: set_fd_def)
qed

lemma set_fd_swap:
  assumes "fd \<noteq> fd'"
  shows "set_fd p fd x (set_fd p fd' y s) = set_fd p fd' y (set_fd p fd x s)"
  using assms by (cases "p < length (sy_ofile s)") (simp_all add: set_fd_def list_update_swap list_update_beyond)

lemma set_fd_ft: "set_fd p fd x (s\<lparr>sy_ft := t\<rparr>) = (set_fd p fd x s)\<lparr>sy_ft := t\<rparr>"
  by (simp add: set_fd_def)

lemma copy_user_eq:
  "copy_user en a bs t = (if snd (uio_out (en_io en) (ft_w t) a bs) then 0 else -1, t\<lparr>ft_w := fst (uio_out (en_io en) (ft_w t) a bs)\<rparr>)"
  by (simp add: copy_user_def split_def Let_def)


text \<open>What is the same after a failed \<^verbatim>\<open>pipe\<close>, and what a successful one has made.\<close>

definition pipe_undone :: "'w env \<Rightarrow> 'w sys \<Rightarrow> 'w sys \<Rightarrow> bool" where
  "pipe_undone en s s' \<longleftrightarrow> sy_ofile s' = sy_ofile s \<and> sfs s' = sfs s \<and>
     (\<forall>l < NFILE. f_ref (fget (sy_ft s') l) = f_ref (fget (sy_ft s) l)) \<and>
     (\<forall>q \<in> good_pages (ke_end (en_k en)). krefs (ft_k (sy_ft s')) q = krefs (ft_k (sy_ft s)) q)"

definition lowest_free :: "nat option list \<Rightarrow> nat \<Rightarrow> bool" where
  "lowest_free row fd \<longleftrightarrow> fd < NOFILE \<and> row ! fd = None \<and> (\<forall>d < fd. row ! d \<noteq> None)"

definition pipe_made :: "'w env \<Rightarrow> nat \<Rightarrow> u64 \<Rightarrow> 'w sys \<Rightarrow> 'w sys \<Rightarrow> bool" where
  "pipe_made en p fdarray s s' \<longleftrightarrow> (\<exists>i j pi fd0 fd1. i < NFILE \<and> j < NFILE \<and>
     f_ref (fget (sy_ft s) i) = 0 \<and> f_ref (fget (sy_ft s) j) = 0 \<and>
     pipe_ends i j pi (sy_ft s') \<and> pi \<in> good_pages (ke_end (en_k en)) \<and> krefs (ft_k (sy_ft s)) pi = 0 \<and>
     (\<forall>q \<in> good_pages (ke_end (en_k en)). krefs (ft_k (sy_ft s')) q = (if q = pi then 1 else krefs (ft_k (sy_ft s)) q)) \<and>
     lowest_free (sy_ofile s ! p) fd0 \<and> lowest_free ((sy_ofile s ! p)[fd0 := Some i]) fd1 \<and>
     sy_ofile s' = (sy_ofile s)[p := (sy_ofile s ! p)[fd0 := Some i, fd1 := Some j]] \<and>
     (let w1 = uio_out (en_io en) (ft_w (sy_ft s)) fdarray (le32_bytes (of_nat fd0));
          w2 = uio_out (en_io en) (fst w1) (fdarray + 4) (le32_bytes (of_nat fd1))
      in snd w1 \<and> snd w2 \<and> ft_w (sy_ft s') = fst w2))"

lemma files_ok_w: "files_ok ext (s\<lparr>sy_ft := t\<lparr>ft_w := w\<rparr>\<rparr>) = files_ok ext (s\<lparr>sy_ft := t\<rparr>)"
  by (rule files_ok_same) (simp add: same_files_def)

lemma pipe_ends_w: "pipe_ends i j pi (t\<lparr>ft_w := w\<rparr>) = pipe_ends i j pi t"
  by (simp add: pipe_ends_def)

lemma pipealloc_w:
  assumes "pipealloc en t = Ok (Some z, t')"
  shows "ft_w t' = ft_w t"
  using assms by (auto simp: pipealloc_def pipealloc_bad_def filealloc_def Let_def res_simps split: prod.splits option.splits if_splits)

text \<open>
  Once \<^verbatim>\<open>pipealloc\<close> has succeeded, either both ends are closed with the descriptors as they were, or the two lowest free
  descriptors are taken and both numbers are stored.
\<close>

definition pipe_fds :: "'w env \<Rightarrow> nat \<Rightarrow> u64 \<Rightarrow> nat option list \<Rightarrow> nat \<Rightarrow> nat \<Rightarrow> nat \<Rightarrow> 'w \<Rightarrow> 'w \<Rightarrow> bool" where
  "pipe_fds en i a row j fd0 fd1 w w' \<longleftrightarrow> lowest_free row fd0 \<and> lowest_free (row[fd0 := Some i]) fd1 \<and>
     (let w1 = uio_out (en_io en) w a (le32_bytes (of_nat fd0)); w2 = uio_out (en_io en) (fst w1) (a + 4) (le32_bytes (of_nat fd1))
      in snd w1 \<and> snd w2 \<and> w' = fst w2)"

lemma fdalloc_eq:
  "fdalloc p f s = (r, s') \<Longrightarrow> (case r of None \<Rightarrow> s' = s | Some fd \<Rightarrow> lowest_free (sy_ofile s ! p) fd \<and> s' = set_fd p fd (Some f) s)"
  by (auto simp: fdalloc_def lowest_free_def first_idx_upt_iff split: option.splits)

lemma sys_pipe_cases:
  assumes z: "pipealloc en (sy_ft s) = Ok (Some (i, j), t)" and p: "p < length (sy_ofile s)" "length (sy_ofile s ! p) = NOFILE" and a: "\<not> MAXUVA \<le> a"
  shows "(\<exists>w. sys_pipe en p a s = close_two en i j (s\<lparr>sy_ft := t\<lparr>ft_w := w\<rparr>\<rparr>)) \<or>
    (\<exists>fd0 fd1 w. pipe_fds en i a (sy_ofile s ! p) j fd0 fd1 (ft_w t) w \<and>
       sys_pipe en p a s = Ok (0, set_fd p fd1 (Some j) (set_fd p fd0 (Some i) (s\<lparr>sy_ft := t\<lparr>ft_w := w\<rparr>\<rparr>))))"
proof -
  let ?s = "s\<lparr>sy_ft := t\<rparr>"
  have id: "?s = s\<lparr>sy_ft := t\<lparr>ft_w := ft_w t\<rparr>\<rparr>" by simp
  obtain r0 s2 where b: "fdalloc p i ?s = (r0, s2)" by (cases "fdalloc p i ?s")
  note B = fdalloc_eq [OF b]
  show ?thesis
  proof (cases r0)
    case None
    then have "sys_pipe en p a s = close_two en i j ?s" using z a b B by (simp add: sys_pipe_def on_ft_res_def)
    then show ?thesis using id by metis
  next
    case (Some fd0)
    then have f0: "lowest_free (sy_ofile s ! p) fd0" "s2 = set_fd p fd0 (Some i) ?s" using B by auto
    have undo0: "set_fd p fd0 None s2 = ?s" unfolding f0(2) by (rule set_fd_undo) (use p f0(1) in \<open>simp_all add: lowest_free_def\<close>)
    obtain r1 s3 where c: "fdalloc p j s2 = (r1, s3)" by (cases "fdalloc p j s2")
    note C = fdalloc_eq [OF c]
    show ?thesis
    proof (cases r1)
      case None
      then have "sys_pipe en p a s = close_two en i j ?s" using z a b c C Some undo0 by (simp add: sys_pipe_def on_ft_res_def)
      then show ?thesis using id by metis
    next
      case (Some fd1)
      have p2: "p < length (sy_ofile s2)" "sy_ofile s2 ! p = (sy_ofile s ! p)[fd0 := Some i]" using p(1) by (simp_all add: f0(2) set_fd_def)
      have f1: "lowest_free ((sy_ofile s ! p)[fd0 := Some i]) fd1" "s3 = set_fd p fd1 (Some j) s2" "sy_ofile s2 ! p ! fd1 = None"
        using C Some p2(2) by (auto simp: lowest_free_def)
      have ne: "fd1 \<noteq> fd0" using f1(1) f0(1) p(2) by (auto simp: lowest_free_def)
      have "set_fd p fd1 None s3 = s2" unfolding f1(2) by (rule set_fd_undo [OF p2(1) f1(3)])
      then have undo: "set_fd p fd1 None (set_fd p fd0 None s3) = ?s" using set_fd_swap [OF ne, of p None None s3] undo0 by simp
      define w1 where "w1 = uio_out (en_io en) (ft_w t) a (le32_bytes (of_nat fd0))"
      define w2 where "w2 = uio_out (en_io en) (fst w1) (a + 4) (le32_bytes (of_nat fd1))"
      have "sys_pipe en p a s =
          (if \<not> snd w1 then close_two en i j (s\<lparr>sy_ft := t\<lparr>ft_w := fst w1\<rparr>\<rparr>)
           else if \<not> snd w2 then close_two en i j (s\<lparr>sy_ft := t\<lparr>ft_w := fst w2\<rparr>\<rparr>)
           else Ok (0, set_fd p fd1 (Some j) (set_fd p fd0 (Some i) (s\<lparr>sy_ft := t\<lparr>ft_w := fst w2\<rparr>\<rparr>))))"
      proof -
        have s3: "sy_ft s3 = t" by (simp add: f1(2) f0(2) set_fd_def)
        have "set_fd p fd1 None (set_fd p fd0 None (s3\<lparr>sy_ft := u\<rparr>)) = s\<lparr>sy_ft := u\<rparr>" for u by (simp add: set_fd_ft undo)
        moreover have "set_fd p fd1 (Some j) (set_fd p fd0 (Some i) (s\<lparr>sy_ft := u\<rparr>)) = s3\<lparr>sy_ft := u\<rparr>" for u by (simp add: f1(2) f0(2) set_fd_ft)
        ultimately show ?thesis using z a b c Some \<open>r0 = _\<close>
          by (simp add: sys_pipe_def on_ft_res_def on_ft_def copy_user_eq s3 w1_def w2_def)
      qed
      moreover have "pipe_fds en i a (sy_ofile s ! p) j fd0 fd1 (ft_w t) (fst w2)" if "snd w1" "snd w2"
        using that f0(1) f1(1) by (simp add: pipe_fds_def w1_def w2_def)
      ultimately show ?thesis by (cases "snd w1"; cases "snd w2") auto
    qed
  qed
qed

text \<open>Taking the two descriptors hands the references over.\<close>

lemma pipe_fds_ok:
  assumes "files_ok (ext(i := 1, j := 1)) s" and "p < length (sy_ofile s)" and "pipe_fds en i a (sy_ofile s ! p) j fd0 fd1 w0 w"
    and "i < NFILE" "j < NFILE" "i \<noteq> j" "ext i = 0" "ext j = 0"
  shows "files_ok ext (set_fd p fd1 (Some j) (set_fd p fd0 (Some i) s))"
proof -
  have f: "lowest_free (sy_ofile s ! p) fd0" "lowest_free ((sy_ofile s ! p)[fd0 := Some i]) fd1" using assms(3) by (simp_all add: pipe_fds_def)
  have "files_ok (ext(j := 1)) (set_fd p fd0 (Some i) s)"
    by (rule set_fd_ok [OF assms(1,2)]) (use f(1) assms(4-8) in \<open>auto simp: lowest_free_def\<close>)
  then show ?thesis
    by (rule set_fd_ok) (use f assms(2,4-8) in \<open>auto simp: lowest_free_def set_fd_def\<close>)
qed

lemma sys_pipe_undo:
  assumes ok: "files_ok ext s" and ij: "i < NFILE" "j < NFILE" "ext i = 0" "ext j = 0"
    and t: "files_ok (ext(i := 1, j := 1)) (s\<lparr>sy_ft := t\<rparr>)" "sys_kinv en t" "ft_fs t = ft_fs (sy_ft s)" "pipe_ends i j pi t"
    and pi: "pi \<in> good_pages (ke_end (en_k en))" "krefs (ft_k (sy_ft s)) pi = 0"
      "\<forall>q \<in> good_pages (ke_end (en_k en)). krefs (ft_k t) q = (if q = pi then 1 else krefs (ft_k (sy_ft s)) q)"
  shows "\<exists>s'. close_two en i j (s\<lparr>sy_ft := t\<lparr>ft_w := w\<rparr>\<rparr>) = Ok (-1, s') \<and> files_ok ext s' \<and> sys_kinv en (sy_ft s') \<and> pipe_undone en s s'"
proof -
  let ?s = "s\<lparr>sy_ft := t\<lparr>ft_w := w\<rparr>\<rparr>"
  have "krefs (ft_k (sy_ft ?s)) pi = 1" using pi(1,3) by simp
  with close_two_ok [of i j pi ?s ext en] t ij pi(1) obtain s' where c: "close_two en i j ?s = Ok (-1, s')" "files_ok ext s'"
    "sy_ofile s' = sy_ofile s" "sfs s' = sfs s" "sys_kinv en (sy_ft s')"
    "\<forall>q \<in> good_pages (ke_end (en_k en)). krefs (ft_k (sy_ft s')) q = (if q = pi then 0 else krefs (ft_k t) q)"
    by (auto simp: files_ok_w pipe_ends_w)
  have "f_ref (fget (sy_ft s') l) = f_ref (fget (sy_ft s) l)" if "l < NFILE" for l
    using files_okD(3) [OF c(2) that] files_okD(3) [OF ok that] c(3) by (simp add: fd_refs_def)
  with c pi show ?thesis by (simp add: pipe_undone_def)
qed

lemma sys_pipe_ok:
  assumes ok: "files_ok ext s" and p: "p < length (sy_ofile s)" and k: "sys_kinv en (sy_ft s)"
  shows "\<exists>r s'. sys_pipe en p fdarray s = Ok (r, s') \<and> files_ok ext s' \<and> sys_kinv en (sy_ft s') \<and>
    (r = -1 \<and> pipe_undone en s s' \<or> r = 0 \<and> pipe_made en p fdarray s s')"
proof -
  obtain r t where r: "pipealloc en (sy_ft s) = Ok (r, t)" and R: "case r of None \<Rightarrow> t = sy_ft s
    | Some (i, j) \<Rightarrow> i < NFILE \<and> j < NFILE \<and> ext i = 0 \<and> ext j = 0 \<and> f_ref (fget (sy_ft s) i) = 0 \<and> f_ref (fget (sy_ft s) j) = 0 \<and>
        files_ok (ext(i := 1, j := 1)) (s\<lparr>sy_ft := t\<rparr>) \<and> ft_fs t = ft_fs (sy_ft s) \<and> sys_kinv en t \<and>
        (\<forall>l < NFILE. l \<noteq> i \<and> l \<noteq> j \<longrightarrow> fget t l = fget (sy_ft s) l) \<and>
        (\<exists>pi. pipe_ends i j pi t \<and> pi \<in> good_pages (ke_end (en_k en)) \<and> krefs (ft_k (sy_ft s)) pi = 0 \<and>
           (\<forall>q \<in> good_pages (ke_end (en_k en)). krefs (ft_k t) q = (if q = pi then 1 else krefs (ft_k (sy_ft s)) q)))"
    using pipealloc_ok [OF ok k] by blast
  consider "MAXUVA \<le> fdarray \<or> r = None" | i j where "\<not> MAXUVA \<le> fdarray" "r = Some (i, j)" by (cases r) auto
  then show ?thesis
  proof cases
    case 1
    then have "sys_pipe en p fdarray s = Ok (-1, s)" using r R by (auto simp: sys_pipe_def on_ft_res_def)
    then show ?thesis using ok k by (simp add: pipe_undone_def)
  next
    case (2 i j)
    then obtain pi where P: "i < NFILE" "j < NFILE" "ext i = 0" "ext j = 0" "f_ref (fget (sy_ft s) i) = 0" "f_ref (fget (sy_ft s) j) = 0"
      "files_ok (ext(i := 1, j := 1)) (s\<lparr>sy_ft := t\<rparr>)" "ft_fs t = ft_fs (sy_ft s)" "sys_kinv en t" "pipe_ends i j pi t"
      "pi \<in> good_pages (ke_end (en_k en))" "krefs (ft_k (sy_ft s)) pi = 0"
      "\<forall>q \<in> good_pages (ke_end (en_k en)). krefs (ft_k t) q = (if q = pi then 1 else krefs (ft_k (sy_ft s)) q)"
      using R by auto
    have z: "pipealloc en (sy_ft s) = Ok (Some (i, j), t)" using r 2 by simp
    from sys_pipe_cases [OF z p files_okD(2) [OF ok p] 2(1)] show ?thesis
    proof (elim disjE exE conjE)
      fix w assume "sys_pipe en p fdarray s = close_two en i j (s\<lparr>sy_ft := t\<lparr>ft_w := w\<rparr>\<rparr>)"
      with sys_pipe_undo [OF ok P(1-4) P(7) P(9) P(8) P(10-13), of w] show ?thesis by auto
    next
      fix fd0 fd1 w assume f: "pipe_fds en i fdarray (sy_ofile s ! p) j fd0 fd1 (ft_w t) w"
        and run: "sys_pipe en p fdarray s = Ok (0, set_fd p fd1 (Some j) (set_fd p fd0 (Some i) (s\<lparr>sy_ft := t\<lparr>ft_w := w\<rparr>\<rparr>)))"
      let ?s = "set_fd p fd1 (Some j) (set_fd p fd0 (Some i) (s\<lparr>sy_ft := t\<lparr>ft_w := w\<rparr>\<rparr>))"
      have ne: "i \<noteq> j" using P(10) by (simp add: pipe_ends_def)
      have "files_ok ext ?s" by (rule pipe_fds_ok) (use P(1-4,7) p f ne in \<open>auto simp: files_ok_w\<close>)
      moreover have "pipe_made en p fdarray s ?s"
        unfolding pipe_made_def by (intro exI [of _ i] exI [of _ j] exI [of _ pi] exI [of _ fd0] exI [of _ fd1])
          (use P f p pipealloc_w [OF z] in \<open>simp add: pipe_ends_w set_fd_def pipe_fds_def\<close>)
      ultimately show ?thesis using run P(9) by (simp add: set_fd_def)
    qed
  qed
qed

section \<open>A state for the witnesses\<close>

text \<open>Two free frames, and a volume with one file of five bytes: descriptor 0 of process 0 may write it, descriptor 1 read it.\<close>

definition demo_kfile :: "bool \<Rightarrow> bool \<Rightarrow> kfile" where
  "demo_kfile rd wr = \<lparr>f_type = FD_ENTRY, f_ref = 1, f_readable = rd, f_writable = wr, f_pipe = 0, f_ep = Ent 0, f_off = 3,
     f_major = 0, f_minor = 0, f_ops = None, f_private_data = 0\<rparr>"

definition no_kfile :: kfile where
  "no_kfile = (demo_kfile False False)\<lparr>f_type := FD_NONE, f_ref := 0\<rparr>"

definition demo_env :: "bytemem env" where
  "demo_env = \<lparr>en_k = \<lparr>ke_end = 0x805FE000, ke_hart = 0, ke_etext = 0x80030000, ke_trampoline = 0x80030000, ke_sigtramp = 0x80031000\<rparr>,
     en_io = kuio, en_kio = kuio, en_ops = (\<lambda>_. \<lparr>op_open = None, op_close = None, op_read = None, op_write = None, op_ioctl = None\<rparr>)\<rparr>"

definition demo_sys :: "bytemem sys" where
  "demo_sys = \<lparr>sy_ft = \<lparr>ft_file = [demo_kfile False True, demo_kfile True False] @ replicate 98 no_kfile,
       ft_fs = \<lparr>fs_fat = demo_fat, fs_blk = demo_blk, fs_root = zero_dirent, fs_entries = [demo_entry\<lparr>e_ref := 2, e_locked := False\<rparr>], fs_lru = [0]\<rparr>,
       ft_pipe = (\<lambda>a. pipe_init []), ft_k = kmem_two, ft_dev = replicate 10 \<lparr>d_name = None, d_ops = None\<rparr>, ft_log = [], ft_w = (\<lambda>a. ucast a)\<rparr>,
     sy_ofile = [[Some 0, Some 1] @ replicate 14 None], sy_cwd = [Root]\<rparr>"

lemma demo_drivers: "drivers_ok demo_env"
  by (simp add: drivers_ok_def demo_env_def)

lemma demo_files_ok: "files_ok (\<lambda>_. 0) demo_sys"
proof -
  have r: "fd_refs demo_sys i = (if i < 2 then 1 else 0)" for i
    by (auto simp: fd_refs_def demo_sys_def numeral_eq_Suc less_Suc_eq)
  have f: "fget (sy_ft demo_sys) i = (if i = 0 then demo_kfile False True else if i = 1 then demo_kfile True False else no_kfile)" if "i < NFILE" for i
    using that by (simp add: demo_sys_def nth_Cons' nth_append)
  have l: "length (ft_file (sy_ft demo_sys)) = NFILE" "set (sy_ofile demo_sys) = {[Some 0, Some 1] @ replicate 14 None}"
    by (simp_all add: demo_sys_def)
  have "f_ref (fget (sy_ft demo_sys) i) = int (fd_refs demo_sys i + 0)" "f_ref (fget (sy_ft demo_sys) i) = 0 \<longrightarrow> f_type (fget (sy_ft demo_sys) i) = FD_NONE" if "i < NFILE" for i
    using r [of i] f [OF that] by (auto simp: demo_kfile_def no_kfile_def)
  then show ?thesis unfolding files_ok_def l by auto
qed

lemma demo_kinv: "sys_kinv demo_env (sy_ft demo_sys)"
  using kmem_two_inv by (simp add: demo_env_def demo_sys_def)

section \<open>Properties\<close>



end
