(* ===== verification/SysIo.thy ===== *)
theory SysIo
  imports SysFile
begin

text \<open>
  What \<^verbatim>\<open>read\<close> and \<^verbatim>\<open>write\<close> do to a regular file, from the descriptor of the caller down to the clusters: the composition of
  \<open>SysFile\<close>, \<open>FileTable\<close>, \<open>FatDir\<close> and \<open>FatFile\<close>. An open file behaves like a byte string with a position.
\<close>

section \<open>What a write keeps of an entry\<close>

definition same_meta :: "dirent \<Rightarrow> dirent \<Rightarrow> bool" where
  "same_meta e e' \<longleftrightarrow> e_ref e' = e_ref e \<and> e_locked e' = e_locked e \<and> e_attribute e' = e_attribute e"

lemma reloc_fwd_meta: "res_all (\<lambda>(b, e', s'). same_meta e e') (reloc_fwd f s e n alloc)"
proof (induction f s e n alloc rule: reloc_fwd.induct)
  case (1 f s e n alloc)
  show ?case
  proof (cases "e_clus_cnt e < n \<and> sint FAT32_EOC \<le> sint (read_fat f s (e_cur_clus e)) \<and> alloc")
    case True
    then show ?thesis using 1(1) [OF _ refl]
      by (cases "alloc_clus f s") (auto simp: reloc_fwd.simps [of f s e] Let_def same_meta_def split_def)
  next
    case False
    then show ?thesis using 1(2) [OF _ refl] by (auto simp: reloc_fwd.simps [of f s e] Let_def same_meta_def split_def)
  qed
qed

lemma reloc_back_meta: "res_all (same_meta e) (reloc_back f s e n)"
proof (induction f s e n rule: reloc_back.induct)
  case (1 f s e n)
  then show ?case by (auto simp: reloc_back.simps [of f s e] Let_def same_meta_def [abs_def])
qed

lemma same_meta_trans: "same_meta e e1 \<Longrightarrow> same_meta e1 e2 \<Longrightarrow> same_meta e e2"
  by (simp add: same_meta_def)

lemma reloc_clus_meta: "res_all (\<lambda>(r, e', s'). same_meta e e') (reloc_clus f s e off alloc)"
proof -
  have "res_all (same_meta e) (reloc_back f s1 (e1\<lparr>e_cur_clus := c, e_clus_cnt := 0\<rparr>) n)" if "same_meta e e1" for e1 s1 c n
    by (rule res_all_mono [OF reloc_back_meta]) (use that in \<open>simp add: same_meta_def\<close>)
  then show ?thesis unfolding reloc_clus_def Let_def
    by (simp add: split_def) (rule res_all_mono [OF reloc_fwd_meta], auto simp: split_def)
qed

lemma ewrite_loop_meta: "res_all (\<lambda>(tot, off, e', s', m'). same_meta e e') (ewrite_loop k io f s m e src off n tot)"
proof (induction k arbitrary: s m e src off tot)
  case (Suc k)
  show ?case
  proof (cases "reloc_clus f s e off True")
    case (Ok z)
    obtain r e1 s1 where z: "z = (r, e1, s1)" by (cases z)
    have e1: "same_meta e e1" using reloc_clus_meta [of e f s off True] Ok z by simp
    have "res_all (\<lambda>(tot, off, e', s', m'). same_meta e e') (ewrite_loop k io f s2 m2 e1 src1 off1 n tot1)" for s2 m2 src1 off1 tot1
      by (rule res_all_mono [OF Suc.IH]) (use e1 in \<open>auto simp: split_def intro: same_meta_trans\<close>)
    moreover have "same_meta e e" by (simp add: same_meta_def)
    moreover have "res_all Q (rw_clus io f s1 m c True src x y)" if "\<And>z. Q z" for Q c x y
      using that by (cases "rw_clus io f s1 m c True src x y") auto
    ultimately show ?thesis using Ok z e1 by (auto simp: Let_def split_def cong: if_cong)
  next
    case (Panic m)
    then show ?thesis by (simp add: same_meta_def)
  qed
qed simp

lemma ewrite_meta:
  assumes "ewrite io f s m e src off n = Ok (r, e', s', m')"
  shows "same_meta e e'"
proof (cases "e_file_size e < off \<or> off + n < off \<or> 0xffffffff < (ucast off :: u64) + ucast n \<or> e_attribute e AND ATTR_READ_ONLY \<noteq> 0")
  case True
  then show ?thesis using assms by (auto simp: ewrite_def same_meta_def)
next
  case False
  define first where "first = (if e_first_clus e = 0
      then rmap (\<lambda>(c, s1). (e\<lparr>e_cur_clus := c, e_first_clus := c, e_clus_cnt := 0, e_dirty := True\<rparr>, s1)) (alloc_clus f s) else Ok (e, s))"
  have run: "ewrite io f s m e src off n = rbind first (\<lambda>(e1, s1).
      rmap (\<lambda>(tot, off1, e2, s2, m2). (sint tot, if 0 < n \<and> e_file_size e2 < off1 then e2\<lparr>e_file_size := off1, e_dirty := True\<rparr> else e2, s2, m2))
        (ewrite_loop (Suc (unat n)) io f s1 m e1 src off n 0))"
    using False unfolding ewrite_def first_def by (simp only: if_False)
  obtain e1 s1 where f1: "first = Ok (e1, s1)" using assms run by (cases first) auto
  then have e1: "same_meta e e1" by (auto simp: first_def same_meta_def res_simps split: if_splits)
  obtain tot off1 e2 s2 m2 where l: "ewrite_loop (Suc (unat n)) io f s1 m e1 src off n 0 = Ok (tot, off1, e2, s2, m2)"
    using assms unfolding run f1 by (cases "ewrite_loop (Suc (unat n)) io f s1 m e1 src off n 0") auto
  have "e' = (if 0 < n \<and> e_file_size e2 < off1 then e2\<lparr>e_file_size := off1, e_dirty := True\<rparr> else e2)"
    using assms unfolding run f1 by (simp del: ewrite_loop.simps add: l)
  moreover have "same_meta e1 e2" using res_allD [OF ewrite_loop_meta l] by simp
  ultimately show ?thesis using e1 by (auto simp: same_meta_def)
qed

section \<open>An open file is a byte string with a position\<close>

text \<open>
  File \<open>i\<close> of the table is an entry on chain \<open>cs\<close> with contents \<open>C\<close> that nobody has locked. An empty file has no chain.
\<close>

definition chain_of :: "fat \<Rightarrow> blk \<Rightarrow> dirent \<Rightarrow> u32 list \<Rightarrow> bool" where
  "chain_of f b e cs \<longleftrightarrow> entry_ok f b e cs \<or> cs = [] \<and> e_first_clus e = 0 \<and> e_file_size e = 0"

definition file_at :: "'w ftable \<Rightarrow> nat \<Rightarrow> u32 list \<Rightarrow> bytes \<Rightarrow> bool" where
  "file_at t i cs C \<longleftrightarrow>
     (let fs = ft_fs t; p = f_ep (fget t i); e = ent fs p
      in i < length (ft_file t) \<and> f_type (fget t i) = FD_ENTRY \<and> ptr_ok fs p \<and> 1 \<le> e_ref e \<and> \<not> e_locked e \<and>
         e_attribute e AND ATTR_DIRECTORY = 0 \<and> fat_wf (fs_fat fs) \<and> blk_wf (fs_blk fs) \<and> chain_of (fs_fat fs) (fs_blk fs) e cs \<and>
         C = take (unat (e_file_size e)) (file_bytes (fs_fat fs) (fs_blk fs) cs))"

lemma entry_ok_lock [simp]: "entry_ok f s (e\<lparr>e_locked := b\<rparr>) cs = entry_ok f s e cs"
  by (simp add: entry_ok_def)

lemma chain_of_lock [simp]: "chain_of f s (e\<lparr>e_locked := b\<rparr>) cs = chain_of f s e cs"
  by (simp add: chain_of_def)

lemma file_at_length:
  assumes "file_at t i cs C"
  shows "length C = unat (e_file_size (ent (ft_fs t) (f_ep (fget t i))))"
proof -
  have "unat (e_file_size (ent (ft_fs t) (f_ep (fget t i)))) \<le> length (file_bytes (fs_fat (ft_fs t)) (fs_blk (ft_fs t)) cs)"
    using assms by (auto simp: file_at_def Let_def chain_of_def entry_ok_def chain_ok_def length_file_bytes)
  then show ?thesis using assms by (simp add: file_at_def Let_def)
qed

text \<open>Locking, changing the entry under the lock, and unlocking.\<close>

lemma with_lock:
  assumes p: "ptr_ok fs p" "1 \<le> e_ref (ent fs p)" "\<not> e_locked (ent fs p)"
  shows "elock fs p = Ok (upd_ent fs p (\<lambda>_. (ent fs p)\<lparr>e_locked := True\<rparr>))"
    and "same_meta ((ent fs p)\<lparr>e_locked := True\<rparr>) e' \<Longrightarrow>
      eunlock ((upd_ent fs p (\<lambda>_. e'))\<lparr>fs_blk := b\<rparr>) p = Ok ((upd_ent fs p (\<lambda>_. e'\<lparr>e_locked := False\<rparr>))\<lparr>fs_blk := b\<rparr>)"
proof -
  show "elock fs p = Ok (upd_ent fs p (\<lambda>_. (ent fs p)\<lparr>e_locked := True\<rparr>))"
    using p upd_ent_const [of fs p "\<lambda>e. e\<lparr>e_locked := True\<rparr>"] by (simp add: elock_def acquiresleep_ent_def)
  assume "same_meta ((ent fs p)\<lparr>e_locked := True\<rparr>) e'"
  then show "eunlock ((upd_ent fs p (\<lambda>_. e'))\<lparr>fs_blk := b\<rparr>) p = Ok ((upd_ent fs p (\<lambda>_. e'\<lparr>e_locked := False\<rparr>))\<lparr>fs_blk := b\<rparr>)"
    using p upd_ent_const [of "upd_ent fs p (\<lambda>_. e')" p "\<lambda>e. e\<lparr>e_locked := False\<rparr>"]
    by (simp add: eunlock_def releasesleep_ent_def same_meta_def)
qed

text \<open>The state after an operation on an entry: entry and disk are new, the position has moved, nobody holds the lock.\<close>

definition io_done :: "'w ftable \<Rightarrow> nat \<Rightarrow> dirent \<Rightarrow> blk \<Rightarrow> 'w \<Rightarrow> u32 \<Rightarrow> 'w ftable" where
  "io_done t i e' b w off =
     (fset i (\<lambda>f. f\<lparr>f_off := off\<rparr>) t)\<lparr>ft_fs := (upd_ent (ft_fs t) (f_ep (fget t i)) (\<lambda>_. e'\<lparr>e_locked := False\<rparr>))\<lparr>fs_blk := b\<rparr>, ft_w := w\<rparr>"

lemma io_done_simps [simp]:
  "length (ft_file (io_done t i e' b w off)) = length (ft_file t)" "ft_w (io_done t i e' b w off) = w"
  "f_ep (fget (io_done t i e' b w off) j) = f_ep (fget t j)" "f_type (fget (io_done t i e' b w off) j) = f_type (fget t j)"
  "f_readable (fget (io_done t i e' b w off) j) = f_readable (fget t j)" "f_writable (fget (io_done t i e' b w off) j) = f_writable (fget t j)"
  "i < length (ft_file t) \<Longrightarrow> f_off (fget (io_done t i e' b w off) j) = (if j = i then off else f_off (fget t j))"
  "ft_fs (io_done t i e' b w off) = (upd_ent (ft_fs t) (f_ep (fget t i)) (\<lambda>_. e'\<lparr>e_locked := False\<rparr>))\<lparr>fs_blk := b\<rparr>"
  by (cases "i < length (ft_file t)"; cases "j = i"; simp add: io_done_def fset_def list_update_beyond)+

lemma file_at_done:
  assumes "file_at t i cs C" and "j < length (ft_file t)" "f_ep (fget t j) = f_ep (fget t i)" "f_type (fget t j) = FD_ENTRY"
    and "same_meta ((ent (ft_fs t) (f_ep (fget t i)))\<lparr>e_locked := True\<rparr>) e'" and "blk_wf b" "chain_of (fs_fat (ft_fs t)) b e' cs'"
    and "C' = take (unat (e_file_size e')) (file_bytes (fs_fat (ft_fs t)) b cs')"
  shows "file_at (io_done t i e' b w off) j cs' C'"
proof -
  have p: "ptr_ok (ft_fs t) (f_ep (fget t i))" "1 \<le> e_ref (ent (ft_fs t) (f_ep (fget t i)))" "fat_wf (fs_fat (ft_fs t))"
    "e_attribute (ent (ft_fs t) (f_ep (fget t i))) AND ATTR_DIRECTORY = 0"
    using assms(1) by (simp_all add: file_at_def Let_def)
  have m: "e_ref e' = e_ref (ent (ft_fs t) (f_ep (fget t i)))" "e_attribute e' = e_attribute (ent (ft_fs t) (f_ep (fget t i)))"
    using assms(5) by (simp_all add: same_meta_def)
  show ?thesis unfolding file_at_def Let_def io_done_simps assms(3) using p m assms(2,4,6-8) by simp
qed

lemma eread_any:
  assumes "byte_copy io rd wr" and "fat_wf f" "blk_wf s" and e: "chain_of f s e cs" and "e_attribute e AND ATTR_DIRECTORY = 0"
    and "unat off \<le> unat (e_file_size e)" "unat off + unat n < 2 ^ 32"
  shows "\<exists>e'. eread io f s m e dst off n =
      Ok (of_nat (min (unat n) (unat (e_file_size e) - unat off)), e', s, wr m dst (take (unat n) (drop (unat off) (take (unat (e_file_size e)) (file_bytes f s cs))))) \<and>
    chain_of f s e' cs \<and> moved e e'"
proof (cases "entry_ok f s e cs")
  case True
  from byte_copy.eread_ok [OF assms(1-3) True assms(5-7)] show ?thesis unfolding chain_of_def by blast
next
  case False
  with e have z: "cs = []" "e_first_clus e = 0" "e_file_size e = 0" by (auto simp: chain_of_def)
  have off: "off = 0" using assms(6) unfolding z(3) by (simp add: unat_eq_0)
  have "wr m dst [] = m" using byte_copy.wr_Nil [OF assms(1)] .
  moreover have "eread io f s m e dst off n = Ok (0, e, s, m)"
    using z(3) off assms(5) by (cases "n = 0") (simp_all add: eread_def Let_def word_gt_0)
  ultimately show ?thesis using e by (intro exI [of _ e]) (simp add: z(3))
qed

lemma kfile_off_same [simp]: "f\<lparr>f_off := f_off f\<rparr> = f"
  by (cases f) simp

lemma sint_small_int: "0 \<le> n \<Longrightarrow> n < 2 ^ 31 \<Longrightarrow> unat (word_of_int n :: u32) = nat n"
  by (simp add: unat_eq_nat_uint uint_word_of_int)

lemma fileread_entry:
  assumes io: "byte_copy (en_io en) rd wr" and at: "file_at t i cs C" and rd: "f_readable (fget t i)"
    and n: "0 \<le> n" "n < 2 ^ 31" and off: "unat (f_off (fget t i)) \<le> length C" "unat (f_off (fget t i)) + nat n < 2 ^ 32"
  defines "k \<equiv> min (nat n) (length C - unat (f_off (fget t i)))"
  shows "\<exists>e'. fileread en i addr n t = Ok (Io (int k),
      io_done t i e' (fs_blk (ft_fs t)) (wr (ft_w t) addr (take (nat n) (drop (unat (f_off (fget t i))) C))) (f_off (fget t i) + of_nat k)) \<and>
    moved ((ent (ft_fs t) (f_ep (fget t i)))\<lparr>e_locked := True\<rparr>) e' \<and> chain_of (fs_fat (ft_fs t)) (fs_blk (ft_fs t)) e' cs"
proof -
  let ?fs = "ft_fs t" and ?p = "f_ep (fget t i)"
  let ?e = "(ent ?fs ?p)\<lparr>e_locked := True\<rparr>"
  have a: "i < length (ft_file t)" "f_type (fget t i) = FD_ENTRY" "ptr_ok ?fs ?p" "1 \<le> e_ref (ent ?fs ?p)" "\<not> e_locked (ent ?fs ?p)"
    "e_attribute (ent ?fs ?p) AND ATTR_DIRECTORY = 0" "fat_wf (fs_fat ?fs)" "blk_wf (fs_blk ?fs)" "chain_of (fs_fat ?fs) (fs_blk ?fs) (ent ?fs ?p) cs"
    "C = take (unat (e_file_size (ent ?fs ?p))) (file_bytes (fs_fat ?fs) (fs_blk ?fs) cs)"
    using at by (simp_all add: file_at_def Let_def)
  have un: "unat (word_of_int n :: u32) = nat n" using n by (rule sint_small_int)
  have len: "length C = unat (e_file_size (ent ?fs ?p))" by (rule file_at_length [OF at])
  obtain e' where e': "eread (en_io en) (fs_fat ?fs) (fs_blk ?fs) (ft_w t) ?e addr (f_off (fget t i)) (word_of_int n) =
      Ok (of_nat k, e', fs_blk ?fs, wr (ft_w t) addr (take (nat n) (drop (unat (f_off (fget t i))) C)))"
    "chain_of (fs_fat ?fs) (fs_blk ?fs) e' cs" "moved ?e e'"
    using eread_any [OF io a(7,8), of ?e cs "f_off (fget t i)" "word_of_int n" "ft_w t" addr] a(6,9,10) off un len by (auto simp: k_def)
  have k: "sint (of_nat k :: u32) = int k"
  proof -
    have "k < 2 ^ 31" using n by (simp add: k_def)
    then show ?thesis using sint_small [of "of_nat k"] by (simp add: unat_of_nat)
  qed
  have m: "same_meta ?e e'" using e'(3) by (auto simp: moved_def same_meta_def)
  have adv: "(if 0 < int k then fset i (\<lambda>f. f\<lparr>f_off := f_off f + word_of_int (int k)\<rparr>) u else u) = fset i (\<lambda>f. f\<lparr>f_off := f_off f + of_nat k\<rparr>) u" for u :: "'a ftable"
    by (cases "k = 0") (simp_all add: fset_def)
  have "fileread en i addr n t = Ok (Io (int k), io_done t i e' (fs_blk ?fs) (wr (ft_w t) addr (take (nat n) (drop (unat (f_off (fget t i))) C))) (f_off (fget t i) + of_nat k))"
    using a(1,2) rd with_lock(1) [OF a(3,4,5)] with_lock(2) [OF a(3,4,5) m, of "fs_blk ?fs"] a(3) e'(1) k
    by (simp del: of_nat_0_less_iff add: fileread_def Let_def with_fs_def eread_ent_def io_done_def adv) (simp add: fset_def)
  with e'(2,3) show ?thesis by blast
qed

text \<open>What a write of \<open>n\<close> bytes at the position needs of the volume.\<close>

definition write_room :: "'w ftable \<Rightarrow> nat \<Rightarrow> u32 list \<Rightarrow> nat \<Rightarrow> bool" where
  "write_room t i cs n \<longleftrightarrow>
     fat_reserved (fs_fat (ft_fs t)) (fs_blk (ft_fs t)) \<and> e_attribute (ent (ft_fs t) (f_ep (fget t i))) AND ATTR_READ_ONLY = 0 \<and>
     unat (f_off (fget t i)) + n < 2 ^ 32 \<and>
     unat (f_off (fget t i)) + n \<le> (length cs + nfree (fs_fat (ft_fs t)) (fs_blk (ft_fs t))) * unat (byts_per_clus (fs_fat (ft_fs t)))"

definition splice_at :: "bytes \<Rightarrow> nat \<Rightarrow> bytes \<Rightarrow> bytes" where
  "splice_at C off bs = take off C @ bs @ drop (off + length bs) C"

lemma filewrite_entry:
  assumes io: "byte_copy (en_io en) rd wr" and at: "file_at t i cs C" and w: "f_writable (fget t i)" and room: "write_room t i cs (nat n)"
    and n: "0 < n" "n < 2 ^ 31" and off: "unat (f_off (fget t i)) \<le> length C"
  shows "\<exists>e' b x. filewrite en i addr n t = Ok (Io n, io_done t i e' b (ft_w t) (f_off (fget t i) + word_of_int n)) \<and>
    same_meta ((ent (ft_fs t) (f_ep (fget t i)))\<lparr>e_locked := True\<rparr>) e' \<and> chain_of (fs_fat (ft_fs t)) b e' (cs @ x) \<and>
    keeps (fs_fat (ft_fs t)) cs (fs_blk (ft_fs t)) (cs @ x) b \<and>
    take (unat (e_file_size e')) (file_bytes (fs_fat (ft_fs t)) b (cs @ x)) = splice_at C (unat (f_off (fget t i))) (rd (ft_w t) addr (nat n))"
proof -
  let ?fs = "ft_fs t" and ?p = "f_ep (fget t i)" and ?o = "f_off (fget t i)"
  let ?e = "(ent ?fs ?p)\<lparr>e_locked := True\<rparr>"
  have a: "i < length (ft_file t)" "f_type (fget t i) = FD_ENTRY" "ptr_ok ?fs ?p" "1 \<le> e_ref (ent ?fs ?p)" "\<not> e_locked (ent ?fs ?p)"
    "fat_wf (fs_fat ?fs)" "blk_wf (fs_blk ?fs)" "chain_of (fs_fat ?fs) (fs_blk ?fs) ?e cs"
    "C = take (unat (e_file_size ?e)) (file_bytes (fs_fat ?fs) (fs_blk ?fs) cs)"
    using at by (simp_all add: file_at_def Let_def)
  have un: "unat (word_of_int n :: u32) = nat n" using n by (intro sint_small_int) simp_all
  have len: "unat ?o \<le> unat (e_file_size ?e)" using file_at_length [OF at] off by simp
  have r: "fat_reserved (fs_fat ?fs) (fs_blk ?fs)" "e_attribute ?e AND ATTR_READ_ONLY = 0" "0 < unat (word_of_int n :: u32)" "unat (word_of_int n :: u32) < 2 ^ 31"
    "unat ?o + unat (word_of_int n :: u32) < 2 ^ 32"
    "unat ?o + unat (word_of_int n :: u32) \<le> (length cs + nfree (fs_fat ?fs) (fs_blk ?fs)) * unat (byts_per_clus (fs_fat ?fs))"
    using room n un by (simp_all add: write_room_def)
  have rl: "length (rd (ft_w t) addr (nat n)) = nat n" by (rule byte_copy.rd_length [OF io])
  from byte_copy.ewrite_ok [OF io a(6,7) a(8) [unfolded chain_of_def] r(1,2,3,4) len r(5,6), of "ft_w t" addr]
  obtain e' b x where e': "ewrite (en_io en) (fs_fat ?fs) (fs_blk ?fs) (ft_w t) ?e addr ?o (word_of_int n) = Ok (n, e', b, ft_w t)"
    "entry_ok (fs_fat ?fs) b e' (cs @ x)" "keeps (fs_fat ?fs) cs (fs_blk ?fs) (cs @ x) b"
    "take (unat (e_file_size e')) (file_bytes (fs_fat ?fs) b (cs @ x)) = splice_at C (unat ?o) (rd (ft_w t) addr (nat n))"
    using n un unfolding a(9) splice_at_def rl by auto
  have m: "same_meta ?e e'" by (rule ewrite_meta [OF e'(1)])
  have "filewrite_loop en i addr 0 n t = Ok (n, io_done t i e' b (ft_w t) (?o + word_of_int n))"
    using a(1,3) n(1) with_lock(1) [OF a(3,4,5)] with_lock(2) [OF a(3,4,5) m] e'(1)
    by (subst filewrite_loop.simps) (simp add: Let_def with_fs_def ewrite_ent_def filewrite_loop.simps [of _ _ _ n n] io_done_def fset_def)
  then have "filewrite en i addr n t = Ok (Io n, io_done t i e' b (ft_w t) (?o + word_of_int n))"
    using w a(2) by (simp add: filewrite_def)
  with m e'(2-4) show ?thesis unfolding chain_of_def by blast
qed

lemma splice_at_parts:
  assumes "off \<le> length C"
  shows "take (length bs) (drop off (splice_at C off bs)) = bs" "off + length bs \<le> length (splice_at C off bs)"
  using assms by (simp_all add: splice_at_def min_def)

lemma unat_advance: "unat (x :: u32) + k < 2 ^ 32 \<Longrightarrow> unat (x + of_nat k) = unat x + k"
  by (simp add: unat_word_ariths unat_of_nat)

lemma moved_same_meta: "moved e e' \<Longrightarrow> same_meta e e' \<and> e_file_size e' = e_file_size e"
  by (auto simp: moved_def same_meta_def)

text \<open>The two calls in terms of contents and position.\<close>

lemma read_file:
  assumes io: "byte_copy (en_io en) rd wr" and at: "file_at t i cs C" and rd: "f_readable (fget t i)"
    and n: "0 \<le> n" "n < 2 ^ 31" and off: "unat (f_off (fget t i)) \<le> length C" "unat (f_off (fget t i)) + nat n < 2 ^ 32"
  defines "k \<equiv> min (nat n) (length C - unat (f_off (fget t i)))"
  shows "\<exists>t'. fileread en i addr n t = Ok (Io (int k), t') \<and> file_at t' i cs C \<and> unat (f_off (fget t' i)) = unat (f_off (fget t i)) + k \<and>
    ft_w t' = wr (ft_w t) addr (take (nat n) (drop (unat (f_off (fget t i))) C)) \<and> fs_blk (ft_fs t') = fs_blk (ft_fs t)"
proof -
  let ?w = "wr (ft_w t) addr (take (nat n) (drop (unat (f_off (fget t i))) C))"
  obtain e' where e': "fileread en i addr n t = Ok (Io (int k), io_done t i e' (fs_blk (ft_fs t)) ?w (f_off (fget t i) + of_nat k))"
    "moved ((ent (ft_fs t) (f_ep (fget t i)))\<lparr>e_locked := True\<rparr>) e'" "chain_of (fs_fat (ft_fs t)) (fs_blk (ft_fs t)) e' cs"
    using fileread_entry [OF io at rd n off, of addr] unfolding k_def by blast
  have at': "i < length (ft_file t)" "f_type (fget t i) = FD_ENTRY" "blk_wf (fs_blk (ft_fs t))"
    "C = take (unat (e_file_size (ent (ft_fs t) (f_ep (fget t i))))) (file_bytes (fs_fat (ft_fs t)) (fs_blk (ft_fs t)) cs)"
    using at by (simp_all add: file_at_def Let_def)
  have "k \<le> nat n" by (simp add: k_def)
  then have o: "unat (f_off (fget t i) + of_nat k) = unat (f_off (fget t i)) + k" using off(2) by (intro unat_advance) simp
  have "file_at (io_done t i e' (fs_blk (ft_fs t)) ?w (f_off (fget t i) + of_nat k)) i cs C"
    by (rule file_at_done [OF at at'(1) refl at'(2) _ at'(3) e'(3)]) (use moved_same_meta [OF e'(2)] at'(4) in auto)
  with e'(1) at'(1) o show ?thesis by simp
qed

lemma write_file:
  assumes io: "byte_copy (en_io en) rd wr" and at: "file_at t i cs C" and w: "f_writable (fget t i)" and room: "write_room t i cs (nat n)"
    and n: "0 < n" "n < 2 ^ 31" and off: "unat (f_off (fget t i)) \<le> length C"
  shows "\<exists>t' x. filewrite en i addr n t = Ok (Io n, t') \<and> ft_w t' = ft_w t \<and> length (ft_file t') = length (ft_file t) \<and>
    unat (f_off (fget t' i)) = unat (f_off (fget t i)) + nat n \<and>
    (\<forall>j. f_readable (fget t' j) = f_readable (fget t j) \<and> (j \<noteq> i \<longrightarrow> f_off (fget t' j) = f_off (fget t j))) \<and>
    (\<forall>j < length (ft_file t). f_type (fget t j) = FD_ENTRY \<and> f_ep (fget t j) = f_ep (fget t i) \<longrightarrow>
       file_at t' j (cs @ x) (splice_at C (unat (f_off (fget t i))) (rd (ft_w t) addr (nat n)))) \<and>
    keeps (fs_fat (ft_fs t)) cs (fs_blk (ft_fs t)) (cs @ x) (fs_blk (ft_fs t'))"
proof -
  obtain e' b x where e': "filewrite en i addr n t = Ok (Io n, io_done t i e' b (ft_w t) (f_off (fget t i) + word_of_int n))"
    "same_meta ((ent (ft_fs t) (f_ep (fget t i)))\<lparr>e_locked := True\<rparr>) e'" "chain_of (fs_fat (ft_fs t)) b e' (cs @ x)"
    "keeps (fs_fat (ft_fs t)) cs (fs_blk (ft_fs t)) (cs @ x) b"
    "take (unat (e_file_size e')) (file_bytes (fs_fat (ft_fs t)) b (cs @ x)) = splice_at C (unat (f_off (fget t i))) (rd (ft_w t) addr (nat n))"
    using filewrite_entry [OF io at w room n off, of addr] by blast
  have i: "i < length (ft_file t)" using at by (simp add: file_at_def Let_def)
  have "unat (f_off (fget t i) + of_nat (nat n)) = unat (f_off (fget t i)) + nat n" using room by (intro unat_advance) (simp add: write_room_def)
  then have o: "unat (f_off (fget t i) + word_of_int n) = unat (f_off (fget t i)) + nat n" using n by simp
  have b: "blk_wf b" using e'(4) by (simp add: keeps_def)
  have "file_at (io_done t i e' b (ft_w t) (f_off (fget t i) + word_of_int n)) j (cs @ x) (splice_at C (unat (f_off (fget t i))) (rd (ft_w t) addr (nat n)))"
    if "j < length (ft_file t)" "f_type (fget t j) = FD_ENTRY" "f_ep (fget t j) = f_ep (fget t i)" for j
    by (rule file_at_done [OF at that(1,3,2) e'(2) b e'(3) e'(5) [symmetric]])
  with e'(1,4) i o show ?thesis by (intro exI [of _ "io_done t i e' b (ft_w t) (f_off (fget t i) + word_of_int n)"] exI [of _ x]) simp
qed

section \<open>The system calls\<close>

lemma demo_file_at: "file_at (sy_ft demo_sys) 0 [3] [0, 0, 0, 0, 0]" "file_at (sy_ft demo_sys) 1 [3] [0, 0, 0, 0, 0]"
proof -
  have e: "entry_ok demo_fat demo_blk (demo_entry\<lparr>e_ref := 2, e_locked := False\<rparr>) [3]" using demo_ok by (simp add: entry_ok_def)
  have "take 5 (file_bytes demo_fat demo_blk [3]) = [0, 0, 0, 0, 0]"
    by (simp add: file_bytes_def clus_bytes_def demo_fat_def demo_blk_def first_sec_of_clus_def sectors_def numeral_eq_Suc)
  then show "file_at (sy_ft demo_sys) 0 [3] [0, 0, 0, 0, 0]" "file_at (sy_ft demo_sys) 1 [3] [0, 0, 0, 0, 0]"
    using e demo_wf by (simp_all add: file_at_def Let_def demo_sys_def demo_kfile_def chain_of_def demo_entry_def ent.simps)
qed

lemma sys_rw_fd:
  assumes "argfd p fd s = Some i" and "addr < MAXUVA"
  shows "sys_read en p fd addr n s = rmap (\<lambda>(r, t). (r, s\<lparr>sy_ft := t\<rparr>)) (fileread en i addr n (sy_ft s))"
    and "sys_write en p fd addr n s = rmap (\<lambda>(r, t). (r, s\<lparr>sy_ft := t\<rparr>)) (filewrite en i addr n (sy_ft s))"
  using assms by (simp_all add: sys_read_def sys_write_def on_ft_res_def not_le [symmetric])




lemma demo_room: "write_room (sy_ft demo_sys) 0 [3] 600"
  using demo_reserved demo_free by (simp add: write_room_def demo_sys_def demo_kfile_def demo_fat_def demo_entry_def ent.simps)


text \<open>
  what one process writes another reads back. Two descriptors, of any two processes, open the same file at the same
  position but not through a shared open file. After a write through the first, a read of the same length through the
  second delivers exactly the bytes that the writer's buffer held, whatever the file contained before.
\<close>
theorem sys_write_read_back:
  assumes "byte_copy (en_io en) rd wr" and "argfd p fd s = Some i" and "argfd q fd' s = Some j" and "i \<noteq> j" and "src < MAXUVA" "dst < MAXUVA"
    and "file_at (sy_ft s) i cs C" and "file_at (sy_ft s) j cs C" "f_ep (fget (sy_ft s) j) = f_ep (fget (sy_ft s) i)"
    and "f_off (fget (sy_ft s) j) = f_off (fget (sy_ft s) i)" and "f_writable (fget (sy_ft s) i)" "f_readable (fget (sy_ft s) j)"
    and "0 < n" "n < 2 ^ 31" and "unat (f_off (fget (sy_ft s) i)) \<le> length C" and "write_room (sy_ft s) i cs (nat n)"
  shows "\<exists>s1 s2. sys_write en p fd src n s = Ok (Io n, s1) \<and> sys_read en q fd' dst n s1 = Ok (Io n, s2) \<and>
    ft_w (sy_ft s2) = wr (ft_w (sy_ft s)) dst (rd (ft_w (sy_ft s)) src (nat n))"
proof -
  let ?o = "unat (f_off (fget (sy_ft s) i))" and ?bs = "rd (ft_w (sy_ft s)) src (nat n)"
  obtain t' x where t: "filewrite en i src n (sy_ft s) = Ok (Io n, t')" "ft_w t' = ft_w (sy_ft s)"
    "\<forall>l. f_readable (fget t' l) = f_readable (fget (sy_ft s) l) \<and> (l \<noteq> i \<longrightarrow> f_off (fget t' l) = f_off (fget (sy_ft s) l))"
    "\<forall>l < length (ft_file (sy_ft s)). f_type (fget (sy_ft s) l) = FD_ENTRY \<and> f_ep (fget (sy_ft s) l) = f_ep (fget (sy_ft s) i) \<longrightarrow>
       file_at t' l (cs @ x) (splice_at C ?o ?bs)"
    using write_file [OF assms(1,7,11,16,13,14,15), of src] by blast
  have at: "file_at t' j (cs @ x) (splice_at C ?o ?bs)" 
  proof -
    have "j < length (ft_file (sy_ft s))" "f_type (fget (sy_ft s) j) = FD_ENTRY" using assms(8) by (simp_all add: file_at_def Let_def)
    with t(4) assms(9) show ?thesis by blast
  qed
  have len: "length ?bs = nat n" by (rule byte_copy.rd_length [OF assms(1)])
  have o: "f_off (fget t' j) = f_off (fget (sy_ft s) i)" "f_readable (fget t' j)" using t(3) assms(4,10,12) by auto
  note P = splice_at_parts [OF assms(15), of ?bs]
  have room: "?o + nat n < 2 ^ 32" using assms(16) by (simp add: write_room_def)
  have le: "?o \<le> length (splice_at C ?o ?bs)" using P(2) by simp
  obtain t2 where t2: "fileread en j dst n t' = Ok (Io (int (min (nat n) (length (splice_at C ?o ?bs) - ?o))), t2)"
    "ft_w t2 = wr (ft_w t') dst (take (nat n) (drop ?o (splice_at C ?o ?bs)))"
    using read_file [OF assms(1) at o(2), of n dst] assms(13,14) o(1) room le by auto
  have "int (min (nat n) (length (splice_at C ?o ?bs) - ?o)) = n" using P(2) len assms(13) by simp
  moreover have "take (nat n) (drop ?o (splice_at C ?o ?bs)) = ?bs" using P(1) len by simp
  moreover have "argfd q fd' (s\<lparr>sy_ft := t'\<rparr>) = Some j" using assms(3) by (simp add: argfd_def split: if_splits)
  ultimately show ?thesis using t(1,2) t2 by (simp add: sys_rw_fd(2) [OF assms(2,5)] sys_rw_fd(1) [OF _ assms(6)])
qed

theorem sys_write_read_back_witness:
  "\<exists>s1 s2. sys_write demo_env 0 0 0x1000 600 demo_sys = Ok (Io 600, s1) \<and> sys_read demo_env 0 1 0x2000 600 s1 = Ok (Io 600, s2) \<and>
     ft_w (sy_ft s2) = mem_put (\<lambda>a. ucast a) 0x2000 (mem_get (\<lambda>a. ucast a) 0x1000 600)"
proof -
  have io: "byte_copy (en_io demo_env) mem_get mem_put" using kmem.byte_copy_axioms by (simp add: demo_env_def)
  have s: "argfd 0 0 demo_sys = Some 0" "argfd 0 1 demo_sys = Some 1" "f_writable (fget (sy_ft demo_sys) 0)" "f_readable (fget (sy_ft demo_sys) 1)"
    "f_off (fget (sy_ft demo_sys) 0) = 3" "f_off (fget (sy_ft demo_sys) 1) = 3" "f_ep (fget (sy_ft demo_sys) 1) = f_ep (fget (sy_ft demo_sys) 0)"
    "ft_w (sy_ft demo_sys) = (\<lambda>a. ucast a)"
    by (simp_all add: demo_sys_def argfd_def demo_kfile_def)
  from sys_write_read_back [OF io s(1,2) _ _ _ demo_file_at s(7) _ s(3,4), of "0x1000" "0x2000" 600] demo_room show ?thesis by (simp add: s [unfolded One_nat_def])
qed

end
