(* ===== verification/SysCalls.thy ===== *)
theory SysCalls
  imports SysFile
begin

text \<open>
  The system calls on files as steps of a system of many processes: any interleaving of calls keeps the reference counts of open files
  equal to the number of descriptors, so that no call ever finds a stale descriptor.
\<close>

section \<open>Calls that leave references alone\<close>

definition same_refs :: "'w ftable \<Rightarrow> 'w ftable \<Rightarrow> bool" where
  "same_refs t t' \<longleftrightarrow> length (ft_file t') = length (ft_file t) \<and>
     (\<forall>i. f_ref (fget t' i) = f_ref (fget t i) \<and> f_type (fget t' i) = f_type (fget t i))"

lemma same_refs_refl [simp]: "same_refs t t"
  by (simp add: same_refs_def)

lemma same_refs_trans: "same_refs t t' \<Longrightarrow> same_refs t' t'' \<Longrightarrow> same_refs t t''"
  by (simp add: same_refs_def)

lemma same_refs_fields [simp]:
  "same_refs t (t'\<lparr>ft_fs := x1\<rparr>) = same_refs t t'" "same_refs t (t'\<lparr>ft_w := x2\<rparr>) = same_refs t t'" "same_refs t (t'\<lparr>ft_k := x3\<rparr>) = same_refs t t'"
  "same_refs t (t'\<lparr>ft_pipe := x4\<rparr>) = same_refs t t'" "same_refs t (t'\<lparr>ft_log := x5\<rparr>) = same_refs t t'"
  by (simp_all add: same_refs_def)

lemma same_refs_fs [simp]: "same_refs (t\<lparr>ft_fs := x\<rparr>) t' = same_refs t t'"
  by (simp add: same_refs_def)

lemma same_refs_fset [simp]:
  assumes "\<And>f. f_ref (g f) = f_ref f" "\<And>f. f_type (g f) = f_type f"
  shows "same_refs t (fset i g t') = same_refs t t'"
proof -
  have "f_ref (fget (fset i g t') j) = f_ref (fget t' j) \<and> f_type (fget (fset i g t') j) = f_type (fget t' j)" for j
    using assms by (cases "i < length (ft_file t')"; cases "j = i") (simp_all add: fset_def list_update_beyond)
  then show ?thesis by (simp add: same_refs_def)
qed

lemma dev_call_refs:
  assumes "driver_keeps (fget t i) (g (fget t i) (ft_w t))"
  shows "same_refs t (snd (dev_call g i t))"
proof -
  obtain r f w where e: "g (fget t i) (ft_w t) = (r, f, w)" by (cases "g (fget t i) (ft_w t)")
  then have k: "f_ref f = f_ref (fget t i)" "f_type f = f_type (fget t i)" using assms by (simp_all add: driver_keeps_def)
  have "f_ref (fget (fset i (\<lambda>_. f) t) j) = f_ref (fget t j) \<and> f_type (fget (fset i (\<lambda>_. f) t) j) = f_type (fget t j)" for j
    using k by (cases "i < length (ft_file t)"; cases "j = i") (simp_all add: fset_def list_update_beyond)
  then show ?thesis by (simp add: dev_call_def e same_refs_def)
qed

lemma dev_io_refs:
  assumes "\<And>h f w. g = Some h \<Longrightarrow> driver_keeps f (h f addr n w)"
  shows "same_refs t (snd (dev_io g i addr n t))"
  using assms dev_call_refs [of t i "\<lambda>f. the g f addr n"] by (cases g) (simp_all add: dev_io_def split_def Let_def)

lemma res_all_with_fs [simp]: "res_all P (with_fs r t) = res_all (\<lambda>fs. P (t\<lparr>ft_fs := fs\<rparr>)) r"
  by (simp add: with_fs_def)

lemma res_all_ent_io [simp]:
  "res_all (\<lambda>z. same_refs t (snd z)) (eread_ent io ep addr off n t') = res_all (\<lambda>z. same_refs t t') (eread_ent io ep addr off n t')"
  "res_all (\<lambda>z. same_refs t (snd z)) (ewrite_ent io ep addr off n t') = res_all (\<lambda>z. same_refs t t') (ewrite_ent io ep addr off n t')"
  by (simp_all add: eread_ent_def ewrite_ent_def split_def)

lemma fileread_refs:
  assumes "drivers_ok en"
  shows "res_all (\<lambda>z. same_refs t (snd z)) (fileread en i addr n t)"
proof (cases "f_type (fget t i)")
  case FD_DEVICE
  have "same_refs t (snd (dev_io (op_read (en_ops en ops)) i addr n t))" for ops
    by (rule dev_io_refs) (use assms in \<open>auto simp: drivers_ok_def\<close>)
  then show ?thesis by (simp add: fileread_def FD_DEVICE Let_def split: option.split)
next
  case FD_PIPE
  then show ?thesis by (simp add: fileread_def read_pipe_def Let_def split: pr_result.split)
qed (simp_all add: fileread_def Let_def split_def eread_ent_def if_distrib [of "same_refs t"] cong: if_cong)

lemma filewrite_loop_refs: "res_all (\<lambda>z. same_refs t (snd z)) (filewrite_loop en k addr i n t)"
proof (cases "i < n")
  case True
  have stop: "filewrite_loop en k addr n n u = Ok (n, u)" for u by (simp add: filewrite_loop.simps)
  show ?thesis using True
    by (simp add: filewrite_loop.simps [of en k addr i n t] Let_def split_def ewrite_ent_def stop if_distrib [of "same_refs t"] cong: if_cong)
next
  case False
  then show ?thesis by (simp add: filewrite_loop.simps)
qed

lemma filewrite_refs:
  assumes "drivers_ok en"
  shows "res_all (\<lambda>z. same_refs t (snd z)) (filewrite en i addr n t)"
proof (cases "f_type (fget t i)")
  case FD_DEVICE
  have "same_refs t (snd (dev_io (op_write (en_ops en ops)) i addr n t))" for ops
    by (rule dev_io_refs) (use assms in \<open>auto simp: drivers_ok_def\<close>)
  then show ?thesis by (simp add: filewrite_def FD_DEVICE Let_def split: option.split)
next
  case FD_PIPE
  then show ?thesis by (simp add: filewrite_def write_pipe_def Let_def split: pw_result.split)
next
  case FD_ENTRY
  then show ?thesis using filewrite_loop_refs [of t en i addr 0 n] by (simp add: filewrite_def Let_def split_def)
qed (simp add: filewrite_def Let_def)

lemma fileioctl_refs:
  assumes "drivers_ok en"
  shows "same_refs t (snd (fileioctl en i cmd arg t))"
proof -
  have "same_refs t (snd (dev_call (\<lambda>f. g f cmd arg) i t))" if "op_ioctl (en_ops en ops) = Some g" for ops g
    by (rule dev_call_refs) (use assms that in \<open>auto simp: drivers_ok_def\<close>)
  then show ?thesis by (auto simp: fileioctl_def split: option.split)
qed

lemma copy_user_refs [simp]: "same_refs t (snd (copy_user en a bs t')) = same_refs t t'"
  by (simp add: copy_user_eq)

lemma filestat_refs: "res_all (\<lambda>z. same_refs t (snd z)) (filestat en st0 pad i addr t)"
  by (simp add: filestat_def Let_def)

lemma dirnext_loop_refs: "res_all (\<lambda>z. same_refs t (snd (snd (snd z)))) (dirnext_loop k i de cnt t)"
proof (induction k arbitrary: de cnt t)
  case (Suc k)
  have "res_all (\<lambda>z. same_refs t (snd (snd (snd z)))) (dirnext_loop k i de1 cnt1 (fset i (\<lambda>f. f\<lparr>f_off := f_off f + cnt1 * 32\<rparr>) (t\<lparr>ft_fs := x\<rparr>)))" for de1 cnt1 x
    by (rule res_all_mono [OF Suc.IH]) (auto elim: same_refs_trans [rotated])
  then show ?case by (simp add: split_def Let_def)
qed simp

lemma dirnext_refs: "res_all (\<lambda>z. same_refs t (snd z)) (dirnext en de st0 pad i addr t)"
proof -
  have "res_all (\<lambda>z. res_all (\<lambda>x. same_refs t (snd (snd (snd z)))) (g z)) (dirnext_loop k i de cnt (t\<lparr>ft_fs := x\<rparr>))" for k de cnt x and g :: "_ \<Rightarrow> fs res"
    by (rule res_all_mono [OF dirnext_loop_refs]) (auto elim: same_refs_trans [rotated])
  then show ?thesis by (simp add: dirnext_def Let_def split_def if_distrib [of "\<lambda>z. same_refs t (snd z)"] cong: if_cong)
qed

section \<open>Pipes\<close>

lemma files_ok_frame: "ft_file t' = ft_file t \<Longrightarrow> files_ok ext (s\<lparr>sy_ft := t'\<rparr>) = files_ok ext (s\<lparr>sy_ft := t\<rparr>)"
  by (rule files_ok_same) (simp add: same_files_def)

lemma close_ok:
  assumes "files_ok (ext(i := 1)) (s\<lparr>sy_ft := t\<rparr>)" and "i < NFILE" and "ext i = 0" and "fileclose en i t = Ok (r, t')"
  shows "files_ok ext (s\<lparr>sy_ft := t'\<rparr>)"
  using fileclose_ok [OF assms(1,2), of en r t'] assms(3,4) by (simp add: fun_upd_idem)

text \<open>The two files that \<^verbatim>\<open>pipealloc\<close> hands to its caller.\<close>

definition new_files :: "(nat \<Rightarrow> nat) \<Rightarrow> nat \<Rightarrow> nat \<Rightarrow> bool" where
  "new_files ext i j \<longleftrightarrow> i < NFILE \<and> j < NFILE \<and> i \<noteq> j \<and> ext i = 0 \<and> ext j = 0"

lemma close_both_ok:
  assumes "new_files ext i j" and "files_ok (ext(i := 1, j := 1)) (s\<lparr>sy_ft := t\<rparr>)"
    and "fileclose en i t = Ok (r1, t1)" "fileclose en j t1 = Ok (r2, t2)"
  shows "files_ok ext (s\<lparr>sy_ft := t2\<rparr>)"
proof -
  have n: "i < NFILE" "j < NFILE" "i \<noteq> j" "ext i = 0" "ext j = 0" using assms(1) by (auto simp: new_files_def)
  have "files_ok ((ext(j := 1))(i := 1)) (s\<lparr>sy_ft := t\<rparr>)" using assms(2) n(3) by (simp add: fun_upd_twist)
  from close_ok [OF this n(1) _ assms(3)] n have "files_ok (ext(j := 1)) (s\<lparr>sy_ft := t1\<rparr>)" by simp
  from close_ok [OF this n(2,5) assms(4)] show ?thesis .
qed

lemma pipealloc_refs:
  assumes ok: "files_ok ext s" and r: "pipealloc en (sy_ft s) = Ok (r, t)"
  shows "case r of None \<Rightarrow> files_ok ext (s\<lparr>sy_ft := t\<rparr>) | Some (i, j) \<Rightarrow> new_files ext i j \<and> files_ok (ext(i := 1, j := 1)) (s\<lparr>sy_ft := t\<rparr>)"
proof -
  obtain r0 t1 where a: "filealloc (sy_ft s) = (r0, t1)" by (cases "filealloc (sy_ft s)")
  note A = filealloc_ok [OF ok a]
  show ?thesis
  proof (cases r0)
    case None
    then show ?thesis using r A a ok by (auto simp: pipealloc_def pipealloc_bad_def)
  next
    case (Some i)
    then have i: "i < NFILE" "ext i = 0" "files_ok (ext(i := 1)) (s\<lparr>sy_ft := t1\<rparr>)" using A by auto
    obtain r1 t2 where b: "filealloc (sy_ft (s\<lparr>sy_ft := t1\<rparr>)) = (r1, t2)" by (cases "filealloc (sy_ft (s\<lparr>sy_ft := t1\<rparr>))")
    note B = filealloc_ok [OF i(3) b]
    show ?thesis
    proof (cases r1)
      case None
      then obtain z where "fileclose en i t1 = Ok (z, t)" "r = None"
        using r B b a Some by (auto simp: pipealloc_def pipealloc_bad_def res_simps)
      with close_ok [OF i(3,1,2)] show ?thesis by simp
    next
      case (Some j)
      then have j: "new_files ext i j" "files_ok (ext(i := 1, j := 1)) (s\<lparr>sy_ft := t2\<rparr>)" and t2: "t2 = fset j (\<lambda>f. f\<lparr>f_ref := 1\<rparr>) t1"
        using B i by (auto simp: new_files_def split: if_splits)
      obtain pi k where c: "kalloc (en_k en) (ft_k t2) = (pi, k)" by (cases "kalloc (en_k en) (ft_k t2)")
      show ?thesis
      proof (cases "pi = 0")
        case True
        then obtain z1 u z2 where "fileclose en i (t2\<lparr>ft_k := k\<rparr>) = Ok (z1, u)" "fileclose en j u = Ok (z2, t)" "r = None"
          using r a b \<open>r0 = _\<close> Some c by (auto simp: pipealloc_def pipealloc_bad_def res_simps)
        moreover have "files_ok (ext(i := 1, j := 1)) (s\<lparr>sy_ft := t2\<lparr>ft_k := k\<rparr>\<rparr>)" using j(2) files_ok_frame [of "t2\<lparr>ft_k := k\<rparr>" t2] by simp
        ultimately show ?thesis using close_both_ok [OF j(1)] by auto
      next
        case False
        define t3 where "t3 = t2\<lparr>ft_k := k, ft_pipe := (ft_pipe t2)(pi := pipe_init (pdata (ft_pipe t2 pi)))\<rparr>"
        let ?t4 = "fset i (\<lambda>f. f\<lparr>f_type := FD_PIPE, f_readable := True, f_writable := False, f_pipe := pi\<rparr>) t3"
        have run: "r = Some (i, j)" "t = fset j (\<lambda>f. f\<lparr>f_type := FD_PIPE, f_readable := False, f_writable := True, f_pipe := pi\<rparr>) ?t4"
          using r a b \<open>r0 = _\<close> Some c False by (auto simp: pipealloc_def Let_def t3_def)
        have ok3: "files_ok (ext(i := 1, j := 1)) (s\<lparr>sy_ft := t3\<rparr>)" using j(2) files_ok_frame [of t3 t2] by (simp add: t3_def)
        have n: "i < NFILE" "j < NFILE" "i \<noteq> j" using j(1) by (auto simp: new_files_def)
        have ref: "f_ref (fget t3 i) \<noteq> 0" "f_ref (fget t3 j) \<noteq> 0" using files_okD(3) [OF ok3, of i] files_okD(3) [OF ok3, of j] n by auto
        have "files_ok (ext(i := 1, j := 1)) ((s\<lparr>sy_ft := t3\<rparr>)\<lparr>sy_ft := ?t4\<rparr>)"
          using fset_ok [OF ok3 n(1), of "\<lambda>f. f\<lparr>f_type := FD_PIPE, f_readable := True, f_writable := False, f_pipe := pi\<rparr>"] ref(1) by simp
        from fset_ok [OF this n(2), of "\<lambda>f. f\<lparr>f_type := FD_PIPE, f_readable := False, f_writable := True, f_pipe := pi\<rparr>"]
        show ?thesis using ref n j(1) run files_okD(1) [OF ok3] by (simp add: fget_fset)
      qed
    qed
  qed
qed

lemma close_two_refs:
  assumes "new_files ext i j" and "files_ok (ext(i := 1, j := 1)) s" and "close_two en i j s = Ok (r, s')"
  shows "files_ok ext s'"
proof -
  obtain r1 t1 r2 t2 where "fileclose en i (sy_ft s) = Ok (r1, t1)" "fileclose en j t1 = Ok (r2, t2)" "s' = s\<lparr>sy_ft := t2\<rparr>"
    using assms(3) by (auto simp: close_two_def on_ft_res_def res_simps)
  with close_both_ok [OF assms(1), where s = s and t = "sy_ft s"] assms(2) show ?thesis by simp
qed

lemma sys_pipe_refs:
  assumes ok: "files_ok ext s" and p: "p < length (sy_ofile s)" and run: "sys_pipe en p a s = Ok (r, s')"
  shows "files_ok ext s'"
proof (cases "MAXUVA \<le> a")
  case True
  then show ?thesis using run ok by (simp add: sys_pipe_def)
next
  case False
  then obtain z t where z: "pipealloc en (sy_ft s) = Ok (z, t)" using run by (cases "pipealloc en (sy_ft s)") (auto simp: sys_pipe_def on_ft_res_def)
  note Z = pipealloc_refs [OF ok z]
  show ?thesis
  proof (cases z)
    case None
    then show ?thesis using run False z Z by (simp add: sys_pipe_def on_ft_res_def)
  next
    case (Some ij)
    then obtain i j where ij: "z = Some (i, j)" by (cases ij) auto
    have new: "new_files ext i j" "files_ok (ext(i := 1, j := 1)) (s\<lparr>sy_ft := t\<rparr>)" using Z ij by auto
    from sys_pipe_cases [OF z [unfolded ij] p files_okD(2) [OF ok p] False] show ?thesis
    proof (elim disjE exE conjE)
      fix w assume "sys_pipe en p a s = close_two en i j (s\<lparr>sy_ft := t\<lparr>ft_w := w\<rparr>\<rparr>)"
      then have "close_two en i j (s\<lparr>sy_ft := t\<lparr>ft_w := w\<rparr>\<rparr>) = Ok (r, s')" using run by simp
      then show ?thesis by (rule close_two_refs [OF new(1), rotated]) (use new(2) in \<open>simp only: files_ok_w\<close>)
    next
      fix fd0 fd1 w assume f: "pipe_fds en i a (sy_ofile s ! p) j fd0 fd1 (ft_w t) w"
        and "sys_pipe en p a s = Ok (0, set_fd p fd1 (Some j) (set_fd p fd0 (Some i) (s\<lparr>sy_ft := t\<lparr>ft_w := w\<rparr>\<rparr>)))"
      moreover have "files_ok ext (set_fd p fd1 (Some j) (set_fd p fd0 (Some i) (s\<lparr>sy_ft := t\<lparr>ft_w := w\<rparr>\<rparr>)))"
        by (rule pipe_fds_ok) (use new p f in \<open>auto simp: files_ok_w new_files_def\<close>)
      ultimately show ?thesis using run by simp
    qed
  qed
qed

section \<open>Every call keeps the references\<close>

lemma files_ok_refs:
  assumes "files_ok ext s" and "sy_ofile s' = sy_ofile s" and "same_refs (sy_ft s) (sy_ft s')"
  shows "files_ok ext s'"
proof -
  have "fd_refs s' = fd_refs s" using assms(2) by (auto simp: fd_refs_def)
  with assms show ?thesis by (simp add: files_ok_def same_refs_def)
qed

definition refs_kept :: "'w sys \<Rightarrow> 'w sys \<Rightarrow> bool" where
  "refs_kept s s' \<longleftrightarrow> sy_ofile s' = sy_ofile s \<and> same_refs (sy_ft s) (sy_ft s')"

lemma refs_kept_simps [simp]: "refs_kept s s" "refs_kept s (s\<lparr>sy_ft := t\<rparr>) = same_refs (sy_ft s) t"
  by (simp_all add: refs_kept_def)

lemma sys_io_refs:
  assumes "drivers_ok en"
  shows "res_all (\<lambda>z. refs_kept s (snd z)) (sys_read en p fd addr n s)" "res_all (\<lambda>z. refs_kept s (snd z)) (sys_write en p fd addr n s)"
    "res_all (\<lambda>z. refs_kept s (snd z)) (sys_fstat en st0 pad p fd addr s)" "res_all (\<lambda>z. refs_kept s (snd z)) (sys_readdir en de st0 pad p fd addr s)"
    "refs_kept s (snd (sys_ioctl en p fd cmd arg s))"
  by (simp_all add: sys_read_def sys_write_def sys_fstat_def sys_readdir_def sys_ioctl_def on_ft_res_def on_ft_def split_def Let_def
      fileread_refs [OF assms] filewrite_refs [OF assms] filestat_refs dirnext_refs fileioctl_refs [OF assms] split: option.split)

lemma same_files_kept: "same_files s s' \<Longrightarrow> refs_kept s s'"
  by (simp add: same_files_def refs_kept_def same_refs_def)

lemma release_entry_all: "same_files s s1 \<Longrightarrow> res_all (\<lambda>s'. same_files s s') (release_entry ep s1)"
  by (simp add: release_entry_def fs_do_def)

lemma create_release:
  fixes x :: int
  shows "res_all (\<lambda>z. same_files s (snd z)) (rbind (create p path type mode major minor s) (\<lambda>(r, s1).
     case r of None \<Rightarrow> Ok (-1, s1) | Some ep \<Rightarrow> rmap (Pair x) (release_entry ep s1)))"
  unfolding res_all_bind
  by (rule res_all_mono [OF create_all]) (auto simp: release_entry_all split: option.split)

lemma sys_path_files:
  "res_all (\<lambda>z. same_files s (snd z)) (sys_mkdir p path s)" "res_all (\<lambda>z. same_files s (snd z)) (sys_mknod p path major minor s)"
  "res_all (\<lambda>z. same_files s (snd z)) (sys_remove ep0 cnt0 p path s)" "res_all (\<lambda>z. same_files s (snd z)) (sys_chdir p path s)"
proof -
  show "res_all (\<lambda>z. same_files s (snd z)) (sys_mkdir p path s)" "res_all (\<lambda>z. same_files s (snd z)) (sys_mknod p path major minor s)"
    by (simp_all add: sys_mkdir_def sys_mknod_def create_release del: res_all_bind split: option.split)
  show "res_all (\<lambda>z. same_files s (snd z)) (sys_remove ep0 cnt0 p path s)"
    by (simp add: sys_remove_def with_parent_def split_def split: option.split cong: option.case_cong if_cong)
  have "same_files s ((set_fs x s)\<lparr>sy_cwd := c\<rparr>)" for x c by (simp add: same_files_def set_fs_def)
  then show "res_all (\<lambda>z. same_files s (snd z)) (sys_chdir p path s)"
    by (simp add: sys_chdir_def split_def split: option.split cong: option.case_cong if_cong)
qed

lemma sys_getcwd_refs: "res_all (\<lambda>z. refs_kept s (snd z)) (sys_getcwd en p addr s)"
proof -
  have "refs_kept s (snd (on_ft (copy_user en a bs) s))" for a bs by (simp add: on_ft_def copy_user_eq)
  then show ?thesis by (simp add: sys_getcwd_def Let_def cong: option.case_cong)
qed

section \<open>The descriptors in fork and exit\<close>

text \<open>The loops over \<^verbatim>\<open>ofile\<close> of \<^verbatim>\<open>fork\<close>, from process \<open>i\<close> to its child \<open>j\<close>, and of \<^verbatim>\<open>exit\<close>.\<close>

definition dup_fd :: "nat \<Rightarrow> nat \<Rightarrow> nat \<Rightarrow> 'w sys \<Rightarrow> 'w sys res" where
  "dup_fd i j fd x =
     (case sy_ofile x ! i ! fd of
        None \<Rightarrow> Ok x
      | Some f \<Rightarrow> rmap (\<lambda>t. set_fd j fd (Some f) (x\<lparr>sy_ft := t\<rparr>)) (filedup f (sy_ft x)))"

definition fork_files :: "nat \<Rightarrow> nat \<Rightarrow> 'w sys \<Rightarrow> 'w sys res" where
  "fork_files i j x =
     rmap (\<lambda>x1. (set_fs (edup (sfs x1) (sy_cwd x1 ! i)) x1)\<lparr>sy_cwd := (sy_cwd x1)[j := sy_cwd x1 ! i]\<rparr>) (rfold (dup_fd i j) [0..<NOFILE] x)"

definition close_fd :: "'w env \<Rightarrow> nat \<Rightarrow> nat \<Rightarrow> 'w sys \<Rightarrow> 'w sys res" where
  "close_fd en i fd x =
     (case sy_ofile x ! i ! fd of
        None \<Rightarrow> Ok x
      | Some f \<Rightarrow> rmap (\<lambda>(r, t). set_fd i fd None (x\<lparr>sy_ft := t\<rparr>)) (fileclose en f (sy_ft x)))"

lemma rfold_upt:
  assumes "\<And>k s. I k s \<Longrightarrow> k < n \<Longrightarrow> res_all (I (Suc k)) (f k s)" and "m \<le> n" and "I m s"
  shows "res_all (I n) (rfold f [m..<n] s)"
  using assms(2,3)
proof (induction "n - m" arbitrary: m s)
  case (Suc d)
  then have "m < n" by simp
  then show ?case
    using Suc assms(1) [of m s] by (auto simp: upt_conv_Cons intro!: res_all_mono [of "I (Suc m)" "f m s"])
qed simp

lemma dup_fd_ok:
  assumes "files_ok ext s" and "i < length (sy_ofile s)" "j < length (sy_ofile s)" "i \<noteq> j" and "fd < NOFILE" and "sy_ofile s ! j ! fd = None"
  shows "res_all (\<lambda>s'. files_ok ext s' \<and> sy_ofile s' = (sy_ofile s)[j := (sy_ofile s ! j)[fd := sy_ofile s ! i ! fd]]) (dup_fd i j fd s)"
proof (cases "sy_ofile s ! i ! fd")
  case None
  then show ?thesis using assms(1,6) list_update_id [of "sy_ofile s ! j" fd] by (simp add: dup_fd_def)
next
  case (Some f)
  note D = files_okD [OF assms(1)]
  have f: "f < NFILE" using assms(1) Some assms(2,5) D(2) [OF assms(2)] unfolding files_ok_def by (metis nth_mem)
  let ?t = "fset f (\<lambda>x. x\<lparr>f_ref := f_ref x + 1\<rparr>) (sy_ft s)"
  show ?thesis
  proof (cases "filedup f (sy_ft s)")
    case (Ok t)
    then have t: "t = ?t" and pos: "0 < f_ref (fget (sy_ft s) f)" by (auto simp: filedup_def split: if_splits)
    have "files_ok (ext(f := ext f + 1)) (s\<lparr>sy_ft := t\<rparr>)"
      by (rule files_ok_ft [OF assms(1)]) (use f D(1,4) pos in \<open>auto simp: t fget_fset\<close>)
    then have "files_ok ext (set_fd j fd (Some f) (s\<lparr>sy_ft := t\<rparr>))"
      by (rule set_fd_ok) (use assms f in auto)
    then show ?thesis using Ok Some by (simp add: dup_fd_def set_fd_def)
  qed (simp add: dup_fd_def Some)
qed

lemma fork_files_ok:
  assumes ok: "files_ok ext s" and ij: "i < length (sy_ofile s)" "j < length (sy_ofile s)" "i \<noteq> j" and free: "sy_ofile s ! j = replicate NOFILE None"
  shows "res_all (\<lambda>s'. files_ok ext s' \<and> sy_ofile s' = (sy_ofile s)[j := sy_ofile s ! i]) (fork_files i j s)"
proof -
  let ?row = "sy_ofile s ! i"
  let ?I = "\<lambda>k x. files_ok ext x \<and> sy_ofile x = (sy_ofile s)[j := take k ?row @ replicate (NOFILE - k) None]"
  have len: "length ?row = NOFILE" using files_okD(2) [OF ok ij(1)] .
  have step: "res_all (?I (Suc k)) (dup_fd i j k x)" if "?I k x" "k < NOFILE" for k x
  proof -
    have *: "(take k ?row @ replicate (NOFILE - k) None)[k := ?row ! k] = take (Suc k) ?row @ replicate (NOFILE - Suc k) None"
      using that(2) len by (cases "NOFILE - k") (simp_all add: list_update_append take_Suc_conv_app_nth)
    show ?thesis
      by (rule res_all_mono [OF dup_fd_ok [of ext x i j k]]) (use that ij len * in \<open>auto simp: nth_append\<close>)
  qed
  have "res_all (?I NOFILE) (rfold (dup_fd i j) [0..<NOFILE] s)"
    by (rule rfold_upt [where I = ?I]) (use step ok list_update_id [of "sy_ofile s" j] in \<open>auto simp: free\<close>)
  then show ?thesis
    by (auto simp: fork_files_def set_fs_def len files_ok_def fd_refs_def elim!: res_all_mono)
qed

lemma close_fd_ok:
  assumes ok: "files_ok ext s" and i: "i < length (sy_ofile s)" and fd: "fd < NOFILE"
  shows "res_all (\<lambda>s'. files_ok ext s' \<and> sy_ofile s' = (sy_ofile s)[i := (sy_ofile s ! i)[fd := None]]) (close_fd en i fd s)"
proof (cases "sy_ofile s ! i ! fd")
  case None
  then show ?thesis using ok list_update_id [of "sy_ofile s ! i" fd] by (simp add: close_fd_def)
next
  case (Some f)
  show ?thesis
  proof (cases "fileclose en f (sy_ft s)")
    case (Ok x)
    then have "sys_close en i (int fd) s = Ok (0, set_fd i fd None (s\<lparr>sy_ft := snd x\<rparr>))" "argfd i (int fd) s = Some f"
      using Some fd by (auto simp: sys_close_def argfd_def on_ft_res_def set_fd_def split: prod.splits)
    with sys_close_ok [OF ok i this(1)] Ok Some show ?thesis by (simp add: close_fd_def split_def)
  qed (simp add: close_fd_def Some)
qed

lemma exit_files_ok:
  assumes ok: "files_ok ext s" and i: "i < length (sy_ofile s)"
  shows "res_all (\<lambda>s'. files_ok ext s' \<and> sy_ofile s' = (sy_ofile s)[i := replicate NOFILE None]) (rfold (close_fd en i) [0..<NOFILE] s)"
proof -
  let ?row = "sy_ofile s ! i"
  let ?I = "\<lambda>k x. files_ok ext x \<and> sy_ofile x = (sy_ofile s)[i := replicate k None @ drop k ?row]"
  have len: "length ?row = NOFILE" using files_okD(2) [OF ok i] .
  have step: "res_all (?I (Suc k)) (close_fd en i k x)" if "?I k x" "k < NOFILE" for k x
  proof -
    have *: "(replicate k None @ drop k ?row)[k := None] = replicate (Suc k) None @ drop (Suc k) ?row"
      using that(2) len by (simp add: list_update_append replicate_append_same [symmetric] flip: Cons_nth_drop_Suc)
    show ?thesis by (rule res_all_mono [OF close_fd_ok [of ext x i k]]) (use that i * in auto)
  qed
  have "res_all (?I NOFILE) (rfold (close_fd en i) [0..<NOFILE] s)"
    by (rule rfold_upt [where I = ?I]) (use step ok in auto)
  then show ?thesis by (auto simp: len elim!: res_all_mono)
qed

section \<open>Sequences of calls\<close>

text \<open>
  One system call of \<^verbatim>\<open>sysfile.c\<close> by some process \<open>p\<close>. The remaining arguments are what the caller passes and what the local variables of
  the call happen to hold.
\<close>

inductive file_step :: "'w env \<Rightarrow> 'w sys \<Rightarrow> 'w sys \<Rightarrow> bool" for en where
  step_dup: "p < length (sy_ofile s) \<Longrightarrow> sys_dup p fd s = Ok (r, s') \<Longrightarrow> file_step en s s'"
| step_read: "p < length (sy_ofile s) \<Longrightarrow> sys_read en p fd addr n s = Ok (z, s') \<Longrightarrow> file_step en s s'"
| step_write: "p < length (sy_ofile s) \<Longrightarrow> sys_write en p fd addr n s = Ok (z, s') \<Longrightarrow> file_step en s s'"
| step_close: "p < length (sy_ofile s) \<Longrightarrow> sys_close en p fd s = Ok (r, s') \<Longrightarrow> file_step en s s'"
| step_fstat: "p < length (sy_ofile s) \<Longrightarrow> sys_fstat en st0 pad p fd addr s = Ok (r, s') \<Longrightarrow> file_step en s s'"
| step_open: "p < length (sy_ofile s) \<Longrightarrow> sys_open en p path omode s = Ok (r, s') \<Longrightarrow> file_step en s s'"
| step_mkdir: "p < length (sy_ofile s) \<Longrightarrow> sys_mkdir p path s = Ok (r, s') \<Longrightarrow> file_step en s s'"
| step_mknod: "p < length (sy_ofile s) \<Longrightarrow> sys_mknod p path major minor s = Ok (r, s') \<Longrightarrow> file_step en s s'"
| step_chdir: "p < length (sy_ofile s) \<Longrightarrow> sys_chdir p path s = Ok (r, s') \<Longrightarrow> file_step en s s'"
| step_pipe: "p < length (sy_ofile s) \<Longrightarrow> sys_pipe en p addr s = Ok (r, s') \<Longrightarrow> file_step en s s'"
| step_readdir: "p < length (sy_ofile s) \<Longrightarrow> sys_readdir en de st0 pad p fd addr s = Ok (r, s') \<Longrightarrow> file_step en s s'"
| step_remove: "p < length (sy_ofile s) \<Longrightarrow> sys_remove ep0 cnt0 p path s = Ok (r, s') \<Longrightarrow> file_step en s s'"
| step_getcwd: "p < length (sy_ofile s) \<Longrightarrow> sys_getcwd en p addr s = Ok (r, s') \<Longrightarrow> file_step en s s'"
| step_ioctl: "p < length (sy_ofile s) \<Longrightarrow> sys_ioctl en p fd cmd arg s = (r, s') \<Longrightarrow> file_step en s s'"
| step_fork: "p < length (sy_ofile s) \<Longrightarrow> q < length (sy_ofile s) \<Longrightarrow> p \<noteq> q \<Longrightarrow> sy_ofile s ! q = replicate NOFILE None \<Longrightarrow>
    fork_files p q s = Ok s' \<Longrightarrow> file_step en s s'"
| step_exit: "p < length (sy_ofile s) \<Longrightarrow> rfold (close_fd en p) [0..<NOFILE] s = Ok s' \<Longrightarrow> file_step en s s'"

lemma files_ok_kept: "refs_kept s s' \<Longrightarrow> files_ok ext s \<Longrightarrow> files_ok ext s'"
  by (rule files_ok_refs) (auto simp: refs_kept_def)

lemma kept_by: "res_all (\<lambda>z. refs_kept s (snd z)) r \<Longrightarrow> r = Ok (x, s') \<Longrightarrow> refs_kept s s'"
  by simp

lemma kept_by_files: "res_all (\<lambda>z. same_files s (snd z)) r \<Longrightarrow> r = Ok (x, s') \<Longrightarrow> refs_kept s s'"
  by (simp add: same_files_kept)

lemma file_step_ok:
  assumes "file_step en s s'" and "drivers_ok en" and "files_ok ext s"
  shows "files_ok ext s'"
  using assms
proof (induction rule: file_step.induct)
  case (step_dup p s fd r s')
  then show ?case using sys_dup_ok [of ext s p fd] by auto
next
  case (step_close p s fd r s')
  then show ?case using sys_close_ok [of ext s p en fd r s'] by simp
next
  case (step_fork p s q s')
  then show ?case using res_allD [OF fork_files_ok] by blast
next
  case (step_exit p s s')
  then show ?case using res_allD [OF exit_files_ok] by blast
next
  case (step_open p s path omode r s')
  then show ?case using sys_open_ok [of ext s p en path omode r s'] by simp
next
  case (step_pipe p s addr r s')
  then show ?case using sys_pipe_refs by blast
next
  case (step_ioctl p s fd cmd arg r s')
  then show ?case using files_ok_kept sys_io_refs(5) [of en s p fd cmd arg] by simp
qed (blast intro: files_ok_kept kept_by [OF sys_io_refs(1)] kept_by [OF sys_io_refs(2)] kept_by [OF sys_io_refs(3)] kept_by [OF sys_io_refs(4)]
    kept_by [OF sys_getcwd_refs] kept_by_files [OF sys_path_files(1)] kept_by_files [OF sys_path_files(2)] kept_by_files [OF sys_path_files(3)]
    kept_by_files [OF sys_path_files(4)])+

lemma file_steps_ok:
  assumes "(file_step en)\<^sup>*\<^sup>* s s'" and "drivers_ok en" and "files_ok ext s"
  shows "files_ok ext s'"
  using assms(1) by (induction rule: rtranclp_induct) (use assms(2,3) file_step_ok in blast)+

section \<open>Properties\<close>

text \<open>
  C21: descriptors and open files never get out of step. Start from a state in which every file counts its
  descriptors plus the references held elsewhere, and let any processes make any sequence of the system calls on files, each of which
  may succeed or fail, among them the copying of all descriptors to a child in \<^verbatim>\<open>fork\<close> and their closing in \<^verbatim>\<open>exit\<close>. Then the counts still agree, every descriptor in use refers to a file of the table that is still open,
  duplicating it takes the lowest free descriptor or fails for lack of one, and neither \<^verbatim>\<open>filedup\<close> nor \<^verbatim>\<open>fileclose\<close> meets its panic for a
  file without references; closing one of several references always returns 0.
\<close>
theorem file_references_agree:
  assumes "files_ok ext s" and "drivers_ok en" and "(file_step en)\<^sup>*\<^sup>* s s'"
  shows "files_ok ext s' \<and> (\<forall>p fd f. p < length (sy_ofile s') \<and> argfd p fd s' = Some f \<longrightarrow>
    f < NFILE \<and> 0 < f_ref (fget (sy_ft s') f) \<and> (\<exists>t. filedup f (sy_ft s') = Ok t) \<and>
    (\<exists>r s2. sys_dup p fd s' = Ok (r, s2) \<and> dup_post p fd s' r s2) \<and>
    (1 < f_ref (fget (sy_ft s') f) \<longrightarrow> (\<exists>s2. sys_close en p fd s' = Ok (0, s2))))"
proof -
  have ok: "files_ok ext s'" by (rule file_steps_ok [OF assms(3,2,1)])
  show ?thesis
  proof (intro conjI allI impI ok; elim conjE)
    fix p fd f assume p: "p < length (sy_ofile s')" and a: "argfd p fd s' = Some f"
    note F = argfd_ok [OF ok p a]
    show "f < NFILE" "0 < f_ref (fget (sy_ft s') f)" by (rule F)+
    show "\<exists>t. filedup f (sy_ft s') = Ok t" using F(4) by (simp add: filedup_def)
    show "\<exists>r s2. sys_dup p fd s' = Ok (r, s2) \<and> dup_post p fd s' r s2" using sys_dup_ok [OF ok p, of fd] by blast
    assume "1 < f_ref (fget (sy_ft s') f)"
    then show "\<exists>s2. sys_close en p fd s' = Ok (0, s2)" using a by (simp add: sys_close_def on_ft_res_def fileclose_def Let_def set_fd_def)
  qed
qed

text \<open>The demo system after duplicating descriptor 0 and closing the original.\<close>

theorem file_references_agree_witness:
  "\<exists>s1 s2. file_step demo_env demo_sys s1 \<and> file_step demo_env s1 s2 \<and> sys_dup 0 0 demo_sys = Ok (2, s1) \<and> sys_close demo_env 0 0 s1 = Ok (0, s2) \<and>
     files_ok (\<lambda>_. 0) s2 \<and> (\<exists>t. filedup 0 (sy_ft s2) = Ok t)"
proof -
  have fd: "fdalloc 0 0 demo_sys = (Some 2, set_fd 0 2 (Some 0) demo_sys)"
  proof -
    have "first_idx (\<lambda>fd. sy_ofile demo_sys ! 0 ! fd = None) [0..<NOFILE] = Some 2"
      by (auto simp: first_idx_upt_iff demo_sys_def numeral_eq_Suc less_Suc_eq)
    then show ?thesis by (simp add: fdalloc_def)
  qed
  define s1 where "s1 = (set_fd 0 2 (Some 0) demo_sys)\<lparr>sy_ft := fset 0 (\<lambda>f. f\<lparr>f_ref := f_ref f + 1\<rparr>) (sy_ft demo_sys)\<rparr>"
  have a: "argfd 0 0 demo_sys = Some 0" by (simp add: argfd_def demo_sys_def)
  have f0: "f_ref (fget (sy_ft demo_sys) 0) = 1" "sy_ft (set_fd 0 2 (Some 0) demo_sys) = sy_ft demo_sys" "0 < length (ft_file (sy_ft demo_sys))"
    by (simp_all add: demo_sys_def demo_kfile_def set_fd_def)
  have d: "sys_dup 0 0 demo_sys = Ok (2, s1)" using f0 by (simp add: sys_dup_def a fd filedup_def s1_def)
  have a1: "argfd 0 0 s1 = Some 0" "argfd 0 2 s1 = Some 0" "0 < length (sy_ofile s1)" by (simp_all add: s1_def set_fd_def argfd_def demo_sys_def)
  have r1: "f_ref (fget (sy_ft s1) 0) = 2" using f0 by (simp add: s1_def fget_fset)
  then obtain s2 where c: "sys_close demo_env 0 0 s1 = Ok (0, s2)"
    using a1(1) by (simp add: sys_close_def on_ft_res_def fileclose_def Let_def set_fd_def)
  then have a2: "argfd 0 2 s2 = Some 0" "0 < length (sy_ofile s2)"
    using a1 r1 by (auto simp: sys_close_def on_ft_res_def fileclose_def Let_def set_fd_def argfd_def)
  have st: "file_step demo_env demo_sys s1" "file_step demo_env s1 s2"
    using step_dup [OF _ d] step_close [OF a1(3) c] by (simp_all add: demo_sys_def)
  then have "(file_step demo_env)\<^sup>*\<^sup>* demo_sys s2" by simp
  from file_references_agree [OF demo_files_ok demo_drivers this] a2 st d c show ?thesis by blast
qed

end
