(* ===== verification/ProcLife.thy ===== *)
theory ProcLife
  imports SysCalls Sched VmFault
begin

text \<open>
  The life of a process: the rest of \<^verbatim>\<open>kernel/proc/proc.c\<close>. Slots of the process table are filled by \<^verbatim>\<open>allocproc\<close>, by
  \<^verbatim>\<open>userinit\<close> for the first process and by \<^verbatim>\<open>fork\<close> for all others; \<^verbatim>\<open>exit\<close> leaves a zombie and \<^verbatim>\<open>wait\<close> reaps it.

  The state joins the scheduler, the memory areas over physical memory, and the files: \<open>mm_x\<close> of the memory state
  holds the system call state of \<open>SysFile\<close>, in which the descriptors and the current directory of process \<open>i\<close> are row
  \<open>i\<close>. There is one physical memory, \<open>mm_k\<close>; an operation on files that allocates or frees a page works on it
  (\<open>on_files\<close>). A process that has exited has no current directory; nothing reads its row.
\<close>

record 'w kst =
  pl_s :: sched
  pl_m :: "'w sys mm"

record 'w penv =
  pe_k :: kenv
  pe_qemu :: bool
  pe_en :: "'w env"
  pe_fe :: "'w sys fenv"
  pe_slot :: "nat \<Rightarrow> u64"

text \<open>The operations on files that memory areas use, taken from \<open>FileTable\<close>; transfers between pages and files, and
  drivers, stay parameters.\<close>

definition file_fenv :: "'w env \<Rightarrow> 'w sys fenv \<Rightarrow> 'w sys fenv" where
  "file_fenv en fe = fe\<lparr>
     fe_entry := (\<lambda>x i. f_type (fget (sy_ft x) i) = FD_ENTRY),
     fe_readable := (\<lambda>x i. f_readable (fget (sy_ft x) i)),
     fe_writable := (\<lambda>x i. f_writable (fget (sy_ft x) i)),
     fe_dup := (\<lambda>i x. rmap (\<lambda>t. x\<lparr>sy_ft := t\<rparr>) (filedup i (sy_ft x))),
     fe_close := (\<lambda>i x. rmap (\<lambda>(r, t). x\<lparr>sy_ft := t\<rparr>) (fileclose en i (sy_ft x)))\<rparr>"

abbreviation (input) pfe :: "'w penv \<Rightarrow> 'w sys fenv" where "pfe e \<equiv> file_fenv (pe_en e) (pe_fe e)"

definition on_files :: "('w sys \<Rightarrow> 'w sys res) \<Rightarrow> 'w sys mm \<Rightarrow> 'w sys mm res" where
  "on_files g m =
     rmap (\<lambda>x. m\<lparr>mm_k := ft_k (sy_ft x), mm_x := x\<rparr>) (g ((mm_x m)\<lparr>sy_ft := (sy_ft (mm_x m))\<lparr>ft_k := mm_k m\<rparr>\<rparr>))"

abbreviation (input) pget :: "'w kst \<Rightarrow> nat \<Rightarrow> proc" where "pget s i \<equiv> sd_procs (pl_s s) ! i"

definition pset :: "nat \<Rightarrow> (proc \<Rightarrow> proc) \<Rightarrow> 'w kst \<Rightarrow> 'w kst" where
  "pset i f s = s\<lparr>pl_s := set_proc (pl_s s) i f\<rparr>"

definition in_k :: "(kmem \<Rightarrow> ('a \<times> kmem) res) \<Rightarrow> 'w kst \<Rightarrow> ('a \<times> 'w kst) res" where
  "in_k g s = rmap (\<lambda>(r, k). (r, s\<lparr>pl_m := (pl_m s)\<lparr>mm_k := k\<rparr>\<rparr>)) (g (mm_k (pl_m s)))"

definition in_kmem :: "(kmem \<Rightarrow> kmem res) \<Rightarrow> 'w kst \<Rightarrow> 'w kst res" where
  "in_kmem g s = rmap (\<lambda>k. s\<lparr>pl_m := (pl_m s)\<lparr>mm_k := k\<rparr>\<rparr>) (g (mm_k (pl_m s)))"

section \<open>Page tables of a process\<close>

definition proc_pagetable :: "kenv \<Rightarrow> proc \<Rightarrow> kmem \<Rightarrow> (u64 \<times> kmem) res" where
  "proc_pagetable k p s =
     (let (pt, s1) = uvmcreate k s
      in if pt = 0 then Ok (0, s1)
         else rbind (mappages k pt TRAMPOLINE PGSIZE (ke_trampoline k) (PTE_R OR PTE_X) s1) (\<lambda>(r, s2).
           if r < 0 then rmap (Pair 0) (uvmfree k pt 0 s2)
           else rbind (mappages k pt TRAPFRAME PGSIZE (p_trapframe_pa p) (PTE_R OR PTE_W) s2) (\<lambda>(r, s3).
             if r < 0 then rbind (uvmunmap k pt TRAMPOLINE 1 False s3) (\<lambda>s4. rmap (Pair 0) (uvmfree k pt 0 s4))
             else rbind (mappages k pt SIGTRAMP PGSIZE (ke_sigtramp k) (PTE_R OR PTE_X OR PTE_U) s3) (\<lambda>(r, s4).
               if r < 0 then
                 rbind (uvmunmap k pt TRAMPOLINE 1 False s4) (\<lambda>s5.
                 rbind (uvmunmap k pt TRAPFRAME 1 False s5) (\<lambda>s6. rmap (Pair 0) (uvmfree k pt 0 s6)))
               else Ok (pt, s4)))))"

definition proc_freepagetable :: "kenv \<Rightarrow> u64 \<Rightarrow> u64 \<Rightarrow> kmem \<Rightarrow> kmem res" where
  "proc_freepagetable k pt sz s =
     rbind (uvm_stack_unmap k pt True s) (\<lambda>s1.
     rbind (uvmunmap k pt TRAMPOLINE 1 False s1) (\<lambda>s2.
     rbind (uvmunmap k pt TRAPFRAME 1 False s2) (\<lambda>s3.
     rbind (uvmunmap k pt SIGTRAMP 1 False s3) (uvmfree k pt sz))))"

definition proc_freekpagetable :: "kenv \<Rightarrow> bool \<Rightarrow> u64 \<Rightarrow> u64 \<Rightarrow> u64 \<Rightarrow> kmem \<Rightarrow> kmem res" where
  "proc_freekpagetable k qemu pt kstack sz s =
     rbind (ukvmunmap k qemu pt s) (\<lambda>s1.
     rbind (uvmunmap k pt 0 (PGROUNDUP sz div PGSIZE) False s1) (\<lambda>s2.
     rbind (uvm_stack_unmap k pt False s2) (\<lambda>s3.
     rbind (uvmunmap k pt kstack 1 True s3) (uvmfree k pt 0))))"

section \<open>Slots of the process table\<close>

definition freeprocvm :: "'w penv \<Rightarrow> nat \<Rightarrow> 'w kst \<Rightarrow> 'w kst res" where
  "freeprocvm e i s =
     (let k = pe_k e; p = pget s i
      in rbind (if p_trapframe_pa p \<noteq> 0 then in_kmem (\<lambda>m. kfree k m (p_trapframe_pa p)) s else Ok s) (\<lambda>s1.
         rbind (if p_pagetable p \<noteq> 0 then in_kmem (proc_freepagetable k (p_pagetable p) (p_sz p)) s1 else Ok s1) (\<lambda>s2.
         rmap (pset i (\<lambda>p. p\<lparr>p_trapframe_pa := 0, p_kpagetable := 0, p_kstack := 0, p_pagetable := 0, p_sz := 0\<rparr>))
           (if p_kpagetable p \<noteq> 0 then in_kmem (proc_freekpagetable k (pe_qemu e) (p_kpagetable p) (p_kstack p) (p_sz p)) s2 else Ok s2))))"

definition mlfq_reset :: "proc \<Rightarrow> proc" where
  "mlfq_reset p = p\<lparr>p_queue_level := MLFQ_TOP_LEVEL, p_sched_ticks := 0, p_total_run_ticks := 0, p_wait_ticks := 0,
     p_preempt_count := 0, p_boost_count := 0, p_io_wakeup_count := 0, p_device_wakeup_count := 0,
     p_last_wakeup_reason := WAKEUP_NORMAL\<rparr>"

definition clear_proc :: "proc \<Rightarrow> proc" where
  "clear_proc p = (mlfq_reset ((signal_proc_init (p\<lparr>p_pid := 0, p_pgid := 0, p_parent := None, p_name := [], p_chan := 0,
     p_killed := False\<rparr>))\<lparr>p_xstate := 0\<rparr>))\<lparr>p_state := UNUSED\<rparr>"

definition destroy_vmas :: "'w penv \<Rightarrow> nat \<Rightarrow> 'w kst \<Rightarrow> 'w kst res" where
  "destroy_vmas e i s =
     rmap (\<lambda>(p, m). pset i (\<lambda>_. p) (s\<lparr>pl_m := m\<rparr>)) (vma_destroy_all (pe_k e) (pfe e) (pget s i) (pl_m s))"

definition freeproc :: "'w penv \<Rightarrow> nat \<Rightarrow> 'w kst \<Rightarrow> 'w kst res" where
  "freeproc e i s = rbind (destroy_vmas e i s) (\<lambda>s1. rmap (pset i clear_proc) (freeprocvm e i s1))"

text \<open>\<^verbatim>\<open>KSTACK(0)\<close>; every process has its kernel stack at the same address of its own kernel page table.\<close>

abbreviation (input) KSTACK0 :: u64 where "KSTACK0 \<equiv> TRAMPOLINE - 2 * PGSIZE"

text \<open>A trapframe page as \<^verbatim>\<open>kalloc_page\<close> leaves it, every byte 5.\<close>

definition tf_junk :: trapframe where
  "tf_junk = (let j = junk_alloc in \<lparr>kernel_satp = j, kernel_sp = j, kernel_trap = j, tf_epc = j, kernel_hartid = j, tf_ra = j,
     tf_sp = j, tf_gp = j, tf_tp = j, tf_t0 = j, tf_t1 = j, tf_t2 = j, tf_s0 = j, tf_s1 = j, tf_a0 = j,
     tf_a1 = j, tf_a2 = j, tf_a3 = j, tf_a4 = j, tf_a5 = j, tf_a6 = j, tf_a7 = j, tf_s2 = j, tf_s3 = j,
     tf_s4 = j, tf_s5 = j, tf_s6 = j, tf_s7 = j, tf_s8 = j, tf_s9 = j, tf_s10 = j, tf_s11 = j, tf_t3 = j,
     tf_t4 = j, tf_t5 = j, tf_t6 = j\<rparr>)"

text \<open>The failures of \<^verbatim>\<open>allocproc\<close> after the trapframe.\<close>

definition alloc_fail :: "'w penv \<Rightarrow> nat \<Rightarrow> 'w kst \<Rightarrow> (nat option \<times> 'w kst) res" where
  "alloc_fail e i s = rmap (Pair None) (freeproc e i s)"

definition allocproc :: "'w penv \<Rightarrow> 'w kst \<Rightarrow> (nat option \<times> 'w kst) res" where
  "allocproc e s =
     (case find_slot (\<lambda>p. p_state p = UNUSED) (sd_procs (pl_s s)) of
        None \<Rightarrow> Ok (None, s)
      | Some i \<Rightarrow>
          let k = pe_k e; (pid, sd) = allocpid (pl_s s);
              s1 = pset i (\<lambda>p. signal_proc_init (p\<lparr>p_pid := pid, p_pgid := pid\<rparr>)) (s\<lparr>pl_s := sd\<rparr>);
              (tf, k1) = kalloc k (mm_k (pl_m s1));
              s2 = pset i (\<lambda>p. p\<lparr>p_trapframe_pa := tf, p_trapframe := (if tf = 0 then p_trapframe p else tf_junk)\<rparr>) (s1\<lparr>pl_m := (pl_m s1)\<lparr>mm_k := k1\<rparr>\<rparr>)
          in if tf = 0 then Ok (None, s2)
             else rbind (in_k (proc_pagetable k (pget s2 i)) s2) (\<lambda>(pt, s3).
               let s4 = pset i (\<lambda>p. p\<lparr>p_pagetable := pt\<rparr>) s3
               in if pt = 0 then alloc_fail e i s4
                  else rbind (in_k (ukvminit k (pe_qemu e)) s4) (\<lambda>(kpt, s5).
                    let s6 = pset i (\<lambda>p. p\<lparr>p_kpagetable := kpt\<rparr>) s5
                    in if kpt = 0 then alloc_fail e i s6
                       else let (pa, k2) = kalloc k (mm_k (pl_m s6)); s7 = s6\<lparr>pl_m := (pl_m s6)\<lparr>mm_k := k2\<rparr>\<rparr>
                            in if pa = 0 then alloc_fail e i s7
                               else rbind (in_k (mappages k kpt KSTACK0 PGSIZE pa (PTE_R OR PTE_W)) s7) (\<lambda>(r, s8).
                                 if r < 0 then
                                   rbind (in_kmem (\<lambda>m. kfree k m pa) s8) (\<lambda>s9.
                                   rbind (in_kmem (ukvmfree k kpt) s9) (\<lambda>s10. alloc_fail e i (pset i (\<lambda>p. p\<lparr>p_kpagetable := 0\<rparr>) s10)))
                                 else Ok (Some i, pset i (\<lambda>p. mlfq_reset (p\<lparr>p_kstack := KSTACK0, p_vmas := replicate NVMA vma_zero\<rparr>)) s8)))))"

section \<open>Creation\<close>

definition initcode :: bytes where
  "initcode =
    [0x17, 0x05, 0x00, 0x00, 0x13, 0x05, 0x45, 0x02,
     0x97, 0x05, 0x00, 0x00, 0x93, 0x85, 0x35, 0x02,
     0x93, 0x08, 0x70, 0x00, 0x73, 0x00, 0x00, 0x00,
     0x93, 0x08, 0x20, 0x00, 0x73, 0x00, 0x00, 0x00,
     0xef, 0xf0, 0x9f, 0xff, 0x2f, 0x69, 0x6e, 0x69,
     0x74, 0x00, 0x00, 0x24, 0x00, 0x00, 0x00, 0x00,
     0x00, 0x00, 0x00, 0x00]"

definition userinit :: "'w penv \<Rightarrow> 'w kst \<Rightarrow> 'w kst res" where
  "userinit e s =
     rbind (allocproc e s) (\<lambda>(r, s1).
       case r of
         None \<Rightarrow> Panic ''null''
       | Some i \<Rightarrow>
           let k = pe_k e; s2 = s1\<lparr>pl_s := (pl_s s1)\<lparr>sd_initproc := Some i\<rparr>\<rparr>; p = pget s2 i
           in rbind (in_kmem (uvminit k (p_pagetable p) initcode) s2) (\<lambda>s3.
              rbind (in_k (uvm_stack_init k (p_pagetable p)) s3) (\<lambda>(r, s4).
                if r < 0 then Panic ''userinit: stack''
                else let s5 = pset i (\<lambda>p. p\<lparr>p_sz := PGSIZE, p_trapframe := (p_trapframe p)\<lparr>tf_epc := 0, tf_sp := USER_STACK_TOP\<rparr>, p_name := ''initcode''\<rparr>) s4
                     in rbind (in_k (upg2ukpg k (p_pagetable p) (p_kpagetable p) 0 PGSIZE) s5) (\<lambda>(r, s6).
                          if r < 0 then Panic ''userinit: upg2ukpg''
                          else rmap (pset i (\<lambda>p. p\<lparr>p_state := RUNNABLE\<rparr>)) (in_kmem (uvm_stack_sync k (p_pagetable p) (p_kpagetable p)) s6)))))"

definition growproc :: "'w penv \<Rightarrow> nat \<Rightarrow> int \<Rightarrow> 'w kst \<Rightarrow> (int \<times> 'w kst) res" where
  "growproc e i n s =
     (let k = pe_k e; p = pget s i; sz = p_sz p; to = sz + word_of_int n
      in if 0 < n then
           if to < sz \<or> vma_heap_limit (p_vmas p) < to then Ok (-1, s)
           else rbind (in_k (uvmalloc k (p_pagetable p) sz to) s) (\<lambda>(sz1, s1).
             if sz1 = 0 then Ok (-1, s1)
             else rbind (in_k (upg2ukpg k (p_pagetable p) (p_kpagetable p) sz sz1) s1) (\<lambda>(r, s2).
               if r < 0 then Panic ''growproc: upg2ukpg'' else Ok (0, pset i (\<lambda>p. p\<lparr>p_sz := sz1\<rparr>) s2)))
         else if n < 0 then
           rbind (in_k (ukvmdealloc k (p_kpagetable p) sz to False) s) (\<lambda>(_, s1).
           rmap (\<lambda>(sz1, s2). (0, pset i (\<lambda>p. p\<lparr>p_sz := sz1\<rparr>) s2)) (in_k (uvmdealloc k (p_pagetable p) sz to) s1))
         else Ok (0, s))"

text \<open>The kernel page table of the parent follows the copy-on-write marks in its user page table.\<close>

definition resync_parent :: "'w penv \<Rightarrow> proc \<Rightarrow> 'w kst \<Rightarrow> 'w kst res" where
  "resync_parent e p s =
     rbind (in_k (upg2ukpg (pe_k e) (p_pagetable p) (p_kpagetable p) 0 (p_sz p)) s) (\<lambda>(r, s1).
       if r < 0 then Panic ''fork: parent upg2ukpg'' else in_kmem (uvm_stack_sync (pe_k e) (p_pagetable p) (p_kpagetable p)) s1)"

definition fork_bad :: "'w penv \<Rightarrow> proc \<Rightarrow> nat \<Rightarrow> 'w kst \<Rightarrow> (int \<times> 'w kst) res" where
  "fork_bad e p j s = rbind (resync_parent e p s) (\<lambda>s1. rmap (Pair (-1)) (freeproc e j s1))"

definition fork_done :: "'w penv \<Rightarrow> nat \<Rightarrow> nat \<Rightarrow> 'w kst \<Rightarrow> (int \<times> 'w kst) res" where
  "fork_done e i j s =
     (let p = pget s i;
          s1 = pset j (\<lambda>np. np\<lparr>p_parent := Some i, p_trapframe := (p_trapframe p)\<lparr>tf_a0 := 0\<rparr>\<rparr>) s
      in rbind (on_files (fork_files i j) (pl_m s1)) (\<lambda>m.
         let s2 = pset j (\<lambda>np. (signal_proc_fork p (np\<lparr>p_name := take 15 (p_name p), p_trace_mask := p_trace_mask p, p_pgid := p_pgid p\<rparr>))
                     \<lparr>p_state := RUNNABLE\<rparr>) (s1\<lparr>pl_m := m\<rparr>)
         in rmap (Pair (p_pid (pget s2 j))) (resync_parent e p s2)))"

definition fork :: "'w penv \<Rightarrow> nat \<Rightarrow> 'w kst \<Rightarrow> (int \<times> 'w kst) res" where
  "fork e i s =
     rbind (allocproc e s) (\<lambda>(r, s1).
       case r of
         None \<Rightarrow> Ok (-1, s1)
       | Some j \<Rightarrow>
           let k = pe_k e; p = pget s1 i; np = pget s1 j; pt = p_pagetable np; kpt = p_kpagetable np
           in rbind (in_k (uvmcopy k (p_pagetable p) pt (p_sz p)) s1) (\<lambda>(r, s2).
                if r < 0 then fork_bad e p j s2
                else let s3 = pset j (\<lambda>np. np\<lparr>p_sz := p_sz p\<rparr>) s2
                     in rbind (in_k (uvm_stack_copy k (p_pagetable p) pt) s3) (\<lambda>(r, s4).
                          if r < 0 then fork_bad e p j s4
                          else rbind (vma_fork k (pfe e) p (pget s4 j) (pl_m s4)) (\<lambda>(r, np1, m1).
                            let s5 = pset j (\<lambda>_. np1) (s4\<lparr>pl_m := m1\<rparr>)
                            in if r < 0 then fork_bad e p j s5
                               else rbind (in_k (upg2ukpg k pt kpt 0 (p_sz p)) s5) (\<lambda>(r, s6).
                                 if r < 0 then fork_bad e p j s6
                                 else rbind (in_k (upg2ukpg k pt kpt USER_STACK_START USER_STACK_TOP) s6) (\<lambda>(r, s7).
                                   if r < 0 then fork_bad e p j s7 else fork_done e i j s7))))))"

text \<open>
  \<^verbatim>\<open>forkret\<close> between the lock and \<^verbatim>\<open>usertrapret\<close>: the first process mounts the file system and starts in its root directory.
  The path \<^verbatim>\<open>"/"\<close> does not depend on a current directory and always has an entry.
\<close>

definition forkret :: "bool \<Rightarrow> nat \<Rightarrow> 'w sys \<Rightarrow> 'w sys res" where
  "forkret first i x =
     (if \<not> first then Ok x
      else rbind (fs_do (\<lambda>fs. fat32_init (fs_blk fs) (fs_entries fs)) x) (\<lambda>x1.
           rbind (ename (sfs x1) Root [0x2F]) (\<lambda>(r, fs).
             case r of None \<Rightarrow> Panic ''null'' | Some ep \<Rightarrow> Ok ((set_fs fs x1)\<lparr>sy_cwd := (sy_cwd x1)[i := ep]\<rparr>))))"

section \<open>Termination\<close>

definition put_cwd :: "nat \<Rightarrow> 'w sys \<Rightarrow> 'w sys res" where
  "put_cwd i x = fs_do (\<lambda>fs. eput fs (sy_cwd x ! i)) x"

text \<open>The part of \<^verbatim>\<open>exit\<close> under the locks of the parent and of the process, up to the switch to the scheduler of CPU \<open>c\<close>.\<close>

definition exit_zombie :: "'w penv \<Rightarrow> nat \<Rightarrow> nat \<Rightarrow> int \<Rightarrow> nat \<Rightarrow> 'w kst \<Rightarrow> 'w kst" where
  "exit_zombie e c i status parent s =
     (let s1 = s\<lparr>pl_s := reparent (pl_s s) i\<rparr>;
          s2 = pset parent (\<lambda>p. wakeup1 (pe_slot e parent) (snd (signal_send_locked p SIGCHLD))) s1;
          s3 = pset i (\<lambda>p. p\<lparr>p_xstate := status, p_state := ZOMBIE\<rparr>) s2
      in s3\<lparr>pl_s := run_proc_back (pl_s s3) c\<rparr>)"

definition exit :: "'w penv \<Rightarrow> nat \<Rightarrow> nat \<Rightarrow> int \<Rightarrow> 'w kst \<Rightarrow> 'w kst res" where
  "exit e c i status s =
     (if sd_initproc (pl_s s) = Some i then Panic ''init exiting''
      else rbind (on_files (rfold (close_fd (pe_en e) i) [0..<NOFILE]) (pl_m s)) (\<lambda>m1.
           rbind (destroy_vmas e i (s\<lparr>pl_m := m1\<rparr>)) (\<lambda>s2.
           rbind (on_files (put_cwd i) (pl_m s2)) (\<lambda>m3.
             case sd_initproc (pl_s s2) of
               None \<Rightarrow> Panic ''null''
             | Some ip \<Rightarrow>
                 let s4 = pset ip (wakeup1 (pe_slot e ip)) (s2\<lparr>pl_m := m3\<rparr>)
                 in (case p_parent (pget s4 i) of
                       None \<Rightarrow> Panic ''null''
                     | Some parent \<Rightarrow> Ok (exit_zombie e c i status parent s4))))))"

datatype wait_result = WaitRet int | WaitSleep

definition wait_reap :: "'w penv \<Rightarrow> nat \<Rightarrow> u64 \<Rightarrow> nat \<Rightarrow> 'w kst \<Rightarrow> (wait_result \<times> 'w kst) res" where
  "wait_reap e i addr j s =
     (let pid = p_pid (pget s j)
      in rbind (freeprocvm e j s) (\<lambda>s1.
         rbind (if addr \<noteq> 0 then rmap (\<lambda>(r, m). (r, s1\<lparr>pl_m := m\<rparr>))
                    (copyout (pe_k e) (pfe e) (pget s1 i) addr (le32_bytes (word_of_int (p_xstate (pget s1 j)))) (pl_m s1))
                else Ok (0, s1)) (\<lambda>(r, s2).
           if r < 0 then Ok (WaitRet (-1), s2) else rmap (Pair (WaitRet pid)) (freeproc e j s2))))"

text \<open>One round of the loop of \<^verbatim>\<open>wait\<close>; after \<open>WaitSleep\<close> the process is asleep on its own slot, and \<open>sleep_on_back\<close> of
  \<open>Sched\<close> follows when it runs again.\<close>

definition wait :: "'w penv \<Rightarrow> nat \<Rightarrow> nat \<Rightarrow> u64 \<Rightarrow> 'w kst \<Rightarrow> (wait_result \<times> 'w kst) res" where
  "wait e c i addr s =
     (case first_idx (\<lambda>j. p_parent (pget s j) = Some i \<and> p_state (pget s j) = ZOMBIE) [0..<NPROC] of
        Some j \<Rightarrow> wait_reap e i addr j s
      | None \<Rightarrow>
          if \<not> (\<exists>j < NPROC. p_parent (pget s j) = Some i) then Ok (WaitRet (-1), s)
          else (case sleep_on (pl_s s) c i (pe_slot e i) True of
                  (Some r, sd) \<Rightarrow> Ok (WaitRet (-1), s\<lparr>pl_s := sd\<rparr>)
                | (None, sd) \<Rightarrow> Ok (WaitSleep, s\<lparr>pl_s := sd\<rparr>)))"

end
