(* ===== verification/ProcTree.thy ===== *)
theory ProcTree
  imports ProcLife MmapAreas
begin

text \<open>
  The process tree. What \<^verbatim>\<open>fork\<close>, \<^verbatim>\<open>exit\<close> and \<^verbatim>\<open>wait\<close> promise is stated on an abstract tree: each slot of the table is free, a
  live process or a dead one, with its parent, its process id and, for a dead one, the exit status. The operations of
  \<open>ProcLife\<close>, which also work on page tables, memory areas and files, refine the operations on the tree, and scheduling,
  signals and memory operations leave the tree alone. The tree invariant is proved on the abstract operations.
\<close>

datatype slot = Free | Live "nat option" int | Dead "nat option" int int

definition slot_of :: "proc \<Rightarrow> slot" where
  "slot_of p = (case p_state p of UNUSED \<Rightarrow> Free | ZOMBIE \<Rightarrow> Dead (p_parent p) (p_pid p) (p_xstate p)
     | _ \<Rightarrow> Live (p_parent p) (p_pid p))"

record ptree =
  tr_slots :: "slot list"
  tr_next :: int
  tr_init :: "nat option"

definition tree_of :: "sched \<Rightarrow> ptree" where
  "tree_of s = \<lparr>tr_slots = map slot_of (sd_procs s), tr_next = sd_nextpid s, tr_init = sd_initproc s\<rparr>"

lemma tree_of_sel:
  "tr_slots (tree_of s) = map slot_of (sd_procs s)" "tr_next (tree_of s) = sd_nextpid s" "tr_init (tree_of s) = sd_initproc s"
  by (simp_all add: tree_of_def)

fun slot_parent :: "slot \<Rightarrow> nat option" where
  "slot_parent Free = None"
| "slot_parent (Live q n) = q"
| "slot_parent (Dead q n x) = q"

fun slot_pid :: "slot \<Rightarrow> int" where
  "slot_pid Free = 0"
| "slot_pid (Live q n) = n"
| "slot_pid (Dead q n x) = n"

fun set_parent :: "nat option \<Rightarrow> slot \<Rightarrow> slot" where
  "set_parent q Free = Free"
| "set_parent q (Live q' n) = Live q n"
| "set_parent q (Dead q' n x) = Dead q n x"

fun is_live :: "slot \<Rightarrow> bool" where
  "is_live (Live q n) = True"
| "is_live _ = False"

fun die :: "int \<Rightarrow> slot \<Rightarrow> slot" where
  "die x (Live q n) = Dead q n x"
| "die x z = z"

section \<open>The tree operations\<close>

definition tree_fork :: "nat \<Rightarrow> nat \<Rightarrow> ptree \<Rightarrow> ptree" where
  "tree_fork i j t = t\<lparr>tr_slots := (tr_slots t)[j := Live (Some i) (tr_next t)], tr_next := tr_next t + 1\<rparr>"

definition tree_exit :: "nat \<Rightarrow> int \<Rightarrow> ptree \<Rightarrow> ptree" where
  "tree_exit i x t =
     (let zs = map (\<lambda>z. if slot_parent z = Some i then set_parent (tr_init t) z else z) (tr_slots t)
      in t\<lparr>tr_slots := zs[i := die x (zs ! i)]\<rparr>)"

definition tree_reap :: "nat \<Rightarrow> ptree \<Rightarrow> ptree" where
  "tree_reap j t = t\<lparr>tr_slots := (tr_slots t)[j := Free]\<rparr>"

definition tree_skip :: "ptree \<Rightarrow> ptree" where
  "tree_skip t = t\<lparr>tr_next := tr_next t + 1\<rparr>"

section \<open>What an operation on one process keeps\<close>

lemma set_proc_simps [simp]:
  "sd_procs (set_proc s i f) = (sd_procs s)[i := f (sd_procs s ! i)]" "sd_nextpid (set_proc s i f) = sd_nextpid s"
  "sd_initproc (set_proc s i f) = sd_initproc s" "sd_cpus (set_proc s i f) = sd_cpus s"
  by (simp_all add: set_proc_def)

lemma set_cpu_simps [simp]:
  "sd_procs (set_cpu s c f) = sd_procs s" "sd_nextpid (set_cpu s c f) = sd_nextpid s" "sd_initproc (set_cpu s c f) = sd_initproc s"
  by (simp_all add: set_cpu_def)

lemma pset_simps [simp]: "pl_s (pset i f s) = set_proc (pl_s s) i f" "pl_m (pset i f s) = pl_m s"
  by (simp_all add: pset_def)

definition ident :: "proc \<Rightarrow> procstate \<times> nat option \<times> int \<times> int" where
  "ident p = (p_state p, p_parent p, p_pid p, p_xstate p)"

lemma slot_of_ident: "ident p = ident q \<Longrightarrow> slot_of p = slot_of q"
  by (auto simp: ident_def slot_of_def split: procstate.splits)

definition same_id :: "nat \<Rightarrow> 'w kst \<Rightarrow> 'w kst \<Rightarrow> bool" where
  "same_id j s s' \<longleftrightarrow> (\<exists>p. pl_s s' = (pl_s s)\<lparr>sd_procs := (sd_procs (pl_s s))[j := p]\<rparr> \<and> ident p = ident (pget s j))"

lemma same_id_refl [simp]: "same_id j s s"
  unfolding same_id_def by (rule exI [of _ "pget s j"]) simp

lemma same_id_mem [simp]: "same_id j s0 (s\<lparr>pl_m := m\<rparr>) = same_id j s0 s"
  by (simp add: same_id_def)

lemma same_id_ident: "same_id j s s' \<Longrightarrow> ident (pget s' j) = ident (pget s j)"
  by (cases "j < length (sd_procs (pl_s s))") (auto simp: same_id_def list_update_beyond)

lemma same_id_length: "same_id j s s' \<Longrightarrow> length (sd_procs (pl_s s')) = length (sd_procs (pl_s s))"
  by (auto simp: same_id_def)

lemma same_id_other: "same_id j s s' \<Longrightarrow> k \<noteq> j \<Longrightarrow> pget s' k = pget s k"
  by (auto simp: same_id_def)

lemma same_id_trans:
  assumes "same_id j s s'" and "same_id j s' s''"
  shows "same_id j s s''"
proof -
  from assms obtain p q where "pl_s s' = (pl_s s)\<lparr>sd_procs := (sd_procs (pl_s s))[j := p]\<rparr>"
    "pl_s s'' = (pl_s s')\<lparr>sd_procs := (sd_procs (pl_s s'))[j := q]\<rparr>" "ident q = ident (pget s' j)"
    by (auto simp: same_id_def)
  with same_id_ident [OF assms(1)] show ?thesis unfolding same_id_def by (intro exI [of _ q]) simp
qed

lemma same_id_pset: "same_id j s0 s \<Longrightarrow> (\<And>p. ident (f p) = ident p) \<Longrightarrow> same_id j s0 (pset j f s)"
proof (erule same_id_trans)
  assume "\<And>p. ident (f p) = ident p"
  then show "same_id j s (pset j f s)" by (auto simp: same_id_def set_proc_def)
qed

lemma res_all_bindI: "res_all P m \<Longrightarrow> (\<And>x. P x \<Longrightarrow> res_all Q (f x)) \<Longrightarrow> res_all Q (rbind m f)"
  by (cases m) auto

lemma in_k_same_id: "same_id j s0 s \<Longrightarrow> res_all (\<lambda>(r, s'). same_id j s0 s') (in_k g s)"
  by (cases "g (mm_k (pl_m s))") (auto simp: in_k_def)

lemma in_kmem_same_id: "same_id j s0 s \<Longrightarrow> res_all (same_id j s0) (in_kmem g s)"
  by (cases "g (mm_k (pl_m s))") (auto simp: in_kmem_def)

lemma destroy_vmas_same_id: "same_id j s0 s \<Longrightarrow> res_all (same_id j s0) (destroy_vmas e j s)"
proof -
  assume k: "same_id j s0 s"
  show ?thesis
  proof (cases "vma_destroy_all (pe_k e) (pfe e) (pget s j) (pl_m s)")
    case (Ok x)
    then obtain vs m where "x = ((pget s j)\<lparr>p_vmas := vs\<rparr>, m)" by (auto simp: vma_destroy_all_def rmap_Ok_iff)
    moreover have "same_id j s (pset j (\<lambda>_. (pget s j)\<lparr>p_vmas := vs\<rparr>) (s\<lparr>pl_m := m\<rparr>))" for vs m
      by (simp add: same_id_def set_proc_def) (rule exI [of _ "(pget s j)\<lparr>p_vmas := vs\<rparr>"], simp add: ident_def)
    ultimately show ?thesis using Ok same_id_trans [OF k] by (simp add: destroy_vmas_def)
  qed (simp add: destroy_vmas_def)
qed

lemma freeprocvm_same_id:
  assumes "same_id j s0 s"
  shows "res_all (same_id j s0) (freeprocvm e j s)"
proof -
  have step: "res_all (same_id j s0) (if b then in_kmem g s1 else Ok s1)" if "same_id j s0 s1" for b g s1
    using in_kmem_same_id [OF that] that by simp
  have fin: "same_id j s0 (pset j (\<lambda>p. p\<lparr>p_trapframe_pa := 0, p_kpagetable := 0, p_kstack := 0, p_pagetable := 0, p_sz := 0\<rparr>) s1)"
    if "same_id j s0 s1" for s1
    by (rule same_id_pset [OF that]) (simp add: ident_def)
  show ?thesis
    unfolding freeprocvm_def Let_def
    by (intro res_all_bindI [OF step] assms) (assumption, subst res_all_map, rule res_all_mono [OF step], assumption, rule fin)
qed

text \<open>After \<^verbatim>\<open>freeproc\<close> the slot is free and has no parent.\<close>

definition freed :: "nat \<Rightarrow> 'w kst \<Rightarrow> 'w kst \<Rightarrow> bool" where
  "freed j s s' \<longleftrightarrow> (\<exists>p. pl_s s' = (pl_s s)\<lparr>sd_procs := (sd_procs (pl_s s))[j := p]\<rparr> \<and> p_state p = UNUSED \<and> p_parent p = None)"

lemma freed_clear: "same_id j s0 s \<Longrightarrow> freed j s0 (pset j clear_proc s)"
  by (auto simp: freed_def same_id_def set_proc_def clear_proc_def mlfq_reset_def signal_proc_init_def)

lemma freeproc_freed: "same_id j s0 s \<Longrightarrow> res_all (freed j s0) (freeproc e j s)"
  unfolding freeproc_def
  by (intro res_all_bindI [OF destroy_vmas_same_id]) (auto intro: res_all_mono [OF freeprocvm_same_id] freed_clear)

lemma alloc_fail_freed: "same_id j s0 s \<Longrightarrow> res_all (\<lambda>(r, s'). r = None \<and> freed j s0 s') (alloc_fail e j s)"
  using freeproc_freed by (fastforce simp: alloc_fail_def)

lemma resync_same_id: "same_id j s0 s \<Longrightarrow> res_all (same_id j s0) (resync_parent e p s)"
  unfolding resync_parent_def by (rule res_all_bindI [OF in_k_same_id]) (auto intro: in_kmem_same_id)

lemma fork_bad_freed: "same_id j s0 s \<Longrightarrow> res_all (\<lambda>(r, s'). r = -1 \<and> freed j s0 s') (fork_bad e p j s)"
  unfolding fork_bad_def by (rule res_all_bindI [OF resync_same_id]) (auto intro: freeproc_freed)

section \<open>Creation refines the tree\<close>

text \<open>The state in which \<^verbatim>\<open>allocproc\<close> has given slot \<open>j\<close> a process id.\<close>

abbreviation (input) with_pid :: "nat \<Rightarrow> 'w kst \<Rightarrow> 'w kst" where
  "with_pid j s \<equiv> pset j (\<lambda>p. signal_proc_init (p\<lparr>p_pid := sd_nextpid (pl_s s), p_pgid := sd_nextpid (pl_s s)\<rparr>))
     (s\<lparr>pl_s := (pl_s s)\<lparr>sd_nextpid := sd_nextpid (pl_s s) + 1\<rparr>\<rparr>)"

lemma allocproc_cases:
  "res_all (\<lambda>(r, s'). case r of
       None \<Rightarrow> s' = s \<or> (\<exists>j. find_slot (\<lambda>p. p_state p = UNUSED) (sd_procs (pl_s s)) = Some j \<and> (same_id j (with_pid j s) s' \<or> freed j (with_pid j s) s'))
     | Some j \<Rightarrow> find_slot (\<lambda>p. p_state p = UNUSED) (sd_procs (pl_s s)) = Some j \<and> same_id j (with_pid j s) s') (allocproc e s)"
proof (cases "find_slot (\<lambda>p. p_state p = UNUSED) (sd_procs (pl_s s))")
  case (Some j)
  define W where "W = with_pid j s"
  define Q where "Q = (\<lambda>(r, s'). case r of None \<Rightarrow> same_id j W s' \<or> freed j W s' | Some i \<Rightarrow> i = j \<and> same_id j W s')"
  have Q: "Q (None, s') \<longleftrightarrow> same_id j W s' \<or> freed j W s'" "Q (Some i, s') \<longleftrightarrow> i = j \<and> same_id j W s'" for i s'
    by (simp_all add: Q_def)
  have fail: "res_all Q (alloc_fail e j s')" if "same_id j W s'" for s'
    by (rule res_all_mono [OF alloc_fail_freed [OF that]]) (auto simp: Q)
  have W: "pl_m W = pl_m s" by (simp add: W_def)
  have "res_all Q (allocproc e s)"
    unfolding allocproc_def Some option.case Let_def allocpid_def split_def fst_conv snd_conv W_def [symmetric]
    by (auto intro!: res_all_bindI [OF in_k_same_id] res_all_bindI [OF in_kmem_same_id] fail same_id_pset
      simp: Q ident_def mlfq_reset_def simp del: res_all_bind) (auto intro!: same_id_pset simp: ident_def)
  then show ?thesis by (rule res_all_mono) (auto simp: Some Q_def W_def split: option.splits)
qed (simp add: allocproc_def)

text \<open>Operations on memory leave the scheduler state alone.\<close>

lemma in_k_sched: "res_all (\<lambda>(r, s'). pl_s s' = pl_s s) (in_k g s)" "res_all (\<lambda>s'. pl_s s' = pl_s s) (in_kmem h s)"
  by (cases "g (mm_k (pl_m s))"; auto simp: in_k_def) (cases "h (mm_k (pl_m s))"; auto simp: in_kmem_def)

lemma resync_sched: "res_all (\<lambda>s'. pl_s s' = pl_s s) (resync_parent e p s)"
  unfolding resync_parent_def
  by (rule res_all_bindI [OF in_k_sched(1)]) (auto intro!: res_all_mono [OF in_k_sched(2)])

lemma vma_fork_same_id:
  assumes "same_id j s0 s"
  shows "res_all (\<lambda>(r, np, m). same_id j s0 (pset j (\<lambda>_. np) (s\<lparr>pl_m := m\<rparr>)) \<and> p_sz np = p_sz (pget s j)) (vma_fork k fe p (pget s j) (pl_m s))"
proof (cases "vma_fork k fe p (pget s j) (pl_m s)")
  case (Ok x)
  obtain r np m where x: "x = (r, np, m)" by (cases x)
  obtain vs where np: "np = (pget s j)\<lparr>p_vmas := vs\<rparr>"
    using vma_fork_cases [OF Ok [unfolded x]] by (fastforce simp: vma_destroy_all_def rmap_Ok_iff)
  have "same_id j s (pset j (\<lambda>_. np) (s\<lparr>pl_m := m\<rparr>))"
    by (simp add: same_id_def set_proc_def) (rule exI [of _ np], simp add: np ident_def)
  with Ok x np same_id_trans [OF assms] show ?thesis by simp
qed simp

text \<open>\<^verbatim>\<open>fork\<close> fails with the slot free, or ends with \<open>fork_done\<close> on a slot whose identity is still that of \<^verbatim>\<open>allocproc\<close>.\<close>

lemma fork_cases:
  "res_all (\<lambda>(r, s').
      r = -1 \<and> (s' = s \<or> (\<exists>j. find_slot (\<lambda>p. p_state p = UNUSED) (sd_procs (pl_s s)) = Some j \<and> (same_id j (with_pid j s) s' \<or> freed j (with_pid j s) s'))) \<or>
      (\<exists>j s1. find_slot (\<lambda>p. p_state p = UNUSED) (sd_procs (pl_s s)) = Some j \<and> same_id j (with_pid j s) s1 \<and>
        (i \<noteq> j \<longrightarrow> p_sz (pget s1 j) = p_sz (pget s i)) \<and> fork_done e i j s1 = Ok (r, s')))
    (fork e i s)"
proof -
  let ?slot = "find_slot (\<lambda>p. p_state p = UNUSED) (sd_procs (pl_s s))"
  define Q where "Q = (\<lambda>(r, s'). r = -1 \<and> (s' = s \<or> (\<exists>j. ?slot = Some j \<and> (same_id j (with_pid j s) s' \<or> freed j (with_pid j s) s'))) \<or>
      (\<exists>j s1. ?slot = Some j \<and> same_id j (with_pid j s) s1 \<and> (i \<noteq> j \<longrightarrow> p_sz (pget s1 j) = p_sz (pget s i)) \<and> fork_done e i j s1 = Ok (r, s')))"
  have *: "res_all Q (case r of None \<Rightarrow> Ok (-1, s1) | Some j \<Rightarrow> F j s1)"
    if "case r of None \<Rightarrow> s1 = s \<or> (\<exists>j. ?slot = Some j \<and> (same_id j (with_pid j s) s1 \<or> freed j (with_pid j s) s1))
      | Some j \<Rightarrow> ?slot = Some j \<and> same_id j (with_pid j s) s1"
      "\<And>j. ?slot = Some j \<Longrightarrow> same_id j (with_pid j s) s1 \<Longrightarrow> res_all Q (F j s1)" for r s1 F
    using that by (cases r) (auto simp: Q_def)
  have bad: "res_all Q (fork_bad e p j s1)" if "?slot = Some j" "same_id j (with_pid j s) s1" for p j s1
    by (rule res_all_mono [OF fork_bad_freed [OF that(2)]]) (use that(1) in \<open>auto simp: Q_def\<close>)
  have ok: "res_all Q (fork_done e i j s1)" if "?slot = Some j" "same_id j (with_pid j s) s1" "i \<noteq> j \<longrightarrow> p_sz (pget s1 j) = p_sz (pget s i)" for j s1
    using that by (cases "fork_done e i j s1") (fastforce simp: Q_def)+
  have chk: "res_all Q (rbind (in_k g s1) (\<lambda>(r :: int, s2). if r < 0 then fork_bad e p j s2 else F s2))"
    if "?slot = Some j" "same_id j (with_pid j s) s1"
      "\<And>s2. same_id j (with_pid j s) s2 \<Longrightarrow> p_sz (pget s2 j) = p_sz (pget s1 j) \<Longrightarrow> res_all Q (F s2)" for j s1 p g F
  proof (rule res_all_bindI [OF in_k_sched(1)])
    fix x :: "int \<times> 'a kst"
    assume "case x of (r, s') \<Rightarrow> pl_s s' = pl_s s1"
    then obtain r s2 where x: "x = (r, s2)" "pl_s s2 = pl_s s1" by (cases x) auto
    then have "same_id j (with_pid j s) s2" using that(2) by (simp add: same_id_def)
    then show "res_all Q (case x of (r, s2) \<Rightarrow> if r < 0 then fork_bad e p j s2 else F s2)"
      using bad [OF that(1)] that(3) x by simp
  qed
  have areas: "res_all Q (rbind (vma_fork k fe p (pget s1 j) (pl_m s1))
      (\<lambda>(r, np, m). if r < 0 then fork_bad e p j (pset j (\<lambda>_. np) (s1\<lparr>pl_m := m\<rparr>)) else F (pset j (\<lambda>_. np) (s1\<lparr>pl_m := m\<rparr>))))"
    if "?slot = Some j" "same_id j (with_pid j s) s1"
      "\<And>s2. same_id j (with_pid j s) s2 \<Longrightarrow> p_sz (pget s2 j) = p_sz (pget s1 j) \<Longrightarrow> res_all Q (F s2)" for k fe p j s1 F
    by (rule res_all_bindI [OF vma_fork_same_id [OF that(2)]]) (use that bad same_id_length [OF that(2)] in \<open>auto simp: find_slot_Some\<close>)
  have "res_all Q (fork e i s)"
    unfolding fork_def
  proof (rule res_all_bindI [OF allocproc_cases], clarify, rule *, assumption)
    fix s1 j
    assume slot: "?slot = Some j" and k: "same_id j (with_pid j s) s1"
    have sz: "same_id j (with_pid j s) (pset j (\<lambda>p. p\<lparr>p_sz := z\<rparr>) s2)" if "same_id j (with_pid j s) s2" for z s2
      using that by (rule same_id_pset) (simp add: ident_def)
    have len: "j < length (sd_procs (pl_s s2))" if "same_id j (with_pid j s) s2" for s2
      using same_id_length [OF that] slot by (simp add: find_slot_Some)
    have par: "i \<noteq> j \<Longrightarrow> pget s1 i = pget s i" using same_id_other [OF k] by simp
    note [simp] = len par
    show "res_all Q (let k = pe_k e; p = pget s1 i; np = pget s1 j; pt = p_pagetable np; kpt = p_kpagetable np
           in rbind (in_k (uvmcopy k (p_pagetable p) pt (p_sz p)) s1) (\<lambda>(r, s2).
                if r < 0 then fork_bad e p j s2
                else let s3 = pset j (\<lambda>np. np\<lparr>p_sz := p_sz p\<rparr>) s2
                     in rbind (in_k (uvm_stack_copy k (p_pagetable p) pt) s3) (\<lambda>(r, s4).
                          if r < 0 then fork_bad e p j s4
                          else rbind (vma_fork k (pfe e) p (pget s4 j) (pl_m s4)) (\<lambda>(r, np1, m1).
                            let s5 = pset j (\<lambda>_. np1) (s4\<lparr>pl_m := m1\<rparr>)
                            in if r < 0 then fork_bad e p j s5
                               else rbind (in_k (upg2ukpg k pt kpt 0 (p_sz p)) s5) (\<lambda>(r, s6).
                                 if r < 0 then fork_bad e p j s6
                                 else rbind (in_k (upg2ukpg k pt kpt USER_STACK_START USER_STACK_TOP) s6) (\<lambda>(r, s7).
                                   if r < 0 then fork_bad e p j s7 else fork_done e i j s7))))))"
      unfolding Let_def by (rule chk [OF slot k], rule chk [OF slot sz], assumption, rule areas [OF slot], assumption,
        rule chk [OF slot], assumption, rule chk [OF slot], assumption, rule ok [OF slot]) simp_all
  qed
  then show ?thesis by (simp add: Q_def)
qed

text \<open>The child that \<open>fork_done\<close> leaves.\<close>

definition forked :: "nat \<Rightarrow> proc \<Rightarrow> proc \<Rightarrow> proc" where
  "forked i p np = (signal_proc_fork p (np\<lparr>p_parent := Some i, p_trapframe := (p_trapframe p)\<lparr>tf_a0 := 0\<rparr>, p_name := take 15 (p_name p),
     p_trace_mask := p_trace_mask p, p_pgid := p_pgid p\<rparr>))\<lparr>p_state := RUNNABLE\<rparr>"

lemma fork_done_sched:
  assumes "fork_done e i j s = Ok (r, s')" and "j < length (sd_procs (pl_s s))"
  shows "pl_s s' = set_proc (pl_s s) j (forked i (pget s i)) \<and> r = p_pid (pget s j)"
proof -
  let ?s1 = "pset j (\<lambda>np. np\<lparr>p_parent := Some i, p_trapframe := (p_trapframe (pget s i))\<lparr>tf_a0 := 0\<rparr>\<rparr>) s"
  obtain m where "rmap (Pair (p_pid (pget (pset j (\<lambda>np. (signal_proc_fork (pget s i) (np\<lparr>p_name := take 15 (p_name (pget s i)),
        p_trace_mask := p_trace_mask (pget s i), p_pgid := p_pgid (pget s i)\<rparr>))\<lparr>p_state := RUNNABLE\<rparr>) (?s1\<lparr>pl_m := m\<rparr>)) j)))
      (resync_parent e (pget s i) (pset j (\<lambda>np. (signal_proc_fork (pget s i) (np\<lparr>p_name := take 15 (p_name (pget s i)),
        p_trace_mask := p_trace_mask (pget s i), p_pgid := p_pgid (pget s i)\<rparr>))\<lparr>p_state := RUNNABLE\<rparr>) (?s1\<lparr>pl_m := m\<rparr>))) = Ok (r, s')"
    using assms(1) unfolding fork_done_def Let_def by (auto simp only: rbind_Ok_iff)
  then obtain s2 where s2: "resync_parent e (pget s i) (pset j (\<lambda>np. (signal_proc_fork (pget s i) (np\<lparr>p_name := take 15 (p_name (pget s i)),
        p_trace_mask := p_trace_mask (pget s i), p_pgid := p_pgid (pget s i)\<rparr>))\<lparr>p_state := RUNNABLE\<rparr>) (?s1\<lparr>pl_m := m\<rparr>)) = Ok s2"
    "s' = s2" "r = p_pid (pget s j)"
    using assms(2) by (auto simp: rmap_Ok_iff signal_proc_fork_def)
  show ?thesis
    using res_allD [OF resync_sched s2(1)] s2(2,3) assms(2) by (simp add: set_proc_def forked_def signal_proc_fork_def)
qed

text \<open>A free slot has no parent.\<close>

definition slots_clean :: "sched \<Rightarrow> bool" where
  "slots_clean s \<longleftrightarrow> length (sd_procs s) = NPROC \<and> (\<forall>j < NPROC. p_state (sd_procs s ! j) = UNUSED \<longrightarrow> p_parent (sd_procs s ! j) = None)"

lemma slot_free_iff [simp]: "slot_of p = Free \<longleftrightarrow> p_state p = UNUSED"
  by (auto simp: slot_of_def split: procstate.splits)

lemma slots_clean_update:
  assumes "slots_clean s" and "p_state p = UNUSED \<Longrightarrow> p_parent p = None"
  shows "slots_clean (s\<lparr>sd_procs := (sd_procs s)[j := p], sd_nextpid := n\<rparr>)"
  using assms by (auto simp: slots_clean_def nth_upd)

lemma tree_update:
  "tree_of (s\<lparr>sd_procs := (sd_procs s)[j := p], sd_nextpid := n\<rparr>) =
     (tree_of s)\<lparr>tr_slots := (tr_slots (tree_of s))[j := slot_of p], tr_next := n\<rparr>"
  by (simp add: tree_of_def map_update)

lemma alloc_slot:
  assumes "slots_clean (pl_s s)" and slot: "find_slot (\<lambda>p. p_state p = UNUSED) (sd_procs (pl_s s)) = Some j"
    and "same_id j (with_pid j s) s1 \<or> freed j (with_pid j s) s1"
  shows "pl_s s1 = (pl_s s)\<lparr>sd_procs := (sd_procs (pl_s s))[j := pget s1 j], sd_nextpid := sd_nextpid (pl_s s) + 1\<rparr>"
    and "p_state (pget s1 j) = UNUSED" and "p_parent (pget s1 j) = None"
    and "same_id j (with_pid j s) s1 \<Longrightarrow> p_pid (pget s1 j) = sd_nextpid (pl_s s)"
proof -
  have j: "j < length (sd_procs (pl_s s))" "p_state (pget s j) = UNUSED" "p_parent (pget s j) = None"
    using assms(1,2) by (auto simp: find_slot_Some slots_clean_def)
  show "pl_s s1 = (pl_s s)\<lparr>sd_procs := (sd_procs (pl_s s))[j := pget s1 j], sd_nextpid := sd_nextpid (pl_s s) + 1\<rparr>"
    "p_state (pget s1 j) = UNUSED" "p_parent (pget s1 j) = None"
    using assms(3) j by (auto simp: same_id_def freed_def set_proc_def signal_proc_init_def ident_def)
  show "p_pid (pget s1 j) = sd_nextpid (pl_s s)" if "same_id j (with_pid j s) s1"
    using same_id_ident [OF that] j by (simp add: ident_def signal_proc_init_def)
qed

lemma fork_tree:
  assumes "slots_clean (pl_s s)" and "i < NPROC" and "p_state (pget s i) \<noteq> UNUSED" and "fork e i s = Ok (r, s')"
  shows "slots_clean (pl_s s') \<and>
    (r = -1 \<and> (tree_of (pl_s s') = tree_of (pl_s s) \<or> tree_of (pl_s s') = tree_skip (tree_of (pl_s s))) \<or>
     (\<exists>j < NPROC. find_slot (\<lambda>p. p_state p = UNUSED) (sd_procs (pl_s s)) = Some j \<and> r = sd_nextpid (pl_s s) \<and>
        tree_of (pl_s s') = tree_fork i j (tree_of (pl_s s))))"
proof -
  let ?slot = "find_slot (\<lambda>p. p_state p = UNUSED) (sd_procs (pl_s s))"
  have len: "length (sd_procs (pl_s s)) = NPROC" using assms(1) by (simp add: slots_clean_def)
  from res_allD [OF fork_cases assms(4), simplified] consider
      (same) "r = -1" "s' = s"
    | (fail) j where "r = -1" "?slot = Some j" "same_id j (with_pid j s) s' \<or> freed j (with_pid j s) s'"
    | (ok) j s1 where "?slot = Some j" "same_id j (with_pid j s) s1" "fork_done e i j s1 = Ok (r, s')"
    by blast
  then show ?thesis
  proof cases
    case same
    with assms(1) show ?thesis by simp
  next
    case (fail j)
    note p = alloc_slot [OF assms(1) fail(2,3)]
    have j: "j < NPROC" "slot_of (pget s j) = Free" using fail(2) len by (auto simp: find_slot_Some)
    have "slot_of (pget s' j) = Free" using p by simp
    then have "tree_of (pl_s s') = tree_skip (tree_of (pl_s s))"
      using j len by (subst p(1)) (simp add: tree_update tree_skip_def, simp add: tree_of_def list_update_same_conv slot_of_def)
    moreover have "slots_clean (pl_s s')" using slots_clean_update [OF assms(1)] p by (subst p(1)) blast
    ultimately show ?thesis using fail(1) by simp
  next
    case (ok j s1)
    define p where "p = pget s1 j"
    define q where "q = forked i (pget s1 i) p"
    note p = alloc_slot(1,4) [OF assms(1) ok(1) disjI1, OF ok(2), folded p_def]
    have j: "j < NPROC" using ok(1) len by (auto simp: find_slot_Some)
    have "j < length (sd_procs (pl_s s1))" using j len by (simp add: p(1))
    from fork_done_sched [OF ok(3) this] have d: "pl_s s' = (pl_s s1)\<lparr>sd_procs := (sd_procs (pl_s s1))[j := q]\<rparr>" "r = p_pid p"
      by (simp_all add: set_proc_def p_def q_def)
    have s': "pl_s s' = (pl_s s)\<lparr>sd_procs := (sd_procs (pl_s s))[j := q], sd_nextpid := sd_nextpid (pl_s s) + 1\<rparr>"
      unfolding d(1) by (simp add: p(1))
    have "slot_of q = Live (Some i) (sd_nextpid (pl_s s))" "p_state q = RUNNABLE"
      using p(2) ok(2) by (simp_all add: q_def forked_def signal_proc_fork_def slot_of_def)
    with s' d(2) ok j slots_clean_update [OF assms(1), of q] p(2) show ?thesis
      by (simp add: tree_update tree_fork_def) (simp add: tree_of_def)
  qed
qed

section \<open>Operations the tree does not see\<close>

definition calm :: "sched \<Rightarrow> sched \<Rightarrow> bool" where
  "calm s s' \<longleftrightarrow> map (\<lambda>p. (slot_of p, p_parent p)) (sd_procs s') = map (\<lambda>p. (slot_of p, p_parent p)) (sd_procs s) \<and>
     sd_nextpid s' = sd_nextpid s \<and> sd_initproc s' = sd_initproc s"

lemma calm_refl [simp]: "calm s s"
  by (simp add: calm_def)

lemma calm_trans [trans]: "calm s s1 \<Longrightarrow> calm s1 s2 \<Longrightarrow> calm s s2"
  by (simp add: calm_def)

lemma calm_iff:
  "calm s s' \<longleftrightarrow> length (sd_procs s') = length (sd_procs s) \<and>
    (\<forall>j < length (sd_procs s). slot_of (sd_procs s' ! j) = slot_of (sd_procs s ! j) \<and> p_parent (sd_procs s' ! j) = p_parent (sd_procs s ! j)) \<and>
    sd_nextpid s' = sd_nextpid s \<and> sd_initproc s' = sd_initproc s"
  by (auto simp: calm_def list_eq_iff_nth_eq)

lemma calm_tree: "calm s s' \<Longrightarrow> tree_of s' = tree_of s"
  by (auto simp: calm_iff tree_of_def list_eq_iff_nth_eq)

lemma calm_clean: "calm s s' \<Longrightarrow> slots_clean s \<Longrightarrow> slots_clean s'"
  by (auto simp: calm_iff slots_clean_def simp flip: slot_free_iff)

lemma clean_set_proc: "slots_clean s \<Longrightarrow> p_state (f (sd_procs s ! i)) \<noteq> UNUSED \<Longrightarrow> slots_clean (set_proc s i f)"
  by (auto simp: slots_clean_def nth_upd)

lemma clean_cpu [simp]: "slots_clean (set_cpu s c f) = slots_clean s" "slots_clean (run_proc_back s c) = slots_clean s"
  by (simp_all add: slots_clean_def run_proc_back_def)

lemma calm_set_proc:
  "slot_of (f (sd_procs s ! i)) = slot_of (sd_procs s ! i) \<Longrightarrow> p_parent (f (sd_procs s ! i)) = p_parent (sd_procs s ! i) \<Longrightarrow> calm s (set_proc s i f)"
  by (auto simp: calm_iff nth_upd)

lemma calm_map:
  "(\<And>p. slot_of (f p) = slot_of p \<and> p_parent (f p) = p_parent p) \<Longrightarrow> calm s (s\<lparr>sd_procs := map f (sd_procs s)\<rparr>)"
  by (auto simp: calm_iff)

lemma calm_same_id: "same_id j s s' \<Longrightarrow> calm (pl_s s) (pl_s s')"
  by (auto simp: same_id_def calm_iff nth_upd ident_def intro: slot_of_ident [unfolded ident_def])

lemma slot_wakeup1 [simp]: "slot_of (wakeup1 c p) = slot_of p" "p_parent (wakeup1 c p) = p_parent p"
  by (auto simp: wakeup1_def slot_of_def)

lemma slot_mark [simp]: "slot_of (signal_mark_locked p n) = slot_of p" "p_parent (signal_mark_locked p n) = p_parent p"
  by (cases "p_state p"; simp add: signal_mark_locked_def slot_of_def Let_def)+

lemma slot_send [simp]: "slot_of (snd (signal_send_locked p n)) = slot_of p" "p_parent (snd (signal_send_locked p n)) = p_parent p"
  by (simp_all add: signal_send_locked_def)

lemma calm_cpu [simp]: "calm s (set_cpu s' c f) = calm s s'" "calm s (run_proc_back s' c) = calm s s'"
  by (simp_all add: calm_def run_proc_back_def)

section \<open>Termination refines the tree\<close>

lemma slot_set_parent: "slot_of (p\<lparr>p_parent := q\<rparr>) = set_parent q (slot_of p)"
  by (simp add: slot_of_def split: procstate.split)

lemma slot_zombie: "is_live (slot_of p) \<Longrightarrow> slot_of (p\<lparr>p_xstate := x, p_state := ZOMBIE\<rparr>) = die x (slot_of p)"
  by (auto simp: slot_of_def split: procstate.splits)

lemma slot_parent_of: "p_state p \<noteq> UNUSED \<or> p_parent p = None \<Longrightarrow> slot_parent (slot_of p) = p_parent p"
  by (auto simp: slot_of_def split: procstate.split)

lemma is_live_set_parent [simp]: "is_live (set_parent q z) = is_live z"
  by (cases z) auto

lemma reparent_tree:
  assumes "slots_clean s"
  shows "tr_slots (tree_of (reparent s i)) = map (\<lambda>z. if slot_parent z = Some i then set_parent (sd_initproc s) z else z) (map slot_of (sd_procs s))"
    and "slots_clean (reparent s i)"
proof -
  have "slot_parent (slot_of p) = p_parent p" if "p \<in> set (sd_procs s)" for p
    using assms that slot_parent_of [of p] by (auto simp: slots_clean_def in_set_conv_nth)
  then show "tr_slots (tree_of (reparent s i)) = map (\<lambda>z. if slot_parent z = Some i then set_parent (sd_initproc s) z else z) (map slot_of (sd_procs s))"
    by (simp add: tree_of_def reparent_def slot_set_parent)
  show "slots_clean (reparent s i)" using assms by (auto simp: slots_clean_def reparent_def)
qed

lemma zombie_tree:
  assumes "slots_clean (pl_s s)" and "i < NPROC" and "is_live (slot_of (pget s i))"
  shows "slots_clean (pl_s (exit_zombie e c i x q s))" and "tree_of (pl_s (exit_zombie e c i x q s)) = tree_exit i x (tree_of (pl_s s))"
proof -
  let ?f = "\<lambda>p. wakeup1 (pe_slot e q) (snd (signal_send_locked p SIGCHLD))"
  let ?s1 = "reparent (pl_s s) i" and ?z = "\<lambda>p. p\<lparr>p_xstate := x, p_state := ZOMBIE\<rparr>"
  define s2 where "s2 = set_proc ?s1 q ?f"
  have s': "pl_s (exit_zombie e c i x q s) = run_proc_back (set_proc s2 i ?z) c"
    by (simp add: exit_zombie_def Let_def s2_def)
  have calm: "calm ?s1 s2" unfolding s2_def by (rule calm_set_proc) simp_all
  note r = reparent_tree [OF assms(1), of i]
  have len: "length (sd_procs s2) = NPROC" using calm_clean [OF calm r(2)] by (simp add: slots_clean_def)
  have live: "is_live (slot_of (sd_procs s2 ! i))"
    using assms calm len by (simp add: calm_iff) (auto simp: reparent_def slots_clean_def slot_set_parent)
  show "slots_clean (pl_s (exit_zombie e c i x q s))"
    unfolding s' clean_cpu by (rule clean_set_proc [OF calm_clean [OF calm r(2)]]) simp
  have "slot_of (?z (sd_procs s2 ! i)) = die x (tr_slots (tree_of s2) ! i)"
    using slot_zombie [OF live] len assms(2) by (simp add: tree_of_def)
  then have "tree_of (pl_s (exit_zombie e c i x q s)) = (tree_of s2)\<lparr>tr_slots := (tr_slots (tree_of s2))[i := die x (tr_slots (tree_of s2) ! i)]\<rparr>"
    unfolding s' by (simp add: tree_of_def run_proc_back_def map_update)
  also have "\<dots> = tree_exit i x (tree_of (pl_s s))"
    unfolding calm_tree [OF calm] tree_exit_def Let_def r(1) unfolding tree_of_sel by (simp add: tree_of_def reparent_def)
  finally show "tree_of (pl_s (exit_zombie e c i x q s)) = tree_exit i x (tree_of (pl_s s))" .
qed

lemma exit_tree:
  assumes clean: "slots_clean (pl_s s)" and i: "i < NPROC" "is_live (slot_of (pget s i))" and run: "exit e c i x s = Ok s'"
  shows "slots_clean (pl_s s')" and "tree_of (pl_s s') = tree_exit i x (tree_of (pl_s s))" and "sd_initproc (pl_s s) \<noteq> Some i"
proof -
  show "sd_initproc (pl_s s) \<noteq> Some i" using run by (auto simp: exit_def)
  then obtain m1 s2 m3 where s2: "destroy_vmas e i (s\<lparr>pl_m := m1\<rparr>) = Ok s2"
    and rest: "(case sd_initproc (pl_s s2) of None \<Rightarrow> Panic ''null''
      | Some ip \<Rightarrow> case p_parent (pget (pset ip (wakeup1 (pe_slot e ip)) (s2\<lparr>pl_m := m3\<rparr>)) i) of None \<Rightarrow> Panic ''null''
          | Some q \<Rightarrow> Ok (exit_zombie e c i x q (pset ip (wakeup1 (pe_slot e ip)) (s2\<lparr>pl_m := m3\<rparr>)))) = Ok s'"
    using run unfolding exit_def Let_def by (simp only: if_False rbind_Ok_iff) blast
  then obtain ip q where s': "s' = exit_zombie e c i x q (pset ip (wakeup1 (pe_slot e ip)) (s2\<lparr>pl_m := m3\<rparr>))"
    by (auto split: option.split_asm)
  let ?s4 = "pset ip (wakeup1 (pe_slot e ip)) (s2\<lparr>pl_m := m3\<rparr>)"
  have "same_id i s s2" using res_allD [OF destroy_vmas_same_id s2] by simp
  then have "calm (pl_s s) (pl_s s2)" by (rule calm_same_id)
  also have "calm (pl_s s2) (pl_s ?s4)" by (simp add: calm_set_proc)
  finally have calm: "calm (pl_s s) (pl_s ?s4)" .
  have live: "is_live (slot_of (pget ?s4 i))" using calm i clean by (simp add: calm_iff slots_clean_def)
  show "slots_clean (pl_s s')" unfolding s' by (rule zombie_tree(1) [OF calm_clean [OF calm clean] i(1) live])
  show "tree_of (pl_s s') = tree_exit i x (tree_of (pl_s s))"
    unfolding s' zombie_tree(2) [OF calm_clean [OF calm clean] i(1) live] calm_tree [OF calm] ..
qed

section \<open>Scheduling and signals\<close>

lemma slot_of_fields [simp]:
  "slot_of (p\<lparr>p_wait_ticks := w\<rparr>) = slot_of p" "slot_of (p\<lparr>p_queue_level := l\<rparr>) = slot_of p"
  "slot_of (p\<lparr>p_sched_ticks := l\<rparr>) = slot_of p" "slot_of (p\<lparr>p_boost_count := w\<rparr>) = slot_of p"
  "slot_of (p\<lparr>p_io_wakeup_count := w\<rparr>) = slot_of p" "slot_of (p\<lparr>p_device_wakeup_count := w\<rparr>) = slot_of p"
  "slot_of (p\<lparr>p_chan := a\<rparr>) = slot_of p" "slot_of (p\<lparr>p_interruptible_sleep := b\<rparr>) = slot_of p"
  by (auto intro!: slot_of_ident simp: ident_def)

lemma calm_boost: "calm s (mlfq_boost_if_needed s)"
proof -
  have "slot_of (boost_proc p) = slot_of p" "p_parent (boost_proc p) = p_parent p" for p by (simp_all add: boost_proc_def)
  then show ?thesis by (simp add: mlfq_boost_if_needed_def calm_iff)
qed

lemma calm_account: "calm s (account_runnable_wait s)"
  unfolding account_runnable_wait_def by (rule calm_map) simp

lemma calm_run: "p_state (sd_procs s ! i) = RUNNABLE \<Longrightarrow> calm s (run_proc s c i)"
  by (simp add: run_proc_def calm_set_proc slot_of_def)

lemma calm_scheduler: "calm s (scheduler s c)"
proof -
  obtain r s1 where p: "pick_next_proc (account_runnable_wait s) = (r, s1)" by fastforce
  note b = calm_trans [OF calm_account calm_boost, of s]
  from p show ?thesis
  proof (cases rule: pick_cases)
    case none
    with p b show ?thesis by (simp add: scheduler_def)
  next
    case (some l i)
    let ?b = "mlfq_boost_if_needed (account_runnable_wait s)"
    have "calm ?b s1" using some by (auto simp: pick_result_def calm_iff nth_upd)
    moreover have "p_state (sd_procs s1 ! i) = RUNNABLE" using some(3,6) by (auto simp: pick_result_def runnable_at_def nth_upd)
    then have "calm s1 (run_proc (set_cpu s1 c (\<lambda>cp. cp\<lparr>c_need_resched := False\<rparr>)) c i)"
      using calm_trans [OF _ calm_run, of s1 "set_cpu s1 c (\<lambda>cp. cp\<lparr>c_need_resched := False\<rparr>)"] by simp
    ultimately have "calm s (run_proc (set_cpu s1 c (\<lambda>cp. cp\<lparr>c_need_resched := False\<rparr>)) c i)" using b calm_trans by blast
    then show ?thesis using p some(1) by (simp add: scheduler_def)
  qed
qed

lemma calm_yield: "is_live (slot_of (sd_procs s ! i)) \<Longrightarrow> calm s (yield s c i)"
  by (auto simp: yield_def sched_on_yield_def Let_def slot_of_def split: procstate.splits intro!: calm_set_proc)

lemma calm_sleep: "is_live (slot_of (sd_procs s ! i)) \<Longrightarrow> calm s (snd (sleep_on s c i chan intr))"
  by (auto simp: sleep_on_def slot_of_def split: procstate.splits intro!: calm_set_proc)

lemma calm_sleep_back: "calm s (snd (sleep_on_back s i intr))"
  by (auto simp: sleep_on_back_def Let_def intro!: calm_set_proc)

lemma calm_promote: "calm s (mlfq_promote_on_wakeup s i reason)"
proof -
  have "slot_of (promote_proc p reason) = slot_of p" "p_parent (promote_proc p reason) = p_parent p" for p
    by (simp_all add: promote_proc_def Let_def)
  then show ?thesis by (auto simp: mlfq_promote_on_wakeup_def Let_def calm_iff nth_upd split: prod.split)
qed

lemma calm_wakeup_loop: "calm s (wakeup_loop s chan reason is)"
proof (induction "is" arbitrary: s)
  case (Cons i "is")
  have "calm s (if p_state (sd_procs s ! i) = SLEEPING \<and> p_chan (sd_procs s ! i) = chan
      then mlfq_promote_on_wakeup (set_proc s i (\<lambda>p. p\<lparr>p_state := RUNNABLE, p_last_wakeup_reason := reason\<rparr>)) i reason else s)"
    using calm_trans [OF calm_set_proc calm_promote] by (simp add: slot_of_def)
  from calm_trans [OF this Cons.IH] show ?case by simp
qed simp

lemma calm_signals:
  "calm s (s\<lparr>sd_procs := snd (signal_send_pgrp (sd_procs s) pgid n)\<rparr>)" "calm s (s\<lparr>sd_procs := snd (signal_send_pid (sd_procs s) pid n)\<rparr>)"
  by (auto simp: signal_send_pgrp_def signal_send_pid_def Let_def calm_iff nth_upd split: option.split)

section \<open>Reaping refines the tree\<close>

lemma freed_tree:
  assumes "freed j s s'" and "slots_clean (pl_s s)"
  shows "slots_clean (pl_s s')" and "tree_of (pl_s s') = tree_reap j (tree_of (pl_s s))"
proof -
  from assms(1) obtain p where p: "pl_s s' = (pl_s s)\<lparr>sd_procs := (sd_procs (pl_s s))[j := p]\<rparr>" "p_state p = UNUSED" "p_parent p = None"
    by (auto simp: freed_def)
  then show "slots_clean (pl_s s')" using assms(2) by (auto simp: slots_clean_def nth_upd)
  show "tree_of (pl_s s') = tree_reap j (tree_of (pl_s s))"
    using p by (simp add: tree_of_def tree_reap_def map_update slot_of_def)
qed

lemma wait_reap_cases:
  "res_all (\<lambda>(r, s'). r = WaitRet (-1) \<and> addr \<noteq> 0 \<and> same_id j s s' \<or> r = WaitRet (p_pid (pget s j)) \<and> freed j s s') (wait_reap e i addr j s)"
proof -
  have "res_all (\<lambda>(r, s'). r = WaitRet (-1) \<and> addr \<noteq> 0 \<and> same_id j s s' \<or> r = WaitRet (p_pid (pget s j)) \<and> freed j s s')
      (rbind (if addr \<noteq> 0 then rmap (\<lambda>(r, m). (r, s1\<lparr>pl_m := m\<rparr>)) (f s1) else Ok (0, s1))
        (\<lambda>(r, s2). if r < 0 then Ok (WaitRet (-1), s2) else rmap (Pair (WaitRet (p_pid (pget s j)))) (freeproc e j s2)))"
    if k: "same_id j s s1" for s1 and f :: "_ \<Rightarrow> (int \<times> _) res"
  proof (rule res_all_bindI)
    show "res_all (\<lambda>(r, s'). same_id j s s' \<and> (r < 0 \<longrightarrow> addr \<noteq> 0))
        (if addr \<noteq> 0 then rmap (\<lambda>(r, m). (r, s1\<lparr>pl_m := m\<rparr>)) (f s1) else Ok (0, s1))"
      using k by (cases "f s1") auto
  qed (auto intro: res_all_mono [OF freeproc_freed])
  then show ?thesis
    unfolding wait_reap_def Let_def by (rule res_all_bindI [OF freeprocvm_same_id [OF same_id_refl]])
qed

lemma wait_tree:
  assumes clean: "slots_clean (pl_s s)" and i: "i < NPROC" "is_live (slot_of (pget s i))" and run: "wait e c i addr s = Ok (r, s')"
  shows "slots_clean (pl_s s')"
    and "tree_of (pl_s s') = tree_of (pl_s s) \<or>
      (\<exists>j < NPROC. p_parent (pget s j) = Some i \<and> p_state (pget s j) = ZOMBIE \<and> tree_of (pl_s s') = tree_reap j (tree_of (pl_s s)))"
proof -
  let ?z = "first_idx (\<lambda>j. p_parent (pget s j) = Some i \<and> p_state (pget s j) = ZOMBIE) [0..<NPROC]"
  have "slots_clean (pl_s s') \<and> (tree_of (pl_s s') = tree_of (pl_s s) \<or>
      (\<exists>j < NPROC. p_parent (pget s j) = Some i \<and> p_state (pget s j) = ZOMBIE \<and> tree_of (pl_s s') = tree_reap j (tree_of (pl_s s))))"
  proof (cases ?z)
    case None
    obtain q sd where sleep: "sleep_on (pl_s s) c i (pe_slot e i) True = (q, sd)" by fastforce
    then have "s' = s \<or> pl_s s' = sd" using run [unfolded wait_def None option.case] by (auto split: if_splits option.splits)
    moreover have "calm (pl_s s) sd" using calm_sleep [OF i(2), of c "pe_slot e i" True] sleep by simp
    ultimately show ?thesis using clean calm_tree calm_clean by blast
  next
    case (Some j)
    then have j: "j < NPROC" "p_parent (pget s j) = Some i" "p_state (pget s j) = ZOMBIE"
      by (auto simp: first_idx_upt_iff)
    have "same_id j s s' \<or> freed j s s'"
      using res_allD [OF wait_reap_cases] run Some by (fastforce simp: wait_def)
    then show ?thesis
      using j freed_tree [of j s s'] clean calm_tree [OF calm_same_id] calm_clean [OF calm_same_id] by blast
  qed
  then show "slots_clean (pl_s s')" "tree_of (pl_s s') = tree_of (pl_s s) \<or>
      (\<exists>j < NPROC. p_parent (pget s j) = Some i \<and> p_state (pget s j) = ZOMBIE \<and> tree_of (pl_s s') = tree_reap j (tree_of (pl_s s)))"
    by blast+
qed

section \<open>The tree invariant\<close>

text \<open>
  The first process is live; every other process, live or dead, has a live parent that is older than itself; process ids of
  used slots are positive, below the next one, and different.
\<close>

definition kin_ok :: "slot list \<Rightarrow> nat \<Rightarrow> nat \<Rightarrow> bool" where
  "kin_ok zs ip j \<longleftrightarrow> slot_pid (zs ! ip) < slot_pid (zs ! j) \<and>
     (\<exists>q < NPROC. slot_parent (zs ! j) = Some q \<and> is_live (zs ! q) \<and> slot_pid (zs ! q) < slot_pid (zs ! j))"

definition slots_ok :: "slot list \<Rightarrow> int \<Rightarrow> nat \<Rightarrow> bool" where
  "slots_ok zs n ip \<longleftrightarrow> length zs = NPROC \<and> ip < NPROC \<and> is_live (zs ! ip) \<and>
     (\<forall>j < NPROC. zs ! j \<noteq> Free \<longrightarrow> 0 < slot_pid (zs ! j) \<and> slot_pid (zs ! j) < n \<and> (j \<noteq> ip \<longrightarrow> kin_ok zs ip j)) \<and>
     (\<forall>j < NPROC. \<forall>k < NPROC. j \<noteq> k \<longrightarrow> zs ! j \<noteq> Free \<longrightarrow> zs ! k \<noteq> Free \<longrightarrow> slot_pid (zs ! j) \<noteq> slot_pid (zs ! k))"

definition tree_ok :: "ptree \<Rightarrow> bool" where
  "tree_ok t \<longleftrightarrow> (\<exists>ip. tr_init t = Some ip \<and> slots_ok (tr_slots t) (tr_next t) ip)"

lemma slots_okD:
  assumes "slots_ok zs n ip"
  shows "length zs = NPROC" "ip < NPROC" "is_live (zs ! ip)"
    "j < NPROC \<Longrightarrow> zs ! j \<noteq> Free \<Longrightarrow> 0 < slot_pid (zs ! j)" "j < NPROC \<Longrightarrow> zs ! j \<noteq> Free \<Longrightarrow> slot_pid (zs ! j) < n"
    "j < NPROC \<Longrightarrow> zs ! j \<noteq> Free \<Longrightarrow> j \<noteq> ip \<Longrightarrow> kin_ok zs ip j"
    "j < NPROC \<Longrightarrow> k < NPROC \<Longrightarrow> j \<noteq> k \<Longrightarrow> zs ! j \<noteq> Free \<Longrightarrow> zs ! k \<noteq> Free \<Longrightarrow> slot_pid (zs ! j) \<noteq> slot_pid (zs ! k)"
  using assms by (auto simp: slots_ok_def)

lemma is_live_not_free: "is_live z \<Longrightarrow> z \<noteq> Free"
  by auto

lemma slot_set_parent_simps [simp]:
  "slot_pid (set_parent q z) = slot_pid z" "set_parent q z = Free \<longleftrightarrow> z = Free" "z \<noteq> Free \<Longrightarrow> slot_parent (set_parent q z) = q"
  "slot_pid (die x z) = slot_pid z" "die x z = Free \<longleftrightarrow> z = Free" "slot_parent (die x z) = slot_parent z" "\<not> is_live (die x z)"
  by (cases z; simp)+

lemma slots_ok_skip: "slots_ok zs n ip \<Longrightarrow> slots_ok zs (n + 1) ip"
  by (auto simp: slots_ok_def)

lemma slots_ok_fork:
  assumes ok: "slots_ok zs n ip" and i: "i < NPROC" "is_live (zs ! i)" and j: "j < NPROC" "zs ! j = Free"
  shows "slots_ok (zs[j := Live (Some i) n]) (n + 1) ip"
proof -
  note D = slots_okD [OF ok]
  have ne: "ip \<noteq> j" "i \<noteq> j" using i(2) j(2) D(3) by auto
  have lt: "slot_pid (zs ! i) < n" "slot_pid (zs ! ip) < n" "0 < n"
    using D(4,5) [OF i(1) is_live_not_free [OF i(2)]] D(5) [OF D(2) is_live_not_free [OF D(3)]] by auto
  have kin: "kin_ok (zs[j := Live (Some i) n]) ip k" if k: "k < NPROC" "k \<noteq> ip" "k \<noteq> j" "zs ! k \<noteq> Free" for k
  proof -
    from D(6) [OF k(1,4,2)] obtain q where "q < NPROC" "slot_parent (zs ! k) = Some q" "is_live (zs ! q)" "slot_pid (zs ! q) < slot_pid (zs ! k)"
      "slot_pid (zs ! ip) < slot_pid (zs ! k)" by (auto simp: kin_ok_def)
    with k ne j(2) D(1) show ?thesis unfolding kin_ok_def by (auto simp: nth_upd intro!: exI [of _ q])
  qed
  have new: "kin_ok (zs[j := Live (Some i) n]) ip j"
    using i j ne lt D(1) unfolding kin_ok_def by (auto simp: nth_upd intro!: exI [of _ i])
  show ?thesis
    unfolding slots_ok_def using D(1-3) ne lt kin new j(1) D(4,5,7) by (auto simp: nth_upd dest: D(5) less_imp_neq)
qed

lemma slots_ok_reap:
  assumes ok: "slots_ok zs n ip" and j: "j < NPROC" "\<not> is_live (zs ! j)"
  shows "slots_ok (zs[j := Free]) n ip"
proof -
  note D = slots_okD [OF ok]
  have ne: "ip \<noteq> j" using j(2) D(3) by auto
  have kin: "kin_ok (zs[j := Free]) ip k" if k: "k < NPROC" "k \<noteq> ip" "k \<noteq> j" "zs ! k \<noteq> Free" for k
  proof -
    from D(6) [OF k(1,4,2)] obtain q where "q < NPROC" "slot_parent (zs ! k) = Some q" "is_live (zs ! q)" "slot_pid (zs ! q) < slot_pid (zs ! k)"
      "slot_pid (zs ! ip) < slot_pid (zs ! k)" by (auto simp: kin_ok_def)
    with k ne j(2) D(1) show ?thesis unfolding kin_ok_def by (auto simp: nth_upd intro!: exI [of _ q])
  qed
  show ?thesis unfolding slots_ok_def using D(1-3) ne kin j(1) D(4,5,7) by (auto simp: nth_upd)
qed

lemma slots_ok_exit:
  assumes ok: "slots_ok zs n ip" and i: "i < NPROC" "is_live (zs ! i)" "i \<noteq> ip"
  defines "ws \<equiv> map (\<lambda>z. if slot_parent z = Some i then set_parent (Some ip) z else z) zs"
  shows "slots_ok (ws[i := die x (ws ! i)]) n ip"
proof -
  let ?zs = "ws[i := die x (ws ! i)]"
  note D = slots_okD [OF ok]
  have len: "length ws = NPROC" using D(1) by (simp add: ws_def)
  have ws: "slot_pid (ws ! k) = slot_pid (zs ! k)" "ws ! k = Free \<longleftrightarrow> zs ! k = Free" "is_live (ws ! k) = is_live (zs ! k)" if "k < NPROC" for k
    using that D(1) by (auto simp: ws_def)
  have zs: "slot_pid (?zs ! k) = slot_pid (zs ! k)" "?zs ! k = Free \<longleftrightarrow> zs ! k = Free" "k \<noteq> i \<Longrightarrow> is_live (?zs ! k) = is_live (zs ! k)"
    "slot_parent (?zs ! k) = (if slot_parent (zs ! k) = Some i then Some ip else slot_parent (zs ! k))" if "k < NPROC" for k
    using that ws [OF that] len D(1) by (auto simp: nth_upd ws_def dest: slot_set_parent_simps(3))
  have kin: "kin_ok ?zs ip k" if k: "k < NPROC" "k \<noteq> ip" "zs ! k \<noteq> Free" for k
  proof -
    from D(6) [OF k(1,3,2)] obtain q where q: "q < NPROC" "slot_parent (zs ! k) = Some q" "is_live (zs ! q)" "slot_pid (zs ! q) < slot_pid (zs ! k)"
      "slot_pid (zs ! ip) < slot_pid (zs ! k)" by (auto simp: kin_ok_def)
    with zs [OF k(1)] zs(1,3) [OF q(1)] zs(1,3) [OF D(2)] D(2,3) i(3) show ?thesis
      unfolding kin_ok_def by (cases "q = i") (auto intro!: exI [of _ ip] exI [of _ q])
  qed
  show ?thesis
    unfolding slots_ok_def using kin zs D i(3) len by auto
qed

section \<open>Steps of the system\<close>

text \<open>
  A process that runs calls \<^verbatim>\<open>fork\<close>, \<^verbatim>\<open>exit\<close>, \<^verbatim>\<open>wait\<close> or \<^verbatim>\<open>growproc\<close>, yields or sleeps; the scheduler, wakeups, the timer and
  signals act at any time, and all other kernel code changes only memory, files and devices.
\<close>

inductive proc_step :: "'w penv \<Rightarrow> 'w kst \<Rightarrow> 'w kst \<Rightarrow> bool" for e where
  forks: "i < NPROC \<Longrightarrow> p_state (pget s i) = RUNNING \<Longrightarrow> fork e i s = Ok (r, s') \<Longrightarrow> proc_step e s s'"
| exits: "i < NPROC \<Longrightarrow> p_state (pget s i) = RUNNING \<Longrightarrow> exit e c i x s = Ok s' \<Longrightarrow> proc_step e s s'"
| waits: "i < NPROC \<Longrightarrow> p_state (pget s i) = RUNNING \<Longrightarrow> wait e c i addr s = Ok (r, s') \<Longrightarrow> proc_step e s s'"
| grows: "i < NPROC \<Longrightarrow> p_state (pget s i) = RUNNING \<Longrightarrow> growproc e i n s = Ok (r, s') \<Longrightarrow> proc_step e s s'"
| yields: "i < NPROC \<Longrightarrow> p_state (pget s i) = RUNNING \<Longrightarrow> proc_step e s (s\<lparr>pl_s := yield (pl_s s) c i\<rparr>)"
| sleeps: "i < NPROC \<Longrightarrow> p_state (pget s i) = RUNNING \<Longrightarrow> proc_step e s (s\<lparr>pl_s := snd (sleep_on (pl_s s) c i chan intr)\<rparr>)"
| resumes: "i < NPROC \<Longrightarrow> p_state (pget s i) = RUNNING \<Longrightarrow> proc_step e s (s\<lparr>pl_s := snd (sleep_on_back (pl_s s) i intr)\<rparr>)"
| schedules: "proc_step e s (s\<lparr>pl_s := scheduler (pl_s s) c\<rparr>)"
| wakes: "proc_step e s (s\<lparr>pl_s := wakeup_reason (pl_s s) chan reason\<rparr>)"
| ticks: "proc_step e s (s\<lparr>pl_s := (pl_s s)\<lparr>sd_ticks := sd_ticks (pl_s s) + 1\<rparr>\<rparr>)"
| signals: "proc_step e s (s\<lparr>pl_s := (pl_s s)\<lparr>sd_procs := snd (signal_send_pgrp (sd_procs (pl_s s)) pgid signum)\<rparr>\<rparr>)"
| kills: "proc_step e s (s\<lparr>pl_s := (pl_s s)\<lparr>sd_procs := snd (signal_send_pid (sd_procs (pl_s s)) pid signum)\<rparr>\<rparr>)"
| others: "proc_step e s (s\<lparr>pl_m := m\<rparr>)"

text \<open>The system starts with the table that \<^verbatim>\<open>userinit\<close> leaves (\<open>userinit_boots\<close> below): the first process alone, with process id 1.\<close>

definition booted :: "sched \<Rightarrow> bool" where
  "booted s \<longleftrightarrow> length (sd_procs s) = NPROC \<and> sd_nextpid s = 2 \<and> sd_initproc s = Some 0 \<and>
     p_state (sd_procs s ! 0) = RUNNABLE \<and> p_parent (sd_procs s ! 0) = None \<and> p_pid (sd_procs s ! 0) = 1 \<and>
     (\<forall>j < NPROC. j \<noteq> 0 \<longrightarrow> p_state (sd_procs s ! j) = UNUSED \<and> p_parent (sd_procs s ! j) = None)"

inductive proc_reachable :: "'w penv \<Rightarrow> 'w kst \<Rightarrow> bool" for e where
  boot: "booted (pl_s s) \<Longrightarrow> proc_reachable e s"
| step: "proc_reachable e s \<Longrightarrow> proc_step e s s' \<Longrightarrow> proc_reachable e s'"

lemma live_running: "p_state p = RUNNING \<Longrightarrow> is_live (slot_of p)"
  by (simp add: slot_of_def)

lemma calm_growproc: "res_all (\<lambda>(r, s'). calm (pl_s s) (pl_s s')) (growproc e i n s)"
proof -
  have sz: "same_id i s (pset i (\<lambda>p. p\<lparr>p_sz := z\<rparr>) s1)" if "same_id i s s1" for s1 z
    using that by (rule same_id_pset) (simp add: ident_def)
  have shrink: "res_all (\<lambda>(r, s'). same_id i s s') (rmap (\<lambda>(z, s2). (0 :: int, pset i (\<lambda>p. p\<lparr>p_sz := z\<rparr>) s2)) (in_k g s1))"
    if "same_id i s s1" for g s1
    using res_all_mono [OF in_k_same_id [OF that]] sz by (cases "in_k g s1") (auto dest: res_allD [OF in_k_same_id [OF that]])
  have "res_all (\<lambda>(r, s'). same_id i s s') (growproc e i n s)"
    unfolding growproc_def Let_def
    by (auto intro!: res_all_bindI [OF in_k_same_id [of i s]] sz shrink simp del: res_all_bind res_all_map)
  then show ?thesis by (rule res_all_mono) (auto intro: calm_same_id)
qed

definition proc_inv :: "sched \<Rightarrow> bool" where
  "proc_inv s \<longleftrightarrow> slots_clean s \<and> tree_ok (tree_of s)"

lemma proc_invE:
  assumes "proc_inv s"
  obtains ip where "sd_initproc s = Some ip" "slots_ok (map slot_of (sd_procs s)) (sd_nextpid s) ip" "slots_clean s" "length (sd_procs s) = NPROC"
  using assms by (auto simp: proc_inv_def tree_ok_def tree_of_sel slots_clean_def)

lemma calm_inv: "calm s s' \<Longrightarrow> proc_inv s \<Longrightarrow> proc_inv s'"
  by (simp add: proc_inv_def calm_tree calm_clean)

lemma userinit_boots:
  assumes "pl_s s = procinit sd" and "sd_nextpid sd = 1" and run: "userinit e s = Ok s'"
  shows "booted (pl_s s')"
proof -
  have clean: "slots_clean (pl_s s)" by (simp add: assms(1) procinit_def slots_clean_def proc_zero_def)
  have slot: "find_slot (\<lambda>p. p_state p = UNUSED) (sd_procs (pl_s s)) = Some 0"
    by (simp add: assms(1) procinit_def find_slot_Some proc_zero_def)
  from run obtain r s1 where a: "allocproc e s = Ok (r, s1)" by (auto simp: userinit_def rbind_Ok_iff)
  with run have "r \<noteq> None" by (cases r) (simp_all add: userinit_def)
  with res_allD [OF allocproc_cases a] slot have r: "r = Some 0" and k: "same_id 0 (with_pid 0 s) s1" by auto
  note p = alloc_slot [OF clean slot disjI1 [OF k]]
  let ?s2 = "s1\<lparr>pl_s := (pl_s s1)\<lparr>sd_initproc := Some 0\<rparr>\<rparr>"
  have "res_all (\<lambda>s'. \<exists>s3. same_id 0 ?s2 s3 \<and> pl_s s' = set_proc (pl_s s3) 0 (\<lambda>p. p\<lparr>p_state := RUNNABLE\<rparr>)) (userinit e s)"
    unfolding userinit_def a r rbind.simps prod.case option.case Let_def
    by (rule res_all_bindI [OF in_kmem_same_id [OF same_id_refl [of 0]]], rule res_all_bindI [OF in_k_same_id], assumption)
       (auto intro!: res_all_bindI [OF in_k_same_id [of 0 ?s2]] same_id_pset res_all_mono [OF in_kmem_same_id [of 0 ?s2]]
         simp: ident_def simp del: res_all_bind, rule exI, rule conjI, assumption, rule refl)
  then obtain s3 where s3: "same_id 0 ?s2 s3" "pl_s s' = set_proc (pl_s s3) 0 (\<lambda>p. p\<lparr>p_state := RUNNABLE\<rparr>)"
    using run by auto
  have id: "ident (pget s3 0) = ident (pget s1 0)" using same_id_ident [OF s3(1)] by simp
  have len: "length (sd_procs (pl_s s1)) = NPROC" "length (sd_procs (pl_s s3)) = NPROC"
    using same_id_length [OF k] same_id_length [OF s3(1)] assms(1) by (simp_all add: procinit_def)
  have other: "pget s3 j = proc_zero" if "j < NPROC" "j \<noteq> 0" for j
    using same_id_other [OF s3(1) that(2)] same_id_other [OF k that(2)] that assms(1) by (simp add: procinit_def)
  have "sd_nextpid (pl_s s1) = 2" using arg_cong [OF p(1), of sd_nextpid] assms(1,2) by (simp add: procinit_def)
  moreover have "sd_nextpid (pl_s s3) = sd_nextpid (pl_s s1)" "sd_initproc (pl_s s3) = Some 0" using s3(1) by (auto simp: same_id_def)
  moreover have "p_parent (pget s3 0) = None" "p_pid (pget s3 0) = 1"
    using id p(3,4) k assms(1,2) by (auto simp: ident_def procinit_def)
  ultimately show ?thesis using len other by (simp add: booted_def s3(2) nth_upd proc_zero_def)
qed

lemma booted_inv:
  assumes "booted s"
  shows "proc_inv s"
proof -
  have "slot_of (sd_procs s ! j) = (if j = 0 then Live None 1 else Free)" if "j < NPROC" for j
    using assms that by (auto simp: booted_def slot_of_def)
  then have "slots_ok (map slot_of (sd_procs s)) 2 0" using assms by (simp add: slots_ok_def booted_def)
  then show ?thesis using assms by (auto simp: proc_inv_def slots_clean_def tree_ok_def tree_of_sel booted_def)
qed

lemma proc_inv_step: "proc_step e s s' \<Longrightarrow> proc_inv (pl_s s) \<Longrightarrow> proc_inv (pl_s s')"
proof (induction rule: proc_step.induct)
  case (forks i s r s')
  from forks.prems obtain ip where ip: "sd_initproc (pl_s s) = Some ip" "slots_ok (map slot_of (sd_procs (pl_s s))) (sd_nextpid (pl_s s)) ip"
    and clean: "slots_clean (pl_s s)" and len: "length (sd_procs (pl_s s)) = NPROC" by (rule proc_invE)
  have "p_state (pget s i) \<noteq> UNUSED" using forks by simp
  from fork_tree [OF clean forks.hyps(1) this forks.hyps(3)] consider
      "tree_of (pl_s s') = tree_of (pl_s s)" | "tree_of (pl_s s') = tree_skip (tree_of (pl_s s))"
    | j where "j < NPROC" "find_slot (\<lambda>p. p_state p = UNUSED) (sd_procs (pl_s s)) = Some j" "tree_of (pl_s s') = tree_fork i j (tree_of (pl_s s))"
    by blast
  then have "tree_ok (tree_of (pl_s s'))"
  proof cases
    case 1
    with ip show ?thesis by (auto simp: tree_ok_def tree_of_sel)
  next
    case 2
    with ip slots_ok_skip [OF ip(2)] show ?thesis by (auto simp: tree_ok_def tree_of_sel tree_skip_def)
  next
    case (3 j)
    with ip slots_ok_fork [OF ip(2), of i j] forks.hyps len show ?thesis
      by (auto simp: tree_ok_def tree_of_sel tree_fork_def find_slot_Some live_running)
  qed
  with fork_tree [OF clean forks.hyps(1) _ forks.hyps(3)] forks.hyps show ?case by (simp add: proc_inv_def)
next
  case (exits i s c x s')
  from exits.prems obtain ip where ip: "sd_initproc (pl_s s) = Some ip" "slots_ok (map slot_of (sd_procs (pl_s s))) (sd_nextpid (pl_s s)) ip"
    and clean: "slots_clean (pl_s s)" and len: "length (sd_procs (pl_s s)) = NPROC" by (rule proc_invE)
  note t = exit_tree [OF clean exits.hyps(1) live_running [OF exits.hyps(2)] exits.hyps(3)]
  have "slots_ok (tr_slots (tree_exit i x (tree_of (pl_s s)))) (sd_nextpid (pl_s s)) ip"
    using slots_ok_exit [OF ip(2) exits.hyps(1), of x] live_running [OF exits.hyps(2)] t(3) len exits.hyps(1)
    unfolding tree_exit_def Let_def tree_of_sel ip(1) by simp
  then have "tree_ok (tree_exit i x (tree_of (pl_s s)))" using ip(1) by (simp add: tree_ok_def tree_exit_def Let_def tree_of_sel)
  with t show ?case by (simp add: proc_inv_def)
next
  case (waits i s c addr r s')
  from waits.prems obtain ip where ip: "sd_initproc (pl_s s) = Some ip" "slots_ok (map slot_of (sd_procs (pl_s s))) (sd_nextpid (pl_s s)) ip"
    and clean: "slots_clean (pl_s s)" and len: "length (sd_procs (pl_s s)) = NPROC" by (rule proc_invE)
  note t = wait_tree [OF clean waits.hyps(1) live_running [OF waits.hyps(2)] waits.hyps(3)]
  have "tree_ok (tree_reap j (tree_of (pl_s s)))" if "j < NPROC" "p_state (pget s j) = ZOMBIE" for j
    using slots_ok_reap [OF ip(2) that(1)] that ip(1) len by (simp add: tree_ok_def tree_reap_def tree_of_sel slot_of_def)
  with t waits.prems show ?case by (auto simp: proc_inv_def)
next
  case (grows i s n r s')
  then show ?case using calm_inv res_allD [OF calm_growproc grows.hyps(3)] by auto
qed (auto intro: calm_inv calm_yield calm_sleep calm_sleep_back calm_scheduler calm_signals live_running simp: wakeup_reason_def
    intro: calm_inv [OF calm_wakeup_loop] calm_inv [of "pl_s s" for s :: "'a kst"] simp: calm_def)

lemma proc_reachable_inv: "proc_reachable e s \<Longrightarrow> proc_inv (pl_s s)"
  by (induction rule: proc_reachable.induct) (auto intro: booted_inv proc_inv_step)


definition demo_table :: sched where
  "demo_table = \<lparr>sd_procs = (replicate NPROC proc_zero)[0 := proc_zero\<lparr>p_state := RUNNABLE, p_pid := 1, p_pgid := 1\<rparr>],
     sd_cpus = replicate NCPU cpu_zero, sd_rr_next = replicate MLFQ_LEVELS 0, sd_last_boost = 0, sd_preempt_count = 0,
     sd_global_rr_next = 0, sd_ticks = 0, sd_nextpid = 2, sd_initproc = Some 0\<rparr>"


text \<open>
  C28: \<^verbatim>\<open>wait\<close>. The children are scanned in table order and the first zombie is reaped: \<^verbatim>\<open>wait\<close> returns its process id, after its
  exit status has been copied out when an address is given, and its slot is free; when the copy fails it returns -1 and
  the zombie is still there with its id and status. Without children it returns -1 and changes nothing; with children none of which
  is a zombie the caller sleeps on its own slot, or returns -1 with nothing changed when a signal is pending. No other slot
  of the table changes.
\<close>

theorem wait_correct:
  assumes "length (sd_procs (pl_s s)) = NPROC" and "i < NPROC" and run: "wait e c i addr s = Ok (r, s')"
  shows "case first_idx (\<lambda>j. p_parent (pget s j) = Some i \<and> p_state (pget s j) = ZOMBIE) [0..<NPROC] of
      Some j \<Rightarrow> (\<forall>k. k \<noteq> j \<longrightarrow> pget s' k = pget s k) \<and>
        (if r = WaitRet (p_pid (pget s j)) \<and> p_state (pget s' j) = UNUSED
         then p_parent (pget s' j) = None \<and> (addr \<noteq> 0 \<longrightarrow> (\<exists>s1 n m. freeprocvm e j s = Ok s1 \<and> 0 \<le> n \<and>
           copyout (pe_k e) (pfe e) (pget s1 i) addr (le32_bytes (word_of_int (p_xstate (pget s j)))) (pl_m s1) = Ok (n, m)))
         else r = WaitRet (-1) \<and> addr \<noteq> 0 \<and> ident (pget s' j) = ident (pget s j))
    | None \<Rightarrow>
        if \<not> (\<exists>j < NPROC. p_parent (pget s j) = Some i) \<or> signal_pending_locked (pget s i) then r = WaitRet (-1) \<and> s' = s
        else r = WaitSleep \<and> p_state (pget s' i) = SLEEPING \<and> p_chan (pget s' i) = pe_slot e i \<and> p_interruptible_sleep (pget s' i) \<and>
          (\<forall>k. k \<noteq> i \<longrightarrow> pget s' k = pget s k)"
proof (cases "first_idx (\<lambda>j. p_parent (pget s j) = Some i \<and> p_state (pget s j) = ZOMBIE) [0..<NPROC]")
  case None
  show ?thesis
    using run [unfolded wait_def None option.case] assms(1,2) unfolding None option.case
    by (auto simp: sleep_on_def run_proc_back_def split: if_splits)
next
  case (Some j)
  then have j: "j < NPROC" "p_state (pget s j) = ZOMBIE" by (auto simp: first_idx_upt_iff)
  have reap: "wait_reap e i addr j s = Ok (r, s')" using run [unfolded wait_def Some option.case] .
  then obtain s1 where s1: "freeprocvm e j s = Ok s1" by (auto simp: wait_reap_def rbind_Ok_iff Let_def)
  have k: "same_id j s s1" using res_allD [OF freeprocvm_same_id [OF same_id_refl] s1] .
  have x: "p_xstate (pget s1 j) = p_xstate (pget s j)" using same_id_ident [OF k] by (simp add: ident_def)
  have freed: "(\<forall>k. k \<noteq> j \<longrightarrow> pget s' k = pget s k) \<and> p_state (pget s' j) = UNUSED \<and> p_parent (pget s' j) = None" if "freed j s s'"
    using that j(1) assms(1) by (auto simp: freed_def)
  show ?thesis
  proof (cases "addr = 0")
    case True
    then have "freeproc e j s1 = Ok s'" "r = WaitRet (p_pid (pget s j))" using reap s1 by (auto simp: wait_reap_def Let_def rmap_Ok_iff)
    with freed [OF res_allD [OF freeproc_freed [OF k]]] True show ?thesis unfolding Some by simp
  next
    case False
    let ?out = "copyout (pe_k e) (pfe e) (pget s1 i) addr (le32_bytes (word_of_int (p_xstate (pget s j)))) (pl_m s1)"
    from reap s1 False x obtain n m where n: "?out = Ok (n, m)"
      and rest: "(if n < 0 then Ok (WaitRet (-1), s1\<lparr>pl_m := m\<rparr>) else rmap (Pair (WaitRet (p_pid (pget s j)))) (freeproc e j (s1\<lparr>pl_m := m\<rparr>))) = Ok (r, s')"
      by (auto simp: wait_reap_def Let_def rbind_Ok_iff rmap_Ok_iff)
    have km: "same_id j s (s1\<lparr>pl_m := m\<rparr>)" using k by simp
    show ?thesis
    proof (cases "n < 0")
      case True
      then have "s' = s1\<lparr>pl_m := m\<rparr>" "r = WaitRet (-1)" using rest by auto
      with False same_id_other [OF k] same_id_ident [OF k] j(2) show ?thesis unfolding Some by (auto simp: ident_def)
    next
      case neg: False
      then have "freeproc e j (s1\<lparr>pl_m := m\<rparr>) = Ok s'" "r = WaitRet (p_pid (pget s j))" using rest by (auto simp: rmap_Ok_iff)
      with freed [OF res_allD [OF freeproc_freed [OF km]]] s1 n neg show ?thesis unfolding Some by fastforce
    qed
  qed
qed

definition demo_family :: sched where
  "demo_family = demo_table\<lparr>sd_procs := (sd_procs demo_table)
     [1 := proc_zero\<lparr>p_state := ZOMBIE, p_pid := 2, p_parent := Some 0, p_xstate := 7\<rparr>], sd_nextpid := 3\<rparr>"

lemma demo_family_procs:
  "sd_procs demo_family ! 0 = proc_zero\<lparr>p_state := RUNNABLE, p_pid := 1, p_pgid := 1\<rparr>"
  "sd_procs demo_family ! Suc 0 = proc_zero\<lparr>p_state := ZOMBIE, p_pid := 2, p_parent := Some 0, p_xstate := 7\<rparr>"
  "length (sd_procs demo_family) = NPROC"
  by (simp_all add: demo_family_def demo_table_def nth_upd)

theorem wait_correct_witness:
  "\<forall>(e :: unit penv) m. \<exists>s'. wait e 0 0 0 \<lparr>pl_s = demo_family, pl_m = m\<rparr> = Ok (WaitRet 2, s') \<and> p_parent (pget s' 1) = None"
proof (intro allI)
  fix e :: "unit penv" and m :: "unit sys mm"
  let ?s = "\<lparr>pl_s = demo_family, pl_m = m\<rparr>"
  have first: "first_idx (\<lambda>j. p_parent (pget ?s j) = Some 0 \<and> p_state (pget ?s j) = ZOMBIE) [0..<NPROC] = Some 1"
    by (simp add: first_idx_upt_iff demo_family_procs proc_zero_def)
  have "rfold (destroy_area k fe p) [0..<NVMA] (replicate NVMA vma_zero, m) = Ok (replicate NVMA vma_zero, m)" for k fe p
    by (simp add: upt_rec destroy_area_def vma_zero_def)
  then have "\<exists>s'. wait e 0 0 0 ?s = Ok (WaitRet 2, s')"
    unfolding wait_def first option.case
    by (simp add: wait_reap_def freeprocvm_def Let_def demo_family_procs freeproc_def destroy_vmas_def vma_destroy_all_def proc_zero_def)
  then obtain s' where w: "wait e 0 0 0 ?s = Ok (WaitRet 2, s')" by blast
  have "length (sd_procs (pl_s ?s)) = NPROC" by (simp add: demo_family_procs)
  from wait_correct [OF this _ w] w show "\<exists>s'. wait e 0 0 0 ?s = Ok (WaitRet 2, s') \<and> p_parent (pget s' 1) = None"
    unfolding first by (auto simp: demo_family_procs split: if_splits)
qed



end
