(* ===== verification/Locks.thy ===== *)
theory Locks
  imports Sched
begin

text \<open>
  The locks of \<^verbatim>\<open>kernel/lock/\<close>. Every other theory takes a critical section as one step; here the spin lock is taken apart into
  the memory operations that other CPUs can see, and any interleaving of them is shown to exclude two CPUs from the section
  of one lock, with interrupts off on the owner. A sleep lock is a critical section of its inner spin lock; the proof is that it
  excludes two processes and that nobody sleeps on a lock that is free.

  The default build defines \<^verbatim>\<open>LAB_LOCK\<close>: locks count their use and are listed in a table of 500 slots.
\<close>

section \<open>Spin locks\<close>

record spinlock =
  lk_locked :: bool
  lk_cpu :: "nat option"
  lk_nts :: u32
  lk_n :: u32

abbreviation (input) NLOCK :: nat where "NLOCK \<equiv> 500"

text \<open>The locks, the table \<^verbatim>\<open>locks\<close> of those in use, the per-CPU nesting counters, and the interrupt-enable bit of each CPU.\<close>

record mach =
  ma_locks :: "spinlock list"
  ma_table :: "nat option list"
  ma_cpus :: "cpu list"
  ma_sie :: "bool list"

abbreviation (input) lock_zero :: spinlock where
  "lock_zero \<equiv> \<lparr>lk_locked = False, lk_cpu = None, lk_nts = 0, lk_n = 0\<rparr>"

definition findslot :: "nat \<Rightarrow> mach \<Rightarrow> mach res" where
  "findslot l m =
     (case find_slot (\<lambda>x. x = None) (ma_table m) of
        None \<Rightarrow> Panic ''findslot''
      | Some i \<Rightarrow> Ok (m\<lparr>ma_table := (ma_table m)[i := Some l]\<rparr>))"

definition freelock :: "nat \<Rightarrow> mach \<Rightarrow> mach" where
  "freelock l m =
     (case find_slot (\<lambda>x. x = Some l) (ma_table m) of
        None \<Rightarrow> m
      | Some i \<Rightarrow> m\<lparr>ma_table := (ma_table m)[i := None]\<rparr>)"

definition initlock :: "nat \<Rightarrow> mach \<Rightarrow> mach res" where
  "initlock l m = findslot l (m\<lparr>ma_locks := (ma_locks m)[l := lock_zero]\<rparr>)"

definition push_off :: "nat \<Rightarrow> mach \<Rightarrow> mach" where
  "push_off c m =
     (let old = ma_sie m ! c; cp = ma_cpus m ! c
      in m\<lparr>ma_sie := (ma_sie m)[c := False],
           ma_cpus := (ma_cpus m)[c := (if c_noff cp = 0 then cp\<lparr>c_intena := old\<rparr> else cp)\<lparr>c_noff := c_noff cp + 1\<rparr>]\<rparr>)"

definition pop_off :: "nat \<Rightarrow> mach \<Rightarrow> mach res" where
  "pop_off c m =
     (let cp = ma_cpus m ! c
      in if ma_sie m ! c then Panic ''pop_off - interruptible''
         else if c_noff cp < 1 then Panic ''pop_off''
         else Ok (m\<lparr>ma_cpus := (ma_cpus m)[c := cp\<lparr>c_noff := c_noff cp - 1\<rparr>],
                    ma_sie := (if c_noff cp - 1 = 0 \<and> c_intena cp then (ma_sie m)[c := True] else ma_sie m)\<rparr>))"

definition holding :: "nat \<Rightarrow> nat \<Rightarrow> mach \<Rightarrow> bool" where
  "holding c l m \<longleftrightarrow> lk_locked (ma_locks m ! l) \<and> lk_cpu (ma_locks m ! l) = Some c"

text \<open>
  \<^verbatim>\<open>acquire\<close> in the pieces that other CPUs can see: up to the loop; one round of the loop, an atomic swap with the
  count of a failure; and the note of the owner.
\<close>

definition acquire_begin :: "nat \<Rightarrow> nat \<Rightarrow> mach \<Rightarrow> mach res" where
  "acquire_begin c l m = (let m1 = push_off c m
      in if holding c l m1 then Panic ''acquire''
         else Ok (m1\<lparr>ma_locks := (ma_locks m1)[l := (ma_locks m1 ! l)\<lparr>lk_n := lk_n (ma_locks m1 ! l) + 1\<rparr>]\<rparr>))"

definition test_and_set :: "nat \<Rightarrow> mach \<Rightarrow> bool \<times> mach" where
  "test_and_set l m =
     (let lk = ma_locks m ! l; lk1 = lk\<lparr>lk_locked := True\<rparr>
      in (lk_locked lk, m\<lparr>ma_locks := (ma_locks m)[l := if lk_locked lk then lk1\<lparr>lk_nts := lk_nts lk + 1\<rparr> else lk1]\<rparr>))"

definition acquire_note :: "nat \<Rightarrow> nat \<Rightarrow> mach \<Rightarrow> mach" where
  "acquire_note c l m = m\<lparr>ma_locks := (ma_locks m)[l := (ma_locks m ! l)\<lparr>lk_cpu := Some c\<rparr>]\<rparr>"

text \<open>\<^verbatim>\<open>release\<close> up to the fence, and the store that frees the lock; \<open>pop_off\<close> follows.\<close>

definition release_begin :: "nat \<Rightarrow> nat \<Rightarrow> mach \<Rightarrow> mach res" where
  "release_begin c l m =
     (if \<not> holding c l m then Panic ''release'' else Ok (m\<lparr>ma_locks := (ma_locks m)[l := (ma_locks m ! l)\<lparr>lk_cpu := None\<rparr>]\<rparr>))"

definition lock_release :: "nat \<Rightarrow> mach \<Rightarrow> mach" where
  "lock_release l m = m\<lparr>ma_locks := (ma_locks m)[l := (ma_locks m ! l)\<lparr>lk_locked := False\<rparr>]\<rparr>"

text \<open>The two operations when no other CPU acts in between; \<^verbatim>\<open>acquire\<close> of a lock that is taken then never returns, which is \<open>None\<close>.\<close>

definition acquire :: "nat \<Rightarrow> nat \<Rightarrow> mach \<Rightarrow> mach res option" where
  "acquire c l m =
     (case acquire_begin c l m of
        Panic e \<Rightarrow> Some (Panic e)
      | Ok m1 \<Rightarrow> (case test_and_set l m1 of (old, m2) \<Rightarrow> if old then None else Some (Ok (acquire_note c l m2))))"

definition release :: "nat \<Rightarrow> nat \<Rightarrow> mach \<Rightarrow> mach res" where
  "release c l m = rbind (release_begin c l m) (\<lambda>m1. pop_off c (lock_release l m1))"

section \<open>Interleavings\<close>

text \<open>Where each CPU is in the lock code.\<close>

datatype lock_pc = Run | Spin nat | Won nat | Drop nat | Pop

text \<open>\<open>ls_push\<close> counts the calls of \<^verbatim>\<open>push_off\<close> outside \<^verbatim>\<open>acquire\<close>, as in \<^verbatim>\<open>myproc\<close>, that are still open.\<close>

record lstate =
  ls_m :: mach
  ls_pc :: "nat \<Rightarrow> lock_pc"
  ls_push :: "nat \<Rightarrow> nat"

abbreviation (input) go :: "nat \<Rightarrow> lock_pc \<Rightarrow> mach \<Rightarrow> lstate \<Rightarrow> lstate" where
  "go c pc m s \<equiv> s\<lparr>ls_m := m, ls_pc := (ls_pc s)(c := pc)\<rparr>"

inductive lock_step :: "lstate \<Rightarrow> lstate \<Rightarrow> bool" where
  acq: "c < NCPU \<Longrightarrow> l < length (ma_locks (ls_m s)) \<Longrightarrow> ls_pc s c = Run \<Longrightarrow> acquire_begin c l (ls_m s) = Ok m \<Longrightarrow> lock_step s (go c (Spin l) m s)"
| swap: "c < NCPU \<Longrightarrow> ls_pc s c = Spin l \<Longrightarrow> test_and_set l (ls_m s) = (old, m) \<Longrightarrow> lock_step s (go c (if old then Spin l else Won l) m s)"
| note_cpu: "c < NCPU \<Longrightarrow> ls_pc s c = Won l \<Longrightarrow> lock_step s (go c Run (acquire_note c l (ls_m s)) s)"
| rel: "c < NCPU \<Longrightarrow> l < length (ma_locks (ls_m s)) \<Longrightarrow> ls_pc s c = Run \<Longrightarrow> release_begin c l (ls_m s) = Ok m \<Longrightarrow> lock_step s (go c (Drop l) m s)"
| unlock: "c < NCPU \<Longrightarrow> ls_pc s c = Drop l \<Longrightarrow> lock_step s (go c Pop (lock_release l (ls_m s)) s)"
| pop: "c < NCPU \<Longrightarrow> ls_pc s c = Pop \<Longrightarrow> pop_off c (ls_m s) = Ok m \<Longrightarrow> lock_step s (go c Run m s)"
| push: "c < NCPU \<Longrightarrow> ls_pc s c = Run \<Longrightarrow> lock_step s (s\<lparr>ls_m := push_off c (ls_m s), ls_push := (ls_push s)(c := ls_push s c + 1)\<rparr>)"
| unpush: "c < NCPU \<Longrightarrow> ls_pc s c = Run \<Longrightarrow> 0 < ls_push s c \<Longrightarrow> pop_off c (ls_m s) = Ok m \<Longrightarrow>
    lock_step s (s\<lparr>ls_m := m, ls_push := (ls_push s)(c := ls_push s c - 1)\<rparr>)"
| intr: "c < NCPU \<Longrightarrow> ls_pc s c = Run \<Longrightarrow> c_noff (ma_cpus (ls_m s) ! c) = 0 \<Longrightarrow>
    lock_step s (s\<lparr>ls_m := (ls_m s)\<lparr>ma_sie := (ma_sie (ls_m s))[c := b]\<rparr>\<rparr>)"
| switch: "c < NCPU \<Longrightarrow> ls_pc s c = Run \<Longrightarrow> c_noff (ma_cpus (ls_m s) ! c) = 1 \<Longrightarrow>
    lock_step s (s\<lparr>ls_m := (ls_m s)\<lparr>ma_cpus := (ma_cpus (ls_m s))[c := (ma_cpus (ls_m s) ! c)\<lparr>c_intena := b\<rparr>]\<rparr>\<rparr>)"

definition lock_init :: "lstate \<Rightarrow> bool" where
  "lock_init s \<longleftrightarrow> length (ma_cpus (ls_m s)) = NCPU \<and> length (ma_sie (ls_m s)) = NCPU \<and>
     (\<forall>lk \<in> set (ma_locks (ls_m s)). lk = lock_zero) \<and>
     (\<forall>cp \<in> set (ma_cpus (ls_m s)). c_noff cp = 0) \<and> (\<forall>c. ls_pc s c = Run \<and> ls_push s c = 0)"

inductive lock_reachable :: "lstate \<Rightarrow> bool" where
  init: "lock_init s \<Longrightarrow> lock_reachable s"
| step: "lock_reachable s \<Longrightarrow> lock_step s s' \<Longrightarrow> lock_reachable s'"

text \<open>A CPU is in the section of a lock from the swap that found it free to the store that frees it.\<close>

definition in_section :: "lstate \<Rightarrow> nat \<Rightarrow> nat \<Rightarrow> bool" where
  "in_section s c l \<longleftrightarrow> ls_pc s c = Won l \<or> ls_pc s c = Drop l \<or> lk_cpu (ma_locks (ls_m s) ! l) = Some c"

text \<open>The invariant, with the owner of each lock made explicit.\<close>

definition sections :: "(nat \<Rightarrow> nat option) \<Rightarrow> nat \<Rightarrow> nat \<Rightarrow> nat" where
  "sections own n c = card {l. l < n \<and> own l = Some c}"

definition pc_depth :: "lock_pc \<Rightarrow> nat" where
  "pc_depth pc = (case pc of Spin l \<Rightarrow> 1 | Pop \<Rightarrow> 1 | _ \<Rightarrow> 0)"

definition owners_ok :: "(nat \<Rightarrow> nat option) \<Rightarrow> lstate \<Rightarrow> bool" where
  "owners_ok own s \<longleftrightarrow> (\<forall>l < length (ma_locks (ls_m s)). (lk_locked (ma_locks (ls_m s) ! l) \<longleftrightarrow> own l \<noteq> None) \<and>
     (\<forall>c. in_section s c l \<longleftrightarrow> own l = Some c) \<and> (\<forall>c. ls_pc s c = Drop l \<longrightarrow> lk_cpu (ma_locks (ls_m s) ! l) = None) \<and>
     (\<forall>c. ls_pc s c = Spin l \<longrightarrow> own l \<noteq> Some c) \<and> (\<forall>c. own l = Some c \<longrightarrow> c < NCPU))"

definition depth_ok :: "(nat \<Rightarrow> nat option) \<Rightarrow> lstate \<Rightarrow> nat \<Rightarrow> bool" where
  "depth_ok own s c \<longleftrightarrow>
     c_noff (ma_cpus (ls_m s) ! c) = int (ls_push s c + sections own (length (ma_locks (ls_m s))) c + pc_depth (ls_pc s c)) \<and>
     (0 < c_noff (ma_cpus (ls_m s) ! c) \<longrightarrow> \<not> ma_sie (ls_m s) ! c)"

definition lock_inv :: "(nat \<Rightarrow> nat option) \<Rightarrow> lstate \<Rightarrow> bool" where
  "lock_inv own s \<longleftrightarrow> length (ma_cpus (ls_m s)) = NCPU \<and> length (ma_sie (ls_m s)) = NCPU \<and>
     (\<forall>c l. ls_pc s c \<in> {Spin l, Won l, Drop l} \<longrightarrow> l < length (ma_locks (ls_m s))) \<and> owners_ok own s \<and> (\<forall>c < NCPU. depth_ok own s c)"

lemma sections_take: "own l = None \<Longrightarrow> l < n \<Longrightarrow> sections (own(l := Some c)) n c' = sections own n c' + of_bool (c' = c)"
proof -
  assume a: "own l = None" "l < n"
  have "{k. k < n \<and> (own(l := Some c)) k = Some c'} = (if c' = c then insert l {k. k < n \<and> own k = Some c'} else {k. k < n \<and> own k = Some c'})"
    using a by auto
  then show ?thesis unfolding sections_def using a by (simp only:) simp
qed

lemma sections_drop: "own l = Some c \<Longrightarrow> l < n \<Longrightarrow> sections own n c' = sections (own(l := None)) n c' + of_bool (c' = c)"
  using sections_take [of "own(l := None)" l n c c'] by (simp add: fun_upd_idem)

lemma push_off_fields [simp]:
  "ma_locks (push_off c m) = ma_locks m" "length (ma_cpus (push_off c m)) = length (ma_cpus m)" "length (ma_sie (push_off c m)) = length (ma_sie m)"
  by (simp_all add: push_off_def Let_def)

lemma push_off_depth:
  "c < length (ma_cpus m) \<Longrightarrow> c_noff (ma_cpus (push_off c m) ! c') = c_noff (ma_cpus m ! c') + of_bool (c' = c)"
  "c < length (ma_sie m) \<Longrightarrow> ma_sie (push_off c m) ! c' = (c' \<noteq> c \<and> ma_sie m ! c')"
  by (auto simp: push_off_def Let_def nth_upd)

lemma pop_off_fields:
  assumes "pop_off c m = Ok m'" and "c < length (ma_cpus m)"
  shows "ma_locks m' = ma_locks m" "length (ma_cpus m') = length (ma_cpus m)" "length (ma_sie m') = length (ma_sie m)"
    "c_noff (ma_cpus m ! c') = c_noff (ma_cpus m' ! c') + of_bool (c' = c)"
    "c' \<noteq> c \<or> c_noff (ma_cpus m' ! c) \<noteq> 0 \<Longrightarrow> ma_sie m' ! c' = ma_sie m ! c'"
  using assms by (auto simp: pop_off_def Let_def nth_upd split: if_splits)

lemma owners_okD:
  assumes "lock_inv own s" and "l < length (ma_locks (ls_m s))"
  shows "lk_locked (ma_locks (ls_m s) ! l) \<longleftrightarrow> own l \<noteq> None" "in_section s c l \<longleftrightarrow> own l = Some c"
    "ls_pc s c = Drop l \<Longrightarrow> lk_cpu (ma_locks (ls_m s) ! l) = None" "ls_pc s c = Spin l \<Longrightarrow> own l \<noteq> Some c" "own l = Some c \<Longrightarrow> c < NCPU"
  using assms unfolding lock_inv_def owners_ok_def by blast+

text \<open>The counters of a lock play no role.\<close>

definition same_words :: "mach \<Rightarrow> mach \<Rightarrow> bool" where
  "same_words m m' \<longleftrightarrow> length (ma_locks m') = length (ma_locks m) \<and> (\<forall>l < length (ma_locks m).
     lk_locked (ma_locks m' ! l) = lk_locked (ma_locks m ! l) \<and> lk_cpu (ma_locks m' ! l) = lk_cpu (ma_locks m ! l))"

definition outside :: "lock_pc \<Rightarrow> bool" where
  "outside pc \<longleftrightarrow> (\<forall>l. pc \<noteq> Won l \<and> pc \<noteq> Drop l)"

lemma owners_ok_pc:
  assumes "owners_ok own s" and "same_words (ls_m s) m" and "outside (ls_pc s c)" and "outside pc"
    and "\<And>l. l < length (ma_locks (ls_m s)) \<Longrightarrow> pc = Spin l \<Longrightarrow> own l \<noteq> Some c"
  shows "owners_ok own (go c pc m s)"
proof -
  have "in_section (go c pc m s) c' l \<longleftrightarrow> in_section s c' l" if "l < length (ma_locks (ls_m s))" for c' l
    using assms(2-4) that by (auto simp: in_section_def outside_def same_words_def)
  moreover have "ls_pc (go c pc m s) c' = Drop l \<longleftrightarrow> ls_pc s c' = Drop l" for c' l using assms(3,4) by (auto simp: outside_def)
  ultimately show ?thesis using assms(1,2,5) unfolding owners_ok_def by (auto simp: same_words_def)
qed

lemma pc_bound: "lock_inv own s \<Longrightarrow> ls_pc s c \<in> {Spin l, Won l, Drop l} \<Longrightarrow> l < length (ma_locks (ls_m s))"
  by (auto simp: lock_inv_def)

lemmas lock_defs = lock_inv_def owners_ok_def in_section_def depth_ok_def

lemma lock_inv_push:
  assumes "lock_inv own s" and "c < NCPU" and "ls_pc s c = Run"
  shows "lock_inv own (s\<lparr>ls_m := push_off c (ls_m s), ls_push := (ls_push s)(c := ls_push s c + 1)\<rparr>)"
  using assms by (auto simp: lock_defs push_off_depth)

lemma lock_inv_unpush:
  assumes "lock_inv own s" and "c < NCPU" and "ls_pc s c = Run" and "0 < ls_push s c" and m: "pop_off c (ls_m s) = Ok m"
  shows "lock_inv own (s\<lparr>ls_m := m, ls_push := (ls_push s)(c := ls_push s c - 1)\<rparr>)"
proof -
  have len: "c < length (ma_cpus (ls_m s))" using assms(1,2) by (simp add: lock_inv_def)
  note f = pop_off_fields [OF m len]
  have "depth_ok own (s\<lparr>ls_m := m, ls_push := (ls_push s)(c := ls_push s c - 1)\<rparr>) c'" if "c' < NCPU" for c'
    using assms(1,4) f(4,5) [of c'] that by (cases "c' = c") (auto simp: lock_inv_def depth_ok_def f(1))
  then show ?thesis using assms(1) f(1-3) by (auto simp: lock_inv_def owners_ok_def in_section_def)
qed

lemma lock_inv_pop:
  assumes "lock_inv own s" and "c < NCPU" and "ls_pc s c = Pop" and m: "pop_off c (ls_m s) = Ok m"
  shows "lock_inv own (go c Run m s)"
proof -
  have len: "c < length (ma_cpus (ls_m s))" using assms(1,2) by (simp add: lock_inv_def)
  note f = pop_off_fields [OF m len]
  have "depth_ok own (go c Run m s) c'" if "c' < NCPU" for c'
    using assms(1,3) f(4,5) [of c'] that by (cases "c' = c") (auto simp: lock_inv_def depth_ok_def f(1) pc_depth_def)
  moreover have "owners_ok own (go c Run m s)"
    by (rule owners_ok_pc) (use assms(1,3) f(1) in \<open>auto simp: lock_inv_def outside_def same_words_def\<close>)
  ultimately show ?thesis using assms(1) f(1-3) by (auto simp: lock_inv_def)
qed

lemma lock_inv_acq:
  assumes inv: "lock_inv own s" and c: "c < NCPU" "l < length (ma_locks (ls_m s))" "ls_pc s c = Run" and m: "acquire_begin c l (ls_m s) = Ok m"
  shows "lock_inv own (go c (Spin l) m s)"
proof -
  let ?lks = "(ma_locks (ls_m s))[l := (ma_locks (ls_m s) ! l)\<lparr>lk_n := lk_n (ma_locks (ls_m s) ! l) + 1\<rparr>]"
  have m': "m = (push_off c (ls_m s))\<lparr>ma_locks := ?lks\<rparr>" and "\<not> holding c l (push_off c (ls_m s))"
    using m by (auto simp: acquire_begin_def Let_def split: if_splits)
  then have no: "own l \<noteq> Some c" using owners_okD(1) [OF inv c(2)] owners_okD(2) [OF inv c(2), of c] c(3) by (auto simp: in_section_def holding_def)
  have "depth_ok own (go c (Spin l) m s) c'" if "c' < NCPU" for c'
    using inv c that by (auto simp: lock_inv_def depth_ok_def m' push_off_depth pc_depth_def)
  moreover have "owners_ok own (go c (Spin l) m s)"
    by (rule owners_ok_pc) (use inv c no in \<open>auto simp: lock_inv_def outside_def m' same_words_def nth_upd\<close>)
  ultimately show ?thesis using inv c by (auto simp: lock_inv_def m')
qed

text \<open>The steps that change the lock word or the note of its owner; all other locks keep their owner.\<close>

lemma owners_ok_change:
  assumes inv: "lock_inv own s" and l: "l < length (ma_locks (ls_m s))"
    and m: "ma_locks m = (ma_locks (ls_m s))[l := lk]"
    and pc: "\<And>k. k \<noteq> l \<Longrightarrow> pc \<noteq> Won k \<and> pc \<noteq> Drop k \<and> pc \<noteq> Spin k \<and> ls_pc s c \<noteq> Won k \<and> ls_pc s c \<noteq> Drop k"
    and new: "lk_locked lk \<longleftrightarrow> w \<noteq> None" "\<And>c'. (if c' = c then pc = Won l \<or> pc = Drop l else ls_pc s c' = Won l \<or> ls_pc s c' = Drop l) \<or> lk_cpu lk = Some c' \<longleftrightarrow> w = Some c'"
      "pc = Drop l \<or> (\<exists>c'. c' \<noteq> c \<and> ls_pc s c' = Drop l) \<Longrightarrow> lk_cpu lk = None" "pc = Spin l \<Longrightarrow> w \<noteq> Some c"
      "\<And>c'. w = Some c' \<Longrightarrow> c' < NCPU \<and> (c' \<noteq> c \<longrightarrow> own l = Some c')"
  shows "owners_ok (own(l := w)) (go c pc m s)"
  unfolding owners_ok_def
proof (intro allI impI)
  fix k assume k: "k < length (ma_locks (ls_m (go c pc m s)))"
  let ?s = "go c pc m s"
  show "(lk_locked (ma_locks (ls_m ?s) ! k) \<longleftrightarrow> (own(l := w)) k \<noteq> None) \<and> (\<forall>c. in_section ?s c k \<longleftrightarrow> (own(l := w)) k = Some c) \<and>
    (\<forall>c. ls_pc ?s c = Drop k \<longrightarrow> lk_cpu (ma_locks (ls_m ?s) ! k) = None) \<and> (\<forall>c. ls_pc ?s c = Spin k \<longrightarrow> (own(l := w)) k \<noteq> Some c) \<and>
    (\<forall>c. (own(l := w)) k = Some c \<longrightarrow> c < NCPU)"
  proof (cases "k = l")
    case True
    have lk: "ma_locks (ls_m ?s) ! l = lk" using l m by simp
    have "in_section ?s c' l \<longleftrightarrow> w = Some c'" for c' using new(2) [of c'] lk by (cases "c' = c") (simp_all add: in_section_def)
    moreover have "lk_cpu lk = None" if "ls_pc ?s c' = Drop l" for c' using new(3) that by (cases "c' = c") auto
    moreover have "w \<noteq> Some c'" if "ls_pc ?s c' = Spin l" for c'
      using new(4,5) owners_okD(4) [OF inv l, of c'] that by (cases "c' = c") auto
    ultimately show ?thesis using True lk new(1,5) by auto
  next
    case False
    then have kl: "k < length (ma_locks (ls_m s))" using k m by simp
    have "ma_locks m ! k = ma_locks (ls_m s) ! k" using False m by simp
    with False owners_okD [OF inv kl] pc [OF False] show ?thesis by (auto simp: in_section_def)
  qed
qed

lemma lock_inv_change:
  assumes inv: "lock_inv own s" and l: "l < length (ma_locks (ls_m s))" and m: "m = (ls_m s)\<lparr>ma_locks := (ma_locks (ls_m s))[l := lk]\<rparr>"
    and owners: "owners_ok (own(l := w)) (go c pc m s)"
    and pc: "\<And>k. pc \<in> {Spin k, Won k, Drop k} \<Longrightarrow> k = l"
    and depth: "\<And>c'. sections (own(l := w)) (length (ma_locks (ls_m s))) c' + of_bool (c' = c) * pc_depth pc =
       sections own (length (ma_locks (ls_m s))) c' + of_bool (c' = c) * pc_depth (ls_pc s c)"
  shows "lock_inv (own(l := w)) (go c pc m s)"
proof -
  have "depth_ok (own(l := w)) (go c pc m s) c'" if "c' < NCPU" for c'
    using inv that depth [of c'] by (cases "c' = c") (auto simp: lock_inv_def depth_ok_def m)
  then show ?thesis using inv owners pc l by (auto simp: lock_inv_def m)
qed

lemma lock_inv_swap:
  assumes inv: "lock_inv own s" and c: "c < NCPU" "ls_pc s c = Spin l" and m: "test_and_set l (ls_m s) = (old, m)"
  shows "\<exists>own'. lock_inv own' (go c (if old then Spin l else Won l) m s)"
proof -
  have l: "l < length (ma_locks (ls_m s))" using pc_bound [OF inv, of c l] c by simp
  note O = owners_okD [OF inv l]
  let ?lk = "(ma_locks (ls_m s) ! l)\<lparr>lk_locked := True\<rparr>"
  have m': "\<not> old \<Longrightarrow> m = (ls_m s)\<lparr>ma_locks := (ma_locks (ls_m s))[l := ?lk]\<rparr>" "old = lk_locked (ma_locks (ls_m s) ! l)"
    "old \<Longrightarrow> m = (ls_m s)\<lparr>ma_locks := (ma_locks (ls_m s))[l := ?lk\<lparr>lk_nts := lk_nts (ma_locks (ls_m s) ! l) + 1\<rparr>]\<rparr>"
    using m by (auto simp: test_and_set_def Let_def)
  show ?thesis
  proof (cases old)
    case True
    have "owners_ok own (go c (Spin l) m s)"
      by (rule owners_ok_pc) (use inv c(2) O(4) [OF c(2)] True m'(2) in \<open>auto simp: lock_inv_def outside_def m'(3) [OF True] same_words_def nth_upd\<close>)
    moreover have "\<forall>c' < NCPU. depth_ok own (go c (Spin l) m s) c'" using inv c(2) by (auto simp: lock_inv_def depth_ok_def m'(3) [OF True])
    ultimately have "lock_inv own (go c (Spin l) m s)" using inv l by (auto simp: lock_inv_def m'(3) [OF True])
    with True show ?thesis by auto
  next
    case False
    then have free: "own l = None" using O(1) m'(2) by simp
    have none: "ls_pc s c' \<noteq> Won l" "ls_pc s c' \<noteq> Drop l" "lk_cpu (ma_locks (ls_m s) ! l) \<noteq> Some c'" for c'
      using O(2) [of c'] free by (auto simp: in_section_def)
    have "owners_ok (own(l := Some c)) (go c (Won l) m s)"
      by (rule owners_ok_change [OF inv l, where lk = ?lk]) (use c none free in \<open>auto simp: m'(1) [OF False]\<close>)
    from lock_inv_change [OF inv l m'(1) [OF False] this] have "lock_inv (own(l := Some c)) (go c (Won l) m s)"
      using sections_take [of own l _ c] free l c by (simp add: pc_depth_def)
    with False show ?thesis by auto
  qed
qed

lemma lock_inv_note:
  assumes inv: "lock_inv own s" and c: "c < NCPU" "ls_pc s c = Won l"
  shows "lock_inv own (go c Run (acquire_note c l (ls_m s)) s)"
proof -
  have l: "l < length (ma_locks (ls_m s))" using pc_bound [OF inv, of c l] c by simp
  note O = owners_okD [OF inv l]
  have own: "own l = Some c" using O(2) [of c] c by (simp add: in_section_def)
  let ?lk = "(ma_locks (ls_m s) ! l)\<lparr>lk_cpu := Some c\<rparr>"
  have only: "ls_pc s c' \<noteq> Won l" "ls_pc s c' \<noteq> Drop l" if "c' \<noteq> c" for c'
    using O(2) [of c'] own that by (auto simp: in_section_def)
  have "owners_ok (own(l := Some c)) (go c Run (acquire_note c l (ls_m s)) s)"
    by (rule owners_ok_change [OF inv l, where lk = ?lk]) (use c only own O(1) in \<open>auto simp: acquire_note_def\<close>)
  from lock_inv_change [OF inv l _ this, of ?lk] show ?thesis
    using c own by (simp add: acquire_note_def pc_depth_def fun_upd_idem)
qed

lemma lock_inv_rel:
  assumes inv: "lock_inv own s" and c: "c < NCPU" "l < length (ma_locks (ls_m s))" "ls_pc s c = Run" and m: "release_begin c l (ls_m s) = Ok m"
  shows "lock_inv own (go c (Drop l) m s)"
proof -
  note O = owners_okD [OF inv c(2)]
  let ?lk = "(ma_locks (ls_m s) ! l)\<lparr>lk_cpu := None\<rparr>"
  have m': "m = (ls_m s)\<lparr>ma_locks := (ma_locks (ls_m s))[l := ?lk]\<rparr>" and own: "own l = Some c"
    using m O(2) [of c] by (auto simp: release_begin_def holding_def in_section_def split: if_splits)
  have only: "ls_pc s c' \<noteq> Won l" "ls_pc s c' \<noteq> Drop l" if "c' \<noteq> c" for c'
    using O(2) [of c'] own that by (auto simp: in_section_def)
  have "owners_ok (own(l := Some c)) (go c (Drop l) m s)"
    by (rule owners_ok_change [OF inv c(2), where lk = ?lk]) (use c only own O(1) in \<open>auto simp: m'\<close>)
  from lock_inv_change [OF inv c(2) m' this] show ?thesis using c own by (simp add: pc_depth_def fun_upd_idem)
qed

lemma lock_inv_unlock:
  assumes inv: "lock_inv own s" and c: "c < NCPU" "ls_pc s c = Drop l"
  shows "\<exists>own'. lock_inv own' (go c Pop (lock_release l (ls_m s)) s)"
proof -
  have l: "l < length (ma_locks (ls_m s))" using pc_bound [OF inv, of c l] c by simp
  note O = owners_okD [OF inv l]
  have own: "own l = Some c" using O(2) [of c] c by (simp add: in_section_def)
  let ?lk = "(ma_locks (ls_m s) ! l)\<lparr>lk_locked := False\<rparr>"
  have only: "ls_pc s c' \<noteq> Won l" "ls_pc s c' \<noteq> Drop l" if "c' \<noteq> c" for c'
    using O(2) [of c'] own that by (auto simp: in_section_def)
  have "owners_ok (own(l := None)) (go c Pop (lock_release l (ls_m s)) s)"
    by (rule owners_ok_change [OF inv l, where lk = ?lk]) (use c only own O(3) [OF c(2)] in \<open>auto simp: lock_release_def\<close>)
  from lock_inv_change [OF inv l _ this, of ?lk] show ?thesis
    using c own sections_drop [of own l c] own l by (auto simp: lock_release_def pc_depth_def)
qed

lemma lock_inv_step: "lock_step s s' \<Longrightarrow> lock_inv own s \<Longrightarrow> \<exists>own'. lock_inv own' s'"
proof (induction rule: lock_step.induct)
  case (intr c s b)
  then have "lock_inv own (s\<lparr>ls_m := (ls_m s)\<lparr>ma_sie := (ma_sie (ls_m s))[c := b]\<rparr>\<rparr>)" by (auto simp: lock_defs nth_upd)
  then show ?case by blast
next
  case (switch c s b)
  then have "lock_inv own (s\<lparr>ls_m := (ls_m s)\<lparr>ma_cpus := (ma_cpus (ls_m s))[c := (ma_cpus (ls_m s) ! c)\<lparr>c_intena := b\<rparr>]\<rparr>\<rparr>)"
    by (auto simp: lock_defs nth_upd)
  then show ?case by blast
qed (blast intro: lock_inv_acq lock_inv_swap lock_inv_note lock_inv_rel lock_inv_unlock lock_inv_pop lock_inv_push lock_inv_unpush)+

lemma lock_reachable_inv: "lock_reachable s \<Longrightarrow> \<exists>own. lock_inv own s"
proof (induction rule: lock_reachable.induct)
  case (init s)
  then have lk: "ma_locks (ls_m s) ! l = lock_zero" if "l < length (ma_locks (ls_m s))" for l
    using that nth_mem unfolding lock_init_def by blast
  have "lock_inv (\<lambda>_. None) s" using init by (auto simp: lock_defs lock_init_def sections_def pc_depth_def lk)
  then show ?case by (rule exI [of _ "\<lambda>_. None"])
qed (blast dest: lock_inv_step)

text \<open>
  C30: Spin locks, for every interleaving of the memory operations of \<^verbatim>\<open>acquire\<close> and \<^verbatim>\<open>release\<close> on all CPUs, with nested locks and
  nested \<^verbatim>\<open>push_off\<close>. No two CPUs are in the section of one lock, the lock word is set exactly while some CPU is in it, and interrupts are off on that CPU.
  \<^verbatim>\<open>holding\<close> is true exactly for the CPU in the section, so \<^verbatim>\<open>acquire\<close> panics exactly on a lock the CPU already has and \<^verbatim>\<open>release\<close>
  exactly on one it does not have; the \<^verbatim>\<open>pop_off\<close> at the end of \<^verbatim>\<open>release\<close> never panics.
\<close>

theorem spinlock_exclusive:
  assumes "lock_reachable s" and "l < length (ma_locks (ls_m s))"
  shows "(\<forall>c c'. in_section s c l \<and> in_section s c' l \<longrightarrow> c = c') \<and>
    (lk_locked (ma_locks (ls_m s) ! l) \<longleftrightarrow> (\<exists>c < NCPU. in_section s c l)) \<and>
    (\<forall>c < NCPU. (in_section s c l \<longrightarrow> \<not> ma_sie (ls_m s) ! c) \<and> (ls_pc s c = Pop \<longrightarrow> (\<exists>m. pop_off c (ls_m s) = Ok m)) \<and>
       (ls_pc s c = Run \<longrightarrow> (holding c l (ls_m s) \<longleftrightarrow> in_section s c l) \<and>
          (acquire_begin c l (ls_m s) = Panic ''acquire'' \<longleftrightarrow> in_section s c l) \<and> ((\<exists>m. acquire_begin c l (ls_m s) = Ok m) \<longleftrightarrow> \<not> in_section s c l) \<and>
          ((\<exists>m. release_begin c l (ls_m s) = Ok m) \<longleftrightarrow> in_section s c l)))"
proof -
  obtain own where inv: "lock_inv own s" using lock_reachable_inv [OF assms(1)] by blast
  note O = owners_okD [OF inv assms(2)]
  have run: "holding c l (ls_m s) \<longleftrightarrow> in_section s c l" if "ls_pc s c = Run" for c
    using O(1) O(2) [of c] that by (auto simp: holding_def in_section_def)
  have depth: "0 < c_noff (ma_cpus (ls_m s) ! c) \<and> \<not> ma_sie (ls_m s) ! c" if "c < NCPU" "own l = Some c \<or> ls_pc s c = Pop" for c
  proof -
    have "depth_ok own s c" using inv that(1) by (simp add: lock_inv_def)
    moreover have "0 < sections own (length (ma_locks (ls_m s))) c" if "own l = Some c"
      unfolding sections_def using that assms(2) by (subst card_gt_0_iff) auto
    ultimately show ?thesis using that(2) by (auto simp: depth_ok_def pc_depth_def)
  qed
  have off: "\<not> ma_sie (ls_m s) ! c" if "c < NCPU" "in_section s c l" for c using depth that O(2) [of c] by blast
  have pop: "\<exists>m. pop_off c (ls_m s) = Ok m" if "c < NCPU" "ls_pc s c = Pop" for c
    using depth [OF that(1)] that(2) by (auto simp: pop_off_def Let_def)
  have "(acquire_begin c l (ls_m s) = Panic ''acquire'' \<longleftrightarrow> in_section s c l) \<and> ((\<exists>m. acquire_begin c l (ls_m s) = Ok m) \<longleftrightarrow> \<not> in_section s c l) \<and>
      ((\<exists>m. release_begin c l (ls_m s) = Ok m) \<longleftrightarrow> in_section s c l)" if "ls_pc s c = Run" for c
    using run [OF that] by (auto simp: acquire_begin_def release_begin_def holding_def Let_def)
  moreover have "\<forall>c c'. in_section s c l \<and> in_section s c' l \<longrightarrow> c = c'" using O(2) by auto
  moreover have "lk_locked (ma_locks (ls_m s) ! l) \<longleftrightarrow> (\<exists>c < NCPU. in_section s c l)" using O(1,2,5) by auto
  ultimately show ?thesis using run off pop by blast
qed

definition demo_locks :: lstate where
  "demo_locks = \<lparr>ls_m = \<lparr>ma_locks = [lock_zero], ma_table = replicate NLOCK None, ma_cpus = replicate NCPU cpu_zero, ma_sie = replicate NCPU True\<rparr>,
     ls_pc = (\<lambda>_. Run), ls_push = (\<lambda>_. 0)\<rparr>"

text \<open>CPU 0 has won the lock and CPU 1 spins.\<close>

theorem spinlock_exclusive_witness:
  "\<exists>s. lock_reachable s \<and> ls_pc s 0 = Won 0 \<and> ls_pc s 1 = Spin 0 \<and> in_section s 0 0 \<and> \<not> in_section s 1 0 \<and> \<not> ma_sie (ls_m s) ! 0"
proof -
  let ?enter = "\<lambda>c s. (push_off c (ls_m s))\<lparr>ma_locks := (ma_locks (ls_m s))[0 := (ma_locks (ls_m s) ! 0)\<lparr>lk_n := lk_n (ma_locks (ls_m s) ! 0) + 1\<rparr>]\<rparr>"
  let ?s1 = "go 0 (Spin 0) (?enter 0 demo_locks) demo_locks"
  let ?s2 = "go 1 (Spin 0) (?enter 1 ?s1) ?s1"
  let ?s3 = "go 0 (Won 0) (snd (test_and_set 0 (ls_m ?s2))) ?s2"
  have "lock_reachable demo_locks" by (rule lock_reachable.init) (simp add: lock_init_def demo_locks_def cpu_zero_def)
  moreover have "lock_step demo_locks ?s1"
    by (rule lock_step.acq) (simp_all add: demo_locks_def acquire_begin_def holding_def Let_def)
  moreover have "lock_step ?s1 ?s2"
    by (rule lock_step.acq) (simp_all add: demo_locks_def acquire_begin_def holding_def Let_def)
  moreover have "lock_step ?s2 ?s3"
    using lock_step.swap [of 0 ?s2 0 False "snd (test_and_set 0 (ls_m ?s2))"] by (simp add: demo_locks_def test_and_set_def Let_def)
  ultimately have r: "lock_reachable ?s3" by (meson lock_reachable.step)
  have pc: "ls_pc ?s3 0 = Won 0" "ls_pc ?s3 1 = Spin 0" by simp_all
  have "0 < length (ma_locks (ls_m ?s3))" by (simp add: demo_locks_def test_and_set_def Let_def)
  note E = spinlock_exclusive [OF r this]
  have in0: "in_section ?s3 0 0" by (simp add: in_section_def)
  have "\<not> in_section ?s3 1 0" using E in0 by (metis zero_neq_one)
  moreover have "\<not> ma_sie (ls_m ?s3) ! 0" using E in0 by (metis zero_less_numeral)
  ultimately show ?thesis using r pc in0 by blast
qed

section \<open>The table of locks\<close>

definition free_slots :: "mach \<Rightarrow> nat" where
  "free_slots m = count_list (ma_table m) None"

lemma count_list_take: "i < length xs \<Longrightarrow> xs ! i = None \<Longrightarrow> count_list (xs[i := Some l]) None + 1 = count_list xs None"
proof (induction xs arbitrary: i)
  case (Cons x xs)
  then show ?case by (cases i) auto
qed simp

lemma initlock_slots:
  "case initlock l m of Ok m' \<Rightarrow> free_slots m = free_slots m' + 1 | Panic e \<Rightarrow> free_slots m = 0 \<and> e = ''findslot''"
  using count_list_take [of _ "ma_table m" l]
  by (auto simp: initlock_def findslot_def free_slots_def find_slot_Some find_slot_None count_list_0_iff split: option.split)


section \<open>Nesting\<close>

text \<open>A sequence of calls of \<^verbatim>\<open>push_off\<close> (true) and \<^verbatim>\<open>pop_off\<close> (false) on one CPU.\<close>

fun nest :: "nat \<Rightarrow> bool list \<Rightarrow> mach \<Rightarrow> mach res" where
  "nest c [] m = Ok m"
| "nest c (True # os) m = nest c os (push_off c m)"
| "nest c (False # os) m = rbind (pop_off c m) (nest c os)"

fun nested :: "nat \<Rightarrow> bool list \<Rightarrow> bool" where
  "nested d [] = (d = 0)"
| "nested d (True # os) = nested (d + 1) os"
| "nested d (False # os) = (0 < d \<and> nested (d - 1) os)"

definition cpu_at :: "mach \<Rightarrow> nat \<Rightarrow> nat \<Rightarrow> bool \<Rightarrow> bool" where
  "cpu_at m c d b \<longleftrightarrow> c < length (ma_cpus m) \<and> c < length (ma_sie m) \<and> c_noff (ma_cpus m ! c) = int d \<and>
     (if d = 0 then ma_sie m ! c = b else \<not> ma_sie m ! c \<and> c_intena (ma_cpus m ! c) = b)"

definition same_others :: "nat \<Rightarrow> mach \<Rightarrow> mach \<Rightarrow> bool" where
  "same_others c m m' \<longleftrightarrow> ma_locks m' = ma_locks m \<and> (\<forall>c'. c' \<noteq> c \<longrightarrow> ma_cpus m' ! c' = ma_cpus m ! c' \<and> ma_sie m' ! c' = ma_sie m ! c')"

lemma push_off_at: "cpu_at m c d b \<Longrightarrow> cpu_at (push_off c m) c (d + 1) b \<and> same_others c m (push_off c m)"
  by (auto simp: cpu_at_def push_off_def Let_def same_others_def)

lemma pop_off_at: "cpu_at m c (Suc d) b \<Longrightarrow> \<exists>m'. pop_off c m = Ok m' \<and> cpu_at m' c d b \<and> same_others c m m'"
  by (auto simp: cpu_at_def pop_off_def Let_def same_others_def)

text \<open>
  \<^verbatim>\<open>push_off\<close> and \<^verbatim>\<open>pop_off\<close> match. After any well-nested sequence of them no call has panicked, the nesting count is back at 0, and interrupts are
  enabled exactly if they were before; no lock and no other CPU has changed.
\<close>

theorem push_pop_restore:
  assumes "nested 0 os" and "c < length (ma_cpus m)" and "c < length (ma_sie m)" and "c_noff (ma_cpus m ! c) = 0"
  shows "\<exists>m'. nest c os m = Ok m' \<and> c_noff (ma_cpus m' ! c) = 0 \<and> ma_sie m' ! c = ma_sie m ! c \<and> same_others c m m'"
proof -
  have "\<exists>m'. nest c os m = Ok m' \<and> cpu_at m' c 0 b \<and> same_others c m m'" if "nested d os" "cpu_at m c d b" for d b m
    using that
  proof (induction d os arbitrary: m rule: nested.induct)
    case (2 d os)
    from push_off_at [OF "2.prems"(2)] "2.IH" [of "push_off c m"] "2.prems"(1) show ?case by (auto simp: same_others_def)
  next
    case (3 d os)
    then obtain d' where d: "d = Suc d'" by (cases d) auto
    from pop_off_at "3.prems"(2) d obtain m1 where m1: "pop_off c m = Ok m1" "cpu_at m1 c d' b" "same_others c m m1" by blast
    with 3 d show ?case by (fastforce simp: same_others_def)
  qed (auto simp: same_others_def)
  from this [OF assms(1), of m "ma_sie m ! c"] assms show ?thesis by (auto simp: cpu_at_def)
qed

theorem push_pop_restore_witness:
  "\<exists>m'. nest 0 [True, True, False, True, False, False] (ls_m demo_locks) = Ok m' \<and> ma_sie m' ! 0"
  using push_pop_restore [of "[True, True, False, True, False, False]" 0 "ls_m demo_locks"] by (simp add: demo_locks_def cpu_zero_def del: nest.simps) blast

section \<open>Sleep locks\<close>

record sleeplock =
  sl_locked :: bool
  sl_pid :: int

definition initsleeplock :: sleeplock where
  "initsleeplock = \<lparr>sl_locked = False, sl_pid = 0\<rparr>"

text \<open>
  One pass of the loop of \<^verbatim>\<open>acquiresleep\<close> by process \<open>i\<close> on CPU \<open>c\<close>, inside the inner spin lock: the process has the lock, or is asleep on the
  address \<open>chan\<close> of the lock and takes another pass when it runs again.
\<close>

definition acquiresleep :: "u64 \<Rightarrow> nat \<Rightarrow> nat \<Rightarrow> sleeplock \<Rightarrow> sched \<Rightarrow> bool \<times> sleeplock \<times> sched" where
  "acquiresleep chan c i lk sd =
     (if sl_locked lk then (False, lk, snd (sleep_on sd c i chan False))
      else (True, \<lparr>sl_locked = True, sl_pid = p_pid (sd_procs sd ! i)\<rparr>, sd))"

definition releasesleep :: "u64 \<Rightarrow> sleeplock \<Rightarrow> sched \<Rightarrow> sleeplock \<times> sched" where
  "releasesleep chan lk sd = (\<lparr>sl_locked = False, sl_pid = 0\<rparr>, wakeup sd chan)"

definition holdingsleep :: "nat \<Rightarrow> sleeplock \<Rightarrow> sched \<Rightarrow> bool" where
  "holdingsleep i lk sd \<longleftrightarrow> sl_locked lk \<and> sl_pid lk = p_pid (sd_procs sd ! i)"

text \<open>\<open>ss_in\<close> are the processes that have returned from \<^verbatim>\<open>acquiresleep\<close> and not yet called \<^verbatim>\<open>releasesleep\<close>.\<close>

record slstate =
  ss_lk :: sleeplock
  ss_sd :: sched
  ss_in :: "nat set"

definition sleeps_on :: "u64 \<Rightarrow> sched \<Rightarrow> nat \<Rightarrow> bool" where
  "sleeps_on chan sd j \<longleftrightarrow> p_state (sd_procs sd ! j) = SLEEPING \<and> p_chan (sd_procs sd ! j) = chan"

text \<open>
  The rest of the system keeps the ids of the processes and puts nobody to sleep on the address of this lock: that is what
  \<open>others\<close> allows.
\<close>

inductive sleep_step :: "u64 \<Rightarrow> slstate \<Rightarrow> slstate \<Rightarrow> bool" for chan where
  got: "i < NPROC \<Longrightarrow> acquiresleep chan c i (ss_lk s) (ss_sd s) = (True, lk, sd) \<Longrightarrow>
    sleep_step chan s (s\<lparr>ss_lk := lk, ss_sd := sd, ss_in := insert i (ss_in s)\<rparr>)"
| blocked: "i < NPROC \<Longrightarrow> acquiresleep chan c i (ss_lk s) (ss_sd s) = (False, lk, sd) \<Longrightarrow> sleep_step chan s (s\<lparr>ss_lk := lk, ss_sd := sd\<rparr>)"
| released: "i \<in> ss_in s \<Longrightarrow> releasesleep chan (ss_lk s) (ss_sd s) = (lk, sd) \<Longrightarrow>
    sleep_step chan s (s\<lparr>ss_lk := lk, ss_sd := sd, ss_in := ss_in s - {i}\<rparr>)"
| others: "length (sd_procs sd) = NPROC \<Longrightarrow> (\<forall>j < NPROC. p_pid (sd_procs sd ! j) = p_pid (sd_procs (ss_sd s) ! j)) \<Longrightarrow>
    (\<forall>j < NPROC. sleeps_on chan sd j \<longrightarrow> sleeps_on chan (ss_sd s) j) \<Longrightarrow> sleep_step chan s (s\<lparr>ss_sd := sd\<rparr>)"

inductive sleep_reachable :: "u64 \<Rightarrow> slstate \<Rightarrow> bool" for chan where
  init: "ss_lk s = initsleeplock \<Longrightarrow> ss_in s = {} \<Longrightarrow> length (sd_procs (ss_sd s)) = NPROC \<Longrightarrow> \<forall>j < NPROC. \<not> sleeps_on chan (ss_sd s) j \<Longrightarrow>
    sleep_reachable chan s"
| step: "sleep_reachable chan s \<Longrightarrow> sleep_step chan s s' \<Longrightarrow> sleep_reachable chan s'"

definition sleep_inv :: "u64 \<Rightarrow> slstate \<Rightarrow> bool" where
  "sleep_inv chan s \<longleftrightarrow> length (sd_procs (ss_sd s)) = NPROC \<and>
     (if sl_locked (ss_lk s) then \<exists>i < NPROC. ss_in s = {i} \<and> sl_pid (ss_lk s) = p_pid (sd_procs (ss_sd s) ! i)
      else ss_in s = {} \<and> (\<forall>j < NPROC. \<not> sleeps_on chan (ss_sd s) j))"

lemma wakeup_loop_chan:
  assumes "\<forall>i \<in> set is. i < length (sd_procs sd)"
  shows "length (sd_procs (wakeup_loop sd chan r is)) = length (sd_procs sd) \<and> p_chan (sd_procs (wakeup_loop sd chan r is) ! j) = p_chan (sd_procs sd ! j)"
  using assms
proof (induction "is" arbitrary: sd)
  case (Cons i "is")
  define sd1 where "sd1 = (if p_state (sd_procs sd ! i) = SLEEPING \<and> p_chan (sd_procs sd ! i) = chan
    then mlfq_promote_on_wakeup (set_proc sd i (\<lambda>p. p\<lparr>p_state := RUNNABLE, p_last_wakeup_reason := r\<rparr>)) i r else sd)"
  have "length (sd_procs sd1) = length (sd_procs sd)" "p_chan (sd_procs sd1 ! j) = p_chan (sd_procs sd ! j)"
    using Cons.prems by (auto simp: sd1_def promote_state set_proc_def nth_upd)
  moreover have "wakeup_loop sd chan r (i # is) = wakeup_loop sd1 chan r is" by (simp add: sd1_def)
  ultimately show ?case using Cons.IH [of sd1] Cons.prems by simp
qed simp

lemma wakeup_none_sleeps:
  assumes "length (sd_procs sd) = NPROC"
  shows "length (sd_procs (wakeup sd chan)) = NPROC" and "j < NPROC \<Longrightarrow> \<not> sleeps_on chan (wakeup sd chan) j"
  using assms wakeup_loop_chan [of "[0..<NPROC]" sd chan WAKEUP_NORMAL j]
  by (auto simp: sleeps_on_def wakeup_def wakeup_reason_def wakeup_loop_state)

lemma sleep_inv_step: "sleep_step chan s s' \<Longrightarrow> sleep_inv chan s \<Longrightarrow> sleep_inv chan s'"
proof (induction rule: sleep_step.induct)
  case (got i c s lk sd)
  then show ?case by (auto simp: sleep_inv_def acquiresleep_def split: if_splits)
next
  case (blocked i c s lk sd)
  then have lk: "sl_locked (ss_lk s)" "lk = ss_lk s" "sd = snd (sleep_on (ss_sd s) c i chan False)"
    by (auto simp: acquiresleep_def split: if_splits)
  have "length (sd_procs sd) = length (sd_procs (ss_sd s))" "p_pid (sd_procs sd ! j) = p_pid (sd_procs (ss_sd s) ! j)" for j
    by (auto simp: lk(3) sleep_on_def run_proc_back_def set_cpu_def set_proc_def nth_upd)
  with blocked.prems lk show ?case by (simp add: sleep_inv_def)
next
  case (released i s lk sd)
  then have lk: "lk = \<lparr>sl_locked = False, sl_pid = 0\<rparr>" "sd = wakeup (ss_sd s) chan" by (auto simp: releasesleep_def)
  have "ss_in s = {i}" using released by (auto simp: sleep_inv_def split: if_splits)
  with released.prems lk wakeup_none_sleeps [of "ss_sd s"] show ?case by (simp add: sleep_inv_def)
qed (auto simp: sleep_inv_def split: if_splits)

text \<open>
  Sleep locks. However processes acquire and release the lock and however the rest of the system schedules them, at most one process is between
  \<^verbatim>\<open>acquiresleep\<close> and \<^verbatim>\<open>releasesleep\<close>; \<^verbatim>\<open>holdingsleep\<close> is true for that process, and for no process when there is none. A free lock has no sleeper, so no wakeup is lost:
  the next pass of \<^verbatim>\<open>acquiresleep\<close> on a free lock succeeds and records the caller.
\<close>

theorem sleeplock_exclusive:
  assumes "sleep_reachable chan s"
  shows "(ss_in s = {} \<and> (\<forall>j < NPROC. \<not> sleeps_on chan (ss_sd s) j) \<and> (\<forall>i. \<not> holdingsleep i (ss_lk s) (ss_sd s)) \<and>
       (\<forall>c i. \<exists>lk. acquiresleep chan c i (ss_lk s) (ss_sd s) = (True, lk, ss_sd s) \<and> holdingsleep i lk (ss_sd s))) \<or>
    (\<exists>i < NPROC. ss_in s = {i} \<and> holdingsleep i (ss_lk s) (ss_sd s) \<and> (\<forall>c j. \<not> fst (acquiresleep chan c j (ss_lk s) (ss_sd s))))"
proof -
  have "sleep_inv chan s" using assms
  proof (induction rule: sleep_reachable.induct)
    case (init s)
    then show ?case by (simp add: sleep_inv_def initsleeplock_def)
  qed (rule sleep_inv_step)
  then show ?thesis by (auto simp: sleep_inv_def holdingsleep_def acquiresleep_def split: if_splits)
qed

text \<open>Two processes: the first has the lock, the second sleeps until the first releases it.\<close>

theorem sleeplock_exclusive_witness:
  "\<exists>s. sleep_reachable 7 s \<and> ss_in s = {} \<and> p_state (sd_procs (ss_sd s) ! 1) = RUNNABLE \<and> \<not> holdingsleep 0 (ss_lk s) (ss_sd s)"
proof -
  define s0 where "s0 = \<lparr>ss_lk = initsleeplock, ss_sd = procinit sched_boot, ss_in = {}\<rparr>"
  have r0: "sleep_reachable 7 s0"
    by (rule sleep_reachable.init) (simp_all add: s0_def procinit_def sleeps_on_def proc_zero_def)
  define s1 where "s1 = s0\<lparr>ss_lk := \<lparr>sl_locked = True, sl_pid = 0\<rparr>, ss_in := {0}\<rparr>"
  have "sleep_step 7 s0 s1"
    using sleep_step.got [of 0 7 0 s0 "\<lparr>sl_locked = True, sl_pid = 0\<rparr>" "ss_sd s0"]
    by (simp add: s0_def s1_def acquiresleep_def initsleeplock_def procinit_def proc_zero_def)
  then have r1: "sleep_reachable 7 s1" using r0 sleep_reachable.step by blast
  define sd2 where "sd2 = snd (sleep_on (ss_sd s1) 0 1 7 False)"
  have "sleep_step 7 s1 (s1\<lparr>ss_sd := sd2\<rparr>)"
    using sleep_step.blocked [of 1 7 0 s1 "ss_lk s1" sd2] by (simp add: acquiresleep_def sd2_def) (simp add: s1_def)
  then have r2: "sleep_reachable 7 (s1\<lparr>ss_sd := sd2\<rparr>)" using r1 sleep_reachable.step by blast
  define s3 where "s3 = s1\<lparr>ss_lk := \<lparr>sl_locked = False, sl_pid = 0\<rparr>, ss_sd := wakeup sd2 7, ss_in := {}\<rparr>"
  have "sleep_step 7 (s1\<lparr>ss_sd := sd2\<rparr>) s3"
    using sleep_step.released [of 0 "s1\<lparr>ss_sd := sd2\<rparr>" 7] by (simp add: s1_def s3_def releasesleep_def)
  then have r3: "sleep_reachable 7 s3" using r2 sleep_reachable.step by blast
  have len: "length (sd_procs sd2) = NPROC" and sl: "p_state (sd_procs sd2 ! 1) = SLEEPING" "p_chan (sd_procs sd2 ! 1) = 7"
    by (simp_all add: sd2_def s1_def s0_def procinit_def sleep_on_def run_proc_back_def set_cpu_def set_proc_def)
  have "p_state (sd_procs (ss_sd s3) ! 1) = RUNNABLE"
    using len sl by (simp add: s3_def wakeup_def wakeup_reason_def wakeup_loop_state)
  moreover have "ss_in s3 = {}" by (simp add: s3_def)
  ultimately show ?thesis using sleeplock_exclusive [OF r3] r3 by blast
qed

end
