(* ===== verification/Format.thy ===== *)
theory Format
  imports CString
begin

text \<open>
  Formatted output: \<^verbatim>\<open>kernel/libc/printf.c\<close> and \<^verbatim>\<open>kernel/libc/sprintf.c\<close>.

  A variable argument occupies one 64-bit slot, as the RISC-V calling convention passes it: \<open>Word w\<close> is a slot
  with a number (an \<^verbatim>\<open>int\<close> arrives sign extended), \<open>Str s\<close> a slot with the address of the string \<open>s\<close>. Taking an
  argument that was not passed, or a number as the address of a string, is undefined in C and the outcome
  \<open>Panic ''va_arg''\<close> here. The console is the list of the characters sent to it. Text is a list of bytes; \<open>cbytes\<close>
  gives the bytes of a literal.
\<close>

section \<open>Operations\<close>

definition cbytes :: "string \<Rightarrow> bytes" where
  "cbytes s = map of_char s"

definition digits :: bytes where
  "digits = cbytes ''0123456789abcdef''"

text \<open>
  \<^verbatim>\<open>do buf[i++] = digits[x % base]; while((x /= base) != 0)\<close>. The callers pass the bases 10 and 16; for a base below
  two, which no caller passes and with which the C loop would not end, the model stops.
\<close>

function digit_loop :: "u32 \<Rightarrow> u32 \<Rightarrow> bytes" where
  "digit_loop base x =
     digits ! unat (x mod base) # (if x div base = 0 \<or> base < 2 then [] else digit_loop base (x div base))"
  by pat_completeness auto
termination
proof (relation "measure (\<lambda>(base, x). unat x)")
  fix base x :: u32
  assume "\<not> (x div base = 0 \<or> base < 2)"
  then have "0 < unat x" "2 \<le> unat base"
    by (auto simp: word_less_nat_alt unat_gt_0 intro: ccontr)
  then show "((base, x div base), base, x) \<in> measure (\<lambda>(base, x). unat x)"
    by (simp add: unat_div)
qed simp

declare digit_loop.simps [simp del]

text \<open>\<^verbatim>\<open>sprintint\<close> of \<^verbatim>\<open>sprintf.c\<close>; the digits are collected backwards and copied out in order.\<close>

definition sprintint :: "i32 \<Rightarrow> u32 \<Rightarrow> bool \<Rightarrow> bytes" where
  "sprintint xx base sign =
     (let neg = sign \<and> sint xx < 0;
          x = (if neg then - xx else xx);
          buf = digit_loop base x @ (if neg then [0x2D] else [])
      in rev buf)"

text \<open>The same code in \<^verbatim>\<open>printf.c\<close>, sending to the console.\<close>

definition printint :: "bytes \<Rightarrow> i32 \<Rightarrow> u32 \<Rightarrow> bool \<Rightarrow> bytes" where
  "printint out xx base sign =
     (let neg = sign \<and> sint xx < 0;
          x = (if neg then - xx else xx);
          buf = digit_loop base x @ (if neg then [0x2D] else [])
      in fold (\<lambda>c o1. o1 @ [c]) (rev buf) out)"

fun printptr_loop :: "nat \<Rightarrow> u64 \<Rightarrow> bytes" where
  "printptr_loop 0 x = []"
| "printptr_loop (Suc n) x = digits ! unat (drop_bit 60 x) # printptr_loop n (push_bit 4 x)"

definition printptr :: "bytes \<Rightarrow> u64 \<Rightarrow> bytes" where
  "printptr out x = out @ [0x30, 0x78] @ printptr_loop 16 x"

datatype farg = Word u64 | Str bytes

fun va_int :: "farg list \<Rightarrow> (i32 \<times> farg list) res" where
  "va_int (Word w # ap) = Ok (ucast w, ap)"
| "va_int ap = Panic ''va_arg''"

fun va_uint64 :: "farg list \<Rightarrow> (u64 \<times> farg list) res" where
  "va_uint64 (Word w # ap) = Ok (w, ap)"
| "va_uint64 ap = Panic ''va_arg''"

text \<open>\<^verbatim>\<open>if((s = va_arg(ap, char*)) == 0) s = "(null)"\<close>\<close>

fun va_str :: "farg list \<Rightarrow> (bytes \<times> farg list) res" where
  "va_str (Str s # ap) = Ok (s, ap)"
| "va_str (Word w # ap) = (if w = 0 then Ok (cbytes ''(null)'', ap) else Panic ''va_arg'')"
| "va_str [] = Panic ''va_arg''"

fun sput_str :: "int \<Rightarrow> bytes \<Rightarrow> bytes \<Rightarrow> bytes" where
  "sput_str sz [] out = out"
| "sput_str sz (c # s) out = (if c \<noteq> 0 \<and> int (length out) < sz then sput_str sz s (out @ [c]) else out)"

text \<open>
  \<open>out\<close> holds the bytes stored from \<^verbatim>\<open>buf\<close> on, so that \<^verbatim>\<open>off\<close> is its length. Running off the array of the format
  reads the byte zero, as \<open>deref\<close> does.
\<close>

fun snprintf_loop :: "int \<Rightarrow> bytes \<Rightarrow> farg list \<Rightarrow> bytes \<Rightarrow> bytes res" where
  "snprintf_loop sz [] ap out = Ok out"
| "snprintf_loop sz [c] ap out =
     (if \<not> int (length out) < sz \<or> c = 0 \<or> c = 0x25 then Ok out else Ok (out @ [c]))"
| "snprintf_loop sz (c # d # fmt) ap out =
     (if \<not> int (length out) < sz \<or> c = 0 then Ok out
      else if c \<noteq> 0x25 then snprintf_loop sz (d # fmt) ap (out @ [c])
      else if d = 0 then Ok out
      else if d = 0x64 then rbind (va_int ap) (\<lambda>(x, ap1). snprintf_loop sz fmt ap1 (out @ sprintint x 10 True))
      else if d = 0x78 then rbind (va_int ap) (\<lambda>(x, ap1). snprintf_loop sz fmt ap1 (out @ sprintint x 16 True))
      else if d = 0x73 then rbind (va_str ap) (\<lambda>(s, ap1). snprintf_loop sz fmt ap1 (sput_str sz s out))
      else if d = 0x25 then snprintf_loop sz fmt ap (out @ [0x25])
      else snprintf_loop sz fmt ap (out @ [0x25, d]))"

text \<open>The bytes written to \<^verbatim>\<open>buf\<close>; the result of the C function is their number.\<close>

definition snprintf :: "int \<Rightarrow> bytes option \<Rightarrow> farg list \<Rightarrow> bytes res" where
  "snprintf sz fmt ap = (case fmt of None \<Rightarrow> Panic ''null fmt'' | Some f \<Rightarrow> snprintf_loop sz f ap [])"

fun put_str :: "bytes \<Rightarrow> bytes \<Rightarrow> bytes" where
  "put_str [] out = out"
| "put_str (c # s) out = (if c \<noteq> 0 then put_str s (out @ [c]) else out)"

fun printf_loop :: "bytes \<Rightarrow> farg list \<Rightarrow> bytes \<Rightarrow> bytes res" where
  "printf_loop [] ap out = Ok out"
| "printf_loop [c] ap out = (if c = 0 \<or> c = 0x25 then Ok out else Ok (out @ [c]))"
| "printf_loop (c # d # fmt) ap out =
     (if c = 0 then Ok out
      else if c \<noteq> 0x25 then printf_loop (d # fmt) ap (out @ [c])
      else if d = 0 then Ok out
      else if d = 0x64 then rbind (va_int ap) (\<lambda>(x, ap1). printf_loop fmt ap1 (printint out x 10 True))
      else if d = 0x78 then rbind (va_int ap) (\<lambda>(x, ap1). printf_loop fmt ap1 (printint out x 16 True))
      else if d = 0x70 then rbind (va_uint64 ap) (\<lambda>(x, ap1). printf_loop fmt ap1 (printptr out x))
      else if d = 0x73 then rbind (va_str ap) (\<lambda>(s, ap1). printf_loop fmt ap1 (put_str s out))
      else if d = 0x25 then printf_loop fmt ap (out @ [0x25])
      else printf_loop fmt ap (out @ [0x25, d]))"

text \<open>
  \<^verbatim>\<open>pr\<close>, the flag \<^verbatim>\<open>panicked\<close> and the console. \<^verbatim>\<open>acquire\<close> of the lock that the same CPU holds panics.
\<close>

record prstate =
  pr_locking :: bool
  pr_held :: bool
  pr_panicked :: bool
  pr_out :: bytes

definition printf :: "bytes option \<Rightarrow> farg list \<Rightarrow> prstate \<Rightarrow> prstate res" where
  "printf fmt ap s =
     (let locking = pr_locking s
      in if locking \<and> pr_held s then Panic ''acquire''
         else let s1 = (if locking then s\<lparr>pr_held := True\<rparr> else s)
              in case fmt of
                   None \<Rightarrow> Panic ''null fmt''
                 | Some f \<Rightarrow> rmap (\<lambda>out. let s2 = s1\<lparr>pr_out := out\<rparr> in if locking then s2\<lparr>pr_held := False\<rparr> else s2)
                               (printf_loop f ap (pr_out s1)))"

text \<open>The return addresses that \<^verbatim>\<open>backtrace\<close> prints, from the frame pointer \<open>fp\<close> in the memory \<open>m\<close> of words.\<close>

partial_function (option) backtrace_loop :: "(u64 \<Rightarrow> u64) \<Rightarrow> u64 \<Rightarrow> u64 list option" where
  "backtrace_loop m fp =
     (if PGROUNDUP fp - PGROUNDDOWN fp = PGSIZE
      then Option.bind (backtrace_loop m (m (fp - 16))) (\<lambda>rs. Some (m (fp - 8) # rs))
      else Some [])"

definition backtrace :: "(u64 \<Rightarrow> u64) \<Rightarrow> u64 \<Rightarrow> prstate \<Rightarrow> prstate res option" where
  "backtrace m fp s =
     map_option (\<lambda>rs. rbind (printf (Some (cbytes ''backtrace:'' @ [10])) [] s)
                        (rfold (\<lambda>r. printf (Some (cbytes ''%p'' @ [10])) [Word r]) rs))
       (backtrace_loop m fp)"

text \<open>\<^verbatim>\<open>panic\<close> up to its final endless loop.\<close>

definition panic :: "(u64 \<Rightarrow> u64) \<Rightarrow> u64 \<Rightarrow> bytes \<Rightarrow> prstate \<Rightarrow> prstate res option" where
  "panic m fp msg s =
     (case rbind (printf (Some (cbytes ''panic: '')) [] (s\<lparr>pr_locking := False\<rparr>)) (\<lambda>s1.
             rbind (printf (Some msg) [] s1) (printf (Some [10]) [])) of
        Panic e \<Rightarrow> Some (Panic e)
      | Ok s3 \<Rightarrow> map_option (rmap (\<lambda>s4. s4\<lparr>pr_panicked := True\<rparr>)) (backtrace m fp s3))"

definition printfinit :: "prstate \<Rightarrow> prstate" where
  "printfinit s = s\<lparr>pr_held := False, pr_locking := True\<rparr>"

section \<open>Reading numbers back\<close>

text \<open>What a reader of the output makes of it: a number in positional notation after an optional minus sign.\<close>

definition digit_val :: "u8 \<Rightarrow> nat" where
  "digit_val c = (if c < 0x3A then unat c - 0x30 else unat c - 0x57)"

definition read_digits :: "nat \<Rightarrow> bytes \<Rightarrow> nat" where
  "read_digits b s = foldl (\<lambda>acc c. acc * b + digit_val c) 0 s"

definition read_int :: "nat \<Rightarrow> bytes \<Rightarrow> int" where
  "read_int b s = (if s \<noteq> [] \<and> hd s = 0x2D then - int (read_digits b (tl s)) else int (read_digits b s))"

lemma length_digits [simp]: "length digits = 16"
  by (simp add: digits_def cbytes_def)

lemma digits_table: "\<forall>n \<in> set [0..<16]. digit_val (digits ! n) = n \<and> digits ! n \<noteq> 0x2D \<and> digits ! n \<noteq> 0"
  by (simp add: digits_def cbytes_def digit_val_def upt_conv_Cons)

lemma digit_val_nth: "n < 16 \<Longrightarrow> digit_val (digits ! n) = n"
  using digits_table by simp

lemma digits_no_minus: "n < 16 \<Longrightarrow> digits ! n \<noteq> 0x2D"
  using digits_table by simp

lemma read_digits_snoc: "read_digits b (s @ [c]) = read_digits b s * b + digit_val c"
  by (simp add: read_digits_def)

lemma unat_mod_less: "2 \<le> base \<Longrightarrow> unat (x mod base) < unat (base :: u32)"
  by (simp add: unat_mod word_le_nat_alt)

lemma read_digit_loop:
  assumes "2 \<le> base" "base \<le> 16"
  shows "read_digits (unat base) (rev (digit_loop base x)) = unat x"
  using assms
proof (induction base x rule: digit_loop.induct)
  case (1 base x)
  have b: "\<not> base < 2" using 1(2) by simp
  have b16: "unat base \<le> 16" using 1(3) by (simp add: word_le_nat_alt)
  have d: "digit_val (digits ! unat (x mod base)) = unat x mod unat base"
    using unat_mod_less [OF 1(2), of x] b16 by (simp add: digit_val_nth unat_mod)
  show ?case
  proof (cases "x div base = 0")
    case True
    then have "unat x div unat base = 0"
      by (metis unat_0 unat_div)
    then show ?thesis
      using d True mult_div_mod_eq [of "unat base" "unat x"]
      by (subst digit_loop.simps) (simp add: read_digits_def)
  next
    case False
    then show ?thesis
      using d b 1 by (subst digit_loop.simps) (simp add: read_digits_snoc unat_div)
  qed
qed

lemma digit_loop_Nil [simp]: "digit_loop base x \<noteq> []"
  by (subst digit_loop.simps) simp

lemma digit_loop_no_minus:
  assumes "2 \<le> base" "base \<le> 16"
  shows "0x2D \<notin> set (digit_loop base x)"
  using assms
proof (induction base x rule: digit_loop.induct)
  case (1 base x)
  have "unat (x mod base) < 16"
    using unat_mod_less [OF 1(2), of x] 1(3) by (simp add: word_le_nat_alt)
  then show ?case
    using 1 by (subst digit_loop.simps) (auto dest: digits_no_minus)
qed

lemma length_digit_loop:
  assumes "2 \<le> base" "unat x < unat base ^ Suc k"
  shows "length (digit_loop base x) \<le> Suc k"
  using assms
proof (induction k arbitrary: x)
  case 0
  then have "x div base = 0"
    by (simp add: word_unat_eq_iff unat_div)
  then show ?case by (subst digit_loop.simps) simp
next
  case (Suc k)
  have "unat (x div base) < unat base ^ Suc k"
    using Suc(3) by (simp add: unat_div less_mult_imp_div_less mult.commute)
  then show ?case
    using Suc by (subst digit_loop.simps) simp
qed

lemma length_digit_loop_10:
  assumes "10 \<le> base" shows "length (digit_loop base x) \<le> 10"
proof -
  have b: "10 \<le> unat base" using assms by (simp add: word_le_nat_alt)
  have "unat x < 10 ^ Suc 9" using unat_lt32 [of x] by simp
  also have "\<dots> \<le> unat base ^ Suc 9" using b by (rule power_mono) simp
  finally show ?thesis
    using length_digit_loop [of base x 9] assms order.trans [of 2 10 base] by simp
qed

lemma sint_i32: "sint (x :: i32) = (if uint x < 2 ^ 31 then uint x else uint x - 2 ^ 32)"
proof -
  have u: "0 \<le> uint x" "uint x < 2 ^ 32" using uint_lt2p [of x] by auto
  have s: "sint x = (uint x + 2 ^ 31) mod 2 ^ 32 - 2 ^ 31"
    by (simp add: sint_uint signed_take_bit_eq_take_bit_shift take_bit_eq_mod)
  show ?thesis
  proof (cases "uint x < 2 ^ 31")
    case True
    with u s show ?thesis by simp
  next
    case False
    then have "(uint x + 2 ^ 31) mod 2 ^ 32 = uint x + 2 ^ 31 - 2 ^ 32"
      using u minus_mod_self2 [of "uint x + 2 ^ 31" "2 ^ 32"] mod_pos_pos_trivial [of "uint x + 2 ^ 31 - 2 ^ 32" "2 ^ 32"]
      by simp
    with False s show ?thesis by simp
  qed
qed

lemma sint_i32_range: "- (2 ^ 31) \<le> sint (n :: i32) \<and> sint n < 2 ^ 31"
proof -
  have "- 2147483648 \<le> uint n" by (rule order_trans [of _ 0]) simp_all
  then show ?thesis using uint_lt2p [of n] by (simp add: sint_i32)
qed

lemma uint_neg_i32: "sint (x :: i32) < 0 \<Longrightarrow> uint (- x) = - sint x"
  using uint_lt2p [of x] by (simp add: sint_i32 uint_word_ariths zmod_zminus1_eq_if split: if_splits)

lemma uint_pos_i32: "\<not> sint (x :: i32) < 0 \<Longrightarrow> uint x = sint x"
  using uint_lt2p [of x] by (simp add: sint_i32 split: if_splits)

lemma read_sprintint:
  assumes "2 \<le> base" "base \<le> 16"
  shows "read_int (unat base) (sprintint xx base True) = sint xx"
proof (cases "sint xx < 0")
  case True
  then show ?thesis
    using read_digit_loop [OF assms, of "- xx"] by (simp add: sprintint_def read_int_def uint_neg_i32)
next
  case False
  have "hd (rev (digit_loop base xx)) \<in> set (digit_loop base xx)"
    by (metis digit_loop_Nil hd_in_set rev_is_Nil_conv set_rev)
  then have "hd (rev (digit_loop base xx)) \<noteq> 0x2D"
    using digit_loop_no_minus [OF assms, of xx] by auto
  then show ?thesis
    using False read_digit_loop [OF assms, of xx] by (simp add: sprintint_def read_int_def uint_pos_i32)
qed

lemma length_sprintint: "10 \<le> base \<Longrightarrow> length (sprintint xx base sign) \<le> 11"
  using length_digit_loop_10 [of base "- xx"] length_digit_loop_10 [of base xx]
  by (simp add: sprintint_def Let_def)

lemma fold_append: "fold (\<lambda>c o1. o1 @ [c]) s out = out @ s"
  by (induction s arbitrary: out) simp_all

lemma printint_eq: "printint out xx base sign = out @ sprintint xx base sign"
  by (simp add: printint_def sprintint_def Let_def fold_append)

lemma hex_digit_split:
  fixes X n :: nat
  assumes "X < 2 ^ 64" "n \<le> 15"
  shows "(X div 2 ^ 60) * 16 ^ n + (16 * X mod 2 ^ 64) div 2 ^ (64 - 4 * n) = X div 2 ^ (60 - 4 * n)"
proof -
  define q r where "q = X div 2 ^ 60" and "r = X mod 2 ^ 60"
  have X: "X = q * 2 ^ 60 + r" and r: "r < 2 ^ 60"
    by (simp_all add: q_def r_def)
  have "16 * X = 16 * r + q * 2 ^ 64" by (simp add: X)
  then have "16 * X mod 2 ^ 64 = 16 * r" using r by simp
  moreover have "(2 :: nat) ^ (64 - 4 * n) = 16 * 2 ^ (60 - 4 * n)"
    using assms(2) power_add [of "2 :: nat" 4 "60 - 4 * n"] by simp
  moreover have e: "(2 :: nat) ^ 60 = 16 ^ n * 2 ^ (60 - 4 * n)"
    using assms(2) power_add [of "2 :: nat" "4 * n" "60 - 4 * n"] power_mult [of "2 :: nat" 4 n] by simp
  moreover have "X = r + 2 ^ (60 - 4 * n) * (q * 16 ^ n)"
    unfolding X e by simp
  then have "X div 2 ^ (60 - 4 * n) = q * 16 ^ n + r div 2 ^ (60 - 4 * n)"
    by (simp only:) simp
  ultimately show ?thesis
    by (simp add: q_def)
qed

lemma read_digits_Cons: "read_digits b (c # s) = digit_val c * b ^ length s + read_digits b s"
proof (induction s rule: rev_induct)
  case (snoc x s)
  have "read_digits b ((c # s) @ [x]) = read_digits b (c # s) * b + digit_val x"
    by (rule read_digits_snoc)
  with snoc show ?case by (simp add: read_digits_snoc add_mult_distrib)
qed (simp add: read_digits_def)

lemma length_printptr_loop [simp]: "length (printptr_loop n x) = n"
  by (induction n arbitrary: x) simp_all

lemma read_printptr_loop: "n \<le> 16 \<Longrightarrow> read_digits 16 (printptr_loop n x) = unat x div 2 ^ (64 - 4 * n)"
proof (induction n arbitrary: x)
  case 0
  have "unat x div 2 ^ 64 = 0" using unat_lt64 [of x] by simp
  then show ?case by (simp add: read_digits_def)
next
  case (Suc n)
  have top: "unat (drop_bit 60 x) = unat x div 2 ^ 60"
    by (simp add: drop_bit_eq_div unat_div)
  then have "unat (drop_bit 60 x) < 16"
    using unat_lt64 [of x] by (simp add: less_mult_imp_div_less)
  moreover have "unat (push_bit 4 x) = 16 * unat x mod 2 ^ 64"
    by (simp add: push_bit_eq_mult unat_word_ariths mult.commute)
  ultimately show ?case
    using Suc hex_digit_split [OF unat_lt64, of n x] top
    by (simp add: read_digits_Cons digit_val_nth)
qed

section \<open>Bounded and unbounded output\<close>

text \<open>The conversions of the format that both functions understand: \<^verbatim>\<open>snprintf\<close> has no \<^verbatim>\<open>%p\<close>.\<close>

fun no_ptr :: "bytes \<Rightarrow> bool" where
  "no_ptr (c # d # fmt) = (if c = 0x25 then d \<noteq> 0x70 \<and> no_ptr fmt else no_ptr (d # fmt))"
| "no_ptr fmt = True"

lemma put_str_eq: "put_str s out = out @ takeWhile (\<lambda>c. c \<noteq> 0) s"
  by (induction s arbitrary: out) simp_all

lemma sput_str_eq: "sput_str sz s out = out @ take (nat sz - length out) (takeWhile (\<lambda>c. c \<noteq> 0) s)"
proof (induction s arbitrary: out)
  case (Cons c s)
  then show ?case
    by (cases "int (length out) < sz") (auto simp: take_Cons diff_Suc split: nat.splits)
qed simp

lemma printf_loop_prefix: "printf_loop fmt ap out = Ok full \<Longrightarrow> \<exists>rest. full = out @ rest"
  by (induction fmt ap out rule: printf_loop.induct)
     (auto simp: printint_eq printptr_def put_str_eq res_simps split: if_splits, blast+)

lemma snprintf_loop_stop: "\<not> int (length out) < sz \<Longrightarrow> snprintf_loop sz fmt ap out = Ok out"
  by (cases "(sz, fmt, ap, out)" rule: snprintf_loop.cases) auto

text \<open>
  The bytes that \<^verbatim>\<open>snprintf\<close> stores are a prefix of what \<^verbatim>\<open>printf\<close> would print, at least the part that fits into
  the buffer and at most ten bytes more.
\<close>

definition bounded_prefix :: "int \<Rightarrow> bytes \<Rightarrow> bytes \<Rightarrow> bool" where
  "bounded_prefix sz full out \<longleftrightarrow>
     (\<exists>n. out = take n full \<and> min (length full) (nat sz) \<le> n \<and> n \<le> nat sz + 10)"

lemma bounded_prefix_stop:
  assumes "full = out @ rest" "\<not> int (length out) < sz" "length out \<le> nat sz + 10"
  shows "bounded_prefix sz full out"
  unfolding bounded_prefix_def using assms by (intro exI [of _ "length out"]) auto

lemma bounded_prefix_full: "length full \<le> nat sz + 10 \<Longrightarrow> bounded_prefix sz full full"
  unfolding bounded_prefix_def by (intro exI [of _ "length full"]) auto

lemma length_int_step:
  "int (length out) < sz \<Longrightarrow> 10 \<le> base \<Longrightarrow> length (out @ sprintint x base True) \<le> nat sz + 10"
  using length_sprintint [of base x True] by simp

text \<open>A string either fits, and both functions copy it, or \<^verbatim>\<open>snprintf\<close> ends with a full buffer.\<close>

lemma snprintf_loop_str:
  assumes fits: "int (length out) < sz" and full: "printf_loop fmt ap (put_str s out) = Ok full"
    and same: "length (put_str s out) \<le> nat sz + 10 \<Longrightarrow>
      \<exists>r. snprintf_loop sz fmt ap (put_str s out) = Ok r \<and> bounded_prefix sz full r"
  shows "\<exists>r. snprintf_loop sz fmt ap (sput_str sz s out) = Ok r \<and> bounded_prefix sz full r"
proof (cases "length (put_str s out) \<le> nat sz")
  case True
  with fits have "sput_str sz s out = put_str s out"
    by (simp add: sput_str_eq put_str_eq)
  with same True show ?thesis by simp
next
  case False
  obtain rest where rest: "full = put_str s out @ rest"
    using printf_loop_prefix [OF full] by blast
  have "sput_str sz s out = take (nat sz) full"
    using False fits rest by (simp add: sput_str_eq put_str_eq)
  moreover have "bounded_prefix sz full (take (nat sz) full)"
    by (auto simp: bounded_prefix_def intro!: exI [of _ "nat sz"])
  moreover have "\<not> int (length (take (nat sz) full)) < sz"
    using False rest by simp
  ultimately show ?thesis by (simp add: snprintf_loop_stop)
qed

lemma snprintf_loop_prefix:
  assumes "printf_loop fmt ap out = Ok full" "no_ptr fmt" "length out \<le> nat sz + 10"
  shows "\<exists>r. snprintf_loop sz fmt ap out = Ok r \<and> bounded_prefix sz full r"
  using assms
proof (induction fmt ap out rule: printf_loop.induct)
  case (1 ap out)
  then show ?case by (simp add: bounded_prefix_full)
next
  case (2 c ap out)
  then show ?case
    using printf_loop_prefix [OF 2(1)]
    by (auto simp: bounded_prefix_full intro: bounded_prefix_stop split: if_splits)
next
  case (3 c d fmt ap out)
  show ?case
  proof (cases "int (length out) < sz")
    case False
    then show ?thesis
      using printf_loop_prefix [OF 3(8)] 3(10) by (auto simp: snprintf_loop_stop intro: bounded_prefix_stop)
  next
    case True
    consider "c = 0" | "c \<noteq> 0" "c \<noteq> 0x25" | "c = 0x25" "d = 0" | "c = 0x25" "d = 0x64" | "c = 0x25" "d = 0x78"
      | "c = 0x25" "d = 0x73" | "c = 0x25" "d = 0x25" | "c = 0x25" "d \<notin> {0, 0x64, 0x78, 0x70, 0x73, 0x25}"
      using 3(9) by fastforce
    then show ?thesis
    proof cases
      case 4
      then show ?thesis
        using 3(2,8,9) True length_int_step [of out sz 10] by (auto simp: res_simps printint_eq)
    next
      case 5
      then show ?thesis
        using 3(3,8,9) True length_int_step [of out sz 16] by (auto simp: res_simps printint_eq)
    next
      case 6
      obtain s ap1 where s: "va_str ap = Ok (s, ap1)" "printf_loop fmt ap1 (put_str s out) = Ok full"
        using 3(8) 6 by (auto simp: res_simps)
      then show ?thesis
        using 3(5,9) 6 True snprintf_loop_str [OF True s(2)] by simp
    qed (use 3 True in \<open>auto simp: bounded_prefix_full\<close>)
  qed
qed

text \<open>The bound is reached: a buffer filled up to its last byte, and then the longest number.\<close>

lemma snprintf_loop_plain:
  assumes "\<forall>c \<in> set s. c \<noteq> 0 \<and> c \<noteq> 0x25" "int (length out + length s) \<le> sz"
  shows "snprintf_loop sz (s @ fmt) ap out = snprintf_loop sz fmt ap (out @ s)"
  using assms
proof (induction s arbitrary: out)
  case (Cons c s)
  then have "snprintf_loop sz (s @ fmt) ap (out @ [c]) = snprintf_loop sz fmt ap (out @ c # s)"
    by simp
  with Cons(2,3) show ?case
    by (cases "s @ fmt") auto
qed simp

lemma sprintint_min: "length (sprintint 0x80000000 10 True) = 11"
  by (simp add: sprintint_def digit_loop.simps)

lemma snprintf_overrun:
  assumes "0 < sz"
  shows "\<exists>r. snprintf sz (Some (replicate (nat sz - 1) 0x61 @ cbytes ''%d'')) [Word 0x80000000] = Ok r \<and> length r = nat sz + 10"
  using assms snprintf_loop_plain [of "replicate (nat sz - 1) 0x61" "[]" sz "cbytes ''%d''" "[Word 0x80000000]"]
  by (simp add: snprintf_def cbytes_def sprintint_min)

section \<open>Panics\<close>

text \<open>The chain of frames on a kernel stack, with their return addresses; it ends at a page boundary.\<close>

inductive frames :: "(u64 \<Rightarrow> u64) \<Rightarrow> u64 \<Rightarrow> u64 list \<Rightarrow> bool" for m where
  frames_top: "page_aligned fp \<Longrightarrow> frames m fp []"
| frames_step: "\<not> page_aligned fp \<Longrightarrow> frames m (m (fp - 16)) rs \<Longrightarrow> frames m fp (m (fp - 8) # rs)"

lemma low_bits_round:
  "unat (take_bit 12 (fp + 4095 :: u64)) = (if unat fp mod 4096 = 0 then 4095 else unat fp mod 4096 - 1)"
proof -
  have "unat (take_bit 12 (fp + 4095)) = (unat fp + 4095) mod 4096"
    by (simp add: unat_take_bit12 unat_word_ariths mod_mod_cancel)
  also have "\<dots> = (unat fp mod 4096 + 4095) mod 4096"
    by (simp add: mod_add_left_eq)
  also have "\<dots> = (if unat fp mod 4096 = 0 then 4095 else unat fp mod 4096 - 1)"
    by (simp add: mod_if [of "unat fp mod 4096 + 4095"])
  finally show ?thesis .
qed

lemma round_diff: "PGROUNDUP fp - PGROUNDDOWN fp = PGSIZE \<longleftrightarrow> \<not> page_aligned fp"
proof -
  have diff: "PGROUNDUP fp - PGROUNDDOWN fp = 4095 - take_bit 12 (fp + 4095) + take_bit 12 fp"
    by (simp add: PGROUNDUP_alt PGROUNDDOWN_eq)
  show ?thesis
  proof (cases "page_aligned fp")
    case True
    then have "take_bit 12 (fp + 4095) = 4095" "take_bit 12 fp = 0"
      using low_bits_round [of fp] by (simp_all add: word_unat_eq_iff page_simps unat_take_bit12)
    with True diff show ?thesis by simp
  next
    case False
    then have "take_bit 12 (fp + 4095) = take_bit 12 fp - 1"
      using low_bits_round [of fp] by (simp add: word_unat_eq_iff page_simps unat_take_bit12 unat_sub word_le_nat_alt)
    with False diff show ?thesis by simp
  qed
qed

lemma backtrace_loop_frames: "backtrace_loop m fp = Some rs \<longleftrightarrow> frames m fp rs"
proof
  show "backtrace_loop m fp = Some rs \<Longrightarrow> frames m fp rs"
    by (rule backtrace_loop.raw_induct [where P = frames])
       (auto simp: round_diff intro: frames.intros split: if_splits bind_splits)
  show "frames m fp rs \<Longrightarrow> backtrace_loop m fp = Some rs"
  proof (induction rule: frames.induct)
    case (frames_top fp)
    then show ?case using round_diff [of fp] by (subst backtrace_loop.simps) (simp del: PGROUNDDOWN_aligned)
  next
    case (frames_step fp rs)
    then show ?case using round_diff [of fp] by (subst backtrace_loop.simps) (simp del: PGROUNDDOWN_aligned)
  qed
qed

text \<open>Text that \<^verbatim>\<open>printf\<close> prints as it is.\<close>

definition plain :: "bytes \<Rightarrow> bool" where
  "plain s \<longleftrightarrow> (\<forall>c \<in> set s. c \<noteq> 0 \<and> c \<noteq> 0x25)"

lemma printf_loop_plain: "plain s \<Longrightarrow> printf_loop (s @ fmt) ap out = printf_loop fmt ap (out @ s)"
proof (induction s arbitrary: out)
  case (Cons c s)
  then have "printf_loop (s @ fmt) ap (out @ [c]) = printf_loop fmt ap (out @ c # s)"
    by (simp add: plain_def)
  with Cons(2) show ?case
    by (cases "s @ fmt") (auto simp: plain_def)
qed simp

lemma printf_plain:
  "plain s \<Longrightarrow> \<not> pr_locking st \<Longrightarrow> printf (Some s) [] st = Ok (st\<lparr>pr_out := pr_out st @ s\<rparr>)"
  using printf_loop_plain [of s "[]" "[]" "pr_out st"] by (simp add: printf_def)

lemma printf_ptr_line:
  "\<not> pr_locking st \<Longrightarrow>
   printf (Some (cbytes ''%p'' @ [10])) [Word r] st = Ok (st\<lparr>pr_out := printptr (pr_out st) r @ [10]\<rparr>)"
  by (simp add: printf_def cbytes_def)

lemma rfold_ptr_lines:
  "\<not> pr_locking st \<Longrightarrow>
   rfold (\<lambda>r. printf (Some (cbytes ''%p'' @ [10])) [Word r]) rs st =
   Ok (st\<lparr>pr_out := pr_out st @ concat (map (\<lambda>r. printptr [] r @ [10]) rs)\<rparr>)"
  by (induction rs arbitrary: st) (simp_all add: printf_ptr_line printptr_def)

section \<open>Properties\<close>

text \<open>
  A number printed by \<^verbatim>\<open>%d\<close> or \<^verbatim>\<open>%x\<close> reads back as the signed 32-bit value, for every value including the smallest,
  whose negation overflows; it takes at most eleven characters of the sixteen that the code reserves; the console
  prints the same characters. \<^verbatim>\<open>%p\<close> prints \<^verbatim>\<open>0x\<close> and sixteen hexadecimal digits that read back as the 64-bit value.
\<close>

theorem number_roundtrip:
  "read_int 10 (sprintint xx 10 True) = sint xx \<and> read_int 16 (sprintint xx 16 True) = sint xx \<and>
   length (sprintint xx 10 True) \<le> 11 \<and> length (sprintint xx 16 True) \<le> 11 \<and>
   printint out xx 10 True = out @ sprintint xx 10 True \<and> printint out xx 16 True = out @ sprintint xx 16 True \<and>
   (\<exists>ds. printptr out x = out @ cbytes ''0x'' @ ds \<and> length ds = 16 \<and> read_digits 16 ds = unat x)"
proof -
  have "read_int 10 (sprintint xx 10 True) = sint xx" "read_int 16 (sprintint xx 16 True) = sint xx"
    using read_sprintint [of 10 xx] read_sprintint [of 16 xx] by simp_all
  moreover have "\<exists>ds. printptr out x = out @ cbytes ''0x'' @ ds \<and> length ds = 16 \<and> read_digits 16 ds = unat x"
    using read_printptr_loop [of 16 x] by (simp add: printptr_def cbytes_def)
  ultimately show ?thesis
    by (simp add: length_sprintint printint_eq)
qed



text \<open>
  When the stack is a finite chain of frames, \<^verbatim>\<open>panic\<close> gets to its end whatever was printing before: even if the
  panicking code holds the lock of \<^verbatim>\<open>printf\<close>, the message and the return address of every frame appear on the console, and only then
  is the output of the other CPUs frozen. The backtrace ends exactly if the chain of frames does.
\<close>

theorem panic_reports:
  assumes "frames m fp rs" and "plain msg"
  shows "backtrace_loop m fp = Some rs \<and>
    panic m fp msg s = Some (Ok (s\<lparr>pr_locking := False, pr_panicked := True,
      pr_out := pr_out s @ cbytes ''panic: '' @ msg @ [10] @ cbytes ''backtrace:'' @ [10] @
        concat (map (\<lambda>r. printptr [] r @ [10]) rs)\<rparr>)) \<and>
    (\<forall>fp2. (\<exists>rs2. backtrace_loop m fp2 = Some rs2) = (\<exists>rs2. frames m fp2 rs2))"
proof -
  have lit: "plain (cbytes ''panic: '')" "plain [10]" "plain (cbytes ''backtrace:'' @ [10])"
    by (simp_all add: plain_def cbytes_def)
  have bt: "backtrace_loop m fp = Some rs"
    using assms(1) by (simp add: backtrace_loop_frames)
  then have "panic m fp msg s = Some (Ok (s\<lparr>pr_locking := False, pr_panicked := True,
      pr_out := pr_out s @ cbytes ''panic: '' @ msg @ [10] @ cbytes ''backtrace:'' @ [10] @
        concat (map (\<lambda>r. printptr [] r @ [10]) rs)\<rparr>))"
    using assms(2) lit by (simp add: panic_def backtrace_def printf_plain rfold_ptr_lines)
  then show ?thesis
    using bt by (simp only: backtrace_loop_frames) simp
qed

theorem panic_reports_witness:
  "backtrace_loop (\<lambda>a. if a = 0x1FE0 then 0x2000 else 0x80200000) 0x1FF0 = Some [0x80200000] \<and>
   panic (\<lambda>a. if a = 0x1FE0 then 0x2000 else 0x80200000) 0x1FF0 (cbytes ''acquire'')
       \<lparr>pr_locking = True, pr_held = True, pr_panicked = False, pr_out = []\<rparr> =
     Some (Ok (\<lparr>pr_locking = False, pr_held = True, pr_panicked = True,
       pr_out = cbytes ''panic: '' @ cbytes ''acquire'' @ [10] @ cbytes ''backtrace:'' @ [10] @
         concat (map (\<lambda>r. printptr [] r @ [10]) [0x80200000])\<rparr>)) \<and>
   (\<forall>fp2. (\<exists>rs2. backtrace_loop (\<lambda>a. if a = 0x1FE0 then 0x2000 else 0x80200000) fp2 = Some rs2) =
      (\<exists>rs2. frames (\<lambda>a. if a = 0x1FE0 then 0x2000 else 0x80200000) fp2 rs2))"
proof -
  let ?m = "\<lambda>a :: u64. if a = 0x1FE0 then 0x2000 else 0x80200000 :: u64"
  have "frames ?m 0x2000 []"
    by (rule frames_top) (simp add: page_aligned_def)
  then have "frames ?m 0x1FF0 [?m (0x1FF0 - 8)]"
    by (intro frames_step) (simp_all add: page_aligned_def)
  then have f: "frames ?m 0x1FF0 [0x80200000]" by simp
  have p: "plain (cbytes ''acquire'')" by (simp add: plain_def cbytes_def)
  show ?thesis
    using panic_reports [OF f p, of "\<lparr>pr_locking = True, pr_held = True, pr_panicked = False, pr_out = []\<rparr>"] by simp
qed

end
