(* ===== verification/Syscall.thy ===== *)
theory Syscall
  imports ProcTree Format
begin

text \<open>
  The entry of system calls: \<^verbatim>\<open>kernel/syscall/syscall.c\<close> and the calls of \<^verbatim>\<open>kernel/syscall/sysproc.c\<close>, on the processes of
  \<open>ProcLife\<close> and the console of \<open>Format\<close>.

  A handler runs on behalf of process \<open>i\<close> on CPU \<open>c\<close>. It returns the value for \<^verbatim>\<open>a0\<close>, or leaves the process asleep
  inside the kernel (\<open>Sleeping\<close>), or ends the process (\<open>Exited\<close>). The table of handlers is an argument of \<open>syscall\<close>, as the array
  \<^verbatim>\<open>syscalls[]\<close> of function pointers is in the code; \<open>sysproc_calls\<close> is the part of it that \<^verbatim>\<open>sysproc.c\<close> fills.
\<close>

datatype sysret = Ret u64 | Sleeping | Exited

record 'w mach =
  mc_s :: "'w kst"
  mc_pr :: prstate

abbreviation (input) cur :: "'w mach \<Rightarrow> nat \<Rightarrow> proc" where "cur s i \<equiv> pget (mc_s s) i"
abbreviation (input) mc_ticks :: "'w mach \<Rightarrow> u32" where "mc_ticks s \<equiv> sd_ticks (pl_s (mc_s s))"

definition mset_proc :: "nat \<Rightarrow> (proc \<Rightarrow> proc) \<Rightarrow> 'w mach \<Rightarrow> 'w mach" where
  "mset_proc i f s = s\<lparr>mc_s := pset i f (mc_s s)\<rparr>"

definition set_procs :: "proc list \<Rightarrow> 'w mach \<Rightarrow> 'w mach" where
  "set_procs ps s = s\<lparr>mc_s := (mc_s s)\<lparr>pl_s := (pl_s (mc_s s))\<lparr>sd_procs := ps\<rparr>\<rparr>\<rparr>"

definition with_kst :: "('a \<times> 'w kst) res \<Rightarrow> 'w mach \<Rightarrow> ('a \<times> 'w mach) res" where
  "with_kst m s = rmap (\<lambda>(r, k). (r, s\<lparr>mc_s := k\<rparr>)) m"

definition pf :: "string \<Rightarrow> farg list \<Rightarrow> 'w mach \<Rightarrow> 'w mach res" where
  "pf fmt ap s = rmap (\<lambda>p. s\<lparr>mc_pr := p\<rparr>) (printf (Some (cbytes fmt)) ap (mc_pr s))"

section \<open>Arguments\<close>

definition le64_bytes :: "u64 \<Rightarrow> bytes" where
  "le64_bytes v = map (\<lambda>i. ucast (drop_bit (8 * i) v)) [0..<8]"

definition le64 :: "bytes \<Rightarrow> u64" where
  "le64 bs = foldr (\<lambda>b v. push_bit 8 v OR ucast b) bs 0"

text \<open>The value stored through \<^verbatim>\<open>ip\<close>, or \<open>None\<close> for the result -1.\<close>

definition fetchaddr :: "'w penv \<Rightarrow> nat \<Rightarrow> u64 \<Rightarrow> 'w mach \<Rightarrow> (u64 option \<times> 'w mach) res" where
  "fetchaddr e i addr s =
     (if MAXUVA \<le> addr \<or> MAXUVA - addr < 8 then Ok (None, s)
      else rmap (\<lambda>(r, bs, m). (if r \<noteq> 0 then None else Some (le64 bs), s\<lparr>mc_s := (mc_s s)\<lparr>pl_m := m\<rparr>\<rparr>))
             (copyin (pe_k e) (pfe e) (cur s i) addr 8 (pl_m (mc_s s))))"

text \<open>The result and the bytes stored in \<^verbatim>\<open>buf\<close>.\<close>

definition fetchstr :: "'w penv \<Rightarrow> nat \<Rightarrow> u64 \<Rightarrow> nat \<Rightarrow> 'w mach \<Rightarrow> (int \<times> bytes \<times> 'w mach) res" where
  "fetchstr e i addr mx s =
     rmap (\<lambda>(err, buf, m). (if err < 0 then err else int (strlen buf), buf, s\<lparr>mc_s := (mc_s s)\<lparr>pl_m := m\<rparr>\<rparr>))
       (copyinstr (pe_k e) (pfe e) (cur s i) addr (of_nat mx) (pl_m (mc_s s)))"

definition argraw :: "proc \<Rightarrow> nat \<Rightarrow> u64 res" where
  "argraw p n =
     (let tf = p_trapframe p
      in if n = 0 then Ok (tf_a0 tf) else if n = 1 then Ok (tf_a1 tf) else if n = 2 then Ok (tf_a2 tf)
         else if n = 3 then Ok (tf_a3 tf) else if n = 4 then Ok (tf_a4 tf) else if n = 5 then Ok (tf_a5 tf)
         else Panic ''argraw'')"

definition argint :: "proc \<Rightarrow> nat \<Rightarrow> i32 res" where
  "argint p n = rmap ucast (argraw p n)"

definition argaddr :: "proc \<Rightarrow> nat \<Rightarrow> (int \<times> u64) res" where
  "argaddr p n = rmap (\<lambda>ip. (if ip < MAXUVA then 0 else -1, ip)) (argraw p n)"

definition argstr :: "'w penv \<Rightarrow> nat \<Rightarrow> nat \<Rightarrow> nat \<Rightarrow> 'w mach \<Rightarrow> (int \<times> bytes \<times> 'w mach) res" where
  "argstr e i n mx s =
     rbind (argaddr (cur s i) n) (\<lambda>(r, addr). if r < 0 then Ok (-1, [], s) else fetchstr e i addr mx s)"

definition getstrarg :: "'w penv \<Rightarrow> nat \<Rightarrow> nat \<Rightarrow> nat \<Rightarrow> 'w mach \<Rightarrow> (bool \<times> bytes \<times> 'w mach) res" where
  "getstrarg e i n mx s =
     rbind (argaddr (cur s i) n) (\<lambda>(r, addr).
       if r < 0 then Ok (False, [], s) else rmap (\<lambda>(r, buf, s1). (0 \<le> r, buf, s1)) (fetchstr e i addr mx s))"

section \<open>Calls on processes\<close>

text \<open>An \<^verbatim>\<open>int\<close> result returned as \<^verbatim>\<open>uint64\<close> is sign extended.\<close>

definition ret :: "int \<Rightarrow> sysret" where
  "ret r = Ret (word_of_int r)"

definition sys_exit :: "'w penv \<Rightarrow> nat \<Rightarrow> nat \<Rightarrow> 'w mach \<Rightarrow> (sysret \<times> 'w mach) res" where
  "sys_exit e c i s =
     rbind (argint (cur s i) 0) (\<lambda>n. rmap (\<lambda>k. (Exited, s\<lparr>mc_s := k\<rparr>)) (exit e c i (sint n) (mc_s s)))"

definition sys_getpid :: "nat \<Rightarrow> 'w mach \<Rightarrow> (sysret \<times> 'w mach) res" where
  "sys_getpid i s = Ok (ret (p_pid (cur s i)), s)"

definition sys_kill :: "nat \<Rightarrow> 'w mach \<Rightarrow> (sysret \<times> 'w mach) res" where
  "sys_kill i s =
     rmap (\<lambda>pid. let (r, ps) = signal_send_pid (sd_procs (pl_s (mc_s s))) (sint pid) SIGKILL in (ret r, set_procs ps s))
       (argint (cur s i) 0)"

definition sys_fork :: "'w penv \<Rightarrow> nat \<Rightarrow> 'w mach \<Rightarrow> (sysret \<times> 'w mach) res" where
  "sys_fork e i s = rmap (\<lambda>(r, s1). (ret r, s1)) (with_kst (fork e i (mc_s s)) s)"

definition sys_wait :: "'w penv \<Rightarrow> nat \<Rightarrow> nat \<Rightarrow> 'w mach \<Rightarrow> (sysret \<times> 'w mach) res" where
  "sys_wait e c i s =
     rbind (argaddr (cur s i) 0) (\<lambda>(r, p).
       if r < 0 then Ok (ret (-1), s)
       else rmap (\<lambda>(w, s1). (case w of WaitRet r \<Rightarrow> ret r | WaitSleep \<Rightarrow> Sleeping, s1)) (with_kst (wait e c i p (mc_s s)) s))"

definition sys_sbrk :: "'w penv \<Rightarrow> nat \<Rightarrow> 'w mach \<Rightarrow> (sysret \<times> 'w mach) res" where
  "sys_sbrk e i s =
     rbind (argint (cur s i) 0) (\<lambda>n.
       let k = pe_k e; p = cur s i; addr = p_sz p
       in if 0 \<le> sint n then
            let limit = vma_heap_limit (p_vmas p)
            in if limit < addr \<or> limit - addr < scast n then Ok (ret (-1), s)
               else Ok (Ret addr, mset_proc i (\<lambda>p. p\<lparr>p_sz := addr + scast n\<rparr>) s)
          else
            let shrink = - (scast n :: u64)
            in if addr < shrink then Ok (ret (-1), s)
               else rbind (in_k (ukvmdealloc k (p_kpagetable p) addr (addr - shrink) False) (mc_s s)) (\<lambda>(_, k1).
                    rmap (\<lambda>(sz, k2). (Ret addr, mset_proc i (\<lambda>p. p\<lparr>p_sz := sz\<rparr>) (s\<lparr>mc_s := k2\<rparr>)))
                      (in_k (uvmdealloc k (p_pagetable p) addr (addr - shrink)) k1)))"

text \<open>
  One test of the loop of \<^verbatim>\<open>sys_sleep\<close>; the comparison of \<^verbatim>\<open>uint\<close> with \<^verbatim>\<open>int\<close> is unsigned. \<open>chan\<close> is the address of
  \<^verbatim>\<open>ticks\<close>. After \<open>Sleeping\<close> the process continues with \<open>sys_sleep_back\<close>.
\<close>

definition sleep_round :: "u64 \<Rightarrow> nat \<Rightarrow> nat \<Rightarrow> u32 \<Rightarrow> i32 \<Rightarrow> 'w mach \<Rightarrow> sysret \<times> 'w mach" where
  "sleep_round chan c i ticks0 n s =
     (if mc_ticks s - ticks0 < n then
        (case sleep_on (pl_s (mc_s s)) c i chan True of
           (Some r, sd) \<Rightarrow> (ret (-1), s\<lparr>mc_s := (mc_s s)\<lparr>pl_s := sd\<rparr>\<rparr>)
         | (None, sd) \<Rightarrow> (Sleeping, s\<lparr>mc_s := (mc_s s)\<lparr>pl_s := sd\<rparr>\<rparr>))
      else (ret 0, s))"

definition sys_sleep :: "u64 \<Rightarrow> nat \<Rightarrow> nat \<Rightarrow> 'w mach \<Rightarrow> (sysret \<times> 'w mach) res" where
  "sys_sleep chan c i s = rmap (\<lambda>n. sleep_round chan c i (mc_ticks s) n s) (argint (cur s i) 0)"

definition sys_sleep_back :: "u64 \<Rightarrow> nat \<Rightarrow> nat \<Rightarrow> u32 \<Rightarrow> i32 \<Rightarrow> 'w mach \<Rightarrow> sysret \<times> 'w mach" where
  "sys_sleep_back chan c i ticks0 n s =
     (let (r, sd) = sleep_on_back (pl_s (mc_s s)) i True; s1 = s\<lparr>mc_s := (mc_s s)\<lparr>pl_s := sd\<rparr>\<rparr>
      in if r < 0 then (ret (-1), s1) else sleep_round chan c i ticks0 n s1)"

definition sys_uptime :: "'w mach \<Rightarrow> (sysret \<times> 'w mach) res" where
  "sys_uptime s = Ok (Ret (ucast (mc_ticks s)), s)"

definition sys_trace :: "nat \<Rightarrow> 'w mach \<Rightarrow> (sysret \<times> 'w mach) res" where
  "sys_trace i s = rmap (\<lambda>mask. (ret 0, mset_proc i (\<lambda>p. p\<lparr>p_trace_mask := mask\<rparr>) s)) (argint (cur s i) 0)"

definition sys_sysinfo :: "'w penv \<Rightarrow> nat \<Rightarrow> 'w mach \<Rightarrow> (sysret \<times> 'w mach) res" where
  "sys_sysinfo e i s =
     rbind (argaddr (cur s i) 0) (\<lambda>(r, addr).
       if r < 0 then Ok (ret (-1), s)
       else case freemem (mm_k (pl_m (mc_s s))) of
              None \<Rightarrow> Panic ''fuel''
            | Some fm \<Rightarrow>
                let info = le64_bytes fm @ le64_bytes (of_nat (proc_num (pl_s (mc_s s))))
                in rmap (\<lambda>(r, m). (ret (if r < 0 then -1 else 0), s\<lparr>mc_s := (mc_s s)\<lparr>pl_m := m\<rparr>\<rparr>))
                     (copyout (pe_k e) (pfe e) (cur s i) addr info (pl_m (mc_s s))))"

definition sys_signal :: "'w penv \<Rightarrow> nat \<Rightarrow> 'w mach \<Rightarrow> (sysret \<times> 'w mach) res" where
  "sys_signal e i s =
     rbind (argint (cur s i) 0) (\<lambda>signum. rbind (argaddr (cur s i) 1) (\<lambda>(r, handler).
       if r < 0 then Ok (Ret SIG_ERR, s)
       else let (old, p) = signal_set_handler (pe_k e) (mm_k (pl_m (mc_s s))) (cur s i) (sint signum) handler
            in Ok (Ret old, mset_proc i (\<lambda>_. p) s)))"

definition sys_sigsend :: "nat \<Rightarrow> 'w mach \<Rightarrow> (sysret \<times> 'w mach) res" where
  "sys_sigsend i s =
     rbind (argint (cur s i) 0) (\<lambda>t. rbind (argint (cur s i) 1) (\<lambda>sg.
       let target = sint t; signum = sint sg; ps = sd_procs (pl_s (mc_s s))
       in if 0 < target then let (r, ps1) = signal_send_pid ps target signum in Ok (ret r, set_procs ps1 s)
          else if target = 0 \<or> 0x7fffffff < - target then Ok (ret (-1), s)
          else let (r, ps1) = signal_send_pgrp ps (- target) signum in Ok (ret r, set_procs ps1 s)))"

definition sys_sigreturn :: "nat \<Rightarrow> 'w mach \<Rightarrow> (sysret \<times> 'w mach) res" where
  "sys_sigreturn i s = (let (r, p) = signal_sigreturn (cur s i) in Ok (Ret r, mset_proc i (\<lambda>_. p) s))"

definition sys_setpgid :: "nat \<Rightarrow> 'w mach \<Rightarrow> (sysret \<times> 'w mach) res" where
  "sys_setpgid i s =
     rbind (argint (cur s i) 0) (\<lambda>pid. rbind (argint (cur s i) 1) (\<lambda>pgid.
       let (r, sd) = proc_setpgid (pl_s (mc_s s)) i (sint pid) (sint pgid)
       in Ok (ret r, s\<lparr>mc_s := (mc_s s)\<lparr>pl_s := sd\<rparr>\<rparr>)))"

definition sys_getpgrp :: "nat \<Rightarrow> 'w mach \<Rightarrow> (sysret \<times> 'w mach) res" where
  "sys_getpgrp i s = Ok (ret (proc_getpgrp (cur s i)), s)"

section \<open>Tracing\<close>

definition syscalls_name :: "string list" where
  "syscalls_name =
    [[], ''fork'', ''exit'', ''wait'', ''pipe'', ''read'', ''kill'', ''exec'', ''fstat'', ''chdir'', ''dup'', ''getpid'', ''sbrk'',
     ''sleep'', ''uptime'', ''open'', ''write'', ''mknod'', ''unlink'', ''link'', ''mkdir'', ''close'', ''trace'', ''sysinfo'',
     ''sys_symlink'', ''mmap'', ''munmap'', ''readdir'', ''getcwd'', ''remove'', ''ioctl'', ''signal'', ''sigsend'', ''sigreturn'',
     ''setpgid'', ''getpgrp'']"

definition syscalls_argc :: "nat list" where
  "syscalls_argc =
    [0, 0, 1, 1, 1, 3, 1, 2, 2, 1, 1, 0, 1,
     1, 0, 2, 3, 3, 1, 2, 1, 1, 1, 1,
     0, 2, 2, 2, 1, 1, 3, 2, 2, 0,
     2, 0]"

text \<open>\<^verbatim>\<open>(int)args[i]\<close> as an argument of \<^verbatim>\<open>printf\<close>.\<close>

definition as_int :: "u64 \<Rightarrow> farg" where
  "as_int a = Word (scast (ucast a :: i32))"

text \<open>Prints the string argument \<open>n\<close> in quotes, or its address; \<open>f1\<close> and \<open>f2\<close> are the two formats.\<close>

definition trace_path :: "'w penv \<Rightarrow> nat \<Rightarrow> nat \<Rightarrow> u64 \<Rightarrow> string \<Rightarrow> string \<Rightarrow> farg list \<Rightarrow> 'w mach \<Rightarrow> 'w mach res" where
  "trace_path e i n a f1 f2 rest s =
     rbind (getstrarg e i n 260 s) (\<lambda>(ok, buf, s1). if ok then pf f1 (Str buf # rest) s1 else pf f2 (Word a # rest) s1)"

fun trace_argv :: "'w penv \<Rightarrow> nat \<Rightarrow> u64 \<Rightarrow> nat list \<Rightarrow> nat \<Rightarrow> 'w mach \<Rightarrow> (nat \<times> 'w mach) res" where
  "trace_argv e i argv_addr [] arg_count s = Ok (arg_count, s)"
| "trace_argv e i argv_addr (k # ks) arg_count s =
     (if \<not> arg_count < 10 then Ok (arg_count, s)
      else rbind (copyin (pe_k e) (pfe e) (cur s i) (argv_addr + of_nat k * 8) 8 (pl_m (mc_s s))) (\<lambda>(r, bs, m).
        let s1 = s\<lparr>mc_s := (mc_s s)\<lparr>pl_m := m\<rparr>\<rparr>
        in if 0 \<le> r then
             if le64 bs = 0 then Ok (arg_count, s1)
             else rbind (fetchstr e i (le64 bs) 260 s1) (\<lambda>(r, buf, s2).
               if 0 \<le> r then
                 rbind (if 0 < arg_count then pf '', '' [] s2 else Ok s2) (\<lambda>s3.
                 rbind (pf [CHR 0x22, CHR ''%'', CHR ''s'', CHR 0x22] [Str buf] s3) (\<lambda>s4. trace_argv e i argv_addr ks (arg_count + 1) s4))
               else trace_argv e i argv_addr ks arg_count s2)
           else trace_argv e i argv_addr ks arg_count s1))"

fun trace_ints :: "u64 list \<Rightarrow> 'w mach \<Rightarrow> 'w mach res" where
  "trace_ints [] s = Ok s"
| "trace_ints (a # as) s =
     rbind (pf ''%d'' [as_int a] s) (\<lambda>s1. rbind (if as \<noteq> [] then pf '', '' [] s1 else Ok s1) (trace_ints as))"

definition trace_args :: "'w penv \<Rightarrow> nat \<Rightarrow> nat \<Rightarrow> u64 list \<Rightarrow> 'w mach \<Rightarrow> 'w mach res" where
  "trace_args e i num args s =
     (let q = [CHR 0x22, CHR ''%'', CHR ''s'', CHR 0x22]
      in if num = 7 then
           rbind (trace_path e i 0 (args ! 0) (q @ '', '') ''%p, '' [] s) (\<lambda>s1.
           rbind (pf ''['' [] s1) (\<lambda>s2.
           rbind (argaddr (cur s2 i) 1) (\<lambda>(r, argv_addr).
           rbind (if 0 \<le> r then
                    rbind (trace_argv e i argv_addr [0..<5] 0 s2) (\<lambda>(n, s3). if 5 \<le> n then pf '', ...'' [] s3 else Ok s3)
                  else Ok s2) (pf '']'' []))))
         else if num = 15 then trace_path e i 0 (args ! 0) (q @ '', %d'') ''%p, %d'' [as_int (args ! 1)] s
         else if num = 17 then
           trace_path e i 0 (args ! 0) (q @ '', %d, %d'') ''%p, %d, %d'' [as_int (args ! 1), as_int (args ! 2)] s
         else if num = 18 \<or> num = 20 \<or> num = 9 then trace_path e i 0 (args ! 0) q ''%p'' [] s
         else if num = 19 then
           rbind (getstrarg e i 0 260 s) (\<lambda>(ok, buf, s1).
             if ok then rbind (pf (q @ '', '') [Str buf] s1) (trace_path e i 1 (args ! 1) q ''%p'' [])
             else pf ''%p, %p'' [Word (args ! 0), Word (args ! 1)] s1)
         else if num = 16 \<or> num = 5 then pf ''%d, %p, %d'' [as_int (args ! 0), Word (args ! 1), as_int (args ! 2)] s
         else trace_ints (take (syscalls_argc ! num) args) s)"

definition syscall_trace :: "'w penv \<Rightarrow> nat \<Rightarrow> nat \<Rightarrow> u64 list \<Rightarrow> 'w mach \<Rightarrow> 'w mach res" where
  "syscall_trace e i num args s =
     rbind (pf ''%d: syscall %s'' [Word (word_of_int (p_pid (cur s i))), Str (cbytes (syscalls_name ! num))] s) (\<lambda>s1.
     rbind (pf ''('' [] s1) (\<lambda>s2.
     rbind (trace_args e i num args s2) (\<lambda>s3.
     rbind (pf '')'' [] s3) (\<lambda>s4.
     pf ('' -> %d'' @ [CHR 0x0A]) [Word (tf_a0 (p_trapframe (cur s4 i)))] s4))))"

section \<open>Dispatch\<close>

type_synonym 'w handler = "nat \<Rightarrow> nat \<Rightarrow> 'w mach \<Rightarrow> (sysret \<times> 'w mach) res"

text \<open>The entries of \<^verbatim>\<open>syscalls[]\<close> that \<^verbatim>\<open>sysproc.c\<close> defines.\<close>

definition sysproc_calls :: "'w penv \<Rightarrow> u64 \<Rightarrow> nat \<Rightarrow> 'w handler option" where
  "sysproc_calls e chan num =
     (if num = 1 then Some (\<lambda>c. sys_fork e) else if num = 2 then Some (sys_exit e) else if num = 3 then Some (sys_wait e)
      else if num = 6 then Some (\<lambda>c. sys_kill) else if num = 11 then Some (\<lambda>c. sys_getpid)
      else if num = 12 then Some (\<lambda>c. sys_sbrk e) else if num = 13 then Some (sys_sleep chan)
      else if num = 14 then Some (\<lambda>c i. sys_uptime) else if num = 22 then Some (\<lambda>c. sys_trace)
      else if num = 23 then Some (\<lambda>c. sys_sysinfo e) else if num = 31 then Some (\<lambda>c. sys_signal e)
      else if num = 32 then Some (\<lambda>c. sys_sigsend) else if num = 33 then Some (\<lambda>c. sys_sigreturn)
      else if num = 34 then Some (\<lambda>c. sys_setpgid) else if num = 35 then Some (\<lambda>c. sys_getpgrp) else None)"

definition set_a0 :: "u64 \<Rightarrow> proc \<Rightarrow> proc" where
  "set_a0 v p = p\<lparr>p_trapframe := (p_trapframe p)\<lparr>tf_a0 := v\<rparr>\<rparr>"

text \<open>\<^verbatim>\<open>1 << num\<close> on \<^verbatim>\<open>int\<close>: the processor takes the shift amount modulo 32.\<close>

definition trace_bit :: "nat \<Rightarrow> u32" where
  "trace_bit num = push_bit (num mod 32) 1"

definition syscall :: "(nat \<Rightarrow> 'w handler option) \<Rightarrow> 'w penv \<Rightarrow> nat \<Rightarrow> nat \<Rightarrow> 'w mach \<Rightarrow> (sysret \<times> 'w mach) res" where
  "syscall table e c i s =
     (let p = cur s i; tf = p_trapframe p;
          args = [tf_a0 tf, tf_a1 tf, tf_a2 tf, tf_a3 tf, tf_a4 tf, tf_a5 tf];
          num = sint (ucast (tf_a7 tf) :: i32)
      in case (if 0 < num \<and> num < 36 then table (nat num) else None) of
           Some h \<Rightarrow>
             rbind (if p_trace_mask p AND trace_bit (nat num) \<noteq> 0 then syscall_trace e i (nat num) args s else Ok s) (\<lambda>s1.
             rmap (\<lambda>(r, s2). (r, case r of Ret v \<Rightarrow> mset_proc i (set_a0 v) s2 | _ \<Rightarrow> s2)) (h c i s1))
         | None \<Rightarrow>
             rmap (\<lambda>s1. (Ret (-1), mset_proc i (set_a0 (-1)) s1))
               (pf (''%d %s: unknown sys call %d'' @ [CHR 0x0A])
                  [Word (word_of_int (p_pid p)), Str (cbytes (p_name p)), Word (word_of_int num)] s))"

section \<open>What tracing changes\<close>

text \<open>Tracing appends to the console and may fault pages of the process in; processes stay as they are.\<close>

definition traced :: "'w mach \<Rightarrow> 'w mach \<Rightarrow> bool" where
  "traced s s' \<longleftrightarrow> pl_s (mc_s s') = pl_s (mc_s s) \<and> (\<exists>x. pr_out (mc_pr s') = pr_out (mc_pr s) @ x)"

lemma traced_refl [simp]: "traced s s"
  by (simp add: traced_def)

lemma traced_trans: "traced s s1 \<Longrightarrow> traced s1 s2 \<Longrightarrow> traced s s2"
  by (auto simp: traced_def)

lemma traced_mem: "traced s0 s \<Longrightarrow> traced s0 (s\<lparr>mc_s := (mc_s s)\<lparr>pl_m := m\<rparr>\<rparr>)"
  by (simp add: traced_def)

lemma printf_appends: "printf fmt ap p = Ok p' \<Longrightarrow> \<exists>x. pr_out p' = pr_out p @ x"
  by (auto simp: printf_def Let_def res_simps split: option.splits if_splits dest!: printf_loop_prefix)

lemma pf_traced: "traced s0 s \<Longrightarrow> res_all (traced s0) (pf fmt ap s)"
  by (cases "printf (Some (cbytes fmt)) ap (mc_pr s)")
     (auto simp: pf_def traced_def dest!: printf_appends)

lemma fetchstr_traced: "traced s0 s \<Longrightarrow> res_all (\<lambda>(r, buf, s1). traced s0 s1) (fetchstr e i addr mx s)"
  by (cases "copyinstr (pe_k e) (pfe e) (cur s i) addr (of_nat mx) (pl_m (mc_s s))")
     (auto simp: fetchstr_def traced_mem split: prod.split)

lemma getstrarg_traced: "traced s0 s \<Longrightarrow> res_all (\<lambda>(r, buf, s1). traced s0 s1) (getstrarg e i n mx s)"
  unfolding getstrarg_def
  by (rule res_all_bindI [of "\<lambda>_. True"])
     (auto intro!: res_all_mono [OF fetchstr_traced] split: prod.split)

lemma trace_path_traced: "traced s0 s \<Longrightarrow> res_all (traced s0) (trace_path e i n a f1 f2 rest s)"
  unfolding trace_path_def
  by (rule res_all_bindI [OF getstrarg_traced], assumption) (auto intro: pf_traced)

lemma trace_argv_traced:
  "traced s0 s \<Longrightarrow> res_all (\<lambda>(n, s1). traced s0 s1) (trace_argv e i argv_addr ks arg_count s)"
proof (induction ks arbitrary: arg_count s)
  case (Cons k ks)
  have mem: "traced s0 (s\<lparr>mc_s := (mc_s s)\<lparr>pl_m := m\<rparr>\<rparr>)" for m
    using Cons(2) by (rule traced_mem)
  show ?case
    unfolding trace_argv.simps Let_def
    by (auto simp del: res_all_bind intro!: mem Cons.IH pf_traced res_all_bindI [of "\<lambda>_. True"] res_all_bindI [of "traced s0"]
          res_all_bindI [OF fetchstr_traced] Cons(2) split: prod.split)
qed simp

lemma trace_ints_traced: "traced s0 s \<Longrightarrow> res_all (traced s0) (trace_ints as s)"
proof (induction "as" arbitrary: s)
  case (Cons a as)
  then show ?case
    unfolding trace_ints.simps
    by (intro res_all_bindI [of "traced s0"]) (auto intro: pf_traced)
qed simp

lemma trace_list_traced:
  assumes "traced s0 s"
  shows "res_all (traced s0) (rbind (argaddr p n) (\<lambda>(r, argv_addr).
     rbind (if 0 \<le> r then rbind (trace_argv e i argv_addr ks 0 s) (\<lambda>(m, s3). if 5 \<le> m then pf '', ...'' [] s3 else Ok s3)
            else Ok s) (pf '']'' [])))"
proof (rule res_all_bindI [of "\<lambda>_. True"])
  fix x :: "int \<times> u64"
  obtain r argv_addr where x: "x = (r, argv_addr)" by (cases x)
  have l: "res_all (traced s0) (rbind (trace_argv e i argv_addr ks 0 s) (\<lambda>(m, s3). if 5 \<le> m then pf '', ...'' [] s3 else Ok s3))"
    by (rule res_all_bindI [OF trace_argv_traced [OF assms]]) (auto intro: pf_traced)
  show "res_all (traced s0) (case x of (r, argv_addr) \<Rightarrow>
     rbind (if 0 \<le> r then rbind (trace_argv e i argv_addr ks 0 s) (\<lambda>(m, s3). if 5 \<le> m then pf '', ...'' [] s3 else Ok s3)
            else Ok s) (pf '']'' []))"
    unfolding x prod.case by (rule res_all_bindI [of "traced s0"]) (use l assms in \<open>auto simp del: res_all_bind intro: pf_traced\<close>)
qed simp

lemma trace_args_traced: "traced s0 s \<Longrightarrow> res_all (traced s0) (trace_args e i num args s)"
  unfolding trace_args_def Let_def
  by (auto simp del: res_all_bind intro!: pf_traced trace_path_traced trace_ints_traced trace_list_traced
        res_all_bindI [of "traced s0"] res_all_bindI [OF getstrarg_traced] split: prod.split)

lemma pf_arrow:
  "pf ('' -> %d'' @ [CHR 0x0A]) [Word w] s = Ok s' \<Longrightarrow>
   pr_out (mc_pr s') = pr_out (mc_pr s) @ cbytes '' -> '' @ sprintint (ucast w) 10 True @ [10]"
  by (auto simp: pf_def printf_def cbytes_def Let_def printint_eq res_simps split: if_splits)

lemma syscall_trace_result:
  assumes "syscall_trace e i num args s = Ok s'"
  shows "pl_s (mc_s s') = pl_s (mc_s s) \<and> (\<exists>x. pr_out (mc_pr s') =
    pr_out (mc_pr s) @ x @ cbytes '' -> '' @ sprintint (ucast (tf_a0 (p_trapframe (cur s i)))) 10 True @ [10])"
proof -
  from assms obtain s1 s2 s3 s4 where st:
    "pf ''%d: syscall %s'' [Word (word_of_int (p_pid (cur s i))), Str (cbytes (syscalls_name ! num))] s = Ok s1"
    "pf ''('' [] s1 = Ok s2" "trace_args e i num args s2 = Ok s3" "pf '')'' [] s3 = Ok s4"
    "pf ('' -> %d'' @ [CHR 0x0A]) [Word (tf_a0 (p_trapframe (cur s4 i)))] s4 = Ok s'"
    by (auto simp: syscall_trace_def res_simps)
  have "traced s s1" using res_allD [OF pf_traced [OF traced_refl] st(1)] .
  from res_allD [OF pf_traced [OF this] st(2)] have "traced s s2" .
  from res_allD [OF trace_args_traced [OF this] st(3)] have "traced s s3" .
  from res_allD [OF pf_traced [OF this] st(4)] have t4: "traced s s4" .
  from res_allD [OF pf_traced [OF t4] st(5)] have "traced s s'" .
  with t4 pf_arrow [OF st(5)] show ?thesis by (auto simp: traced_def)
qed

section \<open>Properties\<close>

lemma cur_mset_proc: "i < length (sd_procs (pl_s (mc_s s))) \<Longrightarrow> cur (mset_proc i f s) i = f (cur s i)"
  by (simp add: mset_proc_def pset_def set_proc_def)

lemma mset_proc_twice: "mset_proc i g (mset_proc i f s) = mset_proc i (\<lambda>p. g (f p)) s"
  by (cases "i < length (sd_procs (pl_s (mc_s s)))")
     (simp_all add: mset_proc_def pset_def set_proc_def list_update_beyond)

lemma deliver_trace_mask: "p_trace_mask (signal_deliver k m p) = p_trace_mask p"
  by (simp add: signal_deliver_def Let_def)

text \<open>
  C34: A signal handler is invisible to the program it interrupts. When a signal is delivered, the handler runs with any effect
  on the registers, and its return makes the system call \<^verbatim>\<open>sigreturn\<close>, then the process continues with exactly the registers it
  had, \<^verbatim>\<open>a0\<close> included although every system call overwrites \<^verbatim>\<open>a0\<close> with its result; only the pending bit of the signal is gone.
\<close>

theorem sigreturn_call_restores:
  assumes "\<not> p_sig_handling p" and "deliver_case k m p = Handler n"
    and "p_sig_current p = 0" and "p_sig_saved_trapframe p = tf_zero"
    and "i < length (sd_procs (pl_s (mc_s s)))" and "cur s i = (signal_deliver k m p)\<lparr>p_trapframe := tf\<rparr>"
    and "tf_a7 tf = 33" and "p_trace_mask p AND trace_bit 33 = 0"
  shows "syscall (sysproc_calls e chan) e c i s =
    Ok (Ret (tf_a0 (p_trapframe p)), mset_proc i (\<lambda>_. p\<lparr>p_sig_pending := p_sig_pending p AND NOT (signal_bit n)\<rparr>) s)"
proof -
  have "signal_sigreturn (cur s i) = (tf_a0 (p_trapframe p), p\<lparr>p_sig_pending := p_sig_pending p AND NOT (signal_bit n)\<rparr>)"
    using signal_deliver_sigreturn [OF assms(1-4)] by (simp add: Let_def assms(6))
  then show ?thesis
    using assms(6-8)
    by (simp add: syscall_def Let_def sysproc_calls_def sys_sigreturn_def deliver_trace_mask mset_proc_twice set_a0_def)
qed

definition sig_mach :: "'w mach \<Rightarrow> 'w mach" where
  "sig_mach s = s\<lparr>mc_s := (mc_s s)\<lparr>pl_s := (sched_boot)\<lparr>sd_procs :=
     [(signal_deliver vm_env sig_mem sig_proc)\<lparr>p_trapframe := tf_zero\<lparr>tf_a7 := 33, tf_a0 := 5\<rparr>\<rparr>]\<rparr>\<rparr>\<rparr>"

theorem sigreturn_call_restores_witness:
  "\<forall>e chan c s. syscall (sysproc_calls e chan) e c 0 (sig_mach s) =
     Ok (Ret 77, mset_proc 0 (\<lambda>_. sig_proc\<lparr>p_sig_pending := p_sig_pending sig_proc AND NOT (signal_bit 2)\<rparr>) (sig_mach s))"
proof (intro allI)
  fix e :: "'w penv" and chan c and s :: "'w mach"
  have "tf_a0 (p_trapframe sig_proc) = 77" by (simp add: sig_proc_def)
  then show "syscall (sysproc_calls e chan) e c 0 (sig_mach s) =
     Ok (Ret 77, mset_proc 0 (\<lambda>_. sig_proc\<lparr>p_sig_pending := p_sig_pending sig_proc AND NOT (signal_bit 2)\<rparr>) (sig_mach s))"
    using sigreturn_call_restores [OF _ sig_proc_handler, of 0 "sig_mach s" "tf_zero\<lparr>tf_a7 := 33, tf_a0 := 5\<rparr>" e chan c]
    by (simp add: sig_mach_def) (simp add: sig_proc_def proc_zero_def)
qed

text \<open>
  C36: The trace of a system call shows its first argument in the place of the result. For any handler, the line has been printed completely
  before the handler starts, on a machine with unchanged processes, and what follows the arrow is the value that \<^verbatim>\<open>a0\<close> had on entry.
\<close>

theorem trace_shows_argument:
  assumes "0 < num" and "num < 36" and "sint (ucast (tf_a7 (p_trapframe (cur s i))) :: i32) = num"
    and "table (nat num) = Some h" and "p_trace_mask (cur s i) AND trace_bit (nat num) \<noteq> 0"
    and "syscall table e c i s = Ok (r, s')"
  shows "\<exists>s1 s2 x. h c i s1 = Ok (r, s2) \<and> pl_s (mc_s s1) = pl_s (mc_s s) \<and>
    pr_out (mc_pr s1) = pr_out (mc_pr s) @ x @ cbytes '' -> '' @ sprintint (ucast (tf_a0 (p_trapframe (cur s i)))) 10 True @ [10]"
proof -
  let ?tf = "p_trapframe (cur s i)"
  let ?args = "[tf_a0 ?tf, tf_a1 ?tf, tf_a2 ?tf, tf_a3 ?tf, tf_a4 ?tf, tf_a5 ?tf]"
  obtain s1 s2 where "syscall_trace e i (nat num) ?args s = Ok s1" "h c i s1 = Ok (r, s2)"
    using assms by (auto simp: syscall_def Let_def res_simps)
  with syscall_trace_result [OF this(1)] show ?thesis by blast
qed

text \<open>A process that traces itself and calls \<^verbatim>\<open>uptime\<close> with 42 left over in \<^verbatim>\<open>a0\<close>.\<close>

definition trace_mach :: "'w mach \<Rightarrow> 'w mach" where
  "trace_mach s = s\<lparr>mc_s := (mc_s s)\<lparr>pl_s := (sched_boot)\<lparr>sd_ticks := 7, sd_procs :=
     [proc_zero\<lparr>p_pid := 3, p_trace_mask := 0x4000, p_trapframe := tf_zero\<lparr>tf_a7 := 14, tf_a0 := 42\<rparr>\<rparr>]\<rparr>\<rparr>,
     mc_pr := \<lparr>pr_locking = True, pr_held = False, pr_panicked = False, pr_out = []\<rparr>\<rparr>"

theorem trace_shows_argument_witness:
  "\<forall>e chan c (s :: 'w mach). \<exists>s' (s1 :: 'w mach) s2 x. syscall (sysproc_calls e chan) e c 0 (trace_mach s) = Ok (Ret 7, s') \<and>
     sys_uptime s1 = Ok (Ret 7, s2) \<and> pl_s (mc_s s1) = pl_s (mc_s (trace_mach s)) \<and>
     pr_out (mc_pr s1) = x @ cbytes '' -> '' @ cbytes ''42'' @ [10]"
proof (intro allI)
  fix e :: "'w penv" and chan c and s :: "'w mach"
  let ?s = "trace_mach s"
  have run: "\<exists>s'. syscall (sysproc_calls e chan) e c 0 ?s = Ok (Ret 7, s')"
    by (simp add: syscall_def trace_mach_def Let_def sysproc_calls_def trace_bit_def syscall_trace_def trace_args_def
        syscalls_argc_def syscalls_name_def pf_def printf_def cbytes_def sys_uptime_def)
  then obtain s' where s': "syscall (sysproc_calls e chan) e c 0 ?s = Ok (Ret 7, s')" by blast
  have num42: "sprintint (ucast (42 :: u64)) 10 True = cbytes ''42''"
    by (simp add: sprintint_def digit_loop.simps digits_def cbytes_def)
  have "\<exists>(s1 :: 'w mach) s2 x. sys_uptime s1 = Ok (Ret 7, s2) \<and> pl_s (mc_s s1) = pl_s (mc_s ?s) \<and>
     pr_out (mc_pr s1) = pr_out (mc_pr ?s) @ x @ cbytes '' -> '' @ sprintint (ucast (tf_a0 (p_trapframe (cur ?s 0)))) 10 True @ [10]"
    using trace_shows_argument [where num = 14 and h = "\<lambda>c i. sys_uptime", OF _ _ _ _ _ s']
    by (simp add: sysproc_calls_def trace_bit_def) (simp add: trace_mach_def)
  then show "\<exists>s' (s1 :: 'w mach) s2 x. syscall (sysproc_calls e chan) e c 0 ?s = Ok (Ret 7, s') \<and>
     sys_uptime s1 = Ok (Ret 7, s2) \<and> pl_s (mc_s s1) = pl_s (mc_s ?s) \<and>
     pr_out (mc_pr s1) = x @ cbytes '' -> '' @ cbytes ''42'' @ [10]"
    using num42 s' by (simp add: trace_mach_def)
qed

lemma unat_of_int64: "0 \<le> k \<Longrightarrow> k < 2 ^ 64 \<Longrightarrow> unat (word_of_int k :: u64) = nat k"
  by (simp add: unat_eq_nat_uint uint_word_of_int)

lemma unat_scast_pos: "0 \<le> sint (n :: i32) \<Longrightarrow> unat (scast n :: u64) = nat (sint n)"
  using sint_i32_range [of n] by (simp only: scast_eq) (rule unat_of_int64, simp_all)

lemma unat_scast_neg: "sint (n :: i32) < 0 \<Longrightarrow> unat (- (scast n :: u64)) = nat (- sint n)"
proof -
  assume "sint n < 0"
  moreover have "- (scast n :: u64) = word_of_int (- sint n)" by (simp only: scast_eq of_int_minus)
  ultimately show ?thesis
    using sint_i32_range [of n] by (simp only:) (rule unat_of_int64, simp_all)
qed

lemma room_iff: "(l < a \<or> l - a < d) = (\<not> unat a + unat d \<le> unat (l :: u64))"
proof (cases "l < a")
  case False
  then have "a \<le> l" by simp
  then have "unat (l - a) = unat l - unat a" "unat a \<le> unat l"
    by (simp_all add: unat_sub word_le_nat_alt)
  with False show ?thesis by (auto simp: word_less_nat_alt)
qed (simp add: word_less_nat_alt)

lemma in_k_procs: "res_all (\<lambda>(r, s'). pl_s s' = pl_s s) (in_k g s)"
  by (cases "g (mm_k (pl_m s))") (auto simp: in_k_def split: prod.split)

lemma in_k_dealloc:
  assumes "newsz < oldsz"
  shows "res_all (\<lambda>(r, s'). r = newsz \<and> pl_s s' = pl_s s) (in_k (uvmdealloc k pt oldsz newsz) s)"
proof (cases "PGROUNDUP newsz < PGROUNDUP oldsz")
  case True
  let ?u = "uvmunmap k pt (PGROUNDUP newsz) (scast (ucast ((PGROUNDUP oldsz - PGROUNDUP newsz) div PGSIZE) :: i32)) True (mm_k (pl_m s))"
  show ?thesis using assms True by (cases ?u) (auto simp: in_k_def uvmdealloc_def Let_def)
qed (use assms in \<open>simp add: in_k_def uvmdealloc_def not_le [symmetric]\<close>)

abbreviation (input) sbrk_arg :: "'w mach \<Rightarrow> nat \<Rightarrow> i32" where
  "sbrk_arg s i \<equiv> ucast (tf_a0 (p_trapframe (cur s i)))"

lemma argint_0: "argint p 0 = Ok (ucast (tf_a0 (p_trapframe p)))"
  by (simp add: argint_def argraw_def Let_def)

lemma sbrk_grow:
  assumes pos: "0 \<le> sint (sbrk_arg s i)"
  shows "sys_sbrk e i s = (if unat (p_sz (cur s i)) + nat (sint (sbrk_arg s i)) \<le> unat (vma_heap_limit (p_vmas (cur s i)))
      then Ok (Ret (p_sz (cur s i)), mset_proc i (\<lambda>p. p\<lparr>p_sz := of_nat (unat (p_sz (cur s i)) + nat (sint (sbrk_arg s i)))\<rparr>) s) else Ok (ret (-1), s))"
proof -
  let ?l = "vma_heap_limit (p_vmas (cur s i))"
  have "(?l < p_sz (cur s i) \<or> ?l - p_sz (cur s i) < scast (sbrk_arg s i)) = (\<not> unat (p_sz (cur s i)) + nat (sint (sbrk_arg s i)) \<le> unat ?l)"
    using unat_scast_pos [OF pos] by (simp only: room_iff)
  moreover have "p_sz (cur s i) + scast (sbrk_arg s i) = of_nat (unat (p_sz (cur s i)) + nat (sint (sbrk_arg s i)))"
    by (simp add: unat_scast_pos [OF pos, symmetric])
  ultimately show ?thesis using pos by (simp add: sys_sbrk_def argint_0 Let_def)
qed

lemma sbrk_shrink:
  assumes neg: "sint (sbrk_arg s i) < 0" and fits: "nat (- sint (sbrk_arg s i)) \<le> unat (p_sz (cur s i))"
  shows "res_all (\<lambda>(r, s'). r = Ret (p_sz (cur s i)) \<and>
       pl_s (mc_s s') = pl_s (mc_s (mset_proc i (\<lambda>p. p\<lparr>p_sz := of_nat (unat (p_sz (cur s i)) - nat (- sint (sbrk_arg s i)))\<rparr>) s))) (sys_sbrk e i s)"
proof -
  define dd where "dd = - (scast (sbrk_arg s i) :: u64)"
  have d: "unat dd = nat (- sint (sbrk_arg s i))" using unat_scast_neg [OF neg] by (simp only: dd_def)
  have le: "dd \<le> p_sz (cur s i)" using fits d by (simp add: word_le_nat_alt)
  have new: "p_sz (cur s i) - dd = of_nat (unat (p_sz (cur s i)) - nat (- sint (sbrk_arg s i)))"
    by (simp only: d [symmetric] of_nat_diff [OF fits [folded d]] of_nat_unat ucast_id)
  have "unat (p_sz (cur s i) - dd) < unat (p_sz (cur s i))" using unat_sub [OF le] d neg fits by simp
  then have less: "p_sz (cur s i) - dd < p_sz (cur s i)" by (simp add: word_less_nat_alt)
  let ?Q = "\<lambda>(r, s'). r = Ret (p_sz (cur s i)) \<and>
     pl_s (mc_s s') = pl_s (mc_s (mset_proc i (\<lambda>p. p\<lparr>p_sz := of_nat (unat (p_sz (cur s i)) - nat (- sint (sbrk_arg s i)))\<rparr>) s))"
  have step: "res_all ?Q (rmap (\<lambda>(sz, k2). (Ret (p_sz (cur s i)), mset_proc i (\<lambda>p. p\<lparr>p_sz := sz\<rparr>) (s\<lparr>mc_s := k2\<rparr>)))
      (in_k (uvmdealloc (pe_k e) (p_pagetable (cur s i)) (p_sz (cur s i)) (p_sz (cur s i) - dd)) k1))" if "pl_s k1 = pl_s (mc_s s)" for k1
    unfolding res_all_map by (rule res_all_mono [OF in_k_dealloc [OF less]]) (use that in \<open>auto simp: new mset_proc_def pset_def\<close>)
  have "sys_sbrk e i s = rbind (in_k (ukvmdealloc (pe_k e) (p_kpagetable (cur s i)) (p_sz (cur s i)) (p_sz (cur s i) - dd) False) (mc_s s)) (\<lambda>(_, k1).
      rmap (\<lambda>(sz, k2). (Ret (p_sz (cur s i)), mset_proc i (\<lambda>p. p\<lparr>p_sz := sz\<rparr>) (s\<lparr>mc_s := k2\<rparr>)))
        (in_k (uvmdealloc (pe_k e) (p_pagetable (cur s i)) (p_sz (cur s i)) (p_sz (cur s i) - dd)) k1))"
    using neg leD [OF le] by (simp add: sys_sbrk_def argint_0 Let_def dd_def)
  then show ?thesis
    using step by (simp only:) (rule res_all_bindI [OF in_k_procs], auto simp del: res_all_map)
qed

text \<open>
  C35: \<^verbatim>\<open>sbrk\<close> moves the end of the heap by exactly the signed amount, or fails without a change. It grows lazily, and only as far as the first memory area
  allows, without wrapping; it shrinks by at most the size of the heap. It returns the old end and changes no other process.
\<close>

theorem sbrk_moves_break:
  "let p = cur s i; n = sint (ucast (tf_a0 (p_trapframe p)) :: i32); sz = unat (p_sz p);
             limit = unat (vma_heap_limit (p_vmas p)) in
    (0 \<le> n \<longrightarrow> sys_sbrk e i s =
       (if sz + nat n \<le> limit then Ok (Ret (p_sz p), mset_proc i (\<lambda>p. p\<lparr>p_sz := of_nat (sz + nat n)\<rparr>) s) else Ok (ret (-1), s))) \<and>
    (n < 0 \<and> sz < nat (- n) \<longrightarrow> sys_sbrk e i s = Ok (ret (-1), s)) \<and>
    (n < 0 \<and> nat (- n) \<le> sz \<longrightarrow> res_all (\<lambda>(r, s'). r = Ret (p_sz p) \<and>
       pl_s (mc_s s') = pl_s (mc_s (mset_proc i (\<lambda>p. p\<lparr>p_sz := of_nat (sz - nat (- n))\<rparr>) s))) (sys_sbrk e i s))"
  using sbrk_grow [of s i e] sbrk_shrink [of s i e] unat_scast_neg [of "sbrk_arg s i"]
  by (simp add: Let_def) (auto simp: sys_sbrk_def argint_0 word_less_nat_alt)

theorem sbrk_moves_break_witness:
  "\<forall>e s. let s1 = mset_proc 0 (\<lambda>p. p\<lparr>p_sz := 0x3000\<rparr>) (trace_mach s) in
     sys_sbrk e 0 s1 = Ok (Ret 0x3000, mset_proc 0 (\<lambda>p. p\<lparr>p_sz := 0x302A\<rparr>) s1)"
proof (intro allI)
  fix e :: "'w penv" and s :: "'w mach"
  let ?s = "mset_proc 0 (\<lambda>p. p\<lparr>p_sz := 0x3000\<rparr>) (trace_mach s)"
  have p: "cur ?s 0 = proc_zero\<lparr>p_pid := 3, p_trace_mask := 0x4000, p_trapframe := tf_zero\<lparr>tf_a7 := 14, tf_a0 := 42\<rparr>, p_sz := 0x3000\<rparr>"
    by (simp add: mset_proc_def pset_def set_proc_def trace_mach_def)
  have lim: "vma_heap_limit (replicate NVMA vma_zero) = MMAP_TOP"
    by (simp add: vma_heap_limit_def vma_zero_def numeral_nat)
  show "let s1 = ?s in sys_sbrk e 0 s1 = Ok (Ret 0x3000, mset_proc 0 (\<lambda>p. p\<lparr>p_sz := 0x302A\<rparr>) s1)"
    using sbrk_moves_break [of ?s 0 e] unfolding p Let_def
    by (simp add: lim proc_zero_def)
qed

text \<open>
  \<^verbatim>\<open>sleep(n)\<close> ends by the clock exactly when \<open>n\<close> ticks have passed, also when the counter wraps meanwhile; before that the process goes
  back to sleep. A negative \<open>n\<close> is taken as unsigned and means a sleep of \<open>2\<^sup>3\<^sup>2 + n\<close> ticks.
\<close>

theorem sleep_duration:
  assumes i: "i < length (sd_procs (pl_s (mc_s s)))" and "\<not> signal_pending_locked (cur s i)"
    and "mc_ticks s = ticks0 + of_nat d" and "d < 2 ^ 32"
  shows "fst (sys_sleep_back chan c i ticks0 n s) = (if unat n \<le> d then ret 0 else Sleeping) \<and>
    (\<not> unat n \<le> d \<longrightarrow> p_state (cur (snd (sys_sleep_back chan c i ticks0 n s)) i) = SLEEPING \<and>
       p_chan (cur (snd (sys_sleep_back chan c i ticks0 n s)) i) = chan) \<and>
    int (unat n) = (if 0 \<le> sint n then sint n else 2 ^ 32 + sint n)"
proof -
  have t: "mc_ticks s - ticks0 = of_nat d" using assms(3) by simp
  have u: "unat (of_nat d :: u32) = d" using assms(4) by (simp add: unat_of_nat)
  have less: "(of_nat d < n) = (\<not> unat n \<le> d)" by (simp add: word_less_nat_alt u not_le)
  have sig: "\<not> signal_pending_locked ((cur s i)\<lparr>p_chan := x, p_interruptible_sleep := y\<rparr>)" for x y
    using assms(2) by (simp add: signal_pending_locked_def sig_deliverable_def)
  have "int (unat n) = (if 0 \<le> sint n then sint n else 2 ^ 32 + sint n)"
    using uint_lt2p [of n] by (simp add: sint_i32)
  then show ?thesis
    using i sig less t
    by (simp add: sys_sleep_back_def sleep_on_back_def sleep_round_def sleep_on_def set_proc_def run_proc_back_def set_cpu_def
        split: prod.split)
qed

theorem sleep_duration_witness:
  "\<forall>chan c s. fst (sys_sleep_back chan c 0 (- 3) 10 (trace_mach s)) = ret 0 \<and>
     fst (sys_sleep_back chan c 0 (- 2) 10 (trace_mach s)) = Sleeping"
proof (intro allI)
  fix chan c and s :: "'w mach"
  have m: "0 < length (sd_procs (pl_s (mc_s (trace_mach s))))" "\<not> signal_pending_locked (cur (trace_mach s) 0)"
      "mc_ticks (trace_mach s) = - 3 + of_nat 10" "mc_ticks (trace_mach s) = - 2 + of_nat 9"
    by (simp_all add: trace_mach_def signal_pending_locked_def sig_deliverable_def proc_zero_def)
  show "fst (sys_sleep_back chan c 0 (- 3) 10 (trace_mach s)) = ret 0 \<and>
     fst (sys_sleep_back chan c 0 (- 2) 10 (trace_mach s)) = Sleeping"
    using sleep_duration [OF m(1,2,3), of chan c 10] sleep_duration [OF m(1,2,4), of chan c 10] by simp
qed

end
