(* ===== verification/ProcDump.thy ===== *)
theory ProcDump
  imports Sched Format
begin

text \<open>
  The listing of processes that the console prints on control-P: \<^verbatim>\<open>procdump\<close> of \<^verbatim>\<open>kernel/proc/proc.c\<close> and its
  helpers, in the configuration with the feedback queue. Every piece of text goes through \<^verbatim>\<open>printf\<close> of
  \<open>Format\<close>. The states of a process form a datatype, so the test for a corrupted state has no branch here.
\<close>

section \<open>Operations\<close>

function width_loop :: "int \<Rightarrow> nat" where
  "width_loop n = (if 10 \<le> n then Suc (width_loop (n div 10)) else 0)"
  by pat_completeness auto
termination by (relation "measure nat") auto

declare width_loop.simps [simp del]

definition decimal_width :: "i32 \<Rightarrow> nat" where
  "decimal_width n = (if sint n < 0 then 2 + width_loop (sint (- n)) else 1 + width_loop (sint n))"

fun print_spaces :: "nat \<Rightarrow> prstate \<Rightarrow> prstate res" where
  "print_spaces 0 s = Ok s"
| "print_spaces (Suc n) s = rbind (printf (Some (cbytes '' '')) [] s) (print_spaces n)"

text \<open>The arguments of \<^verbatim>\<open>print_spaces\<close> are differences of \<^verbatim>\<open>int\<close>; for a negative one nothing is printed.\<close>

definition print_int_col :: "i32 \<Rightarrow> nat \<Rightarrow> prstate \<Rightarrow> prstate res" where
  "print_int_col n width s =
     rbind (print_spaces (width - decimal_width n) s) (printf (Some (cbytes ''%d'')) [Word (scast n)])"

definition print_str_col :: "bytes \<Rightarrow> nat \<Rightarrow> prstate \<Rightarrow> prstate res" where
  "print_str_col t width s =
     (let len = min (strlen t) width
      in rbind (rfold (\<lambda>c. printf (Some (cbytes ''%s'')) [Str [c, 0]]) (take len t) s) (print_spaces (width - len)))"

definition state_name :: "procstate \<Rightarrow> string" where
  "state_name st = (case st of UNUSED \<Rightarrow> ''unused'' | SLEEPING \<Rightarrow> ''sleep '' | RUNNABLE \<Rightarrow> ''runble'' | RUNNING \<Rightarrow> ''run   '' | ZOMBIE \<Rightarrow> ''zombie'')"

definition wakeup_num :: "wakeup_kind \<Rightarrow> i32" where
  "wakeup_num r = (case r of WAKEUP_NORMAL \<Rightarrow> 0 | WAKEUP_TIMER \<Rightarrow> 1 | WAKEUP_IO \<Rightarrow> 2 | WAKEUP_DEVICE \<Rightarrow> 3)"

datatype column = ColInt i32 nat | ColStr bytes nat | Gap

definition print_column :: "column \<Rightarrow> prstate \<Rightarrow> prstate res" where
  "print_column c s =
     (case c of ColInt n w \<Rightarrow> print_int_col n w s | ColStr t w \<Rightarrow> print_str_col t w s | Gap \<Rightarrow> printf (Some (cbytes ''  '')) [] s)"

text \<open>The calls of one round of the loop, in order.\<close>

definition proc_columns :: "proc \<Rightarrow> column list" where
  "proc_columns p =
     [ColInt (word_of_int (p_pid p)) 4, Gap, ColStr (cbytes (state_name (p_state p))) 5, Gap, ColStr (cbytes (p_name p)) 12, Gap,
      ColInt (word_of_int (p_queue_level p)) 1, Gap, ColInt (p_total_run_ticks p) 5, Gap, ColInt (p_wait_ticks p) 5, Gap,
      ColInt (p_preempt_count p) 7, Gap, ColInt (p_boost_count p) 5, Gap, ColInt (p_io_wakeup_count p) 4, Gap,
      ColInt (p_device_wakeup_count p) 4, Gap, ColInt (wakeup_num (p_last_wakeup_reason p)) 4]"

definition dump_proc :: "proc \<Rightarrow> prstate \<Rightarrow> prstate res" where
  "dump_proc p s =
     (if p_state p = UNUSED then Ok s
      else rbind (rfold print_column (proc_columns p) s) (printf (Some [10]) []))"

definition dump_head :: "string list" where
  "dump_head = ['' PID  STATE  NAME          Q    RUN   WAIT  PREEMPT  BOOST    IO   DEV  WAKE'',
     ''----  -----  ------------  -  -----  -----  -------  -----  ----  ----  ----'']"

definition procdump :: "sched \<Rightarrow> prstate \<Rightarrow> prstate res" where
  "procdump sd s =
     rbind (printf (Some [10]) [] s) (\<lambda>s1.
     rbind (rfold (\<lambda>h. printf (Some (cbytes h @ [10])) []) dump_head s1) (\<lambda>s2.
     rbind (rfold dump_proc (sd_procs sd) s2)
       (printf (Some (cbytes ''mlfq: preempt_requests=%d'' @ [10])) [Word (ucast (sd_preempt_count sd))])))"

section \<open>Widths\<close>

lemma length_digit_loop_width: "length (digit_loop 10 x) = Suc (width_loop (uint x))"
proof (induction "10 :: u32" x rule: digit_loop.induct)
  case (1 x)
  have div: "uint (x div 10) = uint x div 10" by (simp add: uint_div)
  have zero: "x div 10 = 0 \<longleftrightarrow> \<not> 10 \<le> uint x"
    by (simp add: word_uint_eq_iff div) (metis div_neg_pos_less0 div_pos_pos_trivial not_less pos_imp_zdiv_pos_iff uint_nonnegative zero_less_numeral less_irrefl)
  show ?case
    using zero 1 div by (subst digit_loop.simps, subst width_loop.simps) simp
qed

text \<open>\<^verbatim>\<open>decimal_width\<close> is the number of characters that \<^verbatim>\<open>%d\<close> prints, for every value but the smallest, whose
  negation overflows: for that one it says 2 instead of 11.\<close>

lemma decimal_width_correct:
  assumes "n \<noteq> 0x80000000"
  shows "decimal_width n = length (sprintint n 10 True)"
proof (cases "sint n < 0")
  case True
  have "uint (- n) \<noteq> 2 ^ 31"
  proof
    assume "uint (- n) = 2 ^ 31"
    then have "- n = 0x80000000" by (simp add: word_uint_eq_iff)
    then have "n = - 0x80000000" by (metis minus_minus)
    with assms show False by simp
  qed
  then have "sint (- n) = uint (- n)"
    using uint_neg_i32 [OF True] sint_i32_range [of n] by (simp add: sint_i32 [of "- n"])
  with True show ?thesis by (simp add: decimal_width_def sprintint_def length_digit_loop_width)
next
  case False
  then show ?thesis
    by (simp add: decimal_width_def sprintint_def length_digit_loop_width uint_pos_i32)
qed

lemma decimal_width_min: "decimal_width 0x80000000 = 2" "length (sprintint 0x80000000 10 True) = 11"
  by (simp_all add: decimal_width_def width_loop.simps sprintint_min)

section \<open>The listing\<close>

definition pr_ready :: "prstate \<Rightarrow> bool" where
  "pr_ready s \<longleftrightarrow> (pr_locking s \<longrightarrow> \<not> pr_held s)"

lemma pr_ready_out [simp]: "pr_ready (s\<lparr>pr_out := x\<rparr>) = pr_ready s"
  by (simp add: pr_ready_def)

lemma printf_ready: "pr_ready s \<Longrightarrow> printf_loop f ap (pr_out s) = Ok x \<Longrightarrow> printf (Some f) ap s = Ok (s\<lparr>pr_out := x\<rparr>)"
  by (cases s) (auto simp: printf_def pr_ready_def)

lemma printf_text: "pr_ready s \<Longrightarrow> plain f \<Longrightarrow> printf (Some f) [] s = Ok (s\<lparr>pr_out := pr_out s @ f\<rparr>)"
  using printf_loop_plain [of f "[]" "[]" "pr_out s"] by (simp add: printf_ready)

fun col_text :: "column \<Rightarrow> bytes" where
  "col_text (ColInt n w) = replicate (w - decimal_width n) 32 @ sprintint n 10 True"
| "col_text (ColStr t w) = take w (cstr t) @ replicate (w - strlen t) 32"
| "col_text Gap = [32, 32]"

lemma print_spaces_text: "pr_ready s \<Longrightarrow> print_spaces n s = Ok (s\<lparr>pr_out := pr_out s @ replicate n 32\<rparr>)"
proof (induction n arbitrary: s)
  case (Suc n)
  then show ?case
    using printf_text [of s "cbytes '' ''"] by (simp add: plain_def cbytes_def)
qed simp

lemma print_chars_text:
  "pr_ready s \<Longrightarrow> 0 \<notin> set cs \<Longrightarrow>
   rfold (\<lambda>c. printf (Some (cbytes ''%s'')) [Str [c, 0]]) cs s = Ok (s\<lparr>pr_out := pr_out s @ cs\<rparr>)"
proof (induction cs arbitrary: s)
  case (Cons c cs)
  then have "printf (Some (cbytes ''%s'')) [Str [c, 0]] s = Ok (s\<lparr>pr_out := pr_out s @ [c]\<rparr>)"
    by (intro printf_ready) (auto simp: cbytes_def)
  with Cons show ?case by simp
qed simp

lemma take_strlen: "take (min (strlen t) w) t = take w (cstr t)"
proof -
  have "cstr t = take (strlen t) t"
    unfolding strlen_cstr cstr_def by (rule takeWhile_eq_take)
  then show ?thesis by (simp add: min.commute)
qed

lemma ucast_extend [simp]: "ucast (scast (n :: i32) :: u64) = n" "ucast (ucast (v :: u32) :: u64) = v"
  by (rule bit_word_eqI, simp add: bit_simps)+

lemma print_column_text: "pr_ready s \<Longrightarrow> print_column c s = Ok (s\<lparr>pr_out := pr_out s @ col_text c\<rparr>)"
proof (cases c)
  case (ColInt n w)
  assume r: "pr_ready s"
  have "printf (Some (cbytes ''%d'')) [Word (scast n)] s1 = Ok (s1\<lparr>pr_out := pr_out s1 @ sprintint n 10 True\<rparr>)" if "pr_ready s1" for s1
    using that by (intro printf_ready) (simp_all add: cbytes_def printint_eq)
  with r ColInt show ?thesis by (simp add: print_column_def print_int_col_def print_spaces_text)
next
  case (ColStr t w)
  assume r: "pr_ready s"
  have "0 \<notin> set (take w (cstr t))" using set_takeWhileD by (fastforce simp: cstr_def dest: in_set_takeD)
  with r ColStr show ?thesis
    by (simp add: print_column_def print_str_col_def Let_def take_strlen print_chars_text print_spaces_text)
next
  case Gap
  assume "pr_ready s"
  with Gap show ?thesis using printf_text [of s "cbytes ''  ''"] by (simp add: print_column_def plain_def cbytes_def)
qed

lemma print_columns_text: "pr_ready s \<Longrightarrow> rfold print_column cs s = Ok (s\<lparr>pr_out := pr_out s @ concat (map col_text cs)\<rparr>)"
  by (induction cs arbitrary: s) (simp_all add: print_column_text)

definition dump_row :: "proc \<Rightarrow> bytes" where
  "dump_row p = concat (map col_text (proc_columns p))"

definition dump_text :: "sched \<Rightarrow> bytes" where
  "dump_text sd = [10] @ concat (map (\<lambda>h. cbytes h @ [10]) dump_head) @
     concat (map (\<lambda>p. dump_row p @ [10]) (filter (\<lambda>p. p_state p \<noteq> UNUSED) (sd_procs sd))) @
     cbytes ''mlfq: preempt_requests='' @ sprintint (sd_preempt_count sd) 10 True @ [10]"

lemma dump_procs_text:
  "pr_ready s \<Longrightarrow> rfold dump_proc ps s =
   Ok (s\<lparr>pr_out := pr_out s @ concat (map (\<lambda>p. dump_row p @ [10]) (filter (\<lambda>p. p_state p \<noteq> UNUSED) ps))\<rparr>)"
proof (induction ps arbitrary: s)
  case (Cons p ps)
  then show ?case
    using printf_text [of "s\<lparr>pr_out := pr_out s @ dump_row p\<rparr>" "[10]"]
    by (simp add: dump_proc_def print_columns_text dump_row_def plain_def)
qed simp

lemma dump_head_text:
  "pr_ready s \<Longrightarrow> rfold (\<lambda>h. printf (Some (cbytes h @ [10])) []) dump_head s =
   Ok (s\<lparr>pr_out := pr_out s @ concat (map (\<lambda>h. cbytes h @ [10]) dump_head)\<rparr>)"
proof -
  assume r: "pr_ready s"
  have p: "\<forall>h \<in> set dump_head. plain (cbytes h @ [10])" by (simp add: dump_head_def plain_def cbytes_def)
  have "rfold (\<lambda>h. printf (Some (cbytes h @ [10])) []) hs s =
      Ok (s\<lparr>pr_out := pr_out s @ concat (map (\<lambda>h. cbytes h @ [10]) hs)\<rparr>)"
    if "\<forall>h \<in> set hs. plain (cbytes h @ [10])" for hs
    using r that by (induction hs arbitrary: s) (simp_all add: printf_text)
  from this [OF p] show ?thesis .
qed

text \<open>Columns whose values fit.\<close>

definition small_int :: "i32 \<Rightarrow> nat \<Rightarrow> bool" where
  "small_int n w \<longleftrightarrow> n \<noteq> 0x80000000 \<and> decimal_width n \<le> w"

fun fits :: "column \<Rightarrow> bool" where
  "fits (ColInt n w) = small_int n w"
| "fits c = True"

definition col_width :: "column \<Rightarrow> nat" where
  "col_width c = (case c of ColInt n w \<Rightarrow> w | ColStr t w \<Rightarrow> w | Gap \<Rightarrow> 2)"

lemma col_text_width: "fits c \<Longrightarrow> length (col_text c) = col_width c"
  by (cases c) (auto simp: col_width_def small_int_def decimal_width_correct strlen_cstr)

text \<open>
  \<^verbatim>\<open>procdump\<close> prints one line for every slot in use, in the order of the table. A line is as long as the heading,
  whatever the names, as long as the numbers of the process fit into their columns.
\<close>

theorem procdump_listing:
  assumes "pr_ready s"
  shows "procdump sd s = Ok (s\<lparr>pr_out := pr_out s @ dump_text sd\<rparr>) \<and>
    (\<forall>p \<in> set (sd_procs sd). (\<forall>c \<in> set (proc_columns p). fits c) \<longrightarrow> length (dump_row p) = length (dump_head ! 0))"
proof
  have "printf (Some (cbytes ''mlfq: preempt_requests=%d'' @ [10])) [Word (ucast v)] s1 =
      Ok (s1\<lparr>pr_out := pr_out s1 @ cbytes ''mlfq: preempt_requests='' @ sprintint v 10 True @ [10]\<rparr>)" if "pr_ready s1" for s1 v
    using that by (intro printf_ready) (simp_all add: cbytes_def printint_eq)
  then show "procdump sd s = Ok (s\<lparr>pr_out := pr_out s @ dump_text sd\<rparr>)"
    using assms printf_text [of s "[10]"]
    by (simp add: procdump_def dump_head_text dump_procs_text dump_text_def plain_def)
  have "length (dump_row p) = length (dump_head ! 0)" if "\<forall>c \<in> set (proc_columns p). fits c" for p
  proof -
    have "map length (map col_text (proc_columns p)) = map col_width (proc_columns p)"
      using that by (simp add: col_text_width)
    then have "length (dump_row p) = sum_list (map col_width (proc_columns p))"
      by (simp only: dump_row_def length_concat)
    then show ?thesis by (simp add: proc_columns_def col_width_def dump_head_def)
  qed
  then show "\<forall>p \<in> set (sd_procs sd). (\<forall>c \<in> set (proc_columns p). fits c) \<longrightarrow> length (dump_row p) = length (dump_head ! 0)"
    by blast
qed

end
