(* ===== verification/Console.thy ===== *)
theory Console
  imports ProcDump RingBuffer
begin

text \<open>
  The console: the byte streams of \<^verbatim>\<open>kernel/driver/uarths.c\<close> and the line discipline of \<^verbatim>\<open>kernel/devsw/console.c\<close> on top of it.

  \<open>co_fifo\<close> holds the received bytes that the hardware still has, \<open>co_room\<close> the number of bytes that its
  transmitter can take at once, \<open>co_pr\<close> the characters sent to the terminal. Received bytes go through the observer of
  the console into the ring \<open>ux_ring\<close>, readers take them out. The bytes of a \<^verbatim>\<open>write\<close> go through the ring \<open>co_tx\<close>. A process that has to wait goes to sleep on the address of
  the ring; the functions \<open>..._back\<close> continue when it runs again. User memory is a parameter \<open>'u\<close> with the two copy
  functions. The freeze of the output after a panic is left out.
\<close>

section \<open>State\<close>

record uarths_rx =
  ux_ring :: ringbuffer
  ux_dropped :: u32
  ux_epoch :: u32

record cons =
  cn_mode :: int
  cn_esc :: int
  cn_drop_lf_after_cr :: bool
  cn_eof_pending :: bool
  cn_foreground_pgid :: int
  cn_foreground_owner_pgid :: int
  cn_tty_events :: u32

record 'u con =
  co_cons :: cons
  co_rx :: uarths_rx
  co_tx :: ringbuffer
  co_fifo :: bytes
  co_room :: nat
  co_baud :: u32
  co_div :: u32
  co_pr :: prstate
  co_s :: sched
  co_u :: 'u

record 'u conenv =
  ce_qemu :: bool
  ce_freq :: u32
  ce_rxchan :: u64
  ce_txchan :: u64
  ce_copyout :: "u64 \<Rightarrow> bytes \<Rightarrow> 'u \<Rightarrow> int \<times> 'u"
  ce_copyin :: "u64 \<Rightarrow> nat \<Rightarrow> 'u \<Rightarrow> bytes option"

abbreviation (input) CONSOLE_MODE_TTY :: int where "CONSOLE_MODE_TTY \<equiv> 0"
abbreviation (input) CONSOLE_MODE_RAW :: int where "CONSOLE_MODE_RAW \<equiv> 1"
abbreviation (input) TTY_EVENT_SIGINT :: u32 where "TTY_EVENT_SIGINT \<equiv> 1"

section \<open>The byte streams\<close>

text \<open>The result says whether the byte is consumed (\<^verbatim>\<open>UARTHS_RX_CONSUME\<close>).\<close>

definition console_rx_observer :: "u8 \<Rightarrow> cons \<Rightarrow> bool \<times> cons" where
  "console_rx_observer c cn =
     (if cn_mode cn = CONSOLE_MODE_TTY \<and> 0 < cn_foreground_pgid cn \<and> c = 3
      then (True, cn\<lparr>cn_tty_events := cn_tty_events cn OR TTY_EVENT_SIGINT\<rparr>) else (False, cn))"

fun rx_loop :: "bytes \<Rightarrow> bool \<Rightarrow> cons \<Rightarrow> uarths_rx \<Rightarrow> bool \<times> cons \<times> uarths_rx" where
  "rx_loop [] received cn u = (received, cn, u)"
| "rx_loop (c # cs) received cn u =
     (case console_rx_observer c cn of
        (True, cn1) \<Rightarrow> rx_loop cs received cn1 u
      | (False, cn1) \<Rightarrow>
          (case ringbuffer_push (ux_ring u) c of
             (True, r) \<Rightarrow> rx_loop cs True cn1 (u\<lparr>ux_ring := r\<rparr>)
           | (False, r) \<Rightarrow> rx_loop cs received cn1 (u\<lparr>ux_ring := r, ux_dropped := ux_dropped u + 1\<rparr>)))"

definition uarths_rx_service :: "'u conenv \<Rightarrow> 'u con \<Rightarrow> 'u con" where
  "uarths_rx_service e s =
     (let (received, cn, u) = rx_loop (co_fifo s) False (co_cons s) (co_rx s);
          s1 = s\<lparr>co_fifo := [], co_cons := cn, co_rx := u\<rparr>
      in if received then s1\<lparr>co_s := wakeup_reason (co_s s1) (ce_rxchan e) WAKEUP_DEVICE\<rparr> else s1)"

text \<open>\<open>URet\<close> is a result of the C function, \<open>UGot\<close> a positive one together with the bytes; \<open>UWait\<close> that the process sleeps.\<close>

datatype uread = URet int | UGot bytes | UWait

text \<open>One round of \<^verbatim>\<open>uarths_rx_wait_data\<close> for process \<open>i\<close> on CPU \<open>c\<close>, and the copy that follows.\<close>

definition uarths_read_try :: "'u conenv \<Rightarrow> nat \<Rightarrow> nat \<Rightarrow> nat \<Rightarrow> 'u con \<Rightarrow> uread \<times> 'u con" where
  "uarths_read_try e c i n s =
     (if \<not> ringbuffer_empty (ux_ring (co_rx s)) then
        let (bs, r) = take_upto ringbuffer_pop n (ux_ring (co_rx s))
        in (UGot bs, s\<lparr>co_rx := (co_rx s)\<lparr>ux_ring := r\<rparr>\<rparr>)
      else (case sleep_on (co_s s) c i (ce_rxchan e) True of
              (Some r, sd) \<Rightarrow> (URet (-1), s\<lparr>co_s := sd\<rparr>)
            | (None, sd) \<Rightarrow> (UWait, s\<lparr>co_s := sd\<rparr>)))"

definition uarths_read :: "'u conenv \<Rightarrow> nat \<Rightarrow> nat \<Rightarrow> int \<Rightarrow> 'u con \<Rightarrow> uread \<times> 'u con" where
  "uarths_read e c i n s = (if n \<le> 0 then (URet 0, s) else uarths_read_try e c i (nat n) s)"

definition uarths_read_back :: "'u conenv \<Rightarrow> u32 \<Rightarrow> nat \<Rightarrow> nat \<Rightarrow> int \<Rightarrow> 'u con \<Rightarrow> uread \<times> 'u con" where
  "uarths_read_back e epoch c i n s =
     (let (r, sd) = sleep_on_back (co_s s) i True; s1 = s\<lparr>co_s := sd\<rparr>
      in if r < 0 then (URet (-1), s1)
         else if epoch \<noteq> ux_epoch (co_rx s1) then (URet 0, s1)
         else uarths_read_try e c i (nat n) s1)"

definition uarths_flush_rx :: "'u conenv \<Rightarrow> 'u con \<Rightarrow> 'u con" where
  "uarths_flush_rx e s =
     s\<lparr>co_fifo := [], co_rx := \<lparr>ux_ring = ringbuffer_reset (ux_ring (co_rx s)), ux_dropped = 0, ux_epoch = ux_epoch (co_rx s) + 1\<rparr>,
       co_s := wakeup_reason (co_s s) (ce_rxchan e) WAKEUP_DEVICE\<rparr>"

definition uarths_get_rx_stats :: "'u con \<Rightarrow> u32 list" where
  "uarths_get_rx_stats s =
     [ux_dropped (co_rx s), ringbuffer_used (ux_ring (co_rx s)), ringbuffer_capacity (ux_ring (co_rx s))]"

definition put_out :: "bytes \<Rightarrow> 'u con \<Rightarrow> 'u con" where
  "put_out bs s = s\<lparr>co_pr := (co_pr s)\<lparr>pr_out := pr_out (co_pr s) @ bs\<rparr>\<rparr>"

definition uarths_tx_service :: "'u conenv \<Rightarrow> 'u con \<Rightarrow> 'u con" where
  "uarths_tx_service e s =
     (let (bs, r) = take_upto ringbuffer_pop (co_room s) (co_tx s); s1 = put_out bs s
      in s1\<lparr>co_tx := r, co_room := co_room s - length bs, co_s := wakeup_reason (co_s s) (ce_txchan e) WAKEUP_DEVICE\<rparr>)"

datatype uwrite = WRet int | WWait nat

text \<open>The loop of \<^verbatim>\<open>uarths_write\<close> from index \<open>i\<close>; \<open>WWait i\<close> means that the process sleeps before byte \<open>i\<close>.\<close>

fun uarths_write_loop :: "'u conenv \<Rightarrow> nat \<Rightarrow> nat \<Rightarrow> bytes \<Rightarrow> nat \<Rightarrow> 'u con \<Rightarrow> uwrite \<times> 'u con" where
  "uarths_write_loop e c p [] i s = (WRet (int i), s)"
| "uarths_write_loop e c p (b # bs) i s =
     (if ringbuffer_full (co_tx s) then
        (case sleep_on (co_s s) c p (ce_txchan e) True of
           (Some r, sd) \<Rightarrow> (WRet (if 0 < i then int i else -1), s\<lparr>co_s := sd\<rparr>)
         | (None, sd) \<Rightarrow> (WWait i, s\<lparr>co_s := sd\<rparr>))
      else uarths_write_loop e c p bs (i + 1) (uarths_tx_service e (s\<lparr>co_tx := snd (ringbuffer_push (co_tx s) b)\<rparr>)))"

definition uarths_write :: "'u conenv \<Rightarrow> nat \<Rightarrow> nat \<Rightarrow> bytes \<Rightarrow> 'u con \<Rightarrow> uwrite \<times> 'u con" where
  "uarths_write e c p src s = uarths_write_loop e c p src 0 s"

definition uarths_write_back :: "'u conenv \<Rightarrow> nat \<Rightarrow> nat \<Rightarrow> bytes \<Rightarrow> nat \<Rightarrow> 'u con \<Rightarrow> uwrite \<times> 'u con" where
  "uarths_write_back e c p src i s =
     (let (r, sd) = sleep_on_back (co_s s) p True; s1 = s\<lparr>co_s := sd\<rparr>
      in if r < 0 then (WRet (if 0 < i then int i else -1), s1) else uarths_write_loop e c p (drop i src) i s1)"

definition uarths_dw_isr :: "'u conenv \<Rightarrow> 'u con \<Rightarrow> 'u con" where
  "uarths_dw_isr e s = uarths_tx_service e (uarths_rx_service e s)"

text \<open>
  \<^verbatim>\<open>uarths_flush_tx\<close> returns when everything in the ring has been sent; \<open>co_div\<close> is the divisor register, of which sixteen bits
  are read back, and \<open>ce_freq\<close> the clock of the processor.
\<close>

definition uarths_flush_tx :: "'u con \<Rightarrow> 'u con" where
  "uarths_flush_tx s =
     (let (bs, r) = take_upto ringbuffer_pop (unat (ringbuffer_used (co_tx s))) (co_tx s) in (put_out bs s)\<lparr>co_tx := r\<rparr>)"

definition uarths_set_baud :: "'u conenv \<Rightarrow> i32 \<Rightarrow> 'u con \<Rightarrow> 'u con" where
  "uarths_set_baud e baud s =
     (if ce_qemu e \<or> sint baud \<le> 0 then s
      else let s1 = uarths_flush_tx s; dv = ce_freq e div baud
           in s1\<lparr>co_fifo := [], co_div := (if dv = 0 then 1 else dv) - 1, co_baud := baud\<rparr>)"

definition uarths_get_baud_info :: "'u conenv \<Rightarrow> 'u con \<Rightarrow> u32 list" where
  "uarths_get_baud_info e s =
     (if ce_qemu e then [co_baud s, co_baud s, 0, 0]
      else let dv = co_div s AND 0xFFFF in [co_baud s, ce_freq e div (dv + 1), dv, ce_freq e])"

text \<open>\<^verbatim>\<open>consputc\<close> waits for the transmitter and sends at once; \<open>None\<close> is \<^verbatim>\<open>BACKSPACE\<close>.\<close>

definition consputc :: "u8 option \<Rightarrow> 'u con \<Rightarrow> 'u con" where
  "consputc c s = put_out (case c of None \<Rightarrow> [8, 32, 8] | Some b \<Rightarrow> [b]) s"

section \<open>The line discipline\<close>

text \<open>The new character, or \<open>None\<close> when the byte gives none, and the new state; what is echoed is printed.\<close>

definition tty_cook :: "bool \<Rightarrow> u8 \<Rightarrow> cons \<Rightarrow> (u8 \<times> bool) option \<times> cons" where
  "tty_cook qemu c cn =
     (let skip = \<not> qemu \<and> c \<noteq> 13 \<and> cn_drop_lf_after_cr cn \<and> c = 10;
          cn1 = (if qemu then cn else cn\<lparr>cn_drop_lf_after_cr := (c = 13)\<rparr>);
          d = (if c = 13 then 10 else c);
          echo = (0x20 \<le> d \<and> d \<le> 0x7E) \<or> d = 10
      in if skip then (None, cn1)
         else if d = 0x1B then (Some (d, False), cn1\<lparr>cn_esc := 1\<rparr>)
         else if cn_esc cn1 \<noteq> 0 then
           (Some (d, False), cn1\<lparr>cn_esc := (if cn_esc cn1 = 1 \<and> (d = 0x5B \<or> d = 0x4F) then 2 else 0)\<rparr>)
         else (Some (d, echo), cn1))"

definition console_tty_char :: "'u conenv \<Rightarrow> u8 \<Rightarrow> 'u con \<Rightarrow> (u8 option \<times> 'u con) res" where
  "console_tty_char e c s =
     (if cn_mode (co_cons s) \<noteq> CONSOLE_MODE_TTY then Ok (None, s)
      else if c = 16 then rmap (\<lambda>p. (None, s\<lparr>co_pr := p\<rparr>)) (procdump (co_s s) (co_pr s))
      else if c = 0 then Ok (None, s)
      else case tty_cook (ce_qemu e) c (co_cons s) of
             (None, cn) \<Rightarrow> Ok (None, s\<lparr>co_cons := cn\<rparr>)
           | (Some (d, echo), cn) \<Rightarrow>
               let s1 = s\<lparr>co_cons := cn\<rparr> in Ok (Some d, if echo then consputc (Some d) s1 else s1))"

datatype cread = CRet int | CWait nat

text \<open>What \<^verbatim>\<open>console_tty_read\<close> does with one byte from the driver; \<open>Inl\<close> is a result, \<open>Inr\<close> the new count.\<close>

definition tty_take :: "'u conenv \<Rightarrow> u64 \<Rightarrow> nat \<Rightarrow> u8 \<Rightarrow> 'u con \<Rightarrow> ((int + nat) \<times> 'u con) res" where
  "tty_take e dst dn input s =
     rmap (\<lambda>(out, s1).
       case out of
         None \<Rightarrow> (Inr dn, s1)
       | Some d \<Rightarrow>
           if d = 4 then
             (Inl (int dn), if 0 < dn then s1\<lparr>co_cons := (co_cons s1)\<lparr>cn_eof_pending := True\<rparr>\<rparr> else s1)
           else (let (r, u) = ce_copyout e (dst + of_nat dn) [d] (co_u s1)
                 in if r < 0 then (Inl (if 0 < dn then int dn else -1), s1\<lparr>co_u := u\<rparr>)
                    else (if d = 10 then Inl (int (dn + 1)) else Inr (dn + 1), s1\<lparr>co_u := u\<rparr>)))
       (console_tty_char e input s)"

text \<open>
  The loop of \<^verbatim>\<open>console_tty_read\<close>, until it returns or has to wait. Every round takes a byte out of the ring, so one round more than the
  ring has bytes is enough.
\<close>

fun tty_loop :: "nat \<Rightarrow> 'u conenv \<Rightarrow> nat \<Rightarrow> nat \<Rightarrow> u64 \<Rightarrow> int \<Rightarrow> nat \<Rightarrow> 'u con \<Rightarrow> (cread \<times> 'u con) res" where
  "tty_loop 0 e c i dst n dn s = Panic ''fuel''"
| "tty_loop (Suc k) e c i dst n dn s =
     (if \<not> int dn < n then Ok (CRet (int dn), s)
      else case uarths_read e c i 1 s of
             (URet r, s1) \<Rightarrow> Ok (CRet (if 0 < dn then int dn else r), s1)
           | (UWait, s1) \<Rightarrow> Ok (CWait dn, s1)
           | (UGot bs, s1) \<Rightarrow>
               rbind (tty_take e dst dn (hd bs) s1) (\<lambda>(r, s2).
                 case r of Inl v \<Rightarrow> Ok (CRet v, s2) | Inr dn1 \<Rightarrow> tty_loop k e c i dst n dn1 s2))"

definition tty_fuel :: "'u con \<Rightarrow> nat" where
  "tty_fuel s = unat (ringbuffer_used (ux_ring (co_rx s))) + 1"

definition console_tty_read :: "'u conenv \<Rightarrow> nat \<Rightarrow> nat \<Rightarrow> u64 \<Rightarrow> int \<Rightarrow> 'u con \<Rightarrow> (cread \<times> 'u con) res" where
  "console_tty_read e c i dst n s =
     (if cn_eof_pending (co_cons s) then Ok (CRet 0, s\<lparr>co_cons := (co_cons s)\<lparr>cn_eof_pending := False\<rparr>\<rparr>)
      else tty_loop (tty_fuel s) e c i dst n 0 s)"

definition console_raw_read :: "'u conenv \<Rightarrow> nat \<Rightarrow> nat \<Rightarrow> u64 \<Rightarrow> int \<Rightarrow> 'u con \<Rightarrow> cread \<times> 'u con" where
  "console_raw_read e c i dst n s =
     (case uarths_read e c i (min n 128) s of
        (URet r, s1) \<Rightarrow> (CRet r, s1)
      | (UWait, s1) \<Rightarrow> (CWait 0, s1)
      | (UGot bs, s1) \<Rightarrow>
          let (r, u) = ce_copyout e dst bs (co_u s1)
          in (CRet (if r < 0 then -1 else int (length bs)), s1\<lparr>co_u := u\<rparr>))"

definition consoleread :: "'u conenv \<Rightarrow> nat \<Rightarrow> nat \<Rightarrow> u64 \<Rightarrow> int \<Rightarrow> 'u con \<Rightarrow> (cread \<times> 'u con) res" where
  "consoleread e c i dst n s =
     (if n \<le> 0 then Ok (CRet 0, s)
      else if cn_mode (co_cons s) = CONSOLE_MODE_RAW then Ok (console_raw_read e c i dst n s)
      else console_tty_read e c i dst n s)"

text \<open>\<open>XWait dn chunk i\<close>: asleep in \<^verbatim>\<open>uarths_write\<close> before byte \<open>i\<close> of the chunk at \<open>dn\<close>.\<close>

datatype cwrite = XRet nat | XWait nat bytes nat

fun consolewrite_loop :: "nat \<Rightarrow> 'u conenv \<Rightarrow> nat \<Rightarrow> nat \<Rightarrow> u64 \<Rightarrow> nat \<Rightarrow> nat \<Rightarrow> 'u con \<Rightarrow> cwrite \<times> 'u con" where
  "consolewrite_loop 0 e c p src n dn s = (XRet dn, s)"
| "consolewrite_loop (Suc k) e c p src n dn s =
     (if \<not> dn < n then (XRet dn, s)
      else let cnt = min (n - dn) 128
           in case ce_copyin e (src + of_nat dn) cnt (co_u s) of
                None \<Rightarrow> (XRet dn, s)
              | Some buf \<Rightarrow>
                  (case uarths_write e c p buf s of
                     (WWait i, s1) \<Rightarrow> (XWait dn buf i, s1)
                   | (WRet w, s1) \<Rightarrow>
                       if w \<le> 0 then (XRet dn, s1)
                       else if w \<noteq> int cnt then (XRet (dn + nat w), s1)
                       else consolewrite_loop k e c p src n (dn + cnt) s1))"

text \<open>A round writes at least one byte, so \<open>n + 1\<close> rounds are enough.\<close>

definition consolewrite :: "'u conenv \<Rightarrow> nat \<Rightarrow> nat \<Rightarrow> u64 \<Rightarrow> int \<Rightarrow> 'u con \<Rightarrow> cwrite \<times> 'u con" where
  "consolewrite e c p src n s = consolewrite_loop (nat n + 1) e c p src (nat n) 0 s"

section \<open>Control\<close>

definition console_set_mode :: "'u conenv \<Rightarrow> int \<Rightarrow> 'u con \<Rightarrow> 'u con" where
  "console_set_mode e mode s =
     uarths_flush_rx e (s\<lparr>co_cons := (co_cons s)\<lparr>cn_mode := mode, cn_esc := 0, cn_drop_lf_after_cr := False, cn_eof_pending := False, cn_tty_events := 0\<rparr>\<rparr>)"

definition console_set_foreground_pgrp :: "nat \<Rightarrow> int \<Rightarrow> 'u con \<Rightarrow> int \<times> 'u con" where
  "console_set_foreground_pgrp i pgid s =
     (let ps = sd_procs (co_s s)
      in if pgid < 0 \<or> 0 < pgid \<and> \<not> signal_pgrp_exists ps pgid then (-1, s)
         else
           let caller_pgid = proc_getpgrp (ps ! i);
               owner_pgid = cn_foreground_owner_pgid (co_cons s);
               owner_exists = (0 < owner_pgid \<and> signal_pgrp_exists ps owner_pgid);
               cn1 = (if \<not> owner_exists then (co_cons s)\<lparr>cn_foreground_owner_pgid := 0, cn_foreground_pgid := 0\<rparr> else co_cons s);
               cn2 = (if cn_foreground_owner_pgid cn1 = 0 \<and> cn_foreground_pgid cn1 = 0
                      then cn1\<lparr>cn_foreground_owner_pgid := caller_pgid\<rparr> else cn1)
           in if cn_foreground_owner_pgid cn2 \<noteq> caller_pgid \<and> cn_foreground_pgid cn2 \<noteq> pgid then (-1, s\<lparr>co_cons := cn2\<rparr>)
              else let cn3 = cn2\<lparr>cn_foreground_pgid := pgid\<rparr>
                   in (0, s\<lparr>co_cons := (if pgid = 0 \<and> cn_foreground_owner_pgid cn3 = caller_pgid
                                       then cn3\<lparr>cn_foreground_owner_pgid := 0\<rparr> else cn3)\<rparr>))"

definition console_dispatch_events :: "'u con \<Rightarrow> 'u con" where
  "console_dispatch_events s =
     (let events = cn_tty_events (co_cons s); pgid = cn_foreground_pgid (co_cons s);
          s1 = s\<lparr>co_cons := (co_cons s)\<lparr>cn_tty_events := 0\<rparr>\<rparr>
      in if events AND TTY_EVENT_SIGINT = 0 \<or> pgid \<le> 0 then s1
         else let s2 = consputc (Some 10) (consputc (Some 0x43) (consputc (Some 0x5E) s1))
              in s2\<lparr>co_s := (co_s s2)\<lparr>sd_procs := snd (signal_send_pgrp (sd_procs (co_s s2)) pgid SIGINT)\<rparr>\<rparr>)"

text \<open>An array of \<^verbatim>\<open>uint32\<close> in memory.\<close>

definition u32s_bytes :: "u32 list \<Rightarrow> bytes" where
  "u32s_bytes vs = concat (map (\<lambda>v. [ucast v, ucast (drop_bit 8 v), ucast (drop_bit 16 v), ucast (drop_bit 24 v)]) vs)"

definition console_copyout :: "'u conenv \<Rightarrow> u64 \<Rightarrow> u32 list \<Rightarrow> 'u con \<Rightarrow> int \<times> 'u con" where
  "console_copyout e arg vs s = (let (r, u) = ce_copyout e arg (u32s_bytes vs) (co_u s) in (r, s\<lparr>co_u := u\<rparr>))"

definition consoleioctl :: "'u conenv \<Rightarrow> nat \<Rightarrow> u64 \<Rightarrow> u64 \<Rightarrow> 'u con \<Rightarrow> int \<times> 'u con" where
  "consoleioctl e i cmd arg s =
     (if cmd = 1 then
        let s1 = uarths_flush_rx e s
        in (0, s1\<lparr>co_cons := (co_cons s1)\<lparr>cn_esc := 0, cn_drop_lf_after_cr := False, cn_eof_pending := False\<rparr>\<rparr>)
      else if cmd = 2 then (if arg \<noteq> 0 \<and> arg \<noteq> 1 then (-1, s) else (0, console_set_mode e (sint (ucast arg :: i32)) s))
      else if cmd = 3 then (cn_mode (co_cons s), s)
      else if cmd = 4 then (if arg = 0 \<or> 5000000 < arg then (-1, s) else (0, uarths_set_baud e (ucast arg) s))
      else if cmd = 5 then console_copyout e arg (uarths_get_baud_info e s) s
      else if cmd = 6 then console_copyout e arg (uarths_get_rx_stats s @ [word_of_int (cn_mode (co_cons s)), 0]) s
      else if cmd = 7 then (if 0x7FFFFFFF < arg then (-1, s) else console_set_foreground_pgrp i (sint (ucast arg :: i32)) s)
      else if cmd = 8 then (cn_foreground_pgid (co_cons s), s)
      else (-1, s))"

definition consoleopen :: "16 word \<Rightarrow> int" where
  "consoleopen minor = (if minor = 0 then 0 else -1)"

section \<open>Input as a list of bytes\<close>

lemma ring_empty_iff: "rb_wf r \<Longrightarrow> ringbuffer_empty r \<longleftrightarrow> rb_contents r = []"
  by (metis length_0_conv length_rb_contents rb_empty_iff)

lemma ring_room: "rb_wf r \<Longrightarrow> length (rb_contents r) \<le> unat (rb_capacity r)"
  by (simp add: rb_len_bound)

lemma rx_loop_correct:
  assumes "rb_wf (ux_ring u)" "cn_mode cn = CONSOLE_MODE_TTY" "0 < cn_foreground_pgid cn"
  shows "case rx_loop cs received cn u of (received', cn', u') \<Rightarrow>
    rb_wf (ux_ring u') \<and> ux_epoch u' = ux_epoch u \<and> rb_capacity (ux_ring u') = rb_capacity (ux_ring u) \<and>
    rb_contents (ux_ring u') = rb_contents (ux_ring u) @
      take (unat (rb_capacity (ux_ring u)) - length (rb_contents (ux_ring u))) (filter (\<lambda>c. c \<noteq> 3) cs) \<and>
    cn' = (if 3 \<in> set cs then cn\<lparr>cn_tty_events := cn_tty_events cn OR TTY_EVENT_SIGINT\<rparr> else cn)"
  using assms
proof (induction cs arbitrary: received cn u)
  case (Cons c cs)
  show ?case
  proof (cases "c = 3")
    case True
    show ?thesis
      using Cons(1) [of u "cn\<lparr>cn_tty_events := cn_tty_events cn OR TTY_EVENT_SIGINT\<rparr>" received] Cons(2-4) True
      by (simp add: console_rx_observer_def or.assoc split: prod.splits)
  next
    case c: False
    let ?r = "ux_ring u"
    show ?thesis
    proof (cases "length (rb_contents ?r) < unat (rb_capacity ?r)")
      case True
      obtain r where r: "ringbuffer_push ?r c = (True, r)" "rb_wf r" "rb_contents r = rb_contents ?r @ [c]" "rb_capacity r = rb_capacity ?r"
        using rbq.push_room [OF Cons(2) True, of c] by (cases "ringbuffer_push ?r c") (auto simp: word_unat_eq_iff)
      show ?thesis
        using Cons(1) [of "u\<lparr>ux_ring := r\<rparr>" cn True] Cons(3,4) c r True
        by (auto simp: console_rx_observer_def take_Cons' split: prod.splits)
    next
      case False
      then have "ringbuffer_push ?r c = (False, ?r)" using rbq.push_full [OF Cons(2)] by simp
      then show ?thesis
        using Cons(1) [of "u\<lparr>ux_dropped := ux_dropped u + 1\<rparr>" cn received] Cons(2-4) c False
        by (auto simp: console_rx_observer_def split: prod.splits)
    qed
  qed
qed simp

section \<open>Output as a list of bytes\<close>

text \<open>What has been sent and what is still queued, in order.\<close>

definition tx_stream :: "'u con \<Rightarrow> bytes" where
  "tx_stream s = pr_out (co_pr s) @ rb_contents (co_tx s)"

lemma tx_service_stream:
  assumes "rb_wf (co_tx s)"
  shows "tx_stream (uarths_tx_service e s) = tx_stream s \<and> rb_wf (co_tx (uarths_tx_service e s))"
proof -
  obtain bs r where t: "take_upto ringbuffer_pop (co_room s) (co_tx s) = (bs, r)"
    by (cases "take_upto ringbuffer_pop (co_room s) (co_tx s)")
  then show ?thesis
    using rbq.take_upto_correct [OF assms, of "co_room s"]
    by (simp add: uarths_tx_service_def tx_stream_def put_out_def Let_def)
qed

text \<open>The rounds that \<open>consolewrite\<close> allows are enough: more of them never change the result.\<close>

lemma consolewrite_rounds:
  "n - dn < k \<Longrightarrow> n - dn < j \<Longrightarrow> consolewrite_loop k e c p src n dn s = consolewrite_loop j e c p src n dn s"
proof (induction k arbitrary: j dn s)
  case (Suc k)
  obtain j' where j: "j = Suc j'" using Suc.prems(2) by (cases j) auto
  have "consolewrite_loop k e c p src n (dn + min (n - dn) 128) s1 = consolewrite_loop j' e c p src n (dn + min (n - dn) 128) s1"
    if "dn < n" for s1
    using that Suc.prems j by (intro Suc.IH) auto
  then show ?case unfolding j by (simp add: Let_def split: option.split prod.split uwrite.split)
qed simp

lemma uarths_write_stream:
  assumes "rb_wf (co_tx s)" "uarths_write_loop e c p bs i s = (w, s')"
  shows "rb_wf (co_tx s') \<and> (\<exists>k \<le> length bs. tx_stream s' = tx_stream s @ take k bs \<and>
    (w = WRet (int (i + length bs)) \<and> k = length bs \<or> w = WWait (i + k) \<or> w = WRet (if 0 < i + k then int (i + k) else -1)))"
  using assms
proof (induction bs arbitrary: i s)
  case (Cons b bs)
  show ?case
  proof (cases "ringbuffer_full (co_tx s)")
    case True
    with Cons(2,3) show ?thesis
      by (auto simp: sleep_on_def tx_stream_def intro!: exI [of _ 0] split: if_splits)
  next
    case False
    let ?s1 = "s\<lparr>co_tx := snd (ringbuffer_push (co_tx s) b)\<rparr>"
    have room: "length (rb_contents (co_tx s)) < unat (rb_capacity (co_tx s))"
      using False rb_full_iff [OF Cons(2)] rb_len_bound [OF Cons(2)] by simp
    have st: "tx_stream ?s1 = tx_stream s @ [b]" "rb_wf (co_tx ?s1)"
      using rbq.push_room [OF Cons(2) room, of b] by (simp_all add: tx_stream_def)
    note tx = tx_service_stream [OF st(2), of e]
    from Cons(1) [OF conjunct2 [OF tx], of "i + 1"] Cons(3) False
    obtain k where "rb_wf (co_tx s')" "k \<le> length bs" "tx_stream s' = tx_stream s @ b # take k bs"
      "w = WRet (int (i + 1 + length bs)) \<and> k = length bs \<or> w = WWait (i + 1 + k) \<or> w = WRet (if 0 < i + 1 + k then int (i + 1 + k) else -1)"
      using st(1) tx by auto
    then show ?thesis by (intro conjI exI [of _ "Suc k"]) auto
  qed
qed simp

section \<open>Cooked input\<close>

text \<open>The characters that the bytes typed stand for.\<close>

definition cook1 :: "bool \<Rightarrow> u8 \<Rightarrow> cons \<Rightarrow> u8 option \<times> cons" where
  "cook1 qemu c cn = (if c = 16 \<or> c = 0 then (None, cn) else let (d, cn1) = tty_cook qemu c cn in (map_option fst d, cn1))"

fun cooked :: "bool \<Rightarrow> cons \<Rightarrow> bytes \<Rightarrow> bytes" where
  "cooked qemu cn [] = []"
| "cooked qemu cn (c # cs) =
     (case cook1 qemu c cn of (None, cn1) \<Rightarrow> cooked qemu cn1 cs | (Some d, cn1) \<Rightarrow> d # cooked qemu cn1 cs)"

lemma cook1_mode: "cn_mode (snd (cook1 qemu c cn)) = cn_mode cn"
  by (simp add: cook1_def tty_cook_def Let_def split: prod.split)

lemma tty_char_cooks:
  assumes "cn_mode (co_cons s) = CONSOLE_MODE_TTY" "pr_ready (co_pr s)" "cook1 (ce_qemu e) c (co_cons s) = (d, cn1)"
  shows "\<exists>pr. console_tty_char e c s = Ok (d, s\<lparr>co_cons := cn1, co_pr := pr\<rparr>) \<and> pr_ready pr"
proof (cases "c = 16 \<or> c = 0")
  case True
  then show ?thesis
    using assms procdump_listing [OF assms(2), of "co_s s"]
    by (cases s) (auto simp: console_tty_char_def cook1_def)
next
  case False
  obtain d2 where "tty_cook (ce_qemu e) c (co_cons s) = (d2, cn1)" "d = map_option fst d2"
    using assms(3) False by (auto simp: cook1_def Let_def split: prod.splits)
  with False assms(1,2) show ?thesis
    by (cases d2; cases s) (auto simp: console_tty_char_def consputc_def put_out_def Let_def)
qed

fun deliver :: "(u64 \<Rightarrow> bytes \<Rightarrow> 'u \<Rightarrow> 'u) \<Rightarrow> u64 \<Rightarrow> nat \<Rightarrow> bytes \<Rightarrow> 'u \<Rightarrow> 'u" where
  "deliver f dst k [] u = u"
| "deliver f dst k (d # ds) u = deliver f dst (Suc k) ds (f (dst + of_nat k) [d] u)"

text \<open>
  How a read of the terminal may end, when it has taken \<open>pre\<close> and left \<open>rest\<close> of the input, delivered \<open>ds\<close>, and has
  \<open>k\<close> characters in all: the line or the buffer is complete; control-D was typed; or the input is used up and the process sleeps or is interrupted.
\<close>

definition tty_outcome :: "bytes \<Rightarrow> bytes \<Rightarrow> bytes \<Rightarrow> nat \<Rightarrow> int \<Rightarrow> cread \<Rightarrow> bool \<Rightarrow> bool" where
  "tty_outcome chars ds rest k n r eof \<longleftrightarrow>
     r = CRet (int k) \<and> chars = ds \<and> (int k = n \<or> ds \<noteq> [] \<and> List.last ds = 10) \<or>
     r = CRet (int k) \<and> chars = ds @ [4] \<and> 10 \<notin> set ds \<and> (0 < k \<longrightarrow> eof) \<or>
     rest = [] \<and> chars = ds \<and> 10 \<notin> set ds \<and> (r = CWait k \<or> r = CRet (if 0 < k then int k else -1))"

definition tty_read_post :: "'u conenv \<Rightarrow> (u64 \<Rightarrow> bytes \<Rightarrow> 'u \<Rightarrow> 'u) \<Rightarrow> u64 \<Rightarrow> int \<Rightarrow> nat \<Rightarrow> 'u con \<Rightarrow> cread \<Rightarrow> 'u con \<Rightarrow> bool" where
  "tty_read_post e f dst n dn s r s' \<longleftrightarrow> (\<exists>pre rest ds.
     rb_contents (ux_ring (co_rx s)) = pre @ rest \<and> rb_contents (ux_ring (co_rx s')) = rest \<and> rb_wf (ux_ring (co_rx s')) \<and>
     co_u s' = deliver f dst dn ds (co_u s) \<and> int (dn + length ds) \<le> n \<and> 10 \<notin> set (butlast ds) \<and> 4 \<notin> set ds \<and>
     tty_outcome (cooked (ce_qemu e) (co_cons s) pre) ds rest (dn + length ds) n r (cn_eof_pending (co_cons s')))"

lemma tty_read_post_now:
  "rb_wf (ux_ring (co_rx s')) \<Longrightarrow> rb_contents (ux_ring (co_rx s')) = rb_contents (ux_ring (co_rx s)) \<Longrightarrow> co_u s' = co_u s \<Longrightarrow>
   int dn \<le> n \<Longrightarrow> tty_outcome [] [] (rb_contents (ux_ring (co_rx s))) dn n r (cn_eof_pending (co_cons s')) \<Longrightarrow>
   tty_read_post e f dst n dn s r s'"
  unfolding tty_read_post_def
  by (rule exI [of _ "[]"], rule exI [of _ "rb_contents (ux_ring (co_rx s))"], rule exI [of _ "[]"]) simp

text \<open>A step of the loop that takes one byte.\<close>

lemma tty_read_post_skip:
  assumes "rb_contents (ux_ring (co_rx s)) = c # cs" "rb_contents (ux_ring (co_rx s1)) = cs"
    "cook1 (ce_qemu e) c (co_cons s) = (None, co_cons s1)" "co_u s1 = co_u s" "tty_read_post e f dst n dn s1 r s'"
  shows "tty_read_post e f dst n dn s r s'"
proof -
  obtain pre rest ds where *: "cs = pre @ rest" "rb_contents (ux_ring (co_rx s')) = rest" "rb_wf (ux_ring (co_rx s'))"
      "co_u s' = deliver f dst dn ds (co_u s)" "int (dn + length ds) \<le> n" "10 \<notin> set (butlast ds)" "4 \<notin> set ds"
      "tty_outcome (cooked (ce_qemu e) (co_cons s1) pre) ds rest (dn + length ds) n r (cn_eof_pending (co_cons s'))"
    using assms(2,4,5) unfolding tty_read_post_def by auto
  then show ?thesis
    unfolding tty_read_post_def using assms(1,3) by (intro exI [of _ "c # pre"] exI [of _ rest] exI [of _ ds]) simp
qed

lemma tty_read_post_char:
  assumes "rb_contents (ux_ring (co_rx s)) = c # cs" "rb_contents (ux_ring (co_rx s1)) = cs"
    "cook1 (ce_qemu e) c (co_cons s) = (Some d, co_cons s1)" "co_u s1 = f (dst + of_nat dn) [d] (co_u s)"
    "d \<noteq> 4" "d \<noteq> 10" "tty_read_post e f dst n (Suc dn) s1 r s'"
  shows "tty_read_post e f dst n dn s r s'"
proof -
  obtain pre rest ds where *: "cs = pre @ rest" "rb_contents (ux_ring (co_rx s')) = rest" "rb_wf (ux_ring (co_rx s'))"
      "co_u s' = deliver f dst (Suc dn) ds (co_u s1)" "int (Suc dn + length ds) \<le> n" "10 \<notin> set (butlast ds)" "4 \<notin> set ds"
      "tty_outcome (cooked (ce_qemu e) (co_cons s1) pre) ds rest (Suc dn + length ds) n r (cn_eof_pending (co_cons s'))"
    using assms(2,7) unfolding tty_read_post_def by auto
  have "tty_outcome (cooked (ce_qemu e) (co_cons s) (c # pre)) (d # ds) rest (dn + length (d # ds)) n r (cn_eof_pending (co_cons s'))"
    using *(8) assms(3,6) unfolding tty_outcome_def by auto
  then show ?thesis
    unfolding tty_read_post_def using * assms(1,4,5,6) by (intro exI [of _ "c # pre"] exI [of _ rest] exI [of _ "d # ds"]) auto
qed

lemma read_one:
  assumes "rb_wf (ux_ring (co_rx s))" "rb_contents (ux_ring (co_rx s)) = x # xs"
  shows "\<exists>r. uarths_read e c i 1 s = (UGot [x], s\<lparr>co_rx := (co_rx s)\<lparr>ux_ring := r\<rparr>\<rparr>) \<and> rb_wf r \<and> rb_contents r = xs"
  using assms rbq.take_upto_correct [OF assms(1), of 1]
  by (cases "take_upto ringbuffer_pop 1 (ux_ring (co_rx s))")
     (auto simp: uarths_read_def uarths_read_try_def ring_empty_iff simp del: take_upto.simps)

lemma tty_loop_step:
  assumes "int dn < n" "rb_wf (ux_ring (co_rx s))" "rb_contents (ux_ring (co_rx s)) = x # xs"
    "cn_mode (co_cons s) = CONSOLE_MODE_TTY" "pr_ready (co_pr s)" "\<And>a bs u. ce_copyout e a bs u = (0, f a bs u)"
    "cook1 (ce_qemu e) x (co_cons s) = (d, cn1)"
  shows "\<exists>rg pr. rb_wf rg \<and> rb_contents rg = xs \<and> pr_ready pr \<and>
    (let s1 = s\<lparr>co_rx := (co_rx s)\<lparr>ux_ring := rg\<rparr>, co_cons := cn1, co_pr := pr\<rparr> in
     tty_loop (Suc k) e c i dst n dn s =
       (case d of
          None \<Rightarrow> tty_loop k e c i dst n dn s1
        | Some ch \<Rightarrow>
            if ch = 4 then Ok (CRet (int dn), if 0 < dn then s1\<lparr>co_cons := cn1\<lparr>cn_eof_pending := True\<rparr>\<rparr> else s1)
            else let s2 = s1\<lparr>co_u := f (dst + of_nat dn) [ch] (co_u s)\<rparr>
                 in if ch = 10 then Ok (CRet (int (Suc dn)), s2) else tty_loop k e c i dst n (Suc dn) s2))"
proof -
  obtain rg where rg: "uarths_read e c i 1 s = (UGot [x], s\<lparr>co_rx := (co_rx s)\<lparr>ux_ring := rg\<rparr>\<rparr>)" "rb_wf rg" "rb_contents rg = xs"
    using read_one [OF assms(2,3)] by blast
  let ?s1 = "s\<lparr>co_rx := (co_rx s)\<lparr>ux_ring := rg\<rparr>\<rparr>"
  obtain pr where pr: "console_tty_char e x ?s1 = Ok (d, ?s1\<lparr>co_cons := cn1, co_pr := pr\<rparr>)" "pr_ready pr"
    using tty_char_cooks [of ?s1 e x d cn1] assms(4,5,7) by auto
  show ?thesis
    using rg pr assms(1,6)
    by (intro exI [of _ rg] exI [of _ pr]) (simp add: tty_take_def Let_def split: option.split)
qed

lemma tty_read_post_end:
  assumes "rb_contents (ux_ring (co_rx s)) = c # cs" "rb_contents (ux_ring (co_rx s')) = cs" "rb_wf (ux_ring (co_rx s'))"
    "cook1 (ce_qemu e) c (co_cons s) = (Some ch, cn1)" "int dn < n"
    "ch = 4 \<and> co_u s' = co_u s \<and> r = CRet (int dn) \<and> (0 < dn \<longrightarrow> cn_eof_pending (co_cons s')) \<or>
     ch = 10 \<and> co_u s' = f (dst + of_nat dn) [ch] (co_u s) \<and> r = CRet (int (Suc dn))"
  shows "tty_read_post e f dst n dn s r s'"
  unfolding tty_read_post_def
  by (rule exI [of _ "[c]"], rule exI [of _ cs], rule exI [of _ "if ch = 4 then [] else [ch]"])
     (use assms in \<open>auto simp: tty_outcome_def\<close>)

lemma tty_loop_correct:
  assumes "rb_wf (ux_ring (co_rx s))" "length (rb_contents (ux_ring (co_rx s))) < k" "cn_mode (co_cons s) = CONSOLE_MODE_TTY"
    "pr_ready (co_pr s)" "int dn \<le> n" and out: "\<And>a bs u. ce_copyout e a bs u = (0, f a bs u)"
  shows "\<exists>r s'. tty_loop k e c i dst n dn s = Ok (r, s') \<and> tty_read_post e f dst n dn s r s'"
  using assms(1-5)
proof (induction k arbitrary: dn s)
  case (Suc k)
  show ?case
  proof (cases "int dn < n")
    case False
    with Suc show ?thesis by (auto intro!: tty_read_post_now simp: tty_outcome_def)
  next
    case less: True
    show ?thesis
    proof (cases "rb_contents (ux_ring (co_rx s))")
      case Nil
      then show ?thesis
        using Suc less by (auto simp: uarths_read_def uarths_read_try_def ring_empty_iff sleep_on_def
            intro!: tty_read_post_now split: prod.split if_splits) (auto simp: tty_outcome_def)
    next
      case (Cons x xs)
      obtain d cn1 where ck: "cook1 (ce_qemu e) x (co_cons s) = (d, cn1)" by (cases "cook1 (ce_qemu e) x (co_cons s)")
      obtain rg pr where rg: "rb_wf rg" "rb_contents rg = xs" "pr_ready pr"
        and step: "let s1 = s\<lparr>co_rx := (co_rx s)\<lparr>ux_ring := rg\<rparr>, co_cons := cn1, co_pr := pr\<rparr> in
         tty_loop (Suc k) e c i dst n dn s =
           (case d of
              None \<Rightarrow> tty_loop k e c i dst n dn s1
            | Some ch \<Rightarrow>
                if ch = 4 then Ok (CRet (int dn), if 0 < dn then s1\<lparr>co_cons := cn1\<lparr>cn_eof_pending := True\<rparr>\<rparr> else s1)
                else let s2 = s1\<lparr>co_u := f (dst + of_nat dn) [ch] (co_u s)\<rparr>
                     in if ch = 10 then Ok (CRet (int (Suc dn)), s2) else tty_loop k e c i dst n (Suc dn) s2)"
        using tty_loop_step [OF less Suc.prems(1) Cons Suc.prems(3,4) out ck] by blast
      have mode: "cn_mode cn1 = CONSOLE_MODE_TTY" using cook1_mode [of "ce_qemu e" x "co_cons s"] ck Suc.prems(3) by simp
      let ?s1 = "s\<lparr>co_rx := (co_rx s)\<lparr>ux_ring := rg\<rparr>, co_cons := cn1, co_pr := pr\<rparr>"
      have len: "length (rb_contents rg) < k" using Suc.prems(2) Cons rg(2) by simp
      show ?thesis
      proof (cases d)
        case None
        then obtain r s' where "tty_loop k e c i dst n dn ?s1 = Ok (r, s')" "tty_read_post e f dst n dn ?s1 r s'"
          using Suc.IH [of ?s1 dn] Suc.prems(5) rg(1,3) mode len by auto
        moreover from tty_read_post_skip [OF Cons _ _ _ this(2)] have "tty_read_post e f dst n dn s r s'"
          using rg(2) ck None by simp
        ultimately show ?thesis using step None by (simp del: tty_loop.simps)
      next
        case (Some ch)
        let ?s2 = "?s1\<lparr>co_u := f (dst + of_nat dn) [ch] (co_u s)\<rparr>"
        show ?thesis
        proof (cases "ch = 4 \<or> ch = 10")
          case True
          then show ?thesis
            using step Some rg less ck by (auto simp: Let_def simp del: tty_loop.simps intro!: tty_read_post_end [OF Cons])
        next
          case False
          then obtain r s' where "tty_loop k e c i dst n (Suc dn) ?s2 = Ok (r, s')" "tty_read_post e f dst n (Suc dn) ?s2 r s'"
            using Suc.IH [of ?s2 "Suc dn"] less rg(1,3) mode len by auto
          moreover from tty_read_post_char [OF Cons _ _ _ _ _ this(2)] have "tty_read_post e f dst n dn s r s'"
            using rg(2) ck Some False by simp
          ultimately show ?thesis using step Some False by (simp del: tty_loop.simps)
        qed
      qed
    qed
  qed
qed simp

section \<open>Properties\<close>


definition demo_ring :: "bytes \<Rightarrow> ringbuffer" where
  "demo_ring bs = \<lparr>rb_buf = bs @ [0], rb_capacity = of_nat (length bs), rb_head = 0, rb_tail = of_nat (length bs)\<rparr>"

definition demo_cons :: cons where
  "demo_cons = \<lparr>cn_mode = CONSOLE_MODE_TTY, cn_esc = 0, cn_drop_lf_after_cr = False, cn_eof_pending = False,
     cn_foreground_pgid = 4, cn_foreground_owner_pgid = 1, cn_tty_events = 0\<rparr>"

definition demo_con :: "bytes con" where
  "demo_con = \<lparr>co_cons = demo_cons,
     co_rx = \<lparr>ux_ring = demo_ring (cbytes ''ls'' @ [13, 0x78]), ux_dropped = 0, ux_epoch = 0\<rparr>,
     co_tx = demo_ring [], co_fifo = [0x71, 3], co_room = 8, co_baud = 115200, co_div = 0,
     co_pr = \<lparr>pr_locking = True, pr_held = False, pr_panicked = False, pr_out = []\<rparr>, co_s = sched_boot, co_u = []\<rparr>"

definition demo_conenv :: "bytes conenv" where
  "demo_conenv = \<lparr>ce_qemu = False, ce_freq = 390000000, ce_rxchan = 1, ce_txchan = 2,
     ce_copyout = (\<lambda>a bs u. (0, u @ bs)), ce_copyin = (\<lambda>a n u. None)\<rparr>"

lemma demo_con_ring: "rb_wf (ux_ring (co_rx demo_con))" "rb_contents (ux_ring (co_rx demo_con)) = cbytes ''ls'' @ [13, 0x78]"
  by (simp_all add: demo_con_def demo_ring_def rb_wf_def rb_slots_def cbytes_def rb_contents_def rb_len_def upt_conv_Cons)


text \<open>
  C38: Control-C typed while a foreground group is set never reaches a reader and interrupts that group: once the interrupt has been
  served and the events dispatched, the queue has gained the other bytes as far as they fit, the terminal shows \<^verbatim>\<open>^C\<close>, and exactly the live processes
  of the group have been sent \<^verbatim>\<open>SIGINT\<close>, which is pending for each that does not ignore it.
\<close>

theorem ctrl_c_interrupts_group:
  fixes s :: "'u con" and e :: "'u conenv"
  assumes "rb_wf (ux_ring (co_rx s))" and "cn_mode (co_cons s) = CONSOLE_MODE_TTY" and "0 < cn_foreground_pgid (co_cons s)"
    and "3 \<in> set (co_fifo s)"
  defines "s1 \<equiv> uarths_rx_service e s" and "g \<equiv> cn_foreground_pgid (co_cons s)"
  defines "s2 \<equiv> console_dispatch_events s1"
  shows "rb_contents (ux_ring (co_rx s2)) = rb_contents (ux_ring (co_rx s)) @
      take (unat (rb_capacity (ux_ring (co_rx s))) - length (rb_contents (ux_ring (co_rx s)))) (filter (\<lambda>c. c \<noteq> 3) (co_fifo s)) \<and>
    pr_out (co_pr s2) = pr_out (co_pr s) @ cbytes ''^C'' @ [10] \<and> cn_tty_events (co_cons s2) = 0 \<and> co_fifo s2 = [] \<and>
    sd_procs (co_s s2) = map (\<lambda>p. if p_state p \<noteq> UNUSED \<and> p_pgid p = g then signal_mark_locked p SIGINT else p) (sd_procs (co_s s1)) \<and>
    (\<forall>p \<in> set (sd_procs (co_s s1)). \<not> sig_ignored (p_sig_handlers p ! 2) SIGINT \<longrightarrow> bit (p_sig_pending (signal_mark_locked p SIGINT)) 2)"
proof -
  obtain rc cn u where l: "rx_loop (co_fifo s) False (co_cons s) (co_rx s) = (rc, cn, u)" by (cases "rx_loop (co_fifo s) False (co_cons s) (co_rx s)")
  have r: "rb_contents (ux_ring u) = rb_contents (ux_ring (co_rx s)) @
      take (unat (rb_capacity (ux_ring (co_rx s))) - length (rb_contents (ux_ring (co_rx s)))) (filter (\<lambda>c. c \<noteq> 3) (co_fifo s))"
    "cn = (co_cons s)\<lparr>cn_tty_events := cn_tty_events (co_cons s) OR TTY_EVENT_SIGINT\<rparr>"
    using rx_loop_correct [OF assms(1-3), of "co_fifo s" False] assms(4) l by auto
  have s1: "co_cons s1 = cn" "co_rx s1 = u" "co_pr s1 = co_pr s" "co_fifo s1 = []"
    by (simp_all add: s1_def uarths_rx_service_def l Let_def)
  have ev: "(cn_tty_events (co_cons s) OR 1) AND 1 \<noteq> 0"
  proof
    assume "(cn_tty_events (co_cons s) OR 1) AND 1 = 0"
    then have "bit ((cn_tty_events (co_cons s) OR 1) AND 1) 0 = False" by simp
    then show False by (simp add: bit_simps)
  qed
  have pend: "bit (p_sig_pending (signal_mark_locked p SIGINT)) 2" if "\<not> sig_ignored (p_sig_handlers p ! 2) SIGINT" for p
    using that by (simp add: signal_mark_locked_def signal_bit_def Let_def bit_simps)
  show ?thesis
    using ev assms(3) pend
    by (simp add: s2_def console_dispatch_events_def s1 r(2) g_def consputc_def put_out_def signal_send_pgrp_def signal_valid_def
        Let_def cbytes_def)
       (simp add: r(1))
qed

theorem ctrl_c_interrupts_group_witness:
  "rb_contents (ux_ring (co_rx (console_dispatch_events (uarths_rx_service demo_conenv demo_con)))) = cbytes ''ls'' @ [13, 0x78] \<and>
   pr_out (co_pr (console_dispatch_events (uarths_rx_service demo_conenv demo_con))) = cbytes ''^C'' @ [10]"
proof -
  have c: "cn_mode (co_cons demo_con) = CONSOLE_MODE_TTY" "0 < cn_foreground_pgid (co_cons demo_con)" "3 \<in> set (co_fifo demo_con)"
    "rb_capacity (ux_ring (co_rx demo_con)) = 4" "pr_out (co_pr demo_con) = []" "length (cbytes ''ls'') = 2"
    by (simp_all add: demo_con_def demo_cons_def demo_ring_def cbytes_def)
  show ?thesis
    using ctrl_c_interrupts_group [OF demo_con_ring(1) c(1-3), of demo_conenv]
    unfolding demo_con_ring(2) c(4,5) by (simp add: c(6))
qed

end
