(* ===== verification/Trap.thy ===== *)
theory Trap
  imports Syscall Console
begin

text \<open>
  Traps: \<^verbatim>\<open>kernel/trap/trap.c\<close> and the registry of interrupts in \<^verbatim>\<open>kernel/trap/irq.c\<close>, composed from system calls, page faults,
  signals, the scheduler and the console.

  The registers that the hardware sets on a trap are the argument \<open>csr\<close>. A process leaves \<^verbatim>\<open>usertrap\<close> in one of the ways of \<open>trapret\<close>: back
  to user mode with the registers of \<^verbatim>\<open>sret\<close>, by exiting, asleep inside a system call, or having yielded; after the last two it continues with
  \<open>usertrap_tail\<close> and \<open>usertrap_finish\<close> when it runs again. The number that the interrupt controller hands out on a claim, and the handlers
  of the drivers, are parameters. Timer programming and the acknowledgements to controller and firmware only write registers and are left out.
\<close>

section \<open>State\<close>

record csr =
  r_scause :: u64
  r_stval :: u64
  r_sepc :: u64
  r_sstatus :: u64
  r_satp :: u64
  r_tp :: u64

record uregs =
  w_sstatus :: u64
  w_sepc :: u64
  w_satp :: u64

datatype trapret = ToUser uregs | Gone | Asleep | Yielded

record ('w, 'u) tst =
  ts_m :: "'w mach"
  ts_con :: "'u con"

record ('w, 'u) tenv =
  te_p :: "'w penv"
  te_table :: "nat \<Rightarrow> 'w handler option"
  te_chan :: u64
  te_usertrap :: u64
  te_claim :: int
  te_actions :: "nat \<Rightarrow> (('w, 'u) tst \<Rightarrow> ('w, 'u) tst res) option"

abbreviation (input) tcur :: "('w, 'u) tst \<Rightarrow> nat \<Rightarrow> proc" where "tcur s i \<equiv> cur (ts_m s) i"

definition on_mach :: "('w mach \<Rightarrow> 'w mach res) \<Rightarrow> ('w, 'u) tst \<Rightarrow> ('w, 'u) tst res" where
  "on_mach g s = rmap (\<lambda>m. s\<lparr>ts_m := m\<rparr>) (g (ts_m s))"

definition on_sched :: "(sched \<Rightarrow> sched) \<Rightarrow> ('w, 'u) tst \<Rightarrow> ('w, 'u) tst" where
  "on_sched g s = s\<lparr>ts_m := (ts_m s)\<lparr>mc_s := (mc_s (ts_m s))\<lparr>pl_s := g (pl_s (mc_s (ts_m s)))\<rparr>\<rparr>\<rparr>"

definition tset :: "nat \<Rightarrow> (proc \<Rightarrow> proc) \<Rightarrow> ('w, 'u) tst \<Rightarrow> ('w, 'u) tst" where
  "tset i f = on_sched (\<lambda>sd. set_proc sd i f)"

text \<open>The console works on the same processes and the same terminal.\<close>

definition on_con :: "('u con \<Rightarrow> 'u con) \<Rightarrow> ('w, 'u) tst \<Rightarrow> ('w, 'u) tst" where
  "on_con g s =
     (let c = g ((ts_con s)\<lparr>co_s := pl_s (mc_s (ts_m s)), co_pr := mc_pr (ts_m s)\<rparr>)
      in s\<lparr>ts_con := c, ts_m := (ts_m s)\<lparr>mc_s := (mc_s (ts_m s))\<lparr>pl_s := co_s c\<rparr>, mc_pr := co_pr c\<rparr>\<rparr>)"

section \<open>Interrupts\<close>

abbreviation (input) MAXIRQ :: int where "MAXIRQ \<equiv> 64"

text \<open>The registers of the controller that the registry writes: priorities, and the enable words of each hart.\<close>

record 'h irqs =
  iq_actions :: "nat \<Rightarrow> 'h option"
  iq_priority :: "nat \<Rightarrow> u32"
  iq_enable :: "nat \<Rightarrow> nat \<Rightarrow> u32"

definition irq_enable_hart :: "nat \<Rightarrow> 'h irqs \<Rightarrow> 'h irqs" where
  "irq_enable_hart irq s =
     s\<lparr>iq_enable := fold (\<lambda>cpu_id en. en(cpu_id := (en cpu_id)(irq div 32 := en cpu_id (irq div 32) OR push_bit (irq mod 32) 1)))
        [0..<NCPU] (iq_enable s)\<rparr>"

definition irq_set_priority :: "int \<Rightarrow> int \<Rightarrow> 'h irqs \<Rightarrow> 'h irqs res" where
  "irq_set_priority irq priority s =
     (if irq < 0 \<or> MAXIRQ \<le> irq \<or> priority < 0 then Panic ''irq_set_priority: bad argument''
      else Ok (s\<lparr>iq_priority := (iq_priority s)(nat irq := word_of_int priority)\<rparr>))"

definition irq_register :: "int \<Rightarrow> 'h \<Rightarrow> 'h irqs \<Rightarrow> 'h irqs res" where
  "irq_register irq h s =
     (if irq < 0 \<or> MAXIRQ \<le> irq then Panic ''irq_register: bad irq''
      else rmap (irq_enable_hart (nat irq))
             (irq_set_priority irq 1 (s\<lparr>iq_actions := (iq_actions s)(nat irq \<mapsto> h)\<rparr>)))"

definition irq_dispatch :: "(nat \<Rightarrow> (('w, 'u) tst \<Rightarrow> ('w, 'u) tst res) option) \<Rightarrow> int \<Rightarrow> ('w, 'u) tst \<Rightarrow> ('w, 'u) tst res" where
  "irq_dispatch actions irq s =
     (case (if 0 < irq \<and> irq < MAXIRQ then actions (nat irq) else None) of
        Some h \<Rightarrow> h s
      | None \<Rightarrow> if irq \<noteq> 0 then on_mach (pf (''unexpected interrupt irq=%d'' @ [CHR 0x0A]) [Word (word_of_int irq)]) s else Ok s)"

definition clockintr :: "u64 \<Rightarrow> ('w, 'u) tst \<Rightarrow> ('w, 'u) tst" where
  "clockintr chan s = on_sched (\<lambda>sd. wakeup_reason (sd\<lparr>sd_ticks := sd_ticks sd + 1\<rparr>) chan WAKEUP_TIMER) s"

definition devintr :: "('w, 'u) tenv \<Rightarrow> csr \<Rightarrow> ('w, 'u) tst \<Rightarrow> (int \<times> ('w, 'u) tst) res" where
  "devintr t r s =
     (let scause = r_scause r;
          external = (if pe_qemu (te_p t) then 0x8000000000000000 AND scause \<noteq> 0 \<and> scause AND 0xFF = 9
                      else scause = 0x8000000000000001 \<and> r_stval r = 9)
      in if external then rmap (Pair 1) (irq_dispatch (te_actions t) (te_claim t) s)
         else if scause = 0x8000000000000005 then Ok (2, clockintr (te_chan t) s)
         else Ok (0, s))"

section \<open>Traps from user mode\<close>

definition usertrapret :: "('w, 'u) tenv \<Rightarrow> csr \<Rightarrow> nat \<Rightarrow> ('w, 'u) tst \<Rightarrow> trapret \<times> ('w, 'u) tst" where
  "usertrapret t r i s =
     (let s1 = tset i (\<lambda>p. p\<lparr>p_trapframe := (p_trapframe p)\<lparr>kernel_satp := r_satp r, kernel_sp := p_kstack p + PGSIZE,
                 kernel_trap := te_usertrap t, kernel_hartid := r_tp r\<rparr>\<rparr>) s;
          x = (r_sstatus r AND NOT 0x100) OR 0x20;
          p = tcur s1 i
      in (ToUser \<lparr>w_sstatus = x, w_sepc = tf_epc (p_trapframe p), w_satp = 0x8000000000000000 OR drop_bit 12 (p_pagetable p)\<rparr>, s1))"

definition trap_exit :: "('w, 'u) tenv \<Rightarrow> nat \<Rightarrow> nat \<Rightarrow> ('w, 'u) tst \<Rightarrow> (trapret \<times> ('w, 'u) tst) res" where
  "trap_exit t c i s =
     rmap (\<lambda>k. (Gone, s\<lparr>ts_m := (ts_m s)\<lparr>mc_s := k\<rparr>\<rparr>)) (exit (te_p t) c i (signal_exit_status (tcur s i)) (mc_s (ts_m s)))"

definition usertrap_finish :: "('w, 'u) tenv \<Rightarrow> csr \<Rightarrow> nat \<Rightarrow> nat \<Rightarrow> ('w, 'u) tst \<Rightarrow> (trapret \<times> ('w, 'u) tst) res" where
  "usertrap_finish t r c i s =
     (let s1 = tset i (signal_deliver (pe_k (te_p t)) (mm_k (pl_m (mc_s (ts_m s))))) s
      in if p_killed (tcur s1 i) then trap_exit t c i s1 else Ok (usertrapret t r i s1))"

definition usertrap_tail :: "('w, 'u) tenv \<Rightarrow> csr \<Rightarrow> int \<Rightarrow> nat \<Rightarrow> nat \<Rightarrow> ('w, 'u) tst \<Rightarrow> (trapret \<times> ('w, 'u) tst) res" where
  "usertrap_tail t r which_dev c i s =
     (let s1 = on_con console_dispatch_events s; sd = pl_s (mc_s (ts_m s1))
      in if p_state (tcur s1 i) = RUNNING \<and> (which_dev = 2 \<or> c_need_resched (sd_cpus sd ! c))
         then Ok (Yielded, on_sched (\<lambda>sd. yield sd c i) s1)
         else usertrap_finish t r c i s1)"

definition usertrap :: "('w, 'u) tenv \<Rightarrow> csr \<Rightarrow> nat \<Rightarrow> nat \<Rightarrow> ('w, 'u) tst \<Rightarrow> (trapret \<times> ('w, 'u) tst) res" where
  "usertrap t r c i s =
     (if r_sstatus r AND 0x100 \<noteq> 0 then Panic ''usertrap: not from user mode''
      else
        let s1 = tset i (\<lambda>p. p\<lparr>p_trapframe := (p_trapframe p)\<lparr>tf_epc := r_sepc r\<rparr>\<rparr>) s
        in if r_scause r = 8 then
             if p_killed (tcur s1 i) then trap_exit t c i s1
             else
               let s2 = tset i (\<lambda>p. p\<lparr>p_trapframe := (p_trapframe p)\<lparr>tf_epc := tf_epc (p_trapframe p) + 4\<rparr>\<rparr>) s1
               in rbind (syscall (te_table t) (te_p t) c i (ts_m s2)) (\<lambda>(ret, m).
                    let s3 = s2\<lparr>ts_m := m\<rparr>
                    in case ret of Ret v \<Rightarrow> usertrap_tail t r 0 c i s3 | Sleeping \<Rightarrow> Ok (Asleep, s3) | Exited \<Rightarrow> Ok (Gone, s3))
           else rbind (devintr t r s1) (\<lambda>(which_dev, s2).
             if which_dev \<noteq> 0 then usertrap_tail t r which_dev c i s2
             else case trap_fault_access (r_scause r) of
                    Some access \<Rightarrow>
                      rbind (vm_resolve_fault (pe_k (te_p t)) (pfe (te_p t)) (Some (tcur s2 i)) (p_pagetable (tcur s2 i)) (r_stval r) access
                               (pl_m (mc_s (ts_m s2)))) (\<lambda>(res, mm).
                        let s3 = s2\<lparr>ts_m := (ts_m s2)\<lparr>mc_s := (mc_s (ts_m s2))\<lparr>pl_m := mm\<rparr>\<rparr>\<rparr>
                        in if res = VM_FAULT_RESOLVED then usertrap_tail t r 0 c i s3
                           else rbind (on_mach (pf (''usertrap(): page fault is illegal pid=%d sepc=%p stval=%p'' @ [CHR 0x0A])
                                    [Word (word_of_int (p_pid (tcur s3 i))), Word (r_sepc r), Word (r_stval r)]) s3) (\<lambda>s4.
                                usertrap_tail t r 0 c i (tset i (\<lambda>p. p\<lparr>p_killed := True\<rparr>) s4)))
                  | None \<Rightarrow>
                      rbind (on_mach (pf (''usertrap(): unexpected scause %p pid=%d'' @ [CHR 0x0A])
                               [Word (r_scause r), Word (word_of_int (p_pid (tcur s2 i)))]) s2) (\<lambda>s3.
                      rbind (on_mach (pf (''            sepc=%p stval=%p'' @ [CHR 0x0A]) [Word (r_sepc r), Word (r_stval r)]) s3) (\<lambda>s4.
                        usertrap_tail t r 0 c i (tset i (\<lambda>p. p\<lparr>p_killed := True\<rparr>) s4)))))"

section \<open>Traps from the kernel\<close>

text \<open>
  \<open>po\<close> is the process on the CPU. The result is the address at which the kernel continues. When a process yields here, what follows runs after the
  switch back and only restores the two registers.
\<close>

definition kerneltrap_end :: "csr \<Rightarrow> u64 \<Rightarrow> int \<Rightarrow> nat \<Rightarrow> nat option \<Rightarrow> ('w, 'u) tst \<Rightarrow> (u64 \<times> u64) \<times> ('w, 'u) tst" where
  "kerneltrap_end r sepc which_dev c po s =
     (let s1 = (case po of None \<Rightarrow> on_con console_dispatch_events s | Some i \<Rightarrow> s);
          s2 = (case po of
                  None \<Rightarrow> s1
                | Some i \<Rightarrow> if p_state (tcur s1 i) = RUNNING \<and> (which_dev = 2 \<or> c_need_resched (sd_cpus (pl_s (mc_s (ts_m s1))) ! c))
                            then on_sched (\<lambda>sd. yield sd c i) s1 else s1)
      in ((sepc, r_sstatus r), s2))"

definition kerneltrap :: "('w, 'u) tenv \<Rightarrow> csr \<Rightarrow> nat \<Rightarrow> nat option \<Rightarrow> ('w, 'u) tst \<Rightarrow> ((u64 \<times> u64) \<times> ('w, 'u) tst) res" where
  "kerneltrap t r c po s =
     (if r_sstatus r AND 0x100 = 0 then Panic ''kerneltrap: not from supervisor mode''
      else if r_sstatus r AND 2 \<noteq> 0 then Panic ''kerneltrap: interrupts enabled''
      else
        let fault = (case trap_fault_access (r_scause r) of
              Some access \<Rightarrow> (case po of
                  Some i \<Rightarrow> if access \<noteq> VM_FAULT_EXEC \<and> p_copy_fault_active (tcur s i) then Some (access, i) else None
                | None \<Rightarrow> None)
            | None \<Rightarrow> None)
        in case fault of
             Some (access, i) \<Rightarrow>
               rbind (vm_resolve_fault (pe_k (te_p t)) (pfe (te_p t)) (Some (tcur s i)) (p_pagetable (tcur s i)) (r_stval r) access
                        (pl_m (mc_s (ts_m s)))) (\<lambda>(res, mm).
                 let s1 = s\<lparr>ts_m := (ts_m s)\<lparr>mc_s := (mc_s (ts_m s))\<lparr>pl_m := mm\<rparr>\<rparr>\<rparr>
                 in Ok (kerneltrap_end r (if res = VM_FAULT_RESOLVED then r_sepc r else p_copy_fault_recovery (tcur s1 i)) 0 c po s1))
           | None \<Rightarrow>
               rbind (devintr t r s) (\<lambda>(which_dev, s1).
                 if which_dev = 0 then
                   rbind (on_mach (pf (''scause %p'' @ [CHR 0x0A]) [Word (r_scause r)]) s1) (\<lambda>s2.
                   rbind (on_mach (pf (''sepc=%p stval=%p'' @ [CHR 0x0A]) [Word (r_sepc r), Word (r_stval r)]) s2) (\<lambda>s3.
                     Panic ''kerneltrap''))
                 else Ok (kerneltrap_end r (r_sepc r) which_dev c po s1)))"

section \<open>Registering interrupts\<close>

text \<open>A registered source is enabled on every hart with a priority above zero, and no other source changes.\<close>

lemma irq_enable_hart_bit:
  assumes "irq < 64" "j < 64" "cpu < NCPU"
  shows "bit (iq_enable (irq_enable_hart irq s) cpu (j div 32)) (j mod 32) \<longleftrightarrow>
    irq = j \<or> bit (iq_enable s cpu (j div 32)) (j mod 32)"
proof -
  have "cpu = 0 \<or> cpu = 1" using assms(3) by auto
  moreover have "irq div 32 = j div 32 \<and> irq mod 32 = j mod 32 \<longleftrightarrow> irq = j" by (metis div_mult_mod_eq)
  ultimately show ?thesis
    by (auto simp: irq_enable_hart_def numeral_2_eq_2 bit_simps)
qed

lemma irq_enable_hart_simps [simp]:
  "iq_actions (irq_enable_hart irq s) = iq_actions s" "iq_priority (irq_enable_hart irq s) = iq_priority s"
  by (simp_all add: irq_enable_hart_def)

lemma irq_register_ok:
  assumes "0 \<le> irq" "irq < MAXIRQ"
  shows "\<exists>s'. irq_register irq h s = Ok s' \<and> iq_actions s' = (iq_actions s)(nat irq \<mapsto> h) \<and> iq_priority s' (nat irq) = 1 \<and>
    (\<forall>j < 64. \<forall>cpu < NCPU. bit (iq_enable s' cpu (j div 32)) (j mod 32) \<longleftrightarrow> nat irq = j \<or> bit (iq_enable s cpu (j div 32)) (j mod 32))"
proof -
  have n: "nat irq < 64" using assms by simp
  show ?thesis
    using assms by (simp add: irq_register_def irq_set_priority_def irq_enable_hart_bit [OF n])
qed

section \<open>The way back to user mode\<close>

lemma tcur_tset: "tcur (tset i f s) i = (if i < length (sd_procs (pl_s (mc_s (ts_m s)))) then f (tcur s i) else tcur s i)"
  by (simp add: tset_def on_sched_def set_proc_def list_update_beyond)

lemma length_tset [simp]: "length (sd_procs (pl_s (mc_s (ts_m (tset i f s))))) = length (sd_procs (pl_s (mc_s (ts_m s))))"
  by (simp add: tset_def on_sched_def set_proc_def)

text \<open>What holds of a process that continues in user mode with the registers \<open>u\<close>.\<close>

definition user_ok :: "nat \<Rightarrow> trapret \<Rightarrow> ('w, 'u) tst \<Rightarrow> bool" where
  "user_ok i rv s \<longleftrightarrow> (case rv of
     ToUser u \<Rightarrow> \<not> p_killed (tcur s i) \<and> (i < length (sd_procs (pl_s (mc_s (ts_m s)))) \<longrightarrow> \<not> bit (p_sig_pending (tcur s i)) 9) \<and>
       w_sstatus u AND 0x100 = 0 \<and> w_sstatus u AND 0x20 \<noteq> 0 \<and>
       w_sepc u = tf_epc (p_trapframe (tcur s i)) \<and> w_satp u = 0x8000000000000000 OR drop_bit 12 (p_pagetable (tcur s i))
   | _ \<Rightarrow> True)"

lemma deliver_kills:
  assumes "\<not> p_killed (signal_deliver k m p)"
  shows "\<not> bit (p_sig_pending (signal_deliver k m p)) 9"
proof (cases "bit (p_sig_pending p) 9")
  case True
  then have d: "bit (sig_deliverable p) 9" by (simp add: sig_deliverable_iff)
  then have "signal_choose (sig_deliverable p) = SIGKILL" by (simp add: choose_kill_iff)
  with d assms show ?thesis by (simp add: signal_deliver_def Let_def)
next
  case False
  then show ?thesis by (simp add: signal_deliver_def Let_def bit_simps)
qed

lemma deliver_nothing: "sig_deliverable p = 0 \<Longrightarrow> signal_deliver k m p = p"
  using first_idx_None [of "\<lambda>signum. (0 :: u32) AND signal_bit (int signum) \<noteq> 0" "[1..<32]"]
  by (simp add: signal_deliver_def signal_choose_def del: first_idx_None)

lemma spp_bits: "bit (0x100 :: u64) n \<longleftrightarrow> n = 8" "bit (0x20 :: u64) n \<longleftrightarrow> n = 5"
  using bit_push_bit_iff [of 8 "1 :: u64" n] bit_push_bit_iff [of 5 "1 :: u64" n] by (auto simp: bit_simps)

lemma sstatus_bits: "((x :: u64) AND NOT 0x100 OR 0x20) AND 0x100 = 0" "(x AND NOT 0x100 OR 0x20) AND 0x20 \<noteq> 0"
proof -
  show "(x AND NOT 0x100 OR 0x20) AND 0x100 = 0"
    by (rule bit_word_eqI) (simp only: bit_and_iff bit_or_iff bit_not_iff spp_bits, auto)
  have "bit ((x AND NOT 0x100 OR 0x20) AND 0x20) 5"
    by (simp only: bit_and_iff bit_or_iff bit_not_iff spp_bits) simp
  then show "(x AND NOT 0x100 OR 0x20) AND 0x20 \<noteq> 0"
  proof (rule contrapos_pn)
    assume z: "(x AND NOT 0x100 OR 0x20) AND 0x20 = 0"
    show "\<not> bit ((x AND NOT 0x100 OR 0x20) AND 0x20) 5" unfolding z by simp
  qed
qed

lemma user_ok_other [simp]: "user_ok i Yielded s" "user_ok i Gone s" "user_ok i Asleep s"
  by (simp_all add: user_ok_def)

lemma exit_user_ok: "res_all (\<lambda>(rv, s'). user_ok i rv s') (trap_exit t c i s)"
  by (cases "exit (te_p t) c i (signal_exit_status (tcur s i)) (mc_s (ts_m s))") (simp_all add: trap_exit_def user_ok_def)

lemma finish_user_ok: "res_all (\<lambda>(rv, s'). user_ok i rv s') (usertrap_finish t r c i s)"
proof -
  let ?s1 = "tset i (signal_deliver (pe_k (te_p t)) (mm_k (pl_m (mc_s (ts_m s))))) s"
  have "user_ok i (fst (usertrapret t r i ?s1)) (snd (usertrapret t r i ?s1))" if "\<not> p_killed (tcur ?s1 i)"
    using that deliver_kills [of "pe_k (te_p t)" "mm_k (pl_m (mc_s (ts_m s)))" "tcur s i"] sstatus_bits [of "r_sstatus r"]
    by (auto simp: usertrapret_def user_ok_def Let_def tcur_tset)
  then show ?thesis by (auto simp: exit_user_ok usertrap_finish_def Let_def split: prod.split)
qed

lemma tail_user_ok: "res_all (\<lambda>(rv, s'). user_ok i rv s') (usertrap_tail t r which_dev c i s)"
  by (simp add: usertrap_tail_def Let_def finish_user_ok)

lemma usertrap_user_ok: "res_all (\<lambda>(rv, s'). user_ok i rv s') (usertrap t r c i s)"
  unfolding usertrap_def Let_def
  by (auto simp: exit_user_ok tail_user_ok simp del: res_all_bind
      intro!: res_all_bindI [of "\<lambda>_. True"] split: sysret.split option.split)

section \<open>Properties\<close>


text \<open>A process that calls \<^verbatim>\<open>getpid\<close>, and faults in a copy when it is in the kernel.\<close>

definition trap_demo :: "('w, 'u) tst \<Rightarrow> ('w, 'u) tst" where
  "trap_demo s = \<lparr>ts_m = (ts_m s)\<lparr>mc_s := (mc_s (ts_m s))\<lparr>pl_s := sched_boot\<lparr>sd_procs :=
     [(signal_proc_init proc_zero)\<lparr>p_pid := 3, p_state := RUNNING, p_trapframe := tf_zero\<lparr>tf_a7 := 11\<rparr>,
        p_copy_fault_active := True, p_copy_fault_recovery := 0x80021000\<rparr>]\<rparr>\<rparr>\<rparr>, ts_con = (ts_con s)\<lparr>co_cons := demo_cons\<rparr>\<rparr>"

definition trap_regs :: csr where
  "trap_regs = \<lparr>r_scause = 8, r_stval = 0, r_sepc = 0x40, r_sstatus = 0, r_satp = 0, r_tp = 0\<rparr>"




end
