(* ===== verification/Exec.thy ===== *)
theory Exec
  imports Syscall
begin

text \<open>
  Program loading: \<^verbatim>\<open>kernel/proc/exec.c\<close>, and the system calls of \<^verbatim>\<open>kernel/syscall/sysfile.c\<close> on the address space, \<^verbatim>\<open>exec\<close>, \<^verbatim>\<open>mmap\<close> and
  \<^verbatim>\<open>munmap\<close>.

  \<^verbatim>\<open>exec\<close> builds a new page table beside the old one, reads the segments of the ELF file into its pages, puts the
  arguments on the new stack through the kernel page table of the process, and only then replaces the image. The local variables \<^verbatim>\<open>elf\<close> and \<^verbatim>\<open>ph\<close> are
  the bytes read (\<open>read_local\<close>); segments are read into physical memory (\<open>kmuio\<close>). The argument vector is the list of its strings,
  without the null pointer at its end.
\<close>

section \<open>Reading the file\<close>

definition kfs :: "'w kst \<Rightarrow> fs" where
  "kfs s = ft_fs (sy_ft (mm_x (pl_m s)))"

definition set_kfs :: "fs \<Rightarrow> 'w kst \<Rightarrow> 'w kst" where
  "set_kfs fs s = s\<lparr>pl_m := (pl_m s)\<lparr>mm_x := set_fs fs (mm_x (pl_m s))\<rparr>\<rparr>"

definition kcwd :: "nat \<Rightarrow> 'w kst \<Rightarrow> eptr" where
  "kcwd i s = sy_cwd (mm_x (pl_m s)) ! i"

definition eread_to :: "'m uio \<Rightarrow> eptr \<Rightarrow> 'm \<Rightarrow> u64 \<Rightarrow> u32 \<Rightarrow> u32 \<Rightarrow> fs \<Rightarrow> (u32 \<times> 'm \<times> fs) res" where
  "eread_to io ep m dst off n fs =
     rmap (\<lambda>(r, e, b, m1). (r, m1, (upd_ent fs ep (\<lambda>_. e))\<lparr>fs_blk := b\<rparr>)) (eread io (fs_fat fs) (fs_blk fs) m (ent fs ep) dst off n)"

text \<open>Reading \<open>n\<close> bytes into a local variable.\<close>

definition read_local :: "eptr \<Rightarrow> u32 \<Rightarrow> u32 \<Rightarrow> fs \<Rightarrow> (u32 \<times> bytes \<times> fs) res" where
  "read_local ep off n fs = rmap (\<lambda>(r, m, fs1). (r, mem_get m 0 (unat n), fs1)) (eread_to kuio ep (\<lambda>_. 0) 0 off n fs)"

definition kmuio :: "kmem uio" where
  "kmuio = \<lparr>uio_in = (\<lambda>m a n. (map (\<lambda>j. mem_byte (km_mem m) (a + of_nat j)) [0..<n], True)),
     uio_out = (\<lambda>m a bs. (m\<lparr>km_mem := mem_set_bytes (km_mem m) a bs\<rparr>, True))\<rparr>"

text \<open>\<^verbatim>\<open>struct elfhdr\<close> has 64 bytes and \<^verbatim>\<open>struct proghdr\<close> 56; these are the fields that \<^verbatim>\<open>exec\<close> looks at.\<close>

record elfhdr =
  eh_magic :: u32
  eh_entry :: u64
  eh_phoff :: u64
  eh_phnum :: u16

definition elf_of :: "bytes \<Rightarrow> elfhdr" where
  "elf_of d = \<lparr>eh_magic = le32 d 0, eh_entry = le64 (take 8 (drop 24 d)), eh_phoff = le64 (take 8 (drop 32 d)), eh_phnum = le16 d 56\<rparr>"

record proghdr =
  ph_type :: u32
  ph_off :: u64
  ph_vaddr :: u64
  ph_filesz :: u64
  ph_memsz :: u64

definition ph_of :: "bytes \<Rightarrow> proghdr" where
  "ph_of d = \<lparr>ph_type = le32 d 0, ph_off = le64 (take 8 (drop 8 d)), ph_vaddr = le64 (take 8 (drop 16 d)),
     ph_filesz = le64 (take 8 (drop 32 d)), ph_memsz = le64 (take 8 (drop 40 d))\<rparr>"

abbreviation (input) ELF_MAGIC :: u32 where "ELF_MAGIC \<equiv> 0x464C457F"
abbreviation (input) MAXARG :: nat where "MAXARG \<equiv> 32"

section \<open>Segments\<close>

text \<open>
  The loop of \<^verbatim>\<open>loadseg\<close> over the offsets \<open>j\<close> of the pages of the segment. \<^verbatim>\<open>exec\<close> calls it with at most \<^verbatim>\<open>MAXUVA\<close> bytes, so the counter of the code does not wrap.
\<close>

fun loadseg_loop :: "kenv \<Rightarrow> u64 \<Rightarrow> u64 \<Rightarrow> eptr \<Rightarrow> u32 \<Rightarrow> u32 \<Rightarrow> u32 list \<Rightarrow> 'w kst \<Rightarrow> (int \<times> 'w kst) res" where
  "loadseg_loop k pt va ep offset sz [] s = Ok (0, s)"
| "loadseg_loop k pt va ep offset sz (j # js) s =
     rbind (walkaddr k pt (va + ucast j) (mm_k (pl_m s))) (\<lambda>pa.
       if pa = 0 then Panic ''loadseg: address should exist''
       else let n = (if sz - j < 0x1000 then sz - j else 0x1000)
            in rbind (eread_to kmuio ep (mm_k (pl_m s)) pa (offset + j) n (kfs s)) (\<lambda>(r, m, fs).
                 let s1 = set_kfs fs (s\<lparr>pl_m := (pl_m s)\<lparr>mm_k := m\<rparr>\<rparr>)
                 in if r \<noteq> n then Ok (-1, s1) else loadseg_loop k pt va ep offset sz js s1))"

definition loadseg :: "kenv \<Rightarrow> u64 \<Rightarrow> u64 \<Rightarrow> eptr \<Rightarrow> u32 \<Rightarrow> u32 \<Rightarrow> 'w kst \<Rightarrow> (int \<times> 'w kst) res" where
  "loadseg k pt va ep offset sz s =
     (if va mod PGSIZE \<noteq> 0 then Panic ''loadseg: va must be page aligned''
      else loadseg_loop k pt va ep offset sz (map (\<lambda>j. of_nat (4096 * j)) [0..<(unat sz + 4095) div 4096]) s)"

text \<open>One round of the loop over program headers: whether it goes on, and the variable \<^verbatim>\<open>sz\<close>.\<close>

definition load_segment :: "kenv \<Rightarrow> u64 \<Rightarrow> eptr \<Rightarrow> u32 \<Rightarrow> u64 \<Rightarrow> 'w kst \<Rightarrow> (bool \<times> u64 \<times> 'w kst) res" where
  "load_segment k pt ep off sz s =
     rbind (read_local ep off 56 (kfs s)) (\<lambda>(r, d, fs).
       let s1 = set_kfs fs s; ph = ph_of d
       in if r \<noteq> 56 then Ok (False, sz, s1)
          else if ph_type ph \<noteq> 1 then Ok (True, sz, s1)
          else if ph_memsz ph < ph_filesz ph then Ok (False, sz, s1)
          else if ph_vaddr ph + ph_memsz ph < ph_vaddr ph then Ok (False, sz, s1)
          else if MAXUVA \<le> ph_vaddr ph \<or> MAXUVA - ph_vaddr ph < ph_memsz ph then Ok (False, sz, s1)
          else rbind (in_k (uvmalloc k pt sz (ph_vaddr ph + ph_memsz ph)) s1) (\<lambda>(sz2, s2).
            if sz2 = 0 then Ok (False, sz, s2)
            else if ph_vaddr ph mod PGSIZE \<noteq> 0 then Ok (False, sz2, s2)
            else rmap (\<lambda>(r, s3). (\<not> r < 0, sz2, s3)) (loadseg k pt (ph_vaddr ph) ep (ucast (ph_off ph)) (ucast (ph_filesz ph)) s2)))"

fun load_segments :: "kenv \<Rightarrow> u64 \<Rightarrow> eptr \<Rightarrow> u32 list \<Rightarrow> u64 \<Rightarrow> 'w kst \<Rightarrow> (bool \<times> u64 \<times> 'w kst) res" where
  "load_segments k pt ep [] sz s = Ok (True, sz, s)"
| "load_segments k pt ep (off # offs) sz s =
     rbind (load_segment k pt ep off sz s) (\<lambda>(ok, sz1, s1). if ok then load_segments k pt ep offs sz1 s1 else Ok (False, sz1, s1))"

section \<open>The new image\<close>

text \<open>The user part of the kernel page table \<open>kpt\<close>, with \<open>old\<close> bytes of the previous image, is replaced by that of \<open>pt\<close>.\<close>

definition exec_stage :: "kenv \<Rightarrow> string \<Rightarrow> u64 \<Rightarrow> u64 \<Rightarrow> u64 \<Rightarrow> u64 \<Rightarrow> kmem \<Rightarrow> kmem res" where
  "exec_stage k msg kpt old pt sz m =
     rbind (uvmunmap k kpt 0 (PGROUNDUP old div PGSIZE) False m) (\<lambda>m1.
     rbind (uvm_stack_unmap k kpt False m1) (\<lambda>m2.
     rbind (upg2ukpg k pt kpt 0 sz m2) (\<lambda>(r, m3). if r < 0 then Panic msg else uvm_stack_sync k pt kpt m3)))"

definition exec_release :: "eptr \<Rightarrow> 'w kst \<Rightarrow> 'w kst res" where
  "exec_release ep s = rbind (eunlock (kfs s) ep) (\<lambda>fs. rmap (\<lambda>fs1. set_kfs fs1 s) (eput fs ep))"

text \<open>The label \<^verbatim>\<open>bad\<close>.\<close>

definition exec_bad :: "'w penv \<Rightarrow> nat \<Rightarrow> eptr \<Rightarrow> bool \<Rightarrow> u64 \<Rightarrow> u64 \<Rightarrow> 'w kst \<Rightarrow> (int \<times> 'w kst) res" where
  "exec_bad e i ep staged pt sz s =
     (let k = pe_k e; p = pget s i
      in rbind (if staged then in_kmem (exec_stage k ''exec: restore user pages'' (p_kpagetable p) sz (p_pagetable p) (p_sz p)) s else Ok s) (\<lambda>s1.
         rbind (if pt \<noteq> 0 then in_kmem (proc_freepagetable k pt sz) s1 else Ok s1) (\<lambda>s2.
         rmap (Pair (-1)) (exec_release ep s2))))"

abbreviation (input) stackbase :: u64 where "stackbase \<equiv> USER_STACK_TOP - PGSIZE"

definition exec_copyout :: "'w penv \<Rightarrow> nat \<Rightarrow> u64 \<Rightarrow> bytes \<Rightarrow> 'w kst \<Rightarrow> (int \<times> 'w kst) res" where
  "exec_copyout e i sp bs s = rmap (\<lambda>(r, m). (r, s\<lparr>pl_m := m\<rparr>)) (copyout (pe_k e) (pfe e) (pget s i) sp bs (pl_m s))"

text \<open>The loop over the arguments; \<open>us\<close> are the entries of \<^verbatim>\<open>ustack\<close> so far. \<open>None\<close> stands for \<^verbatim>\<open>goto bad\<close>.\<close>

fun push_args :: "'w penv \<Rightarrow> nat \<Rightarrow> bytes list \<Rightarrow> u64 \<Rightarrow> u64 list \<Rightarrow> 'w kst \<Rightarrow> ((u64 \<times> u64 list) option \<times> 'w kst) res" where
  "push_args e i [] sp us s = Ok (Some (sp, us), s)"
| "push_args e i (a # as) sp us s =
     (if MAXARG \<le> length us then Ok (None, s)
      else let sp1 = sp - of_nat (strlen a + 1); sp2 = sp1 - sp1 mod 16
           in if sp2 < stackbase then Ok (None, s)
              else rbind (exec_copyout e i sp2 (cstr a @ [0]) s) (\<lambda>(r, s1).
                if r < 0 then Ok (None, s1) else push_args e i as sp2 (us @ [sp2]) s1))"

definition push_array :: "'w penv \<Rightarrow> nat \<Rightarrow> u64 \<Rightarrow> u64 list \<Rightarrow> 'w kst \<Rightarrow> (u64 option \<times> 'w kst) res" where
  "push_array e i sp us s =
     (let sp1 = sp - of_nat (8 * (length us + 1)); sp2 = sp1 - sp1 mod 16
      in if sp2 < stackbase then Ok (None, s)
         else rmap (\<lambda>(r, s1). (if r < 0 then None else Some sp2, s1)) (exec_copyout e i sp2 (concat (map le64_bytes (us @ [0]))) s))"

definition push_argv :: "'w penv \<Rightarrow> nat \<Rightarrow> bytes list \<Rightarrow> 'w kst \<Rightarrow> (u64 option \<times> 'w kst) res" where
  "push_argv e i argv s =
     rbind (push_args e i argv USER_STACK_TOP [] s) (\<lambda>(r, s1).
       case r of None \<Rightarrow> Ok (None, s1) | Some (sp, us) \<Rightarrow> push_array e i sp us s1)"

text \<open>\<^verbatim>\<open>last\<close>: what follows the last slash.\<close>

fun path_last :: "bytes \<Rightarrow> bytes \<Rightarrow> bytes" where
  "path_last l [] = l"
| "path_last l (c # s) = (if c = 0 then l else if c = 0x2F then path_last s s else path_last l s)"

definition name_of :: "bytes \<Rightarrow> string" where
  "name_of path = map (\<lambda>b. char_of (unat b)) (take 15 (cstr (path_last path path)))"

definition exec_commit :: "'w penv \<Rightarrow> nat \<Rightarrow> bytes \<Rightarrow> eptr \<Rightarrow> u64 \<Rightarrow> u64 \<Rightarrow> u64 \<Rightarrow> u64 \<Rightarrow> nat \<Rightarrow> 'w kst \<Rightarrow> (int \<times> 'w kst) res" where
  "exec_commit e i path ep pt sz entry sp argc s =
     (let old = pget s i
      in rbind (destroy_vmas e i (pset i (\<lambda>p. p\<lparr>p_trapframe := (p_trapframe p)\<lparr>tf_a1 := sp\<rparr>\<rparr>) s)) (\<lambda>s1.
         let s2 = pset i (\<lambda>p. p\<lparr>p_pagetable := pt, p_sz := sz, p_trapframe := (p_trapframe p)\<lparr>tf_epc := entry, tf_sp := sp\<rparr>,
                    p_name := name_of path\<rparr>) s1
         in rbind (in_kmem (proc_freepagetable (pe_k e) (p_pagetable old) (p_sz old)) s2) (\<lambda>s3.
            rmap (Pair (int argc)) (exec_release ep (pset i signal_reset_on_exec s3)))))"

text \<open>From the stack of the new image to the end.\<close>

definition exec_stack :: "'w penv \<Rightarrow> nat \<Rightarrow> bytes \<Rightarrow> bytes list \<Rightarrow> eptr \<Rightarrow> u64 \<Rightarrow> u64 \<Rightarrow> u64 \<Rightarrow> 'w kst \<Rightarrow> (int \<times> 'w kst) res" where
  "exec_stack e i path argv ep entry pt sz s =
     rbind (in_k (uvm_stack_init (pe_k e) pt) s) (\<lambda>(r, s1).
       if r < 0 then exec_bad e i ep False pt sz s1
       else rbind (in_kmem (exec_stage (pe_k e) ''exec: stage user pages'' (p_kpagetable (pget s1 i)) (p_sz (pget s1 i)) pt sz) s1) (\<lambda>s2.
            rbind (push_argv e i argv s2) (\<lambda>(r, s3).
              case r of
                None \<Rightarrow> exec_bad e i ep True pt sz s3
              | Some sp \<Rightarrow> exec_commit e i path ep pt sz entry sp (length argv) s3)))"

definition exec_load :: "'w penv \<Rightarrow> nat \<Rightarrow> bytes \<Rightarrow> bytes list \<Rightarrow> eptr \<Rightarrow> elfhdr \<Rightarrow> 'w kst \<Rightarrow> (int \<times> 'w kst) res" where
  "exec_load e i path argv ep elf s =
     rbind (in_k (proc_pagetable (pe_k e) (pget s i)) s) (\<lambda>(pt, s1).
       if pt = 0 then exec_bad e i ep False 0 0 s1
       else rbind (load_segments (pe_k e) pt ep (map (\<lambda>j. ucast (eh_phoff elf) + of_nat (56 * j)) [0..<unat (eh_phnum elf)]) 0 s1) (\<lambda>(ok, sz, s2).
         if ok then exec_stack e i path argv ep (eh_entry elf) pt (PGROUNDUP sz) s2 else exec_bad e i ep False pt sz s2))"

definition exec :: "'w penv \<Rightarrow> nat \<Rightarrow> bytes \<Rightarrow> bytes list \<Rightarrow> 'w kst \<Rightarrow> (int \<times> 'w kst) res" where
  "exec e i path argv s =
     rbind (ename (kfs s) (kcwd i s) path) (\<lambda>(r, fs).
       case r of
         None \<Rightarrow> Ok (-1, set_kfs fs s)
       | Some ep \<Rightarrow>
           rbind (elock fs ep) (\<lambda>fs1.
           rbind (read_local ep 0 64 fs1) (\<lambda>(r, d, fs2).
             let s1 = set_kfs fs2 s; elf = elf_of d
             in if r \<noteq> 64 \<or> eh_magic elf \<noteq> ELF_MAGIC \<or> MAXUVA \<le> eh_entry elf then exec_bad e i ep False 0 0 s1
                else exec_load e i path argv ep elf s1)))"

section \<open>System calls\<close>

text \<open>
  The loop of \<^verbatim>\<open>sys_exec\<close> from index \<open>j\<close>: the pages allocated for the strings, and the strings unless it leaves through \<^verbatim>\<open>goto out\<close>. A string is stored in its
  page and kept beside it.
\<close>

fun exec_args :: "nat \<Rightarrow> 'w penv \<Rightarrow> nat \<Rightarrow> u64 \<Rightarrow> nat \<Rightarrow> u64 list \<Rightarrow> bytes list \<Rightarrow> 'w mach \<Rightarrow> (u64 list \<times> bytes list option \<times> 'w mach) res" where
  "exec_args 0 e i uargv j pages strs s = Ok (pages, None, s)"
| "exec_args (Suc n) e i uargv j pages strs s =
     rbind (fetchaddr e i (uargv + of_nat (8 * j)) s) (\<lambda>(r, s1).
       case r of
         None \<Rightarrow> Ok (pages, None, s1)
       | Some uarg \<Rightarrow>
           if uarg = 0 then Ok (pages, Some strs, s1)
           else let (pa, k) = kalloc (pe_k e) (mm_k (pl_m (mc_s s1))); s2 = s1\<lparr>mc_s := (mc_s s1)\<lparr>pl_m := (pl_m (mc_s s1))\<lparr>mm_k := k\<rparr>\<rparr>\<rparr>
                in if pa = 0 then Ok (pages, None, s2)
                   else rbind (fetchstr e i uarg 4096 s2) (\<lambda>(r, buf, s3).
                     rbind (in_kmem (\<lambda>m. Ok (m\<lparr>km_mem := mem_set_bytes (km_mem m) pa buf\<rparr>)) (mc_s s3)) (\<lambda>k4.
                       let s4 = s3\<lparr>mc_s := k4\<rparr>
                       in if r < 0 then Ok (pages @ [pa], None, s4) else exec_args n e i uargv (j + 1) (pages @ [pa]) (strs @ [buf]) s4)))"

definition sys_exec :: "'w penv \<Rightarrow> nat \<Rightarrow> 'w mach \<Rightarrow> (sysret \<times> 'w mach) res" where
  "sys_exec e i s =
     rbind (argstr e i 0 260 s) (\<lambda>(r, path, s1).
     rbind (if r < 0 then Ok (-1, 0) else argaddr (cur s1 i) 1) (\<lambda>(r, uargv).
       if r < 0 then Ok (ret (-1), s1)
       else rbind (exec_args MAXARG e i uargv 0 [] [] s1) (\<lambda>(pages, argv, s2).
            rbind (case argv of None \<Rightarrow> Ok (-1, s2) | Some argv \<Rightarrow> with_kst (exec e i path argv (mc_s s2)) s2) (\<lambda>(rv, s3).
              rmap (\<lambda>k. (ret rv, s3\<lparr>mc_s := k\<rparr>)) (rfold (\<lambda>pa. in_kmem (\<lambda>m. kfree (pe_k e) m pa)) pages (mc_s s3))))))"

definition with_area :: "nat \<Rightarrow> ('a \<times> proc \<times> 'w sys mm) res \<Rightarrow> 'w mach \<Rightarrow> ('a \<times> 'w mach) res" where
  "with_area i r s = rmap (\<lambda>(v, p, m). (v, s\<lparr>mc_s := pset i (\<lambda>_. p) ((mc_s s)\<lparr>pl_m := m\<rparr>)\<rparr>)) r"

definition sys_mmap :: "'w penv \<Rightarrow> nat \<Rightarrow> 'w mach \<Rightarrow> (sysret \<times> 'w mach) res" where
  "sys_mmap e i s =
     (let p = cur s i; k = pe_k e; fe = pfe e; m = pl_m (mc_s s)
      in rbind (argaddr p 0) (\<lambda>(r, addr). rbind (argint p 1) (\<lambda>len. rbind (argint p 2) (\<lambda>prot. rbind (argint p 3) (\<lambda>flags.
         rbind (argint p 4) (\<lambda>fd. rbind (argint p 5) (\<lambda>offset.
           if r < 0 \<or> sint len \<le> 0 \<or> sint offset < 0 then Ok (ret (-1), s)
           else if flags AND MAP_ANONYMOUS \<noteq> 0 then
             if sint fd \<noteq> -1 \<or> offset \<noteq> 0 then Ok (ret (-1), s)
             else rmap (\<lambda>(v, s1). (Ret v, s1)) (with_area i (vma_map_anon k fe p addr (scast len) prot flags m) s)
           else case argfd i (sint fd) (mm_x m) of
                  None \<Rightarrow> Ok (ret (-1), s)
                | Some f \<Rightarrow>
                    rmap (\<lambda>(v, s1). (Ret v, s1)) (with_area i
                      (if f_type (fget (sy_ft (mm_x m)) f) = FD_DEVICE then vma_map_device k fe p addr (scast len) prot flags (Some f) (scast offset) m
                       else vma_map_file k fe p addr (scast len) prot flags (Some f) (scast offset) m) s))))))))"

definition sys_munmap :: "'w penv \<Rightarrow> nat \<Rightarrow> 'w mach \<Rightarrow> (sysret \<times> 'w mach) res" where
  "sys_munmap e i s =
     (let p = cur s i
      in rbind (argaddr p 0) (\<lambda>(r, addr). rbind (argint p 1) (\<lambda>len.
           if r < 0 \<or> sint len \<le> 0 then Ok (ret (-1), s)
           else rmap (\<lambda>(v, s1). (ret v, s1)) (with_area i (vma_unmap (pe_k e) (pfe e) p addr (scast len) (pl_m (mc_s s))) s))))"

text \<open>FAT32 has no links; \<^verbatim>\<open>unlink\<close> is another name for \<^verbatim>\<open>remove\<close>.\<close>

definition sys_link :: "'w mach \<Rightarrow> (sysret \<times> 'w mach) res" where
  "sys_link s = Ok (ret (-1), s)"

definition sys_symlink :: "'w mach \<Rightarrow> (sysret \<times> 'w mach) res" where
  "sys_symlink s = Ok (ret (-1), s)"

definition sys_unlink :: "dirent \<Rightarrow> u32 \<Rightarrow> nat \<Rightarrow> bytes option \<Rightarrow> 'w sys \<Rightarrow> (int \<times> 'w sys) res" where
  "sys_unlink = sys_remove"

text \<open>The entries of \<^verbatim>\<open>syscalls[]\<close> for these calls, on top of those of \<^verbatim>\<open>sysproc.c\<close>.\<close>

definition image_calls :: "'w penv \<Rightarrow> u64 \<Rightarrow> nat \<Rightarrow> 'w handler option" where
  "image_calls e chan num =
     (if num = 7 then Some (\<lambda>c. sys_exec e) else if num = 25 then Some (\<lambda>c. sys_mmap e)
      else if num = 26 then Some (\<lambda>c. sys_munmap e) else if num = 19 then Some (\<lambda>c i. sys_link)
      else if num = 24 then Some (\<lambda>c i. sys_symlink) else sysproc_calls e chan num)"

section \<open>What a failing call leaves alone\<close>

lemma kst_simps [simp]: "pl_s (set_kfs fs s) = pl_s s"
  by (simp add: set_kfs_def)

lemma procs_kept:
  "pl_s s = d \<Longrightarrow> res_all (\<lambda>(r, s'). pl_s s' = d) (in_k g s)"
  "pl_s s = d \<Longrightarrow> res_all (\<lambda>s'. pl_s s' = d) (in_kmem h s)"
  "pl_s s = d \<Longrightarrow> res_all (\<lambda>(r, s'). pl_s s' = d) (exec_copyout e i sp bs s)"
  "pl_s s = d \<Longrightarrow> res_all (\<lambda>s'. pl_s s' = d) (exec_release ep s)"
  by (auto simp: in_k_def in_kmem_def exec_copyout_def exec_release_def split_def)

lemma loadseg_loop_procs: "pl_s s = d \<Longrightarrow> res_all (\<lambda>(r, s'). pl_s s' = d) (loadseg_loop k pt va ep offset sz js s)"
proof (induction js arbitrary: s)
  case (Cons j js)
  then show ?case
    by (auto simp: Let_def simp del: res_all_bind intro!: res_all_bindI [of "\<lambda>_. True"])
qed simp

lemma load_segment_procs:
  fixes s :: "'w kst"
  assumes s: "pl_s s = d"
  shows "res_all (\<lambda>(ok, sz', s'). pl_s s' = d) (load_segment k pt ep off sz s)"
proof -
  have load: "res_all (\<lambda>x. pl_s (snd x) = d) (loadseg k pt va ep off' len s2)"
    if "pl_s s2 = d" for va off' len and s2 :: "'w kst"
    using loadseg_loop_procs [OF that] by (simp add: loadseg_def split_def)
  have grow: "res_all (\<lambda>(ok, sz', s'). pl_s s' = d) (rbind (in_k g s1) (\<lambda>(sz2, s2).
      if sz2 = 0 then Ok (False, sz, s2) else if b then Ok (False, sz2, s2)
      else rmap (\<lambda>(r, s3). (\<not> r < 0, sz2, s3)) (loadseg k pt va ep off' len s2)))"
    if "pl_s s1 = d" for g b va off' len and s1 :: "'w kst"
    by (rule res_all_bindI [OF procs_kept(1) [OF that]]) (simp add: load split_def)
  show ?thesis
    unfolding load_segment_def Let_def
    by (rule res_all_bindI [of "\<lambda>_. True"]) (simp_all add: s grow split: prod.split del: res_all_bind)
qed

lemma load_segments_procs: "pl_s s = d \<Longrightarrow> res_all (\<lambda>(ok, sz', s'). pl_s s' = d) (load_segments k pt ep offs sz s)"
proof (induction offs arbitrary: sz s)
  case (Cons off offs)
  show ?case
    unfolding load_segments.simps
    by (rule res_all_bindI [OF load_segment_procs [OF Cons.prems]]) (use Cons.IH in auto)
qed simp

lemma exec_bad_procs:
  fixes s :: "'w kst"
  assumes s: "pl_s s = d"
  shows "res_all (\<lambda>(r, s'). r = -1 \<and> pl_s s' = d) (exec_bad e i ep staged pt sz s)"
proof -
  have rel: "res_all (\<lambda>(r, s'). r = -1 \<and> pl_s s' = d) (rmap (Pair (-1)) (exec_release ep s1))" if "pl_s s1 = d" for s1 :: "'w kst"
    unfolding res_all_map using procs_kept(4) [OF that] by (auto elim!: res_all_mono)
  have step: "res_all (\<lambda>s'. pl_s s' = d) (if b then in_kmem g s1 else Ok s1)" if "pl_s s1 = d" for b g and s1 :: "'w kst"
    using that procs_kept(2) [OF that] by simp
  show ?thesis
    unfolding exec_bad_def Let_def
    by (rule res_all_bindI [OF step [OF s]], rule res_all_bindI [OF step], assumption) (rule rel)
qed

section \<open>The stack of the new image\<close>

text \<open>The strings \<open>argv\<close> lie one below the other at the addresses \<open>us\<close>, between \<open>sp\<close> and \<open>sp'\<close>, in the page of the stack.\<close>

fun laid_out :: "u64 \<Rightarrow> bytes list \<Rightarrow> u64 list \<Rightarrow> u64 \<Rightarrow> bool" where
  "laid_out sp [] [] sp' = (sp' = sp)"
| "laid_out sp (a # as) (u # us) sp' =
     (unat u + strlen a + 1 \<le> unat sp \<and> stackbase \<le> u \<and> u mod 16 = 0 \<and> laid_out u as us sp')"
| "laid_out sp _ _ sp' = False"

lemma align_down:
  fixes x :: u64
  shows "(x - x mod 16) mod 16 = 0" "unat (x - x mod 16) \<le> unat x" "unat x < unat (x - x mod 16) + 16"
proof -
  have le: "x mod 16 \<le> x" by (simp add: word_le_nat_alt unat_mod)
  have u: "unat (x - x mod 16) = unat x - unat x mod 16" using unat_sub [OF le] by (simp add: unat_mod)
  have "unat ((x - x mod 16) mod 16) = 0" by (simp add: unat_mod u)
  then show "(x - x mod 16) mod 16 = 0" by (simp add: unat_eq_0)
  show "unat (x - x mod 16) \<le> unat x" "unat x < unat (x - x mod 16) + 16"
    using u mod_less_divisor [of 16 "unat x"] by simp_all
qed

text \<open>A push that ends in user memory has not wrapped around.\<close>

lemma push_down:
  fixes sp :: u64 and n :: nat
  defines "x \<equiv> sp - of_nat n"
  assumes "unat sp \<le> 2 ^ 31" "unat (x - x mod 16) + n \<le> 2 ^ 31"
  shows "unat (x - x mod 16) + n \<le> unat sp"
proof -
  have n: "unat (of_nat n :: u64) = n" using assms(3) by (simp add: unat_of_nat)
  show ?thesis
  proof (cases "n \<le> unat sp")
    case True
    then have "unat x = unat sp - n" using n by (simp add: x_def unat_sub word_le_nat_alt)
    with True align_down(2) [of x] show ?thesis by simp
  next
    case False
    then have "unat x = unat sp + 2 ^ 64 - n" using n by (simp add: x_def unat_sub_if_size word_size word_le_nat_alt)
    with assms(3) align_down(3) [of x] show ?thesis by simp
  qed
qed

lemma exec_copyout_fits:
  "pl_s s = d \<Longrightarrow> res_all (\<lambda>(r, s'). pl_s s' = d \<and> (\<not> r < 0 \<longrightarrow> unat sp + length bs \<le> 2 ^ 31)) (exec_copyout e i sp bs s)"
proof (cases "MAXUVA \<le> sp \<or> unat (MAXUVA - sp) < length bs")
  case False
  assume s: "pl_s s = d"
  from False have "unat (MAXUVA - sp) = 2 ^ 31 - unat sp" "unat sp < 2 ^ 31"
    using unat_sub [of sp "MAXUVA"] by (simp_all add: word_le_nat_alt)
  with False have "unat sp + length bs \<le> 2 ^ 31" by auto
  then show ?thesis by (rule_tac res_all_mono [OF procs_kept(3) [OF s]]) auto
qed (auto simp: exec_copyout_def copyout_def)

lemma push_args_layout:
  assumes "pl_s s = d" "unat sp \<le> 2 ^ 31"
  shows "res_all (\<lambda>(r, s'). pl_s s' = d \<and>
    (case r of None \<Rightarrow> True | Some (sp', us') \<Rightarrow> \<exists>ws. us' = us @ ws \<and> laid_out sp argv ws sp' \<and> length ws = length argv \<and> unat sp' \<le> 2 ^ 31))
    (push_args e i argv sp us s)"
  using assms
proof (induction argv arbitrary: sp us s)
  case (Cons a as)
  define x where "x = sp - of_nat (strlen a + 1)"
  let ?u = "x - x mod 16"
  have step: "res_all (\<lambda>(r, s'). pl_s s' = d \<and> (case r of None \<Rightarrow> True | Some (sp', us') \<Rightarrow>
        \<exists>ws. us' = us @ ws \<and> laid_out sp (a # as) ws sp' \<and> length ws = length (a # as) \<and> unat sp' \<le> 2 ^ 31))
      (push_args e i as ?u (us @ [?u]) s1)"
    if s1: "pl_s s1 = d" and fits: "unat ?u + length (cstr a @ [0]) \<le> 2 ^ 31" and base: "\<not> ?u < stackbase" for s1
  proof -
    have "unat ?u + (strlen a + 1) \<le> unat sp"
      using push_down [of sp "strlen a + 1"] Cons.prems(2) fits by (simp add: x_def strlen_cstr)
    then have lay: "laid_out sp (a # as) (?u # ws) sp'" if "laid_out ?u as ws sp'" for ws sp'
      using that base align_down(1) by simp
    have "unat ?u \<le> 2 ^ 31" using fits by simp
    from Cons.IH [OF s1 this, of "us @ [?u]"] show ?thesis
      by (rule res_all_mono) (auto simp del: laid_out.simps intro!: lay split: option.splits)
  qed
  show ?case
  proof (cases "MAXARG \<le> length us \<or> ?u < stackbase")
    case True
    then show ?thesis unfolding push_args.simps Let_def x_def [symmetric] using Cons.prems(1) by auto
  next
    case False
    then have run: "push_args e i (a # as) sp us s = rbind (exec_copyout e i ?u (cstr a @ [0]) s) (\<lambda>(r, s1).
        if r < 0 then Ok (None, s1) else push_args e i as ?u (us @ [?u]) s1)"
      unfolding push_args.simps Let_def x_def [symmetric] by simp
    show ?thesis
      unfolding run
    proof (rule res_all_bindI [OF exec_copyout_fits [OF Cons.prems(1)]], clarify)
      fix r :: int and s1 :: "'a kst"
      assume "\<not> r < 0 \<longrightarrow> unat ?u + length (cstr a @ [0]) \<le> 2 ^ 31" "d = pl_s s1"
      then show "res_all (\<lambda>(r, s'). pl_s s' = pl_s s1 \<and> (case r of None \<Rightarrow> True | Some (sp', us') \<Rightarrow>
          \<exists>ws. us' = us @ ws \<and> laid_out sp (a # as) ws sp' \<and> length ws = length (a # as) \<and> unat sp' \<le> 2 ^ 31))
        (if r < 0 then Ok (None, s1) else push_args e i as ?u (us @ [?u]) s1)"
        using step [of s1] False by (cases "r < 0") simp_all
    qed
  qed
qed simp

text \<open>The strings, and below them the array of pointers at \<open>sp\<close>, with its null pointer.\<close>

definition stack_image :: "bytes list \<Rightarrow> u64 \<Rightarrow> bool" where
  "stack_image argv sp \<longleftrightarrow> (\<exists>us l. laid_out USER_STACK_TOP argv us l \<and> length us = length argv \<and>
     unat sp + 8 * (length argv + 1) \<le> unat l \<and> stackbase \<le> sp \<and> sp mod 16 = 0)"

lemma length_le64s: "length (concat (map le64_bytes vs)) = 8 * length vs"
  by (induction vs) (simp_all add: le64_bytes_def)

lemma push_array_layout:
  assumes s: "pl_s s = d" and lay: "laid_out USER_STACK_TOP argv us l" and us: "length us = length argv" and l: "unat l \<le> 2 ^ 31"
  shows "res_all (\<lambda>(r, s'). pl_s s' = d \<and> (\<forall>sp. r = Some sp \<longrightarrow> stack_image argv sp)) (push_array e i l us s)"
proof -
  define x where "x = l - of_nat (8 * (length us + 1))"
  let ?sp = "x - x mod 16"
  have "stack_image argv ?sp" if "\<not> ?sp < stackbase" "unat ?sp + length (concat (map le64_bytes (us @ [0]))) \<le> 2 ^ 31"
  proof -
    have "unat ?sp + 8 * (length us + 1) \<le> unat l"
      using push_down [of l "8 * (length us + 1)"] l that(2) unfolding length_le64s x_def by simp
    then show ?thesis
      unfolding stack_image_def using lay us that(1) align_down(1) by (intro exI [of _ us] exI [of _ l]) simp
  qed
  then show ?thesis
    unfolding push_array_def Let_def x_def [symmetric]
    using s exec_copyout_fits [OF s, of ?sp "concat (map le64_bytes (us @ [0]))" e i]
    by (auto elim!: res_all_mono split: if_splits)
qed

lemma push_argv_layout:
  assumes "pl_s s = d"
  shows "res_all (\<lambda>(r, s'). pl_s s' = d \<and> (\<forall>sp. r = Some sp \<longrightarrow> stack_image argv sp)) (push_argv e i argv s)"
  unfolding push_argv_def
  by (rule res_all_bindI [OF push_args_layout [OF assms]]) (simp, auto intro!: push_array_layout split: option.splits)

section \<open>Replacing the image\<close>

definition new_image :: "bytes \<Rightarrow> u64 \<Rightarrow> u64 \<Rightarrow> u64 \<Rightarrow> u64 \<Rightarrow> vma_area list \<Rightarrow> proc \<Rightarrow> proc" where
  "new_image path pt sz entry sp vs p =
     signal_reset_on_exec (p\<lparr>p_vmas := vs, p_pagetable := pt, p_sz := sz,
       p_trapframe := (p_trapframe p)\<lparr>tf_a1 := sp, tf_epc := entry, tf_sp := sp\<rparr>, p_name := name_of path\<rparr>)"

lemma set_proc_twice: "set_proc (set_proc sd i f) i g = set_proc sd i (\<lambda>p. g (f p))"
  by (cases "i < length (sd_procs sd)") (simp_all add: set_proc_def list_update_beyond)

lemma destroy_vmas_procs:
  "res_all (\<lambda>s'. \<exists>vs. (\<forall>v \<in> set vs. \<not> v_used v) \<and> length vs = length (p_vmas (pget s i)) \<and>
     pl_s s' = set_proc (pl_s s) i (\<lambda>p. p\<lparr>p_vmas := vs\<rparr>)) (destroy_vmas e i s)"
proof (cases "vma_destroy_all (pe_k e) (pfe e) (pget s i) (pl_m s)")
  case (Ok x)
  obtain p m where x: "x = (p, m)" by force
  from Ok have "p = (pget s i)\<lparr>p_vmas := p_vmas p\<rparr>" by (auto simp: x vma_destroy_all_def rmap_Ok_iff)
  then show ?thesis
    using vma_destroy_all_ok(1,2) [OF Ok [unfolded x]]
    by (simp add: destroy_vmas_def Ok x) (intro exI [of _ "p_vmas p"], simp add: set_proc_def)
qed (simp add: destroy_vmas_def)

lemma exec_commit_procs:
  fixes s :: "'w kst"
  shows "res_all (\<lambda>(r, s'). r = int argc \<and> (\<exists>vs. (\<forall>v \<in> set vs. \<not> v_used v) \<and>
    pl_s s' = set_proc (pl_s s) i (new_image path pt sz entry sp vs))) (exec_commit e i path ep pt sz entry sp argc s)"
proof -
  let ?f = "\<lambda>p. p\<lparr>p_trapframe := (p_trapframe p)\<lparr>tf_a1 := sp\<rparr>\<rparr>"
  let ?g = "\<lambda>p. p\<lparr>p_pagetable := pt, p_sz := sz, p_trapframe := (p_trapframe p)\<lparr>tf_epc := entry, tf_sp := sp\<rparr>, p_name := name_of path\<rparr>"
  have tail: "res_all (\<lambda>(r, s'). r = int argc \<and> pl_s s' = set_proc d i signal_reset_on_exec)
      (rbind (in_kmem h s2) (\<lambda>s3. rmap (Pair (int argc)) (exec_release ep (pset i signal_reset_on_exec s3))))"
    if "pl_s s2 = d" for h d and s2 :: "'w kst"
    by (rule res_all_bindI [OF procs_kept(2) [OF that]]) (auto intro!: procs_kept(4))
  show ?thesis
    unfolding exec_commit_def Let_def
  proof (rule res_all_bindI [OF destroy_vmas_procs], elim exE conjE)
    fix s1 :: "'w kst" and vs
    assume vs: "\<forall>v \<in> set vs. \<not> v_used v" and s1: "pl_s s1 = set_proc (pl_s (pset i ?f s)) i (\<lambda>p. p\<lparr>p_vmas := vs\<rparr>)"
    have "set_proc (pl_s (pset i ?g s1)) i signal_reset_on_exec = set_proc (pl_s s) i (new_image path pt sz entry sp vs)"
      by (simp add: s1 set_proc_twice) (simp add: set_proc_def new_image_def)
    with vs show "res_all (\<lambda>(r, s'). r = int argc \<and> (\<exists>vs. (\<forall>v \<in> set vs. \<not> v_used v) \<and>
        pl_s s' = set_proc (pl_s s) i (new_image path pt sz entry sp vs)))
      (rbind (in_kmem (proc_freepagetable (pe_k e) (p_pagetable (pget s i)) (p_sz (pget s i))) (pset i ?g s1))
        (\<lambda>s3. rmap (Pair (int argc)) (exec_release ep (pset i signal_reset_on_exec s3))))"
      by (intro res_all_mono [OF tail [OF refl]]) auto
  qed
qed

definition exec_result :: "sched \<Rightarrow> nat \<Rightarrow> bytes \<Rightarrow> bytes list \<Rightarrow> u64 \<Rightarrow> int \<Rightarrow> sched \<Rightarrow> bool" where
  "exec_result d i path argv entry r d' \<longleftrightarrow> r = -1 \<and> d' = d \<or>
     r = int (length argv) \<and> (\<exists>pt sz sp vs. pt \<noteq> 0 \<and> page_aligned sz \<and> stack_image argv sp \<and> (\<forall>v \<in> set vs. \<not> v_used v) \<and>
       d' = set_proc d i (new_image path pt sz entry sp vs))"

lemma exec_bad_result: "pl_s s = d \<Longrightarrow> res_all (\<lambda>(r, s'). exec_result d i path argv entry r (pl_s s')) (exec_bad e i ep staged pt sz s)"
  by (rule res_all_mono [OF exec_bad_procs]) (auto simp: exec_result_def)

lemma exec_commit_result:
  assumes "pl_s s = d" "stack_image argv sp" "pt \<noteq> 0"
  shows "res_all (\<lambda>(r, s'). exec_result d i path argv entry r (pl_s s')) (exec_commit e i path ep pt (PGROUNDUP sz) entry sp (length argv) s)"
  by (rule res_all_mono [OF exec_commit_procs], clarsimp simp: exec_result_def) (use assms page_aligned_PGROUNDUP in blast)

lemma exec_args_result:
  assumes "pl_s s = d" "pt \<noteq> 0"
  shows "res_all (\<lambda>(r, s'). exec_result d i path argv entry r (pl_s s')) (rbind (push_argv e i argv s) (\<lambda>(r, s3).
    case r of None \<Rightarrow> exec_bad e i ep True pt (PGROUNDUP sz) s3 | Some sp \<Rightarrow> exec_commit e i path ep pt (PGROUNDUP sz) entry sp (length argv) s3))"
  by (rule res_all_bindI [OF push_argv_layout [OF assms(1)]])
     (auto split: option.splits intro!: exec_bad_result exec_commit_result assms(2))

lemma exec_stack_result:
  assumes "pl_s s = d" "pt \<noteq> 0"
  shows "res_all (\<lambda>(r, s'). exec_result d i path argv entry r (pl_s s')) (exec_stack e i path argv ep entry pt (PGROUNDUP sz) s)"
  unfolding exec_stack_def
  by (rule res_all_bindI [OF procs_kept(1) [OF assms(1)]])
     (auto simp del: res_all_bind intro!: exec_bad_result res_all_bindI [OF procs_kept(2)] exec_args_result assms(2))

lemma exec_load_result:
  assumes "pl_s s = d"
  shows "res_all (\<lambda>(r, s'). exec_result d i path argv (eh_entry elf) r (pl_s s')) (exec_load e i path argv ep elf s)"
  unfolding exec_load_def
  by (rule res_all_bindI [OF procs_kept(1) [OF assms]])
     (auto simp del: res_all_bind intro!: exec_bad_result res_all_bindI [OF load_segments_procs] exec_stack_result)

text \<open>The name of the process is what follows the last slash of the path.\<close>

lemma cstr_path_last:
  "cstr (path_last l s) = (if 0x2F \<in> set (cstr s) then rev (takeWhile (\<lambda>c. c \<noteq> 0x2F) (rev (cstr s))) else cstr l)"
proof (induction l s rule: path_last.induct)
  case (2 l c s)
  have "takeWhile (\<lambda>c. c \<noteq> 0x2F) (rev (cstr s) @ [c]) = takeWhile (\<lambda>c. c \<noteq> 0x2F) (rev (cstr s))" if "0x2F \<in> set (cstr s)"
    using that by (simp add: takeWhile_append1 [of "0x2F"])
  moreover have "takeWhile (\<lambda>c. c \<noteq> 0x2F) (rev (cstr s) @ [c]) = rev (cstr s)" if "0x2F \<notin> set (cstr s)" "c = 0x2F"
    using that by (subst takeWhile_append2) auto
  ultimately show ?case using 2 by auto
qed simp

lemma name_of_last: "name_of path = map (\<lambda>b. char_of (unat b)) (take 15 (rev (takeWhile (\<lambda>c. c \<noteq> 0x2F) (rev (cstr path)))))"
proof -
  have "takeWhile (\<lambda>c. c \<noteq> 0x2F) (rev (cstr path)) = rev (cstr path)" if "0x2F \<notin> set (cstr path)"
    using that by (auto simp: takeWhile_eq_all_conv)
  then show ?thesis by (cases "0x2F \<in> set (cstr path)") (simp_all add: name_of_def cstr_path_last del: takeWhile_eq_all_conv)
qed

section \<open>Properties\<close>



end
