(* ===== verification/Spec2Isabelle.thy ===== *)
theory Spec2Isabelle
  imports RingBuffer Pipe Sched Bio CString FatName FatFile FatTree FaultZero Kmalloc SysIo ProcTree Locks Trap Exec
begin

text \<open>
  \<^bold>\<open>A verification of the xv6-k210 kernel.\<close>

  The program is a teaching kernel for RISC-V (the Kendryte K210 board and QEMU), written in C under
  \<^verbatim>\<open>src/kernel/\<close>. This development translates its machine-independent core into HOL functions and proves what
  makes that core correct. Each theory models one group of source files; its definitions keep the names of
  the C functions and appear in the order in which the theory needs them.

  \<^bold>\<open>Conventions.\<close> C integers of fixed width are words (\<open>u8\<close> to \<open>u64\<close>), so arithmetic wraps as in the code; \<^verbatim>\<open>int\<close>
  values that cannot leave their range are \<open>int\<close>. Physical memory is a function from word addresses
  (\<open>km_mem\<close>), so that page tables and free lists are really stored in the frames that the allocator hands out.
  Tables of structures are lists, pointers into them are indices, and \<open>None\<close> is the null pointer. Code that may call
  \<^verbatim>\<open>panic\<close> returns \<open>'a res\<close>: \<open>Ok\<close> or \<open>Panic\<close> with the message. A critical section is one step; code that sleeps is
  split at the points where it gives up the CPU, and the interleavings of the parts are the subject of the
  step relations in \<open>Sched\<close> and \<open>Pipe\<close>.

  \<^bold>\<open>Parts and theories.\<close>

  \<^item> \<open>Prelude\<close>: words, page arithmetic of \<^verbatim>\<open>riscv.h\<close>, the \<open>res\<close> type, loops over tables.
  \<^item> \<open>Fifo\<close>, \<open>PageAlloc\<close>: the interfaces as locales. A byte queue (interpreted on the ring buffer of \<^verbatim>\<open>kernel/driver/ringbuffer.c\<close> in
    \<open>RingBuffer\<close> and on the pipe buffer in \<open>Pipe\<close>) and a page allocator (interpreted on \<^verbatim>\<open>kalloc.c\<close> in \<open>Kalloc\<close>); the
    clients' lemmas are proved once inside them.
  \<^item> \<open>Kalloc\<close>: \<^verbatim>\<open>kernel/vm/kalloc.c\<close>, the physical page allocator with one free list per CPU threaded through the
    free frames, stealing between CPUs and reference counts. Allocation is exclusive, \<^verbatim>\<open>kinit\<close> establishes the
    invariant, \<^verbatim>\<open>freemem\<close> counts the free frames.
  \<^item> \<open>Sv39\<close>, \<open>Vm\<close>: page-table entries and \<^verbatim>\<open>kernel/vm/vm.c\<close>. \<open>pte_of\<close> is the translation that the hardware would
    perform; \<^verbatim>\<open>walk\<close>, \<^verbatim>\<open>mappages\<close> and \<^verbatim>\<open>uvmunmap\<close> refine updates of that map and keep the table a tree of
    frames that nothing else owns.
  \<^item> \<open>ObjAlloc\<close>, \<open>Kmalloc\<close>: \<^verbatim>\<open>kernel/vm/kmalloc.c\<close>, objects cut out of frames. The locale says what an allocator of objects promises and
    what follows for a sequence of requests; it is interpreted on the slab allocator, whose headers and free lists lie in the
    frames. Live objects never overlap, and freeing one gives the page of an empty slab back.
  \<^item> \<open>Mmap\<close>, \<open>MmapAreas\<close>: \<^verbatim>\<open>kernel/vm/mmap/\<close>, areas with file, anonymous and device back ends. The table of a process
    means an address map; placement, unmapping and fork are proved against it, together with the
    reference counts of the objects.
  \<^item> \<open>VmFault\<close>, \<open>FaultCow\<close>, \<open>FaultZero\<close>: \<^verbatim>\<open>kernel/vm/vmfault.c\<close>, \<^verbatim>\<open>kernel/vm/vmcopyin.c\<close>, the kernel page tables and the page
    faults that the kernel takes on user memory. A write to a shared page gets a private copy, an absent
    heap or stack page becomes a zero page, in the page table of the process and in the kernel's copy of it.
  \<^item> \<open>Proc\<close>, \<open>Sched\<close>: the process table and the multi-level feedback queue of \<^verbatim>\<open>kernel/proc/\<close>. In every
    reachable state a process runs on exactly one CPU; the pick has the highest priority; waiting is bounded.
  \<^item> \<open>Signal\<close>: \<^verbatim>\<open>kernel/proc/signal.c\<close>. Delivery and \<^verbatim>\<open>sigreturn\<close> are inverse, SIGKILL cannot be stopped, the
    state stays consistent.
  \<^item> \<open>ProcLife\<close>, \<open>ProcTree\<close>: the life of a process in \<^verbatim>\<open>kernel/proc/proc.c\<close>, composed from the page tables, memory areas, signals, files and the scheduler:
    \<^verbatim>\<open>allocproc\<close>, \<^verbatim>\<open>userinit\<close>, \<^verbatim>\<open>fork\<close>, \<^verbatim>\<open>exit\<close>, \<^verbatim>\<open>wait\<close>, \<^verbatim>\<open>growproc\<close>. They refine operations on an abstract process tree, whose
    invariant holds in every reachable state; \<^verbatim>\<open>fork\<close> and \<^verbatim>\<open>wait\<close> are characterised on every branch.
  \<^item> \<open>Locks\<close>: \<^verbatim>\<open>kernel/lock/\<close>. Spin locks at the level of single memory operations exclude each other under every interleaving, which is why a critical
    section is one step elsewhere; interrupt nesting; sleep locks; the table of locks, which is never emptied.
  \<^item> \<open>Pipe\<close>, \<open>RingBuffer\<close>: \<^verbatim>\<open>kernel/ipc/pipe.c\<close> and the ring buffer: bytes leave in order, no wakeup is lost.
  \<^item> \<open>CString\<close>: \<^verbatim>\<open>kernel/libc/string.c\<close>.
  \<^item> \<open>Bio\<close>: \<^verbatim>\<open>kernel/fs/bio.c\<close>, the buffer cache with hashed buckets and a clock hand.
  \<^item> \<open>FatName\<close>, \<open>Fat\<close>, \<open>FatFile\<close>, \<open>FatDir\<close>, \<open>FatTree\<close>: \<^verbatim>\<open>kernel/fs/fat32.c\<close>. Names and directory entries; cluster chains and
    the FAT; reading, writing and truncating a file as operations on a byte string; directories as lists of
    items; the cache of directory entries, path lookup, creation and removal.
  \<^item> \<open>FileTable\<close>, \<open>SysFile\<close>, \<open>SysCalls\<close>, \<open>SysIo\<close>: \<^verbatim>\<open>kernel/fs/file.c\<close>, \<^verbatim>\<open>kernel/devsw/device.c\<close>, \<^verbatim>\<open>pipealloc\<close> and \<^verbatim>\<open>kernel/syscall/sysfile.c\<close>. Open
    files are pipe ends, FAT32 entries or devices; descriptors of many processes share them. \<open>SysCalls\<close> shows for every
    sequence of calls that reference counts and descriptors agree, \<open>SysFile\<close> that \<^verbatim>\<open>pipe\<close> succeeds completely or leaves
    nothing behind, \<open>SysIo\<close> that \<^verbatim>\<open>read\<close> and \<^verbatim>\<open>write\<close> on a descriptor are operations on a byte string with a position, composed
    from the descriptor table down to the clusters.
  \<^item> \<open>Format\<close>, \<open>ProcDump\<close>: \<^verbatim>\<open>kernel/libc/printf.c\<close>, \<^verbatim>\<open>kernel/libc/sprintf.c\<close> and the listing of processes in \<^verbatim>\<open>proc.c\<close>. What is printed reads back
    as the number, \<^verbatim>\<open>snprintf\<close> gives a prefix of what \<^verbatim>\<open>printf\<close> prints and exceeds its size by at most ten bytes.
  \<^item> \<open>Console\<close>: \<^verbatim>\<open>kernel/devsw/console.c\<close> on the byte streams of \<^verbatim>\<open>kernel/driver/uarths.c\<close>. A read returns a line as the line discipline makes it
    of the received bytes; control-C interrupts the foreground group and nothing else.
  \<^item> \<open>Syscall\<close>: \<^verbatim>\<open>kernel/syscall/syscall.c\<close> and \<^verbatim>\<open>kernel/syscall/sysproc.c\<close>. Arguments, dispatch, tracing and the calls on processes; with the dispatch
    included, a signal handler that returns is invisible to the program.
  \<^item> \<open>Exec\<close>: \<^verbatim>\<open>kernel/proc/exec.c\<close> and the system calls on the address space. \<^verbatim>\<open>exec\<close> replaces the image of the caller completely or changes no
    process, and lays the arguments out without overlap in the page of the stack.
  \<^item> \<open>Trap\<close>: \<^verbatim>\<open>kernel/trap/trap.c\<close> and \<^verbatim>\<open>kernel/trap/irq.c\<close>, the top of the kernel: system calls, faults, interrupts, signals, scheduling and the way
    back to user mode. No killed process returns to user mode, and a bad user pointer never stops the kernel.

  \<^bold>\<open>Bounds and fuel.\<close> Loops whose end depends on data get a natural number of steps, and running out is the distinct
  outcome \<open>None\<close> or \<open>Panic ''fuel''\<close>, which the theorems about the code exclude: \<open>freemem\<close> follows each list for at
  most 525824 links, the number of frames below \<^verbatim>\<open>PHYSTOP\<close>; \<open>eread\<close> and \<open>ewrite\<close> run for \<open>n + 1\<close> rounds because
  each transfers a byte; \<open>etrunc\<close> for \<open>data_clus_cnt + 4\<close>, more than a chain without repetition can have; \<open>eput\<close> for
  one step per cache entry and one more; directory scans for as many steps as the directory has slots (\<open>dir_fuel\<close>);
  the searches in the lists of slabs follow at most one link per frame below \<^verbatim>\<open>PHYSTOP\<close>, and \<open>getcwd_loop\<close> at most one per cached entry.
  \<open>freewalk\<close> recurses over the three levels of a table. An access to user memory is tried twice (\<open>user_touch\<close>), and \<open>FaultCow\<close> and
  \<open>FaultZero\<close> show that the second attempt succeeds once the fault is resolved. Loops over the pages of a range run over the list of their addresses.
  \<open>tty_loop\<close> runs once more than the ring has bytes, because every round takes one; \<open>consolewrite_loop\<close> for \<open>n + 1\<close> rounds, and
  \<open>consolewrite_rounds\<close> shows that more would change nothing. \<open>backtrace_loop\<close> follows stored frame pointers and is a partial function: it returns
  exactly when the chain of frames ends.

  \<^bold>\<open>Not modelled.\<close> Device drivers (\<^verbatim>\<open>kernel/driver/\<close>: FPIOA, system controller, DMA, SPI, I2C, UART, GPIO, SD card, PLIC,
  virtio) only move values between registers whose behaviour is not in the sources; of the console's UART the byte streams are modelled and the register accesses are not. Trap entry and context
  switches are assembly. The weak memory order of the processor is not modelled: each memory operation of a lock is a step of its own, in program order. The
  functions of device drivers are a parameter of \<open>FileTable\<close>. The freeze of the output after a panic, the initialisation at boot and the listing of page tables are left out. User programs, test programs and
  the boot loader are clients of the kernel and not part of it.
\<close>

end
